(* ===== verification/Blit_Prelude.thy ===== *)
theory Blit_Prelude
  imports Main "HOL-Library.Word"
begin

text \<open>
  The vocabulary the components share: the machine integers of the source, byte buffers,
  little-endian fields, and the two ways the Rust code touches a slice, reading a range
  (\<open>slice_of\<close>) and overwriting one (\<open>write_at\<close>).

  Conventions of the whole development.  A \<open>usize\<close>, and a \<open>u16\<close>/\<open>u32\<close> that is only used as a
  coordinate, a count or an offset, is a \<^typ>\<open>nat\<close> whose bound is part of the invariant of the
  record that stores it; where the source saturates or truncates, the model writes it out
  (\<open>min 65535 (a + b)\<close>, \<open>to_le 2\<close>).  Flags, identifiers and colour bytes are words.
\<close>

unbundle bit_operations_syntax

subsection \<open>Machine integers and byte buffers\<close>

type_synonym u8 = "8 word"
type_synonym u16 = "16 word"
type_synonym u32 = "32 word"
type_synonym u64 = "64 word"
type_synonym bytes = "u8 list"

named_theorems codec_simps \<open>reading back what an encoder wrote\<close>
named_theorems wire_defs \<open>constants of the wire format\<close>

subsection \<open>Lists\<close>

lemma take_length_append [codec_simps]:
  "take (length xs) (xs @ ys) = xs"
  by simp

lemma drop_length_append [codec_simps]:
  "drop (length xs) (xs @ ys) = ys"
  by simp

lemma filter_upt_Suc:
  "filter P [0..<Suc n] = filter P [0..<n] @ (if P n then [n] else [])"
  by simp

lemma length_concat_uniform:
  assumes "\<And>i. i < n \<Longrightarrow> length (f i) = d"
  shows "length (concat (map f [0..<n])) = n * d"
  using assms by (induction n) simp_all

lemma nth_concat_uniform:
  assumes "\<And>i. i < n \<Longrightarrow> length (f i) = d" and "p < n" and "j < d"
  shows "concat (map f [0..<n]) ! (p * d + j) = f p ! j"
  using assms
proof (induction n)
  case 0
  then show ?case by simp
next
  case (Suc n)
  have len: "length (concat (map f [0..<n])) = n * d"
    using Suc.prems(1) by (intro length_concat_uniform) simp
  show ?case
  proof (cases "p < n")
    case True
    have "p * d + j < n * d"
    proof -
      have "p * d + j < (p + 1) * d" using Suc.prems(3) by simp
      also have "\<dots> \<le> n * d" using True by (intro mult_le_mono1) simp
      finally show ?thesis .
    qed
    then show ?thesis
      using Suc True by (simp add: nth_append len)
  next
    case False
    then have "p = n" using Suc.prems(2) by simp
    then show ?thesis using Suc.prems by (simp add: nth_append len)
  qed
qed

subsection \<open>Reading and overwriting ranges\<close>

definition slice_of :: "'a list \<Rightarrow> nat \<Rightarrow> nat \<Rightarrow> 'a list" where
  "slice_of xs a n = take n (drop a xs)"

definition write_at :: "'a list \<Rightarrow> nat \<Rightarrow> 'a list \<Rightarrow> 'a list" where
  "write_at xs a ys = take a xs @ ys @ drop (a + length ys) xs"

lemma length_slice [simp]: "length (slice_of xs a n) = min n (length xs - a)"
  by (simp add: slice_of_def)

lemma nth_slice: "i < n \<Longrightarrow> a + n \<le> length xs \<Longrightarrow> slice_of xs a n ! i = xs ! (a + i)"
  by (simp add: slice_of_def)

lemma slice_0_length [simp]: "slice_of xs 0 (length xs) = xs"
  by (simp add: slice_of_def)

lemma slice_map_nth: "a + n \<le> length xs \<Longrightarrow> slice_of xs a n = map (\<lambda>i. xs ! (a + i)) [0..<n]"
  by (rule nth_equalityI) (simp_all add: nth_slice)

lemma slice_append_left: "a + n \<le> length xs \<Longrightarrow> slice_of (xs @ ys) a n = slice_of xs a n"
  by (simp add: slice_of_def)

lemma slice_append_right: "length xs \<le> a \<Longrightarrow> slice_of (xs @ ys) a n = slice_of ys (a - length xs) n"
  by (simp add: slice_of_def)

lemma slice_prefix [codec_simps]: "n = length xs \<Longrightarrow> slice_of (xs @ ys) 0 n = xs"
  by (simp add: slice_of_def)

lemma slice_at [codec_simps]:
  "length pre = a \<Longrightarrow> n = length xs \<Longrightarrow> slice_of (pre @ xs @ ys) a n = xs"
  by (simp add: slice_of_def)

lemma slice_drop: "slice_of (drop k xs) a n = slice_of xs (k + a) n"
  by (simp add: slice_of_def add.commute)

lemma slice_slice: "i + m \<le> n \<Longrightarrow> slice_of (slice_of xs a n) i m = slice_of xs (a + i) m"
proof -
  assume "i + m \<le> n"
  then have "min m (n - i) = m" by simp
  then show ?thesis
    by (simp add: slice_of_def drop_take take_take min.absorb1 add.commute)
qed

lemma length_splice [simp]:
  "a + length ys \<le> length xs \<Longrightarrow> length (write_at xs a ys) = length xs"
  by (simp add: write_at_def)

lemma nth_splice:
  assumes "a + length ys \<le> length xs" and "i < length xs"
  shows "write_at xs a ys ! i = (if a \<le> i \<and> i < a + length ys then ys ! (i - a) else xs ! i)"
  using assms by (auto simp: write_at_def nth_append not_le)

lemma splice_nil [simp]: "write_at xs a [] = xs"
  by (simp add: write_at_def)

subsection \<open>Records of a fixed width inside a flat buffer\<close>

text \<open>
  A grid is a flat buffer of records of width \<open>w\<close>; record \<open>k\<close> is \<open>slice_of xs (w * k) w\<close>.  Overwriting
  a run of whole records changes exactly those records.
\<close>

lemma slice_record_splice:
  assumes ys: "length ys = w * m" and fits: "a + m \<le> n" and xs: "length xs = w * n" and k: "k < n"
  shows "slice_of (write_at xs (w * a) ys) (w * k) w =
    (if a \<le> k \<and> k < a + m then slice_of ys (w * (k - a)) w else slice_of xs (w * k) w)"
proof -
  have len: "w * a + length ys \<le> length xs"
    using fits ys xs by (simp flip: distrib_left)
  have bound: "w * k + w \<le> length xs"
    using k xs by (metis Suc_leI mult_Suc_right mult_le_mono2 add.commute)
  show ?thesis
  proof (rule nth_equalityI)
    show "length (slice_of (write_at xs (w * a) ys) (w * k) w) = length (if a \<le> k \<and> k < a + m
      then slice_of ys (w * (k - a)) w else slice_of xs (w * k) w)"
    proof (cases "a \<le> k \<and> k < a + m")
      case True
      then have "w * (k - a) + w \<le> w * m"
        by (metis Suc_leI add.commute less_diff_conv2 mult_Suc_right mult_le_mono2)
      then show ?thesis using True len bound ys by simp
    next
      case False
      then show ?thesis using len by auto
    qed
  next
    fix i assume "i < length (slice_of (write_at xs (w * a) ys) (w * k) w)"
    then have i: "i < w" by simp
    have lhs: "slice_of (write_at xs (w * a) ys) (w * k) w ! i = write_at xs (w * a) ys ! (w * k + i)"
      using i len bound by (simp add: nth_slice)
    have idx: "w * k + i < length xs" using bound i by simp
    have left: "w * a \<le> w * k + i \<longleftrightarrow> a \<le> k"
    proof
      assume "w * a \<le> w * k + i"
      then have "w * a < w * Suc k" using i by simp
      then have "a < Suc k" by (simp only: mult_less_cancel1)
      then show "a \<le> k" by simp
    next
      assume "a \<le> k"
      then show "w * a \<le> w * k + i" by (simp add: trans_le_add1)
    qed
    have right: "w * k + i < w * a + length ys \<longleftrightarrow> k < a + m"
    proof
      assume "w * k + i < w * a + length ys"
      then have "w * k < w * (a + m)" using ys by (simp add: distrib_left)
      then show "k < a + m" by simp
    next
      assume "k < a + m"
      then have "w * Suc k \<le> w * (a + m)" by (intro mult_le_mono2) simp
      then show "w * k + i < w * a + length ys" using i ys by (simp add: distrib_left)
    qed
    show "slice_of (write_at xs (w * a) ys) (w * k) w ! i = (if a \<le> k \<and> k < a + m
      then slice_of ys (w * (k - a)) w else slice_of xs (w * k) w) ! i"
    proof (cases "a \<le> k \<and> k < a + m")
      case True
      then have "w * (k - a) + w \<le> length ys"
        using ys by (metis Suc_leI add.commute less_diff_conv2 mult_Suc_right mult_le_mono2)
      then have "slice_of ys (w * (k - a)) w ! i = ys ! (w * (k - a) + i)"
        using i by (simp add: nth_slice)
      moreover have "w * k + i - w * a = w * (k - a) + i"
        using True by (simp add: diff_mult_distrib2)
      ultimately show ?thesis
        using True left right lhs by (simp add: nth_splice len idx)
    next
      case False
      then have "slice_of xs (w * k) w ! i = xs ! (w * k + i)"
        using i bound by (simp add: nth_slice)
      then show ?thesis
        using False left right lhs by (auto simp: nth_splice len idx)
    qed
  qed
qed

lemma records_eqI:
  assumes "length xs = w * n" and "length ys = w * n"
    and eq: "\<And>k. k < n \<Longrightarrow> slice_of xs (w * k) w = slice_of ys (w * k) w"
  shows "xs = ys"
proof (rule nth_equalityI)
  show "length xs = length ys" using assms by simp
next
  fix i assume "i < length xs"
  then have i: "i < w * n" using assms by simp
  then have w: "0 < w" by (cases w) simp_all
  let ?k = "i div w" and ?j = "i mod w"
  have k: "?k < n" using i by (simp add: less_mult_imp_div_less mult.commute)
  have j: "?j < w" using w by simp
  have bound: "w * ?k + w \<le> w * n"
    using k by (metis Suc_leI mult_Suc_right mult_le_mono2 add.commute)
  have "slice_of xs (w * ?k) w ! ?j = slice_of ys (w * ?k) w ! ?j" using eq[OF k] by simp
  then show "xs ! i = ys ! i" using j bound assms by (simp add: nth_slice)
qed

subsection \<open>Little-endian fields\<close>

fun to_le :: "nat \<Rightarrow> nat \<Rightarrow> bytes" where
  "to_le 0 n = []"
| "to_le (Suc k) n = word_of_nat n # to_le k (n div 256)"

fun of_le :: "bytes \<Rightarrow> nat" where
  "of_le [] = 0"
| "of_le (b # bs) = unat b + 256 * of_le bs"

text \<open>\<open>rd k bs off\<close> is \<open>uN::from_le_bytes\<close> of the \<open>k\<close> bytes at \<open>off\<close>, as a number.\<close>

definition rd :: "nat \<Rightarrow> bytes \<Rightarrow> nat \<Rightarrow> nat" where
  "rd k bs off = of_le (slice_of bs off k)"

lemma length_to_le [simp]: "length (to_le k n) = k"
  by (induction k arbitrary: n) simp_all

lemma of_le_to_le: "of_le (to_le k n) = n mod 256 ^ k"
proof (induction k arbitrary: n)
  case 0
  then show ?case by simp
next
  case (Suc k)
  then show ?case by (simp add: unat_of_nat mod_mult2_eq)
qed

lemma of_le_bound: "of_le bs < 256 ^ length bs"
proof (induction bs)
  case Nil
  then show ?case by simp
next
  case (Cons b bs)
  have "unat b < 256" using unsigned_less[of b] by simp
  with Cons show ?case by simp
qed

lemma to_le_of_le: "to_le (length bs) (of_le bs) = bs"
proof (induction bs)
  case Nil
  then show ?case by simp
next
  case (Cons b bs)
  have "unat b < 256" using unsigned_less[of b] by simp
  moreover have "word_of_nat (unat b + 256 * of_le bs) = b"
  proof (rule word_unat_eq_iff[THEN iffD2])
    show "unat (word_of_nat (unat b + 256 * of_le bs) :: u8) = unat b"
      using \<open>unat b < 256\<close> by (simp only: unat_of_nat) simp
  qed
  ultimately show ?case using Cons by simp
qed

lemma rd_bound: "rd k bs off < 256 ^ k"
proof -
  have "rd k bs off < 256 ^ length (slice_of bs off k)" unfolding rd_def by (rule of_le_bound)
  also have "\<dots> \<le> 256 ^ k" by (rule power_increasing) simp_all
  finally show ?thesis .
qed

lemma rd_at: "length pre = a \<Longrightarrow> rd k (pre @ to_le k n @ ys) a = n mod 256 ^ k"
  by (simp add: rd_def slice_at of_le_to_le)

lemma rd_append_left: "a + k \<le> length xs \<Longrightarrow> rd k (xs @ ys) a = rd k xs a"
  by (simp add: rd_def slice_append_left)

lemma rd_append_right: "length xs \<le> a \<Longrightarrow> rd k (xs @ ys) a = rd k ys (a - length xs)"
  by (simp add: rd_def slice_append_right)

lemma rd_head: "rd k (to_le k n @ ys) 0 = n mod 256 ^ k"
  by (simp add: rd_def slice_prefix of_le_to_le)

lemma rd_head_only: "rd k (to_le k n) 0 = n mod 256 ^ k"
  using rd_head[of k n "[]"] by simp

lemma rd_drop: "rd k (drop d bs) a = rd k bs (d + a)"
  by (simp add: rd_def slice_drop)

text \<open>Word-valued fields.\<close>

definition wle :: "nat \<Rightarrow> 'a::len word \<Rightarrow> bytes" where
  "wle k w = to_le k (unat w)"

definition rdw :: "nat \<Rightarrow> bytes \<Rightarrow> nat \<Rightarrow> 'a::len word" where
  "rdw k bs off = word_of_nat (rd k bs off)"

lemma length_wle [simp]: "length (wle k w) = k"
  by (simp add: wle_def)

lemma rdw_at:
  fixes w :: "'a::len word"
  assumes "length pre = a" and "LENGTH('a) = 8 * k"
  shows "rdw k (pre @ wle k w @ ys) a = w"
proof -
  have "unat w < 256 ^ k"
    using unsigned_less[of w] assms(2) by (simp add: power_mult)
  then show ?thesis using assms(1) by (simp add: rdw_def wle_def rd_at)
qed

lemma rdw_append_right:
  "length xs \<le> a \<Longrightarrow> rdw k (xs @ ys) a = rdw k ys (a - length xs)"
  by (simp add: rdw_def rd_append_right)

lemma rdw_head:
  fixes w :: "'a::len word"
  shows "LENGTH('a) = 8 * k \<Longrightarrow> rdw k (wle k w @ ys) 0 = w"
  using rdw_at[of "[]" 0 k w ys] by simp

lemma rdw_drop: "rdw k (drop d bs) a = rdw k bs (d + a)"
  by (simp add: rdw_def rd_drop)

text \<open>Writing back a field that was read, and putting a buffer together again from its pieces.\<close>

lemma to_le_rd: "a + k \<le> length bs \<Longrightarrow> to_le k (rd k bs a) = slice_of bs a k"
  using to_le_of_le[of "slice_of bs a k"] by (simp add: rd_def)

lemma wle_rdw:
  assumes "LENGTH('a) = 8 * k" and "a + k \<le> length bs"
  shows "wle k (rdw k bs a :: 'a::len word) = slice_of bs a k"
proof -
  have "rd k bs a < 2 ^ LENGTH('a)"
    using rd_bound[of k bs a] assms(1) by (simp add: power_mult)
  then have "unat (rdw k bs a :: 'a word) = rd k bs a"
    by (simp add: rdw_def unat_of_nat)
  then show ?thesis using to_le_rd[OF assms(2)] by (simp add: wle_def)
qed

lemma buffer_split: "b = a + n \<Longrightarrow> drop a bs = slice_of bs a n @ drop b bs"
  by (metis add.commute append_take_drop_id drop_drop slice_of_def)

lemma slice_rest_end: "a + n = length bs \<Longrightarrow> slice_of bs a n = drop a bs"
  by (simp add: slice_of_def)

lemma buffer_head: "a < length bs \<Longrightarrow> b = a + 1 \<Longrightarrow> drop a bs = [bs ! a] @ drop b bs"
  by (simp add: Cons_nth_drop_Suc)

lemma unat_byte_less [simp]: "unat (b :: u8) < 256"
  using unsigned_less[of b] by simp

lemma unat_u16_less [simp]: "unat (w :: u16) < 65536"
  using unsigned_less[of w] by simp

lemma unat_u32_less [simp]: "unat (w :: u32) < 4294967296"
  using unsigned_less[of w] by simp

lemma unat_u64_less [simp]: "unat (w :: u64) < 18446744073709551616"
  using unsigned_less[of w] by simp

lemma of_le_singleton [simp]: "of_le [b] = unat b"
  by simp

subsection \<open>Rust's saturating 16-bit arithmetic\<close>

definition sat_add16 :: "nat \<Rightarrow> nat \<Rightarrow> nat" where
  "sat_add16 a b = min 65535 (a + b)"

lemma sat_add16_le: "sat_add16 a b \<le> a + b" and sat_add16_max: "sat_add16 a b \<le> 65535"
  by (simp_all add: sat_add16_def)

lemma sat_add16_exact: "a + b < 65536 \<Longrightarrow> sat_add16 a b = a + b"
  by (simp add: sat_add16_def)

end
