(* ===== verification/Utf8.thy ===== *)
theory Utf8
  imports Blit_Prelude
begin

text \<open>
  What the code uses of Rust's \<open>str\<close>.  A \<open>String\<close> is its UTF-8 bytes; \<open>str::from_utf8\<close> is the
  validity check \<open>utf8_valid\<close>, \<open>String::from_utf8_lossy\<close> replaces each maximal ill-formed prefix by
  U+FFFD, \<open>chars\<close> cuts a valid string into the byte groups of its characters.  The lemmas are the
  facts every component needs: truncation at a character boundary keeps a string valid, lossy
  decoding is the identity on valid text and always yields valid text.
\<close>

subsection \<open>Well-formed characters\<close>

definition is_cont :: "u8 \<Rightarrow> bool" where
  "is_cont b \<longleftrightarrow> 0x80 \<le> b \<and> b \<le> 0xBF"

definition char_width :: "u8 \<Rightarrow> nat" where
  "char_width b = (if b < 0x80 then 1 else if b < 0xC2 then 0 else if b < 0xE0 then 2
     else if b < 0xF0 then 3 else if b < 0xF5 then 4 else 0)"

definition second_ok :: "u8 \<Rightarrow> u8 \<Rightarrow> bool" where
  "second_ok b0 b1 \<longleftrightarrow> is_cont b1 \<and> (b0 = 0xE0 \<longrightarrow> 0xA0 \<le> b1) \<and> (b0 = 0xED \<longrightarrow> b1 \<le> 0x9F)
     \<and> (b0 = 0xF0 \<longrightarrow> 0x90 \<le> b1) \<and> (b0 = 0xF4 \<longrightarrow> b1 \<le> 0x8F)"

text \<open>
  One step of the decoder: how many bytes the next character or maximal ill-formed prefix has, and
  whether it is well formed.
\<close>

fun utf8_next :: "bytes \<Rightarrow> nat \<times> bool" where
  "utf8_next [] = (1, False)"
| "utf8_next (b0 # r) = (let w = char_width b0 in
     if w = 1 then (1, True)
     else if w = 0 then (1, False)
     else if \<not> (1 \<le> length r \<and> second_ok b0 (r ! 0)) then (1, False)
     else if w = 2 then (2, True)
     else if \<not> (2 \<le> length r \<and> is_cont (r ! 1)) then (2, False)
     else if w = 3 then (3, True)
     else if \<not> (3 \<le> length r \<and> is_cont (r ! 2)) then (3, False)
     else (4, True))"

lemma char_width_cases: "char_width b = 0 \<or> char_width b = 1 \<or> char_width b = 2
    \<or> char_width b = 3 \<or> char_width b = 4"
  by (simp add: char_width_def)

lemma char_width_not_cont: "char_width b \<noteq> 0 \<Longrightarrow> \<not> is_cont b"
proof -
  assume "char_width b \<noteq> 0"
  then have "b < 0x80 \<or> 0xC2 \<le> b" by (auto simp: char_width_def not_less split: if_splits)
  then show ?thesis
  proof
    assume "b < 0x80"
    then show ?thesis by (auto simp: is_cont_def dest: leD)
  next
    assume "0xC2 \<le> b"
    then have "0xBF < b" by (rule order.strict_trans2[rotated]) simp
    then show ?thesis by (auto simp: is_cont_def dest: leD)
  qed
qed

lemma utf8_next_iff: "utf8_next (b # r) = (n, True) \<longleftrightarrow> n = char_width b \<and> n \<noteq> 0
    \<and> (2 \<le> n \<longrightarrow> 1 \<le> length r \<and> second_ok b (r ! 0))
    \<and> (3 \<le> n \<longrightarrow> 2 \<le> length r \<and> is_cont (r ! 1))
    \<and> (4 \<le> n \<longrightarrow> 3 \<le> length r \<and> is_cont (r ! 2))"
  using char_width_cases[of b] by (elim disjE) auto

lemma utf8_next_pos: "0 < fst (utf8_next bs)"
  by (cases bs) (simp_all add: Let_def)

lemma utf8_next_le: "utf8_next bs = (n, True) \<Longrightarrow> n \<le> length bs"
proof (cases bs)
  case (Cons b r)
  assume "utf8_next bs = (n, True)"
  then show ?thesis
    using char_width_cases[of b] unfolding Cons utf8_next_iff by (elim disjE) auto
qed simp

lemma utf8_next_append: "utf8_next bs = (n, True) \<Longrightarrow> utf8_next (bs @ r) = (n, True)"
  by (cases bs) (auto simp: utf8_next_iff nth_append simp del: utf8_next.simps(2))

lemma utf8_next_take: "utf8_next bs = (n, True) \<Longrightarrow> utf8_next (take n bs) = (n, True)"
proof (cases bs)
  case (Cons b r)
  assume "utf8_next bs = (n, True)"
  then have *: "utf8_next (b # r) = (n, True)" using Cons by simp
  then have "n \<noteq> 0" by (simp only: utf8_next_iff) simp
  then obtain m where m: "n = Suc m" by (cases n) simp_all
  have "utf8_next (b # take m r) = (n, True)"
    using * unfolding utf8_next_iff m by auto
  then show ?thesis using Cons m by simp
qed simp

lemma utf8_next_cont:
  assumes "utf8_next bs = (n, True)" and "0 < i" and "i < n"
  shows "is_cont (bs ! i)"
proof (cases bs)
  case Nil
  then show ?thesis using assms by simp
next
  case (Cons b r)
  have n: "n \<le> 4" using assms(1) char_width_cases[of b] unfolding Cons utf8_next_iff by auto
  then have "i = 1 \<or> i = 2 \<or> i = 3" using assms(2,3) by auto
  then show ?thesis
    using assms(1,3) unfolding Cons utf8_next_iff
    by (elim disjE) (auto simp: second_ok_def numeral_eq_Suc)
qed

lemma utf8_next_head: "utf8_next bs = (n, True) \<Longrightarrow> bs \<noteq> [] \<and> \<not> is_cont (hd bs)"
  by (cases bs) (auto simp: utf8_next_iff char_width_not_cont simp del: utf8_next.simps(2))

subsection \<open>Valid strings and their characters\<close>

function utf8_valid :: "bytes \<Rightarrow> bool" where
  "utf8_valid bs = (if bs = [] then True
     else snd (utf8_next bs) \<and> utf8_valid (drop (fst (utf8_next bs)) bs))"
  by pat_completeness auto
termination
  by (relation "measure length") (auto intro!: diff_less simp: utf8_next_pos)

function utf8_chars :: "bytes \<Rightarrow> bytes list" where
  "utf8_chars bs = (if bs = [] then [] else
     take (fst (utf8_next bs)) bs # utf8_chars (drop (fst (utf8_next bs)) bs))"
  by pat_completeness auto
termination
  by (relation "measure length") (auto intro!: diff_less simp: utf8_next_pos)

function from_utf8_lossy :: "bytes \<Rightarrow> bytes" where
  "from_utf8_lossy bs = (if bs = [] then [] else
     (if snd (utf8_next bs) then take (fst (utf8_next bs)) bs else [0xEF, 0xBF, 0xBD])
      @ from_utf8_lossy (drop (fst (utf8_next bs)) bs))"
  by pat_completeness auto
termination
  by (relation "measure length") (auto intro!: diff_less simp: utf8_next_pos)

declare utf8_valid.simps [simp del] utf8_chars.simps [simp del] from_utf8_lossy.simps [simp del]

lemma utf8_valid_Nil [simp]: "utf8_valid []"
  by (simp add: utf8_valid.simps)

lemma from_utf8_lossy_Nil [simp]: "from_utf8_lossy [] = []"
  by (simp add: from_utf8_lossy.simps)

lemma utf8_chars_Nil [simp]: "utf8_chars [] = []"
  by (simp add: utf8_chars.simps)

text \<open>\<open>str::from_utf8(bytes).ok()\<close>.\<close>

definition from_utf8 :: "bytes \<Rightarrow> bytes option" where
  "from_utf8 bs = (if utf8_valid bs then Some bs else None)"

lemma from_utf8_Some [simp]: "from_utf8 bs = Some s \<longleftrightarrow> utf8_valid bs \<and> s = bs"
  by (auto simp: from_utf8_def)

lemma from_utf8_valid: "utf8_valid s \<Longrightarrow> from_utf8 s = Some s"
  by simp

lemma utf8_valid_append_char:
  assumes "utf8_next c = (length c, True)" and "utf8_valid r"
  shows "utf8_valid (c @ r)"
proof -
  have "utf8_next (c @ r) = (length c, True)" using assms(1) by (rule utf8_next_append)
  then show ?thesis using assms(2) by (subst utf8_valid.simps) simp
qed

lemma utf8_valid_append: "utf8_valid a \<Longrightarrow> utf8_valid b \<Longrightarrow> utf8_valid (a @ b)"
proof (induction a rule: utf8_valid.induct)
  case (1 a)
  show ?case
  proof (cases "a = []")
    case True
    then show ?thesis using "1.prems" by simp
  next
    case False
    obtain n where n: "utf8_next a = (n, True)"
      using "1.prems"(1) False by (metis prod.collapse utf8_valid.simps)
    have "utf8_valid (drop n a)"
      using "1.prems"(1) False n by (metis fst_conv utf8_valid.simps)
    then have "utf8_valid (drop n a @ b)"
      using "1.IH" False "1.prems"(2) n by simp
    moreover have "n \<le> length a" using n by (rule utf8_next_le)
    ultimately show ?thesis
      using utf8_next_append[OF n, of b] by (subst utf8_valid.simps) (simp add: drop_append)
  qed
qed

lemma utf8_valid_concat_chars: "utf8_valid s \<Longrightarrow> concat (utf8_chars s) = s"
proof (induction s rule: utf8_chars.induct)
  case (1 s)
  show ?case
  proof (cases "s = []")
    case False
    then have "utf8_valid (drop (fst (utf8_next s)) s)"
      using "1.prems" by (metis utf8_valid.simps)
    then show ?thesis using "1.IH"[OF False] False by (subst utf8_chars.simps) simp
  qed simp
qed

lemma from_utf8_lossy_valid: "utf8_valid s \<Longrightarrow> from_utf8_lossy s = s"
proof (induction s rule: from_utf8_lossy.induct)
  case (1 s)
  show ?case
  proof (cases "s = []")
    case False
    then have "snd (utf8_next s)" "utf8_valid (drop (fst (utf8_next s)) s)"
      using "1.prems" by (metis utf8_valid.simps)+
    then show ?thesis using "1.IH"[OF False] False by (subst from_utf8_lossy.simps) simp
  qed simp
qed

lemma utf8_valid_lossy: "utf8_valid (from_utf8_lossy s)"
proof (induction s rule: from_utf8_lossy.induct)
  case (1 s)
  show ?case
  proof (cases "s = []")
    case False
    let ?n = "fst (utf8_next s)"
    let ?c = "if snd (utf8_next s) then take ?n s else [0xEF, 0xBF, 0xBD]"
    have "utf8_next ?c = (length ?c, True)"
    proof (cases "snd (utf8_next s)")
      case True
      then have n: "utf8_next s = (?n, True)" by (metis prod.collapse)
      then show ?thesis using True utf8_next_take[OF n] utf8_next_le[OF n] by simp
    next
      case False
      have "utf8_next [0xEF, 0xBF, 0xBD] = (3, True)"
        by (simp add: char_width_def second_ok_def is_cont_def)
      with False show ?thesis by simp
    qed
    then have "utf8_valid (?c @ from_utf8_lossy (drop ?n s))"
      using "1.IH"[OF False] by (rule utf8_valid_append_char)
    then show ?thesis using False by (subst from_utf8_lossy.simps) simp
  qed simp
qed

subsection \<open>Character boundaries and truncation\<close>

definition is_char_boundary :: "bytes \<Rightarrow> nat \<Rightarrow> bool" where
  "is_char_boundary s i \<longleftrightarrow> i = 0 \<or> i = length s \<or> (i < length s \<and> \<not> is_cont (s ! i))"

lemma utf8_valid_take_boundary:
  "utf8_valid s \<Longrightarrow> is_char_boundary s i \<Longrightarrow> utf8_valid (take i s)"
proof (induction s arbitrary: i rule: utf8_valid.induct)
  case (1 s)
  show ?case
  proof (cases "s = [] \<or> i = 0")
    case True
    then show ?thesis by auto
  next
    case False
    then have s: "s \<noteq> []" and i: "i \<noteq> 0" by simp_all
    obtain n where n: "utf8_next s = (n, True)"
      using "1.prems"(1) s by (metis prod.collapse utf8_valid.simps)
    have rest: "utf8_valid (drop n s)" using "1.prems"(1) s n by (metis fst_conv utf8_valid.simps)
    have ln: "n \<le> length s" using n by (rule utf8_next_le)
    have ge: "n \<le> i"
    proof (rule ccontr)
      assume "\<not> n \<le> i"
      then have "is_cont (s ! i)" "i < length s" using utf8_next_cont[OF n, of i] i ln by auto
      then show False using "1.prems"(2) i by (simp add: is_char_boundary_def)
    qed
    have "is_char_boundary (drop n s) (i - n)"
      using "1.prems"(2) ge ln by (auto simp: is_char_boundary_def)
    then have "utf8_valid (take (i - n) (drop n s))"
      using "1.IH" s n rest by simp
    moreover have "take i s = take n s @ take (i - n) (drop n s)"
      using ge by (metis append_take_drop_id le_add_diff_inverse take_add)
    moreover have "utf8_next (take n s) = (length (take n s), True)"
      using utf8_next_take[OF n] ln by simp
    ultimately show ?thesis using utf8_valid_append_char by metis
  qed
qed

text \<open>\<open>while end > 0 && !s.is_char_boundary(end) { end -= 1; }\<close>\<close>

fun back_off :: "bytes \<Rightarrow> nat \<Rightarrow> nat" where
  "back_off s 0 = 0"
| "back_off s (Suc e) = (if is_char_boundary s (Suc e) then Suc e else back_off s e)"

lemma back_off_boundary: "is_char_boundary s (back_off s e)"
  by (induction e) (auto simp: is_char_boundary_def)

lemma back_off_le: "back_off s e \<le> e"
  by (induction e) auto

text \<open>The field a clipped string becomes: the longest prefix of at most \<open>m\<close> bytes.\<close>

definition clip_str :: "nat \<Rightarrow> bytes \<Rightarrow> bytes" where
  "clip_str m s = (if length s > m then take (back_off s m) s else s)"

lemma clip_str_length: "length (clip_str m s) \<le> m"
  using back_off_le[of s m] by (auto simp: clip_str_def)

lemma clip_str_valid: "utf8_valid s \<Longrightarrow> utf8_valid (clip_str m s)"
  by (simp add: clip_str_def utf8_valid_take_boundary back_off_boundary)

lemma clip_str_id: "length s \<le> m \<Longrightarrow> clip_str m s = s"
  by (simp add: clip_str_def)

text \<open>The bytes of an ASCII literal.\<close>

definition ascii :: "string \<Rightarrow> bytes" where
  "ascii s = map of_char s"

subsection \<open>Character classes\<close>

text \<open>\<open>char::is_control\<close>: U+0000 to U+001F and U+007F to U+009F, on the encoded character.\<close>

definition char_is_control :: "bytes \<Rightarrow> bool" where
  "char_is_control c = (case c of [b] \<Rightarrow> b < 0x20 \<or> b = 0x7F
     | [b0, b1] \<Rightarrow> b0 = 0xC2 \<and> b1 < 0xA0 | _ \<Rightarrow> False)"

text \<open>\<open>char::is_whitespace\<close>: the Unicode property White_Space.\<close>

definition char_is_whitespace :: "bytes \<Rightarrow> bool" where
  "char_is_whitespace c = (case c of
       [b] \<Rightarrow> (0x09 \<le> b \<and> b \<le> 0x0D) \<or> b = 0x20
     | [b0, b1] \<Rightarrow> b0 = 0xC2 \<and> (b1 = 0x85 \<or> b1 = 0xA0)
     | [b0, b1, b2] \<Rightarrow> (b0 = 0xE1 \<and> b1 = 0x9A \<and> b2 = 0x80)
         \<or> (b0 = 0xE2 \<and> b1 = 0x80 \<and> (b2 \<le> 0x8A \<or> b2 = 0xA8 \<or> b2 = 0xA9 \<or> b2 = 0xAF))
         \<or> (b0 = 0xE2 \<and> b1 = 0x81 \<and> b2 = 0x9F)
         \<or> (b0 = 0xE3 \<and> b1 = 0x80 \<and> b2 = 0x80)
     | _ \<Rightarrow> False)"

definition str_trim_start :: "bytes \<Rightarrow> bytes" where
  "str_trim_start s = concat (dropWhile char_is_whitespace (utf8_chars s))"

definition str_trim_end :: "bytes \<Rightarrow> bytes" where
  "str_trim_end s = concat (rev (dropWhile char_is_whitespace (rev (utf8_chars s))))"

definition str_trim :: "bytes \<Rightarrow> bytes" where
  "str_trim s = concat (rev (dropWhile char_is_whitespace (rev (dropWhile char_is_whitespace (utf8_chars s)))))"

lemma utf8_valid_ascii: "list_all (\<lambda>b. b < 0x80) s \<Longrightarrow> utf8_valid s"
proof (induction s)
  case (Cons b s)
  then have "utf8_next (b # s) = (1, True)" by (simp add: char_width_def)
  then show ?case using Cons by (subst utf8_valid.simps) simp
qed simp

end
