(* ===== verification/Keyed_Store.thy ===== *)
theory Keyed_Store
  imports Utf8 "HOL-Library.AList"
begin

text \<open>
  The contract of the standard library's maps.  The code keeps its tables in \<open>BTreeMap\<close>s (frame
  overflow strings, hyperlink targets) and \<open>HashMap\<close>s (the channel fabric); the components rely
  on the laws of the locale \<open>keyed_store\<close> only.  A \<open>BTreeMap\<close> is a strictly sorted association list, so
  that iteration is in key order and two maps are equal when they hold the same entries
  (\<open>ordered_store\<close>); a \<open>HashMap\<close> is an association list with distinct keys, whose order stands for
  the unspecified iteration order.
\<close>

locale keyed_store =
  fixes lookup :: "'m \<Rightarrow> 'k \<Rightarrow> 'v option"
    and insert :: "'k \<Rightarrow> 'v \<Rightarrow> 'm \<Rightarrow> 'm"
    and delete :: "'k \<Rightarrow> 'm \<Rightarrow> 'm"
    and keys :: "'m \<Rightarrow> 'k list"
    and inv :: "'m \<Rightarrow> bool"
  assumes lookup_insert: "inv m \<Longrightarrow> lookup (insert k v m) = (lookup m)(k \<mapsto> v)"
    and lookup_delete: "inv m \<Longrightarrow> lookup (delete k m) = (lookup m)(k := None)"
    and inv_insert: "inv m \<Longrightarrow> inv (insert k v m)"
    and inv_delete: "inv m \<Longrightarrow> inv (delete k m)"
    and set_keys: "inv m \<Longrightarrow> set (keys m) = dom (lookup m)"
    and distinct_keys: "inv m \<Longrightarrow> distinct (keys m)"
begin

lemmas store_laws = lookup_insert lookup_delete inv_insert inv_delete set_keys distinct_keys

lemma inv_insert_all: "inv m \<Longrightarrow> inv (fold (\<lambda>(k, v). insert k v) kvs m)"
  by (induction kvs arbitrary: m) (auto simp: inv_insert)

lemma inv_delete_all: "inv m \<Longrightarrow> inv (fold delete ks m)"
  by (induction ks arbitrary: m) (auto simp: inv_delete)

lemma lookup_insert_all:
  "inv m \<Longrightarrow> lookup (fold (\<lambda>(k, v). insert k v) kvs m) = lookup m ++ map_of (rev kvs)"
proof (induction kvs arbitrary: m)
  case Nil
  then show ?case by simp
next
  case (Cons kv kvs)
  obtain k v where kv: "kv = (k, v)" by (cases kv)
  have "lookup (fold (\<lambda>(k, v). insert k v) kvs (insert k v m))
      = lookup (insert k v m) ++ map_of (rev kvs)"
    using Cons by (simp add: inv_insert)
  also have "\<dots> = lookup m ++ map_of (rev (kv # kvs))"
    using Cons.prems by (intro ext) (simp add: kv lookup_insert map_add_def split: option.split)
  finally show ?case by (simp add: kv)
qed

lemma lookup_delete_all:
  "inv m \<Longrightarrow> lookup (fold delete ks m) k = (if k \<in> set ks then None else lookup m k)"
  by (induction ks arbitrary: m) (auto simp: inv_delete lookup_delete)

lemma card_keys: "inv m \<Longrightarrow> length (keys m) = card (dom (lookup m))"
  by (metis distinct_card distinct_keys set_keys)

lemma finite_dom: "inv m \<Longrightarrow> finite (dom (lookup m))"
  by (metis List.finite_set set_keys)

lemma length_keys_insert:
  assumes "inv m"
  shows "length (keys (insert k v m))
    = (if k \<in> dom (lookup m) then length (keys m) else Suc (length (keys m)))"
  using assms by (simp add: card_keys inv_insert lookup_insert finite_dom insert_absorb)

lemma length_keys_delete:
  assumes "inv m"
  shows "length (keys (delete k m))
    = (if k \<in> dom (lookup m) then length (keys m) - 1 else length (keys m))"
  using assms by (simp add: card_keys inv_delete lookup_delete finite_dom)

lemma filter_keys_insert:
  assumes "inv m" and "k \<notin> dom (lookup m)"
  shows "length (filter P (keys (insert k v m)))
    = length (filter P (keys m)) + (if P k then 1 else 0)"
proof -
  have d: "distinct (filter P (keys m))" "distinct (filter P (keys (insert k v m)))"
    using assms by (simp_all add: distinct_keys inv_insert)
  have "set (filter P (keys (insert k v m)))
      = (if P k then Set.insert k (set (filter P (keys m))) else set (filter P (keys m)))"
    using assms by (auto simp: set_keys inv_insert lookup_insert split: if_splits)
  moreover have "k \<notin> set (filter P (keys m))" using assms by (simp add: set_keys)
  ultimately have "card (set (filter P (keys (insert k v m))))
      = card (set (filter P (keys m))) + (if P k then 1 else 0)"
    by (cases "P k") (simp_all del: set_filter)
  then show ?thesis using d by (simp only: distinct_card)
qed

end

text \<open>A store that also iterates in key order is determined by its entries.\<close>

locale ordered_store = keyed_store lookup insert delete keys inv
  for lookup :: "'m \<Rightarrow> 'k::linorder \<Rightarrow> 'v option"
    and insert :: "'k \<Rightarrow> 'v \<Rightarrow> 'm \<Rightarrow> 'm"
    and delete :: "'k \<Rightarrow> 'm \<Rightarrow> 'm"
    and keys :: "'m \<Rightarrow> 'k list"
    and inv :: "'m \<Rightarrow> bool" +
  assumes sorted_keys: "inv m \<Longrightarrow> sorted (keys m)"
    and store_ext: "inv m \<Longrightarrow> inv m' \<Longrightarrow> lookup m = lookup m' \<Longrightarrow> m = m'"
begin

lemma insert_all_eq:
  assumes "inv m" and "inv m'" and "lookup m' = map_of (rev kvs)" and "dom (lookup m) \<subseteq> fst ` set kvs"
  shows "fold (\<lambda>(k, v). insert k v) kvs m = m'"
proof (rule store_ext)
  show "inv (fold (\<lambda>(k, v). insert k v) kvs m)" using assms(1) by (rule inv_insert_all)
  have "dom (lookup m) \<subseteq> dom (map_of (rev kvs))" using assms(4) by (simp add: dom_map_of_conv_image_fst)
  then have "lookup m ++ map_of (rev kvs) = map_of (rev kvs)"
    by (intro ext) (auto simp: map_add_def dom_def split: option.split)
  then show "lookup (fold (\<lambda>(k, v). insert k v) kvs m) = lookup m'"
    using assms(1,3) by (simp add: lookup_insert_all)
qed (rule assms(2))

end

subsection \<open>\<open>BTreeMap\<close>\<close>

type_synonym ('k, 'v) btree_map = "('k \<times> 'v) list"

fun bt_insert :: "'k::linorder \<Rightarrow> 'v \<Rightarrow> ('k, 'v) btree_map \<Rightarrow> ('k, 'v) btree_map" where
  "bt_insert k v [] = [(k, v)]"
| "bt_insert k v ((k', v') # m) = (if k < k' then (k, v) # (k', v') # m
     else if k = k' then (k, v) # m else (k', v') # bt_insert k v m)"

fun bt_remove :: "'k::linorder \<Rightarrow> ('k, 'v) btree_map \<Rightarrow> ('k, 'v) btree_map" where
  "bt_remove k [] = []"
| "bt_remove k ((k', v') # m) = (if k = k' then m else (k', v') # bt_remove k m)"

definition bt_get :: "('k, 'v) btree_map \<Rightarrow> 'k \<Rightarrow> 'v option" where
  "bt_get m k = map_of m k"

definition bt_keys :: "('k, 'v) btree_map \<Rightarrow> 'k list" where
  "bt_keys m = map fst m"

definition bt_inv :: "('k::linorder, 'v) btree_map \<Rightarrow> bool" where
  "bt_inv m \<longleftrightarrow> sorted_wrt (<) (map fst m)"

lemma bt_inv_simps [simp]:
  "bt_inv []"
  "bt_inv ((k, v) # m) \<longleftrightarrow> (\<forall>k' \<in> fst ` set m. k < k') \<and> bt_inv m"
  by (auto simp: bt_inv_def)

lemma fst_set_bt_insert: "fst ` set (bt_insert k v m) = Set.insert k (fst ` set m)"
  by (induction k v m rule: bt_insert.induct) auto

lemma fst_set_bt_remove: "fst ` set (bt_remove k m) \<subseteq> fst ` set m"
  by (induction k m rule: bt_remove.induct) auto

lemma bt_inv_insert: "bt_inv m \<Longrightarrow> bt_inv (bt_insert k v m)"
  by (induction k v m rule: bt_insert.induct) (auto simp: fst_set_bt_insert ball_Un)

lemma bt_inv_remove: "bt_inv m \<Longrightarrow> bt_inv (bt_remove k m)"
  by (induction k m rule: bt_remove.induct)
    (use fst_set_bt_remove in \<open>fastforce simp del: image_iff\<close>)+

lemma bt_map_of_fresh: "\<forall>k' \<in> fst ` set m. (k::'k::linorder) < k' \<Longrightarrow> map_of m k = None"
  by (metis less_irrefl map_of_eq_None_iff)

lemma bt_get_insert: "bt_inv m \<Longrightarrow> bt_get (bt_insert k v m) = (bt_get m)(k \<mapsto> v)"
  unfolding bt_get_def
  by (induction k v m rule: bt_insert.induct) (auto simp: fun_eq_iff)

lemma bt_get_remove: "bt_inv m \<Longrightarrow> bt_get (bt_remove k m) = (bt_get m)(k := None)"
  unfolding bt_get_def
  by (induction k m rule: bt_remove.induct) (auto simp: fun_eq_iff bt_map_of_fresh)

lemma bt_ext:
  assumes "bt_inv m" and "bt_inv m'" and "bt_get m = bt_get m'"
  shows "m = m'"
proof -
  have d: "distinct (map fst m)" "distinct (map fst m')"
    using assms by (simp_all add: bt_inv_def strict_sorted_iff)
  have "set m = set m'"
    using assms(3) d unfolding bt_get_def by (metis map_of_inject_set)
  moreover have "inj_on fst (set m)" using d(1) by (simp add: distinct_map)
  ultimately show ?thesis
    using assms(1,2) by (intro map_sorted_distinct_set_unique[of fst]) (simp_all add: bt_inv_def strict_sorted_iff)
qed

interpretation bt: ordered_store bt_get bt_insert bt_remove bt_keys bt_inv
proof unfold_locales
  fix m :: "('k::linorder, 'v) btree_map"
  assume m: "bt_inv m"
  show "set (bt_keys m) = dom (bt_get m)"
    using dom_map_of_conv_image_fst[of m] by (simp add: bt_keys_def bt_get_def[abs_def])
  show "distinct (bt_keys m)" "sorted (bt_keys m)"
    using m by (simp_all add: bt_keys_def bt_inv_def strict_sorted_iff)
qed (auto simp: bt_get_insert bt_get_remove bt_inv_insert bt_inv_remove intro: bt_ext)

subsection \<open>\<open>HashMap\<close>\<close>

type_synonym ('k, 'v) hash_map = "('k \<times> 'v) list"

definition hm_get :: "('k, 'v) hash_map \<Rightarrow> 'k \<Rightarrow> 'v option" where
  "hm_get m k = map_of m k"

definition hm_keys :: "('k, 'v) hash_map \<Rightarrow> 'k list" where
  "hm_keys m = map fst m"

definition hm_insert :: "'k \<Rightarrow> 'v \<Rightarrow> ('k, 'v) hash_map \<Rightarrow> ('k, 'v) hash_map" where
  "hm_insert = AList.update"

definition hm_remove :: "'k \<Rightarrow> ('k, 'v) hash_map \<Rightarrow> ('k, 'v) hash_map" where
  "hm_remove = AList.delete"

definition hm_inv :: "('k, 'v) hash_map \<Rightarrow> bool" where
  "hm_inv m \<longleftrightarrow> distinct (map fst m)"

lemma hm_inv_Nil [simp]: "hm_inv []"
  by (simp add: hm_inv_def)

lemma hm_get_Nil [simp]: "hm_get [] k = None"
  by (simp add: hm_get_def)

interpretation hm: keyed_store hm_get hm_insert hm_remove hm_keys hm_inv
proof unfold_locales
  fix m :: "('k, 'v) hash_map" and k v
  assume m: "hm_inv m"
  show "hm_get (hm_insert k v m) = (hm_get m)(k \<mapsto> v)"
    by (simp add: hm_get_def hm_insert_def update_conv' fun_eq_iff)
  show "hm_get (hm_remove k m) = (hm_get m)(k := None)"
    by (simp add: hm_get_def hm_remove_def delete_conv' fun_eq_iff)
  show "hm_inv (hm_insert k v m)" "hm_inv (hm_remove k m)"
    using m by (simp_all add: hm_inv_def hm_insert_def hm_remove_def distinct_update distinct_delete)
  show "set (hm_keys m) = dom (hm_get m)"
    using dom_map_of_conv_image_fst[of m] by (simp add: hm_keys_def hm_get_def[abs_def])
  show "distinct (hm_keys m)"
    using m by (simp add: hm_keys_def hm_inv_def)
qed

text \<open>\<open>HashMap::retain\<close> with a predicate on the keys.\<close>

definition hm_retain :: "('k \<Rightarrow> bool) \<Rightarrow> ('k, 'v) hash_map \<Rightarrow> ('k, 'v) hash_map" where
  "hm_retain P m = filter (\<lambda>(k, v). P k) m"

lemma hm_get_retain: "hm_get (hm_retain P m) k = (if P k then hm_get m k else None)"
  by (induction m) (auto simp: hm_get_def hm_retain_def)

lemma hm_inv_retain: "hm_inv m \<Longrightarrow> hm_inv (hm_retain P m)"
  by (auto simp: hm_inv_def hm_retain_def distinct_map_filter split_def)

end
