(* ===== verification/Frame_State.thy ===== *)
theory Frame_State
  imports Keyed_Store
begin

text \<open>
  The terminal grid both ends of a connection hold, \<open>FrameState\<close> of \<open>crates/remote/src/lib.rs\<close>:
  a flat buffer of 12-byte cells, the overflow table for cells whose text exceeds four bytes, one
  flag byte per row, and the hyperlink table.  The theory holds the record, its readers and writers, the
  colour and style encoding of a cell, and the link chains a pointer query walks.
\<close>

subsection \<open>Wire constants\<close>

definition CELL_SIZE :: nat where [wire_defs]: "CELL_SIZE = 12"
definition CONTENT_OVERFLOW :: u8 where [wire_defs]: "CONTENT_OVERFLOW = 7"
definition ROW_FLAG_WRAPPED :: u8 where [wire_defs]: "ROW_FLAG_WRAPPED = 1"
definition MAX_CELL_COUNT :: nat where [wire_defs]: "MAX_CELL_COUNT = 500000"
definition MAX_LINK_ID :: nat where [wire_defs]: "MAX_LINK_ID = 65534"
definition MAX_LINK_URI :: nat where [wire_defs]: "MAX_LINK_URI = 4096"

subsection \<open>Colours, styles, rectangles\<close>

datatype color = Default | Indexed u8 | Rgb u8 u8 u8

record cell_style =
  st_fg :: color
  st_bg :: color
  st_bold :: bool
  st_dim :: bool
  st_italic :: bool
  st_underline :: bool
  st_inverse :: bool

definition default_style :: cell_style where
  "default_style = \<lparr>st_fg = Default, st_bg = Default, st_bold = False, st_dim = False,
     st_italic = False, st_underline = False, st_inverse = False\<rparr>"

record rect =
  r_row :: nat
  r_col :: nat
  r_rows :: nat
  r_cols :: nat

subsection \<open>The frame\<close>

record frame_state =
  fs_rows :: nat
  fs_cols :: nat
  fs_cells :: bytes
  fs_cursor_row :: nat
  fs_cursor_col :: nat
  fs_mode :: u16
  fs_title :: bytes
  fs_overflow :: "(nat, bytes) btree_map"
  fs_line_flags :: bytes
  fs_scrollback :: u32
  fs_cell_links :: "u16 list"
  fs_link_uris :: "(u16, bytes) btree_map"

definition total_cells :: "frame_state \<Rightarrow> nat" where
  "total_cells f = fs_rows f * fs_cols f"

definition frame_new :: "nat \<Rightarrow> nat \<Rightarrow> frame_state" where
  "frame_new rows cols = \<lparr>fs_rows = rows, fs_cols = cols,
     fs_cells = replicate (rows * cols * CELL_SIZE) 0,
     fs_cursor_row = 0, fs_cursor_col = 0, fs_mode = 0, fs_title = [], fs_overflow = [],
     fs_line_flags = replicate rows 0, fs_scrollback = 0, fs_cell_links = [], fs_link_uris = []\<rparr>"

definition from_parts ::
  "nat \<Rightarrow> nat \<Rightarrow> nat \<Rightarrow> nat \<Rightarrow> u16 \<Rightarrow> bytes \<Rightarrow> bytes \<Rightarrow> frame_state" where
  "from_parts rows cols cursor_row cursor_col mode title cells =
    (let state = frame_new rows cols;
         state = (if length cells = length (fs_cells state) then state\<lparr>fs_cells := cells\<rparr> else state)
     in state\<lparr>fs_cursor_row := cursor_row, fs_cursor_col := cursor_col, fs_mode := mode,
              fs_title := title\<rparr>)"

definition cell_offset :: "frame_state \<Rightarrow> nat \<Rightarrow> nat \<Rightarrow> nat" where
  "cell_offset f row col = (row * fs_cols f + col) * CELL_SIZE"

text \<open>Cell \<open>i\<close> of a cell buffer, the \<open>content_len\<close> field of a cell and its overflow marker.\<close>

definition cell_at :: "bytes \<Rightarrow> nat \<Rightarrow> bytes" where
  "cell_at cells i = slice_of cells (i * CELL_SIZE) CELL_SIZE"

definition content_len :: "u8 \<Rightarrow> u8" where
  "content_len f1 = drop_bit 3 f1 AND 7"

definition overflows :: "bytes \<Rightarrow> nat \<Rightarrow> bool" where
  "overflows cells i \<longleftrightarrow> content_len (cells ! (i * CELL_SIZE + 1)) = CONTENT_OVERFLOW"

subsection \<open>Hyperlinks\<close>

definition clear_links :: "frame_state \<Rightarrow> frame_state" where
  "clear_links f = f\<lparr>fs_cell_links := [], fs_link_uris := []\<rparr>"

definition set_links :: "frame_state \<Rightarrow> u16 list \<Rightarrow> (u16, bytes) btree_map \<Rightarrow> frame_state" where
  "set_links f cell_links link_uris =
    (if link_uris = [] \<or> length cell_links \<noteq> total_cells f then clear_links f
     else if \<exists>(lid, uri) \<in> set link_uris. length uri > MAX_LINK_URI then
       (let link_uris = filter (\<lambda>(lid, uri). length uri \<le> MAX_LINK_URI) link_uris in
        if link_uris = [] then clear_links f
        else f\<lparr>fs_cell_links := map (\<lambda>slot. if slot \<noteq> 0 \<and> bt_get link_uris slot = None then 0 else slot)
                 cell_links,
               fs_link_uris := link_uris\<rparr>)
     else f\<lparr>fs_cell_links := cell_links, fs_link_uris := link_uris\<rparr>)"

text \<open>The flat index whose link a cell shows: a wide character's right half uses its left half's.\<close>

definition link_flat :: "frame_state \<Rightarrow> nat \<Rightarrow> nat \<Rightarrow> nat" where
  "link_flat f row col = (let flat = row * fs_cols f + col in
     if fs_cells f ! (flat * CELL_SIZE + 1) AND 4 \<noteq> 0 \<and> col > 0 then flat - 1 else flat)"

definition link_id_at :: "frame_state \<Rightarrow> nat \<Rightarrow> nat \<Rightarrow> u16" where
  "link_id_at f row col =
    (if row \<ge> fs_rows f \<or> col \<ge> fs_cols f \<or> fs_cell_links f = [] then 0
     else let flat = link_flat f row col in
       if flat < length (fs_cell_links f) then fs_cell_links f ! flat else 0)"

definition cell_link :: "frame_state \<Rightarrow> nat \<Rightarrow> nat \<Rightarrow> bytes option" where
  "cell_link f row col =
    (if row \<ge> fs_rows f \<or> col \<ge> fs_cols f \<or> fs_cell_links f = [] then None
     else let flat = link_flat f row col in
       if flat < length (fs_cell_links f) then
         (let lid = fs_cell_links f ! flat in if lid = 0 then None else bt_get (fs_link_uris f) lid)
       else None)"

definition is_wrapped :: "frame_state \<Rightarrow> nat \<Rightarrow> bool" where
  "is_wrapped f row =
    ((if row < length (fs_line_flags f) then fs_line_flags f ! row else 0) AND ROW_FLAG_WRAPPED \<noteq> 0)"

definition set_wrapped :: "frame_state \<Rightarrow> nat \<Rightarrow> bool \<Rightarrow> frame_state" where
  "set_wrapped f row wrapped =
    (if row < length (fs_line_flags f) then
       f\<lparr>fs_line_flags := (fs_line_flags f)[row := (if wrapped
           then fs_line_flags f ! row OR ROW_FLAG_WRAPPED
           else fs_line_flags f ! row AND NOT ROW_FLAG_WRAPPED)]\<rparr>
     else f)"

text \<open>
  \<open>link_segments\<close>: walk left and up to the first cell of the span, then right and down emitting one
  segment per row.  The loops are the recursions \<open>walk_left\<close>/\<open>walk_back\<close> and
  \<open>walk_right\<close>/\<open>walk_forward\<close>.
\<close>

fun walk_left :: "frame_state \<Rightarrow> u16 \<Rightarrow> nat \<Rightarrow> nat \<Rightarrow> nat" where
  "walk_left f lid row 0 = 0"
| "walk_left f lid row (Suc col) =
    (if link_id_at f row col = lid then walk_left f lid row col else Suc col)"

fun walk_back :: "frame_state \<Rightarrow> u16 \<Rightarrow> nat \<Rightarrow> nat \<Rightarrow> nat \<times> nat" where
  "walk_back f lid 0 col = (0, walk_left f lid 0 col)"
| "walk_back f lid (Suc prev) col =
    (let last_col = fs_cols f - 1; start_col = walk_left f lid (Suc prev) col in
     if start_col \<noteq> 0 then (Suc prev, start_col)
     else if \<not> is_wrapped f prev \<or> link_id_at f prev last_col \<noteq> lid then (Suc prev, start_col)
     else walk_back f lid prev last_col)"

function walk_right :: "frame_state \<Rightarrow> u16 \<Rightarrow> nat \<Rightarrow> nat \<Rightarrow> nat" where
  "walk_right f lid row end_col =
    (if end_col < fs_cols f - 1 \<and> link_id_at f row (end_col + 1) = lid
     then walk_right f lid row (end_col + 1) else end_col)"
  by pat_completeness auto
termination
  by (relation "measure (\<lambda>(f, lid, row, c). fs_cols f - 1 - c)") auto

function walk_forward :: "frame_state \<Rightarrow> u16 \<Rightarrow> nat \<Rightarrow> nat \<Rightarrow> (nat \<times> nat \<times> nat) list" where
  "walk_forward f lid cur_row seg_start =
    (let last_col = fs_cols f - 1; end_col = walk_right f lid cur_row seg_start in
     (cur_row, seg_start, end_col) #
     (if end_col \<noteq> last_col \<or> cur_row + 1 \<ge> fs_rows f \<or> \<not> is_wrapped f cur_row
         \<or> link_id_at f (cur_row + 1) 0 \<noteq> lid then []
      else walk_forward f lid (cur_row + 1) 0))"
  by pat_completeness auto
termination
  by (relation "measure (\<lambda>(f, lid, r, c). fs_rows f - r)") auto

declare walk_right.simps [simp del] walk_forward.simps [simp del]

definition link_segments :: "frame_state \<Rightarrow> nat \<Rightarrow> nat \<Rightarrow> (nat \<times> nat \<times> nat) list" where
  "link_segments f row col =
    (let lid = link_id_at f row col in
     if lid = 0 \<or> fs_cols f = 0 then []
     else let (start_row, start_col) = walk_back f lid row col in
       walk_forward f lid start_row start_col)"

subsection \<open>Reading cells\<close>

definition cell_content :: "frame_state \<Rightarrow> nat \<Rightarrow> nat \<Rightarrow> bytes" where
  "cell_content f row col =
    (if row \<ge> fs_rows f \<or> col \<ge> fs_cols f then []
     else let flat = row * fs_cols f + col; idx = flat * CELL_SIZE; f1 = fs_cells f ! (idx + 1) in
       if f1 AND 4 \<noteq> 0 then []
       else if content_len f1 = CONTENT_OVERFLOW then
         (case bt_get (fs_overflow f) flat of Some s \<Rightarrow> s | None \<Rightarrow> [])
       else if content_len f1 = 0 then [0x20]
       else (case from_utf8 (slice_of (fs_cells f) (idx + 8) (unat (content_len f1))) of
               Some s \<Rightarrow> s | None \<Rightarrow> [0x20]))"

definition decode_color :: "u8 \<Rightarrow> bytes \<Rightarrow> nat \<Rightarrow> color" where
  "decode_color ty cells i =
    (if ty = 1 then Indexed (cells ! i)
     else if ty = 2 then Rgb (cells ! i) (cells ! (i + 1)) (cells ! (i + 2))
     else Default)"

definition cell_style_at :: "frame_state \<Rightarrow> nat \<Rightarrow> nat \<Rightarrow> cell_style" where
  "cell_style_at f row col =
    (if row \<ge> fs_rows f \<or> col \<ge> fs_cols f then default_style
     else let idx = cell_offset f row col; f0 = fs_cells f ! idx; f1 = fs_cells f ! (idx + 1) in
       \<lparr>st_fg = decode_color (f0 AND 3) (fs_cells f) (idx + 2),
        st_bg = decode_color (drop_bit 2 f0 AND 3) (fs_cells f) (idx + 5),
        st_bold = (drop_bit 4 f0 AND 1 \<noteq> 0),
        st_dim = (drop_bit 5 f0 AND 1 \<noteq> 0),
        st_italic = (drop_bit 6 f0 AND 1 \<noteq> 0),
        st_underline = (drop_bit 7 f0 AND 1 \<noteq> 0),
        st_inverse = (f1 AND 1 \<noteq> 0)\<rparr>)"

definition get_cell :: "frame_state \<Rightarrow> nat \<Rightarrow> nat \<Rightarrow> bytes" where
  "get_cell f row col =
    (if row \<ge> fs_rows f \<or> col \<ge> fs_cols f then []
     else slice_of (fs_cells f) (cell_offset f row col) CELL_SIZE)"

subsection \<open>Whole-frame updates\<close>

definition frame_resize :: "frame_state \<Rightarrow> nat \<Rightarrow> nat \<Rightarrow> frame_state" where
  "frame_resize f rows cols =
    (if rows = fs_rows f \<and> cols = fs_cols f then f
     else (clear_links (f\<lparr>fs_rows := rows, fs_cols := cols,
             fs_cells := replicate (rows * cols * CELL_SIZE) 0, fs_overflow := []\<rparr>))
       \<lparr>fs_line_flags := replicate rows 0,
        fs_cursor_row := min (fs_cursor_row f) (rows - 1),
        fs_cursor_col := min (fs_cursor_col f) (cols - 1)\<rparr>)"

definition set_cursor :: "frame_state \<Rightarrow> nat \<Rightarrow> nat \<Rightarrow> frame_state" where
  "set_cursor f row col = f\<lparr>fs_cursor_row := min row (fs_rows f - 1),
     fs_cursor_col := min col (fs_cols f - 1)\<rparr>"

definition set_title :: "frame_state \<Rightarrow> bytes \<Rightarrow> frame_state \<times> bool" where
  "set_title f title = (if fs_title f = title then (f, False) else (f\<lparr>fs_title := title\<rparr>, True))"

subsection \<open>Writing cells\<close>

definition encode_color :: "color \<Rightarrow> bool \<Rightarrow> u8 \<times> bytes" where
  "encode_color c is_bg =
    (let shift = (if is_bg then 2 else 0) in
     case c of Default \<Rightarrow> (0, [0, 0, 0])
     | Indexed idx \<Rightarrow> (push_bit shift 1, [idx, 0, 0])
     | Rgb r g b \<Rightarrow> (push_bit shift 2, [r, g, b]))"

definition bit_if :: "bool \<Rightarrow> nat \<Rightarrow> u8" where
  "bit_if b n = (if b then push_bit n 1 else 0)"

definition encode_cell :: "bytes option \<Rightarrow> cell_style \<Rightarrow> bool \<Rightarrow> bool \<Rightarrow> bytes" where
  "encode_cell ch style wide wide_cont =
    (let (fgf, fg) = encode_color (st_fg style) False;
         (bgf, bg) = encode_color (st_bg style) True;
         f0 = fgf OR bgf OR bit_if (st_bold style) 4 OR bit_if (st_dim style) 5
           OR bit_if (st_italic style) 6 OR bit_if (st_underline style) 7;
         encoded = (case ch of None \<Rightarrow> [] | Some c \<Rightarrow> c);
         len = min (length encoded) 4;
         f1 = bit_if (st_inverse style) 0 OR bit_if wide 1 OR bit_if wide_cont 2
           OR push_bit 3 (word_of_nat len)
     in [f0, f1] @ fg @ bg @ take len encoded @ replicate (4 - len) 0)"

text \<open>
  \<open>uw\<close> stands for \<open>UnicodeWidthChar::width\<close> of the \<open>unicode-width\<close> crate: the display width of a
  character, \<open>None\<close> for control characters.  A character is its encoded bytes.
\<close>

definition put_cell :: "frame_state \<Rightarrow> nat \<Rightarrow> nat \<Rightarrow> bytes \<Rightarrow> frame_state" where
  "put_cell f row col c = f\<lparr>fs_cells := write_at (fs_cells f) (cell_offset f row col) c\<rparr>"

definition set_cell ::
  "(bytes \<Rightarrow> nat option) \<Rightarrow> frame_state \<Rightarrow> nat \<Rightarrow> nat \<Rightarrow> bytes \<Rightarrow> cell_style \<Rightarrow> frame_state \<times> nat" where
  "set_cell uw f row col ch style =
    (if row \<ge> fs_rows f \<or> col \<ge> fs_cols f then (f, 0)
     else let raw_width = (case uw ch of Some w \<Rightarrow> w | None \<Rightarrow> 0) in
       if raw_width = 0 then (f, 0)
       else let width = (if raw_width > 1 \<and> col + 1 < fs_cols f then 2 else 1);
                f = put_cell f row col (encode_cell (Some ch) style (width = 2) False);
                f = (if width = 2 then put_cell f row (col + 1) (encode_cell None style False True)
                     else f)
            in (f, width))"

definition set_blank_cell :: "frame_state \<Rightarrow> nat \<Rightarrow> nat \<Rightarrow> cell_style \<Rightarrow> frame_state" where
  "set_blank_cell f row col style =
    (if row \<ge> fs_rows f \<or> col \<ge> fs_cols f then f
     else put_cell f row col (encode_cell None style False False))"

definition frame_clear :: "frame_state \<Rightarrow> cell_style \<Rightarrow> frame_state" where
  "frame_clear f style = fold (\<lambda>row f. fold (\<lambda>col f. set_blank_cell f row col style)
     [0..<fs_cols f] f) [0..<fs_rows f] f"

end
