(* ===== verification/Frame_Text.thy ===== *)
theory Frame_Text
  imports Frame_State
begin

text \<open>
  Text on a frame: the drawing operations of \<open>FrameState\<close> in \<open>crates/remote/src/lib.rs\<close> (fill, plain,
  wrapped and scrolling text), the \<open>Dom\<close> that replays them, and the two text extractions, plain and
  with escape sequences.  \<open>uw\<close> is the width of a character and \<open>uws\<close> the width of a string in the
  \<open>unicode-width\<close> crate.  Row additions are on \<open>u16\<close> and wrap as in a release build.
\<close>

subsection \<open>Splitting and wrapping\<close>

text \<open>\<open>str::split\<close> and \<open>str::split_whitespace\<close>.\<close>

fun split_where :: "('a \<Rightarrow> bool) \<Rightarrow> 'a list \<Rightarrow> 'a list list" where
  "split_where p [] = [[]]"
| "split_where p (x # xs) = (if p x then [] # split_where p xs
     else (x # hd (split_where p xs)) # tl (split_where p xs))"

definition split_whitespace :: "bytes \<Rightarrow> bytes list" where
  "split_whitespace s = map concat (filter (\<lambda>w. w \<noteq> []) (split_where char_is_whitespace (utf8_chars s)))"

type_synonym wrap_state = "bytes list \<times> bytes \<times> nat"

text \<open>The character loop of \<open>push_wrapped_word\<close>, for a word wider than the line.\<close>

fun push_chars :: "(bytes \<Rightarrow> nat option) \<Rightarrow> nat \<Rightarrow> bytes list \<Rightarrow> wrap_state \<Rightarrow> wrap_state" where
  "push_chars uw width [] st = st"
| "push_chars uw width (ch # chs) (out, line, line_width) =
    (let ch_width = max (case uw ch of Some w \<Rightarrow> w | None \<Rightarrow> 1) 1 in
     if line_width + ch_width > width \<and> line \<noteq> []
     then push_chars uw width chs (out @ [line], ch, ch_width)
     else push_chars uw width chs (out, line @ ch, line_width + ch_width))"

definition push_wrapped_word :: "(bytes \<Rightarrow> nat option) \<Rightarrow> (bytes \<Rightarrow> nat) \<Rightarrow> nat \<Rightarrow> bytes \<Rightarrow> wrap_state \<Rightarrow> wrap_state" where
  "push_wrapped_word uw uws width word st = (case st of (out, line, line_width) \<Rightarrow>
    (let word_width = uws word in
     if line = [] then
       (if word_width \<le> width then (out, word, word_width)
        else push_chars uw width (utf8_chars word) (out, line, line_width))
     else if line_width + 1 + word_width \<le> width then (out, line @ [0x20] @ word, line_width + (1 + word_width))
     else if word_width \<le> width then (out @ [line], word, word_width)
     else push_chars uw width (utf8_chars word) (out @ [line], [], 0)))"

definition wrap_paragraph :: "(bytes \<Rightarrow> nat option) \<Rightarrow> (bytes \<Rightarrow> nat) \<Rightarrow> nat \<Rightarrow> bytes \<Rightarrow> bytes list \<Rightarrow> bytes list" where
  "wrap_paragraph uw uws width paragraph out =
    (if paragraph = [] then out @ [[]]
     else case fold (push_wrapped_word uw uws width) (split_whitespace paragraph) (out, [], 0) of
       (out, line, line_width) \<Rightarrow> if line \<noteq> [] then out @ [line] else out)"

definition wrap_text_lines :: "(bytes \<Rightarrow> nat option) \<Rightarrow> (bytes \<Rightarrow> nat) \<Rightarrow> bytes \<Rightarrow> nat \<Rightarrow> bytes list" where
  "wrap_text_lines uw uws text width =
    (if width = 0 then []
     else let out = fold (wrap_paragraph uw uws width) (split_where (\<lambda>b. b = 0x0A) text) [] in
       if out = [] then [[]] else out)"

subsection \<open>Drawing\<close>

text \<open>The column loop of \<open>fill_rect\<close>; \<open>col\<close> is a \<open>u16\<close> and \<open>col_end\<close> at most 65535.\<close>

function fill_row :: "(bytes \<Rightarrow> nat option) \<Rightarrow> nat \<Rightarrow> nat \<Rightarrow> bytes \<Rightarrow> cell_style \<Rightarrow> nat \<Rightarrow> frame_state \<Rightarrow> frame_state" where
  "fill_row uw row col_end ch style col f =
    (if col < col_end \<and> col < 65535 then
       (let (f, width) = set_cell uw f row col ch style in
        if width = 0 then f else fill_row uw row col_end ch style (sat_add16 col width) f)
     else f)"
  by pat_completeness auto
termination
  by (relation "measure (\<lambda>(uw, row, col_end, ch, style, col, f). 65535 - col)") (auto simp: sat_add16_def)

declare fill_row.simps [simp del]

definition fill_rect :: "(bytes \<Rightarrow> nat option) \<Rightarrow> frame_state \<Rightarrow> rect \<Rightarrow> bytes \<Rightarrow> cell_style \<Rightarrow> frame_state" where
  "fill_rect uw f r ch style =
    (let row_end = min (sat_add16 (r_row r) (r_rows r)) (fs_rows f);
         col_end = min (sat_add16 (r_col r) (r_cols r)) (fs_cols f)
     in fold (\<lambda>row. fill_row uw row col_end ch style (r_col r)) [r_row r..<row_end] f)"

fun write_chars :: "(bytes \<Rightarrow> nat option) \<Rightarrow> nat \<Rightarrow> cell_style \<Rightarrow> bytes list \<Rightarrow> frame_state \<Rightarrow> nat \<Rightarrow> frame_state \<times> nat" where
  "write_chars uw row style [] f cur_col = (f, cur_col)"
| "write_chars uw row style (ch # chs) f cur_col =
    (if cur_col \<ge> fs_cols f then (f, cur_col)
     else let (f, width) = set_cell uw f row cur_col ch style in
       if width = 0 then write_chars uw row style chs f cur_col
       else write_chars uw row style chs f (sat_add16 cur_col width))"

definition write_text :: "(bytes \<Rightarrow> nat option) \<Rightarrow> frame_state \<Rightarrow> nat \<Rightarrow> nat \<Rightarrow> bytes \<Rightarrow> cell_style \<Rightarrow> frame_state \<times> nat" where
  "write_text uw f row col text style =
    (if row \<ge> fs_rows f \<or> col \<ge> fs_cols f then (f, col)
     else write_chars uw row style (utf8_chars text) f col)"

text \<open>\<open>lines.iter().enumerate()\<close>: line \<open>idx\<close> goes to row \<open>row + idx\<close>.\<close>

definition write_lines :: "(bytes \<Rightarrow> nat option) \<Rightarrow> nat \<Rightarrow> nat \<Rightarrow> cell_style \<Rightarrow> bytes list \<Rightarrow> frame_state \<Rightarrow> frame_state" where
  "write_lines uw row col style ls f =
    fold (\<lambda>(idx, line) f. fst (write_text uw f ((row + idx) mod 65536) col line style)) (enumerate 0 ls) f"

definition write_wrapped_text :: "(bytes \<Rightarrow> nat option) \<Rightarrow> (bytes \<Rightarrow> nat) \<Rightarrow> frame_state \<Rightarrow> rect \<Rightarrow> bytes \<Rightarrow> cell_style
    \<Rightarrow> frame_state \<times> nat" where
  "write_wrapped_text uw uws f r text style =
    (if r_rows r = 0 \<or> r_cols r = 0 then (f, 0)
     else let ls = wrap_text_lines uw uws text (r_cols r);
              max_rows = min (r_rows r) (fs_rows f - r_row r)
          in (write_lines uw (r_row r) (r_col r) style (take max_rows ls) f, length ls))"

definition wrap_lines :: "(bytes \<Rightarrow> nat option) \<Rightarrow> (bytes \<Rightarrow> nat) \<Rightarrow> nat \<Rightarrow> bytes list \<Rightarrow> bytes list" where
  "wrap_lines uw uws width ls = concat (map (\<lambda>line.
     let out = wrap_text_lines uw uws line width in if out = [] then [[]] else out) ls)"

definition write_scrolling_text :: "(bytes \<Rightarrow> nat option) \<Rightarrow> (bytes \<Rightarrow> nat) \<Rightarrow> frame_state \<Rightarrow> rect \<Rightarrow> bytes list \<Rightarrow> nat
    \<Rightarrow> cell_style \<Rightarrow> frame_state" where
  "write_scrolling_text uw uws f r ls offset_from_bottom style =
    (if r_rows r = 0 \<or> r_cols r = 0 then f
     else let wrapped = wrap_lines uw uws (r_cols r) ls;
              visible = r_rows r;
              end_line = length wrapped - offset_from_bottom;
              start = end_line - visible;
              f = fold (\<lambda>row f. fill_rect uw f \<lparr>r_row = (r_row r + row) mod 65536, r_col = r_col r, r_rows = 1,
                    r_cols = r_cols r\<rparr> [0x20] style) [0..<r_rows r] f
          in write_lines uw (r_row r) (r_col r) style (slice_of wrapped start (end_line - start)) f)"

subsection \<open>Extraction\<close>

definition row_text :: "frame_state \<Rightarrow> nat \<Rightarrow> nat \<Rightarrow> nat \<Rightarrow> bytes" where
  "row_text f row c0 c1 = concat (map (cell_content f row) [c0..<Suc (min c1 (fs_cols f - 1))])"

definition get_text :: "frame_state \<Rightarrow> nat \<Rightarrow> nat \<Rightarrow> nat \<Rightarrow> nat \<Rightarrow> bytes" where
  "get_text f start_row start_col end_row end_col =
    (if fs_rows f = 0 \<or> fs_cols f = 0 then []
     else let last_row = min end_row (fs_rows f - 1) in
       concat (map (\<lambda>row.
         let c0 = (if row = start_row then start_col else 0);
             c1 = (if row = end_row then end_col else fs_cols f - 1);
             line = row_text f row c0 c1
         in (if is_wrapped f row then line else str_trim_end line)
            @ (if row < last_row \<and> \<not> is_wrapped f row then [0x0A] else []))
       [start_row..<Suc last_row]))"

definition get_all_text :: "frame_state \<Rightarrow> bytes" where
  "get_all_text f = (if fs_rows f = 0 \<or> fs_cols f = 0 then []
     else get_text f 0 0 (fs_rows f - 1) (fs_cols f - 1))"

definition ESC :: u8 where "ESC = 0x1B"

text \<open>Formatting a \<open>u8\<close> in decimal.\<close>

definition dec_u8 :: "u8 \<Rightarrow> bytes" where
  "dec_u8 n = (let k = unat n; digit = (\<lambda>d. word_of_nat (48 + d)) in
     if k < 10 then [digit k]
     else if k < 100 then [digit (k div 10), digit (k mod 10)]
     else [digit (k div 100), digit (k div 10 mod 10), digit (k mod 10)])"

definition push_osc8 :: "bytes option \<Rightarrow> bytes" where
  "push_osc8 uri = [ESC, 0x5D, 0x38, 0x3B, 0x3B]
     @ (case uri of None \<Rightarrow> [] | Some uri \<Rightarrow> concat (filter (\<lambda>ch. ch \<noteq> [ESC] \<and> ch \<noteq> [0x07]) (utf8_chars uri)))
     @ [ESC, 0x5C]"

definition sgr_color :: "u8 \<Rightarrow> color \<Rightarrow> bytes" where
  "sgr_color ground c = (case c of Default \<Rightarrow> []
     | Indexed n \<Rightarrow> [0x3B, ground, 0x38, 0x3B, 0x35, 0x3B] @ dec_u8 n
     | Rgb r g b \<Rightarrow> [0x3B, ground, 0x38, 0x3B, 0x32, 0x3B] @ dec_u8 r @ [0x3B] @ dec_u8 g @ [0x3B] @ dec_u8 b)"

definition push_sgr :: "cell_style \<Rightarrow> bytes" where
  "push_sgr style = [ESC, 0x5B, 0x30]
     @ (if st_bold style then [0x3B, 0x31] else []) @ (if st_dim style then [0x3B, 0x32] else [])
     @ (if st_italic style then [0x3B, 0x33] else []) @ (if st_underline style then [0x3B, 0x34] else [])
     @ (if st_inverse style then [0x3B, 0x37] else [])
     @ sgr_color 0x33 (st_fg style) @ sgr_color 0x34 (st_bg style) @ [0x6D]"

type_synonym ansi_state = "bytes \<times> cell_style \<times> bytes option"

definition ansi_cell :: "frame_state \<Rightarrow> nat \<Rightarrow> nat \<Rightarrow> ansi_state \<Rightarrow> ansi_state" where
  "ansi_cell f row col st = (case st of (line, cur_style, cur_link) \<Rightarrow>
    (let style = cell_style_at f row col;
         line = (if style \<noteq> cur_style then line @ push_sgr style else line);
         link = cell_link f row col;
         line = (if link \<noteq> cur_link then line @ push_osc8 link else line)
     in (line @ cell_content f row col, style, link)))"

text \<open>One row; the link never crosses a row, so only the text and the style are carried over.\<close>

definition ansi_row :: "frame_state \<Rightarrow> nat \<Rightarrow> bytes \<Rightarrow> bytes" where
  "ansi_row f row result =
    (case fold (ansi_cell f row) [0..<fs_cols f] ([], default_style, None) of (line, cur_style, cur_link) \<Rightarrow>
      (let line = (if cur_link \<noteq> None then line @ push_osc8 None else line) in
       result @ str_trim_end line
         @ (if cur_style \<noteq> default_style then [ESC, 0x5B, 0x30, 0x6D] else [])
         @ (if row < fs_rows f - 1 then [0x0A] else [])))"

definition get_ansi_text :: "frame_state \<Rightarrow> bytes" where
  "get_ansi_text f = (if fs_rows f = 0 \<or> fs_cols f = 0 then [] else fold (ansi_row f) [0..<fs_rows f] [])"

subsection \<open>The display list\<close>

datatype node =
    FillNode rect bytes cell_style
  | TextNode nat nat bytes cell_style
  | WrappedTextNode rect bytes cell_style
  | ScrollingTextNode rect "bytes list" nat cell_style

record dom =
  dom_background :: cell_style
  dom_title :: "bytes option"
  dom_nodes :: "node list"

definition dom_clear :: "dom \<Rightarrow> dom" where
  "dom_clear d = d\<lparr>dom_title := None, dom_nodes := []\<rparr>"

definition dom_push :: "node \<Rightarrow> dom \<Rightarrow> dom" where
  "dom_push n d = d\<lparr>dom_nodes := dom_nodes d @ [n]\<rparr>"

fun render_node :: "(bytes \<Rightarrow> nat option) \<Rightarrow> (bytes \<Rightarrow> nat) \<Rightarrow> node \<Rightarrow> frame_state \<Rightarrow> frame_state" where
  "render_node uw uws (FillNode r ch style) f = fill_rect uw f r ch style"
| "render_node uw uws (TextNode row col text style) f = fst (write_text uw f row col text style)"
| "render_node uw uws (WrappedTextNode r text style) f = fst (write_wrapped_text uw uws f r text style)"
| "render_node uw uws (ScrollingTextNode r ls offset style) f = write_scrolling_text uw uws f r ls offset style"

definition render_to :: "(bytes \<Rightarrow> nat option) \<Rightarrow> (bytes \<Rightarrow> nat) \<Rightarrow> dom \<Rightarrow> frame_state \<Rightarrow> frame_state" where
  "render_to uw uws d f =
    (let f = frame_clear f (dom_background d);
         f = fst (set_title f (case dom_title d of Some t \<Rightarrow> t | None \<Rightarrow> []))
     in fold (render_node uw uws) (dom_nodes d) f)"

end
