(* ===== verification/Frame_Decode.thy ===== *)
theory Frame_Decode
  imports Frame_State
begin

text \<open>
  The client side of a terminal stream: \<open>TerminalState\<close> of \<open>crates/remote/src/lib.rs\<close>, which applies
  the payload of an \<open>S2C_UPDATE\<close> to its frame.  Every function that can stop half way returns the
  frame as far as it got, because the source mutates it in place: a payload that is cut short has
  still changed the title, the size or some cells.  The decompressor is the \<open>lz4_flex\<close> crate and is a
  parameter; everything else is defined here.
\<close>

subsection \<open>Constants\<close>

definition TITLE_PRESENT :: u16 where [wire_defs]: "TITLE_PRESENT = 0x8000"
definition OPS_PRESENT :: u16 where [wire_defs]: "OPS_PRESENT = 0x4000"
definition STRINGS_PRESENT :: u16 where [wire_defs]: "STRINGS_PRESENT = 0x2000"
definition LINE_FLAGS_PRESENT :: u16 where [wire_defs]: "LINE_FLAGS_PRESENT = 0x1000"
definition TITLE_LEN_MASK :: u16 where [wire_defs]: "TITLE_LEN_MASK = 0x0FFF"
definition LINKS_UNCHANGED :: nat where [wire_defs]: "LINKS_UNCHANGED = 65535"
definition OP_COPY_RECT :: u8 where [wire_defs]: "OP_COPY_RECT = 1"
definition OP_FILL_RECT :: u8 where [wire_defs]: "OP_FILL_RECT = 2"
definition OP_PATCH_CELLS :: u8 where [wire_defs]: "OP_PATCH_CELLS = 3"
definition MAX_DECOMPRESSED :: nat where [wire_defs]: "MAX_DECOMPRESSED = 67108864"

subsection \<open>Cell operations\<close>

definition mask_bit :: "bytes \<Rightarrow> nat \<Rightarrow> bool" where
  "mask_bit bitmask i \<longleftrightarrow> bitmask ! (i div 8) AND push_bit (i mod 8) 1 \<noteq> 0"

definition mask_len :: "nat \<Rightarrow> nat" where
  "mask_len n_cells = (n_cells + 7) div 8"

definition dirty_cells :: "bytes \<Rightarrow> nat \<Rightarrow> nat list" where
  "dirty_cells bitmask n_cells = filter (mask_bit bitmask) [0..<n_cells]"

text \<open>
  \<open>apply_patch_cells\<close>: the payload holds byte 0 of every dirty cell, then byte 1 of every dirty cell,
  and so on.
\<close>

definition patch_cell :: "bytes \<Rightarrow> nat \<Rightarrow> nat \<Rightarrow> bytes" where
  "patch_cell data dirty_count dirty_idx =
    map (\<lambda>byte_pos. data ! (byte_pos * dirty_count + dirty_idx)) [0..<CELL_SIZE]"

fun patch_loop :: "bytes \<Rightarrow> bytes \<Rightarrow> nat \<Rightarrow> nat list \<Rightarrow> nat \<Rightarrow> frame_state \<Rightarrow> frame_state" where
  "patch_loop bitmask data dirty_count [] dirty_idx f = f"
| "patch_loop bitmask data dirty_count (i # is) dirty_idx f =
    (if \<not> mask_bit bitmask i then patch_loop bitmask data dirty_count is dirty_idx f
     else let cell = patch_cell data dirty_count dirty_idx;
              f = f\<lparr>fs_cells := write_at (fs_cells f) (i * CELL_SIZE) cell\<rparr>;
              f = (if content_len (fs_cells f ! (i * CELL_SIZE + 1)) \<noteq> CONTENT_OVERFLOW
                   then f\<lparr>fs_overflow := bt_remove i (fs_overflow f)\<rparr> else f)
          in patch_loop bitmask data dirty_count is (dirty_idx + 1) f)"

definition apply_patch_cells :: "frame_state \<Rightarrow> bytes \<Rightarrow> bytes \<Rightarrow> nat \<Rightarrow> frame_state" where
  "apply_patch_cells f bitmask data dirty_count =
    patch_loop bitmask data dirty_count [0..<total_cells f] 0 f"

text \<open>
  The cell part of a rectangle copy, in the source twice: in \<open>apply_copy_rect\<close> of the decoder and in
  \<open>apply_copy_rect_frame\<close> of the encoder.  The rows are first collected in \<open>temp\<close>, so overlapping
  source and destination do not interfere.
\<close>

definition copy_cells :: "nat \<Rightarrow> bytes \<Rightarrow> nat \<Rightarrow> nat \<Rightarrow> nat \<Rightarrow> nat \<Rightarrow> nat \<Rightarrow> nat \<Rightarrow> bytes" where
  "copy_cells frame_cols cells src_row src_col dst_row dst_col rows cols =
    (let temp = concat (map (\<lambda>r. slice_of cells (((src_row + r) * frame_cols + src_col) * CELL_SIZE)
                  (cols * CELL_SIZE)) [0..<rows])
     in fold (\<lambda>r cells. write_at cells (((dst_row + r) * frame_cols + dst_col) * CELL_SIZE)
               (slice_of temp (r * cols * CELL_SIZE) (cols * CELL_SIZE))) [0..<rows] cells)"

definition clamp_copy :: "nat \<Rightarrow> nat \<Rightarrow> nat \<Rightarrow> nat \<Rightarrow> nat" where
  "clamp_copy limit src dst n = min (min n (limit - src)) (limit - dst)"

definition rect_cells :: "nat \<Rightarrow> nat \<Rightarrow> nat \<Rightarrow> nat \<Rightarrow> nat \<Rightarrow> nat list" where
  "rect_cells frame_cols row col rows cols =
    concat (map (\<lambda>r. map (\<lambda>c. (row + r) * frame_cols + col + c) [0..<cols]) [0..<rows])"

definition apply_copy_rect ::
  "frame_state \<Rightarrow> nat \<Rightarrow> nat \<Rightarrow> nat \<Rightarrow> nat \<Rightarrow> nat \<Rightarrow> nat \<Rightarrow> frame_state \<times> bool" where
  "apply_copy_rect f src_row src_col dst_row dst_col rows cols =
    (let rows = clamp_copy (fs_rows f) src_row dst_row rows;
         cols = clamp_copy (fs_cols f) src_col dst_col cols
     in if rows = 0 \<or> cols = 0 then (f, False)
        else let srcs = rect_cells (fs_cols f) src_row src_col rows cols;
                 dsts = rect_cells (fs_cols f) dst_row dst_col rows cols;
                 overflow_temp = concat (map (\<lambda>(src, dst).
                   case bt_get (fs_overflow f) src of Some s \<Rightarrow> [(dst, s)] | None \<Rightarrow> [])
                   (zip srcs dsts));
                 cells = copy_cells (fs_cols f) (fs_cells f) src_row src_col dst_row dst_col rows cols;
                 overflow = fold bt_remove dsts (fs_overflow f);
                 overflow = fold (\<lambda>(idx, s). bt_insert idx s) overflow_temp overflow
             in (f\<lparr>fs_cells := cells, fs_overflow := overflow\<rparr>, True))"

definition apply_fill_rect ::
  "frame_state \<Rightarrow> nat \<Rightarrow> nat \<Rightarrow> nat \<Rightarrow> nat \<Rightarrow> bytes \<Rightarrow> frame_state \<times> bool" where
  "apply_fill_rect f row col rows cols cell =
    (let row_end = min (sat_add16 row rows) (fs_rows f);
         col_end = min (sat_add16 col cols) (fs_cols f);
         targets = rect_cells (fs_cols f) row col (row_end - row) (col_end - col);
         f = f\<lparr>fs_overflow := fold bt_remove targets (fs_overflow f)\<rparr>
     in if row \<ge> row_end \<or> col \<ge> col_end then (f, False)
        else (f\<lparr>fs_cells := fold (\<lambda>i cells. write_at cells (i * CELL_SIZE) cell) targets (fs_cells f)\<rparr>,
              True))"

subsection \<open>Operation lists and the legacy patch\<close>

definition apply_legacy_patch_payload ::
  "frame_state \<Rightarrow> bytes \<Rightarrow> frame_state \<times> (bool \<times> nat) option" where
  "apply_legacy_patch_payload f payload =
    (let bitmask_len = mask_len (total_cells f) in
     if length payload < bitmask_len then (f, None)
     else let bitmask = take bitmask_len payload;
              dirty_count = length (dirty_cells bitmask (total_cells f));
              data = drop bitmask_len payload
          in if length data < dirty_count * CELL_SIZE then (f, None)
             else (apply_patch_cells f bitmask (take (dirty_count * CELL_SIZE) data) dirty_count,
                   Some (0 < dirty_count, bitmask_len + dirty_count * CELL_SIZE)))"

text \<open>
  One operation at offset \<open>off\<close>: the new frame, and \<open>None\<close> for a truncated or unknown operation or
  the offset after it with whether it changed anything.
\<close>

definition apply_op :: "frame_state \<Rightarrow> bytes \<Rightarrow> nat \<Rightarrow> frame_state \<times> (bool \<times> nat) option" where
  "apply_op f payload off =
    (if off \<ge> length payload then (f, None)
     else let op = payload ! off; off = off + 1 in
       if op = OP_COPY_RECT then
         (if length payload < off + 12 then (f, None)
          else let (f, ch) = apply_copy_rect f (rd 2 payload off) (rd 2 payload (off + 2))
                 (rd 2 payload (off + 4)) (rd 2 payload (off + 6))
                 (rd 2 payload (off + 8)) (rd 2 payload (off + 10))
               in (f, Some (ch, off + 12)))
       else if op = OP_FILL_RECT then
         (if length payload < off + 8 + CELL_SIZE then (f, None)
          else let (f, ch) = apply_fill_rect f (rd 2 payload off) (rd 2 payload (off + 2))
                 (rd 2 payload (off + 4)) (rd 2 payload (off + 6))
                 (slice_of payload (off + 8) CELL_SIZE)
               in (f, Some (ch, off + 8 + CELL_SIZE)))
       else if op = OP_PATCH_CELLS then
         (let bitmask_len = mask_len (total_cells f) in
          if length payload < off + bitmask_len then (f, None)
          else let bitmask = slice_of payload off bitmask_len; off = off + bitmask_len;
                   dirty_count = length (dirty_cells bitmask (total_cells f))
               in if length payload < off + dirty_count * CELL_SIZE then (f, None)
                  else (apply_patch_cells f bitmask
                          (slice_of payload off (dirty_count * CELL_SIZE)) dirty_count,
                        Some (0 < dirty_count, off + dirty_count * CELL_SIZE)))
       else (f, None))"

fun apply_ops_loop ::
  "nat \<Rightarrow> frame_state \<Rightarrow> bytes \<Rightarrow> nat \<Rightarrow> bool \<Rightarrow> frame_state \<times> (bool \<times> nat) option" where
  "apply_ops_loop 0 f payload off changed = (f, Some (changed, off))"
| "apply_ops_loop (Suc n) f payload off changed =
    (case apply_op f payload off of
       (f, None) \<Rightarrow> (f, None)
     | (f, Some (ch, off)) \<Rightarrow> apply_ops_loop n f payload off (changed \<or> ch))"

definition apply_ops_payload :: "frame_state \<Rightarrow> bytes \<Rightarrow> frame_state \<times> (bool \<times> nat) option" where
  "apply_ops_payload f payload =
    (if length payload < 2 then (f, None)
     else apply_ops_loop (rd 2 payload 0) f payload 2 False)"

subsection \<open>Overflow strings\<close>

fun overflow_loop :: "nat \<Rightarrow> frame_state \<Rightarrow> bytes \<Rightarrow> nat \<Rightarrow> frame_state \<times> nat" where
  "overflow_loop 0 f data off = (f, off)"
| "overflow_loop (Suc n) f data off =
    (if off + 6 > length data then (f, off)
     else let cell_idx = rd 4 data off; len = rd 2 data (off + 4); off = off + 6 in
       if off + len > length data then (f, off)
       else let f = (case from_utf8 (slice_of data off len) of
                       Some s \<Rightarrow> if cell_idx < total_cells f
                                  then f\<lparr>fs_overflow := bt_insert cell_idx s (fs_overflow f)\<rparr> else f
                     | None \<Rightarrow> f)
            in overflow_loop n f data (off + len))"

definition apply_overflow_strings :: "frame_state \<Rightarrow> bytes \<Rightarrow> frame_state \<times> nat" where
  "apply_overflow_strings f data =
    (if length data < 2 then (f, 0) else overflow_loop (rd 2 data 0) f data 2)"

subsection \<open>The hyperlink section\<close>

text \<open>\<open>None\<close> is the early exit that clears the links.\<close>

fun read_uris :: "nat \<Rightarrow> bytes \<Rightarrow> nat \<Rightarrow> (u16, bytes) btree_map
    \<Rightarrow> ((u16, bytes) btree_map \<times> nat) option" where
  "read_uris 0 data off link_uris = Some (link_uris, off)"
| "read_uris (Suc n) data off link_uris =
    (if off + 4 > length data then None
     else let lid = (rdw 2 data off :: u16); len = rd 2 data (off + 2); off = off + 4 in
       if off + len > length data \<or> len > MAX_LINK_URI then None
       else let link_uris = (if lid \<noteq> 0 then (case from_utf8 (slice_of data off len) of
                     Some uri \<Rightarrow> bt_insert lid uri link_uris | None \<Rightarrow> link_uris) else link_uris)
            in read_uris n data (off + len) link_uris)"

fun read_runs :: "nat \<Rightarrow> bytes \<Rightarrow> nat \<Rightarrow> nat \<Rightarrow> (u16, bytes) btree_map \<Rightarrow> u16 list
    \<Rightarrow> u16 list option" where
  "read_runs 0 data off n_cells link_uris cell_links = Some cell_links"
| "read_runs (Suc n) data off n_cells link_uris cell_links =
    (if off + 8 > length data then None
     else let start = rd 4 data off; len = rd 2 data (off + 4); lid = (rdw 2 data (off + 6) :: u16);
              cell_links = (if lid = 0 \<or> bt_get link_uris lid = None then cell_links
                else let end = min (start + len) n_cells in
                  if start \<ge> n_cells then cell_links
                  else write_at cell_links start (replicate (end - start) lid))
          in read_runs n data (off + 8) n_cells link_uris cell_links)"

definition apply_links_section :: "frame_state \<Rightarrow> bytes \<Rightarrow> frame_state" where
  "apply_links_section f data =
    (if length data < 2 then clear_links f
     else let uri_count = rd 2 data 0 in
       if uri_count = LINKS_UNCHANGED then f
       else case read_uris uri_count data 2 [] of None \<Rightarrow> clear_links f
       | Some (link_uris, off) \<Rightarrow>
           if off + 2 > length data then clear_links f
           else (case read_runs (rd 2 data off) data (off + 2) (total_cells f) link_uris
                       (replicate (total_cells f) 0) of
                   None \<Rightarrow> clear_links f
                 | Some cell_links \<Rightarrow> set_links f cell_links link_uris))"

subsection \<open>A whole payload\<close>

record update_header =
  h_rows :: nat
  h_cols :: nat
  h_cursor_row :: nat
  h_cursor_col :: nat
  h_mode :: u16
  h_title_present :: bool
  h_ops_present :: bool
  h_strings_present :: bool
  h_line_flags_present :: bool
  h_title_end :: nat

text \<open>The twelve header bytes; \<open>None\<close> where the source returns \<open>false\<close> before touching the frame.\<close>

definition update_header_of :: "bytes \<Rightarrow> update_header option" where
  "update_header_of payload =
    (if length payload < 12 then None
     else if rd 2 payload 0 * rd 2 payload 2 > MAX_CELL_COUNT then None
     else let title_field = (rdw 2 payload 10 :: u16);
              title_len = unat (title_field AND TITLE_LEN_MASK)
          in if length payload < 12 + title_len then None
             else Some \<lparr>h_rows = rd 2 payload 0, h_cols = rd 2 payload 2,
                    h_cursor_row = rd 2 payload 4, h_cursor_col = rd 2 payload 6,
                    h_mode = rdw 2 payload 8,
                    h_title_present = (title_field AND TITLE_PRESENT \<noteq> 0),
                    h_ops_present = (title_field AND OPS_PRESENT \<noteq> 0),
                    h_strings_present = (title_field AND STRINGS_PRESENT \<noteq> 0),
                    h_line_flags_present = (title_field AND LINE_FLAGS_PRESENT \<noteq> 0),
                    h_title_end = 12 + title_len\<rparr>)"

text \<open>Title and size, then the cell operations; the offset is where the trailing sections start.\<close>

definition apply_title_and_size :: "frame_state \<Rightarrow> update_header \<Rightarrow> bytes \<Rightarrow> frame_state \<times> bool \<times> bool" where
  "apply_title_and_size f h payload =
    (let (f, title_changed) = (if h_title_present h
           then set_title f (from_utf8_lossy (slice_of payload 12 (h_title_end h - 12))) else (f, False));
         resized = (h_rows h \<noteq> fs_rows f \<or> h_cols h \<noteq> fs_cols f);
         f = (if resized then frame_resize f (h_rows h) (h_cols h) else f)
     in (f, title_changed, resized))"

definition apply_content :: "frame_state \<Rightarrow> update_header \<Rightarrow> bytes \<Rightarrow> frame_state \<times> bool \<times> nat" where
  "apply_content f h payload =
    (let start = h_title_end h;
         (f, r) = (if h_ops_present h then apply_ops_payload f (drop start payload)
                   else apply_legacy_patch_payload f (drop start payload));
         (changed, consumed) = (case r of Some x \<Rightarrow> x | None \<Rightarrow> (False, 0))
     in (f, changed, start + consumed))"

definition apply_line_flags ::
  "frame_state \<Rightarrow> update_header \<Rightarrow> bytes \<Rightarrow> nat \<Rightarrow> frame_state \<times> bool \<times> nat" where
  "apply_line_flags f h payload lf_start =
    (if h_line_flags_present h \<and> length payload \<ge> lf_start + h_rows h
     then (let new_flags = slice_of payload lf_start (h_rows h) in
           (f\<lparr>fs_line_flags := new_flags\<rparr>, fs_line_flags f \<noteq> new_flags, lf_start + h_rows h))
     else (f, False, lf_start))"

definition apply_scrollback :: "frame_state \<Rightarrow> bytes \<Rightarrow> nat \<Rightarrow> frame_state" where
  "apply_scrollback f payload off =
    (if length payload \<ge> off + 4
     then apply_links_section (f\<lparr>fs_scrollback := rdw 4 payload off\<rparr>) (drop (off + 4) payload)
     else f)"

definition apply_payload :: "frame_state \<Rightarrow> bytes \<Rightarrow> frame_state \<times> bool" where
  "apply_payload f payload =
    (case update_header_of payload of None \<Rightarrow> (f, False)
     | Some h \<Rightarrow>
       (let (f, title_changed, resized) = apply_title_and_size f h payload;
            old_cursor_row = fs_cursor_row f;
            old_cursor_col = fs_cursor_col f;
            old_mode = fs_mode f
        in if h_ops_present h \<and> length payload < h_title_end h + 2 then (f, False)
           else let (f, content_changed, ops_end) = apply_content f h payload;
                    (f, consumed) = (if h_strings_present h
                      then apply_overflow_strings f (drop ops_end payload) else (f, 0));
                    (f, line_flags_changed, after) = apply_line_flags f h payload (ops_end + consumed);
                    f = apply_scrollback f payload after;
                    f = f\<lparr>fs_cursor_row := min (h_cursor_row h) (fs_rows f - 1),
                          fs_cursor_col := min (h_cursor_col h) (fs_cols f - 1),
                          fs_mode := h_mode h\<rparr>
                in (f, resized \<or> title_changed \<or> content_changed \<or> line_flags_changed
                       \<or> h_cursor_row h \<noteq> old_cursor_row \<or> h_cursor_col h \<noteq> old_cursor_col
                       \<or> h_mode h \<noteq> old_mode)))"

subsection \<open>Compressed messages and batches\<close>

definition safe_decompress :: "(bytes \<Rightarrow> bytes option) \<Rightarrow> bytes \<Rightarrow> bytes option" where
  "safe_decompress decompress data =
    (if length data < 4 then None
     else if rd 4 data 0 > MAX_DECOMPRESSED then None
     else decompress data)"

definition feed_compressed :: "(bytes \<Rightarrow> bytes option) \<Rightarrow> frame_state \<Rightarrow> bytes \<Rightarrow> frame_state \<times> bool" where
  "feed_compressed decompress f data =
    (case safe_decompress decompress data of None \<Rightarrow> (f, False)
     | Some payload \<Rightarrow> apply_payload f payload)"

function feed_batch_loop ::
  "(bytes \<Rightarrow> bytes option) \<Rightarrow> frame_state \<Rightarrow> bytes \<Rightarrow> nat \<Rightarrow> bool \<Rightarrow> frame_state \<times> bool" where
  "feed_batch_loop decompress f batch off changed =
    (if off + 4 > length batch then (f, changed)
     else let len = rd 4 batch off; off = off + 4 in
       if len = 0 \<or> off + len > length batch then (f, changed)
       else let (f, ch) = feed_compressed decompress f (slice_of batch off len)
            in feed_batch_loop decompress f batch (off + len) (changed \<or> ch))"
  by pat_completeness auto
termination
  by (relation "measure (\<lambda>(d, f, batch, off, ch). length batch - off)") auto

declare feed_batch_loop.simps [simp del]

definition feed_compressed_batch ::
  "(bytes \<Rightarrow> bytes option) \<Rightarrow> frame_state \<Rightarrow> bytes \<Rightarrow> frame_state \<times> bool" where
  "feed_compressed_batch decompress f batch = feed_batch_loop decompress f batch 0 False"

end
