(* ===== verification/Frame_Encode.thy ===== *)
theory Frame_Encode
  imports Frame_Decode
begin

text \<open>
  The server side of a terminal stream: \<open>build_update_msg\<close> of \<open>crates/remote/src/lib.rs\<close> and the
  functions it calls.  Given the frame a client is known to hold and the current one it emits the
  payload of an \<open>S2C_UPDATE\<close>, or nothing.  The compressor is the \<open>lz4_flex\<close> crate and is a parameter.
\<close>

subsection \<open>Constants\<close>

definition S2C_UPDATE :: u8 where [wire_defs]: "S2C_UPDATE = 0"
definition MODE_ECHO :: u16 where [wire_defs]: "MODE_ECHO = 0x200"
definition MODE_ICANON :: u16 where [wire_defs]: "MODE_ICANON = 0x400"
definition MODE_ALT_SCREEN :: u16 where [wire_defs]: "MODE_ALT_SCREEN = 0x800"
definition ENABLE_SCROLL_OPS :: bool where [wire_defs]: "ENABLE_SCROLL_OPS = True"

definition mode_is_cooked :: "u16 \<Rightarrow> bool" where
  "mode_is_cooked mode \<longleftrightarrow> mode AND MODE_ECHO \<noteq> 0 \<and> mode AND MODE_ICANON \<noteq> 0
     \<and> mode AND MODE_ALT_SCREEN = 0"

subsection \<open>The cell patch\<close>

text \<open>
  \<open>cell_differs\<close> is the comparison of the loop; \<open>build_bitmask\<close> sets bit \<open>i % 8\<close> of byte \<open>i / 8\<close> for
  every cell that differs.
\<close>

definition cell_differs :: "bytes \<Rightarrow> bytes \<Rightarrow> nat \<Rightarrow> bool" where
  "cell_differs cur prev i \<longleftrightarrow> cell_at cur i \<noteq> cell_at prev i"

definition build_bitmask :: "(nat \<Rightarrow> bool) \<Rightarrow> nat \<Rightarrow> bytes" where
  "build_bitmask differs n_cells = fold (\<lambda>i bitmask. if differs i
       then bitmask[i div 8 := bitmask ! (i div 8) OR push_bit (i mod 8) 1] else bitmask)
     [0..<n_cells] (replicate (mask_len n_cells) 0)"

definition build_patch_op :: "frame_state \<Rightarrow> frame_state \<Rightarrow> bytes option" where
  "build_patch_op current previous =
    (let n_cells = total_cells current; n_bytes = n_cells * CELL_SIZE in
     if length (fs_cells current) \<ge> n_bytes \<and> length (fs_cells previous) \<ge> n_bytes
        \<and> take n_bytes (fs_cells current) = take n_bytes (fs_cells previous) then None
     else let bitmask = build_bitmask (cell_differs (fs_cells current) (fs_cells previous)) n_cells;
              dirty_count = length (filter (cell_differs (fs_cells current) (fs_cells previous))
                              [0..<n_cells])
          in if dirty_count = 0 then None
             else Some ([OP_PATCH_CELLS] @ bitmask @
                concat (map (\<lambda>byte_pos. map (\<lambda>i. fs_cells current ! (i * CELL_SIZE + byte_pos))
                    (dirty_cells bitmask n_cells)) [0..<CELL_SIZE])))"

subsection \<open>Scroll detection\<close>

definition row_bytes_at :: "frame_state \<Rightarrow> nat \<Rightarrow> bytes" where
  "row_bytes_at f row = slice_of (fs_cells f) (row * (fs_cols f * CELL_SIZE)) (fs_cols f * CELL_SIZE)"

definition scroll_matched :: "frame_state \<Rightarrow> frame_state \<Rightarrow> int \<Rightarrow> nat" where
  "scroll_matched current previous signed_delta =
    length (filter (\<lambda>row. let src_row = int row - signed_delta in
        0 \<le> src_row \<and> src_row < int (fs_rows current) \<and>
        row_bytes_at current row
          = slice_of (fs_cells previous) (nat src_row * (fs_cols current * CELL_SIZE))
              (fs_cols current * CELL_SIZE))
      [0..<fs_rows current])"

definition scroll_candidate ::
  "frame_state \<Rightarrow> frame_state \<Rightarrow> nat \<Rightarrow> int \<Rightarrow> (nat \<times> int) option \<Rightarrow> (nat \<times> int) option" where
  "scroll_candidate current previous overlap signed_delta best =
    (let matched = scroll_matched current previous signed_delta in
     if matched * 5 < overlap * 4 then best
     else case best of None \<Rightarrow> Some (matched, signed_delta)
       | Some (best_matched, best_delta) \<Rightarrow>
           if matched > best_matched \<or> (matched = best_matched \<and> \<bar>signed_delta\<bar> < \<bar>best_delta\<bar>)
           then Some (matched, signed_delta) else best)"

definition detect_vertical_scroll :: "frame_state \<Rightarrow> frame_state \<Rightarrow> int option" where
  "detect_vertical_scroll current previous =
    (let rows = fs_rows current; cols = fs_cols current in
     if rows < 4 \<or> cols = 0 then None
     else let max_delta = min (rows - 1) 8 in
       map_option snd (fold (\<lambda>delta best.
         let overlap = rows - delta in
         if overlap < 3 then best
         else scroll_candidate current previous overlap (int delta)
                (scroll_candidate current previous overlap (- int delta) best))
         [1..<max_delta + 1] None))"

subsection \<open>The scroll operations\<close>

text \<open>Source row, destination row and height of a scroll by \<open>delta_rows\<close>.\<close>

definition scroll_rows :: "nat \<Rightarrow> int \<Rightarrow> nat \<times> nat \<times> nat" where
  "scroll_rows rows delta_rows =
    (let delta = nat \<bar>delta_rows\<bar> in
     if delta_rows > 0 then (0, delta, rows - delta) else (delta, 0, rows - delta))"

definition encode_copy_rect_op :: "frame_state \<Rightarrow> int \<Rightarrow> bytes" where
  "encode_copy_rect_op current delta_rows =
    (case scroll_rows (fs_rows current) delta_rows of (src_row, dst_row, copy_rows) \<Rightarrow>
      [OP_COPY_RECT] @ to_le 2 src_row @ to_le 2 0 @ to_le 2 dst_row @ to_le 2 0
        @ to_le 2 copy_rows @ to_le 2 (fs_cols current))"

definition apply_copy_rect_frame ::
  "frame_state \<Rightarrow> nat \<Rightarrow> nat \<Rightarrow> nat \<Rightarrow> nat \<Rightarrow> nat \<Rightarrow> nat \<Rightarrow> frame_state" where
  "apply_copy_rect_frame f src_row src_col dst_row dst_col rows cols =
    (let rows = clamp_copy (fs_rows f) src_row dst_row rows;
         cols = clamp_copy (fs_cols f) src_col dst_col cols
     in if rows = 0 \<or> cols = 0 then f
        else f\<lparr>fs_cells := copy_cells (fs_cols f) (fs_cells f) src_row src_col dst_row dst_col rows cols\<rparr>)"

definition apply_vertical_scroll_copy :: "frame_state \<Rightarrow> int \<Rightarrow> frame_state" where
  "apply_vertical_scroll_copy f delta_rows =
    (let delta = nat \<bar>delta_rows\<bar> in
     if delta = 0 \<or> delta \<ge> fs_rows f then f
     else case scroll_rows (fs_rows f) delta_rows of (src_row, dst_row, rows) \<Rightarrow>
       apply_copy_rect_frame f src_row 0 dst_row 0 rows (fs_cols f))"

definition uniform_row_cell :: "frame_state \<Rightarrow> nat \<Rightarrow> bytes option" where
  "uniform_row_cell f row =
    (if row \<ge> fs_rows f \<or> fs_cols f = 0 then None
     else let first = cell_at (fs_cells f) (row * fs_cols f) in
       if first ! 1 AND 6 \<noteq> 0 then None
       else if \<exists>col \<in> set [1..<fs_cols f]. cell_at (fs_cells f) (row * fs_cols f + col) \<noteq> first then None
       else Some first)"

function uniform_run_end :: "frame_state \<Rightarrow> bytes \<Rightarrow> nat \<Rightarrow> nat" where
  "uniform_run_end current cell end =
    (if end < fs_rows current \<and> uniform_row_cell current end = Some cell
     then uniform_run_end current cell (end + 1) else end)"
  by pat_completeness auto
termination
  by (relation "measure (\<lambda>(f, c, e). fs_rows f - e)") auto

declare uniform_run_end.simps [simp del]

lemma uniform_run_end_ge: "end \<le> uniform_run_end current cell end"
  by (induction current cell "end" rule: uniform_run_end.induct)
    (subst uniform_run_end.simps, auto)

definition encode_fill_op :: "nat \<Rightarrow> nat \<Rightarrow> nat \<Rightarrow> bytes \<Rightarrow> bytes" where
  "encode_fill_op row rows cols cell =
    [OP_FILL_RECT] @ to_le 2 row @ to_le 2 0 @ to_le 2 rows @ to_le 2 cols @ cell"

definition fill_rows :: "frame_state \<Rightarrow> nat \<Rightarrow> nat \<Rightarrow> bytes \<Rightarrow> frame_state" where
  "fill_rows basis row n cell = basis\<lparr>fs_cells := fold (\<lambda>i cells. write_at cells (i * CELL_SIZE) cell)
     (rect_cells (fs_cols basis) row 0 n (fs_cols basis)) (fs_cells basis)\<rparr>"

text \<open>\<open>append_full_width_fill_ops\<close>: the loop over the rows, with the output and the operation count.\<close>

function fill_ops_loop ::
  "frame_state \<Rightarrow> nat \<Rightarrow> frame_state \<Rightarrow> bytes \<Rightarrow> nat \<Rightarrow> frame_state \<times> bytes \<times> nat" where
  "fill_ops_loop current row basis out op_count =
    (if row \<ge> fs_rows current then (basis, out, op_count)
     else if row_bytes_at current row
        = slice_of (fs_cells basis) (row * (fs_cols current * CELL_SIZE)) (fs_cols current * CELL_SIZE)
     then fill_ops_loop current (row + 1) basis out op_count
     else case uniform_row_cell current row of
       None \<Rightarrow> fill_ops_loop current (row + 1) basis out op_count
     | Some cell \<Rightarrow>
         (let end = uniform_run_end current cell (row + 1) in
          if op_count = 65535 then (basis, out, op_count)
          else fill_ops_loop current end (fill_rows basis row (end - row) cell)
                 (out @ encode_fill_op row (end - row) (fs_cols current) cell)
                 (sat_add16 op_count 1)))"
  by pat_completeness auto
termination
proof (relation "measure (\<lambda>(current, row, basis, out, n). fs_rows current - row)", goal_cases)
  case (4 current row basis out op_count cell e)
  then show ?case using uniform_run_end_ge[of "row + 1" current cell] by simp
qed auto

declare fill_ops_loop.simps [simp del]

definition append_full_width_fill_ops ::
  "frame_state \<Rightarrow> frame_state \<Rightarrow> bytes \<Rightarrow> nat \<Rightarrow> frame_state \<times> bytes \<times> nat" where
  "append_full_width_fill_ops current basis out op_count =
    (if fs_rows current = 0 \<or> fs_cols current = 0 then (basis, out, op_count)
     else fill_ops_loop current 0 basis out op_count)"

subsection \<open>Choosing the operations\<close>

definition same_size :: "frame_state \<Rightarrow> frame_state \<Rightarrow> bool" where
  "same_size current previous \<longleftrightarrow> fs_rows previous = fs_rows current
     \<and> fs_cols previous = fs_cols current \<and> length (fs_cells previous) = length (fs_cells current)"

definition scroll_eligible :: "u16 \<Rightarrow> u16 \<Rightarrow> bool" where
  "scroll_eligible cur prev \<longleftrightarrow> (mode_is_cooked cur \<and> mode_is_cooked prev) \<or> cur = 0 \<or> prev = 0"

definition push_patch :: "frame_state \<Rightarrow> frame_state \<Rightarrow> bytes \<Rightarrow> nat \<Rightarrow> bytes \<times> nat" where
  "push_patch current basis ops op_count =
    (case build_patch_op current basis of Some patch_op \<Rightarrow> (ops @ patch_op, op_count + 1)
     | None \<Rightarrow> (ops, op_count))"

definition scroll_ops :: "frame_state \<Rightarrow> frame_state \<Rightarrow> int \<Rightarrow> bytes \<times> nat" where
  "scroll_ops current previous delta_rows =
    (let ops = encode_copy_rect_op current delta_rows;
         basis = apply_vertical_scroll_copy previous delta_rows;
         (basis, ops, op_count) = append_full_width_fill_ops current basis ops 1
     in push_patch current basis ops op_count)"

definition fallback_ops :: "frame_state \<Rightarrow> frame_state \<Rightarrow> bytes \<times> nat" where
  "fallback_ops current previous =
    (if same_size current previous then push_patch current previous [] 0
     else push_patch current (frame_new (fs_rows current) (fs_cols current))
            (encode_fill_op 0 (fs_rows current) (fs_cols current) (replicate CELL_SIZE 0)) 1)"

definition update_ops :: "frame_state \<Rightarrow> frame_state \<Rightarrow> bytes \<times> nat" where
  "update_ops current previous =
    (let scrolled = (if ENABLE_SCROLL_OPS \<and> same_size current previous
            \<and> fs_cells previous \<noteq> fs_cells current
            \<and> scroll_eligible (fs_mode current) (fs_mode previous)
          then map_option (scroll_ops current previous) (detect_vertical_scroll current previous)
          else None)
     in case scrolled of
          Some (ops, op_count) \<Rightarrow> if op_count = 0 then fallback_ops current previous else (ops, op_count)
        | None \<Rightarrow> fallback_ops current previous)"

subsection \<open>Trailing sections\<close>

definition serialize_overflow_strings :: "frame_state \<Rightarrow> bytes" where
  "serialize_overflow_strings f =
    (let count = min (length (fs_overflow f)) 65535 in
     to_le 2 count @ concat (map (\<lambda>(cell_idx, s).
        let len = min (length s) 65535 in to_le 4 cell_idx @ to_le 2 len @ take len s)
      (take count (fs_overflow f))))"

function link_runs :: "u16 list \<Rightarrow> nat \<Rightarrow> (nat \<times> nat \<times> u16) list" where
  "link_runs cell_links i =
    (if i \<ge> length cell_links then []
     else let lid = cell_links ! i in
       if lid = 0 then link_runs cell_links (i + 1)
       else let n = min 65535 (length (takeWhile (\<lambda>x. x = lid) (drop i cell_links))) in
         (i, n, lid) # link_runs cell_links (i + n))"
  by pat_completeness auto
termination
proof (relation "measure (\<lambda>(xs, i). length xs - i)", goal_cases)
  case (3 xs i lid n)
  then have i: "i < length xs" and "drop i xs = lid # drop (Suc i) xs"
    by (simp_all add: Cons_nth_drop_Suc)
  then have "0 < n" using 3 by simp
  with i show ?case by (simp only: in_measure split_conv)
qed auto

declare link_runs.simps [simp del]

definition append_links_section :: "frame_state \<Rightarrow> bool \<Rightarrow> bytes" where
  "append_links_section current changed =
    (if \<not> changed then to_le 2 LINKS_UNCHANGED
     else let emitted = take MAX_LINK_ID (filter (\<lambda>(lid, uri). length uri \<le> MAX_LINK_URI)
                (fs_link_uris current));
              uri_section = to_le 2 (length emitted) @ concat (map (\<lambda>(lid, uri).
                wle 2 lid @ to_le 2 (length uri) @ uri) emitted)
          in if length emitted = 0 then uri_section @ to_le 2 0
             else let runs = link_runs (fs_cell_links current) 0; run_count = min (length runs) 65535 in
               uri_section @ to_le 2 run_count @ concat (map (\<lambda>(start, len, lid).
                 to_le 4 start @ to_le 2 len @ wle 2 lid) (take run_count runs)))"

subsection \<open>The message\<close>

definition keyframe :: "frame_state \<Rightarrow> frame_state \<Rightarrow> bool" where
  "keyframe current previous \<longleftrightarrow> \<not> same_size current previous"

definition title_changed :: "frame_state \<Rightarrow> frame_state \<Rightarrow> bool" where
  "title_changed current previous \<longleftrightarrow> keyframe current previous \<or> fs_title current \<noteq> fs_title previous"

definition links_changed :: "frame_state \<Rightarrow> frame_state \<Rightarrow> bool" where
  "links_changed current previous \<longleftrightarrow> keyframe current previous
     \<or> fs_link_uris current \<noteq> fs_link_uris previous \<or> fs_cell_links current \<noteq> fs_cell_links previous"

definition has_line_flags :: "frame_state \<Rightarrow> frame_state \<Rightarrow> bool" where
  "has_line_flags current previous \<longleftrightarrow> keyframe current previous
     \<or> ((fs_line_flags current \<noteq> fs_line_flags previous \<or> fs_rows current \<noteq> fs_rows previous)
        \<and> \<not> list_all (\<lambda>x. x = 0) (fs_line_flags current))"

text \<open>No operation, and nothing in the header differs: no message is sent.\<close>

definition suppressed :: "frame_state \<Rightarrow> frame_state \<Rightarrow> bool" where
  "suppressed current previous \<longleftrightarrow> snd (update_ops current previous) = 0
     \<and> \<not> title_changed current previous \<and> \<not> links_changed current previous
     \<and> fs_cursor_row current = fs_cursor_row previous
     \<and> fs_cursor_col current = fs_cursor_col previous
     \<and> fs_mode current = fs_mode previous \<and> fs_scrollback current = fs_scrollback previous"

definition title_field_of :: "bool \<Rightarrow> bool \<Rightarrow> bool \<Rightarrow> nat \<Rightarrow> u16" where
  "title_field_of has_overflow has_flags changed title_len =
    OPS_PRESENT OR (if has_overflow then STRINGS_PRESENT else 0)
      OR (if has_flags then LINE_FLAGS_PRESENT else 0)
      OR (if changed then TITLE_PRESENT OR word_of_nat title_len else 0)"

definition update_payload :: "frame_state \<Rightarrow> frame_state \<Rightarrow> bytes" where
  "update_payload current previous =
    (let (ops, op_count) = update_ops current previous;
         changed = title_changed current previous;
         has_overflow = (fs_overflow current \<noteq> []);
         title_bytes = (if changed then fs_title current else []);
         title_len = min (length title_bytes) (unat TITLE_LEN_MASK);
         title_field = title_field_of has_overflow (has_line_flags current previous) changed title_len
     in to_le 2 (fs_rows current) @ to_le 2 (fs_cols current)
        @ to_le 2 (fs_cursor_row current) @ to_le 2 (fs_cursor_col current)
        @ wle 2 (fs_mode current) @ wle 2 title_field
        @ (if changed then take title_len title_bytes else [])
        @ to_le 2 op_count @ ops
        @ (if has_overflow then serialize_overflow_strings current else [])
        @ (if has_line_flags current previous then fs_line_flags current else [])
        @ wle 4 (fs_scrollback current)
        @ append_links_section current (links_changed current previous))"

definition build_update_msg ::
  "(bytes \<Rightarrow> bytes) \<Rightarrow> u16 \<Rightarrow> frame_state \<Rightarrow> frame_state \<Rightarrow> bytes option" where
  "build_update_msg compress pty_id current previous =
    (if suppressed current previous then None
     else Some ([S2C_UPDATE] @ wle 2 pty_id @ compress (update_payload current previous)))"

end
