(* ===== verification/Frame_Cells.thy ===== *)
theory Frame_Cells
  imports Frame_Encode
begin

text \<open>
  What the cell operations do, cell by cell: overwriting a run of cells, copying a rectangle, filling
  one and patching dirty cells.  Both directions of the protocol are proved from these lemmas.
\<close>

named_theorems cell_simps \<open>the effect of a cell operation on one cell\<close>

subsection \<open>Single cells and runs of cells\<close>

lemma CELL_SIZE_pos [simp]: "0 < CELL_SIZE"
  by (simp add: CELL_SIZE_def)

lemma length_cell_at: "i < n \<Longrightarrow> length cells = n * CELL_SIZE \<Longrightarrow> length (cell_at cells i) = CELL_SIZE"
proof -
  assume "i < n" and "length cells = n * CELL_SIZE"
  then have "i * CELL_SIZE + CELL_SIZE \<le> length cells"
    by (metis Suc_leI add.commute mult_Suc mult_le_mono1)
  then show ?thesis by (simp add: cell_at_def)
qed

lemma nth_cell_at:
  assumes "i < n" and "length cells = n * CELL_SIZE" and "j < CELL_SIZE"
  shows "cell_at cells i ! j = cells ! (i * CELL_SIZE + j)"
proof -
  have "i * CELL_SIZE + CELL_SIZE \<le> length cells"
    using assms by (metis Suc_leI add.commute mult_Suc mult_le_mono1)
  then show ?thesis using assms by (simp add: cell_at_def nth_slice)
qed

lemma cell_at_splice:
  assumes "length ys = m * CELL_SIZE" and "a + m \<le> n" and "length cells = n * CELL_SIZE" and "k < n"
  shows "cell_at (write_at cells (a * CELL_SIZE) ys) k =
    (if a \<le> k \<and> k < a + m then cell_at ys (k - a) else cell_at cells k)"
  using slice_record_splice[of ys CELL_SIZE m a n cells k] assms
  by (simp add: cell_at_def mult.commute)

lemma length_splice_cells:
  assumes "length ys = m * CELL_SIZE" and "a + m \<le> n" and "length cells = n * CELL_SIZE"
  shows "length (write_at cells (a * CELL_SIZE) ys) = n * CELL_SIZE"
proof -
  have "a * CELL_SIZE + length ys \<le> length cells"
    using assms by (metis add_mult_distrib mult_le_mono1)
  then show ?thesis using assms(3) by simp
qed

lemma cell_at_self: "length c = CELL_SIZE \<Longrightarrow> cell_at c 0 = c"
  by (simp add: cell_at_def slice_of_def)

lemma cells_eqI:
  assumes "length xs = n * CELL_SIZE" and "length ys = n * CELL_SIZE"
    and "\<And>k. k < n \<Longrightarrow> cell_at xs k = cell_at ys k"
  shows "xs = ys"
  using records_eqI[of xs CELL_SIZE n ys] assms by (simp add: cell_at_def mult.commute)

lemma cell_at_slice:
  assumes "k < m"
  shows "cell_at (slice_of cells (a * CELL_SIZE) (m * CELL_SIZE)) k = cell_at cells (a + k)"
proof -
  have "k * CELL_SIZE + CELL_SIZE \<le> m * CELL_SIZE"
    using assms by (metis Suc_leI add.commute mult_Suc mult_le_mono1)
  then show ?thesis by (simp add: cell_at_def slice_slice add_mult_distrib)
qed

text \<open>A cell that keeps its text in the overflow table.\<close>

definition over_cell :: "bytes \<Rightarrow> bool" where
  "over_cell c \<longleftrightarrow> content_len (c ! 1) = CONTENT_OVERFLOW"

lemma overflows_cell:
  "i < n \<Longrightarrow> length cells = n * CELL_SIZE \<Longrightarrow> overflows cells i \<longleftrightarrow> over_cell (cell_at cells i)"
  by (simp add: overflows_def over_cell_def nth_cell_at CELL_SIZE_def)

subsection \<open>Rectangles\<close>

lemma set_rect_cells:
  "set (rect_cells C row col rows cols)
    = {(row + r) * C + col + c | r c. r < rows \<and> c < cols}"
proof -
  have "set (rect_cells C row col rows cols)
      = (\<Union>r \<in> {..<rows}. (\<lambda>c. (row + r) * C + col + c) ` {..<cols})"
    unfolding rect_cells_def set_concat set_map image_image set_upt atLeast0LessThan ..
  then show ?thesis by blast
qed

lemma rect_cells_less:
  assumes "row + rows \<le> R" and "col + cols \<le> C" and "k \<in> set (rect_cells C row col rows cols)"
  shows "k < R * C"
proof -
  obtain r c where k: "k = (row + r) * C + col + c" and r: "r < rows" and c: "c < cols"
    using assms(3) by (auto simp: set_rect_cells)
  have "k < (row + r) * C + C" using k c assms(2) by simp
  also have "\<dots> = Suc (row + r) * C" by simp
  also have "\<dots> \<le> R * C" using r assms(1) by (intro mult_le_mono1) simp
  finally show ?thesis .
qed

lemma rect_cells_empty [simp]: "rect_cells C row col 0 cols = []" "rect_cells C row col rows 0 = []"
  by (simp_all add: rect_cells_def)

lemma clamp_copy_le:
  assumes "clamp_copy limit src dst n \<noteq> 0"
  shows "src + clamp_copy limit src dst n \<le> limit" "dst + clamp_copy limit src dst n \<le> limit"
  using assms by (auto simp: clamp_copy_def)

subsection \<open>Filling\<close>

lemma length_fill_fold:
  assumes "length cell = CELL_SIZE" and "\<forall>i \<in> set ts. i < n" and "length cells = n * CELL_SIZE"
  shows "length (fold (\<lambda>i cells. write_at cells (i * CELL_SIZE) cell) ts cells) = n * CELL_SIZE"
  using assms
proof (induction ts arbitrary: cells)
  case (Cons t ts)
  have "length (write_at cells (t * CELL_SIZE) cell) = n * CELL_SIZE"
    using Cons.prems by (intro length_splice_cells[of _ 1]) simp_all
  then show ?case using Cons by simp
qed simp

lemma cell_at_fill_fold:
  assumes "length cell = CELL_SIZE" and "\<forall>i \<in> set ts. i < n" and "length cells = n * CELL_SIZE"
    and "k < n"
  shows "cell_at (fold (\<lambda>i cells. write_at cells (i * CELL_SIZE) cell) ts cells) k
    = (if k \<in> set ts then cell else cell_at cells k)"
  using assms
proof (induction ts arbitrary: cells)
  case (Cons t ts)
  have len: "length (write_at cells (t * CELL_SIZE) cell) = n * CELL_SIZE"
    using Cons.prems by (intro length_splice_cells[of _ 1]) simp_all
  have "cell_at (write_at cells (t * CELL_SIZE) cell) k = (if k = t then cell else cell_at cells k)"
    using Cons.prems cell_at_splice[of cell 1 t n cells k] by (auto simp: cell_at_self)
  then show ?case using Cons len by (cases "k = t") auto
qed simp

subsection \<open>Copying a rectangle\<close>

lemma slice_concat_uniform:
  assumes "\<And>i. i < n \<Longrightarrow> length (f i) = d" and "p < n"
  shows "slice_of (concat (map f [0..<n])) (p * d) d = f p"
proof -
  have "concat (map f [0..<n])
      = concat (map f [0..<p]) @ f p @ concat (map f [Suc p..<n])"
    using assms(2) by (metis concat.simps(2) concat_append le_add1 less_imp_add_positive list.simps(9)
        map_append plus_nat.add_0 upt_add_eq_append upt_conv_Cons)
  moreover have "length (concat (map f [0..<p])) = p * d"
    using assms by (intro length_concat_uniform) simp
  ultimately show ?thesis using assms by (simp add: slice_at)
qed


lemma copy_cells_rows:
  assumes src: "sr + R \<le> H" "sc + W \<le> C" and len: "length cells = H * C * CELL_SIZE"
  shows "copy_cells C cells sr sc dr dc R W
    = fold (\<lambda>r cs. write_at cs (((dr + r) * C + dc) * CELL_SIZE)
        (slice_of cells (((sr + r) * C + sc) * CELL_SIZE) (W * CELL_SIZE))) [0..<R] cells"
proof -
  let ?f = "\<lambda>r. slice_of cells (((sr + r) * C + sc) * CELL_SIZE) (W * CELL_SIZE)"
  have in_range: "((sr + r) * C + sc) * CELL_SIZE + W * CELL_SIZE \<le> length cells" if "r < R" for r
  proof -
    have "(sr + r) * C + sc + W \<le> Suc (sr + r) * C" using src by simp
    also have "\<dots> \<le> H * C" using that src by (intro mult_le_mono1) simp
    finally show ?thesis using len by (metis add_mult_distrib mult_le_mono1)
  qed
  have "slice_of (concat (map ?f [0..<R])) (r * W * CELL_SIZE) (W * CELL_SIZE) = ?f r" if "r < R" for r
  proof -
    have "length (?f p) = W * CELL_SIZE" if "p < R" for p
      using in_range[OF that] by (simp add: min.absorb1)
    then show ?thesis
      using slice_concat_uniform[of R ?f "W * CELL_SIZE" r] that by (simp only: mult.assoc)
  qed
  then show ?thesis
    unfolding copy_cells_def Let_def by (intro fold_cong) (auto simp: mult.assoc)
qed

lemma copy_cells_effect:
  assumes src: "sr + R \<le> H" "sc + W \<le> C" and dst: "dr + R \<le> H" "dc + W \<le> C"
    and len: "length cells = H * C * CELL_SIZE"
  shows "length (copy_cells C cells sr sc dr dc R W) = H * C * CELL_SIZE"
    and "k < H * C \<Longrightarrow> cell_at (copy_cells C cells sr sc dr dc R W) k =
      (if \<exists>r < R. \<exists>c < W. k = (dr + r) * C + dc + c
       then cell_at cells (sr * C + sc + (k - (dr * C + dc))) else cell_at cells k)"
proof -
  let ?step = "\<lambda>r cs. write_at cs (((dr + r) * C + dc) * CELL_SIZE)
        (slice_of cells (((sr + r) * C + sc) * CELL_SIZE) (W * CELL_SIZE))"
  have row_end: "(row + r) * C + col + W \<le> H * C" if "row + R \<le> H" "col + W \<le> C" "r < R" for row col r
  proof -
    have "(row + r) * C + col + W \<le> Suc (row + r) * C" using that by simp
    also have "\<dots> \<le> H * C" using that by (intro mult_le_mono1) simp
    finally show ?thesis .
  qed
  have src_len: "length (slice_of cells (((sr + r) * C + sc) * CELL_SIZE) (W * CELL_SIZE)) = W * CELL_SIZE"
    if "r < R" for r
  proof -
    have "((sr + r) * C + sc) * CELL_SIZE + W * CELL_SIZE \<le> length cells"
      using row_end[OF src that] len by (metis add_mult_distrib mult_le_mono1)
    then show ?thesis by simp
  qed
  have main: "n \<le> R \<Longrightarrow> length (fold ?step [0..<n] cells) = H * C * CELL_SIZE \<and>
      (\<forall>k < H * C. cell_at (fold ?step [0..<n] cells) k =
        (if \<exists>r < n. \<exists>c < W. k = (dr + r) * C + dc + c
         then cell_at cells (sr * C + sc + (k - (dr * C + dc))) else cell_at cells k))" for n
  proof (induction n)
    case 0
    then show ?case using len by simp
  next
    case (Suc n)
    let ?cs = "fold ?step [0..<n] cells"
    let ?chunk = "slice_of cells (((sr + n) * C + sc) * CELL_SIZE) (W * CELL_SIZE)"
    have n: "n < R" using Suc.prems by simp
    have chunk: "length ?chunk = W * CELL_SIZE" using src_len[OF n] .
    have fits: "(dr + n) * C + dc + W \<le> H * C" using row_end[OF dst n] .
    have IH_len: "length ?cs = H * C * CELL_SIZE" and
      IH: "\<And>k. k < H * C \<Longrightarrow> cell_at ?cs k =
        (if \<exists>r < n. \<exists>c < W. k = (dr + r) * C + dc + c
         then cell_at cells (sr * C + sc + (k - (dr * C + dc))) else cell_at cells k)"
      using Suc n by auto
    have "length (?step n ?cs) = H * C * CELL_SIZE"
      by (rule length_splice_cells[OF chunk fits IH_len])
    moreover have "cell_at (?step n ?cs) k =
        (if \<exists>r < Suc n. \<exists>c < W. k = (dr + r) * C + dc + c
         then cell_at cells (sr * C + sc + (k - (dr * C + dc))) else cell_at cells k)"
      if k: "k < H * C" for k
    proof (cases "(dr + n) * C + dc \<le> k \<and> k < (dr + n) * C + dc + W")
      case True
      define j where "j = k - ((dr + n) * C + dc)"
      have j: "j < W" "k = (dr + n) * C + dc + j" using True by (auto simp: j_def)
      have "cell_at (?step n ?cs) k = cell_at ?chunk j"
        using cell_at_splice[OF chunk fits IH_len k] True by (simp add: j_def)
      also have "\<dots> = cell_at cells (((sr + n) * C + sc) + j)"
        using cell_at_slice[OF j(1)] by simp
      also have "((sr + n) * C + sc) + j = sr * C + sc + (k - (dr * C + dc))"
        by (simp add: j(2) add_mult_distrib)
      finally show ?thesis using j by auto
    next
      case False
      then have "cell_at (?step n ?cs) k = cell_at ?cs k"
        using cell_at_splice[OF chunk fits IH_len k] by auto
      moreover have "(\<exists>r < Suc n. \<exists>c < W. k = (dr + r) * C + dc + c)
          \<longleftrightarrow> (\<exists>r < n. \<exists>c < W. k = (dr + r) * C + dc + c)"
        using False by (auto simp: less_Suc_eq)
      ultimately show ?thesis using IH[OF k] by simp
    qed
    ultimately show ?case by simp
  qed
  have eq: "copy_cells C cells sr sc dr dc R W = fold ?step [0..<R] cells"
    by (rule copy_cells_rows[OF src len])
  show "length (copy_cells C cells sr sc dr dc R W) = H * C * CELL_SIZE"
    unfolding eq using main[of R] by simp
  show "k < H * C \<Longrightarrow> cell_at (copy_cells C cells sr sc dr dc R W) k =
      (if \<exists>r < R. \<exists>c < W. k = (dr + r) * C + dc + c
       then cell_at cells (sr * C + sc + (k - (dr * C + dc))) else cell_at cells k)"
    unfolding eq using main[of R] by simp
qed

subsection \<open>Patching\<close>

lemma length_patch_cell [simp]: "length (patch_cell data d j) = CELL_SIZE"
  by (simp add: patch_cell_def)

text \<open>The number of dirty cells before cell \<open>k\<close> is its index in the patch data.\<close>

definition dirty_rank :: "bytes \<Rightarrow> nat \<Rightarrow> nat" where
  "dirty_rank bitmask k = length (filter (mask_bit bitmask) [0..<k])"

lemma patch_loop_frame:
  "\<exists>c ov. patch_loop bm data d is j f = f\<lparr>fs_cells := c, fs_overflow := ov\<rparr>"
proof (induction bm data d "is" j f rule: patch_loop.induct)
  case (1 bm data d j f)
  have "f = f\<lparr>fs_cells := fs_cells f, fs_overflow := fs_overflow f\<rparr>" by simp
  then show ?case by (metis patch_loop.simps(1))
next
  case (2 bm data d i "is" j f)
  show ?case
  proof (cases "mask_bit bm i")
    case False
    then show ?thesis using 2 by simp
  next
    case True
    let ?f1 = "f\<lparr>fs_cells := write_at (fs_cells f) (i * CELL_SIZE) (patch_cell data d j)\<rparr>"
    let ?f2 = "if content_len (fs_cells ?f1 ! (i * CELL_SIZE + 1)) \<noteq> CONTENT_OVERFLOW
        then ?f1\<lparr>fs_overflow := bt_remove i (fs_overflow ?f1)\<rparr> else ?f1"
    obtain c ov where "patch_loop bm data d is (j + 1) ?f2 = ?f2\<lparr>fs_cells := c, fs_overflow := ov\<rparr>"
      using 2(2)[OF _ refl refl refl] True by auto
    then have "patch_loop bm data d (i # is) j f = f\<lparr>fs_cells := c, fs_overflow := ov\<rparr>"
      using True by (simp add: Let_def)
    then show ?thesis by blast
  qed
qed

lemma patch_loop_effect:
  assumes "length (fs_cells f) = n * CELL_SIZE" and "m \<le> n" and "bt_inv (fs_overflow f)"
  shows "let f' = patch_loop bm data d [m..<n] (dirty_rank bm m) f in
    length (fs_cells f') = n * CELL_SIZE \<and> bt_inv (fs_overflow f') \<and>
    (\<forall>k < n. cell_at (fs_cells f') k =
      (if m \<le> k \<and> mask_bit bm k then patch_cell data d (dirty_rank bm k) else cell_at (fs_cells f) k)) \<and>
    (\<forall>k. bt_get (fs_overflow f') k =
      (if m \<le> k \<and> k < n \<and> mask_bit bm k \<and> \<not> over_cell (patch_cell data d (dirty_rank bm k)) then None
       else bt_get (fs_overflow f) k))"
  using assms
proof (induction "n - m" arbitrary: m f)
  case 0
  then show ?case by (auto simp: Let_def)
next
  case (Suc x)
  then have m: "m < n" by simp
  then have upt: "[m..<n] = m # [Suc m..<n]" by (simp add: upt_conv_Cons)
  have x: "x = n - Suc m" using Suc.hyps(2) by simp
  have rank: "dirty_rank bm (Suc m) = dirty_rank bm m + (if mask_bit bm m then 1 else 0)"
    by (simp add: dirty_rank_def)
  show ?case
  proof (cases "mask_bit bm m")
    case False
    then have "patch_loop bm data d [m..<n] (dirty_rank bm m) f
        = patch_loop bm data d [Suc m..<n] (dirty_rank bm (Suc m)) f"
      by (simp add: upt rank)
    moreover have "m \<le> k \<and> mask_bit bm k \<longleftrightarrow> Suc m \<le> k \<and> mask_bit bm k" for k
      using False by (auto simp: Suc_le_eq le_less)
    moreover have "m \<le> k \<and> k < n \<and> mask_bit bm k \<and> Q \<longleftrightarrow> Suc m \<le> k \<and> k < n \<and> mask_bit bm k \<and> Q" for k Q
      using False by (auto simp: Suc_le_eq le_less)
    moreover note Suc.hyps(1)[OF x Suc.prems(1) _ Suc.prems(3)]
    ultimately show ?thesis using m by (simp only: Suc_le_eq)
  next
    case True
    let ?cell = "patch_cell data d (dirty_rank bm m)"
    let ?f1 = "f\<lparr>fs_cells := write_at (fs_cells f) (m * CELL_SIZE) ?cell\<rparr>"
    let ?f2 = "if over_cell ?cell then ?f1 else ?f1\<lparr>fs_overflow := bt_remove m (fs_overflow f)\<rparr>"
    have len1: "length (fs_cells ?f1) = n * CELL_SIZE"
      using Suc.prems(1) m by (simp add: length_splice_cells[of _ 1])
    have at1: "cell_at (fs_cells ?f1) k = (if k = m then ?cell else cell_at (fs_cells f) k)" if "k < n" for k
      using cell_at_splice[of ?cell 1 m n "fs_cells f" k] Suc.prems(1) m that
      by (auto simp: cell_at_self)
    have "content_len (fs_cells ?f1 ! (m * CELL_SIZE + 1)) = CONTENT_OVERFLOW \<longleftrightarrow> over_cell ?cell"
      using overflows_cell[OF m len1] at1[OF m] by (simp add: overflows_def)
    then have step: "patch_loop bm data d [m..<n] (dirty_rank bm m) f
        = patch_loop bm data d [Suc m..<n] (dirty_rank bm (Suc m)) ?f2"
      using True by (simp add: upt rank Let_def)
    have f2: "fs_cells ?f2 = fs_cells ?f1" "bt_inv (fs_overflow ?f2)"
      "bt_get (fs_overflow ?f2) k = (if k = m \<and> \<not> over_cell ?cell then None else bt_get (fs_overflow f) k)" for k
      using Suc.prems(3) by (auto simp: bt_inv_remove bt_get_remove)
    have IH: "let f' = patch_loop bm data d [Suc m..<n] (dirty_rank bm (Suc m)) ?f2 in
      length (fs_cells f') = n * CELL_SIZE \<and> bt_inv (fs_overflow f') \<and>
      (\<forall>k < n. cell_at (fs_cells f') k =
        (if Suc m \<le> k \<and> mask_bit bm k then patch_cell data d (dirty_rank bm k) else cell_at (fs_cells ?f2) k)) \<and>
      (\<forall>k. bt_get (fs_overflow f') k =
        (if Suc m \<le> k \<and> k < n \<and> mask_bit bm k \<and> \<not> over_cell (patch_cell data d (dirty_rank bm k)) then None
         else bt_get (fs_overflow ?f2) k))"
      using Suc.hyps(1)[OF x, of ?f2] len1 m f2(1,2) by simp
    show ?thesis
      unfolding step Let_def
    proof (intro conjI allI impI)
      show "length (fs_cells (patch_loop bm data d [Suc m..<n] (dirty_rank bm (Suc m)) ?f2)) = n * CELL_SIZE"
        and "bt_inv (fs_overflow (patch_loop bm data d [Suc m..<n] (dirty_rank bm (Suc m)) ?f2))"
        using IH unfolding Let_def by blast+
    next
      fix k assume "k < n"
      then have "cell_at (fs_cells (patch_loop bm data d [Suc m..<n] (dirty_rank bm (Suc m)) ?f2)) k =
        (if Suc m \<le> k \<and> mask_bit bm k then patch_cell data d (dirty_rank bm k) else cell_at (fs_cells ?f1) k)"
        using IH f2(1) unfolding Let_def by metis
      then show "cell_at (fs_cells (patch_loop bm data d [Suc m..<n] (dirty_rank bm (Suc m)) ?f2)) k =
        (if m \<le> k \<and> mask_bit bm k then patch_cell data d (dirty_rank bm k) else cell_at (fs_cells f) k)"
        using at1[OF \<open>k < n\<close>] True by (auto simp: Suc_le_eq le_less)
    next
      fix k
      have "bt_get (fs_overflow (patch_loop bm data d [Suc m..<n] (dirty_rank bm (Suc m)) ?f2)) k =
        (if Suc m \<le> k \<and> k < n \<and> mask_bit bm k \<and> \<not> over_cell (patch_cell data d (dirty_rank bm k)) then None
         else bt_get (fs_overflow ?f2) k)"
        using IH unfolding Let_def by blast
      then show "bt_get (fs_overflow (patch_loop bm data d [Suc m..<n] (dirty_rank bm (Suc m)) ?f2)) k =
        (if m \<le> k \<and> k < n \<and> mask_bit bm k \<and> \<not> over_cell (patch_cell data d (dirty_rank bm k)) then None
         else bt_get (fs_overflow f) k)"
        using f2(3)[of k] True m by (auto simp: Suc_le_eq le_less)
    qed
  qed
qed

end
