(* ===== verification/Frame_Inv.thy ===== *)
theory Frame_Inv
  imports Frame_Cells
begin

text \<open>
  Well-formedness of a frame and its preservation.  \<open>frame_inv\<close> is what the code relies on whenever it
  indexes \<open>cells\<close>, \<open>line_flags\<close> and \<open>cell_links\<close> without a check; the last section shows that no
  byte string a server can send, well formed or not, takes the client's frame out of it.
\<close>

named_theorems frame_inv_simps \<open>operations that keep a frame well formed\<close>

subsection \<open>The invariant\<close>

definition overflow_ok :: "nat \<Rightarrow> (nat, bytes) btree_map \<Rightarrow> bool" where
  "overflow_ok n ov \<longleftrightarrow> bt_inv ov \<and> (\<forall>(k, s) \<in> set ov. k < n \<and> utf8_valid s)"

definition uris_ok :: "(u16, bytes) btree_map \<Rightarrow> bool" where
  "uris_ok uris \<longleftrightarrow> bt_inv uris
     \<and> (\<forall>(lid, uri) \<in> set uris. lid \<noteq> 0 \<and> length uri \<le> MAX_LINK_URI \<and> utf8_valid uri)"

definition links_ok :: "nat \<Rightarrow> u16 list \<Rightarrow> (u16, bytes) btree_map \<Rightarrow> bool" where
  "links_ok n links uris \<longleftrightarrow> (links = [] \<and> uris = []) \<or>
     (length links = n \<and> uris \<noteq> [] \<and> uris_ok uris
       \<and> (\<forall>lid \<in> set links. lid = 0 \<or> bt_get uris lid \<noteq> None))"

definition frame_inv :: "frame_state \<Rightarrow> bool" where
  "frame_inv f \<longleftrightarrow> fs_rows f < 65536 \<and> fs_cols f < 65536 \<and> total_cells f \<le> MAX_CELL_COUNT
     \<and> length (fs_cells f) = total_cells f * CELL_SIZE
     \<and> length (fs_line_flags f) = fs_rows f
     \<and> fs_cursor_row f \<le> fs_rows f - 1 \<and> fs_cursor_col f \<le> fs_cols f - 1
     \<and> utf8_valid (fs_title f)
     \<and> overflow_ok (total_cells f) (fs_overflow f)
     \<and> links_ok (total_cells f) (fs_cell_links f) (fs_link_uris f)"

lemma total_cells_update [simp]:
  "total_cells (f\<lparr>fs_cells := x1\<rparr>) = total_cells f" "total_cells (f\<lparr>fs_overflow := x2\<rparr>) = total_cells f"
  "total_cells (f\<lparr>fs_title := x3\<rparr>) = total_cells f" "total_cells (f\<lparr>fs_line_flags := x4\<rparr>) = total_cells f"
  "total_cells (f\<lparr>fs_cursor_row := x5\<rparr>) = total_cells f" "total_cells (f\<lparr>fs_cursor_col := x6\<rparr>) = total_cells f"
  "total_cells (f\<lparr>fs_mode := x7\<rparr>) = total_cells f" "total_cells (f\<lparr>fs_scrollback := x8\<rparr>) = total_cells f"
  "total_cells (f\<lparr>fs_cell_links := x9\<rparr>) = total_cells f" "total_cells (f\<lparr>fs_link_uris := x10\<rparr>) = total_cells f"
  by (simp_all add: total_cells_def)

lemma links_ok_Nil [simp]: "links_ok n [] []"
  by (simp add: links_ok_def)

lemma overflow_ok_Nil [simp]: "overflow_ok n []"
  by (simp add: overflow_ok_def)

lemma overflow_ok_iff:
  "bt_inv ov \<Longrightarrow> overflow_ok n ov \<longleftrightarrow> (\<forall>k s. bt_get ov k = Some s \<longrightarrow> k < n \<and> utf8_valid s)"
  by (auto simp: overflow_ok_def bt_get_def bt_inv_def strict_sorted_iff)

lemma overflow_okD: "overflow_ok n ov \<Longrightarrow> bt_inv ov"
  by (simp add: overflow_ok_def)

lemma overflow_ok_get: "overflow_ok n ov \<Longrightarrow> bt_get ov k = Some s \<Longrightarrow> k < n \<and> utf8_valid s"
  using overflow_ok_iff overflow_okD by blast

lemma overflow_ok_sub:
  assumes "overflow_ok n ov" and "bt_inv ov'" and "\<And>k. bt_get ov' k = None \<or> bt_get ov' k = bt_get ov k"
  shows "overflow_ok n ov'"
  using assms by (metis overflow_ok_iff overflow_okD option.distinct(1))

lemma overflow_ok_insert [frame_inv_simps]:
  "overflow_ok n ov \<Longrightarrow> k < n \<Longrightarrow> utf8_valid s \<Longrightarrow> overflow_ok n (bt_insert k s ov)"
  by (simp add: overflow_ok_iff overflow_okD bt_inv_insert bt_get_insert overflow_ok_get)

lemma overflow_ok_insert_all:
  "overflow_ok n ov \<Longrightarrow> \<forall>(k, s) \<in> set kvs. k < n \<and> utf8_valid s
    \<Longrightarrow> overflow_ok n (fold (\<lambda>(k, s). bt_insert k s) kvs ov)"
  by (induction kvs arbitrary: ov) (auto simp: frame_inv_simps)

lemma overflow_ok_remove [frame_inv_simps]: "overflow_ok n ov \<Longrightarrow> overflow_ok n (bt_remove k ov)"
  by (rule overflow_ok_sub[of n ov]) (auto simp: overflow_okD bt_inv_remove bt_get_remove)

lemma overflow_ok_remove_all [frame_inv_simps]: "overflow_ok n ov \<Longrightarrow> overflow_ok n (fold bt_remove ks ov)"
  by (induction ks arbitrary: ov) (auto simp: frame_inv_simps)

lemma frame_inv_new:
  "rows < 65536 \<Longrightarrow> cols < 65536 \<Longrightarrow> rows * cols \<le> MAX_CELL_COUNT \<Longrightarrow> frame_inv (frame_new rows cols)"
  by (simp add: frame_inv_def frame_new_def total_cells_def)

text \<open>A step that only rewrites cells and overflow strings.\<close>

lemma frame_inv_cells [frame_inv_simps]:
  "frame_inv f \<Longrightarrow> length c = length (fs_cells f) \<Longrightarrow> overflow_ok (total_cells f) ov
    \<Longrightarrow> frame_inv (f\<lparr>fs_cells := c, fs_overflow := ov\<rparr>)"
  by (simp add: frame_inv_def)

lemma frame_inv_overflow [frame_inv_simps]:
  "frame_inv f \<Longrightarrow> overflow_ok (total_cells f) ov \<Longrightarrow> frame_inv (f\<lparr>fs_overflow := ov\<rparr>)"
  by (simp add: frame_inv_def)

lemma frame_inv_cells_only [frame_inv_simps]:
  "frame_inv f \<Longrightarrow> length c = length (fs_cells f) \<Longrightarrow> frame_inv (f\<lparr>fs_cells := c\<rparr>)"
  by (simp add: frame_inv_def)

lemma frame_inv_links [frame_inv_simps]:
  "frame_inv f \<Longrightarrow> links_ok (total_cells f) links uris
    \<Longrightarrow> frame_inv (f\<lparr>fs_cell_links := links, fs_link_uris := uris\<rparr>)"
  by (simp add: frame_inv_def)

lemma frame_inv_clear_links [frame_inv_simps]: "frame_inv f \<Longrightarrow> frame_inv (clear_links f)"
  by (simp add: clear_links_def frame_inv_links)

lemma frame_inv_misc [frame_inv_simps]:
  "frame_inv f \<Longrightarrow> frame_inv (f\<lparr>fs_scrollback := sb\<rparr>)"
  "frame_inv f \<Longrightarrow> frame_inv (f\<lparr>fs_mode := md\<rparr>)"
  "frame_inv f \<Longrightarrow> utf8_valid t \<Longrightarrow> frame_inv (f\<lparr>fs_title := t\<rparr>)"
  "frame_inv f \<Longrightarrow> length lf = fs_rows f \<Longrightarrow> frame_inv (f\<lparr>fs_line_flags := lf\<rparr>)"
  by (simp_all add: frame_inv_def)

lemma frame_inv_cursor [frame_inv_simps]:
  "frame_inv f \<Longrightarrow> r \<le> fs_rows f - 1 \<Longrightarrow> c \<le> fs_cols f - 1
    \<Longrightarrow> frame_inv (f\<lparr>fs_cursor_row := r, fs_cursor_col := c\<rparr>)"
  unfolding frame_inv_def total_cells_def by simp

lemma frame_inv_len: "frame_inv f \<Longrightarrow> length (fs_cells f) = total_cells f * CELL_SIZE"
  "frame_inv f \<Longrightarrow> length (fs_cells f) = fs_rows f * fs_cols f * CELL_SIZE"
  by (simp_all add: frame_inv_def total_cells_def)

lemma frame_inv_overflow_ok: "frame_inv f \<Longrightarrow> overflow_ok (total_cells f) (fs_overflow f)"
  by (simp add: frame_inv_def)

subsection \<open>The decoder's operations\<close>

lemma frame_inv_set_cursor [frame_inv_simps]: "frame_inv f \<Longrightarrow> frame_inv (set_cursor f r c)"
  unfolding set_cursor_def by (rule frame_inv_cursor) simp_all

lemma frame_inv_resize [frame_inv_simps]:
  assumes "frame_inv f" and "rows < 65536" and "cols < 65536" and "rows * cols \<le> MAX_CELL_COUNT"
  shows "frame_inv (frame_resize f rows cols)"
  using assms by (simp add: frame_inv_def frame_resize_def clear_links_def total_cells_def)

lemma frame_inv_patch [frame_inv_simps]:
  assumes "frame_inv f"
  shows "frame_inv (apply_patch_cells f bm data d)"
proof -
  let ?f' = "apply_patch_cells f bm data d"
  obtain c ov where f': "?f' = f\<lparr>fs_cells := c, fs_overflow := ov\<rparr>"
    unfolding apply_patch_cells_def using patch_loop_frame by metis
  have rank: "dirty_rank bm 0 = 0" by (simp add: dirty_rank_def)
  note eff = patch_loop_effect[OF frame_inv_len(1)[OF assms] le0
      overflow_okD[OF frame_inv_overflow_ok[OF assms]], of bm data d, unfolded Let_def rank,
      folded apply_patch_cells_def]
  have "overflow_ok (total_cells f) (fs_overflow ?f')"
    using eff by (intro overflow_ok_sub[OF frame_inv_overflow_ok[OF assms]]) (metis (no_types, lifting))+
  with eff show ?thesis
    unfolding f' using assms by (intro frame_inv_cells) (simp_all add: frame_inv_len)
qed

lemma frame_inv_copy_rect [frame_inv_simps]:
  assumes "frame_inv f"
  shows "frame_inv (fst (apply_copy_rect f sr sc dr dc rows cols))"
proof -
  let ?R = "clamp_copy (fs_rows f) sr dr rows" and ?C = "clamp_copy (fs_cols f) sc dc cols"
  show ?thesis
  proof (cases "?R = 0 \<or> ?C = 0")
    case True
    then show ?thesis using assms by (simp add: apply_copy_rect_def Let_def)
  next
    case False
    let ?srcs = "rect_cells (fs_cols f) sr sc ?R ?C" and ?dsts = "rect_cells (fs_cols f) dr dc ?R ?C"
    let ?temp = "concat (map (\<lambda>(src, dst). case bt_get (fs_overflow f) src of
        Some s \<Rightarrow> [(dst, s)] | None \<Rightarrow> []) (zip ?srcs ?dsts))"
    have R: "sr + ?R \<le> fs_rows f" "dr + ?R \<le> fs_rows f" and C: "sc + ?C \<le> fs_cols f" "dc + ?C \<le> fs_cols f"
      using False clamp_copy_le by auto
    let ?cells = "copy_cells (fs_cols f) (fs_cells f) sr sc dr dc ?R ?C"
    have "\<forall>(k, s) \<in> set ?temp. k < total_cells f \<and> utf8_valid s"
      using rect_cells_less[OF R(2) C(2)] overflow_ok_get[OF frame_inv_overflow_ok[OF assms]]
      by (fastforce simp: total_cells_def split: option.splits dest: set_zip_rightD)
    then have "overflow_ok (total_cells f)
        (fold (\<lambda>(k, s). bt_insert k s) ?temp (fold bt_remove ?dsts (fs_overflow f)))"
      using assms by (intro overflow_ok_insert_all frame_inv_simps frame_inv_overflow_ok)
    moreover have "length ?cells = length (fs_cells f)"
      using copy_cells_effect(1)[OF R(1) C(1) R(2) C(2) frame_inv_len(2)[OF assms]]
      by (simp only: frame_inv_len(2)[OF assms])
    ultimately have "frame_inv (f\<lparr>fs_cells := ?cells,
        fs_overflow := fold (\<lambda>(k, s). bt_insert k s) ?temp (fold bt_remove ?dsts (fs_overflow f))\<rparr>)"
      using assms by (intro frame_inv_cells)
    then show ?thesis
      using False unfolding apply_copy_rect_def Let_def by simp
  qed
qed

lemma frame_inv_fill_rect [frame_inv_simps]:
  assumes "frame_inv f" and "length cell = CELL_SIZE"
  shows "frame_inv (fst (apply_fill_rect f row col rows cols cell))"
proof -
  let ?re = "min (sat_add16 row rows) (fs_rows f)" and ?ce = "min (sat_add16 col cols) (fs_cols f)"
  let ?ts = "rect_cells (fs_cols f) row col (?re - row) (?ce - col)"
  have ov: "overflow_ok (total_cells f) (fold bt_remove ?ts (fs_overflow f))"
    using assms(1) by (intro frame_inv_simps frame_inv_overflow_ok)
  show ?thesis
  proof (cases "row \<ge> ?re \<or> col \<ge> ?ce")
    case True
    then show ?thesis using assms ov by (simp add: apply_fill_rect_def Let_def frame_inv_overflow)
  next
    case False
    have "\<forall>i \<in> set ?ts. i < total_cells f"
      using False rect_cells_less[of row "?re - row" "fs_rows f" col "?ce - col" "fs_cols f"]
      by (auto simp: total_cells_def)
    then have "length (fold (\<lambda>i cells. write_at cells (i * CELL_SIZE) cell) ?ts (fs_cells f))
        = total_cells f * CELL_SIZE"
      using assms by (intro length_fill_fold) (simp_all add: frame_inv_len)
    then have "frame_inv (f\<lparr>fs_cells := fold (\<lambda>i cells. write_at cells (i * CELL_SIZE) cell) ?ts (fs_cells f),
        fs_overflow := fold bt_remove ?ts (fs_overflow f)\<rparr>)"
      using assms ov by (intro frame_inv_cells) (simp_all add: frame_inv_len)
    moreover have "fst (apply_fill_rect f row col rows cols cell)
        = f\<lparr>fs_cells := fold (\<lambda>i cells. write_at cells (i * CELL_SIZE) cell) ?ts (fs_cells f),
            fs_overflow := fold bt_remove ?ts (fs_overflow f)\<rparr>"
      using False unfolding apply_fill_rect_def Let_def by simp
    ultimately show ?thesis by simp
  qed
qed

lemma frame_inv_op [frame_inv_simps]: "frame_inv f \<Longrightarrow> frame_inv (fst (apply_op f payload off))"
  by (auto simp: apply_op_def Let_def split_def frame_inv_copy_rect frame_inv_fill_rect frame_inv_patch)

lemma frame_inv_ops_loop: "frame_inv f \<Longrightarrow> frame_inv (fst (apply_ops_loop n f payload off ch))"
proof (induction n f payload off ch rule: apply_ops_loop.induct)
  case (2 n f payload off ch)
  show ?case
  proof (cases "apply_op f payload off")
    case (Pair f' r)
    then have "frame_inv f'" using frame_inv_op[OF "2.prems", of payload off] by simp
    then show ?thesis using 2 Pair by (cases r) (auto split: prod.splits)
  qed
qed simp

lemma frame_inv_ops_payload [frame_inv_simps]: "frame_inv f \<Longrightarrow> frame_inv (fst (apply_ops_payload f payload))"
  by (simp add: apply_ops_payload_def frame_inv_ops_loop)

lemma frame_inv_legacy [frame_inv_simps]:
  "frame_inv f \<Longrightarrow> frame_inv (fst (apply_legacy_patch_payload f payload))"
  by (simp add: apply_legacy_patch_payload_def Let_def frame_inv_patch)

lemma frame_inv_overflow_loop: "frame_inv f \<Longrightarrow> frame_inv (fst (overflow_loop n f data off))"
  by (induction n f data off rule: overflow_loop.induct)
    (auto simp: Let_def frame_inv_simps frame_inv_overflow_ok split: option.split)

lemma frame_inv_overflow_strings [frame_inv_simps]:
  "frame_inv f \<Longrightarrow> frame_inv (fst (apply_overflow_strings f data))"
  by (simp add: apply_overflow_strings_def frame_inv_overflow_loop)

subsection \<open>The hyperlink section\<close>

lemma uris_okD: "uris_ok uris \<Longrightarrow> bt_inv uris"
  by (simp add: uris_ok_def)

lemma uris_ok_Nil [simp]: "uris_ok []"
  by (simp add: uris_ok_def)

lemma uris_ok_iff: "bt_inv uris \<Longrightarrow> uris_ok uris \<longleftrightarrow>
    (\<forall>lid uri. bt_get uris lid = Some uri \<longrightarrow> lid \<noteq> 0 \<and> length uri \<le> MAX_LINK_URI \<and> utf8_valid uri)"
  by (auto simp: uris_ok_def bt_get_def bt_inv_def strict_sorted_iff)

lemma uris_ok_get: "uris_ok uris \<Longrightarrow> bt_get uris lid = Some uri
    \<Longrightarrow> lid \<noteq> 0 \<and> length uri \<le> MAX_LINK_URI \<and> utf8_valid uri"
  using uris_ok_iff uris_okD by blast

lemma uris_ok_insert:
  "uris_ok uris \<Longrightarrow> lid \<noteq> 0 \<Longrightarrow> length uri \<le> MAX_LINK_URI \<Longrightarrow> utf8_valid uri
    \<Longrightarrow> uris_ok (bt_insert lid uri uris)"
  by (simp add: uris_ok_iff uris_okD bt_inv_insert bt_get_insert uris_ok_get)

lemma read_uris_ok:
  "read_uris n data off uris = Some (uris', off') \<Longrightarrow> uris_ok uris \<Longrightarrow> uris_ok uris'"
proof (induction n data off uris rule: read_uris.induct)
  case (2 n data off uris)
  let ?lid = "rdw 2 data off :: u16" and ?len = "rd 2 data (off + 2)"
  have some: "\<not> off + 4 > length data" "\<not> (off + 4 + ?len > length data \<or> ?len > MAX_LINK_URI)"
    using "2.prems"(1) by (auto simp: Let_def split: if_splits)
  let ?uris = "if ?lid \<noteq> 0 then (case from_utf8 (slice_of data (off + 4) ?len) of
      Some uri \<Rightarrow> bt_insert ?lid uri uris | None \<Rightarrow> uris) else uris"
  have "uris_ok ?uris"
    using "2.prems"(2) some by (auto simp: uris_ok_insert split: option.split)
  moreover have "read_uris n data (off + 4 + ?len) ?uris = Some (uris', off')"
    using "2.prems"(1) some by (simp only: read_uris.simps Let_def if_False)
  ultimately show ?case using "2.IH"[OF some(1) refl refl refl some(2) refl] by (simp only:)
qed simp

definition known_links :: "nat \<Rightarrow> (u16, bytes) btree_map \<Rightarrow> u16 list \<Rightarrow> bool" where
  "known_links n uris links \<longleftrightarrow> length links = n \<and> (\<forall>lid \<in> set links. lid = 0 \<or> bt_get uris lid \<noteq> None)"

lemma known_links_write:
  assumes "known_links n uris links" and "start < n" and "bt_get uris lid \<noteq> None" and "end \<le> n"
  shows "known_links n uris (write_at links start (replicate (end - start) lid))"
  using assms
  by (auto simp: known_links_def write_at_def dest!: in_set_takeD in_set_dropD)

lemma read_runs_known:
  "read_runs n data off t uris links = Some links' \<Longrightarrow> known_links t uris links \<Longrightarrow> known_links t uris links'"
proof (induction n data off t uris links rule: read_runs.induct)
  case (2 n data off t uris links)
  let ?start = "rd 4 data off" and ?len = "rd 2 data (off + 4)" and ?lid = "rdw 2 data (off + 6) :: u16"
  have some: "\<not> off + 8 > length data"
    using "2.prems"(1) by (auto split: if_splits)
  let ?links = "if ?lid = 0 \<or> bt_get uris ?lid = None then links
    else let end = min (?start + ?len) t in
      if ?start \<ge> t then links else write_at links ?start (replicate (end - ?start) ?lid)"
  have "known_links t uris ?links"
    using "2.prems"(2) by (auto simp: Let_def intro!: known_links_write)
  moreover have "read_runs n data (off + 8) t uris ?links = Some links'"
    using "2.prems"(1) some by (simp add: Let_def)
  ultimately show ?case using "2.IH"[OF some refl refl refl refl] by simp
qed simp

lemma set_links_known:
  assumes "known_links (total_cells f) uris links" and "uris_ok uris"
  shows "set_links f links uris = (if uris = [] then clear_links f
    else f\<lparr>fs_cell_links := links, fs_link_uris := uris\<rparr>)"
  using assms by (auto simp: set_links_def known_links_def uris_ok_def)

lemma frame_inv_set_links:
  assumes "frame_inv f" and "known_links (total_cells f) uris links" and "uris_ok uris"
  shows "frame_inv (set_links f links uris)"
  using assms
  by (auto simp: set_links_known frame_inv_clear_links links_ok_def known_links_def intro!: frame_inv_links)

lemma frame_inv_links_section [frame_inv_simps]:
  assumes "frame_inv f"
  shows "frame_inv (apply_links_section f data)"
proof -
  have run: "frame_inv (case read_runs m data off' (total_cells f) uris (replicate (total_cells f) 0) of
      None \<Rightarrow> clear_links f | Some links \<Rightarrow> set_links f links uris)"
    if "read_uris n data off [] = Some (uris, off'')" for n off uris off' off'' m
  proof (cases "read_runs m data off' (total_cells f) uris (replicate (total_cells f) 0)")
    case None
    then show ?thesis using assms by (simp add: frame_inv_clear_links)
  next
    case (Some links)
    then have "known_links (total_cells f) uris links"
      by (rule read_runs_known) (simp add: known_links_def)
    then show ?thesis
      using Some assms read_uris_ok[OF that] by (simp add: frame_inv_set_links)
  qed
  show ?thesis
    using assms run
    by (auto simp: apply_links_section_def Let_def frame_inv_clear_links split: option.split)
qed

subsection \<open>A whole payload\<close>

lemma update_header_of_bounds:
  assumes "update_header_of payload = Some h"
  shows "h_rows h < 65536" "h_cols h < 65536" "h_rows h * h_cols h \<le> MAX_CELL_COUNT"
proof -
  have h: "h_rows h = rd 2 payload 0" "h_cols h = rd 2 payload 2"
    and le: "\<not> rd 2 payload 0 * rd 2 payload 2 > MAX_CELL_COUNT"
    using assms by (auto simp: update_header_of_def Let_def split: if_splits)
  show "h_rows h < 65536" "h_cols h < 65536" "h_rows h * h_cols h \<le> MAX_CELL_COUNT"
    using h le rd_bound[of 2 payload 0] rd_bound[of 2 payload 2] by simp_all
qed

lemma apply_title_and_size_inv:
  assumes "frame_inv f" and "h_rows h < 65536" "h_cols h < 65536" "h_rows h * h_cols h \<le> MAX_CELL_COUNT"
  shows "frame_inv (fst (apply_title_and_size f h payload))"
    and "fs_rows (fst (apply_title_and_size f h payload)) = h_rows h"
    and "fs_cols (fst (apply_title_and_size f h payload)) = h_cols h"
proof -
  let ?t = "from_utf8_lossy (slice_of payload 12 (h_title_end h - 12))"
  let ?f = "if h_title_present h then fst (set_title f ?t) else f"
  have f: "frame_inv ?f" using assms(1) by (simp add: set_title_def frame_inv_misc utf8_valid_lossy)
  have eq: "fst (apply_title_and_size f h payload)
      = (if h_rows h \<noteq> fs_rows ?f \<or> h_cols h \<noteq> fs_cols ?f then frame_resize ?f (h_rows h) (h_cols h) else ?f)"
    by (simp add: apply_title_and_size_def Let_def split_def)
  show "frame_inv (fst (apply_title_and_size f h payload))"
    unfolding eq using f assms frame_inv_resize by simp
  show "fs_rows (fst (apply_title_and_size f h payload)) = h_rows h"
    "fs_cols (fst (apply_title_and_size f h payload)) = h_cols h"
    unfolding eq by (simp_all add: frame_resize_def clear_links_def)
qed

text \<open>What a step may change without touching the size.\<close>

lemma apply_op_size: "fs_rows (fst (apply_op f p off)) = fs_rows f" "fs_cols (fst (apply_op f p off)) = fs_cols f"
proof -
  have patch: "fs_rows (apply_patch_cells f bm d k) = fs_rows f" "fs_cols (apply_patch_cells f bm d k) = fs_cols f"
    for bm d k
    unfolding apply_patch_cells_def
    by (metis (no_types, lifting) frame_state.select_convs(1,2) frame_state.surjective frame_state.update_convs(3,8)
        patch_loop_frame)+
  show "fs_rows (fst (apply_op f p off)) = fs_rows f" "fs_cols (fst (apply_op f p off)) = fs_cols f"
    by (auto simp: apply_op_def apply_copy_rect_def apply_fill_rect_def Let_def split_def patch)
qed

lemma apply_ops_loop_size:
  "fs_rows (fst (apply_ops_loop n f p off ch)) = fs_rows f \<and> fs_cols (fst (apply_ops_loop n f p off ch)) = fs_cols f"
proof (induction n f p off ch rule: apply_ops_loop.induct)
  case (2 n f p off ch)
  show ?case
  proof (cases "apply_op f p off")
    case (Pair f' r)
    then show ?thesis
      using 2 apply_op_size[of f p off] by (cases r) (auto split: prod.splits)
  qed
qed simp

lemma apply_legacy_size:
  "fs_rows (fst (apply_legacy_patch_payload f p)) = fs_rows f"
  using apply_op_size(1)
proof -
  have "fs_rows (apply_patch_cells f bm d k) = fs_rows f" for bm d k
    unfolding apply_patch_cells_def
    by (metis (no_types, lifting) frame_state.select_convs(1) frame_state.surjective frame_state.update_convs(3,8)
        patch_loop_frame)
  then show ?thesis by (simp add: apply_legacy_patch_payload_def Let_def)
qed

lemma apply_content_inv:
  assumes "frame_inv f"
  shows "frame_inv (fst (apply_content f h p))" and "fs_rows (fst (apply_content f h p)) = fs_rows f"
proof -
  have eq: "fst (apply_content f h p) = fst (if h_ops_present h then apply_ops_payload f (drop (h_title_end h) p)
      else apply_legacy_patch_payload f (drop (h_title_end h) p))"
    by (simp add: apply_content_def Let_def split_def)
  show "frame_inv (fst (apply_content f h p))"
    unfolding eq using assms by (simp add: frame_inv_simps)
  show "fs_rows (fst (apply_content f h p)) = fs_rows f"
    unfolding eq by (simp add: apply_ops_payload_def apply_ops_loop_size apply_legacy_size)
qed

lemma overflow_loop_size: "fs_rows (fst (overflow_loop n f data off)) = fs_rows f"
  by (induction n f data off rule: overflow_loop.induct) (auto simp: Let_def split: option.split)

lemma apply_payload_inv: "frame_inv f \<Longrightarrow> frame_inv (fst (apply_payload f payload))"
proof (cases "update_header_of payload")
  case (Some h)
  assume "frame_inv f"
  note bounds = update_header_of_bounds[OF Some]
  define f1 where "f1 = fst (apply_title_and_size f h payload)"
  have f1: "frame_inv f1" "fs_rows f1 = h_rows h" "fs_cols f1 = h_cols h"
    using apply_title_and_size_inv[OF \<open>frame_inv f\<close> bounds] by (simp_all add: f1_def)
  define f2 where "f2 = fst (apply_content f1 h payload)"
  have f2: "frame_inv f2" "fs_rows f2 = h_rows h"
    using apply_content_inv f1 by (simp_all add: f2_def)
  define f3 where "f3 = fst (if h_strings_present h
    then apply_overflow_strings f2 (drop (snd (snd (apply_content f1 h payload))) payload) else (f2, 0))"
  have f3: "frame_inv f3" "fs_rows f3 = h_rows h"
    using f2 frame_inv_overflow_strings[OF f2(1)]
    by (simp_all add: f3_def) (simp add: apply_overflow_strings_def overflow_loop_size)
  define c where "c = snd (if h_strings_present h
    then apply_overflow_strings f2 (drop (snd (snd (apply_content f1 h payload))) payload) else (f2, 0))"
  define lf where "lf = apply_line_flags f3 h payload (snd (snd (apply_content f1 h payload)) + c)"
  have f4: "frame_inv (fst lf)"
    using f3 unfolding lf_def by (auto simp: apply_line_flags_def Let_def intro!: frame_inv_misc)
  define f5 where "f5 = apply_scrollback (fst lf) payload (snd (snd lf))"
  have f5: "frame_inv f5"
    using f4 unfolding f5_def by (simp add: apply_scrollback_def frame_inv_simps)
  have "frame_inv (f5\<lparr>fs_cursor_row := min (h_cursor_row h) (fs_rows f5 - 1),
      fs_cursor_col := min (h_cursor_col h) (fs_cols f5 - 1), fs_mode := h_mode h\<rparr>)"
    using f5 by (intro frame_inv_misc(2) frame_inv_cursor) simp_all
  moreover have "fst (apply_payload f payload) = (if h_ops_present h \<and> length payload < h_title_end h + 2
      then f1 else f5\<lparr>fs_cursor_row := min (h_cursor_row h) (fs_rows f5 - 1),
        fs_cursor_col := min (h_cursor_col h) (fs_cols f5 - 1), fs_mode := h_mode h\<rparr>)"
    unfolding apply_payload_def Some f5_def lf_def c_def f3_def f2_def f1_def
    by (simp add: Let_def split_def)
  ultimately show ?thesis using f1(1) by simp
qed (simp add: apply_payload_def)

lemma feed_compressed_inv: "frame_inv f \<Longrightarrow> frame_inv (fst (feed_compressed d f data))"
  by (simp add: feed_compressed_def apply_payload_inv split: option.split)

lemma feed_batch_inv: "frame_inv f \<Longrightarrow> frame_inv (fst (feed_batch_loop d f batch off ch))"
proof (induction d f batch off ch rule: feed_batch_loop.induct)
  case (1 d f batch off ch)
  show ?case
  proof (cases "off + 4 > length batch \<or> rd 4 batch off = 0 \<or> off + 4 + rd 4 batch off > length batch")
    case True
    then show ?thesis using "1.prems" by (subst feed_batch_loop.simps) (auto simp: Let_def)
  next
    case False
    obtain f' ch' where f': "feed_compressed d f (slice_of batch (off + 4) (rd 4 batch off)) = (f', ch')"
      by (cases "feed_compressed d f (slice_of batch (off + 4) (rd 4 batch off))")
    then have "frame_inv f'" using feed_compressed_inv[OF "1.prems"] by (metis fst_conv)
    then show ?thesis
      using False f' "1.IH"[OF _ refl refl _ f'[symmetric]]
      by (subst feed_batch_loop.simps) (simp add: Let_def)
  qed
qed

end
