(* ===== verification/Frame_Ops.thy ===== *)
theory Frame_Ops
  imports Frame_Inv
begin

text \<open>
  The operation lists of the encoder, replayed by the decoder.  \<open>draws H W ops n c c'\<close> says that the
  \<open>n\<close> encoded operations \<open>ops\<close>, wherever they stand in a payload, take any \<open>H\<close> by \<open>W\<close> client frame
  with cells \<open>c\<close> to the cells \<open>c'\<close>, and never leave an overflow string on a cell that does not ask
  for one.  The encoder's three operations draw what its own basis frame says they draw, and the list
  \<open>update_ops\<close> it settles on draws the current frame.
\<close>

subsection \<open>Overflow strings only where a cell asks for one\<close>

definition grid_ok :: "nat \<Rightarrow> nat \<Rightarrow> bytes \<Rightarrow> (nat, bytes) btree_map \<Rightarrow> bool" where
  "grid_ok H W cells ov \<longleftrightarrow> length cells = H * W * CELL_SIZE \<and> bt_inv ov \<and>
     (\<forall>(k, s) \<in> set ov. k < H * W \<and> over_cell (cell_at cells k))"

lemma grid_ok_iff:
  "grid_ok H W cells ov \<longleftrightarrow> length cells = H * W * CELL_SIZE \<and> bt_inv ov \<and>
     (\<forall>k. bt_get ov k \<noteq> None \<longrightarrow> k < H * W \<and> over_cell (cell_at cells k))"
  by (auto simp: grid_ok_def bt_get_def bt_inv_def strict_sorted_iff) blast+

lemma grid_okD:
  "grid_ok H W cells ov \<Longrightarrow> length cells = H * W * CELL_SIZE"
  "grid_ok H W cells ov \<Longrightarrow> bt_inv ov"
  "grid_ok H W cells ov \<Longrightarrow> bt_get ov k = Some s \<Longrightarrow> k < H * W \<and> over_cell (cell_at cells k)"
  unfolding grid_ok_iff by simp_all

lemma grid_ok_empty: "length cells = H * W * CELL_SIZE \<Longrightarrow> grid_ok H W cells []"
  by (simp add: grid_ok_def)

subsection \<open>Running operations\<close>

lemma apply_ops_loop_add:
  "apply_ops_loop (n + m) f p off ch = (case apply_ops_loop n f p off ch of
      (f', None) \<Rightarrow> (f', None) | (f', Some (ch', off')) \<Rightarrow> apply_ops_loop m f' p off' ch')"
proof (induction n arbitrary: f off ch)
  case (Suc n)
  show ?case
  proof (cases "apply_op f p off")
    case (Pair f' r)
    then show ?thesis using Suc by (cases r) (auto split: prod.splits)
  qed
qed simp

definition draws :: "nat \<Rightarrow> nat \<Rightarrow> bytes \<Rightarrow> nat \<Rightarrow> bytes \<Rightarrow> bytes \<Rightarrow> bool" where
  "draws H W ops n c c' \<longleftrightarrow> (\<forall>f pre rest ch. fs_rows f = H \<and> fs_cols f = W \<and> fs_cells f = c
       \<and> grid_ok H W c (fs_overflow f) \<longrightarrow>
     (\<exists>ov ch'. apply_ops_loop n f (pre @ ops @ rest) (length pre) ch
         = (f\<lparr>fs_cells := c', fs_overflow := ov\<rparr>, Some (ch', length pre + length ops))
       \<and> grid_ok H W c' ov))"

lemma drawsI:
  assumes "\<And>f pre rest ch. fs_rows f = H \<Longrightarrow> fs_cols f = W \<Longrightarrow> fs_cells f = c \<Longrightarrow>
    grid_ok H W c (fs_overflow f) \<Longrightarrow>
    \<exists>ov ch'. apply_ops_loop n f (pre @ ops @ rest) (length pre) ch
      = (f\<lparr>fs_cells := c', fs_overflow := ov\<rparr>, Some (ch', length pre + length ops)) \<and> grid_ok H W c' ov"
  shows "draws H W ops n c c'"
  using assms by (auto simp: draws_def)

lemma drawsE:
  assumes "draws H W ops n c c'" and "fs_rows f = H" "fs_cols f = W" "fs_cells f = c"
    and "grid_ok H W c (fs_overflow f)"
  obtains ov ch' where "apply_ops_loop n f (pre @ ops @ rest) (length pre) ch
      = (f\<lparr>fs_cells := c', fs_overflow := ov\<rparr>, Some (ch', length pre + length ops))" "grid_ok H W c' ov"
  using assms unfolding draws_def by blast

lemma draws_Nil: "draws H W [] 0 c c"
proof (rule drawsI)
  fix f :: frame_state and pre rest :: bytes and ch :: bool
  assume f: "fs_cells f = c" "grid_ok H W c (fs_overflow f)"
  then have "f = f\<lparr>fs_cells := c, fs_overflow := fs_overflow f\<rparr>" by simp
  then show "\<exists>ov ch'. apply_ops_loop 0 f (pre @ [] @ rest) (length pre) ch
      = (f\<lparr>fs_cells := c, fs_overflow := ov\<rparr>, Some (ch', length pre + length [])) \<and> grid_ok H W c ov"
    using f(2) by (intro exI[of _ "fs_overflow f"] exI[of _ ch]) simp
qed

lemma draws_append:
  assumes "draws H W a n c c'" and "draws H W b m c' c''"
  shows "draws H W (a @ b) (n + m) c c''"
proof (rule drawsI)
  fix f :: frame_state and pre rest ch
  assume f: "fs_rows f = H" "fs_cols f = W" "fs_cells f = c" "grid_ok H W c (fs_overflow f)"
  obtain ov ch' where one: "apply_ops_loop n f (pre @ a @ b @ rest) (length pre) ch
      = (f\<lparr>fs_cells := c', fs_overflow := ov\<rparr>, Some (ch', length pre + length a))" "grid_ok H W c' ov"
    by (rule drawsE[OF assms(1) f])
  let ?f = "f\<lparr>fs_cells := c', fs_overflow := ov\<rparr>"
  have f': "fs_rows ?f = H" "fs_cols ?f = W" "fs_cells ?f = c'" "grid_ok H W c' (fs_overflow ?f)"
    using f one(2) by simp_all
  obtain ov' ch'' where two: "apply_ops_loop m ?f ((pre @ a) @ b @ rest) (length (pre @ a)) ch'
      = (?f\<lparr>fs_cells := c'', fs_overflow := ov'\<rparr>, Some (ch'', length (pre @ a) + length b))"
      "grid_ok H W c'' ov'"
    by (rule drawsE[OF assms(2) f'])
  have "apply_ops_loop (n + m) f (pre @ (a @ b) @ rest) (length pre) ch
      = (f\<lparr>fs_cells := c'', fs_overflow := ov'\<rparr>, Some (ch'', length pre + length (a @ b)))"
    using one(1) two(1) by (simp add: apply_ops_loop_add add.assoc)
  then show "\<exists>ov ch'. apply_ops_loop (n + m) f (pre @ (a @ b) @ rest) (length pre) ch
      = (f\<lparr>fs_cells := c'', fs_overflow := ov\<rparr>, Some (ch', length pre + length (a @ b))) \<and> grid_ok H W c'' ov"
    using two(2) by blast
qed

text \<open>One operation is enough to look at.\<close>

lemma draws_op:
  assumes "\<And>f pre rest. fs_rows f = H \<Longrightarrow> fs_cols f = W \<Longrightarrow> fs_cells f = c \<Longrightarrow>
    grid_ok H W c (fs_overflow f) \<Longrightarrow>
    \<exists>ov ch. apply_op f (pre @ op @ rest) (length pre)
      = (f\<lparr>fs_cells := c', fs_overflow := ov\<rparr>, Some (ch, length pre + length op)) \<and> grid_ok H W c' ov"
  shows "draws H W op 1 c c'"
proof (rule drawsI)
  fix f :: frame_state and pre rest ch
  assume "fs_rows f = H" "fs_cols f = W" "fs_cells f = c" "grid_ok H W c (fs_overflow f)"
  from assms[OF this, of pre rest] obtain ov ch0 where
    "apply_op f (pre @ op @ rest) (length pre)
      = (f\<lparr>fs_cells := c', fs_overflow := ov\<rparr>, Some (ch0, length pre + length op))" "grid_ok H W c' ov"
    by blast
  then show "\<exists>ov ch'. apply_ops_loop 1 f (pre @ op @ rest) (length pre) ch
      = (f\<lparr>fs_cells := c', fs_overflow := ov\<rparr>, Some (ch', length pre + length op)) \<and> grid_ok H W c' ov"
    by (intro exI[of _ ov] exI[of _ "ch \<or> ch0"])
      (simp only: One_nat_def apply_ops_loop.simps prod.case option.case simp_thms)
qed

subsection \<open>The three operations\<close>

text \<open>A run of 16-bit fields.\<close>

lemma length_fields: "length (concat (map (to_le k) xs)) = k * length xs"
  by (induction xs) simp_all

lemma rd_fields:
  assumes "i < length xs" and "off = length pre + 2 * i"
  shows "rd 2 (pre @ concat (map (to_le 2) xs) @ rest) off = xs ! i mod 65536"
proof -
  have "pre @ concat (map (to_le 2) xs) @ rest
      = (pre @ concat (map (to_le 2) (take i xs))) @ to_le 2 (xs ! i) @ (concat (map (to_le 2) (drop (Suc i) xs)) @ rest)"
    by (subst id_take_nth_drop[OF assms(1)]) simp
  moreover have "length (pre @ concat (map (to_le 2) (take i xs))) = off"
    using assms by (simp add: length_fields)
  ultimately show ?thesis by (simp only: rd_at) simp
qed

lemma apply_op_copy:
  assumes "sr < 65536" "sc < 65536" "dr < 65536" "dc < 65536" "n < 65536" "m < 65536"
  shows "apply_op f (pre @ ([OP_COPY_RECT] @ to_le 2 sr @ to_le 2 sc @ to_le 2 dr @ to_le 2 dc
       @ to_le 2 n @ to_le 2 m) @ rest) (length pre)
    = (fst (apply_copy_rect f sr sc dr dc n m), Some (snd (apply_copy_rect f sr sc dr dc n m), length pre + 13))"
proof -
  let ?xs = "[sr, sc, dr, dc, n, m]"
  let ?p = "pre @ ([OP_COPY_RECT] @ to_le 2 sr @ to_le 2 sc @ to_le 2 dr @ to_le 2 dc @ to_le 2 n @ to_le 2 m) @ rest"
  have p: "?p = (pre @ [OP_COPY_RECT]) @ concat (map (to_le 2) ?xs) @ rest" by simp
  have rd: "rd 2 ?p (length pre + 1 + 2 * i) = ?xs ! i" if "i < 6" for i
  proof -
    have i: "i < length ?xs" using that by simp
    have "\<forall>x \<in> set ?xs. x < 65536" using assms by simp
    then have "?xs ! i < 65536" using nth_mem[OF i] by (rule bspec)
    moreover have "rd 2 ?p (length pre + 1 + 2 * i) = ?xs ! i mod 65536"
      unfolding p by (rule rd_fields[OF i]) simp
    ultimately show ?thesis by (simp only: mod_less)
  qed
  have rds: "rd 2 ?p (length pre + 1) = sr" "rd 2 ?p (length pre + 1 + 2) = sc" "rd 2 ?p (length pre + 1 + 4) = dr"
    "rd 2 ?p (length pre + 1 + 6) = dc" "rd 2 ?p (length pre + 1 + 8) = n" "rd 2 ?p (length pre + 1 + 10) = m"
    using rd[of 0] rd[of 1] rd[of 2] rd[of 3] rd[of 4] rd[of 5] by simp_all
  have len: "length ?p = length pre + 13 + length rest" by simp
  have op: "?p ! length pre = OP_COPY_RECT" by (simp add: nth_append)
  show ?thesis
    unfolding apply_op_def Let_def op rds len by (simp add: split_def)
qed

lemma apply_op_fill:
  assumes "row < 65536" "n < 65536" "m < 65536" and "length cell = CELL_SIZE"
  shows "apply_op f (pre @ encode_fill_op row n m cell @ rest) (length pre)
    = (fst (apply_fill_rect f row 0 n m cell), Some (snd (apply_fill_rect f row 0 n m cell),
       length pre + 9 + CELL_SIZE))"
proof -
  let ?xs = "[row, 0, n, m]"
  let ?p = "pre @ encode_fill_op row n m cell @ rest"
  have p: "?p = (pre @ [OP_FILL_RECT]) @ concat (map (to_le 2) ?xs) @ cell @ rest" 
    by (simp add: encode_fill_op_def)
  have rd: "rd 2 ?p (length pre + 1 + 2 * i) = ?xs ! i" if "i < 4" for i
  proof -
    have i: "i < length ?xs" using that by simp
    have "\<forall>x \<in> set ?xs. x < 65536" using assms by simp
    then have "?xs ! i < 65536" using nth_mem[OF i] by (rule bspec)
    moreover have "rd 2 ?p (length pre + 1 + 2 * i) = ?xs ! i mod 65536"
      unfolding p by (rule rd_fields[OF i]) simp
    ultimately show ?thesis by (simp only: mod_less)
  qed
  have rds: "rd 2 ?p (length pre + 1) = row" "rd 2 ?p (length pre + 1 + 2) = 0"
    "rd 2 ?p (length pre + 1 + 4) = n" "rd 2 ?p (length pre + 1 + 6) = m"
    using rd[of 0] rd[of 1] rd[of 2] rd[of 3] by simp_all
  have len: "length ?p = length pre + 9 + CELL_SIZE + length rest"
    using assms(4) by (simp add: encode_fill_op_def)
  have op: "?p ! length pre = OP_FILL_RECT" by (simp add: nth_append encode_fill_op_def)
  have cell: "slice_of ?p (length pre + 1 + 8) CELL_SIZE = cell"
  proof -
    have "?p = (pre @ [OP_FILL_RECT] @ to_le 2 row @ to_le 2 0 @ to_le 2 n @ to_le 2 m) @ cell @ rest"
      by (simp add: encode_fill_op_def)
    moreover have "length (pre @ [OP_FILL_RECT] @ to_le 2 row @ to_le 2 0 @ to_le 2 n @ to_le 2 m)
        = length pre + 1 + 8"
      by simp
    ultimately show ?thesis using assms(4) by (simp only: slice_at)
  qed
  show ?thesis
    unfolding apply_op_def Let_def op rds len cell
    by (simp add: split_def OP_FILL_RECT_def OP_COPY_RECT_def)
qed

lemma draws_fill:
  assumes "row + n \<le> H" "H < 65536" "W < 65536" "length cell = CELL_SIZE"
  shows "draws H W (encode_fill_op row n W cell) 1 c
    (fold (\<lambda>i cells. write_at cells (i * CELL_SIZE) cell) (rect_cells W row 0 n W) c)"
proof (rule draws_op)
  fix f :: frame_state and pre rest
  assume f: "fs_rows f = H" "fs_cols f = W" "fs_cells f = c" "grid_ok H W c (fs_overflow f)"
  let ?ts = "rect_cells W row 0 n W"
  let ?ov = "fold bt_remove ?ts (fs_overflow f)"
  let ?c = "fold (\<lambda>i cells. write_at cells (i * CELL_SIZE) cell) ?ts c"
  have ends: "min (sat_add16 row n) H = row + n" "min (sat_add16 0 W) W = W"
    using assms by (simp_all add: sat_add16_exact)
  have empty: "row + n \<le> row \<or> W \<le> 0 \<Longrightarrow> ?ts = []"
    by auto
  have fill: "fst (apply_fill_rect f row 0 n W cell) = f\<lparr>fs_cells := ?c, fs_overflow := ?ov\<rparr>"
  proof (cases "row + n \<le> row \<or> W \<le> 0")
    case True
    then show ?thesis
      using empty f by (auto simp: apply_fill_rect_def Let_def ends)
  next
    case False
    then show ?thesis using f by (simp add: apply_fill_rect_def Let_def ends)
  qed
  have ts: "\<forall>i \<in> set ?ts. i < H * W"
    using rect_cells_less[of row n H 0 W W] assms(1) by simp
  note c = grid_okD[OF f(4)]
  have "bt_get ?ov k = (if k \<in> set ?ts then None else bt_get (fs_overflow f) k)" for k
    by (rule bt.lookup_delete_all[OF c(2)])
  then have "grid_ok H W ?c ?ov"
    unfolding grid_ok_iff
    using cell_at_fill_fold[OF assms(4) ts c(1)] length_fill_fold[OF assms(4) ts c(1)] c(3)
      bt.inv_delete_all[OF c(2)]
    by (auto split: if_splits)
  moreover have "length (encode_fill_op row n W cell) = 9 + CELL_SIZE"
    using assms(4) by (simp add: encode_fill_op_def)
  ultimately show "\<exists>ov ch. apply_op f (pre @ encode_fill_op row n W cell @ rest) (length pre)
      = (f\<lparr>fs_cells := ?c, fs_overflow := ov\<rparr>, Some (ch, length pre + length (encode_fill_op row n W cell)))
      \<and> grid_ok H W ?c ov"
    using apply_op_fill[of row n W cell f pre rest] assms fill by (auto simp: add.assoc)
qed

lemma distinct_rect_cells: "col + cols \<le> C \<Longrightarrow> distinct (rect_cells C row col rows cols)"
proof (induction rows)
  case (Suc n)
  let ?row = "map (\<lambda>c. (row + n) * C + col + c) [0..<cols]"
  have "rect_cells C row col (Suc n) cols = rect_cells C row col n cols @ ?row"
    by (simp add: rect_cells_def)
  moreover have "distinct ?row" by (simp add: distinct_map inj_on_def)
  moreover have "k < (row + n) * C" if "k \<in> set (rect_cells C row col n cols)" for k
    using rect_cells_less[OF order_refl Suc.prems that] .
  then have "set (rect_cells C row col n cols) \<inter> set ?row = {}"
    by fastforce
  ultimately show ?case using Suc by simp
qed simp

lemma rect_cells_shift:
  "zip (rect_cells C sr 0 n C) (rect_cells C dr 0 n C)
    = map (\<lambda>j. (sr * C + j, dr * C + j)) (rect_cells C 0 0 n C)"
proof -
  have "rect_cells C row 0 n C = map (\<lambda>j. row * C + j) (rect_cells C 0 0 n C)" for row
    by (simp add: rect_cells_def map_concat o_def add_mult_distrib add.assoc)
  then have "rect_cells C sr 0 n C = map (\<lambda>j. sr * C + j) (rect_cells C 0 0 n C)"
    "rect_cells C dr 0 n C = map (\<lambda>j. dr * C + j) (rect_cells C 0 0 n C)" by blast+
  then show ?thesis by (simp only: zip_map_map zip_same_conv_map map_map o_def split_conv prod.case)
qed

lemma set_full_rows: "set (rect_cells C row 0 n C) = {k. row * C \<le> k \<and> k < (row + n) * C}"
proof (cases "C = 0")
  case False
  show ?thesis
  proof (intro set_eqI iffI)
    fix k assume "k \<in> set (rect_cells C row 0 n C)"
    then show "k \<in> {k. row * C \<le> k \<and> k < (row + n) * C}"
      using rect_cells_less[of row n "row + n" 0 C C k] by (auto simp: set_rect_cells add_mult_distrib)
  next
    fix k assume "k \<in> {k. row * C \<le> k \<and> k < (row + n) * C}"
    then have k: "row * C \<le> k" "k < (row + n) * C" by simp_all
    have "row \<le> k div C" "k div C < row + n"
      using k False by (simp_all add: less_eq_div_iff_mult_less_eq less_mult_imp_div_less)
    then have "k = (row + (k div C - row)) * C + 0 + k mod C" "k div C - row < n" by simp_all
    then show "k \<in> set (rect_cells C row 0 n C)"
      unfolding set_rect_cells using mod_less_divisor[of C k] False
      by (intro CollectI exI[of _ "k div C - row"] exI[of _ "k mod C"]) simp
  qed
qed simp

lemma copy_rows_effect:
  assumes "sr + n \<le> H" "dr + n \<le> H" "length cells = H * C * CELL_SIZE" "k < H * C"
  shows "cell_at (copy_cells C cells sr 0 dr 0 n C) k =
    (if dr * C \<le> k \<and> k < (dr + n) * C then cell_at cells (sr * C + (k - dr * C)) else cell_at cells k)"
proof -
  have "(\<exists>r < n. \<exists>c < C. k = (dr + r) * C + 0 + c) \<longleftrightarrow> k \<in> set (rect_cells C dr 0 n C)"
    unfolding set_rect_cells by auto
  then have "(\<exists>r < n. \<exists>c < C. k = (dr + r) * C + 0 + c) \<longleftrightarrow> dr * C \<le> k \<and> k < (dr + n) * C"
    by (simp only: set_full_rows mem_Collect_eq)
  then show ?thesis
    using copy_cells_effect(2)[OF assms(1) _ assms(2) _ assms(3,4), of 0 C 0] by simp
qed

lemma draws_copy:
  assumes "sr + n \<le> H" "dr + n \<le> H" "H < 65536" "W < 65536" "n \<noteq> 0" "W \<noteq> 0"
  shows "draws H W ([OP_COPY_RECT] @ to_le 2 sr @ to_le 2 0 @ to_le 2 dr @ to_le 2 0 @ to_le 2 n @ to_le 2 W) 1
    c (copy_cells W c sr 0 dr 0 n W)" (is "draws H W ?op 1 c ?c")
proof (rule draws_op)
  fix f :: frame_state and pre rest
  assume f: "fs_rows f = H" "fs_cols f = W" "fs_cells f = c" "grid_ok H W c (fs_overflow f)"
  let ?srcs = "rect_cells W sr 0 n W" and ?dsts = "rect_cells W dr 0 n W"
  let ?temp = "concat (map (\<lambda>(src, dst). case bt_get (fs_overflow f) src of
      Some s \<Rightarrow> [(dst, s)] | None \<Rightarrow> []) (zip ?srcs ?dsts))"
  let ?base = "fold bt_remove ?dsts (fs_overflow f)"
  let ?ov = "fold (\<lambda>(k, s). bt_insert k s) ?temp ?base"
  note c = grid_okD[OF f(4)]
  have clamp: "clamp_copy H sr dr n = n" "clamp_copy W 0 0 W = W"
    using assms by (simp_all add: clamp_copy_def)
  have copy: "fst (apply_copy_rect f sr 0 dr 0 n W) = f\<lparr>fs_cells := ?c, fs_overflow := ?ov\<rparr>"
    using f assms(5,6) unfolding apply_copy_rect_def Let_def f clamp by simp
  have inv: "bt_inv ?base" "bt_inv ?ov"
    using bt.inv_delete_all[OF c(2)] bt.inv_insert_all by blast+
  have temp: "bt_get (fs_overflow f) (sr * W + (k - dr * W)) \<noteq> None \<and> dr * W \<le> k \<and> k < (dr + n) * W"
    if mem: "(k, s) \<in> set ?temp" for k s
  proof -
    obtain j where j: "j \<in> set (rect_cells W 0 0 n W)" "k = dr * W + j"
        "bt_get (fs_overflow f) (sr * W + j) = Some s"
      using mem unfolding rect_cells_shift by (auto split: option.splits)
    then show ?thesis by (simp add: set_full_rows add_mult_distrib)
  qed
  have "k < H * W \<and> over_cell (cell_at ?c k)" if "bt_get ?ov k \<noteq> None" for k
  proof (cases "map_of (rev ?temp) k")
    case None
    then have "bt_get ?base k \<noteq> None"
      using that by (simp add: bt.lookup_insert_all[OF inv(1)] map_add_def)
    then have "k \<notin> set ?dsts" and get: "bt_get (fs_overflow f) k \<noteq> None"
      by (simp_all add: bt.lookup_delete_all[OF c(2)] split: if_splits)
    then have "\<not> (dr * W \<le> k \<and> k < (dr + n) * W)"
      by (simp only: set_full_rows mem_Collect_eq) simp
    moreover obtain s where "bt_get (fs_overflow f) k = Some s" using get by blast
    ultimately show ?thesis using c(3)[of k s] copy_rows_effect[OF assms(1,2) c(1)] by auto
  next
    case (Some s)
    then have "(k, s) \<in> set ?temp" by (metis map_of_SomeD set_rev)
    then obtain s' where k: "bt_get (fs_overflow f) (sr * W + (k - dr * W)) = Some s'"
      "dr * W \<le> k" "k < (dr + n) * W"
      using temp by blast
    have "(dr + n) * W \<le> H * W" using assms(2) by (rule mult_le_mono1)
    with k(3) have "k < H * W" by (rule less_le_trans)
    then show ?thesis
      using c(3)[OF k(1)] k(2,3) copy_rows_effect[OF assms(1,2) c(1), of k] by simp
  qed
  then have "grid_ok H W ?c ?ov"
    unfolding grid_ok_iff using inv(2) copy_cells_effect(1)[OF assms(1) _ assms(2) _ c(1), of 0 W 0] by simp
  then show "\<exists>ov ch. apply_op f (pre @ ?op @ rest) (length pre)
      = (f\<lparr>fs_cells := ?c, fs_overflow := ov\<rparr>, Some (ch, length pre + length ?op)) \<and> grid_ok H W ?c ov"
    using apply_op_copy[of sr 0 dr 0 n W f pre rest] assms copy by auto
qed

subsection \<open>The patch\<close>

lemma build_bitmask_bit:
  assumes "n \<le> m"
  shows "let bm = fold (\<lambda>i bm. if d i then bm[i div 8 := bm ! (i div 8) OR push_bit (i mod 8) 1] else bm)
      [0..<n] (replicate (mask_len m) 0) in
    length bm = mask_len m \<and> (\<forall>i < 8 * mask_len m. mask_bit bm i \<longleftrightarrow> i < n \<and> d i)"
  using assms
proof (induction n)
  case 0
  then show ?case by (simp add: mask_bit_def less_mult_imp_div_less mult.commute)
next
  case (Suc n)
  let ?bm = "fold (\<lambda>i bm. if d i then bm[i div 8 := bm ! (i div 8) OR push_bit (i mod 8) 1] else bm)
      [0..<n] (replicate (mask_len m) 0 :: bytes)"
  let ?bm' = "if d n then ?bm[n div 8 := ?bm ! (n div 8) OR push_bit (n mod 8) 1] else ?bm"
  have len: "length ?bm = mask_len m" and IH: "\<And>i. i < 8 * mask_len m \<Longrightarrow> mask_bit ?bm i \<longleftrightarrow> i < n \<and> d i"
    using Suc.IH[OF Suc_leD[OF Suc.prems]] unfolding Let_def by blast+
  have n: "n div 8 < mask_len m" using Suc.prems by (simp add: mask_len_def)
  have bit: "mask_bit bm i \<longleftrightarrow> bit (bm ! (i div 8)) (i mod 8)" for bm i
    by (simp add: mask_bit_def bit_iff_and_push_bit_not_eq_0)
  have "mask_bit ?bm' i \<longleftrightarrow> i < Suc n \<and> d i" if i: "i < 8 * mask_len m" for i
  proof (cases "d n")
    case True
    have "bit (push_bit (n mod 8) 1 :: u8) (i mod 8) \<longleftrightarrow> i mod 8 = n mod 8"
      by (auto simp: bit_simps)
    moreover have "i div 8 = n div 8 \<and> i mod 8 = n mod 8 \<longleftrightarrow> i = n"
      by (metis div_mod_decomp)
    ultimately have "mask_bit ?bm' i \<longleftrightarrow> mask_bit ?bm i \<or> i = n"
      using True n len by (auto simp: bit nth_list_update bit_or_iff)
    then show ?thesis using IH[OF i] True by (auto simp: less_Suc_eq)
  next
    case False
    then show ?thesis using IH[OF i] by (auto simp: less_Suc_eq)
  qed
  then show ?case using len by (simp add: Let_def)
qed

lemma length_build_bitmask: "length (build_bitmask d n) = mask_len n"
  using build_bitmask_bit[of n n d] by (simp add: build_bitmask_def Let_def)

lemma mask_bit_build:
  assumes "i < n"
  shows "mask_bit (build_bitmask d n) i \<longleftrightarrow> d i"
proof -
  have "n \<le> 8 * mask_len n" by (simp add: mask_len_def)
  then show ?thesis
    using build_bitmask_bit[of n n d] assms by (simp add: build_bitmask_def Let_def)
qed

lemma dirty_cells_build: "dirty_cells (build_bitmask d n) n = filter d [0..<n]"
  unfolding dirty_cells_def by (rule filter_cong) (simp_all add: mask_bit_build)

lemma nth_dirty_rank:
  assumes "k < n" and "P k"
  shows "length (filter P [0..<k]) < length (filter P [0..<n])"
    and "filter P [0..<n] ! length (filter P [0..<k]) = k"
proof -
  have "[0..<n] = [0..<k] @ k # [Suc k..<n]"
    using assms(1) by (metis le_add1 less_imp_add_positive plus_nat.add_0 upt_add_eq_append upt_conv_Cons)
  then have eq: "filter P [0..<n] = filter P [0..<k] @ k # filter P [Suc k..<n]"
    using assms(2) by simp
  show "length (filter P [0..<k]) < length (filter P [0..<n])" by (simp add: eq)
  show "filter P [0..<n] ! length (filter P [0..<k]) = k" by (simp add: eq)
qed

text \<open>Reading the column-major patch data back gives the current cell.\<close>

lemma patch_cell_of_data:
  assumes "k < n" "d k" "length cells = n * CELL_SIZE"
  shows "patch_cell (concat (map (\<lambda>byte_pos. map (\<lambda>i. cells ! (i * CELL_SIZE + byte_pos)) (filter d [0..<n]))
      [0..<CELL_SIZE])) (length (filter d [0..<n])) (length (filter d [0..<k])) = cell_at cells k"
    (is "patch_cell ?data ?cnt ?rank = _")
proof (rule nth_equalityI)
  show "length (patch_cell ?data ?cnt ?rank) = length (cell_at cells k)"
    using assms by (simp add: length_cell_at)
next
  fix j assume "j < length (patch_cell ?data ?cnt ?rank)"
  then have j: "j < CELL_SIZE" by simp
  have "patch_cell ?data ?cnt ?rank ! j = ?data ! (j * ?cnt + ?rank)"
    using j by (simp add: patch_cell_def)
  also have "\<dots> = map (\<lambda>i. cells ! (i * CELL_SIZE + j)) (filter d [0..<n]) ! ?rank"
    using j nth_dirty_rank(1)[of k n d] assms by (intro nth_concat_uniform) simp_all
  also have "\<dots> = cells ! (k * CELL_SIZE + j)"
    using nth_dirty_rank[of k n d] assms by simp
  also have "\<dots> = cell_at cells k ! j"
    using assms j by (simp add: nth_cell_at)
  finally show "patch_cell ?data ?cnt ?rank ! j = cell_at cells k ! j" .
qed

lemma draws_patch:
  assumes sizes: "total_cells current = H * W" "length (fs_cells current) = H * W * CELL_SIZE"
      "length (fs_cells basis) = H * W * CELL_SIZE"
    and op: "build_patch_op current basis = Some op"
  shows "draws H W op 1 (fs_cells basis) (fs_cells current)"
proof (rule draws_op)
  fix f :: frame_state and pre rest
  assume f: "fs_rows f = H" "fs_cols f = W" "fs_cells f = fs_cells basis"
    "grid_ok H W (fs_cells basis) (fs_overflow f)"
  let ?n = "H * W" and ?d = "cell_differs (fs_cells current) (fs_cells basis)"
  let ?bm = "build_bitmask ?d ?n"
  let ?data = "concat (map (\<lambda>byte_pos. map (\<lambda>i. fs_cells current ! (i * CELL_SIZE + byte_pos))
      (filter ?d [0..<?n])) [0..<CELL_SIZE])"
  let ?cnt = "length (filter ?d [0..<?n])"
  have op: "op = [OP_PATCH_CELLS] @ ?bm @ ?data"
    using op sizes unfolding build_patch_op_def Let_def dirty_cells_build by (auto split: if_splits)
  have data_len: "length ?data = CELL_SIZE * ?cnt"
    by (rule length_concat_uniform) simp
  have f_total: "total_cells f = ?n" using f by (simp add: total_cells_def)
  let ?p = "pre @ op @ rest"
  have at: "?p ! length pre = OP_PATCH_CELLS" by (simp add: op nth_append)
  have bm: "slice_of ?p (length pre + 1) (mask_len ?n) = ?bm"
    using slice_at[of "pre @ [OP_PATCH_CELLS]" "length pre + 1" "mask_len ?n" ?bm "?data @ rest"]
    by (simp add: op length_build_bitmask)
  have data: "slice_of ?p (length pre + 1 + mask_len ?n) (?cnt * CELL_SIZE) = ?data"
    using slice_at[of "pre @ [OP_PATCH_CELLS] @ ?bm" "length pre + 1 + mask_len ?n" "?cnt * CELL_SIZE" ?data rest]
    by (simp add: op length_build_bitmask data_len mult.commute)
  have len: "length ?p = length pre + 1 + mask_len ?n + ?cnt * CELL_SIZE + length rest"
    by (simp add: op length_build_bitmask data_len mult.commute)
  let ?f' = "apply_patch_cells f ?bm ?data ?cnt"
  have "apply_op f ?p (length pre) = (?f', Some (0 < ?cnt, length pre + 1 + mask_len ?n + ?cnt * CELL_SIZE))"
    unfolding apply_op_def Let_def at f_total bm dirty_cells_build data len
    by (simp add: OP_PATCH_CELLS_def OP_FILL_RECT_def OP_COPY_RECT_def)
  then have run: "apply_op f ?p (length pre) = (?f', Some (0 < ?cnt, length pre + length op))"
    by (simp add: op length_build_bitmask data_len mult.commute)
  obtain c ov where f': "?f' = f\<lparr>fs_cells := c, fs_overflow := ov\<rparr>"
    unfolding apply_patch_cells_def using patch_loop_frame by metis
  have rank: "dirty_rank ?bm k = length (filter ?d [0..<k])" if "k \<le> ?n" for k
    unfolding dirty_rank_def by (rule arg_cong[of _ _ length], rule filter_cong) (use that in \<open>auto simp: mask_bit_build\<close>)
  have pc: "patch_cell ?data ?cnt (dirty_rank ?bm k) = cell_at (fs_cells current) k" if "k < ?n" "?d k" for k
    using patch_cell_of_data[of k ?n ?d "fs_cells current", OF that sizes(2)] rank[OF less_imp_le[OF that(1)]]
    by (simp only:)
  have rank0: "dirty_rank ?bm 0 = 0" by (simp add: dirty_rank_def)
  note g = grid_okD[OF f(4)]
  have fl: "length (fs_cells f) = total_cells f * CELL_SIZE" using f(3) g(1) f_total by simp
  note eff = patch_loop_effect[OF fl le0 g(2), of ?bm ?data ?cnt, unfolded Let_def rank0,
      folded apply_patch_cells_def, unfolded f_total]
  note eff_inv = eff[THEN conjunct2, THEN conjunct1]
  have eff_cell: "cell_at (fs_cells ?f') k = (if ?d k then patch_cell ?data ?cnt (dirty_rank ?bm k)
      else cell_at (fs_cells f) k)" if "k < ?n" for k
    using eff[THEN conjunct2, THEN conjunct2, THEN conjunct1, rule_format, OF that] mask_bit_build[OF that, of ?d]
    by (simp only: le0 simp_thms)
  have eff_ov: "bt_get (fs_overflow ?f') k = (if k < ?n \<and> mask_bit ?bm k
        \<and> \<not> over_cell (patch_cell ?data ?cnt (dirty_rank ?bm k)) then None else bt_get (fs_overflow f) k)" for k
    using eff[THEN conjunct2, THEN conjunct2, THEN conjunct2, rule_format, of k] by (simp only: le0 simp_thms)
  have cell: "cell_at (fs_cells ?f') k = cell_at (fs_cells current) k" if k: "k < ?n" for k
  proof (cases "?d k")
    case True
    have "cell_at (fs_cells ?f') k = patch_cell ?data ?cnt (dirty_rank ?bm k)"
      using eff_cell[OF k] True by (simp only: if_True)
    also have "\<dots> = cell_at (fs_cells current) k"
      by (rule pc[OF k True])
    finally show ?thesis .
  next
    case False
    have "cell_at (fs_cells ?f') k = cell_at (fs_cells f) k"
      using eff_cell[OF k] False by (simp only: if_False)
    then show ?thesis using False f(3) by (simp add: cell_differs_def)
  qed
  have cells: "fs_cells ?f' = fs_cells current"
    using cells_eqI[OF eff[THEN conjunct1] sizes(2) cell] .
  have "k < ?n \<and> over_cell (cell_at (fs_cells current) k)" if some: "bt_get (fs_overflow ?f') k \<noteq> None" for k
  proof -
    have get: "bt_get (fs_overflow f) k \<noteq> None"
      and kept: "\<not> (k < ?n \<and> mask_bit ?bm k \<and> \<not> over_cell (patch_cell ?data ?cnt (dirty_rank ?bm k)))"
      using some unfolding eff_ov by (auto split: if_splits)
    obtain s where s: "bt_get (fs_overflow f) k = Some s" using get by blast
    have k: "k < ?n" using g(3)[OF s] by simp
    show ?thesis
    proof (cases "?d k")
      case True
      note pc[OF k True]
      then show ?thesis using kept k True mask_bit_build[OF k, of ?d] by metis
    next
      case False
      then show ?thesis using g(3)[OF s] by (simp add: cell_differs_def)
    qed
  qed
  then have "grid_ok H W (fs_cells current) (fs_overflow ?f')"
    unfolding grid_ok_iff using eff_inv sizes(2) by blast
  then show "\<exists>ov ch. apply_op f ?p (length pre)
      = (f\<lparr>fs_cells := fs_cells current, fs_overflow := ov\<rparr>, Some (ch, length pre + length op))
      \<and> grid_ok H W (fs_cells current) ov"
    using run cells f' by auto
qed

lemma build_patch_op_None:
  assumes "total_cells current = n" "length (fs_cells current) = n * CELL_SIZE"
      "length (fs_cells basis) = n * CELL_SIZE" and None: "build_patch_op current basis = None"
  shows "fs_cells current = fs_cells basis"
proof (rule cells_eqI[OF assms(2,3)])
  fix k assume k: "k < n"
  show "cell_at (fs_cells current) k = cell_at (fs_cells basis) k"
    using None assms(1,2,3) k
    by (auto simp: build_patch_op_def Let_def cell_differs_def filter_empty_conv split: if_splits)
qed

lemma draws_push_patch:
  assumes "total_cells current = H * W" "length (fs_cells current) = H * W * CELL_SIZE"
      "length (fs_cells basis) = H * W * CELL_SIZE"
    and "draws H W ops n c (fs_cells basis)"
    and push: "push_patch current basis ops n = (ops', n')"
  shows "draws H W ops' n' c (fs_cells current)" and "n' \<le> n + 1"
proof -
  have "draws H W ops' n' c (fs_cells current) \<and> n' \<le> n + 1"
  proof (cases "build_patch_op current basis")
    case None
    have "fs_cells current = fs_cells basis"
      by (rule build_patch_op_None[OF assms(1-3) None])
    then show ?thesis using None push assms(4) by (simp add: push_patch_def)
  next
    case (Some op)
    then show ?thesis
      using push draws_append[OF assms(4) draws_patch[OF assms(1-3) Some]] by (auto simp: push_patch_def)
  qed
  then show "draws H W ops' n' c (fs_cells current)" and "n' \<le> n + 1" by simp_all
qed

subsection \<open>Scrolling and filling\<close>

lemma scroll_candidate_delta:
  assumes "scroll_candidate cur prev ov d best = Some (m, e)"
  shows "e = d \<or> best = Some (m, e)"
  using assms by (auto simp: scroll_candidate_def Let_def split: if_splits option.splits)

lemma detect_vertical_scroll_bounds:
  assumes "detect_vertical_scroll cur prev = Some d"
  shows "d \<noteq> 0" "nat \<bar>d\<bar> < fs_rows cur" "fs_cols cur \<noteq> 0"
proof -
  let ?step = "\<lambda>delta best. let overlap = fs_rows cur - delta in
         if overlap < 3 then best
         else scroll_candidate cur prev overlap (int delta)
                (scroll_candidate cur prev overlap (- int delta) best)"
  have inv: "\<forall>x \<in> set ds. 1 \<le> x \<and> x < fs_rows cur \<Longrightarrow>
      (\<And>m e. best = Some (m, e) \<Longrightarrow> e \<noteq> 0 \<and> nat \<bar>e\<bar> < fs_rows cur) \<Longrightarrow>
      fold ?step ds best = Some (m, e) \<Longrightarrow> e \<noteq> 0 \<and> nat \<bar>e\<bar> < fs_rows cur" for ds best m e
  proof (induction ds arbitrary: best)
    case (Cons x ds)
    have x: "1 \<le> x" "x < fs_rows cur" using Cons.prems(1) by simp_all
    show ?case
    proof (rule Cons.IH[of "?step x best"])
      show "\<forall>x \<in> set ds. 1 \<le> x \<and> x < fs_rows cur" using Cons.prems(1) by simp
      show "fold ?step ds (?step x best) = Some (m, e)" using Cons.prems(3) by simp
      fix m e assume "?step x best = Some (m, e)"
      then have "e = int x \<or> e = - int x \<or> best = Some (m, e)"
        by (auto simp: Let_def split: if_splits dest!: scroll_candidate_delta)
      then show "e \<noteq> 0 \<and> nat \<bar>e\<bar> < fs_rows cur" using x Cons.prems(2) by auto
    qed
  qed simp
  have rows: "4 \<le> fs_rows cur" and cols: "fs_cols cur \<noteq> 0"
    using assms by (auto simp: detect_vertical_scroll_def Let_def split: if_splits)
  obtain m where m: "fold ?step [1..<min (fs_rows cur - 1) 8 + 1] None = Some (m, d)"
    using assms rows cols by (auto simp: detect_vertical_scroll_def Let_def)
  have "\<forall>x \<in> set [1..<min (fs_rows cur - 1) 8 + 1]. 1 \<le> x \<and> x < fs_rows cur"
    using rows by (simp only: set_upt) auto
  then have "d \<noteq> 0 \<and> nat \<bar>d\<bar> < fs_rows cur" by (rule inv[OF _ _ m]) simp
  then show "d \<noteq> 0" "nat \<bar>d\<bar> < fs_rows cur" "fs_cols cur \<noteq> 0"
    using cols by simp_all
qed

lemma draws_scroll_copy:
  assumes "fs_rows cur = H" "fs_cols cur = W" "fs_rows prev = H" "fs_cols prev = W"
    and "H < 65536" "W < 65536" "d \<noteq> 0" "nat \<bar>d\<bar> < H" "W \<noteq> 0"
  shows "draws H W (encode_copy_rect_op cur d) 1 (fs_cells prev) (fs_cells (apply_vertical_scroll_copy prev d))"
    and "fs_rows (apply_vertical_scroll_copy prev d) = H" "fs_cols (apply_vertical_scroll_copy prev d) = W"
    and "length (fs_cells prev) = H * W * CELL_SIZE
      \<Longrightarrow> length (fs_cells (apply_vertical_scroll_copy prev d)) = H * W * CELL_SIZE"
proof -
  obtain sr dr n where rows: "scroll_rows H d = (sr, dr, n)" by (cases "scroll_rows H d") auto
  then have fit: "sr + n \<le> H" "dr + n \<le> H" "n \<noteq> 0"
    using assms(7,8) by (auto simp: scroll_rows_def Let_def split: if_splits)
  have clamp: "clamp_copy H sr dr n = n" "clamp_copy W 0 0 W = W"
    using fit by (simp_all add: clamp_copy_def)
  have eq: "apply_vertical_scroll_copy prev d = prev\<lparr>fs_cells := copy_cells W (fs_cells prev) sr 0 dr 0 n W\<rparr>"
    using assms fit unfolding apply_vertical_scroll_copy_def apply_copy_rect_frame_def Let_def
    by (simp add: rows clamp)
  show "draws H W (encode_copy_rect_op cur d) 1 (fs_cells prev) (fs_cells (apply_vertical_scroll_copy prev d))"
    using draws_copy[OF fit(1,2) assms(5,6) fit(3) assms(9)] assms(1,2)
    by (simp add: eq encode_copy_rect_op_def rows)
  show "fs_rows (apply_vertical_scroll_copy prev d) = H" "fs_cols (apply_vertical_scroll_copy prev d) = W"
    using assms by (simp_all add: eq)
  show "length (fs_cells (apply_vertical_scroll_copy prev d)) = H * W * CELL_SIZE"
    if "length (fs_cells prev) = H * W * CELL_SIZE"
    using copy_cells_effect(1)[OF fit(1) _ fit(2) _ that, of 0 W 0] by (simp add: eq)
qed

lemma uniform_run_end_le: "stop \<le> fs_rows cur \<Longrightarrow> uniform_run_end cur cell stop \<le> fs_rows cur"
  by (induction cur cell stop rule: uniform_run_end.induct) (subst uniform_run_end.simps, simp)

lemma uniform_row_cell_length:
  assumes "uniform_row_cell cur row = Some cell" and "length (fs_cells cur) = fs_rows cur * fs_cols cur * CELL_SIZE"
  shows "length cell = CELL_SIZE"
proof -
  have "row < fs_rows cur" "fs_cols cur \<noteq> 0" and cell: "cell = cell_at (fs_cells cur) (row * fs_cols cur)"
    using assms(1) by (auto simp: uniform_row_cell_def Let_def split: if_splits)
  then have "row * fs_cols cur < fs_rows cur * fs_cols cur" by simp
  then show ?thesis unfolding cell using assms(2) by (rule length_cell_at)
qed

definition same_grid :: "nat \<Rightarrow> nat \<Rightarrow> frame_state \<Rightarrow> bool" where
  "same_grid H W f \<longleftrightarrow> fs_rows f = H \<and> fs_cols f = W \<and> length (fs_cells f) = H * W * CELL_SIZE"

lemma draws_fill_ops_loop:
  assumes "same_grid H W cur" "H < 65536" "W < 65536"
    and "same_grid H W basis" "draws H W out n c (fs_cells basis)" "n \<le> 65535"
    and "fill_ops_loop cur row basis out n = (basis', out', n')"
  shows "same_grid H W basis' \<and> draws H W out' n' c (fs_cells basis') \<and> n' \<le> n + (H - row)"
  using assms
proof (induction cur row basis out n rule: fill_ops_loop.induct)
  case (1 cur row basis out n)
  note grids = "1.prems"(1,4)
  consider (past) "row \<ge> fs_rows cur"
    | (same) "row < fs_rows cur" "row_bytes_at cur row = slice_of (fs_cells basis)
        (row * (fs_cols cur * CELL_SIZE)) (fs_cols cur * CELL_SIZE)"
    | (mixed) "row < fs_rows cur" "row_bytes_at cur row \<noteq> slice_of (fs_cells basis)
        (row * (fs_cols cur * CELL_SIZE)) (fs_cols cur * CELL_SIZE)" "uniform_row_cell cur row = None"
    | (fill) cell where "row < fs_rows cur" "row_bytes_at cur row \<noteq> slice_of (fs_cells basis)
        (row * (fs_cols cur * CELL_SIZE)) (fs_cols cur * CELL_SIZE)" "uniform_row_cell cur row = Some cell"
    by (cases "row \<ge> fs_rows cur"; cases "uniform_row_cell cur row") auto
  then show ?case
  proof cases
    case past
    then show ?thesis using "1.prems" by (subst (asm) fill_ops_loop.simps) simp
  next
    case same
    then have "fill_ops_loop cur (row + 1) basis out n = (basis', out', n')"
      using "1.prems"(7) by (subst (asm) fill_ops_loop.simps) simp
    then show ?thesis using "1.IH"(1) same "1.prems" by fastforce
  next
    case mixed
    then have "fill_ops_loop cur (row + 1) basis out n = (basis', out', n')"
      using "1.prems"(7) by (subst (asm) fill_ops_loop.simps) simp
    then show ?thesis using "1.IH"(2) mixed "1.prems" by fastforce
  next
    case fill
    show ?thesis
    proof (cases "n = 65535")
      case True
      then have "(basis, out, n) = (basis', out', n')"
        using "1.prems"(7) fill by (subst (asm) fill_ops_loop.simps) (simp add: Let_def)
      then show ?thesis using "1.prems" by simp
    next
      case False
      let ?stop = "uniform_run_end cur cell (row + 1)"
      let ?basis = "fill_rows basis row (?stop - row) cell"
      let ?out = "out @ encode_fill_op row (?stop - row) (fs_cols cur) cell"
      have HW: "fs_rows cur = H" "fs_cols cur = W" "fs_cols basis = W" "fs_rows basis = H"
        "length (fs_cells basis) = H * W * CELL_SIZE"
        using grids by (simp_all add: same_grid_def)
      have cell: "length cell = CELL_SIZE"
        using uniform_row_cell_length[OF fill(3)] grids by (simp add: same_grid_def)
      have run: "row + 1 \<le> ?stop" "?stop \<le> H"
        using uniform_run_end_ge uniform_run_end_le[of "row + 1" cur cell] fill(1) HW by simp_all
      have fits: "row + (?stop - row) \<le> H" using run by simp
      have "\<forall>i \<in> set (rect_cells W row 0 (?stop - row) W). i < H * W"
        using rect_cells_less[OF fits, of 0 W W] by simp
      then have basis: "same_grid H W ?basis"
        using length_fill_fold[OF cell] HW by (simp add: same_grid_def fill_rows_def)
      have sat: "sat_add16 n 1 = n + 1" using False "1.prems"(6) by (simp add: sat_add16_def)
      have "draws H W ?out (n + 1) c (fs_cells ?basis)"
        using draws_append[OF "1.prems"(5) draws_fill[OF fits "1.prems"(2,3) cell]] HW
        by (simp add: fill_rows_def)
      moreover have "fill_ops_loop cur ?stop ?basis ?out (n + 1) = (basis', out', n')"
        using "1.prems"(7) fill False
        by (subst (asm) fill_ops_loop.simps) (simp add: Let_def sat[unfolded One_nat_def])
      ultimately have "same_grid H W basis' \<and> draws H W out' n' c (fs_cells basis') \<and> n' \<le> n + 1 + (H - ?stop)"
        using "1.IH"(3)[OF _ _ fill(3) refl False] fill basis "1.prems"(1,2,3,6) False
        unfolding sat by (simp add: not_le)
      then show ?thesis using run by auto
    qed
  qed
qed

subsection \<open>The whole list\<close>

lemma draws_blank:
  assumes "H < 65536" "W < 65536" "length c = H * W * CELL_SIZE"
  shows "draws H W (encode_fill_op 0 H W (replicate CELL_SIZE 0)) 1 c (fs_cells (frame_new H W))"
proof -
  let ?fill = "fold (\<lambda>i cells. write_at cells (i * CELL_SIZE) (replicate CELL_SIZE 0)) (rect_cells W 0 0 H W) c"
  have ts: "\<forall>i \<in> set (rect_cells W 0 0 H W). i < H * W"
    by (simp add: set_full_rows)
  have "?fill = fs_cells (frame_new H W)"
  proof (rule cells_eqI)
    show "length ?fill = H * W * CELL_SIZE" by (rule length_fill_fold[OF _ ts assms(3)]) simp
    show "length (fs_cells (frame_new H W)) = H * W * CELL_SIZE" by (simp add: frame_new_def)
    fix k assume k: "k < H * W"
    have "k * CELL_SIZE + CELL_SIZE \<le> H * W * CELL_SIZE"
      using k by (metis Suc_leI add.commute mult_Suc mult_le_mono1)
    then have "cell_at (fs_cells (frame_new H W)) k = replicate CELL_SIZE 0"
      by (simp add: cell_at_def slice_of_def frame_new_def take_replicate drop_replicate min_def)
    then show "cell_at ?fill k = cell_at (fs_cells (frame_new H W)) k"
      using cell_at_fill_fold[OF _ ts assms(3) k, of "replicate CELL_SIZE 0"] k by (simp add: set_full_rows)
  qed
  then show ?thesis using draws_fill[of 0 H H W "replicate CELL_SIZE 0" c] assms(1,2) by simp
qed

lemma fallback_ops_draw:
  assumes "same_grid H W cur" "H < 65536" "W < 65536" "length c = H * W * CELL_SIZE"
    and "same_size cur prev \<Longrightarrow> c = fs_cells prev" and "fallback_ops cur prev = (ops, n)"
  shows "draws H W ops n c (fs_cells cur) \<and> n \<le> 2"
proof (cases "same_size cur prev")
  case True
  then have push: "push_patch cur prev [] 0 = (ops, n)" and c: "c = fs_cells prev"
    using assms by (simp_all add: fallback_ops_def)
  show ?thesis
    using draws_push_patch[OF _ _ _ _ push, of H W c] assms(1,4) c draws_Nil
    by (simp add: same_grid_def total_cells_def)
next
  case False
  have HW: "fs_rows cur = H" "fs_cols cur = W" using assms(1) by (simp_all add: same_grid_def)
  have push: "push_patch cur (frame_new H W) (encode_fill_op 0 H W (replicate CELL_SIZE 0)) 1 = (ops, n)"
    using False assms(6) HW by (simp add: fallback_ops_def)
  have "length (fs_cells (frame_new H W)) = H * W * CELL_SIZE" by (simp add: frame_new_def)
  then show ?thesis
    using draws_push_patch[OF _ _ _ draws_blank[OF assms(2,3,4)] push] assms(1)
    by (simp add: same_grid_def total_cells_def)
qed

lemma scroll_ops_draw:
  assumes "same_grid H W cur" "H < 65534" "W < 65536" "same_grid H W prev"
    and d: "detect_vertical_scroll cur prev = Some d" and "scroll_ops cur prev d = (ops, n)"
  shows "draws H W ops n (fs_cells prev) (fs_cells cur) \<and> n \<le> 65535"
proof -
  have HW: "fs_rows cur = H" "fs_cols cur = W" "fs_rows prev = H" "fs_cols prev = W"
    "length (fs_cells prev) = H * W * CELL_SIZE" "length (fs_cells cur) = H * W * CELL_SIZE"
    using assms by (simp_all add: same_grid_def)
  note bounds = detect_vertical_scroll_bounds[OF d, unfolded HW]
  let ?b = "apply_vertical_scroll_copy prev d"
  note copy = draws_scroll_copy[OF HW(1-4) _ assms(3) bounds]
  have b: "same_grid H W ?b" using copy HW(5) assms(2) by (simp add: same_grid_def)
  obtain b' o' n' where fills: "append_full_width_fill_ops cur ?b (encode_copy_rect_op cur d) 1 = (b', o', n')"
    by (cases "append_full_width_fill_ops cur ?b (encode_copy_rect_op cur d) 1") auto
  have "same_grid H W b' \<and> draws H W o' n' (fs_cells prev) (fs_cells b') \<and> n' \<le> 1 + H"
  proof -
    have "H \<noteq> 0" "W \<noteq> 0" using bounds by auto
    then have "fill_ops_loop cur 0 ?b (encode_copy_rect_op cur d) 1 = (b', o', n')"
      using fills HW by (simp add: append_full_width_fill_ops_def)
    then show ?thesis
      using draws_fill_ops_loop[where row = 0, OF assms(1) _ assms(3) b copy(1)] assms(2) by simp
  qed
  moreover have "push_patch cur b' o' n' = (ops, n)"
    using assms(6) fills by (simp add: scroll_ops_def Let_def)
  ultimately show ?thesis
    using draws_push_patch[of cur H W b' o' n' "fs_cells prev" ops n] HW assms(2)
    by (simp add: same_grid_def total_cells_def)
qed

theorem update_ops_draw:
  assumes "same_grid H W cur" "H < 65534" "W < 65536" "length c = H * W * CELL_SIZE"
    and "same_size cur prev \<Longrightarrow> c = fs_cells prev" and "update_ops cur prev = (ops, n)"
  shows "draws H W ops n c (fs_cells cur) \<and> n \<le> 65535"
proof -
  have fallback: "fallback_ops cur prev = (ops, n) \<Longrightarrow> ?thesis"
    using fallback_ops_draw[OF assms(1) _ assms(3,4,5)] assms(2) by fastforce
  consider (scroll) d where "same_size cur prev" "detect_vertical_scroll cur prev = Some d"
      "scroll_ops cur prev d = (ops, n)"
    | (fallback) "fallback_ops cur prev = (ops, n)"
    using assms(6)
    by (auto simp: update_ops_def Let_def split: option.splits if_splits prod.splits)
  then show ?thesis
  proof cases
    case scroll
    then have "same_grid H W prev" "c = fs_cells prev"
      using assms(1,5) by (simp_all add: same_grid_def same_size_def)
    then show ?thesis using scroll_ops_draw[OF assms(1-3) _ scroll(2,3)] by simp
  qed (rule fallback)
qed

lemma update_ops_count_0:
  assumes "same_grid H W cur" "snd (update_ops cur prev) = 0" "same_size cur prev"
  shows "fs_cells cur = fs_cells prev"
proof -
  have 0: "snd (fallback_ops cur prev) = 0"
    using assms(2) by (auto simp: update_ops_def Let_def split: option.splits prod.splits if_splits)
  then have "build_patch_op cur prev = None"
    using assms(3) by (auto simp: fallback_ops_def push_patch_def split: option.splits)
  then show ?thesis
    using assms(1,3) by (intro build_patch_op_None[of cur "H * W"])
      (simp_all add: same_grid_def same_size_def total_cells_def)
qed

end
