(* ===== verification/Frame_Sections.thy ===== *)
theory Frame_Sections
  imports Frame_Ops
begin

text \<open>
  The trailing sections of an update, written by the encoder and read back by the decoder: overflow
  strings, hyperlink targets and the run-length encoded cell-to-link map.
\<close>

subsection \<open>Overflow strings\<close>

definition ov_entry :: "nat \<times> bytes \<Rightarrow> bytes" where
  "ov_entry e = to_le 4 (fst e) @ to_le 2 (length (snd e)) @ snd e"

definition ov_sendable :: "nat \<Rightarrow> (nat, bytes) btree_map \<Rightarrow> bool" where
  "ov_sendable n es \<longleftrightarrow> length es \<le> 65535
     \<and> (\<forall>(k, s) \<in> set es. k < n \<and> length s \<le> 65535 \<and> utf8_valid s)"

lemma overflow_loop_entries:
  assumes "total_cells f \<le> MAX_CELL_COUNT"
    and "\<forall>(k, s) \<in> set es. k < total_cells f \<and> length s \<le> 65535 \<and> utf8_valid s"
  shows "overflow_loop (length es) f (pre @ concat (map ov_entry es) @ rest) (length pre)
    = (f\<lparr>fs_overflow := fold (\<lambda>(k, s). bt_insert k s) es (fs_overflow f)\<rparr>,
       length pre + length (concat (map ov_entry es)))"
  using assms
proof (induction es arbitrary: f pre)
  case (Cons e es)
  obtain k s where e: "e = (k, s)" by (cases e)
  let ?f = "f\<lparr>fs_overflow := bt_insert k s (fs_overflow f)\<rparr>"
  let ?p = "pre @ concat (map ov_entry (e # es)) @ rest"
  have k: "k < total_cells f" "length s \<le> 65535" "utf8_valid s" using Cons.prems e by simp_all
  then have k4: "k < 4294967296" using Cons.prems(1) by (simp add: MAX_CELL_COUNT_def)
  have p: "?p = (pre @ ov_entry e) @ concat (map ov_entry es) @ rest" by simp
  have p1: "?p = pre @ to_le 4 k @ (to_le 2 (length s) @ s @ concat (map ov_entry es) @ rest)"
    and p2: "?p = (pre @ to_le 4 k) @ to_le 2 (length s) @ (s @ concat (map ov_entry es) @ rest)"
    and p3: "?p = (pre @ to_le 4 k @ to_le 2 (length s)) @ s @ (concat (map ov_entry es) @ rest)"
    by (simp_all add: e ov_entry_def)
  have r1: "rd 4 ?p (length pre) = k" unfolding p1 using k4 by (simp add: rd_at)
  have r2: "rd 2 ?p (length pre + 4) = length s" unfolding p2 using k(2) by (subst rd_at) simp_all
  have r3: "slice_of ?p (length pre + 6) (length s) = s" unfolding p3 by (rule slice_at) simp_all
  have len: "length ?p = length pre + 6 + length s + length (concat (map ov_entry es) @ rest)"
    by (simp add: e ov_entry_def)
  have "overflow_loop (length (e # es)) f ?p (length pre)
      = overflow_loop (length es) ?f ?p (length pre + 6 + length s)"
    unfolding list.size(4) overflow_loop.simps Let_def add_0_right add_Suc_right r1 r2 r3 len
    using k by (simp add: from_utf8_def)
  also have "length pre + 6 + length s = length (pre @ ov_entry e)"
    by (simp add: e ov_entry_def)
  also have "overflow_loop (length es) ?f ?p (length (pre @ ov_entry e))
      = (?f\<lparr>fs_overflow := fold (\<lambda>(k, s). bt_insert k s) es (fs_overflow ?f)\<rparr>,
         length (pre @ ov_entry e) + length (concat (map ov_entry es)))"
    unfolding p by (rule Cons.IH) (use Cons.prems in simp_all)
  finally show ?case by (simp add: e add.assoc)
qed simp

lemma serialize_overflow_entries:
  "ov_sendable n (fs_overflow f) \<Longrightarrow> serialize_overflow_strings f
    = to_le 2 (length (fs_overflow f)) @ concat (map ov_entry (fs_overflow f))"
proof -
  assume ok: "ov_sendable n (fs_overflow f)"
  have es: "map (\<lambda>(cell_idx, s). let len = min (length s) 65535 in to_le 4 cell_idx @ to_le 2 len @ take len s)
      (fs_overflow f) = map ov_entry (fs_overflow f)"
    using ok by (intro map_cong) (auto simp: ov_sendable_def ov_entry_def min_def)
  have "min (length (fs_overflow f)) 65535 = length (fs_overflow f)"
    using ok by (simp add: ov_sendable_def)
  then show ?thesis
    unfolding serialize_overflow_strings_def Let_def[of "min (length (fs_overflow f)) 65535"]
    by (simp only: take_all[OF order_refl] es)
qed

lemma apply_overflow_strings_section:
  assumes "ov_sendable (total_cells f) (fs_overflow cur)" "total_cells f \<le> MAX_CELL_COUNT"
  shows "apply_overflow_strings f (serialize_overflow_strings cur @ rest)
    = (f\<lparr>fs_overflow := fold (\<lambda>(k, s). bt_insert k s) (fs_overflow cur) (fs_overflow f)\<rparr>,
       length (serialize_overflow_strings cur))"
proof -
  let ?es = "fs_overflow cur"
  let ?p = "to_le 2 (length ?es) @ concat (map ov_entry ?es) @ rest"
  have "length ?es < 65536" "\<forall>(k, s) \<in> set ?es. k < total_cells f \<and> length s \<le> 65535 \<and> utf8_valid s"
    using assms(1) by (auto simp: ov_sendable_def)
  then have "apply_overflow_strings f ?p = overflow_loop (length ?es) f ?p (length (to_le 2 (length ?es)))"
    by (simp add: apply_overflow_strings_def rd_head)
  also have "\<dots> = (f\<lparr>fs_overflow := fold (\<lambda>(k, s). bt_insert k s) ?es (fs_overflow f)\<rparr>,
       length (to_le 2 (length ?es)) + length (concat (map ov_entry ?es)))"
    by (rule overflow_loop_entries) (use assms(1,2) in \<open>auto simp: ov_sendable_def\<close>)
  finally show ?thesis by (simp add: serialize_overflow_entries[OF assms(1)])
qed

subsection \<open>Hyperlink targets\<close>

definition uri_entry :: "u16 \<times> bytes \<Rightarrow> bytes" where
  "uri_entry e = wle 2 (fst e) @ to_le 2 (length (snd e)) @ snd e"

lemma read_uris_entries:
  assumes "\<forall>(lid, uri) \<in> set es. lid \<noteq> 0 \<and> length uri \<le> MAX_LINK_URI \<and> utf8_valid uri"
  shows "read_uris (length es) (pre @ concat (map uri_entry es) @ rest) (length pre) m
    = Some (fold (\<lambda>(lid, uri). bt_insert lid uri) es m, length pre + length (concat (map uri_entry es)))"
  using assms
proof (induction es arbitrary: m pre)
  case (Cons e es)
  obtain lid uri where e: "e = (lid, uri)" by (cases e)
  let ?p = "pre @ concat (map uri_entry (e # es)) @ rest"
  have k: "lid \<noteq> 0" "length uri \<le> MAX_LINK_URI" "utf8_valid uri" using Cons.prems e by simp_all
  have p: "?p = (pre @ uri_entry e) @ concat (map uri_entry es) @ rest" by simp
  have p1: "?p = pre @ wle 2 lid @ (to_le 2 (length uri) @ uri @ concat (map uri_entry es) @ rest)"
    and p2: "?p = (pre @ wle 2 lid) @ to_le 2 (length uri) @ (uri @ concat (map uri_entry es) @ rest)"
    and p3: "?p = (pre @ wle 2 lid @ to_le 2 (length uri)) @ uri @ (concat (map uri_entry es) @ rest)"
    by (simp_all add: e uri_entry_def)
  have r1: "rdw 2 ?p (length pre) = lid" unfolding p1 by (rule rdw_at) simp_all
  have r2: "rd 2 ?p (length pre + 2) = length uri"
    unfolding p2 using k(2) by (subst rd_at) (simp_all add: MAX_LINK_URI_def)
  have r3: "slice_of ?p (length pre + 4) (length uri) = uri" unfolding p3 by (rule slice_at) simp_all
  have len: "length ?p = length pre + 4 + length uri + length (concat (map uri_entry es) @ rest)"
    by (simp add: e uri_entry_def)
  have "read_uris (length (e # es)) ?p (length pre) m
      = read_uris (length es) ?p (length pre + 4 + length uri) (bt_insert lid uri m)"
    unfolding list.size(4) read_uris.simps Let_def add_0_right add_Suc_right r1 r2 r3 len
    using k by (simp add: from_utf8_def)
  also have "length pre + 4 + length uri = length (pre @ uri_entry e)"
    by (simp add: e uri_entry_def)
  also have "read_uris (length es) ?p (length (pre @ uri_entry e)) (bt_insert lid uri m)
      = Some (fold (\<lambda>(lid, uri). bt_insert lid uri) es (bt_insert lid uri m),
         length (pre @ uri_entry e) + length (concat (map uri_entry es)))"
    unfolding p by (rule Cons.IH) (use Cons.prems in simp_all)
  finally show ?case by (simp add: e add.assoc)
qed simp

text \<open>Inserting a sorted map entry by entry into an empty one gives it back.\<close>

lemma bt_insert_all_self: "bt_inv m \<Longrightarrow> fold (\<lambda>(k, v). bt_insert k v) m [] = m"
proof (rule bt.insert_all_eq)
  assume m: "bt_inv m"
  then have "distinct (map fst m)" by (simp add: bt_inv_def strict_sorted_iff)
  then have "map_of (rev m) = map_of m" by (intro map_of_inject_set[THEN iffD2]) (simp_all flip: rev_map)
  then show "bt_get m = map_of (rev m)" by (simp add: bt_get_def[abs_def])
qed (simp_all add: bt_get_def dom_def)

subsection \<open>Runs of linked cells\<close>

definition run_entry :: "nat \<times> nat \<times> u16 \<Rightarrow> bytes" where
  "run_entry r = (case r of (start, len, lid) \<Rightarrow> to_le 4 start @ to_le 2 len @ wle 2 lid)"

definition draw_run :: "nat \<times> nat \<times> u16 \<Rightarrow> u16 list \<Rightarrow> u16 list" where
  "draw_run r links = (case r of (start, len, lid) \<Rightarrow> write_at links start (replicate len lid))"

definition run_ok :: "nat \<Rightarrow> (u16, bytes) btree_map \<Rightarrow> nat \<times> nat \<times> u16 \<Rightarrow> bool" where
  "run_ok n uris r \<longleftrightarrow> (case r of (start, len, lid) \<Rightarrow> start < n \<and> start + len \<le> n \<and> len \<le> 65535
     \<and> lid \<noteq> 0 \<and> bt_get uris lid \<noteq> None)"

lemma length_run_entry [simp]: "length (run_entry r) = 8"
  by (simp add: run_entry_def split: prod.split)

lemma read_runs_entries:
  assumes "n \<le> MAX_CELL_COUNT" and "\<forall>r \<in> set rs. run_ok n uris r"
  shows "read_runs (length rs) (pre @ concat (map run_entry rs) @ rest) (length pre) n uris links
    = Some (fold draw_run rs links)"
  using assms(2)
proof (induction rs arbitrary: links pre)
  case (Cons r rs)
  obtain start len lid where r: "r = (start, len, lid)" by (cases r)
  let ?p = "pre @ concat (map run_entry (r # rs)) @ rest"
  have k: "start < n" "start + len \<le> n" "len \<le> 65535" "lid \<noteq> 0" "bt_get uris lid \<noteq> None"
    using Cons.prems r by (simp_all add: run_ok_def)
  then have k4: "start < 4294967296" using assms(1) by (simp add: MAX_CELL_COUNT_def)
  have p: "?p = (pre @ run_entry r) @ concat (map run_entry rs) @ rest" by simp
  have p1: "?p = pre @ to_le 4 start @ (to_le 2 len @ wle 2 lid @ concat (map run_entry rs) @ rest)"
    and p2: "?p = (pre @ to_le 4 start) @ to_le 2 len @ (wle 2 lid @ concat (map run_entry rs) @ rest)"
    and p3: "?p = (pre @ to_le 4 start @ to_le 2 len) @ wle 2 lid @ (concat (map run_entry rs) @ rest)"
    by (simp_all add: r run_entry_def)
  have r1: "rd 4 ?p (length pre) = start" unfolding p1 using k4 by (simp add: rd_at)
  have r2: "rd 2 ?p (length pre + 4) = len" unfolding p2 using k(3) by (subst rd_at) simp_all
  have r3: "rdw 2 ?p (length pre + 6) = lid" unfolding p3 by (rule rdw_at) simp_all
  have plen: "length ?p = length pre + 8 + length (concat (map run_entry rs) @ rest)"
    by (simp add: p3)
  have "read_runs (length (r # rs)) ?p (length pre) n uris links
      = read_runs (length rs) ?p (length pre + 8) n uris (draw_run r links)"
    unfolding list.size(4) read_runs.simps Let_def add_0_right add_Suc_right r1 r2 r3 plen
    using k by (auto simp: r draw_run_def)
  also have "length pre + 8 = length (pre @ run_entry r)" by simp
  also have "read_runs (length rs) ?p (length (pre @ run_entry r)) n uris (draw_run r links)
      = Some (fold draw_run rs (draw_run r links))"
    unfolding p by (rule Cons.IH) (use Cons.prems in simp)
  finally show ?case by simp
qed simp

lemma link_runs_draw:
  "i \<le> length xs \<Longrightarrow> fold draw_run (link_runs xs i) (take i xs @ replicate (length xs - i) 0) = xs"
proof (induction xs i rule: link_runs.induct)
  case (1 xs i)
  show ?case
  proof (cases "i \<ge> length xs")
    case True
    then show ?thesis using "1.prems" by (subst link_runs.simps) simp
  next
    case False
    then have i: "i < length xs" by simp
    show ?thesis
    proof (cases "xs ! i = 0")
      case True
      have "take i xs @ replicate (length xs - i) 0 = take (i + 1) xs @ replicate (length xs - (i + 1)) 0"
        using i True by (simp add: take_Suc_conv_app_nth Suc_diff_Suc flip: replicate_Suc)
      then show ?thesis
        using "1.IH"(1)[OF False refl True] i True by (subst link_runs.simps) simp
    next
      case nz: False
      let ?lid = "xs ! i"
      let ?n = "min 65535 (length (takeWhile (\<lambda>x. x = ?lid) (drop i xs)))"
      have n: "i + ?n \<le> length xs"
        using length_takeWhile_le[of "\<lambda>x. x = ?lid" "drop i xs"] i by simp
      have "take ?n (drop i xs) = replicate ?n ?lid"
      proof (rule nth_equalityI)
        fix j assume "j < length (take ?n (drop i xs))"
        then have j: "j < length (takeWhile (\<lambda>x. x = ?lid) (drop i xs))" "j < ?n" by simp_all
        have "takeWhile (\<lambda>x. x = ?lid) (drop i xs) ! j = ?lid"
          using nth_mem[OF j(1)] by (auto dest: set_takeWhileD)
        then show "take ?n (drop i xs) ! j = replicate ?n ?lid ! j"
          using j by (simp only: takeWhile_nth nth_take nth_replicate)
      qed (use n in simp)
      then have "take i xs @ replicate ?n ?lid = take (i + ?n) xs"
        by (simp add: take_add)
      moreover have "draw_run (i, ?n, ?lid) (take i xs @ replicate (length xs - i) 0)
          = take i xs @ replicate ?n ?lid @ replicate (length xs - (i + ?n)) 0"
        using i n by (simp add: draw_run_def write_at_def min_def)
      ultimately have "draw_run (i, ?n, ?lid) (take i xs @ replicate (length xs - i) 0)
          = take (i + ?n) xs @ replicate (length xs - (i + ?n)) 0"
        by (metis append.assoc)
      then show ?thesis
        using "1.IH"(2)[OF False refl nz refl n] i nz by (subst link_runs.simps) (simp add: Let_def)
    qed
  qed
qed

lemma link_runs_ok:
  assumes "\<forall>lid \<in> set xs. lid = 0 \<or> bt_get uris lid \<noteq> None"
  shows "\<forall>r \<in> set (link_runs xs i). run_ok (length xs) uris r"
  using assms
proof (induction xs i rule: link_runs.induct)
  case (1 xs i)
  show ?case
  proof (cases "i \<ge> length xs")
    case True
    then show ?thesis by (subst link_runs.simps) simp
  next
    case False
    show ?thesis
    proof (cases "xs ! i = 0")
      case True
      then show ?thesis using "1.IH"(1)[OF False refl True] False "1.prems" by (subst link_runs.simps) simp
    next
      case nz: False
      let ?n = "min 65535 (length (takeWhile (\<lambda>x. x = xs ! i) (drop i xs)))"
      have "i + ?n \<le> length xs"
        using length_takeWhile_le[of "\<lambda>x. x = xs ! i" "drop i xs"] False by simp
      moreover have "bt_get uris (xs ! i) \<noteq> None" using "1.prems" nz False by force
      ultimately have "run_ok (length xs) uris (i, ?n, xs ! i)"
        using False nz by (simp add: run_ok_def)
      then show ?thesis
        using "1.IH"(2)[OF False refl nz refl "1.prems"] False nz by (subst link_runs.simps) (simp add: Let_def)
    qed
  qed
qed

subsection \<open>The hyperlink section\<close>

definition links_sendable :: "frame_state \<Rightarrow> bool" where
  "links_sendable f \<longleftrightarrow> length (fs_link_uris f) \<le> MAX_LINK_ID \<and> length (link_runs (fs_cell_links f) 0) \<le> 65535"

lemma apply_links_section_unchanged: "apply_links_section f (append_links_section cur False) = f"
  by (simp add: apply_links_section_def append_links_section_def rd_head_only LINKS_UNCHANGED_def)

lemma apply_links_section_changed:
  assumes "links_ok n (fs_cell_links cur) (fs_link_uris cur)" "links_sendable cur"
    and "total_cells f = n" "n \<le> MAX_CELL_COUNT"
  shows "apply_links_section f (append_links_section cur True)
    = f\<lparr>fs_cell_links := fs_cell_links cur, fs_link_uris := fs_link_uris cur\<rparr>"
proof (cases "fs_link_uris cur = []")
  case True
  then have "fs_cell_links cur = []" using assms(1) by (simp add: links_ok_def)
  moreover have "append_links_section cur True = to_le 2 0 @ to_le 2 0"
    using True by (simp add: append_links_section_def Let_def)
  moreover have "rd 2 (to_le 2 0 @ to_le 2 0) 2 = 0"
    using rd_at[of "to_le 2 0" 2 2 0 "[]"] by simp
  ultimately show ?thesis
    using True by (simp add: apply_links_section_def Let_def rd_head LINKS_UNCHANGED_def set_links_def
        clear_links_def)
next
  case False
  let ?es = "fs_link_uris cur" and ?xs = "fs_cell_links cur"
  let ?rs = "link_runs ?xs 0"
  have ok: "length ?xs = n" "uris_ok ?es" "\<forall>lid \<in> set ?xs. lid = 0 \<or> bt_get ?es lid \<noteq> None"
    using assms(1) False by (auto simp: links_ok_def)
  have es: "\<forall>(lid, uri) \<in> set ?es. lid \<noteq> 0 \<and> length uri \<le> MAX_LINK_URI \<and> utf8_valid uri"
    using ok(2) by (simp add: uris_ok_def)
  have small: "length ?es < 65535" "length ?rs < 65536"
    using assms(2) by (simp_all add: links_sendable_def MAX_LINK_ID_def)
  have "filter (\<lambda>(lid, uri). length uri \<le> MAX_LINK_URI) ?es = ?es"
    using es by (auto simp: filter_id_conv)
  then have "take MAX_LINK_ID (filter (\<lambda>(lid, uri). length uri \<le> MAX_LINK_URI) ?es) = ?es"
    using assms(2) by (simp add: links_sendable_def)
  moreover have "(\<lambda>(lid, uri). wle 2 lid @ to_le 2 (length uri) @ uri) = uri_entry"
    by (auto simp: uri_entry_def)
  moreover have "(\<lambda>(start, len, lid). to_le 4 start @ to_le 2 len @ wle 2 lid) = run_entry"
    by (auto simp: run_entry_def)
  ultimately have sec: "append_links_section cur True
      = to_le 2 (length ?es) @ concat (map uri_entry ?es) @ to_le 2 (length ?rs) @ concat (map run_entry ?rs)"
    using False small by (simp add: append_links_section_def Let_def min_def)
  let ?p = "append_links_section cur True"
  let ?off = "2 + length (concat (map uri_entry ?es))"
  have r1: "rd 2 ?p 0 = length ?es" unfolding sec using small by (simp add: rd_head)
  have uris: "read_uris (length ?es) ?p 2 [] = Some (?es, ?off)"
    using read_uris_entries[OF es, of "to_le 2 (length ?es)" "to_le 2 (length ?rs) @ concat (map run_entry ?rs)" "[]"]
      bt_insert_all_self[OF uris_okD[OF ok(2)]] by (simp add: sec)
  have r2: "rd 2 ?p ?off = length ?rs"
    using rd_at[of "to_le 2 (length ?es) @ concat (map uri_entry ?es)" ?off 2 "length ?rs"
        "concat (map run_entry ?rs)"] small by (simp add: sec)
  have runs: "read_runs (length ?rs) ?p (?off + 2) n ?es (replicate n 0) = Some ?xs"
    using read_runs_entries[OF assms(4), of ?rs ?es "to_le 2 (length ?es) @ concat (map uri_entry ?es) @ to_le 2 (length ?rs)" "[]" "replicate n 0"]
      link_runs_ok[OF ok(3), of 0] link_runs_draw[of 0 ?xs] ok(1)
    by (simp add: sec)
  have len: "\<not> ?off + 2 > length ?p" "\<not> length ?p < 2" by (simp_all add: sec)
  have "set_links f ?xs ?es = f\<lparr>fs_cell_links := ?xs, fs_link_uris := ?es\<rparr>"
    using set_links_known[of f ?es ?xs] ok False assms(3) by (simp add: known_links_def)
  moreover have "length ?es \<noteq> LINKS_UNCHANGED" using small by (simp add: LINKS_UNCHANGED_def)
  ultimately show ?thesis
    unfolding apply_links_section_def Let_def r1
    using len uris r2 runs assms(3) by simp
qed

end
