(* ===== verification/Frame_Sync.thy ===== *)
theory Frame_Sync
  imports Frame_Sections
begin

text \<open>
  The refinement of the terminal stream: applying the payload the encoder builds for a frame makes
  the client hold that frame.  \<open>sendable\<close> collects what the wire format can carry, \<open>client_ready\<close>
  what the client must hold for a delta (nothing but well-formedness for a keyframe).
\<close>

subsection \<open>The header\<close>

lemma title_field_bits:
  assumes "n < 4096"
  shows "title_field_of ov lf ch n AND TITLE_LEN_MASK = (if ch then word_of_nat n else 0)"
    and "title_field_of ov lf ch n AND TITLE_PRESENT \<noteq> 0 \<longleftrightarrow> ch"
    and "title_field_of ov lf ch n AND OPS_PRESENT \<noteq> 0"
    and "title_field_of ov lf ch n AND STRINGS_PRESENT \<noteq> 0 \<longleftrightarrow> ov"
    and "title_field_of ov lf ch n AND LINE_FLAGS_PRESENT \<noteq> 0 \<longleftrightarrow> lf"
proof -
  let ?w = "word_of_nat n :: u16"
  have "unat ?w = n" using assms by (simp add: unat_of_nat)
  moreover have "take_bit 12 n = n" using assms by (simp add: take_bit_nat_eq_self)
  ultimately have "take_bit 12 ?w = ?w"
    by (metis of_nat_take_bit)
  then have w: "?w = ?w AND 0xFFF" by (simp add: take_bit_eq_mask mask_eq_exp_minus_1)
  have bits: "?w AND 0x8000 = 0" "?w AND 0x4000 = 0" "?w AND 0x2000 = 0" "?w AND 0x1000 = 0"
    by (subst w, simp add: and.assoc)+
  note defs = title_field_of_def OPS_PRESENT_def STRINGS_PRESENT_def LINE_FLAGS_PRESENT_def
    TITLE_PRESENT_def TITLE_LEN_MASK_def
  show "title_field_of ov lf ch n AND TITLE_LEN_MASK = (if ch then ?w else 0)"
    using w by (auto simp: defs bit.conj_disj_distrib2)
  show "title_field_of ov lf ch n AND TITLE_PRESENT \<noteq> 0 \<longleftrightarrow> ch"
    "title_field_of ov lf ch n AND OPS_PRESENT \<noteq> 0"
    "title_field_of ov lf ch n AND STRINGS_PRESENT \<noteq> 0 \<longleftrightarrow> ov"
    "title_field_of ov lf ch n AND LINE_FLAGS_PRESENT \<noteq> 0 \<longleftrightarrow> lf"
    using bits by (auto simp: defs bit.conj_disj_distrib2)
qed

text \<open>The payload, cut at the places the decoder looks at.\<close>

definition header_bytes :: "frame_state \<Rightarrow> u16 \<Rightarrow> bytes" where
  "header_bytes cur field = to_le 2 (fs_rows cur) @ to_le 2 (fs_cols cur)
     @ to_le 2 (fs_cursor_row cur) @ to_le 2 (fs_cursor_col cur) @ wle 2 (fs_mode cur) @ wle 2 field"

lemma length_header_bytes [simp]: "length (header_bytes cur field) = 12"
  by (simp add: header_bytes_def)

lemma header_fields:
  assumes "frame_inv cur"
  shows "rd 2 (header_bytes cur field @ rest) 0 = fs_rows cur"
    "rd 2 (header_bytes cur field @ rest) 2 = fs_cols cur"
    "rd 2 (header_bytes cur field @ rest) 4 = fs_cursor_row cur"
    "rd 2 (header_bytes cur field @ rest) 6 = fs_cursor_col cur"
    "rdw 2 (header_bytes cur field @ rest) 8 = fs_mode cur"
    "rdw 2 (header_bytes cur field @ rest) 10 = field"
proof -
  let ?xs = "[fs_rows cur, fs_cols cur, fs_cursor_row cur, fs_cursor_col cur]"
  let ?tail = "wle 2 (fs_mode cur) @ wle 2 field @ rest"
  have small: "fs_rows cur < 65536" "fs_cols cur < 65536" "fs_cursor_row cur < 65536" "fs_cursor_col cur < 65536"
    using assms by (auto simp: frame_inv_def)
  have p: "header_bytes cur field @ rest = [] @ concat (map (to_le 2) ?xs) @ ?tail"
    by (simp add: header_bytes_def)
  have rd: "rd 2 (header_bytes cur field @ rest) (2 * i) = ?xs ! i mod 65536" if "i < length ?xs" for i
    unfolding p by (rule rd_fields[OF that]) simp
  show "rd 2 (header_bytes cur field @ rest) 0 = fs_rows cur"
    "rd 2 (header_bytes cur field @ rest) 2 = fs_cols cur"
    "rd 2 (header_bytes cur field @ rest) 4 = fs_cursor_row cur"
    "rd 2 (header_bytes cur field @ rest) 6 = fs_cursor_col cur"
    using rd[of 0] rd[of 1] rd[of 2] rd[of 3] small by simp_all
  show "rdw 2 (header_bytes cur field @ rest) 8 = fs_mode cur"
    using rdw_at[of "concat (map (to_le 2) ?xs)" 8 2 "fs_mode cur" "wle 2 field @ rest"]
    by (simp add: header_bytes_def)
  show "rdw 2 (header_bytes cur field @ rest) 10 = field"
    using rdw_at[of "concat (map (to_le 2) ?xs) @ wle 2 (fs_mode cur)" 10 2 field rest]
    by (simp add: header_bytes_def)
qed

lemma update_header_of_payload:
  assumes "frame_inv cur" "length title < 4096" "\<not> ch \<Longrightarrow> title = []"
  shows "update_header_of (header_bytes cur (title_field_of ov lf ch (length title)) @ title @ rest)
    = Some \<lparr>h_rows = fs_rows cur, h_cols = fs_cols cur, h_cursor_row = fs_cursor_row cur,
        h_cursor_col = fs_cursor_col cur, h_mode = fs_mode cur, h_title_present = ch, h_ops_present = True,
        h_strings_present = ov, h_line_flags_present = lf, h_title_end = 12 + length title\<rparr>"
proof -
  let ?field = "title_field_of ov lf ch (length title)"
  let ?p = "header_bytes cur ?field @ title @ rest"
  note bits = title_field_bits[OF assms(2)]
  have len: "unat (?field AND TITLE_LEN_MASK) = length title"
    using assms(2,3) unfolding bits(1) by (auto simp: unat_of_nat)
  have cells: "\<not> fs_rows cur * fs_cols cur > MAX_CELL_COUNT"
    using assms(1) by (simp add: frame_inv_def total_cells_def)
  have long: "\<not> length ?p < 12" "\<not> length ?p < 12 + length title" by simp_all
  show ?thesis
    unfolding update_header_of_def header_fields[OF assms(1)] Let_def len
    using cells long bits(2-5) by simp
qed

subsection \<open>What can be sent, and to whom\<close>

definition ov_complete :: "frame_state \<Rightarrow> bool" where
  "ov_complete f \<longleftrightarrow> (\<forall>k < total_cells f. over_cell (cell_at (fs_cells f) k) \<longrightarrow> bt_get (fs_overflow f) k \<noteq> None)"

definition grid_clean :: "frame_state \<Rightarrow> bool" where
  "grid_clean f \<longleftrightarrow> grid_ok (fs_rows f) (fs_cols f) (fs_cells f) (fs_overflow f)"

definition sendable :: "frame_state \<Rightarrow> bool" where
  "sendable cur \<longleftrightarrow> frame_inv cur \<and> grid_clean cur \<and> fs_rows cur < 65534 \<and> length (fs_title cur) < 4096
     \<and> ov_sendable (total_cells cur) (fs_overflow cur) \<and> ov_complete cur \<and> links_sendable cur"

text \<open>
  For a delta the client's cells, title and links are those of the frame it was last sent; for a
  keyframe it may hold anything.
\<close>

definition client_ready :: "frame_state \<Rightarrow> frame_state \<Rightarrow> frame_state \<Rightarrow> bool" where
  "client_ready current previous f \<longleftrightarrow> frame_inv f \<and> grid_clean f \<and>
     (same_size current previous \<longrightarrow> fs_rows f = fs_rows previous \<and> fs_cols f = fs_cols previous
        \<and> fs_cells f = fs_cells previous \<and> fs_title f = fs_title previous
        \<and> fs_cell_links f = fs_cell_links previous \<and> fs_link_uris f = fs_link_uris previous)"

subsection \<open>Section by section\<close>

lemma overflow_after_strings:
  assumes "sendable cur" "grid_ok (fs_rows cur) (fs_cols cur) (fs_cells cur) ov"
  shows "fold (\<lambda>(k, s). bt_insert k s) (fs_overflow cur) ov = fs_overflow cur"
proof (rule bt.insert_all_eq)
  have inv: "bt_inv (fs_overflow cur)"
    using assms(1) by (simp add: sendable_def frame_inv_def overflow_ok_def)
  then have "distinct (map fst (fs_overflow cur))" by (simp add: bt_inv_def strict_sorted_iff)
  then have "map_of (rev (fs_overflow cur)) = map_of (fs_overflow cur)"
    by (intro map_of_inject_set[THEN iffD2]) (simp_all flip: rev_map)
  then show "bt_get (fs_overflow cur) = map_of (rev (fs_overflow cur))" by (simp add: bt_get_def[abs_def])
  show "bt_inv (fs_overflow cur)" by (rule inv)
  show "bt_inv ov" by (rule grid_okD(2)[OF assms(2)])
  show "dom (bt_get ov) \<subseteq> fst ` set (fs_overflow cur)"
  proof
    fix k assume "k \<in> dom (bt_get ov)"
    then obtain s where "bt_get ov k = Some s" by blast
    then have "k < total_cells cur" "over_cell (cell_at (fs_cells cur) k)"
      using grid_okD(3)[OF assms(2)] by (simp_all add: total_cells_def)
    then have "bt_get (fs_overflow cur) k \<noteq> None"
      using assms(1) by (auto simp: sendable_def ov_complete_def)
    then show "k \<in> fst ` set (fs_overflow cur)" by (simp add: bt_get_def map_of_eq_None_iff)
  qed
qed

text \<open>The strings section leaves exactly the current overflow table, sent or not.\<close>

lemma strings_section:
  assumes "sendable cur" "fs_rows f = fs_rows cur" "fs_cols f = fs_cols cur" "fs_cells f = fs_cells cur"
    and "grid_ok (fs_rows cur) (fs_cols cur) (fs_cells cur) (fs_overflow f)"
  shows "(if fs_overflow cur \<noteq> [] then apply_overflow_strings f
        ((if fs_overflow cur \<noteq> [] then serialize_overflow_strings cur else []) @ rest) else (f, 0))
    = (f\<lparr>fs_overflow := fs_overflow cur\<rparr>,
       length (if fs_overflow cur \<noteq> [] then serialize_overflow_strings cur else []))"
proof -
  have t: "total_cells f = total_cells cur" "total_cells cur \<le> MAX_CELL_COUNT"
    using assms by (simp_all add: total_cells_def sendable_def frame_inv_def)
  note ov = overflow_after_strings[OF assms(1,5)]
  show ?thesis
  proof (cases "fs_overflow cur = []")
    case True
    then have "fs_overflow f = []" using ov by simp
    then have "f\<lparr>fs_overflow := []\<rparr> = f" by simp
    then show ?thesis using True by simp
  next
    case False
    then show ?thesis
      using apply_overflow_strings_section[of f cur rest] assms(1) ov t by (simp add: sendable_def)
  qed
qed

lemma line_flags_section:
  assumes "length (fs_line_flags cur) = fs_rows cur" "h_line_flags_present h = lf" "h_rows h = fs_rows cur"
    and "off = length pre"
  shows "\<exists>ch. apply_line_flags f h (pre @ (if lf then fs_line_flags cur else []) @ rest) off
    = (f\<lparr>fs_line_flags := if lf then fs_line_flags cur else fs_line_flags f\<rparr>, ch,
       off + length (if lf then fs_line_flags cur else []))"
proof (cases lf)
  case True
  have "slice_of (pre @ fs_line_flags cur @ rest) off (fs_rows cur) = fs_line_flags cur"
    by (rule slice_at) (simp_all add: assms)
  then show ?thesis using True assms by (simp add: apply_line_flags_def Let_def)
next
  case False
  then show ?thesis using assms by (intro exI[of _ False]) (simp add: apply_line_flags_def)
qed

lemma scrollback_section:
  assumes "sendable cur" "total_cells f = total_cells cur"
    and "\<not> lc \<Longrightarrow> fs_cell_links f = fs_cell_links cur \<and> fs_link_uris f = fs_link_uris cur"
    and "off = length pre"
  shows "apply_scrollback f (pre @ wle 4 (fs_scrollback cur) @ append_links_section cur lc) off
    = f\<lparr>fs_scrollback := fs_scrollback cur, fs_cell_links := fs_cell_links cur, fs_link_uris := fs_link_uris cur\<rparr>"
proof -
  let ?p = "pre @ wle 4 (fs_scrollback cur) @ append_links_section cur lc"
  let ?f = "f\<lparr>fs_scrollback := fs_scrollback cur\<rparr>"
  have sb: "rdw 4 ?p off = fs_scrollback cur" by (rule rdw_at) (simp_all add: assms(4))
  have rest: "drop (off + 4) ?p = append_links_section cur lc" by (simp add: assms(4))
  have ok: "links_ok (total_cells cur) (fs_cell_links cur) (fs_link_uris cur)" "links_sendable cur"
    "total_cells cur \<le> MAX_CELL_COUNT"
    using assms(1) by (simp_all add: sendable_def frame_inv_def)
  have "apply_links_section ?f (append_links_section cur lc)
      = ?f\<lparr>fs_cell_links := fs_cell_links cur, fs_link_uris := fs_link_uris cur\<rparr>"
  proof (cases lc)
    case True
    then show ?thesis
      using apply_links_section_changed[OF ok(1,2) _ ok(3), of ?f] assms(2) by simp
  next
    case False
    then have "fs_cell_links cur = fs_cell_links f" "fs_link_uris cur = fs_link_uris f"
      using assms(3) by simp_all
    then show ?thesis using False by (cases f) (simp add: apply_links_section_unchanged)
  qed
  moreover have "off + 4 \<le> length ?p" by (simp add: assms(4))
  ultimately show ?thesis unfolding apply_scrollback_def sb rest by simp
qed

lemma content_section:
  assumes "draws H W ops n (fs_cells f) c" "n \<le> 65535" "fs_rows f = H" "fs_cols f = W"
    and "grid_ok H W (fs_cells f) (fs_overflow f)"
    and "h_ops_present h" "h_title_end h = length pre"
  shows "\<exists>ov ch. apply_content f h (pre @ to_le 2 n @ ops @ rest)
      = (f\<lparr>fs_cells := c, fs_overflow := ov\<rparr>, ch, length pre + 2 + length ops) \<and> grid_ok H W c ov"
proof -
  obtain ov ch where run: "apply_ops_loop n f (to_le 2 n @ ops @ rest) (length (to_le 2 n)) False
      = (f\<lparr>fs_cells := c, fs_overflow := ov\<rparr>, Some (ch, length (to_le 2 n) + length ops))" "grid_ok H W c ov"
    by (rule drawsE[OF assms(1,3,4) refl assms(5)])
  then have "apply_ops_payload f (to_le 2 n @ ops @ rest)
      = (f\<lparr>fs_cells := c, fs_overflow := ov\<rparr>, Some (ch, 2 + length ops))"
    using assms(2) by (simp add: apply_ops_payload_def rd_head)
  then show ?thesis using run(2) assms(6,7) by (auto simp: apply_content_def Let_def)
qed

subsection \<open>The whole payload\<close>

lemma update_payload_parts:
  assumes "sendable cur"
  shows "update_payload cur prev =
    (let title = (if title_changed cur prev then fs_title cur else []) in
     header_bytes cur (title_field_of (fs_overflow cur \<noteq> []) (has_line_flags cur prev)
         (title_changed cur prev) (length title))
     @ title @ to_le 2 (snd (update_ops cur prev)) @ fst (update_ops cur prev)
     @ (if fs_overflow cur \<noteq> [] then serialize_overflow_strings cur else [])
     @ (if has_line_flags cur prev then fs_line_flags cur else [])
     @ wle 4 (fs_scrollback cur) @ append_links_section cur (links_changed cur prev))"
proof -
  have "unat TITLE_LEN_MASK = 4095" by (simp add: TITLE_LEN_MASK_def)
  then have "min (length (fs_title cur)) (unat TITLE_LEN_MASK) = length (fs_title cur)"
    using assms by (simp add: sendable_def)
  then show ?thesis
    unfolding update_payload_def Let_def split_def header_bytes_def by simp
qed

lemma sized_client:
  assumes "sendable cur" "client_ready cur prev f"
    and "h_rows h = fs_rows cur" "h_cols h = fs_cols cur" "h_title_present h = title_changed cur prev"
    and "slice_of p 12 (h_title_end h - 12) = (if title_changed cur prev then fs_title cur else [])"
  defines "f1 \<equiv> fst (apply_title_and_size f h p)"
  shows "fs_rows f1 = fs_rows cur" "fs_cols f1 = fs_cols cur" "fs_title f1 = fs_title cur"
    "grid_ok (fs_rows cur) (fs_cols cur) (fs_cells f1) (fs_overflow f1)"
    "same_size cur prev \<Longrightarrow> fs_cells f1 = fs_cells prev \<and> fs_line_flags f1 = fs_line_flags f"
    "\<not> links_changed cur prev \<Longrightarrow> fs_cell_links f1 = fs_cell_links cur \<and> fs_link_uris f1 = fs_link_uris cur"
proof -
  let ?g = "if title_changed cur prev then fst (set_title f (fs_title cur)) else f"
  have title: "utf8_valid (fs_title cur)" using assms(1) by (simp add: sendable_def frame_inv_def)
  have f1: "f1 = (if fs_rows cur \<noteq> fs_rows ?g \<or> fs_cols cur \<noteq> fs_cols ?g
      then frame_resize ?g (fs_rows cur) (fs_cols cur) else ?g)"
    unfolding f1_def apply_title_and_size_def using assms(3-6) title
    by (simp add: Let_def split_def from_utf8_lossy_valid)
  have g: "fs_rows ?g = fs_rows f" "fs_cols ?g = fs_cols f" "fs_cells ?g = fs_cells f"
    "fs_overflow ?g = fs_overflow f" "fs_line_flags ?g = fs_line_flags f" "fs_cell_links ?g = fs_cell_links f"
    "fs_link_uris ?g = fs_link_uris f"
    by (simp_all add: set_title_def)
  have gt: "fs_title ?g = fs_title cur"
    using assms(2) by (auto simp: set_title_def client_ready_def title_changed_def keyframe_def)
  have ready: "same_size cur prev \<Longrightarrow> fs_rows f = fs_rows cur \<and> fs_cols f = fs_cols cur \<and> fs_cells f = fs_cells prev
      \<and> fs_cell_links f = fs_cell_links prev \<and> fs_link_uris f = fs_link_uris prev"
    using assms(2) by (simp add: client_ready_def same_size_def)
  show "fs_rows f1 = fs_rows cur" "fs_cols f1 = fs_cols cur"
    unfolding f1 by (simp_all add: frame_resize_def clear_links_def)
  show "fs_title f1 = fs_title cur" unfolding f1 using gt by (simp add: frame_resize_def clear_links_def)
  show "grid_ok (fs_rows cur) (fs_cols cur) (fs_cells f1) (fs_overflow f1)"
  proof (cases "fs_rows cur \<noteq> fs_rows ?g \<or> fs_cols cur \<noteq> fs_cols ?g")
    case True
    then have "fs_cells f1 = replicate (fs_rows cur * fs_cols cur * CELL_SIZE) 0" "fs_overflow f1 = []"
      unfolding f1 by (auto simp: frame_resize_def clear_links_def)
    then show ?thesis by (simp add: grid_ok_empty)
  next
    case False
    then have "f1 = ?g" unfolding f1 by (simp only: if_False)
    moreover have "grid_ok (fs_rows f) (fs_cols f) (fs_cells f) (fs_overflow f)"
      using assms(2) by (simp add: client_ready_def grid_clean_def)
    ultimately show ?thesis using False g by simp
  qed
  show "same_size cur prev \<Longrightarrow> fs_cells f1 = fs_cells prev \<and> fs_line_flags f1 = fs_line_flags f"
    unfolding f1 g(1,2) using ready g by simp
  show "\<not> links_changed cur prev \<Longrightarrow> fs_cell_links f1 = fs_cell_links cur \<and> fs_link_uris f1 = fs_link_uris cur"
    unfolding f1 g(1,2) using ready g by (simp add: links_changed_def keyframe_def)
qed

text \<open>The decoder's stages, in order.\<close>

lemma apply_payload_stages:
  assumes "update_header_of p = Some h" "\<not> length p < h_title_end h + 2"
    and "fst (apply_title_and_size f h p) = f1"
    and "apply_content f1 h p = (f2, ch, off)"
    and "(if h_strings_present h then apply_overflow_strings f2 (drop off p) else (f2, 0)) = (f3, used)"
    and "apply_line_flags f3 h p (off + used) = (f4, ch2, after)"
    and "apply_scrollback f4 p after = f5"
  shows "fst (apply_payload f p) = f5\<lparr>fs_cursor_row := min (h_cursor_row h) (fs_rows f5 - 1),
    fs_cursor_col := min (h_cursor_col h) (fs_cols f5 - 1), fs_mode := h_mode h\<rparr>"
  unfolding apply_payload_def assms(1) option.case Let_def split_def assms(3) assms(4) fst_conv snd_conv
    assms(5) assms(6) assms(7)
  using assms(2) by simp

lemma update_payload_refines:
  assumes "sendable cur" and "client_ready cur prev f"
  shows "fst (apply_payload f (update_payload cur prev))
    = cur\<lparr>fs_line_flags := (if has_line_flags cur prev then fs_line_flags cur else fs_line_flags f)\<rparr>"
proof -
  define tc where "tc = title_changed cur prev"
  define lc where "lc = links_changed cur prev"
  define lf where "lf = has_line_flags cur prev"
  define ov where "ov = (fs_overflow cur \<noteq> [])"
  obtain ops n where ops: "update_ops cur prev = (ops, n)" by (cases "update_ops cur prev")
  define title where "title = (if tc then fs_title cur else [])"
  define str where "str = (if ov then serialize_overflow_strings cur else [])"
  define fl where "fl = (if lf then fs_line_flags cur else [])"
  define hd where "hd = header_bytes cur (title_field_of ov lf tc (length title))"
  define tail where "tail = wle 4 (fs_scrollback cur) @ append_links_section cur lc"
  define p where "p = hd @ title @ to_le 2 n @ ops @ str @ fl @ tail"
  have inv: "frame_inv cur" using assms(1) by (simp add: sendable_def)
  have p: "update_payload cur prev = p"
    unfolding update_payload_parts[OF assms(1)] Let_def ops p_def hd_def title_def str_def fl_def tail_def
      tc_def lc_def lf_def ov_def by simp
  define h where "h = \<lparr>h_rows = fs_rows cur, h_cols = fs_cols cur, h_cursor_row = fs_cursor_row cur,
      h_cursor_col = fs_cursor_col cur, h_mode = fs_mode cur, h_title_present = tc, h_ops_present = True,
      h_strings_present = ov, h_line_flags_present = lf, h_title_end = 12 + length title\<rparr>"
  have title: "length title < 4096" "\<not> tc \<Longrightarrow> title = []"
    using assms(1) by (simp_all add: title_def sendable_def)
  have header: "update_header_of p = Some h"
    unfolding p_def hd_def h_def by (rule update_header_of_payload[OF inv title])
  have len_hd: "length hd = 12" by (simp add: hd_def)
  have slice: "slice_of p 12 (h_title_end h - 12) = (if title_changed cur prev then fs_title cur else [])"
    using slice_at[of hd 12 "length title" title] len_hd by (simp add: p_def h_def title_def tc_def)
  define f1 where "f1 = fst (apply_title_and_size f h p)"
  note f1 = sized_client[OF assms(1,2) _ _ _ slice, folded f1_def, unfolded h_def, simplified, folded tc_def h_def,
    OF refl]
  have grid: "same_grid (fs_rows cur) (fs_cols cur) cur"
    using frame_inv_len(2)[OF inv] by (simp add: same_grid_def)
  have small: "fs_rows cur < 65534" "fs_cols cur < 65536"
    using assms(1) by (simp_all add: sendable_def frame_inv_def)
  have draw: "draws (fs_rows cur) (fs_cols cur) ops n (fs_cells f1) (fs_cells cur)" "n \<le> 65535"
    using update_ops_draw[OF grid small grid_okD(1)[OF f1(4)] _ ops] f1(5) by auto
  have "p = (hd @ title) @ to_le 2 n @ ops @ (str @ fl @ tail)" by (simp add: p_def)
  then obtain ov2 ch where content: "apply_content f1 h p
      = (f1\<lparr>fs_cells := fs_cells cur, fs_overflow := ov2\<rparr>, ch, length (hd @ title) + 2 + length ops)"
    "grid_ok (fs_rows cur) (fs_cols cur) (fs_cells cur) ov2"
    using content_section[OF draw f1(1,2,4), of h "hd @ title" "str @ fl @ tail"] len_hd
    by (auto simp: h_def)
  define off where "off = length (hd @ title) + 2 + length ops"
  let ?f2 = "f1\<lparr>fs_cells := fs_cells cur, fs_overflow := ov2\<rparr>"
  let ?f3 = "f1\<lparr>fs_cells := fs_cells cur, fs_overflow := fs_overflow cur\<rparr>"
  have dropped: "drop off p = str @ fl @ tail" by (simp add: p_def off_def)
  have sec: "(if ov then apply_overflow_strings ?f2 (str @ fl @ tail) else (?f2, 0)) = (?f2\<lparr>fs_overflow := fs_overflow cur\<rparr>, length str)"
    by (rule strings_section[OF assms(1), folded ov_def, folded str_def]) (simp_all add: f1(1,2) content(2))
  have "h_strings_present h = ov" by (simp add: h_def)
  then have strings: "(if h_strings_present h then apply_overflow_strings ?f2 (drop off p) else (?f2, 0)) = (?f3, length str)"
    unfolding dropped using sec by simp
  let ?pre = "hd @ title @ to_le 2 n @ ops @ str"
  have "p = ?pre @ (if lf then fs_line_flags cur else []) @ tail" by (simp add: p_def fl_def)
  then obtain ch2 where flags: "apply_line_flags ?f3 h p (off + length str)
      = (?f3\<lparr>fs_line_flags := if lf then fs_line_flags cur else fs_line_flags ?f3\<rparr>, ch2, off + length str + length fl)"
    using line_flags_section[of cur h lf "off + length str" ?pre ?f3 tail] inv
    by (auto simp: h_def frame_inv_def off_def fl_def)
  let ?f4 = "?f3\<lparr>fs_line_flags := if lf then fs_line_flags cur else fs_line_flags ?f3\<rparr>"
  have "p = (?pre @ fl) @ wle 4 (fs_scrollback cur) @ append_links_section cur lc" by (simp add: p_def tail_def)
  then have scroll: "apply_scrollback ?f4 p (off + length str + length fl)
      = ?f4\<lparr>fs_scrollback := fs_scrollback cur, fs_cell_links := fs_cell_links cur, fs_link_uris := fs_link_uris cur\<rparr>"
    using scrollback_section[OF assms(1), of ?f4 lc "off + length str + length fl" "?pre @ fl"] f1(1,2,6)
    by (simp add: total_cells_def off_def lc_def)
  have long: "\<not> length p < h_title_end h + 2" using len_hd by (simp add: p_def h_def)
  have cursor: "min (fs_cursor_row cur) (fs_rows cur - 1) = fs_cursor_row cur"
    "min (fs_cursor_col cur) (fs_cols cur - 1) = fs_cursor_col cur"
    using inv by (auto simp: frame_inv_def)
  have flags_eq: "\<not> lf \<Longrightarrow> fs_line_flags f1 = fs_line_flags f"
    using f1(5) by (auto simp: lf_def has_line_flags_def keyframe_def)
  let ?f5 = "?f4\<lparr>fs_scrollback := fs_scrollback cur, fs_cell_links := fs_cell_links cur, fs_link_uris := fs_link_uris cur\<rparr>"
  have "fst (apply_payload f p) = ?f5\<lparr>fs_cursor_row := min (h_cursor_row h) (fs_rows ?f5 - 1),
      fs_cursor_col := min (h_cursor_col h) (fs_cols ?f5 - 1), fs_mode := h_mode h\<rparr>"
    by (rule apply_payload_stages[OF header long f1_def[symmetric] content(1)[folded off_def] strings flags scroll])
  also have "\<dots> = ?f5\<lparr>fs_cursor_row := fs_cursor_row cur, fs_cursor_col := fs_cursor_col cur, fs_mode := fs_mode cur\<rparr>"
    using cursor f1(1,2) by (simp add: h_def)
  also have "\<dots> = cur\<lparr>fs_line_flags := (if lf then fs_line_flags cur else fs_line_flags f)\<rparr>"
    using f1(1,2,3) flags_eq by (intro frame_state.equality) auto
  finally show ?thesis by (simp add: p lf_def)
qed

subsection \<open>Compressed messages\<close>

text \<open>
  What the code relies on of \<open>lz4_flex\<close>: \<open>decompress_size_prepended\<close> undoes \<open>compress_prepend_size\<close>,
  whose output starts with the length of the uncompressed block.
\<close>

definition lz4_contract :: "(bytes \<Rightarrow> bytes) \<Rightarrow> (bytes \<Rightarrow> bytes option) \<Rightarrow> bool" where
  "lz4_contract compress decompress \<longleftrightarrow> (\<forall>p. length p \<le> MAX_DECOMPRESSED \<longrightarrow>
     decompress (compress p) = Some p \<and> 4 \<le> length (compress p) \<and> rd 4 (compress p) 0 = length p)"

lemma feed_compressed_payload:
  assumes "lz4_contract compress decompress" "length p \<le> MAX_DECOMPRESSED"
  shows "feed_compressed decompress f (compress p) = apply_payload f p"
proof -
  have "decompress (compress p) = Some p" "\<not> length (compress p) < 4" "\<not> rd 4 (compress p) 0 > MAX_DECOMPRESSED"
    using assms unfolding lz4_contract_def by (metis not_less)+
  then show ?thesis by (simp add: feed_compressed_def safe_decompress_def)
qed

lemma build_update_msg_parts:
  assumes "build_update_msg compress pid cur prev = Some msg"
  shows "msg = [S2C_UPDATE] @ wle 2 pid @ compress (update_payload cur prev)"
    and "drop 3 msg = compress (update_payload cur prev)" and "\<not> suppressed cur prev"
  using assms by (auto simp: build_update_msg_def split: if_splits)

lemma suppressed_view:
  assumes "suppressed cur prev" "sendable cur"
  shows "fs_rows cur = fs_rows prev" "fs_cols cur = fs_cols prev" "fs_cells cur = fs_cells prev"
    "fs_cursor_row cur = fs_cursor_row prev" "fs_cursor_col cur = fs_cursor_col prev" "fs_mode cur = fs_mode prev"
    "fs_title cur = fs_title prev" "fs_scrollback cur = fs_scrollback prev"
    "fs_cell_links cur = fs_cell_links prev" "fs_link_uris cur = fs_link_uris prev"
proof -
  have same: "same_size cur prev"
    using assms(1) by (simp add: suppressed_def title_changed_def keyframe_def)
  have "same_grid (fs_rows cur) (fs_cols cur) cur"
    using assms(2) frame_inv_len(2)[of cur] by (simp add: sendable_def same_grid_def)
  then show "fs_cells cur = fs_cells prev"
    using update_ops_count_0[OF _ _ same] assms(1) by (simp add: suppressed_def)
  show "fs_rows cur = fs_rows prev" "fs_cols cur = fs_cols prev"
    using same by (simp_all add: same_size_def)
qed (use assms(1) in \<open>simp_all add: suppressed_def title_changed_def links_changed_def\<close>)

subsection \<open>A stream of frames\<close>

text \<open>Everything a viewer sees of a frame except the row flags and the overflow table.\<close>

definition same_view :: "frame_state \<Rightarrow> frame_state \<Rightarrow> bool" where
  "same_view a b \<longleftrightarrow> fs_rows a = fs_rows b \<and> fs_cols a = fs_cols b \<and> fs_cells a = fs_cells b
     \<and> fs_cursor_row a = fs_cursor_row b \<and> fs_cursor_col a = fs_cursor_col b \<and> fs_mode a = fs_mode b
     \<and> fs_title a = fs_title b \<and> fs_scrollback a = fs_scrollback b
     \<and> fs_cell_links a = fs_cell_links b \<and> fs_link_uris a = fs_link_uris b"

text \<open>
  One turn of the server's send loop with the client at the other end: build against the last frame
  sent, and remember the frame only when a message went out (\<open>try_send_update\<close>).
\<close>

definition send_frame :: "(bytes \<Rightarrow> bytes) \<Rightarrow> (bytes \<Rightarrow> bytes option) \<Rightarrow> u16 \<Rightarrow> frame_state
    \<Rightarrow> frame_state \<times> frame_state \<Rightarrow> frame_state \<times> frame_state" where
  "send_frame compress decompress pid cur st = (case st of (last_sent, client) \<Rightarrow>
     (case build_update_msg compress pid cur last_sent of
        None \<Rightarrow> (last_sent, client)
      | Some msg \<Rightarrow> (cur, fst (feed_compressed decompress client (drop 3 msg)))))"

definition send_frames :: "(bytes \<Rightarrow> bytes) \<Rightarrow> (bytes \<Rightarrow> bytes option) \<Rightarrow> u16 \<Rightarrow> frame_state list
    \<Rightarrow> frame_state \<times> frame_state \<Rightarrow> frame_state \<times> frame_state" where
  "send_frames compress decompress pid frames st = fold (send_frame compress decompress pid) frames st"

definition stream_frame :: "frame_state \<Rightarrow> bool" where
  "stream_frame cur \<longleftrightarrow> sendable cur \<and> fs_rows cur \<noteq> 0"

definition payloads_fit :: "frame_state list \<Rightarrow> bool" where
  "payloads_fit frames \<longleftrightarrow> (\<forall>cur \<in> set frames. \<forall>prev \<in> set (frame_new 0 0 # frames).
     length (update_payload cur prev) \<le> MAX_DECOMPRESSED)"

definition in_sync :: "frame_state \<Rightarrow> frame_state \<Rightarrow> bool" where
  "in_sync last_sent client \<longleftrightarrow> frame_inv client \<and> grid_clean client \<and>
     (last_sent = frame_new 0 0 \<or>
      (stream_frame last_sent \<and> client = last_sent\<lparr>fs_line_flags := fs_line_flags client\<rparr>))"

lemma in_sync_ready:
  assumes "in_sync last_sent client" "stream_frame cur"
  shows "client_ready cur last_sent client"
proof (cases "last_sent = frame_new 0 0")
  case True
  then have "\<not> same_size cur last_sent"
    using assms(2) by (simp add: same_size_def stream_frame_def frame_new_def)
  then show ?thesis using assms(1) by (simp add: client_ready_def in_sync_def)
next
  case False
  then have "client = last_sent\<lparr>fs_line_flags := fs_line_flags client\<rparr>"
    using assms(1) by (simp add: in_sync_def)
  then have "fs_rows client = fs_rows last_sent" "fs_cols client = fs_cols last_sent"
    "fs_cells client = fs_cells last_sent" "fs_title client = fs_title last_sent"
    "fs_cell_links client = fs_cell_links last_sent" "fs_link_uris client = fs_link_uris last_sent"
    by (metis frame_state.select_convs frame_state.surjective frame_state.update_convs(9))+
  then show ?thesis using assms(1) by (simp add: client_ready_def in_sync_def)
qed

lemma send_frame_in_sync:
  assumes "lz4_contract compress decompress" "in_sync last_sent client" "stream_frame cur"
    and "length (update_payload cur last_sent) \<le> MAX_DECOMPRESSED"
    and "send_frame compress decompress pid cur (last_sent, client) = (last', client')"
  shows "in_sync last' client'" "same_view client' cur" "last' = cur \<or> last' = last_sent"
proof -
  have cur: "sendable cur" using assms(3) by (simp add: stream_frame_def)
  have ready: "client_ready cur last_sent client" by (rule in_sync_ready[OF assms(2,3)])
  have "in_sync last' client' \<and> same_view client' cur \<and> (last' = cur \<or> last' = last_sent)"
  proof (cases "build_update_msg compress pid cur last_sent")
    case None
    then have sup: "suppressed cur last_sent" by (auto simp: build_update_msg_def split: if_splits)
    have "last_sent \<noteq> frame_new 0 0"
      using suppressed_view(1)[OF sup cur] assms(3) by (auto simp: stream_frame_def frame_new_def)
    then have "client = last_sent\<lparr>fs_line_flags := fs_line_flags client\<rparr>"
      using assms(2) by (simp add: in_sync_def)
    then have "same_view client last_sent"
      unfolding same_view_def
      by (metis frame_state.select_convs frame_state.surjective frame_state.update_convs(9))
    then have "same_view client cur"
      using suppressed_view[OF sup cur] by (simp add: same_view_def)
    then show ?thesis using None assms(2,5) by (simp add: send_frame_def)
  next
    case (Some msg)
    have st: "last' = cur" "client' = fst (apply_payload client (update_payload cur last_sent))"
      using Some assms(5) build_update_msg_parts(2)[OF Some] feed_compressed_payload[OF assms(1,4)]
      by (auto simp: send_frame_def)
    have client': "client' = cur\<lparr>fs_line_flags := (if has_line_flags cur last_sent then fs_line_flags cur
        else fs_line_flags client)\<rparr>"
      unfolding st(2) by (rule update_payload_refines[OF cur ready])
    have "frame_inv client'"
      unfolding st(2) by (rule apply_payload_inv) (use assms(2) in \<open>simp add: in_sync_def\<close>)
    moreover have "grid_clean client'" using cur unfolding client' by (simp add: grid_clean_def sendable_def)
    ultimately show ?thesis
      using st(1) client' assms(3) by (simp add: in_sync_def same_view_def)
  qed
  then show "in_sync last' client'" "same_view client' cur" "last' = cur \<or> last' = last_sent" by simp_all
qed

lemma send_frames_in_sync:
  assumes "lz4_contract compress decompress" "in_sync last_sent client" "\<forall>cur \<in> set frames. stream_frame cur"
    and "\<forall>cur \<in> set frames. \<forall>prev \<in> S. length (update_payload cur prev) \<le> MAX_DECOMPRESSED"
    and "set frames \<subseteq> S" "last_sent \<in> S"
    and "send_frames compress decompress pid frames (last_sent, client) = (last', client')"
  shows "in_sync last' client' \<and> (frames \<noteq> [] \<longrightarrow> same_view client' (last frames))"
  using assms
proof (induction frames arbitrary: last_sent client)
  case Nil
  then show ?case by (simp add: send_frames_def)
next
  case (Cons cur frames)
  obtain l c where step: "send_frame compress decompress pid cur (last_sent, client) = (l, c)"
    by (cases "send_frame compress decompress pid cur (last_sent, client)")
  have fit: "length (update_payload cur last_sent) \<le> MAX_DECOMPRESSED" and cur: "stream_frame cur"
    using Cons.prems by simp_all
  note one = send_frame_in_sync[OF Cons.prems(1,2) cur fit step]
  have rest: "send_frames compress decompress pid frames (l, c) = (last', client')"
    using Cons.prems(7) step by (simp add: send_frames_def)
  have "l \<in> S" using one(3) Cons.prems(5,6) by auto
  then have "in_sync last' client' \<and> (frames \<noteq> [] \<longrightarrow> same_view client' (last frames))"
    using Cons.IH[OF Cons.prems(1) one(1) _ _ _ _ rest] Cons.prems(3,4,5) by simp
  then show ?case using one(2) rest by (cases frames) (simp_all add: send_frames_def)
qed

end
