(* ===== verification/Frame_Links.thy ===== *)
theory Frame_Links
  imports Frame_Sync
begin

text \<open>
  Hyperlinks beyond the round trip of the section: a section that is cut short clears every link, and
  \<open>link_segments\<close> returns one maximal chain of cells that carry the link, from any cell of it.
\<close>

subsection \<open>A section that is cut short\<close>

lemma slice_take: "a + k \<le> n \<Longrightarrow> slice_of (take n xs) a k = slice_of xs a k"
  by (simp add: slice_of_def drop_take min_def)

lemma rd_take: "a + k \<le> n \<Longrightarrow> rd k (take n xs) a = rd k xs a"
  by (simp add: rd_def slice_take)

lemma rdw_take: "a + k \<le> n \<Longrightarrow> rdw k (take n xs) a = rdw k xs a"
  by (simp add: rdw_def rd_take)

lemma read_uris_short:
  "length d < off + 4 \<or> length d < off + 4 + rd 2 d (off + 2) \<Longrightarrow> read_uris (Suc k) d off m = None"
  by (auto simp: Let_def)

lemma read_uris_next:
  assumes "off + 4 + rd 2 d (off + 2) \<le> length d" "rd 2 d (off + 2) \<le> MAX_LINK_URI"
  shows "\<exists>m'. read_uris (Suc k) d off m = read_uris k d (off + 4 + rd 2 d (off + 2)) m'"
  using assms by (simp add: Let_def) blast

lemma read_uris_cut:
  assumes "\<forall>(lid, uri) \<in> set es. length uri \<le> MAX_LINK_URI"
    and "length pre \<le> n" "n < length pre + length (concat (map uri_entry es))"
  shows "read_uris (length es) (take n (pre @ concat (map uri_entry es) @ rest)) (length pre) m = None"
  using assms
proof (induction es arbitrary: m pre)
  case (Cons e es)
  obtain lid uri where e: "e = (lid, uri)" by (cases e)
  define p where "p = pre @ concat (map uri_entry (e # es)) @ rest"
  have k: "length uri \<le> MAX_LINK_URI" using Cons.prems(1) e by simp
  have p: "p = (pre @ uri_entry e) @ concat (map uri_entry es) @ rest" by (simp add: p_def)
  have "p = (pre @ wle 2 lid) @ to_le 2 (length uri) @ (uri @ concat (map uri_entry es) @ rest)"
    by (simp add: p_def e uri_entry_def)
  then have r2: "rd 2 p (length pre + 2) = length uri"
    using k by (simp only:) (subst rd_at, simp_all add: MAX_LINK_URI_def)
  have n: "length (take n p) = n" using Cons.prems(3) by (simp add: p_def)
  have r: "rd 2 (take n p) (length pre + 2) = length uri" if "length pre + 4 \<le> n"
    using r2 rd_take[of "length pre + 2" 2 n p] that by simp
  have "read_uris (Suc (length es)) (take n p) (length pre) m = None"
  proof (cases "length pre + 4 \<le> n \<and> length pre + 4 + length uri \<le> n")
    case False
    then have "length (take n p) < length pre + 4 \<or>
        length (take n p) < length pre + 4 + rd 2 (take n p) (length pre + 2)"
      unfolding n using r by linarith
    then show ?thesis by (rule read_uris_short)
  next
    case True
    have rec: "read_uris (length es) (take n p) (length (pre @ uri_entry e)) m' = None" for m'
      unfolding p by (rule Cons.IH) (use Cons.prems True in \<open>simp_all add: e uri_entry_def\<close>)
    have off: "length (pre @ uri_entry e) = length pre + 4 + length uri" by (simp add: e uri_entry_def)
    have r': "rd 2 (take n p) (length pre + 2) = length uri" using r True by blast
    obtain m' where "read_uris (Suc (length es)) (take n p) (length pre) m
        = read_uris (length es) (take n p) (length pre + 4 + length uri) m'"
      using read_uris_next[of "length pre" "take n p" "length es" m, unfolded r' n] k True by blast
    then show ?thesis using rec[of m'] unfolding off by simp
  qed
  then show ?case by (simp add: p_def)
qed simp

lemma read_runs_cut:
  "off \<le> length d \<Longrightarrow> length d < off + 8 * k \<Longrightarrow> read_runs k d off cells uris links = None"
proof (induction k arbitrary: off links)
  case (Suc k)
  show ?case
  proof (cases "off + 8 \<le> length d")
    case True
    then have "read_runs k d (off + 8) cells uris l = None" for l using Suc by simp
    then show ?thesis by (simp add: Let_def)
  qed simp
qed simp

text \<open>The section the encoder writes, in its parts.\<close>

lemma append_links_section_parts:
  assumes "links_ok n (fs_cell_links cur) (fs_link_uris cur)" "links_sendable cur" "fs_link_uris cur \<noteq> []"
  shows "append_links_section cur True
      = to_le 2 (length (fs_link_uris cur)) @ concat (map uri_entry (fs_link_uris cur))
        @ to_le 2 (length (link_runs (fs_cell_links cur) 0)) @ concat (map run_entry (link_runs (fs_cell_links cur) 0))"
    and "length (fs_link_uris cur) < 65535" "length (link_runs (fs_cell_links cur) 0) < 65536"
    and "\<forall>(lid, uri) \<in> set (fs_link_uris cur). length uri \<le> MAX_LINK_URI"
proof -
  let ?es = "fs_link_uris cur" and ?rs = "link_runs (fs_cell_links cur) 0"
  have "uris_ok ?es" using assms(1,3) by (auto simp: links_ok_def)
  then show es: "\<forall>(lid, uri) \<in> set ?es. length uri \<le> MAX_LINK_URI" by (auto simp: uris_ok_def)
  show small: "length ?es < 65535" "length ?rs < 65536"
    using assms(2) by (simp_all add: links_sendable_def MAX_LINK_ID_def)
  have "take MAX_LINK_ID (filter (\<lambda>(lid, uri). length uri \<le> MAX_LINK_URI) ?es) = ?es"
    using es assms(2) by (simp add: links_sendable_def filter_id_conv[THEN iffD2])
  moreover have "(\<lambda>(lid, uri). wle 2 lid @ to_le 2 (length uri) @ uri) = uri_entry"
    by (auto simp: uri_entry_def)
  moreover have "(\<lambda>(start, len, lid). to_le 4 start @ to_le 2 len @ wle 2 lid) = run_entry"
    by (auto simp: run_entry_def)
  ultimately show "append_links_section cur True
      = to_le 2 (length ?es) @ concat (map uri_entry ?es) @ to_le 2 (length ?rs) @ concat (map run_entry ?rs)"
    using assms(3) small by (simp add: append_links_section_def Let_def min_def)
qed

lemma apply_links_cut:
  assumes "links_ok n (fs_cell_links cur) (fs_link_uris cur)" "links_sendable cur" "fs_link_uris cur \<noteq> []"
    and "k < length (append_links_section cur True)"
  shows "apply_links_section f (take k (append_links_section cur True)) = clear_links f"
proof -
  let ?es = "fs_link_uris cur" and ?rs = "link_runs (fs_cell_links cur) 0"
  have ok: "uris_ok ?es" using assms(1,3) by (auto simp: links_ok_def)
  then have es: "\<forall>(lid, uri) \<in> set ?es. lid \<noteq> 0 \<and> length uri \<le> MAX_LINK_URI \<and> utf8_valid uri"
    by (simp add: uris_ok_def)
  define p where "p = append_links_section cur True"
  define d where "d = take k p"
  note parts = append_links_section_parts[OF assms(1-3)]
  have p: "p = to_le 2 (length ?es) @ concat (map uri_entry ?es) @ to_le 2 (length ?rs) @ concat (map run_entry ?rs)"
    unfolding p_def by (rule parts(1))
  have len: "length d = k" using assms(4) by (simp add: d_def p_def)
  let ?u = "2 + length (concat (map uri_entry ?es))"
  have total: "length p = ?u + 2 + 8 * length ?rs"
    by (simp add: p length_concat comp_def sum_list_triv)
  show ?thesis
  proof (cases "k < 2")
    case True
    then show ?thesis using len by (simp add: apply_links_section_def d_def p_def)
  next
    case False
    have "rd 2 p 0 = length ?es" unfolding p using parts(2) by (simp add: rd_head)
    then have count: "rd 2 d 0 = length ?es" "length ?es \<noteq> LINKS_UNCHANGED"
      using False parts(2) by (simp_all add: d_def rd_take LINKS_UNCHANGED_def)
    show ?thesis
    proof (cases "k < ?u")
      case True
      then have "read_uris (length ?es) d 2 [] = None"
        using read_uris_cut[OF parts(4), of "to_le 2 (length ?es)" k _ "[]"] False by (simp add: d_def p)
      then show ?thesis
        using count len False by (simp add: apply_links_section_def flip: p_def d_def)
    next
      case uris: False
      show ?thesis
      proof -
        have "d = to_le 2 (length ?es) @ concat (map uri_entry ?es)
            @ take (k - ?u) (to_le 2 (length ?rs) @ concat (map run_entry ?rs))"
          using uris by (simp add: d_def p min_def)
        then have read: "read_uris (length ?es) d 2 [] = Some (?es, ?u)"
          using read_uris_entries[OF es, of "to_le 2 (length ?es)" _ "[]"] bt_insert_all_self[OF uris_okD[OF ok]] by simp
        have "read_runs (rd 2 d ?u) d (?u + 2) (total_cells f) ?es l = None" if "?u + 2 \<le> k" for l
        proof (rule read_runs_cut)
          have "rd 2 p ?u = length ?rs"
            using rd_at[of "to_le 2 (length ?es) @ concat (map uri_entry ?es)" ?u 2 "length ?rs"
                "concat (map run_entry ?rs)"] parts(3) by (simp add: p)
          then have "rd 2 d ?u = length ?rs" using that by (simp add: d_def rd_take)
          then show "length d < ?u + 2 + 8 * rd 2 d ?u" "?u + 2 \<le> length d"
            using assms(4) total that len by (simp_all flip: p_def)
        qed
        then show ?thesis
          using count len False read
          by (simp add: apply_links_section_def not_le flip: p_def d_def)
      qed
    qed
  qed
qed


subsection \<open>The extent of a link\<close>

lemma walk_left_spec:
  assumes "link_id_at f row col = lid"
  shows "walk_left f lid row col \<le> col" "\<forall>j. walk_left f lid row col \<le> j \<and> j \<le> col \<longrightarrow> link_id_at f row j = lid"
    "walk_left f lid row col = 0 \<or> link_id_at f row (walk_left f lid row col - 1) \<noteq> lid"
proof -
  have "walk_left f lid row col \<le> col \<and> (\<forall>j. walk_left f lid row col \<le> j \<and> j \<le> col \<longrightarrow> link_id_at f row j = lid)
      \<and> (walk_left f lid row col = 0 \<or> link_id_at f row (walk_left f lid row col - 1) \<noteq> lid)"
    using assms by (induction col) (auto simp: le_Suc_eq)
  then show "walk_left f lid row col \<le> col" "\<forall>j. walk_left f lid row col \<le> j \<and> j \<le> col \<longrightarrow> link_id_at f row j = lid"
    "walk_left f lid row col = 0 \<or> link_id_at f row (walk_left f lid row col - 1) \<noteq> lid" by blast+
qed

lemma walk_right_spec:
  assumes "link_id_at f row c = lid" "c < fs_cols f"
  shows "c \<le> walk_right f lid row c \<and> walk_right f lid row c < fs_cols f
    \<and> (\<forall>j. c \<le> j \<and> j \<le> walk_right f lid row c \<longrightarrow> link_id_at f row j = lid)
    \<and> (walk_right f lid row c = fs_cols f - 1 \<or> link_id_at f row (walk_right f lid row c + 1) \<noteq> lid)"
  using assms
proof (induction f lid row c rule: walk_right.induct)
  case (1 f lid row c)
  show ?case
  proof (cases "c < fs_cols f - 1 \<and> link_id_at f row (c + 1) = lid")
    case True
    then have eq: "walk_right f lid row c = walk_right f lid row (c + 1)"
      by (subst walk_right.simps) simp
    have lt: "c + 1 < fs_cols f" using True by linarith
    note ih = "1.IH"[OF True conjunct2[OF True] lt]
    have "link_id_at f row j = lid" if "c \<le> j" "j \<le> walk_right f lid row (c + 1)" for j
      using ih that "1.prems"(1) by (cases "j = c") simp_all
    then show ?thesis unfolding eq using ih by simp
  next
    case False
    then have "walk_right f lid row c = c" by (subst walk_right.simps) auto
    then show ?thesis using False "1.prems" by auto
  qed
qed

text \<open>
  \<open>linked f lid r c r' d\<close>: reading order leads from cell \<open>(r, c)\<close> to cell \<open>(r', d)\<close> over cells of the
  link, going to the next row only across a wrapped row end.
\<close>

inductive linked :: "frame_state \<Rightarrow> u16 \<Rightarrow> nat \<Rightarrow> nat \<Rightarrow> nat \<Rightarrow> nat \<Rightarrow> bool" for f lid where
  same_row: "c \<le> d \<Longrightarrow> \<forall>j. c \<le> j \<and> j \<le> d \<longrightarrow> link_id_at f r j = lid \<Longrightarrow> linked f lid r c r d"
| next_row: "\<forall>j. c \<le> j \<and> j \<le> fs_cols f - 1 \<longrightarrow> link_id_at f r j = lid \<Longrightarrow> is_wrapped f r \<Longrightarrow>
    linked f lid (r + 1) 0 r' d \<Longrightarrow> linked f lid r c r' d"

lemma linked_rows: "linked f lid r c r' d \<Longrightarrow> r \<le> r'"
  by (induction rule: linked.induct) auto

lemma linked_join:
  assumes "linked f lid r c p e" "e = fs_cols f - 1" "is_wrapped f p" "linked f lid (p + 1) 0 r' d"
  shows "linked f lid r c r' d"
  using assms by (induction rule: linked.induct) (auto intro: linked.intros)

lemma walk_back_linked:
  assumes "link_id_at f row col = lid" "walk_back f lid row col = (r, c)"
  shows "linked f lid r c row col \<and> link_id_at f r c = lid \<and> r \<le> row \<and> (c \<le> col \<or> c \<le> fs_cols f - 1)
    \<and> (0 < c \<longrightarrow> link_id_at f r (c - 1) \<noteq> lid)
    \<and> (c = 0 \<and> 0 < r \<longrightarrow> \<not> is_wrapped f (r - 1) \<or> link_id_at f (r - 1) (fs_cols f - 1) \<noteq> lid)"
  using assms
proof (induction f lid row col rule: walk_back.induct)
  case (1 f lid col)
  note w = walk_left_spec[OF "1.prems"(1)]
  have "r = 0" "c = walk_left f lid 0 col" using "1.prems"(2) by simp_all
  then show ?case using w by (auto intro: same_row)
next
  case (2 f lid prev col)
  note w = walk_left_spec[OF "2.prems"(1)]
  let ?s = "walk_left f lid (Suc prev) col"
  show ?case
  proof (cases "?s \<noteq> 0 \<or> \<not> is_wrapped f prev \<or> link_id_at f prev (fs_cols f - 1) \<noteq> lid")
    case True
    then have "r = Suc prev" "c = ?s" using "2.prems"(2) by (auto simp: Let_def split: if_splits)
    then show ?thesis using w True by (auto intro: same_row)
  next
    case False
    then have s: "?s = 0" and up: "is_wrapped f prev" "link_id_at f prev (fs_cols f - 1) = lid" by simp_all
    have wb: "walk_back f lid prev (fs_cols f - 1) = (r, c)" using "2.prems"(2) s up by (simp add: Let_def)
    have ih: "linked f lid r c prev (fs_cols f - 1) \<and> link_id_at f r c = lid \<and> r \<le> prev
        \<and> (c \<le> fs_cols f - 1 \<or> c \<le> fs_cols f - 1) \<and> (0 < c \<longrightarrow> link_id_at f r (c - 1) \<noteq> lid)
        \<and> (c = 0 \<and> 0 < r \<longrightarrow> \<not> is_wrapped f (r - 1) \<or> link_id_at f (r - 1) (fs_cols f - 1) \<noteq> lid)"
      using "2.IH" s up wb by simp
    have "linked f lid (prev + 1) 0 (Suc prev) col" using w s by (auto intro: same_row)
    then have "linked f lid r c (Suc prev) col" using linked_join ih up(1) by blast
    then show ?thesis using ih by auto
  qed
qed

text \<open>A chain of segments: each lies on the link, and the next starts where it wraps.\<close>

fun chain :: "frame_state \<Rightarrow> u16 \<Rightarrow> (nat \<times> nat \<times> nat) list \<Rightarrow> bool" where
  "chain f lid [] = False"
| "chain f lid [(r, s, e)] \<longleftrightarrow> r < fs_rows f \<and> s \<le> e \<and> e < fs_cols f
     \<and> (\<forall>j. s \<le> j \<and> j \<le> e \<longrightarrow> link_id_at f r j = lid)
     \<and> (e < fs_cols f - 1 \<longrightarrow> link_id_at f r (e + 1) \<noteq> lid)
     \<and> (e = fs_cols f - 1 \<and> r + 1 < fs_rows f \<longrightarrow> \<not> is_wrapped f r \<or> link_id_at f (r + 1) 0 \<noteq> lid)"
| "chain f lid ((r, s, e) # (r', s', e') # segs) \<longleftrightarrow> r < fs_rows f \<and> s \<le> e \<and> e = fs_cols f - 1 \<and> e < fs_cols f
     \<and> (\<forall>j. s \<le> j \<and> j \<le> e \<longrightarrow> link_id_at f r j = lid) \<and> is_wrapped f r \<and> r' = r + 1 \<and> s' = 0
     \<and> chain f lid ((r', s', e') # segs)"

lemma walk_forward_Cons: "\<exists>e segs. walk_forward f lid r c = (r, c, e) # segs"
  by (subst walk_forward.simps) (simp add: Let_def)

lemma walk_forward_chain:
  assumes "link_id_at f r c = lid" "c < fs_cols f" "r < fs_rows f"
  shows "chain f lid (walk_forward f lid r c)"
  using assms
proof (induction f lid r c rule: walk_forward.induct)
  case (1 f lid r c)
  note w = walk_right_spec[OF "1.prems"(1,2)]
  let ?e = "walk_right f lid r c"
  show ?case
  proof (cases "?e \<noteq> fs_cols f - 1 \<or> r + 1 \<ge> fs_rows f \<or> \<not> is_wrapped f r \<or> link_id_at f (r + 1) 0 \<noteq> lid")
    case True
    then have "walk_forward f lid r c = [(r, c, ?e)]" by (subst walk_forward.simps) (auto simp: Let_def)
    then show ?thesis using True w "1.prems" by auto
  next
    case False
    then have eq: "walk_forward f lid r c = (r, c, ?e) # walk_forward f lid (r + 1) 0"
      by (subst walk_forward.simps) (simp add: Let_def)
    have "chain f lid (walk_forward f lid (r + 1) 0)" using "1.IH" False "1.prems" by simp
    moreover obtain e' segs where "walk_forward f lid (r + 1) 0 = (r + 1, 0, e') # segs"
      using walk_forward_Cons by blast
    ultimately show ?thesis using False w "1.prems" eq by simp
  qed
qed

lemma walk_forward_covers:
  assumes "linked f lid r c row col" "col < fs_cols f" "row < fs_rows f" "c < fs_cols f"
  shows "\<exists>s e. (row, s, e) \<in> set (walk_forward f lid r c) \<and> s \<le> col \<and> col \<le> e"
  using assms
proof (induction rule: linked.induct)
  case (same_row c d r)
  have id: "link_id_at f r c = lid" using same_row.hyps by simp
  note w = walk_right_spec[OF id same_row.prems(3)]
  obtain e segs where eq: "walk_forward f lid r c = (r, c, e) # segs" using walk_forward_Cons by blast
  then have e: "e = walk_right f lid r c" by (subst (asm) walk_forward.simps) (simp add: Let_def)
  have "d \<le> e"
  proof (rule ccontr)
    assume "\<not> d \<le> e"
    then have "c \<le> e + 1 \<and> e + 1 \<le> d" "e < fs_cols f - 1" using w e same_row.prems(1) by auto
    then show False using w e same_row.hyps(2) by auto
  qed
  then show ?case using eq same_row.hyps(1) by auto
next
  case (next_row c r r' d)
  have last: "c \<le> fs_cols f - 1" using next_row.prems by simp
  then have id: "link_id_at f r c = lid" using next_row.hyps(1) by simp
  note w = walk_right_spec[OF id next_row.prems(3)]
  let ?e = "walk_right f lid r c"
  have e: "?e = fs_cols f - 1"
  proof (rule ccontr)
    assume "?e \<noteq> fs_cols f - 1"
    then have "link_id_at f r (?e + 1) \<noteq> lid" "c \<le> ?e + 1 \<and> ?e + 1 \<le> fs_cols f - 1" using w by auto
    then show False using next_row.hyps(1) by blast
  qed
  have start: "link_id_at f (r + 1) 0 = lid" using next_row.hyps(3) by (cases rule: linked.cases) auto
  have rows: "r + 1 \<le> r'" by (rule linked_rows[OF next_row.hyps(3)])
  have "walk_forward f lid r c = (r, c, ?e) # walk_forward f lid (r + 1) 0"
    using e start next_row.hyps(2) rows next_row.prems(2)
    by (subst walk_forward.simps) (simp add: Let_def)
  moreover have "0 < fs_cols f" using next_row.prems(1) by simp
  ultimately show ?case using next_row.IH next_row.prems(1,2) by auto
qed


lemma link_id_at_inside: "link_id_at f row col \<noteq> 0 \<Longrightarrow> row < fs_rows f \<and> col < fs_cols f"
  by (auto simp: link_id_at_def split: if_splits)

lemma link_segments_spec:
  assumes "link_id_at f row col = lid" "lid \<noteq> 0"
  shows "chain f lid (link_segments f row col)"
    "\<exists>s e. (row, s, e) \<in> set (link_segments f row col) \<and> s \<le> col \<and> col \<le> e"
    "\<exists>r c e segs. link_segments f row col = (r, c, e) # segs \<and> (0 < c \<longrightarrow> link_id_at f r (c - 1) \<noteq> lid)
      \<and> (c = 0 \<and> 0 < r \<longrightarrow> \<not> is_wrapped f (r - 1) \<or> link_id_at f (r - 1) (fs_cols f - 1) \<noteq> lid)"
proof -
  have inside: "row < fs_rows f" "col < fs_cols f" using link_id_at_inside[of f row col] assms by auto
  obtain r c where wb: "walk_back f lid row col = (r, c)" by (cases "walk_back f lid row col")
  note b = walk_back_linked[OF assms(1) wb]
  have segs: "link_segments f row col = walk_forward f lid r c"
    using assms inside wb by (simp add: link_segments_def)
  have c: "c < fs_cols f" "r < fs_rows f" using b inside by auto
  show "chain f lid (link_segments f row col)"
    unfolding segs using b c by (intro walk_forward_chain) auto
  show "\<exists>s e. (row, s, e) \<in> set (link_segments f row col) \<and> s \<le> col \<and> col \<le> e"
    unfolding segs using b c inside by (intro walk_forward_covers) auto
  obtain e ss where eq: "walk_forward f lid r c = (r, c, e) # ss" using walk_forward_Cons by blast
  show "\<exists>r c e segs. link_segments f row col = (r, c, e) # segs \<and> (0 < c \<longrightarrow> link_id_at f r (c - 1) \<noteq> lid)
      \<and> (c = 0 \<and> 0 < r \<longrightarrow> \<not> is_wrapped f (r - 1) \<or> link_id_at f (r - 1) (fs_cols f - 1) \<noteq> lid)"
    unfolding segs eq using b by (intro exI[of _ r] exI[of _ c] exI[of _ e] exI[of _ ss]) simp
qed

end
