(* ===== verification/Frame_Text_Facts.thy ===== *)
theory Frame_Text_Facts
  imports Frame_Text Frame_Links
begin

text \<open>
  Facts about text on a frame: a styled character reads back as itself, drawing keeps a frame well
  formed, text written to a row is the text extracted from it, and wrapping fits the width and loses no
  character.
\<close>

subsection \<open>Characters\<close>

definition is_char :: "bytes \<Rightarrow> bool" where
  "is_char c \<longleftrightarrow> utf8_next c = (length c, True)"

lemma is_char_length: "is_char c \<Longrightarrow> 0 < length c \<and> length c \<le> 4"
proof -
  assume c: "is_char c"
  then obtain b r where b: "c = b # r" using utf8_next_head[of c "length c"] by (cases c) (auto simp: is_char_def)
  have "length c = char_width b" "length c \<noteq> 0" using c unfolding is_char_def b utf8_next_iff by simp_all
  then show ?thesis using char_width_cases[of b] by auto
qed

lemma utf8_chars_char: "is_char c \<Longrightarrow> utf8_chars (c @ r) = c # utf8_chars r"
proof -
  assume c: "is_char c"
  then have "utf8_next (c @ r) = (length c, True)" unfolding is_char_def by (rule utf8_next_append)
  moreover have "c \<noteq> []" using is_char_length[OF c] by auto
  ultimately show ?thesis by (subst utf8_chars.simps) simp
qed

lemma utf8_chars_are_chars: "utf8_valid s \<Longrightarrow> \<forall>c \<in> set (utf8_chars s). is_char c"
proof (induction s rule: utf8_chars.induct)
  case (1 s)
  show ?case
  proof (cases "s = []")
    case False
    let ?n = "fst (utf8_next s)"
    have ok: "utf8_next s = (?n, True)" "utf8_valid (drop ?n s)"
      using "1.prems" False by (metis prod.collapse utf8_valid.simps)+
    then have "is_char (take ?n s)"
      using utf8_next_take[OF ok(1)] utf8_next_le[OF ok(1)] by (simp add: is_char_def)
    then show ?thesis using "1.IH"[OF False ok(2)] False by (subst utf8_chars.simps) simp
  qed simp
qed

lemma utf8_chars_concat: "\<forall>c \<in> set cs. is_char c \<Longrightarrow> utf8_chars (concat cs) = cs \<and> utf8_valid (concat cs)"
proof (induction cs)
  case (Cons c cs)
  then have "utf8_next c = (length c, True)" by (simp add: is_char_def)
  then show ?case using Cons utf8_valid_append_char[of c "concat cs"] by (simp add: utf8_chars_char)
qed simp

lemma utf8_chars_append: "utf8_valid a \<Longrightarrow> utf8_chars (a @ b) = utf8_chars a @ utf8_chars b"
proof -
  assume a: "utf8_valid a"
  have "utf8_chars (concat cs @ b) = cs @ utf8_chars b" if "\<forall>c \<in> set cs. is_char c" for cs
    using that by (induction cs) (simp_all add: utf8_chars_char)
  from this[OF utf8_chars_are_chars[OF a]] show ?thesis by (simp add: utf8_valid_concat_chars[OF a])
qed

subsection \<open>Cells\<close>

lemma length_encode_cell [simp]: "length (encode_cell ch style wide cont) = CELL_SIZE"
  by (auto simp: encode_cell_def encode_color_def Let_def CELL_SIZE_def split: color.split option.split)

lemma encode_cell_text:
  assumes "is_char ch"
  shows "content_len (encode_cell (Some ch) style wide cont ! 1) = word_of_nat (length ch)"
    "slice_of (encode_cell (Some ch) style wide cont) 8 (length ch) = ch"
    "encode_cell (Some ch) style wide cont ! 1 AND 4 = (if cont then 4 else 0)"
proof -
  have len: "length ch = 1 \<or> length ch = 2 \<or> length ch = 3 \<or> length ch = 4"
    using is_char_length[OF assms] by linarith
  obtain fgf fg where fg: "encode_color (st_fg style) False = (fgf, fg)" "length fg = 3"
    by (cases "st_fg style") (auto simp: encode_color_def)
  obtain bgf bg where bg: "encode_color (st_bg style) True = (bgf, bg)" "length bg = 3"
    by (cases "st_bg style") (auto simp: encode_color_def)
  note enc = encode_cell_def fg(1) bg(1)
  show "slice_of (encode_cell (Some ch) style wide cont) 8 (length ch) = ch"
    using len fg(2) bg(2) by (auto simp: enc Let_def slice_of_def)
  show "content_len (encode_cell (Some ch) style wide cont ! 1) = word_of_nat (length ch)"
    "encode_cell (Some ch) style wide cont ! 1 AND 4 = (if cont then 4 else 0)"
    using len by (auto simp: enc Let_def content_len_def bit_if_def)
qed

definition style_of_cell :: "bytes \<Rightarrow> cell_style" where
  "style_of_cell c = \<lparr>st_fg = decode_color (c ! 0 AND 3) c 2, st_bg = decode_color (drop_bit 2 (c ! 0) AND 3) c 5,
     st_bold = (drop_bit 4 (c ! 0) AND 1 \<noteq> 0), st_dim = (drop_bit 5 (c ! 0) AND 1 \<noteq> 0),
     st_italic = (drop_bit 6 (c ! 0) AND 1 \<noteq> 0), st_underline = (drop_bit 7 (c ! 0) AND 1 \<noteq> 0),
     st_inverse = (c ! 1 AND 1 \<noteq> 0)\<rparr>"

lemma encode_color_cases:
  "encode_color c is_bg = (case c of Default \<Rightarrow> (0, [0, 0, 0]) | Indexed i \<Rightarrow> (if is_bg then 4 else 1, [i, 0, 0])
     | Rgb r g b \<Rightarrow> (if is_bg then 8 else 2, [r, g, b]))"
  by (simp add: encode_color_def split: color.split)

lemma push_3_low: "push_bit 3 w AND 1 = (0 :: u8)"
  by (rule bit_eqI) (auto simp: bit_simps)

lemma bit_if_masks:
  "bit_if b 0 AND 1 = of_bool b" "bit_if b (Suc 0) AND 1 = 0" "bit_if b 2 AND 1 = 0"
  "bit_if b 4 AND 3 = 0" "bit_if b 5 AND 3 = 0" "bit_if b 6 AND 3 = 0" "bit_if b 7 AND 3 = 0"
  "drop_bit 2 (bit_if b 4) AND 3 = 0" "drop_bit 2 (bit_if b 5) AND 3 = 0"
  "drop_bit 2 (bit_if b 6) AND 3 = 0" "drop_bit 2 (bit_if b 7) AND 3 = 0"
  "drop_bit 4 (bit_if b 4) AND 1 = of_bool b" "drop_bit 4 (bit_if b 5) AND 1 = 0"
  "drop_bit 4 (bit_if b 6) AND 1 = 0" "drop_bit 4 (bit_if b 7) AND 1 = 0"
  "drop_bit 5 (bit_if b 4) AND 1 = 0" "drop_bit 5 (bit_if b 5) AND 1 = of_bool b"
  "drop_bit 5 (bit_if b 6) AND 1 = 0" "drop_bit 5 (bit_if b 7) AND 1 = 0"
  "drop_bit 6 (bit_if b 4) AND 1 = 0" "drop_bit 6 (bit_if b 5) AND 1 = 0"
  "drop_bit 6 (bit_if b 6) AND 1 = of_bool b" "drop_bit 6 (bit_if b 7) AND 1 = 0"
  "drop_bit 7 (bit_if b 4) AND 1 = 0" "drop_bit 7 (bit_if b 5) AND 1 = 0"
  "drop_bit 7 (bit_if b 6) AND 1 = 0" "drop_bit 7 (bit_if b 7) AND 1 = of_bool b"
  by (cases b; simp add: bit_if_def)+

lemma encode_cell_style: "style_of_cell (encode_cell ch style wide cont) = style"
proof -
  obtain fg bg b d i u v where s: "style = \<lparr>st_fg = fg, st_bg = bg, st_bold = b, st_dim = d, st_italic = i,
      st_underline = u, st_inverse = v\<rparr>" by (cases style)
  show ?thesis
    by (cases fg; cases bg) (simp_all add: s style_of_cell_def encode_cell_def encode_color_cases Let_def
      decode_color_def bit.conj_disj_distrib2 drop_bit_or bit_if_masks push_3_low)
qed


lemma flat_index: "row < fs_rows f \<Longrightarrow> col < fs_cols f \<Longrightarrow> row * fs_cols f + col < total_cells f"
proof -
  assume "row < fs_rows f" "col < fs_cols f"
  then have "row * fs_cols f + col < (row + 1) * fs_cols f" "(row + 1) * fs_cols f \<le> fs_rows f * fs_cols f"
    by (simp_all only: mult_le_mono1 Suc_eq_plus1[symmetric] Suc_le_eq) simp
  then show ?thesis by (simp add: total_cells_def)
qed

lemma cell_style_at_cell:
  assumes "frame_inv f" "row < fs_rows f" "col < fs_cols f"
  shows "cell_style_at f row col = style_of_cell (cell_at (fs_cells f) (row * fs_cols f + col))"
proof -
  let ?i = "row * fs_cols f + col"
  have i: "?i < total_cells f"
    using assms(2,3) by (rule flat_index)
  have nth: "cell_at (fs_cells f) ?i ! j = fs_cells f ! (?i * CELL_SIZE + j)" if "j < CELL_SIZE" for j
    by (rule nth_cell_at[OF i frame_inv_len(1)[OF assms(1)] that])
  show ?thesis
    using assms(2,3) nth[of 0] nth[of 1] nth[of 2] nth[of 3] nth[of 4] nth[of 5] nth[of 6] nth[of 7]
    by (simp add: cell_style_at_def style_of_cell_def Let_def cell_offset_def decode_color_def CELL_SIZE_def
      numeral_eq_Suc)
qed

subsection \<open>Writing a cell\<close>

text \<open>\<open>drawn f g\<close>: \<open>g\<close> is \<open>f\<close> with other cell bytes.\<close>

definition drawn :: "frame_state \<Rightarrow> frame_state \<Rightarrow> bool" where
  "drawn f g \<longleftrightarrow> (\<exists>c. g = f\<lparr>fs_cells := c\<rparr> \<and> length c = length (fs_cells f))"

lemma drawn_refl [simp]: "drawn f f"
  unfolding drawn_def by (intro exI[of _ "fs_cells f"]) simp

lemma drawn_trans: "drawn f g \<Longrightarrow> drawn g h \<Longrightarrow> drawn f h"
  by (auto simp: drawn_def)

lemma drawn_fields:
  assumes "drawn f g"
  shows "fs_rows g = fs_rows f" "fs_cols g = fs_cols f" "fs_overflow g = fs_overflow f" "total_cells g = total_cells f"
    "length (fs_cells g) = length (fs_cells f)" "fs_title g = fs_title f" "fs_line_flags g = fs_line_flags f"
    "fs_cell_links g = fs_cell_links f" "fs_link_uris g = fs_link_uris f"
  using assms by (auto simp: drawn_def total_cells_def)

lemma drawn_inv: "drawn f g \<Longrightarrow> frame_inv f \<Longrightarrow> frame_inv g"
  by (auto simp: drawn_def frame_inv_simps)

definition grid_sized :: "frame_state \<Rightarrow> bool" where
  "grid_sized f \<longleftrightarrow> length (fs_cells f) = total_cells f * CELL_SIZE"

lemma drawn_sized: "drawn f g \<Longrightarrow> grid_sized f \<Longrightarrow> grid_sized g"
  by (simp add: grid_sized_def drawn_fields)

lemma put_cell_at:
  assumes "grid_sized f" "row < fs_rows f" "col < fs_cols f" "length c = CELL_SIZE"
  shows "drawn f (put_cell f row col c)"
    "i < total_cells f \<Longrightarrow> cell_at (fs_cells (put_cell f row col c)) i
      = (if i = row * fs_cols f + col then c else cell_at (fs_cells f) i)"
proof -
  let ?i = "row * fs_cols f + col"
  have i: "?i + 1 \<le> total_cells f" using flat_index[OF assms(2,3)] by simp
  have c: "length c = 1 * CELL_SIZE" using assms(4) by simp
  have len: "length (fs_cells f) = total_cells f * CELL_SIZE" using assms(1) by (simp add: grid_sized_def)
  have off: "cell_offset f row col = ?i * CELL_SIZE" by (simp add: cell_offset_def)
  show "drawn f (put_cell f row col c)"
    using length_splice_cells[OF c i len] len by (auto simp: drawn_def put_cell_def off)
  show "cell_at (fs_cells (put_cell f row col c)) i = (if i = ?i then c else cell_at (fs_cells f) i)"
    if "i < total_cells f"
    using cell_at_splice[OF c i len that] cell_at_self[OF assms(4)] by (auto simp: put_cell_def off)
qed

lemma set_cell_at:
  assumes "grid_sized f" "set_cell uw f row col ch style = (g, width)"
  shows "drawn f g" "width = 0 \<Longrightarrow> g = f"
    "0 < width \<Longrightarrow> row < fs_rows f \<and> col + width \<le> fs_cols f \<and> width \<le> 2"
    "0 < width \<Longrightarrow> i < total_cells f \<Longrightarrow> cell_at (fs_cells g) i
      = (if i = row * fs_cols f + col then encode_cell (Some ch) style (width = 2) False
         else if width = 2 \<and> i = row * fs_cols f + (col + 1) then encode_cell None style False True
         else cell_at (fs_cells f) i)"
proof -
  define raw where "raw = (case uw ch of Some w \<Rightarrow> w | None \<Rightarrow> (0 :: nat))"
  note sc = assms(2)[unfolded set_cell_def Let_def raw_def[symmetric]]
  consider (none) "g = f" "width = 0"
    | (narrow) "row < fs_rows f" "col < fs_cols f" "width = 1" "g = put_cell f row col (encode_cell (Some ch) style False False)"
    | (wide) "row < fs_rows f" "col + 1 < fs_cols f" "width = 2"
        "g = put_cell (put_cell f row col (encode_cell (Some ch) style True False)) row (col + 1) (encode_cell None style False True)"
  proof (cases "fs_rows f \<le> row \<or> fs_cols f \<le> col \<or> raw = 0")
    case True
    then show ?thesis using sc none by (auto split: if_splits)
  next
    case in_grid: False
    show ?thesis
    proof (cases "raw > 1 \<and> col + 1 < fs_cols f")
      case True
      then show ?thesis using sc in_grid wide by simp
    next
      case False
      then have "(if raw > 1 \<and> col + 1 < fs_cols f then 2 else 1) = (1 :: nat)" by (rule if_not_P)
      then show ?thesis using sc in_grid narrow by simp
    qed
  qed
  then have "drawn f g \<and> (width = 0 \<longrightarrow> g = f) \<and> (0 < width \<longrightarrow> row < fs_rows f \<and> col + width \<le> fs_cols f \<and> width \<le> 2
    \<and> (\<forall>i < total_cells f. cell_at (fs_cells g) i
      = (if i = row * fs_cols f + col then encode_cell (Some ch) style (width = 2) False
         else if width = 2 \<and> i = row * fs_cols f + (col + 1) then encode_cell None style False True
         else cell_at (fs_cells f) i)))"
  proof cases
    case narrow
    then show ?thesis using put_cell_at[OF assms(1) narrow(1,2), of "encode_cell (Some ch) style False False"] by simp
  next
    case wide
    let ?c = "encode_cell (Some ch) style True False"
    let ?f = "put_cell f row col ?c"
    have col: "col < fs_cols f" using wide(2) by simp
    note one = put_cell_at[OF assms(1) wide(1) col length_encode_cell]
    have f: "fs_rows ?f = fs_rows f" "fs_cols ?f = fs_cols f" "total_cells ?f = total_cells f" "grid_sized ?f"
      using drawn_fields[OF one(1)] drawn_sized[OF one(1) assms(1)] by simp_all
    note two = put_cell_at[OF f(4), of row "col + 1" "encode_cell None style False True", unfolded f, OF wide(1,2) length_encode_cell]
    have at: "cell_at (fs_cells g) i = (if i = row * fs_cols f + col then ?c
        else if i = row * fs_cols f + (col + 1) then encode_cell None style False True else cell_at (fs_cells f) i)"
      if "i < total_cells f" for i
      unfolding wide(4) two(2)[OF that] using one(2)[OF that] by (simp only: if_distrib) (cases "i = row * fs_cols f + col"; simp)
    have "drawn f g" unfolding wide(4) by (rule drawn_trans[OF one(1) two(1)])
    then show ?thesis using at wide(1-3) by simp
  qed simp
  then show "drawn f g" "width = 0 \<Longrightarrow> g = f"
    "0 < width \<Longrightarrow> row < fs_rows f \<and> col + width \<le> fs_cols f \<and> width \<le> 2"
    "0 < width \<Longrightarrow> i < total_cells f \<Longrightarrow> cell_at (fs_cells g) i
      = (if i = row * fs_cols f + col then encode_cell (Some ch) style (width = 2) False
         else if width = 2 \<and> i = row * fs_cols f + (col + 1) then encode_cell None style False True
         else cell_at (fs_cells f) i)" by blast+
qed

subsection \<open>Drawing changes cells only\<close>

named_theorems draws_only

lemma drawn_fold:
  assumes "\<And>x g. grid_sized g \<Longrightarrow> drawn g (step x g)" "grid_sized f"
  shows "drawn f (fold step xs f)"
  using assms(2)
proof (induction xs arbitrary: f)
  case (Cons x xs)
  have one: "drawn f (step x f)" by (rule assms(1)[OF Cons.prems])
  from drawn_trans[OF one Cons.IH[OF drawn_sized[OF one Cons.prems]]] show ?case by simp
qed simp

lemma drawn_set_cell [draws_only]: "grid_sized f \<Longrightarrow> drawn f (fst (set_cell uw f row col ch style))"
  using set_cell_at(1)[of f uw row col ch style] by (cases "set_cell uw f row col ch style") auto

lemma drawn_fill_row [draws_only]: "grid_sized f \<Longrightarrow> drawn f (fill_row uw row col_end ch style col f)"
proof (induction uw row col_end ch style col f rule: fill_row.induct)
  case (1 uw row col_end ch style col f)
  obtain g w where g: "set_cell uw f row col ch style = (g, w)" by (cases "set_cell uw f row col ch style")
  have one: "drawn f g" by (rule set_cell_at(1)[OF "1.prems" g])
  show ?case
  proof (cases "col < col_end \<and> col < 65535 \<and> w \<noteq> 0")
    case True
    then have "drawn g (fill_row uw row col_end ch style (sat_add16 col w) g)"
      using "1.IH"[of "(g, w)" g w] g drawn_sized[OF one "1.prems"] by simp
    from drawn_trans[OF one this] show ?thesis using True g by (subst fill_row.simps) simp
  next
    case False
    then show ?thesis using one g by (subst fill_row.simps) auto
  qed
qed

lemma drawn_fill_rect [draws_only]: "grid_sized f \<Longrightarrow> drawn f (fill_rect uw f r ch style)"
  by (simp add: fill_rect_def Let_def drawn_fold draws_only)

lemma drawn_write_chars: "grid_sized f \<Longrightarrow> drawn f (fst (write_chars uw row style chs f col))"
proof (induction uw row style chs f col rule: write_chars.induct)
  case (2 uw row style ch chs f col)
  obtain g w where g: "set_cell uw f row col ch style = (g, w)" by (cases "set_cell uw f row col ch style")
  have one: "drawn f g" by (rule set_cell_at(1)[OF "2.prems" g])
  show ?case
    using "2.IH"[of "(g, w)" g w] g drawn_sized[OF one "2.prems"] drawn_trans[OF one] by (simp add: Let_def)
qed simp

lemma drawn_write_text [draws_only]: "grid_sized f \<Longrightarrow> drawn f (fst (write_text uw f row col text style))"
  by (simp add: write_text_def drawn_write_chars)

lemma drawn_write_lines [draws_only]: "grid_sized f \<Longrightarrow> drawn f (write_lines uw row col style ls f)"
  unfolding write_lines_def by (rule drawn_fold) (simp_all add: draws_only split: prod.split)

lemma drawn_write_wrapped [draws_only]: "grid_sized f \<Longrightarrow> drawn f (fst (write_wrapped_text uw uws f r text style))"
  by (simp add: write_wrapped_text_def Let_def draws_only)

lemma drawn_write_scrolling [draws_only]: "grid_sized f \<Longrightarrow> drawn f (write_scrolling_text uw uws f r ls offset style)"
proof -
  assume f: "grid_sized f"
  let ?blank = "fold (\<lambda>row f. fill_rect uw f \<lparr>r_row = (r_row r + row) mod 65536, r_col = r_col r, r_rows = 1,
                    r_cols = r_cols r\<rparr> [0x20] style) [0..<r_rows r] f"
  have one: "drawn f ?blank" by (rule drawn_fold[OF _ f]) (simp add: draws_only)
  have "drawn ?blank (write_lines uw (r_row r) (r_col r) style l ?blank)" for l
    by (rule drawn_write_lines[OF drawn_sized[OF one f]])
  from drawn_trans[OF one this] show ?thesis by (simp add: write_scrolling_text_def Let_def)
qed

lemma drawn_render_node [draws_only]: "grid_sized f \<Longrightarrow> drawn f (render_node uw uws n f)"
  by (cases n) (simp_all add: draws_only)

lemma drawn_blank: "grid_sized f \<Longrightarrow> drawn f (set_blank_cell f row col style)"
  using put_cell_at(1)[of f row col] by (simp add: set_blank_cell_def not_le)

lemma drawn_clear [draws_only]: "grid_sized f \<Longrightarrow> drawn f (frame_clear f style)"
  unfolding frame_clear_def by (rule drawn_fold) (rule drawn_fold, simp_all add: drawn_blank)

subsection \<open>Reading back\<close>

lemma cell_reads_back:
  assumes "grid_sized f" "row < fs_rows f" "col < fs_cols f" "is_char ch"
    and "cell_at (fs_cells f) (row * fs_cols f + col) = encode_cell (Some ch) style wide False"
  shows "cell_content f row col = ch"
proof -
  let ?i = "row * fs_cols f + col" and ?c = "encode_cell (Some ch) style wide False"
  have i: "?i < total_cells f" using assms(2,3) by (rule flat_index)
  have len: "length (fs_cells f) = total_cells f * CELL_SIZE" using assms(1) by (simp add: grid_sized_def)
  have f1: "fs_cells f ! (?i * CELL_SIZE + 1) = ?c ! 1"
    using nth_cell_at[OF i len, of 1] assms(5) by (simp add: CELL_SIZE_def)
  have n: "0 < length ch" "length ch \<le> 4" using is_char_length[OF assms(4)] by simp_all
  have u: "unat (word_of_nat (length ch) :: u8) = length ch" using n(2) by (simp add: unat_of_nat)
  then have "(word_of_nat (length ch) :: u8) \<noteq> 0" "(word_of_nat (length ch) :: u8) \<noteq> CONTENT_OVERFLOW"
    using n by (auto simp: CONTENT_OVERFLOW_def)
  moreover have "slice_of (fs_cells f) (?i * CELL_SIZE + 8) (length ch) = ch"
    using encode_cell_text(2)[OF assms(4), of style wide False] n(2) assms(5)
    by (simp add: cell_at_def slice_slice CELL_SIZE_def flip: assms(5))
  moreover have "from_utf8 ch = Some ch"
    using utf8_chars_concat[of "[ch]"] assms(4) by (simp add: from_utf8_def)
  ultimately show ?thesis
    using assms(2,3) encode_cell_text(1,3)[OF assms(4), of style wide False] u
    by (simp add: cell_content_def Let_def f1[simplified] from_utf8_def)
qed

lemma style_at_cell:
  assumes "grid_sized f" "row < fs_rows f" "col < fs_cols f"
  shows "cell_style_at f row col = style_of_cell (cell_at (fs_cells f) (row * fs_cols f + col))"
proof -
  let ?i = "row * fs_cols f + col"
  have i: "?i < total_cells f"
    using assms(2,3) by (rule flat_index)
  have nth: "cell_at (fs_cells f) ?i ! j = fs_cells f ! (?i * CELL_SIZE + j)" if "j < CELL_SIZE" for j
    by (rule nth_cell_at[OF i assms(1)[unfolded grid_sized_def] that])
  show ?thesis
    using assms(2,3) nth[of 0] nth[of 1] nth[of 2] nth[of 3] nth[of 4] nth[of 5] nth[of 6] nth[of 7]
    by (simp add: cell_style_at_def style_of_cell_def Let_def cell_offset_def decode_color_def CELL_SIZE_def
      numeral_eq_Suc)
qed

lemma flat_inj: "c < (w :: nat) \<Longrightarrow> d < w \<Longrightarrow> r * w + c = s * w + d \<longleftrightarrow> r = s \<and> c = d"
proof -
  assume cd: "c < w" "d < w"
  have "(r * w + c) div w = r" "(r * w + c) mod w = c" "(s * w + d) div w = s" "(s * w + d) mod w = d"
    using cd by simp_all
  then show ?thesis by metis
qed

text \<open>A character written in one column is there, with its style; the other columns keep theirs.\<close>

lemma set_cell_reads_back:
  assumes "grid_sized f" "is_char ch" "set_cell uw f row col ch style = (g, width)" "0 < width"
  shows "cell_content g row col = ch \<and> cell_style_at g row col = style"
proof -
  note s = set_cell_at[OF assms(1,3)]
  note d = drawn_fields[OF s(1)]
  have in_grid: "row < fs_rows f" "col < fs_cols f" using s(3)[OF assms(4)] assms(4) by simp_all
  have g: "grid_sized g" by (rule drawn_sized[OF s(1) assms(1)])
  have c: "cell_at (fs_cells g) (row * fs_cols g + col) = encode_cell (Some ch) style (width = 2) False"
    using s(4)[OF assms(4) flat_index[OF in_grid]] by (simp add: d)
  show ?thesis
    using cell_reads_back[OF g _ _ assms(2) c] style_at_cell[OF g] in_grid c
    by (simp add: d encode_cell_style)
qed

lemma set_cell_elsewhere:
  assumes "grid_sized f" "set_cell uw f row col ch style = (g, width)" "r < fs_rows f" "c < fs_cols f"
    and "\<not> (r = row \<and> col \<le> c \<and> c < col + width)"
  shows "cell_at (fs_cells g) (r * fs_cols f + c) = cell_at (fs_cells f) (r * fs_cols f + c)"
proof (cases "width = 0")
  case True
  then show ?thesis using set_cell_at(2)[OF assms(1,2)] by simp
next
  case False
  note s = set_cell_at[OF assms(1,2)]
  have in_grid: "row < fs_rows f" "col + width \<le> fs_cols f" "width \<le> 2" using s(3) False by simp_all
  have "r * fs_cols f + c \<noteq> row * fs_cols f + col"
    using flat_inj[of c "fs_cols f" col r row] assms(4,5) in_grid False by auto
  moreover have "width = 2 \<Longrightarrow> r * fs_cols f + c \<noteq> row * fs_cols f + (col + 1)"
    using flat_inj[of c "fs_cols f" "col + 1" r row] assms(4,5) in_grid by auto
  ultimately show ?thesis using s(4)[OF _ flat_index[OF assms(3,4)]] False by auto
qed

text \<open>Narrow text written from a column is the content of the columns it covers.\<close>

lemma write_chars_reads_back:
  assumes "grid_sized f" "\<forall>ch \<in> set chs. is_char ch \<and> uw ch = Some 1" "row < fs_rows f"
    and "col + length chs \<le> fs_cols f" "fs_cols f < 65536"
  shows "snd (write_chars uw row style chs f col) = col + length chs
    \<and> (\<forall>i < length chs. cell_at (fs_cells (fst (write_chars uw row style chs f col))) (row * fs_cols f + (col + i))
        = encode_cell (Some (chs ! i)) style False False)
    \<and> (\<forall>c < fs_cols f. c < col \<or> col + length chs \<le> c \<longrightarrow>
        cell_at (fs_cells (fst (write_chars uw row style chs f col))) (row * fs_cols f + c)
        = cell_at (fs_cells f) (row * fs_cols f + c))"
  using assms
proof (induction chs arbitrary: f col)
  case (Cons ch chs)
  obtain g w where g: "set_cell uw f row col ch style = (g, w)" by (cases "set_cell uw f row col ch style")
  have col: "col < fs_cols f" using Cons.prems(4) by simp
  have w: "w = 1" using g Cons.prems(2,3) col by (auto simp: set_cell_def Let_def)
  note s = set_cell_at[OF Cons.prems(1) g]
  note d = drawn_fields[OF s(1)]
  have sat: "sat_add16 col 1 = col + 1" using Cons.prems(4,5) by (simp add: sat_add16_def)
  have run: "write_chars uw row style (ch # chs) f col = write_chars uw row style chs g (col + 1)"
    using col w by (simp add: g sat[unfolded One_nat_def])
  have ih: "snd (write_chars uw row style chs g (col + 1)) = col + 1 + length chs
    \<and> (\<forall>i < length chs. cell_at (fs_cells (fst (write_chars uw row style chs g (col + 1)))) (row * fs_cols f + (col + 1 + i))
        = encode_cell (Some (chs ! i)) style False False)
    \<and> (\<forall>c < fs_cols f. c < col + 1 \<or> col + 1 + length chs \<le> c \<longrightarrow>
        cell_at (fs_cells (fst (write_chars uw row style chs g (col + 1)))) (row * fs_cols f + c)
        = cell_at (fs_cells g) (row * fs_cols f + c))"
    using Cons.IH[of g "col + 1"] Cons.prems drawn_sized[OF s(1) Cons.prems(1)] by (simp add: d)
  have here: "cell_at (fs_cells g) (row * fs_cols f + col) = encode_cell (Some ch) style False False"
    using s(4)[OF _ flat_index[OF Cons.prems(3) col]] w by simp
  have else_where: "cell_at (fs_cells g) (row * fs_cols f + c) = cell_at (fs_cells f) (row * fs_cols f + c)"
    if "c < fs_cols f" "c \<noteq> col" for c
    using set_cell_elsewhere[OF Cons.prems(1) g Cons.prems(3) that(1)] that(2) w by auto
  let ?h = "fst (write_chars uw row style chs g (col + 1))"
  have covered: "cell_at (fs_cells ?h) (row * fs_cols f + (col + i)) = encode_cell (Some ((ch # chs) ! i)) style False False"
    if "i < length (ch # chs)" for i
  proof (cases i)
    case 0
    then show ?thesis using ih here col by simp
  next
    case (Suc j)
    then have "j < length chs" "col + i = col + 1 + j" using that by simp_all
    then show ?thesis using ih Suc by simp
  qed
  have kept: "cell_at (fs_cells ?h) (row * fs_cols f + c) = cell_at (fs_cells f) (row * fs_cols f + c)"
    if "c < fs_cols f" "c < col \<or> col + length (ch # chs) \<le> c" for c
    using ih else_where[of c] that by auto
  show ?case unfolding run using ih covered kept by simp
qed simp

end
