(* ===== verification/Frame_Wrap.thy ===== *)
theory Frame_Wrap
  imports Frame_Text_Facts
begin

text \<open>
  Word wrapping: what \<open>wrap_text_lines\<close> keeps of a text (every character that is not white space, in
  order) and how wide its lines are.
\<close>

subsection \<open>Splitting\<close>

lemma split_where_neq [simp]: "split_where p xs \<noteq> []"
  by (cases xs) auto

lemma split_where_run: "\<forall>x \<in> set a. \<not> p x \<Longrightarrow> split_where p (a @ b) = (a @ hd (split_where p b)) # tl (split_where p b)"
  by (induction a) simp_all

lemma split_where_concat: "concat (split_where p xs) = filter (\<lambda>x. \<not> p x) xs"
proof (induction xs)
  case (Cons x xs)
  obtain y ys where s: "split_where p xs = y # ys" by (cases "split_where p xs") auto
  then show ?case using Cons by auto
qed simp

lemma split_where_parts: "w \<in> set (split_where p xs) \<Longrightarrow> x \<in> set w \<Longrightarrow> x \<in> set xs \<and> \<not> p x"
proof -
  assume "w \<in> set (split_where p xs)" "x \<in> set w"
  then have "x \<in> set (concat (split_where p xs))" by auto
  then show ?thesis unfolding split_where_concat by simp
qed

lemma newline_char: "is_char c \<Longrightarrow> 0x0A \<in> set c \<Longrightarrow> c = [0x0A]"
proof -
  assume c: "is_char c" and n: "0x0A \<in> set c"
  then obtain i where i: "i < length c" "c ! i = 0x0A" by (auto simp: in_set_conv_nth)
  have u: "utf8_next c = (length c, True)" using c by (simp add: is_char_def)
  have "i = 0"
  proof (rule ccontr)
    assume "i \<noteq> 0"
    then have "is_cont (0x0A :: u8)" using utf8_next_cont[OF u _ i(1)] i(2) by simp
    then show False by (simp add: is_cont_def)
  qed
  then obtain r where r: "c = 0x0A # r" using i by (cases c) auto
  then have "length c = 1" using u unfolding r utf8_next_iff by (simp add: char_width_def)
  then show ?thesis using r by simp
qed

text \<open>Splitting valid text at newline bytes is splitting it at newline characters.\<close>

lemma split_newlines:
  "\<forall>c \<in> set cs. is_char c \<Longrightarrow>
    split_where (\<lambda>b. b = 0x0A) (concat cs) = map concat (split_where (\<lambda>c. c = [0x0A]) cs)"
proof (induction cs)
  case (Cons c cs)
  obtain w ws where s: "split_where (\<lambda>c. c = [0x0A]) cs = w # ws" by (cases "split_where (\<lambda>c. c = [0x0A]) cs") auto
  have ih: "split_where (\<lambda>b. b = 0x0A) (concat cs) = concat w # map concat ws" using Cons s by simp
  show ?case
  proof (cases "c = [0x0A]")
    case True
    then show ?thesis using s ih by simp
  next
    case False
    then have "\<forall>x \<in> set c. x \<noteq> 0x0A" using newline_char[of c] Cons.prems by auto
    then show ?thesis using s ih False split_where_run[of c "\<lambda>b. b = 0x0A" "concat cs"] by simp
  qed
qed simp

subsection \<open>Words\<close>

abbreviation is_text :: "bytes \<Rightarrow> bool" where
  "is_text s \<equiv> utf8_valid s"

text \<open>The characters of a text that show.\<close>

definition visible_chars :: "bytes \<Rightarrow> bytes list" where
  "visible_chars s = filter (\<lambda>c. \<not> char_is_whitespace c) (utf8_chars s)"

lemma visible_chars_append: "is_text a \<Longrightarrow> visible_chars (a @ b) = visible_chars a @ visible_chars b"
  by (simp add: visible_chars_def utf8_chars_append)

lemma visible_chars_Nil [simp]: "visible_chars [] = []"
  by (simp add: visible_chars_def)

lemma space_char: "is_char [0x20]" "char_is_whitespace [0x20]" "utf8_chars [0x20] = [[0x20]]" "is_text [0x20]"
proof -
  show c: "is_char [0x20]" by (simp add: is_char_def char_width_def)
  show "char_is_whitespace [0x20]" by (simp add: char_is_whitespace_def)
  show "utf8_chars [0x20] = [[0x20]]" "is_text [0x20]" using utf8_chars_concat[of "[[0x20]]"] c by simp_all
qed

text \<open>A word: some characters, none of them white space.\<close>

definition is_word :: "bytes \<Rightarrow> bool" where
  "is_word w \<longleftrightarrow> (\<exists>cs. w = concat cs \<and> cs \<noteq> [] \<and> (\<forall>c \<in> set cs. is_char c \<and> \<not> char_is_whitespace c))"

lemma is_word_chars:
  assumes "is_word w"
  shows "is_text w" "visible_chars w = utf8_chars w" "w \<noteq> []"
    "\<forall>c \<in> set (utf8_chars w). is_char c \<and> \<not> char_is_whitespace c"
proof -
  obtain cs where cs: "w = concat cs" "cs \<noteq> []" "\<forall>c \<in> set cs. is_char c \<and> \<not> char_is_whitespace c"
    using assms by (auto simp: is_word_def)
  have u: "utf8_chars w = cs" "is_text w" using utf8_chars_concat[of cs] cs by simp_all
  show "is_text w" "\<forall>c \<in> set (utf8_chars w). is_char c \<and> \<not> char_is_whitespace c" using u cs(3) by simp_all
  show "visible_chars w = utf8_chars w" using u cs(3) by (simp add: visible_chars_def)
  show "w \<noteq> []" using u(1) cs(2) by auto
qed

lemma split_whitespace_words:
  assumes "is_text s"
  shows "\<forall>w \<in> set (split_whitespace s). is_word w \<and> set (utf8_chars w) \<subseteq> set (utf8_chars s)"
    "concat (map utf8_chars (split_whitespace s)) = visible_chars s"
proof -
  let ?p = "char_is_whitespace" and ?cs = "utf8_chars s"
  let ?ws = "filter (\<lambda>w. w \<noteq> []) (split_where ?p ?cs)"
  have chars: "\<forall>c \<in> set ?cs. is_char c" by (rule utf8_chars_are_chars[OF assms])
  have part: "c \<in> set ?cs \<and> \<not> ?p c \<and> is_char c" if "w \<in> set ?ws" "c \<in> set w" for w c
    using split_where_parts[of w ?p ?cs c] that chars by auto
  have u: "utf8_chars (concat w) = w" if "w \<in> set ?ws" for w
    using utf8_chars_concat[of w] part[OF that] by blast
  show "\<forall>w \<in> set (split_whitespace s). is_word w \<and> set (utf8_chars w) \<subseteq> set ?cs"
  proof
    fix x assume "x \<in> set (split_whitespace s)"
    then obtain w where w: "w \<in> set ?ws" "x = concat w" by (auto simp: split_whitespace_def)
    then show "is_word x \<and> set (utf8_chars x) \<subseteq> set ?cs"
      using part[OF w(1)] u[OF w(1)] by (auto simp: is_word_def intro!: exI[of _ w])
  qed
  have "map utf8_chars (split_whitespace s) = ?ws"
    unfolding split_whitespace_def map_map by (rule map_idI) (use u in auto)
  moreover have "concat (filter (\<lambda>w. w \<noteq> []) ws) = concat ws" for ws :: "bytes list list" by (induction ws) auto
  ultimately show "concat (map utf8_chars (split_whitespace s)) = visible_chars s"
    by (simp add: split_where_concat visible_chars_def)
qed

subsection \<open>Lines\<close>

text \<open>The columns a character takes, as \<open>push_wrapped_word\<close> counts them.\<close>

definition columns :: "(bytes \<Rightarrow> nat option) \<Rightarrow> bytes \<Rightarrow> nat" where
  "columns uw c = max (case uw c of Some w \<Rightarrow> w | None \<Rightarrow> 1) 1"

text \<open>
  The width of a line, counted as the wrapper counts it: a word that fits is as wide as \<open>uws\<close> says, a piece
  of a long word as wide as its characters together, and a word that follows costs one column more.
\<close>

inductive line_measure :: "(bytes \<Rightarrow> nat option) \<Rightarrow> (bytes \<Rightarrow> nat) \<Rightarrow> bytes \<Rightarrow> nat \<Rightarrow> bool" for uw uws where
  word: "is_word w \<Longrightarrow> line_measure uw uws w (uws w)"
| piece: "cs \<noteq> [] \<Longrightarrow> \<forall>c \<in> set cs. is_char c \<and> \<not> char_is_whitespace c \<Longrightarrow>
    line_measure uw uws (concat cs) (sum_list (map (columns uw) cs))"
| join: "line_measure uw uws l n \<Longrightarrow> is_word w \<Longrightarrow> line_measure uw uws (l @ [0x20] @ w) (n + 1 + uws w)"

lemma line_measure_ne: "line_measure uw uws l n \<Longrightarrow> l \<noteq> []"
proof (induction rule: line_measure.induct)
  case (piece cs)
  then show ?case using is_char_length by (cases cs) fastforce+
qed (simp_all add: is_word_chars)

text \<open>A line is empty, or no wider than asked for, or a single character.\<close>

definition line_fits :: "(bytes \<Rightarrow> nat option) \<Rightarrow> (bytes \<Rightarrow> nat) \<Rightarrow> nat \<Rightarrow> bytes \<Rightarrow> bool" where
  "line_fits uw uws width l \<longleftrightarrow> l = [] \<or> (\<exists>n. line_measure uw uws l n \<and> (n \<le> width \<or> is_char l))"

text \<open>
  The state of the wrapper: lines done and the current line are text, and the visible characters seen
  so far are those of the lines.
\<close>

definition wrapped :: "bytes list \<Rightarrow> wrap_state \<Rightarrow> bool" where
  "wrapped seen st \<longleftrightarrow> (case st of (out, line, line_width) \<Rightarrow> (\<forall>l \<in> set out. is_text l) \<and> is_text line
     \<and> concat (map visible_chars out) @ visible_chars line = seen)"

text \<open>Every line done fits, and the width of the current one is tracked.\<close>

definition fits :: "(bytes \<Rightarrow> nat option) \<Rightarrow> (bytes \<Rightarrow> nat) \<Rightarrow> nat \<Rightarrow> wrap_state \<Rightarrow> bool" where
  "fits uw uws width st \<longleftrightarrow> (case st of (out, line, line_width) \<Rightarrow> (\<forall>l \<in> set out. line_fits uw uws width l)
     \<and> (line = [] \<and> line_width = 0 \<or> line_measure uw uws line line_width \<and> (line_width \<le> width \<or> is_char line)))"

lemma fits_line: "fits uw uws width (out, line, lw) \<Longrightarrow> \<forall>l \<in> set (out @ [line]). line_fits uw uws width l"
  by (auto simp: fits_def line_fits_def)

lemma is_text_char: "is_char c \<Longrightarrow> is_text c"
  using utf8_chars_concat[of "[c]"] by simp

lemma visible_char: "is_char c \<Longrightarrow> visible_chars c = (if char_is_whitespace c then [] else [c])"
  using utf8_chars_concat[of "[c]"] by (simp add: visible_chars_def)

lemma push_chars_wrapped:
  assumes "wrapped seen st" "\<forall>c \<in> set cs. is_char c \<and> \<not> char_is_whitespace c"
  shows "wrapped (seen @ cs) (push_chars uw width cs st)"
  using assms
proof (induction uw width cs st arbitrary: seen rule: push_chars.induct)
  case (2 uw width ch chs out line line_width)
  let ?w = "max (case uw ch of Some w \<Rightarrow> w | None \<Rightarrow> 1) 1"
  have ch: "is_char ch" "\<not> char_is_whitespace ch" using "2.prems"(2) by simp_all
  have st: "\<forall>l \<in> set out. is_text l" "is_text line" "concat (map visible_chars out) @ visible_chars line = seen"
    using "2.prems"(1) by (simp_all add: wrapped_def)
  have fresh: "wrapped (seen @ [ch]) (out @ [line], ch, ?w)"
    using st ch by (simp add: wrapped_def is_text_char visible_char)
  have more: "wrapped (seen @ [ch]) (out, line @ ch, line_width + ?w)"
    using st ch by (auto simp: wrapped_def is_text_char visible_char visible_chars_append utf8_valid_append)
  have rest: "\<forall>c \<in> set chs. is_char c \<and> \<not> char_is_whitespace c" using "2.prems"(2) by simp
  show ?case
    using "2.IH"(1)[OF refl _ fresh rest] "2.IH"(2)[OF refl _ more rest] by (simp add: Let_def)
qed simp

lemma push_chars_fits:
  assumes "\<forall>l \<in> set out. line_fits uw uws width l" "\<forall>c \<in> set ds. is_char c \<and> \<not> char_is_whitespace c"
    and "sum_list (map (columns uw) ds) \<le> width \<or> length ds = 1" "\<forall>c \<in> set cs. is_char c \<and> \<not> char_is_whitespace c"
  shows "fits uw uws width (push_chars uw width cs (out, concat ds, sum_list (map (columns uw) ds)))"
  using assms
proof (induction cs arbitrary: out ds)
  case Nil
  have "ds = [] \<or> line_measure uw uws (concat ds) (sum_list (map (columns uw) ds))"
    using Nil.prems(2) line_measure.piece by blast
  moreover have "length ds = 1 \<Longrightarrow> is_char (concat ds)" using Nil.prems(2) by (cases ds) auto
  ultimately show ?case using Nil.prems(1,3) by (auto simp: fits_def)
next
  case (Cons ch cs)
  let ?n = "sum_list (map (columns uw) ds)"
  have ne: "concat ds = [] \<longleftrightarrow> ds = []" using Cons.prems(2) is_char_length by fastforce
  have run: "push_chars uw width (ch # cs) (out, concat ds, ?n) =
      (if ?n + columns uw ch > width \<and> ds \<noteq> [] then push_chars uw width cs (out @ [concat ds], concat [ch], sum_list (map (columns uw) [ch]))
       else push_chars uw width cs (out, concat (ds @ [ch]), sum_list (map (columns uw) (ds @ [ch]))))"
    using ne by (simp add: columns_def Let_def)
  show ?case
  proof (cases "?n + columns uw ch > width \<and> ds \<noteq> []")
    case True
    have "line_measure uw uws (concat ds) ?n" using True Cons.prems(2) line_measure.piece by blast
    moreover have "length ds = 1 \<Longrightarrow> is_char (concat ds)" using Cons.prems(2) by (cases ds) auto
    ultimately have "line_fits uw uws width (concat ds)" using Cons.prems(3) by (auto simp: line_fits_def)
    then show ?thesis unfolding run if_P[OF True] using Cons.prems by (intro Cons.IH) auto
  next
    case False
    then have "sum_list (map (columns uw) (ds @ [ch])) \<le> width \<or> length (ds @ [ch]) = 1" by auto
    then show ?thesis unfolding run if_not_P[OF False] using Cons.prems by (intro Cons.IH) auto
  qed
qed

lemma push_word_wrapped:
  assumes "wrapped seen st" "is_word w"
  shows "wrapped (seen @ utf8_chars w) (push_wrapped_word uw uws width w st)"
proof -
  obtain out line lw where st: "st = (out, line, lw)" by (cases st)
  note word = is_word_chars[OF assms(2)]
  have s: "\<forall>l \<in> set out. is_text l" "is_text line" "concat (map visible_chars out) @ visible_chars line = seen"
    using assms(1) by (simp_all add: wrapped_def st)
  have chars: "wrapped (seen @ utf8_chars w) (push_chars uw width (utf8_chars w) (out, line, lw))"
    by (rule push_chars_wrapped[OF assms(1)[unfolded st] word(4)])
  have "wrapped seen (out @ [line], [], 0)" using s by (simp add: wrapped_def)
  from push_chars_wrapped[OF this word(4)]
  have fresh: "wrapped (seen @ utf8_chars w) (push_chars uw width (utf8_chars w) (out @ [line], [], 0))" .
  have sp: "is_text (0x20 # w)" "visible_chars (0x20 # w) = utf8_chars w"
    using utf8_valid_append[OF space_char(4) word(1)] visible_chars_append[OF space_char(4), of w]
      visible_char[OF space_char(1)] space_char(2) word(2) by simp_all
  show ?thesis
    using s word(1,2) sp chars fresh utf8_valid_append[OF s(2) sp(1)] visible_chars_append[OF s(2), of "0x20 # w"]
    by (auto simp: push_wrapped_word_def st Let_def wrapped_def)
qed

lemma push_word_fits:
  assumes "fits uw uws width st" "is_word w"
  shows "fits uw uws width (push_wrapped_word uw uws width w st)"
proof -
  obtain out line lw where st: "st = (out, line, lw)" by (cases st)
  have f: "\<forall>l \<in> set out. line_fits uw uws width l"
    "line = [] \<and> lw = 0 \<or> line_measure uw uws line lw \<and> (lw \<le> width \<or> is_char line)"
    using assms(1) by (simp_all add: fits_def st)
  note done_lines = fits_line[OF assms(1)[unfolded st]]
  have chars: "fits uw uws width (push_chars uw width (utf8_chars w) (ls, [], 0))" if "\<forall>l \<in> set ls. line_fits uw uws width l" for ls
    using push_chars_fits[OF that, of "[]" "utf8_chars w"] is_word_chars(4)[OF assms(2)] by simp
  have alone: "fits uw uws width (ls, w, uws w)" if "\<forall>l \<in> set ls. line_fits uw uws width l" "uws w \<le> width" for ls
    using that line_measure.word[OF assms(2)] by (simp add: fits_def)
  have joined: "fits uw uws width (out, line @ [0x20] @ w, lw + (1 + uws w))" if "line \<noteq> []" "lw + 1 + uws w \<le> width"
    using f that line_measure.join[OF _ assms(2), of uw uws line lw] by (simp add: fits_def)
  show ?thesis
    using chars[OF f(1)] chars[OF done_lines] alone[OF f(1)] alone[OF done_lines] joined f(2) line_measure_ne[of uw uws line]
    by (auto simp: push_wrapped_word_def st Let_def)
qed

lemma fold_words:
  assumes "wrapped seen st" "\<forall>w \<in> set ws. is_word w"
  shows "wrapped (seen @ concat (map utf8_chars ws)) (fold (push_wrapped_word uw uws width) ws st)"
    "fits uw uws width st \<Longrightarrow> fits uw uws width (fold (push_wrapped_word uw uws width) ws st)"
  using assms
proof (induction ws arbitrary: seen st)
  case (Cons w ws)
  {
    case 1
    then show ?case using Cons.IH(1)[OF push_word_wrapped[of seen st w]] by simp
  next
    case 2
    then have "fits uw uws width (push_wrapped_word uw uws width w st)"
      using push_word_fits[of uw uws width st w] by simp
    then show ?case using 2 Cons.IH(2)[OF _ push_word_wrapped[of seen st w]] by simp
  }
qed simp_all

text \<open>The lines of one paragraph.\<close>

lemma wrap_paragraph_lines:
  assumes "is_text para" "\<forall>l \<in> set out. is_text l"
    and ls_def: "ls = wrap_paragraph uw uws width para out"
  shows "\<forall>l \<in> set ls. is_text l" "concat (map visible_chars ls) = concat (map visible_chars out) @ visible_chars para"
    "\<forall>l \<in> set out. line_fits uw uws width l \<Longrightarrow> \<forall>l \<in> set ls. line_fits uw uws width l"
proof -
  let ?run = "fold (push_wrapped_word uw uws width) (split_whitespace para) (out, [], 0)"
  note words = split_whitespace_words[OF assms(1)]
  have start: "wrapped (concat (map visible_chars out)) (out, [], 0)" using assms(2) by (simp add: wrapped_def)
  obtain o2 line lw where run: "?run = (o2, line, lw)" by (cases ?run)
  have "wrapped (concat (map visible_chars out) @ visible_chars para) ?run"
    using fold_words(1)[OF start, of "split_whitespace para" uw uws width] words by simp
  then have w: "\<forall>l \<in> set o2. is_text l" "is_text line"
    "concat (map visible_chars o2) @ visible_chars line = concat (map visible_chars out) @ visible_chars para"
    by (simp_all add: wrapped_def run)
  have ls: "ls = (if para = [] then out @ [[]] else if line \<noteq> [] then o2 @ [line] else o2)"
    by (simp add: ls_def wrap_paragraph_def run)
  show "\<forall>l \<in> set ls. is_text l" using assms(2) w by (simp add: ls)
  show "concat (map visible_chars ls) = concat (map visible_chars out) @ visible_chars para" using w by (auto simp: ls)
  assume narrow: "\<forall>l \<in> set out. line_fits uw uws width l"
  have "fits uw uws width (out, [], 0)" using narrow by (simp add: fits_def)
  from fold_words(2)[OF start _ this] have "fits uw uws width (o2, line, lw)" using words(1) by (simp flip: run)
  from fits_line[OF this] show "\<forall>l \<in> set ls. line_fits uw uws width l"
    using narrow by (auto simp: ls line_fits_def)
qed

lemma fold_paragraphs:
  assumes "\<forall>x \<in> set ps. is_text x" "\<forall>l \<in> set out. is_text l"
  shows "\<forall>l \<in> set (fold (wrap_paragraph uw uws width) ps out). is_text l"
    "concat (map visible_chars (fold (wrap_paragraph uw uws width) ps out))
      = concat (map visible_chars out) @ concat (map visible_chars ps)"
    "\<forall>l \<in> set out. line_fits uw uws width l \<Longrightarrow>
      \<forall>l \<in> set (fold (wrap_paragraph uw uws width) ps out). line_fits uw uws width l"
  using assms
proof (induction ps arbitrary: out)
  case (Cons x ps)
  {
    case 1
    then show ?case using Cons.IH(1)[OF _ wrap_paragraph_lines(1)[of x out _ uw uws width, OF _ _ refl]] by simp
  next
    case 2
    then show ?case
      using Cons.IH(2)[OF _ wrap_paragraph_lines(1)[of x out _ uw uws width, OF _ _ refl]] wrap_paragraph_lines(2)[of x out _ uw uws width, OF _ _ refl]
      by simp
  next
    case 3
    then show ?case
      using Cons.IH(3)[OF wrap_paragraph_lines(3)[of x out _ uw uws width, OF _ _ refl] _ wrap_paragraph_lines(1)[of x out _ uw uws width, OF _ _ refl]]
      by simp
  }
qed simp_all

lemma wrap_text_lines_keeps:
  assumes "is_text s" "0 < width"
  shows "concat (map visible_chars (wrap_text_lines uw uws s width)) = visible_chars s"
    "\<forall>l \<in> set (wrap_text_lines uw uws s width). line_fits uw uws width l"
proof -
  let ?cs = "utf8_chars s" and ?p = "\<lambda>c. c = [0x0A :: u8]"
  let ?ps = "split_where (\<lambda>b. b = 0x0A) s"
  have chars: "\<forall>c \<in> set ?cs. is_char c" by (rule utf8_chars_are_chars[OF assms(1)])
  have ps: "?ps = map concat (split_where ?p ?cs)"
    using split_newlines[OF chars] utf8_valid_concat_chars[OF assms(1)] by simp
  have part: "w \<in> set (split_where ?p ?cs) \<Longrightarrow> utf8_chars (concat w) = w \<and> is_text (concat w) \<and> set w \<subseteq> set ?cs" for w
    using split_where_parts[of w ?p ?cs] chars utf8_chars_concat[of w] by blast
  have parts: "\<forall>x \<in> set ?ps. is_text x \<and> set (utf8_chars x) \<subseteq> set ?cs" using part by (auto simp: ps)
  let ?out = "fold (wrap_paragraph uw uws width) ?ps []"
  have lines: "wrap_text_lines uw uws s width = (if ?out = [] then [[]] else ?out)"
    using assms(2) by (simp add: wrap_text_lines_def Let_def)
  have ws: "char_is_whitespace [0x0A]" by (simp add: char_is_whitespace_def)
  have "concat (map visible_chars ?ps) = concat (map (filter (\<lambda>c. \<not> char_is_whitespace c)) (split_where ?p ?cs))"
    using part by (simp add: ps comp_def visible_chars_def cong: map_cong)
  also have "\<dots> = filter (\<lambda>c. \<not> char_is_whitespace c) (concat (split_where ?p ?cs))" by (simp only: filter_concat)
  also have "\<dots> = visible_chars s"
    unfolding split_where_concat visible_chars_def by (auto simp: ws intro!: filter_cong)
  finally have vis: "concat (map visible_chars ?ps) = visible_chars s" .
  have base: "\<forall>x \<in> set ?ps. is_text x" "\<forall>l \<in> set ([] :: bytes list). is_text l" using parts by simp_all
  show "concat (map visible_chars (wrap_text_lines uw uws s width)) = visible_chars s"
    using fold_paragraphs(2)[OF base, of uw uws width] vis by (auto simp: lines)
  show "\<forall>l \<in> set (wrap_text_lines uw uws s width). line_fits uw uws width l"
    using fold_paragraphs(3)[OF base, of uw uws width] by (simp add: lines) (simp add: line_fits_def)
qed

end
