(* ===== verification/Frame_Paint.thy ===== *)
theory Frame_Paint
  imports Frame_Text_Facts
begin

text \<open>
  What a node of the display list paints: the cells it may reach, and what a filled rectangle and a line
  of text leave in the cells they cover.
\<close>

definition grid_cell :: "frame_state \<Rightarrow> nat \<Rightarrow> nat \<Rightarrow> bytes" where
  "grid_cell f row col = cell_at (fs_cells f) (row * fs_cols f + col)"

subsection \<open>Cells a node may reach\<close>

text \<open>\<open>g\<close> is \<open>f\<close> with other bytes in the cells of the region \<open>A\<close>.\<close>

definition paints :: "(nat \<Rightarrow> nat \<Rightarrow> bool) \<Rightarrow> frame_state \<Rightarrow> frame_state \<Rightarrow> bool" where
  "paints A f g \<longleftrightarrow> drawn f g \<and>
     (\<forall>row < fs_rows f. \<forall>col < fs_cols f. \<not> A row col \<longrightarrow> grid_cell g row col = grid_cell f row col)"

lemma paints_refl [simp]: "paints A f f"
  by (simp add: paints_def)

lemma paints_trans: "paints A f g \<Longrightarrow> paints B g h \<Longrightarrow> paints (\<lambda>row col. A row col \<or> B row col) f h"
  using drawn_trans[of f g h] by (auto simp: paints_def drawn_fields(1,2)[of f g])

lemma paints_mono: "paints A f g \<Longrightarrow> (\<And>row col. A row col \<Longrightarrow> B row col) \<Longrightarrow> paints B f g"
  by (auto simp: paints_def)

lemma paints_both: "paints A f g \<Longrightarrow> paints A g h \<Longrightarrow> paints A f h"
  using paints_trans[of A f g A h] by simp

lemma paints_sized: "paints A f g \<Longrightarrow> grid_sized f \<Longrightarrow> grid_sized g"
  by (auto simp: paints_def drawn_sized)

lemma paints_fold:
  assumes "\<And>x g. x \<in> set xs \<Longrightarrow> grid_sized g \<Longrightarrow> paints A g (step x g)" "grid_sized f"
  shows "paints A f (fold step xs f)"
  using assms
proof (induction xs arbitrary: f)
  case (Cons x xs)
  have one: "paints A f (step x f)" by (rule Cons.prems(1)) (simp_all add: Cons.prems(2))
  have "paints A (step x f) (fold step xs (step x f))"
    by (rule Cons.IH) (simp_all add: Cons.prems(1) paints_sized[OF one Cons.prems(2)])
  from paints_both[OF one this] show ?case by simp
qed simp

lemma paints_set_cell:
  assumes "grid_sized f"
  shows "paints (\<lambda>r c. r = row \<and> col \<le> c \<and> c \<le> col + 1) f (fst (set_cell uw f row col ch style))"
proof -
  obtain g w where g: "set_cell uw f row col ch style = (g, w)" by (cases "set_cell uw f row col ch style")
  note s = set_cell_at[OF assms g]
  have "w \<le> 2" using s(3) by (cases "w = 0") auto
  then have "grid_cell g r c = grid_cell f r c"
    if "r < fs_rows f" "c < fs_cols f" "\<not> (r = row \<and> col \<le> c \<and> c \<le> col + 1)" for r c
    using set_cell_elsewhere[OF assms g that(1,2)] that(3) drawn_fields(2)[OF s(1)] by (auto simp: grid_cell_def)
  then show ?thesis using s(1) by (auto simp: paints_def g)
qed

lemma paints_fill_row:
  "grid_sized f \<Longrightarrow> paints (\<lambda>r c. r = row \<and> col \<le> c \<and> c \<le> col_end) f (fill_row uw row col_end ch style col f)"
proof (induction uw row col_end ch style col f rule: fill_row.induct)
  case (1 uw row col_end ch style col f)
  obtain g w where g: "set_cell uw f row col ch style = (g, w)" by (cases "set_cell uw f row col ch style")
  show ?case
  proof (cases "col < col_end \<and> col < 65535")
    case True
    have one: "paints (\<lambda>r c. r = row \<and> col \<le> c \<and> c \<le> col_end) f g"
      using paints_set_cell[OF "1.prems", of row col uw ch style] True g by (auto intro: paints_mono)
    show ?thesis
    proof (cases "w = 0")
      case zero: False
      have "paints (\<lambda>r c. r = row \<and> sat_add16 col w \<le> c \<and> c \<le> col_end) g (fill_row uw row col_end ch style (sat_add16 col w) g)"
        using "1.IH"[of "(g, w)" g w] True zero g paints_sized[OF one "1.prems"] by simp
      then have "paints (\<lambda>r c. r = row \<and> col \<le> c \<and> c \<le> col_end) g (fill_row uw row col_end ch style (sat_add16 col w) g)"
        using True by (auto intro: paints_mono simp: sat_add16_def)
      from paints_both[OF one this] show ?thesis using True zero g by (subst fill_row.simps) simp
    next
      case w: True
      then show ?thesis using one True g by (subst fill_row.simps) simp
    qed
  next
    case False
    then show ?thesis by (subst fill_row.simps) auto
  qed
qed

lemma paints_fill_rect:
  assumes "grid_sized f"
  shows "paints (\<lambda>row col. r_row r \<le> row \<and> row < r_row r + r_rows r \<and> r_col r \<le> col \<and> col \<le> r_col r + r_cols r)
    f (fill_rect uw f r ch style)"
  unfolding fill_rect_def Let_def
proof (rule paints_fold[OF _ assms])
  fix x g
  assume x: "x \<in> set [r_row r..<min (sat_add16 (r_row r) (r_rows r)) (fs_rows f)]" and g: "grid_sized g"
  then have "r_row r \<le> x" "x < r_row r + r_rows r" using sat_add16_le[of "r_row r" "r_rows r"] by auto
  moreover have "min (sat_add16 (r_col r) (r_cols r)) (fs_cols f) \<le> r_col r + r_cols r"
    using sat_add16_le[of "r_col r" "r_cols r"] by simp
  ultimately show "paints (\<lambda>row col. r_row r \<le> row \<and> row < r_row r + r_rows r \<and> r_col r \<le> col \<and> col \<le> r_col r + r_cols r)
      g (fill_row uw x (min (sat_add16 (r_col r) (r_cols r)) (fs_cols f)) ch style (r_col r) g)"
    using paints_fill_row[OF g] by (rule_tac paints_mono[OF paints_fill_row[OF g]]) auto
qed

lemma paints_cols: "paints A f g \<Longrightarrow> fs_cols g = fs_cols f"
  by (simp add: paints_def drawn_fields)

lemma paints_write_chars:
  "grid_sized f \<Longrightarrow> fs_cols f < 65536 \<Longrightarrow> paints (\<lambda>r c. r = row \<and> col \<le> c) f (fst (write_chars uw row style chs f col))"
proof (induction uw row style chs f col rule: write_chars.induct)
  case (2 uw row style ch chs f col)
  obtain g w where g: "set_cell uw f row col ch style = (g, w)" by (cases "set_cell uw f row col ch style")
  have one: "paints (\<lambda>r c. r = row \<and> col \<le> c) f g"
    using paints_set_cell[OF "2.prems"(1), of row col uw ch style] g by (auto intro: paints_mono)
  have sized: "grid_sized g" "fs_cols g < 65536"
    using paints_sized[OF one "2.prems"(1)] paints_cols[OF one] "2.prems"(2) by simp_all
  show ?case
  proof (cases "fs_cols f \<le> col")
    case False
    show ?thesis
    proof (cases "w = 0")
      case True
      have "paints (\<lambda>r c. r = row \<and> col \<le> c) g (fst (write_chars uw row style chs g col))"
        using "2.IH"(1)[of "(g, w)" g w] False True g sized by simp
      from paints_both[OF one this] show ?thesis using False True g by simp
    next
      case w: False
      have "col \<le> sat_add16 col w" using False "2.prems"(2) by (simp add: sat_add16_def)
      moreover have "paints (\<lambda>r c. r = row \<and> sat_add16 col w \<le> c) g (fst (write_chars uw row style chs g (sat_add16 col w)))"
        using "2.IH"(2)[of "(g, w)" g w] False w g sized by simp
      ultimately have "paints (\<lambda>r c. r = row \<and> col \<le> c) g (fst (write_chars uw row style chs g (sat_add16 col w)))"
        by (auto intro: paints_mono)
      from paints_both[OF one this] show ?thesis using False w g by simp
    qed
  qed simp
qed simp

lemma paints_write_text:
  "grid_sized f \<Longrightarrow> fs_cols f < 65536 \<Longrightarrow> paints (\<lambda>r c. r = row \<and> col \<le> c) f (fst (write_text uw f row col text style))"
  by (simp add: write_text_def paints_write_chars)

text \<open>The same for a fold whose steps also need the width of a frame to be a \<open>u16\<close>.\<close>

lemma paints_fold16:
  assumes "\<And>x g. x \<in> set xs \<Longrightarrow> grid_sized g \<Longrightarrow> fs_cols g < 65536 \<Longrightarrow> paints A g (step x g)"
    and "grid_sized f" "fs_cols f < 65536"
  shows "paints A f (fold step xs f)"
  using assms
proof (induction xs arbitrary: f)
  case (Cons x xs)
  have one: "paints A f (step x f)" by (rule Cons.prems(1)) (simp_all add: Cons.prems(2,3))
  have "paints A (step x f) (fold step xs (step x f))"
    by (rule Cons.IH) (simp_all add: Cons.prems paints_sized[OF one] paints_cols[OF one])
  from paints_both[OF one this] show ?case by simp
qed simp

lemma paints_write_lines:
  assumes "grid_sized f" "fs_cols f < 65536"
  shows "paints (\<lambda>r c. (\<exists>i < length ls. r = (row + i) mod 65536) \<and> col \<le> c) f (write_lines uw row col style ls f)"
  unfolding write_lines_def
proof (rule paints_fold16[OF _ assms])
  fix x g
  assume x: "x \<in> set (enumerate 0 ls)" and g: "grid_sized g" "fs_cols g < 65536"
  obtain i line where il: "x = (i, line)" by (cases x)
  then have i: "x = (i, line)" "i < length ls" using x by (simp_all add: in_set_enumerate_eq)
  show "paints (\<lambda>r c. (\<exists>i < length ls. r = (row + i) mod 65536) \<and> col \<le> c) g
      ((\<lambda>(idx, line) f. fst (write_text uw f ((row + idx) mod 65536) col line style)) x g)"
    using paints_write_text[OF g, of "(row + i) mod 65536" col uw line style] i by (auto intro: paints_mono)
qed

text \<open>The cells a node may reach: its rows, from its first column on; the columns of a fill end one past its width.\<close>

fun node_area :: "node \<Rightarrow> nat \<Rightarrow> nat \<Rightarrow> bool" where
  "node_area (FillNode r ch style) row col \<longleftrightarrow> r_row r \<le> row \<and> row < r_row r + r_rows r
     \<and> r_col r \<le> col \<and> col \<le> r_col r + r_cols r"
| "node_area (TextNode row0 col0 text style) row col \<longleftrightarrow> row = row0 \<and> col0 \<le> col"
| "node_area (WrappedTextNode r text style) row col \<longleftrightarrow>
     row \<in> (\<lambda>i. (r_row r + i) mod 65536) ` {0..<r_rows r} \<and> r_col r \<le> col"
| "node_area (ScrollingTextNode r ls offset style) row col \<longleftrightarrow>
     row \<in> (\<lambda>i. (r_row r + i) mod 65536) ` {0..<r_rows r} \<and> r_col r \<le> col"

lemma paints_node:
  assumes "grid_sized f" "fs_cols f < 65536"
  shows "paints (node_area n) f (render_node uw uws n f)"
proof (cases n)
  case (FillNode r ch style)
  then show ?thesis using paints_fill_rect[OF assms(1), of r uw ch style] by (auto intro: paints_mono)
next
  case (TextNode row col t style)
  then show ?thesis using paints_write_text[OF assms, of row col uw t style] by (auto intro: paints_mono)
next
  case (WrappedTextNode r t style)
  have "paints (node_area n) f (write_lines uw (r_row r) (r_col r) style (take k ls) f)" if "k \<le> r_rows r" for k ls
    by (rule paints_mono[OF paints_write_lines[OF assms]]) (use that in \<open>auto simp: WrappedTextNode\<close>)
  then show ?thesis by (simp add: WrappedTextNode write_wrapped_text_def Let_def)
next
  case (ScrollingTextNode r ls offset style)
  let ?blank = "fold (\<lambda>row f. fill_rect uw f \<lparr>r_row = (r_row r + row) mod 65536, r_col = r_col r, r_rows = 1,
                    r_cols = r_cols r\<rparr> [0x20] style) [0..<r_rows r] f"
  have one: "paints (node_area n) f ?blank"
    by (rule paints_fold[OF _ assms(1)], rule paints_mono[OF paints_fill_rect])
      (auto simp: ScrollingTextNode less_Suc_eq_le dest: order_antisym)
  have "paints (node_area n) ?blank (write_lines uw (r_row r) (r_col r) style (slice_of xs a k) ?blank)"
    if "k \<le> r_rows r" for xs a k
    by (rule paints_mono[OF paints_write_lines[OF paints_sized[OF one assms(1)]]])
      (use that assms(2) paints_cols[OF one] in \<open>auto simp: ScrollingTextNode slice_of_def\<close>)
  from paints_both[OF one this] show ?thesis by (simp add: ScrollingTextNode write_scrolling_text_def Let_def)
qed

lemma paints_nodes:
  assumes "grid_sized f" "fs_cols f < 65536"
  shows "paints (\<lambda>row col. \<exists>n \<in> set ns. node_area n row col) f (fold (render_node uw uws) ns f)"
  by (rule paints_fold16[OF _ assms], rule paints_mono[OF paints_node]) auto

subsection \<open>What is left in the cells\<close>

lemma clear_cells:
  assumes "grid_sized f" "row < fs_rows f" "col < fs_cols f"
  shows "grid_cell (frame_clear f style) row col = encode_cell None style False False"
proof -
  let ?b = "encode_cell None style False False"
  have blank: "drawn g (set_blank_cell g r c style)"
    "row < fs_rows g \<Longrightarrow> col < fs_cols g \<Longrightarrow> grid_cell (set_blank_cell g r c style) row col
      = (if r = row \<and> c = col then ?b else grid_cell g row col)" if "grid_sized g" for g r c
  proof -
    show d: "drawn g (set_blank_cell g r c style)" by (rule drawn_blank[OF that])
    show "grid_cell (set_blank_cell g r c style) row col = (if r = row \<and> c = col then ?b else grid_cell g row col)"
      if "row < fs_rows g" "col < fs_cols g"
      using that put_cell_at(2)[OF \<open>grid_sized g\<close>, of r c ?b "row * fs_cols g + col"] flat_index[OF that]
        flat_inj[of col "fs_cols g" c row r] drawn_fields(2)[OF d]
      by (auto simp: grid_cell_def set_blank_cell_def)
  qed
  have cols: "drawn g (fold (\<lambda>c f. set_blank_cell f r c style) cs g) \<and>
      (row < fs_rows g \<longrightarrow> col < fs_cols g \<longrightarrow> grid_cell (fold (\<lambda>c f. set_blank_cell f r c style) cs g) row col
        = (if r = row \<and> col \<in> set cs then ?b else grid_cell g row col))" if "grid_sized g" for g r cs
    using that
  proof (induction cs arbitrary: g)
    case (Cons c cs)
    note one = blank[OF Cons.prems, of r c]
    show ?case
      using Cons.IH[OF drawn_sized[OF one(1) Cons.prems]] one drawn_trans[OF one(1)] by (auto simp: drawn_fields[OF one(1)])
  qed simp
  have rows: "drawn g (fold (\<lambda>r f. fold (\<lambda>c f. set_blank_cell f r c style) [0..<fs_cols f] f) rs g) \<and>
      (row < fs_rows g \<longrightarrow> col < fs_cols g \<longrightarrow>
        grid_cell (fold (\<lambda>r f. fold (\<lambda>c f. set_blank_cell f r c style) [0..<fs_cols f] f) rs g) row col
        = (if row \<in> set rs then ?b else grid_cell g row col))" if "grid_sized g" for g rs
    using that
  proof (induction rs arbitrary: g)
    case (Cons r rs)
    note one = cols[OF Cons.prems, of r "[0..<fs_cols g]"]
    note d = conjunct1[OF one]
    show ?case
      using Cons.IH[OF drawn_sized[OF d Cons.prems]] one drawn_trans[OF d] by (auto simp: drawn_fields[OF d])
  qed simp
  show ?thesis using rows[OF assms(1), of "[0..<fs_rows f]"] assms(2,3) by (simp add: frame_clear_def)
qed

text \<open>A fill with a narrow character: the part of the rectangle inside the grid.\<close>

lemma fill_row_cells:
  assumes "grid_sized f" "fs_cols f < 65536" "uw ch = Some 1" "row < fs_rows f" "col_end \<le> fs_cols f"
    and "col \<le> c" "c < col_end"
  shows "grid_cell (fill_row uw row col_end ch style col f) row c = encode_cell (Some ch) style False False"
  using assms
proof (induction uw row col_end ch style col f rule: fill_row.induct)
  case (1 uw row col_end ch style col f)
  obtain g w where g: "set_cell uw f row col ch style = (g, w)" by (cases "set_cell uw f row col ch style")
  have col: "col < col_end" "col < 65535" "col < fs_cols f" using "1.prems" by simp_all
  have w: "w = 1" using g "1.prems"(3,4) col by (auto simp: set_cell_def Let_def)
  have sat: "sat_add16 col 1 = col + 1" using col by (simp add: sat_add16_def)
  note s = set_cell_at[OF "1.prems"(1) g]
  note d = drawn_fields[OF s(1)]
  have g': "grid_sized g" by (rule drawn_sized[OF s(1) "1.prems"(1)])
  have run: "fill_row uw row col_end ch style col f = fill_row uw row col_end ch style (col + 1) g"
    by (subst fill_row.simps) (simp add: g col w sat[unfolded One_nat_def])
  show ?case
  proof (cases "c = col")
    case True
    have "grid_cell g row col = encode_cell (Some ch) style False False"
      using s(4)[OF _ flat_index[OF "1.prems"(4) col(3)]] w by (simp add: grid_cell_def d)
    moreover have "grid_cell (fill_row uw row col_end ch style (col + 1) g) row col = grid_cell g row col"
      using paints_fill_row[OF g', of row "col + 1" col_end uw ch style] "1.prems"(4) col(3) by (simp add: paints_def d)
    ultimately show ?thesis using run True by simp
  next
    case False
    then have "col + 1 \<le> c" using "1.prems"(6) by simp
    then show ?thesis
      using "1.IH"[of "(g, w)" g w] g' "1.prems" col w sat by (simp add: run g d)
  qed
qed

lemma fill_rect_cells:
  assumes "grid_sized f" "fs_cols f < 65536" "fs_rows f < 65536" "uw ch = Some 1"
    and "row < fs_rows f" "col < fs_cols f"
    and "r_row r \<le> row" "row < r_row r + r_rows r" "r_col r \<le> col" "col < r_col r + r_cols r"
  shows "grid_cell (fill_rect uw f r ch style) row col = encode_cell (Some ch) style False False"
proof -
  let ?e = "min (sat_add16 (r_col r) (r_cols r)) (fs_cols f)"
  let ?fill = "\<lambda>row. fill_row uw row ?e ch style (r_col r)"
  have e: "?e \<le> fs_cols f" "col < ?e" using assms(2,6,10) by (auto simp: sat_add16_def)
  have rows: "row \<in> set rs \<longrightarrow> grid_cell (fold ?fill rs g) row col = encode_cell (Some ch) style False False"
    if "grid_sized g" "fs_cols g = fs_cols f" "fs_rows g = fs_rows f" for g rs
    using that
  proof (induction rs arbitrary: g rule: rev_induct)
    case (snoc x rs)
    have d: "drawn g (fold ?fill rs g)" by (rule drawn_fold[OF drawn_fill_row snoc.prems(1)])
    let ?g = "fold ?fill rs g"
    have g: "grid_sized ?g" "fs_cols ?g = fs_cols f" "fs_rows ?g = fs_rows f"
      using drawn_sized[OF d snoc.prems(1)] snoc.prems(2,3) by (simp_all add: drawn_fields[OF d])
    show ?case
    proof (cases "x = row")
      case True
      then show ?thesis
        using fill_row_cells[OF g(1), of uw ch row ?e "r_col r" col style] g e assms(2,4,5,9) by simp
    next
      case False
      then have "grid_cell (?fill x ?g) row col = grid_cell ?g row col"
        using paints_fill_row[OF g(1), of x "r_col r" ?e uw ch style] g(2,3) assms(5,6) by (simp add: paints_def)
      then show ?thesis using snoc.IH[OF snoc.prems] False by simp
    qed
  qed simp
  have "row \<in> set [r_row r..<min (sat_add16 (r_row r) (r_rows r)) (fs_rows f)]"
    using assms(3,5,7,8) by (auto simp: sat_add16_def)
  then show ?thesis using rows[OF assms(1) refl refl] by (simp add: fill_rect_def Let_def)
qed

text \<open>Narrow text that fits its row.\<close>

lemma write_text_cells:
  assumes "grid_sized f" "fs_cols f < 65536" "utf8_valid s" "\<forall>ch \<in> set (utf8_chars s). uw ch = Some 1"
    and "row < fs_rows f" "col + length (utf8_chars s) \<le> fs_cols f" "i < length (utf8_chars s)"
  shows "grid_cell (fst (write_text uw f row col s style)) row (col + i)
    = encode_cell (Some (utf8_chars s ! i)) style False False"
proof -
  have "\<forall>ch \<in> set (utf8_chars s). is_char ch \<and> uw ch = Some 1" using utf8_chars_are_chars[OF assms(3)] assms(4) by blast
  note w = write_chars_reads_back[OF assms(1) this assms(5,6,2), of style]
  have "write_text uw f row col s style = write_chars uw row style (utf8_chars s) f col"
    using assms(5-7) by (simp add: write_text_def)
  then show ?thesis
    using w assms(7) drawn_fields(2)[OF drawn_write_chars[OF assms(1)]] by (simp add: grid_cell_def)
qed

subsection \<open>Wrapped and scrolling text\<close>

text \<open>Lines of text, one under the other.\<close>

definition line_nodes :: "nat \<Rightarrow> nat \<Rightarrow> cell_style \<Rightarrow> bytes list \<Rightarrow> node list" where
  "line_nodes row col style ls = map (\<lambda>(i, l). TextNode ((row + i) mod 65536) col l style) (enumerate 0 ls)"

lemma write_lines_nodes: "write_lines uw row col style ls f = fold (render_node uw uws) (line_nodes row col style ls) f"
proof -
  have "fold (\<lambda>(idx, line) f. fst (write_text uw f ((row + idx) mod 65536) col line style)) xs f
      = fold (render_node uw uws) (map (\<lambda>(i, l). TextNode ((row + i) mod 65536) col l style) xs) f" for xs
    by (induction xs arbitrary: f) auto
  then show ?thesis by (simp add: write_lines_def line_nodes_def)
qed

text \<open>A wrapped text is its lines, as many as the rectangle and the grid have rows for.\<close>

lemma wrapped_node:
  "render_node uw uws (WrappedTextNode r s style) f = fold (render_node uw uws)
    (line_nodes (r_row r) (r_col r) style
      (take (min (r_rows r) (fs_rows f - r_row r)) (wrap_text_lines uw uws s (r_cols r)))) f"
  by (auto simp: write_wrapped_text_def Let_def wrap_text_lines_def line_nodes_def write_lines_nodes[where uws = uws])

text \<open>A scrolling text blanks its rectangle and shows the newest lines above the offset.\<close>

definition blank_nodes :: "rect \<Rightarrow> cell_style \<Rightarrow> node list" where
  "blank_nodes r style = map (\<lambda>i. FillNode \<lparr>r_row = (r_row r + i) mod 65536, r_col = r_col r, r_rows = 1,
     r_cols = r_cols r\<rparr> [0x20] style) [0..<r_rows r]"

lemma scrolling_node:
  fixes uw :: "bytes \<Rightarrow> nat option" and uws :: "bytes \<Rightarrow> nat" and ls :: "bytes list"
  assumes "0 < r_rows r" "0 < r_cols r"
  defines "wrapped \<equiv> wrap_lines uw uws (r_cols r) ls"
  shows "render_node uw uws (ScrollingTextNode r ls offset style) f = fold (render_node uw uws)
    (blank_nodes r style @ line_nodes (r_row r) (r_col r) style
      (drop (length wrapped - offset - r_rows r) (take (length wrapped - offset) wrapped))) f"
proof -
  have "render_node uw uws (FillNode q ch style) = (\<lambda>f. fill_rect uw f q ch style)" for q ch by (simp add: fun_eq_iff)
  then have "fold (\<lambda>row f. fill_rect uw f \<lparr>r_row = (r_row r + row) mod 65536, r_col = r_col r, r_rows = 1,
      r_cols = r_cols r\<rparr> [0x20] style) [0..<r_rows r] f = fold (render_node uw uws) (blank_nodes r style) f"
    by (simp add: blank_nodes_def fold_map comp_def)
  then show ?thesis
    using assms(1,2) by (simp add: write_scrolling_text_def Let_def write_lines_nodes[where uws = uws] slice_of_def drop_take
      flip: wrapped_def)
qed


end
