(* ===== verification/Frame_Properties.thy ===== *)
theory Frame_Properties
  imports Frame_Links
begin

text \<open>
  The properties of the terminal stream: the encoder of the server and the decoder of the client
  against each other, the decoder against arbitrary bytes, and the sections of a payload one by one.
\<close>

subsection \<open>Concrete frames\<close>

lemma update_ops_same: "update_ops f f = ([], 0)"
  by (simp add: update_ops_def fallback_ops_def push_patch_def same_size_def build_patch_op_def cell_differs_def
    Let_def)

text \<open>The planner looks at the cells only, so row flags and overflow strings alone give no message.\<close>

lemma row_state_suppressed:
  assumes "a = b\<lparr>fs_line_flags := flags, fs_overflow := strings\<rparr>"
  shows "suppressed a b"
proof -
  have "snd (update_ops a b) = 0"
    by (simp add: assms update_ops_def fallback_ops_def push_patch_def same_size_def build_patch_op_def cell_differs_def
      Let_def)
  then show ?thesis
    by (simp add: assms suppressed_def title_changed_def keyframe_def same_size_def links_changed_def)
qed

text \<open>A blank grid, the same grid with one character and a title, and one whose first row is wrapped.\<close>

definition demo_blank :: frame_state where
  "demo_blank = frame_new 1 2"

definition demo_text :: frame_state where
  "demo_text = set_cursor (fst (set_title (fst (set_cell (\<lambda>c. Some 1) (frame_new 1 2) 0 0 [65] default_style))
     [104, 105])) 0 1"

definition demo_compress :: "bytes \<Rightarrow> bytes" where
  "demo_compress p = to_le 4 (length p) @ p"

definition demo_decompress :: "bytes \<Rightarrow> bytes option" where
  "demo_decompress d = Some (drop 4 d)"

lemma demo_contract: "lz4_contract demo_compress demo_decompress"
proof -
  have "length p mod 4294967296 = length p" if "length p \<le> MAX_DECOMPRESSED" for p :: bytes
    using that by (intro mod_less) (simp add: MAX_DECOMPRESSED_def)
  then show ?thesis by (simp add: lz4_contract_def demo_compress_def demo_decompress_def rd_head)
qed

lemma demo_text_eq: "demo_text = (frame_new 1 2)\<lparr>fs_cells := [0, 8, 0, 0, 0, 0, 0, 0, 65, 0, 0, 0,
    0, 0, 0, 0, 0, 0, 0, 0, 0, 0, 0, 0], fs_title := [104, 105], fs_cursor_col := 1\<rparr>"
  by code_simp

lemma demo_blank_eq: "fs_cells demo_blank = [0, 0, 0, 0, 0, 0, 0, 0, 0, 0, 0, 0,
    0, 0, 0, 0, 0, 0, 0, 0, 0, 0, 0, 0]"
  by code_simp

lemma demo_titles: "utf8_valid (fs_title demo_text)"
  by code_simp

lemma grid_clean_Nil: "fs_overflow f = [] \<Longrightarrow> length (fs_cells f) = total_cells f * CELL_SIZE \<Longrightarrow> grid_clean f"
  by (simp add: grid_clean_def grid_ok_empty total_cells_def)

lemma demo_inv: "frame_inv demo_blank" "frame_inv demo_text"
  using demo_titles
  by (simp_all add: demo_text_eq demo_blank_def frame_inv_def frame_new_def total_cells_def MAX_CELL_COUNT_def
    CELL_SIZE_def)

lemma demo_ov_complete: "ov_complete demo_blank" "ov_complete demo_text"
  by code_simp+

lemma demo_sendable: "sendable demo_blank" "sendable demo_text"
  using demo_inv demo_ov_complete
  by (simp_all add: sendable_def grid_clean_Nil demo_text_eq demo_blank_def frame_new_def total_cells_def
    CELL_SIZE_def ov_sendable_def links_sendable_def link_runs.simps)

lemma demo_ready: "client_ready demo_text demo_blank demo_blank"
  "client_ready demo_blank (frame_new 0 0) demo_text"
  using demo_inv
  by (simp_all add: client_ready_def grid_clean_Nil demo_text_eq demo_blank_def frame_new_def total_cells_def
    CELL_SIZE_def same_size_def)


lemma demo_patch: "build_patch_op demo_text demo_blank = Some ([3, 1] @ [0, 8, 0, 0, 0, 0, 0, 0, 65, 0, 0, 0])"
  by code_simp

lemma demo_ops: "update_ops demo_text demo_blank = ([3, 1, 0, 8, 0, 0, 0, 0, 0, 0, 65, 0, 0, 0], 1)"
  using demo_patch
  by (simp add: update_ops_def fallback_ops_def push_patch_def detect_vertical_scroll_def demo_text_eq
    same_size_def demo_blank_def frame_new_def CELL_SIZE_def Let_def)

lemma demo_payload: "length (update_payload demo_text demo_blank) = 36"
  unfolding update_payload_def demo_ops Let_def prod.case
  by (simp add: title_changed_def keyframe_def same_size_def demo_text_eq
    demo_blank_def frame_new_def CELL_SIZE_def TITLE_LEN_MASK_def has_line_flags_def append_links_section_def
    links_changed_def)

lemma demo_not_suppressed: "\<not> suppressed demo_text demo_blank"
  by (simp add: suppressed_def demo_ops)


subsection \<open>Updates\<close>

text \<open>
  C1.  An update makes the client hold the frame it was built for.  The server compresses the
  difference between the frame a client was last sent and the current one; whatever mixture of
  scroll copies, fills and patches it chose, a client that held the previous cells, title and links
  ends with every cell, overflow string, link, title, cursor, mode and scrollback count of the
  current frame.  Only the row flags may be the old ones, exactly when the message omits them.
\<close>

theorem update_message_applied:
  assumes "lz4_contract compress decompress" and "sendable cur" and "client_ready cur prev f"
    and "length (update_payload cur prev) \<le> MAX_DECOMPRESSED"
    and "build_update_msg compress pid cur prev = Some msg"
  shows "fst (feed_compressed decompress f (drop 3 msg))
    = cur\<lparr>fs_line_flags := (if has_line_flags cur prev then fs_line_flags cur else fs_line_flags f)\<rparr>"
  unfolding build_update_msg_parts(2)[OF assms(5)] feed_compressed_payload[OF assms(1,4)]
  by (rule update_payload_refines[OF assms(2,3)])

theorem update_message_applied_witness:
  "\<exists>msg. build_update_msg demo_compress 7 demo_text demo_blank = Some msg \<and>
    fst (feed_compressed demo_decompress demo_blank (drop 3 msg)) = demo_text"
proof -
  obtain msg where msg: "build_update_msg demo_compress 7 demo_text demo_blank = Some msg"
    using demo_not_suppressed by (simp add: build_update_msg_def)
  have fits: "length (update_payload demo_text demo_blank) \<le> MAX_DECOMPRESSED"
    by (simp add: demo_payload MAX_DECOMPRESSED_def)
  have "fs_line_flags demo_blank = fs_line_flags demo_text"
    by (simp add: demo_text_eq demo_blank_def frame_new_def)
  then show ?thesis
    using update_message_applied[OF demo_contract demo_sendable(2) demo_ready(1) fits msg] msg by simp
qed

text \<open>
  C2.  A keyframe needs no common past.  When the baseline has other dimensions than the current
  frame, the message determines the whole frame: any well-formed client whose overflow strings sit on
  overflow cells, whatever it shows, ends up equal to the current frame, row flags included.
\<close>

theorem keyframe_determines_client:
  assumes "lz4_contract compress decompress" and "sendable cur" and "\<not> same_size cur prev"
    and "frame_inv f" and "grid_clean f"
    and "length (update_payload cur prev) \<le> MAX_DECOMPRESSED"
    and "build_update_msg compress pid cur prev = Some msg"
  shows "fst (feed_compressed decompress f (drop 3 msg)) = cur"
proof -
  have "client_ready cur prev f" using assms(3-5) by (simp add: client_ready_def)
  moreover have "has_line_flags cur prev" using assms(3) by (simp add: has_line_flags_def keyframe_def)
  ultimately show ?thesis
    using update_payload_refines[OF assms(2)]
    by (simp add: build_update_msg_parts(2)[OF assms(7)] feed_compressed_payload[OF assms(1,6)])
qed

lemma demo_key_ops: "update_ops demo_blank (frame_new 0 0) = (encode_fill_op 0 1 2 (replicate CELL_SIZE 0), 1)"
proof -
  have "build_patch_op demo_blank (frame_new 1 2) = None"
    by (simp add: demo_blank_def build_patch_op_def frame_new_def total_cells_def)
  then show ?thesis
    by (simp add: update_ops_def fallback_ops_def push_patch_def same_size_def demo_blank_def frame_new_def
      CELL_SIZE_def)
qed

lemma demo_key_payload: "length (update_payload demo_blank (frame_new 0 0)) = 44"
  unfolding update_payload_def demo_key_ops Let_def prod.case
  by (simp add: title_changed_def keyframe_def same_size_def demo_blank_def frame_new_def CELL_SIZE_def
    TITLE_LEN_MASK_def has_line_flags_def append_links_section_def links_changed_def encode_fill_op_def)

theorem keyframe_determines_client_witness:
  "\<exists>msg. build_update_msg demo_compress 7 demo_blank (frame_new 0 0) = Some msg \<and>
    fst (feed_compressed demo_decompress demo_text (drop 3 msg)) = demo_blank"
proof -
  have key: "\<not> same_size demo_blank (frame_new 0 0)"
    by (simp add: same_size_def demo_blank_def frame_new_def)
  obtain msg where msg: "build_update_msg demo_compress 7 demo_blank (frame_new 0 0) = Some msg"
    by (simp add: build_update_msg_def suppressed_def demo_key_ops)
  have clean: "grid_clean demo_text" using demo_sendable(2) by (simp add: sendable_def)
  have fits: "length (update_payload demo_blank (frame_new 0 0)) \<le> MAX_DECOMPRESSED"
    by (simp add: demo_key_payload MAX_DECOMPRESSED_def)
  show ?thesis
    using keyframe_determines_client[OF demo_contract demo_sendable(1) key demo_inv(2) clean fits msg] msg by simp
qed


text \<open>
  C3.  The whole stream.  Whatever sequence of frames the server renders, its send loop (build against
  the last frame that was sent, remember a frame only when a message went out) keeps the client
  showing the frame the server rendered last, also when messages in between were suppressed.  The
  first frame may find any well-formed client, because an empty baseline forces a keyframe.
\<close>

theorem stream_keeps_client_current:
  assumes "lz4_contract compress decompress"
    and "frame_inv client" and "grid_clean client" and "frames \<noteq> []"
    and "\<forall>cur \<in> set frames. stream_frame cur" and "payloads_fit frames"
    and "send_frames compress decompress pid frames (frame_new 0 0, client) = (last_sent, client')"
  shows "same_view client' (last frames) \<and> frame_inv client'"
proof -
  have sync: "in_sync (frame_new 0 0) client" using assms(2,3) by (simp add: in_sync_def)
  have fit: "\<forall>cur \<in> set frames. \<forall>prev \<in> insert (frame_new 0 0) (set frames).
      length (update_payload cur prev) \<le> MAX_DECOMPRESSED"
    using assms(6) by (simp add: payloads_fit_def)
  from send_frames_in_sync[OF assms(1) sync assms(5) fit _ _ assms(7)] show ?thesis
    using assms(4) by (auto simp: in_sync_def)
qed

theorem stream_keeps_client_current_witness:
  "\<exists>last_sent client'. send_frames demo_compress demo_decompress 7 [demo_blank] (frame_new 0 0, demo_text)
      = (last_sent, client') \<and> same_view client' demo_blank"
proof -
  obtain l c where run: "send_frames demo_compress demo_decompress 7 [demo_blank] (frame_new 0 0, demo_text) = (l, c)"
    by (metis prod.collapse)
  have clean: "grid_clean demo_text" using demo_sendable(2) by (simp add: sendable_def)
  have one: "\<forall>cur \<in> set [demo_blank]. stream_frame cur"
    using demo_sendable(1) by (simp add: stream_frame_def demo_blank_def frame_new_def)
  have "length (update_payload demo_blank demo_blank) \<le> MAX_DECOMPRESSED"
    unfolding update_payload_def Let_def update_ops_same prod.case
    by (simp add: title_changed_def keyframe_def same_size_def demo_blank_def frame_new_def CELL_SIZE_def
      has_line_flags_def append_links_section_def links_changed_def MAX_DECOMPRESSED_def)
  then have fits: "payloads_fit [demo_blank]"
    by (simp add: payloads_fit_def demo_key_payload MAX_DECOMPRESSED_def)
  show ?thesis
    using stream_keeps_client_current[OF demo_contract demo_inv(2) clean _ one fits run] run by simp
qed

text \<open>
  C4.  The decoder against anything.  No sequence of bytes takes a well-formed frame out of its
  invariant: dimensions within \<open>MAX_CELL_COUNT\<close>, buffers of the length the indexing relies on, the
  cursor inside the grid, valid UTF-8 in the title and the overflow table, and hyperlink ids that all
  name a target.  The bytes may be a batch of messages, truncated or hostile, and the decompressor any
  function.
\<close>

theorem arbitrary_batch_keeps_frame:
  assumes "frame_inv f"
  shows "frame_inv (fst (feed_compressed_batch decompress f batch))"
  using feed_batch_inv[OF assms] by (simp add: feed_compressed_batch_def)

theorem arbitrary_batch_keeps_frame_witness:
  "frame_inv (fst (feed_compressed_batch demo_decompress demo_text [5, 0, 0, 0, 1, 0, 0, 0, 9, 255, 255]))"
  by (rule arbitrary_batch_keeps_frame) (rule demo_inv)

text \<open>
  C5.  What is never sent.  \<open>build_update_msg\<close> sends nothing exactly when the current frame is the
  previous one up to the row flags and the overflow table: any other difference, in the cells, the
  cursor, the mode, the title, the scrollback count or the hyperlinks, produces a message.  A change of
  row flags alone is not sent, so a row that becomes wrapped, or stops being wrapped, without any other
  change leaves the client joining the rows as before.
\<close>

theorem message_suppressed_exactly:
  assumes "sendable cur"
  shows "(build_update_msg compress pid cur prev = None
      \<longleftrightarrow> cur = prev\<lparr>fs_line_flags := fs_line_flags cur, fs_overflow := fs_overflow cur\<rparr>)
    \<and> build_update_msg compress pid (set_wrapped cur row wrapped) cur = None"
proof -
  have unsent: "build_update_msg compress pid a b = None"
    if "a = b\<lparr>fs_line_flags := fs_line_flags a, fs_overflow := fs_overflow a\<rparr>" for a b
    using row_state_suppressed[OF that] by (simp add: build_update_msg_def)
  have "cur = prev\<lparr>fs_line_flags := fs_line_flags cur, fs_overflow := fs_overflow cur\<rparr>"
    if none: "build_update_msg compress pid cur prev = None"
  proof -
    have "suppressed cur prev" using none by (auto simp: build_update_msg_def split: if_splits)
    from suppressed_view[OF this assms] show ?thesis by (intro frame_state.equality) simp_all
  qed
  moreover have "build_update_msg compress pid (set_wrapped cur row wrapped) cur = None"
    by (rule unsent) (simp add: set_wrapped_def)
  ultimately show ?thesis using unsent by blast
qed

theorem message_suppressed_exactly_witness:
  "build_update_msg demo_compress 7 demo_text demo_text = None
    \<and> build_update_msg demo_compress 7 demo_text demo_blank \<noteq> None
    \<and> build_update_msg demo_compress 7 (set_wrapped demo_text 0 True) demo_text = None
    \<and> is_wrapped (set_wrapped demo_text 0 True) 0 \<and> \<not> is_wrapped demo_text 0"
proof -
  have "fs_title demo_text \<noteq> fs_title demo_blank" by (simp add: demo_text_eq demo_blank_def frame_new_def)
  then have "demo_text \<noteq> demo_blank\<lparr>fs_line_flags := fs_line_flags demo_text, fs_overflow := fs_overflow demo_text\<rparr>"
    by (auto dest: arg_cong[where f = fs_title])
  moreover have "is_wrapped (set_wrapped demo_text 0 True) 0" "\<not> is_wrapped demo_text 0"
    by (simp_all add: demo_text_eq frame_new_def is_wrapped_def set_wrapped_def ROW_FLAG_WRAPPED_def)
  ultimately show ?thesis
    using message_suppressed_exactly[OF demo_sendable(2), of demo_compress 7 demo_text 0 True]
      message_suppressed_exactly[OF demo_sendable(2), of demo_compress 7 demo_blank 0 True] by simp
qed

text \<open>
  C6.  Cleared row flags are not sent.  \<open>build_update_msg\<close> omits the row-flag section when no row of
  the current frame is wrapped, so a client whose frame has a wrapped row keeps that flag: after the
  update it holds every cell of the current frame, and the old flags.  The witness has a client that
  still joins two rows the server has separated.
\<close>

theorem cleared_row_flags_not_sent:
  assumes "lz4_contract compress decompress" and "sendable cur" and "client_ready cur prev f"
    and "length (update_payload cur prev) \<le> MAX_DECOMPRESSED"
    and "build_update_msg compress pid cur prev = Some msg"
    and "same_size cur prev" and "list_all (\<lambda>x. x = 0) (fs_line_flags cur)"
  shows "is_wrapped (fst (feed_compressed decompress f (drop 3 msg))) row = is_wrapped f row
    \<and> \<not> is_wrapped cur row"
proof -
  have no: "\<not> has_line_flags cur prev" using assms(6,7) by (simp add: has_line_flags_def keyframe_def)
  have "fst (feed_compressed decompress f (drop 3 msg)) = cur\<lparr>fs_line_flags := fs_line_flags f\<rparr>"
    unfolding build_update_msg_parts(2)[OF assms(5)] feed_compressed_payload[OF assms(1,4)]
    using update_payload_refines[OF assms(2,3)] no by simp
  moreover have "\<not> is_wrapped cur row"
    using assms(7) by (auto simp: is_wrapped_def list_all_length)
  ultimately show ?thesis by (simp add: is_wrapped_def)
qed

definition demo_wrapped :: frame_state where
  "demo_wrapped = set_wrapped demo_blank 0 True"

lemma demo_wrapped_eq: "demo_wrapped = demo_blank\<lparr>fs_line_flags := [1]\<rparr>"
  by code_simp

lemma demo_wrapped_patch: "build_patch_op demo_text demo_wrapped = build_patch_op demo_text demo_blank"
proof -
  have "fs_cells demo_wrapped = fs_cells demo_blank" by (simp add: demo_wrapped_eq)
  then show ?thesis unfolding build_patch_op_def by (simp only:)
qed

lemma demo_wrapped_ops: "update_ops demo_text demo_wrapped = update_ops demo_text demo_blank"
  unfolding demo_ops using demo_patch demo_wrapped_patch
  by (simp add: update_ops_def fallback_ops_def push_patch_def detect_vertical_scroll_def demo_text_eq
    same_size_def demo_wrapped_eq demo_blank_def frame_new_def CELL_SIZE_def Let_def)

lemma demo_wrapped_payload: "update_payload demo_text demo_wrapped = update_payload demo_text demo_blank"
proof -
  have "fs_line_flags demo_text = [0]" by (simp add: demo_text_eq frame_new_def)
  then show ?thesis
    unfolding update_payload_def demo_wrapped_ops
    by (simp add: title_changed_def keyframe_def same_size_def demo_wrapped_eq has_line_flags_def links_changed_def)
qed

theorem cleared_row_flags_not_sent_witness:
  "\<exists>msg. build_update_msg demo_compress 7 demo_text demo_wrapped = Some msg \<and>
    is_wrapped (fst (feed_compressed demo_decompress demo_wrapped (drop 3 msg))) 0 \<and> \<not> is_wrapped demo_text 0"
proof -
  obtain msg where msg: "build_update_msg demo_compress 7 demo_text demo_wrapped = Some msg"
    by (simp add: build_update_msg_def suppressed_def demo_wrapped_ops demo_ops)
  have fits: "length (update_payload demo_text demo_wrapped) \<le> MAX_DECOMPRESSED"
    by (simp add: demo_wrapped_payload demo_payload MAX_DECOMPRESSED_def)
  have size: "same_size demo_text demo_wrapped"
    by (simp add: same_size_def demo_wrapped_eq demo_text_eq demo_blank_def frame_new_def CELL_SIZE_def)
  have zero: "list_all (\<lambda>x. x = 0) (fs_line_flags demo_text)" by (simp add: demo_text_eq frame_new_def)
  have inv: "frame_inv demo_wrapped" "grid_clean demo_wrapped"
    by (simp_all add: demo_wrapped_eq frame_inv_def grid_clean_Nil demo_blank_def frame_new_def total_cells_def
      CELL_SIZE_def MAX_CELL_COUNT_def)
  have ready: "client_ready demo_text demo_wrapped demo_wrapped" using inv by (simp add: client_ready_def)
  have "is_wrapped demo_wrapped 0" by (simp add: demo_wrapped_eq is_wrapped_def ROW_FLAG_WRAPPED_def)
  then show ?thesis
    using cleared_row_flags_not_sent[OF demo_contract demo_sendable(2) ready fits msg size zero, of 0] msg by blast
qed


subsection \<open>Operations and sections\<close>

text \<open>
  C7.  The operation list is a program for the client's grid.  Whichever of scroll copy, fills and
  patch \<open>build_update_msg\<close> chooses, replaying the list on a client with the basis cells yields exactly
  the current cells, reports the exact number of bytes consumed, leaves overflow strings only on cells
  that ask for one and touches nothing else of the frame.
\<close>

theorem update_ops_replay:
  assumes "frame_inv cur" "fs_rows cur < 65534" and "grid_clean f" "fs_rows f = fs_rows cur" "fs_cols f = fs_cols cur"
    and "same_size cur prev \<longrightarrow> fs_cells f = fs_cells prev" and "update_ops cur prev = (ops, n)"
  shows "\<exists>ov ch. apply_ops_payload f (to_le 2 n @ ops @ rest)
      = (f\<lparr>fs_cells := fs_cells cur, fs_overflow := ov\<rparr>, Some (ch, 2 + length ops))
    \<and> grid_ok (fs_rows cur) (fs_cols cur) (fs_cells cur) ov"
proof -
  have grid: "same_grid (fs_rows cur) (fs_cols cur) cur"
    using frame_inv_len(2)[OF assms(1)] by (simp add: same_grid_def)
  have cols: "fs_cols cur < 65536" using assms(1) by (simp add: frame_inv_def)
  have clean: "grid_ok (fs_rows cur) (fs_cols cur) (fs_cells f) (fs_overflow f)"
    using assms(3-5) by (simp add: grid_clean_def)
  have draw: "draws (fs_rows cur) (fs_cols cur) ops n (fs_cells f) (fs_cells cur)" "n \<le> 65535"
    using update_ops_draw[OF grid assms(2) cols grid_okD(1)[OF clean] _ assms(7)] assms(6) by auto
  obtain ov ch where run: "apply_ops_loop n f (to_le 2 n @ ops @ rest) (length (to_le 2 n)) False
      = (f\<lparr>fs_cells := fs_cells cur, fs_overflow := ov\<rparr>, Some (ch, length (to_le 2 n) + length ops))"
    "grid_ok (fs_rows cur) (fs_cols cur) (fs_cells cur) ov"
    by (rule drawsE[OF draw(1) assms(4,5) refl clean])
  then show ?thesis using draw(2) by (auto simp: apply_ops_payload_def rd_head)
qed

theorem update_ops_replay_witness:
  "fs_cells (fst (apply_ops_payload demo_blank (to_le 2 1 @ [3, 1, 0, 8, 0, 0, 0, 0, 0, 0, 65, 0, 0, 0]))) = fs_cells demo_text"
proof -
  have "\<exists>ov ch. apply_ops_payload demo_blank (to_le 2 1 @ [3, 1, 0, 8, 0, 0, 0, 0, 0, 0, 65, 0, 0, 0] @ [])
      = (demo_blank\<lparr>fs_cells := fs_cells demo_text, fs_overflow := ov\<rparr>,
         Some (ch, 2 + length [3 :: u8, 1, 0, 8, 0, 0, 0, 0, 0, 0, 65, 0, 0, 0]))
    \<and> grid_ok (fs_rows demo_text) (fs_cols demo_text) (fs_cells demo_text) ov"
    by (rule update_ops_replay[OF demo_inv(2) _ _ _ _ _ demo_ops])
      (use demo_sendable in \<open>simp_all add: sendable_def demo_text_eq demo_blank_def frame_new_def\<close>)
  then show ?thesis by auto
qed

text \<open>
  The strings section.  Reading back the section the encoder wrote adds exactly the current
  frame's overflow strings to the client's table, each under its cell index, and stops at the section's
  last byte, whatever follows.
\<close>

lemma overflow_section_roundtrip:
  assumes "ov_sendable (total_cells f) (fs_overflow cur)" "bt_inv (fs_overflow cur)" "bt_inv (fs_overflow f)"
    and "total_cells f \<le> MAX_CELL_COUNT"
  shows "\<exists>ov. apply_overflow_strings f (serialize_overflow_strings cur @ rest)
      = (f\<lparr>fs_overflow := ov\<rparr>, length (serialize_overflow_strings cur))
    \<and> bt_get ov = bt_get (fs_overflow f) ++ bt_get (fs_overflow cur)"
proof -
  let ?es = "fs_overflow cur"
  have "distinct (map fst ?es)" using assms(2) by (simp add: bt_inv_def strict_sorted_iff)
  then have "map_of (rev ?es) = bt_get ?es"
    unfolding bt_get_def[abs_def] by (intro map_of_inject_set[THEN iffD2]) (simp_all flip: rev_map)
  then have "bt_get (fold (\<lambda>(k, s). bt_insert k s) ?es (fs_overflow f)) = bt_get (fs_overflow f) ++ bt_get ?es"
    using bt.lookup_insert_all[OF assms(3), of ?es] by simp
  then show ?thesis
    using apply_overflow_strings_section[OF assms(1,4), of rest] by auto
qed

lemma overflow_section_roundtrip_example:
  "\<exists>ov. apply_overflow_strings demo_blank (serialize_overflow_strings (demo_blank\<lparr>fs_overflow := [(1, [104, 105])]\<rparr>) @ [9])
      = (demo_blank\<lparr>fs_overflow := ov\<rparr>, length (serialize_overflow_strings (demo_blank\<lparr>fs_overflow := [(1, [104, 105])]\<rparr>)))
    \<and> bt_get ov 1 = Some [104, 105]"
proof -
  let ?cur = "demo_blank\<lparr>fs_overflow := [(1, [104, 105])]\<rparr>"
  have ok: "ov_sendable (total_cells demo_blank) (fs_overflow ?cur)" "bt_inv (fs_overflow ?cur)"
    "bt_inv (fs_overflow demo_blank)" "total_cells demo_blank \<le> MAX_CELL_COUNT"
    using demo_titles by (simp_all add: ov_sendable_def demo_text_eq demo_blank_def frame_new_def total_cells_def
      bt_inv_def MAX_CELL_COUNT_def)
  have "bt_get [(1 :: nat, [104 :: u8, 105])] 1 = Some [104, 105]" by (simp add: bt_get_def)
  then show ?thesis using overflow_section_roundtrip[OF ok, of "[9]"] by (auto simp: map_add_def)
qed


text \<open>
  The hyperlink section.  A changed link state is read back exactly: the target table and the id
  of every cell, from runs of at most 65535 cells; and the sentinel for an unchanged state leaves the
  client's links alone.
\<close>

lemma links_section_roundtrip:
  assumes "frame_inv cur" "links_sendable cur" "total_cells f = total_cells cur"
  shows "apply_links_section f (append_links_section cur changed)
    = (if changed then f\<lparr>fs_cell_links := fs_cell_links cur, fs_link_uris := fs_link_uris cur\<rparr> else f)"
  using apply_links_section_changed[of "total_cells cur" cur f] apply_links_section_unchanged assms
  by (simp add: frame_inv_def)

definition demo_linked :: frame_state where
  "demo_linked = set_wrapped ((frame_new 2 2)\<lparr>fs_cell_links := [0, 1, 1, 0], fs_link_uris := [(1, [104])]\<rparr>) 0 True"

lemma demo_linked_eq: "demo_linked = (frame_new 2 2)\<lparr>fs_line_flags := [1, 0], fs_cell_links := [0, 1, 1, 0],
    fs_link_uris := [(1, [104])]\<rparr>"
  by code_simp

lemma demo_linked_ok: "frame_inv demo_linked" "links_sendable demo_linked"
proof -
  have "utf8_valid [104]" by code_simp
  then have "uris_ok [(1, [104])]" by (simp add: uris_ok_def bt_inv_def MAX_LINK_URI_def)
  then show "frame_inv demo_linked"
    by (simp add: demo_linked_eq frame_inv_def frame_new_def total_cells_def MAX_CELL_COUNT_def CELL_SIZE_def
      links_ok_def bt_get_def)
  have "link_runs [0, 1, 1, 0] 0 = [(1, 2, 1)]"
    by (simp add: link_runs.simps Let_def)
  then show "links_sendable demo_linked"
    by (simp add: demo_linked_eq links_sendable_def MAX_LINK_ID_def)
qed

lemma links_section_roundtrip_example:
  "fs_cell_links (apply_links_section (frame_new 2 2) (append_links_section demo_linked True)) = [0, 1, 1, 0]"
proof -
  have "total_cells (frame_new 2 2) = total_cells demo_linked"
    by (simp add: demo_linked_eq frame_new_def total_cells_def)
  from links_section_roundtrip[OF demo_linked_ok this, of True] show ?thesis by (simp add: demo_linked_eq)
qed

text \<open>
  Never the wrong link.  A hyperlink section that is cut short anywhere clears all links instead
  of leaving some of them on.
\<close>

lemma truncated_links_section_clears:
  assumes "frame_inv cur" "links_sendable cur" "fs_link_uris cur \<noteq> []"
    and "k < length (append_links_section cur True)"
  shows "apply_links_section f (take k (append_links_section cur True)) = clear_links f"
  by (rule apply_links_cut[where n = "total_cells cur", OF _ assms(2-4)]) (use assms(1) in \<open>simp add: frame_inv_def\<close>)

lemma truncated_links_section_clears_example:
  "apply_links_section demo_linked (take 12 (append_links_section demo_linked True)) = clear_links demo_linked"
proof (rule truncated_links_section_clears[OF demo_linked_ok])
  show "fs_link_uris demo_linked \<noteq> []" by (simp add: demo_linked_eq)
  have "link_runs [0, 1, 1, 0] 0 = [(1, 2, 1)]" by (simp add: link_runs.simps Let_def)
  then show "12 < length (append_links_section demo_linked True)"
    by (simp add: demo_linked_eq append_links_section_def Let_def MAX_LINK_URI_def MAX_LINK_ID_def take_Cons')
qed

text \<open>
  C8.  The extent of a link under the pointer.  \<open>link_segments\<close> returns a chain that covers the cell
  it was asked about: every cell of a segment carries the link, a segment is followed by the start of
  the next row only where the row is wrapped and the link reaches its last column, and the chain
  cannot be extended at either end.
\<close>

theorem link_segments_maximal_chain:
  assumes "link_id_at f row col = lid" "lid \<noteq> 0"
  shows "chain f lid (link_segments f row col)
    \<and> (\<exists>s e. (row, s, e) \<in> set (link_segments f row col) \<and> s \<le> col \<and> col \<le> e)
    \<and> (\<exists>r c e segs. link_segments f row col = (r, c, e) # segs \<and> (0 < c \<longrightarrow> link_id_at f r (c - 1) \<noteq> lid)
      \<and> (c = 0 \<and> 0 < r \<longrightarrow> \<not> is_wrapped f (r - 1) \<or> link_id_at f (r - 1) (fs_cols f - 1) \<noteq> lid))"
  using link_segments_spec[OF assms] by blast

theorem link_segments_maximal_chain_witness:
  "link_segments demo_linked 1 0 = [(0, 1, 1), (1, 0, 0)] \<and> chain demo_linked 1 (link_segments demo_linked 1 0)"
proof
  have "link_id_at demo_linked 1 0 = 1" by code_simp
  from link_segments_maximal_chain[OF this] show "chain demo_linked 1 (link_segments demo_linked 1 0)" by simp
  show "link_segments demo_linked 1 0 = [(0, 1, 1), (1, 0, 0)]"
    by (simp add: link_segments_def link_id_at_def link_flat_def is_wrapped_def demo_linked_eq frame_new_def
      walk_right.simps walk_forward.simps Let_def ROW_FLAG_WRAPPED_def CELL_SIZE_def numeral_eq_Suc)
qed

end
