(* ===== verification/Text_Properties.thy ===== *)
theory Text_Properties
  imports Frame_Wrap Frame_Paint Frame_Properties
begin

text \<open>
  The properties of text on a frame: drawing, reading back, and wrapping.
\<close>

text \<open>Every character one column wide, as a terminal without wide characters has it.\<close>

definition narrow_width :: "bytes \<Rightarrow> nat option" where
  "narrow_width c = Some 1"

definition narrow_text_width :: "bytes \<Rightarrow> nat" where
  "narrow_text_width s = length (utf8_chars s)"

lemma frame_inv_sized: "frame_inv f \<Longrightarrow> grid_sized f"
  by (simp add: grid_sized_def frame_inv_len)

lemma ab_chars: "utf8_chars [97, 98] = [[97], [98]]" "utf8_valid [97, 98]"
  by code_simp+

text \<open>
  C18.  Drawing.  Rendering a display list, whatever rectangles, offsets and texts it holds, changes
  nothing of the frame but its cells and its title, and keeps it well formed.  A cell no node reaches is
  a blank in the background style.  Whatever came before it, a fill with a narrow character at the end of
  the list is what its rectangle shows, clipped to the grid, and narrow text that fits its row is what
  the columns from its start show, one character each, in the style of the node.  A wrapped text draws
  what its lines drawn one under the other would, as many as the rectangle and the grid have rows for; a
  scrolling text blanks its rectangle and draws the newest of its lines above the offset.
\<close>

theorem rendering_draws_nodes:
  fixes uw :: "bytes \<Rightarrow> nat option" and uws :: "bytes \<Rightarrow> nat"
  assumes "frame_inv f" and "\<And>title. dom_title d = Some title \<Longrightarrow> utf8_valid title"
  defines "shown ns \<equiv> render_to uw uws (d\<lparr>dom_nodes := ns\<rparr>) f"
  shows "(\<exists>cells. shown ns = f\<lparr>fs_title := (case dom_title d of Some t \<Rightarrow> t | None \<Rightarrow> []), fs_cells := cells\<rparr>
        \<and> frame_inv (shown ns))
    \<and> (row < fs_rows f \<and> col < fs_cols f \<and> (\<forall>n \<in> set ns. \<not> node_area n row col) \<longrightarrow>
        grid_cell (shown ns) row col = encode_cell None (dom_background d) False False)
    \<and> (row < fs_rows f \<and> col < fs_cols f \<and> uw ch = Some 1 \<and> r_row r \<le> row \<and> row < r_row r + r_rows r
          \<and> r_col r \<le> col \<and> col < r_col r + r_cols r \<longrightarrow>
        grid_cell (shown (ns @ [FillNode r ch style])) row col = encode_cell (Some ch) style False False)
    \<and> (row < fs_rows f \<and> utf8_valid s \<and> (\<forall>ch \<in> set (utf8_chars s). uw ch = Some 1)
          \<and> col + length (utf8_chars s) \<le> fs_cols f \<and> i < length (utf8_chars s) \<longrightarrow>
        grid_cell (shown (ns @ [TextNode row col s style])) row (col + i)
          = encode_cell (Some (utf8_chars s ! i)) style False False)
    \<and> shown (ns @ [WrappedTextNode r s style]) = shown (ns @ line_nodes (r_row r) (r_col r) style
          (take (min (r_rows r) (fs_rows f - r_row r)) (wrap_text_lines uw uws s (r_cols r))))
    \<and> (let ls = wrap_lines uw uws (r_cols r) paragraphs; last = length ls - offset in
        0 < r_rows r \<and> 0 < r_cols r \<longrightarrow>
        shown (ns @ [ScrollingTextNode r paragraphs offset style]) = shown (ns @ blank_nodes r style
          @ line_nodes (r_row r) (r_col r) style (drop (last - r_rows r) (take last ls))))"
proof -
  let ?title = "case dom_title d of Some t \<Rightarrow> t | None \<Rightarrow> []"
  let ?f1 = "frame_clear f (dom_background d)"
  define f2 where "f2 = ?f1\<lparr>fs_title := ?title\<rparr>"
  note sized = frame_inv_sized[OF assms(1)]
  have u16: "fs_cols f < 65536" "fs_rows f < 65536" using assms(1) by (simp_all add: frame_inv_def)
  have d1: "drawn f ?f1" by (rule drawn_clear[OF sized])
  have "utf8_valid ?title" using assms(2) by (cases "dom_title d") auto
  then have inv2: "frame_inv f2" using drawn_inv[OF d1 assms(1)] by (simp add: frame_inv_def f2_def)
  have "fst (set_title ?f1 ?title) = f2" by (simp add: set_title_def f2_def)
  then have run: "shown ns = fold (render_node uw uws) ns f2" for ns
    by (simp add: assms(3) render_to_def Let_def)
  have f2: "fs_rows f2 = fs_rows f" "fs_cols f2 = fs_cols f" "grid_sized f2"
    using drawn_fields[OF d1] drawn_sized[OF d1 sized] by (simp_all add: f2_def grid_sized_def total_cells_def)
  have p: "paints (\<lambda>row col. \<exists>n \<in> set ns. node_area n row col) f2 (shown ns)" for ns
    unfolding run by (rule paints_nodes[OF f2(3)]) (simp add: f2 u16)
  then have d: "drawn f2 (shown ns)" for ns by (simp add: paints_def)
  note fields = drawn_fields(1,2)[OF d, unfolded f2]
  have "\<exists>cells. shown ns = f\<lparr>fs_title := ?title, fs_cells := cells\<rparr> \<and> frame_inv (shown ns)"
    using d[of ns] d1 drawn_inv[OF d inv2] by (auto simp: drawn_def f2_def)
  moreover have "grid_cell (shown ns) row col = encode_cell None (dom_background d) False False"
    if "row < fs_rows f" "col < fs_cols f" "\<forall>n \<in> set ns. \<not> node_area n row col"
  proof -
    have "grid_cell f2 row col = encode_cell None (dom_background d) False False"
      using clear_cells[OF sized that(1,2)] by (simp add: grid_cell_def f2_def)
    then show ?thesis using p[of ns] that by (simp add: paints_def f2)
  qed
  moreover have "grid_cell (shown (ns @ [FillNode r ch style])) row col = encode_cell (Some ch) style False False"
    if "row < fs_rows f" "col < fs_cols f" "uw ch = Some 1" "r_row r \<le> row" "row < r_row r + r_rows r"
      "r_col r \<le> col" "col < r_col r + r_cols r"
    using fill_rect_cells[OF drawn_sized[OF d f2(3)], of ns uw ch row col r style] that u16
    by (simp add: fields) (simp add: run)
  moreover have "grid_cell (shown (ns @ [TextNode row col s style])) row (col + i) = encode_cell (Some (utf8_chars s ! i)) style False False"
    if "row < fs_rows f" "utf8_valid s" "\<forall>ch \<in> set (utf8_chars s). uw ch = Some 1" "col + length (utf8_chars s) \<le> fs_cols f"
      "i < length (utf8_chars s)"
    using write_text_cells[OF drawn_sized[OF d f2(3)], of ns s uw row col i style] that u16
    by (simp add: fields) (simp add: run)
  moreover have "shown (ns @ [WrappedTextNode r s style]) = shown (ns @ line_nodes (r_row r) (r_col r) style
      (take (min (r_rows r) (fs_rows f - r_row r)) (wrap_text_lines uw uws s (r_cols r))))"
    by (simp add: run wrapped_node flip: fields(1)[of ns] del: render_node.simps)
  moreover have "shown (ns @ [ScrollingTextNode r paragraphs offset style]) = shown (ns @ blank_nodes r style
      @ line_nodes (r_row r) (r_col r) style (drop (length ls - offset - r_rows r) (take (length ls - offset) ls)))"
    if "0 < r_rows r" "0 < r_cols r" "ls = wrap_lines uw uws (r_cols r) paragraphs" for ls
    using scrolling_node[OF that(1,2), of uw uws paragraphs offset style] that(3) by (simp add: run del: render_node.simps)
  ultimately show ?thesis unfolding Let_def by blast
qed

definition demo_dom :: dom where
  "demo_dom = \<lparr>dom_background = default_style, dom_title = Some [98], dom_nodes = []\<rparr>"

theorem rendering_draws_nodes_witness:
  "fs_cursor_col (render_to narrow_width narrow_text_width demo_dom demo_text) = 1
    \<and> fs_title (render_to narrow_width narrow_text_width demo_dom demo_text) = [98]
    \<and> grid_cell (render_to narrow_width narrow_text_width (demo_dom\<lparr>dom_nodes := [TextNode 0 0 [97, 98] default_style,
        FillNode \<lparr>r_row = 0, r_col = 1, r_rows = 9, r_cols = 9\<rparr> [35] default_style]\<rparr>) demo_text) 0 1
      = encode_cell (Some [35]) default_style False False"
proof -
  have t: "utf8_valid title" if "dom_title demo_dom = Some title" for title
  proof -
    have "utf8_valid [98]" by code_simp
    then show ?thesis using that by (simp add: demo_dom_def)
  qed
  have size: "fs_rows demo_text = 1" "fs_cols demo_text = 2" "fs_cursor_col demo_text = 1"
    by (simp_all add: demo_text_eq frame_new_def)
  have empty: "demo_dom\<lparr>dom_nodes := []\<rparr> = demo_dom" by (simp add: demo_dom_def)
  have title: "(case dom_title demo_dom of Some t \<Rightarrow> t | None \<Rightarrow> []) = [98]" by (simp add: demo_dom_def)
  note draw = rendering_draws_nodes[where d = demo_dom and uw = narrow_width and uws = narrow_text_width, OF demo_inv(2) t]
  obtain cells where "render_to narrow_width narrow_text_width demo_dom demo_text
      = demo_text\<lparr>fs_title := [98], fs_cells := cells\<rparr>"
    using draw[where ns = "[]", THEN conjunct1] unfolding empty title by blast
  moreover have "grid_cell (render_to narrow_width narrow_text_width (demo_dom\<lparr>dom_nodes := [TextNode 0 0 [97, 98] default_style]
        @ [FillNode \<lparr>r_row = 0, r_col = 1, r_rows = 9, r_cols = 9\<rparr> [35] default_style]\<rparr>) demo_text) 0 1
      = encode_cell (Some [35]) default_style False False"
    by (rule draw[THEN conjunct2, THEN conjunct2, THEN conjunct1, THEN mp])
      (simp_all add: size narrow_width_def)
  ultimately show ?thesis by (simp add: size)
qed

text \<open>
  A cell reads back as it was written.  The character and the style given to \<open>set_cell\<close> are what
  the readers return for that column, colours and attributes bit for bit, and no cell outside the one or
  two columns of the character changes.
\<close>

lemma cell_written_reads_back:
  assumes "frame_inv f" and "is_char ch" and "set_cell uw f row col ch style = (g, width)" and "0 < width"
  shows "cell_content g row col = ch \<and> cell_style_at g row col = style
    \<and> (\<forall>r < fs_rows f. \<forall>c < fs_cols f. \<not> (r = row \<and> col \<le> c \<and> c < col + width) \<longrightarrow>
        cell_at (fs_cells g) (r * fs_cols f + c) = cell_at (fs_cells f) (r * fs_cols f + c))"
  using set_cell_reads_back[OF frame_inv_sized[OF assms(1)] assms(2-4)]
    set_cell_elsewhere[OF frame_inv_sized[OF assms(1)] assms(3)] by blast

text \<open>
  Written text is extracted unchanged.  Text of one-column characters that fits its row comes back
  from \<open>get_text\<close> over the columns it covers, up to the white space that extraction trims at the end of
  a row that is not wrapped; the returned column is the one after the text.
\<close>

lemma written_text_reads_back:
  assumes "frame_inv f" and "utf8_valid text" and "text \<noteq> []" and "\<forall>ch \<in> set (utf8_chars text). uw ch = Some 1"
    and "row < fs_rows f" and "col + length (utf8_chars text) \<le> fs_cols f"
  shows "snd (write_text uw f row col text style) = col + length (utf8_chars text)
    \<and> get_text (fst (write_text uw f row col text style)) row col row (col + length (utf8_chars text) - 1)
      = (if is_wrapped f row then text else str_trim_end text)"
proof -
  let ?cs = "utf8_chars text"
  let ?g = "fst (write_text uw f row col text style)"
  have chars: "\<forall>ch \<in> set ?cs. is_char ch" by (rule utf8_chars_are_chars[OF assms(2)])
  have ne: "?cs \<noteq> []" using assms(3) utf8_valid_concat_chars[OF assms(2)] by auto
  then have col: "col < fs_cols f" using assms(6) by (cases ?cs) auto
  have sized: "grid_sized f" by (rule frame_inv_sized[OF assms(1)])
  have cols: "fs_cols f < 65536" using assms(1) by (simp add: frame_inv_def)
  have run: "write_text uw f row col text style = write_chars uw row style ?cs f col"
    using assms(5) col by (simp add: write_text_def)
  have reads: "snd (write_chars uw row style ?cs f col) = col + length ?cs"
    "\<And>i. i < length ?cs \<Longrightarrow> cell_at (fs_cells ?g) (row * fs_cols f + (col + i)) = encode_cell (Some (?cs ! i)) style False False"
    using write_chars_reads_back[OF sized _ assms(5,6) cols, of uw style] chars assms(4) by (simp_all add: run)
  have d: "drawn f ?g" by (rule drawn_write_text[OF sized])
  note g = drawn_fields[OF d]
  have content: "cell_content ?g row (col + i) = ?cs ! i" if "i < length ?cs" for i
    using cell_reads_back[OF drawn_sized[OF d sized], of row "col + i" "?cs ! i" style False] reads(2)[OF that]
      assms(5,6) that chars by (simp add: g)
  have upto: "[col..<Suc (min (col + length ?cs - 1) (fs_cols ?g - 1))] = map (\<lambda>i. col + i) [0..<length ?cs]"
  proof -
    have "0 < length ?cs" using ne by simp
    then have "Suc (min (col + length ?cs - 1) (fs_cols ?g - 1)) = col + length ?cs" using assms(6) g(2) by linarith
    then show ?thesis using map_add_upt[of col "length ?cs", symmetric] by (simp only: add.commute)
  qed
  have "map (cell_content ?g row \<circ> (\<lambda>i. col + i)) [0..<length ?cs] = ?cs"
    by (rule nth_equalityI) (simp_all add: content)
  then have row_is: "row_text ?g row col (col + length ?cs - 1) = text"
    using utf8_valid_concat_chars[OF assms(2)] by (simp only: row_text_def upto map_map)
  have "row < fs_rows ?g" "row \<le> fs_rows ?g - 1" "0 < fs_cols ?g" using assms(5) col by (simp_all add: g)
  moreover have "is_wrapped ?g row = is_wrapped f row" by (simp add: is_wrapped_def g)
  ultimately show ?thesis
    using reads(1) row_is by (simp add: get_text_def Let_def run[symmetric] min_def)
qed

text \<open>
  C19.  What is written reads back.  The character and the style given to \<open>set_cell\<close> are what the readers
  return for that column, colours and attributes bit for bit, and no cell outside the one or two columns
  of the character changes; text of one-column characters that fits its row comes back from \<open>get_text\<close>
  over the columns it covers, up to the white space trimmed at the end of a row that is not wrapped.
\<close>

theorem written_cells_read_back:
  assumes "frame_inv f"
  shows "(is_char ch \<and> set_cell uw f row col ch style = (g, width) \<and> 0 < width
      \<longrightarrow> cell_content g row col = ch \<and> cell_style_at g row col = style
        \<and> (\<forall>r < fs_rows f. \<forall>c < fs_cols f. \<not> (r = row \<and> col \<le> c \<and> c < col + width) \<longrightarrow>
            cell_at (fs_cells g) (r * fs_cols f + c) = cell_at (fs_cells f) (r * fs_cols f + c)))
    \<and> (utf8_valid text \<and> text \<noteq> [] \<and> (\<forall>ch \<in> set (utf8_chars text). uw ch = Some 1)
        \<and> row < fs_rows f \<and> col + length (utf8_chars text) \<le> fs_cols f
      \<longrightarrow> snd (write_text uw f row col text style) = col + length (utf8_chars text)
        \<and> get_text (fst (write_text uw f row col text style)) row col row (col + length (utf8_chars text) - 1)
          = (if is_wrapped f row then text else str_trim_end text))"
  using cell_written_reads_back[OF assms] written_text_reads_back[OF assms] by blast

theorem written_cells_read_back_witness:
  "get_text (fst (write_text narrow_width demo_blank 0 0 [97, 98] default_style)) 0 0 0 1 = [97, 98]"
proof -
  have "str_trim_end [97, 98] = [97, 98]" by code_simp
  moreover have "get_text (fst (write_text narrow_width demo_blank 0 0 [97, 98] default_style)) 0 0 0
      (0 + length (utf8_chars [97, 98]) - 1) = (if is_wrapped demo_blank 0 then [97, 98] else str_trim_end [97, 98])"
    by (rule written_cells_read_back[OF demo_inv(1), THEN conjunct2, THEN mp, THEN conjunct2])
      (simp add: ab_chars narrow_width_def demo_blank_def frame_new_def)
  ultimately show ?thesis by (simp add: ab_chars)
qed

text \<open>
  C20.  Wrapping loses nothing and fits.  However characters and words are measured, the lines a text is
  wrapped into hold its characters in order, all but white space; and every line is empty, or no wider
  than asked for by the wrapper's own count (words that fit as the string measure has them, pieces of
  long words as the sum of their characters with at least one column each, one column before every word
  but the first), or a single character that is too wide for any line.
\<close>

theorem wrapping_keeps_text_and_fits:
  assumes "utf8_valid s" and "0 < width"
  shows "concat (map visible_chars (wrap_text_lines uw uws s width)) = visible_chars s
    \<and> (\<forall>l \<in> set (wrap_text_lines uw uws s width).
        l = [] \<or> (\<exists>n. line_measure uw uws l n \<and> (n \<le> width \<or> is_char l)))"
  using wrap_text_lines_keeps[OF assms, of uw uws] by (simp add: line_fits_def)

theorem wrapping_keeps_text_and_fits_witness:
  "concat (map visible_chars (wrap_text_lines narrow_width narrow_text_width [97, 98] 1)) = [[97], [98]]
    \<and> list_all (line_fits narrow_width narrow_text_width 1) (wrap_text_lines narrow_width narrow_text_width [97, 98] 1)"
  using wrapping_keeps_text_and_fits[OF ab_chars(2), of 1 narrow_width narrow_text_width]
  by (simp add: list_all_iff line_fits_def visible_chars_def ab_chars char_is_whitespace_def)

end
