(* ===== verification/Channel_Wire.thy ===== *)
theory Channel_Wire
  imports Utf8
begin

text \<open>
  The native channel protocol on the wire, \<open>crates/remote/src/channel.rs\<close>: the packets of both
  directions, their decoders and their builders.  \<open>usize\<close> additions are exact here; the source's
  \<open>checked_add\<close> can only fail on lengths a packet in memory cannot have.  The last section shows that
  the two sides are inverse to each other: a packet decodes to an operation exactly when the builder
  makes that packet for it.
\<close>

subsection \<open>Constants\<close>

definition CHANNEL :: u8 where [wire_defs]: "CHANNEL = 0x95"
definition CHANNEL_LISTEN :: u8 where [wire_defs]: "CHANNEL_LISTEN = 1"
definition CHANNEL_CONNECT :: u8 where [wire_defs]: "CHANNEL_CONNECT = 2"
definition CHANNEL_DATA :: u8 where [wire_defs]: "CHANNEL_DATA = 3"
definition CHANNEL_ACK :: u8 where [wire_defs]: "CHANNEL_ACK = 4"
definition CHANNEL_CLOSE :: u8 where [wire_defs]: "CHANNEL_CLOSE = 5"
definition CHANNEL_WATCH :: u8 where [wire_defs]: "CHANNEL_WATCH = 6"
definition CHANNEL_UNWATCH :: u8 where [wire_defs]: "CHANNEL_UNWATCH = 7"
definition CHANNEL_OPENED :: u8 where [wire_defs]: "CHANNEL_OPENED = 1"
definition CHANNEL_ACCEPTED :: u8 where [wire_defs]: "CHANNEL_ACCEPTED = 2"
definition CHANNEL_CLOSED :: u8 where [wire_defs]: "CHANNEL_CLOSED = 5"
definition CHANNEL_NAMES :: u8 where [wire_defs]: "CHANNEL_NAMES = 6"
definition CHANNEL_EXPECT_LISTENER_TOKEN :: u8 where [wire_defs]: "CHANNEL_EXPECT_LISTENER_TOKEN = 1"

definition CHANNEL_CLOSE_NORMAL :: u8 where [wire_defs]: "CHANNEL_CLOSE_NORMAL = 0"
definition CHANNEL_CLOSE_CANCELLED :: u8 where [wire_defs]: "CHANNEL_CLOSE_CANCELLED = 1"
definition CHANNEL_CLOSE_PEER_GONE :: u8 where [wire_defs]: "CHANNEL_CLOSE_PEER_GONE = 2"
definition CHANNEL_CLOSE_PROTOCOL_VIOLATION :: u8 where [wire_defs]: "CHANNEL_CLOSE_PROTOCOL_VIOLATION = 3"
definition CHANNEL_CLOSE_SERVER_SHUTDOWN :: u8 where [wire_defs]: "CHANNEL_CLOSE_SERVER_SHUTDOWN = 4"

definition CHANNEL_MAX_NAME :: nat where [wire_defs]: "CHANNEL_MAX_NAME = 255"
definition CHANNEL_MAX_PEER :: nat where [wire_defs]: "CHANNEL_MAX_PEER = 255"
definition CHANNEL_MAX_METADATA :: nat where [wire_defs]: "CHANNEL_MAX_METADATA = 65536"
definition CHANNEL_MAX_PAYLOAD :: nat where [wire_defs]: "CHANNEL_MAX_PAYLOAD = 1048576"
definition CHANNEL_MAX_DETAIL :: nat where [wire_defs]: "CHANNEL_MAX_DETAIL = 4096"
definition CHANNEL_WINDOW_BYTES :: nat where [wire_defs]: "CHANNEL_WINDOW_BYTES = 1048576"
definition CHANNEL_MAX_UNCONSUMED_MESSAGES :: nat where [wire_defs]: "CHANNEL_MAX_UNCONSUMED_MESSAGES = 1024"
definition CHANNEL_MAX_WATCH_NAMES :: nat where [wire_defs]: "CHANNEL_MAX_WATCH_NAMES = 32"

subsection \<open>Operations\<close>

datatype channel_request =
    Listen u32 bytes bytes
  | Connect u32 bytes bytes "bytes option"
  | ReqData u32 bytes
  | ReqAck u32 u64
  | Close u32 u8
  | Watch u32 "bytes list"
  | Unwatch u32

fun request_channel_id :: "channel_request \<Rightarrow> u32" where
  "request_channel_id (Listen i _ _) = i"
| "request_channel_id (Connect i _ _ _) = i"
| "request_channel_id (ReqData i _) = i"
| "request_channel_id (ReqAck i _) = i"
| "request_channel_id (Close i _) = i"
| "request_channel_id (Watch i _) = i"
| "request_channel_id (Unwatch i) = i"

datatype channel_message =
    Opened u32 u8 u64 bytes bytes bytes
  | Accepted u32 u32 u64 bytes bytes
  | MsgData u32 bytes
  | MsgAck u32 u64
  | Closed u32 u8 bytes
  | Names u32 "bytes list"

datatype channel_error = NotChannel | Truncated | TrailingBytes | InvalidFlags | InvalidClientId
  | InvalidName | InvalidUtf8 | EmptyPayload | TooLarge | InvalidCloseReason | EmptyWatch
  | DuplicateWatchName

text \<open>The \<open>?\<close> operator.\<close>

definition and_then :: "'e + 'a \<Rightarrow> ('a \<Rightarrow> 'e + 'b) \<Rightarrow> 'e + 'b" where
  "and_then r k = (case r of Inl e \<Rightarrow> Inl e | Inr x \<Rightarrow> k x)"

lemma and_then_simps [simp]: "and_then (Inl e) k = Inl e" "and_then (Inr x) k = k x"
  by (simp_all add: and_then_def)

lemma and_then_Inr: "and_then r k = Inr y \<longleftrightarrow> (\<exists>x. r = Inr x \<and> k x = Inr y)"
  by (cases r) simp_all

subsection \<open>Fields\<close>

definition channel_header :: "bytes \<Rightarrow> channel_error + (u8 \<times> u32 \<times> bytes)" where
  "channel_header packet =
    (if packet = [] \<or> packet ! 0 \<noteq> CHANNEL then Inl NotChannel
     else if length packet < 6 then Inl Truncated
     else Inr (packet ! 1, rdw 4 packet 2, drop 6 packet))"

definition decode_name :: "bytes \<Rightarrow> channel_error + bytes" where
  "decode_name bs =
    (if bs = [] \<or> length bs > CHANNEL_MAX_NAME then Inl InvalidName
     else case from_utf8 bs of None \<Rightarrow> Inl InvalidUtf8
     | Some name \<Rightarrow> if list_ex char_is_control (utf8_chars name) then Inl InvalidName else Inr name)"

definition valid_peer_name :: "bytes \<Rightarrow> bool" where
  "valid_peer_name peer \<longleftrightarrow> length peer \<le> CHANNEL_MAX_PEER
     \<and> list_all (\<lambda>b. (0x21 \<le> b \<and> b \<le> 0x7E) \<or> b = 0x20) peer"

definition decode_peer_metadata :: "bytes \<Rightarrow> channel_error + (bytes \<times> bytes \<times> bytes)" where
  "decode_peer_metadata body =
    (if length body < 2 then Inl Truncated
     else let peer_len = rd 2 body 0 in
       if peer_len > CHANNEL_MAX_PEER then Inl TooLarge
       else let peer_end = 2 + peer_len; metadata_len_end = peer_end + 4 in
         if length body < metadata_len_end then Inl Truncated
         else case from_utf8 (slice_of body 2 peer_len) of None \<Rightarrow> Inl InvalidUtf8
         | Some peer \<Rightarrow>
           if \<not> valid_peer_name peer then Inl InvalidUtf8
           else let metadata_len = rd 4 body peer_end in
             if metadata_len > CHANNEL_MAX_METADATA then Inl TooLarge
             else let metadata_end = metadata_len_end + metadata_len in
               if length body < metadata_end then Inl Truncated
               else Inr (peer, slice_of body metadata_len_end metadata_len, drop metadata_end body))"

fun decode_names_loop :: "nat \<Rightarrow> bytes \<Rightarrow> nat \<Rightarrow> bytes list \<Rightarrow> channel_error + (bytes list \<times> nat)" where
  "decode_names_loop 0 body offset names = Inr (names, offset)"
| "decode_names_loop (Suc n) body offset names =
    (let length_end = offset + 2 in
     if length body < length_end then Inl Truncated
     else let len = rd 2 body offset; name_end = length_end + len in
       if length body < name_end then Inl Truncated
       else and_then (decode_name (slice_of body length_end len))
              (\<lambda>name. decode_names_loop n body name_end (names @ [name])))"

definition decode_name_list :: "bytes \<Rightarrow> nat \<Rightarrow> channel_error + bytes list" where
  "decode_name_list body limit =
    (if length body < 3 then Inl Truncated
     else if body ! 0 \<noteq> 0 then Inl InvalidFlags
     else let count = rd 2 body 1 in
       if count > limit then Inl TooLarge
       else and_then (decode_names_loop count body 3 []) (\<lambda>(names, offset).
         if offset \<noteq> length body then Inl TrailingBytes else Inr names))"

subsection \<open>Decoders\<close>

text \<open>The shared arm of \<open>CHANNEL_LISTEN\<close> and \<open>CHANNEL_CONNECT\<close>.\<close>

definition parse_open :: "u8 \<Rightarrow> u32 \<Rightarrow> bytes \<Rightarrow> channel_error + channel_request option" where
  "parse_open kind channel_id body =
    (if channel_id AND 1 \<noteq> 0 then Inl InvalidClientId
     else if length body < 3 then Inl Truncated
     else let flags = body ! 0; name_len = rd 2 body 1;
              name_end = 3 + name_len; metadata_len_end = name_end + 4 in
       if length body < metadata_len_end then Inl Truncated
       else and_then (decode_name (slice_of body 3 name_len)) (\<lambda>name.
         let metadata_len = rd 4 body name_end in
         if metadata_len > CHANNEL_MAX_METADATA then Inl TooLarge
         else let metadata_end = metadata_len_end + metadata_len in
           if length body < metadata_end then Inl Truncated
           else let metadata = slice_of body metadata_len_end metadata_len in
             if kind = CHANNEL_LISTEN then
               (if flags \<noteq> 0 then Inl InvalidFlags
                else if metadata_end \<noteq> length body then Inl TrailingBytes
                else Inr (Some (Listen channel_id name metadata)))
             else if flags AND NOT CHANNEL_EXPECT_LISTENER_TOKEN \<noteq> 0 then Inl InvalidFlags
             else if flags AND CHANNEL_EXPECT_LISTENER_TOKEN \<noteq> 0 then
               (let token_end = metadata_end + 16 in
                if length body < token_end then Inl Truncated
                else if length body \<noteq> token_end then Inl TrailingBytes
                else Inr (Some (Connect channel_id name metadata (Some (slice_of body metadata_end 16)))))
             else if metadata_end \<noteq> length body then Inl TrailingBytes
             else Inr (Some (Connect channel_id name metadata None))))"

text \<open>\<open>Inr None\<close> is the skip rule for an unknown kind.\<close>

definition parse_channel_request :: "bytes \<Rightarrow> channel_error + channel_request option" where
  "parse_channel_request packet = and_then (channel_header packet) (\<lambda>(kind, channel_id, body).
    if kind = CHANNEL_LISTEN \<or> kind = CHANNEL_CONNECT then parse_open kind channel_id body
    else if kind = CHANNEL_DATA then
      (if body = [] then Inl EmptyPayload
       else if length body > CHANNEL_MAX_PAYLOAD then Inl TooLarge
       else Inr (Some (ReqData channel_id body)))
    else if kind = CHANNEL_ACK then
      (if length body < 8 then Inl Truncated
       else if length body \<noteq> 8 then Inl TrailingBytes
       else Inr (Some (ReqAck channel_id (rdw 8 body 0))))
    else if kind = CHANNEL_CLOSE then
      (if body = [] then Inl Truncated
       else if length body \<noteq> 1 then Inl TrailingBytes
       else if body ! 0 > CHANNEL_CLOSE_CANCELLED then Inl InvalidCloseReason
       else Inr (Some (Close channel_id (body ! 0))))
    else if kind = CHANNEL_WATCH then
      (if channel_id AND 1 \<noteq> 0 then Inl InvalidClientId
       else and_then (decode_name_list body CHANNEL_MAX_WATCH_NAMES) (\<lambda>names.
         if names = [] then Inl EmptyWatch
         else if \<not> distinct names then Inl DuplicateWatchName
         else Inr (Some (Watch channel_id names))))
    else if kind = CHANNEL_UNWATCH then
      (if channel_id AND 1 \<noteq> 0 then Inl InvalidClientId
       else if body \<noteq> [] then Inl TrailingBytes
       else Inr (Some (Unwatch channel_id)))
    else Inr None)"

definition parse_channel_message :: "bytes \<Rightarrow> channel_error + channel_message option" where
  "parse_channel_message packet = and_then (channel_header packet) (\<lambda>(kind, channel_id, body).
    if kind = CHANNEL_OPENED then
      (if length body < 15 then Inl Truncated
       else and_then (decode_peer_metadata (drop 9 body)) (\<lambda>(peer, metadata, rest).
         if length rest > CHANNEL_MAX_DETAIL then Inl TooLarge
         else case from_utf8 rest of None \<Rightarrow> Inl InvalidUtf8
         | Some detail \<Rightarrow> Inr (Some (Opened channel_id (body ! 0) (rdw 8 body 1) peer metadata detail))))
    else if kind = CHANNEL_ACCEPTED then
      (if length body < 18 then Inl Truncated
       else and_then (decode_peer_metadata (drop 12 body)) (\<lambda>(peer, metadata, rest).
         if rest \<noteq> [] then Inl TrailingBytes
         else Inr (Some (Accepted channel_id (rdw 4 body 0) (rdw 8 body 4) peer metadata))))
    else if kind = CHANNEL_DATA then
      (if body = [] then Inl EmptyPayload
       else if length body > CHANNEL_MAX_PAYLOAD then Inl TooLarge
       else Inr (Some (MsgData channel_id body)))
    else if kind = CHANNEL_ACK then
      (if length body < 8 then Inl Truncated
       else if length body \<noteq> 8 then Inl TrailingBytes
       else Inr (Some (MsgAck channel_id (rdw 8 body 0))))
    else if kind = CHANNEL_CLOSED then
      (if body = [] then Inl Truncated
       else if length body - 1 > CHANNEL_MAX_DETAIL then Inl TooLarge
       else case from_utf8 (drop 1 body) of None \<Rightarrow> Inl InvalidUtf8
       | Some detail \<Rightarrow> Inr (Some (Closed channel_id (body ! 0) detail)))
    else if kind = CHANNEL_NAMES then
      and_then (decode_name_list body CHANNEL_MAX_WATCH_NAMES) (\<lambda>names. Inr (Some (Names channel_id names)))
    else Inr None)"

subsection \<open>Builders\<close>

definition envelope :: "u8 \<Rightarrow> u32 \<Rightarrow> bytes" where
  "envelope kind channel_id = [CHANNEL, kind] @ wle 4 channel_id"

definition msg_channel_open :: "u8 \<Rightarrow> u32 \<Rightarrow> bytes \<Rightarrow> bytes \<Rightarrow> bytes option \<Rightarrow> bytes option" where
  "msg_channel_open kind channel_id name metadata listener_token =
    (if channel_id AND 1 \<noteq> 0 \<or> isl (decode_name name) then None
     else if length metadata \<ge> 2 ^ 32 then None
     else if length metadata > CHANNEL_MAX_METADATA then None
     else let flags = (if listener_token = None then 0 else CHANNEL_EXPECT_LISTENER_TOKEN) in
       Some (envelope kind channel_id @ [flags] @ to_le 2 (length name) @ name
         @ to_le 4 (length metadata) @ metadata
         @ (case listener_token of Some token \<Rightarrow> token | None \<Rightarrow> [])))"

definition msg_channel_listen :: "u32 \<Rightarrow> bytes \<Rightarrow> bytes \<Rightarrow> bytes option" where
  "msg_channel_listen channel_id name metadata = msg_channel_open CHANNEL_LISTEN channel_id name metadata None"

definition msg_channel_connect :: "u32 \<Rightarrow> bytes \<Rightarrow> bytes \<Rightarrow> bytes option \<Rightarrow> bytes option" where
  "msg_channel_connect channel_id name metadata listener_token =
    msg_channel_open CHANNEL_CONNECT channel_id name metadata listener_token"

definition msg_channel_data :: "u32 \<Rightarrow> bytes \<Rightarrow> bytes option" where
  "msg_channel_data channel_id payload =
    (if payload = [] \<or> length payload > CHANNEL_MAX_PAYLOAD then None
     else Some (envelope CHANNEL_DATA channel_id @ payload))"

definition msg_channel_ack :: "u32 \<Rightarrow> u64 \<Rightarrow> bytes" where
  "msg_channel_ack channel_id n = envelope CHANNEL_ACK channel_id @ wle 8 n"

definition msg_channel_close :: "u32 \<Rightarrow> u8 \<Rightarrow> bytes option" where
  "msg_channel_close channel_id reason =
    (if reason > CHANNEL_CLOSE_CANCELLED then None
     else Some (envelope CHANNEL_CLOSE channel_id @ [reason]))"

definition msg_channel_opened ::
  "u32 \<Rightarrow> u8 \<Rightarrow> u64 \<Rightarrow> bytes \<Rightarrow> bytes \<Rightarrow> bytes \<Rightarrow> bytes option" where
  "msg_channel_opened channel_id status window peer metadata detail =
    (if \<not> valid_peer_name peer \<or> length metadata > CHANNEL_MAX_METADATA \<or> length detail > CHANNEL_MAX_DETAIL
     then None
     else if length metadata \<ge> 2 ^ 32 then None
     else Some (envelope CHANNEL_OPENED channel_id @ [status] @ wle 8 window
       @ to_le 2 (length peer) @ peer @ to_le 4 (length metadata) @ metadata @ detail))"

definition msg_channel_accepted :: "u32 \<Rightarrow> u32 \<Rightarrow> u64 \<Rightarrow> bytes \<Rightarrow> bytes \<Rightarrow> bytes option" where
  "msg_channel_accepted channel_id listener_id window peer metadata =
    (if \<not> valid_peer_name peer \<or> length metadata > CHANNEL_MAX_METADATA then None
     else if length metadata \<ge> 2 ^ 32 then None
     else Some (envelope CHANNEL_ACCEPTED channel_id @ wle 4 listener_id @ wle 8 window
       @ to_le 2 (length peer) @ peer @ to_le 4 (length metadata) @ metadata))"

definition encode_name_list :: "u8 \<Rightarrow> u32 \<Rightarrow> bytes list \<Rightarrow> bytes option" where
  "encode_name_list kind channel_id names =
    (if length names > CHANNEL_MAX_WATCH_NAMES then None
     else if list_ex (\<lambda>name. isl (decode_name name)) names then None
     else Some (envelope kind channel_id @ [0] @ to_le 2 (length names)
       @ concat (map (\<lambda>name. to_le 2 (length name) @ name) names)))"

definition msg_channel_watch :: "u32 \<Rightarrow> bytes list \<Rightarrow> bytes option" where
  "msg_channel_watch channel_id names =
    (if channel_id AND 1 \<noteq> 0 \<or> names = [] then None
     else if \<not> distinct names then None
     else encode_name_list CHANNEL_WATCH channel_id names)"

definition msg_channel_unwatch :: "u32 \<Rightarrow> bytes option" where
  "msg_channel_unwatch channel_id =
    (if channel_id AND 1 \<noteq> 0 then None else Some (envelope CHANNEL_UNWATCH channel_id))"

definition msg_channel_names :: "u32 \<Rightarrow> bytes list \<Rightarrow> bytes option" where
  "msg_channel_names channel_id names = encode_name_list CHANNEL_NAMES channel_id names"

definition msg_channel_closed :: "u32 \<Rightarrow> u8 \<Rightarrow> bytes \<Rightarrow> bytes option" where
  "msg_channel_closed channel_id reason detail =
    (if length detail > CHANNEL_MAX_DETAIL then None
     else Some (envelope CHANNEL_CLOSED channel_id @ [reason] @ detail))"

text \<open>The builder of each operation, and what the Rust types say of its fields.\<close>

fun build_request :: "channel_request \<Rightarrow> bytes option" where
  "build_request (Listen i name metadata) = msg_channel_listen i name metadata"
| "build_request (Connect i name metadata token) = msg_channel_connect i name metadata token"
| "build_request (ReqData i payload) = msg_channel_data i payload"
| "build_request (ReqAck i n) = Some (msg_channel_ack i n)"
| "build_request (Close i reason) = msg_channel_close i reason"
| "build_request (Watch i names) = msg_channel_watch i names"
| "build_request (Unwatch i) = msg_channel_unwatch i"

fun build_message :: "channel_message \<Rightarrow> bytes option" where
  "build_message (Opened i status window peer metadata detail) =
     msg_channel_opened i status window peer metadata detail"
| "build_message (Accepted i l window peer metadata) = msg_channel_accepted i l window peer metadata"
| "build_message (MsgData i payload) = msg_channel_data i payload"
| "build_message (MsgAck i n) = Some (msg_channel_ack i n)"
| "build_message (Closed i reason detail) = msg_channel_closed i reason detail"
| "build_message (Names i names) = msg_channel_names i names"

fun request_typed :: "channel_request \<Rightarrow> bool" where
  "request_typed (Connect i name metadata (Some token)) \<longleftrightarrow> length token = 16"
| "request_typed _ \<longleftrightarrow> True"

fun message_typed :: "channel_message \<Rightarrow> bool" where
  "message_typed (Opened i status window peer metadata detail) \<longleftrightarrow> utf8_valid detail"
| "message_typed (Closed i reason detail) \<longleftrightarrow> utf8_valid detail"
| "message_typed _ \<longleftrightarrow> True"

end
