(* ===== verification/Channel_Roundtrip.thy ===== *)
theory Channel_Roundtrip
  imports Channel_Wire
begin

text \<open>
  The decoders of \<open>Channel_Wire\<close> accept exactly what its builders produce.  Each field reader is
  characterised by an equivalence between reading and the shape of the buffer, and the two packet
  decoders are assembled from these.
\<close>

subsection \<open>Field readers\<close>

lemma channel_header_iff:
  "channel_header packet = Inr (k, i, body) \<longleftrightarrow> packet = envelope k i @ body"
proof
  assume h: "channel_header packet = Inr (k, i, body)"
  then have p: "6 \<le> length packet" "packet ! 0 = CHANNEL" "k = packet ! 1" "i = rdw 4 packet 2" "body = drop 6 packet"
    by (auto simp: channel_header_def split: if_splits)
  have "packet = drop 0 packet" by simp
  also have "\<dots> = [packet ! 0] @ drop 1 packet" by (rule buffer_head) (use p(1) in auto)
  also have "drop 1 packet = [packet ! 1] @ drop 2 packet" by (rule buffer_head) (use p(1) in auto)
  also have "drop 2 packet = slice_of packet 2 4 @ drop 6 packet" by (rule buffer_split) simp
  finally show "packet = envelope k i @ body"
    using p wle_rdw[of 4 2 packet, where 'a = 32] by (simp add: envelope_def)
next
  assume p: "packet = envelope k i @ body"
  have "rdw 4 ([CHANNEL, k] @ wle 4 i @ body) 2 = i" by (rule rdw_at) simp_all
  then show "channel_header packet = Inr (k, i, body)"
    by (simp add: p channel_header_def envelope_def)
qed

definition name_ok :: "bytes \<Rightarrow> bool" where
  "name_ok name \<longleftrightarrow> name \<noteq> [] \<and> length name \<le> CHANNEL_MAX_NAME \<and> utf8_valid name
     \<and> \<not> list_ex char_is_control (utf8_chars name)"

lemma decode_name_iff: "decode_name bs = Inr name \<longleftrightarrow> name = bs \<and> name_ok bs"
  by (auto simp: decode_name_def name_ok_def from_utf8_def)

lemma isl_decode_name: "isl (decode_name bs) \<longleftrightarrow> \<not> name_ok bs"
  by (auto simp: decode_name_def name_ok_def from_utf8_def)

lemma name_ok_length: "name_ok name \<Longrightarrow> length name < 65536"
  by (simp add: name_ok_def CHANNEL_MAX_NAME_def)

lemma valid_peer_utf8: "valid_peer_name peer \<Longrightarrow> utf8_valid peer"
proof (rule utf8_valid_ascii)
  assume "valid_peer_name peer"
  moreover have "(0x21 \<le> b \<and> b \<le> 0x7E) \<or> b = 0x20 \<Longrightarrow> b < 0x80" for b :: u8
    by (auto intro: le_less_trans)
  ultimately show "list_all (\<lambda>b. b < 0x80) peer"
    by (auto simp: valid_peer_name_def elim!: list.pred_mono_strong)
qed

lemma decode_peer_metadata_iff:
  "decode_peer_metadata body = Inr (peer, metadata, rest) \<longleftrightarrow>
     valid_peer_name peer \<and> length metadata \<le> CHANNEL_MAX_METADATA \<and>
     body = to_le 2 (length peer) @ peer @ to_le 4 (length metadata) @ metadata @ rest"
proof
  assume d: "decode_peer_metadata body = Inr (peer, metadata, rest)"
  define pl where "pl = rd 2 body 0"
  define ml where "ml = rd 4 body (2 + pl)"
  have len: "2 + pl + 4 + ml \<le> length body" and peer: "peer = slice_of body 2 pl" "valid_peer_name peer"
    and ml: "ml \<le> CHANNEL_MAX_METADATA"
    and md: "metadata = slice_of body (2 + pl + 4) ml" "rest = drop (2 + pl + 4 + ml) body"
    using d by (auto simp: decode_peer_metadata_def Let_def pl_def ml_def split: if_splits option.splits)
  have "body = drop 0 body" by simp
  also have "\<dots> = slice_of body 0 2 @ drop 2 body" by (rule buffer_split) simp
  also have "drop 2 body = slice_of body 2 pl @ drop (2 + pl) body" by (rule buffer_split) simp
  also have "drop (2 + pl) body = slice_of body (2 + pl) 4 @ drop (2 + pl + 4) body" by (rule buffer_split) simp
  also have "drop (2 + pl + 4) body = metadata @ rest" unfolding md by (rule buffer_split) simp
  finally have "body = slice_of body 0 2 @ slice_of body 2 pl @ slice_of body (2 + pl) 4 @ metadata @ rest" .
  moreover have "slice_of body 0 2 = to_le 2 (length peer)"
    using to_le_rd[of 0 2 body] len peer(1) by (simp add: pl_def)
  moreover have "slice_of body (2 + pl) 4 = to_le 4 (length metadata)"
    using to_le_rd[of "2 + pl" 4 body] len md(1) by (simp add: ml_def)
  ultimately show "valid_peer_name peer \<and> length metadata \<le> CHANNEL_MAX_METADATA \<and>
     body = to_le 2 (length peer) @ peer @ to_le 4 (length metadata) @ metadata @ rest"
    using peer ml len md(1) by simp
next
  assume "valid_peer_name peer \<and> length metadata \<le> CHANNEL_MAX_METADATA \<and>
     body = to_le 2 (length peer) @ peer @ to_le 4 (length metadata) @ metadata @ rest"
  then have ok: "valid_peer_name peer" "length metadata \<le> CHANNEL_MAX_METADATA"
    and body: "body = to_le 2 (length peer) @ peer @ to_le 4 (length metadata) @ metadata @ rest" by simp_all
  have short: "length peer \<le> CHANNEL_MAX_PEER" "length peer < 65536" "length metadata < 4294967296"
    using ok by (simp_all add: valid_peer_name_def CHANNEL_MAX_PEER_def CHANNEL_MAX_METADATA_def)
  have r1: "rd 2 body 0 = length peer" unfolding body using short by (simp add: rd_head)
  have r2: "slice_of body 2 (length peer) = peer" unfolding body by (rule slice_at) simp_all
  have r3: "rd 4 body (2 + length peer) = length metadata"
    using rd_at[of "to_le 2 (length peer) @ peer" "2 + length peer" 4 "length metadata" "metadata @ rest"] short
    by (simp add: body)
  have r4: "slice_of body (2 + length peer + 4) (length metadata) = metadata"
    using slice_at[of "to_le 2 (length peer) @ peer @ to_le 4 (length metadata)" "2 + length peer + 4"
        "length metadata" metadata rest] by (simp add: body)
  have r5: "drop (2 + length peer + 4 + length metadata) body = rest" by (simp add: body)
  have len: "length body = 2 + length peer + 4 + length metadata + length rest" by (simp add: body)
  show "decode_peer_metadata body = Inr (peer, metadata, rest)"
    unfolding decode_peer_metadata_def Let_def r1 r2 r3 r4 r5 len
    using ok short valid_peer_utf8[OF ok(1)] by (simp add: from_utf8_def)
qed

subsection \<open>Name lists\<close>

definition name_entry :: "bytes \<Rightarrow> bytes" where
  "name_entry name = to_le 2 (length name) @ name"

lemma decode_names_loop_encode:
  "\<forall>m \<in> set ms. name_ok m \<Longrightarrow>
    decode_names_loop (length ms) (pre @ concat (map name_entry ms) @ rest) (length pre) acc
      = Inr (acc @ ms, length pre + length (concat (map name_entry ms)))"
proof (induction ms arbitrary: pre acc)
  case (Cons m ms)
  let ?p = "pre @ concat (map name_entry (m # ms)) @ rest"
  have m: "name_ok m" "length m < 65536" using Cons.prems name_ok_length by simp_all
  have p: "?p = (pre @ name_entry m) @ concat (map name_entry ms) @ rest" by simp
  have r1: "rd 2 ?p (length pre) = length m"
    using rd_at[of pre "length pre" 2 "length m" "m @ concat (map name_entry ms) @ rest"] m(2)
    by (simp add: name_entry_def)
  have r2: "slice_of ?p (length pre + 2) (length m) = m"
    using slice_at[of "pre @ to_le 2 (length m)" "length pre + 2" "length m" m "concat (map name_entry ms) @ rest"]
    by (simp add: name_entry_def)
  have len: "length ?p = length pre + 2 + length m + length (concat (map name_entry ms) @ rest)"
    by (simp add: name_entry_def)
  have name: "decode_name m = Inr m" using m by (simp add: decode_name_iff)
  have "decode_names_loop (length (m # ms)) ?p (length pre) acc
      = decode_names_loop (length ms) ?p (length pre + 2 + length m) (acc @ [m])"
    unfolding list.size(4) add_0_right add_Suc_right decode_names_loop.simps Let_def r1 r2 len name by simp
  also have "length pre + 2 + length m = length (pre @ name_entry m)" by (simp add: name_entry_def)
  also have "decode_names_loop (length ms) ?p (length (pre @ name_entry m)) (acc @ [m])
      = Inr ((acc @ [m]) @ ms, length (pre @ name_entry m) + length (concat (map name_entry ms)))"
    unfolding p by (rule Cons.IH) (use Cons.prems in simp)
  finally show ?case by simp
qed simp

lemma decode_names_loop_decode:
  "decode_names_loop n body off acc = Inr (names, off') \<Longrightarrow> off \<le> length body \<Longrightarrow>
    \<exists>ms. names = acc @ ms \<and> length ms = n \<and> (\<forall>m \<in> set ms. name_ok m) \<and> off' \<le> length body
      \<and> drop off body = concat (map name_entry ms) @ drop off' body"
proof (induction n arbitrary: off acc)
  case (Suc n)
  define len where "len = rd 2 body off"
  have fits: "off + 2 + len \<le> length body" and name: "name_ok (slice_of body (off + 2) len)"
    and rest: "decode_names_loop n body (off + 2 + len) (acc @ [slice_of body (off + 2) len]) = Inr (names, off')"
    using Suc.prems(1) by (auto simp: Let_def len_def and_then_Inr decode_name_iff split: if_splits)
  obtain ms where ms: "names = (acc @ [slice_of body (off + 2) len]) @ ms" "length ms = n" "\<forall>m \<in> set ms. name_ok m"
      "off' \<le> length body" "drop (off + 2 + len) body = concat (map name_entry ms) @ drop off' body"
    using Suc.IH[OF rest fits] by blast
  have "drop off body = slice_of body off 2 @ drop (off + 2) body" by (rule buffer_split) simp
  also have "drop (off + 2) body = slice_of body (off + 2) len @ drop (off + 2 + len) body"
    by (rule buffer_split) simp
  also have "slice_of body off 2 = to_le 2 (length (slice_of body (off + 2) len))"
    using to_le_rd[of off 2 body] fits by (simp add: len_def)
  finally have "drop off body = name_entry (slice_of body (off + 2) len) @ drop (off + 2 + len) body"
    by (simp add: name_entry_def)
  then show ?case using ms name
    by (intro exI[of _ "slice_of body (off + 2) len # ms"]) simp
qed simp

lemma decode_name_list_iff:
  assumes "limit < 65536"
  shows "decode_name_list body limit = Inr names \<longleftrightarrow> length names \<le> limit \<and> (\<forall>m \<in> set names. name_ok m)
    \<and> body = [0] @ to_le 2 (length names) @ concat (map name_entry names)"
proof
  assume d: "decode_name_list body limit = Inr names"
  then have len: "3 \<le> length body" "body ! 0 = 0" "rd 2 body 1 \<le> limit"
    and loop: "decode_names_loop (rd 2 body 1) body 3 [] = Inr (names, length body)"
    by (auto simp: decode_name_list_def Let_def and_then_Inr split: if_splits)
  have names: "length names = rd 2 body 1" "\<forall>m \<in> set names. name_ok m"
    "drop 3 body = concat (map name_entry names)"
    using decode_names_loop_decode[OF loop len(1)] by auto
  have "body = drop 0 body" by simp
  also have "\<dots> = [body ! 0] @ drop 1 body" by (rule buffer_head) (use len(1) in auto)
  also have "drop 1 body = slice_of body 1 2 @ drop 3 body" by (rule buffer_split) simp
  finally show "length names \<le> limit \<and> (\<forall>m \<in> set names. name_ok m)
    \<and> body = [0] @ to_le 2 (length names) @ concat (map name_entry names)"
    using len names to_le_rd[of 1 2 body] by simp
next
  assume "length names \<le> limit \<and> (\<forall>m \<in> set names. name_ok m)
    \<and> body = [0] @ to_le 2 (length names) @ concat (map name_entry names)"
  then have ok: "length names \<le> limit" "\<forall>m \<in> set names. name_ok m"
    and body: "body = ([0] @ to_le 2 (length names)) @ concat (map name_entry names) @ []" by simp_all
  have "rd 2 body 1 = length names"
    unfolding body using rd_at[of "[0]" 1 2 "length names" "concat (map name_entry names)"] ok(1) assms by simp
  moreover have "decode_names_loop (length names) body 3 [] = Inr (names, length body)"
    using decode_names_loop_encode[OF ok(2), of "[0] @ to_le 2 (length names)" "[]" "[]"] by (simp add: body)
  ultimately show "decode_name_list body limit = Inr names"
    using ok(1) by (simp add: decode_name_list_def Let_def) (simp add: body)
qed

lemma encode_name_list_iff:
  "encode_name_list kind i names = Some w \<longleftrightarrow> length names \<le> CHANNEL_MAX_WATCH_NAMES \<and> (\<forall>m \<in> set names. name_ok m)
    \<and> w = envelope kind i @ [0] @ to_le 2 (length names) @ concat (map name_entry names)"
proof -
  have "(\<lambda>name. to_le 2 (length name) @ name) = name_entry" by (auto simp: name_entry_def)
  then show ?thesis by (auto simp: encode_name_list_def isl_decode_name list_ex_iff)
qed

subsection \<open>Opening packets\<close>

definition open_body :: "u8 \<Rightarrow> bytes \<Rightarrow> bytes \<Rightarrow> bytes \<Rightarrow> bytes" where
  "open_body flags name metadata tail =
    [flags] @ to_le 2 (length name) @ name @ to_le 4 (length metadata) @ metadata @ tail"

definition finish_open :: "u8 \<Rightarrow> u32 \<Rightarrow> u8 \<Rightarrow> bytes \<Rightarrow> bytes \<Rightarrow> bytes
    \<Rightarrow> channel_error + channel_request option" where
  "finish_open kind i flags name metadata tail =
    (if kind = CHANNEL_LISTEN then
       (if flags \<noteq> 0 then Inl InvalidFlags
        else if tail \<noteq> [] then Inl TrailingBytes else Inr (Some (Listen i name metadata)))
     else if flags AND NOT CHANNEL_EXPECT_LISTENER_TOKEN \<noteq> 0 then Inl InvalidFlags
     else if flags AND CHANNEL_EXPECT_LISTENER_TOKEN \<noteq> 0 then
       (if length tail < 16 then Inl Truncated
        else if length tail \<noteq> 16 then Inl TrailingBytes
        else Inr (Some (Connect i name metadata (Some tail))))
     else if tail \<noteq> [] then Inl TrailingBytes else Inr (Some (Connect i name metadata None)))"

lemma parse_open_shape:
  assumes "i AND 1 = 0" "name_ok name" "length metadata \<le> CHANNEL_MAX_METADATA"
  shows "parse_open kind i (open_body flags name metadata tail) = finish_open kind i flags name metadata tail"
proof -
  let ?b = "open_body flags name metadata tail"
  have short: "length name < 65536" "length metadata < 4294967296"
    using name_ok_length[OF assms(2)] assms(3) by (simp_all add: CHANNEL_MAX_METADATA_def)
  have r0: "?b ! 0 = flags" by (simp add: open_body_def)
  have r1: "rd 2 ?b 1 = length name"
    using rd_at[of "[flags]" 1 2 "length name" "name @ to_le 4 (length metadata) @ metadata @ tail"] short
    by (simp add: open_body_def)
  have r2: "slice_of ?b 3 (length name) = name"
    using slice_at[of "[flags] @ to_le 2 (length name)" 3 "length name" name "to_le 4 (length metadata) @ metadata @ tail"]
    by (simp add: open_body_def)
  have r3: "rd 4 ?b (3 + length name) = length metadata"
    using rd_at[of "[flags] @ to_le 2 (length name) @ name" "3 + length name" 4 "length metadata" "metadata @ tail"] short
    by (simp add: open_body_def)
  have r4: "slice_of ?b (3 + length name + 4) (length metadata) = metadata"
    using slice_at[of "[flags] @ to_le 2 (length name) @ name @ to_le 4 (length metadata)" "3 + length name + 4"
      "length metadata" metadata tail] by (simp add: open_body_def)
  have r5: "drop (3 + length name + 4 + length metadata) ?b = tail"
    using drop_length_append[of "[flags] @ to_le 2 (length name) @ name @ to_le 4 (length metadata) @ metadata" tail]
    by (simp add: open_body_def add.assoc)
  have r6: "length tail = 16 \<Longrightarrow> slice_of ?b (3 + length name + 4 + length metadata) 16 = tail"
    using r5 by (simp add: slice_of_def)
  have len: "length ?b = 3 + length name + 4 + length metadata + length tail" by (simp add: open_body_def)
  have name: "decode_name name = Inr name" using assms(2) by (simp add: decode_name_iff)
  show ?thesis
    unfolding parse_open_def Let_def r0 r1 r2 name and_then_simps r3 r4 len finish_open_def
    using assms r6 by simp
qed

lemma parse_open_fields:
  assumes "parse_open kind i body = Inr x"
  obtains flags name metadata tail where "i AND 1 = 0" "name_ok name" "length metadata \<le> CHANNEL_MAX_METADATA"
    "body = open_body flags name metadata tail"
proof -
  define nl where "nl = rd 2 body 1"
  define ml where "ml = rd 4 body (3 + nl)"
  have i: "i AND 1 = 0" and len3: "3 \<le> length body" and name: "name_ok (slice_of body 3 nl)"
    and ml: "ml \<le> CHANNEL_MAX_METADATA" and len: "3 + nl + 4 + ml \<le> length body"
    using assms
    by (auto simp: parse_open_def Let_def and_then_Inr decode_name_iff nl_def ml_def split: if_splits)
  have "body = drop 0 body" by simp
  also have "\<dots> = [body ! 0] @ drop 1 body" by (rule buffer_head) (use len3 in auto)
  also have "drop 1 body = slice_of body 1 2 @ drop 3 body" by (rule buffer_split) simp
  also have "drop 3 body = slice_of body 3 nl @ drop (3 + nl) body" by (rule buffer_split) simp
  also have "drop (3 + nl) body = slice_of body (3 + nl) 4 @ drop (3 + nl + 4) body" by (rule buffer_split) simp
  also have "drop (3 + nl + 4) body = slice_of body (3 + nl + 4) ml @ drop (3 + nl + 4 + ml) body"
    by (rule buffer_split) simp
  also have "slice_of body 1 2 = to_le 2 (length (slice_of body 3 nl))"
    using to_le_rd[of 1 2 body] len3 len by (simp add: nl_def)
  also have "slice_of body (3 + nl) 4 = to_le 4 (length (slice_of body (3 + nl + 4) ml))"
    using to_le_rd[of "3 + nl" 4 body] len by (simp add: ml_def)
  finally have "body = open_body (body ! 0) (slice_of body 3 nl) (slice_of body (3 + nl + 4) ml)
      (drop (3 + nl + 4 + ml) body)"
    by (simp only: open_body_def)
  then show ?thesis by (rule that[OF i name, rotated]) (use ml in simp)
qed

lemma token_flags:
  "flags AND NOT CHANNEL_EXPECT_LISTENER_TOKEN = 0 \<Longrightarrow>
    flags = (if flags AND CHANNEL_EXPECT_LISTENER_TOKEN = 0 then 0 else CHANNEL_EXPECT_LISTENER_TOKEN)"
proof -
  assume "flags AND NOT CHANNEL_EXPECT_LISTENER_TOKEN = 0"
  then have "flags = flags AND CHANNEL_EXPECT_LISTENER_TOKEN"
    by (metis bit.conj_disj_distrib bit.disj_cancel_right bit.conj_one_right or.right_neutral)
  moreover have "flags AND 1 = 0 \<or> flags AND 1 = 1" by (simp add: and_one_eq mod2_eq_if)
  ultimately show ?thesis by (auto simp: CHANNEL_EXPECT_LISTENER_TOKEN_def)
qed

definition token_bytes :: "bytes option \<Rightarrow> bytes" where
  "token_bytes token = (case token of Some t \<Rightarrow> t | None \<Rightarrow> [])"

definition token_flag :: "bytes option \<Rightarrow> u8" where
  "token_flag token = (if token = None then 0 else CHANNEL_EXPECT_LISTENER_TOKEN)"

lemma parse_listen_iff:
  "parse_open CHANNEL_LISTEN i body = Inr (Some r) \<longleftrightarrow> (\<exists>name metadata. r = Listen i name metadata
     \<and> i AND 1 = 0 \<and> name_ok name \<and> length metadata \<le> CHANNEL_MAX_METADATA
     \<and> body = open_body 0 name metadata [])" (is "?l \<longleftrightarrow> ?r")
proof
  assume ?l
  then show ?r
    by (elim parse_open_fields[of CHANNEL_LISTEN i body])
      (use \<open>?l\<close> in \<open>auto simp: parse_open_shape finish_open_def split: if_splits\<close>)
next
  assume ?r
  then show ?l by (auto simp: parse_open_shape finish_open_def)
qed

lemma parse_connect_iff:
  "parse_open CHANNEL_CONNECT i body = Inr (Some r) \<longleftrightarrow> (\<exists>name metadata token. r = Connect i name metadata token
     \<and> i AND 1 = 0 \<and> name_ok name \<and> length metadata \<le> CHANNEL_MAX_METADATA \<and> request_typed r
     \<and> body = open_body (token_flag token) name metadata (token_bytes token))" (is "?l \<longleftrightarrow> ?r")
proof
  assume l: ?l
  obtain flags name metadata tail where f: "i AND 1 = 0" "name_ok name" "length metadata \<le> CHANNEL_MAX_METADATA"
    "body = open_body flags name metadata tail" by (rule parse_open_fields[OF l])
  have fin: "finish_open CHANNEL_CONNECT i flags name metadata tail = Inr (Some r)"
    using l f by (simp add: parse_open_shape)
  have kind: "CHANNEL_CONNECT \<noteq> CHANNEL_LISTEN" by (simp add: CHANNEL_CONNECT_def CHANNEL_LISTEN_def)
  show ?r
  proof (cases "flags AND CHANNEL_EXPECT_LISTENER_TOKEN = 0")
    case True
    then have "flags = 0" "tail = []" "r = Connect i name metadata None"
      using fin kind token_flags[of flags] by (auto simp: finish_open_def split: if_splits)
    then show ?thesis using f
      by (intro exI[of _ name] exI[of _ metadata] exI[of _ None]) (simp add: token_flag_def token_bytes_def)
  next
    case False
    then have "flags = CHANNEL_EXPECT_LISTENER_TOKEN" "length tail = 16" "r = Connect i name metadata (Some tail)"
      using fin kind token_flags[of flags] by (auto simp: finish_open_def split: if_splits)
    then show ?thesis using f
      by (intro exI[of _ name] exI[of _ metadata] exI[of _ "Some tail"]) (simp add: token_flag_def token_bytes_def)
  qed
next
  assume ?r
  then obtain name metadata token where *: "r = Connect i name metadata token" "i AND 1 = 0" "name_ok name"
    "length metadata \<le> CHANNEL_MAX_METADATA" "request_typed r"
    "body = open_body (token_flag token) name metadata (token_bytes token)" by blast
  then show ?l
    by (cases token) (simp_all add: parse_open_shape finish_open_def token_flag_def token_bytes_def
      CHANNEL_CONNECT_def CHANNEL_LISTEN_def CHANNEL_EXPECT_LISTENER_TOKEN_def)
qed

lemma msg_channel_open_iff:
  "msg_channel_open kind i name metadata token = Some w \<longleftrightarrow> i AND 1 = 0 \<and> name_ok name
     \<and> length metadata \<le> CHANNEL_MAX_METADATA
     \<and> w = envelope kind i @ open_body (token_flag token) name metadata (token_bytes token)"
  by (auto simp: msg_channel_open_def isl_decode_name Let_def open_body_def token_flag_def token_bytes_def
    CHANNEL_MAX_METADATA_def split: option.splits)

subsection \<open>Packets\<close>

lemma envelope_inj: "envelope k i @ b = envelope k' i' @ b' \<longleftrightarrow> k = k' \<and> i = i' \<and> b = b'"
proof
  assume "envelope k i @ b = envelope k' i' @ b'"
  then have "channel_header (envelope k i @ b) = Inr (k', i', b')" by (simp add: channel_header_iff)
  moreover have "channel_header (envelope k i @ b) = Inr (k, i, b)" by (simp add: channel_header_iff)
  ultimately show "k = k' \<and> i = i' \<and> b = b'" by simp
qed simp

lemma u64_field: "length body = 8 \<Longrightarrow> wle 8 (rdw 8 body 0 :: u64) = body" "rdw 8 (wle 8 n) 0 = (n :: u64)"
  using wle_rdw[of 8 0 body, where 'a = 64] rdw_head[of 8 n "[]"]
  by (simp_all add: slice_of_def)

lemma one_byte: "length b = 1 \<longleftrightarrow> b = [b ! 0]"
  by (cases b) auto

lemma header_envelope: "channel_header (envelope kind i @ body) = Inr (kind, i, body)"
  by (simp add: channel_header_iff)

lemmas kinds = CHANNEL_LISTEN_def CHANNEL_CONNECT_def CHANNEL_DATA_def CHANNEL_ACK_def CHANNEL_CLOSE_def
  CHANNEL_WATCH_def CHANNEL_UNWATCH_def CHANNEL_OPENED_def CHANNEL_ACCEPTED_def CHANNEL_CLOSED_def
  CHANNEL_NAMES_def

lemmas watch_list_iff = decode_name_list_iff[of CHANNEL_MAX_WATCH_NAMES, unfolded CHANNEL_MAX_WATCH_NAMES_def, simplified,
  folded CHANNEL_MAX_WATCH_NAMES_def]

lemma parse_request_build:
  assumes "parse_channel_request (envelope kind i @ body) = Inr (Some r)"
  shows "build_request r = Some (envelope kind i @ body) \<and> request_typed r"
proof -
  note p = assms[unfolded parse_channel_request_def header_envelope and_then_simps prod.case]
  consider "kind = CHANNEL_LISTEN" | "kind = CHANNEL_CONNECT" | "kind = CHANNEL_DATA" | "kind = CHANNEL_ACK"
    | "kind = CHANNEL_CLOSE" | "kind = CHANNEL_WATCH" | "kind = CHANNEL_UNWATCH"
    using p by (auto split: if_splits)
  then show ?thesis
  proof cases
    case 1
    then have "parse_open CHANNEL_LISTEN i body = Inr (Some r)" using p by simp
    then show ?thesis
      using 1 by (auto simp: parse_listen_iff msg_channel_listen_def msg_channel_open_iff token_flag_def token_bytes_def)
  next
    case 2
    then have "parse_open CHANNEL_CONNECT i body = Inr (Some r)" using p by simp
    then show ?thesis
      using 2 by (auto simp: parse_connect_iff msg_channel_connect_def msg_channel_open_iff)
  next
    case 3
    then show ?thesis using p by (auto simp: kinds msg_channel_data_def split: if_splits)
  next
    case 4
    then show ?thesis using p by (auto simp: kinds msg_channel_ack_def u64_field split: if_splits)
  next
    case 5
    then show ?thesis using p one_byte[of body]
      by (auto simp: kinds msg_channel_close_def split: if_splits)
  next
    case 6
    then show ?thesis
      using p by (auto simp: kinds watch_list_iff and_then_Inr msg_channel_watch_def encode_name_list_iff split: if_splits)
  next
    case 7
    then show ?thesis using p by (auto simp: kinds msg_channel_unwatch_def split: if_splits)
  qed
qed

lemma build_request_parse:
  assumes "build_request r = Some w" "request_typed r"
  shows "parse_channel_request w = Inr (Some r)"
proof -
  note start = parse_channel_request_def header_envelope
  show ?thesis
  proof (cases r)
    case (Listen i name metadata)
    then have "i AND 1 = 0" "name_ok name" "length metadata \<le> CHANNEL_MAX_METADATA"
      and w: "w = envelope CHANNEL_LISTEN i @ open_body 0 name metadata []"
      using assms by (simp_all add: msg_channel_listen_def msg_channel_open_iff token_flag_def token_bytes_def)
    then show ?thesis using Listen unfolding w start by (simp add: parse_listen_iff)
  next
    case (Connect i name metadata token)
    then have "i AND 1 = 0" "name_ok name" "length metadata \<le> CHANNEL_MAX_METADATA" "request_typed r"
      and w: "w = envelope CHANNEL_CONNECT i @ open_body (token_flag token) name metadata (token_bytes token)"
      using assms by (simp_all add: msg_channel_connect_def msg_channel_open_iff)
    then have "parse_open CHANNEL_CONNECT i (open_body (token_flag token) name metadata (token_bytes token)) = Inr (Some r)"
      using Connect by (subst parse_connect_iff) blast
    then show ?thesis unfolding w start by simp
  next
    case (ReqData i payload)
    then show ?thesis using assms by (auto simp: msg_channel_data_def start kinds split: if_splits)
  next
    case (ReqAck i n)
    then show ?thesis using assms by (auto simp: msg_channel_ack_def start kinds u64_field)
  next
    case (Close i reason)
    then show ?thesis using assms by (auto simp: msg_channel_close_def start kinds split: if_splits)
  next
    case (Watch i names)
    then have ok: "i AND 1 = 0" "names \<noteq> []" "distinct names" "encode_name_list CHANNEL_WATCH i names = Some w"
      using assms by (auto simp: msg_channel_watch_def split: if_splits)
    then have w: "w = envelope CHANNEL_WATCH i @ ([0] @ to_le 2 (length names) @ concat (map name_entry names))"
      and "decode_name_list ([0] @ to_le 2 (length names) @ concat (map name_entry names)) CHANNEL_MAX_WATCH_NAMES = Inr names"
      by (simp_all add: encode_name_list_iff watch_list_iff)
    then show ?thesis using Watch ok(1-3) unfolding w start by (simp add: kinds)
  next
    case (Unwatch i)
    then show ?thesis
      using assms header_envelope[of CHANNEL_UNWATCH i "[]"]
      by (auto simp: msg_channel_unwatch_def parse_channel_request_def kinds split: if_splits)
  qed
qed

lemma parse_request_header:
  "parse_channel_request w = Inr (Some r) \<Longrightarrow> \<exists>kind i body. w = envelope kind i @ body"
  by (auto simp: parse_channel_request_def and_then_Inr channel_header_iff)

lemma parse_request_iff:
  "parse_channel_request w = Inr (Some r) \<longleftrightarrow> build_request r = Some w \<and> request_typed r"
  using parse_request_build build_request_parse parse_request_header by blast

subsection \<open>Server messages\<close>

lemma parse_message_build:
  assumes "parse_channel_message (envelope kind i @ body) = Inr (Some m)"
  shows "build_message m = Some (envelope kind i @ body) \<and> message_typed m"
proof -
  note p = assms[unfolded parse_channel_message_def header_envelope and_then_simps prod.case]
  have small: "length md \<le> CHANNEL_MAX_METADATA \<Longrightarrow> \<not> length md \<ge> 2 ^ 32" for md :: bytes
    by (simp add: CHANNEL_MAX_METADATA_def)
  consider "kind = CHANNEL_OPENED" | "kind = CHANNEL_ACCEPTED" | "kind = CHANNEL_DATA" | "kind = CHANNEL_ACK"
    | "kind = CHANNEL_CLOSED" | "kind = CHANNEL_NAMES"
    using p by (auto split: if_splits)
  then show ?thesis
  proof cases
    case 1
    then obtain peer metadata rest where len: "15 \<le> length body"
      and pm: "decode_peer_metadata (drop 9 body) = Inr (peer, metadata, rest)"
      and rest: "length rest \<le> CHANNEL_MAX_DETAIL" "utf8_valid rest"
      and m: "m = Opened i (body ! 0) (rdw 8 body 1) peer metadata rest"
      using p by (auto simp: and_then_Inr kinds split: if_splits option.splits)
    have "body = drop 0 body" by simp
    also have "\<dots> = [body ! 0] @ drop 1 body" by (rule buffer_head) (use len in auto)
    also have "drop 1 body = slice_of body 1 8 @ drop 9 body" by (rule buffer_split) simp
    also have "slice_of body 1 8 = wle 8 (rdw 8 body 1 :: u64)" by (rule wle_rdw[symmetric]) (use len in simp_all)
    finally have "body = [body ! 0] @ wle 8 (rdw 8 body 1 :: u64) @ drop 9 body" .
    then show ?thesis
      using 1 m rest pm small[of metadata] by (auto simp: decode_peer_metadata_iff msg_channel_opened_def)
  next
    case 2
    then obtain peer metadata where len: "18 \<le> length body"
      and pm: "decode_peer_metadata (drop 12 body) = Inr (peer, metadata, [])"
      and m: "m = Accepted i (rdw 4 body 0) (rdw 8 body 4) peer metadata"
      using p by (auto simp: and_then_Inr kinds split: if_splits)
    have "body = drop 0 body" by simp
    also have "drop 0 body = slice_of body 0 4 @ drop 4 body" by (rule buffer_split) simp
    also have "drop 4 body = slice_of body 4 8 @ drop 12 body" by (rule buffer_split) simp
    also have "slice_of body 0 4 = wle 4 (rdw 4 body 0 :: u32)" by (rule wle_rdw[symmetric]) (use len in simp_all)
    also have "slice_of body 4 8 = wle 8 (rdw 8 body 4 :: u64)" by (rule wle_rdw[symmetric]) (use len in simp_all)
    finally have "body = wle 4 (rdw 4 body 0 :: u32) @ wle 8 (rdw 8 body 4 :: u64) @ drop 12 body" .
    then show ?thesis
      using 2 m pm small[of metadata] by (auto simp: decode_peer_metadata_iff msg_channel_accepted_def)
  next
    case 3
    then show ?thesis using p by (auto simp: kinds msg_channel_data_def split: if_splits)
  next
    case 4
    then show ?thesis using p by (auto simp: kinds msg_channel_ack_def u64_field split: if_splits)
  next
    case 5
    then have "body \<noteq> []" "length (drop 1 body) \<le> CHANNEL_MAX_DETAIL" "utf8_valid (drop 1 body)"
      and m: "m = Closed i (body ! 0) (drop 1 body)"
      using p by (auto simp: kinds split: if_splits option.splits)
    moreover have "body = [body ! 0] @ drop 1 body" using \<open>body \<noteq> []\<close> by (cases body) simp_all
    ultimately show ?thesis using 5 by (simp add: msg_channel_closed_def)
  next
    case 6
    then show ?thesis
      using p by (auto simp: kinds watch_list_iff and_then_Inr msg_channel_names_def encode_name_list_iff)
  qed
qed

lemma build_message_parse:
  assumes "build_message m = Some w" "message_typed m"
  shows "parse_channel_message w = Inr (Some m)"
proof -
  note start = parse_channel_message_def header_envelope
  show ?thesis
  proof (cases m)
    case (Opened i status window peer metadata detail)
    let ?pm = "to_le 2 (length peer) @ peer @ to_le 4 (length metadata) @ metadata @ detail"
    have ok: "valid_peer_name peer" "length metadata \<le> CHANNEL_MAX_METADATA" "length detail \<le> CHANNEL_MAX_DETAIL"
      and w: "w = envelope CHANNEL_OPENED i @ ([status] @ wle 8 window @ ?pm)"
      using assms Opened by (auto simp: msg_channel_opened_def split: if_splits)
    have "rdw 8 ([status] @ wle 8 window @ ?pm) 1 = window" by (rule rdw_at) simp_all
    moreover have "decode_peer_metadata ?pm = Inr (peer, metadata, detail)"
      using ok by (simp add: decode_peer_metadata_iff)
    moreover have "drop 9 ([status] @ wle 8 window @ ?pm) = ?pm" by simp
    moreover have "utf8_valid detail" using assms(2) Opened by simp
    ultimately show ?thesis using ok Opened unfolding w start by (simp add: from_utf8_def)
  next
    case (Accepted i l window peer metadata)
    let ?pm = "to_le 2 (length peer) @ peer @ to_le 4 (length metadata) @ metadata @ []"
    have ok: "valid_peer_name peer" "length metadata \<le> CHANNEL_MAX_METADATA"
      and w: "w = envelope CHANNEL_ACCEPTED i @ (wle 4 l @ wle 8 window @ ?pm)"
      using assms Accepted by (auto simp: msg_channel_accepted_def split: if_splits)
    have "rdw 4 (wle 4 l @ wle 8 window @ ?pm) 0 = l" by (rule rdw_head) simp
    moreover have "rdw 8 (wle 4 l @ wle 8 window @ ?pm) 4 = window" by (rule rdw_at) simp_all
    moreover have "decode_peer_metadata ?pm = Inr (peer, metadata, [])"
      using ok by (simp only: decode_peer_metadata_iff simp_thms)
    moreover have "drop 12 (wle 4 l @ wle 8 window @ ?pm) = ?pm" by simp
    ultimately show ?thesis using ok Accepted unfolding w start by (simp add: kinds)
  next
    case (MsgData i payload)
    then show ?thesis using assms by (auto simp: msg_channel_data_def start kinds split: if_splits)
  next
    case (MsgAck i n)
    then show ?thesis using assms by (auto simp: msg_channel_ack_def start kinds u64_field)
  next
    case (Closed i reason detail)
    then show ?thesis
      using assms by (auto simp: msg_channel_closed_def start kinds from_utf8_def split: if_splits)
  next
    case (Names i names)
    then have enc: "encode_name_list CHANNEL_NAMES i names = Some w"
      using assms by (simp add: msg_channel_names_def)
    then have w: "w = envelope CHANNEL_NAMES i @ ([0] @ to_le 2 (length names) @ concat (map name_entry names))"
      and "decode_name_list ([0] @ to_le 2 (length names) @ concat (map name_entry names)) CHANNEL_MAX_WATCH_NAMES = Inr names"
      by (simp_all add: encode_name_list_iff watch_list_iff)
    then show ?thesis using Names unfolding w start by (simp add: kinds)
  qed
qed

lemma parse_message_header:
  "parse_channel_message w = Inr (Some m) \<Longrightarrow> \<exists>kind i body. w = envelope kind i @ body"
  by (auto simp: parse_channel_message_def and_then_Inr channel_header_iff)

lemma parse_message_iff:
  "parse_channel_message w = Inr (Some m) \<longleftrightarrow> build_message m = Some w \<and> message_typed m"
  using parse_message_build build_message_parse parse_message_header by blast

end
