(* ===== verification/Channel_Fabric.thy ===== *)
theory Channel_Fabric
  imports Channel_Roundtrip Keyed_Store
begin

text \<open>
  The native-channel registry of the server, \<open>ChannelFabric\<close> of \<open>crates/server/src/channel.rs\<close>: named
  listeners, watches, connected pairs with their send windows, and the reservations that keep a
  pair's budget charged until its last queued frame has left.

  A reservation guard is an \<open>Arc\<close>: the model gives it an identifier and a strong count.  Cloning a
  guard is \<open>clone_pair\<close>/\<open>clone_slot\<close>, dropping one is \<open>drop_pair\<close>/\<open>drop_slot\<close>, and the \<open>Drop\<close> of the
  inner value runs when the count reaches zero.  A delivery carries its guards until
  \<open>drop_delivery\<close>.  The outbox admission callback is a parameter \<open>reserve\<close> with its own state \<open>'o\<close>,
  because the source takes any \<open>FnMut\<close>; whether channels are enabled and the limits, which the source
  reads from the environment, are parameters of \<open>fabric_new\<close>.
\<close>

subsection \<open>State\<close>

datatype channel_key = Key (key_endpoint: u64) (key_channel: u32)

record listener =
  l_name :: bytes
  l_metadata :: bytes
  l_token :: bytes

record watch =
  w_names :: "bytes list"
  w_published :: bytes

record handle =
  h_peer :: channel_key
  h_pair :: nat
  h_slot :: nat
  h_sent :: nat
  h_acked :: nat
  h_bounds :: "nat list"

record limits =
  lim_listen_per_client :: nat
  lim_watch_per_client :: nat
  lim_listeners :: nat
  lim_handles_per_client :: nat
  lim_connected_pairs :: nat
  lim_buffer_bytes :: nat

record delivery =
  d_endpoint :: u64
  d_packet :: bytes
  d_pair :: "nat option"
  d_slot :: "nat option"
  d_drain :: "channel_key option"
  d_outbox :: "nat option"

datatype pair_admission_error = Connected | Window

record fabric =
  cf_enabled :: bool
  cf_shutting_down :: bool
  cf_boot_generation :: u64
  cf_next_listener_generation :: nat
  cf_next_server_id :: "(u64, u32) hash_map"
  cf_peer_names :: "(u64, bytes) hash_map"
  cf_listener_names :: "(bytes, channel_key) hash_map"
  cf_listeners :: "(channel_key, listener) hash_map"
  cf_handles :: "(channel_key, handle) hash_map"
  cf_watches :: "(channel_key, watch) hash_map"
  cf_names_revision :: u64
  cf_published_revision :: u64
  cf_endpoint_slots :: "(u64, nat) hash_map"
  cf_draining :: "channel_key set"
  cf_active_pairs :: nat
  cf_reserved_window :: nat
  cf_limits :: limits
  cf_pair_refs :: "(nat, nat) hash_map"
  cf_slot_refs :: "(nat, u64 \<times> nat) hash_map"
  cf_next_ref :: nat

definition default_limits :: limits where
  "default_limits = \<lparr>lim_listen_per_client = 64, lim_watch_per_client = 16, lim_listeners = 1024,
     lim_handles_per_client = 64, lim_connected_pairs = 128, lim_buffer_bytes = 268435456\<rparr>"

definition fabric_new :: "bool \<Rightarrow> limits \<Rightarrow> u64 \<Rightarrow> fabric" where
  "fabric_new enabled limits boot_generation = \<lparr>cf_enabled = enabled, cf_shutting_down = False,
     cf_boot_generation = boot_generation, cf_next_listener_generation = 1, cf_next_server_id = [],
     cf_peer_names = [], cf_listener_names = [], cf_listeners = [], cf_handles = [], cf_watches = [],
     cf_names_revision = 0, cf_published_revision = 0, cf_endpoint_slots = [], cf_draining = {},
     cf_active_pairs = 0, cf_reserved_window = 0, cf_limits = limits, cf_pair_refs = [],
     cf_slot_refs = [], cf_next_ref = 0\<rparr>"

definition begin_shutdown :: "fabric \<Rightarrow> fabric" where
  "begin_shutdown f = f\<lparr>cf_shutting_down := True\<rparr>"

definition advertised :: "fabric \<Rightarrow> bool" where
  "advertised f \<longleftrightarrow> cf_enabled f \<and> \<not> cf_shutting_down f"

subsection \<open>Reservation guards\<close>

definition PAIR_WINDOW :: nat where [wire_defs]: "PAIR_WINDOW = 2 * CHANNEL_WINDOW_BYTES"

definition clone_pair :: "nat \<Rightarrow> fabric \<Rightarrow> fabric" where
  "clone_pair t f = (case hm_get (cf_pair_refs f) t of
     Some n \<Rightarrow> f\<lparr>cf_pair_refs := hm_insert t (n + 1) (cf_pair_refs f)\<rparr> | None \<Rightarrow> f)"

text \<open>\<open>Drop for PairReservationInner\<close> runs with the last clone.\<close>

definition drop_pair :: "nat \<Rightarrow> fabric \<Rightarrow> fabric" where
  "drop_pair t f = (case hm_get (cf_pair_refs f) t of None \<Rightarrow> f
     | Some n \<Rightarrow> if n > 1 then f\<lparr>cf_pair_refs := hm_insert t (n - 1) (cf_pair_refs f)\<rparr>
       else f\<lparr>cf_pair_refs := hm_remove t (cf_pair_refs f), cf_active_pairs := cf_active_pairs f - 1,
              cf_reserved_window := cf_reserved_window f - PAIR_WINDOW\<rparr>)"

definition clone_slot :: "nat \<Rightarrow> fabric \<Rightarrow> fabric" where
  "clone_slot s f = (case hm_get (cf_slot_refs f) s of
     Some (e, n) \<Rightarrow> f\<lparr>cf_slot_refs := hm_insert s (e, n + 1) (cf_slot_refs f)\<rparr> | None \<Rightarrow> f)"

definition release_slot :: "u64 \<Rightarrow> fabric \<Rightarrow> fabric" where
  "release_slot endpoint f = (case hm_get (cf_endpoint_slots f) endpoint of None \<Rightarrow> f
     | Some count \<Rightarrow> let count = count - 1 in
       if count = 0 then f\<lparr>cf_endpoint_slots := hm_remove endpoint (cf_endpoint_slots f)\<rparr>
       else f\<lparr>cf_endpoint_slots := hm_insert endpoint count (cf_endpoint_slots f)\<rparr>)"

definition drop_slot :: "nat \<Rightarrow> fabric \<Rightarrow> fabric" where
  "drop_slot s f = (case hm_get (cf_slot_refs f) s of None \<Rightarrow> f
     | Some (e, n) \<Rightarrow> if n > 1 then f\<lparr>cf_slot_refs := hm_insert s (e, n - 1) (cf_slot_refs f)\<rparr>
       else release_slot e (f\<lparr>cf_slot_refs := hm_remove s (cf_slot_refs f)\<rparr>))"

definition drop_drain :: "channel_key \<Rightarrow> fabric \<Rightarrow> fabric" where
  "drop_drain key f = f\<lparr>cf_draining := cf_draining f - {key}\<rparr>"

definition opt_do :: "('a \<Rightarrow> fabric \<Rightarrow> fabric) \<Rightarrow> 'a option \<Rightarrow> fabric \<Rightarrow> fabric" where
  "opt_do op x f = (case x of None \<Rightarrow> f | Some y \<Rightarrow> op y f)"

text \<open>A queued packet was written or discarded: its guards go.\<close>

definition drop_delivery :: "delivery \<Rightarrow> fabric \<Rightarrow> fabric" where
  "drop_delivery d f = opt_do drop_drain (d_drain d) (opt_do drop_slot (d_slot d) (opt_do drop_pair (d_pair d) f))"

definition slot_count :: "fabric \<Rightarrow> u64 \<Rightarrow> nat" where
  "slot_count f endpoint = (case hm_get (cf_endpoint_slots f) endpoint of Some n \<Rightarrow> n | None \<Rightarrow> 0)"

definition new_slot :: "u64 \<Rightarrow> fabric \<Rightarrow> fabric \<times> nat" where
  "new_slot endpoint f = (f\<lparr>cf_endpoint_slots := hm_insert endpoint (slot_count f endpoint + 1) (cf_endpoint_slots f),
      cf_slot_refs := hm_insert (cf_next_ref f) (endpoint, 1) (cf_slot_refs f),
      cf_next_ref := cf_next_ref f + 1\<rparr>, cf_next_ref f)"

definition new_pair :: "fabric \<Rightarrow> fabric \<times> nat" where
  "new_pair f = (f\<lparr>cf_active_pairs := cf_active_pairs f + 1,
      cf_reserved_window := cf_reserved_window f + PAIR_WINDOW,
      cf_pair_refs := hm_insert (cf_next_ref f) 1 (cf_pair_refs f),
      cf_next_ref := cf_next_ref f + 1\<rparr>, cf_next_ref f)"

definition reserve_handle_slots :: "u64 \<Rightarrow> u64 \<Rightarrow> fabric \<Rightarrow> fabric \<times> (pair_admission_error + (nat \<times> nat))" where
  "reserve_handle_slots connector accepted f =
    (let connector_needed = (if connector = accepted then 1 else 0) + 1 in
     if slot_count f connector + connector_needed > lim_handles_per_client (cf_limits f) then (f, Inl Connected)
     else if connector \<noteq> accepted \<and> slot_count f accepted + 1 > lim_handles_per_client (cf_limits f)
     then (f, Inl Connected)
     else let (f, cs) = new_slot connector f; (f, as) = new_slot accepted f in (f, Inr (cs, as)))"

definition reserve_pair :: "u64 \<Rightarrow> u64 \<Rightarrow> fabric \<Rightarrow> fabric \<times> (pair_admission_error + (nat \<times> nat \<times> nat))" where
  "reserve_pair connector accepted f =
    (case reserve_handle_slots connector accepted f of
       (f, Inl e) \<Rightarrow> (f, Inl e)
     | (f, Inr (cs, as)) \<Rightarrow>
         if cf_active_pairs f \<ge> lim_connected_pairs (cf_limits f)
         then (drop_slot as (drop_slot cs f), Inl Connected)
         else if cf_reserved_window f + PAIR_WINDOW \<ge> 2 ^ 64
           \<or> cf_reserved_window f + PAIR_WINDOW > lim_buffer_bytes (cf_limits f)
         then (drop_slot as (drop_slot cs f), Inl Window)
         else let (f, t) = new_pair f in (f, Inr (t, cs, as)))"

definition admission_detail :: "pair_admission_error \<Rightarrow> bytes" where
  "admission_detail e = (case e of Connected \<Rightarrow> ascii ''connected channel budget exhausted''
     | Window \<Rightarrow> ascii ''channel window budget exhausted'')"

subsection \<open>Replies\<close>

definition STATUS_OK :: u8 where [wire_defs]: "STATUS_OK = 0"
definition STATUS_NOT_FOUND :: u8 where [wire_defs]: "STATUS_NOT_FOUND = 2"
definition STATUS_PERMISSION :: u8 where [wire_defs]: "STATUS_PERMISSION = 4"
definition STATUS_BUDGET :: u8 where [wire_defs]: "STATUS_BUDGET = 6"
definition STATUS_INVALID :: u8 where [wire_defs]: "STATUS_INVALID = 7"
definition STATUS_CANCELLED :: u8 where [wire_defs]: "STATUS_CANCELLED = 8"
definition STATUS_CONFLICT :: u8 where [wire_defs]: "STATUS_CONFLICT = 11"

definition plain_delivery :: "u64 \<Rightarrow> bytes \<Rightarrow> delivery" where
  "plain_delivery endpoint packet = \<lparr>d_endpoint = endpoint, d_packet = packet, d_pair = None, d_slot = None,
     d_drain = None, d_outbox = None\<rparr>"

definition opened_with_drain :: "u64 \<Rightarrow> u32 \<Rightarrow> u8 \<Rightarrow> bytes \<Rightarrow> channel_key option \<Rightarrow> delivery" where
  "opened_with_drain endpoint channel_id status detail drain =
    (plain_delivery endpoint (the (msg_channel_opened channel_id status 0 [] [] detail)))\<lparr>d_drain := drain\<rparr>"

definition opened :: "u64 \<Rightarrow> u32 \<Rightarrow> u8 \<Rightarrow> bytes \<Rightarrow> delivery" where
  "opened endpoint channel_id status detail = opened_with_drain endpoint channel_id status detail None"

definition closed :: "channel_key \<Rightarrow> u8 \<Rightarrow> bytes \<Rightarrow> nat option \<Rightarrow> nat option \<Rightarrow> channel_key option \<Rightarrow> delivery" where
  "closed key reason detail reservation slot drain =
    \<lparr>d_endpoint = key_endpoint key, d_packet = the (msg_channel_closed (key_channel key) reason detail),
     d_pair = reservation, d_slot = slot, d_drain = drain, d_outbox = None\<rparr>"

definition key_is_live :: "fabric \<Rightarrow> channel_key \<Rightarrow> bool" where
  "key_is_live f key \<longleftrightarrow> hm_get (cf_listeners f) key \<noteq> None \<or> hm_get (cf_handles f) key \<noteq> None
     \<or> hm_get (cf_watches f) key \<noteq> None \<or> key \<in> cf_draining f"

definition begin_drain :: "channel_key \<Rightarrow> fabric \<Rightarrow> fabric" where
  "begin_drain key f = f\<lparr>cf_draining := insert key (cf_draining f)\<rparr>"

definition failed_open :: "u64 \<Rightarrow> u32 \<Rightarrow> u8 \<Rightarrow> bytes \<Rightarrow> fabric \<Rightarrow> fabric \<times> delivery" where
  "failed_open endpoint channel_id status detail f =
    (let key = Key endpoint channel_id in
     if key_is_live f key then (f, opened_with_drain endpoint channel_id status detail None)
     else (begin_drain key f, opened_with_drain endpoint channel_id status detail (Some key)))"

definition fail_open :: "u64 \<Rightarrow> u32 \<Rightarrow> u8 \<Rightarrow> bytes \<Rightarrow> fabric \<Rightarrow> fabric \<times> delivery list" where
  "fail_open endpoint channel_id status detail f =
    (let (f, d) = failed_open endpoint channel_id status detail f in (f, [d]))"

subsection \<open>Removal\<close>

definition remove_listener :: "channel_key \<Rightarrow> fabric \<Rightarrow> fabric" where
  "remove_listener key f = (case hm_get (cf_listeners f) key of None \<Rightarrow> f
     | Some l \<Rightarrow> f\<lparr>cf_listeners := hm_remove key (cf_listeners f),
         cf_listener_names := hm_remove (l_name l) (cf_listener_names f),
         cf_names_revision := cf_names_revision f + 1\<rparr>)"

text \<open>Removing a handle drops the guards it holds.\<close>

definition remove_handle :: "channel_key \<Rightarrow> fabric \<Rightarrow> fabric" where
  "remove_handle key f = (case hm_get (cf_handles f) key of None \<Rightarrow> f
     | Some h \<Rightarrow> drop_slot (h_slot h) (drop_pair (h_pair h) (f\<lparr>cf_handles := hm_remove key (cf_handles f)\<rparr>)))"

definition remove_pair :: "channel_key \<Rightarrow> fabric \<Rightarrow> fabric" where
  "remove_pair key f = (case hm_get (cf_handles f) key of None \<Rightarrow> f
     | Some h \<Rightarrow> remove_handle (h_peer h) (remove_handle key f))"

definition close_pair :: "channel_key \<Rightarrow> u8 \<Rightarrow> bytes \<Rightarrow> bool \<Rightarrow> fabric \<Rightarrow> fabric \<times> delivery list" where
  "close_pair key reason detail notify_both f =
    (case hm_get (cf_handles f) key of None \<Rightarrow> (f, [])
     | Some h \<Rightarrow> (case hm_get (cf_handles f) (h_peer h) of None \<Rightarrow> (f, [])
       | Some ph \<Rightarrow>
         let peer = h_peer h;
             f = clone_slot (h_slot ph) (clone_slot (h_slot h) (clone_pair (h_pair h) f));
             f = remove_pair key f;
             f = begin_drain key f;
             f = clone_pair (h_pair h) f;
             d1 = closed key reason detail (Some (h_pair h)) (Some (h_slot h)) (Some key)
         in if notify_both
            then (begin_drain peer f,
                  [d1, closed peer reason detail (Some (h_pair h)) (Some (h_slot ph)) (Some peer)])
            else (drop_slot (h_slot ph) (drop_pair (h_pair h) f), [d1])))"

definition protocol_violation :: "u64 \<Rightarrow> u32 \<Rightarrow> bytes \<Rightarrow> fabric \<Rightarrow> fabric \<times> delivery list" where
  "protocol_violation endpoint channel_id detail f =
    (let key = Key endpoint channel_id in
     if hm_get (cf_listeners f) key \<noteq> None then
       (begin_drain key (remove_listener key f),
        [closed key CHANNEL_CLOSE_PROTOCOL_VIOLATION detail None None (Some key)])
     else if hm_get (cf_handles f) key \<noteq> None then
       close_pair key CHANNEL_CLOSE_PROTOCOL_VIOLATION detail True f
     else (f, []))"

subsection \<open>Listening and watching\<close>

definition listener_count :: "fabric \<Rightarrow> u64 \<Rightarrow> nat" where
  "listener_count f endpoint = length (filter (\<lambda>k. key_endpoint k = endpoint) (hm_keys (cf_listeners f)))"

definition watch_count :: "fabric \<Rightarrow> u64 \<Rightarrow> nat" where
  "watch_count f endpoint = length (filter (\<lambda>k. key_endpoint k = endpoint) (hm_keys (cf_watches f)))"

definition listener_token_of :: "fabric \<Rightarrow> bytes" where
  "listener_token_of f = wle 8 (cf_boot_generation f) @ to_le 8 (cf_next_listener_generation f)"

definition listen :: "('o \<Rightarrow> u64 \<Rightarrow> nat \<Rightarrow> bool \<times> 'o) \<Rightarrow> u64 \<Rightarrow> u32 \<Rightarrow> bytes \<Rightarrow> bytes \<Rightarrow> fabric \<times> 'o
    \<Rightarrow> (fabric \<times> 'o) \<times> delivery list" where
  "listen reserve endpoint channel_id name metadata st =
    (let (f, o1) = st; key = Key endpoint channel_id;
         fail = (\<lambda>status detail. let (f, ds) = fail_open endpoint channel_id status detail f in ((f, o1), ds))
     in if key_is_live f key then fail STATUS_CONFLICT (ascii ''channel id is already live'')
        else if hm_get (cf_listener_names f) name \<noteq> None then
          fail STATUS_CONFLICT (ascii ''channel name already has a listener'')
        else if length (hm_keys (cf_listeners f)) \<ge> lim_listeners (cf_limits f)
          \<or> listener_count f endpoint \<ge> lim_listen_per_client (cf_limits f) then
          fail STATUS_BUDGET (ascii ''channel listener budget exhausted'')
        else if cf_next_listener_generation f + 1 \<ge> 2 ^ 64 then
          fail STATUS_BUDGET (ascii ''channel listener generation exhausted'')
        else let token = listener_token_of f;
                 d = opened endpoint channel_id STATUS_OK [];
                 (ok, o2) = reserve o1 endpoint (length (d_packet d))
             in if \<not> ok then ((f, o2), [])
                else ((f\<lparr>cf_next_listener_generation := cf_next_listener_generation f + 1,
                        cf_names_revision := cf_names_revision f + 1,
                        cf_listener_names := hm_insert name key (cf_listener_names f),
                        cf_listeners := hm_insert key \<lparr>l_name = name, l_metadata = metadata, l_token = token\<rparr>
                          (cf_listeners f)\<rparr>, o2),
                      [d\<lparr>d_outbox := Some (length (d_packet d))\<rparr>]))"

definition present_names :: "fabric \<Rightarrow> bytes list \<Rightarrow> bytes list" where
  "present_names f names = filter (\<lambda>name. hm_get (cf_listener_names f) name \<noteq> None) names"

definition watch_names :: "('o \<Rightarrow> u64 \<Rightarrow> nat \<Rightarrow> bool \<times> 'o) \<Rightarrow> u64 \<Rightarrow> u32 \<Rightarrow> bytes list \<Rightarrow> fabric \<times> 'o
    \<Rightarrow> (fabric \<times> 'o) \<times> delivery list" where
  "watch_names reserve endpoint channel_id names st =
    (let (f, o1) = st; key = Key endpoint channel_id;
         fail = (\<lambda>status detail. let (f, ds) = fail_open endpoint channel_id status detail f in ((f, o1), ds))
     in if key_is_live f key then fail STATUS_CONFLICT (ascii ''channel id is already live'')
        else if watch_count f endpoint \<ge> lim_watch_per_client (cf_limits f) then
          fail STATUS_BUDGET (ascii ''channel watch budget exhausted'')
        else let packet = the (msg_channel_names channel_id (present_names f names));
                 (ok, o2) = reserve o1 endpoint (length packet)
             in if \<not> ok then ((f, o2), [])
                else ((f\<lparr>cf_watches := hm_insert key \<lparr>w_names = names, w_published = packet\<rparr> (cf_watches f)\<rparr>, o2),
                      [(plain_delivery endpoint packet)\<lparr>d_outbox := Some (length packet)\<rparr>]))"

definition publish_one :: "('o \<Rightarrow> u64 \<Rightarrow> nat \<Rightarrow> bool \<times> 'o) \<Rightarrow> channel_key \<Rightarrow> (fabric \<times> 'o) \<times> delivery list
    \<Rightarrow> (fabric \<times> 'o) \<times> delivery list" where
  "publish_one reserve key acc = (case acc of ((f, o1), ds) \<Rightarrow>
     (case hm_get (cf_watches f) key of None \<Rightarrow> ((f, o1), ds)
      | Some w \<Rightarrow>
        let packet = the (msg_channel_names (key_channel key) (present_names f (w_names w))) in
        if w_published w = packet then ((f, o1), ds)
        else let (ok, o2) = reserve o1 (key_endpoint key) (length packet) in
          if \<not> ok then ((f, o2), ds)
          else ((f\<lparr>cf_watches := hm_insert key (w\<lparr>w_published := packet\<rparr>) (cf_watches f)\<rparr>, o2),
                ds @ [(plain_delivery (key_endpoint key) packet)\<lparr>d_outbox := Some (length packet)\<rparr>])))"

definition publish_names :: "('o \<Rightarrow> u64 \<Rightarrow> nat \<Rightarrow> bool \<times> 'o) \<Rightarrow> fabric \<times> 'o \<Rightarrow> (fabric \<times> 'o) \<times> delivery list" where
  "publish_names reserve st = (case st of (f, o1) \<Rightarrow>
     let quiet = (cf_names_revision f = cf_published_revision f \<or> cf_watches f = []);
         f = f\<lparr>cf_published_revision := cf_names_revision f\<rparr>
     in if quiet then ((f, o1), [])
        else fold (publish_one reserve) (hm_keys (cf_watches f)) ((f, o1), []))"

subsection \<open>Connecting\<close>

function server_id_candidate_from :: "fabric \<Rightarrow> u64 \<Rightarrow> nat \<Rightarrow> (u32 \<times> u32) option" where
  "server_id_candidate_from f endpoint candidate =
    (if candidate + 2 \<ge> 2 ^ 32 then None
     else if \<not> key_is_live f (Key endpoint (word_of_nat candidate))
     then Some (word_of_nat candidate, word_of_nat (candidate + 2))
     else server_id_candidate_from f endpoint (candidate + 2))"
  by pat_completeness auto
termination
  by (relation "measure (\<lambda>(f, e, c). 2 ^ 32 - c)") auto

declare server_id_candidate_from.simps [simp del]

definition server_id_candidate :: "fabric \<Rightarrow> u64 \<Rightarrow> (u32 \<times> u32) option" where
  "server_id_candidate f endpoint = server_id_candidate_from f endpoint
     (case hm_get (cf_next_server_id f) endpoint of Some c \<Rightarrow> unat c | None \<Rightarrow> 1)"

definition hex_digit :: "nat \<Rightarrow> u8" where
  "hex_digit n = (if n < 10 then word_of_nat (48 + n) else word_of_nat (87 + n))"

definition network_peer_name :: "u64 \<Rightarrow> bytes" where
  "network_peer_name endpoint = ascii ''client:'' @ map (\<lambda>i. hex_digit (unat endpoint div 16 ^ (15 - i) mod 16)) [0..<16]"

definition peer_name :: "fabric \<Rightarrow> u64 \<Rightarrow> bytes" where
  "peer_name f endpoint = (case hm_get (cf_peer_names f) endpoint of Some n \<Rightarrow> n | None \<Rightarrow> network_peer_name endpoint)"

definition register_endpoint :: "u64 \<Rightarrow> bytes \<Rightarrow> fabric \<Rightarrow> fabric" where
  "register_endpoint endpoint name f = f\<lparr>cf_peer_names := hm_insert endpoint name (cf_peer_names f)\<rparr>"

text \<open>Drop the three guards a connect holds when it gives up.\<close>

definition drop_admission :: "nat \<times> nat \<times> nat \<Rightarrow> fabric \<Rightarrow> fabric" where
  "drop_admission adm f = (case adm of (t, cs, as) \<Rightarrow> drop_slot as (drop_slot cs (drop_pair t f)))"

definition new_handle :: "channel_key \<Rightarrow> nat \<Rightarrow> nat \<Rightarrow> handle" where
  "new_handle peer t s = \<lparr>h_peer = peer, h_pair = t, h_slot = s, h_sent = 0, h_acked = 0, h_bounds = []\<rparr>"

text \<open>The commit: both handles and both notifications, each holding its clones.\<close>

definition commit_pair :: "channel_key \<Rightarrow> channel_key \<Rightarrow> u32 \<Rightarrow> nat \<times> nat \<times> nat \<Rightarrow> bytes \<Rightarrow> bytes \<Rightarrow> fabric
    \<Rightarrow> fabric \<times> delivery list" where
  "commit_pair connector_key accepted_key next_server_id adm connector_packet listener_packet f =
    (case adm of (t, cs, as) \<Rightarrow>
      let f = f\<lparr>cf_next_server_id := hm_insert (key_endpoint accepted_key) next_server_id (cf_next_server_id f)\<rparr>;
          f = clone_slot cs (clone_pair t f);
          f = f\<lparr>cf_handles := hm_insert connector_key (new_handle accepted_key t cs) (cf_handles f)\<rparr>;
          f = clone_slot as (clone_pair t f);
          f = f\<lparr>cf_handles := hm_insert accepted_key (new_handle connector_key t as) (cf_handles f)\<rparr>;
          f = clone_pair t f
      in (f, [\<lparr>d_endpoint = key_endpoint connector_key, d_packet = connector_packet, d_pair = Some t,
                d_slot = Some cs, d_drain = None, d_outbox = Some (length connector_packet)\<rparr>,
              \<lparr>d_endpoint = key_endpoint accepted_key, d_packet = listener_packet, d_pair = Some t,
                d_slot = Some as, d_drain = None, d_outbox = Some (length listener_packet)\<rparr>]))"

text \<open>
  Outbox admission of the two notifications, in endpoint order.  \<open>Inr\<close> means both are held; \<open>Inl\<close> is
  the early return with the packets it emits.
\<close>

definition cancelled :: "u64 \<Rightarrow> u32 \<Rightarrow> fabric \<Rightarrow> fabric \<times> delivery" where
  "cancelled endpoint channel_id f =
    (let (f, d) = failed_open endpoint channel_id STATUS_CANCELLED [] f
     in (f, d\<lparr>d_outbox := Some (length (d_packet d))\<rparr>))"

definition admit_notifications :: "('o \<Rightarrow> u64 \<Rightarrow> nat \<Rightarrow> bool \<times> 'o) \<Rightarrow> u64 \<Rightarrow> u32 \<Rightarrow> u64 \<Rightarrow> nat \<Rightarrow> nat
    \<Rightarrow> fabric \<times> 'o \<Rightarrow> (fabric \<times> 'o) \<times> (delivery list + unit)" where
  "admit_notifications reserve endpoint channel_id listener_endpoint connector_len listener_len st =
    (case st of (f, o1) \<Rightarrow>
      if endpoint \<le> listener_endpoint then
        (case reserve o1 endpoint connector_len of
           (False, o2) \<Rightarrow> ((f, o2), Inl [])
         | (True, o2) \<Rightarrow> (case reserve o2 listener_endpoint listener_len of
             (False, o3) \<Rightarrow> let (f, d) = cancelled endpoint channel_id f in ((f, o3), Inl [d])
           | (True, o3) \<Rightarrow> ((f, o3), Inr ())))
      else
        (case reserve o1 listener_endpoint listener_len of
           (False, o2) \<Rightarrow>
             (let (f, d) = failed_open endpoint channel_id STATUS_CANCELLED [] f in
              case reserve o2 endpoint (length (d_packet d)) of
                (False, o3) \<Rightarrow> ((opt_do drop_drain (d_drain d) f, o3), Inl [])
              | (True, o3) \<Rightarrow> ((f, o3), Inl [d\<lparr>d_outbox := Some (length (d_packet d))\<rparr>]))
         | (True, o2) \<Rightarrow> (case reserve o2 endpoint connector_len of
             (False, o3) \<Rightarrow> ((f, o3), Inl [])
           | (True, o3) \<Rightarrow> ((f, o3), Inr ()))))"

definition connect :: "('o \<Rightarrow> u64 \<Rightarrow> nat \<Rightarrow> bool \<times> 'o) \<Rightarrow> u64 \<Rightarrow> u32 \<Rightarrow> bytes \<Rightarrow> bytes \<Rightarrow> bytes option
    \<Rightarrow> fabric \<times> 'o \<Rightarrow> (fabric \<times> 'o) \<times> delivery list" where
  "connect reserve endpoint channel_id name metadata listener_token st =
    (let (f, o1) = st; connector_key = Key endpoint channel_id;
         fail = (\<lambda>f status detail. let (f, ds) = fail_open endpoint channel_id status detail f in ((f, o1), ds))
     in if key_is_live f connector_key then fail f STATUS_CONFLICT (ascii ''channel id is already live'')
        else case hm_get (cf_listener_names f) name of
          None \<Rightarrow> fail f STATUS_NOT_FOUND (ascii ''channel listener was not found'')
        | Some listener_key \<Rightarrow>
          let l = the (hm_get (cf_listeners f) listener_key) in
          if listener_token \<noteq> None \<and> listener_token \<noteq> Some (l_token l) then
            fail f STATUS_CONFLICT (ascii ''channel listener generation changed'')
          else case server_id_candidate f (key_endpoint listener_key) of
            None \<Rightarrow> fail f STATUS_BUDGET (ascii ''accepted channel id space exhausted'')
          | Some (accepted_id, next_server_id) \<Rightarrow>
            let accepted_key = Key (key_endpoint listener_key) accepted_id;
                connector_packet = the (msg_channel_opened channel_id STATUS_OK (word_of_nat CHANNEL_WINDOW_BYTES)
                  (peer_name f (key_endpoint listener_key)) (l_metadata l) []);
                listener_packet = the (msg_channel_accepted accepted_id (key_channel listener_key)
                  (word_of_nat CHANNEL_WINDOW_BYTES) (peer_name f endpoint) metadata)
            in case reserve_pair endpoint (key_endpoint listener_key) f of
                 (f, Inl e) \<Rightarrow> fail f STATUS_BUDGET (admission_detail e)
               | (f, Inr adm) \<Rightarrow>
                 (case admit_notifications reserve endpoint channel_id (key_endpoint listener_key)
                         (length connector_packet) (length listener_packet) (f, o1) of
                    ((f, o2), Inl ds) \<Rightarrow> ((drop_admission adm f, o2), ds)
                  | ((f, o2), Inr _) \<Rightarrow>
                    let (f, ds) = commit_pair connector_key accepted_key next_server_id adm
                          connector_packet listener_packet f
                    in ((f, o2), ds)))"

subsection \<open>Data, acknowledgement, closing\<close>

definition peer_delivery :: "channel_key \<Rightarrow> bytes \<Rightarrow> nat \<Rightarrow> nat \<Rightarrow> delivery" where
  "peer_delivery peer packet t s = \<lparr>d_endpoint = key_endpoint peer, d_packet = packet, d_pair = Some t,
     d_slot = Some s, d_drain = None, d_outbox = None\<rparr>"

definition data :: "u64 \<Rightarrow> u32 \<Rightarrow> bytes \<Rightarrow> fabric \<Rightarrow> fabric \<times> delivery list" where
  "data endpoint channel_id payload f =
    (let key = Key endpoint channel_id in
     if hm_get (cf_listeners f) key \<noteq> None then
       protocol_violation endpoint channel_id (ascii ''listener received channel data'') f
     else case hm_get (cf_handles f) key of None \<Rightarrow> (f, [])
     | Some h \<Rightarrow>
       let sent = h_sent h + length payload; credit_end = h_acked h + CHANNEL_WINDOW_BYTES in
       if sent \<ge> 2 ^ 64 then protocol_violation endpoint channel_id (ascii ''channel byte counter overflow'') f
       else if credit_end \<ge> 2 ^ 64 \<or> sent > credit_end \<or> length (h_bounds h) \<ge> CHANNEL_MAX_UNCONSUMED_MESSAGES
       then protocol_violation endpoint channel_id (ascii ''channel send window exceeded'') f
       else let peer = h_peer h; slot = h_slot (the (hm_get (cf_handles f) peer));
                f = clone_slot slot (clone_pair (h_pair h) f);
                f = f\<lparr>cf_handles := hm_insert key (h\<lparr>h_sent := sent, h_bounds := h_bounds h @ [sent]\<rparr>) (cf_handles f)\<rparr>
            in (f, [peer_delivery peer (the (msg_channel_data (key_channel peer) payload)) (h_pair h) slot]))"

definition ack :: "u64 \<Rightarrow> u32 \<Rightarrow> u64 \<Rightarrow> fabric \<Rightarrow> fabric \<times> delivery list" where
  "ack endpoint channel_id n_bytes f =
    (let key = Key endpoint channel_id; n = unat n_bytes in
     if hm_get (cf_listeners f) key \<noteq> None then
       protocol_violation endpoint channel_id (ascii ''listener received channel ACK'') f
     else case hm_get (cf_handles f) key of None \<Rightarrow> (f, [])
     | Some h \<Rightarrow>
       let p = the (hm_get (cf_handles f) (h_peer h));
           valid = (n \<ge> h_acked p \<and> n \<le> h_sent p \<and> (n = h_acked p \<or> n \<in> set (h_bounds p)))
       in if \<not> valid then protocol_violation endpoint channel_id (ascii ''channel ACK is invalid'') f
          else let f = clone_slot (h_slot p) (clone_pair (h_pair h) f);
                   f = f\<lparr>cf_handles := hm_insert (h_peer h)
                     (p\<lparr>h_acked := n, h_bounds := dropWhile (\<lambda>b. b \<le> n) (h_bounds p)\<rparr>) (cf_handles f)\<rparr>
               in (f, [peer_delivery (h_peer h) (msg_channel_ack (key_channel (h_peer h)) n_bytes) (h_pair h) (h_slot p)]))"

definition close :: "u64 \<Rightarrow> u32 \<Rightarrow> u8 \<Rightarrow> fabric \<Rightarrow> fabric \<times> delivery list" where
  "close endpoint channel_id reason f =
    (let key = Key endpoint channel_id in
     if hm_get (cf_listeners f) key \<noteq> None then
       (begin_drain key (remove_listener key f), [closed key reason [] None None (Some key)])
     else if hm_get (cf_handles f) key \<noteq> None then close_pair key reason [] True f
     else (f, []))"

subsection \<open>Packets and departures\<close>

definition refuse :: "u64 \<Rightarrow> u8 \<Rightarrow> u32 \<Rightarrow> fabric \<Rightarrow> fabric \<times> delivery list" where
  "refuse endpoint kind channel_id f =
    (if kind = CHANNEL_LISTEN \<or> kind = CHANNEL_CONNECT \<or> kind = CHANNEL_WATCH
     then fail_open endpoint channel_id STATUS_PERMISSION
       (if cf_shutting_down f then ascii ''server is shutting down'' else ascii ''native channels are disabled'') f
     else (f, []))"

definition malformed :: "u64 \<Rightarrow> u8 \<Rightarrow> u32 \<Rightarrow> bytes \<Rightarrow> fabric \<Rightarrow> fabric \<times> delivery list" where
  "malformed endpoint kind channel_id detail f =
    (if kind = CHANNEL_LISTEN \<or> kind = CHANNEL_CONNECT \<or> kind = CHANNEL_WATCH
     then fail_open endpoint channel_id STATUS_INVALID detail f
     else protocol_violation endpoint channel_id detail f)"

text \<open>\<open>Display for ChannelDecodeError\<close>.\<close>

fun error_text :: "channel_error \<Rightarrow> bytes" where
  "error_text NotChannel = ascii ''not a channel packet''"
| "error_text Truncated = ascii ''channel packet is truncated''"
| "error_text TrailingBytes = ascii ''channel packet has trailing bytes''"
| "error_text InvalidFlags = ascii ''channel flags are invalid''"
| "error_text InvalidClientId = ascii ''client-created channel id must be even''"
| "error_text InvalidName = ascii ''channel name is invalid''"
| "error_text InvalidUtf8 = ascii ''channel text is not valid UTF-8''"
| "error_text EmptyPayload = ascii ''channel data payload is empty''"
| "error_text TooLarge = ascii ''channel field exceeds its size limit''"
| "error_text InvalidCloseReason = ascii ''client channel close reason is invalid''"
| "error_text EmptyWatch = ascii ''channel watch declares no names''"
| "error_text DuplicateWatchName = ascii ''channel watch names must be distinct''"

definition with_state :: "'o \<Rightarrow> fabric \<times> delivery list \<Rightarrow> (fabric \<times> 'o) \<times> delivery list" where
  "with_state o1 r = (case r of (f, ds) \<Rightarrow> ((f, o1), ds))"

definition apply_request :: "('o \<Rightarrow> u64 \<Rightarrow> nat \<Rightarrow> bool \<times> 'o) \<Rightarrow> u64 \<Rightarrow> channel_request \<Rightarrow> fabric \<times> 'o
    \<Rightarrow> (fabric \<times> 'o) \<times> delivery list" where
  "apply_request reserve endpoint request st = (case st of (f, o1) \<Rightarrow> (case request of
     Listen channel_id name metadata \<Rightarrow> listen reserve endpoint channel_id name metadata (f, o1)
   | Connect channel_id name metadata token \<Rightarrow> connect reserve endpoint channel_id name metadata token (f, o1)
   | ReqData channel_id payload \<Rightarrow> with_state o1 (data endpoint channel_id payload f)
   | ReqAck channel_id n \<Rightarrow> with_state o1 (ack endpoint channel_id n f)
   | Close channel_id reason \<Rightarrow> with_state o1 (close endpoint channel_id reason f)
   | Watch channel_id names \<Rightarrow> watch_names reserve endpoint channel_id names (f, o1)
   | Unwatch channel_id \<Rightarrow>
       ((f\<lparr>cf_watches := hm_remove (Key endpoint channel_id) (cf_watches f)\<rparr>, o1), [])))"

definition handle_reserved :: "('o \<Rightarrow> u64 \<Rightarrow> nat \<Rightarrow> bool \<times> 'o) \<Rightarrow> u64 \<Rightarrow> channel_request \<Rightarrow> fabric \<times> 'o
    \<Rightarrow> (fabric \<times> 'o) \<times> delivery list" where
  "handle_reserved reserve endpoint request st =
    (let (st, ds) = apply_request reserve endpoint request st; (st, ds') = publish_names reserve st in (st, ds @ ds'))"

definition handle_packet :: "('o \<Rightarrow> u64 \<Rightarrow> nat \<Rightarrow> bool \<times> 'o) \<Rightarrow> u64 \<Rightarrow> bytes \<Rightarrow> fabric \<times> 'o
    \<Rightarrow> (fabric \<times> 'o) \<times> delivery list" where
  "handle_packet reserve endpoint packet st = (case st of (f, o1) \<Rightarrow>
     (case channel_header packet of Inl _ \<Rightarrow> ((f, o1), [])
      | Inr (kind, channel_id, _) \<Rightarrow>
        (case parse_channel_request packet of
           Inr (Some request) \<Rightarrow> if cf_enabled f \<and> \<not> cf_shutting_down f
             then handle_reserved reserve endpoint request (f, o1)
             else with_state o1 (refuse endpoint kind channel_id f)
         | Inr None \<Rightarrow> ((f, o1), [])
         | Inl e \<Rightarrow> if \<not> cf_enabled f then ((f, o1), [])
             else with_state o1 (malformed endpoint kind channel_id (error_text e) f))))"

text \<open>One departing handle: its peer, when it belongs to another endpoint, is told.\<close>

definition depart_handle :: "u64 \<Rightarrow> channel_key \<Rightarrow> fabric \<times> delivery list \<Rightarrow> fabric \<times> delivery list" where
  "depart_handle endpoint key acc = (case acc of (f, ds) \<Rightarrow>
     (case hm_get (cf_handles f) key of None \<Rightarrow> (f, ds)
      | Some h \<Rightarrow> (case hm_get (cf_handles f) (h_peer h) of None \<Rightarrow> (f, ds)
        | Some ph \<Rightarrow>
          let peer = h_peer h;
              f = clone_slot (h_slot ph) (clone_pair (h_pair h) f);
              f = remove_pair key f
          in if key_endpoint peer \<noteq> endpoint
             then (begin_drain peer f, ds @ [closed peer CHANNEL_CLOSE_PEER_GONE
                     (ascii ''channel peer disconnected'') (Some (h_pair h)) (Some (h_slot ph)) (Some peer)])
             else (drop_slot (h_slot ph) (drop_pair (h_pair h) f), ds))))"

definition close_endpoint :: "('o \<Rightarrow> u64 \<Rightarrow> nat \<Rightarrow> bool \<times> 'o) \<Rightarrow> u64 \<Rightarrow> fabric \<times> 'o
    \<Rightarrow> (fabric \<times> 'o) \<times> delivery list" where
  "close_endpoint reserve endpoint st = (case st of (f, o1) \<Rightarrow>
     let f = f\<lparr>cf_peer_names := hm_remove endpoint (cf_peer_names f),
               cf_watches := hm_retain (\<lambda>k. key_endpoint k \<noteq> endpoint) (cf_watches f)\<rparr>;
         f = fold remove_listener (filter (\<lambda>k. key_endpoint k = endpoint) (hm_keys (cf_listeners f))) f;
         (f, ds) = fold (depart_handle endpoint) (filter (\<lambda>k. key_endpoint k = endpoint) (hm_keys (cf_handles f))) (f, []);
         (st, ds') = publish_names reserve (f, o1)
     in (st, ds @ ds'))"

record listener_snapshot =
  ls_endpoint :: u64
  ls_channel_id :: u32
  ls_generation :: nat
  ls_name :: bytes
  ls_token :: bytes

definition listener_snapshot_of :: "fabric \<Rightarrow> u64 \<Rightarrow> u32 \<Rightarrow> listener_snapshot option" where
  "listener_snapshot_of f endpoint channel_id =
    map_option (\<lambda>l. \<lparr>ls_endpoint = endpoint, ls_channel_id = channel_id, ls_generation = rd 8 (l_token l) 8,
        ls_name = l_name l, ls_token = l_token l\<rparr>)
      (hm_get (cf_listeners f) (Key endpoint channel_id))"

end
