(* ===== verification/Channel_Inv.thy ===== *)
theory Channel_Inv
  imports Channel_Fabric
begin

text \<open>
  The structural invariant of the fabric and its preservation by every operation: the name registry
  and the listener table describe the same set, connected handles come in symmetric pairs, a
  channel id is used for one thing at a time, and every handle respects its send window.  None of it
  depends on the reservation accounting, so the proofs work on \<open>core f\<close>, the fabric with the
  accounting erased.
\<close>

lemmas hm_simps = hm.lookup_insert hm.lookup_delete hm.inv_insert hm.inv_delete hm_get_retain hm_inv_retain

subsection \<open>Erasing the accounting\<close>

definition core :: "fabric \<Rightarrow> fabric" where
  "core f = f\<lparr>cf_endpoint_slots := [], cf_active_pairs := 0, cf_reserved_window := 0, cf_pair_refs := [],
     cf_slot_refs := [], cf_next_ref := 0\<rparr>"

named_theorems core_simps \<open>operations on the accounting leave the core alone\<close>

lemma core_fields [core_simps]:
  "cf_enabled (core f) = cf_enabled f" "cf_shutting_down (core f) = cf_shutting_down f"
  "cf_next_server_id (core f) = cf_next_server_id f" "cf_peer_names (core f) = cf_peer_names f"
  "cf_listener_names (core f) = cf_listener_names f" "cf_listeners (core f) = cf_listeners f"
  "cf_handles (core f) = cf_handles f" "cf_watches (core f) = cf_watches f"
  "cf_draining (core f) = cf_draining f" "cf_limits (core f) = cf_limits f"
  by (simp_all add: core_def)

lemma core_clone [core_simps]: "core (clone_pair t f) = core f" "core (clone_slot s f) = core f"
  by (simp_all add: core_def clone_pair_def clone_slot_def split: option.split)

lemma core_release: "core (release_slot e f) = core f"
  by (simp add: core_def release_slot_def Let_def split: option.split)

lemma core_drop [core_simps]: "core (drop_pair t f) = core f" "core (drop_slot s f) = core f"
  using core_release by (auto simp: core_def drop_pair_def drop_slot_def split: option.split)

lemma core_new [core_simps]: "core (fst (new_pair f)) = core f" "core (fst (new_slot e f)) = core f"
  by (simp_all add: core_def new_pair_def new_slot_def)

lemma core_reserve_slots [core_simps]: "core (fst (reserve_handle_slots a b f)) = core f"
  by (simp add: reserve_handle_slots_def Let_def split_def core_simps)

lemma core_reserve_pair [core_simps]: "core (fst (reserve_pair a b f)) = core f"
proof -
  obtain f' r where r: "reserve_handle_slots a b f = (f', r)" by (cases "reserve_handle_slots a b f")
  then have "core f' = core f" using core_reserve_slots[of a b f] by simp
  then show ?thesis by (cases r) (auto simp: reserve_pair_def r Let_def split_def core_simps)
qed

lemma core_drop_admission [core_simps]: "core (drop_admission adm f) = core f"
  by (simp add: drop_admission_def core_simps split: prod.split)

lemma core_cong_fields:
  assumes "core f = core g"
  shows "cf_listeners f = cf_listeners g" "cf_listener_names f = cf_listener_names g"
    "cf_handles f = cf_handles g" "cf_watches f = cf_watches g" "cf_draining f = cf_draining g"
    "cf_next_server_id f = cf_next_server_id g" "cf_peer_names f = cf_peer_names g"
  using arg_cong[OF assms, of cf_listeners] arg_cong[OF assms, of cf_listener_names]
    arg_cong[OF assms, of cf_handles] arg_cong[OF assms, of cf_watches] arg_cong[OF assms, of cf_draining]
    arg_cong[OF assms, of cf_next_server_id] arg_cong[OF assms, of cf_peer_names]
  by (simp_all add: core_simps)

subsection \<open>The invariant\<close>

definition handle_ok :: "handle \<Rightarrow> bool" where
  "handle_ok h \<longleftrightarrow> h_acked h \<le> h_sent h \<and> h_sent h \<le> h_acked h + CHANNEL_WINDOW_BYTES
     \<and> length (h_bounds h) \<le> CHANNEL_MAX_UNCONSUMED_MESSAGES
     \<and> sorted_wrt (<) (h_bounds h) \<and> (\<forall>b \<in> set (h_bounds h). h_acked h < b \<and> b \<le> h_sent h)
     \<and> (h_bounds h = [] \<longrightarrow> h_sent h = h_acked h) \<and> (h_bounds h \<noteq> [] \<longrightarrow> last (h_bounds h) = h_sent h)"

definition paired :: "(channel_key \<Rightarrow> handle option) \<Rightarrow> bool" where
  "paired H \<longleftrightarrow> (\<forall>k h. H k = Some h \<longrightarrow> h_peer h \<noteq> k \<and> handle_ok h \<and>
     (\<exists>p. H (h_peer h) = Some p \<and> h_peer p = k \<and> h_pair p = h_pair h))"

definition registered :: "(channel_key \<Rightarrow> listener option) \<Rightarrow> (bytes \<Rightarrow> channel_key option) \<Rightarrow> bool" where
  "registered L N \<longleftrightarrow> (\<forall>n k. N n = Some k \<longleftrightarrow> (\<exists>l. L k = Some l \<and> l_name l = n))"

definition exclusive :: "(channel_key \<Rightarrow> listener option) \<Rightarrow> (channel_key \<Rightarrow> handle option)
    \<Rightarrow> (channel_key \<Rightarrow> watch option) \<Rightarrow> channel_key set \<Rightarrow> bool" where
  "exclusive L H W D \<longleftrightarrow> dom L \<inter> dom H = {} \<and> dom L \<inter> dom W = {} \<and> dom H \<inter> dom W = {}
     \<and> (dom L \<union> dom H \<union> dom W) \<inter> D = {}"

definition listener_ok :: "listener \<Rightarrow> bool" where
  "listener_ok l \<longleftrightarrow> length (l_metadata l) \<le> CHANNEL_MAX_METADATA \<and> name_ok (l_name l) \<and> length (l_token l) = 16"

definition watch_ok :: "channel_key \<Rightarrow> watch \<Rightarrow> bool" where
  "watch_ok k w \<longleftrightarrow> w_names w \<noteq> [] \<and> length (w_names w) \<le> CHANNEL_MAX_WATCH_NAMES \<and> distinct (w_names w)
     \<and> (\<forall>n \<in> set (w_names w). name_ok n)
     \<and> (\<exists>ns. set ns \<subseteq> set (w_names w) \<and> msg_channel_names (key_channel k) ns = Some (w_published w))"

definition stores_ok :: "fabric \<Rightarrow> bool" where
  "stores_ok f \<longleftrightarrow> hm_inv (cf_listeners f) \<and> hm_inv (cf_listener_names f) \<and> hm_inv (cf_handles f)
     \<and> hm_inv (cf_watches f) \<and> hm_inv (cf_next_server_id f) \<and> hm_inv (cf_peer_names f)"

definition fields_ok :: "fabric \<Rightarrow> bool" where
  "fields_ok f \<longleftrightarrow> (\<forall>k l. hm_get (cf_listeners f) k = Some l \<longrightarrow> listener_ok l)
     \<and> (\<forall>k w. hm_get (cf_watches f) k = Some w \<longrightarrow> watch_ok k w)
     \<and> (\<forall>e n. hm_get (cf_peer_names f) e = Some n \<longrightarrow> valid_peer_name n)
     \<and> (\<forall>e c. hm_get (cf_next_server_id f) e = Some c \<longrightarrow> odd (unat c))"

definition fabric_inv :: "fabric \<Rightarrow> bool" where
  "fabric_inv f \<longleftrightarrow> stores_ok f \<and> fields_ok f
     \<and> registered (hm_get (cf_listeners f)) (hm_get (cf_listener_names f))
     \<and> paired (hm_get (cf_handles f))
     \<and> exclusive (hm_get (cf_listeners f)) (hm_get (cf_handles f)) (hm_get (cf_watches f)) (cf_draining f)"

lemma fabric_inv_core: "core f = core g \<Longrightarrow> fabric_inv f = fabric_inv g"
  using core_cong_fields[of f g] by (simp add: fabric_inv_def stores_ok_def fields_ok_def)

lemma fabric_inv_core_iff [core_simps]: "fabric_inv (core f) = fabric_inv f"
  by (rule fabric_inv_core) (simp add: core_def)

lemma fabric_inv_parts:
  assumes "fabric_inv f"
  shows "stores_ok f" "fields_ok f" "registered (hm_get (cf_listeners f)) (hm_get (cf_listener_names f))"
    "paired (hm_get (cf_handles f))"
    "exclusive (hm_get (cf_listeners f)) (hm_get (cf_handles f)) (hm_get (cf_watches f)) (cf_draining f)"
  using assms by (simp_all add: fabric_inv_def)

lemma fabric_inv_new: "fabric_inv (fabric_new en lim boot)"
  by (simp add: fabric_inv_def fabric_new_def stores_ok_def fields_ok_def registered_def paired_def exclusive_def
    dom_def)

lemma key_is_live_iff:
  "key_is_live f k \<longleftrightarrow> k \<in> dom (hm_get (cf_listeners f)) \<union> dom (hm_get (cf_handles f))
     \<union> dom (hm_get (cf_watches f)) \<union> cf_draining f"
  by (auto simp: key_is_live_def)

lemma key_is_live_core: "core f = core g \<Longrightarrow> key_is_live f k = key_is_live g k"
  using core_cong_fields[of f g] by (simp add: key_is_live_def)

subsection \<open>Steps on the lookup functions\<close>

lemma registered_insert:
  assumes "registered L N" "L k = None" "N (l_name l) = None"
  shows "registered (L(k \<mapsto> l)) (N(l_name l \<mapsto> k))"
  using assms unfolding registered_def by (auto split: if_splits) (metis option.distinct(1))

lemma registered_remove:
  assumes "registered L N" "L k = Some l"
  shows "registered (L(k := None)) (N(l_name l := None))"
  using assms unfolding registered_def by (auto split: if_splits) (metis option.inject)

lemma pairedI:
  assumes "\<And>k h. H k = Some h \<Longrightarrow> h_peer h \<noteq> k \<and> handle_ok h \<and>
     (\<exists>p. H (h_peer h) = Some p \<and> h_peer p = k \<and> h_pair p = h_pair h)"
  shows "paired H"
  using assms unfolding paired_def by blast

lemma pairedD:
  assumes "paired H" "H k = Some h"
  obtains p where "H (h_peer h) = Some p" "h_peer p = k" "h_pair p = h_pair h" "h_peer h \<noteq> k" "handle_ok h" "handle_ok p"
  using assms unfolding paired_def by metis

lemma paired_update:
  assumes "paired H" "H k = Some h" "handle_ok h'" "h_peer h' = h_peer h" "h_pair h' = h_pair h"
  shows "paired (H(k \<mapsto> h'))"
proof (rule pairedI)
  obtain p where p: "H (h_peer h) = Some p" "h_peer p = k" "h_pair p = h_pair h" "h_peer h \<noteq> k"
    by (rule pairedD[OF assms(1,2)])
  fix j g assume g: "(H(k \<mapsto> h')) j = Some g"
  show "h_peer g \<noteq> j \<and> handle_ok g \<and> (\<exists>p. (H(k \<mapsto> h')) (h_peer g) = Some p \<and> h_peer p = j \<and> h_pair p = h_pair g)"
  proof (cases "j = k")
    case True
    then show ?thesis using g p assms(3-5) by simp
  next
    case False
    then have "H j = Some g" using g by simp
    from pairedD[OF assms(1) this] obtain q where q: "H (h_peer g) = Some q" "h_peer q = j"
      "h_pair q = h_pair g" "h_peer g \<noteq> j" "handle_ok g" by blast
    then show ?thesis using assms(2,4,5) by (cases "h_peer g = k") auto
  qed
qed

lemma paired_remove:
  assumes "paired H" "H k = Some h"
  shows "paired (H(k := None, h_peer h := None))"
proof (rule pairedI)
  obtain p where p: "H (h_peer h) = Some p" "h_peer p = k" by (rule pairedD[OF assms])
  fix j g assume g: "(H(k := None, h_peer h := None)) j = Some g"
  then have j: "j \<noteq> k" "j \<noteq> h_peer h" "H j = Some g" by (auto split: if_splits)
  from pairedD[OF assms(1) j(3)] obtain q where q: "H (h_peer g) = Some q" "h_peer q = j"
    "h_pair q = h_pair g" "h_peer g \<noteq> j" "handle_ok g" by blast
  then have "h_peer g \<noteq> k" "h_peer g \<noteq> h_peer h" using j p assms(2) by auto
  then show "h_peer g \<noteq> j \<and> handle_ok g \<and> (\<exists>p. (H(k := None, h_peer h := None)) (h_peer g) = Some p
      \<and> h_peer p = j \<and> h_pair p = h_pair g)"
    using q by simp
qed

lemma paired_insert:
  assumes "paired H" "H a = None" "H b = None" "a \<noteq> b"
  shows "paired (H(a \<mapsto> new_handle b t s, b \<mapsto> new_handle a t s'))"
proof -
  have new: "handle_ok (new_handle p t s)" for p s
    by (simp add: handle_ok_def new_handle_def CHANNEL_WINDOW_BYTES_def CHANNEL_MAX_UNCONSUMED_MESSAGES_def)
  have "h_peer h \<noteq> a \<and> h_peer h \<noteq> b" if "H k = Some h" for k h
    using assms that unfolding paired_def by (metis option.distinct(1))
  then show ?thesis
    using assms new unfolding paired_def by (auto simp: new_handle_def)
qed

subsection \<open>Operations\<close>

named_theorems fabric_steps \<open>operations that keep the invariant\<close>

lemma inv_begin_drain [fabric_steps]:
  assumes "fabric_inv f" "hm_get (cf_listeners f) k = None" "hm_get (cf_handles f) k = None"
    "hm_get (cf_watches f) k = None"
  shows "fabric_inv (begin_drain k f)"
  using assms by (auto simp: fabric_inv_def begin_drain_def stores_ok_def fields_ok_def exclusive_def)

lemma inv_drop_drain [fabric_steps]: "fabric_inv f \<Longrightarrow> fabric_inv (drop_drain k f)"
  by (auto simp: fabric_inv_def drop_drain_def stores_ok_def fields_ok_def exclusive_def)

lemma inv_failed_open [fabric_steps]: "fabric_inv f \<Longrightarrow> fabric_inv (fst (failed_open e c st d f))"
  by (auto simp: failed_open_def Let_def key_is_live_def intro: inv_begin_drain)

lemma inv_fail_open [fabric_steps]: "fabric_inv f \<Longrightarrow> fabric_inv (fst (fail_open e c st d f))"
  using inv_failed_open by (simp add: fail_open_def split_def Let_def)

lemma inv_remove_listener:
  assumes "fabric_inv f"
  shows "fabric_inv (remove_listener k f)" "hm_get (cf_listeners (remove_listener k f)) = (hm_get (cf_listeners f))(k := None)"
    "cf_handles (remove_listener k f) = cf_handles f" "cf_watches (remove_listener k f) = cf_watches f"
proof -
  show "fabric_inv (remove_listener k f)"
  proof (cases "hm_get (cf_listeners f) k")
    case None
    then show ?thesis using assms by (simp add: remove_listener_def)
  next
    case (Some l)
    note p = fabric_inv_parts[OF assms]
    show ?thesis
      using p Some registered_remove[OF p(3) Some]
      by (auto simp: fabric_inv_def remove_listener_def stores_ok_def fields_ok_def exclusive_def hm_simps)
  qed
  show "hm_get (cf_listeners (remove_listener k f)) = (hm_get (cf_listeners f))(k := None)"
    using fabric_inv_parts(1)[OF assms]
    by (auto simp: remove_listener_def stores_ok_def hm_simps fun_eq_iff split: option.split)
  show "cf_handles (remove_listener k f) = cf_handles f" "cf_watches (remove_listener k f) = cf_watches f"
    by (simp_all add: remove_listener_def split: option.split)
qed

lemma inv_drop_listener:
  assumes "fabric_inv f" "hm_get (cf_listeners f) k \<noteq> None"
  shows "fabric_inv (begin_drain k (remove_listener k f))"
proof (rule inv_begin_drain)
  note r = inv_remove_listener[OF assms(1), of k]
  show "fabric_inv (remove_listener k f)" by (rule r(1))
  show "hm_get (cf_listeners (remove_listener k f)) k = None" by (simp add: r(2))
  show "hm_get (cf_handles (remove_listener k f)) k = None" "hm_get (cf_watches (remove_listener k f)) k = None"
    using fabric_inv_parts(5)[OF assms(1)] assms(2) unfolding r(3,4) exclusive_def by auto
qed

text \<open>Removing a pair removes exactly the two handles.\<close>

lemma core_remove_handle:
  "hm_get (cf_handles f) k \<noteq> None \<Longrightarrow> core (remove_handle k f) = core (f\<lparr>cf_handles := hm_remove k (cf_handles f)\<rparr>)"
  by (auto simp: remove_handle_def core_simps)

lemma core_handles_update: "core (f\<lparr>cf_handles := H\<rparr>) = (core f)\<lparr>cf_handles := H\<rparr>"
  by (simp add: core_def)

lemma core_remove_pair:
  assumes "fabric_inv f" "hm_get (cf_handles f) k = Some h"
  shows "core (remove_pair k f) = core (f\<lparr>cf_handles := hm_remove (h_peer h) (hm_remove k (cf_handles f))\<rparr>)"
proof -
  let ?g = "remove_handle k f"
  have g: "core ?g = core (f\<lparr>cf_handles := hm_remove k (cf_handles f)\<rparr>)"
    using assms(2) by (intro core_remove_handle) simp
  have handles: "cf_handles ?g = hm_remove k (cf_handles f)"
    using core_cong_fields(3)[OF g] by simp
  obtain p where p: "hm_get (cf_handles f) (h_peer h) = Some p" "h_peer h \<noteq> k"
    using pairedD[OF fabric_inv_parts(4)[OF assms(1)] assms(2)] by blast
  then have "hm_get (cf_handles ?g) (h_peer h) = Some p"
    using fabric_inv_parts(1)[OF assms(1)] by (simp add: handles stores_ok_def hm_simps)
  then have "core (remove_handle (h_peer h) ?g) = core (?g\<lparr>cf_handles := hm_remove (h_peer h) (cf_handles ?g)\<rparr>)"
    by (intro core_remove_handle) simp
  also have "\<dots> = core (f\<lparr>cf_handles := hm_remove (h_peer h) (hm_remove k (cf_handles f))\<rparr>)"
    by (simp add: handles core_handles_update g)
  finally show ?thesis using assms(2) by (simp add: remove_pair_def)
qed

lemma inv_transfer: "fabric_inv g \<Longrightarrow> core f = core g \<Longrightarrow> fabric_inv f"
  using fabric_inv_core by blast

lemma inv_accounting [fabric_steps]:
  "fabric_inv f \<Longrightarrow> fabric_inv (clone_pair t f)" "fabric_inv f \<Longrightarrow> fabric_inv (clone_slot s f)"
  "fabric_inv f \<Longrightarrow> fabric_inv (drop_pair t f)" "fabric_inv f \<Longrightarrow> fabric_inv (drop_slot s f)"
  "fabric_inv f \<Longrightarrow> fabric_inv (drop_admission adm f)"
  by (auto intro: inv_transfer simp: core_simps)

lemma accounting_fields [core_simps]:
  "cf_handles (clone_pair t f) = cf_handles f" "cf_handles (clone_slot s f) = cf_handles f"
  "cf_handles (drop_pair t f) = cf_handles f" "cf_handles (drop_slot s f) = cf_handles f"
  "cf_listeners (clone_pair t f) = cf_listeners f" "cf_listeners (clone_slot s f) = cf_listeners f"
  "cf_watches (clone_pair t f) = cf_watches f" "cf_watches (clone_slot s f) = cf_watches f"
  "cf_draining (clone_pair t f) = cf_draining f" "cf_draining (clone_slot s f) = cf_draining f"
  by (rule core_cong_fields, simp add: core_simps)+

lemma inv_remove_pair:
  assumes "fabric_inv f" "hm_get (cf_handles f) k = Some h"
  shows "fabric_inv (remove_pair k f)"
    "hm_get (cf_handles (remove_pair k f)) = (hm_get (cf_handles f))(k := None, h_peer h := None)"
    "cf_listeners (remove_pair k f) = cf_listeners f" "cf_watches (remove_pair k f) = cf_watches f"
    "cf_draining (remove_pair k f) = cf_draining f"
proof -
  let ?g = "f\<lparr>cf_handles := hm_remove (h_peer h) (hm_remove k (cf_handles f))\<rparr>"
  note p = fabric_inv_parts[OF assms(1)]
  note c = core_remove_pair[OF assms]
  have H: "hm_get (cf_handles ?g) = (hm_get (cf_handles f))(k := None, h_peer h := None)"
    using p(1) by (simp add: stores_ok_def hm_simps)
  have "fabric_inv ?g"
    using p paired_remove[OF p(4) assms(2)]
    by (auto simp: fabric_inv_def stores_ok_def fields_ok_def exclusive_def hm_simps)
  then show "fabric_inv (remove_pair k f)" using c by (rule inv_transfer)
  show "hm_get (cf_handles (remove_pair k f)) = (hm_get (cf_handles f))(k := None, h_peer h := None)"
    using H core_cong_fields(3)[OF c] by simp
  show "cf_listeners (remove_pair k f) = cf_listeners f" "cf_watches (remove_pair k f) = cf_watches f"
    "cf_draining (remove_pair k f) = cf_draining f"
    using core_cong_fields[OF c] by simp_all
qed

lemma handle_keys_exclusive:
  assumes "fabric_inv f" "hm_get (cf_handles f) k \<noteq> None"
  shows "hm_get (cf_listeners f) k = None" "hm_get (cf_watches f) k = None" "k \<notin> cf_draining f"
  using fabric_inv_parts(5)[OF assms(1)] assms(2) by (auto simp: exclusive_def dom_def)

lemma inv_drain_pair:
  assumes "fabric_inv f" "hm_get (cf_handles f) k = Some h" "j = k \<or> j = h_peer h"
  shows "fabric_inv (begin_drain j (remove_pair k f))"
proof (rule inv_begin_drain)
  note r = inv_remove_pair[OF assms(1,2)]
  obtain p where "hm_get (cf_handles f) (h_peer h) = Some p"
    using pairedD[OF fabric_inv_parts(4)[OF assms(1)] assms(2)] by blast
  then have "hm_get (cf_handles f) j \<noteq> None" using assms(2,3) by auto
  note x = handle_keys_exclusive[OF assms(1) this]
  show "fabric_inv (remove_pair k f)" by (rule r(1))
  show "hm_get (cf_listeners (remove_pair k f)) j = None" "hm_get (cf_watches (remove_pair k f)) j = None"
    using x r(3,4) by simp_all
  show "hm_get (cf_handles (remove_pair k f)) j = None" using r(2) assms(3) by auto
qed

lemma begin_drain_fields [core_simps]:
  "cf_listeners (begin_drain k f) = cf_listeners f" "cf_handles (begin_drain k f) = cf_handles f"
  "cf_watches (begin_drain k f) = cf_watches f"
  by (simp_all add: begin_drain_def)

lemma inv_close_pair [fabric_steps]:
  assumes "fabric_inv f"
  shows "fabric_inv (fst (close_pair k reason detail both f))"
proof (cases "hm_get (cf_handles f) k")
  case None
  then show ?thesis using assms by (simp add: close_pair_def)
next
  case (Some h)
  obtain ph where ph: "hm_get (cf_handles f) (h_peer h) = Some ph"
    using pairedD[OF fabric_inv_parts(4)[OF assms] Some] by blast
  let ?f1 = "clone_slot (h_slot ph) (clone_slot (h_slot h) (clone_pair (h_pair h) f))"
  let ?f2 = "remove_pair k ?f1"
  have f1: "fabric_inv ?f1" "hm_get (cf_handles ?f1) k = Some h"
    using assms Some by (simp_all add: fabric_steps core_simps)
  have d: "fabric_inv (begin_drain k ?f2)" by (rule inv_drain_pair[OF f1]) simp
  have "fabric_inv (begin_drain (h_peer h) (clone_pair (h_pair h) (begin_drain k ?f2)))"
  proof (rule inv_begin_drain)
    have "fabric_inv (begin_drain (h_peer h) ?f2)" by (rule inv_drain_pair[OF f1]) simp
    then have p: "exclusive (hm_get (cf_listeners ?f2)) (hm_get (cf_handles ?f2)) (hm_get (cf_watches ?f2))
        (insert (h_peer h) (cf_draining ?f2))"
      using fabric_inv_parts(5)[of "begin_drain (h_peer h) ?f2"] by (simp add: begin_drain_def)
    show "fabric_inv (clone_pair (h_pair h) (begin_drain k ?f2))" using d by (rule fabric_steps)
    show "hm_get (cf_listeners (clone_pair (h_pair h) (begin_drain k ?f2))) (h_peer h) = None"
      "hm_get (cf_handles (clone_pair (h_pair h) (begin_drain k ?f2))) (h_peer h) = None"
      "hm_get (cf_watches (clone_pair (h_pair h) (begin_drain k ?f2))) (h_peer h) = None"
      using p unfolding core_simps by (auto simp: exclusive_def dom_def)
  qed
  then show ?thesis
    using Some ph d by (auto simp: close_pair_def Let_def fabric_steps)
qed

lemma inv_protocol_violation [fabric_steps]:
  "fabric_inv f \<Longrightarrow> fabric_inv (fst (protocol_violation e c d f))"
  by (auto simp: protocol_violation_def Let_def intro: inv_drop_listener inv_close_pair)

lemma inv_close [fabric_steps]: "fabric_inv f \<Longrightarrow> fabric_inv (fst (close e c r f))"
  by (auto simp: close_def Let_def intro: inv_drop_listener inv_close_pair)

lemma inv_refuse [fabric_steps]: "fabric_inv f \<Longrightarrow> fabric_inv (fst (refuse e k c f))"
  by (simp add: refuse_def inv_fail_open)

lemma inv_malformed [fabric_steps]: "fabric_inv f \<Longrightarrow> fabric_inv (fst (malformed e k c d f))"
  by (simp add: malformed_def inv_fail_open inv_protocol_violation)

lemma inv_register [fabric_steps]:
  "fabric_inv f \<Longrightarrow> valid_peer_name n \<Longrightarrow> fabric_inv (register_endpoint e n f)"
  by (auto simp: fabric_inv_def register_endpoint_def stores_ok_def fields_ok_def hm_simps)

lemma inv_shutdown [fabric_steps]: "fabric_inv f \<Longrightarrow> fabric_inv (begin_shutdown f)"
  by (simp add: fabric_inv_def begin_shutdown_def stores_ok_def fields_ok_def)

lemma inv_drop_delivery [fabric_steps]: "fabric_inv f \<Longrightarrow> fabric_inv (drop_delivery d f)"
  by (simp add: drop_delivery_def opt_do_def fabric_steps split: option.split)

subsubsection \<open>Data and acknowledgements\<close>

lemma inv_put_handle:
  assumes "fabric_inv f" "hm_get (cf_handles f) k = Some h" "handle_ok h'" "h_peer h' = h_peer h" "h_pair h' = h_pair h"
  shows "fabric_inv (f\<lparr>cf_handles := hm_insert k h' (cf_handles f)\<rparr>)"
proof -
  note p = fabric_inv_parts[OF assms(1)]
  have "dom ((hm_get (cf_handles f))(k \<mapsto> h')) = dom (hm_get (cf_handles f))" using assms(2) by auto
  then show ?thesis
    using p paired_update[OF p(4) assms(2-5)]
    by (auto simp: fabric_inv_def stores_ok_def fields_ok_def exclusive_def hm_simps)
qed

lemma handle_ok_send:
  assumes "handle_ok h" "n > 0" "h_sent h + n \<le> h_acked h + CHANNEL_WINDOW_BYTES"
    "length (h_bounds h) < CHANNEL_MAX_UNCONSUMED_MESSAGES"
  shows "handle_ok (h\<lparr>h_sent := h_sent h + n, h_bounds := h_bounds h @ [h_sent h + n]\<rparr>)"
  using assms by (fastforce simp: handle_ok_def sorted_wrt_append)

lemma handle_ok_ack:
  assumes "handle_ok h" "h_acked h \<le> n" "n \<le> h_sent h" "n = h_acked h \<or> n \<in> set (h_bounds h)"
  shows "handle_ok (h\<lparr>h_acked := n, h_bounds := dropWhile (\<lambda>b. b \<le> n) (h_bounds h)\<rparr>)"
proof -
  let ?bs = "h_bounds h" and ?r = "dropWhile (\<lambda>b. b \<le> n) (h_bounds h)"
  have sorted: "sorted_wrt (<) ?bs" using assms(1) by (simp add: handle_ok_def)
  have split: "takeWhile (\<lambda>b. b \<le> n) ?bs @ ?r = ?bs" by simp
  have srt: "sorted_wrt (<) ?r"
    using sorted split sorted_wrt_append[of "(<)" "takeWhile (\<lambda>b. b \<le> n) ?bs" ?r] by simp
  have above: "n < b" if "b \<in> set ?r" for b
  proof -
    have ne: "?r \<noteq> []" using that by (auto simp del: dropWhile_eq_Nil_conv)
    have "\<not> hd ?r \<le> n" using hd_dropWhile[OF ne] .
    moreover have "hd ?r \<le> b"
      using that srt ne by (cases ?r) (auto simp: less_imp_le)
    ultimately show ?thesis by simp
  qed
  have sub: "set ?r \<subseteq> set ?bs" using split by (metis Un_upper2 set_append)
  have last: "?r \<noteq> [] \<Longrightarrow> last ?r = h_sent h"
    using assms(1) split by (metis handle_ok_def append_is_Nil_conv last_appendR)
  have empty: "h_sent h = n" if "?r = []"
  proof (cases "?bs = []")
    case True
    then show ?thesis using assms by (auto simp: handle_ok_def)
  next
    case False
    then have "h_sent h = last ?bs" using assms(1) by (simp add: handle_ok_def)
    moreover have "last ?bs \<in> set ?bs" using False by (rule last_in_set)
    moreover have "\<forall>b \<in> set ?bs. b \<le> n" using that by (simp add: dropWhile_eq_Nil_conv)
    ultimately show ?thesis using assms(3) by (metis le_antisym)
  qed
  have "length ?r \<le> CHANNEL_MAX_UNCONSUMED_MESSAGES"
    using assms(1) length_dropWhile_le[of "\<lambda>b. b \<le> n" ?bs] by (simp add: handle_ok_def)
  then show ?thesis
    using assms srt above sub last empty unfolding handle_ok_def by auto
qed

lemma inv_data [fabric_steps]:
  assumes "fabric_inv f" "payload \<noteq> []"
  shows "fabric_inv (fst (data e c payload f))"
proof -
  have pv: "fabric_inv (fst (protocol_violation e c d f))" for d
    by (rule inv_protocol_violation[OF assms(1)])
  show ?thesis
  proof (cases "hm_get (cf_handles f) (Key e c)")
    case None
    then show ?thesis using assms(1) pv by (simp add: data_def Let_def)
  next
    case (Some h)
    let ?s = "h_slot (the (hm_get (cf_handles f) (h_peer h)))"
    let ?f1 = "clone_slot ?s (clone_pair (h_pair h) f)"
    have f1: "fabric_inv ?f1" "hm_get (cf_handles ?f1) (Key e c) = Some h"
      using assms(1) Some by (simp_all add: fabric_steps core_simps)
    have h: "handle_ok h" using pairedD[OF fabric_inv_parts(4)[OF assms(1)] Some] by blast
    have "fabric_inv (?f1\<lparr>cf_handles := hm_insert (Key e c) (h\<lparr>h_sent := h_sent h + length payload,
          h_bounds := h_bounds h @ [h_sent h + length payload]\<rparr>) (cf_handles ?f1)\<rparr>)"
      if "h_sent h + length payload \<le> h_acked h + CHANNEL_WINDOW_BYTES"
        "length (h_bounds h) < CHANNEL_MAX_UNCONSUMED_MESSAGES"
      using inv_put_handle[OF f1] handle_ok_send[OF h _ that] assms(2) by simp
    then show ?thesis
      using Some pv unfolding data_def Let_def by (auto simp: not_le not_less)
  qed
qed

lemma inv_ack [fabric_steps]:
  assumes "fabric_inv f"
  shows "fabric_inv (fst (ack e c n f))"
proof -
  have pv: "fabric_inv (fst (protocol_violation e c d f))" for d
    by (rule inv_protocol_violation[OF assms])
  show ?thesis
  proof (cases "hm_get (cf_handles f) (Key e c)")
    case None
    then show ?thesis using assms pv by (simp add: ack_def Let_def)
  next
    case (Some h)
    obtain p where p: "hm_get (cf_handles f) (h_peer h) = Some p" "handle_ok p"
      using pairedD[OF fabric_inv_parts(4)[OF assms] Some] by blast
    let ?f1 = "clone_slot (h_slot p) (clone_pair (h_pair h) f)"
    have f1: "fabric_inv ?f1" "hm_get (cf_handles ?f1) (h_peer h) = Some p"
      using assms p(1) by (simp_all add: fabric_steps core_simps)
    have "fabric_inv (?f1\<lparr>cf_handles := hm_insert (h_peer h) (p\<lparr>h_acked := unat n,
          h_bounds := dropWhile (\<lambda>b. b \<le> unat n) (h_bounds p)\<rparr>) (cf_handles ?f1)\<rparr>)"
      if "h_acked p \<le> unat n" "unat n \<le> h_sent p" "unat n = h_acked p \<or> unat n \<in> set (h_bounds p)"
      using inv_put_handle[OF f1] handle_ok_ack[OF p(2) that] by simp
    then show ?thesis
      using Some p(1) pv unfolding ack_def Let_def by auto
  qed
qed

subsubsection \<open>Listening, watching, publishing\<close>

lemma listener_token_length [simp]: "length (listener_token_of f) = 16"
  by (simp add: listener_token_of_def)

lemma inv_listen [fabric_steps]:
  assumes "fabric_inv f" "name_ok name" "length md \<le> CHANNEL_MAX_METADATA"
  shows "fabric_inv (fst (fst (listen reserve e c name md (f, o1))))"
proof -
  let ?k = "Key e c"
  let ?l = "\<lparr>l_name = name, l_metadata = md, l_token = listener_token_of f\<rparr>"
  note p = fabric_inv_parts[OF assms(1)]
  have fail: "fabric_inv (fst (fail_open e c st d f))" for st d by (rule inv_fail_open[OF assms(1)])
  have "fabric_inv (f\<lparr>cf_next_listener_generation := g, cf_names_revision := r,
      cf_listener_names := hm_insert name ?k (cf_listener_names f),
      cf_listeners := hm_insert ?k ?l (cf_listeners f)\<rparr>)"
    if "\<not> key_is_live f ?k" "hm_get (cf_listener_names f) name = None" for g r
  proof -
    have "registered ((hm_get (cf_listeners f))(?k \<mapsto> ?l)) ((hm_get (cf_listener_names f))(name \<mapsto> ?k))"
      using registered_insert[OF p(3), of ?k ?l] that by (simp add: key_is_live_def)
    moreover have "listener_ok ?l" using assms(2,3) by (simp add: listener_ok_def)
    ultimately show ?thesis
      using p that by (auto simp: fabric_inv_def stores_ok_def fields_ok_def exclusive_def hm_simps key_is_live_def)
  qed
  then show ?thesis
    using fail assms(1) by (auto simp: listen_def Let_def split_def)
qed

lemma present_names_sub: "set (present_names f ns) \<subseteq> set ns" "length (present_names f ns) \<le> length ns"
  by (auto simp: present_names_def)

lemma msg_names_present:
  assumes "length ns \<le> CHANNEL_MAX_WATCH_NAMES" "\<forall>n \<in> set ns. name_ok n"
  obtains pk where "msg_channel_names c (present_names f ns) = Some pk"
proof -
  have "length (present_names f ns) \<le> CHANNEL_MAX_WATCH_NAMES" "\<forall>n \<in> set (present_names f ns). name_ok n"
    using assms present_names_sub[of f ns] by auto
  then show ?thesis using that by (simp add: msg_channel_names_def encode_name_list_iff)
qed

lemma inv_put_watch:
  assumes "fabric_inv f" "hm_get (cf_watches f) k \<noteq> None \<or> \<not> key_is_live f k" "watch_ok k w"
  shows "fabric_inv (f\<lparr>cf_watches := hm_insert k w (cf_watches f)\<rparr>)"
  using fabric_inv_parts[OF assms(1)] assms(2,3)
  by (auto simp: fabric_inv_def stores_ok_def fields_ok_def exclusive_def hm_simps key_is_live_def)

definition names_ok :: "bytes list \<Rightarrow> bool" where
  "names_ok names \<longleftrightarrow> names \<noteq> [] \<and> length names \<le> CHANNEL_MAX_WATCH_NAMES \<and> distinct names
     \<and> (\<forall>n \<in> set names. name_ok n)"

lemma inv_watch [fabric_steps]:
  assumes "fabric_inv f" "names_ok names"
  shows "fabric_inv (fst (fst (watch_names reserve e c names (f, o1))))"
proof -
  obtain pk where pk: "msg_channel_names c (present_names f names) = Some pk"
    using assms(2) by (auto simp: names_ok_def intro: msg_names_present)
  have "watch_ok (Key e c) \<lparr>w_names = names, w_published = pk\<rparr>"
    using assms(2) pk present_names_sub[of f names] by (auto simp: watch_ok_def names_ok_def)
  then have "\<not> key_is_live f (Key e c) \<Longrightarrow>
      fabric_inv (f\<lparr>cf_watches := hm_insert (Key e c) \<lparr>w_names = names, w_published = pk\<rparr> (cf_watches f)\<rparr>)"
    by (intro inv_put_watch[OF assms(1)]) simp_all
  then show ?thesis
    using inv_fail_open[OF assms(1)] assms(1) pk by (auto simp: watch_names_def Let_def split_def)
qed

lemma inv_publish_one:
  assumes "fabric_inv f"
  shows "fabric_inv (fst (fst (publish_one reserve k ((f, o1), ds))))"
proof (cases "hm_get (cf_watches f) k")
  case None
  then show ?thesis using assms by (simp add: publish_one_def)
next
  case (Some w)
  then have w: "watch_ok k w" using fabric_inv_parts(2)[OF assms] by (simp add: fields_ok_def)
  obtain pk where pk: "msg_channel_names (key_channel k) (present_names f (w_names w)) = Some pk"
    using w by (auto simp: watch_ok_def intro: msg_names_present)
  have "watch_ok k (w\<lparr>w_published := pk\<rparr>)"
    using w pk present_names_sub[of f "w_names w"] by (auto simp: watch_ok_def)
  then have "fabric_inv (f\<lparr>cf_watches := hm_insert k (w\<lparr>w_published := pk\<rparr>) (cf_watches f)\<rparr>)"
    using Some by (intro inv_put_watch[OF assms]) simp_all
  then show ?thesis using Some pk assms by (auto simp: publish_one_def Let_def split_def)
qed

lemma inv_publish_fold:
  "fabric_inv (fst (fst acc)) \<Longrightarrow> fabric_inv (fst (fst (fold (publish_one reserve) ks acc)))"
proof (induction ks arbitrary: acc)
  case (Cons k ks)
  obtain f o1 ds where acc: "acc = ((f, o1), ds)" by (metis prod.collapse)
  then show ?case using Cons inv_publish_one[of f reserve k o1 ds] by simp
qed simp

lemma inv_publish_names [fabric_steps]:
  assumes "fabric_inv f"
  shows "fabric_inv (fst (fst (publish_names reserve (f, o1))))"
proof -
  have "fabric_inv (f\<lparr>cf_published_revision := r\<rparr>)" for r
    using assms by (simp add: fabric_inv_def stores_ok_def fields_ok_def)
  then show ?thesis by (auto simp: publish_names_def Let_def intro: inv_publish_fold)
qed

subsubsection \<open>Connecting\<close>

lemma server_id_candidate_from_spec:
  "server_id_candidate_from f e c = Some (i, n) \<Longrightarrow> odd c \<Longrightarrow>
    \<not> key_is_live f (Key e i) \<and> odd (unat i) \<and> odd (unat n) \<and> c \<le> unat i \<and> unat n = unat i + 2"
proof (induction f e c rule: server_id_candidate_from.induct)
  case (1 f e c)
  show ?case
  proof (cases "c + 2 \<ge> 2 ^ 32")
    case True
    then show ?thesis using "1.prems" by (subst (asm) server_id_candidate_from.simps) simp
  next
    case False
    show ?thesis
    proof (cases "key_is_live f (Key e (word_of_nat c))")
      case True
      then have "server_id_candidate_from f e (c + 2) = Some (i, n)"
        using "1.prems"(1) False by (subst (asm) server_id_candidate_from.simps) simp
      then show ?thesis using "1.IH" False True "1.prems"(2) by fastforce
    next
      case fresh: False
      then have "i = word_of_nat c" "n = word_of_nat (c + 2)"
        using "1.prems"(1) False by (auto simp: server_id_candidate_from.simps[of f e c] add.commute)
      moreover have u: "unat (word_of_nat m :: u32) = m" if "m < 2 ^ 32" for m
        using that by (simp add: unat_of_nat)
      have "unat (word_of_nat c :: u32) = c" by (rule u) (use False in simp)
      moreover have "unat (word_of_nat (c + 2) :: u32) = c + 2" by (rule u) (use False in simp)
      ultimately have "unat i = c" "unat n = c + 2" by (simp_all only:)
      then show ?thesis using fresh "1.prems"(2) \<open>i = word_of_nat c\<close> by simp
    qed
  qed
qed

lemma server_id_candidate_spec:
  assumes "fabric_inv f" "server_id_candidate f e = Some (i, n)"
  shows "\<not> key_is_live f (Key e i)" "odd (unat i)" "odd (unat n)"
proof -
  let ?c = "case hm_get (cf_next_server_id f) e of Some c \<Rightarrow> unat c | None \<Rightarrow> 1"
  have "odd ?c"
    using fabric_inv_parts(2)[OF assms(1)] by (simp add: fields_ok_def split: option.split)
  from server_id_candidate_from_spec[OF _ this, of f e i n] assms(2)
  show "\<not> key_is_live f (Key e i)" "odd (unat i)" "odd (unat n)"
    by (simp_all add: server_id_candidate_def)
qed

lemma inv_commit_pair:
  assumes "fabric_inv f" "\<not> key_is_live f a" "\<not> key_is_live f b" "a \<noteq> b" "odd (unat n)"
  shows "fabric_inv (fst (commit_pair a b n adm p1 p2 f))"
proof -
  obtain t cs as where adm: "adm = (t, cs, as)" by (cases adm) auto
  let ?g = "f\<lparr>cf_next_server_id := hm_insert (key_endpoint b) n (cf_next_server_id f),
    cf_handles := hm_insert b (new_handle a t as) (hm_insert a (new_handle b t cs) (cf_handles f))\<rparr>"
  note p = fabric_inv_parts[OF assms(1)]
  have none: "hm_get (cf_handles f) a = None" "hm_get (cf_handles f) b = None"
    using assms(2,3) by (simp_all add: key_is_live_def)
  have "paired ((hm_get (cf_handles f))(a \<mapsto> new_handle b t cs, b \<mapsto> new_handle a t as))"
    by (rule paired_insert[OF p(4) none assms(4)])
  moreover have "dom ((hm_get (cf_handles f))(a \<mapsto> new_handle b t cs, b \<mapsto> new_handle a t as))
      = insert a (insert b (dom (hm_get (cf_handles f))))" by auto
  ultimately have g: "fabric_inv ?g"
    using p assms(2,3,5)
    by (auto simp: fabric_inv_def stores_ok_def fields_ok_def exclusive_def hm_simps key_is_live_def)
  have "core (fst (commit_pair a b n adm p1 p2 f)) = core ?g"
    unfolding adm commit_pair_def Let_def prod.case fst_conv
    by (simp add: core_simps core_handles_update)
  with g show ?thesis by (rule inv_transfer)
qed

lemma admit_Inr:
  assumes "admit_notifications reserve e c le cl ll (f, o1) = ((f', o2), Inr u)"
  shows "f' = f"
  using assms by (auto simp: admit_notifications_def Let_def split_def split: if_splits prod.splits bool.splits)

lemma inv_admit:
  assumes "fabric_inv f"
  shows "fabric_inv (fst (fst (admit_notifications reserve e c le cl ll (f, o1))))"
proof -
  have fo: "fabric_inv (fst (failed_open e c STATUS_CANCELLED [] f))" by (rule inv_failed_open[OF assms])
  then have "fabric_inv (opt_do drop_drain d (fst (failed_open e c STATUS_CANCELLED [] f)))" for d
    by (simp add: opt_do_def inv_drop_drain split: option.split)
  then show ?thesis
    using fo assms by (auto simp: admit_notifications_def cancelled_def Let_def split_def split: prod.split bool.split)
qed

lemma inv_connect [fabric_steps]:
  assumes "fabric_inv f" "even (unat c)"
  shows "fabric_inv (fst (fst (connect reserve e c name md token (f, o1))))"
proof -
  let ?k = "Key e c"
  have fail: "fabric_inv (fst (fst (let (f, ds) = fail_open e c st d g in ((f, o1), ds))))"
    if "fabric_inv g" for st d g
    using inv_fail_open[OF that] by (simp add: split_def Let_def)
  show ?thesis
  proof (cases "key_is_live f ?k \<or> hm_get (cf_listener_names f) name = None")
    case True
    then show ?thesis using fail[OF assms(1)] by (auto simp: connect_def Let_def)
  next
    case False
    then obtain lk where live: "\<not> key_is_live f ?k" and lk: "hm_get (cf_listener_names f) name = Some lk" by auto
    let ?l = "the (hm_get (cf_listeners f) lk)"
    show ?thesis
    proof (cases "token \<noteq> None \<and> token \<noteq> Some (l_token ?l) \<or> server_id_candidate f (key_endpoint lk) = None")
      case True
      then show ?thesis using fail[OF assms(1)] live lk by (auto simp: connect_def Let_def)
    next
      case tok: False
      then obtain i n where id: "server_id_candidate f (key_endpoint lk) = Some (i, n)" by auto
      note spec = server_id_candidate_spec[OF assms(1) id]
      let ?b = "Key (key_endpoint lk) i"
      have ab: "?k \<noteq> ?b" using assms(2) spec(2) by auto
      obtain g r where g: "reserve_pair e (key_endpoint lk) f = (g, r)" by (cases "reserve_pair e (key_endpoint lk) f")
      then have cg: "core g = core f" using core_reserve_pair[of e "key_endpoint lk" f] by simp
      then have gi: "fabric_inv g" using assms(1) by (metis fabric_inv_core)
      show ?thesis
      proof (cases r)
        case (Inl err)
        then show ?thesis
          using fail[OF gi] live lk tok id g by (auto simp: connect_def Let_def split_def)
      next
        case (Inr adm)
        let ?cp = "the (msg_channel_opened c STATUS_OK (word_of_nat CHANNEL_WINDOW_BYTES)
            (peer_name f (key_endpoint lk)) (l_metadata ?l) [])"
        let ?lp = "the (msg_channel_accepted i (key_channel lk) (word_of_nat CHANNEL_WINDOW_BYTES) (peer_name f e) md)"
        obtain h o2 q where a: "admit_notifications reserve e c (key_endpoint lk) (length ?cp) (length ?lp) (g, o1)
            = ((h, o2), q)" by (metis prod.collapse)
        have hi: "fabric_inv h"
          using inv_admit[OF gi, of reserve e c "key_endpoint lk" "length ?cp" "length ?lp" o1] a by simp
        show ?thesis
        proof (cases q)
          case (Inl ds)
          then show ?thesis
            using live lk tok id g Inr a hi by (auto simp: connect_def Let_def split_def inv_accounting)
        next
          case q: (Inr u)
          have "h = g" using a q by (intro admit_Inr) simp
          then have "\<not> key_is_live h ?k" "\<not> key_is_live h ?b"
            using live spec(1) key_is_live_core[OF cg] by simp_all
          then have "fabric_inv (fst (commit_pair ?k ?b n adm ?cp ?lp h))"
            using hi ab spec(3) by (intro inv_commit_pair)
          then show ?thesis
            using live lk tok id g Inr a q by (auto simp: connect_def Let_def split_def)
        qed
      qed
    qed
  qed
qed

subsubsection \<open>Packets and departures\<close>

text \<open>What the decoder guarantees about a request.\<close>

definition request_ok :: "channel_request \<Rightarrow> bool" where
  "request_ok r \<longleftrightarrow> (case r of Listen c name md \<Rightarrow> name_ok name \<and> length md \<le> CHANNEL_MAX_METADATA
     | Connect c name md token \<Rightarrow> even (unat c) \<and> length md \<le> CHANNEL_MAX_METADATA
     | ReqData c payload \<Rightarrow> payload \<noteq> [] \<and> length payload \<le> CHANNEL_MAX_PAYLOAD
     | Watch c names \<Rightarrow> names_ok names
     | Close c reason \<Rightarrow> reason \<le> CHANNEL_CLOSE_CANCELLED
     | _ \<Rightarrow> True)"

lemma even_id: "(c :: u32) AND 1 = 0 \<Longrightarrow> even (unat c)"
proof -
  assume "c AND 1 = 0"
  then have "\<not> bit c 0" by (simp add: and_one_eq bit_0 even_iff_mod_2_eq_zero)
  then have "\<not> bit (unat c) 0" by (simp add: bit_unsigned_iff)
  then show ?thesis by (simp add: bit_0)
qed

lemma parse_request_ok: "parse_channel_request p = Inr (Some r) \<Longrightarrow> request_ok r"
  unfolding parse_request_iff
  by (cases r) (auto simp: request_ok_def msg_channel_listen_def msg_channel_connect_def msg_channel_open_iff
    msg_channel_data_def msg_channel_close_def msg_channel_watch_def encode_name_list_iff names_ok_def
    not_less even_id split: if_splits)

lemma inv_apply_request:
  assumes "fabric_inv f" "request_ok r"
  shows "fabric_inv (fst (fst (apply_request reserve e r (f, o1))))"
proof -
  have ws: "fst (fst (with_state o1 x)) = fst x" for x :: "fabric \<times> delivery list"
    by (simp add: with_state_def split_def)
  have unwatch: "fabric_inv (f\<lparr>cf_watches := hm_remove k (cf_watches f)\<rparr>)" for k
    using fabric_inv_parts[OF assms(1)]
    by (auto simp: fabric_inv_def stores_ok_def fields_ok_def exclusive_def hm_simps split: if_splits)
  show ?thesis
    using assms unwatch
    by (cases r) (simp_all add: apply_request_def ws request_ok_def fabric_steps)
qed

lemma inv_handle_reserved:
  assumes "fabric_inv f" "request_ok r"
  shows "fabric_inv (fst (fst (handle_reserved reserve e r (f, o1))))"
proof -
  obtain g o2 ds where g: "apply_request reserve e r (f, o1) = ((g, o2), ds)" by (metis prod.collapse)
  then have "fabric_inv g" using inv_apply_request[OF assms, of reserve e o1] by simp
  from inv_publish_names[OF this, of reserve o2] show ?thesis
    by (simp add: handle_reserved_def g split_def Let_def)
qed

lemma inv_handle_packet [fabric_steps]:
  assumes "fabric_inv f"
  shows "fabric_inv (fst (fst (handle_packet reserve e p (f, o1))))"
proof -
  have ws: "fst (fst (with_state o1 x)) = fst x" for x :: "fabric \<times> delivery list"
    by (simp add: with_state_def split_def)
  show ?thesis
    using assms
    by (auto simp: handle_packet_def ws fabric_steps intro: inv_handle_reserved parse_request_ok
      split: sum.split option.split)
qed

lemma inv_remove_listeners: "fabric_inv f \<Longrightarrow> fabric_inv (fold remove_listener ks f)"
  by (induction ks arbitrary: f) (simp_all add: inv_remove_listener)

lemma inv_depart_handle:
  assumes "fabric_inv f"
  shows "fabric_inv (fst (depart_handle e k (f, ds)))"
proof (cases "hm_get (cf_handles f) k")
  case None
  then show ?thesis using assms by (simp add: depart_handle_def)
next
  case (Some h)
  obtain ph where ph: "hm_get (cf_handles f) (h_peer h) = Some ph"
    using pairedD[OF fabric_inv_parts(4)[OF assms] Some] by blast
  let ?f1 = "clone_slot (h_slot ph) (clone_pair (h_pair h) f)"
  have f1: "fabric_inv ?f1" "hm_get (cf_handles ?f1) k = Some h"
    using assms Some by (simp_all add: fabric_steps core_simps)
  have "fabric_inv (begin_drain (h_peer h) (remove_pair k ?f1))" by (rule inv_drain_pair[OF f1]) simp
  then show ?thesis
    using Some ph inv_remove_pair(1)[OF f1] by (simp add: depart_handle_def Let_def fabric_steps)
qed

lemma inv_depart_fold: "fabric_inv (fst acc) \<Longrightarrow> fabric_inv (fst (fold (depart_handle e) ks acc))"
proof (induction ks arbitrary: acc)
  case (Cons k ks)
  then show ?case using inv_depart_handle[of "fst acc" e k "snd acc"] by simp
qed simp

lemma inv_forget_endpoint:
  assumes "fabric_inv f"
  shows "fabric_inv (f\<lparr>cf_peer_names := hm_remove e (cf_peer_names f),
      cf_watches := hm_retain (\<lambda>k. key_endpoint k \<noteq> e) (cf_watches f)\<rparr>)"
  using fabric_inv_parts[OF assms]
  by (auto simp: fabric_inv_def stores_ok_def fields_ok_def exclusive_def hm_simps dom_def split: if_splits)

lemma inv_close_endpoint [fabric_steps]:
  assumes "fabric_inv f"
  shows "fabric_inv (fst (fst (close_endpoint reserve e (f, o1))))"
proof -
  let ?f1 = "f\<lparr>cf_peer_names := hm_remove e (cf_peer_names f),
      cf_watches := hm_retain (\<lambda>k. key_endpoint k \<noteq> e) (cf_watches f)\<rparr>"
  let ?f2 = "fold remove_listener (filter (\<lambda>k. key_endpoint k = e) (hm_keys (cf_listeners ?f1))) ?f1"
  let ?r = "fold (depart_handle e) (filter (\<lambda>k. key_endpoint k = e) (hm_keys (cf_handles ?f2))) (?f2, [])"
  have "fabric_inv (fst ?r)"
    by (intro inv_depart_fold) (simp add: inv_remove_listeners inv_forget_endpoint[OF assms])
  from inv_publish_names[OF this, of reserve o1] show ?thesis
    by (simp add: close_endpoint_def Let_def split_def)
qed

end
