(* ===== verification/Channel_Budget.thy ===== *)
theory Channel_Budget
  imports Channel_Inv
begin

text \<open>
  The reservation accounting of the fabric.  \<open>accounts f R S\<close> says that every guard's strong count is
  the number of handles that hold it plus the number of holders outside the handle table, which
  \<open>R\<close> (pair guards) and \<open>S\<close> (slot guards) count: the queued deliveries and, inside an operation, its
  local variables.  Each operation moves guards between the two; none is lost or duplicated, so the
  admission counters are exact and the configured budgets hold at every moment.
\<close>

subsection \<open>Counting handles\<close>

definition uses :: "(channel_key \<Rightarrow> handle option) \<Rightarrow> (handle \<Rightarrow> bool) \<Rightarrow> nat" where
  "uses H P = card {k. \<exists>h. H k = Some h \<and> P h}"

lemma uses_finite: "finite (dom H) \<Longrightarrow> finite {k. \<exists>h. H k = Some h \<and> P h}"
  by (rule finite_subset[of _ "dom H"]) auto

lemma uses_insert:
  assumes "finite (dom H)" "H k = None"
  shows "uses (H(k \<mapsto> h)) P = uses H P + (if P h then 1 else 0)"
proof -
  let ?A = "{k. \<exists>h. H k = Some h \<and> P h}"
  have "{j. \<exists>g. (H(k \<mapsto> h)) j = Some g \<and> P g} = (if P h then insert k ?A else ?A)"
    using assms(2) by auto
  then show ?thesis
    using uses_finite[OF assms(1), of P] assms(2) by (simp add: uses_def)
qed

lemma uses_delete:
  assumes "finite (dom H)" "H k = Some h"
  shows "uses H P = uses (H(k := None)) P + (if P h then 1 else 0)"
proof -
  have "finite (dom (H(k := None)))" using assms(1) by simp
  from uses_insert[OF this, of k h P] show ?thesis using assms(2) by (simp add: fun_upd_idem)
qed

lemma uses_update:
  assumes "finite (dom H)" "H k = Some h" "P h' = P h"
  shows "uses (H(k \<mapsto> h')) P = uses H P"
proof -
  have "finite (dom (H(k := None)))" using assms(1) by simp
  from uses_insert[OF this, of k h' P] uses_delete[OF assms(1,2), of P] show ?thesis
    using assms(3) by simp
qed

lemma uses_empty [simp]: "uses (\<lambda>k. None) P = 0"
  by (simp add: uses_def)

lemma uses_pos: "finite (dom H) \<Longrightarrow> H k = Some h \<Longrightarrow> P h \<Longrightarrow> 0 < uses H P"
  using uses_delete[of H k h P] by simp

lemma uses_0: "uses H P = 0 \<Longrightarrow> finite (dom H) \<Longrightarrow> H k = Some h \<Longrightarrow> \<not> P h"
  using uses_pos[of H k h P] by auto

subsection \<open>Counts\<close>

text \<open>One holder more, one holder less.\<close>

definition inc :: "nat \<Rightarrow> (nat \<Rightarrow> nat) \<Rightarrow> nat \<Rightarrow> nat" where
  "inc t R = R(t := R t + 1)"

definition dec :: "nat \<Rightarrow> (nat \<Rightarrow> nat) \<Rightarrow> nat \<Rightarrow> nat" where
  "dec t R = R(t := R t - 1)"

lemma inc_apply: "inc t R u = R u + (if u = t then 1 else 0)"
  and dec_apply: "dec t R u = R u - (if u = t then 1 else 0)"
  by (simp_all add: inc_def dec_def)

lemma dec_inc [simp]: "dec t (inc t R) = R"
  by (simp add: inc_def dec_def)

lemma inc_pos [simp]: "0 < inc t R t"
  by (simp add: inc_def)

definition pair_count :: "fabric \<Rightarrow> nat \<Rightarrow> nat" where
  "pair_count f t = (case hm_get (cf_pair_refs f) t of Some n \<Rightarrow> n | None \<Rightarrow> 0)"

definition slot_refcount :: "fabric \<Rightarrow> nat \<Rightarrow> nat" where
  "slot_refcount f s = (case hm_get (cf_slot_refs f) s of Some (e, n) \<Rightarrow> n | None \<Rightarrow> 0)"

definition slots_of :: "fabric \<Rightarrow> u64 \<Rightarrow> nat set" where
  "slots_of f e = {s. \<exists>n. hm_get (cf_slot_refs f) s = Some (e, n)}"

abbreviation handles_of :: "fabric \<Rightarrow> channel_key \<Rightarrow> handle option" where
  "handles_of f \<equiv> hm_get (cf_handles f)"

definition pairs_account :: "fabric \<Rightarrow> (nat \<Rightarrow> nat) \<Rightarrow> bool" where
  "pairs_account f R \<longleftrightarrow> hm_inv (cf_pair_refs f)
     \<and> (\<forall>t n. hm_get (cf_pair_refs f) t = Some n \<longrightarrow> 0 < n \<and> t < cf_next_ref f)
     \<and> cf_active_pairs f = length (hm_keys (cf_pair_refs f))
     \<and> cf_reserved_window f = PAIR_WINDOW * cf_active_pairs f
     \<and> (\<forall>t. pair_count f t = uses (handles_of f) (\<lambda>h. h_pair h = t) + R t)"

definition slots_account :: "fabric \<Rightarrow> (nat \<Rightarrow> nat) \<Rightarrow> bool" where
  "slots_account f S \<longleftrightarrow> hm_inv (cf_slot_refs f) \<and> hm_inv (cf_endpoint_slots f)
     \<and> (\<forall>s e n. hm_get (cf_slot_refs f) s = Some (e, n) \<longrightarrow> 0 < n \<and> s < cf_next_ref f)
     \<and> (\<forall>e. hm_get (cf_endpoint_slots f) e \<noteq> Some 0 \<and> slot_count f e = card (slots_of f e))
     \<and> (\<forall>s. slot_refcount f s = uses (handles_of f) (\<lambda>h. h_slot h = s) + S s)
     \<and> (\<forall>k h. handles_of f k = Some h \<longrightarrow> h_slot h \<in> slots_of f (key_endpoint k))
     \<and> (\<forall>s. uses (handles_of f) (\<lambda>h. h_slot h = s) \<le> 1)"

definition within_budget :: "fabric \<Rightarrow> bool" where
  "within_budget f \<longleftrightarrow> cf_active_pairs f \<le> lim_connected_pairs (cf_limits f)
     \<and> cf_reserved_window f \<le> lim_buffer_bytes (cf_limits f) \<and> cf_reserved_window f < 2 ^ 64
     \<and> (\<forall>e. slot_count f e \<le> lim_handles_per_client (cf_limits f))"

definition accounts :: "fabric \<Rightarrow> (nat \<Rightarrow> nat) \<Rightarrow> (nat \<Rightarrow> nat) \<Rightarrow> bool" where
  "accounts f R S \<longleftrightarrow> hm_inv (cf_handles f) \<and> pairs_account f R \<and> slots_account f S \<and> within_budget f"

lemma finite_slots_of: "hm_inv (cf_slot_refs f) \<Longrightarrow> finite (slots_of f e)"
proof -
  assume "hm_inv (cf_slot_refs f)"
  then have "finite (dom (hm_get (cf_slot_refs f)))" by (rule hm.finite_dom)
  moreover have "slots_of f e \<subseteq> dom (hm_get (cf_slot_refs f))" by (auto simp: slots_of_def)
  ultimately show ?thesis by (rule rev_finite_subset)
qed

lemma accounts_finite: "accounts f R S \<Longrightarrow> finite (dom (handles_of f))"
  by (simp add: accounts_def hm.finite_dom)

lemma accounts_pair: "accounts f R S \<Longrightarrow> pair_count f t = uses (handles_of f) (\<lambda>h. h_pair h = t) + R t"
  by (simp add: accounts_def pairs_account_def)

lemma accounts_slot: "accounts f R S \<Longrightarrow> slot_refcount f s = uses (handles_of f) (\<lambda>h. h_slot h = s) + S s"
  by (simp add: accounts_def slots_account_def)

subsection \<open>Cloning and dropping\<close>

lemma pair_refs_frame:
  "slots_account (f\<lparr>cf_pair_refs := x\<rparr>) S = slots_account f S"
  "within_budget (f\<lparr>cf_pair_refs := x\<rparr>) = within_budget f"
  by (simp_all add: slots_account_def slot_count_def slots_of_def slot_refcount_def within_budget_def)

lemma accounts_clone_pair:
  assumes "accounts f R S" "pair_count f t > 0"
  shows "accounts (clone_pair t f) (inc t R) S"
proof -
  obtain n where n: "hm_get (cf_pair_refs f) t = Some n"
    using assms(2) by (auto simp: pair_count_def split: option.splits)
  have inv: "hm_inv (cf_pair_refs f)" using assms(1) by (simp add: accounts_def pairs_account_def)
  have eq: "clone_pair t f = f\<lparr>cf_pair_refs := hm_insert t (n + 1) (cf_pair_refs f)\<rparr>"
    using n by (simp add: clone_pair_def)
  have "length (hm_keys (hm_insert t (n + 1) (cf_pair_refs f))) = length (hm_keys (cf_pair_refs f))"
    using hm.length_keys_insert[OF inv, of t "n + 1"] n by auto
  moreover have "pair_count (clone_pair t f) u = pair_count f u + (if u = t then 1 else 0)" for u
    using inv n by (simp add: eq pair_count_def hm_simps)
  ultimately have "pairs_account (clone_pair t f) (inc t R)"
    using assms(1) n inv unfolding accounts_def pairs_account_def
    by (auto simp: eq hm_simps inc_apply)
  moreover have "slots_account (clone_pair t f) S" "within_budget (clone_pair t f)"
    using assms(1) by (simp_all add: accounts_def eq pair_refs_frame)
  ultimately show ?thesis using assms(1) by (simp add: accounts_def eq)
qed

lemma accounts_drop_pair:
  assumes "accounts f R S" "R t > 0"
  shows "accounts (drop_pair t f) (dec t R) S"
proof -
  have "pair_count f t > 0" using accounts_pair[OF assms(1), of t] assms(2) by simp
  then obtain n where n: "hm_get (cf_pair_refs f) t = Some n" "n > 0"
    by (auto simp: pair_count_def split: option.splits)
  have inv: "hm_inv (cf_pair_refs f)" using assms(1) by (simp add: accounts_def pairs_account_def)
  have fin: "finite (dom (hm_get (cf_pair_refs f)))" using inv by (rule hm.finite_dom)
  have len: "length (hm_keys (hm_insert t (n - 1) (cf_pair_refs f))) = length (hm_keys (cf_pair_refs f))"
    "length (hm_keys (hm_remove t (cf_pair_refs f))) = length (hm_keys (cf_pair_refs f)) - 1"
    using hm.length_keys_insert[OF inv, of t "n - 1"] hm.length_keys_delete[OF inv, of t] n by auto
  have pos: "length (hm_keys (cf_pair_refs f)) > 0"
    using hm.card_keys[OF inv] n fin by (auto simp: card_gt_0_iff)
  have other: "cf_handles (drop_pair t f) = cf_handles f" "cf_slot_refs (drop_pair t f) = cf_slot_refs f"
    "cf_endpoint_slots (drop_pair t f) = cf_endpoint_slots f" "cf_next_ref (drop_pair t f) = cf_next_ref f"
    "cf_limits (drop_pair t f) = cf_limits f"
    by (simp_all add: drop_pair_def split: option.split)
  have cnt: "pair_count (drop_pair t f) u = pair_count f u - (if u = t then 1 else 0)" for u
    using inv n by (simp add: drop_pair_def pair_count_def hm_simps)
  have "pair_count (drop_pair t f) u = uses (handles_of f) (\<lambda>h. h_pair h = u) + (dec t R) u" for u
    using cnt[of u] accounts_pair[OF assms(1), of u] assms(2) by (auto simp: dec_apply)
  moreover have "cf_active_pairs f = length (hm_keys (cf_pair_refs f))"
    "cf_reserved_window f = PAIR_WINDOW * cf_active_pairs f"
    using assms(1) by (simp_all add: accounts_def pairs_account_def)
  ultimately have "pairs_account (drop_pair t f) (dec t R)"
    using assms(1) n inv len pos unfolding accounts_def pairs_account_def other
    by (auto simp: drop_pair_def hm_simps diff_mult_distrib2 split: if_splits)
  moreover have "slots_account (drop_pair t f) S"
    using assms(1)
    by (simp add: accounts_def slots_account_def other slot_count_def slots_of_def slot_refcount_def)
  moreover have "within_budget (drop_pair t f)"
    using assms(1) n by (auto simp: accounts_def within_budget_def drop_pair_def slot_count_def)
  ultimately show ?thesis using assms(1) by (simp add: accounts_def other)
qed

lemma accounts_clone_slot:
  assumes "accounts f R S" "slot_refcount f s > 0"
  shows "accounts (clone_slot s f) R (inc s S)"
proof -
  obtain e n where n: "hm_get (cf_slot_refs f) s = Some (e, n)"
    using assms(2) by (auto simp: slot_refcount_def split: option.splits)
  have inv: "hm_inv (cf_slot_refs f)" using assms(1) by (simp add: accounts_def slots_account_def)
  have eq: "clone_slot s f = f\<lparr>cf_slot_refs := hm_insert s (e, n + 1) (cf_slot_refs f)\<rparr>"
    using n by (simp add: clone_slot_def)
  have cnt: "slot_refcount (clone_slot s f) u = slot_refcount f u + (if u = s then 1 else 0)" for u
    using inv n by (simp add: eq slot_refcount_def hm_simps)
  have slots: "slots_of (clone_slot s f) d = slots_of f d" for d
    using n inv by (auto simp: eq slots_of_def hm_simps split: if_splits)
  have "slot_count (clone_slot s f) d = slot_count f d" for d by (simp add: eq slot_count_def)
  then have "slots_account (clone_slot s f) (inc s S)" "within_budget (clone_slot s f)"
    using assms(1) n inv cnt slots unfolding accounts_def slots_account_def within_budget_def
    by (auto simp: eq hm_simps inc_apply split: if_splits)
  moreover have "pairs_account (clone_slot s f) R"
    using assms(1) by (simp add: accounts_def pairs_account_def eq pair_count_def)
  ultimately show ?thesis using assms(1) by (simp add: accounts_def eq)
qed

lemma slot_count_release:
  assumes "hm_inv (cf_endpoint_slots f)"
  shows "slot_count (release_slot e f) d = slot_count f d - (if d = e then 1 else 0)"
    and "hm_inv (cf_endpoint_slots (release_slot e f))"
    and "\<forall>d. hm_get (cf_endpoint_slots f) d \<noteq> Some 0 \<Longrightarrow> hm_get (cf_endpoint_slots (release_slot e f)) d \<noteq> Some 0"
  using assms by (auto simp: release_slot_def slot_count_def Let_def hm_simps split: option.split)

lemma release_slot_fields:
  "cf_handles (release_slot e f) = cf_handles f" "cf_slot_refs (release_slot e f) = cf_slot_refs f"
  "cf_pair_refs (release_slot e f) = cf_pair_refs f" "cf_active_pairs (release_slot e f) = cf_active_pairs f"
  "cf_reserved_window (release_slot e f) = cf_reserved_window f" "cf_next_ref (release_slot e f) = cf_next_ref f"
  "cf_limits (release_slot e f) = cf_limits f"
  by (simp_all add: release_slot_def Let_def split: option.split)

lemma accounts_drop_slot:
  assumes "accounts f R S" "S s > 0"
  shows "accounts (drop_slot s f) R (dec s S)"
proof -
  have pos: "slot_refcount f s > 0" using accounts_slot[OF assms(1), of s] assms(2) by simp
  then obtain e n where n: "hm_get (cf_slot_refs f) s = Some (e, n)" "n > 0"
    by (auto simp: slot_refcount_def split: option.splits)
  have inv: "hm_inv (cf_slot_refs f)" "hm_inv (cf_endpoint_slots f)"
    using assms(1) by (simp_all add: accounts_def slots_account_def)
  have fields: "cf_handles (drop_slot s f) = cf_handles f" "cf_pair_refs (drop_slot s f) = cf_pair_refs f"
    "cf_active_pairs (drop_slot s f) = cf_active_pairs f" "cf_reserved_window (drop_slot s f) = cf_reserved_window f"
    "cf_next_ref (drop_slot s f) = cf_next_ref f" "cf_limits (drop_slot s f) = cf_limits f"
    by (simp_all add: drop_slot_def release_slot_fields split: option.split)
  have cnt: "slot_refcount (drop_slot s f) u = slot_refcount f u - (if u = s then 1 else 0)" for u
    using inv n by (auto simp: drop_slot_def slot_refcount_def hm_simps release_slot_fields)
  have total: "slot_refcount (drop_slot s f) u = uses (handles_of f) (\<lambda>h. h_slot h = u) + (dec s S) u" for u
    using cnt[of u] accounts_slot[OF assms(1), of u] assms(2) by (auto simp: dec_apply)
  have old: "hm_get (cf_endpoint_slots f) d \<noteq> Some 0" "slot_count f d = card (slots_of f d)" for d
    using assms(1) by (simp_all add: accounts_def slots_account_def)
  have handles: "h_slot h \<in> slots_of f (key_endpoint k)" if "handles_of f k = Some h" for k h
    using assms(1) that by (simp add: accounts_def slots_account_def)
  have refs: "0 < m \<and> u < cf_next_ref f" if "hm_get (cf_slot_refs f) u = Some (d, m)" for u d m
    using assms(1) that by (simp add: accounts_def slots_account_def)
  have one: "uses (handles_of f) (\<lambda>h. h_slot h = u) \<le> 1" for u
    using assms(1) by (simp add: accounts_def slots_account_def)
  have "slots_account (drop_slot s f) (dec s S) \<and> (\<forall>d. slot_count (drop_slot s f) d \<le> slot_count f d)"
  proof (cases "n > 1")
    case True
    then have eq: "drop_slot s f = f\<lparr>cf_slot_refs := hm_insert s (e, n - 1) (cf_slot_refs f)\<rparr>"
      using n by (simp add: drop_slot_def)
    have "slots_of (drop_slot s f) d = slots_of f d" for d
      using n inv by (auto simp: eq slots_of_def hm_simps split: if_splits)
    moreover have "slot_count (drop_slot s f) d = slot_count f d" for d by (simp add: eq slot_count_def)
    ultimately show ?thesis
      using inv old handles refs refs[OF n(1)] one total True unfolding slots_account_def fields
      by (auto simp: eq hm_simps split: if_splits)
  next
    case False
    let ?g = "f\<lparr>cf_slot_refs := hm_remove s (cf_slot_refs f)\<rparr>"
    have eq: "drop_slot s f = release_slot e ?g" using n False by (simp add: drop_slot_def)
    have ginv: "hm_inv (cf_endpoint_slots ?g)" using inv by simp
    have gcount: "slot_count ?g d = slot_count f d" for d by (simp add: slot_count_def)
    have sub: "slots_of (drop_slot s f) d = slots_of f d - {s}" for d
      using inv by (auto simp: eq slots_of_def release_slot_fields hm_simps split: if_splits)
    have mem: "s \<in> slots_of f d \<longleftrightarrow> d = e" for d using n by (auto simp: slots_of_def)
    have count: "slot_count (drop_slot s f) d = card (slots_of (drop_slot s f) d)" for d
      using slot_count_release(1)[OF ginv, of e d] gcount old(2)[of d] mem[of d] finite_slots_of[OF inv(1), of d]
      unfolding eq[symmetric] sub by auto
    have "uses (handles_of f) (\<lambda>h. h_slot h = s) = 0"
      using accounts_slot[OF assms(1), of s] assms(2) n False by (simp add: slot_refcount_def)
    then have "h_slot h \<noteq> s" if "handles_of f k = Some h" for k h
      using uses_0[OF _ accounts_finite[OF assms(1)] that] by blast
    then have "h_slot h \<in> slots_of (drop_slot s f) (key_endpoint k)" if "handles_of f k = Some h" for k h
      using handles[OF that] that unfolding sub by auto
    moreover have "hm_inv (cf_endpoint_slots (drop_slot s f))"
      "hm_get (cf_endpoint_slots (drop_slot s f)) d \<noteq> Some 0" for d
      using slot_count_release(2,3)[OF ginv, of e] old(1) unfolding eq by simp_all
    moreover have "hm_inv (cf_slot_refs (drop_slot s f))"
      "hm_get (cf_slot_refs (drop_slot s f)) u = Some (d, m) \<Longrightarrow> 0 < m \<and> u < cf_next_ref f" for u d m
      using inv refs by (auto simp: eq release_slot_fields hm_simps split: if_splits)
    moreover have "slot_count (drop_slot s f) d \<le> slot_count f d" for d
      using slot_count_release(1)[OF ginv, of e d] gcount unfolding eq by simp
    ultimately show ?thesis
      using count total one unfolding slots_account_def fields by blast
  qed
  moreover have "pairs_account (drop_slot s f) R"
    using assms(1) by (simp add: accounts_def pairs_account_def fields pair_count_def)
  ultimately show ?thesis
    using assms(1) unfolding accounts_def within_budget_def fields by (meson le_trans)
qed

subsection \<open>Taking out new guards\<close>

lemma accounts_fresh:
  assumes "accounts f R S"
  shows "R (cf_next_ref f) = 0" "S (cf_next_ref f) = 0"
    "hm_get (cf_pair_refs f) (cf_next_ref f) = None" "hm_get (cf_slot_refs f) (cf_next_ref f) = None"
    "uses (handles_of f) (\<lambda>h. h_pair h = cf_next_ref f) = 0" "uses (handles_of f) (\<lambda>h. h_slot h = cf_next_ref f) = 0"
proof -
  let ?t = "cf_next_ref f"
  show p: "hm_get (cf_pair_refs f) ?t = None"
    using assms by (cases "hm_get (cf_pair_refs f) ?t") (auto simp: accounts_def pairs_account_def)
  show s: "hm_get (cf_slot_refs f) ?t = None"
    using assms by (cases "hm_get (cf_slot_refs f) ?t") (auto simp: accounts_def slots_account_def)
  show "R ?t = 0" "uses (handles_of f) (\<lambda>h. h_pair h = ?t) = 0"
    using accounts_pair[OF assms, of ?t] p by (simp_all add: pair_count_def)
  show "S ?t = 0" "uses (handles_of f) (\<lambda>h. h_slot h = ?t) = 0"
    using accounts_slot[OF assms, of ?t] s by (simp_all add: slot_refcount_def)
qed

lemma accounts_new_pair:
  assumes "accounts f R S" "cf_active_pairs f < lim_connected_pairs (cf_limits f)"
    "cf_reserved_window f + PAIR_WINDOW \<le> lim_buffer_bytes (cf_limits f)" "cf_reserved_window f + PAIR_WINDOW < 2 ^ 64"
    and "new_pair f = (g, t)"
  shows "accounts g (inc t R) S" "t = cf_next_ref f" "cf_handles g = cf_handles f" "cf_slot_refs g = cf_slot_refs f"
proof -
  note fresh = accounts_fresh[OF assms(1)]
  have g: "g = f\<lparr>cf_active_pairs := cf_active_pairs f + 1, cf_reserved_window := cf_reserved_window f + PAIR_WINDOW,
      cf_pair_refs := hm_insert (cf_next_ref f) 1 (cf_pair_refs f), cf_next_ref := cf_next_ref f + 1\<rparr>"
    and t: "t = cf_next_ref f"
    using assms(5) by (auto simp: new_pair_def)
  have inv: "hm_inv (cf_pair_refs f)" using assms(1) by (simp add: accounts_def pairs_account_def)
  have "length (hm_keys (hm_insert (cf_next_ref f) 1 (cf_pair_refs f))) = Suc (length (hm_keys (cf_pair_refs f)))"
    using hm.length_keys_insert[OF inv, of "cf_next_ref f" 1] fresh(3) by (simp add: domIff)
  moreover have "pair_count g u = uses (handles_of g) (\<lambda>h. h_pair h = u) + inc t R u" for u
    using accounts_pair[OF assms(1), of u] inv fresh
    by (auto simp: g t pair_count_def hm_simps inc_apply)
  moreover have "hm_get (cf_pair_refs g) u = Some n \<Longrightarrow> 0 < n \<and> u < cf_next_ref g" for u n
    using assms(1) inv by (auto simp: g hm_simps accounts_def pairs_account_def less_Suc_eq split: if_splits)
  ultimately have "pairs_account g (inc t R)"
    using assms(1) inv unfolding accounts_def pairs_account_def
    by (auto simp: g hm_simps distrib_left)
  moreover have "slots_account g S"
    using assms(1)
    by (auto simp: accounts_def slots_account_def g slot_count_def slots_of_def slot_refcount_def less_Suc_eq)
  moreover have "within_budget g"
    using assms by (simp add: accounts_def within_budget_def g slot_count_def)
  ultimately show "accounts g (inc t R) S" using assms(1) by (simp add: accounts_def g)
  show "t = cf_next_ref f" "cf_handles g = cf_handles f" "cf_slot_refs g = cf_slot_refs f" by (simp_all add: t g)
qed

lemma accounts_new_slot:
  assumes "accounts f R S" "slot_count f e + 1 \<le> lim_handles_per_client (cf_limits f)" "new_slot e f = (g, s)"
  shows "accounts g R (inc s S)" "s = cf_next_ref f" "cf_handles g = cf_handles f" "cf_limits g = cf_limits f"
    "slots_of g d = (if d = e then insert s (slots_of f d) else slots_of f d)"
    "slot_count g d = slot_count f d + (if d = e then 1 else 0)" "cf_active_pairs g = cf_active_pairs f"
    "cf_reserved_window g = cf_reserved_window f"
proof -
  note fresh = accounts_fresh[OF assms(1)]
  have g: "g = f\<lparr>cf_endpoint_slots := hm_insert e (slot_count f e + 1) (cf_endpoint_slots f),
      cf_slot_refs := hm_insert (cf_next_ref f) (e, 1) (cf_slot_refs f), cf_next_ref := cf_next_ref f + 1\<rparr>"
    and s: "s = cf_next_ref f"
    using assms(3) by (auto simp: new_slot_def)
  have inv: "hm_inv (cf_slot_refs f)" "hm_inv (cf_endpoint_slots f)"
    using assms(1) by (simp_all add: accounts_def slots_account_def)
  have old: "hm_get (cf_endpoint_slots f) d \<noteq> Some 0" "slot_count f d = card (slots_of f d)" for d
    using assms(1) by (simp_all add: accounts_def slots_account_def)
  show sl: "slots_of g d = (if d = e then insert s (slots_of f d) else slots_of f d)" for d
    using inv fresh(4) by (auto simp: g s slots_of_def hm_simps split: if_splits)
  show cnt: "slot_count g d = slot_count f d + (if d = e then 1 else 0)" for d
    using inv by (simp add: g slot_count_def hm_simps)
  have new: "s \<notin> slots_of f d" for d using fresh(4) by (simp add: slots_of_def s)
  have "slot_count g d = card (slots_of g d)" for d
    using sl[of d] cnt[of d] old(2)[of d] new[of d] finite_slots_of[OF inv(1), of d]
    by (cases "d = e") simp_all
  moreover have "slot_refcount g u = uses (handles_of g) (\<lambda>h. h_slot h = u) + inc s S u" for u
    using accounts_slot[OF assms(1), of u] inv fresh
    by (auto simp: g s slot_refcount_def hm_simps inc_apply)
  moreover have "hm_get (cf_slot_refs g) u = Some (d, n) \<Longrightarrow> 0 < n \<and> u < cf_next_ref g" for u d n
    using assms(1) inv by (auto simp: g hm_simps accounts_def slots_account_def less_Suc_eq split: if_splits)
  moreover have "h_slot h \<in> slots_of g (key_endpoint k)" if "handles_of g k = Some h" for k h
    using that assms(1) unfolding sl by (auto simp: accounts_def slots_account_def g)
  moreover have "hm_get (cf_endpoint_slots g) d \<noteq> Some 0" for d
    using old(1)[of d] inv by (simp add: g hm_simps)
  moreover have "uses (handles_of g) (\<lambda>h. h_slot h = u) \<le> 1" for u
    using assms(1) by (simp add: accounts_def slots_account_def g)
  moreover have "hm_inv (cf_slot_refs g)" "hm_inv (cf_endpoint_slots g)" using inv by (simp_all add: g hm_simps)
  ultimately have "slots_account g (inc s S)" unfolding slots_account_def by blast
  moreover have "pairs_account g R"
    using assms(1) by (auto simp: accounts_def pairs_account_def g pair_count_def less_Suc_eq)
  moreover have "within_budget g"
    using assms(1,2) cnt by (auto simp: accounts_def within_budget_def g)
  ultimately show "accounts g R (inc s S)" using assms(1) by (simp add: accounts_def g)
  show "s = cf_next_ref f" "cf_handles g = cf_handles f" "cf_limits g = cf_limits f"
    "cf_active_pairs g = cf_active_pairs f" "cf_reserved_window g = cf_reserved_window f"
    by (simp_all add: s g)
qed

subsection \<open>The handle table\<close>

lemma handles_frame:
  "pair_count (f\<lparr>cf_handles := x\<rparr>) t = pair_count f t" "slot_refcount (f\<lparr>cf_handles := x\<rparr>) s = slot_refcount f s"
  "slots_of (f\<lparr>cf_handles := x\<rparr>) e = slots_of f e" "slot_count (f\<lparr>cf_handles := x\<rparr>) e = slot_count f e"
  "within_budget (f\<lparr>cf_handles := x\<rparr>) = within_budget f"
  by (simp_all add: pair_count_def slot_refcount_def slots_of_def slot_count_def within_budget_def)

lemma accounts_remove:
  assumes "accounts f R S" "handles_of f k = Some h"
  shows "accounts (f\<lparr>cf_handles := hm_remove k (cf_handles f)\<rparr>) (inc (h_pair h) R) (inc (h_slot h) S)"
proof -
  let ?g = "f\<lparr>cf_handles := hm_remove k (cf_handles f)\<rparr>"
  have inv: "hm_inv (cf_handles f)" using assms(1) by (simp add: accounts_def)
  have H: "handles_of ?g = (handles_of f)(k := None)" using inv by (simp add: hm_simps)
  have u: "uses (handles_of f) P = uses (handles_of ?g) P + (if P h then 1 else 0)" for P
    unfolding H by (rule uses_delete[OF accounts_finite[OF assms(1)] assms(2)])
  have "pair_count ?g t = uses (handles_of ?g) (\<lambda>h. h_pair h = t) + inc (h_pair h) R t" for t
    using accounts_pair[OF assms(1), of t] u[of "\<lambda>h. h_pair h = t"] by (auto simp: handles_frame inc_apply)
  then have "pairs_account ?g (inc (h_pair h) R)"
    using assms(1) by (simp add: accounts_def pairs_account_def)
  moreover have "slot_refcount ?g s = uses (handles_of ?g) (\<lambda>h. h_slot h = s) + inc (h_slot h) S s" for s
    using accounts_slot[OF assms(1), of s] u[of "\<lambda>h. h_slot h = s"] by (auto simp: handles_frame inc_apply)
  moreover have "uses (handles_of ?g) (\<lambda>h. h_slot h = s) \<le> 1" for s
  proof -
    have "uses (handles_of f) (\<lambda>h. h_slot h = s) \<le> 1"
      using assms(1) by (simp add: accounts_def slots_account_def)
    then show ?thesis using u[of "\<lambda>h. h_slot h = s"] by simp
  qed
  moreover have "h_slot g \<in> slots_of ?g (key_endpoint j)" if "handles_of ?g j = Some g" for j g
    using that assms(1) unfolding H handles_frame by (auto simp: accounts_def slots_account_def split: if_splits)
  ultimately have "pairs_account ?g (inc (h_pair h) R) \<and> slots_account ?g (inc (h_slot h) S)"
    using assms(1) unfolding accounts_def slots_account_def handles_frame by simp
  then show ?thesis using assms(1) inv by (simp add: accounts_def handles_frame hm_simps)
qed

lemma accounts_insert:
  assumes "accounts f R S" "handles_of f k = None" "0 < R (h_pair h)" "0 < S (h_slot h)"
    "uses (handles_of f) (\<lambda>g. h_slot g = h_slot h) = 0" "h_slot h \<in> slots_of f (key_endpoint k)"
  shows "accounts (f\<lparr>cf_handles := hm_insert k h (cf_handles f)\<rparr>) (dec (h_pair h) R) (dec (h_slot h) S)"
proof -
  let ?g = "f\<lparr>cf_handles := hm_insert k h (cf_handles f)\<rparr>"
  have inv: "hm_inv (cf_handles f)" using assms(1) by (simp add: accounts_def)
  have H: "handles_of ?g = (handles_of f)(k \<mapsto> h)" using inv by (simp add: hm_simps)
  have u: "uses (handles_of ?g) P = uses (handles_of f) P + (if P h then 1 else 0)" for P
    unfolding H by (rule uses_insert[OF accounts_finite[OF assms(1)] assms(2)])
  have "pair_count ?g t = uses (handles_of ?g) (\<lambda>h. h_pair h = t) + dec (h_pair h) R t" for t
    using accounts_pair[OF assms(1), of t] u[of "\<lambda>h. h_pair h = t"] assms(3) by (auto simp: handles_frame dec_apply)
  then have "pairs_account ?g (dec (h_pair h) R)"
    using assms(1) by (simp add: accounts_def pairs_account_def)
  moreover have "slot_refcount ?g s = uses (handles_of ?g) (\<lambda>h. h_slot h = s) + dec (h_slot h) S s" for s
    using accounts_slot[OF assms(1), of s] u[of "\<lambda>h. h_slot h = s"] assms(4) by (auto simp: handles_frame dec_apply)
  moreover have "uses (handles_of ?g) (\<lambda>h. h_slot h = s) \<le> 1" for s
  proof (cases "s = h_slot h")
    case True
    then show ?thesis using u[of "\<lambda>g. h_slot g = s"] assms(5) by simp
  next
    case False
    have "uses (handles_of f) (\<lambda>h. h_slot h = s) \<le> 1"
      using assms(1) by (simp add: accounts_def slots_account_def)
    then show ?thesis using u[of "\<lambda>h. h_slot h = s"] False by simp
  qed
  moreover have "h_slot g \<in> slots_of ?g (key_endpoint j)" if "handles_of ?g j = Some g" for j g
    using that assms(1,6) unfolding H handles_frame by (auto simp: accounts_def slots_account_def split: if_splits)
  ultimately have "pairs_account ?g (dec (h_pair h) R) \<and> slots_account ?g (dec (h_slot h) S)"
    using assms(1) unfolding accounts_def slots_account_def handles_frame by simp
  then show ?thesis using assms(1) inv by (simp add: accounts_def handles_frame hm_simps)
qed

lemma accounts_put:
  assumes "accounts f R S" "handles_of f k = Some h" "h_pair h' = h_pair h" "h_slot h' = h_slot h"
  shows "accounts (f\<lparr>cf_handles := hm_insert k h' (cf_handles f)\<rparr>) R S"
proof -
  let ?g = "f\<lparr>cf_handles := hm_insert k h' (cf_handles f)\<rparr>"
  have inv: "hm_inv (cf_handles f)" using assms(1) by (simp add: accounts_def)
  have H: "handles_of ?g = (handles_of f)(k \<mapsto> h')" using inv by (simp add: hm_simps)
  have u: "uses (handles_of ?g) (\<lambda>h. h_pair h = t) = uses (handles_of f) (\<lambda>h. h_pair h = t)"
    "uses (handles_of ?g) (\<lambda>h. h_slot h = t) = uses (handles_of f) (\<lambda>h. h_slot h = t)" for t
    unfolding H by (rule uses_update[OF accounts_finite[OF assms(1)] assms(2)], simp add: assms(3,4))+
  have slots: "h_slot g \<in> slots_of f (key_endpoint j)" if "handles_of ?g j = Some g" for j g
  proof (cases "j = k")
    case True
    then show ?thesis using that assms(1,2,4) unfolding H by (auto simp: accounts_def slots_account_def)
  next
    case False
    then show ?thesis using that assms(1) unfolding H by (auto simp: accounts_def slots_account_def)
  qed
  have "pairs_account ?g R"
    using assms(1) u by (simp add: accounts_def pairs_account_def handles_frame)
  moreover have "slots_account ?g S"
    using assms(1) slots unfolding accounts_def slots_account_def handles_frame u by simp
  ultimately show ?thesis using assms(1) inv by (simp add: accounts_def handles_frame hm_simps)
qed

text \<open>Fields the accounting does not look at.\<close>

definition account_view :: "fabric \<Rightarrow> fabric" where
  "account_view f = f\<lparr>cf_enabled := False, cf_shutting_down := False, cf_boot_generation := 0,
     cf_next_listener_generation := 0, cf_next_server_id := [], cf_peer_names := [], cf_listener_names := [],
     cf_listeners := [], cf_watches := [], cf_names_revision := 0, cf_published_revision := 0, cf_draining := {}\<rparr>"

lemma accounts_view: "accounts (account_view f) R S = accounts f R S"
  unfolding accounts_def pairs_account_def slots_account_def within_budget_def slot_count_def slots_of_def
    slot_refcount_def pair_count_def account_view_def by simp

lemma accounts_same_view: "accounts f R S \<Longrightarrow> account_view g = account_view f \<Longrightarrow> accounts g R S"
  by (metis accounts_view)

subsection \<open>Operations\<close>

definition with_pairs :: "delivery list \<Rightarrow> (nat \<Rightarrow> nat) \<Rightarrow> nat \<Rightarrow> nat" where
  "with_pairs ds R = (\<lambda>t. R t + length (filter (\<lambda>d. d_pair d = Some t) ds))"

definition with_slots :: "delivery list \<Rightarrow> (nat \<Rightarrow> nat) \<Rightarrow> nat \<Rightarrow> nat" where
  "with_slots ds S = (\<lambda>s. S s + length (filter (\<lambda>d. d_slot d = Some s) ds))"

text \<open>An operation is balanced when the deliveries it emits hold exactly the guards it added.\<close>

definition balanced :: "fabric \<Rightarrow> fabric \<Rightarrow> delivery list \<Rightarrow> bool" where
  "balanced f g ds \<longleftrightarrow> (\<forall>R S. accounts f R S \<longrightarrow> accounts g (with_pairs ds R) (with_slots ds S))"

lemma balancedI: "(\<And>R S. accounts f R S \<Longrightarrow> accounts g (with_pairs ds R) (with_slots ds S)) \<Longrightarrow> balanced f g ds"
  by (simp add: balanced_def)

lemma with_append: "with_pairs (a @ b) R = with_pairs b (with_pairs a R)" "with_slots (a @ b) S = with_slots b (with_slots a S)"
  by (simp_all add: with_pairs_def with_slots_def fun_eq_iff)

lemma with_plain:
  "\<forall>d \<in> set ds. d_pair d = None \<Longrightarrow> with_pairs ds R = R" "\<forall>d \<in> set ds. d_slot d = None \<Longrightarrow> with_slots ds S = S"
  by (auto simp: with_pairs_def with_slots_def fun_eq_iff filter_empty_conv)

lemma with_Nil [simp]: "with_pairs [] R = R" "with_slots [] S = S"
  by (simp_all add: with_plain)

lemma balanced_trans: "balanced f g a \<Longrightarrow> balanced g h b \<Longrightarrow> balanced f h (a @ b)"
  by (simp add: balanced_def with_append)

definition plain :: "delivery \<Rightarrow> bool" where
  "plain d \<longleftrightarrow> d_pair d = None \<and> d_slot d = None"

lemma balanced_view: "account_view g = account_view f \<Longrightarrow> list_all plain ds \<Longrightarrow> balanced f g ds"
  by (rule balancedI) (simp add: with_plain plain_def list_all_iff accounts_same_view)

lemma view_begin_drain [simp]: "account_view (begin_drain k f) = account_view f"
  by (simp add: account_view_def begin_drain_def)

lemma view_drop_drain [simp]: "account_view (drop_drain k f) = account_view f"
  by (simp add: account_view_def drop_drain_def)

lemma view_remove_listener [simp]: "account_view (remove_listener k f) = account_view f"
  by (simp add: account_view_def remove_listener_def split: option.split)

lemma accounts_begin_drain: "accounts f R S \<Longrightarrow> accounts (begin_drain k f) R S"
  by (rule accounts_same_view) simp_all

lemma balanced_failed_open: "balanced f (fst (failed_open e c st d f)) [snd (failed_open e c st d f)]"
  by (rule balanced_view)
    (simp_all add: failed_open_def Let_def opened_with_drain_def plain_delivery_def plain_def)

lemma balanced_fail_open: "balanced f (fst (fail_open e c st d f)) (snd (fail_open e c st d f))"
  using balanced_failed_open[of f e c st d] by (simp add: fail_open_def split_def Let_def)

lemma accounts_remove_handle: "accounts f R S \<Longrightarrow> accounts (remove_handle k f) R S"
proof (cases "handles_of f k")
  case (Some h)
  assume "accounts f R S"
  from accounts_remove[OF this Some] have
    "accounts (f\<lparr>cf_handles := hm_remove k (cf_handles f)\<rparr>) (inc (h_pair h) R) (inc (h_slot h) S)" .
  from accounts_drop_slot[OF accounts_drop_pair[OF this, of "h_pair h"], of "h_slot h"]
  show ?thesis using Some by (simp add: remove_handle_def)
qed (simp add: remove_handle_def)

lemma accounts_remove_pair: "accounts f R S \<Longrightarrow> accounts (remove_pair k f) R S"
  by (simp add: remove_pair_def accounts_remove_handle split: option.split)

lemma count_of_handle:
  assumes "accounts f R S" "handles_of f k = Some h"
  shows "0 < pair_count f (h_pair h)" "0 < slot_refcount f (h_slot h)"
  using accounts_pair[OF assms(1), of "h_pair h"] accounts_slot[OF assms(1), of "h_slot h"]
    uses_pos[OF accounts_finite[OF assms(1)] assms(2), of "\<lambda>g. h_pair g = h_pair h"]
    uses_pos[OF accounts_finite[OF assms(1)] assms(2), of "\<lambda>g. h_slot g = h_slot h"] by simp_all

lemma count_of_holder: "accounts f R S \<Longrightarrow> 0 < R t \<Longrightarrow> 0 < pair_count f t"
  "accounts f R S \<Longrightarrow> 0 < S s \<Longrightarrow> 0 < slot_refcount f s"
  using accounts_pair[of f R S t] accounts_slot[of f R S s] by simp_all

lemma clone_counts [simp]: "slot_refcount (clone_pair t f) s = slot_refcount f s"
  by (simp add: clone_pair_def slot_refcount_def split: option.split)

lemma accounts_clone_handle:
  assumes "accounts f R S" "handles_of f k = Some h" "handles_of f p = Some g"
  shows "accounts (clone_slot (h_slot g) (clone_pair (h_pair h) f)) (inc (h_pair h) R) (inc (h_slot g) S)"
  using accounts_clone_slot[OF accounts_clone_pair[OF assms(1) count_of_handle(1)[OF assms(1,2)]], of "h_slot g"]
    count_of_handle(2)[OF assms(1,3)] by simp

lemma balanced_close_pair:
  assumes "fabric_inv f"
  shows "balanced f (fst (close_pair k r d True f)) (snd (close_pair k r d True f))"
proof (cases "handles_of f k")
  case None
  then show ?thesis by (simp add: close_pair_def balanced_view)
next
  case (Some h)
  obtain ph where ph: "handles_of f (h_peer h) = Some ph"
    using pairedD[OF fabric_inv_parts(4)[OF assms] Some] by blast
  let ?f1 = "clone_slot (h_slot ph) (clone_slot (h_slot h) (clone_pair (h_pair h) f))"
  let ?f2 = "begin_drain k (remove_pair k ?f1)"
  show ?thesis
  proof (rule balancedI)
    fix R S assume acc: "accounts f R S"
    have a1: "accounts (clone_slot (h_slot h) (clone_pair (h_pair h) f)) (inc (h_pair h) R) (inc (h_slot h) S)"
      by (rule accounts_clone_handle[OF acc Some Some])
    have "0 < slot_refcount (clone_slot (h_slot h) (clone_pair (h_pair h) f)) (h_slot ph)"
      using count_of_handle(2)[OF a1, of "h_peer h" ph] ph by (simp add: core_simps)
    from accounts_clone_slot[OF a1 this]
    have "accounts ?f1 (inc (h_pair h) R) (inc (h_slot ph) (inc (h_slot h) S))" .
    then have a2: "accounts ?f2 (inc (h_pair h) R) (inc (h_slot ph) (inc (h_slot h) S))"
      by (intro accounts_begin_drain accounts_remove_pair)
    have "0 < pair_count ?f2 (h_pair h)" by (rule count_of_holder(1)[OF a2]) simp
    from accounts_clone_pair[OF a2 this]
    have "accounts (begin_drain (h_peer h) (clone_pair (h_pair h) ?f2))
        (inc (h_pair h) (inc (h_pair h) R)) (inc (h_slot ph) (inc (h_slot h) S))"
      by (rule accounts_begin_drain)
    moreover have "with_pairs (snd (close_pair k r d True f)) R = inc (h_pair h) (inc (h_pair h) R)"
      "with_slots (snd (close_pair k r d True f)) S = inc (h_slot ph) (inc (h_slot h) S)"
      using Some ph by (auto simp: close_pair_def Let_def with_pairs_def with_slots_def closed_def inc_apply fun_eq_iff)
    ultimately show "accounts (fst (close_pair k r d True f)) (with_pairs (snd (close_pair k r d True f)) R)
        (with_slots (snd (close_pair k r d True f)) S)"
      using Some ph by (simp add: close_pair_def Let_def)
  qed
qed

lemma balanced_drop_listener:
  "balanced f (begin_drain k (remove_listener k f)) [closed k r d None None (Some k)]"
  by (rule balanced_view) (simp_all add: plain_def closed_def)

lemma balanced_violation:
  "fabric_inv f \<Longrightarrow> balanced f (fst (protocol_violation e c d f)) (snd (protocol_violation e c d f))"
  by (auto simp: protocol_violation_def Let_def balanced_drop_listener balanced_close_pair balanced_view)

lemma balanced_close: "fabric_inv f \<Longrightarrow> balanced f (fst (close e c r f)) (snd (close e c r f))"
  by (auto simp: close_def Let_def balanced_drop_listener balanced_close_pair balanced_view)

lemma balanced_refuse: "balanced f (fst (refuse e k c f)) (snd (refuse e k c f))"
  by (auto simp: refuse_def balanced_fail_open balanced_view)

lemma balanced_malformed: "fabric_inv f \<Longrightarrow> balanced f (fst (malformed e k c d f)) (snd (malformed e k c d f))"
  by (auto simp: malformed_def balanced_fail_open balanced_violation)

lemma with_peer_delivery:
  "with_pairs [peer_delivery p pk t s] R = inc t R" "with_slots [peer_delivery p pk t s] S = inc s S"
  by (auto simp: with_pairs_def with_slots_def peer_delivery_def inc_apply fun_eq_iff)

lemma balanced_data:
  assumes "fabric_inv f"
  shows "balanced f (fst (data e c payload f)) (snd (data e c payload f))"
proof (cases "handles_of f (Key e c)")
  case None
  then show ?thesis
    using balanced_violation[OF assms] by (auto simp: data_def Let_def balanced_view)
next
  case (Some h)
  obtain ph where ph: "handles_of f (h_peer h) = Some ph"
    using pairedD[OF fabric_inv_parts(4)[OF assms] Some] by blast
  let ?f1 = "clone_slot (h_slot ph) (clone_pair (h_pair h) f)"
  have "balanced f (?f1\<lparr>cf_handles := hm_insert (Key e c) (h\<lparr>h_sent := n, h_bounds := b\<rparr>) (cf_handles ?f1)\<rparr>)
      [peer_delivery (h_peer h) pk (h_pair h) (h_slot ph)]" for n b pk
    by (rule balancedI, unfold with_peer_delivery, rule accounts_put, rule accounts_clone_handle[OF _ Some ph])
      (simp_all add: core_simps Some)
  then show ?thesis
    using Some ph balanced_violation[OF assms] by (auto simp: data_def Let_def)
qed

lemma balanced_ack:
  assumes "fabric_inv f"
  shows "balanced f (fst (ack e c n f)) (snd (ack e c n f))"
proof (cases "handles_of f (Key e c)")
  case None
  then show ?thesis
    using balanced_violation[OF assms] by (auto simp: ack_def Let_def balanced_view)
next
  case (Some h)
  obtain ph where ph: "handles_of f (h_peer h) = Some ph"
    using pairedD[OF fabric_inv_parts(4)[OF assms] Some] by blast
  let ?f1 = "clone_slot (h_slot ph) (clone_pair (h_pair h) f)"
  have "balanced f (?f1\<lparr>cf_handles := hm_insert (h_peer h) (ph\<lparr>h_acked := m, h_bounds := b\<rparr>) (cf_handles ?f1)\<rparr>)
      [peer_delivery (h_peer h) pk (h_pair h) (h_slot ph)]" for m b pk
    by (rule balancedI, unfold with_peer_delivery, rule accounts_put, rule accounts_clone_handle[OF _ Some ph])
      (simp_all add: core_simps ph)
  then show ?thesis
    using Some ph balanced_violation[OF assms] by (auto simp: ack_def Let_def)
qed

lemma balanced_listen:
  "balanced f (fst (fst (listen reserve e c name md (f, o1)))) (snd (listen reserve e c name md (f, o1)))"
proof -
  have fail: "balanced f (fst (fail_open e c st d f)) (snd (fail_open e c st d f))" for st d
    by (rule balanced_fail_open)
  have ok: "balanced f (f\<lparr>cf_next_listener_generation := g, cf_names_revision := r, cf_listener_names := n,
      cf_listeners := l\<rparr>) [(opened e c STATUS_OK [])\<lparr>d_outbox := b\<rparr>]" for g r n l b
    by (rule balanced_view) (simp_all add: account_view_def plain_def opened_def opened_with_drain_def plain_delivery_def)
  show ?thesis
    using fail ok by (auto simp: listen_def Let_def split_def balanced_view)
qed

lemma balanced_watch:
  "balanced f (fst (fst (watch_names reserve e c names (f, o1)))) (snd (watch_names reserve e c names (f, o1)))"
proof -
  have fail: "balanced f (fst (fail_open e c st d f)) (snd (fail_open e c st d f))" for st d
    by (rule balanced_fail_open)
  have ok: "balanced f (f\<lparr>cf_watches := w\<rparr>) [(plain_delivery e pk)\<lparr>d_outbox := b\<rparr>]" for w pk b
    by (rule balanced_view) (simp_all add: account_view_def plain_def plain_delivery_def)
  show ?thesis
    using fail ok by (auto simp: watch_names_def Let_def split_def balanced_view)
qed

lemma publish_one_view:
  "account_view (fst (fst (publish_one reserve k acc))) = account_view (fst (fst acc))
    \<and> (list_all plain (snd acc) \<longrightarrow> list_all plain (snd (publish_one reserve k acc)))"
proof -
  obtain f o1 ds where acc: "acc = ((f, o1), ds)" by (metis prod.collapse)
  show ?thesis
    by (auto simp: acc publish_one_def Let_def split_def account_view_def plain_def plain_delivery_def split: option.split)
qed

lemma publish_fold_view:
  "account_view (fst (fst (fold (publish_one reserve) ks acc))) = account_view (fst (fst acc))
    \<and> (list_all plain (snd acc) \<longrightarrow> list_all plain (snd (fold (publish_one reserve) ks acc)))"
proof (induction ks arbitrary: acc)
  case (Cons k ks)
  then show ?case using publish_one_view[of reserve k acc] by simp
qed simp

lemma balanced_publish: "balanced f (fst (fst (publish_names reserve (f, o1)))) (snd (publish_names reserve (f, o1)))"
proof -
  let ?g = "f\<lparr>cf_published_revision := cf_names_revision f\<rparr>"
  have g: "account_view ?g = account_view f" by (simp add: account_view_def)
  have "account_view (fst (fst (publish_names reserve (f, o1)))) = account_view f
      \<and> list_all plain (snd (publish_names reserve (f, o1)))"
    using publish_fold_view[of reserve "hm_keys (cf_watches f)" "((?g, o1), [])"] g
    by (auto simp: publish_names_def Let_def)
  then show ?thesis by (simp add: balanced_view)
qed

end
