(* ===== verification/Channel_Lifecycle.thy ===== *)
theory Channel_Lifecycle
  imports Channel_Budget
begin

text \<open>
  The accounting of \<open>Channel_Budget\<close> through the life of a pair: admission of a connect
  (\<open>reserve_pair\<close>, the two outbox admissions, the commit), the departure of an endpoint and the
  release of a queued delivery.  Together with the earlier operations this makes every entry point
  of the fabric balanced.
\<close>

subsection \<open>Admission\<close>

definition admitted :: "fabric \<Rightarrow> u64 \<Rightarrow> u64 \<Rightarrow> nat \<Rightarrow> nat \<Rightarrow> bool" where
  "admitted g a b cs as \<longleftrightarrow> cs \<noteq> as \<and> cs \<in> slots_of g a \<and> as \<in> slots_of g b
     \<and> uses (handles_of g) (\<lambda>h. h_slot h = cs) = 0 \<and> uses (handles_of g) (\<lambda>h. h_slot h = as) = 0"

lemma reserve_slots_Inr:
  assumes "accounts f R S" "reserve_handle_slots a b f = (g, Inr (cs, as))"
  shows "accounts g R (inc as (inc cs S))" "admitted g a b cs as" "cf_handles g = cf_handles f"
    "cf_active_pairs g = cf_active_pairs f" "cf_reserved_window g = cf_reserved_window f" "cf_limits g = cf_limits f"
proof -
  obtain f1 where n1: "new_slot a f = (f1, cs)" and n2: "new_slot b f1 = (g, as)"
    and lim: "slot_count f a + ((if a = b then 1 else 0) + 1) \<le> lim_handles_per_client (cf_limits f)"
      "a \<noteq> b \<Longrightarrow> slot_count f b + 1 \<le> lim_handles_per_client (cf_limits f)"
    using assms(2) by (auto simp: reserve_handle_slots_def Let_def split_def split: if_splits)
      (metis prod.collapse)+
  have l1: "slot_count f a + 1 \<le> lim_handles_per_client (cf_limits f)" using lim(1) by (auto split: if_splits)
  note s1 = accounts_new_slot[OF assms(1) l1 n1]
  have l2: "slot_count f1 b + 1 \<le> lim_handles_per_client (cf_limits f1)"
    using s1(4) s1(6)[of b] lim by (auto split: if_splits)
  note s2 = accounts_new_slot[OF s1(1) l2 n2]
  show "accounts g R (inc as (inc cs S))" by (rule s2(1))
  show "cf_handles g = cf_handles f" "cf_active_pairs g = cf_active_pairs f"
    "cf_reserved_window g = cf_reserved_window f" "cf_limits g = cf_limits f"
    using s1 s2 by simp_all
  have "0 < S' cs" if "S' = inc cs S" for S' using that by simp
  then have "cs \<noteq> as" using accounts_fresh(2)[OF s1(1)] s2(2) by (metis inc_pos less_not_refl)
  moreover have "cs \<in> slots_of g a" "as \<in> slots_of g b" using s1(5)[of a] s2(5)[of a] s2(5)[of b] by auto
  moreover have "uses (handles_of g) (\<lambda>h. h_slot h = cs) = 0" "uses (handles_of g) (\<lambda>h. h_slot h = as) = 0"
    using accounts_fresh(6)[OF assms(1)] accounts_fresh(6)[OF s1(1)] s1(2,3) s2(2,3) by simp_all
  ultimately show "admitted g a b cs as" by (simp add: admitted_def)
qed

lemma reserve_slots_Inl: "reserve_handle_slots a b f = (g, Inl e) \<Longrightarrow> g = f"
  by (auto simp: reserve_handle_slots_def Let_def split_def split: if_splits)

lemma accounts_drop_two:
  "accounts g R (inc as (inc cs S)) \<Longrightarrow> cs \<noteq> as \<Longrightarrow> accounts (drop_slot as (drop_slot cs g)) R S"
proof -
  assume a: "accounts g R (inc as (inc cs S))" and n: "cs \<noteq> as"
  have d: "dec cs (inc as (inc cs S)) = inc as S" using n by (auto simp: inc_def dec_def fun_eq_iff)
  have "0 < inc as (inc cs S) cs" by (simp add: inc_apply)
  from accounts_drop_slot[OF a this] have "accounts (drop_slot cs g) R (inc as S)" unfolding d .
  from accounts_drop_slot[OF this, of as] show ?thesis by simp
qed

lemma reserve_pair_Inl:
  assumes "accounts f R S" "reserve_pair a b f = (g, Inl e)"
  shows "accounts g R S"
proof -
  obtain f1 r where r: "reserve_handle_slots a b f = (f1, r)" by (cases "reserve_handle_slots a b f")
  show ?thesis
  proof (cases r)
    case (Inl x)
    then show ?thesis using assms r reserve_slots_Inl[of a b f f1 x] by (auto simp: reserve_pair_def)
  next
    case (Inr p)
    then obtain cs as where p: "r = Inr (cs, as)" by (cases p) auto
    note s = reserve_slots_Inr[OF assms(1) r[unfolded p]]
    have "g = drop_slot as (drop_slot cs f1)"
      using assms(2) r p by (auto simp: reserve_pair_def split_def Let_def split: if_splits)
    then show ?thesis using accounts_drop_two[OF s(1)] s(2) by (simp add: admitted_def)
  qed
qed

lemma reserve_pair_Inr:
  assumes "accounts f R S" "reserve_pair a b f = (g, Inr (t, cs, as))"
  shows "accounts g (inc t R) (inc as (inc cs S))" "admitted g a b cs as" "cf_handles g = cf_handles f"
proof -
  obtain f1 where r: "reserve_handle_slots a b f = (f1, Inr (cs, as))" and n: "new_pair f1 = (g, t)"
    and lim: "cf_active_pairs f1 < lim_connected_pairs (cf_limits f1)"
      "cf_reserved_window f1 + PAIR_WINDOW \<le> lim_buffer_bytes (cf_limits f1)"
      "cf_reserved_window f1 + PAIR_WINDOW < 2 ^ 64"
    using assms(2)
    by (auto simp: reserve_pair_def split_def Let_def prod_eq_iff split: prod.splits sum.splits if_splits)
  note s = reserve_slots_Inr[OF assms(1) r]
  note q = accounts_new_pair[OF s(1) lim n]
  show "accounts g (inc t R) (inc as (inc cs S))" by (rule q(1))
  show "cf_handles g = cf_handles f" using q(3) s(3) by simp
  show "admitted g a b cs as" using s(2) q(3,4) by (simp add: admitted_def slots_of_def)
qed

lemma accounts_drop_admission:
  assumes "accounts f (inc t R) (inc as (inc cs S))" "cs \<noteq> as"
  shows "accounts (drop_admission (t, cs, as) f) R S"
proof -
  from accounts_drop_pair[OF assms(1), of t] have "accounts (drop_pair t f) R (inc as (inc cs S))" by simp
  from accounts_drop_two[OF this assms(2)] show ?thesis by (simp add: drop_admission_def)
qed


lemma accounts_commit:
  assumes "accounts f (inc t R) (inc as (inc cs S))" "admitted f (key_endpoint a) (key_endpoint b) cs as"
    "handles_of f a = None" "handles_of f b = None" "a \<noteq> b" "commit_pair a b n (t, cs, as) p1 p2 f = (g, ds)"
  shows "accounts g (with_pairs ds R) (with_slots ds S)"
proof -
  have ne: "cs \<noteq> as" using assms(2) by (simp add: admitted_def)
  let ?f0 = "f\<lparr>cf_next_server_id := hm_insert (key_endpoint b) n (cf_next_server_id f)\<rparr>"
  let ?h1 = "new_handle b t cs" and ?h2 = "new_handle a t as"
  let ?f1 = "clone_slot cs (clone_pair t ?f0)"
  let ?f2 = "?f1\<lparr>cf_handles := hm_insert a ?h1 (cf_handles ?f1)\<rparr>"
  let ?f3 = "clone_slot as (clone_pair t ?f2)"
  let ?f4 = "?f3\<lparr>cf_handles := hm_insert b ?h2 (cf_handles ?f3)\<rparr>"
  let ?S = "inc as (inc cs S)"
  have keep: "slots_of (clone_pair u h) e = slots_of h e" "pair_count (clone_slot v h) u = pair_count h u"
    "slots_of (h\<lparr>cf_handles := x\<rparr>) e = slots_of h e" for h u e v x
    by (simp_all add: clone_pair_def clone_slot_def slots_of_def pair_count_def split: option.split)
  have slots: "slots_of (clone_slot v h) e = slots_of h e" if "hm_inv (cf_slot_refs h)" for v h e
    using that by (auto simp: clone_slot_def slots_of_def hm_simps split: option.split if_splits)
  have a0: "accounts ?f0 (inc t R) ?S"
    using assms(1) by (rule accounts_same_view) (simp add: account_view_def)
  have c1: "0 < pair_count ?f0 t" "0 < slot_refcount ?f0 cs"
    using count_of_holder[OF a0] by (simp_all add: inc_apply)
  from accounts_clone_slot[OF accounts_clone_pair[OF a0 c1(1)]] c1(2)
  have a1: "accounts ?f1 (inc t (inc t R)) (inc cs ?S)" by simp
  have inv0: "hm_inv (cf_slot_refs (clone_pair t ?f0))"
    using accounts_clone_pair[OF a0 c1(1)] by (simp add: accounts_def slots_account_def)
  have s1: "slots_of ?f1 e = slots_of f e" for e
    using slots[OF inv0, of cs e] by (simp add: keep) (simp add: slots_of_def)
  have "accounts ?f2 (dec (h_pair ?h1) (inc t (inc t R))) (dec (h_slot ?h1) (inc cs ?S))"
    by (rule accounts_insert[OF a1])
      (use assms(2,3) s1 in \<open>simp_all add: core_simps new_handle_def admitted_def inc_apply\<close>)
  then have a2: "accounts ?f2 (inc t R) ?S" by (simp add: new_handle_def)
  have c2: "0 < pair_count ?f2 t" "0 < slot_refcount ?f2 as"
    using count_of_holder[OF a2] by (simp_all add: inc_apply)
  from accounts_clone_slot[OF accounts_clone_pair[OF a2 c2(1)]] c2(2)
  have a3: "accounts ?f3 (inc t (inc t R)) (inc as ?S)" by simp
  have inv2: "hm_inv (cf_slot_refs (clone_pair t ?f2))"
    using accounts_clone_pair[OF a2 c2(1)] by (simp add: accounts_def slots_account_def)
  have s3: "slots_of ?f3 e = slots_of f e" for e
    using slots[OF inv2, of as e] s1 by (simp add: keep)
  have H2: "handles_of ?f3 = (handles_of f)(a \<mapsto> ?h1)"
    using a0 by (simp add: core_simps hm_simps accounts_def)
  have u3: "uses (handles_of ?f3) (\<lambda>h. h_slot h = as) = 0"
    unfolding H2 using uses_insert[OF accounts_finite[OF assms(1)] assms(3)] assms(2) ne
    by (simp add: new_handle_def admitted_def)
  have "accounts ?f4 (dec (h_pair ?h2) (inc t (inc t R))) (dec (h_slot ?h2) (inc as ?S))"
  proof (rule accounts_insert[OF a3])
    show "handles_of ?f3 b = None" unfolding H2 using assms(4,5) by simp
  qed (use assms(2) s3 u3 in \<open>simp_all add: new_handle_def admitted_def inc_apply\<close>)
  then have a4: "accounts ?f4 (inc t R) ?S" by (simp add: new_handle_def)
  have c4: "0 < pair_count ?f4 t" using count_of_holder(1)[OF a4] by (simp add: inc_apply)
  from accounts_clone_pair[OF a4 c4] have "accounts (clone_pair t ?f4) (inc t (inc t R)) ?S" .
  moreover have "g = clone_pair t ?f4" using assms(6) by (simp add: commit_pair_def Let_def)
  moreover have "with_pairs ds R = inc t (inc t R)" "with_slots ds S = ?S"
    using assms(6) by (auto simp: commit_pair_def Let_def with_pairs_def with_slots_def inc_apply fun_eq_iff)
  ultimately show ?thesis by simp
qed

lemma admit_view:
  "admit_notifications reserve e c le cl ll (f, o1) = ((g, o2), q) \<Longrightarrow>
    account_view g = account_view f \<and> (\<forall>ds. q = Inl ds \<longrightarrow> list_all plain ds)"
  by (auto simp: admit_notifications_def cancelled_def failed_open_def opened_with_drain_def plain_delivery_def
    plain_def opt_do_def Let_def split_def split: if_splits prod.splits bool.splits option.splits)


lemma balanced_connect:
  assumes "fabric_inv f" "even (unat c)"
  shows "balanced f (fst (fst (connect reserve e c name md token (f, o1))))
    (snd (connect reserve e c name md token (f, o1)))"
proof -
  let ?k = "Key e c"
  have fail: "balanced f (fst (fail_open e c st d f)) (snd (fail_open e c st d f))" for st d
    by (rule balanced_fail_open)
  show ?thesis
  proof (cases "key_is_live f ?k \<or> hm_get (cf_listener_names f) name = None")
    case True
    then show ?thesis using fail by (auto simp: connect_def Let_def split_def)
  next
    case False
    then obtain lk where live: "\<not> key_is_live f ?k" and lk: "hm_get (cf_listener_names f) name = Some lk" by auto
    let ?l = "the (hm_get (cf_listeners f) lk)"
    show ?thesis
    proof (cases "token \<noteq> None \<and> token \<noteq> Some (l_token ?l) \<or> server_id_candidate f (key_endpoint lk) = None")
      case True
      then show ?thesis using fail live lk by (auto simp: connect_def Let_def split_def)
    next
      case tok: False
      then obtain i n where id: "server_id_candidate f (key_endpoint lk) = Some (i, n)" by auto
      note spec = server_id_candidate_spec[OF assms(1) id]
      let ?b = "Key (key_endpoint lk) i"
      have ab: "?k \<noteq> ?b" using assms(2) spec(2) by auto
      obtain g r where g: "reserve_pair e (key_endpoint lk) f = (g, r)" by (cases "reserve_pair e (key_endpoint lk) f")
      show ?thesis
      proof (cases r)
        case (Inl err)
        have bal: "balanced f g []" by (rule balancedI) (simp add: reserve_pair_Inl[OF _ g[unfolded Inl]])
        have "balanced f (fst (fail_open e c st d g)) (snd (fail_open e c st d g))" for st d
          using balanced_trans[OF bal balanced_fail_open] by simp
        then show ?thesis
          using live lk tok id g Inl by (auto simp: connect_def Let_def split_def)
      next
        case (Inr adm)
        obtain t cs as where adm: "adm = (t, cs, as)" by (cases adm) auto
        note res = reserve_pair_Inr[OF _ g[unfolded Inr adm]]
        let ?cp = "the (msg_channel_opened c STATUS_OK (word_of_nat CHANNEL_WINDOW_BYTES)
            (peer_name f (key_endpoint lk)) (l_metadata ?l) [])"
        let ?lp = "the (msg_channel_accepted i (key_channel lk) (word_of_nat CHANNEL_WINDOW_BYTES) (peer_name f e) md)"
        obtain h o2 q where a: "admit_notifications reserve e c (key_endpoint lk) (length ?cp) (length ?lp) (g, o1)
            = ((h, o2), q)" by (metis prod.collapse)
        note view = admit_view[OF a]
        show ?thesis
        proof (cases q)
          case (Inl ds)
          have "balanced f (drop_admission adm h) ds"
          proof (rule balancedI)
            fix R S assume "accounts f R S"
            note r = res[OF this]
            have "accounts h (inc t R) (inc as (inc cs S))" by (rule accounts_same_view[OF r(1)]) (simp add: view)
            from accounts_drop_admission[OF this] r(2) view
            show "accounts (drop_admission adm h) (with_pairs ds R) (with_slots ds S)"
              by (simp add: adm Inl admitted_def with_plain plain_def list_all_iff)
          qed
          then show ?thesis
            using live lk tok id g Inr a Inl by (auto simp: connect_def Let_def split_def)
        next
          case q: (Inr u)
          have hg: "h = g" using a q by (intro admit_Inr) simp
          obtain m ds where m: "commit_pair ?k ?b n (t, cs, as) ?cp ?lp g = (m, ds)" by (metis prod.collapse)
          have "balanced f m ds"
          proof (rule balancedI)
            fix R S assume "accounts f R S"
            note r = res[OF this]
            have none: "handles_of g ?k = None" "handles_of g ?b = None"
              using r(3) live spec(1) by (simp_all add: key_is_live_def)
            show "accounts m (with_pairs ds R) (with_slots ds S)"
              by (rule accounts_commit[OF r(1) _ none ab m]) (simp add: r(2))
          qed
          then show ?thesis
            using live lk tok id g Inr a q hg m adm by (auto simp: connect_def Let_def split_def)
        qed
      qed
    qed
  qed
qed

subsection \<open>Packets\<close>

lemma balanced_unwatch: "balanced f (f\<lparr>cf_watches := w\<rparr>) []"
  by (rule balanced_view) (simp_all add: account_view_def)

lemma balanced_apply_request:
  assumes "fabric_inv f" "request_ok r"
  shows "balanced f (fst (fst (apply_request reserve e r (f, o1)))) (snd (apply_request reserve e r (f, o1)))"
  using assms
  by (cases r) (simp_all add: apply_request_def with_state_def split_def request_ok_def balanced_listen
    balanced_connect balanced_data balanced_ack balanced_close balanced_watch balanced_unwatch)

lemma balanced_then_publish:
  assumes "balanced f (fst st) ds"
  shows "balanced f (fst (fst (publish_names reserve st))) (ds @ snd (publish_names reserve st))"
  using balanced_trans[OF assms balanced_publish[of "fst st" reserve "snd st"]] by simp

lemma balanced_handle_packet:
  assumes "fabric_inv f"
  shows "balanced f (fst (fst (handle_packet reserve e p (f, o1)))) (snd (handle_packet reserve e p (f, o1)))"
proof -
  have same: "balanced f f []" by (simp add: balanced_view)
  have req: "balanced f (fst (fst (handle_reserved reserve e r (f, o1)))) (snd (handle_reserved reserve e r (f, o1)))"
    if "request_ok r" for r
    using balanced_then_publish[OF balanced_apply_request[OF assms that]]
    by (simp add: handle_reserved_def Let_def split_def)
  show ?thesis
    using same req balanced_refuse balanced_malformed[OF assms]
    by (auto simp: handle_packet_def with_state_def split_def dest: parse_request_ok split: sum.split option.split)
qed


subsection \<open>Departures\<close>

lemma with_closed:
  "with_pairs [closed k r d (Some t) (Some s) dr] R = inc t R" "with_slots [closed k r d (Some t) (Some s) dr] S = inc s S"
  by (auto simp: with_pairs_def with_slots_def closed_def inc_apply fun_eq_iff)

lemma accounts_depart:
  assumes "fabric_inv f" "accounts f (with_pairs ds R) (with_slots ds S)" "depart_handle e k (f, ds) = (g, ds')"
  shows "accounts g (with_pairs ds' R) (with_slots ds' S)"
proof (cases "handles_of f k")
  case None
  then show ?thesis using assms by (simp add: depart_handle_def)
next
  case (Some h)
  obtain ph where ph: "handles_of f (h_peer h) = Some ph"
    using pairedD[OF fabric_inv_parts(4)[OF assms(1)] Some] by blast
  let ?f1 = "clone_slot (h_slot ph) (clone_pair (h_pair h) f)"
  have a: "accounts (remove_pair k ?f1) (inc (h_pair h) (with_pairs ds R)) (inc (h_slot ph) (with_slots ds S))"
    by (rule accounts_remove_pair[OF accounts_clone_handle[OF assms(2) Some ph]])
  show ?thesis
  proof (cases "key_endpoint (h_peer h) \<noteq> e")
    case True
    then show ?thesis
      using assms(3) Some ph accounts_begin_drain[OF a]
      by (auto simp: depart_handle_def Let_def with_append with_closed)
  next
    case False
    from accounts_drop_slot[OF accounts_drop_pair[OF a, of "h_pair h"], of "h_slot ph"]
    have "accounts (drop_slot (h_slot ph) (drop_pair (h_pair h) (remove_pair k ?f1))) (with_pairs ds R) (with_slots ds S)"
      by simp
    then show ?thesis using assms(3) Some ph False by (auto simp: depart_handle_def Let_def)
  qed
qed

lemma accounts_depart_fold:
  assumes "fabric_inv (fst acc)" "accounts (fst acc) (with_pairs (snd acc) R) (with_slots (snd acc) S)"
  shows "accounts (fst (fold (depart_handle e) ks acc)) (with_pairs (snd (fold (depart_handle e) ks acc)) R)
    (with_slots (snd (fold (depart_handle e) ks acc)) S)"
  using assms
proof (induction ks arbitrary: acc)
  case (Cons k ks)
  have "fabric_inv (fst (depart_handle e k acc))"
    using inv_depart_handle[OF Cons.prems(1), of e k "snd acc"] by simp
  moreover have "accounts (fst (depart_handle e k acc)) (with_pairs (snd (depart_handle e k acc)) R)
      (with_slots (snd (depart_handle e k acc)) S)"
    by (rule accounts_depart[OF Cons.prems, where e = e and k = k]) simp
  ultimately show ?case using Cons.IH[of "depart_handle e k acc"] by simp
qed simp

lemma view_remove_listeners: "account_view (fold remove_listener ks f) = account_view f"
  by (induction ks arbitrary: f) simp_all

lemma balanced_close_endpoint:
  assumes "fabric_inv f"
  shows "balanced f (fst (fst (close_endpoint reserve e (f, o1)))) (snd (close_endpoint reserve e (f, o1)))"
proof -
  let ?f1 = "f\<lparr>cf_peer_names := hm_remove e (cf_peer_names f),
      cf_watches := hm_retain (\<lambda>k. key_endpoint k \<noteq> e) (cf_watches f)\<rparr>"
  let ?f2 = "fold remove_listener (filter (\<lambda>k. key_endpoint k = e) (hm_keys (cf_listeners ?f1))) ?f1"
  let ?r = "fold (depart_handle e) (filter (\<lambda>k. key_endpoint k = e) (hm_keys (cf_handles ?f2))) (?f2, [])"
  have inv: "fabric_inv ?f2" by (rule inv_remove_listeners[OF inv_forget_endpoint[OF assms]])
  have view: "account_view ?f2 = account_view f"
    unfolding view_remove_listeners by (simp add: account_view_def)
  have "balanced f (fst (fst ?r, o1)) (snd ?r)" unfolding fst_conv
  proof (rule balancedI)
    fix R S assume "accounts f R S"
    then have "accounts ?f2 R S" by (rule accounts_same_view) (rule view)
    then show "accounts (fst ?r) (with_pairs (snd ?r) R) (with_slots (snd ?r) S)"
      using accounts_depart_fold[of "(?f2, [])" R S] inv by simp
  qed
  from balanced_then_publish[OF this, of reserve] show ?thesis
    by (simp add: close_endpoint_def Let_def split_def)
qed

subsection \<open>The rest of the interface\<close>

lemma balanced_register: "balanced f (register_endpoint e n f) []"
  and balanced_shutdown: "balanced f (begin_shutdown f) []"
  by (auto intro!: balanced_view simp: register_endpoint_def begin_shutdown_def account_view_def)

lemma with_one:
  "with_pairs [d] R = (case d_pair d of Some t \<Rightarrow> inc t R | None \<Rightarrow> R)"
  "with_slots [d] S = (case d_slot d of Some s \<Rightarrow> inc s S | None \<Rightarrow> S)"
  by (auto simp: with_pairs_def with_slots_def inc_apply fun_eq_iff split: option.split)

lemma accounts_written:
  assumes "accounts f (with_pairs [d] R) (with_slots [d] S)"
  shows "accounts (drop_delivery d f) R S"
proof -
  have p: "accounts (opt_do drop_pair (d_pair d) f) R (with_slots [d] S)"
    using assms accounts_drop_pair[of f "inc t R" _ t for t] by (auto simp: with_one opt_do_def split: option.splits)
  have s: "accounts (opt_do drop_slot (d_slot d) g) R S" if "accounts g R (with_slots [d] S)" for g
    using that accounts_drop_slot[of g R "inc s S" s for s] by (auto simp: with_one opt_do_def split: option.splits)
  have "accounts (opt_do drop_drain (d_drain d) g) R S" if "accounts g R S" for g
    using that by (auto simp: opt_do_def intro: accounts_same_view split: option.split)
  then show ?thesis unfolding drop_delivery_def using s[OF p] by blast
qed

lemma accounts_new: "accounts (fabric_new en lim boot) (\<lambda>t. 0) (\<lambda>s. 0)"
  by (simp add: accounts_def pairs_account_def slots_account_def within_budget_def fabric_new_def pair_count_def
    slot_refcount_def slot_count_def slots_of_def hm_keys_def uses_def)

end
