(* ===== verification/Channel_Deliveries.thy ===== *)
theory Channel_Deliveries
  imports Channel_Lifecycle
begin

text \<open>
  What the fabric emits.  Every delivery holds a packet the client's decoder accepts, and the keys
  that deliveries drain are exactly the keys the operation put into \<open>cf_draining\<close>, each once: an id
  is reusable as soon as its terminal packet has left, and not before.
\<close>

named_theorems emits

definition readable :: "delivery \<Rightarrow> bool" where
  "readable d \<longleftrightarrow> (\<exists>m. parse_channel_message (d_packet d) = Inr (Some m))"

definition drains :: "delivery list \<Rightarrow> channel_key list" where
  "drains ds = List.map_filter d_drain ds"

definition emitted :: "fabric \<Rightarrow> fabric \<Rightarrow> delivery list \<Rightarrow> bool" where
  "emitted f g ds \<longleftrightarrow> list_all readable ds \<and> cf_draining g = cf_draining f \<union> set (drains ds)
     \<and> set (drains ds) \<inter> cf_draining f = {} \<and> distinct (drains ds)"

lemma drains_simps [simp]:
  "drains [] = []" "drains (d # ds) = (case d_drain d of Some k \<Rightarrow> [k] | None \<Rightarrow> []) @ drains ds"
  "drains (a @ b) = drains a @ drains b"
proof -
  show "drains [] = []" "drains (d # ds) = (case d_drain d of Some k \<Rightarrow> [k] | None \<Rightarrow> []) @ drains ds" for d ds
    by (simp_all add: drains_def List.map_filter_def split: option.split)
  show "drains (a @ b) = drains a @ drains b"
    by (simp add: drains_def List.map_filter_def)
qed

lemma emitted_Nil: "cf_draining g = cf_draining f \<Longrightarrow> emitted f g []"
  by (simp add: emitted_def)

lemma emitted_trans: "emitted f g a \<Longrightarrow> emitted g h b \<Longrightarrow> emitted f h (a @ b)"
  by (auto simp: emitted_def)

lemma emitted_cong:
  "cf_draining f' = cf_draining f \<Longrightarrow> cf_draining g' = cf_draining g \<Longrightarrow> emitted f' g' ds = emitted f g ds"
  by (simp add: emitted_def)

lemma emitted_keep:
  "list_all readable ds \<Longrightarrow> drains ds = [] \<Longrightarrow> cf_draining g = cf_draining f \<Longrightarrow> emitted f g ds"
  by (simp add: emitted_def)

lemma readableI: "build_message m = Some (d_packet d) \<Longrightarrow> message_typed m \<Longrightarrow> readable d"
  unfolding readable_def parse_message_iff by blast

subsection \<open>Replies\<close>

definition detail_ok :: "bytes \<Rightarrow> bool" where
  "detail_ok d \<longleftrightarrow> utf8_valid d \<and> length d \<le> CHANNEL_MAX_DETAIL"

lemma detail_error_text: "detail_ok (error_text e)"
  by (cases e) (simp_all add: detail_ok_def ascii_def CHANNEL_MAX_DETAIL_def utf8_valid_ascii)

lemma detail_admission: "detail_ok (admission_detail e)"
  by (cases e) (simp_all add: detail_ok_def admission_detail_def ascii_def CHANNEL_MAX_DETAIL_def utf8_valid_ascii)

lemma detail_ascii:
  "list_all (\<lambda>c. of_char c < (0x80 :: u8)) s \<Longrightarrow> length s \<le> 64 \<Longrightarrow> detail_ok (ascii s)"
  by (simp add: detail_ok_def ascii_def CHANNEL_MAX_DETAIL_def utf8_valid_ascii list.pred_map comp_def)

lemma readable_opened: "detail_ok d \<Longrightarrow> readable (opened_with_drain e c st d dr)"
  by (rule readableI[where m = "Opened c st 0 [] [] d"])
    (simp_all add: detail_ok_def opened_with_drain_def plain_delivery_def msg_channel_opened_def valid_peer_name_def)

lemma readable_closed: "detail_ok d \<Longrightarrow> readable (closed k r d t s dr)"
  by (rule readableI[where m = "Closed (key_channel k) r d"])
    (simp_all add: detail_ok_def closed_def msg_channel_closed_def)

lemma readable_update [simp]:
  "readable (d\<lparr>d_outbox := x\<rparr>) = readable d" "readable (d\<lparr>d_drain := y\<rparr>) = readable d"
  by (simp_all add: readable_def)

lemma emitted_failed_open:
  "detail_ok d \<Longrightarrow> emitted f (fst (failed_open e c st d f)) [snd (failed_open e c st d f)]"
  by (auto simp: emitted_def failed_open_def Let_def readable_opened key_is_live_def begin_drain_def)
    (simp_all add: opened_with_drain_def plain_delivery_def)

lemma emitted_fail_open [emits]:
  "detail_ok d \<Longrightarrow> emitted f (fst (fail_open e c st d f)) (snd (fail_open e c st d f))"
  using emitted_failed_open[of d f e c st] by (simp add: fail_open_def split_def Let_def)

lemma draining_drop [simp]:
  "cf_draining (drop_pair t f) = cf_draining f" "cf_draining (drop_slot s f) = cf_draining f"
  "cf_draining (drop_admission adm f) = cf_draining f"
  by (rule core_cong_fields, simp add: core_simps)+

lemma draining_remove [simp]:
  "cf_draining (remove_listener k f) = cf_draining f" "cf_draining (remove_pair k f) = cf_draining f"
  by (simp_all add: remove_listener_def remove_pair_def remove_handle_def core_simps split: option.split)

lemma emitted_drop_listener:
  assumes "fabric_inv f" "hm_get (cf_listeners f) k \<noteq> None" "detail_ok d"
  shows "emitted f (begin_drain k (remove_listener k f)) [closed k r d None None (Some k)]"
proof -
  have "k \<notin> cf_draining f" using fabric_inv_parts(5)[OF assms(1)] assms(2) by (auto simp: exclusive_def)
  then show ?thesis
    using readable_closed[OF assms(3)] by (simp add: emitted_def begin_drain_def) (simp add: closed_def)
qed

lemma handle_not_draining: "fabric_inv f \<Longrightarrow> handles_of f k = Some h \<Longrightarrow> k \<notin> cf_draining f"
  using fabric_inv_parts(5)[of f] by (auto simp: exclusive_def)

lemma emitted_close_pair:
  assumes "fabric_inv f" "detail_ok d"
  shows "emitted f (fst (close_pair k r d True f)) (snd (close_pair k r d True f))"
proof (cases "handles_of f k")
  case None
  then show ?thesis by (simp add: close_pair_def emitted_Nil)
next
  case (Some h)
  obtain ph where ph: "handles_of f (h_peer h) = Some ph" and ne: "h_peer h \<noteq> k"
    using pairedD[OF fabric_inv_parts(4)[OF assms(1)] Some] by blast
  note nd = handle_not_draining[OF assms(1) Some] handle_not_draining[OF assms(1) ph]
  have dr: "d_drain (closed a b c t s x) = x" for a b c t s x by (simp add: closed_def)
  show ?thesis
    using Some ph nd ne readable_closed[OF assms(2)]
    by (auto simp: close_pair_def Let_def emitted_def begin_drain_def core_simps dr)
qed

lemma emitted_violation [emits]:
  "fabric_inv f \<Longrightarrow> detail_ok d \<Longrightarrow> emitted f (fst (protocol_violation e c d f)) (snd (protocol_violation e c d f))"
  by (auto simp: protocol_violation_def Let_def emitted_drop_listener emitted_close_pair emitted_Nil)

lemma emitted_close [emits]:
  "fabric_inv f \<Longrightarrow> emitted f (fst (close e c r f)) (snd (close e c r f))"
  by (auto simp: close_def Let_def detail_ok_def emitted_drop_listener emitted_close_pair emitted_Nil)

lemma emitted_refuse [emits]: "emitted f (fst (refuse e k c f)) (snd (refuse e k c f))"
  by (auto simp: refuse_def emits detail_ascii emitted_Nil)

lemma emitted_malformed [emits]:
  "fabric_inv f \<Longrightarrow> detail_ok d \<Longrightarrow> emitted f (fst (malformed e k c d f)) (snd (malformed e k c d f))"
  by (auto simp: malformed_def emits)


subsection \<open>Requests\<close>

lemma readable_peer_delivery:
  "payload \<noteq> [] \<Longrightarrow> length payload \<le> CHANNEL_MAX_PAYLOAD \<Longrightarrow>
    readable (peer_delivery p (the (msg_channel_data c payload)) t s)"
  by (rule readableI[where m = "MsgData c payload"]) (simp_all add: msg_channel_data_def peer_delivery_def)

lemma readable_ack: "readable (peer_delivery p (msg_channel_ack c n) t s)"
  by (rule readableI[where m = "MsgAck c n"]) (simp_all add: peer_delivery_def)

lemma emitted_peer_delivery: "readable (peer_delivery p pk t s) \<Longrightarrow> cf_draining g = cf_draining f \<Longrightarrow>
    emitted f g [peer_delivery p pk t s]"
  by (rule emitted_keep) (simp_all add: peer_delivery_def)

lemma emitted_data [emits]:
  assumes "fabric_inv f" "payload \<noteq> []" "length payload \<le> CHANNEL_MAX_PAYLOAD"
  shows "emitted f (fst (data e c payload f)) (snd (data e c payload f))"
  using assms by (auto simp: data_def Let_def emits detail_ascii emitted_Nil core_simps
    intro!: emitted_peer_delivery readable_peer_delivery split: option.split)

lemma emitted_ack [emits]:
  assumes "fabric_inv f"
  shows "emitted f (fst (ack e c n f)) (snd (ack e c n f))"
  using assms by (auto simp: ack_def Let_def emits detail_ascii emitted_Nil core_simps
    intro!: emitted_peer_delivery readable_ack split: option.split)

lemma emitted_listen [emits]:
  "emitted f (fst (fst (listen reserve e c name md (f, o1)))) (snd (listen reserve e c name md (f, o1)))"
proof -
  have ok: "emitted f (f\<lparr>cf_next_listener_generation := g, cf_names_revision := r, cf_listener_names := n,
      cf_listeners := l\<rparr>) [(opened e c STATUS_OK [])\<lparr>d_outbox := b\<rparr>]" for g r n l b
    by (rule emitted_keep)
      (simp_all add: opened_def readable_opened detail_ok_def, simp add: opened_with_drain_def plain_delivery_def)
  show ?thesis
    using ok by (auto simp: listen_def Let_def split_def emits detail_ascii emitted_Nil)
qed

lemma readable_names:
  assumes "length ns \<le> CHANNEL_MAX_WATCH_NAMES" "\<forall>n \<in> set ns. name_ok n"
  shows "readable (plain_delivery e (the (msg_channel_names c (present_names f ns))))"
proof -
  from msg_names_present[OF assms, of c f] obtain pk where "msg_channel_names c (present_names f ns) = Some pk" .
  then show ?thesis
    by (intro readableI[where m = "Names c (present_names f ns)"]) (simp_all add: plain_delivery_def)
qed

lemma emitted_names:
  assumes "length ns \<le> CHANNEL_MAX_WATCH_NAMES" "\<forall>n \<in> set ns. name_ok n" "cf_draining g = cf_draining f"
  shows "emitted f g [(plain_delivery e (the (msg_channel_names c (present_names h ns))))\<lparr>d_outbox := b\<rparr>]"
  by (rule emitted_keep) (simp_all add: readable_names assms, simp add: plain_delivery_def)

lemma emitted_watch [emits]:
  assumes "names_ok names"
  shows "emitted f (fst (fst (watch_names reserve e c names (f, o1)))) (snd (watch_names reserve e c names (f, o1)))"
proof -
  have ok: "emitted f (f\<lparr>cf_watches := w\<rparr>)
      [(plain_delivery e (the (msg_channel_names c (present_names f names))))\<lparr>d_outbox := b\<rparr>]" for w b
    by (rule emitted_names) (use assms in \<open>simp_all add: names_ok_def\<close>)
  show ?thesis
    using ok by (auto simp: watch_names_def Let_def split_def emits detail_ascii emitted_Nil)
qed

lemma emitted_publish_one:
  assumes "fabric_inv (fst (fst acc))" "emitted f0 (fst (fst acc)) (snd acc)"
  shows "emitted f0 (fst (fst (publish_one reserve k acc))) (snd (publish_one reserve k acc))"
proof -
  obtain f o1 ds where acc: "acc = ((f, o1), ds)" by (metis prod.collapse)
  show ?thesis
  proof (cases "hm_get (cf_watches f) k")
    case None
    then show ?thesis using assms by (simp add: acc publish_one_def)
  next
    case (Some w)
    have w: "watch_ok k w" using fabric_inv_parts(2)[of f] assms(1) Some by (simp add: acc fields_ok_def)
    have "emitted f (f\<lparr>cf_watches := x\<rparr>)
        [(plain_delivery (key_endpoint k) (the (msg_channel_names (key_channel k) (present_names f (w_names w)))))
          \<lparr>d_outbox := b\<rparr>]" for x b
      by (rule emitted_names) (use w in \<open>simp_all add: watch_ok_def\<close>)
    from emitted_trans[OF _ this, of f0 ds] show ?thesis
      using assms(2) Some by (auto simp: acc publish_one_def Let_def split_def)
  qed
qed

lemma emitted_publish_fold:
  assumes "fabric_inv (fst (fst acc))" "emitted f0 (fst (fst acc)) (snd acc)"
  shows "emitted f0 (fst (fst (fold (publish_one reserve) ks acc))) (snd (fold (publish_one reserve) ks acc))"
  using assms
proof (induction ks arbitrary: acc)
  case (Cons k ks)
  obtain f o1 ds where acc: "acc = ((f, o1), ds)" by (metis prod.collapse)
  have "fabric_inv (fst (fst (publish_one reserve k acc)))"
    using inv_publish_one[of f reserve k o1 ds] Cons.prems(1) by (simp add: acc)
  with emitted_publish_one[OF Cons.prems] Cons.IH[of "publish_one reserve k acc"] show ?case by simp
qed simp

lemma emitted_publish [emits]:
  assumes "fabric_inv f"
  shows "emitted f (fst (fst (publish_names reserve (f, o1)))) (snd (publish_names reserve (f, o1)))"
proof -
  let ?g = "f\<lparr>cf_published_revision := cf_names_revision f\<rparr>"
  have g: "fabric_inv ?g" using assms by (simp add: fabric_inv_def stores_ok_def fields_ok_def)
  have "emitted f (fst (fst ((?g, o1), []))) (snd ((?g, o1), []))" by (simp add: emitted_Nil)
  from emitted_publish_fold[OF _ this, of reserve "hm_keys (cf_watches f)"] show ?thesis
    using g by (auto simp: publish_names_def Let_def emitted_Nil)
qed


subsection \<open>Connecting\<close>

lemma valid_network_name: "valid_peer_name (network_peer_name e)"
proof -
  have "list_all (\<lambda>n. (0x21 \<le> hex_digit n \<and> hex_digit n \<le> 0x7E) \<or> hex_digit n = 0x20) [0..<16]"
    by code_simp
  then have digit: "(0x21 \<le> hex_digit n \<and> hex_digit n \<le> 0x7E) \<or> hex_digit n = 0x20" if "n < 16" for n
    using that by (simp add: list_all_iff)
  have "list_all (\<lambda>b. (0x21 \<le> b \<and> b \<le> 0x7E) \<or> b = 0x20)
      (map (\<lambda>i. hex_digit (unat e div 16 ^ (15 - i) mod 16)) [0..<16])"
    unfolding list_all_iff using digit by simp
  then show ?thesis
    by (simp add: network_peer_name_def valid_peer_name_def ascii_def CHANNEL_MAX_PEER_def)
qed

lemma valid_peer_name_of: "fabric_inv f \<Longrightarrow> valid_peer_name (peer_name f e)"
  using fabric_inv_parts(2)[of f] by (auto simp: peer_name_def fields_ok_def valid_network_name split: option.split)

lemma metadata_ok: "length md \<le> CHANNEL_MAX_METADATA \<Longrightarrow> \<not> length md \<ge> 2 ^ 32" for md :: bytes
  by (simp add: CHANNEL_MAX_METADATA_def)

lemma emitted_admit:
  assumes "admit_notifications reserve e c le cl ll (f, o1) = ((g, o2), Inl ds)"
  shows "emitted f g ds"
proof -
  let ?fo = "failed_open e c STATUS_CANCELLED [] f"
  have fo: "emitted f (fst ?fo) [snd ?fo]" by (rule emitted_failed_open) (simp add: detail_ok_def)
  then have out: "emitted f (fst ?fo) [(snd ?fo)\<lparr>d_outbox := b\<rparr>]" for b by (simp add: emitted_def)
  have undone: "emitted f (opt_do drop_drain (d_drain (snd ?fo)) (fst ?fo)) []"
    using fo by (auto simp: emitted_def opt_do_def drop_drain_def split: option.split)
  show ?thesis
    using assms out undone
    by (auto simp: admit_notifications_def cancelled_def Let_def split_def emitted_Nil
      split: if_splits prod.splits bool.splits)
qed

lemma emitted_commit:
  assumes "commit_pair a b n adm p1 p2 f = (g, ds)"
    "build_message m1 = Some p1" "message_typed m1" "build_message m2 = Some p2" "message_typed m2"
  shows "emitted f g ds"
proof -
  obtain t cs as where adm: "adm = (t, cs, as)" by (cases adm) auto
  have "list_all readable ds" "drains ds = []" "cf_draining g = cf_draining f"
    using assms(1) readableI[OF _ assms(3)] readableI[OF _ assms(5)]
    by (auto simp: commit_pair_def adm Let_def core_simps assms(2,4))
  then show ?thesis by (rule emitted_keep)
qed

lemma emitted_connect [emits]:
  assumes "fabric_inv f" "even (unat c)" "length md \<le> CHANNEL_MAX_METADATA"
  shows "emitted f (fst (fst (connect reserve e c name md token (f, o1))))
    (snd (connect reserve e c name md token (f, o1)))"
proof -
  let ?k = "Key e c"
  have fail: "emitted f (fst (fail_open e c st d f)) (snd (fail_open e c st d f))" if "detail_ok d" for st d
    using that by (rule emitted_fail_open)
  have texts: "detail_ok (ascii ''channel id is already live'')" "detail_ok (ascii ''channel listener was not found'')"
    "detail_ok (ascii ''channel listener generation changed'')"
    "detail_ok (ascii ''accepted channel id space exhausted'')" by (simp_all add: detail_ascii)
  show ?thesis
  proof (cases "key_is_live f ?k \<or> hm_get (cf_listener_names f) name = None")
    case True
    then show ?thesis using fail texts by (auto simp: connect_def Let_def split_def)
  next
    case False
    then obtain lk where live: "\<not> key_is_live f ?k" and lk: "hm_get (cf_listener_names f) name = Some lk" by auto
    let ?l = "the (hm_get (cf_listeners f) lk)"
    show ?thesis
    proof (cases "token \<noteq> None \<and> token \<noteq> Some (l_token ?l) \<or> server_id_candidate f (key_endpoint lk) = None")
      case True
      then show ?thesis using fail texts live lk by (auto simp: connect_def Let_def split_def)
    next
      case tok: False
      then obtain i n where id: "server_id_candidate f (key_endpoint lk) = Some (i, n)" by auto
      obtain g r where g: "reserve_pair e (key_endpoint lk) f = (g, r)" by (cases "reserve_pair e (key_endpoint lk) f")
      then have cg: "cf_draining g = cf_draining f"
        using core_cong_fields(5)[OF core_reserve_pair[of e "key_endpoint lk" f]] by simp
      have lift: "emitted g h ds \<Longrightarrow> emitted f h ds" for h ds using cg by (simp add: emitted_def)
      show ?thesis
      proof (cases r)
        case (Inl err)
        have "emitted f (fst (fail_open e c st (admission_detail err) g)) (snd (fail_open e c st (admission_detail err) g))"
          for st by (rule lift) (simp add: emitted_fail_open detail_admission)
        then show ?thesis
          using live lk tok id g Inl by (auto simp: connect_def Let_def split_def)
      next
        case (Inr adm)
        let ?cp = "the (msg_channel_opened c STATUS_OK (word_of_nat CHANNEL_WINDOW_BYTES)
            (peer_name f (key_endpoint lk)) (l_metadata ?l) [])"
        let ?lp = "the (msg_channel_accepted i (key_channel lk) (word_of_nat CHANNEL_WINDOW_BYTES) (peer_name f e) md)"
        obtain h o2 q where a: "admit_notifications reserve e c (key_endpoint lk) (length ?cp) (length ?lp) (g, o1)
            = ((h, o2), q)" by (metis prod.collapse)
        show ?thesis
        proof (cases q)
          case (Inl ds)
          from lift[OF emitted_admit[OF a[unfolded Inl]]] have "emitted f (drop_admission adm h) ds"
            by (simp add: emitted_def)
          then show ?thesis
            using live lk tok id g Inr a Inl by (auto simp: connect_def Let_def split_def)
        next
          case q: (Inr u)
          have hg: "h = g" using a q by (intro admit_Inr) simp
          obtain m ds where m: "commit_pair ?k (Key (key_endpoint lk) i) n adm ?cp ?lp g = (m, ds)" by (metis prod.collapse)
          obtain l where l: "hm_get (cf_listeners f) lk = Some l" "listener_ok l"
            using fabric_inv_parts(2,3)[OF assms(1)] lk by (auto simp: registered_def fields_ok_def)
          have p1: "build_message (Opened c STATUS_OK (word_of_nat CHANNEL_WINDOW_BYTES)
              (peer_name f (key_endpoint lk)) (l_metadata ?l) []) = Some ?cp"
            using l valid_peer_name_of[OF assms(1)]
            by (simp add: msg_channel_opened_def listener_ok_def metadata_ok[simplified])
          have p2: "build_message (Accepted i (key_channel lk) (word_of_nat CHANNEL_WINDOW_BYTES) (peer_name f e) md)
              = Some ?lp"
            using assms(3) valid_peer_name_of[OF assms(1)]
            by (simp add: msg_channel_accepted_def metadata_ok[simplified])
          from emitted_commit[OF m p1 _ p2] have "emitted f m ds" by (intro lift) simp
          then show ?thesis
            using live lk tok id g Inr a q hg m by (auto simp: connect_def Let_def split_def)
        qed
      qed
    qed
  qed
qed


subsection \<open>Entry points\<close>

lemma emitted_apply_request:
  assumes "fabric_inv f" "request_ok r"
  shows "emitted f (fst (fst (apply_request reserve e r (f, o1)))) (snd (apply_request reserve e r (f, o1)))"
  using assms
  by (cases r) (simp_all add: apply_request_def with_state_def split_def request_ok_def emits emitted_Nil)

lemma emitted_then_publish:
  assumes "emitted f (fst st) ds" "fabric_inv (fst st)"
  shows "emitted f (fst (fst (publish_names reserve st))) (ds @ snd (publish_names reserve st))"
  using emitted_trans[OF assms(1) emitted_publish[OF assms(2), of reserve "snd st"]] by simp

lemma emitted_handle_packet:
  assumes "fabric_inv f"
  shows "emitted f (fst (fst (handle_packet reserve e p (f, o1)))) (snd (handle_packet reserve e p (f, o1)))"
proof -
  have req: "emitted f (fst (fst (handle_reserved reserve e r (f, o1)))) (snd (handle_reserved reserve e r (f, o1)))"
    if "request_ok r" for r
    using emitted_then_publish[OF emitted_apply_request[OF assms that] inv_apply_request[OF assms that]]
    by (simp add: handle_reserved_def Let_def split_def)
  show ?thesis
    using req emitted_refuse emitted_malformed[OF assms detail_error_text]
    by (auto simp: handle_packet_def with_state_def split_def emitted_Nil dest: parse_request_ok
      split: sum.split option.split)
qed

lemma emitted_depart_handle:
  assumes "fabric_inv f" "emitted f0 f ds"
  shows "emitted f0 (fst (depart_handle e k (f, ds))) (snd (depart_handle e k (f, ds)))"
proof (cases "handles_of f k")
  case None
  then show ?thesis using assms by (simp add: depart_handle_def)
next
  case (Some h)
  obtain ph where ph: "handles_of f (h_peer h) = Some ph"
    using pairedD[OF fabric_inv_parts(4)[OF assms(1)] Some] by blast
  have detail: "detail_ok (ascii ''channel peer disconnected'')" by (simp add: detail_ascii)
  have "emitted f (begin_drain (h_peer h) (remove_pair k g))
      [closed (h_peer h) r (ascii ''channel peer disconnected'') t s (Some (h_peer h))]"
    if "cf_draining g = cf_draining f" for g r t s
    using handle_not_draining[OF assms(1) ph] readable_closed[OF detail] that
    by (simp add: emitted_def begin_drain_def) (simp add: closed_def)
  from emitted_trans[OF assms(2) this]
  have told: "emitted f0 (begin_drain (h_peer h) (remove_pair k g)) (ds @
      [closed (h_peer h) r (ascii ''channel peer disconnected'') t s (Some (h_peer h))])"
    if "cf_draining g = cf_draining f" for g r t s using that .
  have silent: "emitted f0 g ds" if "cf_draining g = cf_draining f" for g
    using assms(2) that by (simp add: emitted_def)
  show ?thesis
    using Some ph by (simp add: depart_handle_def Let_def told silent core_simps)
qed

lemma emitted_depart_fold:
  assumes "fabric_inv (fst acc)" "emitted f0 (fst acc) (snd acc)"
  shows "emitted f0 (fst (fold (depart_handle e) ks acc)) (snd (fold (depart_handle e) ks acc))"
  using assms
proof (induction ks arbitrary: acc)
  case (Cons k ks)
  have "fabric_inv (fst (depart_handle e k acc))"
    using inv_depart_handle[OF Cons.prems(1), of e k "snd acc"] by simp
  moreover have "emitted f0 (fst (depart_handle e k acc)) (snd (depart_handle e k acc))"
    using emitted_depart_handle[OF Cons.prems(1,2), of e k] by simp
  ultimately show ?case using Cons.IH[of "depart_handle e k acc"] by simp
qed simp

lemma draining_remove_listeners: "cf_draining (fold remove_listener ks f) = cf_draining f"
  by (induction ks arbitrary: f) simp_all

lemma emitted_close_endpoint:
  assumes "fabric_inv f"
  shows "emitted f (fst (fst (close_endpoint reserve e (f, o1)))) (snd (close_endpoint reserve e (f, o1)))"
proof -
  let ?f1 = "f\<lparr>cf_peer_names := hm_remove e (cf_peer_names f),
      cf_watches := hm_retain (\<lambda>k. key_endpoint k \<noteq> e) (cf_watches f)\<rparr>"
  let ?f2 = "fold remove_listener (filter (\<lambda>k. key_endpoint k = e) (hm_keys (cf_listeners ?f1))) ?f1"
  let ?r = "fold (depart_handle e) (filter (\<lambda>k. key_endpoint k = e) (hm_keys (cf_handles ?f2))) (?f2, [])"
  have inv: "fabric_inv ?f2"
    using inv_remove_listeners[OF inv_forget_endpoint[OF assms]] .
  have "emitted f ?f2 []" by (rule emitted_Nil) (simp add: draining_remove_listeners)
  then have "emitted f (fst ?r) (snd ?r)" using inv by (intro emitted_depart_fold) simp_all
  moreover have "fabric_inv (fst ?r)" using inv by (intro inv_depart_fold) simp
  ultimately show ?thesis
    using emitted_then_publish[of f "(fst ?r, o1)" "snd ?r" reserve] by (simp add: close_endpoint_def Let_def split_def)
qed

end
