(* ===== verification/Channel_System.thy ===== *)
theory Channel_System
  imports Channel_Deliveries
begin

text \<open>
  The fabric as the server drives it: a step relation whose state is the fabric, the outbox and the
  queued deliveries.  A client's packet, an endpoint's registration and departure, the start of
  shutdown, and the moment a queued delivery is written or discarded (in any order, because every
  endpoint has a queue of its own) are its steps.  The invariants of the earlier theories hold in
  every reachable state; the theorems here read off what they mean for the budgets, the windows,
  the names and the ids.
\<close>

type_synonym 'o system = "(fabric \<times> 'o) \<times> delivery list"

inductive fabric_step :: "('o \<Rightarrow> u64 \<Rightarrow> nat \<Rightarrow> bool \<times> 'o) \<Rightarrow> 'o system \<Rightarrow> 'o system \<Rightarrow> bool" for reserve where
  packet: "handle_packet reserve e p st = (st', ds) \<Longrightarrow> fabric_step reserve (st, q) (st', q @ ds)"
| depart: "close_endpoint reserve e st = (st', ds) \<Longrightarrow> fabric_step reserve (st, q) (st', q @ ds)"
| register: "valid_peer_name n \<Longrightarrow> fabric_step reserve ((f, o1), q) ((register_endpoint e n f, o1), q)"
| shutdown: "fabric_step reserve ((f, o1), q) ((begin_shutdown f, o1), q)"
| written: "fabric_step reserve ((f, o1), q1 @ d # q2) ((drop_delivery d f, o2), q1 @ q2)"

inductive_cases fabric_stepE: "fabric_step reserve s t"

inductive reachable :: "('o \<Rightarrow> u64 \<Rightarrow> nat \<Rightarrow> bool \<times> 'o) \<Rightarrow> fabric \<Rightarrow> 'o system \<Rightarrow> bool" for reserve f0 where
  start: "reachable reserve f0 ((f0, o1), [])"
| step: "reachable reserve f0 s \<Longrightarrow> fabric_step reserve s t \<Longrightarrow> reachable reserve f0 t"

definition queue_ok :: "fabric \<Rightarrow> delivery list \<Rightarrow> bool" where
  "queue_ok f q \<longleftrightarrow> list_all readable q \<and> cf_draining f = set (drains q) \<and> distinct (drains q)"

definition system_ok :: "'o system \<Rightarrow> bool" where
  "system_ok s \<longleftrightarrow> (case s of ((f, o1), q) \<Rightarrow> fabric_inv f
     \<and> accounts f (with_pairs q (\<lambda>t. 0)) (with_slots q (\<lambda>s. 0)) \<and> queue_ok f q)"

lemma system_okI:
  "fabric_inv f \<Longrightarrow> accounts f (with_pairs q (\<lambda>t. 0)) (with_slots q (\<lambda>s. 0)) \<Longrightarrow> queue_ok f q \<Longrightarrow>
    system_ok ((f, o1), q)"
  by (simp add: system_ok_def)

lemma queue_emitted: "queue_ok f q \<Longrightarrow> emitted f g ds \<Longrightarrow> queue_ok g (q @ ds)"
  by (auto simp: queue_ok_def emitted_def)

lemma queue_written:
  assumes "queue_ok f (q1 @ d # q2)"
  shows "queue_ok (drop_delivery d f) (q1 @ q2)"
proof -
  have "cf_draining (drop_delivery d f) = cf_draining f - set (drains [d])"
    by (auto simp: drop_delivery_def opt_do_def drop_drain_def split: option.split)
  then show ?thesis
    using assms by (auto simp: queue_ok_def drop_drain_def split: option.splits)
qed

lemma with_middle:
  "with_pairs (q1 @ d # q2) R = with_pairs [d] (with_pairs (q1 @ q2) R)"
  "with_slots (q1 @ d # q2) S = with_slots [d] (with_slots (q1 @ q2) S)"
  by (simp_all add: with_pairs_def with_slots_def fun_eq_iff)

lemma system_balanced:
  assumes "system_ok ((f, o1), q)" "fabric_inv g" "balanced f g ds" "emitted f g ds"
  shows "system_ok ((g, o2), q @ ds)"
  using assms queue_emitted[of f q g ds]
  by (auto simp: system_ok_def balanced_def with_append)

lemma system_quiet:
  "system_ok ((f, o1), q) \<Longrightarrow> fabric_inv g \<Longrightarrow> balanced f g [] \<Longrightarrow> emitted f g [] \<Longrightarrow> system_ok ((g, o2), q)"
  using system_balanced[of f o1 q g "[]" o2] by simp

lemma emitted_register: "emitted f (register_endpoint e n f) []"
  and emitted_shutdown: "emitted f (begin_shutdown f) []"
  by (simp_all add: emitted_Nil register_endpoint_def begin_shutdown_def)

lemma system_ok_step:
  assumes "fabric_step reserve s t" "system_ok s"
  shows "system_ok t"
  using assms
proof (cases rule: fabric_step.cases)
  case (packet e p st st' ds q)
  obtain f o1 where st: "st = (f, o1)" by (cases st)
  have inv: "fabric_inv f" using assms(2) by (simp add: packet st system_ok_def)
  show ?thesis
    using system_balanced[of f o1 q "fst st'" ds "snd st'"] assms(2) inv_handle_packet[OF inv, of reserve e p o1]
      balanced_handle_packet[OF inv, of reserve e p o1] emitted_handle_packet[OF inv, of reserve e p o1] packet st
    by simp
next
  case (depart e st st' ds q)
  obtain f o1 where st: "st = (f, o1)" by (cases st)
  have inv: "fabric_inv f" using assms(2) by (simp add: depart st system_ok_def)
  show ?thesis
    using system_balanced[of f o1 q "fst st'" ds "snd st'"] assms(2) inv_close_endpoint[OF inv, of reserve e o1]
      balanced_close_endpoint[OF inv, of reserve e o1] emitted_close_endpoint[OF inv, of reserve e o1] depart st
    by simp
next
  case (register n f o1 q e)
  have "fabric_inv f" using assms(2) by (simp add: register system_ok_def)
  then have "fabric_inv (register_endpoint e n f)" using register(3) by (rule inv_register)
  then show ?thesis
    using assms(2) unfolding register(1,2) by (rule system_quiet[OF _ _ balanced_register emitted_register, rotated])
next
  case (shutdown f o1 q)
  have "fabric_inv f" using assms(2) by (simp add: shutdown system_ok_def)
  then have "fabric_inv (begin_shutdown f)" by (rule inv_shutdown)
  then show ?thesis
    using assms(2) unfolding shutdown by (rule system_quiet[OF _ _ balanced_shutdown emitted_shutdown, rotated])
next
  case (written f o1 q1 d q2 o2)
  then have ok: "fabric_inv f" "queue_ok f (q1 @ d # q2)"
    "accounts f (with_pairs [d] (with_pairs (q1 @ q2) (\<lambda>t. 0))) (with_slots [d] (with_slots (q1 @ q2) (\<lambda>s. 0)))"
    using assms(2) by (simp_all add: system_ok_def with_middle[of q1 d q2])
  show ?thesis unfolding written
    by (rule system_okI[OF inv_drop_delivery[OF ok(1)] accounts_written[OF ok(3)] queue_written[OF ok(2)]])
qed

lemma system_ok_new: "system_ok ((fabric_new en lim boot, o1), [])"
  by (simp add: system_ok_def fabric_inv_new accounts_new queue_ok_def) (simp add: fabric_new_def)

lemma reachable_ok: "reachable reserve (fabric_new en lim boot) s \<Longrightarrow> system_ok s"
proof (induction rule: reachable.induct)
  case (start o1)
  show ?case by (rule system_ok_new)
next
  case (step s t)
  then show ?case using system_ok_step by blast
qed


subsection \<open>What the accounting says\<close>

text \<open>The live handles of an endpoint never exceed the slots charged to it.\<close>

definition live_handles :: "fabric \<Rightarrow> u64 \<Rightarrow> channel_key set" where
  "live_handles f e = {k. key_endpoint k = e \<and> handles_of f k \<noteq> None}"

lemma slot_owner_unique:
  assumes "accounts f R S" "handles_of f j = Some g" "handles_of f k = Some h" "h_slot g = h_slot h"
  shows "j = k"
proof (rule ccontr)
  assume ne: "j \<noteq> k"
  let ?P = "\<lambda>x. h_slot x = h_slot h"
  let ?H = "(handles_of f)(k := None)"
  have fin: "finite (dom ?H)" using accounts_finite[OF assms(1)] by simp
  have "0 < uses ?H ?P" by (rule uses_pos[OF fin, of j g]) (simp_all add: ne assms(2,4))
  moreover have "uses (handles_of f) ?P = uses ?H ?P + 1"
    using uses_delete[OF accounts_finite[OF assms(1)] assms(3), of ?P] by simp
  moreover have "uses (handles_of f) ?P \<le> 1" using assms(1) by (simp add: accounts_def slots_account_def)
  ultimately show False by simp
qed

lemma live_handles_budget:
  assumes "accounts f R S"
  shows "card (live_handles f e) \<le> slot_count f e"
proof -
  let ?s = "\<lambda>k. h_slot (the (handles_of f k))"
  have "inj_on ?s (live_handles f e)"
    using slot_owner_unique[OF assms] by (auto simp: inj_on_def live_handles_def)
  moreover have "?s ` live_handles f e \<subseteq> slots_of f e"
    using assms by (auto simp: live_handles_def accounts_def slots_account_def)
  moreover have "finite (slots_of f e)"
    using assms by (intro finite_slots_of) (simp add: accounts_def slots_account_def)
  ultimately have "card (live_handles f e) \<le> card (slots_of f e)" by (rule card_inj_on_le)
  then show ?thesis using assms by (simp add: accounts_def slots_account_def)
qed

text \<open>A guard nobody holds is gone.\<close>

lemma unheld_pair: "accounts f R S \<Longrightarrow> uses (handles_of f) (\<lambda>h. h_pair h = t) + R t = 0 \<Longrightarrow> hm_get (cf_pair_refs f) t = None"
proof -
  assume a: "accounts f R S" and z: "uses (handles_of f) (\<lambda>h. h_pair h = t) + R t = 0"
  have "pair_count f t = 0" using accounts_pair[OF a, of t] z by simp
  moreover have "hm_get (cf_pair_refs f) t = Some n \<Longrightarrow> 0 < n" for n
    using a by (simp add: accounts_def pairs_account_def)
  ultimately show ?thesis by (cases "hm_get (cf_pair_refs f) t") (auto simp: pair_count_def)
qed

lemma unheld_slot: "accounts f R S \<Longrightarrow> uses (handles_of f) (\<lambda>h. h_slot h = s) + S s = 0 \<Longrightarrow> hm_get (cf_slot_refs f) s = None"
proof -
  assume a: "accounts f R S" and z: "uses (handles_of f) (\<lambda>h. h_slot h = s) + S s = 0"
  have "slot_refcount f s = 0" using accounts_slot[OF a, of s] z by simp
  moreover have "hm_get (cf_slot_refs f) s = Some (e, n) \<Longrightarrow> 0 < n" for e n
    using a by (simp add: accounts_def slots_account_def)
  ultimately show ?thesis by (cases "hm_get (cf_slot_refs f) s") (auto simp: slot_refcount_def)
qed

lemma idle_releases:
  assumes "accounts f (\<lambda>t. 0) (\<lambda>s. 0)" "\<forall>k. handles_of f k = None"
  shows "cf_active_pairs f = 0" "cf_reserved_window f = 0" "slot_count f e = 0"
proof -
  have none: "handles_of f = (\<lambda>k. None)" using assms(2) by blast
  have "hm_get (cf_pair_refs f) t = None" "hm_get (cf_slot_refs f) s = None" for t s
    using unheld_pair[OF assms(1), of t] unheld_slot[OF assms(1), of s] by (simp_all add: none)
  moreover have "hm_inv (cf_pair_refs f)" using assms(1) by (simp add: accounts_def pairs_account_def)
  ultimately have "hm_keys (cf_pair_refs f) = []" "slots_of f e = {}"
    using hm.set_keys[of "cf_pair_refs f"] by (auto simp: slots_of_def dom_def)
  then show "cf_active_pairs f = 0" "cf_reserved_window f = 0" "slot_count f e = 0"
    using assms(1) by (simp_all add: accounts_def pairs_account_def slots_account_def)
qed

end
