(* ===== verification/Channel_Config.thy ===== *)
theory Channel_Config
  imports Channel_System
begin

text \<open>
  What no operation of the fabric changes, and what only \<open>listen\<close> does.  The limits, the enabled
  switch and the boot generation are fixed at start; the listener table grows only in \<open>listen\<close>, which
  stamps each listener with a fresh generation.  So the limits of \<open>fabric_new\<close> bound every reachable
  state, and no two listeners ever carry the same token.
\<close>

definition config :: "fabric \<Rightarrow> bool \<times> limits \<times> u64" where
  "config f = (cf_enabled f, cf_limits f, cf_boot_generation f)"

text \<open>\<open>g\<close> has the configuration of \<open>f\<close>, its listener generation, and no listener \<open>f\<close> does not have.\<close>

definition settled :: "fabric \<Rightarrow> fabric \<Rightarrow> bool" where
  "settled f g \<longleftrightarrow> config g = config f \<and> cf_next_listener_generation g = cf_next_listener_generation f
     \<and> (\<forall>k l. hm_get (cf_listeners g) k = Some l \<longrightarrow> hm_get (cf_listeners f) k = Some l)"

named_theorems settles

lemma settled_refl [simp]: "settled f f"
  by (simp add: settled_def)

lemma settled_trans: "settled f g \<Longrightarrow> settled g h \<Longrightarrow> settled f h"
  by (simp add: settled_def)

lemma settled_same:
  "config g = config f \<Longrightarrow> cf_next_listener_generation g = cf_next_listener_generation f \<Longrightarrow>
    cf_listeners g = cf_listeners f \<Longrightarrow> settled f g"
  by (simp add: settled_def)

definition lconf :: "fabric \<Rightarrow> (bool \<times> limits \<times> u64) \<times> nat \<times> (channel_key, listener) hash_map" where
  "lconf f = (config f, cf_next_listener_generation f, cf_listeners f)"

lemma settled_lconf: "lconf g = lconf f \<Longrightarrow> settled f g"
  by (simp add: settled_def lconf_def)

named_theorems lconf_simps

lemma lconf_updates [lconf_simps]:
  "lconf (f\<lparr>cf_handles := a\<rparr>) = lconf f" "lconf (f\<lparr>cf_watches := b\<rparr>) = lconf f"
  "lconf (f\<lparr>cf_draining := c\<rparr>) = lconf f" "lconf (f\<lparr>cf_next_server_id := d\<rparr>) = lconf f"
  "lconf (f\<lparr>cf_peer_names := e\<rparr>) = lconf f" "lconf (f\<lparr>cf_published_revision := g\<rparr>) = lconf f"
  "lconf (f\<lparr>cf_pair_refs := h\<rparr>) = lconf f" "lconf (f\<lparr>cf_slot_refs := i\<rparr>) = lconf f"
  "lconf (f\<lparr>cf_next_ref := j\<rparr>) = lconf f" "lconf (f\<lparr>cf_endpoint_slots := k\<rparr>) = lconf f"
  "lconf (f\<lparr>cf_active_pairs := m\<rparr>) = lconf f" "lconf (f\<lparr>cf_reserved_window := n\<rparr>) = lconf f"
  "lconf (f\<lparr>cf_shutting_down := q\<rparr>) = lconf f"
  by (simp_all add: lconf_def config_def)

lemma lconf_guards [lconf_simps]:
  "lconf (clone_pair t f) = lconf f" "lconf (clone_slot s f) = lconf f" "lconf (drop_pair t f) = lconf f"
  "lconf (release_slot e f) = lconf f" "lconf (drop_slot s f) = lconf f" "lconf (drop_drain k f) = lconf f"
  "lconf (begin_drain k f) = lconf f" "lconf (fst (new_slot e f)) = lconf f" "lconf (fst (new_pair f)) = lconf f"
  by (simp_all add: clone_pair_def clone_slot_def drop_pair_def release_slot_def drop_slot_def drop_drain_def
    begin_drain_def new_slot_def new_pair_def lconf_def config_def Let_def split: option.split)

lemma lconf_reserve [lconf_simps]:
  "lconf (fst (reserve_handle_slots a b f)) = lconf f" "lconf (fst (reserve_pair a b f)) = lconf f"
proof -
  show slots: "lconf (fst (reserve_handle_slots a b f)) = lconf f" for f
    by (simp add: reserve_handle_slots_def Let_def split_def lconf_simps)
  obtain g r where "reserve_handle_slots a b f = (g, r)" by (cases "reserve_handle_slots a b f")
  then show "lconf (fst (reserve_pair a b f)) = lconf f"
    using slots[of f] by (cases r) (auto simp: reserve_pair_def Let_def split_def lconf_simps)
qed

lemma lconf_drops [lconf_simps]:
  "lconf (drop_admission adm f) = lconf f" "lconf (drop_delivery d f) = lconf f"
  by (simp_all add: drop_admission_def drop_delivery_def opt_do_def lconf_simps split: prod.split option.split)

lemma lconf_replies [lconf_simps]:
  "lconf (fst (failed_open e c s d f)) = lconf f" "lconf (fst (fail_open e c s d f)) = lconf f"
  "lconf (fst (cancelled e c f)) = lconf f" "lconf (remove_handle k f) = lconf f" "lconf (remove_pair k f) = lconf f"
  by (simp_all add: failed_open_def fail_open_def cancelled_def remove_handle_def remove_pair_def Let_def split_def
    lconf_simps split: option.split)

lemma lconf_close_pair [lconf_simps]: "lconf (fst (close_pair k r d b f)) = lconf f"
  by (simp add: close_pair_def Let_def lconf_simps split: option.split)

lemma lconf_commit [lconf_simps]: "lconf (fst (commit_pair a b n adm p q f)) = lconf f"
  by (simp add: commit_pair_def Let_def lconf_simps split: prod.split)

lemma lconf_admit [lconf_simps]: "lconf (fst (fst (admit_notifications reserve e c l m n (f, o1)))) = lconf f"
  by (simp add: admit_notifications_def Let_def split_def opt_do_def lconf_simps
    split: prod.split bool.split option.split)

lemma settled_lconf_eq: "lconf f = lconf f' \<Longrightarrow> settled f g = settled f' g"
  by (simp add: settled_def lconf_def)

lemma settled_remove_listener [settles]: "hm_inv (cf_listeners f) \<Longrightarrow> settled f (remove_listener k f)"
  by (auto simp: settled_def remove_listener_def config_def hm.lookup_delete split: option.split if_splits)

lemma lconf_listeners: "lconf g = lconf f \<Longrightarrow> cf_listeners g = cf_listeners f"
  by (simp add: lconf_def)

subsection \<open>Operations\<close>

lemma settled_violation [settles]: "hm_inv (cf_listeners f) \<Longrightarrow> settled f (fst (protocol_violation e c d f))"
proof -
  assume inv: "hm_inv (cf_listeners f)"
  have "settled f (begin_drain k (remove_listener k f))" for k
    by (rule settled_trans[OF settled_remove_listener[OF inv] settled_lconf]) (simp add: lconf_simps)
  then show ?thesis by (simp add: protocol_violation_def Let_def settled_lconf lconf_simps)
qed

lemma settled_close [settles]: "hm_inv (cf_listeners f) \<Longrightarrow> settled f (fst (close e c r f))"
proof -
  assume inv: "hm_inv (cf_listeners f)"
  have "settled f (begin_drain k (remove_listener k f))" for k
    by (rule settled_trans[OF settled_remove_listener[OF inv] settled_lconf]) (simp add: lconf_simps)
  then show ?thesis by (simp add: close_def Let_def settled_lconf lconf_simps)
qed

lemma settled_data [settles]: "hm_inv (cf_listeners f) \<Longrightarrow> settled f (fst (data e c p f))"
  using settled_violation[of f]
  by (simp add: data_def Let_def settled_lconf lconf_simps split: option.split)

lemma settled_ack [settles]: "hm_inv (cf_listeners f) \<Longrightarrow> settled f (fst (ack e c n f))"
  using settled_violation[of f]
  by (simp add: ack_def Let_def settled_lconf lconf_simps split: option.split)

lemma settled_refuse [settles]: "settled f (fst (refuse e k c f))"
  by (simp add: refuse_def settled_lconf lconf_simps)

lemma settled_malformed [settles]: "hm_inv (cf_listeners f) \<Longrightarrow> settled f (fst (malformed e k c d f))"
  using settled_violation[of f] by (simp add: malformed_def settled_lconf lconf_simps)

lemma lconf_watch [lconf_simps]: "lconf (fst (fst (watch_names reserve e c ns (f, o1)))) = lconf f"
  by (simp add: watch_names_def Let_def split_def lconf_simps)

lemma lconf_publish_one [lconf_simps]: "lconf (fst (fst (publish_one reserve k ((f, o1), ds)))) = lconf f"
  by (simp add: publish_one_def Let_def split_def lconf_simps split: option.split)

lemma lconf_publish_fold: "lconf (fst (fst (fold (publish_one reserve) ks ((f, o1), ds)))) = lconf f"
proof (induction ks arbitrary: f o1 ds)
  case (Cons k ks)
  obtain g o2 es where p: "publish_one reserve k ((f, o1), ds) = ((g, o2), es)"
    by (metis prod.collapse)
  then have "lconf g = lconf f" using lconf_publish_one[of reserve k f o1 ds] by simp
  then show ?case using Cons.IH[of g o2 es] by (simp add: p)
qed simp

lemma lconf_publish [lconf_simps]: "lconf (fst (fst (publish_names reserve (f, o1)))) = lconf f"
  by (simp add: publish_names_def Let_def lconf_publish_fold lconf_simps)

text \<open>The four ways a connect ends.\<close>

definition opened_packet :: "fabric \<Rightarrow> u32 \<Rightarrow> channel_key \<Rightarrow> bytes" where
  "opened_packet f c lk = the (msg_channel_opened c STATUS_OK (word_of_nat CHANNEL_WINDOW_BYTES)
     (peer_name f (key_endpoint lk)) (l_metadata (the (hm_get (cf_listeners f) lk))) [])"

definition accepted_packet :: "fabric \<Rightarrow> u64 \<Rightarrow> u32 \<Rightarrow> channel_key \<Rightarrow> bytes \<Rightarrow> bytes" where
  "accepted_packet f e i lk md = the (msg_channel_accepted i (key_channel lk) (word_of_nat CHANNEL_WINDOW_BYTES)
     (peer_name f e) md)"

lemma connect_success:
  assumes "\<not> key_is_live f (Key e c)" "hm_get (cf_listener_names f) name = Some lk"
    and "tok = None \<or> tok = Some (l_token (the (hm_get (cf_listeners f) lk)))"
    and "server_id_candidate f (key_endpoint lk) = Some (i, n)" "reserve_pair e (key_endpoint lk) f = (g, Inr adm)"
    and "admit_notifications reserve e c (key_endpoint lk) (length (opened_packet f c lk))
        (length (accepted_packet f e i lk md)) (g, o1) = ((g, o2), Inr ())"
  shows "connect reserve e c name md tok (f, o1)
        = ((fst (commit_pair (Key e c) (Key (key_endpoint lk) i) n adm (opened_packet f c lk)
              (accepted_packet f e i lk md) g), o2),
           snd (commit_pair (Key e c) (Key (key_endpoint lk) i) n adm (opened_packet f c lk)
              (accepted_packet f e i lk md) g))"
  using assms by (auto simp: connect_def Let_def split_def opened_packet_def[symmetric] accepted_packet_def[symmetric])

lemma connect_cases:
  obtains (refused) st d where "connect reserve e c name md tok (f, o1)
      = ((fst (fail_open e c st d f), o1), snd (fail_open e c st d f))"
  | (full) lk g err where "reserve_pair e (key_endpoint lk) f = (g, Inl err)"
      "connect reserve e c name md tok (f, o1)
      = ((fst (fail_open e c STATUS_BUDGET (admission_detail err) g), o1),
         snd (fail_open e c STATUS_BUDGET (admission_detail err) g))"
  | (held) lk i g adm h o2 ds where "reserve_pair e (key_endpoint lk) f = (g, Inr adm)"
      "admit_notifications reserve e c (key_endpoint lk) (length (opened_packet f c lk))
        (length (accepted_packet f e i lk md)) (g, o1) = ((h, o2), Inl ds)"
      "connect reserve e c name md tok (f, o1) = ((drop_admission adm h, o2), ds)"
  | (paired) lk i n g adm o2 where "\<not> key_is_live f (Key e c)" "hm_get (cf_listener_names f) name = Some lk"
      "tok = None \<or> tok = Some (l_token (the (hm_get (cf_listeners f) lk)))"
      "server_id_candidate f (key_endpoint lk) = Some (i, n)" "reserve_pair e (key_endpoint lk) f = (g, Inr adm)"
      "admit_notifications reserve e c (key_endpoint lk) (length (opened_packet f c lk))
        (length (accepted_packet f e i lk md)) (g, o1) = ((g, o2), Inr ())"
      "connect reserve e c name md tok (f, o1)
        = ((fst (commit_pair (Key e c) (Key (key_endpoint lk) i) n adm (opened_packet f c lk)
              (accepted_packet f e i lk md) g), o2),
           snd (commit_pair (Key e c) (Key (key_endpoint lk) i) n adm (opened_packet f c lk)
              (accepted_packet f e i lk md) g))"
proof (cases "key_is_live f (Key e c) \<or> hm_get (cf_listener_names f) name = None")
  case True
  show ?thesis
  proof (cases "key_is_live f (Key e c)")
    case True
    then show ?thesis by (intro refused) (simp add: connect_def Let_def split_def)
  next
    case False
    with True show ?thesis by (intro refused) (simp add: connect_def Let_def split_def)
  qed
next
  case False
  then obtain lk where live: "\<not> key_is_live f (Key e c)" and lk: "hm_get (cf_listener_names f) name = Some lk" by auto
  let ?l = "the (hm_get (cf_listeners f) lk)"
  show ?thesis
  proof (cases "tok \<noteq> None \<and> tok \<noteq> Some (l_token ?l) \<or> server_id_candidate f (key_endpoint lk) = None")
    case token: True
    show ?thesis
    proof (cases "tok \<noteq> None \<and> tok \<noteq> Some (l_token ?l)")
      case True
      then show ?thesis using live lk by (intro refused) (simp add: connect_def Let_def split_def)
    next
      case False
      then have "server_id_candidate f (key_endpoint lk) = None" using token by blast
      then show ?thesis using False live lk by (intro refused) (auto simp: connect_def Let_def split_def)
    qed
  next
    case token: False
    then obtain i n where id: "server_id_candidate f (key_endpoint lk) = Some (i, n)" by auto
    have tok: "tok = None \<or> tok = Some (l_token ?l)" using token by blast
    note packets = opened_packet_def[symmetric] accepted_packet_def[symmetric]
    obtain g r where g: "reserve_pair e (key_endpoint lk) f = (g, r)" by (cases "reserve_pair e (key_endpoint lk) f")
    show ?thesis
    proof (cases r)
      case (Inl err)
      show ?thesis
        by (rule full[OF g[unfolded Inl]]) (use live lk token id g Inl in \<open>auto simp: connect_def Let_def split_def\<close>)
    next
      case (Inr adm)
      obtain h o2 q where a: "admit_notifications reserve e c (key_endpoint lk) (length (opened_packet f c lk))
        (length (accepted_packet f e i lk md)) (g, o1) = ((h, o2), q)" by (metis prod.collapse)
      show ?thesis
      proof (cases q)
        case (Inl ds)
        show ?thesis
          by (rule held[OF g[unfolded Inr] a[unfolded Inl]])
            (use live lk token id g Inr a Inl in \<open>auto simp: connect_def Let_def split_def packets\<close>)
      next
        case q: (Inr u)
        then have hg: "h = g" using a by (intro admit_Inr) simp
        have unit: "u = ()" by simp
        show ?thesis
          by (rule paired[OF live lk tok id g[unfolded Inr] a[unfolded hg q unit]
            connect_success[OF live lk tok id g[unfolded Inr] a[unfolded hg q unit]]])
      qed
    qed
  qed
qed

lemma lconf_connect [lconf_simps]: "lconf (fst (fst (connect reserve e c name md tok (f, o1)))) = lconf f"
proof (cases rule: connect_cases[of reserve e c name md tok f o1])
  case (full lk g err)
  then show ?thesis using lconf_reserve(2)[of e "key_endpoint lk" f] by (simp add: lconf_simps)
next
  case (held lk i g adm h o2 ds)
  then show ?thesis
    using lconf_reserve(2)[of e "key_endpoint lk" f]
      lconf_admit[of reserve e c "key_endpoint lk" "length (opened_packet f c lk)"
        "length (accepted_packet f e i lk md)" g o1]
    by (simp add: lconf_simps)
next
  case (paired lk i n g adm o2)
  then show ?thesis using lconf_reserve(2)[of e "key_endpoint lk" f] by (simp add: lconf_simps)
qed (simp add: lconf_simps)

subsection \<open>Listener tokens\<close>

text \<open>
  The generation of a listener is the number its token ends in.  Every listener's generation is below
  the next one and no two listeners share it.
\<close>

definition token_at :: "u64 \<Rightarrow> nat \<Rightarrow> bytes" where
  "token_at boot g = wle 8 boot @ to_le 8 g"

definition stamped :: "fabric \<Rightarrow> bool" where
  "stamped f \<longleftrightarrow> cf_next_listener_generation f < 2 ^ 64
     \<and> (\<forall>k l. hm_get (cf_listeners f) k = Some l \<longrightarrow>
          (\<exists>g. g < cf_next_listener_generation f \<and> l_token l = token_at (cf_boot_generation f) g))
     \<and> (\<forall>j k l m. hm_get (cf_listeners f) j = Some l \<and> hm_get (cf_listeners f) k = Some m
          \<and> l_token l = l_token m \<longrightarrow> j = k)"

lemma token_at_inj: "a < 2 ^ 64 \<Longrightarrow> b < 2 ^ 64 \<Longrightarrow> token_at boot a = token_at boot b \<Longrightarrow> a = b"
proof -
  assume "a < 2 ^ 64" "b < 2 ^ 64" "token_at boot a = token_at boot b"
  then have "of_le (to_le 8 a) = of_le (to_le 8 b)" by (simp add: token_at_def)
  then have "a mod 256 ^ 8 = b mod 256 ^ 8" by (simp only: of_le_to_le)
  then show "a = b" using \<open>a < 2 ^ 64\<close> \<open>b < 2 ^ 64\<close> by simp
qed

lemma stamped_settled: "settled f g \<Longrightarrow> stamped f \<Longrightarrow> stamped g"
  unfolding stamped_def settled_def config_def prod.inject by metis

lemma stamped_new: "stamped (fabric_new en lim boot)"
  by (simp add: stamped_def fabric_new_def)

lemma config_listen: "config (fst (fst (listen reserve e c name md (f, o1)))) = config f"
  using arg_cong[OF lconf_replies(2)[of e c _ _ f], of fst]
  by (auto simp: listen_def Let_def split_def lconf_def config_def)

lemma stamped_listen:
  assumes "hm_inv (cf_listeners f)" "stamped f"
  shows "stamped (fst (fst (listen reserve e c name md (f, o1))))"
proof -
  let ?n = "cf_next_listener_generation f"
  let ?l = "\<lparr>l_name = name, l_metadata = md, l_token = listener_token_of f\<rparr>"
  have fail: "stamped (fst (fail_open e c st d f))" for st d
    by (rule stamped_settled[OF settled_lconf assms(2)]) (simp add: lconf_simps)
  have tok: "l_token ?l = token_at (cf_boot_generation f) ?n"
    by (simp add: listener_token_of_def token_at_def)
  have fresh: "l_token m \<noteq> token_at (cf_boot_generation f) ?n" if "hm_get (cf_listeners f) k = Some m" for k m
    using that assms(2) token_at_inj[of _ ?n] unfolding stamped_def by (metis less_irrefl less_trans)
  have "stamped (f\<lparr>cf_next_listener_generation := ?n + 1, cf_names_revision := r, cf_listener_names := ns,
      cf_listeners := hm_insert (Key e c) ?l (cf_listeners f)\<rparr>)" (is "stamped ?g") if lim: "?n + 1 < 2 ^ 64" for r ns
  proof -
    have get: "hm_get (cf_listeners ?g) = (hm_get (cf_listeners f))(Key e c \<mapsto> ?l)"
      by (simp add: hm.lookup_insert[OF assms(1)])
    have below: "\<exists>g < ?n + 1. l_token m = token_at (cf_boot_generation f) g"
      if "hm_get (cf_listeners ?g) k = Some m" for k m
    proof (cases "k = Key e c")
      case True
      then show ?thesis using that tok unfolding get by auto
    next
      case False
      then have "hm_get (cf_listeners f) k = Some m" using that unfolding get by simp
      then show ?thesis using assms(2) less_SucI unfolding stamped_def Suc_eq_plus1[symmetric] by metis
    qed
    have one: "j = k" if "hm_get (cf_listeners ?g) j = Some l" "hm_get (cf_listeners ?g) k = Some m"
      "l_token l = l_token m" for j k l m
      using that assms(2) fresh[of j] fresh[of k] tok unfolding stamped_def get
      by (cases "j = Key e c"; cases "k = Key e c") auto
    show ?thesis using lim below one unfolding stamped_def by simp
  qed
  then show ?thesis using fail assms(2) by (auto simp: listen_def Let_def split_def)
qed

lemma hm_inv_listeners: "fabric_inv f \<Longrightarrow> hm_inv (cf_listeners f)"
  by (simp add: fabric_inv_def stores_ok_def)

text \<open>Configuration kept and tokens stamped, in one.\<close>

definition sound :: "fabric \<Rightarrow> fabric \<Rightarrow> bool" where
  "sound f g \<longleftrightarrow> config g = config f \<and> (stamped f \<longrightarrow> stamped g)"

lemma sound_trans: "sound f g \<Longrightarrow> sound g h \<Longrightarrow> sound f h"
  by (simp add: sound_def)

lemma sound_settled: "settled f g \<Longrightarrow> sound f g"
  using stamped_settled[of f g] by (auto simp: sound_def settled_def)

lemma sound_lconf: "lconf g = lconf f \<Longrightarrow> sound f g"
  by (rule sound_settled[OF settled_lconf])

lemma fst_with_state [simp]: "fst (fst (with_state o1 r)) = fst r"
  by (simp add: with_state_def split_def)

lemma sound_apply:
  assumes "hm_inv (cf_listeners f)"
  shows "sound f (fst (fst (apply_request reserve e r (f, o1))))"
proof (cases r)
  case (Listen c name md)
  then show ?thesis
    using stamped_listen[OF assms, of reserve e c name md o1] by (simp add: apply_request_def sound_def config_listen)
next
  case (Connect c name md tok)
  then show ?thesis by (simp add: apply_request_def sound_lconf lconf_simps)
next
  case (Watch c names)
  then show ?thesis by (simp add: apply_request_def sound_lconf lconf_simps)
next
  case (Unwatch c)
  then show ?thesis by (simp add: apply_request_def sound_lconf lconf_simps)
qed (simp_all add: apply_request_def sound_settled settles assms)

lemma sound_handle_packet:
  assumes "hm_inv (cf_listeners f)"
  shows "sound f (fst (fst (handle_packet reserve e p (f, o1))))"
proof -
  have "sound f (fst (fst (handle_reserved reserve e r (f, o1))))" for r
  proof -
    obtain g o2 ds where g: "apply_request reserve e r (f, o1) = ((g, o2), ds)" by (metis prod.collapse)
    then have "sound f g" using sound_apply[OF assms, of reserve e r o1] by simp
    moreover have "sound g (fst (fst (publish_names reserve (g, o2))))" by (simp add: sound_lconf lconf_simps)
    ultimately show ?thesis using sound_trans by (auto simp: handle_reserved_def g split_def Let_def)
  qed
  then show ?thesis
    using assms sound_settled[OF settled_refl, of f]
    by (auto simp: handle_packet_def sound_settled settles split: sum.split option.split)
qed

lemma settled_remove_listeners:
  "hm_inv (cf_listeners f) \<Longrightarrow> settled f (fold remove_listener ks f) \<and> hm_inv (cf_listeners (fold remove_listener ks f))"
proof (induction ks arbitrary: f)
  case (Cons k ks)
  have "hm_inv (cf_listeners (remove_listener k f))"
    using Cons.prems by (auto simp: remove_listener_def hm.inv_delete split: option.split)
  from Cons.IH[OF this] show ?case
    using settled_trans[OF settled_remove_listener[OF Cons.prems]] by auto
qed simp

lemma lconf_depart: "lconf (fst (depart_handle e k (f, ds))) = lconf f"
  by (simp add: depart_handle_def Let_def lconf_simps split: option.split)

lemma lconf_depart_fold: "lconf (fst (fold (depart_handle e) ks (f, ds))) = lconf f"
proof (induction ks arbitrary: f ds)
  case (Cons k ks)
  then show ?case using lconf_depart[of e k f ds] by (cases "depart_handle e k (f, ds)") simp
qed simp

lemma sound_close_endpoint:
  assumes "hm_inv (cf_listeners f)"
  shows "sound f (fst (fst (close_endpoint reserve e (f, o1))))"
proof -
  define g where "g = f\<lparr>cf_peer_names := hm_remove e (cf_peer_names f),
      cf_watches := hm_retain (\<lambda>k. key_endpoint k \<noteq> e) (cf_watches f)\<rparr>"
  define h where "h = fold remove_listener (filter (\<lambda>k. key_endpoint k = e) (hm_keys (cf_listeners g))) g"
  obtain i ds where i: "fold (depart_handle e) (filter (\<lambda>k. key_endpoint k = e) (hm_keys (cf_handles h))) (h, []) = (i, ds)"
    by (metis prod.collapse)
  have "lconf g = lconf f" by (simp add: g_def lconf_def config_def)
  moreover have "settled g h" using settled_remove_listeners[of g] assms by (simp add: h_def g_def)
  moreover have "lconf i = lconf h" using lconf_depart_fold[of e _ h "[]"] i by (metis fst_conv)
  moreover have "lconf (fst (fst (publish_names reserve (i, o1)))) = lconf i" by (simp add: lconf_simps)
  moreover have "fst (fst (close_endpoint reserve e (f, o1))) = fst (fst (publish_names reserve (i, o1)))"
    using i by (simp add: close_endpoint_def Let_def split_def h_def g_def)
  ultimately show ?thesis using sound_trans sound_lconf sound_settled by metis
qed

lemma sound_step: "fabric_step reserve s t \<Longrightarrow> fabric_inv (fst (fst s)) \<Longrightarrow> sound (fst (fst s)) (fst (fst t))"
proof (induction rule: fabric_step.induct)
  case (packet e p st st' ds q)
  then show ?case using sound_handle_packet[OF hm_inv_listeners, of "fst st" reserve e p "snd st"] by simp
next
  case (depart e st st' ds q)
  then show ?case using sound_close_endpoint[OF hm_inv_listeners, of "fst st" reserve e "snd st"] by simp
qed (simp_all add: sound_lconf lconf_simps register_endpoint_def begin_shutdown_def)

lemma reachable_sound:
  "reachable reserve (fabric_new en lim boot) s \<Longrightarrow>
    config (fst (fst s)) = (en, lim, boot) \<and> stamped (fst (fst s))"
proof (induction rule: reachable.induct)
  case (start o1)
  then show ?case using stamped_new by (simp add: config_def fabric_new_def)
next
  case (step s t)
  have "fabric_inv (fst (fst s))" using reachable_ok[OF step(1)] by (auto simp: system_ok_def split: prod.splits)
  then show ?case using sound_step[OF step(2)] step.IH by (simp add: sound_def)
qed

end
