(* ===== verification/Channel_Effects.thy ===== *)
theory Channel_Effects
  imports Channel_Config
begin

text \<open>
  What the operations do to the handle table and what they emit, as the two ends of a channel see it.
\<close>

subsection \<open>Packets as the client decodes them\<close>

abbreviation says :: "delivery \<Rightarrow> u64 \<Rightarrow> channel_message \<Rightarrow> bool" where
  "says d e m \<equiv> d_endpoint d = e \<and> parse_channel_message (d_packet d) = Inr (Some m)"

lemma parse_closed: "detail_ok d \<Longrightarrow>
    parse_channel_message (the (msg_channel_closed c r d)) = Inr (Some (Closed c r d))"
  by (simp add: parse_message_iff msg_channel_closed_def detail_ok_def)

lemma says_closed: "detail_ok d \<Longrightarrow> says (closed k r d t s dr) (key_endpoint k) (Closed (key_channel k) r d)"
  using parse_closed by (simp add: closed_def)

lemma says_opened: "detail_ok d \<Longrightarrow> says (opened_with_drain e c st d dr) e (Opened c st 0 [] [] d)"
  by (simp add: opened_with_drain_def plain_delivery_def parse_message_iff msg_channel_opened_def detail_ok_def
    valid_peer_name_def)

lemma says_peer_data: "payload \<noteq> [] \<Longrightarrow> length payload \<le> CHANNEL_MAX_PAYLOAD \<Longrightarrow>
    says (peer_delivery k (the (msg_channel_data (key_channel k) payload)) t s) (key_endpoint k)
      (MsgData (key_channel k) payload)"
  by (simp add: peer_delivery_def parse_message_iff msg_channel_data_def not_less)

lemma says_peer_ack: "says (peer_delivery k (msg_channel_ack (key_channel k) n) t s) (key_endpoint k)
    (MsgAck (key_channel k) n)"
  by (simp add: peer_delivery_def parse_message_iff)

subsection \<open>Closing\<close>

lemma close_pair_both:
  assumes "fabric_inv f" "handles_of f k = Some h" "detail_ok d"
  obtains g d1 d2 where "close_pair k r d True f = (g, [d1, d2])"
    "says d1 (key_endpoint k) (Closed (key_channel k) r d)"
    "says d2 (key_endpoint (h_peer h)) (Closed (key_channel (h_peer h)) r d)"
    "handles_of g = (handles_of f)(k := None, h_peer h := None)"
    "cf_draining g = cf_draining f \<union> {k, h_peer h}"
    "cf_listeners g = cf_listeners f" "cf_watches g = cf_watches f"
proof -
  obtain ph where ph: "handles_of f (h_peer h) = Some ph"
    using pairedD[OF fabric_inv_parts(4)[OF assms(1)] assms(2)] by blast
  let ?a = "clone_slot (h_slot ph) (clone_slot (h_slot h) (clone_pair (h_pair h) f))"
  have a: "fabric_inv ?a" "handles_of ?a k = Some h" using assms by (simp_all add: fabric_steps core_simps)
  have "core ?a = core f" by (simp add: core_simps)
  note af = core_cong_fields[OF this]
  note rf = core_cong_fields[OF core_remove_pair[OF a]]
  have inv: "hm_inv (cf_handles f)" using fabric_inv_parts(1)[OF assms(1)] by (simp add: stores_ok_def)
  let ?g = "begin_drain (h_peer h) (clone_pair (h_pair h) (begin_drain k (remove_pair k ?a)))"
  have "core (clone_pair (h_pair h) (begin_drain k (remove_pair k ?a))) = core (begin_drain k (remove_pair k ?a))"
    by (simp add: core_simps)
  note cf = core_cong_fields[OF this]
  show ?thesis
  proof (rule that)
    show "close_pair k r d True f = (?g, [closed k r d (Some (h_pair h)) (Some (h_slot h)) (Some k),
        closed (h_peer h) r d (Some (h_pair h)) (Some (h_slot ph)) (Some (h_peer h))])"
      using assms(2) ph by (simp add: close_pair_def Let_def)
    show "handles_of ?g = (handles_of f)(k := None, h_peer h := None)"
      using rf(3) af(3) cf(3) inv by (simp add: begin_drain_def hm_simps)
    show "cf_draining ?g = cf_draining f \<union> {k, h_peer h}"
      using rf(5) af(5) cf(5) by (auto simp: begin_drain_def)
    show "cf_listeners ?g = cf_listeners f" "cf_watches ?g = cf_watches f"
      using rf(1,4) af(1,4) cf(1,4) by (simp_all add: begin_drain_def)
  qed (rule says_closed[OF assms(3)])+
qed

lemma violation_closes_pair:
  assumes "fabric_inv f" "handles_of f (Key e c) = Some h" "detail_ok d"
  shows "\<exists>g d1 d2. protocol_violation e c d f = (g, [d1, d2])
    \<and> says d1 e (Closed c CHANNEL_CLOSE_PROTOCOL_VIOLATION d)
    \<and> says d2 (key_endpoint (h_peer h)) (Closed (key_channel (h_peer h)) CHANNEL_CLOSE_PROTOCOL_VIOLATION d)
    \<and> handles_of g = (handles_of f)(Key e c := None, h_peer h := None)
    \<and> cf_draining g = cf_draining f \<union> {Key e c, h_peer h}"
proof -
  have "hm_get (cf_listeners f) (Key e c) = None"
    using fabric_inv_parts(5)[OF assms(1)] assms(2) by (auto simp: exclusive_def dom_def)
  then have pv: "protocol_violation e c d f = close_pair (Key e c) CHANNEL_CLOSE_PROTOCOL_VIOLATION d True f"
    using assms(2) by (simp add: protocol_violation_def Let_def)
  show ?thesis
    by (rule close_pair_both[OF assms, of CHANNEL_CLOSE_PROTOCOL_VIOLATION]) (auto simp: pv)
qed

subsection \<open>Admission\<close>

lemma reserve_pair_admits:
  assumes "slot_count f e + (if e = le then 2 else 1) \<le> lim_handles_per_client (cf_limits f)"
    and "e \<noteq> le \<Longrightarrow> slot_count f le + 1 \<le> lim_handles_per_client (cf_limits f)"
    and "cf_active_pairs f < lim_connected_pairs (cf_limits f)"
    and "cf_reserved_window f + PAIR_WINDOW \<le> lim_buffer_bytes (cf_limits f)"
    and "cf_reserved_window f + PAIR_WINDOW < 2 ^ 64"
  shows "\<exists>g t cs as. reserve_pair e le f = (g, Inr (t, cs, as)) \<and> core g = core f"
proof -
  obtain g r where g: "reserve_pair e le f = (g, r)" by (cases "reserve_pair e le f")
  have "core g = core f" using core_reserve_pair[of e le f] by (simp add: g)
  moreover have "\<not> isl r"
    using assms g
    by (auto simp: reserve_pair_def reserve_handle_slots_def new_slot_def new_pair_def Let_def split: if_splits)
  ultimately show ?thesis using g by (cases r) auto
qed

lemma commit_pair_handles:
  assumes "hm_inv (cf_handles g)"
  shows "handles_of (fst (commit_pair a b n (t, cs, as) p q g))
    = (handles_of g)(a \<mapsto> new_handle b t cs, b \<mapsto> new_handle a t as)"
proof -
  have c: "cf_handles (clone_pair x f) = cf_handles f" "cf_handles (clone_slot x f) = cf_handles f" for x f
    by (simp_all add: clone_pair_def clone_slot_def split: option.split)
  show ?thesis using assms by (simp add: commit_pair_def Let_def c hm_simps)
qed

lemma admit_all:
  assumes "\<And>s e n. fst (reserve s e n)"
  obtains o2 where "admit_notifications reserve e c le m n (g, o1) = ((g, o2), Inr ())"
proof -
  define F where "F = (\<lambda>s e n. snd (reserve s e n))"
  have "reserve = (\<lambda>s e n. (True, F s e n))"
    using assms by (simp add: F_def fun_eq_iff prod_eq_iff)
  then show ?thesis by (cases "e \<le> le") (auto intro: that simp: admit_notifications_def)
qed

text \<open>The two notifications of a connect, as decoded.\<close>

lemma parse_opened_packet:
  assumes "fabric_inv f" "hm_get (cf_listeners f) lk = Some l"
  shows "parse_channel_message (opened_packet f c lk) = Inr (Some (Opened c STATUS_OK (word_of_nat CHANNEL_WINDOW_BYTES)
    (peer_name f (key_endpoint lk)) (l_metadata l) []))"
proof -
  have "listener_ok l" using fabric_inv_parts(2)[OF assms(1)] assms(2) by (simp add: fields_ok_def)
  then show ?thesis
    using assms(2) valid_peer_name_of[OF assms(1)]
    by (simp add: opened_packet_def parse_message_iff msg_channel_opened_def listener_ok_def metadata_ok[simplified])
qed

lemma parse_accepted_packet:
  assumes "fabric_inv f" "length md \<le> CHANNEL_MAX_METADATA"
  shows "parse_channel_message (accepted_packet f e i lk md)
    = Inr (Some (Accepted i (key_channel lk) (word_of_nat CHANNEL_WINDOW_BYTES) (peer_name f e) md))"
  using assms(2) valid_peer_name_of[OF assms(1)]
  by (simp add: accepted_packet_def parse_message_iff msg_channel_accepted_def metadata_ok[simplified])

subsection \<open>Data and acknowledgement\<close>

lemma data_sends:
  assumes "fabric_inv f" "handles_of f (Key e c) = Some h" "payload \<noteq> []" "length payload \<le> CHANNEL_MAX_PAYLOAD"
    and "h_sent h + length payload \<le> h_acked h + CHANNEL_WINDOW_BYTES" "h_acked h + CHANNEL_WINDOW_BYTES < 2 ^ 64"
    and "length (h_bounds h) < CHANNEL_MAX_UNCONSUMED_MESSAGES"
  shows "\<exists>g d. data e c payload f = (g, [d])
    \<and> says d (key_endpoint (h_peer h)) (MsgData (key_channel (h_peer h)) payload)
    \<and> handles_of g = (handles_of f)(Key e c \<mapsto> h\<lparr>h_sent := h_sent h + length payload,
        h_bounds := h_bounds h @ [h_sent h + length payload]\<rparr>)"
proof -
  have "hm_get (cf_listeners f) (Key e c) = None"
    using fabric_inv_parts(5)[OF assms(1)] assms(2) by (auto simp: exclusive_def dom_def)
  moreover have c: "cf_handles (clone_pair x f) = cf_handles f" "cf_handles (clone_slot x f) = cf_handles f" for x f
    by (simp_all add: clone_pair_def clone_slot_def split: option.split)
  moreover have "hm_inv (cf_handles f)" using fabric_inv_parts(1)[OF assms(1)] by (simp add: stores_ok_def)
  ultimately show ?thesis
    using assms(2-7) says_peer_data[OF assms(3,4)] by (simp add: data_def Let_def hm_simps)
qed

lemma sorted_dropWhile: "sorted_wrt (<) bs \<Longrightarrow> dropWhile (\<lambda>b. b \<le> n) bs = filter (\<lambda>b. (n :: nat) < b) bs"
  by (induction bs) (auto simp: not_le intro!: filter_True[symmetric] intro: less_trans)

lemma ack_returns:
  assumes "fabric_inv f" "handles_of f (Key e c) = Some h" "handles_of f (h_peer h) = Some p"
    and "h_acked p \<le> unat n" "unat n \<le> h_sent p" "unat n = h_acked p \<or> unat n \<in> set (h_bounds p)"
  shows "\<exists>g d. ack e c n f = (g, [d])
    \<and> says d (key_endpoint (h_peer h)) (MsgAck (key_channel (h_peer h)) n)
    \<and> handles_of g = (handles_of f)(h_peer h \<mapsto> p\<lparr>h_acked := unat n,
        h_bounds := filter (\<lambda>b. unat n < b) (h_bounds p)\<rparr>)"
proof -
  have "hm_get (cf_listeners f) (Key e c) = None"
    using fabric_inv_parts(5)[OF assms(1)] assms(2) by (auto simp: exclusive_def dom_def)
  moreover have c: "cf_handles (clone_pair x f) = cf_handles f" "cf_handles (clone_slot x f) = cf_handles f" for x f
    by (simp_all add: clone_pair_def clone_slot_def split: option.split)
  moreover have "hm_inv (cf_handles f)" using fabric_inv_parts(1)[OF assms(1)] by (simp add: stores_ok_def)
  moreover have "sorted_wrt (<) (h_bounds p)"
    using fabric_inv_parts(4)[OF assms(1)] assms(3) by (auto simp: paired_def handle_ok_def)
  ultimately show ?thesis
    using assms(2-5) says_peer_ack
    by (cases "unat n = h_acked p") (use assms(6) in \<open>simp_all add: ack_def Let_def hm_simps sorted_dropWhile\<close>)
qed

subsection \<open>Publishing\<close>

text \<open>The name list a watch should show.\<close>

definition current_names :: "fabric \<Rightarrow> channel_key \<Rightarrow> watch \<Rightarrow> bytes" where
  "current_names f k w = the (msg_channel_names (key_channel k) (present_names f (w_names w)))"

text \<open>Only watches change, each at most in its published list.\<close>

definition same_but_published :: "fabric \<Rightarrow> fabric \<Rightarrow> bool" where
  "same_but_published f g \<longleftrightarrow> cf_handles g = cf_handles f \<and> cf_listener_names g = cf_listener_names f
     \<and> hm_inv (cf_watches g)
     \<and> (\<forall>k. map_option w_names (hm_get (cf_watches g) k) = map_option w_names (hm_get (cf_watches f) k))"

lemma same_but_published_dom:
  assumes "same_but_published f g"
  shows "dom (hm_get (cf_watches g)) = dom (hm_get (cf_watches f))"
proof -
  have d: "dom m = {k. map_option w_names (m k) \<noteq> None}" for m :: "channel_key \<Rightarrow> watch option"
    by (auto simp: dom_def)
  show ?thesis using assms unfolding d same_but_published_def by simp
qed

lemma publish_one_step:
  assumes "hm_inv (cf_watches f)" "publish_one reserve k ((f, o1), ds) = ((g, o2), es)"
  shows "same_but_published f g" "j \<noteq> k \<Longrightarrow> hm_get (cf_watches g) j = hm_get (cf_watches f) j"
    "(\<And>s e n. fst (reserve s e n)) \<Longrightarrow> hm_get (cf_watches g) k = Some w \<Longrightarrow> w_published w = current_names f k w"
  using assms
  by (auto simp: publish_one_def Let_def split_def current_names_def same_but_published_def hm_simps
    split: option.splits if_splits)

lemma publish_fold_step:
  assumes "hm_inv (cf_watches f)" "fold (publish_one reserve) ks ((f, o1), ds) = ((g, o2), es)"
  shows "same_but_published f g \<and> (\<forall>j. j \<notin> set ks \<longrightarrow> hm_get (cf_watches g) j = hm_get (cf_watches f) j)
    \<and> ((\<forall>s e n. fst (reserve s e n)) \<and> distinct ks \<longrightarrow>
        (\<forall>k \<in> set ks. \<forall>w. hm_get (cf_watches g) k = Some w \<longrightarrow> w_published w = current_names f k w))"
  using assms
proof (induction ks arbitrary: f o1 ds)
  case Nil
  then show ?case by (simp add: same_but_published_def)
next
  case (Cons k ks)
  obtain f' o' ds' where one: "publish_one reserve k ((f, o1), ds) = ((f', o'), ds')" by (metis prod.collapse)
  note step = publish_one_step[OF Cons.prems(1) one]
  have inv: "hm_inv (cf_watches f')" using step(1) by (simp add: same_but_published_def)
  have names: "current_names f' j w = current_names f j w" for j w
    using step(1) by (simp add: current_names_def present_names_def same_but_published_def)
  have "fold (publish_one reserve) ks ((f', o'), ds') = ((g, o2), es)" using Cons.prems(2) by (simp add: one)
  note rest = Cons.IH[OF inv this, unfolded names]
  have "same_but_published f g" using step(1) rest by (auto simp: same_but_published_def)
  then show ?case using rest step(2,3) by (auto simp: names)
qed

lemma publish_names_step:
  assumes "hm_inv (cf_watches f)" "publish_names reserve (f, o1) = ((g, o2), ds)"
  shows "same_but_published f g"
    "(\<And>s e n. fst (reserve s e n)) \<Longrightarrow> cf_names_revision f \<noteq> cf_published_revision f \<Longrightarrow>
      hm_get (cf_watches g) k = Some w \<Longrightarrow> w_published w = current_names f k w"
proof -
  let ?f = "f\<lparr>cf_published_revision := cf_names_revision f\<rparr>"
  have names: "current_names ?f = current_names f" by (simp add: current_names_def present_names_def fun_eq_iff)
  have d: "distinct (hm_keys (cf_watches f))" "set (hm_keys (cf_watches f)) = dom (hm_get (cf_watches f))"
    using assms(1) hm.distinct_keys hm.set_keys by blast+
  show "same_but_published f g"
    using assms publish_fold_step[of ?f reserve "hm_keys (cf_watches f)" o1 "[]" g o2 ds]
    by (auto simp: publish_names_def Let_def same_but_published_def split: if_splits)
  show "w_published w = current_names f k w" if "\<And>s e n. fst (reserve s e n)"
    "cf_names_revision f \<noteq> cf_published_revision f" "hm_get (cf_watches g) k = Some w"
  proof (cases "cf_watches f = []")
    case True
    then show ?thesis using assms(2) that by (auto simp: publish_names_def Let_def)
  next
    case False
    then have run: "fold (publish_one reserve) (hm_keys (cf_watches f)) ((?f, o1), []) = ((g, o2), ds)"
      using assms(2) that(2) by (simp add: publish_names_def Let_def)
    have "hm_inv (cf_watches ?f)" using assms(1) by simp
    note r = publish_fold_step[OF this run, unfolded names]
    have "k \<in> set (hm_keys (cf_watches f))"
      using same_but_published_dom[OF conjunct1[OF r]] that(3) by (auto simp: d(2))
    then show ?thesis using r that d(1) by blast
  qed
qed

text \<open>What publishing owes the holder of a watch: the current names, when the last list told differs.\<close>

definition watch_news :: "fabric \<Rightarrow> channel_key \<Rightarrow> delivery list" where
  "watch_news f k = (case hm_get (cf_watches f) k of None \<Rightarrow> []
     | Some w \<Rightarrow> if w_published w = current_names f k w then []
         else [(plain_delivery (key_endpoint k) (current_names f k w))\<lparr>d_outbox := Some (length (current_names f k w))\<rparr>])"

lemma publish_one_news:
  assumes "hm_inv (cf_watches f)" "\<And>s e n. fst (reserve s e n)"
    and "publish_one reserve k ((f, o1), ds) = ((g, o2), es)"
  shows "es = ds @ watch_news f k" "j \<noteq> k \<Longrightarrow> watch_news g j = watch_news f j"
proof -
  show "es = ds @ watch_news f k"
    using assms(2,3) by (auto simp: publish_one_def watch_news_def current_names_def Let_def split_def
      split: option.splits if_splits)
  note step = publish_one_step[OF assms(1,3)]
  have "current_names g j w = current_names f j w" for w
    using step(1) by (simp add: current_names_def present_names_def same_but_published_def)
  then show "watch_news g j = watch_news f j" if "j \<noteq> k"
    using step(2)[OF that] by (simp add: watch_news_def split: option.split)
qed

lemma publish_fold_news:
  assumes "hm_inv (cf_watches f)" "\<And>s e n. fst (reserve s e n)" "distinct ks"
    and "fold (publish_one reserve) ks ((f, o1), ds) = ((g, o2), es)"
  shows "es = ds @ concat (map (watch_news f) ks)"
  using assms(1,3,4)
proof (induction ks arbitrary: f o1 ds)
  case (Cons k ks)
  obtain f' o' ds' where one: "publish_one reserve k ((f, o1), ds) = ((f', o'), ds')" by (metis prod.collapse)
  note news = publish_one_news[OF Cons.prems(1) assms(2) one]
  have "hm_inv (cf_watches f')" using publish_one_step(1)[OF Cons.prems(1) one] by (simp add: same_but_published_def)
  from Cons.IH[OF this, of o' ds'] have "es = ds' @ concat (map (watch_news f') ks)"
    using Cons.prems(2,3) by (simp add: one)
  moreover have "map (watch_news f') ks = map (watch_news f) ks"
    using Cons.prems(2) by (intro map_cong refl news(2)) auto
  ultimately show ?case using news(1) by simp
qed simp

lemma publish_names_news:
  assumes "hm_inv (cf_watches f)" "\<And>s e n. fst (reserve s e n)" "cf_names_revision f \<noteq> cf_published_revision f"
    and "publish_names reserve (f, o1) = ((g, o2), ds)"
  shows "ds = concat (map (watch_news f) (hm_keys (cf_watches f)))"
proof (cases "cf_watches f = []")
  case True
  then show ?thesis using assms(4) by (simp add: publish_names_def hm_keys_def)
next
  case False
  let ?f = "f\<lparr>cf_published_revision := cf_names_revision f\<rparr>"
  have "fold (publish_one reserve) (hm_keys (cf_watches f)) ((?f, o1), []) = ((g, o2), ds)"
    using assms(3,4) False by (simp add: publish_names_def Let_def)
  moreover have "watch_news ?f = watch_news f"
  proof -
    have "current_names ?f k w = current_names f k w" for k w by (simp add: current_names_def present_names_def)
    then show ?thesis by (simp add: watch_news_def fun_eq_iff split: option.split)
  qed
  moreover have "distinct (hm_keys (cf_watches f))" using assms(1) hm.distinct_keys by blast
  ultimately show ?thesis using publish_fold_news[of ?f reserve "hm_keys (cf_watches f)" o1 "[]" g o2 ds] assms(1,2) by simp
qed

subsection \<open>Departure\<close>

lemma depart_handle_handles:
  assumes "fabric_inv f"
  shows "handles_of (fst (depart_handle e k (f, ds))) \<subseteq>\<^sub>m handles_of f"
    "handles_of (fst (depart_handle e k (f, ds))) k = None"
    "cf_listeners (fst (depart_handle e k (f, ds))) = cf_listeners f"
    "cf_watches (fst (depart_handle e k (f, ds))) = cf_watches f"
proof -
  let ?g = "fst (depart_handle e k (f, ds))"
  have "handles_of ?g \<subseteq>\<^sub>m handles_of f \<and> handles_of ?g k = None
    \<and> cf_listeners ?g = cf_listeners f \<and> cf_watches ?g = cf_watches f"
  proof (cases "handles_of f k")
    case None
    then show ?thesis by (simp add: depart_handle_def)
  next
    case (Some h)
    obtain ph where ph: "handles_of f (h_peer h) = Some ph"
      using pairedD[OF fabric_inv_parts(4)[OF assms] Some] by blast
    let ?a = "clone_slot (h_slot ph) (clone_pair (h_pair h) f)"
    have a: "fabric_inv ?a" "handles_of ?a k = Some h" using assms Some by (simp_all add: fabric_steps core_simps)
    have inv: "hm_inv (cf_handles f)" using fabric_inv_parts(1)[OF assms] by (simp add: stores_ok_def)
    have "core ?a = core f" by (simp add: core_simps)
    note af = core_cong_fields[OF this]
    note rf = core_cong_fields[OF core_remove_pair[OF a]]
    have drop: "cf_handles (drop_slot s (drop_pair t g)) = cf_handles g"
      "cf_listeners (drop_slot s (drop_pair t g)) = cf_listeners g"
      "cf_watches (drop_slot s (drop_pair t g)) = cf_watches g" for s t g
      using core_cong_fields[of "drop_slot s (drop_pair t g)" g] by (simp_all add: core_simps)
    have "handles_of (remove_pair k ?a) = (handles_of f)(k := None, h_peer h := None)"
      "cf_listeners (remove_pair k ?a) = cf_listeners f" "cf_watches (remove_pair k ?a) = cf_watches f"
      using rf af inv by (simp_all add: hm_simps)
    then show ?thesis
      using Some ph by (auto simp: depart_handle_def Let_def drop begin_drain_def map_le_def)
  qed
  then show "handles_of ?g \<subseteq>\<^sub>m handles_of f" "handles_of ?g k = None" "cf_listeners ?g = cf_listeners f"
    "cf_watches ?g = cf_watches f" by simp_all
qed

lemma depart_fold_handles:
  "fabric_inv f \<Longrightarrow> fold (depart_handle e) ks (f, ds) = (g, es) \<Longrightarrow>
    handles_of g \<subseteq>\<^sub>m handles_of f \<and> (\<forall>k \<in> set ks. handles_of g k = None)
    \<and> cf_listeners g = cf_listeners f \<and> cf_watches g = cf_watches f"
proof (induction ks arbitrary: f ds)
  case (Cons k ks)
  obtain f' ds' where one: "depart_handle e k (f, ds) = (f', ds')" by (metis prod.collapse)
  note step = depart_handle_handles[OF Cons.prems(1), of e k ds, unfolded one fst_conv]
  have "fabric_inv f'" using inv_depart_handle[OF Cons.prems(1), of e k ds] by (simp add: one)
  from Cons.IH[OF this] have rest: "handles_of g \<subseteq>\<^sub>m handles_of f' \<and> (\<forall>k \<in> set ks. handles_of g k = None)
    \<and> cf_listeners g = cf_listeners f' \<and> cf_watches g = cf_watches f'"
    using Cons.prems(2) by (simp add: one)
  have gone: "handles_of g k = None"
  proof (rule ccontr)
    assume "handles_of g k \<noteq> None"
    then show False using rest step(2) by (auto simp: map_le_def dom_def)
  qed
  have "handles_of g \<subseteq>\<^sub>m handles_of f" using map_le_trans[OF conjunct1[OF rest] step(1)] .
  then show ?case using rest step gone by simp
qed simp

lemma fold_remove_listener:
  "hm_inv (cf_listeners f) \<Longrightarrow> hm_get (cf_listeners (fold remove_listener ks f)) k
      = (if k \<in> set ks then None else hm_get (cf_listeners f) k)
    \<and> cf_handles (fold remove_listener ks f) = cf_handles f \<and> cf_watches (fold remove_listener ks f) = cf_watches f"
proof (induction ks arbitrary: f)
  case (Cons j ks)
  have one: "hm_inv (cf_listeners (remove_listener j f))" "cf_handles (remove_listener j f) = cf_handles f"
    "cf_watches (remove_listener j f) = cf_watches f"
    "hm_get (cf_listeners (remove_listener j f)) = (hm_get (cf_listeners f))(j := None)"
    using Cons.prems by (auto simp: remove_listener_def hm_simps split: option.split)
  show ?case using Cons.IH[OF one(1)] one by auto
qed simp

lemma close_endpoint_tables:
  assumes "fabric_inv f" "close_endpoint reserve e (f, o1) = ((g, o2), ds)"
  shows "fabric_inv g" "handles_of g \<subseteq>\<^sub>m handles_of f"
    "key_endpoint k = e \<Longrightarrow> hm_get (cf_listeners g) k = None \<and> handles_of g k = None \<and> hm_get (cf_watches g) k = None"
    "key_endpoint k \<noteq> e \<Longrightarrow> hm_get (cf_listeners g) k = hm_get (cf_listeners f) k"
proof -
  define f1 where "f1 = f\<lparr>cf_peer_names := hm_remove e (cf_peer_names f),
      cf_watches := hm_retain (\<lambda>k. key_endpoint k \<noteq> e) (cf_watches f)\<rparr>"
  define f2 where "f2 = fold remove_listener (filter (\<lambda>k. key_endpoint k = e) (hm_keys (cf_listeners f1))) f1"
  have f1: "cf_listeners f1 = cf_listeners f" "cf_handles f1 = cf_handles f"
    "cf_watches f1 = hm_retain (\<lambda>k. key_endpoint k \<noteq> e) (cf_watches f)" by (simp_all add: f1_def)
  obtain f3 es where f3: "fold (depart_handle e) (filter (\<lambda>k. key_endpoint k = e) (hm_keys (cf_handles f2))) (f2, [])
    = (f3, es)" by (metis prod.collapse)
  obtain g' o2' es' where pub: "publish_names reserve (f3, o1) = ((g', o2'), es')" by (metis prod.collapse)
  have g: "g = g'" using assms(2) f3 pub by (simp add: close_endpoint_def Let_def split_def f2_def f1_def)
  show "fabric_inv g" using inv_close_endpoint[OF assms(1), of reserve e o1] assms(2) by simp
  note st = fabric_inv_parts(1)[OF assms(1), unfolded stores_ok_def]
  have l: "hm_get (cf_listeners f2) k = (if k \<in> set (hm_keys (cf_listeners f)) \<and> key_endpoint k = e then None
      else hm_get (cf_listeners f) k)" "cf_handles f2 = cf_handles f" "cf_watches f2 = cf_watches f1" for k
    using fold_remove_listener[of f1 "filter (\<lambda>k. key_endpoint k = e) (hm_keys (cf_listeners f1))" k] st
    by (simp_all add: f1 f2_def)
  have inv2: "fabric_inv f2" unfolding f2_def f1_def by (rule inv_remove_listeners[OF inv_forget_endpoint[OF assms(1)]])
  note d = depart_fold_handles[OF inv2 f3]
  have "fabric_inv f3" using inv_depart_fold[of "(f2, [])" e] inv2 f3 by (metis fst_conv)
  then have "hm_inv (cf_watches f3)" using fabric_inv_parts(1) by (simp add: stores_ok_def)
  note p = publish_names_step(1)[OF this pub]
  have lg: "cf_listeners g' = cf_listeners f3"
    using lconf_listeners[OF lconf_publish[of reserve f3 o1]] by (simp add: pub)
  have hg: "cf_handles g' = cf_handles f3" using p by (simp add: same_but_published_def)
  note h2 = l(2)
  show "handles_of g \<subseteq>\<^sub>m handles_of f" using d by (simp add: g hg h2)
  show "hm_get (cf_listeners g) k = hm_get (cf_listeners f) k" if "key_endpoint k \<noteq> e"
    using l st d that by (simp add: g lg)
  assume k: "key_endpoint k = e"
  have "hm_get (cf_listeners f2) k = None"
    using l st k hm.set_keys[of "cf_listeners f"] by (auto simp: dom_def)
  moreover have "handles_of f3 k = None"
  proof (rule ccontr)
    assume ne: "handles_of f3 k \<noteq> None"
    then have "handles_of f k \<noteq> None" using d h2 by (auto simp: map_le_def dom_def)
    then have "k \<in> set (filter (\<lambda>k. key_endpoint k = e) (hm_keys (cf_handles f2)))"
      using st k hm.set_keys[of "cf_handles f"] by (simp add: h2 dom_def)
    then show False using ne bspec[OF conjunct1[OF conjunct2[OF d]]] by simp
  qed
  moreover have "hm_get (cf_watches g') k = None"
  proof -
    have "hm_get (cf_watches f3) k = None" using d l st k f1 by (simp add: hm_get_retain)
    then show ?thesis using same_but_published_dom[OF p] by (metis domIff)
  qed
  ultimately show "hm_get (cf_listeners g) k = None \<and> handles_of g k = None \<and> hm_get (cf_watches g) k = None"
    using d by (simp add: g lg hg)
qed

end
