(* ===== verification/Channel_Demo.thy ===== *)
theory Channel_Demo
  imports Channel_Effects
begin

text \<open>
  A short run of the fabric that the witnesses evaluate: endpoint 1 listens on a name, endpoint 2
  connects to it, sends data, and endpoint 1 acknowledges.
\<close>

definition demo_reserve :: "unit \<Rightarrow> u64 \<Rightarrow> nat \<Rightarrow> bool \<times> unit" where
  "demo_reserve o1 e n = (True, o1)"

definition demo_f0 :: fabric where
  "demo_f0 = fabric_new True default_limits 7"

definition demo_listen :: bytes where
  "demo_listen = the (build_request (Listen 2 [97] []))"

definition demo_connect :: bytes where
  "demo_connect = the (build_request (Connect 4 [97] [] None))"

lemma name_ok_a: "name_ok [97]"
proof -
  have "utf8_valid [97]" by code_simp
  moreover have "utf8_chars [97] = [[97]]" by code_simp
  moreover have "\<not> char_is_control [97]" by code_simp
  ultimately show ?thesis by (simp add: name_ok_def CHANNEL_MAX_NAME_def)
qed

lemma demo_parse:
  "parse_channel_request demo_listen = Inr (Some (Listen 2 [97] []))"
  "parse_channel_request demo_connect = Inr (Some (Connect 4 [97] [] None))"
  using name_ok_a
  by (simp_all add: parse_request_iff demo_listen_def demo_connect_def msg_channel_listen_def msg_channel_connect_def
    msg_channel_open_def isl_decode_name CHANNEL_MAX_METADATA_def)

lemma demo_header:
  "channel_header demo_listen = Inr (CHANNEL_LISTEN, 2, drop 6 demo_listen)"
  "channel_header demo_connect = Inr (CHANNEL_CONNECT, 4, drop 6 demo_connect)"
  using name_ok_a
  by (simp_all add: channel_header_iff demo_listen_def demo_connect_def msg_channel_listen_def msg_channel_connect_def
    msg_channel_open_def isl_decode_name CHANNEL_MAX_METADATA_def envelope_def length_wle)

definition demo_listener :: listener where
  "demo_listener = \<lparr>l_name = [97], l_metadata = [], l_token = token_at 7 1\<rparr>"

definition demo_f1 :: fabric where
  "demo_f1 = demo_f0\<lparr>cf_next_listener_generation := 2, cf_names_revision := 1, cf_published_revision := 1,
     cf_listener_names := [([97], Key 1 2)], cf_listeners := [(Key 1 2, demo_listener)]\<rparr>"

lemmas demo_eval = demo_reserve_def key_is_live_def hm_get_def hm_insert_def hm_keys_def

lemma demo_step1: "handle_packet demo_reserve 1 demo_listen (demo_f0, ())
  = ((demo_f1, ()), [(opened 1 2 STATUS_OK [])\<lparr>d_outbox := Some (length (d_packet (opened 1 2 STATUS_OK [])))\<rparr>])"
  unfolding handle_packet_def prod.case demo_header demo_parse sum.case option.case
  by (simp add: handle_reserved_def apply_request_def listen_def Let_def demo_eval publish_names_def demo_f1_def
    demo_f0_def fabric_new_def default_limits_def listener_count_def listener_token_of_def demo_listener_def
    token_at_def)

definition demo_f2 :: fabric where
  "demo_f2 = demo_f1\<lparr>cf_next_server_id := [(1, 3)],
     cf_handles := [(Key 2 4, new_handle (Key 1 1) 2 0), (Key 1 1, new_handle (Key 2 4) 2 1)],
     cf_endpoint_slots := [(2, 1), (1, 1)], cf_active_pairs := 1, cf_reserved_window := PAIR_WINDOW,
     cf_pair_refs := [(2, 4)], cf_slot_refs := [(0, 2, 2), (1, 1, 2)], cf_next_ref := 3\<rparr>"

definition demo_ds2 :: "delivery list" where
  "demo_ds2 = [\<lparr>d_endpoint = 2, d_packet = opened_packet demo_f1 4 (Key 1 2), d_pair = Some 2, d_slot = Some 0,
      d_drain = None, d_outbox = Some (length (opened_packet demo_f1 4 (Key 1 2)))\<rparr>,
    \<lparr>d_endpoint = 1, d_packet = accepted_packet demo_f1 2 1 (Key 1 2) [], d_pair = Some 2, d_slot = Some 1,
      d_drain = None, d_outbox = Some (length (accepted_packet demo_f1 2 1 (Key 1 2) []))\<rparr>]"

lemma demo_candidate: "server_id_candidate demo_f1 1 = Some (1, 3)"
  by (simp add: server_id_candidate_def server_id_candidate_from.simps demo_f1_def demo_f0_def fabric_new_def demo_eval)

lemma demo_reservation: "reserve_pair 2 1 demo_f1 = (demo_f1\<lparr>cf_endpoint_slots := [(2, 1), (1, 1)],
    cf_active_pairs := 1, cf_reserved_window := PAIR_WINDOW, cf_pair_refs := [(2, 1)],
    cf_slot_refs := [(0, 2, 1), (1, 1, 1)], cf_next_ref := 3\<rparr>, Inr (2, 0, 1))"
  by (simp add: reserve_pair_def reserve_handle_slots_def slot_count_def new_slot_def new_pair_def Let_def demo_eval
    demo_f1_def demo_f0_def fabric_new_def default_limits_def PAIR_WINDOW_def CHANNEL_WINDOW_BYTES_def)

lemma demo_clone:
  "hm_get (cf_pair_refs f) t = Some n \<Longrightarrow> clone_pair t f = f\<lparr>cf_pair_refs := hm_insert t (n + 1) (cf_pair_refs f)\<rparr>"
  "hm_get (cf_slot_refs f) s = Some (e, n) \<Longrightarrow>
    clone_slot s f = f\<lparr>cf_slot_refs := hm_insert s (e, n + 1) (cf_slot_refs f)\<rparr>"
  by (simp_all add: clone_pair_def clone_slot_def)

lemma demo_idle: "cf_handles demo_f1 = []" "cf_next_server_id demo_f1 = []"
  by (simp_all add: demo_f1_def demo_f0_def fabric_new_def)

lemma demo_step2: "handle_packet demo_reserve 2 demo_connect (demo_f1, ()) = ((demo_f2, ()), demo_ds2)"
proof -
  have live: "\<not> key_is_live demo_f1 (Key 2 4)"
    by (simp add: demo_eval demo_f1_def demo_f0_def fabric_new_def)
  have name: "hm_get (cf_listener_names demo_f1) [97] = Some (Key 1 2)"
    by (simp add: demo_eval demo_f1_def demo_f0_def fabric_new_def)
  let ?g = "fst (reserve_pair 2 1 demo_f1)"
  have commit: "commit_pair (Key 2 4) (Key 1 1) 3 (2, 0, 1) (opened_packet demo_f1 4 (Key 1 2))
      (accepted_packet demo_f1 2 1 (Key 1 2) []) ?g = (demo_f2, demo_ds2)"
    unfolding demo_reservation fst_conv commit_pair_def prod.case Let_def[of "_\<lparr>cf_next_server_id := _\<rparr>"]
    unfolding Let_def
    by (simp add: demo_clone hm_get_def hm_insert_def demo_f2_def demo_ds2_def demo_idle)
  have adm: "admit_notifications demo_reserve 2 4 1 m n (?g, ()) = ((?g, ()), Inr ())" for m n
    by (simp add: admit_notifications_def demo_reserve_def)
  have res: "reserve_pair 2 1 demo_f1 = (?g, Inr (2, 0, 1))" by (simp add: demo_reservation)
  have conn: "connect demo_reserve 2 4 [97] [] None (demo_f1, ()) = ((demo_f2, ()), demo_ds2)"
    using connect_success[OF live name disjI1[OF refl], of 1 3 ?g "(2, 0, 1)" demo_reserve "[]" "()" "()"]
      demo_candidate res adm commit by simp
  have "publish_names demo_reserve (demo_f2, ()) = ((demo_f2, ()), [])"
    by (simp add: publish_names_def demo_f2_def demo_f1_def demo_f0_def fabric_new_def)
  moreover have "cf_enabled demo_f1 \<and> \<not> cf_shutting_down demo_f1"
    by (simp add: demo_f1_def demo_f0_def fabric_new_def)
  ultimately show ?thesis
    unfolding handle_packet_def prod.case demo_header demo_parse sum.case option.case
    by (simp add: handle_reserved_def apply_request_def conn)
qed

text \<open>The three states are reachable.\<close>

lemma demo_reach0: "reachable demo_reserve demo_f0 ((demo_f0, ()), [])"
  by (rule reachable.start)

lemma demo_reach1: "reachable demo_reserve demo_f0 ((demo_f1, ()),
  [(opened 1 2 STATUS_OK [])\<lparr>d_outbox := Some (length (d_packet (opened 1 2 STATUS_OK [])))\<rparr>])"
  using reachable.step[OF demo_reach0 fabric_step.packet[OF demo_step1]] by simp

lemma demo_quiet1: "reachable demo_reserve demo_f0 ((demo_f1, ()), [])"
proof -
  have none: "drop_delivery ((opened 1 2 STATUS_OK [])\<lparr>d_outbox := Some n\<rparr>) demo_f1 = demo_f1" for n
    by (simp add: drop_delivery_def opened_def opened_with_drain_def plain_delivery_def opt_do_def)
  show ?thesis
    using reachable.step[OF demo_reach1 fabric_step.written[of demo_reserve demo_f1 "()" "[]" _ "[]" "()", simplified]]
    by (simp add: none)
qed

lemma demo_reach2: "reachable demo_reserve demo_f0 ((demo_f2, ()), demo_ds2)"
  using reachable.step[OF demo_quiet1 fabric_step.packet[OF demo_step2]] by simp

end
