(* ===== verification/Channel_Properties.thy ===== *)
theory Channel_Properties
  imports Channel_Demo
begin

text \<open>
  The properties of the named channels: the codec, the invariants and budgets of every reachable
  server state, and what each operation does to the two ends of a channel.
\<close>

subsection \<open>Codec\<close>

text \<open>
  The request codec is exact.  A packet decodes to a request exactly when it is the encoding of
  that request: the parser accepts no second spelling, and loses nothing.
\<close>

lemma request_codec_exact:
  "parse_channel_request packet = Inr (Some request) \<longleftrightarrow> build_request request = Some packet \<and> request_typed request"
  by (rule parse_request_iff)

text \<open>
  The message codec is exact.  The same for the packets the server sends: what a client decodes
  is what the server encoded, for every kind.
\<close>

lemma message_codec_exact:
  "parse_channel_message packet = Inr (Some m) \<longleftrightarrow> build_message m = Some packet \<and> message_typed m"
  by (rule parse_message_iff)

text \<open>
  C9.  The channel codec is exact.  A packet decodes to a request exactly when it is the encoding of that
  request, and to a server message exactly when it is the encoding of that message: neither parser
  accepts a second spelling, and nothing is lost.
\<close>

theorem channel_codec_exact:
  "(parse_channel_request packet = Inr (Some request) \<longleftrightarrow> build_request request = Some packet \<and> request_typed request)
    \<and> (parse_channel_message packet = Inr (Some m) \<longleftrightarrow> build_message m = Some packet \<and> message_typed m)"
  using request_codec_exact message_codec_exact by blast

subsection \<open>Every reachable state\<close>

lemma reachable_parts:
  assumes "reachable reserve (fabric_new en lim boot) ((f, o1), q)"
  shows "fabric_inv f" "accounts f (with_pairs q (\<lambda>t. 0)) (with_slots q (\<lambda>s. 0))" "queue_ok f q"
    "cf_limits f = lim" "stamped f"
  using reachable_ok[OF assms] reachable_sound[OF assms] by (simp_all add: system_ok_def config_def)

lemma set_drains: "set (drains q) = {k. \<exists>d \<in> set q. d_drain d = Some k}"
  by (induction q) (auto split: option.splits)

lemma demo_reachable: "reachable demo_reserve (fabric_new True default_limits 7) ((demo_f2, ()), demo_ds2)"
  using demo_reach2 by (simp add: demo_f0_def)

text \<open>
  Nothing leaks.  Once every queued packet has left and no handle is connected, all
  reservations are back: no pair is charged, no window byte is reserved, every endpoint has all its
  slots, and no channel id is held back.
\<close>

lemma reservations_released:
  assumes "reachable reserve (fabric_new en lim boot) ((f, o1), [])" and "\<forall>k. hm_get (cf_handles f) k = None"
  shows "cf_active_pairs f = 0 \<and> cf_reserved_window f = 0 \<and> slot_count f e = 0 \<and> cf_draining f = {}"
  using idle_releases[OF _ assms(2)] reachable_parts(2,3)[OF assms(1)]
  by (simp add: with_Nil queue_ok_def)

lemma reservations_released_example:
  "cf_active_pairs demo_f1 = 0 \<and> cf_reserved_window demo_f1 = 0 \<and> slot_count demo_f1 1 = 0 \<and> cf_draining demo_f1 = {}"
  by (rule reservations_released[OF demo_quiet1[unfolded demo_f0_def]]) (simp add: demo_idle)

text \<open>
  C10.  The budgets hold.  Whatever clients send and in whatever order queued packets leave, the
  number of connected pairs, the reserved window bytes and the live handles of every endpoint stay
  within the configured limits, and each connected pair is charged exactly its window.  And nothing
  leaks: with every queued packet gone and no handle connected, all reservations and ids are back.
\<close>

theorem budgets_hold:
  assumes "reachable reserve (fabric_new en lim boot) ((f, o1), q)"
  shows "cf_active_pairs f \<le> lim_connected_pairs lim \<and> cf_reserved_window f \<le> lim_buffer_bytes lim
    \<and> cf_reserved_window f = PAIR_WINDOW * cf_active_pairs f
    \<and> card (live_handles f e) \<le> lim_handles_per_client lim
    \<and> (q = [] \<and> (\<forall>k. hm_get (cf_handles f) k = None)
        \<longrightarrow> cf_active_pairs f = 0 \<and> cf_reserved_window f = 0 \<and> slot_count f e = 0 \<and> cf_draining f = {})"
proof -
  note acc = reachable_parts(2)[OF assms]
  have lim: "within_budget f" "pairs_account f (with_pairs q (\<lambda>t. 0))" using acc by (simp_all add: accounts_def)
  have "card (live_handles f e) \<le> slot_count f e" using acc by (rule live_handles_budget)
  also have "\<dots> \<le> lim_handles_per_client (cf_limits f)" using lim(1) by (simp add: within_budget_def)
  finally have "card (live_handles f e) \<le> lim_handles_per_client lim" using reachable_parts(4)[OF assms] by simp
  then show ?thesis
    using lim reachable_parts(4)[OF assms] reservations_released[of reserve en lim boot f o1 e] assms
    by (auto simp: within_budget_def pairs_account_def)
qed

theorem budgets_hold_witness:
  "cf_active_pairs demo_f2 = 1 \<and> cf_reserved_window demo_f2 = PAIR_WINDOW * cf_active_pairs demo_f2
    \<and> card (live_handles demo_f2 1) \<le> 64 \<and> cf_draining demo_f1 = {}"
  using budgets_hold[OF demo_reachable, of 1] budgets_hold[OF demo_quiet1[unfolded demo_f0_def], of 1]
  by (simp add: default_limits_def demo_f2_def demo_idle)

text \<open>
  C11.  Channels are symmetric and within their windows.  A connected handle's peer is connected back
  to it under the same reservation; a sender is never more than the window ahead of what was
  acknowledged, holds at most the allowed number of unconsumed messages, and its message boundaries
  increase strictly from the acknowledged to the sent count.
\<close>

theorem channels_symmetric:
  assumes "reachable reserve (fabric_new en lim boot) ((f, o1), q)" and "hm_get (cf_handles f) k = Some h"
  shows "h_peer h \<noteq> k \<and> (\<exists>p. hm_get (cf_handles f) (h_peer h) = Some p \<and> h_peer p = k \<and> h_pair p = h_pair h)
    \<and> h_acked h \<le> h_sent h \<and> h_sent h \<le> h_acked h + CHANNEL_WINDOW_BYTES
    \<and> length (h_bounds h) \<le> CHANNEL_MAX_UNCONSUMED_MESSAGES
    \<and> sorted_wrt (<) (h_bounds h) \<and> (\<forall>b \<in> set (h_bounds h). h_acked h < b \<and> b \<le> h_sent h)"
  using fabric_inv_parts(4)[OF reachable_parts(1)[OF assms(1)]] assms(2) by (auto simp: paired_def handle_ok_def)

theorem channels_symmetric_witness:
  "\<exists>p. hm_get (cf_handles demo_f2) (Key 1 1) = Some p \<and> h_peer p = Key 2 4 \<and> h_pair p = 2"
proof -
  have "hm_get (cf_handles demo_f2) (Key 2 4) = Some (new_handle (Key 1 1) 2 0)"
    by (simp add: demo_f2_def hm_get_def)
  from channels_symmetric[OF demo_reachable this] show ?thesis by (auto simp: new_handle_def)
qed

text \<open>
  Names and ids are exclusive.  The name registry lists exactly the listeners, so a name has at
  most one; a channel id is a listener, a handle, a watch or a draining id, never two of them; and no
  two listeners share a token.
\<close>

lemma names_and_ids_exclusive:
  assumes "reachable reserve (fabric_new en lim boot) ((f, o1), q)"
  shows "(hm_get (cf_listener_names f) n = Some k \<longleftrightarrow> (\<exists>l. hm_get (cf_listeners f) k = Some l \<and> l_name l = n))
    \<and> exclusive (hm_get (cf_listeners f)) (hm_get (cf_handles f)) (hm_get (cf_watches f)) (cf_draining f)
    \<and> (\<forall>j k l m. hm_get (cf_listeners f) j = Some l \<and> hm_get (cf_listeners f) k = Some m
         \<and> l_token l = l_token m \<longrightarrow> j = k)"
  using fabric_inv_parts(3,5)[OF reachable_parts(1)[OF assms]] reachable_parts(5)[OF assms]
  by (auto simp: registered_def stamped_def)

lemma names_and_ids_exclusive_example:
  "hm_get (cf_listener_names demo_f2) [97] = Some (Key 1 2) \<and> hm_get (cf_listeners demo_f2) (Key 1 2) \<noteq> None"
  using names_and_ids_exclusive[OF demo_reachable, of "[97]" "Key 1 2"]
  by (auto simp: demo_f2_def demo_f1_def hm_get_def)

text \<open>
  C13.  Every queued packet is one the client accepts.  Whatever the server emits, for whatever
  input, decodes as a channel message.
\<close>

theorem deliveries_readable:
  assumes "reachable reserve (fabric_new en lim boot) ((f, o1), q)" and "d \<in> set q"
  shows "\<exists>m. parse_channel_message (d_packet d) = Inr (Some m)"
  using reachable_parts(3)[OF assms(1)] assms(2) by (auto simp: queue_ok_def list_all_iff readable_def)

theorem deliveries_readable_witness:
  "\<exists>m. parse_channel_message (accepted_packet demo_f1 2 1 (Key 1 2) []) = Inr (Some m)"
  using deliveries_readable[OF demo_reachable, of "demo_ds2 ! 1"] by (simp add: demo_ds2_def)

text \<open>
  A channel id comes back exactly when its last packet has left.  While a queued packet drains an
  id, the id is taken and names nothing else, so the client sees the old channel end before a new one
  begins; an id is free as soon as no listener, handle, watch or queued packet has it.
\<close>

lemma id_blocked_until_written:
  assumes "reachable reserve (fabric_new en lim boot) ((f, o1), q)"
  shows "(key_is_live f k \<longleftrightarrow> hm_get (cf_listeners f) k \<noteq> None \<or> hm_get (cf_handles f) k \<noteq> None
      \<or> hm_get (cf_watches f) k \<noteq> None \<or> (\<exists>d \<in> set q. d_drain d = Some k))
    \<and> ((\<exists>d \<in> set q. d_drain d = Some k) \<longrightarrow> hm_get (cf_listeners f) k = None \<and> hm_get (cf_handles f) k = None
      \<and> hm_get (cf_watches f) k = None)"
proof -
  have dr: "(\<exists>d \<in> set q. d_drain d = Some k) \<longleftrightarrow> k \<in> cf_draining f"
    using reachable_parts(3)[OF assms] by (simp add: queue_ok_def set_drains)
  show ?thesis
    using fabric_inv_parts(5)[OF reachable_parts(1)[OF assms]] unfolding dr key_is_live_def
    by (auto simp: exclusive_def)
qed

lemma id_blocked_until_written_example: "key_is_live demo_f2 (Key 1 1) \<and> \<not> key_is_live demo_f2 (Key 1 3)"
  using id_blocked_until_written[OF demo_reachable, of "Key 1 1"]
    id_blocked_until_written[OF demo_reachable, of "Key 1 3"]
  by (simp add: demo_f2_def demo_f1_def demo_f0_def fabric_new_def hm_get_def demo_ds2_def)

text \<open>
  C12.  Names and ids are exclusive.  The name registry lists exactly the listeners, and no two listeners
  share a token.  A channel id is a listener, a handle, a watch or draining behind a queued packet, never
  two of them; it is taken exactly while it is one of them, so it comes back exactly when the last
  packet of its old channel has left, and the client sees the old channel end before a new one begins.
\<close>

theorem names_and_ids_managed:
  assumes "reachable reserve (fabric_new en lim boot) ((f, o1), q)"
  shows "(hm_get (cf_listener_names f) n = Some k \<longleftrightarrow> (\<exists>l. hm_get (cf_listeners f) k = Some l \<and> l_name l = n))
    \<and> exclusive (hm_get (cf_listeners f)) (hm_get (cf_handles f)) (hm_get (cf_watches f)) (cf_draining f)
    \<and> (\<forall>j k l m. hm_get (cf_listeners f) j = Some l \<and> hm_get (cf_listeners f) k = Some m
         \<and> l_token l = l_token m \<longrightarrow> j = k)
    \<and> (key_is_live f k \<longleftrightarrow> hm_get (cf_listeners f) k \<noteq> None \<or> hm_get (cf_handles f) k \<noteq> None
      \<or> hm_get (cf_watches f) k \<noteq> None \<or> (\<exists>d \<in> set q. d_drain d = Some k))
    \<and> ((\<exists>d \<in> set q. d_drain d = Some k) \<longrightarrow> hm_get (cf_listeners f) k = None \<and> hm_get (cf_handles f) k = None
      \<and> hm_get (cf_watches f) k = None)"
  using names_and_ids_exclusive[OF assms, of n k] id_blocked_until_written[OF assms, of k] by blast

theorem names_and_ids_managed_witness:
  "hm_get (cf_listener_names demo_f2) [97] = Some (Key 1 2) \<and> hm_get (cf_listeners demo_f2) (Key 1 2) \<noteq> None
    \<and> key_is_live demo_f2 (Key 1 1) \<and> \<not> key_is_live demo_f2 (Key 1 3)"
proof -
  have names: "hm_get (cf_listener_names demo_f2) [97] = Some (Key 1 2)
      \<longleftrightarrow> (\<exists>l. hm_get (cf_listeners demo_f2) (Key 1 2) = Some l \<and> l_name l = [97])"
    using names_and_ids_managed[OF demo_reachable, of "[97]" "Key 1 2"] by (rule conjunct1)
  have live: "key_is_live demo_f2 k \<longleftrightarrow> hm_get (cf_listeners demo_f2) k \<noteq> None \<or> hm_get (cf_handles demo_f2) k \<noteq> None
      \<or> hm_get (cf_watches demo_f2) k \<noteq> None \<or> (\<exists>d \<in> set demo_ds2. d_drain d = Some k)" for k
    using names_and_ids_managed[OF demo_reachable, of "[97]" k] by (elim conjE)
  show ?thesis
    unfolding live using names by (auto simp: demo_f2_def demo_f1_def demo_f0_def fabric_new_def hm_get_def demo_ds2_def)
qed

subsection \<open>Operations\<close>

lemma demo_fabric_inv: "fabric_inv demo_f1" "fabric_inv demo_f2"
  using reachable_parts(1)[OF demo_quiet1[unfolded demo_f0_def]] reachable_parts(1)[OF demo_reachable] by blast+

lemma demo_handles: "hm_get (cf_handles demo_f2) (Key 2 4) = Some (new_handle (Key 1 1) 2 0)"
  "hm_get (cf_handles demo_f2) (Key 1 1) = Some (new_handle (Key 2 4) 2 1)"
  by (simp_all add: demo_f2_def hm_get_def)

text \<open>
  C14.  A connect that passes every check connects the pair.  When the id is free, the name has a
  listener, the expected token is the listener's, an id is free on the listening side and the budgets
  have room, both handles appear, pointing at each other with nothing sent, and each side is told:
  the connector that the channel opened, with the listener's name and metadata, the listener that it
  was accepted, under a fresh odd id.
\<close>

theorem connect_establishes_pair:
  assumes "fabric_inv f" and "\<not> key_is_live f (Key e c)" and "hm_get (cf_listener_names f) name = Some lk"
    and "hm_get (cf_listeners f) lk = Some l" and "token = None \<or> token = Some (l_token l)"
    and "server_id_candidate f (key_endpoint lk) = Some (i, n)"
    and "slot_count f e + (if e = key_endpoint lk then 2 else 1) \<le> lim_handles_per_client (cf_limits f)"
    and "e \<noteq> key_endpoint lk \<Longrightarrow> slot_count f (key_endpoint lk) + 1 \<le> lim_handles_per_client (cf_limits f)"
    and "cf_active_pairs f < lim_connected_pairs (cf_limits f)"
    and "cf_reserved_window f + PAIR_WINDOW \<le> lim_buffer_bytes (cf_limits f)"
    and "cf_reserved_window f + PAIR_WINDOW < 2 ^ 64"
    and "\<And>s e n. fst (reserve s e n)" and "length metadata \<le> CHANNEL_MAX_METADATA"
  shows "\<exists>g o2 d1 d2 t cs as. connect reserve e c name metadata token (f, o1) = ((g, o2), [d1, d2])
    \<and> odd (unat i) \<and> \<not> key_is_live f (Key (key_endpoint lk) i)
    \<and> handles_of g = (handles_of f)(Key e c \<mapsto> new_handle (Key (key_endpoint lk) i) t cs,
        Key (key_endpoint lk) i \<mapsto> new_handle (Key e c) t as)
    \<and> says d1 e (Opened c STATUS_OK (word_of_nat CHANNEL_WINDOW_BYTES) (peer_name f (key_endpoint lk)) (l_metadata l) [])
    \<and> says d2 (key_endpoint lk) (Accepted i (key_channel lk) (word_of_nat CHANNEL_WINDOW_BYTES) (peer_name f e) metadata)"
proof -
  obtain g t cs as where g: "reserve_pair e (key_endpoint lk) f = (g, Inr (t, cs, as))" "core g = core f"
    using reserve_pair_admits[OF assms(7-11)] by blast
  let ?p = "opened_packet f c lk" and ?q = "accepted_packet f e i lk metadata"
  obtain o2 where adm: "admit_notifications reserve e c (key_endpoint lk) (length ?p) (length ?q) (g, o1) = ((g, o2), Inr ())"
    by (rule admit_all[OF assms(12)])
  have tok: "token = None \<or> token = Some (l_token (the (hm_get (cf_listeners f) lk)))" using assms(4,5) by simp
  note conn = connect_success[OF assms(2,3) tok assms(6) g(1) adm]
  have handles: "cf_handles g = cf_handles f" using core_cong_fields(3)[OF g(2)] .
  then have inv: "hm_inv (cf_handles g)" using fabric_inv_parts(1)[OF assms(1)] by (simp add: stores_ok_def)
  let ?r = "commit_pair (Key e c) (Key (key_endpoint lk) i) n (t, cs, as) ?p ?q g"
  have two: "snd ?r = [\<lparr>d_endpoint = e, d_packet = ?p, d_pair = Some t, d_slot = Some cs, d_drain = None,
      d_outbox = Some (length ?p)\<rparr>, \<lparr>d_endpoint = key_endpoint lk, d_packet = ?q, d_pair = Some t, d_slot = Some as,
      d_drain = None, d_outbox = Some (length ?q)\<rparr>]" by (simp add: commit_pair_def Let_def)
  show ?thesis
    using conn two commit_pair_handles[OF inv, of "Key e c" "Key (key_endpoint lk) i" n t cs as ?p ?q]
      server_id_candidate_spec[OF assms(1,6)] parse_opened_packet[OF assms(1,4)]
      parse_accepted_packet[OF assms(1,13)] by (auto simp: handles)
qed

theorem connect_establishes_pair_witness:
  "\<exists>g o2 d1 d2. connect demo_reserve 2 4 [97] [] None (demo_f1, ()) = ((g, o2), [d1, d2])
    \<and> says d2 1 (Accepted 1 2 (word_of_nat CHANNEL_WINDOW_BYTES) (peer_name demo_f1 2) [])"
proof -
  have facts: "\<not> key_is_live demo_f1 (Key 2 4)" "hm_get (cf_listener_names demo_f1) [97] = Some (Key 1 2)"
    "hm_get (cf_listeners demo_f1) (Key 1 2) = Some demo_listener"
    by (simp_all add: demo_eval demo_f1_def demo_f0_def fabric_new_def)
  have room: "slot_count demo_f1 2 + 1 \<le> lim_handles_per_client (cf_limits demo_f1)"
    "slot_count demo_f1 1 + 1 \<le> lim_handles_per_client (cf_limits demo_f1)"
    "cf_active_pairs demo_f1 < lim_connected_pairs (cf_limits demo_f1)"
    "cf_reserved_window demo_f1 + PAIR_WINDOW \<le> lim_buffer_bytes (cf_limits demo_f1)"
    "cf_reserved_window demo_f1 + PAIR_WINDOW < 2 ^ 64"
    by (simp_all add: demo_f1_def demo_f0_def fabric_new_def default_limits_def slot_count_def hm_get_def PAIR_WINDOW_def
      CHANNEL_WINDOW_BYTES_def)
  have out: "fst (demo_reserve s e n)" for s e n by (simp add: demo_reserve_def)
  have "\<exists>g o2 d1 d2 t cs as. connect demo_reserve 2 4 [97] [] None (demo_f1, ()) = ((g, o2), [d1, d2])
    \<and> odd (unat (1 :: u32)) \<and> \<not> key_is_live demo_f1 (Key (key_endpoint (Key 1 2)) 1)
    \<and> handles_of g = (handles_of demo_f1)(Key 2 4 \<mapsto> new_handle (Key (key_endpoint (Key 1 2)) 1) t cs,
        Key (key_endpoint (Key 1 2)) 1 \<mapsto> new_handle (Key 2 4) t as)
    \<and> says d1 2 (Opened 4 STATUS_OK (word_of_nat CHANNEL_WINDOW_BYTES) (peer_name demo_f1 (key_endpoint (Key 1 2)))
        (l_metadata demo_listener) [])
    \<and> says d2 (key_endpoint (Key 1 2)) (Accepted 1 (key_channel (Key 1 2)) (word_of_nat CHANNEL_WINDOW_BYTES)
        (peer_name demo_f1 2) [])"
    by (rule connect_establishes_pair[OF demo_fabric_inv(1) facts, where n = 3])
      (use room out demo_candidate in simp_all)
  then show ?thesis by auto
qed

text \<open>
  Data arrives unchanged.  A payload within the window is delivered to the other end, to the
  channel id it knows, byte for byte, and counts against the sender's window.
\<close>

lemma data_reaches_peer:
  assumes "fabric_inv f" and "hm_get (cf_handles f) (Key e c) = Some h" and "payload \<noteq> []"
    and "length payload \<le> CHANNEL_MAX_PAYLOAD" and "h_sent h + length payload \<le> h_acked h + CHANNEL_WINDOW_BYTES"
    and "h_acked h + CHANNEL_WINDOW_BYTES < 2 ^ 64" and "length (h_bounds h) < CHANNEL_MAX_UNCONSUMED_MESSAGES"
  shows "\<exists>g d. data e c payload f = (g, [d])
    \<and> says d (key_endpoint (h_peer h)) (MsgData (key_channel (h_peer h)) payload)
    \<and> handles_of g = (handles_of f)(Key e c \<mapsto> h\<lparr>h_sent := h_sent h + length payload,
        h_bounds := h_bounds h @ [h_sent h + length payload]\<rparr>)"
  by (rule data_sends[OF assms])

lemma data_reaches_peer_example:
  "\<exists>g d. data 2 4 [9, 8] demo_f2 = (g, [d]) \<and> says d 1 (MsgData 1 [9, 8])"
proof -
  let ?h = "new_handle (Key 1 1) 2 0"
  have "\<exists>g d. data 2 4 [9, 8] demo_f2 = (g, [d]) \<and> says d (key_endpoint (h_peer ?h)) (MsgData (key_channel (h_peer ?h)) [9, 8])
    \<and> handles_of g = (handles_of demo_f2)(Key 2 4 \<mapsto> ?h\<lparr>h_sent := h_sent ?h + length [9 :: u8, 8],
        h_bounds := h_bounds ?h @ [h_sent ?h + length [9 :: u8, 8]]\<rparr>)"
    by (rule data_reaches_peer[OF demo_fabric_inv(2) demo_handles(1)])
      (simp_all add: new_handle_def CHANNEL_MAX_PAYLOAD_def CHANNEL_WINDOW_BYTES_def CHANNEL_MAX_UNCONSUMED_MESSAGES_def)
  then show ?thesis by (auto simp: new_handle_def)
qed

text \<open>
  Breaking the window ends the channel for both.  A sender that exceeds what was acknowledged by
  more than the window loses the channel at once: both handles go, both ends are told it was a
  protocol violation, and both ids stay blocked until those packets have left.
\<close>

lemma window_violation_closes_both:
  assumes "fabric_inv f" and "hm_get (cf_handles f) (Key e c) = Some h"
    and "h_sent h + length payload > h_acked h + CHANNEL_WINDOW_BYTES" and "h_sent h + length payload < 2 ^ 64"
  shows "\<exists>g d1 d2 detail. data e c payload f = (g, [d1, d2])
    \<and> says d1 e (Closed c CHANNEL_CLOSE_PROTOCOL_VIOLATION detail)
    \<and> says d2 (key_endpoint (h_peer h)) (Closed (key_channel (h_peer h)) CHANNEL_CLOSE_PROTOCOL_VIOLATION detail)
    \<and> handles_of g = (handles_of f)(Key e c := None, h_peer h := None)
    \<and> cf_draining g = cf_draining f \<union> {Key e c, h_peer h}"
proof -
  let ?d = "ascii ''channel send window exceeded''"
  have "hm_get (cf_listeners f) (Key e c) = None"
    using fabric_inv_parts(5)[OF assms(1)] assms(2) by (auto simp: exclusive_def dom_def)
  then have "data e c payload f = protocol_violation e c ?d f"
    using assms(2-4) by (simp add: data_def Let_def not_le not_less)
  moreover have "detail_ok ?d" by (simp add: detail_ascii)
  ultimately show ?thesis using violation_closes_pair[OF assms(1,2), of ?d] by auto
qed

lemma window_violation_closes_both_example:
  "\<exists>g d1 d2 detail. data 2 4 (replicate 1048577 0) demo_f2 = (g, [d1, d2])
    \<and> says d2 1 (Closed 1 CHANNEL_CLOSE_PROTOCOL_VIOLATION detail)"
proof -
  let ?h = "new_handle (Key 1 1) 2 0" and ?p = "replicate 1048577 (0 :: u8)"
  have over: "h_sent ?h + length ?p > h_acked ?h + CHANNEL_WINDOW_BYTES" "h_sent ?h + length ?p < 2 ^ 64"
    by (simp_all add: new_handle_def CHANNEL_WINDOW_BYTES_def)
  show ?thesis
    using window_violation_closes_both[OF demo_fabric_inv(2) demo_handles(1) over] by (auto simp: new_handle_def)
qed

text \<open>
  An acknowledgement gives the window back.  When the receiver acknowledges a message boundary,
  the sender's acknowledged count moves there, the boundaries up to it are forgotten and the later ones
  kept, and the sender is told the new count.
\<close>

lemma ack_returns_window:
  assumes "fabric_inv f" and "hm_get (cf_handles f) (Key e c) = Some h" and "hm_get (cf_handles f) (h_peer h) = Some p"
    and "h_acked p \<le> unat n" and "unat n \<le> h_sent p" and "unat n = h_acked p \<or> unat n \<in> set (h_bounds p)"
  shows "\<exists>g d. ack e c n f = (g, [d])
    \<and> says d (key_endpoint (h_peer h)) (MsgAck (key_channel (h_peer h)) n)
    \<and> handles_of g = (handles_of f)(h_peer h \<mapsto> p\<lparr>h_acked := unat n,
        h_bounds := filter (\<lambda>b. unat n < b) (h_bounds p)\<rparr>)"
  by (rule ack_returns[OF assms])

definition demo_f3 :: fabric where
  "demo_f3 = fst (data 2 4 [9, 8] demo_f2)"

lemma demo_f3: "fabric_inv demo_f3"
  "handles_of demo_f3 = (handles_of demo_f2)(Key 2 4 \<mapsto> (new_handle (Key 1 1) 2 0)\<lparr>h_sent := 2, h_bounds := [2]\<rparr>)"
proof -
  show "fabric_inv demo_f3" unfolding demo_f3_def by (rule inv_data[OF demo_fabric_inv(2)]) simp
  show "handles_of demo_f3 = (handles_of demo_f2)(Key 2 4 \<mapsto> (new_handle (Key 1 1) 2 0)\<lparr>h_sent := 2, h_bounds := [2]\<rparr>)"
    using data_sends[OF demo_fabric_inv(2) demo_handles(1), of "[9, 8]"]
    by (simp add: demo_f3_def new_handle_def CHANNEL_MAX_PAYLOAD_def CHANNEL_WINDOW_BYTES_def
      CHANNEL_MAX_UNCONSUMED_MESSAGES_def) auto
qed

lemma ack_returns_window_example: "\<exists>g d. ack 1 1 2 demo_f3 = (g, [d]) \<and> says d 2 (MsgAck 4 2)"
proof -
  have h: "hm_get (cf_handles demo_f3) (Key 1 1) = Some (new_handle (Key 2 4) 2 1)"
    "hm_get (cf_handles demo_f3) (h_peer (new_handle (Key 2 4) 2 1))
      = Some ((new_handle (Key 1 1) 2 0)\<lparr>h_sent := 2, h_bounds := [2]\<rparr>)"
    using demo_handles(2) by (simp_all add: demo_f3(2) new_handle_def)
  have n: "unat (2 :: u64) = 2" by simp
  from ack_returns_window[OF demo_f3(1) h, of 2] show ?thesis by (simp add: n) (auto simp: new_handle_def)
qed

text \<open>
  C15.  The window of a channel.  A payload within the window is delivered to the other end byte for byte
  and counts against the sender's window; a sender that exceeds what was acknowledged by more than the
  window loses the channel at once, both handles gone, both ends told it was a protocol violation and
  both ids blocked until those packets have left; and when the receiver acknowledges a message
  boundary, the sender's acknowledged count moves there and it is told so.
\<close>

theorem channel_window_exact:
  assumes "fabric_inv f" and "hm_get (cf_handles f) (Key e c) = Some h"
  shows "(payload \<noteq> [] \<and> length payload \<le> CHANNEL_MAX_PAYLOAD \<and> h_sent h + length payload \<le> h_acked h + CHANNEL_WINDOW_BYTES
      \<and> h_acked h + CHANNEL_WINDOW_BYTES < 2 ^ 64 \<and> length (h_bounds h) < CHANNEL_MAX_UNCONSUMED_MESSAGES
      \<longrightarrow> (\<exists>g d. data e c payload f = (g, [d]) \<and> says d (key_endpoint (h_peer h)) (MsgData (key_channel (h_peer h)) payload)
        \<and> handles_of g = (handles_of f)(Key e c \<mapsto> h\<lparr>h_sent := h_sent h + length payload,
            h_bounds := h_bounds h @ [h_sent h + length payload]\<rparr>)))
    \<and> (h_sent h + length payload > h_acked h + CHANNEL_WINDOW_BYTES \<and> h_sent h + length payload < 2 ^ 64
      \<longrightarrow> (\<exists>g d1 d2 detail. data e c payload f = (g, [d1, d2])
        \<and> says d1 e (Closed c CHANNEL_CLOSE_PROTOCOL_VIOLATION detail)
        \<and> says d2 (key_endpoint (h_peer h)) (Closed (key_channel (h_peer h)) CHANNEL_CLOSE_PROTOCOL_VIOLATION detail)
        \<and> handles_of g = (handles_of f)(Key e c := None, h_peer h := None)
        \<and> cf_draining g = cf_draining f \<union> {Key e c, h_peer h}))
    \<and> (hm_get (cf_handles f) (h_peer h) = Some p \<and> h_acked p \<le> unat n \<and> unat n \<le> h_sent p
        \<and> (unat n = h_acked p \<or> unat n \<in> set (h_bounds p))
      \<longrightarrow> (\<exists>g d. ack e c n f = (g, [d]) \<and> says d (key_endpoint (h_peer h)) (MsgAck (key_channel (h_peer h)) n)
        \<and> handles_of g = (handles_of f)(h_peer h \<mapsto> p\<lparr>h_acked := unat n, h_bounds := filter (\<lambda>b. unat n < b) (h_bounds p)\<rparr>)))"
proof (intro conjI impI)
qed (blast intro!: data_reaches_peer[OF assms] window_violation_closes_both[OF assms] ack_returns_window[OF assms])+

theorem channel_window_exact_witness:
  "(\<exists>g d. data 2 4 [9, 8] demo_f2 = (g, [d]) \<and> says d 1 (MsgData 1 [9, 8]))
    \<and> (\<exists>g d. ack 1 1 2 demo_f3 = (g, [d]) \<and> says d 2 (MsgAck 4 2))"
proof -
  have h: "hm_get (cf_handles demo_f3) (Key 1 1) = Some (new_handle (Key 2 4) 2 1)"
    "hm_get (cf_handles demo_f3) (h_peer (new_handle (Key 2 4) 2 1))
      = Some ((new_handle (Key 1 1) 2 0)\<lparr>h_sent := 2, h_bounds := [2]\<rparr>)"
    using demo_handles(2) by (simp_all add: demo_f3(2) new_handle_def)
  have n: "unat (2 :: u64) = 2" by simp
  show ?thesis
    using channel_window_exact[OF demo_fabric_inv(2) demo_handles(1), THEN conjunct1, of "[9, 8]"]
      channel_window_exact[OF demo_f3(1) h(1), THEN conjunct2, THEN conjunct2, of "(new_handle (Key 1 1) 2 0)\<lparr>h_sent := 2, h_bounds := [2]\<rparr>" 2] h(2)
    by (auto simp: n new_handle_def CHANNEL_MAX_PAYLOAD_def CHANNEL_WINDOW_BYTES_def CHANNEL_MAX_UNCONSUMED_MESSAGES_def)
qed

subsection \<open>Watches\<close>

text \<open>A packet that tells the holder of the watch \<open>k\<close> a list of names.\<close>

definition lists_for :: "channel_key \<Rightarrow> delivery \<Rightarrow> bool" where
  "lists_for k d \<longleftrightarrow> (\<exists>ns. says d (key_endpoint k) (Names (key_channel k) ns))"

lemma lists_for_unique: "lists_for j d \<Longrightarrow> lists_for k d \<Longrightarrow> j = k"
  by (cases j; cases k) (auto simp: lists_for_def)

lemma told_iff:
  assumes "fabric_inv f" "hm_get (cf_watches f) k = Some w"
  shows "parse_channel_message (current_names f k w) = Inr (Some (Names (key_channel k) (present_names f (w_names w))))"
    and "w_published w = current_names f k w
      \<longleftrightarrow> parse_channel_message (w_published w) = Inr (Some (Names (key_channel k) (present_names f (w_names w))))"
proof -
  have w: "watch_ok k w" using fabric_inv_parts(2)[OF assms(1)] assms(2) by (auto simp: fields_ok_def)
  then have "length (w_names w) \<le> CHANNEL_MAX_WATCH_NAMES" "\<forall>n \<in> set (w_names w). name_ok n"
    by (simp_all add: watch_ok_def)
  then obtain pk where "msg_channel_names (key_channel k) (present_names f (w_names w)) = Some pk"
    by (rule msg_names_present)
  then have cur: "msg_channel_names (key_channel k) (present_names f (w_names w)) = Some (current_names f k w)"
    by (simp add: current_names_def)
  then show "parse_channel_message (current_names f k w) = Inr (Some (Names (key_channel k) (present_names f (w_names w))))"
    by (simp add: parse_message_iff)
  then show "w_published w = current_names f k w
      \<longleftrightarrow> parse_channel_message (w_published w) = Inr (Some (Names (key_channel k) (present_names f (w_names w))))"
    using cur by (auto simp: parse_message_iff)
qed

lemma watch_news_for:
  assumes "fabric_inv f" "d \<in> set (watch_news f k)"
  shows "lists_for k d"
  using assms told_iff(1)[OF assms(1)]
  by (auto simp: watch_news_def lists_for_def plain_delivery_def split: option.splits if_splits)

lemma filter_concat_one:
  assumes "distinct ks" "k \<in> set ks" "\<And>j d. d \<in> set (F j) \<Longrightarrow> P d \<longleftrightarrow> j = k"
  shows "filter P (concat (map F ks)) = F k"
proof -
  have one: "filter P (F j) = (if j = k then F k else [])" for j
    using assms(3) by (auto simp: filter_id_conv filter_empty_conv)
  have "filter P (concat (map F ks)) = concat (map (\<lambda>j. if j = k then F k else []) ks)"
    by (simp add: filter_concat one o_def)
  also have "\<dots> = F k" using assms(1,2) by (induction ks) auto
  finally show ?thesis .
qed

text \<open>
  C16.  Watchers are told the truth.  After a change of the registry, with an outbox that takes
  packets, publishing sends the holder of a watch one list, naming exactly the watched names that have a
  listener, when the last list it was told was another one, and no list otherwise; it sends nothing else
  to anyone, remembers for every watch the list now told, and changes no listener and no channel.
\<close>

theorem publish_updates_watches:
  assumes "fabric_inv f" and "cf_names_revision f \<noteq> cf_published_revision f" and "\<And>s e n. fst (reserve s e n)"
    and "publish_names reserve (f, o1) = ((g, o2), ds)" and "hm_get (cf_watches f) k = Some w"
  defines "names \<equiv> Names (key_channel k) (filter (\<lambda>n. \<exists>k. hm_get (cf_listener_names f) n = Some k) (w_names w))"
  shows "(\<exists>p. hm_get (cf_watches g) k = Some (w\<lparr>w_published := p\<rparr>) \<and> parse_channel_message p = Inr (Some names))
    \<and> (if parse_channel_message (w_published w) = Inr (Some names) then filter (lists_for k) ds = []
       else \<exists>d. filter (lists_for k) ds = [d] \<and> says d (key_endpoint k) names)
    \<and> (\<forall>d \<in> set ds. \<exists>j. hm_get (cf_watches f) j \<noteq> None \<and> lists_for j d)
    \<and> cf_listeners g = cf_listeners f \<and> cf_handles g = cf_handles f"
proof -
  have inv: "hm_inv (cf_watches f)" using fabric_inv_parts(1)[OF assms(1)] by (simp add: stores_ok_def)
  note step = publish_names_step[OF inv assms(4)]
  have news: "ds = concat (map (watch_news f) (hm_keys (cf_watches f)))"
    by (rule publish_names_news[OF inv assms(3,2,4)])
  have keys: "distinct (hm_keys (cf_watches f))" "set (hm_keys (cf_watches f)) = dom (hm_get (cf_watches f))"
    using inv hm.distinct_keys hm.set_keys by blast+
  have k: "k \<in> set (hm_keys (cf_watches f))" using assms(5) keys(2) by auto
  have lists: "filter (lists_for k) ds = watch_news f k"
    unfolding news using watch_news_for[OF assms(1)] lists_for_unique by (intro filter_concat_one[OF keys(1) k]) blast
  have "watch_news f k = (if parse_channel_message (w_published w) = Inr (Some names) then []
      else [(plain_delivery (key_endpoint k) (current_names f k w))\<lparr>d_outbox := Some (length (current_names f k w))\<rparr>])"
    using told_iff[OF assms(1,5)] assms(5) by (simp add: watch_news_def names_def present_names_def)
  moreover have cur: "parse_channel_message (current_names f k w) = Inr (Some names)"
    using told_iff(1)[OF assms(1,5)] by (simp add: names_def present_names_def)
  moreover have "\<exists>j. hm_get (cf_watches f) j \<noteq> None \<and> lists_for j d" if "d \<in> set ds" for d
    using that watch_news_for[OF assms(1)] keys(2) unfolding news by auto
  moreover have "hm_get (cf_watches g) k = Some (w\<lparr>w_published := current_names f k w\<rparr>)"
  proof -
    obtain v where v: "hm_get (cf_watches g) k = Some v" "w_names v = w_names w"
      using step(1) assms(5) by (auto simp: same_but_published_def split: option.splits) (metis map_option_eq_Some)
    have "w_published v = current_names f k v" using step(2)[OF assms(3,2) v(1)] .
    then show ?thesis using v by (cases v; cases w) (simp add: current_names_def)
  qed
  moreover have "cf_listeners g = cf_listeners f"
    using lconf_listeners[OF lconf_publish[of reserve f o1]] assms(4) by simp
  ultimately show ?thesis
    using step(1) lists by (auto simp: same_but_published_def plain_delivery_def)
qed

definition demo_watched :: fabric where
  "demo_watched = demo_f1\<lparr>cf_watches := [(Key 3 2, \<lparr>w_names = [[97], [98]], w_published = the (msg_channel_names 2 [])\<rparr>)],
     cf_published_revision := 0\<rparr>"

lemma name_ok_b: "name_ok [98]"
proof -
  have "utf8_valid [98]" by code_simp
  moreover have "utf8_chars [98] = [[98]]" by code_simp
  moreover have "\<not> char_is_control [98]" by code_simp
  ultimately show ?thesis by (simp add: name_ok_def CHANNEL_MAX_NAME_def)
qed

lemma demo_watched_inv: "fabric_inv demo_watched"
proof -
  let ?w = "\<lparr>w_names = [[97], [98]], w_published = the (msg_channel_names 2 [])\<rparr>"
  have "watch_ok (Key 3 2) ?w"
    using name_ok_a name_ok_b
    by (auto simp: watch_ok_def CHANNEL_MAX_WATCH_NAMES_def msg_channel_names_def encode_name_list_def intro!: exI[of _ "[]"])
  moreover have "fields_ok demo_f1" "stores_ok demo_f1" using fabric_inv_parts[OF demo_fabric_inv(1)] by blast+
  ultimately show ?thesis
    using fabric_inv_parts[OF demo_fabric_inv(1)]
    by (auto simp: demo_watched_def fabric_inv_def fields_ok_def stores_ok_def exclusive_def hm_get_def hm_inv_def
      dom_def demo_f1_def demo_f0_def fabric_new_def split: if_splits)
qed

theorem publish_updates_watches_witness:
  "\<exists>g d ds. publish_names demo_reserve (demo_watched, ()) = ((g, ()), ds)
    \<and> filter (lists_for (Key 3 2)) ds = [d] \<and> says d 3 (Names 2 [[97]])"
proof -
  let ?w = "\<lparr>w_names = [[97], [98]], w_published = the (msg_channel_names 2 [])\<rparr>"
  obtain g ds where run: "publish_names demo_reserve (demo_watched, ()) = ((g, ()), ds)"
    by (metis (full_types) prod.collapse unit.exhaust)
  have rev: "cf_names_revision demo_watched \<noteq> cf_published_revision demo_watched"
    by (simp add: demo_watched_def demo_f1_def)
  have out: "fst (demo_reserve s e n)" for s e n by (simp add: demo_reserve_def)
  have w: "hm_get (cf_watches demo_watched) (Key 3 2) = Some ?w" by (simp add: demo_watched_def hm_get_def)
  have "cf_listener_names demo_watched = [([97], Key 1 2)]" by (simp add: demo_watched_def demo_f1_def)
  then have names: "filter (\<lambda>n. \<exists>k. hm_get (cf_listener_names demo_watched) n = Some k) (w_names ?w) = [[97]]"
    by (simp add: hm_get_def)
  have "msg_channel_names 2 [] = Some (the (msg_channel_names 2 []))"
    by (simp add: msg_channel_names_def encode_name_list_def CHANNEL_MAX_WATCH_NAMES_def)
  then have "parse_channel_message (w_published ?w) = Inr (Some (Names 2 []))" by (simp add: parse_message_iff)
  then show ?thesis
    using publish_updates_watches[OF demo_watched_inv rev out run w] run unfolding names by auto
qed

text \<open>
  A server that is shutting down takes no new channels.  A well-formed request to listen,
  connect or watch gets one refusal with the reason, on the id it asked for, and changes no listener,
  no channel and no watch.
\<close>

fun opens :: "channel_request \<Rightarrow> bool" where
  "opens (Listen _ _ _) = True" | "opens (Connect _ _ _ _) = True" | "opens (Watch _ _) = True" | "opens _ = False"

lemma request_header:
  assumes "parse_channel_request packet = Inr (Some r)" "opens r"
  obtains kind body where "channel_header packet = Inr (kind, request_channel_id r, body)"
    "kind = CHANNEL_LISTEN \<or> kind = CHANNEL_CONNECT \<or> kind = CHANNEL_WATCH"
proof -
  have "build_request r = Some packet" using assms(1) by (simp add: parse_request_iff)
  then show ?thesis
    using assms(2) that
    by (cases r) (auto simp: channel_header_iff msg_channel_listen_def msg_channel_connect_def msg_channel_open_iff
      msg_channel_watch_def encode_name_list_iff split: if_splits)
qed

lemma shutdown_refuses_requests:
  assumes "cf_shutting_down f" and "parse_channel_request packet = Inr (Some r)" and "opens r"
  shows "\<exists>g d. handle_packet reserve e packet (f, o1) = ((g, o1), [d])
    \<and> says d e (Opened (request_channel_id r) STATUS_PERMISSION 0 [] [] (ascii ''server is shutting down''))
    \<and> cf_listeners g = cf_listeners f \<and> cf_handles g = cf_handles f \<and> cf_watches g = cf_watches f"
proof -
  obtain kind body where h: "channel_header packet = Inr (kind, request_channel_id r, body)"
    "kind = CHANNEL_LISTEN \<or> kind = CHANNEL_CONNECT \<or> kind = CHANNEL_WATCH"
    by (rule request_header[OF assms(2,3)])
  let ?t = "ascii ''server is shutting down''"
  have "handle_packet reserve e packet (f, o1)
      = with_state o1 (fail_open e (request_channel_id r) STATUS_PERMISSION ?t f)"
    using assms(1,2) h by (simp add: handle_packet_def refuse_def)
  moreover have "detail_ok ?t" by (simp add: detail_ascii)
  note says_opened[OF this, of e "request_channel_id r" STATUS_PERMISSION]
  ultimately show ?thesis
    by (auto simp: with_state_def fail_open_def failed_open_def Let_def begin_drain_def)
qed

lemma shutdown_refuses_requests_example:
  "\<exists>g d. handle_packet demo_reserve 2 demo_connect (begin_shutdown demo_f1, ()) = ((g, ()), [d])
    \<and> says d 2 (Opened 4 STATUS_PERMISSION 0 [] [] (ascii ''server is shutting down''))"
proof -
  have down: "cf_shutting_down (begin_shutdown demo_f1)" by (simp add: begin_shutdown_def)
  have kind: "opens (Connect 4 [97] [] None)" by simp
  from shutdown_refuses_requests[OF down demo_parse(2) kind, of demo_reserve 2 "()"] show ?thesis by auto
qed

text \<open>
  C17.  A departed endpoint leaves nothing behind.  Closing an endpoint removes its listeners, its
  watches and every channel with an end there; no remaining handle points at it, and the other
  endpoints' listeners stay.
\<close>

theorem departed_endpoint_gone:
  assumes "fabric_inv f" and "close_endpoint reserve e (f, o1) = ((g, o2), ds)"
  shows "(key_endpoint k = e \<longrightarrow> hm_get (cf_listeners g) k = None \<and> hm_get (cf_handles g) k = None
      \<and> hm_get (cf_watches g) k = None)
    \<and> (\<forall>h. hm_get (cf_handles g) k = Some h \<longrightarrow> key_endpoint (h_peer h) \<noteq> e)
    \<and> (key_endpoint k \<noteq> e \<longrightarrow> hm_get (cf_listeners g) k = hm_get (cf_listeners f) k)"
proof -
  note t = close_endpoint_tables[OF assms]
  have "key_endpoint (h_peer h) \<noteq> e" if h: "hm_get (cf_handles g) k = Some h" for h
  proof
    assume e: "key_endpoint (h_peer h) = e"
    obtain p where "handles_of g (h_peer h) = Some p"
      by (rule pairedD[OF fabric_inv_parts(4)[OF t(1)] h])
    then show False using t(3)[OF e] by simp
  qed
  then show ?thesis using t(3,4) by blast
qed

theorem departed_endpoint_gone_witness:
  "\<exists>g ds. close_endpoint demo_reserve 1 (demo_f2, ()) = ((g, ()), ds) \<and> hm_get (cf_handles g) (Key 1 1) = None"
proof -
  obtain g ds where run: "close_endpoint demo_reserve 1 (demo_f2, ()) = ((g, ()), ds)"
    by (metis (full_types) prod.collapse unit.exhaust)
  from departed_endpoint_gone[OF demo_fabric_inv(2) run, of "Key 1 1"] run show ?thesis by auto
qed

text \<open>
  No input breaks the registry.  Whatever bytes an endpoint sends, also unparsable ones, the
  registry stays consistent, every guard stays accounted for, and what it emits is readable and drains
  exactly the ids it took.
\<close>

lemma any_packet_keeps_registry:
  assumes "fabric_inv f" and "accounts f R S"
  shows "fabric_inv (fst (fst (handle_packet reserve e packet (f, o1))))
    \<and> accounts (fst (fst (handle_packet reserve e packet (f, o1))))
        (with_pairs (snd (handle_packet reserve e packet (f, o1))) R)
        (with_slots (snd (handle_packet reserve e packet (f, o1))) S)
    \<and> emitted f (fst (fst (handle_packet reserve e packet (f, o1)))) (snd (handle_packet reserve e packet (f, o1)))"
  using inv_handle_packet[OF assms(1), of reserve e packet o1] balanced_handle_packet[OF assms(1), of reserve e packet o1]
    emitted_handle_packet[OF assms(1), of reserve e packet o1] assms(2)
  by (simp add: balanced_def)

lemma any_packet_keeps_registry_example:
  "fabric_inv (fst (fst (handle_packet demo_reserve 5 [64, 3, 9] (demo_f1, ()))))"
  using any_packet_keeps_registry[OF demo_fabric_inv(1) reachable_parts(2)[OF demo_quiet1[unfolded demo_f0_def]],
      of demo_reserve 5 "[64, 3, 9]" "()"] by blast

end
