(* ===== verification/Str_Order.thy ===== *)
theory Str_Order
  imports Keyed_Store "HOL-Library.List_Lexorder"
begin

text \<open>
  \<open>str\<close> as a key of an ordered map: strings are ordered bytewise (\<open>List_Lexorder\<close>), and the keys that
  start with a prefix are a contiguous range, which the code walks with
  \<open>map.range(prefix..).take_while(starts_with)\<close>.
\<close>

definition starts_with :: "bytes \<Rightarrow> bytes \<Rightarrow> bool" where
  "starts_with key prefix \<longleftrightarrow> take (length prefix) key = prefix"

definition prefix_range :: "bytes \<Rightarrow> (bytes, 'v) btree_map \<Rightarrow> (bytes, 'v) btree_map" where
  "prefix_range prefix m = takeWhile (\<lambda>(key, _). starts_with key prefix) (dropWhile (\<lambda>(key, _). key < prefix) m)"

lemma starts_with_simps [simp]:
  "starts_with key []" "\<not> starts_with [] (x # p)" "starts_with (y # key) (x # p) \<longleftrightarrow> x = y \<and> starts_with key p"
  by (auto simp: starts_with_def)

lemma starts_with_iff: "starts_with key p \<longleftrightarrow> (\<exists>s. key = p @ s)"
  unfolding starts_with_def by (metis append_eq_conv_conj append_take_drop_id)

lemma starts_with_le: "starts_with key p \<Longrightarrow> p \<le> key"
  by (induction p arbitrary: key) (auto, metis Cons_le_Cons list.exhaust starts_with_simps(2,3))

lemma starts_with_between: "p \<le> a \<Longrightarrow> a \<le> b \<Longrightarrow> starts_with b p \<Longrightarrow> starts_with a p"
proof (induction p arbitrary: a b)
  case (Cons x p)
  obtain b' where b: "b = x # b'" "starts_with b' p" using Cons.prems(3) by (cases b) auto
  obtain y a' where a: "a = y # a'" using Cons.prems(1) by (cases a) auto
  show ?case using Cons.prems(1,2) Cons.IH[of a' b'] b by (auto simp: a)
qed simp

lemma takeWhile_filter_sorted:
  assumes "sorted_wrt (<) (map fst m)" "\<forall>x \<in> set m. p \<le> fst x"
  shows "takeWhile (\<lambda>(key, e). starts_with key p) m = filter (\<lambda>(key, e). starts_with key p) m"
  using assms
proof (induction m)
  case (Cons x m)
  obtain key e where x: "x = (key, e)" by (cases x)
  show ?case
  proof (cases "starts_with key p")
    case True
    then show ?thesis using Cons x by simp
  next
    case False
    have "\<not> starts_with (fst y) p" if "y \<in> set m" for y
      using starts_with_between[of p key "fst y"] Cons.prems False that x by (auto intro: less_imp_le)
    then have "filter (\<lambda>(key, e). starts_with key p) m = []" by (auto simp: filter_empty_conv)
    then show ?thesis using False x by simp
  qed
qed simp

lemma prefix_range_filter: "bt_inv m \<Longrightarrow> prefix_range p m = filter (\<lambda>(key, e). starts_with key p) m"
  unfolding prefix_range_def
proof (induction m)
  case (Cons x m)
  obtain key e where x: "x = (key, e)" by (cases x)
  show ?case
  proof (cases "key < p")
    case True
    then have "\<not> starts_with key p" using starts_with_le[of key p] by auto
    then show ?thesis using True Cons x by simp
  next
    case False
    then have "\<forall>y \<in> set (x # m). p \<le> fst y" using Cons.prems x by (force simp: bt_inv_def)
    then show ?thesis using False takeWhile_filter_sorted[of "x # m" p] Cons.prems x by (simp add: bt_inv_def)
  qed
qed simp

end
