(* ===== verification/Kv_Wire.thy ===== *)
theory Kv_Wire
  imports Frame_Sync Str_Order
begin

text \<open>
  The wire format of the key-value store, \<open>crates/remote/src/kv.rs\<close>: the records inside an update,
  the messages of both directions with their parsers, and \<open>KvMirror\<close>, the client-side reducer.  Keys
  and prefixes are the bytes of a \<open>str\<close>, ordered as \<open>str\<close> is, bytewise (\<open>List_Lexorder\<close>).  LZ4 is
  the pair of parameters \<open>compress\<close>, \<open>decompress\<close>.
\<close>

type_synonym u128 = "128 word"

subsection \<open>Constants\<close>

definition C2S_KV_OPEN :: u8 where [wire_defs]: "C2S_KV_OPEN = 0x70"
definition C2S_KV_STOP :: u8 where [wire_defs]: "C2S_KV_STOP = 0x71"
definition C2S_KV_ACK :: u8 where [wire_defs]: "C2S_KV_ACK = 0x72"
definition C2S_KV_PUT :: u8 where [wire_defs]: "C2S_KV_PUT = 0x73"
definition C2S_KV_FETCH :: u8 where [wire_defs]: "C2S_KV_FETCH = 0x74"

definition S2C_KV_OPENED :: u8 where [wire_defs]: "S2C_KV_OPENED = 0x70"
definition S2C_KV_UPDATE :: u8 where [wire_defs]: "S2C_KV_UPDATE = 0x71"
definition S2C_KV_DONE :: u8 where [wire_defs]: "S2C_KV_DONE = 0x72"
definition S2C_KV_VALUE :: u8 where [wire_defs]: "S2C_KV_VALUE = 0x73"
definition S2C_KV_CLOSED :: u8 where [wire_defs]: "S2C_KV_CLOSED = 0x74"

definition KV_ID_INVALID :: u16 where [wire_defs]: "KV_ID_INVALID = 0xFFFF"
definition KV_MAX_KEY :: nat where [wire_defs]: "KV_MAX_KEY = 256"

definition KV_PUT_NO_CAS :: u8 where [wire_defs]: "KV_PUT_NO_CAS = 1"
definition KV_PUT_DELETE :: u8 where [wire_defs]: "KV_PUT_DELETE = 2"
definition KV_PUT_DURABLE :: u8 where [wire_defs]: "KV_PUT_DURABLE = 4"
definition KV_UPDATE_SNAPSHOT_END :: u8 where [wire_defs]: "KV_UPDATE_SNAPSHOT_END = 1"
definition KV_CLOSED_RESOURCE_LIMIT :: u8 where [wire_defs]: "KV_CLOSED_RESOURCE_LIMIT = 4"

definition KV_STATUS_OK :: u8 where [wire_defs]: "KV_STATUS_OK = 0"
definition KV_STATUS_NOT_FOUND :: u8 where [wire_defs]: "KV_STATUS_NOT_FOUND = 2"
definition KV_STATUS_PERMISSION :: u8 where [wire_defs]: "KV_STATUS_PERMISSION = 4"
definition KV_STATUS_TOO_LARGE :: u8 where [wire_defs]: "KV_STATUS_TOO_LARGE = 5"
definition KV_STATUS_BUDGET :: u8 where [wire_defs]: "KV_STATUS_BUDGET = 6"
definition KV_STATUS_INVALID :: u8 where [wire_defs]: "KV_STATUS_INVALID = 7"
definition KV_STATUS_OTHER :: u8 where [wire_defs]: "KV_STATUS_OTHER = 9"
definition KV_STATUS_CONFLICT :: u8 where [wire_defs]: "KV_STATUS_CONFLICT = 11"

definition KV_RECORD_UPSERT :: u8 where [wire_defs]: "KV_RECORD_UPSERT = 1"
definition KV_RECORD_DELETE :: u8 where [wire_defs]: "KV_RECORD_DELETE = 2"
definition KV_CONTENT_NONE :: u8 where [wire_defs]: "KV_CONTENT_NONE = 0"
definition KV_CONTENT_FULL :: u8 where [wire_defs]: "KV_CONTENT_FULL = 1"

definition kv_key_valid :: "bytes \<Rightarrow> bool" where
  "kv_key_valid key \<longleftrightarrow> key \<noteq> [] \<and> length key \<le> KV_MAX_KEY \<and> 0 \<notin> set key"

subsection \<open>Records\<close>

datatype kv_record =
    KvUpsert (rec_key: bytes) (rec_hash: u128) (rec_size: u32) (rec_mtime_ns: u64) (rec_value: "bytes option")
  | KvDelete (rec_key: bytes)

definition key_field :: "bytes \<Rightarrow> bytes" where
  "key_field key = to_le 2 (length key) @ key"

definition kv_record_body :: "kv_record \<Rightarrow> bytes" where
  "kv_record_body r = (case r of
     KvUpsert key hash sz mtime_ns value \<Rightarrow> [KV_RECORD_UPSERT] @ key_field key @ wle 16 hash @ wle 4 sz @ wle 8 mtime_ns
       @ (case value of None \<Rightarrow> [KV_CONTENT_NONE] | Some data \<Rightarrow> [KV_CONTENT_FULL] @ to_le 4 (length data) @ data)
   | KvDelete key \<Rightarrow> [KV_RECORD_DELETE] @ key_field key)"

text \<open>A body behind its length.\<close>

definition kv_framed :: "bytes \<Rightarrow> bytes" where
  "kv_framed body = to_le 4 (length body) @ body"

definition append_kv_record :: "bytes \<Rightarrow> kv_record \<Rightarrow> bytes" where
  "append_kv_record buf r = buf @ kv_framed (kv_record_body r)"

definition take_key :: "bytes \<Rightarrow> (bytes \<times> bytes) option" where
  "take_key body =
    (if length body < 2 then None
     else let len = rd 2 body 0 in
       if length body < 2 + len then None
       else case from_utf8 (slice_of body 2 len) of None \<Rightarrow> None
         | Some s \<Rightarrow> Some (s, drop (2 + len) body))"

definition take_upsert :: "bytes \<Rightarrow> kv_record option" where
  "take_upsert body = (case take_key body of None \<Rightarrow> None
     | Some (key, body) \<Rightarrow>
       if length body < 16 + 4 + 8 + 1 then None
       else let hash = rdw 16 body 0; sz = rdw 4 body 16; mtime_ns = rdw 8 body 20;
                content_kind = body ! 28; body = drop 29 body
         in if content_kind = KV_CONTENT_NONE then Some (KvUpsert key hash sz mtime_ns None)
            else if content_kind = KV_CONTENT_FULL then
              (if length body < 4 then None
               else let len = rd 4 body 0 in
                 if length body < 4 + len then None
                 else Some (KvUpsert key hash sz mtime_ns (Some (slice_of body 4 len))))
            else None)"

text \<open>
  \<open>KvRecordIter::next\<close>: the item and the iterator's remaining data.  A record of an unknown kind is
  skipped through its length; anything malformed is the end.
\<close>

function kv_next :: "bytes \<Rightarrow> kv_record option \<times> bytes" where
  "kv_next data =
    (if length data < 4 then (None, data)
     else let rec_len = rd 4 data 0 in
       if length data < 4 + rec_len \<or> rec_len = 0 then (None, data)
       else let body = slice_of data 4 rec_len; data = drop (4 + rec_len) data; kind = body ! 0; body = drop 1 body
         in if kind = KV_RECORD_UPSERT then (take_upsert body, data)
            else if kind = KV_RECORD_DELETE then (map_option (\<lambda>(key, _). KvDelete key) (take_key body), data)
            else kv_next data)"
  by pat_completeness auto
termination
  by (relation "measure length") auto

declare kv_next.simps [simp del]

lemma kv_next_shorter: "kv_next data = (Some r, rest) \<Longrightarrow> length rest < length data"
proof (induction "length data" arbitrary: data rule: less_induct)
  case less
  have "4 \<le> length data \<Longrightarrow> kv_next (drop (4 + rd 4 data 0) data) = (Some r, rest) \<Longrightarrow> length rest < length data"
    by (rule less_le_trans[OF less.hyps]) auto
  then show ?case
    using less.prems by (subst (asm) kv_next.simps) (auto simp: Let_def split: if_splits)
qed

text \<open>\<open>for record in kv_records(data)\<close> stops at the first \<open>None\<close>.\<close>

function kv_records :: "bytes \<Rightarrow> kv_record list" where
  "kv_records data = (case kv_next data of (None, _) \<Rightarrow> [] | (Some r, rest) \<Rightarrow> r # kv_records rest)"
  by pat_completeness auto
termination
  by (relation "measure length") (auto dest: kv_next_shorter[OF sym])

declare kv_records.simps [simp del]

subsection \<open>Messages\<close>

definition decompress_guarded :: "(bytes \<Rightarrow> bytes option) \<Rightarrow> bytes \<Rightarrow> bytes option" where
  "decompress_guarded decompress data =
    (if length data < 4 then None
     else if rd 4 data 0 > MAX_DECOMPRESSED then None
     else decompress data)"

text \<open>\<open>msg.get(a..a + n)\<close>.\<close>

definition get_range :: "bytes \<Rightarrow> nat \<Rightarrow> nat \<Rightarrow> bytes option" where
  "get_range bs a n = (if a + n \<le> length bs then Some (slice_of bs a n) else None)"

definition get_str :: "bytes \<Rightarrow> nat \<Rightarrow> nat \<Rightarrow> bytes option" where
  "get_str bs a n = (case get_range bs a n of None \<Rightarrow> None | Some s \<Rightarrow> from_utf8 s)"

definition msg_kv_open :: "u16 \<Rightarrow> u8 \<Rightarrow> u32 \<Rightarrow> bytes \<Rightarrow> bytes" where
  "msg_kv_open nonce flags inline_max prefix =
    [C2S_KV_OPEN] @ wle 2 nonce @ [flags] @ wle 4 inline_max @ to_le 2 (length prefix) @ prefix"

definition parse_kv_open :: "bytes \<Rightarrow> (u16 \<times> u8 \<times> u32 \<times> bytes) option" where
  "parse_kv_open msg =
    (if length msg < 10 \<or> msg ! 0 \<noteq> C2S_KV_OPEN then None
     else case get_str msg 10 (rd 2 msg 8) of None \<Rightarrow> None
       | Some prefix \<Rightarrow> Some (rdw 2 msg 1, msg ! 3, rdw 4 msg 4, prefix))"

definition msg_kv_stop :: "u16 \<Rightarrow> bytes" where
  "msg_kv_stop kv_id = [C2S_KV_STOP] @ wle 2 kv_id"

definition parse_kv_stop :: "bytes \<Rightarrow> u16 option" where
  "parse_kv_stop msg = (if length msg < 3 \<or> msg ! 0 \<noteq> C2S_KV_STOP then None else Some (rdw 2 msg 1))"

definition msg_kv_ack :: "u16 \<Rightarrow> u32 \<Rightarrow> bytes" where
  "msg_kv_ack kv_id update_id = [C2S_KV_ACK] @ wle 2 kv_id @ wle 4 update_id"

definition parse_kv_ack :: "bytes \<Rightarrow> (u16 \<times> u32) option" where
  "parse_kv_ack msg =
    (if length msg < 7 \<or> msg ! 0 \<noteq> C2S_KV_ACK then None else Some (rdw 2 msg 1, rdw 4 msg 3))"

record kv_put =
  kp_nonce :: u16
  kp_flags :: u8
  kp_base :: u128
  kp_key :: bytes
  kp_value :: bytes

definition msg_kv_put :: "(bytes \<Rightarrow> bytes) \<Rightarrow> kv_put \<Rightarrow> bytes" where
  "msg_kv_put compress p = [C2S_KV_PUT] @ wle 2 (kp_nonce p) @ [kp_flags p] @ wle 16 (kp_base p)
     @ to_le 2 (length (kp_key p)) @ kp_key p @ compress (kp_value p)"

definition kv_put_declared_value_len :: "bytes \<Rightarrow> nat option" where
  "kv_put_declared_value_len msg =
    (if length msg < 22 \<or> msg ! 0 \<noteq> C2S_KV_PUT then None
     else let key_len = rd 2 msg 20 in
       if length msg < 22 + key_len then None
       else let value = drop (22 + key_len) msg in
         if length value < 4 then None else Some (rd 4 value 0))"

definition parse_kv_put :: "(bytes \<Rightarrow> bytes option) \<Rightarrow> bytes \<Rightarrow> kv_put option" where
  "parse_kv_put decompress msg =
    (if length msg < 22 \<or> msg ! 0 \<noteq> C2S_KV_PUT then None
     else let key_len = rd 2 msg 20 in
       case get_str msg 22 key_len of None \<Rightarrow> None
       | Some key \<Rightarrow> (case decompress_guarded decompress (drop (22 + key_len) msg) of None \<Rightarrow> None
         | Some value \<Rightarrow> Some \<lparr>kp_nonce = rdw 2 msg 1, kp_flags = msg ! 3, kp_base = rdw 16 msg 4,
             kp_key = key, kp_value = value\<rparr>))"

definition msg_kv_fetch :: "u16 \<Rightarrow> bytes \<Rightarrow> bytes" where
  "msg_kv_fetch nonce key = [C2S_KV_FETCH] @ wle 2 nonce @ to_le 2 (length key) @ key"

definition parse_kv_fetch :: "bytes \<Rightarrow> (u16 \<times> bytes) option" where
  "parse_kv_fetch msg =
    (if length msg < 5 \<or> msg ! 0 \<noteq> C2S_KV_FETCH then None
     else case get_str msg 5 (rd 2 msg 3) of None \<Rightarrow> None | Some key \<Rightarrow> Some (rdw 2 msg 1, key))"

definition msg_kv_opened :: "u16 \<Rightarrow> u16 \<Rightarrow> u8 \<Rightarrow> bytes \<Rightarrow> bytes" where
  "msg_kv_opened nonce kv_id status detail =
    [S2C_KV_OPENED] @ wle 2 nonce @ wle 2 kv_id @ [status] @ to_le 2 (length detail) @ detail"

definition parse_kv_opened :: "bytes \<Rightarrow> (u16 \<times> u16 \<times> u8 \<times> bytes) option" where
  "parse_kv_opened msg =
    (if length msg < 8 \<or> msg ! 0 \<noteq> S2C_KV_OPENED then None
     else case get_range msg 8 (rd 2 msg 6) of None \<Rightarrow> None
       | Some detail \<Rightarrow> Some (rdw 2 msg 1, rdw 2 msg 3, msg ! 5, from_utf8_lossy detail))"

definition msg_kv_update :: "(bytes \<Rightarrow> bytes) \<Rightarrow> u16 \<Rightarrow> u32 \<Rightarrow> u8 \<Rightarrow> bytes \<Rightarrow> bytes" where
  "msg_kv_update compress kv_id update_id flags records =
    [S2C_KV_UPDATE] @ wle 2 kv_id @ wle 4 update_id @ [flags] @ compress records"

definition msg_kv_done :: "u16 \<Rightarrow> u8 \<Rightarrow> u128 \<Rightarrow> u64 \<Rightarrow> bytes" where
  "msg_kv_done nonce status hash mtime_ns = [S2C_KV_DONE] @ wle 2 nonce @ [status] @ wle 16 hash @ wle 8 mtime_ns"

definition parse_kv_done :: "bytes \<Rightarrow> (u16 \<times> u8 \<times> u128 \<times> u64) option" where
  "parse_kv_done msg =
    (if length msg < 28 \<or> msg ! 0 \<noteq> S2C_KV_DONE then None
     else Some (rdw 2 msg 1, msg ! 3, rdw 16 msg 4, rdw 8 msg 20))"

definition msg_kv_value :: "(bytes \<Rightarrow> bytes) \<Rightarrow> u16 \<Rightarrow> u8 \<Rightarrow> u128 \<Rightarrow> bytes \<Rightarrow> bytes" where
  "msg_kv_value compress nonce status hash data =
    [S2C_KV_VALUE] @ wle 2 nonce @ [status] @ wle 16 hash @ compress data"

definition parse_kv_value :: "(bytes \<Rightarrow> bytes option) \<Rightarrow> bytes \<Rightarrow> (u16 \<times> u8 \<times> u128 \<times> bytes) option" where
  "parse_kv_value decompress msg =
    (if length msg < 20 \<or> msg ! 0 \<noteq> S2C_KV_VALUE then None
     else case decompress_guarded decompress (drop 20 msg) of None \<Rightarrow> None
       | Some data \<Rightarrow> Some (rdw 2 msg 1, msg ! 3, rdw 16 msg 4, data))"

definition msg_kv_closed :: "u16 \<Rightarrow> u8 \<Rightarrow> bytes" where
  "msg_kv_closed kv_id reason = [S2C_KV_CLOSED] @ wle 2 kv_id @ [reason]"

definition parse_kv_closed :: "bytes \<Rightarrow> (u16 \<times> u8) option" where
  "parse_kv_closed msg =
    (if length msg < 4 \<or> msg ! 0 \<noteq> S2C_KV_CLOSED then None else Some (rdw 2 msg 1, msg ! 3))"

subsection \<open>The client's mirror\<close>

record kv_entry =
  ke_hash :: u128
  ke_size :: u32
  ke_mtime_ns :: u64
  ke_value :: "bytes option"

record kv_mirror =
  km_live :: "(bytes, kv_entry) btree_map"
  km_snapshot_done :: bool

definition kv_mirror_new :: kv_mirror where
  "kv_mirror_new = \<lparr>km_live = [], km_snapshot_done = False\<rparr>"

definition apply_kv_record :: "kv_record \<Rightarrow> (bytes, kv_entry) btree_map \<Rightarrow> (bytes, kv_entry) btree_map" where
  "apply_kv_record r live = (case r of
     KvUpsert key hash sz mtime_ns value \<Rightarrow>
       bt_insert key \<lparr>ke_hash = hash, ke_size = sz, ke_mtime_ns = mtime_ns, ke_value = value\<rparr> live
   | KvDelete key \<Rightarrow> bt_remove key live)"

definition apply_kv_update :: "(bytes \<Rightarrow> bytes option) \<Rightarrow> bytes \<Rightarrow> kv_mirror \<Rightarrow> kv_mirror \<times> u32 option" where
  "apply_kv_update decompress msg m =
    (if length msg < 8 \<or> msg ! 0 \<noteq> S2C_KV_UPDATE then (m, None)
     else let update_id = rdw 4 msg 3; flags = msg ! 7 in
       case decompress_guarded decompress (drop 8 msg) of None \<Rightarrow> (m, None)
       | Some records \<Rightarrow>
         let m = m\<lparr>km_live := fold apply_kv_record (kv_records records) (km_live m)\<rparr>;
             m = (if flags AND KV_UPDATE_SNAPSHOT_END \<noteq> 0 then m\<lparr>km_snapshot_done := True\<rparr> else m)
         in (m, Some update_id))"

end
