(* ===== verification/Kv_Roundtrip.thy ===== *)
theory Kv_Roundtrip
  imports Kv_Wire
begin

text \<open>
  Reading back what the builders of \<open>Kv_Wire\<close> write: keys, records, record lists with records of kinds
  the reader does not know, and the messages of both directions.  The last part computes what an
  update message built from a list of records does to a mirror, the form in which the store uses it.
\<close>

subsection \<open>Fields\<close>

lemma take_key_field:
  assumes "utf8_valid key" "length key < 65536"
  shows "take_key (key_field key @ rest) = Some (key, rest)"
proof -
  have "rd 2 (key_field key @ rest) 0 = length key"
    using assms(2) by (simp add: key_field_def rd_head)
  moreover have "slice_of (key_field key @ rest) 2 (length key) = key"
    using slice_at[of "to_le 2 (length key)" 2 "length key" key rest] by (simp add: key_field_def)
  ultimately show ?thesis
    using assms(1) by (simp add: take_key_def Let_def from_utf8_def) (simp add: key_field_def)
qed

lemma get_str_at:
  assumes "length pre = a" "utf8_valid s"
  shows "get_str (pre @ s @ rest) a (length s) = Some s"
  using assms slice_at[OF assms(1) refl, of s rest] by (simp add: get_str_def get_range_def from_utf8_def)

subsection \<open>Records\<close>

definition kv_record_ok :: "kv_record \<Rightarrow> bool" where
  "kv_record_ok r \<longleftrightarrow> utf8_valid (rec_key r) \<and> length (rec_key r) < 65536 \<and> length (kv_record_body r) < 2 ^ 32"

lemma take_upsert_body:
  assumes "utf8_valid key" "length key < 65536"
    and "\<And>data. value = Some data \<Longrightarrow> length data < 2 ^ 32"
  shows "take_upsert (key_field key @ wle 16 hash @ wle 4 sz @ wle 8 mtime_ns
      @ (case value of None \<Rightarrow> [KV_CONTENT_NONE] | Some data \<Rightarrow> [KV_CONTENT_FULL] @ to_le 4 (length data) @ data))
    = Some (KvUpsert key hash sz mtime_ns value)"
proof -
  define tl where "tl = (case value of None \<Rightarrow> [KV_CONTENT_NONE]
    | Some data \<Rightarrow> [KV_CONTENT_FULL] @ to_le 4 (length data) @ data)"
  define b where "b = wle 16 hash @ wle 4 sz @ wle 8 mtime_ns @ tl"
  have key: "take_key (key_field key @ b) = Some (key, b)" by (rule take_key_field) (use assms in auto)
  have h: "rdw 16 b 0 = hash" unfolding b_def by (rule rdw_head) simp
  have s: "rdw 4 b 16 = sz" unfolding b_def by (rule rdw_at) simp_all
  have m: "rdw 8 b 20 = mtime_ns"
    using rdw_at[of "wle 16 hash @ wle 4 sz" 20 8 mtime_ns tl] by (simp add: b_def)
  have d: "drop 28 b = tl" "b ! 28 = tl ! 0" "drop 29 b = drop 1 tl" "length b = 28 + length tl"
    unfolding b_def by (simp_all add: nth_append)
  have "take_upsert (key_field key @ b) = Some (KvUpsert key hash sz mtime_ns value)"
  proof (cases "value")
    case None
    then show ?thesis by (simp add: take_upsert_def key Let_def h s m d tl_def)
  next
    case (Some data)
    have "length data < 4294967296" using assms(3)[OF Some] by simp
    then have "rd 4 (to_le 4 (length data) @ data) 0 = length data" by (simp add: rd_head)
    moreover have "slice_of (to_le 4 (length data) @ data) 4 (length data) = data"
      using slice_at[of "to_le 4 (length data)" 4 "length data" data "[]"] by simp
    ultimately show ?thesis
      by (simp add: take_upsert_def key Let_def h s m d tl_def Some KV_CONTENT_FULL_def KV_CONTENT_NONE_def)
  qed
  then show ?thesis by (simp add: b_def tl_def)
qed

text \<open>One framed body at the front of the data.\<close>

lemma kv_next_framed_body:
  assumes "length payload + 1 < 2 ^ 32"
  shows "kv_next (kv_framed (kind # payload) @ rest) =
    (if kind = KV_RECORD_UPSERT then (take_upsert payload, rest)
     else if kind = KV_RECORD_DELETE then (map_option (\<lambda>(key, _). KvDelete key) (take_key payload), rest)
     else kv_next rest)"
proof -
  define n where "n = length (kind # payload)"
  define data where "data = to_le 4 n @ (kind # payload) @ rest"
  have n: "n < 4294967296" "n \<noteq> 0" using assms by (simp_all add: n_def)
  have r: "rd 4 data 0 = n" using n by (simp add: data_def rd_head)
  have sl: "slice_of data 4 n = kind # payload" unfolding data_def n_def by (rule slice_at) simp_all
  have dr: "drop (4 + n) data = rest" "length data = 4 + n + length rest" unfolding data_def n_def by simp_all
  have "kv_next data = (if kind = KV_RECORD_UPSERT then (take_upsert payload, rest)
     else if kind = KV_RECORD_DELETE then (map_option (\<lambda>(key, _). KvDelete key) (take_key payload), rest)
     else kv_next rest)"
    by (subst kv_next.simps) (simp add: Let_def r sl dr n(2))
  then show ?thesis by (simp add: data_def n_def kv_framed_def)
qed

lemma kv_next_record:
  assumes "kv_record_ok r"
  shows "kv_next (kv_framed (kv_record_body r) @ rest) = (Some r, rest)"
proof (cases r)
  case (KvUpsert key hash sz mtime_ns "value")
  have len: "length (kv_record_body r) < 2 ^ 32" and key: "utf8_valid key" "length key < 65536"
    using assms KvUpsert by (simp_all add: kv_record_ok_def)
  have v: "length data < 2 ^ 32" if "value = Some data" for data
    using len that by (simp add: KvUpsert kv_record_body_def)
  show ?thesis
    using len kv_next_framed_body[of "tl (kv_record_body r)" KV_RECORD_UPSERT rest]
      take_upsert_body[OF key, of "value" hash sz mtime_ns] v
    by (simp add: KvUpsert kv_record_body_def)
next
  case (KvDelete key)
  have len: "length (kv_record_body r) < 2 ^ 32" and key: "utf8_valid key" "length key < 65536"
    using assms KvDelete by (simp_all add: kv_record_ok_def)
  then show ?thesis
    using kv_next_framed_body[of "tl (kv_record_body r)" KV_RECORD_DELETE rest] take_key_field[OF key, of "[]"]
    by (simp add: KvDelete kv_record_body_def KV_RECORD_DELETE_def KV_RECORD_UPSERT_def)
qed

subsection \<open>Record lists\<close>

text \<open>What may stand in an update's payload: a record, or one of a kind that came later.\<close>

datatype kv_frame = Known kv_record | Unknown u8 bytes

fun kv_frame_body :: "kv_frame \<Rightarrow> bytes" where
  "kv_frame_body (Known r) = kv_record_body r"
| "kv_frame_body (Unknown kind payload) = kind # payload"

fun kv_frame_ok :: "kv_frame \<Rightarrow> bool" where
  "kv_frame_ok (Known r) = kv_record_ok r"
| "kv_frame_ok (Unknown kind payload) \<longleftrightarrow> kind \<noteq> KV_RECORD_UPSERT \<and> kind \<noteq> KV_RECORD_DELETE
     \<and> length payload + 1 < 2 ^ 32"

fun kv_frame_record :: "kv_frame \<Rightarrow> kv_record option" where
  "kv_frame_record (Known r) = Some r"
| "kv_frame_record (Unknown kind payload) = None"

definition kv_frames_bytes :: "kv_frame list \<Rightarrow> bytes" where
  "kv_frames_bytes fs = concat (map (\<lambda>f. kv_framed (kv_frame_body f)) fs)"

lemma kv_frames_bytes_simps [simp]:
  "kv_frames_bytes [] = []"
  "kv_frames_bytes (f # fs) = kv_framed (kv_frame_body f) @ kv_frames_bytes fs"
  by (simp_all add: kv_frames_bytes_def)

lemma kv_records_short: "length data < 4 \<Longrightarrow> kv_records data = []"
  by (subst kv_records.simps, subst kv_next.simps) simp

lemma kv_records_step: "kv_next data = (Some r, rest) \<Longrightarrow> kv_records data = r # kv_records rest"
  by (subst kv_records.simps) simp

lemma kv_records_skip: "kv_next data = kv_next rest \<Longrightarrow> kv_records data = kv_records rest"
  by (simp add: kv_records.simps[of data] kv_records.simps[of rest])

lemma kv_records_frames:
  "list_all kv_frame_ok fs \<Longrightarrow> length junk < 4 \<Longrightarrow>
    kv_records (kv_frames_bytes fs @ junk) = List.map_filter kv_frame_record fs"
proof (induction fs)
  case Nil
  then show ?case by (simp add: kv_records_short)
next
  case (Cons f fs)
  show ?case
  proof (cases f)
    case (Known r)
    then have "kv_next (kv_framed (kv_record_body r) @ kv_frames_bytes fs @ junk) = (Some r, kv_frames_bytes fs @ junk)"
      using Cons.prems by (intro kv_next_record) simp
    then show ?thesis using Cons Known by (simp add: kv_records_step)
  next
    case (Unknown kind payload)
    then have "kv_next (kv_framed (kind # payload) @ kv_frames_bytes fs @ junk) = kv_next (kv_frames_bytes fs @ junk)"
      using Cons.prems kv_next_framed_body[of payload kind "kv_frames_bytes fs @ junk"] by simp
    then have "kv_records (kv_framed (kind # payload) @ kv_frames_bytes fs @ junk) = kv_records (kv_frames_bytes fs @ junk)"
      by (rule kv_records_skip)
    then show ?thesis using Cons Unknown by simp
  qed
qed

text \<open>The payload \<open>append_kv_record\<close> builds from a list of records.\<close>

definition records_payload :: "kv_record list \<Rightarrow> bytes" where
  "records_payload rs = fold (\<lambda>r buf. append_kv_record buf r) rs []"

lemma fold_append_kv_record:
  "fold (\<lambda>r buf. append_kv_record buf r) rs buf = buf @ kv_frames_bytes (map Known rs)"
  by (induction rs arbitrary: buf) (simp_all add: append_kv_record_def)

lemma records_payload_frames: "records_payload rs = kv_frames_bytes (map Known rs)"
  by (simp add: records_payload_def fold_append_kv_record)

lemma kv_records_payload:
  assumes "list_all kv_record_ok rs"
  shows "kv_records (records_payload rs) = rs"
proof -
  have "list_all kv_frame_ok (map Known rs)" using assms by (simp add: list.pred_map comp_def)
  moreover have "List.map_filter kv_frame_record (map Known rs) = rs" by (induction rs) simp_all
  ultimately show ?thesis using kv_records_frames[of "map Known rs" "[]"]
    by (simp add: records_payload_frames)
qed

subsection \<open>Messages\<close>

lemma parse_kv_open_msg:
  assumes "utf8_valid prefix" "length prefix < 65536"
  shows "parse_kv_open (msg_kv_open nonce flags inline_max prefix) = Some (nonce, flags, inline_max, prefix)"
proof -
  define m where "m = msg_kv_open nonce flags inline_max prefix"
  have m: "m = [C2S_KV_OPEN] @ wle 2 nonce @ [flags] @ wle 4 inline_max @ to_le 2 (length prefix) @ prefix"
    by (simp add: m_def msg_kv_open_def)
  have "rdw 2 m 1 = nonce" unfolding m by (rule rdw_at) simp_all
  moreover have "rdw 4 m 4 = inline_max"
    using rdw_at[of "[C2S_KV_OPEN] @ wle 2 nonce @ [flags]" 4 4 inline_max] by (simp add: m)
  moreover have "rd 2 m 8 = length prefix"
    using rd_at[of "[C2S_KV_OPEN] @ wle 2 nonce @ [flags] @ wle 4 inline_max" 8 2 "length prefix" prefix] assms(2)
    by (simp add: m)
  moreover have "get_str m 10 (length prefix) = Some prefix"
    using get_str_at[of "[C2S_KV_OPEN] @ wle 2 nonce @ [flags] @ wle 4 inline_max @ to_le 2 (length prefix)" 10 prefix "[]"]
      assms(1) by (simp add: m)
  moreover have "m ! 3 = flags" "m ! 0 = C2S_KV_OPEN" "10 \<le> length m" by (simp_all add: m nth_append)
  ultimately show ?thesis by (simp add: parse_kv_open_def flip: m_def)
qed

lemma parse_kv_stop_msg: "parse_kv_stop (msg_kv_stop kv_id) = Some kv_id"
  using rdw_at[of "[C2S_KV_STOP]" 1 2 kv_id "[]"] by (simp add: parse_kv_stop_def msg_kv_stop_def)

lemma parse_kv_ack_msg: "parse_kv_ack (msg_kv_ack kv_id update_id) = Some (kv_id, update_id)"
  using rdw_at[of "[C2S_KV_ACK]" 1 2 kv_id "wle 4 update_id"] rdw_at[of "[C2S_KV_ACK] @ wle 2 kv_id" 3 4 update_id "[]"]
  by (simp add: parse_kv_ack_def msg_kv_ack_def)

lemma decompress_guarded_compress:
  assumes "lz4_contract compress decompress" "length p \<le> MAX_DECOMPRESSED"
  shows "decompress_guarded decompress (compress p) = Some p"
proof -
  have "decompress (compress p) = Some p" "\<not> length (compress p) < 4" "\<not> rd 4 (compress p) 0 > MAX_DECOMPRESSED"
    using assms unfolding lz4_contract_def by (metis not_less)+
  then show ?thesis by (simp add: decompress_guarded_def)
qed

lemma put_fields:
  fixes nonce :: u16 and base :: u128
  assumes "msg = [C2S_KV_PUT] @ wle 2 nonce @ [flags] @ wle 16 base @ to_le 2 (length key) @ key @ rest"
    and "length key < 65536"
  shows "22 \<le> length msg" "msg ! 0 = C2S_KV_PUT" "rdw 2 msg 1 = nonce" "msg ! 3 = flags" "rdw 16 msg 4 = base"
    "rd 2 msg 20 = length key" "get_range msg 22 (length key) = Some key" "drop (22 + length key) msg = rest"
proof -
  show "22 \<le> length msg" "msg ! 0 = C2S_KV_PUT" "msg ! 3 = flags"
    by (simp_all add: assms(1) nth_append)
  show "drop (22 + length key) msg = rest"
    using drop_length_append[of "[C2S_KV_PUT] @ wle 2 nonce @ [flags] @ wle 16 base @ to_le 2 (length key) @ key" rest]
    by (simp add: assms(1))
  show "rdw 2 msg 1 = nonce" unfolding assms(1) by (rule rdw_at) simp_all
  show "rdw 16 msg 4 = base"
    using rdw_at[of "[C2S_KV_PUT] @ wle 2 nonce @ [flags]" 4 16 base] by (simp add: assms(1))
  show "rd 2 msg 20 = length key"
    using rd_at[of "[C2S_KV_PUT] @ wle 2 nonce @ [flags] @ wle 16 base" 20 2 "length key"] assms(2)
    by (simp add: assms(1))
  show "get_range msg 22 (length key) = Some key"
    using slice_at[of "[C2S_KV_PUT] @ wle 2 nonce @ [flags] @ wle 16 base @ to_le 2 (length key)" 22 "length key" key rest]
    by (simp add: assms(1) get_range_def)
qed

lemma parse_kv_put_msg:
  assumes "lz4_contract compress decompress" "utf8_valid (kp_key p)" "length (kp_key p) < 65536"
    and "length (kp_value p) \<le> MAX_DECOMPRESSED"
  shows "parse_kv_put decompress (msg_kv_put compress p) = Some p"
proof -
  note f = put_fields[OF msg_kv_put_def[of compress p] assms(3)]
  show ?thesis
    using f decompress_guarded_compress[OF assms(1,4)] assms(2)
    by (simp add: parse_kv_put_def Let_def get_str_def from_utf8_def)
qed

lemma kv_put_declared_value_len_msg:
  assumes "lz4_contract compress decompress" "length (kp_key p) < 65536"
    and "length (kp_value p) \<le> MAX_DECOMPRESSED"
  shows "kv_put_declared_value_len (msg_kv_put compress p) = Some (length (kp_value p))"
proof -
  note f = put_fields[OF msg_kv_put_def[of compress p] assms(2)]
  have "rd 4 (compress (kp_value p)) 0 = length (kp_value p)" "\<not> length (compress (kp_value p)) < 4"
    using assms(1,3) unfolding lz4_contract_def by (metis not_less)+
  moreover have "\<not> length (msg_kv_put compress p) < 22 + length (kp_key p)"
    using f(7) by (simp add: get_range_def split: if_splits)
  ultimately show ?thesis using f by (simp add: kv_put_declared_value_len_def Let_def)
qed

text \<open>The size declared is the size of the value that comes out.\<close>

lemma declared_value_len_parse:
  assumes "parse_kv_put decompress msg = Some p"
  shows "\<exists>n. kv_put_declared_value_len msg = Some n \<and> n \<le> MAX_DECOMPRESSED"
  using assms
  by (auto simp: parse_kv_put_def kv_put_declared_value_len_def Let_def get_str_def get_range_def
      decompress_guarded_def split: if_splits option.splits)

lemma parse_kv_fetch_msg:
  assumes "utf8_valid key" "length key < 65536"
  shows "parse_kv_fetch (msg_kv_fetch nonce key) = Some (nonce, key)"
proof -
  define m where "m = msg_kv_fetch nonce key"
  have m: "m = [C2S_KV_FETCH] @ wle 2 nonce @ to_le 2 (length key) @ key" by (simp add: m_def msg_kv_fetch_def)
  have "rdw 2 m 1 = nonce" unfolding m by (rule rdw_at) simp_all
  moreover have "rd 2 m 3 = length key"
    using rd_at[of "[C2S_KV_FETCH] @ wle 2 nonce" 3 2 "length key" key] assms(2) by (simp add: m)
  moreover have "get_str m 5 (length key) = Some key"
    using get_str_at[of "[C2S_KV_FETCH] @ wle 2 nonce @ to_le 2 (length key)" 5 key "[]"] assms(1) by (simp add: m)
  moreover have "m ! 0 = C2S_KV_FETCH" "5 \<le> length m" by (simp_all add: m)
  ultimately show ?thesis by (simp add: parse_kv_fetch_def flip: m_def)
qed

lemma parse_kv_opened_msg:
  assumes "utf8_valid detail" "length detail < 65536"
  shows "parse_kv_opened (msg_kv_opened nonce kv_id status detail) = Some (nonce, kv_id, status, detail)"
proof -
  define m where "m = msg_kv_opened nonce kv_id status detail"
  have m: "m = [S2C_KV_OPENED] @ wle 2 nonce @ wle 2 kv_id @ [status] @ to_le 2 (length detail) @ detail"
    by (simp add: m_def msg_kv_opened_def)
  have "rdw 2 m 1 = nonce" unfolding m by (rule rdw_at) simp_all
  moreover have "rdw 2 m 3 = kv_id"
    using rdw_at[of "[S2C_KV_OPENED] @ wle 2 nonce" 3 2 kv_id] by (simp add: m)
  moreover have "rd 2 m 6 = length detail"
    using rd_at[of "[S2C_KV_OPENED] @ wle 2 nonce @ wle 2 kv_id @ [status]" 6 2 "length detail" detail] assms(2)
    by (simp add: m)
  moreover have "get_range m 8 (length detail) = Some detail"
    using slice_at[of "[S2C_KV_OPENED] @ wle 2 nonce @ wle 2 kv_id @ [status] @ to_le 2 (length detail)" 8
        "length detail" detail "[]"] by (simp add: m get_range_def)
  moreover have "m ! 5 = status" "m ! 0 = S2C_KV_OPENED" "8 \<le> length m" by (simp_all add: m nth_append)
  ultimately show ?thesis by (simp add: parse_kv_opened_def from_utf8_lossy_valid assms(1) flip: m_def)
qed

lemma parse_kv_done_msg: "parse_kv_done (msg_kv_done nonce status hash mtime_ns) = Some (nonce, status, hash, mtime_ns)"
  using rdw_at[of "[S2C_KV_DONE]" 1 2 nonce "[status] @ wle 16 hash @ wle 8 mtime_ns"]
    rdw_at[of "[S2C_KV_DONE] @ wle 2 nonce @ [status]" 4 16 hash "wle 8 mtime_ns"]
    rdw_at[of "[S2C_KV_DONE] @ wle 2 nonce @ [status] @ wle 16 hash" 20 8 mtime_ns "[]"]
  by (simp add: parse_kv_done_def msg_kv_done_def nth_append)

lemma parse_kv_value_msg:
  assumes "lz4_contract compress decompress" "length data \<le> MAX_DECOMPRESSED"
  shows "parse_kv_value decompress (msg_kv_value compress nonce status hash data) = Some (nonce, status, hash, data)"
  using rdw_at[of "[S2C_KV_VALUE]" 1 2 nonce "[status] @ wle 16 hash @ compress data"]
    rdw_at[of "[S2C_KV_VALUE] @ wle 2 nonce @ [status]" 4 16 hash "compress data"]
    decompress_guarded_compress[OF assms]
  by (simp add: parse_kv_value_def msg_kv_value_def nth_append)

lemma parse_kv_closed_msg: "parse_kv_closed (msg_kv_closed kv_id reason) = Some (kv_id, reason)"
  using rdw_at[of "[S2C_KV_CLOSED]" 1 2 kv_id "[reason]"]
  by (simp add: parse_kv_closed_def msg_kv_closed_def nth_append)

subsection \<open>Update frames\<close>

text \<open>Rewriting the two id fields of a frame that is already built.\<close>

lemma set_update_kv_id:
  "write_at (msg_kv_update compress k u flags records) 1 (wle 2 k') = msg_kv_update compress k' u flags records"
  by (simp add: msg_kv_update_def write_at_def)

lemma set_update_id:
  "write_at (msg_kv_update compress k u flags records) 3 (wle 4 u') = msg_kv_update compress k u' flags records"
  by (simp add: msg_kv_update_def write_at_def)

lemma length_msg_kv_update:
  "length (msg_kv_update compress k u flags records) = 8 + length (compress records)"
  by (simp add: msg_kv_update_def)

lemma update_kv_id_field: "rdw 2 (msg_kv_update compress k u flags records) 1 = k"
  using rdw_at[of "[S2C_KV_UPDATE]" 1 2 k "wle 4 u @ [flags] @ compress records"] by (simp add: msg_kv_update_def)

text \<open>What a frame built from records does to a mirror.\<close>

lemma apply_kv_update_msg:
  assumes "lz4_contract compress decompress" "list_all kv_record_ok rs" "length (records_payload rs) \<le> MAX_DECOMPRESSED"
  shows "apply_kv_update decompress (msg_kv_update compress k u flags (records_payload rs)) m =
    (m\<lparr>km_live := fold apply_kv_record rs (km_live m),
       km_snapshot_done := (flags AND KV_UPDATE_SNAPSHOT_END \<noteq> 0) \<or> km_snapshot_done m\<rparr>, Some u)"
proof -
  have "rdw 4 (msg_kv_update compress k u flags (records_payload rs)) 3 = u"
    using rdw_at[of "[S2C_KV_UPDATE] @ wle 2 k" 3 4 u "[flags] @ compress (records_payload rs)"]
    by (simp add: msg_kv_update_def)
  moreover have "msg_kv_update compress k u flags (records_payload rs) ! 7 = flags"
    "drop 8 (msg_kv_update compress k u flags (records_payload rs)) = compress (records_payload rs)"
    "msg_kv_update compress k u flags (records_payload rs) ! 0 = S2C_KV_UPDATE"
    by (simp_all add: msg_kv_update_def nth_append)
  ultimately show ?thesis
    using decompress_guarded_compress[OF assms(1,3)] kv_records_payload[OF assms(2)]
    by (simp add: apply_kv_update_def length_msg_kv_update Let_def)
qed

end
