(* ===== verification/Kv_Store.thy ===== *)
theory Kv_Store
  imports Kv_Roundtrip Keyed_Store
begin

text \<open>
  The key-value store of the server, \<open>crates/server/src/kv.rs\<close>: the in-memory map under its lock, the
  connections' subscriptions with their retention windows, and the writer thread behind the queue.

  The state is one record.  An \<open>Arc<SubEntry>\<close> is an entry of \<open>kw_heap\<close>; the store's \<open>Weak\<close> references
  are the numbers in \<open>kw_subs\<close>, which upgrade when the heap still has them; the only owners are a
  connection's map and an \<open>OPEN\<close> in progress, so removing a subscription from either removes it from
  the heap.  An outbox is the list of the frames it accepted, oldest first; it accepts while its
  connection is up, and a connection that refused a frame (its receiver gone, or the limit of an
  extension exceeded, which cancels the extension) is down.  The writer thread's program counter is
  \<open>kw_phase\<close>.  Budgets are the record \<open>kv_config\<close>.  LZ4, BLAKE3 and the database are parameters,
  collected in \<open>kv_env\<close>: \<open>ev_commit durable ops db\<close> is the transaction of one batch, \<open>None\<close> when it
  fails and leaves the database as it was.
\<close>

subsection \<open>State\<close>

record kv_config =
  cfg_value_max :: nat
  cfg_total_max :: nat
  cfg_max_entries :: nat
  cfg_max_subs :: nat
  cfg_max_inflight :: nat
  cfg_unacked_max :: nat

definition default_kv_config :: kv_config where
  "default_kv_config = \<lparr>cfg_value_max = 4 * 1024 * 1024, cfg_total_max = 256 * 1024 * 1024,
     cfg_max_entries = 16384, cfg_max_subs = 16, cfg_max_inflight = 16, cfg_unacked_max = 16 * 1024 * 1024\<rparr>"

definition SNAPSHOT_CHUNK :: nat where "SNAPSHOT_CHUNK = 2 * 1024 * 1024"

record store_entry =
  en_value :: bytes
  en_hash :: u128
  en_mtime_ns :: u64

record durable_reply =
  dr_conn :: nat
  dr_nonce :: u16
  dr_hash :: u128
  dr_mtime_ns :: u64

record write_job =
  wj_key :: bytes
  wj_value :: "(bytes \<times> u64) option"
  wj_reply :: "durable_reply option"

datatype sub_phase = Snapshotting "bytes list" | Live

record sub_entry =
  se_conn :: nat
  se_kv_id :: u16
  se_prefix :: bytes
  se_inline_max :: u32
  se_unacked_max :: nat
  se_update_id :: u32
  se_phase :: sub_phase
  se_unacked :: "(u32 \<times> nat) list"
  se_unacked_bytes :: nat
  se_closed :: bool

record outbox =
  ob_up :: bool
  ob_sent :: "bytes list"

text \<open>How far an \<open>OPEN\<close> has come: accepted, or sending the chunks (with their flags) that are left.\<close>

datatype open_task = Accepted nat | Sending nat "(u8 \<times> bytes) list"

record kv_conn =
  kc_map :: "(u16, nat) hash_map"
  kc_next_id :: u16
  kc_pending_puts :: nat
  kc_out :: outbox
  kc_opening :: "open_task option"

datatype writer_phase =
    Receiving
  | Writing "write_job list"
  | Replying bool "write_job list"
  | Echoing bool bytes durable_reply "write_job list"

record 'd kv_world =
  kw_entries :: "(bytes, store_entry) btree_map"
  kw_subs :: "nat list"
  kw_writer :: bool
  kw_receiver :: bool
  kw_total_bytes :: nat
  kw_queue :: "write_job list"
  kw_phase :: writer_phase
  kw_db :: 'd
  kw_heap :: "(nat, sub_entry) hash_map"
  kw_next_sub :: nat
  kw_next_conn :: nat
  kw_conns :: "(nat, kv_conn) hash_map"

record 'd kv_env =
  ev_cfg :: kv_config
  ev_compress :: "bytes \<Rightarrow> bytes"
  ev_decompress :: "bytes \<Rightarrow> bytes option"
  ev_hash :: "bytes \<Rightarrow> u128"
  ev_commit :: "bool \<Rightarrow> (bytes \<times> bytes option) list \<Rightarrow> 'd \<Rightarrow> 'd option"

subsection \<open>Outboxes\<close>

definition ob_send :: "bytes \<Rightarrow> outbox \<Rightarrow> outbox \<times> bool" where
  "ob_send msg ob = (if ob_up ob then (ob\<lparr>ob_sent := ob_sent ob @ [msg]\<rparr>, True) else (ob, False))"

definition set_conn :: "nat \<Rightarrow> kv_conn \<Rightarrow> 'd kv_world \<Rightarrow> 'd kv_world" where
  "set_conn c k w = w\<lparr>kw_conns := hm_insert c k (kw_conns w)\<rparr>"

text \<open>\<open>let _ = out.send(msg)\<close> on connection \<open>c\<close>.\<close>

definition send_to :: "nat \<Rightarrow> bytes \<Rightarrow> 'd kv_world \<Rightarrow> 'd kv_world" where
  "send_to c msg w = (case hm_get (kw_conns w) c of None \<Rightarrow> w
     | Some k \<Rightarrow> set_conn c (k\<lparr>kc_out := fst (ob_send msg (kc_out k))\<rparr>) w)"

subsection \<open>One subscription\<close>

type_synonym sub_io = "sub_entry \<times> outbox"

definition sub_new :: "nat \<Rightarrow> u16 \<Rightarrow> bytes \<Rightarrow> u32 \<Rightarrow> nat \<Rightarrow> sub_entry" where
  "sub_new c kv_id prefix inline_max unacked_max = \<lparr>se_conn = c, se_kv_id = kv_id, se_prefix = prefix,
     se_inline_max = inline_max, se_unacked_max = unacked_max, se_update_id = 0, se_phase = Snapshotting [],
     se_unacked = [], se_unacked_bytes = 0, se_closed = False\<rparr>"

definition next_update :: "sub_entry \<Rightarrow> u32" where
  "next_update s = se_update_id s + 1"

definition inline_limit :: "sub_entry \<Rightarrow> nat" where
  "inline_limit s = (if se_inline_max s = 0 then 2 ^ 64 - 1 else unat (se_inline_max s))"

definition charge_and_send :: "bytes \<Rightarrow> sub_io \<Rightarrow> sub_io \<times> bool" where
  "charge_and_send msg st = (case st of (s, ob) \<Rightarrow>
     let len = length msg in
     if se_unacked_bytes s + len > se_unacked_max s
     then ((s\<lparr>se_closed := True\<rparr>, fst (ob_send (msg_kv_closed (se_kv_id s) KV_CLOSED_RESOURCE_LIMIT) ob)), False)
     else let i = next_update s;
              (ob, ok) = ob_send (write_at msg 3 (wle 4 i)) ob
          in ((s\<lparr>se_update_id := i, se_unacked_bytes := se_unacked_bytes s + len,
                 se_unacked := se_unacked s @ [(i, len)]\<rparr>, ob), ok))"

definition deliver :: "bytes \<Rightarrow> sub_io \<Rightarrow> sub_io \<times> bool" where
  "deliver msg st = (case st of (s, ob) \<Rightarrow>
     if se_closed s then ((s, ob), False)
     else case se_phase s of
         Snapshotting pending \<Rightarrow> ((s\<lparr>se_phase := Snapshotting (pending @ [msg])\<rparr>, ob), True)
       | Live \<Rightarrow> charge_and_send msg (s, ob))"

definition send_chunk :: "bytes \<Rightarrow> sub_io \<Rightarrow> sub_io \<times> bool" where
  "send_chunk msg st = (if se_closed (fst st) then (st, False) else charge_and_send msg st)"

fun flush_pending :: "bytes list \<Rightarrow> sub_io \<Rightarrow> sub_io" where
  "flush_pending [] st = st"
| "flush_pending (msg # pending) st =
    (if se_closed (fst st) then st
     else case charge_and_send msg st of (st, ok) \<Rightarrow> if ok then flush_pending pending st else st)"

definition go_live :: "sub_io \<Rightarrow> sub_io" where
  "go_live st = (case st of (s, ob) \<Rightarrow>
     let pending = (case se_phase s of Snapshotting pending \<Rightarrow> pending | Live \<Rightarrow> [])
     in flush_pending pending (s\<lparr>se_phase := Live\<rparr>, ob))"

fun release_acked :: "u32 \<Rightarrow> (u32 \<times> nat) list \<Rightarrow> nat \<Rightarrow> (u32 \<times> nat) list \<times> nat" where
  "release_acked update_id [] n = ([], n)"
| "release_acked update_id ((i, len) # unacked) n =
    (if i > update_id then ((i, len) # unacked, n) else release_acked update_id unacked (n - len))"

definition sub_ack :: "u32 \<Rightarrow> sub_entry \<Rightarrow> sub_entry" where
  "sub_ack update_id s = (case release_acked update_id (se_unacked s) (se_unacked_bytes s) of
     (unacked, n) \<Rightarrow> s\<lparr>se_unacked := unacked, se_unacked_bytes := n\<rparr>)"

text \<open>Run an operation of the subscription \<open>sid\<close> on it and its connection's outbox.\<close>

definition on_sub :: "nat \<Rightarrow> (sub_io \<Rightarrow> sub_io \<times> bool) \<Rightarrow> 'd kv_world \<Rightarrow> 'd kv_world \<times> bool" where
  "on_sub sid f w = (case hm_get (kw_heap w) sid of None \<Rightarrow> (w, False)
     | Some s \<Rightarrow> (case hm_get (kw_conns w) (se_conn s) of None \<Rightarrow> (w, False)
       | Some k \<Rightarrow> (case f (s, kc_out k) of ((s', ob), ok) \<Rightarrow>
           (set_conn (se_conn s) (k\<lparr>kc_out := ob\<rparr>) (w\<lparr>kw_heap := hm_insert sid s' (kw_heap w)\<rparr>), ok))))"

definition drop_sub :: "nat \<Rightarrow> 'd kv_world \<Rightarrow> 'd kv_world" where
  "drop_sub sid w = w\<lparr>kw_heap := hm_remove sid (kw_heap w)\<rparr>"

subsection \<open>The registry of a connection\<close>

definition kv_conn_new :: kv_conn where
  "kv_conn_new = \<lparr>kc_map = [], kc_next_id = 0, kc_pending_puts = 0, kc_out = \<lparr>ob_up = True, ob_sent = []\<rparr>,
     kc_opening = None\<rparr>"

text \<open>\<open>for _ in 0..=u16::MAX\<close> has 65536 rounds.\<close>

fun alloc_id_loop :: "nat \<Rightarrow> kv_conn \<Rightarrow> kv_conn \<times> u16 option" where
  "alloc_id_loop 0 k = (k, None)"
| "alloc_id_loop (Suc n) k =
    (let i = kc_next_id k; k = k\<lparr>kc_next_id := i + 1\<rparr> in
     if i \<noteq> KV_ID_INVALID \<and> hm_get (kc_map k) i = None then (k, Some i) else alloc_id_loop n k)"

definition alloc_id :: "kv_conn \<Rightarrow> kv_conn \<times> u16 option" where
  "alloc_id k = alloc_id_loop 65536 k"

subsection \<open>The store\<close>

text \<open>The rows of a database that opened: eight bytes of time, then the value.\<close>

definition load_row :: "(bytes \<Rightarrow> u128) \<Rightarrow> bytes \<times> bytes \<Rightarrow>
    (bytes, store_entry) btree_map \<times> nat \<Rightarrow> (bytes, store_entry) btree_map \<times> nat" where
  "load_row hash row st = (case row of (key, raw) \<Rightarrow> case st of (entries, loaded) \<Rightarrow>
     if length raw < 8 then (entries, loaded)
     else let mtime_ns = rdw 8 raw 0; v = drop 8 raw in
       (bt_insert key \<lparr>en_value = v, en_hash = hash v, en_mtime_ns = mtime_ns\<rparr> entries,
        loaded + (length key + length v)))"

definition store_empty :: "'d \<Rightarrow> 'd kv_world" where
  "store_empty db = \<lparr>kw_entries = [], kw_subs = [], kw_writer = False, kw_receiver = False, kw_total_bytes = 0,
     kw_queue = [], kw_phase = Receiving, kw_db = db, kw_heap = [], kw_next_sub = 0, kw_next_conn = 0, kw_conns = []\<rparr>"

text \<open>
  \<open>Store::open\<close>: \<open>rows\<close> is \<open>None\<close> when there is no path, the database does not open or the load fails;
  \<open>spawned\<close> says whether the writer thread started.
\<close>

definition store_open :: "(bytes \<Rightarrow> u128) \<Rightarrow> 'd \<Rightarrow> (bytes \<times> bytes) list option \<Rightarrow> bool \<Rightarrow> 'd kv_world" where
  "store_open hash db rows spawned = (case rows of None \<Rightarrow> store_empty db
     | Some rows \<Rightarrow> (case fold (load_row hash) rows ([], 0) of (entries, loaded) \<Rightarrow>
         (store_empty db)\<lparr>kw_entries := entries, kw_total_bytes := loaded, kw_writer := spawned, kw_receiver := spawned\<rparr>))"

definition pending_add :: "nat \<Rightarrow> 'd kv_world \<Rightarrow> 'd kv_world" where
  "pending_add c w = (case hm_get (kw_conns w) c of None \<Rightarrow> w
     | Some k \<Rightarrow> set_conn c (k\<lparr>kc_pending_puts := kc_pending_puts k + 1\<rparr>) w)"

text \<open>\<open>Drop for DurableReply\<close>.\<close>

definition drop_reply :: "durable_reply option \<Rightarrow> 'd kv_world \<Rightarrow> 'd kv_world" where
  "drop_reply r w = (case r of None \<Rightarrow> w | Some r \<Rightarrow>
     (case hm_get (kw_conns w) (dr_conn r) of None \<Rightarrow> w
      | Some k \<Rightarrow> set_conn (dr_conn r) (k\<lparr>kc_pending_puts := kc_pending_puts k - 1\<rparr>) w))"

definition enqueue :: "bytes \<Rightarrow> (bytes \<times> u64) option \<Rightarrow> durable_reply option \<Rightarrow> 'd kv_world \<Rightarrow> 'd kv_world \<times> bool" where
  "enqueue key v reply w =
    (if \<not> kw_writer w then (drop_reply reply w, False)
     else if kw_receiver w
     then (w\<lparr>kw_queue := kw_queue w @ [\<lparr>wj_key = key, wj_value = v, wj_reply = reply\<rparr>]\<rparr>, True)
     else (drop_reply reply (w\<lparr>kw_writer := False\<rparr>), False))"

text \<open>The record a key has now: its entry, or its absence.\<close>

definition entry_record :: "bytes \<Rightarrow> store_entry \<Rightarrow> bytes option \<Rightarrow> kv_record" where
  "entry_record key e v = KvUpsert key (en_hash e) (word_of_nat (length (en_value e))) (en_mtime_ns e) v"

definition build_update :: "(bytes \<Rightarrow> bytes) \<Rightarrow> bytes \<Rightarrow> store_entry option \<Rightarrow> bytes option \<Rightarrow> bytes" where
  "build_update compress key entry v = msg_kv_update compress 0 0 0
     (append_kv_record [] (case entry of Some e \<Rightarrow> entry_record key e v | None \<Rightarrow> KvDelete key))"

definition broadcast_one :: "(bytes \<Rightarrow> bytes) \<Rightarrow> bytes \<Rightarrow> nat \<Rightarrow> 'd kv_world \<times> nat list \<Rightarrow> 'd kv_world \<times> nat list" where
  "broadcast_one compress key sid st = (case st of (w, kept) \<Rightarrow>
     (case hm_get (kw_heap w) sid of None \<Rightarrow> (w, kept)
      | Some sub \<Rightarrow>
        if \<not> starts_with key (se_prefix sub) then (w, kept @ [sid])
        else let entry = bt_get (kw_entries w) key;
                 inline = (case entry of Some e \<Rightarrow> length (en_value e) \<le> inline_limit sub | None \<Rightarrow> False);
                 template = (if inline then build_update compress key entry (map_option en_value entry)
                             else build_update compress key entry None);
                 msg = write_at template 1 (wle 2 (se_kv_id sub));
                 (w, alive) = on_sub sid (deliver msg) w
             in (w, if alive then kept @ [sid] else kept)))"

definition broadcast :: "(bytes \<Rightarrow> bytes) \<Rightarrow> bytes \<Rightarrow> 'd kv_world \<Rightarrow> 'd kv_world" where
  "broadcast compress key w =
    (if kw_subs w = [] then w
     else case fold (broadcast_one compress key) (kw_subs w) (w, []) of (w, kept) \<Rightarrow> w\<lparr>kw_subs := kept\<rparr>)"

subsection \<open>The writer thread\<close>

definition job_op :: "write_job \<Rightarrow> bytes \<times> bytes option" where
  "job_op j = (wj_key j, map_option (\<lambda>(v, mtime_ns). wle 8 mtime_ns @ v) (wj_value j))"

definition writer_take :: "'d kv_world \<Rightarrow> 'd kv_world" where
  "writer_take w = (if kw_phase w = Receiving \<and> kw_queue w \<noteq> []
     then w\<lparr>kw_phase := Writing (kw_queue w), kw_queue := []\<rparr> else w)"

definition writer_commit :: "'d kv_env \<Rightarrow> 'd kv_world \<Rightarrow> 'd kv_world" where
  "writer_commit ev w = (case kw_phase w of
     Writing batch \<Rightarrow>
       let durable = list_ex (\<lambda>j. wj_reply j \<noteq> None) batch in
       (case ev_commit ev durable (map job_op batch) (kw_db w) of
          Some db \<Rightarrow> w\<lparr>kw_db := db, kw_phase := Replying True batch\<rparr>
        | None \<Rightarrow> w\<lparr>kw_phase := Replying False batch\<rparr>)
   | _ \<Rightarrow> w)"

definition writer_reply :: "'d kv_world \<Rightarrow> 'd kv_world" where
  "writer_reply w = (case kw_phase w of
     Replying ok [] \<Rightarrow> w\<lparr>kw_phase := Receiving\<rparr>
   | Replying ok (j # js) \<Rightarrow> (case wj_reply j of None \<Rightarrow> w\<lparr>kw_phase := Replying ok js\<rparr>
       | Some r \<Rightarrow>
         let status = (if ok then KV_STATUS_OK else KV_STATUS_OTHER)
         in send_to (dr_conn r) (msg_kv_done (dr_nonce r) status (dr_hash r) (dr_mtime_ns r))
              (w\<lparr>kw_phase := Echoing ok (wj_key j) r js\<rparr>))
   | _ \<Rightarrow> w)"

definition writer_echo :: "'d kv_env \<Rightarrow> 'd kv_world \<Rightarrow> 'd kv_world" where
  "writer_echo ev w = (case kw_phase w of
     Echoing ok key r js \<Rightarrow>
       drop_reply (Some r) (broadcast (ev_compress ev) key (w\<lparr>kw_phase := Replying ok js\<rparr>))
   | _ \<Rightarrow> w)"

subsection \<open>Opening a subscription\<close>

definition nonce_of :: "bytes \<Rightarrow> u16" where
  "nonce_of data = (if 3 \<le> length data then rdw 2 data 1 else 0)"

definition refuse_open :: "nat \<Rightarrow> u16 \<Rightarrow> u8 \<Rightarrow> string \<Rightarrow> 'd kv_world \<Rightarrow> 'd kv_world" where
  "refuse_open c nonce status detail w =
    send_to c (msg_kv_opened nonce KV_ID_INVALID status (map of_char detail)) w"

text \<open>\<open>subs.map.retain(|_, sub| !sub.is_closed())\<close>: the closed ones are dropped.\<close>

definition sub_is_closed :: "'d kv_world \<Rightarrow> nat \<Rightarrow> bool" where
  "sub_is_closed w sid = (case hm_get (kw_heap w) sid of None \<Rightarrow> True | Some s \<Rightarrow> se_closed s)"

definition sweep_closed :: "nat \<Rightarrow> kv_conn \<Rightarrow> 'd kv_world \<Rightarrow> kv_conn \<times> 'd kv_world" where
  "sweep_closed c k w =
    (let dead = filter (\<lambda>(kv_id, sid). sub_is_closed w sid) (kc_map k);
         k = k\<lparr>kc_map := filter (\<lambda>(kv_id, sid). \<not> sub_is_closed w sid) (kc_map k)\<rparr>
     in (k, fold (\<lambda>(kv_id, sid). drop_sub sid) dead (set_conn c k w)))"

definition open_request :: "'d kv_env \<Rightarrow> nat \<Rightarrow> bytes \<Rightarrow> 'd kv_world \<Rightarrow> 'd kv_world" where
  "open_request ev c data w = (case parse_kv_open data of
     None \<Rightarrow> refuse_open c (nonce_of data) KV_STATUS_INVALID ''malformed request'' w
   | Some (nonce, flags, inline_max, prefix) \<Rightarrow>
     if flags \<noteq> 0 then refuse_open c (nonce_of data) KV_STATUS_INVALID ''unknown flags'' w
     else case hm_get (kw_conns w) c of None \<Rightarrow> w
     | Some k \<Rightarrow>
       let (k, w) = sweep_closed c k w in
       if length (hm_keys (kc_map k)) \<ge> cfg_max_subs (ev_cfg ev)
       then refuse_open c (nonce_of data) KV_STATUS_BUDGET ''subscription limit reached'' w
       else case alloc_id k of
           (k, None) \<Rightarrow> refuse_open c (nonce_of data) KV_STATUS_BUDGET ''no ids left'' (set_conn c k w)
         | (k, Some kv_id) \<Rightarrow>
           let sid = kw_next_sub w;
               sub = sub_new c kv_id prefix inline_max (cfg_unacked_max (ev_cfg ev));
               w = w\<lparr>kw_heap := hm_insert sid sub (kw_heap w), kw_next_sub := sid + 1\<rparr>;
               w = set_conn c (k\<lparr>kc_opening := Some (Accepted sid)\<rparr>) w
           in send_to c (msg_kv_opened nonce kv_id KV_STATUS_OK []) w)"

text \<open>\<open>entries.range(prefix..).take_while(starts_with)\<close>.\<close>

definition matching_entries :: "bytes \<Rightarrow> (bytes, store_entry) btree_map \<Rightarrow> (bytes \<times> store_entry) list" where
  "matching_entries prefix entries = prefix_range prefix entries"

definition snapshot_record :: "nat \<Rightarrow> bytes \<times> store_entry \<Rightarrow> kv_record" where
  "snapshot_record limit m = (case m of (key, e) \<Rightarrow>
     entry_record key e (if length (en_value e) \<le> limit then Some (en_value e) else None))"

fun snapshot_loop :: "nat \<Rightarrow> (bytes \<times> store_entry) list \<Rightarrow> bytes \<Rightarrow> bytes list" where
  "snapshot_loop limit [] records = [records]"
| "snapshot_loop limit (m # matching) records =
    (let records = append_kv_record records (snapshot_record limit m) in
     if length records \<ge> SNAPSHOT_CHUNK then records # snapshot_loop limit matching []
     else snapshot_loop limit matching records)"

fun mark_last :: "bytes list \<Rightarrow> (u8 \<times> bytes) list" where
  "mark_last [] = []"
| "mark_last [chunk] = [(KV_UPDATE_SNAPSHOT_END, chunk)]"
| "mark_last (chunk # chunks) = (0, chunk) # mark_last chunks"

definition open_register :: "nat \<Rightarrow> 'd kv_world \<Rightarrow> 'd kv_world" where
  "open_register c w = (case hm_get (kw_conns w) c of None \<Rightarrow> w
     | Some k \<Rightarrow> (case kc_opening k of
         Some (Accepted sid) \<Rightarrow> (case hm_get (kw_heap w) sid of None \<Rightarrow> w
           | Some sub \<Rightarrow>
             let w = w\<lparr>kw_subs := filter (\<lambda>sid. hm_get (kw_heap w) sid \<noteq> None) (kw_subs w) @ [sid]\<rparr>;
                 matching = matching_entries (se_prefix sub) (kw_entries w);
                 chunks = mark_last (snapshot_loop (inline_limit sub) matching [])
             in set_conn c (k\<lparr>kc_opening := Some (Sending sid chunks)\<rparr>) w)
       | _ \<Rightarrow> w))"

definition set_opening :: "nat \<Rightarrow> open_task option \<Rightarrow> 'd kv_world \<Rightarrow> 'd kv_world" where
  "set_opening c op w = (case hm_get (kw_conns w) c of None \<Rightarrow> w
     | Some k \<Rightarrow> set_conn c (k\<lparr>kc_opening := op\<rparr>) w)"

definition opening_of :: "'d kv_world \<Rightarrow> nat \<Rightarrow> open_task option" where
  "opening_of w c = (case hm_get (kw_conns w) c of None \<Rightarrow> None | Some k \<Rightarrow> kc_opening k)"

definition sub_kv_id :: "'d kv_world \<Rightarrow> nat \<Rightarrow> u16" where
  "sub_kv_id w sid = (case hm_get (kw_heap w) sid of None \<Rightarrow> 0 | Some s \<Rightarrow> se_kv_id s)"

definition open_chunk :: "'d kv_env \<Rightarrow> nat \<Rightarrow> 'd kv_world \<Rightarrow> 'd kv_world" where
  "open_chunk ev c w = (case opening_of w c of
     Some (Sending sid ((flags, chunk) # chunks)) \<Rightarrow>
       (case on_sub sid (send_chunk (msg_kv_update (ev_compress ev) (sub_kv_id w sid) 0 flags chunk)) w of
          (w, ok) \<Rightarrow> set_opening c (Some (Sending sid (if ok then chunks else []))) w)
   | _ \<Rightarrow> w)"

definition open_finish :: "nat \<Rightarrow> 'd kv_world \<Rightarrow> 'd kv_world" where
  "open_finish c w = (case opening_of w c of
     Some (Sending sid []) \<Rightarrow>
       (let w = fst (on_sub sid (\<lambda>st. (go_live st, True)) w) in
        case hm_get (kw_conns w) c of None \<Rightarrow> w
        | Some k \<Rightarrow>
          if sub_is_closed w sid then drop_sub sid (set_conn c (k\<lparr>kc_opening := None\<rparr>) w)
          else set_conn c (k\<lparr>kc_map := hm_insert (sub_kv_id w sid) sid (kc_map k), kc_opening := None\<rparr>) w)
   | _ \<Rightarrow> w)"

subsection \<open>The other requests\<close>

definition stop_request :: "nat \<Rightarrow> bytes \<Rightarrow> 'd kv_world \<Rightarrow> 'd kv_world" where
  "stop_request c data w = (case parse_kv_stop data of None \<Rightarrow> w
     | Some kv_id \<Rightarrow> (case hm_get (kw_conns w) c of None \<Rightarrow> w
       | Some k \<Rightarrow> (case hm_get (kc_map k) kv_id of None \<Rightarrow> w
         | Some sid \<Rightarrow> drop_sub sid (set_conn c (k\<lparr>kc_map := hm_remove kv_id (kc_map k)\<rparr>) w))))"

definition ack_request :: "nat \<Rightarrow> bytes \<Rightarrow> 'd kv_world \<Rightarrow> 'd kv_world" where
  "ack_request c data w = (case parse_kv_ack data of None \<Rightarrow> w
     | Some (kv_id, update_id) \<Rightarrow> (case hm_get (kw_conns w) c of None \<Rightarrow> w
       | Some k \<Rightarrow> (case hm_get (kc_map k) kv_id of None \<Rightarrow> w
         | Some sid \<Rightarrow> fst (on_sub sid (\<lambda>(s, ob). ((sub_ack update_id s, ob), True)) w))))"

definition pending_puts :: "'d kv_world \<Rightarrow> nat \<Rightarrow> nat" where
  "pending_puts w c = (case hm_get (kw_conns w) c of None \<Rightarrow> 0 | Some k \<Rightarrow> kc_pending_puts k)"

definition KV_PUT_KNOWN :: u8 where
  "KV_PUT_KNOWN = KV_PUT_NO_CAS OR KV_PUT_DELETE OR KV_PUT_DURABLE"

definition put_done :: "nat \<Rightarrow> u16 \<Rightarrow> u8 \<Rightarrow> u128 \<Rightarrow> u64 \<Rightarrow> 'd kv_world \<Rightarrow> 'd kv_world" where
  "put_done c nonce status hash mtime_ns w = send_to c (msg_kv_done nonce status hash mtime_ns) w"

text \<open>
  Queue the mutation of \<open>key\<close>.  A queued durable job leaves the reply and the echo to the writer;
  otherwise both happen here.
\<close>

definition put_finish :: "'d kv_env \<Rightarrow> nat \<Rightarrow> u16 \<Rightarrow> bool \<Rightarrow> bytes \<Rightarrow> (bytes \<times> u64) option \<Rightarrow> u128 \<Rightarrow> u64 \<Rightarrow>
    'd kv_world \<Rightarrow> 'd kv_world" where
  "put_finish ev c nonce durable key v hash mtime_ns w =
    (let reply = (if durable
           then Some \<lparr>dr_conn = c, dr_nonce = nonce, dr_hash = hash, dr_mtime_ns = mtime_ns\<rparr> else None);
         w = (if durable then pending_add c w else w);
         (w, queued) = enqueue key v reply w
     in if durable \<and> queued then w
        else broadcast (ev_compress ev) key
          (put_done c nonce (if durable then KV_STATUS_OTHER else KV_STATUS_OK) hash mtime_ns w))"

text \<open>The part of a put that runs under the store lock.\<close>

definition put_locked :: "'d kv_env \<Rightarrow> u64 \<Rightarrow> nat \<Rightarrow> u16 \<Rightarrow> kv_put \<Rightarrow> u128 \<Rightarrow> 'd kv_world \<Rightarrow> 'd kv_world" where
  "put_locked ev now c nonce put hash w =
    (let delete = (kp_flags put AND KV_PUT_DELETE \<noteq> 0);
         no_cas = (kp_flags put AND KV_PUT_NO_CAS \<noteq> 0);
         durable = (kp_flags put AND KV_PUT_DURABLE \<noteq> 0);
         key = kp_key put;
         current = bt_get (kw_entries w) key;
         current_hash = (case current of Some e \<Rightarrow> en_hash e | None \<Rightarrow> 0)
     in if \<not> no_cas \<and> kp_base put \<noteq> current_hash then put_done c nonce KV_STATUS_CONFLICT current_hash 0 w
        else if delete then
          (case current of
             Some removed \<Rightarrow>
               put_finish ev c nonce durable key None 0 0
                 (w\<lparr>kw_entries := bt_remove key (kw_entries w),
                    kw_total_bytes := kw_total_bytes w - (length key + length (en_value removed))\<rparr>)
           | None \<Rightarrow> put_done c nonce KV_STATUS_OK 0 0 w)
        else
          let new_bytes = length key + length (kp_value put);
              old_bytes = (case current of Some e \<Rightarrow> length key + length (en_value e) | None \<Rightarrow> 0)
          in if current = None \<and> length (bt_keys (kw_entries w)) \<ge> cfg_max_entries (ev_cfg ev)
             then put_done c nonce KV_STATUS_BUDGET 0 0 w
             else if kw_total_bytes w - old_bytes + new_bytes > cfg_total_max (ev_cfg ev)
             then put_done c nonce KV_STATUS_BUDGET 0 0 w
             else put_finish ev c nonce durable key (Some (kp_value put, now)) hash now
               (w\<lparr>kw_total_bytes := kw_total_bytes w - old_bytes + new_bytes,
                  kw_entries := bt_insert key \<lparr>en_value = kp_value put, en_hash = hash, en_mtime_ns = now\<rparr>
                    (kw_entries w)\<rparr>))"

definition put_request :: "'d kv_env \<Rightarrow> u64 \<Rightarrow> nat \<Rightarrow> bytes \<Rightarrow> 'd kv_world \<Rightarrow> 'd kv_world" where
  "put_request ev now c data w =
    (let nonce = nonce_of data; value_max = cfg_value_max (ev_cfg ev) in
     if (case kv_put_declared_value_len data of Some len \<Rightarrow> len > value_max | None \<Rightarrow> False)
     then put_done c nonce KV_STATUS_TOO_LARGE 0 0 w
     else case parse_kv_put (ev_decompress ev) data of
       None \<Rightarrow> put_done c nonce KV_STATUS_INVALID 0 0 w
     | Some put \<Rightarrow>
       if kp_flags put AND NOT KV_PUT_KNOWN \<noteq> 0 \<or> \<not> kv_key_valid (kp_key put)
       then put_done c nonce KV_STATUS_INVALID 0 0 w
       else let delete = (kp_flags put AND KV_PUT_DELETE \<noteq> 0);
                no_cas = (kp_flags put AND KV_PUT_NO_CAS \<noteq> 0);
                durable = (kp_flags put AND KV_PUT_DURABLE \<noteq> 0)
       in if delete \<and> kp_value put \<noteq> [] then put_done c nonce KV_STATUS_INVALID 0 0 w
          else if delete \<and> \<not> no_cas \<and> kp_base put = 0 then put_done c nonce KV_STATUS_INVALID 0 0 w
          else if \<not> delete \<and> length (kp_value put) > value_max then put_done c nonce KV_STATUS_TOO_LARGE 0 0 w
          else if durable \<and> pending_puts w c \<ge> cfg_max_inflight (ev_cfg ev)
          then put_done c nonce KV_STATUS_BUDGET 0 0 w
          else put_locked ev now c nonce put (if delete then 0 else ev_hash ev (kp_value put)) w)"

definition fetch_request :: "'d kv_env \<Rightarrow> nat \<Rightarrow> bytes \<Rightarrow> 'd kv_world \<Rightarrow> 'd kv_world" where
  "fetch_request ev c data w = (case parse_kv_fetch data of
     None \<Rightarrow> send_to c (msg_kv_value (ev_compress ev) (nonce_of data) KV_STATUS_INVALID 0 []) w
   | Some (nonce, key) \<Rightarrow> (case bt_get (kw_entries w) key of
       Some e \<Rightarrow> send_to c (msg_kv_value (ev_compress ev) nonce KV_STATUS_OK (en_hash e) (en_value e)) w
     | None \<Rightarrow> send_to c (msg_kv_value (ev_compress ev) nonce KV_STATUS_NOT_FOUND 0 []) w))"

text \<open>
  \<open>handle_kv_message\<close> on a message that is not empty (its caller dispatches on the first byte); an
  \<open>OPEN\<close> goes on with \<open>open_register\<close>, \<open>open_chunk\<close> and \<open>open_finish\<close>.
\<close>

definition handle_kv_message :: "'d kv_env \<Rightarrow> u64 \<Rightarrow> nat \<Rightarrow> bytes \<Rightarrow> 'd kv_world \<Rightarrow> 'd kv_world" where
  "handle_kv_message ev now c data w =
    (let opcode = data ! 0 in
     if opcode = C2S_KV_OPEN then open_request ev c data w
     else if opcode = C2S_KV_STOP then stop_request c data w
     else if opcode = C2S_KV_ACK then ack_request c data w
     else if opcode = C2S_KV_PUT then put_request ev now c data w
     else if opcode = C2S_KV_FETCH then fetch_request ev c data w
     else w)"

definition refuse_kv_message :: "'d kv_env \<Rightarrow> nat \<Rightarrow> bytes \<Rightarrow> 'd kv_world \<Rightarrow> 'd kv_world" where
  "refuse_kv_message ev c data w =
    (let nonce = nonce_of data; opcode = data ! 0 in
     if opcode = C2S_KV_OPEN then refuse_open c nonce KV_STATUS_PERMISSION ''kv disabled'' w
     else if opcode = C2S_KV_PUT then put_done c nonce KV_STATUS_PERMISSION 0 0 w
     else if opcode = C2S_KV_FETCH then send_to c (msg_kv_value (ev_compress ev) nonce KV_STATUS_PERMISSION 0 []) w
     else w)"

subsection \<open>Connections come and go\<close>

definition kv_connect :: "'d kv_world \<Rightarrow> 'd kv_world" where
  "kv_connect w = (let c = kw_next_conn w in set_conn c kv_conn_new (w\<lparr>kw_next_conn := c + 1\<rparr>))"

text \<open>The outbox stops accepting.\<close>

definition kv_hang_up :: "nat \<Rightarrow> 'd kv_world \<Rightarrow> 'd kv_world" where
  "kv_hang_up c w = (case hm_get (kw_conns w) c of None \<Rightarrow> w
     | Some k \<Rightarrow> set_conn c (k\<lparr>kc_out := (kc_out k)\<lparr>ob_up := False\<rparr>\<rparr>) w)"

text \<open>\<open>KvSubs\<close> is dropped with its connection, and its subscriptions with it.\<close>

definition kv_disconnect :: "nat \<Rightarrow> 'd kv_world \<Rightarrow> 'd kv_world" where
  "kv_disconnect c w = (case hm_get (kw_conns w) c of None \<Rightarrow> w
     | Some k \<Rightarrow> fold (\<lambda>(kv_id, sid). drop_sub sid) (kc_map k) (w\<lparr>kw_conns := hm_remove c (kw_conns w)\<rparr>))"

end
