(* ===== verification/Kv_System.thy ===== *)
theory Kv_System
  imports Kv_Store
begin

text \<open>
  The store as a system of concurrent tasks: every connection's task, the writer thread and the
  environment that opens and closes connections take turns.  A step is what runs under one lock
  without another task being able to see the middle of it.  The theory fixes which part of the state
  each operation leaves alone, and the step relation.
\<close>

subsection \<open>Lookups\<close>

lemma hm_get_insert [simp]: "hm_get (hm_insert k v m) = (hm_get m)(k \<mapsto> v)"
  by (simp add: hm_get_def hm_insert_def update_conv' fun_eq_iff)

lemma hm_get_remove [simp]: "hm_get (hm_remove k m) = (hm_get m)(k := None)"
  by (simp add: hm_get_def hm_remove_def delete_conv' fun_eq_iff)

lemma hm_get_filter: "hm_inv m \<Longrightarrow> hm_get (filter (\<lambda>(k, v). P v) m) k
    = (case hm_get m k of Some v \<Rightarrow> if P v then Some v else None | None \<Rightarrow> None)"
  unfolding hm_get_def hm_inv_def
  by (induction m) (auto split: option.splits simp: map_of_eq_None_iff intro!: map_of_eq_None_iff[THEN iffD2])

lemma hm_inv_filter: "hm_inv m \<Longrightarrow> hm_inv (filter P m)"
  by (auto simp: hm_inv_def distinct_map_filter)

subsection \<open>What an operation leaves alone\<close>

text \<open>Everything but the connections, the heap and the watch list.\<close>

record 'd kv_core =
  co_entries :: "(bytes, store_entry) btree_map"
  co_total :: nat
  co_writer :: bool
  co_receiver :: bool
  co_queue :: "write_job list"
  co_phase :: writer_phase
  co_db :: 'd
  co_next_sub :: nat
  co_next_conn :: nat

definition store_core :: "'d kv_world \<Rightarrow> 'd kv_core" where
  "store_core w = \<lparr>co_entries = kw_entries w, co_total = kw_total_bytes w, co_writer = kw_writer w,
     co_receiver = kw_receiver w, co_queue = kw_queue w, co_phase = kw_phase w, co_db = kw_db w,
     co_next_sub = kw_next_sub w, co_next_conn = kw_next_conn w\<rparr>"

lemma kv_core_fields:
  assumes "store_core w' = store_core w"
  shows "kw_entries w' = kw_entries w" "kw_total_bytes w' = kw_total_bytes w" "kw_writer w' = kw_writer w"
    "kw_receiver w' = kw_receiver w" "kw_queue w' = kw_queue w" "kw_phase w' = kw_phase w" "kw_db w' = kw_db w"
    "kw_next_sub w' = kw_next_sub w" "kw_next_conn w' = kw_next_conn w"
  using assms by (simp_all add: store_core_def)

lemma core_set_conn [simp]: "store_core (set_conn c k w) = store_core w"
  by (simp add: set_conn_def store_core_def)

lemma core_send_to [simp]: "store_core (send_to c msg w) = store_core w"
  by (simp add: send_to_def split: option.split)

lemma core_put_done [simp]: "store_core (put_done c nonce status h t w) = store_core w"
  by (simp add: put_done_def)

lemma core_refuse_open [simp]: "store_core (refuse_open c nonce status d w) = store_core w"
  by (simp add: refuse_open_def)

lemma core_on_sub [simp]: "store_core (fst (on_sub sid f w)) = store_core w"
  by (simp add: on_sub_def split: option.split prod.split) (simp add: store_core_def)

lemma core_drop_sub [simp]: "store_core (drop_sub sid w) = store_core w"
  by (simp add: drop_sub_def store_core_def)

lemma core_drop_subs [simp]: "store_core (fold (\<lambda>(kv_id, sid). drop_sub sid) m w) = store_core w"
  by (induction m arbitrary: w) auto

lemma core_pending_add [simp]: "store_core (pending_add c w) = store_core w"
  by (simp add: pending_add_def split: option.split)

lemma core_drop_reply [simp]: "store_core (drop_reply r w) = store_core w"
  by (simp add: drop_reply_def split: option.split)

lemma core_broadcast_one: "store_core (fst (broadcast_one compress key sid st)) = store_core (fst st)"
proof -
  obtain w kept where st: "st = (w, kept)" by (cases st)
  show ?thesis
  proof (cases "hm_get (kw_heap w) sid")
    case None
    then show ?thesis by (simp add: st broadcast_one_def)
  next
    case (Some sub)
    then show ?thesis by (auto simp: st broadcast_one_def Let_def split: prod.split)
      (metis core_on_sub fst_conv)+
  qed
qed

lemma core_broadcast_fold: "store_core (fst (fold (broadcast_one compress key) sids st)) = store_core (fst st)"
  by (induction sids arbitrary: st) (simp_all add: core_broadcast_one)

lemma core_set_subs: "store_core (w\<lparr>kw_subs := s\<rparr>) = store_core w"
  by (simp add: store_core_def)

lemma core_broadcast [simp]: "store_core (broadcast compress key w) = store_core w"
  using core_broadcast_fold[of compress key "kw_subs w" "(w, [])"]
  by (auto simp: broadcast_def core_set_subs split: prod.split)

lemma core_set_opening [simp]: "store_core (set_opening c op w) = store_core w"
  by (simp add: set_opening_def split: option.split)

lemma core_sweep_closed [simp]: "store_core (snd (sweep_closed c k w)) = store_core w"
  by (simp add: sweep_closed_def Let_def)

lemma core_open_register [simp]: "store_core (open_register c w) = store_core w"
  by (simp add: open_register_def Let_def core_set_subs split: option.split open_task.split)

lemma core_open_chunk [simp]: "store_core (open_chunk ev c w) = store_core w"
  by (auto simp: open_chunk_def split: option.split open_task.split list.split prod.split)
    (metis core_on_sub fst_conv)+

lemma core_open_finish [simp]: "store_core (open_finish c w) = store_core w"
  by (auto simp: open_finish_def Let_def split: option.split open_task.split list.split)

lemma core_stop_request [simp]: "store_core (stop_request c data w) = store_core w"
  by (simp add: stop_request_def split: option.split)

lemma core_ack_request [simp]: "store_core (ack_request c data w) = store_core w"
  by (simp add: ack_request_def split: option.split)

lemma core_fetch_request [simp]: "store_core (fetch_request ev c data w) = store_core w"
  by (simp add: fetch_request_def split: option.split)

lemma core_refuse [simp]: "store_core (refuse_kv_message ev c data w) = store_core w"
  by (simp add: refuse_kv_message_def Let_def)

lemma core_hang_up [simp]: "store_core (kv_hang_up c w) = store_core w"
  by (simp add: kv_hang_up_def split: option.split)

lemma core_disconnect [simp]: "store_core (kv_disconnect c w) = store_core w"
proof -
  have "store_core (w\<lparr>kw_conns := m\<rparr>) = store_core w" for m by (simp add: store_core_def)
  then show ?thesis by (simp add: kv_disconnect_def split: option.split)
qed

text \<open>The operations that change the core change one part of it.\<close>

lemma core_open_request:
  "store_core (open_request ev c data w) = store_core w \<or>
   store_core (open_request ev c data w) = (store_core w)\<lparr>co_next_sub := kw_next_sub w + 1\<rparr>"
proof (cases "\<exists>n i p. parse_kv_open data = Some (n, 0, i, p) \<and> hm_get (kw_conns w) c \<noteq> None")
  case False
  then show ?thesis
    by (auto simp: open_request_def split: option.split)
next
  case True
  then obtain n i p k where p: "parse_kv_open data = Some (n, 0, i, p)" "hm_get (kw_conns w) c = Some k" by auto
  obtain k1 w1 where s: "sweep_closed c k w = (k1, w1)" by (cases "sweep_closed c k w")
  then have c1: "store_core w1 = store_core w" using core_sweep_closed[of c k w] by simp
  obtain k2 r where a: "alloc_id k1 = (k2, r)" by (cases "alloc_id k1")
  have "store_core (w1\<lparr>kw_heap := h, kw_next_sub := Suc (kw_next_sub w1)\<rparr>) = (store_core w)\<lparr>co_next_sub := kw_next_sub w + 1\<rparr>" for h
    using c1 kv_core_fields(8)[OF c1] by (simp add: store_core_def)
  then show ?thesis
    using c1 by (cases r) (simp_all add: open_request_def p s a Let_def)
qed

subsection \<open>The step relation\<close>

inductive kv_step :: "'d kv_env \<Rightarrow> 'd kv_world \<Rightarrow> 'd kv_world \<Rightarrow> bool" for ev where
  connect: "kv_step ev w (kv_connect w)"
| hang_up: "kv_step ev w (kv_hang_up c w)"
| disconnect: "opening_of w c = None \<Longrightarrow> kv_step ev w (kv_disconnect c w)"
| message: "hm_get (kw_conns w) c \<noteq> None \<Longrightarrow> opening_of w c = None \<Longrightarrow> data \<noteq> [] \<Longrightarrow>
    kv_step ev w (handle_kv_message ev now c data w)"
| refused: "hm_get (kw_conns w) c \<noteq> None \<Longrightarrow> opening_of w c = None \<Longrightarrow> data \<noteq> [] \<Longrightarrow>
    kv_step ev w (refuse_kv_message ev c data w)"
| register: "kv_step ev w (open_register c w)"
| chunk: "kv_step ev w (open_chunk ev c w)"
| finish: "kv_step ev w (open_finish c w)"
| writer_take: "kv_step ev w (writer_take w)"
| writer_commit: "kv_step ev w (writer_commit ev w)"
| writer_reply: "kv_step ev w (writer_reply w)"
| writer_echo: "kv_step ev w (writer_echo ev w)"

definition kv_reach :: "'d kv_env \<Rightarrow> 'd kv_world \<Rightarrow> 'd kv_world \<Rightarrow> bool" where
  "kv_reach ev = (kv_step ev)\<^sup>*\<^sup>*"

lemma kv_reach_refl [simp]: "kv_reach ev w w"
  by (simp add: kv_reach_def)

lemma kv_reach_step: "kv_reach ev w w' \<Longrightarrow> kv_step ev w' w'' \<Longrightarrow> kv_reach ev w w''"
  by (simp add: kv_reach_def)

lemma kv_reach_induct [consumes 1, case_names start step]:
  assumes "kv_reach ev w w'" and "P w" and "\<And>v v'. kv_reach ev w v \<Longrightarrow> kv_step ev v v' \<Longrightarrow> P v \<Longrightarrow> P v'"
  shows "P w'"
  using assms(1) unfolding kv_reach_def
proof (induction rule: rtranclp_induct)
  case base
  show ?case by (rule assms(2))
next
  case (step v v')
  then show ?case using assms(3)[of v v'] by (simp add: kv_reach_def)
qed

end
