(* ===== verification/Kv_Budget.thy ===== *)
theory Kv_Budget
  imports Kv_System
begin

text \<open>
  What the store keeps count of: the bytes and the number of its entries, and the durable puts each
  connection has in flight.  Only a put's locked part and \<open>Store::open\<close> change the first, only the
  queue and the writer the second.
\<close>

subsection \<open>Entries and their bytes\<close>

definition entry_bytes :: "bytes \<times> store_entry \<Rightarrow> nat" where
  "entry_bytes m = (case m of (key, e) \<Rightarrow> length key + length (en_value e))"

definition bytes_total :: "(bytes, store_entry) btree_map \<Rightarrow> nat" where
  "bytes_total m = sum_list (map entry_bytes m)"

definition key_bytes :: "(bytes, store_entry) btree_map \<Rightarrow> bytes \<Rightarrow> nat" where
  "key_bytes m key = (case bt_get m key of Some e \<Rightarrow> length key + length (en_value e) | None \<Rightarrow> 0)"

lemma bytes_total_simps [simp]:
  "bytes_total [] = 0" "bytes_total (x # m) = entry_bytes x + bytes_total m"
  by (simp_all add: bytes_total_def)

lemma map_of_below: "\<forall>x \<in> set m. (k'::'k::linorder) < fst x \<Longrightarrow> k < k' \<Longrightarrow> map_of m k = None"
  by (rule bt_map_of_fresh) (auto intro: less_trans)

lemma bytes_total_insert:
  "bt_inv m \<Longrightarrow> bytes_total (bt_insert key e m) + key_bytes m key = bytes_total m + entry_bytes (key, e)"
  by (induction key e m rule: bt_insert.induct)
    (auto simp: key_bytes_def bt_get_def entry_bytes_def map_of_below)

lemma bytes_total_remove: "bt_inv m \<Longrightarrow> bytes_total (bt_remove key m) + key_bytes m key = bytes_total m"
  by (induction key m rule: bt_remove.induct)
    (auto simp: key_bytes_def bt_get_def entry_bytes_def bt_map_of_fresh)

lemma key_bytes_le: "bt_inv m \<Longrightarrow> key_bytes m key \<le> bytes_total m"
  using bytes_total_remove[of m key] by simp

text \<open>
  An entry is what \<open>put\<close> and \<open>Store::open\<close> write: its hash is the hash of its value, its key is a
  string the wire format can carry, its value fits the budget.
\<close>

definition entry_ok :: "'d kv_env \<Rightarrow> bytes \<Rightarrow> store_entry \<Rightarrow> bool" where
  "entry_ok ev key e \<longleftrightarrow> en_hash e = ev_hash ev (en_value e) \<and> utf8_valid key \<and> length key \<le> KV_MAX_KEY
     \<and> length (en_value e) \<le> cfg_value_max (ev_cfg ev)"

definition store_ok :: "'d kv_env \<Rightarrow> nat \<Rightarrow> nat \<Rightarrow> (bytes, store_entry) btree_map \<Rightarrow> nat \<Rightarrow> bool" where
  "store_ok ev most count entries total_bytes \<longleftrightarrow> bt_inv entries \<and> total_bytes = bytes_total entries
     \<and> total_bytes \<le> max most (cfg_total_max (ev_cfg ev))
     \<and> length entries \<le> max count (cfg_max_entries (ev_cfg ev))
     \<and> (\<forall>key e. bt_get entries key = Some e \<longrightarrow> entry_ok ev key e)"

lemma length_bt_insert:
  "bt_inv m \<Longrightarrow> length (bt_insert k v m) = (if bt_get m k = None then Suc (length m) else length m)"
  using bt.length_keys_insert[of m k v] by (auto simp: bt_keys_def)

lemma length_bt_remove: "length (bt_remove k m) \<le> length m"
  by (induction k m rule: bt_remove.induct) auto

lemma store_ok_insert:
  assumes "store_ok ev most count m t" and "entry_ok ev key e"
    and "bt_get m key = None \<Longrightarrow> length m < cfg_max_entries (ev_cfg ev)"
    and "t - key_bytes m key + entry_bytes (key, e) \<le> cfg_total_max (ev_cfg ev)"
  shows "store_ok ev most count (bt_insert key e m) (t - key_bytes m key + entry_bytes (key, e))"
proof -
  have m: "bt_inv m" "t = bytes_total m" using assms(1) by (simp_all add: store_ok_def)
  have "bytes_total (bt_insert key e m) = t - key_bytes m key + entry_bytes (key, e)"
    using bytes_total_insert[OF m(1), of key e] key_bytes_le[OF m(1), of key] m(2) by simp
  moreover have "length (bt_insert key e m) \<le> max count (cfg_max_entries (ev_cfg ev))"
    using assms(1,3) by (auto simp: length_bt_insert[OF m(1)] store_ok_def)
  ultimately show ?thesis
    using assms(1,2,4) m(1) by (auto simp: store_ok_def bt.inv_insert bt.lookup_insert)
qed

lemma store_ok_remove:
  assumes "store_ok ev most count m t"
  shows "store_ok ev most count (bt_remove key m) (t - key_bytes m key)"
proof -
  have m: "bt_inv m" "t = bytes_total m" using assms by (simp_all add: store_ok_def)
  have "bytes_total (bt_remove key m) = t - key_bytes m key"
    using bytes_total_remove[OF m(1), of key] m(2) by simp
  then show ?thesis
    using assms m(1) le_trans[OF length_bt_remove[of key m]]
    by (auto simp: store_ok_def bt.inv_delete bt.lookup_delete split: if_splits)
qed

subsection \<open>The core of a put\<close>

lemma core_enqueue:
  "store_core (fst (enqueue key v r w)) =
    (if kw_writer w \<and> kw_receiver w
     then (store_core w)\<lparr>co_queue := kw_queue w @ [\<lparr>wj_key = key, wj_value = v, wj_reply = r\<rparr>]\<rparr>
     else if kw_writer w then (store_core w)\<lparr>co_writer := False\<rparr> else store_core w)"
proof -
  have "store_core (w\<lparr>kw_writer := False\<rparr>) = (store_core w)\<lparr>co_writer := False\<rparr>" by (simp add: store_core_def)
  moreover have "store_core (w\<lparr>kw_queue := q\<rparr>) = (store_core w)\<lparr>co_queue := q\<rparr>" for q by (simp add: store_core_def)
  ultimately show ?thesis by (simp add: enqueue_def)
qed

lemma snd_enqueue: "snd (enqueue key v r w) \<longleftrightarrow> kw_writer w \<and> kw_receiver w"
  by (simp add: enqueue_def)

lemma core_fields_upd:
  "store_core w' = (store_core w)\<lparr>co_queue := q\<rparr> \<Longrightarrow> kw_entries w' = kw_entries w \<and> kw_total_bytes w' = kw_total_bytes w"
  "store_core w' = (store_core w)\<lparr>co_writer := b\<rparr> \<Longrightarrow> kw_entries w' = kw_entries w \<and> kw_total_bytes w' = kw_total_bytes w"
  "store_core w' = (store_core w)\<lparr>co_next_sub := n\<rparr> \<Longrightarrow> kw_entries w' = kw_entries w \<and> kw_total_bytes w' = kw_total_bytes w"
  by (simp_all add: store_core_def)

lemma core_pending_if: "store_core (if b then pending_add c w else w) = store_core w"
  by simp

lemma core_put_finish:
  fixes ev c nonce durable key v hash mtime_ns and w :: "'d kv_world"
  defines "reply \<equiv> if durable then Some \<lparr>dr_conn = c, dr_nonce = nonce, dr_hash = hash, dr_mtime_ns = mtime_ns\<rparr> else None"
  shows "store_core (put_finish ev c nonce durable key v hash mtime_ns w) =
    (if kw_writer w \<and> kw_receiver w
     then (store_core w)\<lparr>co_queue := kw_queue w @ [\<lparr>wj_key = key, wj_value = v, wj_reply = reply\<rparr>]\<rparr>
     else if kw_writer w then (store_core w)\<lparr>co_writer := False\<rparr> else store_core w)"
proof -
  define w1 where "w1 = (if durable then pending_add c w else w)"
  have w1: "store_core w1 = store_core w" by (simp add: w1_def)
  note f = kv_core_fields[OF w1]
  obtain w2 queued where e: "enqueue key v reply w1 = (w2, queued)" by (cases "enqueue key v reply w1")
  have "store_core (put_finish ev c nonce durable key v hash mtime_ns w) = store_core w2"
    unfolding put_finish_def Let_def reply_def[symmetric] w1_def[symmetric] e by simp
  moreover have "store_core w2 = store_core (fst (enqueue key v reply w1))" using e by simp
  ultimately show ?thesis by (simp add: core_enqueue f w1)
qed

lemma put_finish_store:
  "kw_entries (put_finish ev c nonce durable key v hash mtime_ns w) = kw_entries w"
  "kw_total_bytes (put_finish ev c nonce durable key v hash mtime_ns w) = kw_total_bytes w"
  using core_put_finish[of ev c nonce durable key v hash mtime_ns w]
  by (auto split: if_splits dest: core_fields_upd kv_core_fields(1,2))

text \<open>What the locked part of a put does to the map.\<close>

lemma put_locked_store:
  fixes ev :: "'d kv_env" and now c nonce hash and w :: "'d kv_world"
  assumes "store_ok ev most count (kw_entries w) (kw_total_bytes w)"
    and "kp_flags put AND KV_PUT_DELETE = 0 \<Longrightarrow> hash = ev_hash ev (kp_value put)
      \<and> length (kp_value put) \<le> cfg_value_max (ev_cfg ev)"
    and "utf8_valid (kp_key put)" "kv_key_valid (kp_key put)"
  defines "w' \<equiv> put_locked ev now c nonce put hash w"
  shows "store_ok ev most count (kw_entries w') (kw_total_bytes w')"
proof -
  let ?m = "kw_entries w" and ?key = "kp_key put" and ?t = "kw_total_bytes w"
  let ?e = "\<lparr>en_value = kp_value put, en_hash = hash, en_mtime_ns = now\<rparr>"
  have old: "key_bytes ?m ?key = (case bt_get ?m ?key of Some e \<Rightarrow> length ?key + length (en_value e) | None \<Rightarrow> 0)"
    by (simp add: key_bytes_def)
  have keys: "length (bt_keys ?m) = length ?m" by (simp add: bt_keys_def)
  have "(kw_entries w' = ?m \<and> kw_total_bytes w' = ?t) \<or>
      (kw_entries w' = bt_remove ?key ?m \<and> kw_total_bytes w' = ?t - key_bytes ?m ?key) \<or>
      (kp_flags put AND KV_PUT_DELETE = 0 \<and> (bt_get ?m ?key = None \<longrightarrow> length ?m < cfg_max_entries (ev_cfg ev))
       \<and> ?t - key_bytes ?m ?key + entry_bytes (?key, ?e) \<le> cfg_total_max (ev_cfg ev)
       \<and> kw_entries w' = bt_insert ?key ?e ?m
       \<and> kw_total_bytes w' = ?t - key_bytes ?m ?key + entry_bytes (?key, ?e))"
  proof -
    have same: "kw_entries (put_done c nonce st h mt w) = ?m" "kw_total_bytes (put_done c nonce st h mt w) = ?t"
      for st h mt by (rule kv_core_fields, simp)+
    show ?thesis
      unfolding w'_def put_locked_def Let_def old keys entry_bytes_def
      by (cases "bt_get ?m ?key")
        (simp_all add: put_finish_store same not_le not_less)
  qed
  then show ?thesis
  proof (elim disjE conjE)
    assume "kp_flags put AND KV_PUT_DELETE = 0"
    then have "entry_ok ev ?key ?e"
      using assms(2,3,4) by (simp add: entry_ok_def kv_key_valid_def)
    moreover assume "bt_get ?m ?key = None \<longrightarrow> length ?m < cfg_max_entries (ev_cfg ev)"
      "?t - key_bytes ?m ?key + entry_bytes (?key, ?e) \<le> cfg_total_max (ev_cfg ev)"
      "kw_entries w' = bt_insert ?key ?e ?m" "kw_total_bytes w' = ?t - key_bytes ?m ?key + entry_bytes (?key, ?e)"
    ultimately show ?thesis using store_ok_insert[OF assms(1)] by simp
  qed (use assms(1) store_ok_remove in simp_all)
qed

lemma parse_kv_put_utf8: "parse_kv_put decompress msg = Some p \<Longrightarrow> utf8_valid (kp_key p)"
  by (auto simp: parse_kv_put_def Let_def get_str_def split: if_splits option.splits)

text \<open>A put is either answered without touching the store or handed to its locked part with valid arguments.\<close>

lemma put_request_cases:
  obtains (answered) status where
      "put_request ev now c data w = put_done c (nonce_of data) status 0 0 w"
      "status = KV_STATUS_TOO_LARGE \<or> status = KV_STATUS_INVALID \<or> status = KV_STATUS_BUDGET"
  | (locked) p hash where "parse_kv_put (ev_decompress ev) data = Some p" "kv_key_valid (kp_key p)"
      "utf8_valid (kp_key p)"
      "kp_flags p AND KV_PUT_DELETE = 0 \<Longrightarrow> hash = ev_hash ev (kp_value p)
         \<and> length (kp_value p) \<le> cfg_value_max (ev_cfg ev)"
      "kp_flags p AND KV_PUT_DELETE \<noteq> 0 \<Longrightarrow> hash = 0 \<and> kp_value p = [] \<and> (kp_flags p AND KV_PUT_NO_CAS \<noteq> 0 \<or> kp_base p \<noteq> 0)"
      "kp_flags p AND KV_PUT_DURABLE \<noteq> 0 \<Longrightarrow> pending_puts w c < cfg_max_inflight (ev_cfg ev)"
      "put_request ev now c data w = put_locked ev now c (nonce_of data) p hash w"
proof (cases "parse_kv_put (ev_decompress ev) data")
  case None
  then show thesis
    by (intro answered[of "if (case kv_put_declared_value_len data of Some len \<Rightarrow> len > cfg_value_max (ev_cfg ev)
      | None \<Rightarrow> False) then KV_STATUS_TOO_LARGE else KV_STATUS_INVALID"]) (simp_all add: put_request_def Let_def)
next
  case (Some p)
  note key = parse_kv_put_utf8[OF Some]
  define big where "big = (case kv_put_declared_value_len data of Some len \<Rightarrow> len > cfg_value_max (ev_cfg ev) | None \<Rightarrow> False)"
  define bad where "bad = (kp_flags p AND NOT KV_PUT_KNOWN \<noteq> 0 \<or> \<not> kv_key_valid (kp_key p))"
  define del where "del = (kp_flags p AND KV_PUT_DELETE \<noteq> 0)"
  define nocas where "nocas = (kp_flags p AND KV_PUT_NO_CAS \<noteq> 0)"
  define long where "long = (length (kp_value p) > cfg_value_max (ev_cfg ev))"
  define full where "full = (kp_flags p AND KV_PUT_DURABLE \<noteq> 0 \<and> pending_puts w c \<ge> cfg_max_inflight (ev_cfg ev))"
  note defs = big_def bad_def del_def nocas_def long_def full_def
  define status where "status = (if big then KV_STATUS_TOO_LARGE else if bad then KV_STATUS_INVALID
     else if del \<and> kp_value p \<noteq> [] then KV_STATUS_INVALID
     else if del \<and> \<not> nocas \<and> kp_base p = 0 then KV_STATUS_INVALID
     else if \<not> del \<and> long then KV_STATUS_TOO_LARGE else KV_STATUS_BUDGET)"
  have eq: "put_request ev now c data w =
    (if big \<or> bad \<or> del \<and> kp_value p \<noteq> [] \<or> del \<and> \<not> nocas \<and> kp_base p = 0 \<or> \<not> del \<and> long \<or> full
     then put_done c (nonce_of data) status 0 0 w
     else put_locked ev now c (nonce_of data) p (if del then 0 else ev_hash ev (kp_value p)) w)"
    unfolding put_request_def Let_def Some option.case status_def defs[symmetric]
    by (cases big; cases bad; cases del; cases nocas; cases long; cases full) simp_all
  show thesis
  proof (cases "big \<or> bad \<or> del \<and> kp_value p \<noteq> [] \<or> del \<and> \<not> nocas \<and> kp_base p = 0 \<or> \<not> del \<and> long \<or> full")
    case True
    then show thesis by (intro answered[of status]) (simp_all add: eq status_def)
  next
    case False
    then show thesis
      by (intro locked[of p "if del then 0 else ev_hash ev (kp_value p)"])
        (use key Some eq in \<open>auto simp: defs not_less\<close>)
  qed
qed

subsection \<open>Every step keeps the count\<close>

definition core_ok :: "'d kv_env \<Rightarrow> nat \<Rightarrow> nat \<Rightarrow> 'd kv_world \<Rightarrow> bool" where
  "core_ok ev most count w \<longleftrightarrow> store_ok ev most count (kw_entries w) (kw_total_bytes w)"

lemma core_ok_same: "store_core w' = store_core w \<Longrightarrow> core_ok ev most count w' \<longleftrightarrow> core_ok ev most count w"
  by (simp add: core_ok_def store_core_def)

lemmas core_ok_kept = core_ok_same[OF core_set_conn] core_ok_same[OF core_send_to] core_ok_same[OF core_put_done]
  core_ok_same[OF core_drop_reply] core_ok_same[OF core_broadcast] core_ok_same[OF core_open_register]
  core_ok_same[OF core_open_chunk] core_ok_same[OF core_open_finish] core_ok_same[OF core_stop_request]
  core_ok_same[OF core_ack_request] core_ok_same[OF core_fetch_request] core_ok_same[OF core_refuse]
  core_ok_same[OF core_hang_up] core_ok_same[OF core_disconnect]

lemma core_ok_writer:
  "core_ok ev most count (writer_take w) \<longleftrightarrow> core_ok ev most count w"
  "core_ok ev most count (writer_commit ev w) \<longleftrightarrow> core_ok ev most count w"
  "core_ok ev most count (w\<lparr>kw_phase := ph\<rparr>) \<longleftrightarrow> core_ok ev most count w"
  by (auto simp: core_ok_def writer_take_def writer_commit_def Let_def split: writer_phase.split option.split)

lemma core_ok_writer_reply: "core_ok ev most count (writer_reply w) \<longleftrightarrow> core_ok ev most count w"
proof -
  have "core_ok ev most count (send_to c m (w\<lparr>kw_phase := ph\<rparr>)) \<longleftrightarrow> core_ok ev most count w" for c m ph
    by (simp add: core_ok_kept core_ok_writer)
  then show ?thesis
    by (simp add: writer_reply_def Let_def core_ok_writer split: writer_phase.split list.split option.split)
qed

lemma core_ok_writer_echo: "core_ok ev most count (writer_echo ev w) \<longleftrightarrow> core_ok ev most count w"
proof -
  have "core_ok ev most count (drop_reply r (broadcast k key (w\<lparr>kw_phase := ph\<rparr>))) \<longleftrightarrow> core_ok ev most count w" for r k key ph
    by (simp add: core_ok_kept core_ok_writer)
  then show ?thesis by (simp add: writer_echo_def split: writer_phase.split)
qed

lemma core_ok_message:
  assumes "core_ok ev most count w"
  shows "core_ok ev most count (handle_kv_message ev now c data w)"
proof -
  have "core_ok ev most count (put_request ev now c data w)"
  proof (cases rule: put_request_cases[of ev now c data w])
    case (answered status)
    then show ?thesis using assms by (simp add: core_ok_kept)
  next
    case (locked p hash)
    then show ?thesis using assms put_locked_store by (fastforce simp: core_ok_def)
  qed
  moreover have "core_ok ev most count (open_request ev c data w)"
  proof -
    have "kw_entries (open_request ev c data w) = kw_entries w \<and> kw_total_bytes (open_request ev c data w) = kw_total_bytes w"
      using core_open_request[of ev c data w] kv_core_fields(1,2) core_fields_upd(3) by metis
    then show ?thesis using assms by (simp add: core_ok_def)
  qed
  ultimately show ?thesis
    using assms by (simp add: handle_kv_message_def Let_def core_ok_kept)
qed

lemma core_ok_step:
  assumes "kv_step ev w w'" and "core_ok ev most count w"
  shows "core_ok ev most count w'"
  using assms
proof (cases rule: kv_step.cases)
  case connect
  then show ?thesis using assms(2) by (simp add: kv_connect_def Let_def core_ok_kept) (simp add: core_ok_def)
qed (simp_all add: assms(2) core_ok_kept core_ok_message core_ok_writer core_ok_writer_reply core_ok_writer_echo)

lemma core_ok_reach:
  "kv_reach ev w w' \<Longrightarrow> core_ok ev most count w \<Longrightarrow> core_ok ev most count w'"
  by (induction rule: kv_reach_induct) (auto intro: core_ok_step)

end
