(* ===== verification/Kv_Durable.thy ===== *)
theory Kv_Durable
  imports Kv_Budget
begin

text \<open>
  Opening the store: the rows the database holds, decoded into the entries of the map, with the byte total
  and the well-formedness the running store starts from.
\<close>

subsection \<open>Opening the store\<close>

definition decode_row :: "bytes \<Rightarrow> (u64 \<times> bytes) option" where
  "decode_row raw = (if length raw < 8 then None else Some (rdw 8 raw 0, drop 8 raw))"

definition entry_of_row :: "(bytes \<Rightarrow> u128) \<Rightarrow> u64 \<times> bytes \<Rightarrow> store_entry" where
  "entry_of_row hash r = (case r of (mtime_ns, v) \<Rightarrow> \<lparr>en_value = v, en_hash = hash v, en_mtime_ns = mtime_ns\<rparr>)"

lemma load_row_decode:
  "load_row hash (key, raw) (m, t) = (case decode_row raw of None \<Rightarrow> (m, t)
     | Some (mtime_ns, v) \<Rightarrow> (bt_insert key (entry_of_row hash (mtime_ns, v)) m, t + (length key + length v)))"
  by (simp add: load_row_def decode_row_def entry_of_row_def Let_def)

lemma load_rows:
  assumes "distinct (map fst rows)" "bt_inv m" "t = bytes_total m" "\<forall>key \<in> fst ` set rows. bt_get m key = None"
    and "fold (load_row hash) rows (m, t) = (m', t')"
  shows "bt_inv m' \<and> t' = bytes_total m' \<and> length m' \<le> length m + length rows \<and>
    (\<forall>key. bt_get m' key = (case map_of rows key of None \<Rightarrow> bt_get m key
       | Some raw \<Rightarrow> map_option (entry_of_row hash) (decode_row raw)))"
  using assms
proof (induction rows arbitrary: m t)
  case Nil
  then show ?case by auto
next
  case (Cons row rows)
  obtain key raw where row: "row = (key, raw)" by (cases row)
  have fresh: "bt_get m key = None" "key \<notin> fst ` set rows" using Cons.prems(1,4) by (auto simp: row)
  show ?case
  proof (cases "decode_row raw")
    case None
    then have "bt_inv m' \<and> t' = bytes_total m' \<and> length m' \<le> length m + length rows \<and>
      (\<forall>key. bt_get m' key = (case map_of rows key of None \<Rightarrow> bt_get m key
         | Some raw \<Rightarrow> map_option (entry_of_row hash) (decode_row raw)))"
      using Cons.prems by (intro Cons.IH[of m t]) (simp_all add: row load_row_decode)
    moreover have "map_of rows key = None" using fresh(2) by (simp add: map_of_eq_None_iff)
    ultimately show ?thesis using None fresh by (auto simp: row split: option.split)
  next
    case (Some r)
    obtain mt v where r: "r = (mt, v)" by (cases r)
    define m1 where "m1 = bt_insert key (entry_of_row hash (mt, v)) m"
    have m1: "bt_inv m1" "bt_get m1 = (bt_get m)(key \<mapsto> entry_of_row hash (mt, v))" "length m1 = Suc (length m)"
      using Cons.prems(2) fresh by (simp_all add: m1_def bt.inv_insert bt.lookup_insert length_bt_insert)
    have "t + (length key + length v) = bytes_total m1"
      using bytes_total_insert[OF Cons.prems(2), of key "entry_of_row hash (mt, v)"] fresh(1) Cons.prems(3)
      by (simp add: m1_def key_bytes_def entry_bytes_def entry_of_row_def)
    then have "bt_inv m' \<and> t' = bytes_total m' \<and> length m' \<le> length m1 + length rows \<and>
      (\<forall>key. bt_get m' key = (case map_of rows key of None \<Rightarrow> bt_get m1 key
         | Some raw \<Rightarrow> map_option (entry_of_row hash) (decode_row raw)))"
      using Cons.prems(1,4,5) m1 fresh Some r
      by (intro Cons.IH[of m1 "t + (length key + length v)"]) (auto simp: row load_row_decode m1_def)
    moreover have "map_of rows key = None" using fresh(2) by (simp add: map_of_eq_None_iff)
    ultimately show ?thesis using Some r fresh m1 by (auto simp: row split: option.split)
  qed
qed

text \<open>Rows a store of this configuration may have written.\<close>

definition rows_ok :: "'d kv_env \<Rightarrow> (bytes \<times> bytes) list \<Rightarrow> bool" where
  "rows_ok ev rows \<longleftrightarrow> distinct (map fst rows) \<and> list_all (\<lambda>(key, raw). utf8_valid key \<and> length key \<le> KV_MAX_KEY
     \<and> length raw \<le> cfg_value_max (ev_cfg ev) + 8) rows"

definition loaded_entries :: "(bytes \<Rightarrow> u128) \<Rightarrow> (bytes \<times> bytes) list \<Rightarrow> (bytes, store_entry) btree_map" where
  "loaded_entries hash rows = fst (fold (load_row hash) rows ([], 0))"

lemma loaded_entries_get:
  assumes "distinct (map fst rows)"
  shows "bt_inv (loaded_entries hash rows)"
    and "bt_get (loaded_entries hash rows) key = Option.bind (map_of rows key) (\<lambda>raw. map_option (entry_of_row hash) (decode_row raw))"
proof -
  obtain m' t' where f: "fold (load_row hash) rows ([], 0) = (m', t')" by (cases "fold (load_row hash) rows ([], 0)")
  have "bt_inv m' \<and> (\<forall>key. bt_get m' key = (case map_of rows key of None \<Rightarrow> bt_get [] key
       | Some raw \<Rightarrow> map_option (entry_of_row hash) (decode_row raw)))"
    using load_rows[OF assms, of "[]" 0 hash m' t'] f by (simp add: bt_get_def)
  then show "bt_inv (loaded_entries hash rows)"
    "bt_get (loaded_entries hash rows) key = Option.bind (map_of rows key) (\<lambda>raw. map_option (entry_of_row hash) (decode_row raw))"
    using f by (auto simp: loaded_entries_def bt_get_def split: option.split)
qed

text \<open>A store just opened, on any of the paths of \<open>Store::open\<close>.\<close>

definition kv_boot :: "'d kv_env \<Rightarrow> ('d \<Rightarrow> (bytes \<times> bytes) list) \<Rightarrow> 'd kv_world \<Rightarrow> bool" where
  "kv_boot ev rows w \<longleftrightarrow> (\<exists>db loads spawned. rows_ok ev (rows db)
     \<and> w = store_open (ev_hash ev) db (if loads then Some (rows db) else None) spawned)"

lemma store_open_entries:
  "kw_entries (store_open hash db (Some rows) spawned) = loaded_entries hash rows"
  by (simp add: store_open_def loaded_entries_def split: prod.split)

lemma store_open_ok:
  fixes db :: 'd and ev :: "'d kv_env" and spawned
  assumes "rows_ok ev rows"
  defines "w \<equiv> store_open (ev_hash ev) db (Some rows) spawned"
  shows "core_ok ev (kw_total_bytes w) (length (kw_entries w)) w"
proof -
  have d: "distinct (map fst rows)" using assms(1) by (simp add: rows_ok_def)
  obtain m' t' where f: "fold (load_row (ev_hash ev)) rows ([], 0) = (m', t')"
    by (cases "fold (load_row (ev_hash ev)) rows ([], 0)")
  have m': "bt_inv m'" "t' = bytes_total m'"
    using load_rows[OF d, of "[]" 0 "ev_hash ev" m' t'] f by (simp_all add: bt_get_def)
  have "entry_ok ev key e" if "bt_get m' key = Some e" for key e
  proof -
    have "bt_get (loaded_entries (ev_hash ev) rows) key = Some e" using that f by (simp add: loaded_entries_def)
    then obtain raw mt v where raw: "map_of rows key = Some raw" "decode_row raw = Some (mt, v)"
        "e = entry_of_row (ev_hash ev) (mt, v)"
      unfolding loaded_entries_get(2)[OF d] by (auto simp: bind_eq_Some_conv)
    have "(key, raw) \<in> set rows" using raw(1) by (rule map_of_SomeD)
    then show ?thesis using assms(1) raw(2,3)
      by (auto simp: rows_ok_def entry_ok_def list_all_iff decode_row_def entry_of_row_def split: if_splits)
  qed
  then show ?thesis using m' f by (simp add: core_ok_def store_ok_def w_def store_open_def store_empty_def)
qed

lemma core_ok_boot: "kv_boot ev rows w \<Longrightarrow> core_ok ev (kw_total_bytes w) (length (kw_entries w)) w"
proof (unfold kv_boot_def, elim exE conjE)
  fix db loads spawned
  assume r: "rows_ok ev (rows db)" and w: "w = store_open (ev_hash ev) db (if loads then Some (rows db) else None) spawned"
  show ?thesis
  proof (cases loads)
    case True
    then show ?thesis using store_open_ok[OF r] w by simp
  next
    case False
    then show ?thesis by (simp add: w store_open_def store_empty_def core_ok_def store_ok_def bt_get_def)
  qed
qed

end
