(* ===== verification/Kv_Windows.thy ===== *)
theory Kv_Windows
  imports Kv_Durable
begin

text \<open>
  The two other budgets: the retention window of a subscription, and the durable puts in flight on a
  connection.  What every operation of a subscription keeps, every step keeps for all of them: that is
  the locale \<open>sub_property\<close>, whose instance here is the window's invariant.
\<close>

subsection \<open>Properties every subscription keeps\<close>

definition all_subs :: "(sub_entry \<Rightarrow> bool) \<Rightarrow> 'd kv_world \<Rightarrow> bool" where
  "all_subs P w \<longleftrightarrow> (\<forall>sid s. hm_get (kw_heap w) sid = Some s \<longrightarrow> P s)"

lemma heap_set_conn [simp]: "kw_heap (set_conn c k w) = kw_heap w"
  by (simp add: set_conn_def)

lemma heap_send_to [simp]: "kw_heap (send_to c msg w) = kw_heap w"
  by (simp add: send_to_def split: option.split)

lemma heap_put_done [simp]: "kw_heap (put_done c nonce st h t w) = kw_heap w"
  by (simp add: put_done_def)

lemma heap_refuse_open [simp]: "kw_heap (refuse_open c nonce st d w) = kw_heap w"
  by (simp add: refuse_open_def)

lemma heap_pending_add [simp]: "kw_heap (pending_add c w) = kw_heap w"
  by (simp add: pending_add_def split: option.split)

lemma heap_drop_reply [simp]: "kw_heap (drop_reply r w) = kw_heap w"
  by (simp add: drop_reply_def split: option.split)

lemma heap_set_opening [simp]: "kw_heap (set_opening c op w) = kw_heap w"
  by (simp add: set_opening_def split: option.split)

lemma heap_enqueue [simp]: "kw_heap (fst (enqueue key v r w)) = kw_heap w"
  by (simp add: enqueue_def)

lemma heap_hang_up [simp]: "kw_heap (kv_hang_up c w) = kw_heap w"
  by (simp add: kv_hang_up_def split: option.split)

lemma heap_open_register [simp]: "kw_heap (open_register c w) = kw_heap w"
  by (simp add: open_register_def Let_def split: option.split open_task.split)

lemma heap_writer [simp]:
  "kw_heap (writer_take w) = kw_heap w" "kw_heap (writer_commit ev w) = kw_heap w" "kw_heap (writer_reply w) = kw_heap w"
  by (auto simp: writer_take_def writer_commit_def writer_reply_def Let_def split: writer_phase.split option.split list.split)

lemma heap_fetch [simp]: "kw_heap (fetch_request ev c data w) = kw_heap w"
  by (simp add: fetch_request_def split: option.split)

lemma heap_refused [simp]: "kw_heap (refuse_kv_message ev c data w) = kw_heap w"
  by (simp add: refuse_kv_message_def Let_def)

lemma all_subs_heap: "kw_heap w' = kw_heap w \<Longrightarrow> all_subs P w' \<longleftrightarrow> all_subs P w"
  by (simp add: all_subs_def)

lemma all_subs_drop: "all_subs P w \<Longrightarrow> all_subs P (drop_sub sid w)"
  by (auto simp: all_subs_def drop_sub_def split: if_splits)

lemma all_subs_drops: "all_subs P w \<Longrightarrow> all_subs P (fold (\<lambda>(kv_id, sid). drop_sub sid) m w)"
  by (induction m arbitrary: w) (auto intro: all_subs_drop)

lemma all_subs_on_sub:
  assumes "all_subs P w" and "\<And>s ob. P s \<Longrightarrow> P (fst (fst (f (s, ob))))"
  shows "all_subs P (fst (on_sub sid f w))"
proof (cases "hm_get (kw_heap w) sid")
  case (Some s)
  then have s: "P s" using assms(1) by (simp add: all_subs_def)
  show ?thesis
  proof (cases "hm_get (kw_conns w) (se_conn s)")
    case None
    then show ?thesis using Some assms(1) by (simp add: on_sub_def)
  next
    case (Some k)
    obtain s' ob ok where f: "f (s, kc_out k) = ((s', ob), ok)" by (cases "f (s, kc_out k)") auto
    then have "P s'" using assms(2)[OF s, of "kc_out k"] by simp
    then show ?thesis using Some \<open>hm_get (kw_heap w) sid = Some s\<close> f assms(1)
      by (auto simp: on_sub_def all_subs_def split: if_splits)
  qed
qed (simp add: on_sub_def assms(1))

locale sub_property =
  fixes P :: "sub_entry \<Rightarrow> bool" and window :: nat
  assumes new: "P (sub_new c kv_id prefix inline_max window)"
    and charge: "P s \<Longrightarrow> P (fst (fst (charge_and_send msg (s, ob))))"
    and phase: "P s \<Longrightarrow> P (s\<lparr>se_phase := ph\<rparr>)"
    and ack: "P s \<Longrightarrow> P (sub_ack u s)"
begin

lemma deliver: "P s \<Longrightarrow> P (fst (fst (deliver msg (s, ob))))"
  by (simp add: deliver_def charge phase split: sub_phase.split)

lemma send_chunk: "P s \<Longrightarrow> P (fst (fst (send_chunk msg (s, ob))))"
  by (simp add: send_chunk_def charge)

lemma flush: "P (fst st) \<Longrightarrow> P (fst (flush_pending pending st))"
proof (induction pending arbitrary: st)
  case (Cons msg pending)
  obtain st' ok where c: "charge_and_send msg st = (st', ok)" by (cases "charge_and_send msg st")
  have "P (fst st')" using charge[of "fst st" msg "snd st"] Cons.prems c by simp
  then show ?case using Cons c by simp
qed simp

lemma go_live: "P s \<Longrightarrow> P (fst (go_live (s, ob)))"
  by (simp add: go_live_def flush phase)

lemma broadcast_one: "all_subs P (fst st) \<Longrightarrow> all_subs P (fst (broadcast_one compress key sid st))"
proof -
  assume a: "all_subs P (fst st)"
  obtain w kept where st: "st = (w, kept)" by (cases st)
  show ?thesis
  proof (cases "hm_get (kw_heap w) sid")
    case None
    then show ?thesis using a by (simp add: st broadcast_one_def)
  next
    case (Some sub)
    have "all_subs P w1" if "on_sub sid (deliver msg) w = (w1, alive)" for msg w1 alive
      using all_subs_on_sub[of P w "deliver msg" sid] a deliver that by (simp add: st)
    then show ?thesis using a Some
      by (auto simp: st broadcast_one_def Let_def split: prod.split)
  qed
qed

lemma broadcast: "all_subs P w \<Longrightarrow> all_subs P (broadcast compress key w)"
proof -
  assume a: "all_subs P w"
  have "all_subs P (fst (fold (broadcast_one compress key) sids st))" if "all_subs P (fst st)" for sids st
    using that by (induction sids arbitrary: st) (simp_all add: broadcast_one)
  from this[of "(w, [])" "kw_subs w"] a show ?thesis
    by (auto simp: broadcast_def all_subs_def split: prod.split)
qed

lemma put_finish: "all_subs P w \<Longrightarrow> all_subs P (put_finish ev c nonce durable key v h t w)"
proof -
  assume a: "all_subs P w"
  define w1 where "w1 = (if durable then pending_add c w else w)"
  define reply where "reply = (if durable then Some \<lparr>dr_conn = c, dr_nonce = nonce, dr_hash = h, dr_mtime_ns = t\<rparr> else None)"
  obtain w2 q where e: "enqueue key v reply w1 = (w2, q)" by (cases "enqueue key v reply w1")
  have "kw_heap w2 = kw_heap w" using heap_enqueue[of key v reply w1] unfolding e by (simp add: w1_def)
  then have w2: "all_subs P w2" using a by (simp add: all_subs_def)
  then show ?thesis
    unfolding put_finish_def Let_def reply_def[symmetric] w1_def[symmetric] e
    by (simp add: broadcast all_subs_heap[OF heap_put_done])
qed

lemma put_locked: "all_subs P w \<Longrightarrow> all_subs P (put_locked ev now c nonce put hash w)"
  by (auto simp: put_locked_def Let_def all_subs_heap[OF heap_put_done] split: option.split
      intro!: put_finish) (simp_all add: all_subs_def)

lemma put_request: "all_subs P w \<Longrightarrow> all_subs P (put_request ev now c data w)"
  by (cases rule: put_request_cases[of ev now c data w]) (simp_all add: all_subs_heap[OF heap_put_done] put_locked)

lemma open_request:
  assumes "all_subs P w" "cfg_unacked_max (ev_cfg ev) = window"
  shows "all_subs P (open_request ev c data w)"
proof -
  have "all_subs P (snd (sweep_closed c k w))" for k
    using assms(1) by (simp add: sweep_closed_def Let_def all_subs_drops all_subs_heap[OF heap_set_conn])
  then have sweep: "all_subs P w1" if "sweep_closed c k w = (k1, w1)" for k k1 w1
    using that by (metis snd_conv)
  have add: "all_subs P (w1\<lparr>kw_heap := hm_insert sid (sub_new c kv_id prefix i window) (kw_heap w1), kw_next_sub := n\<rparr>)"
    if "all_subs P w1" for w1 sid kv_id prefix i n
    using that new by (auto simp: all_subs_def)
  show ?thesis
    by (auto simp: open_request_def Let_def assms all_subs_heap[OF heap_send_to] all_subs_heap[OF heap_set_conn]
        all_subs_heap[OF heap_refuse_open] dest!: sweep intro!: add split: option.split prod.split)
qed

lemma open_chunk: "all_subs P w \<Longrightarrow> all_subs P (open_chunk ev c w)"
proof -
  assume a: "all_subs P w"
  have "all_subs P (fst (on_sub sid (send_chunk msg) w))" for sid msg
    by (intro all_subs_on_sub send_chunk a)
  then have "all_subs P w1" if "on_sub sid (send_chunk msg) w = (w1, ok)" for sid msg w1 ok
    using that by (metis fst_conv)
  then show ?thesis
    by (auto simp: open_chunk_def a all_subs_heap[OF heap_set_opening] split: option.split open_task.split list.split prod.split)
qed

lemma open_finish: "all_subs P w \<Longrightarrow> all_subs P (open_finish c w)"
proof -
  assume a: "all_subs P w"
  have "all_subs P (fst (on_sub sid (\<lambda>st. (go_live st, True)) w))" for sid
    using a by (rule all_subs_on_sub) (simp add: go_live)
  then show ?thesis
    by (simp add: open_finish_def Let_def a all_subs_heap[OF heap_set_conn] all_subs_drop
        split: option.split open_task.split list.split)
qed

lemma kept_by_step:
  assumes "kv_step ev w w'" "all_subs P w" "cfg_unacked_max (ev_cfg ev) = window"
  shows "all_subs P w'"
  using assms(1)
proof (cases rule: kv_step.cases)
  case connect
  then show ?thesis using assms(2) by (simp add: kv_connect_def Let_def all_subs_def)
next
  case (disconnect c)
  have "all_subs P (w\<lparr>kw_conns := m\<rparr>)" for m using assms(2) by (simp add: all_subs_def)
  then show ?thesis by (simp add: disconnect kv_disconnect_def assms(2) all_subs_drops split: option.split)
next
  case (message c data now)
  have "all_subs P (stop_request c data w)"
    by (simp add: stop_request_def assms(2) all_subs_drop all_subs_heap[OF heap_set_conn] split: option.split)
  moreover have "all_subs P (fst (on_sub sid (\<lambda>(s, ob). ((sub_ack u s, ob), True)) w))" for sid u
    using assms(2) by (rule all_subs_on_sub) (simp add: ack)
  then have "all_subs P (ack_request c data w)"
    by (simp add: ack_request_def assms(2) split: option.split)
  ultimately show ?thesis
    by (simp add: message handle_kv_message_def Let_def assms put_request open_request all_subs_heap[OF heap_fetch])
next
  case writer_echo
  have "all_subs P (w\<lparr>kw_phase := ph\<rparr>)" for ph using assms(2) by (simp add: all_subs_def)
  then show ?thesis
    by (simp add: writer_echo writer_echo_def assms(2) all_subs_heap[OF heap_drop_reply] broadcast split: writer_phase.split)
qed (simp_all add: assms(2) open_chunk open_finish all_subs_heap[OF heap_hang_up] all_subs_heap[OF heap_refused]
    all_subs_heap[OF heap_open_register] all_subs_heap[OF heap_writer(1)] all_subs_heap[OF heap_writer(2)]
    all_subs_heap[OF heap_writer(3)])

lemma reach:
  assumes "kv_reach ev w w'" "all_subs P w" "cfg_unacked_max (ev_cfg ev) = window"
  shows "all_subs P w'"
  using assms(1)
proof (induction rule: kv_reach_induct)
  case start
  show ?case by (rule assms(2))
next
  case (step v v')
  show ?case by (rule kept_by_step[OF step(2,3) assms(3)])
qed

end

subsection \<open>The retention window\<close>

fun counts_down :: "u32 \<Rightarrow> u32 list \<Rightarrow> bool" where
  "counts_down u [] = True"
| "counts_down u (i # is) \<longleftrightarrow> i = u \<and> counts_down (u - 1) is"

definition unacked_total :: "(u32 \<times> nat) list \<Rightarrow> nat" where
  "unacked_total unacked = sum_list (map snd unacked)"

text \<open>
  The bytes counted are those of the updates held, within the budget, and their ids are the last
  ones given out, in order.
\<close>

definition window_ok :: "nat \<Rightarrow> sub_entry \<Rightarrow> bool" where
  "window_ok budget s \<longleftrightarrow> se_unacked_max s = budget \<and> se_unacked_bytes s = unacked_total (se_unacked s)
     \<and> se_unacked_bytes s \<le> budget \<and> counts_down (se_update_id s) (rev (map fst (se_unacked s)))"

lemma counts_down_prefix: "counts_down u (xs @ ys) \<Longrightarrow> counts_down u xs"
  by (induction xs arbitrary: u) auto

lemma release_acked_eq:
  "release_acked u unacked (unacked_total unacked) =
    (dropWhile (\<lambda>(i, len). i \<le> u) unacked, unacked_total (dropWhile (\<lambda>(i, len). i \<le> u) unacked))"
  by (induction unacked) (auto simp: unacked_total_def not_le)

lemma unacked_total_dropWhile: "unacked_total (dropWhile P unacked) \<le> unacked_total unacked"
  by (induction unacked) (auto simp: unacked_total_def)

lemma window_ok_ack: "window_ok budget s \<Longrightarrow> window_ok budget (sub_ack u s)"
proof -
  assume w: "window_ok budget s"
  define rest where "rest = dropWhile (\<lambda>(i, len). i \<le> u) (se_unacked s)"
  have ack: "sub_ack u s = s\<lparr>se_unacked := rest, se_unacked_bytes := unacked_total rest\<rparr>"
    using w by (simp add: sub_ack_def window_ok_def release_acked_eq rest_def)
  obtain pre where "se_unacked s = pre @ rest" unfolding rest_def by (metis takeWhile_dropWhile_id)
  then have "counts_down (se_update_id s) (rev (map fst rest))"
    using w counts_down_prefix[of _ "rev (map fst rest)" "rev (map fst pre)"] by (simp add: window_ok_def)
  moreover have "unacked_total rest \<le> budget"
    using w unacked_total_dropWhile[of "\<lambda>(i, len). i \<le> u" "se_unacked s"] by (simp add: window_ok_def rest_def)
  ultimately show ?thesis using w by (simp add: ack window_ok_def)
qed

lemma window_ok_charge: "window_ok budget s \<Longrightarrow> window_ok budget (fst (fst (charge_and_send msg (s, ob))))"
  by (auto simp: charge_and_send_def Let_def window_ok_def next_update_def unacked_total_def split: prod.split)

interpretation window: sub_property "window_ok budget" budget for budget
proof unfold_locales
  show "window_ok budget (sub_new c kv_id prefix inline_max budget)" for c kv_id prefix inline_max
    by (simp add: window_ok_def sub_new_def unacked_total_def)
  show "window_ok budget s \<Longrightarrow> window_ok budget (s\<lparr>se_phase := ph\<rparr>)" for s ph
    by (simp add: window_ok_def)
qed (rule window_ok_charge window_ok_ack, assumption)+

subsection \<open>Durable puts in flight\<close>

definition pend :: "'d kv_world \<Rightarrow> nat \<Rightarrow> nat option" where
  "pend w c = map_option kc_pending_puts (hm_get (kw_conns w) c)"

lemma pend_set_conn: "pend (set_conn c k w) = (pend w)(c \<mapsto> kc_pending_puts k)"
  by (auto simp: pend_def set_conn_def fun_eq_iff)

lemma pend_set_conn_same [simp]:
  "hm_get (kw_conns w) c = Some k \<Longrightarrow> kc_pending_puts k' = kc_pending_puts k \<Longrightarrow> pend (set_conn c k' w) = pend w"
  by (auto simp: pend_def set_conn_def fun_eq_iff)

lemma pend_send_to [simp]: "pend (send_to c msg w) = pend w"
  by (simp add: send_to_def split: option.split)

lemma pend_put_done [simp]: "pend (put_done c nonce st h t w) = pend w"
  by (simp add: put_done_def)

lemma pend_refuse_open [simp]: "pend (refuse_open c nonce st d w) = pend w"
  by (simp add: refuse_open_def)

lemma pend_drop_sub [simp]: "pend (drop_sub sid w) = pend w"
  by (simp add: drop_sub_def pend_def fun_eq_iff)

lemma pend_drop_subs [simp]: "pend (fold (\<lambda>(kv_id, sid). drop_sub sid) m w) = pend w"
  by (induction m arbitrary: w) auto

lemma pend_fields [simp]:
  "pend (w\<lparr>kw_subs := x1\<rparr>) = pend w" "pend (w\<lparr>kw_phase := x2\<rparr>) = pend w" "pend (w\<lparr>kw_heap := x3\<rparr>) = pend w"
  "pend (w\<lparr>kw_queue := x4\<rparr>) = pend w" "pend (w\<lparr>kw_writer := x5\<rparr>) = pend w" "pend (w\<lparr>kw_entries := x6\<rparr>) = pend w"
  "pend (w\<lparr>kw_total_bytes := x7\<rparr>) = pend w" "pend (w\<lparr>kw_next_sub := x8\<rparr>) = pend w" "pend (w\<lparr>kw_db := x9\<rparr>) = pend w"
  "pend (w\<lparr>kw_next_conn := x8\<rparr>) = pend w"
  by (simp_all add: pend_def fun_eq_iff)

lemma pend_on_sub [simp]: "pend (fst (on_sub sid f w)) = pend w"
proof (cases "hm_get (kw_heap w) sid")
  case (Some s)
  show ?thesis
  proof (cases "hm_get (kw_conns w) (se_conn s)")
    case (Some k)
    obtain s' ob ok where f: "f (s, kc_out k) = ((s', ob), ok)" by (cases "f (s, kc_out k)") auto
    show ?thesis using Some \<open>hm_get (kw_heap w) sid = Some s\<close> f by (auto simp: on_sub_def pend_def set_conn_def)
  qed (simp add: Some on_sub_def)
qed (simp add: on_sub_def)

lemma pend_broadcast_one: "pend (fst (broadcast_one compress key sid st)) = pend (fst st)"
proof -
  have "pend w1 = pend w" if "on_sub sid f w = (w1, alive)" for f w w1 alive
    using that pend_on_sub[of sid f w] by simp
  then show ?thesis
    by (cases st) (auto simp: broadcast_one_def Let_def split: option.split prod.split)
qed

lemma pend_broadcast [simp]: "pend (broadcast compress key w) = pend w"
proof -
  have "pend (fst (fold (broadcast_one compress key) sids st)) = pend (fst st)" for sids st
    by (induction sids arbitrary: st) (simp_all add: pend_broadcast_one)
  from this[of "kw_subs w" "(w, [])"] show ?thesis by (auto simp: broadcast_def split: prod.split)
qed

lemma pend_set_opening [simp]: "pend (set_opening c op w) = pend w"
  by (simp add: set_opening_def split: option.split)

lemma pend_open [simp]: "pend (open_register c w) = pend w" "pend (open_chunk ev c w) = pend w"
proof -
  have on: "pend w1 = pend w" if "on_sub sid f w = (w1, ok)" for sid f w1 ok
    using that pend_on_sub[of sid f w] by simp
  show "pend (open_chunk ev c w) = pend w"
    by (auto simp: open_chunk_def split: option.split open_task.split list.split prod.split dest: on)
  have "pend (set_conn c (k\<lparr>kc_opening := op\<rparr>) (w\<lparr>kw_subs := x\<rparr>)) = pend w" if "hm_get (kw_conns w) c = Some k" for k op x
    using that by (auto simp: pend_def set_conn_def)
  then show "pend (open_register c w) = pend w"
    by (simp add: open_register_def Let_def split: option.split open_task.split)
qed

lemma pend_open_finish [simp]: "pend (open_finish c w) = pend w"
  by (auto simp: open_finish_def Let_def split: option.split open_task.split list.split)

lemma alloc_id_loop_keeps: "alloc_id_loop n k = (k', r) \<Longrightarrow> kc_pending_puts k' = kc_pending_puts k
    \<and> kc_map k' = kc_map k \<and> kc_out k' = kc_out k \<and> kc_opening k' = kc_opening k"
  by (induction n arbitrary: k) (auto simp: Let_def split: if_splits)

lemma pend_open_request [simp]: "pend (open_request ev c data w) = pend w"
proof (cases "\<exists>n i p. parse_kv_open data = Some (n, 0, i, p) \<and> hm_get (kw_conns w) c \<noteq> None")
  case False
  then show ?thesis by (auto simp: open_request_def split: option.split)
next
  case True
  then obtain n i p k where p: "parse_kv_open data = Some (n, 0, i, p)" "hm_get (kw_conns w) c = Some k" by auto
  obtain k1 w1 where s: "sweep_closed c k w = (k1, w1)" by (cases "sweep_closed c k w")
  have w1: "pend w1 = pend w" "kc_pending_puts k1 = kc_pending_puts k"
    using s p(2) by (auto simp: sweep_closed_def Let_def)
  have c: "pend w c = Some (kc_pending_puts k)" using p(2) by (simp add: pend_def)
  obtain k2 r where a: "alloc_id k1 = (k2, r)" by (cases "alloc_id k1")
  then have "kc_pending_puts k2 = kc_pending_puts k" using w1(2) alloc_id_loop_keeps by (fastforce simp: alloc_id_def)
  then show ?thesis
    using w1 c by (cases r) (auto simp: open_request_def p s a Let_def pend_set_conn)
qed

lemma pend_requests [simp]:
  "pend (stop_request c data w) = pend w" "pend (ack_request c data w) = pend w"
  "pend (fetch_request ev c data w) = pend w" "pend (refuse_kv_message ev c data w) = pend w"
  "pend (kv_hang_up c w) = pend w" "pend (writer_take w) = pend w" "pend (writer_commit ev w) = pend w"
  "pend (writer_reply w) = pend w"
  by (auto simp: stop_request_def ack_request_def fetch_request_def refuse_kv_message_def kv_hang_up_def writer_take_def
      writer_commit_def writer_reply_def Let_def split: option.split writer_phase.split list.split)

text \<open>The replies that jobs still carry.\<close>

definition phase_replies :: "writer_phase \<Rightarrow> durable_reply list" where
  "phase_replies ph = (case ph of Receiving \<Rightarrow> [] | Writing b \<Rightarrow> List.map_filter wj_reply b
     | Replying ok b \<Rightarrow> List.map_filter wj_reply b | Echoing ok key r b \<Rightarrow> r # List.map_filter wj_reply b)"

definition replies :: "'d kv_world \<Rightarrow> durable_reply list" where
  "replies w = phase_replies (kw_phase w) @ List.map_filter wj_reply (kw_queue w)"

definition replies_of :: "'d kv_world \<Rightarrow> nat \<Rightarrow> nat" where
  "replies_of w c = length (filter (\<lambda>r. dr_conn r = c) (replies w))"

definition in_flight_ok :: "nat \<Rightarrow> 'd kv_world \<Rightarrow> bool" where
  "in_flight_ok budget w \<longleftrightarrow> (\<forall>c n. pend w c = Some n \<longrightarrow> c < kw_next_conn w \<and> n = replies_of w c \<and> n \<le> budget)
     \<and> (\<forall>r \<in> set (replies w). dr_conn r < kw_next_conn w)"

lemma in_flight_same:
  "store_core w' = store_core w \<Longrightarrow> pend w' = pend w \<Longrightarrow> in_flight_ok budget w' \<longleftrightarrow> in_flight_ok budget w"
  by (simp add: in_flight_ok_def replies_of_def replies_def store_core_def)

lemma map_filter_append: "List.map_filter f (xs @ ys) = List.map_filter f xs @ List.map_filter f ys"
  by (simp add: List.map_filter_def)

lemma in_flight_put_finish:
  assumes "in_flight_ok budget w" "hm_get (kw_conns w) c \<noteq> None"
    and "durable \<Longrightarrow> pending_puts w c < budget"
  shows "in_flight_ok budget (put_finish ev c nonce durable key v h t (w\<lparr>kw_entries := m, kw_total_bytes := n\<rparr>))"
    (is "in_flight_ok budget (put_finish _ _ _ _ _ _ _ _ ?w)")
proof -
  define reply where "reply = (if durable then Some \<lparr>dr_conn = c, dr_nonce = nonce, dr_hash = h, dr_mtime_ns = t\<rparr> else None)"
  define w1 where "w1 = (if durable then pending_add c ?w else ?w)"
  obtain k where k: "hm_get (kw_conns w) c = Some k" using assms(2) by auto
  have pw: "pending_puts w c = kc_pending_puts k" "pend w c = Some (kc_pending_puts k)"
    using k by (simp_all add: pending_puts_def pend_def)
  have p1: "pend w1 = (if durable then (pend w)(c \<mapsto> kc_pending_puts k + 1) else pend w)"
    using k by (simp add: w1_def pending_add_def pend_set_conn)
  have drop: "pend (drop_reply reply w1) = pend w"
  proof (cases durable)
    case True
    then obtain k1 where k1: "hm_get (kw_conns w1) c = Some k1" "kc_pending_puts k1 = kc_pending_puts k + 1"
      using k by (simp add: w1_def pending_add_def set_conn_def)
    then show ?thesis using True p1 pw(2) by (auto simp: drop_reply_def reply_def pend_set_conn)
  qed (simp add: drop_reply_def reply_def p1)
  have dropw: "pend (drop_reply reply (w1\<lparr>kw_writer := False\<rparr>)) = pend w"
  proof -
    have "drop_reply reply (w1\<lparr>kw_writer := False\<rparr>) = (drop_reply reply w1)\<lparr>kw_writer := False\<rparr>"
      by (simp add: drop_reply_def set_conn_def split: option.split)
    then show ?thesis using drop by simp
  qed
  define w' where "w' = put_finish ev c nonce durable key v h t ?w"
  have f1: "kw_writer w1 = kw_writer w" "kw_receiver w1 = kw_receiver w" "kw_queue w1 = kw_queue w"
    using core_pending_if[of durable c ?w] by (simp_all add: w1_def[symmetric] store_core_def)
  have pend': "pend w' = (if kw_writer w \<and> kw_receiver w then pend w1 else pend w)"
    unfolding w'_def put_finish_def Let_def reply_def[symmetric] w1_def[symmetric]
    using f1 by (auto simp: enqueue_def drop dropw p1)
  have core': "store_core w' = (if kw_writer w \<and> kw_receiver w
     then (store_core ?w)\<lparr>co_queue := kw_queue w @ [\<lparr>wj_key = key, wj_value = v, wj_reply = reply\<rparr>]\<rparr>
     else if kw_writer w then (store_core ?w)\<lparr>co_writer := False\<rparr> else store_core ?w)"
    using core_put_finish[of ev c nonce durable key v h t ?w] by (simp add: w'_def flip: reply_def)
  have nc: "kw_next_conn w' = kw_next_conn w" using core' by (simp add: store_core_def split: if_splits)
  have cn: "c < kw_next_conn w" "kc_pending_puts k = replies_of w c"
    using assms(1) pw(2) by (auto simp: in_flight_ok_def)
  have "in_flight_ok budget w'"
  proof (cases "kw_writer w \<and> kw_receiver w \<and> durable")
    case True
    then have q: "replies w' = replies w @ [\<lparr>dr_conn = c, dr_nonce = nonce, dr_hash = h, dr_mtime_ns = t\<rparr>]"
      using core' by (simp add: store_core_def replies_def map_filter_append reply_def)
    have "pend w' = (pend w)(c \<mapsto> kc_pending_puts k + 1)" using True pend' p1 by simp
    then show ?thesis
      using assms(1,3) True q nc cn pw(1)
      by (auto simp: in_flight_ok_def replies_of_def)
  next
    case False
    then have "replies w' = replies w"
      using core' by (cases "kw_writer w \<and> kw_receiver w") (auto simp: store_core_def replies_def map_filter_append reply_def split: if_splits)
    moreover have "pend w' = pend w" using False pend' p1 by auto
    ultimately show ?thesis using assms(1) nc by (simp add: in_flight_ok_def replies_of_def)
  qed
  then show ?thesis by (simp add: w'_def)
qed

lemma in_flight_put:
  assumes "in_flight_ok budget w" "hm_get (kw_conns w) c \<noteq> None"
    and "kp_flags put AND KV_PUT_DURABLE \<noteq> 0 \<Longrightarrow> pending_puts w c < budget"
  shows "in_flight_ok budget (put_locked ev now c nonce put hash w)"
proof -
  have swap: "w\<lparr>kw_total_bytes := t, kw_entries := e\<rparr> = w\<lparr>kw_entries := e, kw_total_bytes := t\<rparr>" for t e by simp
  show ?thesis
    unfolding put_locked_def Let_def swap
    by (cases "bt_get (kw_entries w) (kp_key put)")
      (simp_all add: assms in_flight_put_finish in_flight_same[OF core_put_done pend_put_done])
qed

lemma map_filter_Cons: "List.map_filter f (x # xs) = (case f x of None \<Rightarrow> [] | Some y \<Rightarrow> [y]) @ List.map_filter f xs"
  by (simp add: List.map_filter_def split: option.split)

lemma in_flight_step:
  assumes "kv_step ev w w'" "in_flight_ok (cfg_max_inflight (ev_cfg ev)) w" (is "in_flight_ok ?b w")
  shows "in_flight_ok ?b w'"
proof -
  note ok = assms(2)
  have phase: "in_flight_ok ?b (w\<lparr>kw_phase := ph\<rparr>)" if "phase_replies ph = phase_replies (kw_phase w)" for ph
    using ok that by (simp add: in_flight_ok_def replies_of_def replies_def)
  show ?thesis
    using assms(1)
  proof (cases rule: kv_step.cases)
    case connect
    have none: "replies_of w (kw_next_conn w) = 0"
      using ok by (auto simp: in_flight_ok_def replies_of_def filter_empty_conv)
    have r: "replies w' = replies w" "kw_next_conn w' = kw_next_conn w + 1" "pend w' = (pend w)(kw_next_conn w \<mapsto> 0)"
      by (simp_all add: connect kv_connect_def Let_def replies_def pend_set_conn kv_conn_new_def) (simp_all add: set_conn_def)
    then have "replies_of w' = replies_of w" by (simp add: replies_of_def fun_eq_iff)
    then show ?thesis using ok none r by (auto simp: in_flight_ok_def less_Suc_eq)
  next
    case (disconnect c)
    have "pend (kv_disconnect c w) c' = (if c' = c then None else pend w c')" for c'
    proof (cases "hm_get (kw_conns w) c")
      case None
      then show ?thesis by (simp add: kv_disconnect_def) (simp add: pend_def)
    next
      case (Some k)
      then show ?thesis by (simp add: kv_disconnect_def) (simp add: pend_def)
    qed
    then show ?thesis using ok core_disconnect[of c w]
      by (auto simp: disconnect in_flight_ok_def replies_of_def replies_def store_core_def)
  next
    case (message c data now)
    have "in_flight_ok ?b (put_request ev now c data w)"
      by (cases rule: put_request_cases[of ev now c data w])
        (simp_all add: ok in_flight_same[OF core_put_done pend_put_done] in_flight_put message(2))
    moreover have "in_flight_ok ?b (open_request ev c data w)"
    proof -
      have "kw_queue (open_request ev c data w) = kw_queue w \<and> kw_phase (open_request ev c data w) = kw_phase w
          \<and> kw_next_conn (open_request ev c data w) = kw_next_conn w"
        using core_open_request[of ev c data w] by (auto simp: store_core_def)
      then show ?thesis using ok by (simp add: in_flight_ok_def replies_of_def replies_def)
    qed
    moreover have "in_flight_ok ?b (stop_request c data w)" "in_flight_ok ?b (ack_request c data w)"
      "in_flight_ok ?b (fetch_request ev c data w)"
      using ok by (simp_all add: in_flight_same[OF core_stop_request pend_requests(1)]
        in_flight_same[OF core_ack_request pend_requests(2)] in_flight_same[OF core_fetch_request pend_requests(3)])
    ultimately show ?thesis using ok by (simp add: message handle_kv_message_def Let_def)
  next
    case writer_take
    then show ?thesis using ok
      by (auto simp: writer_take_def in_flight_ok_def replies_of_def replies_def phase_replies_def)
  next
    case writer_commit
    show ?thesis
    proof (cases "kw_phase w")
      case (Writing b)
      have "in_flight_ok ?b (w\<lparr>kw_phase := Replying x b\<rparr>)" for x by (rule phase) (simp add: Writing phase_replies_def)
      moreover have "in_flight_ok ?b (w\<lparr>kw_db := d, kw_phase := Replying x b\<rparr>) = in_flight_ok ?b (w\<lparr>kw_phase := Replying x b\<rparr>)" for d x
        by (simp add: in_flight_ok_def replies_of_def replies_def)
      ultimately show ?thesis by (simp add: writer_commit writer_commit_def Writing Let_def split: option.split)
    qed (simp_all add: writer_commit writer_commit_def ok)
  next
    case writer_reply
    show ?thesis
    proof (cases "kw_phase w")
      case (Replying x b)
      have "in_flight_ok ?b (send_to c m w1) = in_flight_ok ?b w1" for c m and w1 :: "'a kv_world"
        by (rule in_flight_same) simp_all
      moreover have "in_flight_ok ?b (w\<lparr>kw_phase := ph\<rparr>)" if "phase_replies ph = List.map_filter wj_reply b" for ph
        using that by (intro phase) (simp add: Replying phase_replies_def)
      ultimately show ?thesis
        by (simp add: writer_reply writer_reply_def Replying Let_def phase_replies_def map_filter_Cons split: list.split option.split)
    qed (simp_all add: writer_reply writer_reply_def ok)
  next
    case writer_echo
    show ?thesis
    proof (cases "kw_phase w")
      case (Echoing x key r b)
      define w1 where "w1 = broadcast (ev_compress ev) key (w\<lparr>kw_phase := Replying x b\<rparr>)"
      have c1: "store_core w1 = store_core (w\<lparr>kw_phase := Replying x b\<rparr>)" "pend w1 = pend w" by (simp_all add: w1_def)
      have w': "w' = drop_reply (Some r) w1" by (simp add: writer_echo writer_echo_def Echoing w1_def)
      have r: "replies w = r # replies w1" "kw_next_conn w1 = kw_next_conn w"
        using c1(1) by (simp_all add: store_core_def replies_def Echoing phase_replies_def)
      have same: "replies w' = replies w1" "kw_next_conn w' = kw_next_conn w1"
        using core_drop_reply[of "Some r" w1] by (simp_all add: w' store_core_def replies_def)
      have p: "pend w' c = (if c = dr_conn r then map_option (\<lambda>n. n - 1) (pend w c) else pend w c)" for c
      proof (cases "hm_get (kw_conns w1) (dr_conn r)")
        case None
        then have "pend w (dr_conn r) = None" unfolding c1(2)[symmetric] by (simp add: pend_def)
        then show ?thesis using c1(2) None by (simp add: w' drop_reply_def)
      next
        case (Some k)
        then have "pend w (dr_conn r) = Some (kc_pending_puts k)" unfolding c1(2)[symmetric] by (simp add: pend_def)
        then show ?thesis using c1(2) Some by (simp add: w' drop_reply_def pend_set_conn)
      qed
      have count: "replies_of w c = (if c = dr_conn r then 1 else 0) + replies_of w' c" for c
        by (simp add: replies_of_def r same)
      have fits: "c < kw_next_conn w" "n = replies_of w c" "n \<le> ?b" if "pend w c = Some n" for c n
        using ok that by (simp_all add: in_flight_ok_def)
      have "c < kw_next_conn w \<and> n = replies_of w' c \<and> n \<le> ?b" if n: "pend w' c = Some n" for c n
      proof (cases "c = dr_conn r")
        case True
        then obtain m where m: "pend w c = Some m" "n = m - 1" using n by (auto simp: p)
        then show ?thesis using fits[OF m(1)] count[of c] True by simp
      next
        case False
        then show ?thesis using n fits[of c n] count[of c] by (simp add: p)
      qed
      then show ?thesis using ok by (simp add: in_flight_ok_def r same)
    qed (simp_all add: writer_echo writer_echo_def ok)
  qed (simp_all add: ok in_flight_same)
qed

end
