(* ===== verification/Kv_Mirror.thy ===== *)
theory Kv_Mirror
  imports Kv_Windows
begin

text \<open>
  A watcher's view of a subscription.  The client reads the frames of its connection in order and
  keeps one mirror per subscription, started by the acceptance of its \<open>OPEN\<close>, fed by the updates that
  carry its id and given up at \<open>CLOSED\<close>.  The first part says what the frames of one subscription do to
  its mirror and that they do nothing to the others; the second follows the operations of a
  subscription.
\<close>

subsection \<open>Mirrors as functions\<close>

type_synonym kv_view = "bytes \<Rightarrow> kv_entry option"

definition rec_upd :: "kv_record \<Rightarrow> kv_view \<Rightarrow> kv_view" where
  "rec_upd r f = (case r of
     KvUpsert key hash sz mtime_ns v \<Rightarrow> f(key \<mapsto> \<lparr>ke_hash = hash, ke_size = sz, ke_mtime_ns = mtime_ns, ke_value = v\<rparr>)
   | KvDelete key \<Rightarrow> f(key := None))"

lemma apply_kv_record_view:
  "bt_inv live \<Longrightarrow> bt_inv (apply_kv_record r live) \<and> bt_get (apply_kv_record r live) = rec_upd r (bt_get live)"
  by (cases r) (simp_all add: apply_kv_record_def rec_upd_def bt.store_laws)

lemma apply_kv_records_view:
  "bt_inv live \<Longrightarrow> bt_inv (fold apply_kv_record rs live)
    \<and> bt_get (fold apply_kv_record rs live) = fold rec_upd rs (bt_get live)"
  by (induction rs arbitrary: live) (simp_all add: apply_kv_record_view)

lemma rec_upd_other: "rec_key r \<noteq> key \<Longrightarrow> rec_upd r f key = f key"
  by (cases r) (simp_all add: rec_upd_def)

subsection \<open>Reading the frames of a connection\<close>

definition client_read :: "(bytes \<Rightarrow> bytes option) \<Rightarrow> u16 \<Rightarrow> bytes \<Rightarrow> kv_mirror option \<Rightarrow> kv_mirror option" where
  "client_read decompress kv_id msg m =
    (if msg = [] then m
     else if msg ! 0 = S2C_KV_OPENED then
       (case parse_kv_opened msg of None \<Rightarrow> m
        | Some (nonce, i, status, detail) \<Rightarrow> if i = kv_id \<and> status = KV_STATUS_OK then Some kv_mirror_new else m)
     else if msg ! 0 = S2C_KV_UPDATE \<and> rdw 2 msg 1 = kv_id then
       map_option (\<lambda>mirror. fst (apply_kv_update decompress msg mirror)) m
     else if msg ! 0 = S2C_KV_CLOSED then
       (case parse_kv_closed msg of None \<Rightarrow> m | Some (i, reason) \<Rightarrow> if i = kv_id then None else m)
     else m)"

definition client_mirror :: "(bytes \<Rightarrow> bytes option) \<Rightarrow> u16 \<Rightarrow> bytes list \<Rightarrow> kv_mirror option" where
  "client_mirror decompress kv_id frames = fold (client_read decompress kv_id) frames None"

lemma client_mirror_snoc:
  "client_mirror decompress kv_id (frames @ [msg]) = client_read decompress kv_id msg (client_mirror decompress kv_id frames)"
  by (simp add: client_mirror_def)

text \<open>Frames that say nothing about a subscription.\<close>

definition quiet :: "(bytes \<Rightarrow> bytes option) \<Rightarrow> u16 \<Rightarrow> bytes \<Rightarrow> bool" where
  "quiet decompress kv_id msg \<longleftrightarrow> (\<forall>m. client_read decompress kv_id msg m = m)"

lemma client_mirror_quiet:
  "list_all (quiet decompress kv_id) ms \<Longrightarrow> client_mirror decompress kv_id (frames @ ms) = client_mirror decompress kv_id frames"
proof -
  have "fold (client_read decompress kv_id) ms m = m" if "list_all (quiet decompress kv_id) ms" for m
    using that by (induction ms) (simp_all add: quiet_def)
  then show "list_all (quiet decompress kv_id) ms \<Longrightarrow> client_mirror decompress kv_id (frames @ ms) = client_mirror decompress kv_id frames"
    by (simp add: client_mirror_def)
qed

lemmas s2c_defs = S2C_KV_OPENED_def S2C_KV_UPDATE_def S2C_KV_DONE_def S2C_KV_VALUE_def S2C_KV_CLOSED_def

lemma quiet_done: "quiet decompress i (msg_kv_done nonce status hash t)"
  by (simp add: quiet_def client_read_def msg_kv_done_def s2c_defs)

lemma quiet_value: "quiet decompress i (msg_kv_value compress nonce status hash data)"
  by (simp add: quiet_def client_read_def msg_kv_value_def s2c_defs)

lemma update_head: "msg_kv_update compress k u flags records ! 0 = S2C_KV_UPDATE" "msg_kv_update compress k u flags records \<noteq> []"
  by (simp_all add: msg_kv_update_def)

lemma s2c_distinct: "S2C_KV_UPDATE \<noteq> S2C_KV_OPENED" "S2C_KV_UPDATE \<noteq> S2C_KV_CLOSED"
  by (simp_all add: s2c_defs)

lemma quiet_update: "i \<noteq> kv_id \<Longrightarrow> quiet decompress i (msg_kv_update compress kv_id u flags records)"
  by (simp add: quiet_def client_read_def update_kv_id_field[simplified] update_head s2c_distinct)

lemma quiet_closed: "i \<noteq> kv_id \<Longrightarrow> quiet decompress i (msg_kv_closed kv_id reason)"
  by (simp add: quiet_def client_read_def parse_kv_closed_msg) (simp add: msg_kv_closed_def s2c_defs)

lemma opened_head: "msg_kv_opened nonce i status detail ! 0 = S2C_KV_OPENED" "msg_kv_opened nonce i status detail \<noteq> []"
  by (simp_all add: msg_kv_opened_def)

lemma quiet_opened: "i \<noteq> kv_id \<Longrightarrow> quiet decompress i (msg_kv_opened nonce kv_id status [])"
  by (simp add: quiet_def client_read_def opened_head parse_kv_opened_msg)

lemma parse_opened_status:
  assumes "parse_kv_opened (msg_kv_opened nonce kv_id status detail) = Some (n, i, st, d)"
  shows "st = status"
proof -
  have "msg_kv_opened nonce kv_id status detail ! 5 = status" by (simp add: msg_kv_opened_def nth_append)
  then show ?thesis using assms by (auto simp: parse_kv_opened_def split: if_splits option.splits)
qed

lemma quiet_refused: "status \<noteq> KV_STATUS_OK \<Longrightarrow> quiet decompress i (msg_kv_opened nonce kv_id status detail)"
  by (auto simp: quiet_def client_read_def opened_head dest: parse_opened_status split: option.split)

lemma client_read_opened: "client_read decompress kv_id (msg_kv_opened nonce kv_id KV_STATUS_OK []) m = Some kv_mirror_new"
  by (simp add: client_read_def opened_head parse_kv_opened_msg)

lemma client_read_closed: "client_read decompress kv_id (msg_kv_closed kv_id reason) m = None"
  by (simp add: client_read_def parse_kv_closed_msg) (simp add: msg_kv_closed_def s2c_defs)

lemma client_read_update:
  "client_read decompress kv_id (msg_kv_update compress kv_id u flags records) m =
    map_option (\<lambda>mirror. fst (apply_kv_update decompress (msg_kv_update compress kv_id u flags records) mirror)) m"
  by (simp add: client_read_def update_kv_id_field[simplified] update_head s2c_distinct)

subsection \<open>The frames of a subscription\<close>

definition good_payload :: "bytes \<Rightarrow> bool" where
  "good_payload p \<longleftrightarrow> length p \<le> MAX_DECOMPRESSED \<and> (\<exists>rs. list_all kv_record_ok rs \<and> p = records_payload rs)"

definition good_frame :: "'d kv_env \<Rightarrow> u16 \<Rightarrow> bytes \<Rightarrow> bool" where
  "good_frame ev kv_id msg \<longleftrightarrow> (\<exists>u flags p. good_payload p \<and> msg = msg_kv_update (ev_compress ev) kv_id u flags p)"

definition frame_records :: "(bytes \<Rightarrow> bytes option) \<Rightarrow> bytes \<Rightarrow> kv_record list" where
  "frame_records decompress msg = (case decompress_guarded decompress (drop 8 msg) of
     Some p \<Rightarrow> kv_records p | None \<Rightarrow> [])"

definition lz4_ok :: "'d kv_env \<Rightarrow> bool" where
  "lz4_ok ev \<longleftrightarrow> lz4_contract (ev_compress ev) (ev_decompress ev)"

lemma frame_records_msg:
  assumes "lz4_ok ev" "good_payload p"
  shows "frame_records (ev_decompress ev) (msg_kv_update (ev_compress ev) kv_id u flags p) = kv_records p"
proof -
  have "drop 8 (msg_kv_update (ev_compress ev) kv_id u flags p) = ev_compress ev p" by (simp add: msg_kv_update_def)
  then show ?thesis
    using decompress_guarded_compress[of "ev_compress ev" "ev_decompress ev" p] assms
    by (simp add: frame_records_def lz4_ok_def good_payload_def)
qed

text \<open>What the client's mirror of \<open>s\<close> shows after the frames in \<open>ob\<close>.\<close>

definition displays :: "'d kv_env \<Rightarrow> sub_entry \<Rightarrow> outbox \<Rightarrow> kv_view \<Rightarrow> bool \<Rightarrow> bool" where
  "displays ev s ob f complete \<longleftrightarrow> (\<exists>m. client_mirror (ev_decompress ev) (se_kv_id s) (ob_sent ob) = Some m
     \<and> bt_inv (km_live m) \<and> bt_get (km_live m) = f \<and> (complete \<longrightarrow> km_snapshot_done m))"

definition same_sub :: "sub_entry \<Rightarrow> sub_entry \<Rightarrow> bool" where
  "same_sub s s' \<longleftrightarrow> se_conn s' = se_conn s \<and> se_kv_id s' = se_kv_id s \<and> se_prefix s' = se_prefix s
     \<and> se_inline_max s' = se_inline_max s \<and> (se_closed s \<longrightarrow> se_closed s')"

text \<open>The outbox grew by frames that only subscription \<open>kv_id\<close> hears.\<close>

definition speaks :: "(bytes \<Rightarrow> bytes option) \<Rightarrow> u16 \<Rightarrow> outbox \<Rightarrow> outbox \<Rightarrow> bool" where
  "speaks decompress kv_id ob ob' \<longleftrightarrow> ob_up ob' = ob_up ob \<and> (\<exists>ms. ob_sent ob' = ob_sent ob @ ms
     \<and> (\<forall>i. i \<noteq> kv_id \<longrightarrow> list_all (quiet decompress i) ms))"

lemma same_sub_refl [simp]: "same_sub s s"
  by (simp add: same_sub_def)

lemma same_sub_trans: "same_sub a b \<Longrightarrow> same_sub b c \<Longrightarrow> same_sub a c"
  by (simp add: same_sub_def)

lemma speaks_refl [simp]: "speaks decompress i ob ob"
  by (auto simp: speaks_def intro: exI[of _ "[]"])

lemma speaks_trans: "speaks decompress i a b \<Longrightarrow> speaks decompress i b c \<Longrightarrow> speaks decompress i a c"
  by (auto simp: speaks_def)

lemma speaks_mirror:
  "speaks decompress i ob ob' \<Longrightarrow> j \<noteq> i \<Longrightarrow> client_mirror decompress j (ob_sent ob') = client_mirror decompress j (ob_sent ob)"
  by (auto simp: speaks_def client_mirror_quiet)

lemma speaks_send: "(\<And>i. i \<noteq> kv_id \<Longrightarrow> quiet decompress i msg) \<Longrightarrow> speaks decompress kv_id ob (fst (ob_send msg ob))"
  by (auto simp: speaks_def ob_send_def intro: exI[of _ "[]"])

text \<open>Charging and sending one frame.\<close>

lemma charge_and_send_cases:
  assumes "good_frame ev (se_kv_id s) msg" "charge_and_send msg (s, ob) = ((s', ob'), ok)"
  shows "same_sub s s'" "speaks (ev_decompress ev) (se_kv_id s) ob ob'" "se_phase s' = se_phase s"
    "ok \<Longrightarrow> ob_up ob" "ok \<Longrightarrow> se_closed s' = se_closed s" "\<not> ok \<Longrightarrow> ob_up ob \<Longrightarrow> se_closed s'"
proof -
  obtain u flags p where msg: "msg = msg_kv_update (ev_compress ev) (se_kv_id s) u flags p"
    using assms(1) by (auto simp: good_frame_def)
  have q: "i \<noteq> se_kv_id s \<Longrightarrow> quiet (ev_decompress ev) i (write_at msg 3 (wle 4 n))" for i and n :: u32
    by (simp add: msg set_update_id quiet_update)
  show "same_sub s s'" "se_phase s' = se_phase s" "ok \<Longrightarrow> ob_up ob" "ok \<Longrightarrow> se_closed s' = se_closed s"
    "\<not> ok \<Longrightarrow> ob_up ob \<Longrightarrow> se_closed s'"
    using assms(2) by (auto simp: charge_and_send_def Let_def same_sub_def ob_send_def split: if_splits)
  have "ob' = fst (ob_send (msg_kv_closed (se_kv_id s) KV_CLOSED_RESOURCE_LIMIT) ob)
      \<or> ob' = fst (ob_send (write_at msg 3 (wle 4 (next_update s))) ob)"
    using assms(2) by (auto simp: charge_and_send_def Let_def split: if_splits prod.splits)
  then show "speaks (ev_decompress ev) (se_kv_id s) ob ob'"
    using q quiet_closed by (auto intro!: speaks_send)
qed

lemma charge_and_send_displays:
  assumes "lz4_ok ev" "good_payload p" "msg = msg_kv_update (ev_compress ev) (se_kv_id s) u flags p"
    and "charge_and_send msg (s, ob) = ((s', ob'), ok)" "displays ev s ob f complete" "ok"
  shows "displays ev s' ob' (fold rec_upd (kv_records p) f) (complete \<or> flags AND KV_UPDATE_SNAPSHOT_END \<noteq> 0)"
proof -
  define n where "n = next_update s"
  have ob': "ob_sent ob' = ob_sent ob @ [msg_kv_update (ev_compress ev) (se_kv_id s) n flags p]"
    and s': "se_kv_id s' = se_kv_id s"
    using assms(3,4,6) by (auto simp: charge_and_send_def Let_def ob_send_def set_update_id n_def split: if_splits)
  obtain m where m: "client_mirror (ev_decompress ev) (se_kv_id s) (ob_sent ob) = Some m" "bt_inv (km_live m)"
      "bt_get (km_live m) = f" "complete \<longrightarrow> km_snapshot_done m"
    using assms(5) by (auto simp: displays_def)
  obtain rs where rs: "list_all kv_record_ok rs" "p = records_payload rs" "length p \<le> MAX_DECOMPRESSED"
    using assms(2) by (auto simp: good_payload_def)
  define m' where "m' = m\<lparr>km_live := fold apply_kv_record rs (km_live m),
       km_snapshot_done := (flags AND KV_UPDATE_SNAPSHOT_END \<noteq> 0) \<or> km_snapshot_done m\<rparr>"
  have "client_mirror (ev_decompress ev) (se_kv_id s') (ob_sent ob') = Some m'"
    using apply_kv_update_msg[of "ev_compress ev" "ev_decompress ev" rs "se_kv_id s" n flags m] assms(1) rs m(1)
    by (simp add: ob' s' client_mirror_snoc client_read_update lz4_ok_def m'_def)
  moreover have "bt_inv (km_live m')" "bt_get (km_live m') = fold rec_upd rs f"
    using apply_kv_records_view[OF m(2), of rs] m(3) by (simp_all add: m'_def)
  moreover have "kv_records p = rs" using rs(1,2) by (simp add: kv_records_payload)
  moreover have "complete \<or> flags AND KV_UPDATE_SNAPSHOT_END \<noteq> 0 \<longrightarrow> km_snapshot_done m'"
    using m(4) by (simp add: m'_def)
  ultimately show ?thesis unfolding displays_def by blast
qed

lemma displays_later: "displays ev s ob f c \<Longrightarrow> (d \<Longrightarrow> c) \<Longrightarrow> displays ev s ob f d"
  by (auto simp: displays_def)

lemma displays_kv_id: "se_kv_id s' = se_kv_id s \<Longrightarrow> ob_sent ob' = ob_sent ob \<Longrightarrow> displays ev s' ob' f c \<longleftrightarrow> displays ev s ob f c"
  by (simp add: displays_def)

text \<open>The queue of a snapshot going live.\<close>

lemma flush_pending_cases:
  assumes "\<forall>msg \<in> set pending. good_frame ev (se_kv_id s) msg" "flush_pending pending (s, ob) = (s', ob')"
  shows "same_sub s s' \<and> speaks (ev_decompress ev) (se_kv_id s) ob ob' \<and> se_phase s' = se_phase s"
  using assms
proof (induction pending arbitrary: s ob)
  case (Cons msg pending)
  show ?case
  proof (cases "se_closed s")
    case False
    obtain s1 ob1 ok where c: "charge_and_send msg (s, ob) = ((s1, ob1), ok)" by (cases "charge_and_send msg (s, ob)") auto
    note one = charge_and_send_cases[OF _ c, of ev]
    have g: "good_frame ev (se_kv_id s) msg" using Cons.prems(1) by simp
    have i: "se_kv_id s1 = se_kv_id s" using one(1)[OF g] by (simp add: same_sub_def)
    show ?thesis
    proof (cases ok)
      case True
      then have "same_sub s1 s' \<and> speaks (ev_decompress ev) (se_kv_id s) ob1 ob' \<and> se_phase s' = se_phase s1"
        using Cons.IH[of s1 ob1] Cons.prems False c i by simp
      then show ?thesis using one[OF g] same_sub_trans speaks_trans by metis
    next
      case no: False
      then show ?thesis using one[OF g] Cons.prems(2) False c by simp
    qed
  qed (use Cons.prems in simp)
qed simp

lemma flush_pending_displays:
  assumes "lz4_ok ev" "\<forall>msg \<in> set pending. good_frame ev (se_kv_id s) msg" "flush_pending pending (s, ob) = (s', ob')"
    and "displays ev s ob f complete" "ob_up ob" "\<not> se_closed s'"
  shows "displays ev s' ob' (fold rec_upd (concat (map (frame_records (ev_decompress ev)) pending)) f) complete"
  using assms(2-)
proof (induction pending arbitrary: s ob f)
  case (Cons msg pending)
  have g: "good_frame ev (se_kv_id s) msg" using Cons.prems(1) by simp
  obtain u flags p where p: "good_payload p" "msg = msg_kv_update (ev_compress ev) (se_kv_id s) u flags p"
    using g by (auto simp: good_frame_def)
  obtain s1 ob1 ok where c: "charge_and_send msg (s, ob) = ((s1, ob1), ok)" by (cases "charge_and_send msg (s, ob)") auto
  note one = charge_and_send_cases[OF g c]
  have i: "se_kv_id s1 = se_kv_id s" "ob_up ob1" using one(1,2) Cons.prems(4) by (auto simp: same_sub_def speaks_def)
  have open0: "\<not> se_closed s"
  proof
    assume "se_closed s"
    then have "s' = s" using Cons.prems(2) by simp
    then show False using \<open>se_closed s\<close> Cons.prems(5) by simp
  qed
  have ok: ok
  proof (rule ccontr)
    assume "\<not> ok"
    then have "se_closed s1" "s' = s1" using one(6) Cons.prems(2,4) c open0 by auto
    then show False using Cons.prems(5) by simp
  qed
  have "displays ev s1 ob1 (fold rec_upd (kv_records p) f) complete"
    using charge_and_send_displays[OF assms(1) p c Cons.prems(3) ok] by (rule displays_later) simp
  then have "displays ev s' ob' (fold rec_upd (concat (map (frame_records (ev_decompress ev)) pending)) (fold rec_upd (kv_records p) f)) complete"
    using Cons.IH[of s1 ob1] Cons.prems c ok i open0 by simp
  then show ?case using frame_records_msg[OF assms(1) p(1)] p(2) by simp
qed simp

end
