(* ===== verification/Kv_Snapshot.thy ===== *)
theory Kv_Snapshot
  imports Kv_Mirror
begin

text \<open>
  Records of entries.  The prefix range of the ordered map is the entries whose key starts with the
  prefix; the chunks of a snapshot hold exactly their records, and a mirror that starts empty shows
  the prefix's part of the map after reading them.
\<close>

subsection \<open>The range of a prefix\<close>

lemma matching_entries_filter:
  "bt_inv m \<Longrightarrow> matching_entries p m = filter (\<lambda>(key, e). starts_with key p) m"
  by (simp add: matching_entries_def prefix_range_filter)

subsection \<open>Entries as records\<close>

definition mirrored :: "nat \<Rightarrow> store_entry \<Rightarrow> kv_entry" where
  "mirrored limit e = \<lparr>ke_hash = en_hash e, ke_size = word_of_nat (length (en_value e)), ke_mtime_ns = en_mtime_ns e,
     ke_value = (if length (en_value e) \<le> limit then Some (en_value e) else None)\<rparr>"

text \<open>What a subscription shows of a map.\<close>

definition view_of :: "(bytes, store_entry) btree_map \<Rightarrow> sub_entry \<Rightarrow> kv_view" where
  "view_of entries s key = (if starts_with key (se_prefix s)
     then map_option (mirrored (inline_limit s)) (bt_get entries key) else None)"

definition config_ok :: "'d kv_env \<Rightarrow> bool" where
  "config_ok ev \<longleftrightarrow> cfg_value_max (ev_cfg ev) + SNAPSHOT_CHUNK + 1024 \<le> MAX_DECOMPRESSED"

definition key_ok :: "bytes \<Rightarrow> bool" where
  "key_ok key \<longleftrightarrow> utf8_valid key \<and> length key \<le> KV_MAX_KEY"

lemma length_kv_record_body:
  "length (kv_record_body r) \<le> 40 + length (rec_key r)
    + (case r of KvUpsert k h sz t (Some v) \<Rightarrow> length v | _ \<Rightarrow> 0)"
  by (auto simp: kv_record_body_def key_field_def split: kv_record.split option.split)

lemma snapshot_record_ok:
  assumes "config_ok ev" "entry_ok ev key e"
  shows "kv_record_ok (snapshot_record limit (key, e))"
    and "length (kv_record_body (snapshot_record limit (key, e))) \<le> cfg_value_max (ev_cfg ev) + 296"
proof -
  let ?r = "snapshot_record limit (key, e)"
  have key: "utf8_valid key" "length key \<le> 256" and v: "length (en_value e) \<le> cfg_value_max (ev_cfg ev)"
    using assms(2) by (simp_all add: entry_ok_def KV_MAX_KEY_def)
  have "length (kv_record_body ?r) \<le> 40 + length key + length (en_value e)"
    using length_kv_record_body[of ?r] by (simp add: snapshot_record_def entry_record_def split: if_splits)
  then show len: "length (kv_record_body ?r) \<le> cfg_value_max (ev_cfg ev) + 296"
    using key v by linarith
  have "cfg_value_max (ev_cfg ev) + 1024 \<le> 67108864"
    using assms(1) by (simp add: config_ok_def MAX_DECOMPRESSED_def)
  then show "kv_record_ok ?r"
    using len key by (simp add: kv_record_ok_def) (simp add: snapshot_record_def entry_record_def)
qed

lemma length_kv_framed: "length (kv_framed b) = 4 + length b"
  by (simp add: kv_framed_def)

lemma records_payload_snoc: "records_payload (rs @ [r]) = append_kv_record (records_payload rs) r"
  by (simp add: records_payload_def)

lemma length_append_kv_record: "length (append_kv_record buf r) = length buf + 4 + length (kv_record_body r)"
  by (simp add: append_kv_record_def length_kv_framed)

text \<open>The record one key is broadcast with.\<close>

definition key_record :: "(bytes, store_entry) btree_map \<Rightarrow> sub_entry \<Rightarrow> bytes \<Rightarrow> kv_record" where
  "key_record entries s key = (case bt_get entries key of
     Some e \<Rightarrow> snapshot_record (inline_limit s) (key, e) | None \<Rightarrow> KvDelete key)"

lemma key_record_upd:
  "rec_upd (key_record entries s key) f = f(key := map_option (mirrored (inline_limit s)) (bt_get entries key))"
  by (auto simp: key_record_def rec_upd_def snapshot_record_def entry_record_def mirrored_def split: option.split)

lemma key_record_good:
  assumes "config_ok ev" "key_ok key" "\<And>e. bt_get entries key = Some e \<Longrightarrow> entry_ok ev key e"
  shows "good_payload (append_kv_record [] (key_record entries s key))"
    and "kv_records (append_kv_record [] (key_record entries s key)) = [key_record entries s key]"
proof -
  let ?r = "key_record entries s key"
  have key: "utf8_valid key" "length key \<le> 256" using assms(2) by (simp_all add: key_ok_def KV_MAX_KEY_def)
  have r: "kv_record_ok ?r \<and> length (kv_record_body ?r) \<le> cfg_value_max (ev_cfg ev) + 296"
  proof (cases "bt_get entries key")
    case None
    then show ?thesis using key length_kv_record_body[of "KvDelete key"] by (simp add: key_record_def kv_record_ok_def)
  next
    case (Some e)
    then show ?thesis using snapshot_record_ok[OF assms(1) assms(3)[OF Some]] by (simp add: key_record_def)
  qed
  have p: "append_kv_record [] ?r = records_payload [?r]" by (simp add: records_payload_def)
  have "length (append_kv_record [] ?r) \<le> MAX_DECOMPRESSED"
    using r assms(1) by (simp add: length_append_kv_record config_ok_def SNAPSHOT_CHUNK_def)
  then show "good_payload (append_kv_record [] ?r)"
    unfolding good_payload_def using r p by (intro conjI exI[of _ "[?r]"]) simp_all
  show "kv_records (append_kv_record [] ?r) = [?r]" using r kv_records_payload[of "[?r]"] by (simp add: p)
qed

text \<open>The template a broadcast clones, with the subscription's id in it.\<close>

lemma broadcast_frame:
  "write_at (if (case bt_get entries key of Some e \<Rightarrow> length (en_value e) \<le> inline_limit s | None \<Rightarrow> False)
      then build_update compress key (bt_get entries key) (map_option en_value (bt_get entries key))
      else build_update compress key (bt_get entries key) None) 1 (wle 2 (se_kv_id s))
    = msg_kv_update compress (se_kv_id s) 0 0 (append_kv_record [] (key_record entries s key))"
  unfolding build_update_def if_distrib[of "\<lambda>m. write_at m 1 (wle 2 (se_kv_id s))"] set_update_kv_id
  by (cases "bt_get entries key") (simp_all add: key_record_def snapshot_record_def)

subsection \<open>The chunks of a snapshot\<close>

lemma snapshot_loop_chunks:
  assumes "config_ok ev" "\<forall>(key, e) \<in> set matching. entry_ok ev key e"
    and "list_all kv_record_ok rs" "length (records_payload rs) < SNAPSHOT_CHUNK"
  shows "(\<forall>p \<in> set (snapshot_loop limit matching (records_payload rs)). good_payload p)
    \<and> concat (map kv_records (snapshot_loop limit matching (records_payload rs))) = rs @ map (snapshot_record limit) matching
    \<and> snapshot_loop limit matching (records_payload rs) \<noteq> []"
  using assms(2-4)
proof (induction matching arbitrary: rs)
  case Nil
  have "length (records_payload rs) \<le> MAX_DECOMPRESSED"
    using Nil.prems(3) assms(1) by (simp add: config_ok_def)
  then show ?case using Nil.prems(2) by (auto simp: good_payload_def kv_records_payload)
next
  case (Cons m matching)
  obtain key e where m: "m = (key, e)" by (cases m)
  define r where "r = snapshot_record limit m"
  have r: "kv_record_ok r" "length (kv_record_body r) \<le> cfg_value_max (ev_cfg ev) + 296"
    using snapshot_record_ok[OF assms(1), of key e limit] Cons.prems(1) by (auto simp: m r_def)
  have rs: "list_all kv_record_ok (rs @ [r])" using Cons.prems(2) r(1) by simp
  have p: "append_kv_record (records_payload rs) r = records_payload (rs @ [r])" by (simp add: records_payload_snoc)
  have "length (records_payload (rs @ [r])) \<le> MAX_DECOMPRESSED"
    using Cons.prems(3) r(2) assms(1) by (simp add: records_payload_snoc length_append_kv_record config_ok_def)
  then have good: "good_payload (records_payload (rs @ [r]))" using rs unfolding good_payload_def by blast
  have e0: "records_payload [] = []" by (simp add: records_payload_def)
  have tl: "\<forall>(key, e) \<in> set matching. entry_ok ev key e" using Cons.prems(1) by simp
  show ?case
  proof (cases "length (records_payload (rs @ [r])) \<ge> SNAPSHOT_CHUNK")
    case True
    then have l: "snapshot_loop limit (m # matching) (records_payload rs)
        = records_payload (rs @ [r]) # snapshot_loop limit matching []"
      using p by (simp add: Let_def r_def)
    show ?thesis
      using Cons.IH[of "[]"] tl good kv_records_payload[OF rs] unfolding l e0
      by (simp add: r_def SNAPSHOT_CHUNK_def)
  next
    case False
    then have l: "snapshot_loop limit (m # matching) (records_payload rs) = snapshot_loop limit matching (records_payload (rs @ [r]))"
      using p by (simp add: Let_def r_def)
    show ?thesis
      using Cons.IH[of "rs @ [r]"] tl rs False unfolding l by (simp add: r_def)
  qed
qed

lemma mark_last_facts:
  "map snd (mark_last chunks) = chunks"
  "chunks \<noteq> [] \<Longrightarrow> mark_last chunks \<noteq> [] \<and> fst (last (mark_last chunks)) = KV_UPDATE_SNAPSHOT_END"
  by (induction chunks rule: mark_last.induct) auto

lemma fold_snapshot_records:
  "distinct (map fst ms) \<Longrightarrow> fold rec_upd (map (snapshot_record limit) ms) f
    = (\<lambda>key. case map_of ms key of Some e \<Rightarrow> Some (mirrored limit e) | None \<Rightarrow> f key)"
proof (induction ms arbitrary: f)
  case (Cons m ms)
  obtain key e where m: "m = (key, e)" by (cases m)
  have "map_of ms key = None" using Cons.prems m by (simp add: map_of_eq_None_iff)
  moreover have "rec_upd (snapshot_record limit m) f = f(key \<mapsto> mirrored limit e)"
    by (simp add: m snapshot_record_def entry_record_def rec_upd_def mirrored_def)
  ultimately show ?case using Cons m by (auto simp: fun_eq_iff split: option.split)
qed simp

lemma map_of_filter_keys:
  "map_of (filter (\<lambda>(key, e). P key) m) key = (if P key then map_of m key else None)"
  by (induction m) auto

lemma snapshot_shows_view:
  assumes "bt_inv entries"
  shows "fold rec_upd (map (snapshot_record (inline_limit s)) (matching_entries (se_prefix s) entries)) (\<lambda>_. None)
    = view_of entries s"
proof -
  have "distinct (map fst (matching_entries (se_prefix s) entries))"
    using assms by (simp add: matching_entries_filter bt_inv_def strict_sorted_iff distinct_map_filter)
  then show ?thesis
    by (auto simp: fold_snapshot_records matching_entries_filter[OF assms] map_of_filter_keys view_of_def bt_get_def fun_eq_iff
        split: option.split)
qed

lemma open_snapshot:
  fixes s :: sub_entry
  assumes "config_ok ev" "bt_inv entries" "\<forall>key e. bt_get entries key = Some e \<longrightarrow> entry_ok ev key e"
  defines "chunks \<equiv> mark_last (snapshot_loop (inline_limit s) (matching_entries (se_prefix s) entries) [])"
  shows "\<forall>(flags, p) \<in> set chunks. good_payload p" "chunks \<noteq> []" "fst (last chunks) = KV_UPDATE_SNAPSHOT_END"
    "fold rec_upd (concat (map (kv_records \<circ> snd) chunks)) (\<lambda>_. None) = view_of entries s"
proof -
  have "\<forall>(key, e) \<in> set (matching_entries (se_prefix s) entries). entry_ok ev key e"
  proof (clarify)
    fix key e assume "(key, e) \<in> set (matching_entries (se_prefix s) entries)"
    then have "(key, e) \<in> set entries" by (simp add: matching_entries_filter[OF assms(2)])
    then have "bt_get entries key = Some e"
      using assms(2) by (simp add: bt_get_def bt_inv_def strict_sorted_iff)
    then show "entry_ok ev key e" using assms(3) by simp
  qed
  then have l: "(\<forall>p \<in> set (snapshot_loop (inline_limit s) (matching_entries (se_prefix s) entries) []). good_payload p)
    \<and> concat (map kv_records (snapshot_loop (inline_limit s) (matching_entries (se_prefix s) entries) []))
        = map (snapshot_record (inline_limit s)) (matching_entries (se_prefix s) entries)
    \<and> snapshot_loop (inline_limit s) (matching_entries (se_prefix s) entries) [] \<noteq> []"
    using snapshot_loop_chunks[OF assms(1), of "matching_entries (se_prefix s) entries" "[]" "inline_limit s"]
    by (simp add: records_payload_def SNAPSHOT_CHUNK_def)
  have "p \<in> set (map snd chunks)" if "(flags, p) \<in> set chunks" for flags p using that by force
  then show "\<forall>(flags, p) \<in> set chunks. good_payload p" using l by (auto simp: chunks_def mark_last_facts(1))
  show "chunks \<noteq> []" "fst (last chunks) = KV_UPDATE_SNAPSHOT_END"
    using l mark_last_facts(2) by (auto simp: chunks_def)
  have "concat (map (kv_records \<circ> snd) chunks) = concat (map kv_records (map snd chunks))" by simp
  then show "fold rec_upd (concat (map (kv_records \<circ> snd) chunks)) (\<lambda>_. None) = view_of entries s"
    using l snapshot_shows_view[OF assms(2)] by (simp only: chunks_def mark_last_facts(1))
qed

end
