(* ===== verification/Kv_Watch.thy ===== *)
theory Kv_Watch
  imports Kv_Snapshot
begin

text \<open>
  The invariant of the watches.  \<open>kv_linked\<close> says how the registries, the heap and the watch list
  refer to one another; \<open>synced\<close> that what a client has been sent of a subscription, with what is still
  queued for it, shows the prefix's part of the map, except for a set of keys whose echo is owed.
  This theory follows the operations that touch one subscription, and the broadcast over all of them.
\<close>

subsection \<open>The invariant\<close>

definition opening_sid :: "kv_conn \<Rightarrow> nat option" where
  "opening_sid k = (case kc_opening k of None \<Rightarrow> None | Some (Accepted sid) \<Rightarrow> Some sid | Some (Sending sid cs) \<Rightarrow> Some sid)"

definition accepted :: "kv_conn \<Rightarrow> nat \<Rightarrow> bool" where
  "accepted k sid \<longleftrightarrow> kc_opening k = Some (Accepted sid)"

definition chunks_left :: "kv_conn \<Rightarrow> nat \<Rightarrow> (u8 \<times> bytes) list" where
  "chunks_left k sid = (case kc_opening k of Some (Sending sid' cs) \<Rightarrow> if sid' = sid then cs else [] | _ \<Rightarrow> [])"

definition pending_frames :: "sub_entry \<Rightarrow> bytes list" where
  "pending_frames s = (case se_phase s of Snapshotting pending \<Rightarrow> pending | Live \<Rightarrow> [])"

definition outstanding :: "'d kv_env \<Rightarrow> kv_conn \<Rightarrow> nat \<Rightarrow> sub_entry \<Rightarrow> kv_record list" where
  "outstanding ev k sid s = concat (map (kv_records \<circ> snd) (chunks_left k sid))
     @ concat (map (frame_records (ev_decompress ev)) (pending_frames s))"

definition agrees :: "bytes set \<Rightarrow> sub_entry \<Rightarrow> (bytes, store_entry) btree_map \<Rightarrow> kv_view \<Rightarrow> bool" where
  "agrees K s entries f \<longleftrightarrow> (\<forall>key. key \<notin> K \<or> \<not> starts_with key (se_prefix s) \<longrightarrow> f key = view_of entries s key)"

definition sub_synced :: "'d kv_env \<Rightarrow> (bytes, store_entry) btree_map \<Rightarrow> bytes set \<Rightarrow> kv_conn \<Rightarrow> nat \<Rightarrow> sub_entry \<Rightarrow> bool" where
  "sub_synced ev entries K k sid s \<longleftrightarrow>
     (\<forall>(flags, p) \<in> set (chunks_left k sid). good_payload p) \<and> (\<forall>msg \<in> set (pending_frames s). good_frame ev (se_kv_id s) msg)
     \<and> (chunks_left k sid \<noteq> [] \<longrightarrow> fst (last (chunks_left k sid)) = KV_UPDATE_SNAPSHOT_END)
     \<and> (ob_up (kc_out k) \<and> \<not> se_closed s \<longrightarrow>
         (\<exists>f. displays ev s (kc_out k) f (\<not> accepted k sid \<and> chunks_left k sid = [])
           \<and> (if accepted k sid then f = (\<lambda>_. None) \<and> pending_frames s = []
              else agrees K s entries (fold rec_upd (outstanding ev k sid s) f))))"

definition kv_linked :: "'d kv_world \<Rightarrow> bool" where
  "kv_linked w \<longleftrightarrow>
     (\<forall>sid s. hm_get (kw_heap w) sid = Some s \<longrightarrow> sid < kw_next_sub w \<and> (\<exists>k. hm_get (kw_conns w) (se_conn s) = Some k
        \<and> (opening_sid k = Some sid \<and> se_phase s \<noteq> Live \<or> hm_get (kc_map k) (se_kv_id s) = Some sid \<and> se_phase s = Live)))
   \<and> (\<forall>c k. hm_get (kw_conns w) c = Some k \<longrightarrow> c < kw_next_conn w \<and> hm_inv (kc_map k)
        \<and> (\<forall>i sid. hm_get (kc_map k) i = Some sid \<longrightarrow> (\<exists>s. hm_get (kw_heap w) sid = Some s \<and> se_conn s = c \<and> se_kv_id s = i))
        \<and> (\<forall>sid. opening_sid k = Some sid \<longrightarrow>
             (\<exists>s. hm_get (kw_heap w) sid = Some s \<and> se_conn s = c \<and> hm_get (kc_map k) (se_kv_id s) = None)))
   \<and> (\<forall>sid \<in> set (kw_subs w). sid < kw_next_sub w) \<and> distinct (kw_subs w)
   \<and> (\<forall>c k sid. hm_get (kw_conns w) c = Some k \<longrightarrow> accepted k sid \<longrightarrow> sid \<notin> set (kw_subs w))
   \<and> (\<forall>sid s k. hm_get (kw_heap w) sid = Some s \<longrightarrow> hm_get (kw_conns w) (se_conn s) = Some k \<longrightarrow> ob_up (kc_out k) \<longrightarrow>
        \<not> se_closed s \<longrightarrow> \<not> accepted k sid \<longrightarrow> sid \<in> set (kw_subs w))"

definition synced :: "'d kv_env \<Rightarrow> (nat \<Rightarrow> bytes set) \<Rightarrow> 'd kv_world \<Rightarrow> bool" where
  "synced ev S w \<longleftrightarrow> (\<forall>sid s k. hm_get (kw_heap w) sid = Some s \<longrightarrow> hm_get (kw_conns w) (se_conn s) = Some k \<longrightarrow>
     sub_synced ev (kw_entries w) (S sid) k sid s)"

lemma kv_linkedD:
  assumes "kv_linked w"
  shows "hm_get (kw_heap w) sid = Some s \<Longrightarrow> sid < kw_next_sub w"
    and "hm_get (kw_heap w) sid = Some s \<Longrightarrow> \<exists>k. hm_get (kw_conns w) (se_conn s) = Some k
        \<and> (opening_sid k = Some sid \<and> se_phase s \<noteq> Live \<or> hm_get (kc_map k) (se_kv_id s) = Some sid \<and> se_phase s = Live)"
    and "hm_get (kw_conns w) c = Some k \<Longrightarrow> c < kw_next_conn w \<and> hm_inv (kc_map k)"
    and "hm_get (kw_conns w) c = Some k \<Longrightarrow> hm_get (kc_map k) i = Some sid \<Longrightarrow>
        \<exists>s. hm_get (kw_heap w) sid = Some s \<and> se_conn s = c \<and> se_kv_id s = i"
    and "hm_get (kw_conns w) c = Some k \<Longrightarrow> opening_sid k = Some sid \<Longrightarrow>
        \<exists>s. hm_get (kw_heap w) sid = Some s \<and> se_conn s = c \<and> hm_get (kc_map k) (se_kv_id s) = None"
    and "sid \<in> set (kw_subs w) \<Longrightarrow> sid < kw_next_sub w" and "distinct (kw_subs w)"
    and "hm_get (kw_conns w) c = Some k \<Longrightarrow> accepted k sid \<Longrightarrow> sid \<notin> set (kw_subs w)"
    and "hm_get (kw_heap w) sid = Some s \<Longrightarrow> hm_get (kw_conns w) (se_conn s) = Some k \<Longrightarrow> ob_up (kc_out k) \<Longrightarrow>
        \<not> se_closed s \<Longrightarrow> \<not> accepted k sid \<Longrightarrow> sid \<in> set (kw_subs w)"
  using assms unfolding kv_linked_def by blast+

lemma accepted_opening: "accepted k sid \<Longrightarrow> opening_sid k = Some sid"
  by (simp add: accepted_def opening_sid_def)

lemma chunks_opening: "chunks_left k sid \<noteq> [] \<Longrightarrow> opening_sid k = Some sid"
  by (auto simp: chunks_left_def opening_sid_def split: option.splits open_task.splits if_splits)

text \<open>A connection has at most one subscription under an id.\<close>

lemma linked_unique:
  assumes "kv_linked w" "hm_get (kw_heap w) sid = Some s" "hm_get (kw_heap w) sid' = Some s'"
    and "se_conn s' = se_conn s" "se_kv_id s' = se_kv_id s"
  shows "sid' = sid"
proof -
  obtain k where k: "hm_get (kw_conns w) (se_conn s) = Some k"
      "opening_sid k = Some sid \<and> se_phase s \<noteq> Live \<or> hm_get (kc_map k) (se_kv_id s) = Some sid \<and> se_phase s = Live"
    using kv_linkedD(2)[OF assms(1,2)] by blast
  have k': "opening_sid k = Some sid' \<and> se_phase s' \<noteq> Live \<or> hm_get (kc_map k) (se_kv_id s) = Some sid' \<and> se_phase s' = Live"
    using kv_linkedD(2)[OF assms(1,3)] k(1) assms(4,5) by auto
  have "hm_get (kc_map k) (se_kv_id s) = None" if "opening_sid k = Some sid" using kv_linkedD(5)[OF assms(1) k(1) that] assms(2) by auto
  moreover have "hm_get (kc_map k) (se_kv_id s) = None" if "opening_sid k = Some sid'"
    using kv_linkedD(5)[OF assms(1) k(1) that] assms(3,5) by auto
  ultimately show ?thesis using k(2) k' by auto
qed

subsection \<open>Changes that matter to no subscription\<close>

lemma sub_synced_cong:
  assumes "accepted k' sid = accepted k sid" "chunks_left k' sid = chunks_left k sid" "ob_up (kc_out k') = ob_up (kc_out k)"
    and "client_mirror (ev_decompress ev) (se_kv_id s) (ob_sent (kc_out k')) = client_mirror (ev_decompress ev) (se_kv_id s) (ob_sent (kc_out k))"
  shows "sub_synced ev entries K k' sid s \<longleftrightarrow> sub_synced ev entries K k sid s"
proof -
  have "outstanding ev k' sid s = outstanding ev k sid s" using assms(2) by (simp add: outstanding_def)
  moreover have "displays ev s (kc_out k') f c \<longleftrightarrow> displays ev s (kc_out k) f c" for f c
    using assms(4) by (simp add: displays_def)
  ultimately show ?thesis unfolding sub_synced_def assms(1-3) by simp
qed

definition conn_like :: "(bytes \<Rightarrow> bytes option) \<Rightarrow> kv_conn \<Rightarrow> kv_conn \<Rightarrow> bool" where
  "conn_like decompress k k' \<longleftrightarrow> kc_map k' = kc_map k \<and> kc_opening k' = kc_opening k \<and> ob_up (kc_out k') = ob_up (kc_out k)
     \<and> (\<forall>i. client_mirror decompress i (ob_sent (kc_out k')) = client_mirror decompress i (ob_sent (kc_out k)))"

definition world_like :: "(bytes \<Rightarrow> bytes option) \<Rightarrow> 'd kv_world \<Rightarrow> 'd kv_world \<Rightarrow> bool" where
  "world_like decompress w w' \<longleftrightarrow> kw_heap w' = kw_heap w \<and> kw_subs w' = kw_subs w \<and> kw_next_sub w' = kw_next_sub w
     \<and> kw_next_conn w' = kw_next_conn w \<and> kw_entries w' = kw_entries w
     \<and> (\<forall>c. rel_option (conn_like decompress) (hm_get (kw_conns w) c) (hm_get (kw_conns w') c))"

lemma conn_like_refl [simp]: "conn_like decompress k k"
  by (simp add: conn_like_def)

lemma rel_conn_like_refl [simp]: "rel_option (conn_like decompress) x x"
  by (cases x) simp_all

lemma world_like_refl [simp]: "world_like decompress w w"
  by (simp add: world_like_def)

lemma world_like_trans:
  assumes "world_like decompress a b" "world_like decompress b c"
  shows "world_like decompress a c"
proof -
  have "rel_option (conn_like decompress) (hm_get (kw_conns a) i) (hm_get (kw_conns c) i)" for i
  proof -
    have "rel_option (conn_like decompress) (hm_get (kw_conns a) i) (hm_get (kw_conns b) i)"
      "rel_option (conn_like decompress) (hm_get (kw_conns b) i) (hm_get (kw_conns c) i)"
      using assms by (simp_all add: world_like_def)
    then show ?thesis
      by (cases "hm_get (kw_conns a) i"; cases "hm_get (kw_conns b) i"; cases "hm_get (kw_conns c) i")
        (simp_all add: conn_like_def)
  qed
  then show ?thesis using assms by (simp add: world_like_def)
qed

lemma world_like_conn:
  assumes "world_like decompress w w'"
  shows "hm_get (kw_conns w') c = Some k' \<Longrightarrow> \<exists>k. hm_get (kw_conns w) c = Some k \<and> conn_like decompress k k'"
    and "hm_get (kw_conns w) c = Some k \<Longrightarrow> \<exists>k'. hm_get (kw_conns w') c = Some k' \<and> conn_like decompress k k'"
proof -
  have "rel_option (conn_like decompress) (hm_get (kw_conns w) c) (hm_get (kw_conns w') c)"
    using assms by (simp add: world_like_def)
  then show "hm_get (kw_conns w') c = Some k' \<Longrightarrow> \<exists>k. hm_get (kw_conns w) c = Some k \<and> conn_like decompress k k'"
    "hm_get (kw_conns w) c = Some k \<Longrightarrow> \<exists>k'. hm_get (kw_conns w') c = Some k' \<and> conn_like decompress k k'"
    by (cases "hm_get (kw_conns w) c"; cases "hm_get (kw_conns w') c"; simp)+
qed

lemma conn_like_fields:
  "conn_like decompress k k' \<Longrightarrow> kc_map k' = kc_map k \<and> opening_sid k' = opening_sid k \<and> accepted k' sid = accepted k sid
    \<and> ob_up (kc_out k') = ob_up (kc_out k)"
  by (simp add: conn_like_def opening_sid_def accepted_def)

lemma world_like_linked:
  assumes "world_like decompress w w'" "kv_linked w"
  shows "kv_linked w'"
proof -
  have same: "kw_heap w' = kw_heap w" "kw_subs w' = kw_subs w" "kw_next_sub w' = kw_next_sub w" "kw_next_conn w' = kw_next_conn w"
    using assms(1) by (simp_all add: world_like_def)
  note conn = world_like_conn[OF assms(1)] and L = kv_linkedD[OF assms(2)]
  show ?thesis
    unfolding kv_linked_def same
  proof (intro conjI allI impI ballI)
    fix sid s assume s: "hm_get (kw_heap w) sid = Some s"
    then show "sid < kw_next_sub w" by (rule L(1))
    show "\<exists>k. hm_get (kw_conns w') (se_conn s) = Some k \<and> (opening_sid k = Some sid \<and> se_phase s \<noteq> Live
        \<or> hm_get (kc_map k) (se_kv_id s) = Some sid \<and> se_phase s = Live)"
    proof -
      obtain k where k: "hm_get (kw_conns w) (se_conn s) = Some k" "opening_sid k = Some sid \<and> se_phase s \<noteq> Live
          \<or> hm_get (kc_map k) (se_kv_id s) = Some sid \<and> se_phase s = Live"
        using L(2)[OF s] by blast
      obtain k' where k': "hm_get (kw_conns w') (se_conn s) = Some k'" "conn_like decompress k k'"
        using conn(2)[OF k(1)] by blast
      then show ?thesis using k(2) conn_like_fields[OF k'(2)] by auto
    qed
  next
    fix c k assume k: "hm_get (kw_conns w') c = Some k"
    then obtain k0 where k0: "hm_get (kw_conns w) c = Some k0" "conn_like decompress k0 k" using conn(1) by blast
    then show "c < kw_next_conn w" "hm_inv (kc_map k)"
      "\<And>i sid. hm_get (kc_map k) i = Some sid \<Longrightarrow> \<exists>s. hm_get (kw_heap w) sid = Some s \<and> se_conn s = c \<and> se_kv_id s = i"
      "\<And>sid. opening_sid k = Some sid \<Longrightarrow>
        \<exists>s. hm_get (kw_heap w) sid = Some s \<and> se_conn s = c \<and> hm_get (kc_map k) (se_kv_id s) = None"
      "\<And>sid. accepted k sid \<Longrightarrow> sid \<notin> set (kw_subs w)"
      using L(3,4,5,8)[OF k0(1)] conn_like_fields[OF k0(2)] by simp_all
  next
    fix sid s k assume s: "hm_get (kw_heap w) sid = Some s" and k: "hm_get (kw_conns w') (se_conn s) = Some k"
      and up: "ob_up (kc_out k)" "\<not> se_closed s" "\<not> accepted k sid"
    obtain k0 where k0: "hm_get (kw_conns w) (se_conn s) = Some k0" "conn_like decompress k0 k" using conn(1)[OF k] by blast
    show "sid \<in> set (kw_subs w)" using L(9)[OF s k0(1)] up conn_like_fields[OF k0(2)] by simp
  qed (use L(6,7) in simp_all)
qed

lemma world_like_synced:
  assumes "world_like (ev_decompress ev) w w'" "synced ev S w"
  shows "synced ev S w'"
  unfolding synced_def
proof (intro allI impI)
  fix sid s k assume s: "hm_get (kw_heap w') sid = Some s" and k: "hm_get (kw_conns w') (se_conn s) = Some k"
  obtain k0 where k0: "hm_get (kw_conns w) (se_conn s) = Some k0" "conn_like (ev_decompress ev) k0 k"
    using world_like_conn(1)[OF assms(1) k] by blast
  have "sub_synced ev (kw_entries w) (S sid) k0 sid s"
    using assms s k0(1) by (simp add: synced_def world_like_def)
  then show "sub_synced ev (kw_entries w') (S sid) k sid s"
    using k0(2) assms(1) sub_synced_cong[of k sid k0 ev s]
    by (simp add: conn_like_def world_like_def accepted_def chunks_left_def)
qed

lemma world_like_set_conn:
  "hm_get (kw_conns w) c = Some k \<Longrightarrow> conn_like decompress k k' \<Longrightarrow> world_like decompress w (set_conn c k' w)"
  by (simp add: world_like_def set_conn_def)

lemma world_like_send_to:
  assumes "\<And>i. quiet decompress i msg"
  shows "world_like decompress w (send_to c msg w)"
proof (cases "hm_get (kw_conns w) c")
  case (Some k)
  have "conn_like decompress k (k\<lparr>kc_out := fst (ob_send msg (kc_out k))\<rparr>)"
    using assms by (simp add: conn_like_def ob_send_def client_mirror_quiet)
  then show ?thesis using Some by (simp add: send_to_def world_like_set_conn)
qed (simp add: send_to_def)

lemma world_like_put_done: "world_like decompress w (put_done c nonce st h t w)"
  by (simp add: put_done_def world_like_send_to quiet_done)

lemma world_like_refuse_open: "st \<noteq> KV_STATUS_OK \<Longrightarrow> world_like decompress w (refuse_open c nonce st d w)"
  by (simp add: refuse_open_def world_like_send_to quiet_refused)

lemma world_like_pending_add: "world_like decompress w (pending_add c w)"
  by (auto simp: pending_add_def conn_like_def intro: world_like_set_conn split: option.split)

lemma world_like_drop_reply: "world_like decompress w (drop_reply r w)"
  by (auto simp: drop_reply_def conn_like_def intro: world_like_set_conn split: option.split)

lemma world_like_fields:
  "world_like decompress w (w\<lparr>kw_queue := q\<rparr>)" "world_like decompress w (w\<lparr>kw_writer := b\<rparr>)"
  "world_like decompress w (w\<lparr>kw_phase := ph\<rparr>)" "world_like decompress w (w\<lparr>kw_db := d\<rparr>)"
  "world_like decompress w (w\<lparr>kw_total_bytes := n\<rparr>)"
  by (simp_all add: world_like_def)

lemma world_like_enqueue: "world_like decompress w (fst (enqueue key v r w))"
  using world_like_trans[OF world_like_fields(2) world_like_drop_reply]
  by (auto simp: enqueue_def world_like_drop_reply world_like_fields)

subsection \<open>One subscription changes\<close>

lemma on_sub_eq:
  assumes "hm_get (kw_heap w) sid = Some s" "hm_get (kw_conns w) (se_conn s) = Some k" "f (s, kc_out k) = ((s', ob'), ok)"
  shows "on_sub sid f w = (set_conn (se_conn s) (k\<lparr>kc_out := ob'\<rparr>) (w\<lparr>kw_heap := hm_insert sid s' (kw_heap w)\<rparr>), ok)"
  using assms by (simp add: on_sub_def)

text \<open>
  A connection's outbox grows by frames of its subscription \<open>sid\<close>: the others keep their
  agreement.
\<close>

lemma synced_other:
  assumes "kv_linked w" "synced ev S w" "hm_get (kw_heap w) sid = Some s" "hm_get (kw_conns w) (se_conn s) = Some k"
    and "speaks (ev_decompress ev) (se_kv_id s) (kc_out k) (kc_out k')" "\<And>i. i \<noteq> sid \<Longrightarrow> accepted k' i = accepted k i \<and> chunks_left k' i = chunks_left k i"
    and "i \<noteq> sid" "hm_get (kw_heap w) i = Some si" "se_conn si = se_conn s"
  shows "sub_synced ev (kw_entries w) (S i) k' i si"
proof -
  have "se_kv_id si \<noteq> se_kv_id s" using linked_unique[OF assms(1,3,8)] assms(7,9) by auto
  then have "client_mirror (ev_decompress ev) (se_kv_id si) (ob_sent (kc_out k')) = client_mirror (ev_decompress ev) (se_kv_id si) (ob_sent (kc_out k))"
    by (rule speaks_mirror[OF assms(5)])
  moreover have "ob_up (kc_out k') = ob_up (kc_out k)" using assms(5) by (simp add: speaks_def)
  moreover have "sub_synced ev (kw_entries w) (S i) k i si" using assms(2,4,8,9) by (simp add: synced_def)
  ultimately show ?thesis
    using assms(6)[OF assms(7)] sub_synced_cong[of k' i k ev si] by simp
qed

lemma on_sub_keeps:
  assumes "kv_linked w" "synced ev S w" "hm_get (kw_heap w) sid = Some s" "hm_get (kw_conns w) (se_conn s) = Some k"
    and "f (s, kc_out k) = ((s', ob'), ok)" "same_sub s s'" "speaks (ev_decompress ev) (se_kv_id s) (kc_out k) ob'"
    and "se_phase s' = Live \<longleftrightarrow> se_phase s = Live"
    and "sub_synced ev (kw_entries w) K (k\<lparr>kc_out := ob'\<rparr>) sid s'"
  shows "kv_linked (fst (on_sub sid f w))" "synced ev (S(sid := K)) (fst (on_sub sid f w))"
proof -
  let ?k = "k\<lparr>kc_out := ob'\<rparr>"
  define w' where "w' = fst (on_sub sid f w)"
  have heap: "hm_get (kw_heap w') = (hm_get (kw_heap w))(sid \<mapsto> s')"
    and conns: "hm_get (kw_conns w') = (hm_get (kw_conns w))(se_conn s \<mapsto> ?k)"
    and rest: "kw_subs w' = kw_subs w" "kw_next_sub w' = kw_next_sub w" "kw_next_conn w' = kw_next_conn w" "kw_entries w' = kw_entries w"
    by (simp_all add: w'_def on_sub_eq[where f = f, OF assms(3,4,5)] set_conn_def)
  have s': "se_conn s' = se_conn s" "se_kv_id s' = se_kv_id s" "se_closed s \<longrightarrow> se_closed s'"
    using assms(6) by (simp_all add: same_sub_def)
  have k': "opening_sid ?k = opening_sid k" "accepted ?k i = accepted k i" "chunks_left ?k i = chunks_left k i" for i
    by (simp_all add: opening_sid_def accepted_def chunks_left_def)
  have up: "ob_up ob' = ob_up (kc_out k)" using assms(7) by (simp add: speaks_def)
  note L = kv_linkedD[OF assms(1)]
  show "kv_linked (fst (on_sub sid f w))"
    unfolding w'_def[symmetric] kv_linked_def heap conns rest
  proof (intro conjI allI impI ballI)
    fix i si assume i: "((hm_get (kw_heap w))(sid \<mapsto> s')) i = Some si"
    then obtain si0 where si0: "hm_get (kw_heap w) i = Some si0" "se_conn si = se_conn si0" "se_kv_id si = se_kv_id si0"
        "se_phase si = Live \<longleftrightarrow> se_phase si0 = Live"
      using assms(3,8) s' by (auto split: if_splits)
    show "i < kw_next_sub w" by (rule L(1)[OF si0(1)])
    obtain ki where "hm_get (kw_conns w) (se_conn si) = Some ki" "opening_sid ki = Some i \<and> se_phase si \<noteq> Live
        \<or> hm_get (kc_map ki) (se_kv_id si) = Some i \<and> se_phase si = Live"
      using L(2)[OF si0(1)] si0 by auto
    then show "\<exists>ka. ((hm_get (kw_conns w))(se_conn s \<mapsto> ?k)) (se_conn si) = Some ka \<and> (opening_sid ka = Some i \<and> se_phase si \<noteq> Live
        \<or> hm_get (kc_map ka) (se_kv_id si) = Some i \<and> se_phase si = Live)"
      using assms(4) k' by auto
  next
    fix c ka assume c: "((hm_get (kw_conns w))(se_conn s \<mapsto> ?k)) c = Some ka"
    then obtain k0 where k0: "hm_get (kw_conns w) c = Some k0" "kc_map ka = kc_map k0" "opening_sid ka = opening_sid k0"
        "\<And>i. accepted ka i = accepted k0 i"
      using assms(4) k' by (auto split: if_splits)
    show "c < kw_next_conn w" "hm_inv (kc_map ka)" using L(3)[OF k0(1)] k0(2) by simp_all
    show "\<exists>si. ((hm_get (kw_heap w))(sid \<mapsto> s')) i = Some si \<and> se_conn si = c \<and> se_kv_id si = n"
      if "hm_get (kc_map ka) n = Some i" for n i
      using L(4)[OF k0(1), of n i] that k0(2) assms(3) s' by auto
    show "\<exists>si. ((hm_get (kw_heap w))(sid \<mapsto> s')) i = Some si \<and> se_conn si = c \<and> hm_get (kc_map ka) (se_kv_id si) = None"
      if "opening_sid ka = Some i" for i
      using L(5)[OF k0(1), of i] that k0(2,3) assms(3) s' by auto
    show "i \<notin> set (kw_subs w)" if "accepted ka i" for i using L(8)[OF k0(1), of i] that k0(4) by simp
  next
    fix i si ka assume i: "((hm_get (kw_heap w))(sid \<mapsto> s')) i = Some si"
      and c: "((hm_get (kw_conns w))(se_conn s \<mapsto> ?k)) (se_conn si) = Some ka"
      and a: "ob_up (kc_out ka)" "\<not> se_closed si" "\<not> accepted ka i"
    obtain si0 where si0: "hm_get (kw_heap w) i = Some si0" "se_conn si = se_conn si0" "\<not> se_closed si0"
      using i assms(3) s' a(2) by (auto split: if_splits)
    obtain k0 where k0: "hm_get (kw_conns w) (se_conn si0) = Some k0" "\<not> accepted k0 i" "ob_up (kc_out k0)"
      using c assms(4) k' up a si0(2) by (auto split: if_splits)
    show "i \<in> set (kw_subs w)" using L(9)[OF si0(1) k0(1)] k0 si0 by simp
  qed (use L(6,7) in simp_all)
  show "synced ev (S(sid := K)) (fst (on_sub sid f w))"
    unfolding w'_def[symmetric] synced_def heap conns rest
  proof (intro allI impI)
    fix i si ka assume i: "((hm_get (kw_heap w))(sid \<mapsto> s')) i = Some si"
      and c: "((hm_get (kw_conns w))(se_conn s \<mapsto> ?k)) (se_conn si) = Some ka"
    show "sub_synced ev (kw_entries w) ((S(sid := K)) i) ka i si"
    proof (cases "i = sid")
      case True
      then show ?thesis using i c s' assms(9) by simp
    next
      case False
      then have i0: "hm_get (kw_heap w) i = Some si" using i by simp
      show ?thesis
      proof (cases "se_conn si = se_conn s")
        case True
        then have "ka = ?k" using c by simp
        then show ?thesis
          using synced_other[OF assms(1,2,3,4), of ?k i si] assms(7) k' False i0 True by simp
      next
        case no: False
        then show ?thesis using assms(2) i0 c False by (simp add: synced_def)
      qed
    qed
  qed
qed

text \<open>The agreement set matters only while a subscription that is registered listens.\<close>

lemma agrees_mono: "agrees K s entries f \<Longrightarrow> K \<subseteq> K' \<Longrightarrow> agrees K' s entries f"
  by (auto simp: agrees_def)

lemma sub_synced_mono: "sub_synced ev entries K k sid s \<Longrightarrow> K \<subseteq> K' \<Longrightarrow> sub_synced ev entries K' k sid s"
  unfolding sub_synced_def using agrees_mono[of K s entries _ K'] by (auto split: if_splits)

lemma sub_synced_idle:
  assumes "sub_synced ev entries K k sid s" "ob_up (kc_out k) \<and> \<not> se_closed s \<longrightarrow> accepted k sid"
  shows "sub_synced ev entries' K' k sid s"
  using assms by (auto simp: sub_synced_def)

subsection \<open>Broadcasting\<close>

lemma deliver_synced:
  assumes "lz4_ok ev" "config_ok ev" "key_ok key" "\<And>e. bt_get entries key = Some e \<Longrightarrow> entry_ok ev key e"
    and "sub_synced ev entries K k sid s" "\<not> accepted k sid" "se_phase s = Live \<Longrightarrow> chunks_left k sid = []"
    and "deliver (msg_kv_update (ev_compress ev) (se_kv_id s) 0 0 (append_kv_record [] (key_record entries s key))) (s, kc_out k) = ((s', ob'), ok)"
    and "starts_with key (se_prefix s)"
  shows "same_sub s s'" "speaks (ev_decompress ev) (se_kv_id s) (kc_out k) ob'" "se_phase s' = Live \<longleftrightarrow> se_phase s = Live"
    "sub_synced ev entries (K - {key}) (k\<lparr>kc_out := ob'\<rparr>) sid s'"
    "ob_up (kc_out k) \<and> \<not> se_closed s' \<longrightarrow> ok"
proof -
  let ?r = "key_record entries s key"
  let ?msg = "msg_kv_update (ev_compress ev) (se_kv_id s) 0 0 (append_kv_record [] ?r)"
  let ?k = "k\<lparr>kc_out := ob'\<rparr>"
  note good = key_record_good[OF assms(2,3,4), where s = s]
  have frame: "good_frame ev (se_kv_id s) ?msg" using good(1) unfolding good_frame_def by blast
  have k': "accepted ?k i = accepted k i" "chunks_left ?k i = chunks_left k i" for i
    by (simp_all add: accepted_def chunks_left_def)
  have step: "agrees (K - {key}) s entries (rec_upd ?r f)" if "agrees K s entries f" for f
    using that assms(9) by (auto simp: agrees_def key_record_upd view_of_def)
  consider (closed) "se_closed s" | (snap) pending where "\<not> se_closed s" "se_phase s = Snapshotting pending"
    | (live) "\<not> se_closed s" "se_phase s = Live"
    by (cases "se_phase s") auto
  then have all: "same_sub s s' \<and> speaks (ev_decompress ev) (se_kv_id s) (kc_out k) ob' \<and> (se_phase s' = Live) = (se_phase s = Live)
      \<and> sub_synced ev entries (K - {key}) ?k sid s' \<and> (ob_up (kc_out k) \<and> \<not> se_closed s' \<longrightarrow> ok)"
  proof cases
    case closed
    then have e: "s' = s" "ob' = kc_out k" using assms(8) by (simp_all add: deliver_def)
    then show ?thesis
      using closed sub_synced_idle[OF assms(5)] by simp
  next
    case snap
    then have e: "s' = s\<lparr>se_phase := Snapshotting (pending @ [?msg])\<rparr>" "ob' = kc_out k" ok
      using assms(8) by (simp_all add: deliver_def)
    have p: "pending_frames s' = pending_frames s @ [?msg]" by (simp add: e snap pending_frames_def)
    have o': "outstanding ev k sid s' = outstanding ev k sid s @ [?r]"
      using frame_records_msg[OF assms(1) good(1)] good(2) by (simp add: outstanding_def k' p)
    have s'eq: "se_prefix s' = se_prefix s" "se_kv_id s' = se_kv_id s" "se_closed s' = se_closed s" by (simp_all add: e)
    have ag: "agrees (K - {key}) s' entries g \<longleftrightarrow> agrees (K - {key}) s entries g" for g
      by (simp add: agrees_def view_of_def e inline_limit_def)
    have d: "displays ev s' (kc_out k) g x \<longleftrightarrow> displays ev s (kc_out k) g x" for g x by (simp add: displays_def e)
    have "sub_synced ev entries (K - {key}) ?k sid s'"
      using assms(5,6) frame step e(2)
      by (auto simp: sub_synced_def k' p o' s'eq ag d)
    then show ?thesis
      using e snap by (simp add: same_sub_def)
  next
    case live
    then have c: "charge_and_send ?msg (s, kc_out k) = ((s', ob'), ok)" using assms(8) by (simp add: deliver_def)
    note cc = charge_and_send_cases[OF frame c]
    have ch: "chunks_left k sid = []" "pending_frames s' = []" "pending_frames s = []"
      using assms(7) live cc(3) by (simp_all add: pending_frames_def)
    have up: "ob_up ob' = ob_up (kc_out k)" using cc(2) by (simp add: speaks_def)
    have s'eq: "se_prefix s' = se_prefix s" "se_kv_id s' = se_kv_id s" "se_inline_max s' = se_inline_max s"
      using cc(1) by (simp_all add: same_sub_def)
    have ag: "agrees (K - {key}) s' entries g \<longleftrightarrow> agrees (K - {key}) s entries g" for g
      by (simp add: agrees_def view_of_def s'eq inline_limit_def)
    have "sub_synced ev entries (K - {key}) ?k sid s'"
    proof (cases "ob_up (kc_out k) \<and> \<not> se_closed s'")
      case True
      then have ok: ok using cc(6) by blast
      obtain f where f: "displays ev s (kc_out k) f True" "agrees K s entries f"
        using assms(5,6) True live(1) ch by (auto simp: sub_synced_def outstanding_def)
      have "displays ev s' ob' (rec_upd ?r f) True"
        using charge_and_send_displays[OF assms(1) good(1) refl c f(1) ok] good(2) by simp
      then show ?thesis
        using step[OF f(2)] assms(6) ag by (auto simp: sub_synced_def k' ch outstanding_def)
    next
      case False
      then show ?thesis using up by (auto simp: sub_synced_def k' ch)
    qed
    then show ?thesis using cc by auto
  qed
  then show "same_sub s s'" "speaks (ev_decompress ev) (se_kv_id s) (kc_out k) ob'" "se_phase s' = Live \<longleftrightarrow> se_phase s = Live"
    "sub_synced ev entries (K - {key}) (k\<lparr>kc_out := ob'\<rparr>) sid s'" "ob_up (kc_out k) \<and> \<not> se_closed s' \<longrightarrow> ok"
    by simp_all
qed

end
