(* ===== verification/Kv_Open.thy ===== *)
theory Kv_Open
  imports Kv_Watch
begin

text \<open>
  The invariant of the watches through a broadcast to every subscription and through the life of
  one: registered, sent its snapshot, live, and dropped.
\<close>

subsection \<open>A broadcast\<close>

lemma live_no_chunks:
  assumes "kv_linked w" "hm_get (kw_heap w) sid = Some s" "hm_get (kw_conns w) (se_conn s) = Some k" "se_phase s = Live"
  shows "chunks_left k sid = []" "\<not> accepted k sid" "opening_sid k \<noteq> Some sid"
proof -
  have m: "hm_get (kc_map k) (se_kv_id s) = Some sid" using kv_linkedD(2)[OF assms(1,2)] assms(3,4) by auto
  show os: "opening_sid k \<noteq> Some sid"
  proof
    assume "opening_sid k = Some sid"
    then show False using kv_linkedD(5)[OF assms(1,3)] m assms(2) by force
  qed
  show "chunks_left k sid = []" using os chunks_opening by blast
  show "\<not> accepted k sid" using os accepted_opening by blast
qed

lemma sub_synced_unprefixed:
  "sub_synced ev entries K k sid s \<Longrightarrow> \<not> starts_with key (se_prefix s) \<Longrightarrow> sub_synced ev entries (K - {key}) k sid s"
proof -
  assume s: "sub_synced ev entries K k sid s" and p: "\<not> starts_with key (se_prefix s)"
  have "agrees (K - {key}) s entries = agrees K s entries" using p by (auto simp: agrees_def fun_eq_iff)
  then show ?thesis using s unfolding sub_synced_def by (simp only:)
qed

definition heard :: "'d kv_world \<Rightarrow> nat set \<Rightarrow> nat list \<Rightarrow> bool" where
  "heard w D kept \<longleftrightarrow> set kept \<subseteq> D \<and> distinct kept \<and> (\<forall>i \<in> D. \<forall>s k. hm_get (kw_heap w) i = Some s \<longrightarrow>
     hm_get (kw_conns w) (se_conn s) = Some k \<longrightarrow> ob_up (kc_out k) \<longrightarrow> \<not> se_closed s \<longrightarrow> i \<in> set kept)"

text \<open>One subscription of the list.\<close>

lemma broadcast_one_keeps:
  assumes "lz4_ok ev" "config_ok ev" "key_ok key" "\<And>e. bt_get (kw_entries w) key = Some e \<Longrightarrow> entry_ok ev key e"
    and "kv_linked w" "synced ev S w" "sid \<in> set (kw_subs w)" "heard w D kept" "sid \<notin> D"
    and "broadcast_one (ev_compress ev) key sid (w, kept) = (w', kept')"
  shows "kv_linked w' \<and> synced ev (S(sid := S sid - {key})) w' \<and> kw_subs w' = kw_subs w \<and> heard w' (insert sid D) kept'"
proof (cases "hm_get (kw_heap w) sid")
  case None
  then have "w' = w" "kept' = kept" using assms(10) by (simp_all add: broadcast_one_def)
  then show ?thesis using assms(5,6,8) None by (auto simp: synced_def heard_def)
next
  case (Some s)
  obtain k where k: "hm_get (kw_conns w) (se_conn s) = Some k" using kv_linkedD(2)[OF assms(5) Some] by blast
  have sk: "sub_synced ev (kw_entries w) (S sid) k sid s" using assms(6) Some k by (simp add: synced_def)
  have fresh: "sid \<notin> set kept" using assms(8,9) by (auto simp: heard_def)
  show ?thesis
  proof (cases "starts_with key (se_prefix s)")
    case False
    then have e: "w' = w" "kept' = kept @ [sid]" using assms(10) Some by (simp_all add: broadcast_one_def)
    have "synced ev (S(sid := S sid - {key})) w"
      using assms(6) Some by (auto simp: synced_def intro!: sub_synced_unprefixed[OF _ False])
    then show ?thesis using e assms(5,8) fresh by (auto simp: heard_def)
  next
    case True
    define msg where "msg = msg_kv_update (ev_compress ev) (se_kv_id s) 0 0 (append_kv_record [] (key_record (kw_entries w) s key))"
    obtain s' ob' ok where d: "deliver msg (s, kc_out k) = ((s', ob'), ok)" by (cases "deliver msg (s, kc_out k)") auto
    have acc: "\<not> accepted k sid" using kv_linkedD(8)[OF assms(5) k] assms(7) by blast
    have live: "se_phase s = Live \<Longrightarrow> chunks_left k sid = []" using live_no_chunks(1)[OF assms(5) Some k] .
    note D = deliver_synced[OF assms(1-4) sk acc live d[unfolded msg_def] True]
    have e: "w' = fst (on_sub sid (deliver msg) w)" "kept' = (if ok then kept @ [sid] else kept)"
      using assms(10) Some True on_sub_eq[where f = "deliver msg", OF Some k d]
      by (auto simp: broadcast_one_def Let_def msg_def broadcast_frame[simplified])
    have w': "w' = set_conn (se_conn s) (k\<lparr>kc_out := ob'\<rparr>) (w\<lparr>kw_heap := hm_insert sid s' (kw_heap w)\<rparr>)"
      using on_sub_eq[where f = "deliver msg", OF Some k d] e(1) by simp
    note keep = on_sub_keeps[where f = "deliver msg", OF assms(5,6) Some k d D(1,2,3,4)]
    have up: "ob_up ob' = ob_up (kc_out k)" using D(2) by (simp add: speaks_def)
    have conn: "se_conn s' = se_conn s" using D(1) by (simp add: same_sub_def)
    have "heard w' (insert sid D) kept'"
      unfolding heard_def
    proof (intro conjI ballI allI impI)
      show "set kept' \<subseteq> insert sid D" "distinct kept'" using assms(8) fresh e(2) by (auto simp: heard_def)
      fix i si ki assume i: "i \<in> insert sid D" "hm_get (kw_heap w') i = Some si" "hm_get (kw_conns w') (se_conn si) = Some ki"
        "ob_up (kc_out ki)" "\<not> se_closed si"
      show "i \<in> set kept'"
      proof (cases "i = sid")
        case True
        then show ?thesis using i D(5) e(2) up conn by (auto simp: w' set_conn_def)
      next
        case False
        then have "hm_get (kw_heap w) i = Some si" using i(2) by (simp add: w' set_conn_def)
        moreover obtain k0 where "hm_get (kw_conns w) (se_conn si) = Some k0" "ob_up (kc_out k0)"
          using i(3,4) k up by (auto simp: w' set_conn_def split: if_splits)
        ultimately have "i \<in> set kept" using assms(8) i(1,5) False unfolding heard_def by blast
        then show ?thesis using e(2) by simp
      qed
    qed
    moreover have "kw_subs w' = kw_subs w" by (simp add: w' set_conn_def)
    ultimately show ?thesis using keep e(1) by simp
  qed
qed

lemma broadcast_fold_keeps:
  assumes "lz4_ok ev" "config_ok ev" "key_ok key"
  shows "(\<And>e. bt_get (kw_entries w) key = Some e \<Longrightarrow> entry_ok ev key e) \<Longrightarrow> kv_linked w \<Longrightarrow> synced ev S w \<Longrightarrow>
    set todo \<subseteq> set (kw_subs w) \<Longrightarrow> distinct todo \<Longrightarrow> heard w D kept \<Longrightarrow> set todo \<inter> D = {} \<Longrightarrow>
    fold (broadcast_one (ev_compress ev) key) todo (w, kept) = (w', kept') \<Longrightarrow>
    kv_linked w' \<and> synced ev (\<lambda>i. if i \<in> set todo then S i - {key} else S i) w' \<and> kw_subs w' = kw_subs w
      \<and> heard w' (D \<union> set todo) kept'"
proof (induction todo arbitrary: w kept D S)
  case Nil
  then show ?case by simp
next
  case (Cons sid todo)
  obtain w1 kept1 where one: "broadcast_one (ev_compress ev) key sid (w, kept) = (w1, kept1)"
    by (cases "broadcast_one (ev_compress ev) key sid (w, kept)")
  have e1: "kw_entries w1 = kw_entries w"
    using core_broadcast_one[of "ev_compress ev" key sid "(w, kept)"] one by (intro kv_core_fields(1)) simp
  have s1: "kv_linked w1 \<and> synced ev (S(sid := S sid - {key})) w1 \<and> kw_subs w1 = kw_subs w \<and> heard w1 (insert sid D) kept1"
    using Cons.prems one by (intro broadcast_one_keeps[OF assms]) auto
  have "kv_linked w' \<and> synced ev (\<lambda>i. if i \<in> set todo then (S(sid := S sid - {key})) i - {key} else (S(sid := S sid - {key})) i) w'
      \<and> kw_subs w' = kw_subs w1 \<and> heard w' (insert sid D \<union> set todo) kept'"
  proof (rule Cons.IH)
    show "entry_ok ev key e" if "bt_get (kw_entries w1) key = Some e" for e using Cons.prems(1) that e1 by simp
    show "kv_linked w1" "synced ev (S(sid := S sid - {key})) w1" "heard w1 (insert sid D) kept1" using s1 by blast+
    show "set todo \<subseteq> set (kw_subs w1)" "distinct todo" "set todo \<inter> insert sid D = {}" using Cons.prems s1 by auto
    show "fold (broadcast_one (ev_compress ev) key) todo (w1, kept1) = (w', kept')" using Cons.prems(8) one by simp
  qed
  moreover have "(\<lambda>i. if i \<in> set todo then (S(sid := S sid - {key})) i - {key} else (S(sid := S sid - {key})) i)
      = (\<lambda>i. if i \<in> set (sid # todo) then S i - {key} else S i)" by (rule ext) (simp add: fun_upd_def)
  moreover have "insert sid D \<union> set todo = D \<union> set (sid # todo)" by simp
  ultimately show ?case using s1 by metis
qed

lemma broadcast_keeps:
  assumes "lz4_ok ev" "config_ok ev" "key_ok key" "\<And>e. bt_get (kw_entries w) key = Some e \<Longrightarrow> entry_ok ev key e"
    and "kv_linked w" "synced ev S w"
  shows "kv_linked (broadcast (ev_compress ev) key w)" "synced ev (\<lambda>i. S i - {key}) (broadcast (ev_compress ev) key w)"
proof -
  obtain w' kept where f: "fold (broadcast_one (ev_compress ev) key) (kw_subs w) (w, []) = (w', kept)"
    by (cases "fold (broadcast_one (ev_compress ev) key) (kw_subs w) (w, [])")
  have b: "broadcast (ev_compress ev) key w = w'\<lparr>kw_subs := kept\<rparr>"
    using f by (cases "kw_subs w = []") (auto simp: broadcast_def)
  have h: "heard w {} []" by (simp add: heard_def)
  have k: "kv_linked w' \<and> synced ev (\<lambda>i. if i \<in> set (kw_subs w) then S i - {key} else S i) w' \<and> kw_subs w' = kw_subs w
      \<and> heard w' ({} \<union> set (kw_subs w)) kept"
    by (rule broadcast_fold_keeps[OF assms(1-6) subset_refl kv_linkedD(7)[OF assms(5)] h _ f]) (assumption, rule Int_empty_right)
  then have subs: "set kept \<subseteq> set (kw_subs w')" "distinct kept" by (auto simp: heard_def)
  note L = kv_linkedD[of w']
  have all: "sid \<in> set kept" if "hm_get (kw_heap w') sid = Some s" "hm_get (kw_conns w') (se_conn s) = Some ka"
      "ob_up (kc_out ka)" "\<not> se_closed s" "\<not> accepted ka sid" for sid s ka
  proof -
    have lw: "kv_linked w'" and sub: "kw_subs w' = kw_subs w" and hd: "heard w' (set (kw_subs w)) kept" using k by simp_all
    have "sid \<in> set (kw_subs w')" by (rule kv_linkedD(9)[OF lw that])
    then show ?thesis using hd that(1-4) unfolding heard_def sub by blast
  qed
  show "kv_linked (broadcast (ev_compress ev) key w)"
    using k subs all unfolding b kv_linked_def by auto
  show "synced ev (\<lambda>i. S i - {key}) (broadcast (ev_compress ev) key w)"
    unfolding b synced_def
  proof (intro allI impI)
    fix sid s ka assume s: "hm_get (kw_heap (w'\<lparr>kw_subs := kept\<rparr>)) sid = Some s"
      and ka: "hm_get (kw_conns (w'\<lparr>kw_subs := kept\<rparr>)) (se_conn s) = Some ka"
    then have sk: "sub_synced ev (kw_entries w') (if sid \<in> set (kw_subs w) then S sid - {key} else S sid) ka sid s"
      using k by (simp add: synced_def)
    show "sub_synced ev (kw_entries (w'\<lparr>kw_subs := kept\<rparr>)) (S sid - {key}) ka sid s"
    proof (cases "sid \<in> set (kw_subs w)")
      case True
      then show ?thesis using sk by simp
    next
      case False
      then have "sid \<notin> set (kw_subs w')" using k by simp
      then have "ob_up (kc_out ka) \<and> \<not> se_closed s \<longrightarrow> accepted ka sid" using s ka k L(9) by auto
      then show ?thesis using sub_synced_idle[OF sk] by simp
    qed
  qed
qed

subsection \<open>The map changes at one key\<close>

lemma synced_entries:
  assumes "synced ev S w" "\<And>key'. key' \<noteq> key \<Longrightarrow> bt_get m key' = bt_get (kw_entries w) key'"
  shows "synced ev (\<lambda>i. insert key (S i)) (w\<lparr>kw_entries := m, kw_total_bytes := n\<rparr>)"
  unfolding synced_def
proof (intro allI impI)
  fix sid s k assume s: "hm_get (kw_heap (w\<lparr>kw_entries := m, kw_total_bytes := n\<rparr>)) sid = Some s"
    and k: "hm_get (kw_conns (w\<lparr>kw_entries := m, kw_total_bytes := n\<rparr>)) (se_conn s) = Some k"
  have sk: "sub_synced ev (kw_entries w) (S sid) k sid s" using assms(1) s k by (simp add: synced_def)
  have "agrees (insert key (S sid)) s m f" if "agrees (S sid) s (kw_entries w) f" for f
    using that assms(2) by (auto simp: agrees_def view_of_def)
  then show "sub_synced ev (kw_entries (w\<lparr>kw_entries := m, kw_total_bytes := n\<rparr>)) (insert key (S sid)) k sid s"
    using sk by (auto simp: sub_synced_def split: if_splits)
qed

subsection \<open>One connection's subscription moves on\<close>

text \<open>
  Connection \<open>c\<close> and its subscription \<open>sid\<close>, the one it is opening, change; every other connection
  and subscription stays.
\<close>

lemma conn_sub_change:
  assumes "kv_linked w" "synced ev S w" "hm_get (kw_conns w) c = Some k" "opening_sid k = Some sid" "hm_get (kw_heap w) sid = Some s"
    and heap': "hm_get (kw_heap w') = (hm_get (kw_heap w))(sid \<mapsto> s')" and conns': "hm_get (kw_conns w') = (hm_get (kw_conns w))(c \<mapsto> k')"
    and rest': "kw_next_sub w' = kw_next_sub w" "kw_next_conn w' = kw_next_conn w" "kw_entries w' = kw_entries w"
    and s': "same_sub s s'" and out': "speaks (ev_decompress ev) (se_kv_id s) (kc_out k) (kc_out k')"
    and stage: "kc_map k' = kc_map k \<and> opening_sid k' = Some sid \<and> se_phase s' \<noteq> Live
      \<or> kc_map k' = hm_insert (se_kv_id s) sid (kc_map k) \<and> kc_opening k' = None \<and> se_phase s' = Live"
    and subs': "\<And>i. i \<noteq> sid \<Longrightarrow> hm_get (kw_heap w) i \<noteq> None \<Longrightarrow> i \<in> set (kw_subs w') \<longleftrightarrow> i \<in> set (kw_subs w)"
      "set (kw_subs w') \<subseteq> insert sid (set (kw_subs w))" "distinct (kw_subs w')"
      "sid \<in> set (kw_subs w') \<longleftrightarrow> \<not> accepted k' sid \<and> (sid \<in> set (kw_subs w) \<or> accepted k sid)"
    and sk': "sub_synced ev (kw_entries w) (S sid) k' sid s'"
  shows "kv_linked w'" "synced ev S w'"
proof -
  note L = kv_linkedD[OF assms(1)]
  have conn: "se_conn s = c" "hm_get (kc_map k) (se_kv_id s) = None" using L(5)[OF assms(3,4)] assms(5) by auto
  have id': "se_conn s' = c" "se_kv_id s' = se_kv_id s" "se_closed s \<longrightarrow> se_closed s'" using s' conn by (simp_all add: same_sub_def)
  have up: "ob_up (kc_out k') = ob_up (kc_out k)" using out' by (simp add: speaks_def)
  have other: "accepted k' i = accepted k i \<and> chunks_left k' i = chunks_left k i \<and> (opening_sid k' = Some i \<longleftrightarrow> opening_sid k = Some i)"
    if "i \<noteq> sid" for i
  proof -
    have k0: "opening_sid k \<noteq> Some i" using assms(4) that by simp
    have k1: "opening_sid k' \<noteq> Some i" using stage that by (auto simp: opening_sid_def)
    have "\<not> accepted k i" "\<not> accepted k' i" "chunks_left k i = []" "chunks_left k' i = []"
      using k0 k1 accepted_opening chunks_opening by blast+
    then show ?thesis using k0 k1 by simp
  qed
  have map_inv: "hm_inv (kc_map k')" using L(3)[OF assms(3)] stage by (auto simp: hm.inv_insert)
  have map_get: "hm_get (kc_map k') i = (if i = se_kv_id s \<and> kc_opening k' = None then Some sid else hm_get (kc_map k) i)" for i
    using stage conn(2) by (auto simp: opening_sid_def)
  show "kv_linked w'"
    unfolding kv_linked_def heap' conns' rest'
  proof (intro conjI allI impI ballI)
    fix i si assume i: "((hm_get (kw_heap w))(sid \<mapsto> s')) i = Some si"
    show "i < kw_next_sub w" using i L(1) assms(5) by (auto split: if_splits)
    show "\<exists>ka. ((hm_get (kw_conns w))(c \<mapsto> k')) (se_conn si) = Some ka \<and> (opening_sid ka = Some i \<and> se_phase si \<noteq> Live
        \<or> hm_get (kc_map ka) (se_kv_id si) = Some i \<and> se_phase si = Live)"
    proof (cases "i = sid")
      case True
      then have "si = s'" using i by simp
      then show ?thesis using stage id' True by auto
    next
      case False
      then have i0: "hm_get (kw_heap w) i = Some si" using i by simp
      obtain ki where ki: "hm_get (kw_conns w) (se_conn si) = Some ki" "opening_sid ki = Some i \<and> se_phase si \<noteq> Live
        \<or> hm_get (kc_map ki) (se_kv_id si) = Some i \<and> se_phase si = Live" using L(2)[OF i0] by blast
      show ?thesis
      proof (cases "se_conn si = c")
        case True
        then have "ki = k" using ki(1) assms(3) by simp
        moreover have "se_kv_id si \<noteq> se_kv_id s" using linked_unique[OF assms(1,5) i0] True conn False by auto
        ultimately show ?thesis using ki other[OF False] map_get True by auto
      next
        case no: False
        then show ?thesis using ki by auto
      qed
    qed
  next
    fix c' ka assume ka: "((hm_get (kw_conns w))(c \<mapsto> k')) c' = Some ka"
    show "c' < kw_next_conn w" "hm_inv (kc_map ka)" using ka L(3) assms(3) map_inv by (auto split: if_splits)
    show "\<exists>si. ((hm_get (kw_heap w))(sid \<mapsto> s')) i = Some si \<and> se_conn si = c' \<and> se_kv_id si = n"
      if "hm_get (kc_map ka) n = Some i" for n i
    proof (cases "c' = c \<and> i = sid")
      case True
      then have "n = se_kv_id s \<and> kc_opening k' = None \<or> hm_get (kc_map k) n = Some sid"
        using ka that map_get[of n] by (auto split: if_splits)
      then have "n = se_kv_id s" using L(4)[OF assms(3), of n sid] assms(5) by auto
      then show ?thesis using True id' by simp
    next
      case False
      have "\<exists>k0. hm_get (kw_conns w) c' = Some k0 \<and> hm_get (kc_map k0) n = Some i"
      proof (cases "c' = c")
        case True
        then have "ka = k'" "i \<noteq> sid" using ka False by auto
        then have "hm_get (kc_map k) n = Some i" using that map_get[of n] by (auto split: if_splits)
        then show ?thesis using True assms(3) by simp
      next
        case no: False
        then show ?thesis using ka that by simp
      qed
      then obtain k0 where k0: "hm_get (kw_conns w) c' = Some k0" "hm_get (kc_map k0) n = Some i" by blast
      obtain si where "hm_get (kw_heap w) i = Some si" "se_conn si = c'" "se_kv_id si = n" using L(4)[OF k0] by blast
      then show ?thesis using False assms(5) conn(1) by auto
    qed
    show "\<exists>si. ((hm_get (kw_heap w))(sid \<mapsto> s')) i = Some si \<and> se_conn si = c' \<and> hm_get (kc_map ka) (se_kv_id si) = None"
      if op: "opening_sid ka = Some i" for i
    proof (cases "c' = c")
      case True
      then have "ka = k'" using ka by simp
      then have os: "opening_sid k' = Some i" using op by simp
      then have "kc_opening k' \<noteq> None" by (cases "kc_opening k'") (simp_all add: opening_sid_def)
      moreover from this os have "i = sid" using stage by auto
      ultimately show ?thesis using True ka id' conn(2) map_get by auto
    next
      case False
      then have k0: "hm_get (kw_conns w) c' = Some ka" using ka by simp
      obtain si where "hm_get (kw_heap w) i = Some si" "se_conn si = c'" "hm_get (kc_map ka) (se_kv_id si) = None"
        using L(5)[OF k0 op] by blast
      then show ?thesis using False assms(5) conn(1) by auto
    qed
    show "i \<notin> set (kw_subs w')" if ac: "accepted ka i" for i
    proof (cases "c' = c")
      case True
      then have "i = sid" "accepted k' sid" using ka ac stage accepted_opening[of ka i] by (auto simp: opening_sid_def)
      then show ?thesis using subs'(4) by simp
    next
      case False
      then have k0: "hm_get (kw_conns w) c' = Some ka" using ka by simp
      obtain si where "hm_get (kw_heap w) i = Some si" "se_conn si = c'"
        using L(5)[OF k0 accepted_opening[OF ac]] by blast
      moreover from this have "i \<noteq> sid" using False assms(5) conn(1) by auto
      ultimately show ?thesis using L(8)[OF k0 ac] subs'(1) by auto
    qed
  next
    fix i assume "i \<in> set (kw_subs w')"
    then show "i < kw_next_sub w" using subs'(2) L(1)[OF assms(5)] L(6) by auto
  next
    show "distinct (kw_subs w')" by (rule subs'(3))
  next
    fix i si ka assume i: "((hm_get (kw_heap w))(sid \<mapsto> s')) i = Some si"
      and c: "((hm_get (kw_conns w))(c \<mapsto> k')) (se_conn si) = Some ka"
      and a: "ob_up (kc_out ka)" "\<not> se_closed si" "\<not> accepted ka i"
    show "i \<in> set (kw_subs w')"
    proof (cases "i = sid")
      case True
      then have "si = s'" "ka = k'" using i c id' by auto
      moreover have "sid \<in> set (kw_subs w) \<or> accepted k sid"
        using L(9)[OF assms(5), of k] assms(3) conn(1) calculation a up id' by auto
      ultimately show ?thesis using True a(3) subs'(4) by simp
    next
      case False
      then have i0: "hm_get (kw_heap w) i = Some si" using i by simp
      obtain k0 where k0: "hm_get (kw_conns w) (se_conn si) = Some k0" "ob_up (kc_out k0)" "\<not> accepted k0 i"
        using c a assms(3) up other[OF False] by (auto split: if_splits)
      show ?thesis using L(9)[OF i0 k0(1,2) a(2) k0(3)] subs'(1)[OF False] i0 by simp
    qed
  qed
  show "synced ev S w'"
    unfolding synced_def heap' conns' rest'
  proof (intro allI impI)
    fix i si ka assume i: "((hm_get (kw_heap w))(sid \<mapsto> s')) i = Some si"
      and c: "((hm_get (kw_conns w))(c \<mapsto> k')) (se_conn si) = Some ka"
    show "sub_synced ev (kw_entries w) (S i) ka i si"
    proof (cases "i = sid")
      case True
      then show ?thesis using i c id' sk' by auto
    next
      case False
      then have i0: "hm_get (kw_heap w) i = Some si" using i by simp
      show ?thesis
      proof (cases "se_conn si = c")
        case True
        then show ?thesis
          using synced_other[OF assms(1,2,5), of k k' i si] assms(3) out' other False i0 c conn(1) by auto
      next
        case no: False
        then show ?thesis using assms(2) i0 c by (simp add: synced_def)
      qed
    qed
  qed
qed

end
