(* ===== verification/Kv_Sync.thy ===== *)
theory Kv_Sync
  imports Kv_Open
begin

text \<open>
  Every step keeps the invariant of the watches: subscriptions dropped, connections coming and going,
  the stages of an \<open>OPEN\<close>, the mutations of a put with its queue, and the writer thread.  The keys whose
  echo is owed are those of the durable puts that the writer has not answered yet.
\<close>

subsection \<open>Dropping subscriptions\<close>

lemma drop_keeps:
  assumes "kv_linked w" "synced ev S w" "hm_get (kw_conns w) c = Some k"
    and heap': "\<And>i. hm_get (kw_heap w') i = (if i \<in> D then None else hm_get (kw_heap w) i)"
    and conns': "hm_get (kw_conns w') = (hm_get (kw_conns w))(c := ok')"
    and rest': "kw_next_sub w' = kw_next_sub w" "kw_next_conn w' = kw_next_conn w" "kw_entries w' = kw_entries w" "kw_subs w' = kw_subs w"
    and own: "\<And>i s. i \<in> D \<Longrightarrow> hm_get (kw_heap w) i = Some s \<Longrightarrow> se_conn s = c"
    and gone: "ok' = None \<Longrightarrow> (\<And>i s. hm_get (kw_heap w) i = Some s \<Longrightarrow> se_conn s = c \<Longrightarrow> i \<in> D)"
    and stay: "\<And>k'. ok' = Some k' \<Longrightarrow> hm_inv (kc_map k') \<and> kc_out k' = kc_out k
      \<and> (\<forall>n. hm_get (kc_map k') n = (case hm_get (kc_map k) n of Some i \<Rightarrow> if i \<in> D then None else Some i | None \<Rightarrow> None))
      \<and> (kc_opening k' = kc_opening k \<and> (\<forall>i. opening_sid k = Some i \<longrightarrow> i \<notin> D)
         \<or> kc_opening k' = None \<and> (\<forall>i. opening_sid k = Some i \<longrightarrow> i \<in> D))"
  shows "kv_linked w'" "synced ev S w'"
proof -
  note L = kv_linkedD[OF assms(1)]
  have stage: "accepted k' i = accepted k i \<and> chunks_left k' i = chunks_left k i \<and> (opening_sid k' = Some i \<longleftrightarrow> opening_sid k = Some i)"
    if "ok' = Some k'" "i \<notin> D" for k' i
  proof -
    have "kc_opening k' = kc_opening k \<or> kc_opening k' = None \<and> opening_sid k \<noteq> Some i" using stay[OF that(1)] that(2) by blast
    then show ?thesis
    proof
      assume "kc_opening k' = None \<and> opening_sid k \<noteq> Some i"
      then have "opening_sid k' \<noteq> Some i" "opening_sid k \<noteq> Some i" by (simp_all add: opening_sid_def)
      then have "\<not> accepted k i" "\<not> accepted k' i" "chunks_left k i = []" "chunks_left k' i = []" "opening_sid k' \<noteq> Some i"
        using accepted_opening chunks_opening by blast+
      then show ?thesis using \<open>opening_sid k \<noteq> Some i\<close> by simp
    qed (simp add: accepted_def chunks_left_def opening_sid_def)
  qed
  show "kv_linked w'"
    unfolding kv_linked_def rest' conns'
  proof (intro conjI allI impI ballI)
    fix i s assume i: "hm_get (kw_heap w') i = Some s"
    then have i0: "hm_get (kw_heap w) i = Some s" "i \<notin> D" by (simp_all add: heap' split: if_splits)
    show "i < kw_next_sub w" by (rule L(1)[OF i0(1)])
    obtain ki where ki: "hm_get (kw_conns w) (se_conn s) = Some ki" "opening_sid ki = Some i \<and> se_phase s \<noteq> Live
        \<or> hm_get (kc_map ki) (se_kv_id s) = Some i \<and> se_phase s = Live" using L(2)[OF i0(1)] by blast
    show "\<exists>ka. ((hm_get (kw_conns w))(c := ok')) (se_conn s) = Some ka \<and> (opening_sid ka = Some i \<and> se_phase s \<noteq> Live
        \<or> hm_get (kc_map ka) (se_kv_id s) = Some i \<and> se_phase s = Live)"
    proof (cases "se_conn s = c")
      case True
      then obtain k' where k': "ok' = Some k'" using gone i0 by (cases ok') auto
      then show ?thesis using True ki assms(3) stage[OF k' i0(2)] stay[OF k'] i0(2) by auto
    next
      case False
      then show ?thesis using ki by simp
    qed
  next
    fix c' ka assume ka: "((hm_get (kw_conns w))(c := ok')) c' = Some ka"
    show "c' < kw_next_conn w" "hm_inv (kc_map ka)" using ka L(3) assms(3) stay by (auto split: if_splits)
    show "\<exists>s. hm_get (kw_heap w') i = Some s \<and> se_conn s = c' \<and> se_kv_id s = n"
      if e: "hm_get (kc_map ka) n = Some i" for n i
    proof (cases "c' = c")
      case True
      then have k': "ok' = Some ka" using ka by simp
      then have "hm_get (kc_map k) n = Some i" "i \<notin> D" using stay[OF k'] e by (auto split: option.splits if_splits)
      then show ?thesis using L(4)[OF assms(3)] True by (simp add: heap')
    next
      case False
      then have k0: "hm_get (kw_conns w) c' = Some ka" using ka by simp
      obtain s where s: "hm_get (kw_heap w) i = Some s" "se_conn s = c'" "se_kv_id s = n" using L(4)[OF k0 e] by blast
      then have "i \<notin> D" using own False by blast
      then show ?thesis using s by (simp add: heap')
    qed
    show "\<exists>s. hm_get (kw_heap w') i = Some s \<and> se_conn s = c' \<and> hm_get (kc_map ka) (se_kv_id s) = None"
      if e: "opening_sid ka = Some i" for i
    proof (cases "c' = c")
      case True
      then have k': "ok' = Some ka" using ka by simp
      have "kc_opening ka \<noteq> None" using e by (auto simp: opening_sid_def split: option.splits)
      then have "kc_opening ka = kc_opening k" "\<forall>i. opening_sid k = Some i \<longrightarrow> i \<notin> D" using stay[OF k'] by auto
      then have o: "opening_sid k = Some i" "i \<notin> D" using e by (auto simp: opening_sid_def)
      obtain s where s: "hm_get (kw_heap w) i = Some s" "se_conn s = c" "hm_get (kc_map k) (se_kv_id s) = None"
        using L(5)[OF assms(3) o(1)] by blast
      then show ?thesis using o(2) True stay[OF k'] by (simp add: heap')
    next
      case False
      then have k0: "hm_get (kw_conns w) c' = Some ka" using ka by simp
      obtain s where s: "hm_get (kw_heap w) i = Some s" "se_conn s = c'" "hm_get (kc_map ka) (se_kv_id s) = None"
        using L(5)[OF k0 e] by blast
      then have "i \<notin> D" using own False by blast
      then show ?thesis using s by (simp add: heap')
    qed
    show "i \<notin> set (kw_subs w)" if e: "accepted ka i" for i
    proof (cases "c' = c")
      case True
      then have k': "ok' = Some ka" using ka by simp
      have "kc_opening ka \<noteq> None" using e by (simp add: accepted_def)
      then have "kc_opening ka = kc_opening k" using stay[OF k'] by auto
      then show ?thesis using L(8)[OF assms(3), of i] e by (simp add: accepted_def)
    next
      case False
      then show ?thesis using L(8) ka e by simp
    qed
  next
    fix i s ka assume i: "hm_get (kw_heap w') i = Some s" and c: "((hm_get (kw_conns w))(c := ok')) (se_conn s) = Some ka"
      and a: "ob_up (kc_out ka)" "\<not> se_closed s" "\<not> accepted ka i"
    have i0: "hm_get (kw_heap w) i = Some s" "i \<notin> D" using i by (simp_all add: heap' split: if_splits)
    show "i \<in> set (kw_subs w)"
    proof (cases "se_conn s = c")
      case True
      then have k': "ok' = Some ka" using c by simp
      then show ?thesis using L(9)[OF i0(1), of k] assms(3) True a stage[OF k' i0(2)] stay[OF k'] by simp
    next
      case False
      then show ?thesis using L(9)[OF i0(1)] c a by simp
    qed
  qed (use L(6,7) in simp_all)
  show "synced ev S w'"
    unfolding synced_def rest' conns'
  proof (intro allI impI)
    fix i s ka assume i: "hm_get (kw_heap w') i = Some s" and c: "((hm_get (kw_conns w))(c := ok')) (se_conn s) = Some ka"
    have i0: "hm_get (kw_heap w) i = Some s" "i \<notin> D" using i by (simp_all add: heap' split: if_splits)
    show "sub_synced ev (kw_entries w) (S i) ka i s"
    proof (cases "se_conn s = c")
      case True
      then have k': "ok' = Some ka" using c by simp
      have "sub_synced ev (kw_entries w) (S i) k i s" using assms(2,3) i0(1) True by (simp add: synced_def)
      then show ?thesis using sub_synced_cong[of ka i k ev s] stage[OF k' i0(2)] stay[OF k'] by simp
    next
      case False
      then show ?thesis using assms(2) i0(1) c by (simp add: synced_def)
    qed
  qed
qed

lemma drop_subs_fields:
  "hm_get (kw_heap (fold (\<lambda>(kv_id, sid). drop_sub sid) m w)) i = (if i \<in> snd ` set m then None else hm_get (kw_heap w) i)"
  "kw_conns (fold (\<lambda>(kv_id, sid). drop_sub sid) m w) = kw_conns w"
  "kw_subs (fold (\<lambda>(kv_id, sid). drop_sub sid) m w) = kw_subs w"
  by (induction m arbitrary: w) (auto simp: drop_sub_def)

lemma drop_subs_core:
  "kw_next_sub (fold (\<lambda>(kv_id, sid). drop_sub sid) m w) = kw_next_sub w"
  "kw_next_conn (fold (\<lambda>(kv_id, sid). drop_sub sid) m w) = kw_next_conn w"
  "kw_entries (fold (\<lambda>(kv_id, sid). drop_sub sid) m w) = kw_entries w"
  by (rule kv_core_fields, simp)+

lemma in_map_get: "hm_inv m \<Longrightarrow> (kv_id, sid) \<in> set m \<longleftrightarrow> hm_get m kv_id = Some sid"
  by (auto simp: hm_inv_def hm_get_def)

lemma disconnect_keeps:
  assumes "kv_linked w" "synced ev S w" "opening_of w c = None"
  shows "kv_linked (kv_disconnect c w)" "synced ev S (kv_disconnect c w)"
proof -
  have "kv_linked (kv_disconnect c w) \<and> synced ev S (kv_disconnect c w)"
  proof (cases "hm_get (kw_conns w) c")
    case None
    then show ?thesis using assms(1,2) by (simp add: kv_disconnect_def)
  next
    case (Some k)
    define D where "D = snd ` set (kc_map k)"
    have inv: "hm_inv (kc_map k)" using kv_linkedD(3)[OF assms(1) Some] by simp
    have D: "i \<in> D \<longleftrightarrow> (\<exists>n. hm_get (kc_map k) n = Some i)" for i
      using in_map_get[OF inv] by (force simp: D_def)
    have none: "opening_sid k = None" using assms(3) Some by (simp add: opening_of_def opening_sid_def)
    have w': "kv_disconnect c w = fold (\<lambda>(kv_id, sid). drop_sub sid) (kc_map k) (w\<lparr>kw_conns := hm_remove c (kw_conns w)\<rparr>)"
      using Some by (simp add: kv_disconnect_def)
    have heap: "hm_get (kw_heap (kv_disconnect c w)) i = (if i \<in> D then None else hm_get (kw_heap w) i)" for i
      by (simp add: w' drop_subs_fields D_def)
    have conns: "hm_get (kw_conns (kv_disconnect c w)) = (hm_get (kw_conns w))(c := None)"
      by (simp add: w' drop_subs_fields)
    have rest: "kw_next_sub (kv_disconnect c w) = kw_next_sub w" "kw_next_conn (kv_disconnect c w) = kw_next_conn w"
      "kw_entries (kv_disconnect c w) = kw_entries w" "kw_subs (kv_disconnect c w) = kw_subs w"
      by (simp_all add: w' drop_subs_fields drop_subs_core)
    have own: "se_conn s = c" if i: "i \<in> D" "hm_get (kw_heap w) i = Some s" for i s
    proof -
      obtain n where "hm_get (kc_map k) n = Some i" using i(1) D by blast
      then show ?thesis using kv_linkedD(4)[OF assms(1) Some] i(2) by fastforce
    qed
    have gone: "i \<in> D" if "hm_get (kw_heap w) i = Some s" "se_conn s = c" for i s
      using kv_linkedD(2)[OF assms(1) that(1)] that(2) Some none D by auto
    note dk = drop_keeps[OF assms(1,2) Some heap conns rest own gone]
    have "kv_linked (kv_disconnect c w)" by (rule dk(1)) simp_all
    moreover have "synced ev S (kv_disconnect c w)" by (rule dk(2)) simp_all
    ultimately show ?thesis by simp
  qed
  then show "kv_linked (kv_disconnect c w)" "synced ev S (kv_disconnect c w)" by simp_all
qed

lemma stop_keeps:
  assumes "kv_linked w" "synced ev S w" "opening_of w c = None"
  shows "kv_linked (stop_request c data w) \<and> synced ev S (stop_request c data w)"
proof (cases "parse_kv_stop data")
  case (Some kv_id)
  show ?thesis
  proof (cases "hm_get (kw_conns w) c")
    case k: (Some k)
    show ?thesis
    proof (cases "hm_get (kc_map k) kv_id")
      case sid: (Some sid)
      let ?k' = "k\<lparr>kc_map := hm_remove kv_id (kc_map k)\<rparr>"
      have w': "stop_request c data w = drop_sub sid (set_conn c ?k' w)"
        using Some k sid by (simp add: stop_request_def)
      have none: "opening_sid k = None" using assms(3) k by (simp add: opening_of_def opening_sid_def)
      obtain s where s: "hm_get (kw_heap w) sid = Some s" "se_conn s = c" "se_kv_id s = kv_id"
        using kv_linkedD(4)[OF assms(1) k sid] by blast
      have one: "n = kv_id" if n: "hm_get (kc_map k) n = Some sid" for n
        using kv_linkedD(4)[OF assms(1) k n] s by auto
      have get: "hm_get (kc_map ?k') n = (case hm_get (kc_map k) n of Some i \<Rightarrow> if i \<in> {sid} then None else Some i | None \<Rightarrow> None)" for n
      proof (cases "n = kv_id")
        case False
        then have "hm_get (kc_map k) n \<noteq> Some sid" using one by blast
        then show ?thesis using False by (cases "hm_get (kc_map k) n") simp_all
      qed (simp add: sid)
      have inv: "hm_inv (kc_map ?k')" using kv_linkedD(3)[OF assms(1) k] by (simp add: hm.inv_delete)
      have heap: "hm_get (kw_heap (stop_request c data w)) i = (if i \<in> {sid} then None else hm_get (kw_heap w) i)" for i
        by (simp add: w' drop_sub_def)
      have conns: "hm_get (kw_conns (stop_request c data w)) = (hm_get (kw_conns w))(c := Some ?k')"
        by (simp add: w' drop_sub_def set_conn_def)
      have rest: "kw_next_sub (stop_request c data w) = kw_next_sub w" "kw_next_conn (stop_request c data w) = kw_next_conn w"
        "kw_entries (stop_request c data w) = kw_entries w" "kw_subs (stop_request c data w) = kw_subs w"
        by (simp_all add: w' drop_sub_def set_conn_def)
      have own: "se_conn t = c" if "i \<in> {sid}" "hm_get (kw_heap w) i = Some t" for i t
        using that s by simp
      have stay: "hm_inv (kc_map k') \<and> kc_out k' = kc_out k
        \<and> (\<forall>n. hm_get (kc_map k') n = (case hm_get (kc_map k) n of Some i \<Rightarrow> if i \<in> {sid} then None else Some i | None \<Rightarrow> None))
        \<and> (kc_opening k' = kc_opening k \<and> (\<forall>i. opening_sid k = Some i \<longrightarrow> i \<notin> {sid})
           \<or> kc_opening k' = None \<and> (\<forall>i. opening_sid k = Some i \<longrightarrow> i \<in> {sid}))" if "Some ?k' = Some k'" for k'
      proof -
        have k': "k' = ?k'" using that by simp
        show ?thesis unfolding k' using get inv none by simp
      qed
      note dk = drop_keeps[OF assms(1,2) k heap conns rest own _ stay]
      have "kv_linked (stop_request c data w)" by (rule dk(1)) simp_all
      moreover have "synced ev S (stop_request c data w)" by (rule dk(2)) simp_all
      ultimately show ?thesis by simp
    qed (simp add: stop_request_def Some k assms)
  qed (simp add: stop_request_def Some assms)
qed (simp add: stop_request_def assms)

end
