(* ===== verification/Kv_Stages.thy ===== *)
theory Kv_Stages
  imports Kv_Sync
begin

text \<open>
  The stages of an \<open>OPEN\<close>, acknowledgements, and connections that start or hang up keep the invariant
  of the watches.
\<close>

subsection \<open>Accepting\<close>

lemma sweep_keeps:
  assumes "kv_linked w" "synced ev S w" "hm_get (kw_conns w) c = Some k" "kc_opening k = None"
    and "sweep_closed c k w = (k1, w1)"
  shows "kv_linked w1" "synced ev S w1" "hm_get (kw_conns w1) c = Some k1" "kc_opening k1 = None" "kw_entries w1 = kw_entries w"
proof -
  define D where "D = {sid. \<exists>n. hm_get (kc_map k) n = Some sid \<and> sub_is_closed w sid}"
  have inv: "hm_inv (kc_map k)" using kv_linkedD(3)[OF assms(1,3)] by simp
  have k1: "k1 = k\<lparr>kc_map := filter (\<lambda>(kv_id, sid). \<not> sub_is_closed w sid) (kc_map k)\<rparr>"
    using assms(5) by (simp add: sweep_closed_def Let_def)
  have w1: "w1 = fold (\<lambda>(kv_id, sid). drop_sub sid) (filter (\<lambda>(kv_id, sid). sub_is_closed w sid) (kc_map k)) (set_conn c k1 w)"
    using assms(5) unfolding k1 by (simp add: sweep_closed_def Let_def)
  have dead: "snd ` set (filter (\<lambda>(kv_id, sid). sub_is_closed w sid) (kc_map k)) = D"
    using in_map_get[OF inv] by (force simp: D_def)
  have heap: "hm_get (kw_heap w1) i = (if i \<in> D then None else hm_get (kw_heap w) i)" for i
    unfolding w1 drop_subs_fields dead by (simp add: set_conn_def)
  have conns: "hm_get (kw_conns w1) = (hm_get (kw_conns w))(c := Some k1)"
    by (simp add: w1 drop_subs_fields set_conn_def)
  have rest: "kw_next_sub w1 = kw_next_sub w" "kw_next_conn w1 = kw_next_conn w"
      "kw_entries w1 = kw_entries w" "kw_subs w1 = kw_subs w"
    by (simp_all add: w1 drop_subs_fields drop_subs_core) (simp_all add: set_conn_def)
  have own: "se_conn s = c" if i: "i \<in> D" "hm_get (kw_heap w) i = Some s" for i s
  proof -
    obtain n where "hm_get (kc_map k) n = Some i" using i(1) by (auto simp: D_def)
    then show ?thesis using kv_linkedD(4)[OF assms(1,3)] i(2) by fastforce
  qed
  have stay: "hm_inv (kc_map k') \<and> kc_out k' = kc_out k
      \<and> (\<forall>n. hm_get (kc_map k') n = (case hm_get (kc_map k) n of Some i \<Rightarrow> if i \<in> D then None else Some i | None \<Rightarrow> None))
      \<and> (kc_opening k' = kc_opening k \<and> (\<forall>i. opening_sid k = Some i \<longrightarrow> i \<notin> D)
         \<or> kc_opening k' = None \<and> (\<forall>i. opening_sid k = Some i \<longrightarrow> i \<in> D))" if e: "Some k1 = Some k'" for k'
  proof -
    have "hm_get (kc_map k1) n = (case hm_get (kc_map k) n of Some i \<Rightarrow> if i \<in> D then None else Some i | None \<Rightarrow> None)" for n
      by (auto simp: k1 hm_get_filter[OF inv] D_def split: option.split)
    moreover have "k' = k1" using e by simp
    ultimately show ?thesis using assms(4) by (simp add: k1 hm_inv_filter[OF inv] opening_sid_def)
  qed
  note dk = drop_keeps[OF assms(1-3) heap conns rest own _ stay]
  show "kv_linked w1" by (rule dk(1)) simp_all
  show "synced ev S w1" by (rule dk(2)) simp_all
  show "hm_get (kw_conns w1) c = Some k1" "kc_opening k1 = None" "kw_entries w1 = kw_entries w"
    using assms(4) by (simp_all add: conns k1 rest)
qed

lemma alloc_id_loop_fresh: "alloc_id_loop n k = (k', Some i) \<Longrightarrow> hm_get (kc_map k) i = None"
proof (induction n arbitrary: k)
  case (Suc n)
  show ?case
  proof (cases "kc_next_id k \<noteq> KV_ID_INVALID \<and> hm_get (kc_map k) (kc_next_id k) = None")
    case True
    then show ?thesis using Suc.prems by (simp add: Let_def)
  next
    case False
    then have "alloc_id_loop n (k\<lparr>kc_next_id := kc_next_id k + 1\<rparr>) = (k', Some i)"
      using Suc.prems by (auto simp: Let_def)
    from Suc.IH[OF this] show ?thesis by simp
  qed
qed simp

text \<open>A new subscription, its acceptance sent.\<close>

lemma accept_keeps:
  assumes "kv_linked w" "synced ev S w" "hm_get (kw_conns w) c = Some k" "kc_opening k = None" "hm_get (kc_map k) kv_id = None"
    and sub: "se_conn sub = c" "se_kv_id sub = kv_id" "se_phase sub = Snapshotting []" "\<not> se_closed sub"
    and k': "kc_map k' = kc_map k" "kc_opening k' = Some (Accepted (kw_next_sub w))"
      "kc_out k' = fst (ob_send (msg_kv_opened nonce kv_id KV_STATUS_OK []) (kc_out k))"
    and heap': "hm_get (kw_heap w') = (hm_get (kw_heap w))(kw_next_sub w \<mapsto> sub)"
    and conns': "hm_get (kw_conns w') = (hm_get (kw_conns w))(c \<mapsto> k')"
    and rest': "kw_next_sub w' = kw_next_sub w + 1" "kw_next_conn w' = kw_next_conn w" "kw_entries w' = kw_entries w" "kw_subs w' = kw_subs w"
  shows "kv_linked w'" "synced ev S w'"
proof -
  note L = kv_linkedD[OF assms(1)]
  let ?new = "kw_next_sub w"
  have fresh: "hm_get (kw_heap w) ?new = None" using L(1)[of ?new] by (cases "hm_get (kw_heap w) ?new") auto
  have old: "i \<noteq> ?new" if "hm_get (kw_heap w) i = Some s" for i s using that fresh by auto
  have none: "opening_sid k = None" "\<not> accepted k i" "chunks_left k i = []" for i
    using assms(4) by (simp_all add: opening_sid_def accepted_def chunks_left_def)
  have op': "opening_sid k' = Some ?new" "accepted k' i \<longleftrightarrow> i = ?new" "chunks_left k' i = []" for i
    using k'(2) by (auto simp: opening_sid_def accepted_def chunks_left_def)
  have up': "ob_up (kc_out k') = ob_up (kc_out k)" by (simp add: k'(3) ob_send_def)
  show "kv_linked w'"
    unfolding kv_linked_def rest' heap' conns'
  proof (intro conjI allI impI ballI)
    fix i s assume i: "((hm_get (kw_heap w))(?new \<mapsto> sub)) i = Some s"
    show "i < kw_next_sub w + 1" using i L(1)[of i s] by (auto split: if_splits)
    show "\<exists>ka. ((hm_get (kw_conns w))(c \<mapsto> k')) (se_conn s) = Some ka \<and> (opening_sid ka = Some i \<and> se_phase s \<noteq> Live
        \<or> hm_get (kc_map ka) (se_kv_id s) = Some i \<and> se_phase s = Live)"
    proof (cases "i = ?new")
      case True
      then show ?thesis using i sub op' by auto
    next
      case False
      then obtain ki where "hm_get (kw_conns w) (se_conn s) = Some ki" "opening_sid ki = Some i \<and> se_phase s \<noteq> Live
        \<or> hm_get (kc_map ki) (se_kv_id s) = Some i \<and> se_phase s = Live" using L(2)[of i s] i by auto
      then show ?thesis using assms(3) none(1) k'(1) by (cases "se_conn s = c") auto
    qed
  next
    fix c' ka assume ka: "((hm_get (kw_conns w))(c \<mapsto> k')) c' = Some ka"
    show "c' < kw_next_conn w" "hm_inv (kc_map ka)" using ka L(3) assms(3) k'(1) by (auto split: if_splits)
    show "\<exists>s. ((hm_get (kw_heap w))(?new \<mapsto> sub)) i = Some s \<and> se_conn s = c' \<and> se_kv_id s = n"
      if e: "hm_get (kc_map ka) n = Some i" for n i
    proof -
      obtain k0 where "hm_get (kw_conns w) c' = Some k0" "hm_get (kc_map k0) n = Some i"
        using ka e assms(3) k'(1) by (auto split: if_splits)
      then obtain s where "hm_get (kw_heap w) i = Some s" "se_conn s = c'" "se_kv_id s = n" using L(4) by blast
      then show ?thesis using old by auto
    qed
    show "\<exists>s. ((hm_get (kw_heap w))(?new \<mapsto> sub)) i = Some s \<and> se_conn s = c' \<and> hm_get (kc_map ka) (se_kv_id s) = None"
      if e: "opening_sid ka = Some i" for i
    proof (cases "c' = c")
      case True
      then show ?thesis using ka e op'(1) sub k'(1) assms(5) by auto
    next
      case False
      then have k0: "hm_get (kw_conns w) c' = Some ka" using ka by simp
      obtain s where "hm_get (kw_heap w) i = Some s" "se_conn s = c'" "hm_get (kc_map ka) (se_kv_id s) = None" using L(5)[OF k0 e] by blast
      then show ?thesis using old by auto
    qed
    show "i \<notin> set (kw_subs w)" if e: "accepted ka i" for i
    proof (cases "c' = c")
      case True
      then show ?thesis using ka e op'(2) L(6)[of ?new] by auto
    next
      case False
      then show ?thesis using ka e L(8) by simp
    qed
  next
    fix i assume "i \<in> set (kw_subs w)"
    then show "i < kw_next_sub w + 1" using L(6) by fastforce
  next
    fix i s ka assume i: "((hm_get (kw_heap w))(?new \<mapsto> sub)) i = Some s" and ka: "((hm_get (kw_conns w))(c \<mapsto> k')) (se_conn s) = Some ka"
      and a: "ob_up (kc_out ka)" "\<not> se_closed s" "\<not> accepted ka i"
    show "i \<in> set (kw_subs w)"
    proof (cases "i = ?new")
      case True
      then show ?thesis using i ka a(3) sub(1) op'(2) by auto
    next
      case False
      then have i0: "hm_get (kw_heap w) i = Some s" using i by simp
      obtain k0 where "hm_get (kw_conns w) (se_conn s) = Some k0" "ob_up (kc_out k0)" "\<not> accepted k0 i"
        using ka a assms(3) none(2) up' by (auto split: if_splits)
      then show ?thesis using L(9)[OF i0] a(2) by blast
    qed
  qed (rule L(7))
  show "synced ev S w'"
    unfolding synced_def rest' heap' conns'
  proof (intro allI impI)
    fix i s ka assume i: "((hm_get (kw_heap w))(?new \<mapsto> sub)) i = Some s" and ka: "((hm_get (kw_conns w))(c \<mapsto> k')) (se_conn s) = Some ka"
    show "sub_synced ev (kw_entries w) (S i) ka i s"
    proof (cases "i = ?new")
      case True
      then have e: "s = sub" "ka = k'" using i ka sub(1) by auto
      have "displays ev sub (kc_out k') (\<lambda>_. None) False" if "ob_up (kc_out k)"
        using that by (simp add: displays_def k'(3) ob_send_def client_mirror_snoc sub(2) client_read_opened kv_mirror_new_def bt_get_def fun_eq_iff)
      then show ?thesis using e True op' sub(3) up' by (auto simp: sub_synced_def pending_frames_def)
    next
      case False
      then have i0: "hm_get (kw_heap w) i = Some s" using i by simp
      show ?thesis
      proof (cases "se_conn s = c")
        case True
        have sy: "sub_synced ev (kw_entries w) (S i) k i s" using assms(2,3) i0 True by (simp add: synced_def)
        have "hm_get (kc_map k) (se_kv_id s) = Some i" using L(2)[OF i0] True assms(3) none(1) by auto
        then have "se_kv_id s \<noteq> kv_id" using assms(5) by auto
        then have "client_mirror (ev_decompress ev) (se_kv_id s) (ob_sent (kc_out k')) = client_mirror (ev_decompress ev) (se_kv_id s) (ob_sent (kc_out k))"
          using quiet_opened[of "se_kv_id s" kv_id "ev_decompress ev" nonce]
          by (simp add: k'(3) ob_send_def client_mirror_quiet)
        then show ?thesis using sub_synced_cong[of k' i k ev s] none op' up' False sy ka True by auto
      next
        case no: False
        then show ?thesis using assms(2) i0 ka by (simp add: synced_def)
      qed
    qed
  qed
qed

lemma open_request_keeps:
  assumes "kv_linked w" "synced ev S w" "opening_of w c = None"
  shows "kv_linked (open_request ev c data w) \<and> synced ev S (open_request ev c data w)"
proof -
  have refuse: "kv_linked (refuse_open c n st d w1) \<and> synced ev S (refuse_open c n st d w1)"
    if "kv_linked w1" "synced ev S w1" "st \<noteq> KV_STATUS_OK" for n st d w1
    using that world_like_linked world_like_synced world_like_refuse_open by metis
  have st: "KV_STATUS_INVALID \<noteq> KV_STATUS_OK" "KV_STATUS_BUDGET \<noteq> KV_STATUS_OK" by (simp_all add: wire_defs)
  show ?thesis
  proof (cases "\<exists>n i p. parse_kv_open data = Some (n, 0, i, p) \<and> hm_get (kw_conns w) c \<noteq> None")
    case False
    then show ?thesis using assms refuse[OF assms(1,2) st(1)] by (auto simp: open_request_def split: option.split)
  next
    case True
    then obtain n inl p k where p: "parse_kv_open data = Some (n, 0, inl, p)" "hm_get (kw_conns w) c = Some k" by auto
    obtain k1 w1 where s: "sweep_closed c k w = (k1, w1)" by (cases "sweep_closed c k w")
    have k0: "kc_opening k = None" using assms(3) p(2) by (simp add: opening_of_def)
    note sw = sweep_keeps[OF assms(1,2) p(2) k0 s]
    obtain k2 r where a: "alloc_id k1 = (k2, r)" by (cases "alloc_id k1")
    then have k2: "kc_map k2 = kc_map k1" "kc_out k2 = kc_out k1" "kc_opening k2 = None"
      using alloc_id_loop_keeps[of _ k1 k2 r] sw(4) by (auto simp: alloc_id_def)
    show ?thesis
    proof (cases "length (hm_keys (kc_map k1)) \<ge> cfg_max_subs (ev_cfg ev)")
      case True
      then show ?thesis using refuse[OF sw(1,2) st(2)] by (simp add: open_request_def p s)
    next
      case few: False
      show ?thesis
      proof (cases r)
        case None
        have "world_like (ev_decompress ev) w1 (set_conn c k2 w1)"
          using sw(3) by (rule world_like_set_conn) (simp add: conn_like_def k2 sw(4))
        then have "kv_linked (set_conn c k2 w1)" "synced ev S (set_conn c k2 w1)"
          using sw(1,2) world_like_linked world_like_synced by blast+
        then show ?thesis using few None refuse[OF _ _ st(2)] by (simp add: open_request_def p s a)
      next
        case (Some kv_id)
        define w2 where "w2 = w1\<lparr>kw_heap := hm_insert (kw_next_sub w1) (sub_new c kv_id p inl (cfg_unacked_max (ev_cfg ev))) (kw_heap w1),
          kw_next_sub := kw_next_sub w1 + 1\<rparr>"
        define w3 where "w3 = set_conn c (k2\<lparr>kc_opening := Some (Accepted (kw_next_sub w1))\<rparr>) w2"
        define w4 where "w4 = send_to c (msg_kv_opened n kv_id KV_STATUS_OK []) w3"
        define k' where "k' = k2\<lparr>kc_opening := Some (Accepted (kw_next_sub w1)), kc_out := fst (ob_send (msg_kv_opened n kv_id KV_STATUS_OK []) (kc_out k2))\<rparr>"
        have fin: "open_request ev c data w = w4"
          using few by (simp add: open_request_def p s a Some Let_def w4_def w3_def w2_def)
        have free: "hm_get (kc_map k1) kv_id = None" using a Some alloc_id_loop_fresh by (auto simp: alloc_id_def)
        have heap: "hm_get (kw_heap w4) = (hm_get (kw_heap w1))(kw_next_sub w1 \<mapsto> sub_new c kv_id p inl (cfg_unacked_max (ev_cfg ev)))"
          by (simp add: w4_def w3_def w2_def)
        have w4: "w4 = set_conn c k' w3" by (simp add: w4_def send_to_def w3_def set_conn_def k'_def)
        have conns: "hm_get (kw_conns w4) = (hm_get (kw_conns w1))(c \<mapsto> k')"
          by (simp add: w4 w3_def w2_def set_conn_def)
        have rest: "kw_next_sub w4 = kw_next_sub w1 + 1" "kw_next_conn w4 = kw_next_conn w1" "kw_entries w4 = kw_entries w1" "kw_subs w4 = kw_subs w1"
          by (simp_all add: w4 w3_def w2_def set_conn_def)
        have new: "se_conn (sub_new c kv_id p inl b) = c" "se_kv_id (sub_new c kv_id p inl b) = kv_id"
          "se_phase (sub_new c kv_id p inl b) = Snapshotting []" "\<not> se_closed (sub_new c kv_id p inl b)" for b
          by (simp_all add: sub_new_def)
        have kk: "kc_map k' = kc_map k1" "kc_opening k' = Some (Accepted (kw_next_sub w1))"
          "kc_out k' = fst (ob_send (msg_kv_opened n kv_id KV_STATUS_OK []) (kc_out k1))"
          by (simp_all add: k'_def k2)
        note ak = accept_keeps[OF sw(1,2,3,4) free new kk heap conns rest]
        show ?thesis using ak fin by simp
      qed
    qed
  qed
qed

end
