(* ===== verification/Kv_Steps.thy ===== *)
theory Kv_Steps
  imports Kv_Stages
begin

text \<open>
  The rest of an \<open>OPEN\<close>, acknowledgements, and connections that start or hang up keep the invariant of
  the watches.
\<close>

subsection \<open>Registering\<close>

lemma opening_not_live:
  assumes "kv_linked w" "hm_get (kw_conns w) c = Some k" "opening_sid k = Some sid" "hm_get (kw_heap w) sid = Some s"
  shows "se_phase s \<noteq> Live" "se_conn s = c"
proof -
  show c: "se_conn s = c" using kv_linkedD(5)[OF assms(1-3)] assms(4) by auto
  show "se_phase s \<noteq> Live" using live_no_chunks(3)[OF assms(1,4), of k] assms(2,3) c by auto
qed

lemma register_keeps:
  assumes "kv_linked w" "synced ev S w" "core_ok ev most count w" "config_ok ev"
  shows "kv_linked (open_register c w) \<and> synced ev S (open_register c w)"
proof (cases "\<exists>k sid. hm_get (kw_conns w) c = Some k \<and> kc_opening k = Some (Accepted sid)")
  case False
  then show ?thesis using assms(1,2) by (auto simp: open_register_def split: option.split open_task.split)
next
  case True
  then obtain k sid where k: "hm_get (kw_conns w) c = Some k" and o: "kc_opening k = Some (Accepted sid)" by blast
  have os: "opening_sid k = Some sid" "accepted k sid" "chunks_left k sid = []"
    using o by (simp_all add: opening_sid_def accepted_def chunks_left_def)
  obtain s where s: "hm_get (kw_heap w) sid = Some s" using kv_linkedD(5)[OF assms(1) k os(1)] by blast
  note idle = opening_not_live[OF assms(1) k os(1) s]
  define chunks where "chunks = mark_last (snapshot_loop (inline_limit s) (matching_entries (se_prefix s) (kw_entries w)) [])"
  define k' where "k' = k\<lparr>kc_opening := Some (Sending sid chunks)\<rparr>"
  define subs where "subs = filter (\<lambda>sid. hm_get (kw_heap w) sid \<noteq> None) (kw_subs w) @ [sid]"
  have w': "open_register c w = set_conn c k' (w\<lparr>kw_subs := subs\<rparr>)"
    using k o s by (simp add: open_register_def Let_def k'_def chunks_def subs_def)
  have store: "bt_inv (kw_entries w)" "\<forall>key e. bt_get (kw_entries w) key = Some e \<longrightarrow> entry_ok ev key e"
    using assms(3) by (simp_all add: core_ok_def store_ok_def)
  note snap = open_snapshot[OF assms(4) store, of s, folded chunks_def]
  have st': "accepted k' i = False" "chunks_left k' sid = chunks" "opening_sid k' = Some sid" "kc_map k' = kc_map k" "kc_out k' = kc_out k" for i
    by (simp_all add: k'_def accepted_def chunks_left_def opening_sid_def)
  have heap: "hm_get (kw_heap (open_register c w)) = (hm_get (kw_heap w))(sid \<mapsto> s)" by (rule ext) (simp add: s)
  have conns: "hm_get (kw_conns (open_register c w)) = (hm_get (kw_conns w))(c \<mapsto> k')" by (simp add: w' set_conn_def)
  have rest: "kw_next_sub (open_register c w) = kw_next_sub w" "kw_next_conn (open_register c w) = kw_next_conn w"
    "kw_entries (open_register c w) = kw_entries w" by (rule kv_core_fields, simp)+
  have subs': "kw_subs (open_register c w) = subs" by (simp add: w' set_conn_def)
  have fresh: "sid \<notin> set (kw_subs w)" by (rule kv_linkedD(8)[OF assms(1) k os(2)])
  have sk: "sub_synced ev (kw_entries w) (S sid) k sid s" using assms(2) s k idle(2) by (simp add: synced_def)
  have sk': "sub_synced ev (kw_entries w) (S sid) k' sid s"
  proof -
    have "agrees (S sid) s (kw_entries w) (fold rec_upd (outstanding ev k' sid s) (\<lambda>_. None))" if "pending_frames s = []"
      using snap(4) that by (simp add: outstanding_def st' agrees_def)
    then show ?thesis
      using sk snap(1,2,3) os(2,3) by (auto simp: sub_synced_def st' intro: displays_later)
  qed
  have stage: "kc_map k' = kc_map k \<and> opening_sid k' = Some sid \<and> se_phase s \<noteq> Live
      \<or> kc_map k' = hm_insert (se_kv_id s) sid (kc_map k) \<and> kc_opening k' = None \<and> se_phase s = Live"
    using st' idle(1) by simp
  have sp: "speaks (ev_decompress ev) (se_kv_id s) (kc_out k) (kc_out k')" by (simp add: st')
  have su: "\<And>i. i \<noteq> sid \<Longrightarrow> hm_get (kw_heap w) i \<noteq> None \<Longrightarrow> i \<in> set (kw_subs (open_register c w)) \<longleftrightarrow> i \<in> set (kw_subs w)"
    "set (kw_subs (open_register c w)) \<subseteq> insert sid (set (kw_subs w))" "distinct (kw_subs (open_register c w))"
    "sid \<in> set (kw_subs (open_register c w)) \<longleftrightarrow> \<not> accepted k' sid \<and> (sid \<in> set (kw_subs w) \<or> accepted k sid)"
    using kv_linkedD(7)[OF assms(1)] fresh os(2) by (auto simp: subs' subs_def st')
  note change = conn_sub_change[OF assms(1,2) k os(1) s heap conns rest same_sub_refl sp stage su sk']
  show ?thesis by (intro conjI change)
qed

subsection \<open>Sending a chunk\<close>

lemma chunk_keeps:
  assumes "kv_linked w" "synced ev S w" "lz4_ok ev"
  shows "kv_linked (open_chunk ev c w) \<and> synced ev S (open_chunk ev c w)"
proof (cases "\<exists>sid flags chunk chunks. opening_of w c = Some (Sending sid ((flags, chunk) # chunks))")
  case False
  then show ?thesis using assms(1,2)
    by (auto simp: open_chunk_def split: option.split open_task.split list.split)
next
  case True
  then obtain sid flags chunk chunks where op: "opening_of w c = Some (Sending sid ((flags, chunk) # chunks))" by blast
  then obtain k where k: "hm_get (kw_conns w) c = Some k" and o: "kc_opening k = Some (Sending sid ((flags, chunk) # chunks))"
    by (auto simp: opening_of_def split: option.splits)
  have os: "opening_sid k = Some sid" "\<not> accepted k sid" "chunks_left k sid = (flags, chunk) # chunks"
    using o by (simp_all add: opening_sid_def accepted_def chunks_left_def)
  obtain s where s: "hm_get (kw_heap w) sid = Some s" using kv_linkedD(5)[OF assms(1) k os(1)] by blast
  note idle = opening_not_live[OF assms(1) k os(1) s]
  have sk: "sub_synced ev (kw_entries w) (S sid) k sid s" using assms(2) s k idle(2) by (simp add: synced_def)
  then have good: "good_payload chunk" using os(3) by (auto simp: sub_synced_def)
  define msg where "msg = msg_kv_update (ev_compress ev) (se_kv_id s) 0 flags chunk"
  have frame: "good_frame ev (se_kv_id s) msg" using good unfolding good_frame_def msg_def by blast
  obtain s' ob' ok where f: "send_chunk msg (s, kc_out k) = ((s', ob'), ok)" by (cases "send_chunk msg (s, kc_out k)") auto
  define left where "left = (if ok then chunks else [])"
  define k' where "k' = k\<lparr>kc_out := ob', kc_opening := Some (Sending sid left)\<rparr>"
  have k2: "hm_get (kw_conns w) (se_conn s) = Some k" using k idle(2) by simp
  have w': "open_chunk ev c w = set_conn c k' (set_conn c (k\<lparr>kc_out := ob'\<rparr>) (w\<lparr>kw_heap := hm_insert sid s' (kw_heap w)\<rparr>))"
  proof -
    have id: "sub_kv_id w sid = se_kv_id s" by (simp add: sub_kv_id_def s)
    note on = on_sub_eq[where f = "send_chunk msg", OF s k2 f]
    have "open_chunk ev c w = (case on_sub sid (send_chunk msg) w of
        (w, ok) \<Rightarrow> set_opening c (Some (Sending sid (if ok then chunks else []))) w)"
      by (simp add: open_chunk_def op id msg_def)
    then show ?thesis by (simp add: on idle(2)) (simp add: set_opening_def set_conn_def k'_def left_def)
  qed
  have st': "accepted k' sid = False" "chunks_left k' sid = left" "opening_sid k' = Some sid" "kc_map k' = kc_map k" "kc_out k' = ob'"
    by (simp_all add: k'_def accepted_def chunks_left_def opening_sid_def)
  have heap: "hm_get (kw_heap (open_chunk ev c w)) = (hm_get (kw_heap w))(sid \<mapsto> s')" by (simp add: w')
  have conns: "hm_get (kw_conns (open_chunk ev c w)) = (hm_get (kw_conns w))(c \<mapsto> k')" by (simp add: w' set_conn_def)
  have rest: "kw_next_sub (open_chunk ev c w) = kw_next_sub w" "kw_next_conn (open_chunk ev c w) = kw_next_conn w"
    "kw_entries (open_chunk ev c w) = kw_entries w" by (rule kv_core_fields, simp)+
  have subs': "kw_subs (open_chunk ev c w) = kw_subs w" by (simp add: w' set_conn_def)
  have all: "same_sub s s' \<and> speaks (ev_decompress ev) (se_kv_id s) (kc_out k) ob' \<and> se_phase s' = se_phase s
      \<and> sub_synced ev (kw_entries w) (S sid) k' sid s'"
  proof (cases "se_closed s")
    case True
    then have "s' = s" "ob' = kc_out k" "\<not> ok" using f by (simp_all add: send_chunk_def)
    then show ?thesis using sk True by (auto simp: sub_synced_def st' left_def)
  next
    case False
    then have ch: "charge_and_send msg (s, kc_out k) = ((s', ob'), ok)" using f by (simp add: send_chunk_def)
    note cc = charge_and_send_cases[OF frame ch]
    have up: "ob_up ob' = ob_up (kc_out k)" using cc(2) by (simp add: speaks_def)
    have eqs: "se_kv_id s' = se_kv_id s" "se_prefix s' = se_prefix s" "se_inline_max s' = se_inline_max s" "pending_frames s' = pending_frames s"
      using cc(1,3) by (simp_all add: same_sub_def pending_frames_def)
    have ag: "agrees K s' m g \<longleftrightarrow> agrees K s m g" for K m g by (simp add: agrees_def view_of_def eqs inline_limit_def)
    have "sub_synced ev (kw_entries w) (S sid) k' sid s'"
    proof (cases "ob_up (kc_out k) \<and> \<not> se_closed s'")
      case True
      then have ok: ok using cc(6) by blast
      obtain g where g: "displays ev s (kc_out k) g False" "agrees (S sid) s (kw_entries w) (fold rec_upd (outstanding ev k sid s) g)"
        using sk True False os(2,3) by (auto simp: sub_synced_def)
      have d: "displays ev s' ob' (fold rec_upd (kv_records chunk) g) (flags AND KV_UPDATE_SNAPSHOT_END \<noteq> 0)"
        using charge_and_send_displays[OF assms(3) good msg_def ch g(1) ok] by simp
      have flag: "chunks = [] \<Longrightarrow> flags AND KV_UPDATE_SNAPSHOT_END \<noteq> 0"
        using sk os(3) by (simp add: sub_synced_def KV_UPDATE_SNAPSHOT_END_def)
      have "outstanding ev k sid s = kv_records chunk @ outstanding ev k' sid s'"
        using ok by (simp add: outstanding_def os(3) st' left_def eqs)
      then have "agrees (S sid) s' (kw_entries w) (fold rec_upd (outstanding ev k' sid s') (fold rec_upd (kv_records chunk) g))"
        using g(2) by (simp add: ag)
      moreover have "displays ev s' ob' (fold rec_upd (kv_records chunk) g) (left = [])"
        using d flag ok by (auto simp: left_def intro: displays_later)
      ultimately have "\<exists>f. displays ev s' ob' f (left = []) \<and> agrees (S sid) s' (kw_entries w) (fold rec_upd (outstanding ev k' sid s') f)"
        by blast
      then show ?thesis using sk os(3) by (auto simp: sub_synced_def st' left_def eqs split: if_splits)
    next
      case no: False
      then show ?thesis using sk os(3) up by (auto simp: sub_synced_def st' left_def eqs split: if_splits)
    qed
    then show ?thesis using cc(1,2,3) by simp
  qed
  have stage: "kc_map k' = kc_map k \<and> opening_sid k' = Some sid \<and> se_phase s' \<noteq> Live
      \<or> kc_map k' = hm_insert (se_kv_id s) sid (kc_map k) \<and> kc_opening k' = None \<and> se_phase s' = Live"
    using st' idle(1) all by simp
  have su: "\<And>i. i \<noteq> sid \<Longrightarrow> hm_get (kw_heap w) i \<noteq> None \<Longrightarrow> i \<in> set (kw_subs (open_chunk ev c w)) \<longleftrightarrow> i \<in> set (kw_subs w)"
    "set (kw_subs (open_chunk ev c w)) \<subseteq> insert sid (set (kw_subs w))" "distinct (kw_subs (open_chunk ev c w))"
    "sid \<in> set (kw_subs (open_chunk ev c w)) \<longleftrightarrow> \<not> accepted k' sid \<and> (sid \<in> set (kw_subs w) \<or> accepted k sid)"
    using kv_linkedD(7)[OF assms(1)] os(2) by (auto simp: subs' st')
  have sp: "speaks (ev_decompress ev) (se_kv_id s) (kc_out k) (kc_out k')" using all by (simp add: st')
  have ss: "same_sub s s'" "sub_synced ev (kw_entries w) (S sid) k' sid s'" using all by simp_all
  note change = conn_sub_change[OF assms(1,2) k os(1) s heap conns rest ss(1) sp stage su ss(2)]
  show ?thesis by (intro conjI change)
qed

subsection \<open>Going live\<close>

lemma finish_live:
  assumes "kv_linked w" "synced ev S w" "lz4_ok ev" "hm_get (kw_conns w) c = Some k" "kc_opening k = Some (Sending sid [])"
    and "hm_get (kw_heap w) sid = Some s" "go_live (s, kc_out k) = (s', ob')" "\<not> se_closed s'"
    and heap: "hm_get (kw_heap w') = (hm_get (kw_heap w))(sid \<mapsto> s')"
    and conns: "hm_get (kw_conns w') = (hm_get (kw_conns w))(c \<mapsto>
      k\<lparr>kc_out := ob', kc_map := hm_insert (se_kv_id s) sid (kc_map k), kc_opening := None\<rparr>)"
    and rest: "kw_next_sub w' = kw_next_sub w" "kw_next_conn w' = kw_next_conn w" "kw_entries w' = kw_entries w" "kw_subs w' = kw_subs w"
  shows "kv_linked w' \<and> synced ev S w'"
proof -
  define k' where "k' = k\<lparr>kc_out := ob', kc_map := hm_insert (se_kv_id s) sid (kc_map k), kc_opening := None\<rparr>"
  have os: "opening_sid k = Some sid" "\<not> accepted k sid" "chunks_left k sid = []"
    using assms(5) by (simp_all add: opening_sid_def accepted_def chunks_left_def)
  note idle = opening_not_live[OF assms(1,4) os(1) assms(6)]
  have sk: "sub_synced ev (kw_entries w) (S sid) k sid s" using assms(2,4,6) idle(2) by (simp add: synced_def)
  obtain pending where ph: "se_phase s = Snapshotting pending" using idle(1) by (cases "se_phase s") auto
  have fl: "flush_pending pending (s\<lparr>se_phase := Live\<rparr>, kc_out k) = (s', ob')" using assms(7) ph by (simp add: go_live_def)
  have good: "\<forall>msg \<in> set pending. good_frame ev (se_kv_id (s\<lparr>se_phase := Live\<rparr>)) msg"
    using sk ph by (simp add: sub_synced_def pending_frames_def)
  have fc: "same_sub s s'" "speaks (ev_decompress ev) (se_kv_id s) (kc_out k) ob'" "se_phase s' = Live"
    using flush_pending_cases[OF good fl] by (simp_all add: same_sub_def)
  have st': "accepted k' i = False" "chunks_left k' i = []" "kc_out k' = ob'" "pending_frames s' = []" for i
    using fc(3) by (simp_all add: k'_def accepted_def chunks_left_def pending_frames_def)
  have eqs: "se_kv_id s' = se_kv_id s" "se_prefix s' = se_prefix s" "se_inline_max s' = se_inline_max s"
    using fc(1) by (simp_all add: same_sub_def)
  have ag: "agrees K s' m g \<longleftrightarrow> agrees K s m g" for K m g by (simp add: agrees_def view_of_def eqs inline_limit_def)
  have up: "ob_up ob' = ob_up (kc_out k)" using fc(2) by (simp add: speaks_def)
  have sk': "sub_synced ev (kw_entries w) (S sid) k' sid s'"
  proof (cases "ob_up (kc_out k)")
    case True
    have "\<not> se_closed s" using fc(1) assms(8) by (auto simp: same_sub_def)
    then obtain f where f: "displays ev s (kc_out k) f True" "agrees (S sid) s (kw_entries w) (fold rec_upd (outstanding ev k sid s) f)"
      using sk True os(2,3) by (auto simp: sub_synced_def)
    have "displays ev (s\<lparr>se_phase := Live\<rparr>) (kc_out k) f True" using f(1) by (simp add: displays_def)
    then have "displays ev s' ob' (fold rec_upd (outstanding ev k sid s) f) True"
      using flush_pending_displays[OF assms(3) good fl _ True assms(8)] by (simp add: outstanding_def os(3) pending_frames_def ph)
    then show ?thesis using f(2) by (auto simp: sub_synced_def st' outstanding_def ag)
  next
    case False
    then show ?thesis using up by (simp add: sub_synced_def st')
  qed
  have stage: "kc_map k' = kc_map k \<and> opening_sid k' = Some sid \<and> se_phase s' \<noteq> Live
      \<or> kc_map k' = hm_insert (se_kv_id s) sid (kc_map k) \<and> kc_opening k' = None \<and> se_phase s' = Live"
    using fc(3) by (simp add: k'_def)
  have su: "\<And>i. i \<noteq> sid \<Longrightarrow> hm_get (kw_heap w) i \<noteq> None \<Longrightarrow> i \<in> set (kw_subs w') \<longleftrightarrow> i \<in> set (kw_subs w)"
    "set (kw_subs w') \<subseteq> insert sid (set (kw_subs w))" "distinct (kw_subs w')"
    "sid \<in> set (kw_subs w') \<longleftrightarrow> \<not> accepted k' sid \<and> (sid \<in> set (kw_subs w) \<or> accepted k sid)"
    using kv_linkedD(7)[OF assms(1)] os(2) by (auto simp: rest(4) st')
  have sp: "speaks (ev_decompress ev) (se_kv_id s) (kc_out k) (kc_out k')" using fc(2) by (simp add: st')
  note change = conn_sub_change[OF assms(1,2,4) os(1) assms(6) heap conns[folded k'_def] rest(1-3) fc(1) sp stage su sk']
  show ?thesis by (intro conjI change)
qed

lemma finish_closed:
  assumes "kv_linked w" "synced ev S w" "hm_get (kw_conns w) c = Some k" "kc_opening k = Some (Sending sid [])"
    and "hm_get (kw_heap w) sid = Some s" "go_live (s, kc_out k) = (s', ob')" "se_closed s'"
    and heap: "\<And>i. hm_get (kw_heap w') i = (if i \<in> {sid} then None else hm_get (kw_heap w) i)"
    and conns: "hm_get (kw_conns w') = (hm_get (kw_conns w))(c := Some (k\<lparr>kc_out := ob', kc_opening := None\<rparr>))"
    and rest: "kw_next_sub w' = kw_next_sub w" "kw_next_conn w' = kw_next_conn w" "kw_entries w' = kw_entries w" "kw_subs w' = kw_subs w"
  shows "kv_linked w' \<and> synced ev S w'"
proof -
  define f :: "sub_io \<Rightarrow> sub_io \<times> bool" where "f = (\<lambda>st. ((s'\<lparr>se_phase := Snapshotting []\<rparr>, ob'), True))"
  have os: "opening_sid k = Some sid" "chunks_left k sid = []"
    using assms(4) by (simp_all add: opening_sid_def chunks_left_def)
  note idle = opening_not_live[OF assms(1,3) os(1) assms(5)]
  have k: "hm_get (kw_conns w) (se_conn s) = Some k" using assms(3) idle(2) by simp
  have sk: "sub_synced ev (kw_entries w) (S sid) k sid s" using assms(2,5) k by (simp add: synced_def)
  obtain pending where ph: "se_phase s = Snapshotting pending" using idle(1) by (cases "se_phase s") auto
  have fl: "flush_pending pending (s\<lparr>se_phase := Live\<rparr>, kc_out k) = (s', ob')" using assms(6) ph by (simp add: go_live_def)
  have good: "\<forall>msg \<in> set pending. good_frame ev (se_kv_id (s\<lparr>se_phase := Live\<rparr>)) msg"
    using sk ph by (simp add: sub_synced_def pending_frames_def)
  have fc: "same_sub s (s'\<lparr>se_phase := Snapshotting []\<rparr>)" "speaks (ev_decompress ev) (se_kv_id s) (kc_out k) ob'"
    using flush_pending_cases[OF good fl] by (simp_all add: same_sub_def)
  have sk': "sub_synced ev (kw_entries w) (S sid) (k\<lparr>kc_out := ob'\<rparr>) sid (s'\<lparr>se_phase := Snapshotting []\<rparr>)"
    using assms(7) os(2) by (simp add: sub_synced_def pending_frames_def chunks_left_def)
  have fe: "f (s, kc_out k) = ((s'\<lparr>se_phase := Snapshotting []\<rparr>, ob'), True)" by (simp add: f_def)
  have phase: "se_phase (s'\<lparr>se_phase := Snapshotting []\<rparr>) = Live \<longleftrightarrow> se_phase s = Live" using idle(1) by simp
  define w1 where "w1 = fst (on_sub sid f w)"
  note keep = on_sub_keeps[where f = f, OF assms(1,2,5) k fe fc phase sk', folded w1_def]
  have w1: "w1 = set_conn c (k\<lparr>kc_out := ob'\<rparr>) (w\<lparr>kw_heap := hm_insert sid (s'\<lparr>se_phase := Snapshotting []\<rparr>) (kw_heap w)\<rparr>)"
    using on_sub_eq[where f = f, OF assms(5) k fe] idle(2) by (simp add: w1_def)
  have s1: "synced ev S w1" using keep(2) by simp
  have c1: "hm_get (kw_conns w1) c = Some (k\<lparr>kc_out := ob'\<rparr>)" by (simp add: w1 set_conn_def)
  have heap1: "hm_get (kw_heap w') i = (if i \<in> {sid} then None else hm_get (kw_heap w1) i)" for i
    by (simp add: heap w1)
  have conns1: "hm_get (kw_conns w') = (hm_get (kw_conns w1))(c := Some (k\<lparr>kc_out := ob', kc_opening := None\<rparr>))"
    by (simp add: conns w1 set_conn_def)
  have rest1: "kw_next_sub w' = kw_next_sub w1" "kw_next_conn w' = kw_next_conn w1" "kw_entries w' = kw_entries w1" "kw_subs w' = kw_subs w1"
    by (simp_all add: rest w1 set_conn_def)
  have own: "se_conn t = c" if "i \<in> {sid}" "hm_get (kw_heap w1) i = Some t" for i t
    using that fc(1) idle(2) by (auto simp: w1 same_sub_def)
  have free: "hm_get (kc_map k) n \<noteq> Some sid" for n
    using kv_linkedD(4)[OF assms(1,3), of n sid] kv_linkedD(5)[OF assms(1,3) os(1)] assms(5) by auto
  have stay: "hm_inv (kc_map k') \<and> kc_out k' = kc_out (k\<lparr>kc_out := ob'\<rparr>)
      \<and> (\<forall>n. hm_get (kc_map k') n = (case hm_get (kc_map (k\<lparr>kc_out := ob'\<rparr>)) n of Some i \<Rightarrow> if i \<in> {sid} then None else Some i | None \<Rightarrow> None))
      \<and> (kc_opening k' = kc_opening (k\<lparr>kc_out := ob'\<rparr>) \<and> (\<forall>i. opening_sid (k\<lparr>kc_out := ob'\<rparr>) = Some i \<longrightarrow> i \<notin> {sid})
         \<or> kc_opening k' = None \<and> (\<forall>i. opening_sid (k\<lparr>kc_out := ob'\<rparr>) = Some i \<longrightarrow> i \<in> {sid}))"
    if e: "Some (k\<lparr>kc_out := ob', kc_opening := None\<rparr>) = Some k'" for k'
  proof -
    have "k' = k\<lparr>kc_out := ob', kc_opening := None\<rparr>" using e by simp
    then show ?thesis
      using kv_linkedD(3)[OF assms(1,3)] free assms(4) by (auto simp: opening_sid_def split: option.split)
  qed
  note dk = drop_keeps[OF keep(1) s1 c1 heap1 conns1 rest1 own _ stay]
  have "kv_linked w'" by (rule dk(1)) simp_all
  moreover have "synced ev S w'" by (rule dk(2)) simp_all
  ultimately show ?thesis by simp
qed

lemma finish_keeps:
  assumes "kv_linked w" "synced ev S w" "lz4_ok ev"
  shows "kv_linked (open_finish c w) \<and> synced ev S (open_finish c w)"
proof (cases "\<exists>sid. opening_of w c = Some (Sending sid [])")
  case False
  then show ?thesis using assms(1,2)
    by (auto simp: open_finish_def split: option.split open_task.split list.split)
next
  case True
  then obtain sid where op: "opening_of w c = Some (Sending sid [])" by blast
  then obtain k where k: "hm_get (kw_conns w) c = Some k" and o: "kc_opening k = Some (Sending sid [])"
    by (auto simp: opening_of_def split: option.splits)
  have os: "opening_sid k = Some sid" using o by (simp add: opening_sid_def)
  obtain s where s: "hm_get (kw_heap w) sid = Some s" using kv_linkedD(5)[OF assms(1) k os] by blast
  note idle = opening_not_live[OF assms(1) k os s]
  obtain s' ob' where g: "go_live (s, kc_out k) = (s', ob')" by (cases "go_live (s, kc_out k)")
  have k2: "hm_get (kw_conns w) (se_conn s) = Some k" using k idle(2) by simp
  define w1 where "w1 = set_conn c (k\<lparr>kc_out := ob'\<rparr>) (w\<lparr>kw_heap := hm_insert sid s' (kw_heap w)\<rparr>)"
  have on: "fst (on_sub sid (\<lambda>st. (go_live st, True)) w) = w1"
    using on_sub_eq[where f = "\<lambda>st. (go_live st, True)", OF s k2] g idle(2) by (simp add: w1_def)
  have get: "hm_get (kw_conns w1) c = Some (k\<lparr>kc_out := ob'\<rparr>)" "sub_is_closed w1 sid = se_closed s'" "sub_kv_id w1 sid = se_kv_id s'"
    by (simp_all add: w1_def set_conn_def sub_is_closed_def sub_kv_id_def)
  have e: "open_finish c w = (if se_closed s' then drop_sub sid (set_conn c (k\<lparr>kc_out := ob', kc_opening := None\<rparr>) w1)
      else set_conn c (k\<lparr>kc_out := ob', kc_map := hm_insert (se_kv_id s') sid (kc_map k), kc_opening := None\<rparr>) w1)"
    unfolding open_finish_def op by (simp add: on get Let_def)
  show ?thesis
  proof (cases "se_closed s'")
    case True
    show ?thesis
      by (rule finish_closed[OF assms(1,2) k o s g True])
        (auto simp: e True w1_def drop_sub_def set_conn_def fun_eq_iff)
  next
    case False
    have id: "se_kv_id s' = se_kv_id s"
    proof -
      obtain pending where ph: "se_phase s = Snapshotting pending" using idle(1) by (cases "se_phase s") auto
      have "\<forall>msg \<in> set pending. good_frame ev (se_kv_id (s\<lparr>se_phase := Live\<rparr>)) msg"
        using assms(2) s k2 ph by (auto simp: synced_def sub_synced_def pending_frames_def)
      from flush_pending_cases[OF this, of "kc_out k" s' ob'] g ph show ?thesis by (simp add: go_live_def same_sub_def)
    qed
    show ?thesis
      by (rule finish_live[OF assms k o s g False])
        (auto simp: e False w1_def set_conn_def fun_eq_iff id)
  qed
qed

subsection \<open>Acknowledgements\<close>

lemma sub_synced_fields:
  assumes "se_kv_id s' = se_kv_id s" "se_prefix s' = se_prefix s" "se_inline_max s' = se_inline_max s"
    "se_phase s' = se_phase s" "se_closed s' = se_closed s"
  shows "sub_synced ev m K k sid s' \<longleftrightarrow> sub_synced ev m K k sid s"
proof -
  have "pending_frames s' = pending_frames s" "outstanding ev k sid s' = outstanding ev k sid s"
    using assms(4) by (simp_all add: pending_frames_def outstanding_def)
  moreover have "displays ev s' ob g b = displays ev s ob g b" for ob g b by (simp add: displays_def assms(1))
  moreover have "agrees K s' m g = agrees K s m g" for g by (simp add: agrees_def view_of_def inline_limit_def assms(2,3))
  ultimately show ?thesis by (simp add: sub_synced_def assms)
qed

lemma sub_ack_fields:
  "se_conn (sub_ack u s) = se_conn s" "se_kv_id (sub_ack u s) = se_kv_id s" "se_prefix (sub_ack u s) = se_prefix s"
  "se_inline_max (sub_ack u s) = se_inline_max s" "se_phase (sub_ack u s) = se_phase s" "se_closed (sub_ack u s) = se_closed s"
  by (simp_all add: sub_ack_def split: prod.split)

lemma ack_keeps:
  assumes "kv_linked w" "synced ev S w"
  shows "kv_linked (ack_request c data w) \<and> synced ev S (ack_request c data w)"
proof -
  have one: "kv_linked (fst (on_sub sid (\<lambda>(s, ob). ((sub_ack u s, ob), True)) w))
      \<and> synced ev S (fst (on_sub sid (\<lambda>(s, ob). ((sub_ack u s, ob), True)) w))"
    if k: "hm_get (kw_conns w) c = Some k" and m: "hm_get (kc_map k) i = Some sid" for u k i sid
  proof -
    obtain s where s: "hm_get (kw_heap w) sid = Some s" "se_conn s = c" using kv_linkedD(4)[OF assms(1) k m] by blast
    have sk: "sub_synced ev (kw_entries w) (S sid) k sid s" using assms(2) s k by (simp add: synced_def)
    have "sub_synced ev (kw_entries w) (S sid) (k\<lparr>kc_out := kc_out k\<rparr>) sid (sub_ack u s)"
      using sk by (simp add: sub_ack_fields sub_synced_fields[of "sub_ack u s" s])
    moreover have "same_sub s (sub_ack u s)" by (simp add: same_sub_def sub_ack_fields)
    ultimately show ?thesis
      using on_sub_keeps[of w ev S sid s k "\<lambda>(s, ob). ((sub_ack u s, ob), True)" "sub_ack u s" "kc_out k" True "S sid"]
        assms s k by (simp add: sub_ack_fields)
  qed
  show ?thesis using assms one by (simp add: ack_request_def split: option.split)
qed

subsection \<open>Connections\<close>

lemma hang_up_keeps:
  assumes "kv_linked w" "synced ev S w"
  shows "kv_linked (kv_hang_up c w) \<and> synced ev S (kv_hang_up c w)"
proof (cases "hm_get (kw_conns w) c")
  case None
  then show ?thesis using assms by (simp add: kv_hang_up_def)
next
  case (Some k)
  define k' where "k' = k\<lparr>kc_out := (kc_out k)\<lparr>ob_up := False\<rparr>\<rparr>"
  have st: "opening_sid k' = opening_sid k" "accepted k' i = accepted k i" "chunks_left k' i = chunks_left k i"
    "kc_map k' = kc_map k" "\<not> ob_up (kc_out k')" for i
    by (simp_all add: k'_def opening_sid_def accepted_def chunks_left_def)
  have w': "kv_hang_up c w = set_conn c k' w" using Some by (simp add: kv_hang_up_def k'_def)
  have "kv_linked (set_conn c k' w)"
    using assms(1) Some st unfolding kv_linked_def set_conn_def by (auto split: if_splits) fastforce+
  moreover have "synced ev S (set_conn c k' w)"
    unfolding synced_def
  proof (intro allI impI)
    fix sid s ka assume s: "hm_get (kw_heap (set_conn c k' w)) sid = Some s" and ka: "hm_get (kw_conns (set_conn c k' w)) (se_conn s) = Some ka"
    show "sub_synced ev (kw_entries (set_conn c k' w)) (S sid) ka sid s"
    proof (cases "se_conn s = c")
      case True
      have "sub_synced ev (kw_entries w) (S sid) k sid s" using assms(2) Some s True by (simp add: synced_def)
      moreover have "ka = k'" using ka True by (simp add: set_conn_def)
      ultimately show ?thesis by (simp add: sub_synced_def set_conn_def st)
    next
      case False
      then show ?thesis using assms(2) s ka by (simp add: synced_def set_conn_def)
    qed
  qed
  ultimately show ?thesis by (simp add: w')
qed

lemma connect_keeps:
  assumes "kv_linked w" "synced ev S w"
  shows "kv_linked (kv_connect w) \<and> synced ev S (kv_connect w)"
proof -
  have fresh: "hm_get (kw_conns w) (kw_next_conn w) = None"
    using kv_linkedD(3)[OF assms(1), of "kw_next_conn w"] by (cases "hm_get (kw_conns w) (kw_next_conn w)") auto
  have other: "se_conn s \<noteq> kw_next_conn w" if "hm_get (kw_heap w) sid = Some s" for sid s
    using kv_linkedD(2)[OF assms(1) that] fresh by auto
  have new: "opening_sid kv_conn_new = None" "\<not> accepted kv_conn_new i" "hm_get (kc_map kv_conn_new) n = None" "hm_inv (kc_map kv_conn_new)" for i n
    by (simp_all add: kv_conn_new_def opening_sid_def accepted_def hm_get_def hm_inv_def)
  have w': "kw_heap (kv_connect w) = kw_heap w" "hm_get (kw_conns (kv_connect w)) = (hm_get (kw_conns w))(kw_next_conn w \<mapsto> kv_conn_new)"
    "kw_next_conn (kv_connect w) = kw_next_conn w + 1" "kw_next_sub (kv_connect w) = kw_next_sub w" "kw_subs (kv_connect w) = kw_subs w"
    "kw_entries (kv_connect w) = kw_entries w"
    by (simp_all add: kv_connect_def Let_def set_conn_def)
  note L = kv_linkedD[OF assms(1)]
  have "kv_linked (kv_connect w)"
    unfolding kv_linked_def w'
  proof (intro conjI allI impI ballI)
    fix sid s assume s: "hm_get (kw_heap w) sid = Some s"
    show "sid < kw_next_sub w" by (rule L(1)[OF s])
    show "\<exists>k. ((hm_get (kw_conns w))(kw_next_conn w \<mapsto> kv_conn_new)) (se_conn s) = Some k \<and> (opening_sid k = Some sid \<and> se_phase s \<noteq> Live
        \<or> hm_get (kc_map k) (se_kv_id s) = Some sid \<and> se_phase s = Live)"
      using L(2)[OF s] other[OF s] by simp
  next
    fix c k assume k: "((hm_get (kw_conns w))(kw_next_conn w \<mapsto> kv_conn_new)) c = Some k"
    show "c < kw_next_conn w + 1" "hm_inv (kc_map k)" using k L(3)[of c k] new by (auto split: if_splits)
    show "\<exists>s. hm_get (kw_heap w) sid = Some s \<and> se_conn s = c \<and> se_kv_id s = i" if "hm_get (kc_map k) i = Some sid" for i sid
      using k that L(4)[of c k] new by (auto split: if_splits)
    show "\<exists>s. hm_get (kw_heap w) sid = Some s \<and> se_conn s = c \<and> hm_get (kc_map k) (se_kv_id s) = None"
      if "opening_sid k = Some sid" for sid
      using k that L(5)[of c k] new by (auto split: if_splits)
    show "sid \<notin> set (kw_subs w)" if "accepted k sid" for sid using k that L(8)[of c k] new by (auto split: if_splits)
  next
    fix sid s k assume "hm_get (kw_heap w) sid = Some s"
      "((hm_get (kw_conns w))(kw_next_conn w \<mapsto> kv_conn_new)) (se_conn s) = Some k" "ob_up (kc_out k)" "\<not> se_closed s" "\<not> accepted k sid"
    then show "sid \<in> set (kw_subs w)" using L(9) other by auto
  qed (rule L(6,7), assumption?)+
  moreover have "synced ev S (kv_connect w)"
    using assms(2) other unfolding synced_def w' by auto
  ultimately show ?thesis by simp
qed

end
