(* ===== verification/Kv_Converge.thy ===== *)
theory Kv_Converge
  imports Kv_Steps
begin

text \<open>
  Watchers converge: every step keeps the invariant of the watches, where the keys whose echo is owed
  are those of the durable puts that the writer has not echoed yet.
\<close>

subsection \<open>The echoes owed\<close>

definition reply_keys :: "write_job list \<Rightarrow> bytes set" where
  "reply_keys js = wj_key ` {j \<in> set js. wj_reply j \<noteq> None}"

definition phase_keys :: "writer_phase \<Rightarrow> bytes set" where
  "phase_keys ph = (case ph of Receiving \<Rightarrow> {} | Writing js \<Rightarrow> reply_keys js | Replying ok js \<Rightarrow> reply_keys js
     | Echoing ok key r js \<Rightarrow> insert key (reply_keys js))"

definition owed :: "'d kv_world \<Rightarrow> bytes set" where
  "owed w = phase_keys (kw_phase w) \<union> reply_keys (kw_queue w)"

lemma reply_keys_simps [simp]:
  "reply_keys [] = {}" "reply_keys (j # js) = (if wj_reply j = None then {} else {wj_key j}) \<union> reply_keys js"
  "reply_keys (js @ js') = reply_keys js \<union> reply_keys js'"
  by (auto simp: reply_keys_def)

lemma phase_keys_simps [simp]:
  "phase_keys Receiving = {}" "phase_keys (Writing js) = reply_keys js" "phase_keys (Replying ok js) = reply_keys js"
  "phase_keys (Echoing ok key r js) = insert key (reply_keys js)"
  by (simp_all add: phase_keys_def)

lemma owed_same: "store_core w' = store_core w \<Longrightarrow> owed w' = owed w"
  using kv_core_fields(5,6)[of w' w] by (simp add: owed_def)

definition watch_ok :: "'d kv_env \<Rightarrow> 'd kv_world \<Rightarrow> bool" where
  "watch_ok ev w \<longleftrightarrow> kv_linked w \<and> synced ev (\<lambda>_. owed w) w \<and> (\<forall>key \<in> owed w. key_ok key)"

lemma synced_mono: "synced ev S w \<Longrightarrow> (\<And>i. S i \<subseteq> S' i) \<Longrightarrow> synced ev S' w"
  unfolding synced_def using sub_synced_mono by blast

lemma watch_ok_core:
  assumes "watch_ok ev w" "store_core w' = store_core w" "kv_linked w' \<and> synced ev (\<lambda>_. owed w) w'"
  shows "watch_ok ev w'"
  using assms owed_same[OF assms(2)] by (simp add: watch_ok_def)

lemma watch_ok_like:
  assumes "watch_ok ev w" "world_like (ev_decompress ev) w w'" "owed w' = owed w"
  shows "watch_ok ev w'"
  using assms world_like_linked[OF assms(2)] world_like_synced[OF assms(2)] by (simp add: watch_ok_def)

subsection \<open>Puts\<close>

lemma put_finish_keeps:
  assumes "lz4_ok ev" "config_ok ev" "key_ok key" "\<And>e. bt_get (kw_entries w) key = Some e \<Longrightarrow> entry_ok ev key e"
    and "kv_linked w" "synced ev (\<lambda>_. insert key (owed w)) w" "\<forall>key \<in> owed w. key_ok key"
  shows "watch_ok ev (put_finish ev c nonce durable key v hash mtime_ns w)"
proof -
  define reply where "reply = (if durable then Some \<lparr>dr_conn = c, dr_nonce = nonce, dr_hash = hash, dr_mtime_ns = mtime_ns\<rparr> else None)"
  define w1 where "w1 = (if durable then pending_add c w else w)"
  obtain w2 queued where e: "enqueue key v reply w1 = (w2, queued)" by (cases "enqueue key v reply w1")
  have like1: "world_like (ev_decompress ev) w w1" by (simp add: w1_def world_like_pending_add)
  have "world_like (ev_decompress ev) w1 w2" using world_like_enqueue[of "ev_decompress ev" w1 key v reply] e by simp
  then have like2: "world_like (ev_decompress ev) w w2" using like1 world_like_trans by blast
  have c1: "store_core w1 = store_core w" by (simp add: w1_def)
  note f1 = kv_core_fields[OF c1]
  have q: "kw_phase w2 = kw_phase w" "kw_queue w2 = (if queued then kw_queue w @ [\<lparr>wj_key = key, wj_value = v, wj_reply = reply\<rparr>] else kw_queue w)"
    using e core_enqueue[of key v reply w1] snd_enqueue[of key v reply w1] by (auto simp: f1 store_core_def split: if_splits)
  have "put_finish ev c nonce durable key v hash mtime_ns w = (if durable \<and> queued then w2
      else broadcast (ev_compress ev) key (put_done c nonce (if durable then KV_STATUS_OTHER else KV_STATUS_OK) hash mtime_ns w2))"
    unfolding put_finish_def Let_def reply_def[symmetric] w1_def[symmetric] e by simp
  moreover have "watch_ok ev w2" if "durable" "queued"
  proof -
    have "owed w2 = insert key (owed w)" using that q by (auto simp: owed_def reply_def)
    then show ?thesis
      using assms(3,5,6,7) world_like_linked[OF like2] world_like_synced[OF like2] by (simp add: watch_ok_def)
  qed
  moreover have "watch_ok ev (broadcast (ev_compress ev) key (put_done c nonce st hash mtime_ns w2))" (is "watch_ok ev ?w4")
    if "\<not> (durable \<and> queued)" for st
  proof -
    let ?w3 = "put_done c nonce st hash mtime_ns w2"
    have like3: "world_like (ev_decompress ev) w ?w3" using like2 world_like_put_done world_like_trans by blast
    have ent: "kw_entries ?w3 = kw_entries w" using like3 by (simp add: world_like_def)
    have o2: "owed w2 = owed w" using that q by (auto simp: owed_def reply_def)
    have o4: "owed ?w4 = owed w" using owed_same[of ?w4 w2] o2 by simp
    have e3: "entry_ok ev key e" if "bt_get (kw_entries ?w3) key = Some e" for e using assms(4) that ent by simp
    have l3: "kv_linked ?w3" "synced ev (\<lambda>_. insert key (owed w)) ?w3"
      using assms(5,6) world_like_linked[OF like3] world_like_synced[OF like3] by blast+
    note b = broadcast_keeps[OF assms(1-3) e3 l3]
    have "synced ev (\<lambda>_. owed ?w4) ?w4" unfolding o4 by (rule synced_mono[OF b(2)]) auto
    then show ?thesis using b(1) assms(7) o4 by (simp add: watch_ok_def)
  qed
  ultimately show ?thesis by simp
qed

lemma put_locked_keeps:
  assumes "lz4_ok ev" "config_ok ev" "watch_ok ev w"
    and "kp_flags put AND KV_PUT_DELETE = 0 \<Longrightarrow> hash = ev_hash ev (kp_value put)
      \<and> length (kp_value put) \<le> cfg_value_max (ev_cfg ev)"
    and "utf8_valid (kp_key put)" "kv_key_valid (kp_key put)" "bt_inv (kw_entries w)"
  shows "watch_ok ev (put_locked ev now c nonce put hash w)"
proof -
  let ?m = "kw_entries w" and ?key = "kp_key put"
  have key: "key_ok ?key" using assms(5,6) by (simp add: key_ok_def kv_key_valid_def)
  have change: "watch_ok ev (put_finish ev c nonce durable ?key v h mt (w\<lparr>kw_entries := m, kw_total_bytes := t\<rparr>))"
    if "\<And>e. bt_get m ?key = Some e \<Longrightarrow> entry_ok ev ?key e" "\<And>key'. key' \<noteq> ?key \<Longrightarrow> bt_get m key' = bt_get ?m key'"
    for durable v h mt m t
  proof -
    let ?w = "w\<lparr>kw_entries := m, kw_total_bytes := t\<rparr>"
    have o: "owed ?w = owed w" by (simp add: owed_def)
    have l: "kv_linked ?w" using assms(3) by (simp add: watch_ok_def kv_linked_def)
    have sy: "synced ev (\<lambda>_. insert ?key (owed ?w)) ?w"
      using synced_entries[of ev "\<lambda>_. owed w" w ?key m t] assms(3) that(2) by (simp add: o watch_ok_def)
    have ok: "\<forall>key \<in> owed ?w. key_ok key" using assms(3) by (simp add: o watch_ok_def)
    show ?thesis by (rule put_finish_keeps[OF assms(1,2) key _ l sy ok]) (simp add: that(1))
  qed
  have rem: "watch_ok ev (put_finish ev c nonce durable ?key None h mt (w\<lparr>kw_entries := bt_remove ?key ?m, kw_total_bytes := t\<rparr>))"
    for durable h mt t
    by (rule change) (simp_all add: bt.lookup_delete assms(7))
  have ins: "watch_ok ev (put_finish ev c nonce durable ?key v hash now
      (w\<lparr>kw_entries := bt_insert ?key \<lparr>en_value = kp_value put, en_hash = hash, en_mtime_ns = now\<rparr> ?m, kw_total_bytes := t\<rparr>))"
    if "kp_flags put AND KV_PUT_DELETE = 0" for durable v t
    using assms(4)[OF that] assms(5,6)
    by (intro change) (auto simp: bt.lookup_insert assms(7) entry_ok_def kv_key_valid_def)
  have done1: "watch_ok ev (put_done c nonce st h t w)" for st h t
    using watch_ok_like[OF assms(3) world_like_put_done] owed_same[OF core_put_done] by blast
  have swap: "w\<lparr>kw_total_bytes := t, kw_entries := e\<rparr> = w\<lparr>kw_entries := e, kw_total_bytes := t\<rparr>" for t e by simp
  show ?thesis
    unfolding put_locked_def Let_def swap
    by (cases "bt_get ?m ?key") (simp_all add: done1 rem ins)
qed

subsection \<open>The writer\<close>

lemma writer_take_keeps: "watch_ok ev w \<Longrightarrow> watch_ok ev (writer_take w)"
  by (erule watch_ok_like) (auto simp: writer_take_def world_like_def owed_def)

lemma writer_commit_keeps: "watch_ok ev w \<Longrightarrow> watch_ok ev (writer_commit ev w)"
  by (erule watch_ok_like) (auto simp: writer_commit_def Let_def world_like_def owed_def split: writer_phase.split option.split)

lemma writer_reply_keeps: "watch_ok ev w \<Longrightarrow> watch_ok ev (writer_reply w)"
proof -
  assume w: "watch_ok ev w"
  have "world_like (ev_decompress ev) w (send_to c (msg_kv_done n st h t) (w\<lparr>kw_phase := ph\<rparr>))" for c n st h t ph
    using world_like_trans[OF world_like_fields(3) world_like_send_to[OF quiet_done]] .
  moreover have "owed (send_to c m (w\<lparr>kw_phase := ph\<rparr>)) = owed (w\<lparr>kw_phase := ph\<rparr>)" for c m ph
    by (rule owed_same) simp
  ultimately show ?thesis
    by (intro watch_ok_like[OF w])
      (auto simp: writer_reply_def Let_def world_like_fields owed_def split: writer_phase.split list.split option.split)
qed

lemma writer_echo_keeps:
  assumes "lz4_ok ev" "config_ok ev" "watch_ok ev w" "\<And>key e. bt_get (kw_entries w) key = Some e \<Longrightarrow> entry_ok ev key e"
  shows "watch_ok ev (writer_echo ev w)"
proof (cases "\<exists>ok key r js. kw_phase w = Echoing ok key r js")
  case False
  then show ?thesis using assms(3) by (auto simp: writer_echo_def split: writer_phase.split)
next
  case True
  then obtain ok key r js where ph: "kw_phase w = Echoing ok key r js" by blast
  let ?w1 = "w\<lparr>kw_phase := Replying ok js\<rparr>"
  let ?w2 = "broadcast (ev_compress ev) key ?w1"
  have like: "world_like (ev_decompress ev) w ?w1" by (rule world_like_fields)
  have key: "key_ok key" "key \<in> owed w" using assms(3) ph by (simp_all add: watch_ok_def owed_def)
  have e1: "entry_ok ev key e" if "bt_get (kw_entries ?w1) key = Some e" for e using assms(4) that by simp
  have l: "kv_linked ?w1" "synced ev (\<lambda>_. owed w) ?w1"
    using assms(3) world_like_linked[OF like] world_like_synced[OF like] by (auto simp: watch_ok_def)
  note b = broadcast_keeps[OF assms(1,2) key(1) e1 l]
  have o: "owed ?w2 = owed ?w1" by (rule owed_same) simp
  have sub: "owed w - {key} \<subseteq> owed ?w1" "owed ?w1 \<subseteq> owed w" using ph by (auto simp: owed_def)
  have "synced ev (\<lambda>_. owed ?w2) ?w2" using synced_mono[OF b(2)] sub(1) o by simp
  then have "watch_ok ev ?w2" using b(1) assms(3) sub(2) o by (auto simp: watch_ok_def)
  then have "watch_ok ev (drop_reply (Some r) ?w2)"
    by (rule watch_ok_like[OF _ world_like_drop_reply]) (rule owed_same, simp)
  then show ?thesis using ph by (simp add: writer_echo_def)
qed

subsection \<open>Every step\<close>

lemma watch_ok_step:
  assumes "kv_step ev w w'" "watch_ok ev w" "core_ok ev most count w" "lz4_ok ev" "config_ok ev"
  shows "watch_ok ev w'"
proof -
  have ls: "kv_linked w" "synced ev (\<lambda>_. owed w) w" using assms(2) by (simp_all add: watch_ok_def)
  have store: "bt_inv (kw_entries w)" "\<And>key e. bt_get (kw_entries w) key = Some e \<Longrightarrow> entry_ok ev key e"
    using assms(3) by (simp_all add: core_ok_def store_ok_def)
  note core = watch_ok_core[OF assms(2)]
  show ?thesis
    using assms(1)
  proof (cases rule: kv_step.cases)
    case connect
    have "owed w' = owed w" by (simp add: connect kv_connect_def Let_def owed_def set_conn_def)
    then show ?thesis using connect_keeps[OF ls] assms(2) by (simp add: connect watch_ok_def)
  next
    case (message c data now)
    have put: "watch_ok ev (put_request ev now c data w)"
    proof (cases rule: put_request_cases[of ev now c data w])
      case (answered status)
      then show ?thesis using watch_ok_like[OF assms(2) world_like_put_done owed_same[OF core_put_done]] by simp
    next
      case (locked p hash)
      then show ?thesis using put_locked_keeps[OF assms(4,5,2) _ _ _ store(1)] by simp
    qed
    have "owed (open_request ev c data w) = owed w"
      using core_open_request[of ev c data w] by (auto simp: owed_def store_core_def)
    then have "watch_ok ev (open_request ev c data w)"
      using open_request_keeps[OF ls message(3), of data] assms(2) by (simp add: watch_ok_def)
    moreover have "watch_ok ev (stop_request c data w)" using stop_keeps[OF ls message(3)] by (intro core) simp_all
    moreover have "watch_ok ev (ack_request c data w)" using ack_keeps[OF ls] by (intro core) simp_all
    moreover have "watch_ok ev (fetch_request ev c data w)"
      by (rule watch_ok_like[OF assms(2) _ owed_same[OF core_fetch_request]])
        (auto simp: fetch_request_def world_like_send_to quiet_value split: option.split)
    ultimately show ?thesis using put assms(2) by (simp add: message handle_kv_message_def Let_def)
  next
    case (refused c data)
    have "KV_STATUS_PERMISSION \<noteq> KV_STATUS_OK" by (simp add: wire_defs)
    then show ?thesis
      unfolding refused(1)
      by (intro watch_ok_like[OF assms(2) _ owed_same[OF core_refuse]])
        (simp add: refuse_kv_message_def Let_def world_like_refuse_open world_like_put_done world_like_send_to quiet_value)
  next
    case (hang_up c)
    then show ?thesis using hang_up_keeps[OF ls] by (simp add: core)
  next
    case (disconnect c)
    then show ?thesis using disconnect_keeps[OF ls] by (simp add: core)
  next
    case (register c)
    then show ?thesis using register_keeps[OF ls assms(3,5)] by (simp add: core)
  next
    case (chunk c)
    then show ?thesis using chunk_keeps[OF ls assms(4)] by (simp add: core)
  next
    case (finish c)
    then show ?thesis using finish_keeps[OF ls assms(4)] by (simp add: core)
  qed (simp_all add: assms(2) writer_take_keeps writer_commit_keeps writer_reply_keeps
      writer_echo_keeps[OF assms(4,5,2) store(2)])
qed

lemma store_open_quiet:
  "kw_heap (store_open hash db rows spawned) = []" "kw_conns (store_open hash db rows spawned) = []"
  "kw_subs (store_open hash db rows spawned) = []" "kw_queue (store_open hash db rows spawned) = []"
  "kw_phase (store_open hash db rows spawned) = Receiving"
  by (simp_all add: store_open_def store_empty_def split: option.split prod.split)

lemma watch_ok_boot: "kv_boot ev rows w \<Longrightarrow> watch_ok ev w"
  by (auto simp: kv_boot_def store_open_quiet watch_ok_def kv_linked_def synced_def owed_def hm_get_def)

lemma watch_ok_reach:
  assumes "kv_reach ev w w'" "kv_boot ev rows w" "lz4_ok ev" "config_ok ev"
  shows "watch_ok ev w'"
  using assms(1)
proof (induction rule: kv_reach_induct)
  case start
  show ?case by (rule watch_ok_boot[OF assms(2)])
next
  case (step v v')
  show ?case using watch_ok_step[OF step(2,3) core_ok_reach[OF step(1) core_ok_boot[OF assms(2)]] assms(3,4)] .
qed

text \<open>
  A subscription that is in its connection's registry, not closed and its connection up: the client's
  mirror is complete and shows the prefix's part of the map, but for keys whose echo is owed.
\<close>

lemma watcher_shows:
  assumes "watch_ok ev w" "hm_get (kw_conns w) c = Some k" "ob_up (kc_out k)" "hm_get (kc_map k) kv_id = Some sid"
    and "hm_get (kw_heap w) sid = Some s" "\<not> se_closed s"
  obtains m where "client_mirror (ev_decompress ev) kv_id (ob_sent (kc_out k)) = Some m" "bt_inv (km_live m)" "km_snapshot_done m"
    "\<And>key. key \<notin> owed w \<or> \<not> starts_with key (se_prefix s) \<Longrightarrow> bt_get (km_live m) key = view_of (kw_entries w) s key"
proof -
  have l: "kv_linked w" and sy: "synced ev (\<lambda>_. owed w) w" using assms(1) by (simp_all add: watch_ok_def)
  have s: "se_conn s = c" "se_kv_id s = kv_id" using kv_linkedD(4)[OF l assms(2,4)] assms(5) by auto
  have "opening_sid k \<noteq> Some sid"
  proof
    assume "opening_sid k = Some sid"
    then show False using kv_linkedD(5)[OF l assms(2)] assms(4,5) s by force
  qed
  then have st: "\<not> accepted k sid" "chunks_left k sid = []" using accepted_opening chunks_opening by blast+
  have "se_phase s = Live" using kv_linkedD(2)[OF l assms(5)] assms(2) s \<open>opening_sid k \<noteq> Some sid\<close> by auto
  then have "outstanding ev k sid s = []" by (simp add: outstanding_def st pending_frames_def)
  moreover have "sub_synced ev (kw_entries w) (owed w) k sid s" using sy assms(2,5) s by (simp add: synced_def)
  ultimately obtain f where "displays ev s (kc_out k) f True" "agrees (owed w) s (kw_entries w) f"
    using assms(3,6) st by (auto simp: sub_synced_def)
  then show thesis using that s(2) unfolding displays_def agrees_def by blast
qed

end
