(* ===== verification/Kv_Writer.thy ===== *)
theory Kv_Writer
  imports Kv_Converge
begin

text \<open>
  The writer thread on its own: the step its loop takes next, a measure of what it has left, and the
  state it comes to rest in, where every durable put is answered and every watcher shows the map.
\<close>

subsection \<open>Turns\<close>

text \<open>The loop's next step, by where it stands.\<close>

definition writer_turn :: "'d kv_env \<Rightarrow> 'd kv_world \<Rightarrow> 'd kv_world" where
  "writer_turn ev w = (case kw_phase w of
     Receiving \<Rightarrow> writer_take w
   | Writing js \<Rightarrow> writer_commit ev w
   | Replying ok js \<Rightarrow> writer_reply w
   | Echoing ok key r js \<Rightarrow> writer_echo ev w)"

fun phase_left :: "writer_phase \<Rightarrow> nat" where
  "phase_left Receiving = 0"
| "phase_left (Writing js) = 2 * length js + 2"
| "phase_left (Replying ok js) = 2 * length js + 1"
| "phase_left (Echoing ok key r js) = 2 * length js + 2"

definition writer_left :: "'d kv_world \<Rightarrow> nat" where
  "writer_left w = phase_left (kw_phase w) + (if kw_queue w = [] then 0 else 2 * length (kw_queue w) + 3)"

lemma writer_turn_step: "kv_step ev w (writer_turn ev w)"
  by (simp add: writer_turn_def kv_step.intros split: writer_phase.split)

lemma writer_turns_reach: "kv_reach ev w w' \<Longrightarrow> kv_reach ev w ((writer_turn ev ^^ n) w')"
  by (induction n) (auto intro: kv_reach_step writer_turn_step)

lemma core_echo:
  assumes "kw_phase w = Echoing ok key r js"
  shows "store_core (writer_echo ev w) = (store_core w)\<lparr>co_phase := Replying ok js\<rparr>"
proof -
  have "store_core (w\<lparr>kw_phase := ph\<rparr>) = (store_core w)\<lparr>co_phase := ph\<rparr>" for ph by (simp add: store_core_def)
  then show ?thesis by (simp add: writer_echo_def assms)
qed

lemma core_reply:
  assumes "kw_phase w = Replying ok js"
  shows "store_core (writer_reply w) = (store_core w)\<lparr>co_phase := (case js of [] \<Rightarrow> Receiving
    | j # js \<Rightarrow> (case wj_reply j of None \<Rightarrow> Replying ok js | Some r \<Rightarrow> Echoing ok (wj_key j) r js))\<rparr>"
proof -
  have "store_core (w\<lparr>kw_phase := ph\<rparr>) = (store_core w)\<lparr>co_phase := ph\<rparr>" for ph by (simp add: store_core_def)
  then show ?thesis by (simp add: writer_reply_def assms Let_def split: list.split option.split)
qed

lemma writer_turn_progress:
  "writer_left w \<noteq> 0 \<Longrightarrow> writer_left (writer_turn ev w) < writer_left w"
  "kw_entries (writer_turn ev w) = kw_entries w"
proof -
  have "(writer_left w \<noteq> 0 \<longrightarrow> writer_left (writer_turn ev w) < writer_left w) \<and> kw_entries (writer_turn ev w) = kw_entries w"
  proof (cases "kw_phase w")
    case Receiving
    then show ?thesis by (auto simp: writer_turn_def writer_take_def writer_left_def split: if_splits)
  next
    case (Writing js)
    then show ?thesis by (auto simp: writer_turn_def writer_commit_def Let_def writer_left_def split: option.split)
  next
    case (Replying ok js)
    note c = core_reply[OF Replying]
    have "kw_queue (writer_reply w) = kw_queue w" "kw_entries (writer_reply w) = kw_entries w"
      "kw_phase (writer_reply w) = (case js of [] \<Rightarrow> Receiving
        | j # js \<Rightarrow> (case wj_reply j of None \<Rightarrow> Replying ok js | Some r \<Rightarrow> Echoing ok (wj_key j) r js))"
      using c by (simp_all add: store_core_def)
    then show ?thesis by (auto simp: writer_turn_def Replying writer_left_def split: list.split option.split)
  next
    case (Echoing ok key r js)
    have "kw_queue (writer_echo ev w) = kw_queue w" "kw_entries (writer_echo ev w) = kw_entries w"
      "kw_phase (writer_echo ev w) = Replying ok js"
      using core_echo[OF Echoing, of ev] by (simp_all add: store_core_def)
    then show ?thesis by (simp add: writer_turn_def Echoing writer_left_def)
  qed
  then show "writer_left w \<noteq> 0 \<Longrightarrow> writer_left (writer_turn ev w) < writer_left w"
    "kw_entries (writer_turn ev w) = kw_entries w" by simp_all
qed

lemma writer_turns_entries: "kw_entries ((writer_turn ev ^^ n) w) = kw_entries w"
  by (induction n) (simp_all add: writer_turn_progress(2))

lemma writer_idle: "writer_left w = 0 \<longleftrightarrow> kw_phase w = Receiving \<and> kw_queue w = []"
  by (cases "kw_phase w") (simp_all add: writer_left_def)

text \<open>The writer comes to rest within as many turns as the measure says.\<close>

lemma writer_rests: "\<exists>n \<le> writer_left w. writer_left ((writer_turn ev ^^ n) w) = 0"
proof (induction "writer_left w" arbitrary: w rule: less_induct)
  case less
  show ?case
  proof (cases "writer_left w = 0")
    case True
    then show ?thesis by (intro exI[of _ 0]) simp
  next
    case False
    note p = writer_turn_progress(1)[OF False, of ev]
    obtain n where n: "n \<le> writer_left (writer_turn ev w)" "writer_left ((writer_turn ev ^^ n) (writer_turn ev w)) = 0"
      using less[OF p] by blast
    have "(writer_turn ev ^^ Suc n) w = (writer_turn ev ^^ n) (writer_turn ev w)" by (simp add: funpow_swap1)
    then show ?thesis using n p by (intro exI[of _ "Suc n"]) simp
  qed
qed

lemma idle_owes_nothing: "writer_left w = 0 \<Longrightarrow> owed w = {} \<and> replies w = []"
  by (simp add: writer_idle owed_def replies_def phase_replies_def List.map_filter_def)

subsection \<open>Budgets of every reachable state\<close>

lemma in_flight_reach:
  assumes "kv_reach ev w w'" "kv_boot ev rows w"
  shows "in_flight_ok (cfg_max_inflight (ev_cfg ev)) w'"
  using assms(1)
proof (induction rule: kv_reach_induct)
  case start
  show ?case using assms(2)
    by (auto simp: kv_boot_def in_flight_ok_def pend_def store_open_quiet hm_get_def replies_def phase_replies_def List.map_filter_def)
next
  case (step v v')
  show ?case by (rule in_flight_step[OF step(2,3)])
qed

lemma windows_reach:
  assumes "kv_reach ev w w'" "kv_boot ev rows w" "hm_get (kw_heap w') sid = Some s"
  shows "window_ok (cfg_unacked_max (ev_cfg ev)) s"
proof -
  have "all_subs (window_ok (cfg_unacked_max (ev_cfg ev))) w"
    using assms(2) by (auto simp: kv_boot_def all_subs_def store_open_quiet hm_get_def)
  from window.reach[OF assms(1) this refl] show ?thesis using assms(3) by (simp add: all_subs_def)
qed

end
