(* ===== verification/Kv_Cas.thy ===== *)
theory Kv_Cas
  imports Kv_Writer
begin

text \<open>
  What a put means: compare and swap on a map from keys to values, under a budget.  The locked part of
  \<open>put\<close> on the store's entries implements it, and its answer is the first frame the caller is sent.
\<close>

subsection \<open>The abstract operation\<close>

definition abs_store :: "(bytes, store_entry) btree_map \<Rightarrow> bytes \<Rightarrow> bytes option" where
  "abs_store entries key = map_option en_value (bt_get entries key)"

definition weight :: "(bytes \<Rightarrow> bytes option) \<Rightarrow> nat" where
  "weight m = (\<Sum>key \<in> dom m. length key + length (the (m key)))"

text \<open>The answer's status, hash and time, and the map afterwards.\<close>

definition cas_spec :: "'d kv_env \<Rightarrow> u64 \<Rightarrow> kv_put \<Rightarrow> (bytes \<Rightarrow> bytes option) \<Rightarrow> (u8 \<times> u128 \<times> u64) \<times> (bytes \<Rightarrow> bytes option)" where
  "cas_spec ev now p m =
    (let key = kp_key p;
         current = (case m key of None \<Rightarrow> 0 | Some v \<Rightarrow> ev_hash ev v);
         m' = m(key \<mapsto> kp_value p)
     in if kp_flags p AND KV_PUT_NO_CAS = 0 \<and> kp_base p \<noteq> current then ((KV_STATUS_CONFLICT, current, 0), m)
        else if kp_flags p AND KV_PUT_DELETE \<noteq> 0 then ((KV_STATUS_OK, 0, 0), m(key := None))
        else if m key = None \<and> card (dom m) \<ge> cfg_max_entries (ev_cfg ev) \<or> weight m' > cfg_total_max (ev_cfg ev)
        then ((KV_STATUS_BUDGET, 0, 0), m)
        else ((KV_STATUS_OK, ev_hash ev (kp_value p), now), m'))"

lemma dom_abs: "bt_inv entries \<Longrightarrow> dom (abs_store entries) = fst ` set entries \<and> card (dom (abs_store entries)) = length entries"
proof -
  assume inv: "bt_inv entries"
  have d: "distinct (map fst entries)" using inv by (simp add: bt_inv_def strict_sorted_iff)
  have "dom (abs_store entries) = dom (map_of entries)" by (auto simp: abs_store_def bt_get_def)
  then have "dom (abs_store entries) = set (map fst entries)" by (simp add: dom_map_of_conv_image_fst)
  then show ?thesis using distinct_card[OF d] by simp
qed

lemma weight_abs: "bt_inv entries \<Longrightarrow> weight (abs_store entries) = bytes_total entries"
proof -
  assume inv: "bt_inv entries"
  have d: "distinct (map fst entries)" using inv by (simp add: bt_inv_def strict_sorted_iff)
  let ?f = "\<lambda>key. length key + length (the (abs_store entries key))"
  have "weight (abs_store entries) = sum ?f (set (map fst entries))" using dom_abs[OF inv] by (simp add: weight_def)
  also have "\<dots> = sum_list (map ?f (map fst entries))" using sum_list_distinct_conv_sum_set[OF d, of ?f] by (rule sym)
  also have "map ?f (map fst entries) = map entry_bytes entries"
    using d by (auto simp: abs_store_def bt_get_def entry_bytes_def)
  finally show ?thesis by (simp add: bytes_total_def)
qed

subsection \<open>Outboxes only grow\<close>

definition sent :: "'d kv_world \<Rightarrow> nat \<Rightarrow> bytes list" where
  "sent w c = (case hm_get (kw_conns w) c of None \<Rightarrow> [] | Some k \<Rightarrow> ob_sent (kc_out k))"

definition grows :: "'d kv_world \<Rightarrow> 'd kv_world \<Rightarrow> bool" where
  "grows w w' \<longleftrightarrow> (\<forall>c. \<exists>ms. sent w' c = sent w c @ ms)"

lemma grows_refl [simp]: "grows w w"
  by (simp add: grows_def)

lemma grows_trans:
  assumes "grows a b" "grows b c"
  shows "grows a c"
  unfolding grows_def
proof
  fix i
  obtain ms where ms: "sent b i = sent a i @ ms" using assms(1) unfolding grows_def by blast
  obtain ms' where "sent c i = sent b i @ ms'" using assms(2) unfolding grows_def by blast
  then show "\<exists>ms. sent c i = sent a i @ ms" using ms by simp
qed

lemma deliver_grows: "deliver msg (s, ob) = ((s', ob'), ok) \<Longrightarrow> \<exists>ms. ob_sent ob' = ob_sent ob @ ms"
  by (auto simp: deliver_def charge_and_send_def Let_def ob_send_def split: if_splits sub_phase.splits)

lemma on_sub_grows: "grows w (fst (on_sub sid (deliver msg) w))"
proof (cases "\<exists>s k. hm_get (kw_heap w) sid = Some s \<and> hm_get (kw_conns w) (se_conn s) = Some k")
  case False
  then show ?thesis by (auto simp: on_sub_def split: option.split)
next
  case True
  then obtain s k where s: "hm_get (kw_heap w) sid = Some s" "hm_get (kw_conns w) (se_conn s) = Some k" by blast
  obtain s' ob' ok where d: "deliver msg (s, kc_out k) = ((s', ob'), ok)" by (cases "deliver msg (s, kc_out k)") auto
  show ?thesis using deliver_grows[OF d]
    by (auto simp: on_sub_eq[where f = "deliver msg", OF s d] grows_def sent_def set_conn_def s(2))
qed

lemma broadcast_one_grows: "grows (fst st) (fst (broadcast_one compress key sid st))"
proof -
  obtain w kept where st: "st = (w, kept)" by (cases st)
  have "grows w w1" if "on_sub i (deliver msg) w = (w1, ok)" for i msg w1 ok using on_sub_grows[of w i msg] that by simp
  then show ?thesis by (auto simp: st broadcast_one_def Let_def split: option.split prod.split)
qed

lemma broadcast_grows: "grows w (broadcast compress key w)"
proof -
  have "grows (fst st) (fst (fold (broadcast_one compress key) sids st))" for sids st
  proof (induction sids arbitrary: st)
    case (Cons sid sids)
    show ?case using grows_trans[OF broadcast_one_grows Cons.IH] by simp
  qed simp
  from this[of "(w, [])" "kw_subs w"] show ?thesis
    by (auto simp: broadcast_def grows_def sent_def split: prod.split)
qed

subsection \<open>The store implements the operation\<close>

text \<open>The caller is answered, and whatever else it is sent follows.\<close>

definition answered :: "nat \<Rightarrow> bytes \<Rightarrow> 'd kv_world \<Rightarrow> 'd kv_world \<Rightarrow> bool" where
  "answered c msg w w' \<longleftrightarrow> (\<exists>ms. sent w' c = sent w c @ msg # ms)"

lemma answered_put_done:
  assumes "hm_get (kw_conns w) c = Some k" "ob_up (kc_out k)"
  shows "answered c (msg_kv_done nonce st h t) w (put_done c nonce st h t w)"
  using assms by (simp add: answered_def put_done_def send_to_def sent_def set_conn_def ob_send_def)

lemma answered_put_finish:
  assumes "hm_get (kw_conns w) c = Some k" "ob_up (kc_out k)"
  shows "answered c (msg_kv_done nonce KV_STATUS_OK hash mt) w
    (put_finish ev c nonce False key v hash mt (w\<lparr>kw_entries := m, kw_total_bytes := n\<rparr>))"
proof -
  define w1 where "w1 = fst (enqueue key v None (w\<lparr>kw_entries := m, kw_total_bytes := n\<rparr>))"
  have e: "kw_conns w1 = kw_conns w" by (simp add: w1_def enqueue_def drop_reply_def)
  have w': "put_finish ev c nonce False key v hash mt (w\<lparr>kw_entries := m, kw_total_bytes := n\<rparr>)
      = broadcast (ev_compress ev) key (put_done c nonce KV_STATUS_OK hash mt w1)"
    by (simp add: put_finish_def Let_def w1_def split: prod.split)
  have "answered c (msg_kv_done nonce KV_STATUS_OK hash mt) w1 (put_done c nonce KV_STATUS_OK hash mt w1)"
    using assms by (intro answered_put_done) (simp_all add: e)
  moreover have "sent w1 c = sent w c" by (simp add: sent_def e)
  moreover obtain ms where "sent (broadcast (ev_compress ev) key (put_done c nonce KV_STATUS_OK hash mt w1)) c
      = sent (put_done c nonce KV_STATUS_OK hash mt w1) c @ ms"
    using broadcast_grows unfolding grows_def by blast
  ultimately show ?thesis by (auto simp: w' answered_def)
qed

lemma abs_put_done [simp]: "abs_store (kw_entries (put_done c nonce st h t w)) = abs_store (kw_entries w)"
  by (subst kv_core_fields(1)[OF core_put_done]) (rule refl)

lemma put_locked_refines:
  assumes "core_ok ev most count w" "hm_get (kw_conns w) c = Some k" "ob_up (kc_out k)"
    and hash: "kp_flags p AND KV_PUT_DELETE = 0 \<Longrightarrow> hash = ev_hash ev (kp_value p)"
    and spec: "cas_spec ev now p (abs_store (kw_entries w)) = ((st, h, t), m)"
  shows "abs_store (kw_entries (put_locked ev now c nonce p hash w)) = m"
    and "kp_flags p AND KV_PUT_DURABLE = 0 \<Longrightarrow> answered c (msg_kv_done nonce st h t) w (put_locked ev now c nonce p hash w)"
proof -
  let ?e = "kw_entries w" and ?key = "kp_key p" and ?w' = "put_locked ev now c nonce p hash w"
  have inv: "bt_inv ?e" and tot: "kw_total_bytes w = bytes_total ?e"
    and ok: "\<And>key e. bt_get ?e key = Some e \<Longrightarrow> entry_ok ev key e"
    using assms(1) by (simp_all add: core_ok_def store_ok_def)
  have cur: "(case bt_get ?e ?key of Some e \<Rightarrow> en_hash e | None \<Rightarrow> 0) = (case abs_store ?e ?key of None \<Rightarrow> 0 | Some v \<Rightarrow> ev_hash ev v)"
    using ok by (auto simp: abs_store_def entry_ok_def split: option.split)
  have none: "bt_get ?e ?key = None \<longleftrightarrow> abs_store ?e ?key = None" by (simp add: abs_store_def)
  have keys: "length (bt_keys ?e) = card (dom (abs_store ?e))" unfolding conjunct2[OF dom_abs[OF inv]] by (simp add: bt_keys_def)
  have old: "(case bt_get ?e ?key of Some e \<Rightarrow> length ?key + length (en_value e) | None \<Rightarrow> 0) = key_bytes ?e ?key"
    by (simp add: key_bytes_def)
  define new where "new = \<lparr>en_value = kp_value p, en_hash = hash, en_mtime_ns = now\<rparr>"
  have abs_ins: "abs_store (bt_insert ?key new ?e) = (abs_store ?e)(?key \<mapsto> kp_value p)"
    by (rule ext) (simp add: abs_store_def bt.lookup_insert inv new_def)
  have abs_rem: "abs_store (bt_remove ?key ?e) = (abs_store ?e)(?key := None)"
    by (rule ext) (simp add: abs_store_def bt.lookup_delete inv)
  have "weight ((abs_store ?e)(?key \<mapsto> kp_value p)) = bytes_total (bt_insert ?key new ?e)"
    using weight_abs[of "bt_insert ?key new ?e"] inv by (simp add: abs_ins bt.inv_insert)
  then have w: "weight ((abs_store ?e)(?key \<mapsto> kp_value p)) = kw_total_bytes w - key_bytes ?e ?key + (length ?key + length (kp_value p))"
    using bytes_total_insert[OF inv, of ?key new] key_bytes_le[OF inv, of ?key] tot by (simp add: entry_bytes_def new_def)
  have swap: "w\<lparr>kw_total_bytes := x, kw_entries := e\<rparr> = w\<lparr>kw_entries := e, kw_total_bytes := x\<rparr>" for x e by simp
  define h0 where "h0 = (case abs_store ?e ?key of None \<Rightarrow> 0 | Some v \<Rightarrow> ev_hash ev v)"
  define full where "full = (abs_store ?e ?key = None \<and> card (dom (abs_store ?e)) \<ge> cfg_max_entries (ev_cfg ev))"
  define big where "big = weight ((abs_store ?e)(?key \<mapsto> kp_value p))"
  define dur where "dur = (kp_flags p AND KV_PUT_DURABLE \<noteq> 0)"
  have eq: "?w' = (if kp_flags p AND KV_PUT_NO_CAS = 0 \<and> kp_base p \<noteq> h0 then put_done c nonce KV_STATUS_CONFLICT h0 0 w
      else if kp_flags p AND KV_PUT_DELETE \<noteq> 0 then
        (case bt_get ?e ?key of Some removed \<Rightarrow> put_finish ev c nonce dur ?key None 0 0
              (w\<lparr>kw_entries := bt_remove ?key ?e, kw_total_bytes := kw_total_bytes w - (length ?key + length (en_value removed))\<rparr>)
         | None \<Rightarrow> put_done c nonce KV_STATUS_OK 0 0 w)
      else if full \<or> big > cfg_total_max (ev_cfg ev) then put_done c nonce KV_STATUS_BUDGET 0 0 w
      else put_finish ev c nonce dur ?key (Some (kp_value p, now)) hash now
        (w\<lparr>kw_entries := bt_insert ?key new ?e, kw_total_bytes := big\<rparr>))"
    unfolding put_locked_def Let_def cur none keys old swap new_def[symmetric] h0_def[symmetric] full_def[symmetric] dur_def[symmetric]
      w[folded big_def, symmetric]
    by (cases "kp_flags p AND KV_PUT_NO_CAS = 0"; cases "kp_base p = h0"; cases full) simp_all
  have spec': "(if kp_flags p AND KV_PUT_NO_CAS = 0 \<and> kp_base p \<noteq> h0 then ((KV_STATUS_CONFLICT, h0, 0), abs_store ?e)
      else if kp_flags p AND KV_PUT_DELETE \<noteq> 0 then ((KV_STATUS_OK, 0, 0), (abs_store ?e)(?key := None))
      else if full \<or> big > cfg_total_max (ev_cfg ev) then ((KV_STATUS_BUDGET, 0, 0), abs_store ?e)
      else ((KV_STATUS_OK, ev_hash ev (kp_value p), now), (abs_store ?e)(?key \<mapsto> kp_value p))) = ((st, h, t), m)"
    using spec unfolding cas_spec_def Let_def h0_def[symmetric] full_def[symmetric] big_def[symmetric] .
  have gone: "bt_get ?e ?key = None \<Longrightarrow> (abs_store ?e)(?key := None) = abs_store ?e" using none by (simp add: fun_upd_idem)
  note fin = put_finish_store(1) answered_put_finish[OF assms(2,3)] answered_put_done[OF assms(2,3)]
  show "abs_store (kw_entries ?w') = m"
    using spec' unfolding eq
    by (cases "bt_get ?e ?key") (auto simp: put_finish_store(1) abs_ins abs_rem gone split: if_splits)
  show "answered c (msg_kv_done nonce st h t) w ?w'" if "kp_flags p AND KV_PUT_DURABLE = 0"
    using spec' hash that unfolding eq
    by (cases "bt_get ?e ?key") (auto simp: dur_def fin split: if_splits)
qed

text \<open>A put as it comes over the wire: what the checks before the lock let through.\<close>

definition put_ok :: "'d kv_env \<Rightarrow> kv_put \<Rightarrow> bool" where
  "put_ok ev p \<longleftrightarrow> kv_key_valid (kp_key p) \<and> utf8_valid (kp_key p) \<and> kp_flags p AND NOT KV_PUT_KNOWN = 0
     \<and> length (kp_value p) \<le> cfg_value_max (ev_cfg ev)
     \<and> (kp_flags p AND KV_PUT_DELETE \<noteq> 0 \<longrightarrow> kp_value p = [] \<and> (kp_flags p AND KV_PUT_NO_CAS \<noteq> 0 \<or> kp_base p \<noteq> 0))"

lemma put_request_locked:
  assumes "lz4_ok ev" "config_ok ev" "put_ok ev p"
    and "kp_flags p AND KV_PUT_DURABLE \<noteq> 0 \<Longrightarrow> pending_puts w c < cfg_max_inflight (ev_cfg ev)"
  shows "put_request ev now c (msg_kv_put (ev_compress ev) p) w = put_locked ev now c (kp_nonce p) p
    (if kp_flags p AND KV_PUT_DELETE \<noteq> 0 then 0 else ev_hash ev (kp_value p)) w"
proof -
  have len: "length (kp_key p) < 65536" using assms(3) by (simp add: put_ok_def kv_key_valid_def KV_MAX_KEY_def)
  have v: "length (kp_value p) \<le> MAX_DECOMPRESSED" "length (kp_value p) \<le> cfg_value_max (ev_cfg ev)"
    using assms(2,3) by (simp_all add: put_ok_def config_ok_def)
  have lz: "lz4_contract (ev_compress ev) (ev_decompress ev)" using assms(1) by (simp add: lz4_ok_def)
  have u: "utf8_valid (kp_key p)" using assms(3) by (simp add: put_ok_def)
  have p: "parse_kv_put (ev_decompress ev) (msg_kv_put (ev_compress ev) p) = Some p"
    "kv_put_declared_value_len (msg_kv_put (ev_compress ev) p) = Some (length (kp_value p))"
    by (rule parse_kv_put_msg[OF lz u len v(1)], rule kv_put_declared_value_len_msg[OF lz len v(1)])
  have n: "nonce_of (msg_kv_put (ev_compress ev) p) = kp_nonce p"
  proof -
    have "3 \<le> length (msg_kv_put (ev_compress ev) p)" "kp_nonce p = rdw 2 (msg_kv_put (ev_compress ev) p) 1"
      using p(1) by (auto simp: parse_kv_put_def Let_def simp del: One_nat_def split: if_splits option.splits)
        (metis kv_put.select_convs(1))
    then show ?thesis by (simp add: nonce_of_def)
  qed
  show ?thesis
    unfolding put_request_def Let_def p n option.case
    using assms(3,4) v(2) by (auto simp: put_ok_def)
qed

end
