(* ===== verification/Kv_Restart.thy ===== *)
theory Kv_Restart
  imports Kv_Durable
begin

text \<open>
  Stopping and reopening.  The transactions of a run are logged with the answer the database gave; what the
  database promises of them is a relation between that log and the rows found when it is opened again; and
  the entries in memory are the rows of the log with the jobs not yet committed applied on top, whether the
  transactions succeeded or not.
\<close>

subsection \<open>Row operations\<close>

definition apply_ops :: "(bytes \<times> bytes option) list \<Rightarrow> (bytes \<Rightarrow> bytes option) \<Rightarrow> bytes \<Rightarrow> bytes option" where
  "apply_ops ops m = fold (\<lambda>(key, raw) m. m(key := raw)) ops m"

lemma apply_ops_snoc: "apply_ops (ops @ [(key, raw)]) m = (apply_ops ops m)(key := raw)"
  by (simp add: apply_ops_def)

lemma apply_ops_other: "key \<notin> fst ` set ops \<Longrightarrow> apply_ops ops m key = m key"
  by (induction ops arbitrary: m) (auto simp: apply_ops_def)

subsection \<open>The log of transactions\<close>

text \<open>
  One turn of \<open>writer_loop\<close> at the database: whether the transaction asks for \<open>Durability::Immediate\<close>, its
  inserts and removes in order, and whether \<open>commit\<close> returned \<open>Ok\<close>.
\<close>

record transaction =
  tx_durable :: bool
  tx_ops :: "(bytes \<times> bytes option) list"
  tx_ok :: bool

definition transaction_of :: "'d kv_env \<Rightarrow> write_job list \<Rightarrow> 'd \<Rightarrow> transaction" where
  "transaction_of ev batch db = (let durable = list_ex (\<lambda>j. wj_reply j \<noteq> None) batch in
     \<lparr>tx_durable = durable, tx_ops = map job_op batch, tx_ok = (ev_commit ev durable (map job_op batch) db \<noteq> None)\<rparr>)"

definition in_commit :: "'d kv_world \<Rightarrow> write_job list option" where
  "in_commit w = (case kw_phase w of Writing batch \<Rightarrow> Some batch | _ \<Rightarrow> None)"

text \<open>The runs of the store from \<open>w0\<close>, with the transactions they have put to the database.\<close>

inductive kv_log :: "'d kv_env \<Rightarrow> 'd kv_world \<Rightarrow> transaction list \<Rightarrow> 'd kv_world \<Rightarrow> bool" for ev w0 where
  start: "kv_log ev w0 [] w0"
| commit: "kv_log ev w0 h w \<Longrightarrow> kw_phase w = Writing batch \<Longrightarrow>
    kv_log ev w0 (h @ [transaction_of ev batch (kw_db w)]) (writer_commit ev w)"
| other: "kv_log ev w0 h w \<Longrightarrow> kv_step ev w w' \<Longrightarrow> in_commit w = None \<or> in_commit w' = in_commit w \<Longrightarrow>
    kv_log ev w0 h w'"

lemma kv_log_reach: "kv_log ev w0 h w \<Longrightarrow> kv_reach ev w0 w"
  by (induction rule: kv_log.induct) (auto intro: kv_reach_step kv_step.writer_commit)

lemma in_commit_core: "co_phase (store_core v) = co_phase (store_core w) \<Longrightarrow> in_commit v = in_commit w"
  by (simp add: store_core_def in_commit_def)

lemma in_commit_same: "store_core v = store_core w \<Longrightarrow> in_commit v = in_commit w"
  by (rule in_commit_core) simp

lemmas in_commit_simps = in_commit_same[OF core_set_conn] in_commit_same[OF core_put_done]
  in_commit_same[OF core_open_register] in_commit_same[OF core_open_chunk] in_commit_same[OF core_open_finish]
  in_commit_same[OF core_stop_request] in_commit_same[OF core_ack_request] in_commit_same[OF core_fetch_request]
  in_commit_same[OF core_refuse] in_commit_same[OF core_hang_up] in_commit_same[OF core_disconnect]

lemma in_commit_put_finish: "in_commit (put_finish ev c nonce durable key x h mt v) = in_commit v"
  by (rule in_commit_core) (unfold core_put_finish, simp add: store_core_def)

lemma in_commit_put_locked: "in_commit (put_locked ev now c nonce put h w) = in_commit w"
proof -
  have "in_commit (w\<lparr>kw_entries := m, kw_total_bytes := t\<rparr>) = in_commit w"
    "in_commit (w\<lparr>kw_total_bytes := t, kw_entries := m\<rparr>) = in_commit w" for m t by (simp_all add: in_commit_def)
  then show ?thesis
    by (simp add: put_locked_def Let_def in_commit_put_finish in_commit_simps split: option.split)
qed

lemma in_commit_put: "in_commit (put_request ev now c data w) = in_commit w"
  by (cases rule: put_request_cases[of ev now c data w]) (simp_all add: in_commit_put_locked in_commit_simps)

lemma in_commit_kept:
  assumes "kv_step ev w w'"
  shows "w' = writer_commit ev w \<or> in_commit w = None \<or> in_commit w' = in_commit w"
  using assms
proof (cases rule: kv_step.cases)
  case connect
  then show ?thesis by (simp add: kv_connect_def Let_def in_commit_simps) (simp add: in_commit_def)
next
  case (message c data now)
  have "in_commit (open_request ev c data w) = in_commit w"
    using core_open_request[of ev c data w] by (auto simp: in_commit_def store_core_def)
  then show ?thesis
    by (simp add: message handle_kv_message_def Let_def in_commit_put in_commit_simps)
next
  case writer_take
  then show ?thesis by (simp add: writer_take_def in_commit_def)
next
  case writer_reply
  then show ?thesis by (cases "kw_phase w") (simp_all add: writer_reply_def in_commit_def)
next
  case writer_echo
  then show ?thesis by (cases "kw_phase w") (simp_all add: writer_echo_def in_commit_def)
qed (simp_all add: in_commit_simps)

text \<open>Every run has its log.\<close>

lemma kv_reach_log: "kv_reach ev w0 w \<Longrightarrow> \<exists>h. kv_log ev w0 h w"
proof (induction rule: kv_reach_induct)
  case start
  show ?case using kv_log.start by blast
next
  case (step v v')
  then obtain h where h: "kv_log ev w0 h v" by blast
  show ?case
  proof (cases "in_commit v = None \<or> in_commit v' = in_commit v")
    case True
    then show ?thesis using kv_log.other[OF h step(2)] by blast
  next
    case False
    then obtain batch where "kw_phase v = Writing batch" by (cases "kw_phase v") (simp_all add: in_commit_def)
    then show ?thesis using False in_commit_kept[OF step(2)] kv_log.commit[OF h] by blast
  qed
qed

subsection \<open>What the database keeps\<close>

text \<open>
  What the code relies on of the database, as its documentation states it: a transaction is applied whole or
  not at all, in the order of the commits; one whose \<open>commit\<close> returned an error may have been rolled back;
  a crash may take away the newest transactions, but none that precedes or is a successful commit with
  \<open>Durability::Immediate\<close>.  \<open>survives h base found\<close>: a database holding \<open>base\<close> that was given the
  transactions \<open>h\<close> may be found with the rows \<open>found\<close>.
\<close>

definition hard :: "transaction \<Rightarrow> bool" where
  "hard t \<longleftrightarrow> tx_durable t \<and> tx_ok t"

inductive survives :: "transaction list \<Rightarrow> (bytes \<Rightarrow> bytes option) \<Rightarrow> (bytes \<Rightarrow> bytes option) \<Rightarrow> bool" where
  lost: "\<not> list_ex hard h \<Longrightarrow> survives h base base"
| kept: "survives h (apply_ops (tx_ops t) base) found \<Longrightarrow> survives (t # h) base found"
| rolled_back: "\<not> tx_ok t \<Longrightarrow> survives h base found \<Longrightarrow> survives (t # h) base found"

inductive_cases survives_ConsE: "survives (t # h) base found"

text \<open>
  The last transaction that writes a key succeeded, and it or a later one was a successful \<open>Immediate\<close> one;
  or no transaction writes it.
\<close>

definition touches :: "bytes \<Rightarrow> transaction \<Rightarrow> bool" where
  "touches key t \<longleftrightarrow> key \<in> fst ` set (tx_ops t)"

primrec hardened :: "bytes \<Rightarrow> transaction list \<Rightarrow> bool" where
  "hardened key [] \<longleftrightarrow> True"
| "hardened key (t # h) \<longleftrightarrow> (if list_ex (touches key) h then hardened key h
     else touches key t \<longrightarrow> tx_ok t \<and> list_ex hard (t # h))"

definition logged_rows :: "transaction list \<Rightarrow> (bytes \<Rightarrow> bytes option) \<Rightarrow> bytes \<Rightarrow> bytes option" where
  "logged_rows h base = fold (\<lambda>t. apply_ops (tx_ops t)) h base"

lemma apply_ops_touched: "key \<in> fst ` set ops \<Longrightarrow> apply_ops ops m key = apply_ops ops m' key"
proof (induction ops rule: rev_induct)
  case (snoc x ops)
  then show ?case by (cases x) (auto simp: apply_ops_snoc)
qed simp

lemma apply_ops_cong: "m key = m' key \<Longrightarrow> apply_ops ops m key = apply_ops ops m' key"
  by (cases "key \<in> fst ` set ops") (simp_all add: apply_ops_other apply_ops_touched[of key ops m m'])

lemma logged_rows_cong: "m key = m' key \<or> list_ex (touches key) h \<Longrightarrow> logged_rows h m key = logged_rows h m' key"
proof (induction h arbitrary: m m')
  case (Cons t h)
  have "apply_ops (tx_ops t) m key = apply_ops (tx_ops t) m' key \<or> list_ex (touches key) h"
    using Cons.prems apply_ops_cong[of m key m' "tx_ops t"] apply_ops_touched[of key "tx_ops t" m m']
    by (cases "list_ex (touches key) h") (auto simp: touches_def[of key t])
  then show ?case using Cons.IH by (simp add: logged_rows_def)
qed (simp add: logged_rows_def)

lemma logged_rows_untouched: "\<not> list_ex (touches key) h \<Longrightarrow> logged_rows h m key = m key"
  by (induction h arbitrary: m) (auto simp: logged_rows_def touches_def apply_ops_other)

lemma hardened_hard: "hardened key h \<Longrightarrow> list_ex (touches key) h \<Longrightarrow> list_ex hard h"
  by (induction h) (auto split: if_splits)

lemma hardened_untouched: "\<not> list_ex (touches key) h \<Longrightarrow> hardened key h"
  by (induction h) auto

lemma survives_hardened: "survives h base found \<Longrightarrow> hardened key h \<Longrightarrow> found key = logged_rows h base key"
proof (induction h base found rule: survives.induct)
  case (lost h base)
  then show ?case using hardened_hard logged_rows_untouched by metis
next
  case (kept h t base found)
  have "hardened key h"
    using kept.prems by (cases "list_ex (touches key) h") (simp_all add: hardened_untouched)
  then show ?case using kept.IH by (simp add: logged_rows_def)
next
  case (rolled_back t h base found)
  have h: "hardened key h"
    using rolled_back.prems by (cases "list_ex (touches key) h") (simp_all add: hardened_untouched)
  have "list_ex (touches key) h \<or> \<not> touches key t" using rolled_back.prems rolled_back.hyps(1) by (auto split: if_splits)
  then have "base key = apply_ops (tx_ops t) base key \<or> list_ex (touches key) h"
    by (auto simp: touches_def apply_ops_other)
  then show ?case
    using rolled_back.IH[OF h] logged_rows_cong[of base key "apply_ops (tx_ops t) base" h] by (simp add: logged_rows_def)
qed

text \<open>A successful durable transaction hardens what was committed before it.\<close>

lemma hardened_snoc:
  "hard t \<Longrightarrow> list_all (\<lambda>u. touches key u \<longrightarrow> tx_ok u) h \<Longrightarrow> hardened key (h @ [t])"
  by (induction h) (auto simp: hard_def)

subsection \<open>The queue and the rows\<close>

definition uncommitted :: "'d kv_world \<Rightarrow> write_job list" where
  "uncommitted w = (case kw_phase w of Writing batch \<Rightarrow> batch | _ \<Rightarrow> []) @ kw_queue w"

definition row_view :: "(bytes \<Rightarrow> bytes option) \<Rightarrow> bytes \<Rightarrow> (u64 \<times> bytes) option" where
  "row_view m key = Option.bind (m key) decode_row"

definition entry_view :: "(bytes, store_entry) btree_map \<Rightarrow> bytes \<Rightarrow> (u64 \<times> bytes) option" where
  "entry_view m key = map_option (\<lambda>e. (en_mtime_ns e, en_value e)) (bt_get m key)"

definition written_behind :: "(bytes \<Rightarrow> bytes option) \<Rightarrow> 'd kv_world \<Rightarrow> bool" where
  "written_behind base w \<longleftrightarrow> bt_inv (kw_entries w) \<and> (kw_writer w \<longrightarrow> kw_receiver w \<and>
     row_view (apply_ops (map job_op (uncommitted w)) base) = entry_view (kw_entries w))"

lemma decode_row_encode: "decode_row (wle 8 (t :: u64) @ v) = Some (t, v)"
  using rdw_head[of 8 t v] by (simp add: decode_row_def)

lemma row_view_put: "row_view (m(key := map_option (\<lambda>(v, t). wle 8 (t :: u64) @ v) x))
    = (row_view m)(key := map_option (\<lambda>(v, t). (t, v)) x)"
  by (cases x) (auto simp: row_view_def decode_row_encode fun_eq_iff)

lemma written_behind_same: "store_core w' = store_core w \<Longrightarrow> written_behind base w' \<longleftrightarrow> written_behind base w"
  by (simp add: written_behind_def store_core_def uncommitted_def)

lemma written_behind_phase:
  assumes "\<And>b. kw_phase w \<noteq> Writing b" "\<And>b. ph \<noteq> Writing b"
  shows "written_behind base (w\<lparr>kw_phase := ph\<rparr>) \<longleftrightarrow> written_behind base w"
proof -
  have "(case ph of Writing batch \<Rightarrow> batch | _ \<Rightarrow> []) = []" "(case kw_phase w of Writing batch \<Rightarrow> batch | _ \<Rightarrow> []) = []"
    using assms by (auto split: writer_phase.split)
  then show ?thesis by (simp add: written_behind_def uncommitted_def)
qed

lemmas written_kept = written_behind_same[OF core_set_conn] written_behind_same[OF core_send_to]
  written_behind_same[OF core_put_done] written_behind_same[OF core_drop_reply] written_behind_same[OF core_broadcast]
  written_behind_same[OF core_open_register] written_behind_same[OF core_open_chunk] written_behind_same[OF core_open_finish]
  written_behind_same[OF core_stop_request] written_behind_same[OF core_ack_request]
  written_behind_same[OF core_fetch_request] written_behind_same[OF core_refuse]
  written_behind_same[OF core_hang_up] written_behind_same[OF core_disconnect]

text \<open>A mutation of the map with its job.\<close>

lemma written_behind_put_finish:
  assumes "written_behind base w" "bt_inv m'"
    and "entry_view m' = (entry_view (kw_entries w))(key := map_option (\<lambda>(v, t). (t, v)) x)"
  shows "written_behind base (put_finish ev c nonce durable key x hash mt (w\<lparr>kw_entries := m', kw_total_bytes := t\<rparr>))"
    (is "written_behind base (put_finish _ _ _ _ _ _ _ _ ?w)")
proof -
  define w' where "w' = put_finish ev c nonce durable key x hash mt ?w"
  define r where "r = (if durable then Some \<lparr>dr_conn = c, dr_nonce = nonce, dr_hash = hash, dr_mtime_ns = mt\<rparr> else None)"
  have co: "store_core w' = (if kw_writer w \<and> kw_receiver w
     then (store_core ?w)\<lparr>co_queue := kw_queue w @ [\<lparr>wj_key = key, wj_value = x, wj_reply = r\<rparr>]\<rparr>
     else if kw_writer w then (store_core ?w)\<lparr>co_writer := False\<rparr> else store_core ?w)"
    using core_put_finish[of ev c nonce durable key x hash mt ?w] by (simp add: w'_def flip: r_def)
  show ?thesis
  proof (cases "kw_writer w")
    case True
    then have live: "kw_receiver w" and view:
        "row_view (apply_ops (map job_op (uncommitted w)) base) = entry_view (kw_entries w)"
      using assms(1) by (simp_all add: written_behind_def)
    have f: "kw_entries w' = m'" "kw_writer w'" "kw_receiver w'" "kw_phase w' = kw_phase w"
      "kw_queue w' = kw_queue w @ [\<lparr>wj_key = key, wj_value = x, wj_reply = r\<rparr>]"
      using co True live by (simp_all add: store_core_def)
    have "map job_op (uncommitted w') = map job_op (uncommitted w) @ [(key, map_option (\<lambda>(v, t). wle 8 t @ v) x)]"
      using f by (simp add: uncommitted_def job_op_def)
    then have "row_view (apply_ops (map job_op (uncommitted w')) base) = entry_view (kw_entries w')"
      using f view assms(3) by (simp add: apply_ops_snoc row_view_put)
    then show ?thesis using f assms(1,2) by (simp add: written_behind_def flip: w'_def)
  next
    case False
    then have "\<not> kw_writer w'" "kw_entries w' = m'" using co by (simp_all add: store_core_def)
    then show ?thesis using assms(1,2) by (simp add: written_behind_def flip: w'_def)
  qed
qed

lemma written_behind_put:
  assumes "written_behind base w"
  shows "written_behind base (put_locked ev now c nonce put hash w)"
proof -
  let ?m = "kw_entries w" and ?key = "kp_key put"
  have m: "bt_inv ?m" using assms by (simp add: written_behind_def)
  have rem: "written_behind base (put_finish ev c nonce durable ?key None h mt
      (w\<lparr>kw_entries := bt_remove ?key ?m, kw_total_bytes := t\<rparr>))" for durable h mt t
    using m by (intro written_behind_put_finish[OF assms])
      (auto simp: bt.inv_delete entry_view_def bt.lookup_delete fun_eq_iff)
  have ins: "written_behind base (put_finish ev c nonce durable ?key (Some (kp_value put, now)) hash now
      (w\<lparr>kw_entries := bt_insert ?key \<lparr>en_value = kp_value put, en_hash = hash, en_mtime_ns = now\<rparr> ?m, kw_total_bytes := t\<rparr>))"
    for durable t
    using m by (intro written_behind_put_finish[OF assms])
      (auto simp: bt.inv_insert entry_view_def bt.lookup_insert fun_eq_iff)
  have swap: "w\<lparr>kw_total_bytes := t, kw_entries := e\<rparr> = w\<lparr>kw_entries := e, kw_total_bytes := t\<rparr>" for t e by simp
  show ?thesis
    unfolding put_locked_def Let_def swap
    by (cases "bt_get ?m ?key") (simp_all add: assms written_kept rem ins)
qed

lemma written_behind_other:
  assumes "kv_step ev w w'" "written_behind base w" "in_commit w = None \<or> in_commit w' = in_commit w"
  shows "written_behind base w'"
  using assms(1)
proof (cases rule: kv_step.cases)
  case connect
  then show ?thesis using assms(2)
    by (simp add: kv_connect_def Let_def written_kept) (simp add: written_behind_def uncommitted_def)
next
  case (message c data now)
  have "written_behind base (put_request ev now c data w)"
    by (cases rule: put_request_cases[of ev now c data w]) (simp_all add: assms(2) written_kept written_behind_put)
  moreover have "written_behind base (open_request ev c data w)"
    using core_open_request[of ev c data w] assms(2) by (auto simp: written_behind_def store_core_def uncommitted_def)
  ultimately show ?thesis
    using assms(2) by (simp add: message handle_kv_message_def Let_def written_kept)
next
  case writer_take
  then show ?thesis using assms(2) by (auto simp: writer_take_def written_behind_def uncommitted_def)
next
  case writer_commit
  have "w' = w"
    using assms(3) by (cases "kw_phase w")
      (auto simp: writer_commit writer_commit_def in_commit_def Let_def split: option.splits)
  then show ?thesis using assms(2) by simp
next
  case writer_reply
  have "written_behind base (w\<lparr>kw_phase := ph\<rparr>)" if "kw_phase w = Replying ok b" "\<And>b. ph \<noteq> Writing b" for ok b ph
    using assms(2) that by (subst written_behind_phase) simp_all
  then show ?thesis
    by (simp add: writer_reply writer_reply_def Let_def written_kept assms(2)
      split: writer_phase.split list.split option.split)
next
  case writer_echo
  have "written_behind base (w\<lparr>kw_phase := ph\<rparr>)" if "kw_phase w = Echoing ok key r b" "\<And>b. ph \<noteq> Writing b" for ok key r b ph
    using assms(2) that by (subst written_behind_phase) simp_all
  then show ?thesis
    by (simp add: writer_echo writer_echo_def written_kept assms(2) split: writer_phase.split)
qed (simp_all add: assms(2) written_kept)

text \<open>A transaction moves its jobs from the queue to the log, whatever the database answers.\<close>

lemma written_behind_commit:
  assumes "kw_phase w = Writing batch" "written_behind base w"
  shows "written_behind (apply_ops (map job_op batch) base) (writer_commit ev w)"
proof -
  have "apply_ops (map job_op (kw_queue w)) (apply_ops (map job_op batch) base) = apply_ops (map job_op (uncommitted w)) base"
    using assms(1) by (simp add: apply_ops_def uncommitted_def)
  then show ?thesis using assms
    by (auto simp: writer_commit_def Let_def written_behind_def uncommitted_def split: option.split)
qed

lemma written_behind_boot:
  assumes "kv_boot ev rows w"
  shows "written_behind (map_of (rows (kw_db w))) w"
proof -
  obtain db loads spawned where r: "rows_ok ev (rows db)"
      and w: "w = store_open (ev_hash ev) db (if loads then Some (rows db) else None) spawned"
    using assms by (auto simp: kv_boot_def)
  have d: "distinct (map fst (rows db))" using r by (simp add: rows_ok_def)
  show ?thesis
  proof (cases loads)
    case False
    then show ?thesis by (simp add: w store_open_def store_empty_def written_behind_def)
  next
    case True
    have e: "kw_entries w = loaded_entries (ev_hash ev) (rows db)" using store_open_entries True w by simp
    have "entry_view (loaded_entries (ev_hash ev) (rows db)) = row_view (map_of (rows db))"
    proof
      fix key
      show "entry_view (loaded_entries (ev_hash ev) (rows db)) key = row_view (map_of (rows db)) key"
      proof (cases "Option.bind (map_of (rows db) key) decode_row")
        case None
        then show ?thesis
          by (auto simp: entry_view_def row_view_def loaded_entries_get(2)[OF d] bind_eq_None_conv split: Option.bind_split)
      next
        case (Some r)
        then show ?thesis
          by (cases r) (auto simp: entry_view_def row_view_def loaded_entries_get(2)[OF d] bind_eq_Some_conv entry_of_row_def)
      qed
    qed
    moreover have "kw_db w = db" "uncommitted w = []" "kw_receiver w = kw_writer w"
      using True by (auto simp: w store_open_def store_empty_def uncommitted_def split: prod.split)
    ultimately show ?thesis
      using e loaded_entries_get(1)[OF d] by (simp add: written_behind_def apply_ops_def)
  qed
qed

lemma written_behind_log:
  assumes "kv_log ev w0 h w" "kv_boot ev rows w0"
  shows "written_behind (logged_rows h (map_of (rows (kw_db w0)))) w"
  using assms(1)
proof (induction rule: kv_log.induct)
  case start
  show ?case using written_behind_boot[OF assms(2)] by (simp add: logged_rows_def)
next
  case (commit h w batch)
  then show ?case
    using written_behind_commit[OF commit.hyps(2) commit.IH] by (simp add: logged_rows_def transaction_of_def Let_def)
next
  case (other h w w')
  then show ?case using written_behind_other by blast
qed

text \<open>What a store opened on what survived of a running one holds.\<close>

lemma reopened_entry:
  assumes "kv_log ev w0 h w" "kv_boot ev rows w0" "kw_writer w" "key \<notin> wj_key ` set (uncommitted w)"
    and "survives h (map_of (rows (kw_db w0))) (map_of found)" "hardened key h" "distinct (map fst found)"
  shows "bt_get (loaded_entries (ev_hash ev) found) key = bt_get (kw_entries w) key"
proof -
  let ?base = "logged_rows h (map_of (rows (kw_db w0)))"
  have get: "bt_get (loaded_entries (ev_hash ev) found) key = map_option (entry_of_row (ev_hash ev)) (row_view (map_of found) key)"
    by (simp add: loaded_entries_get(2)[OF assms(7)] row_view_def split: Option.bind_split)
  have "key \<notin> fst ` set (map job_op (uncommitted w))" using assms(4) by (auto simp: job_op_def)
  then have "row_view (apply_ops (map job_op (uncommitted w)) ?base) key = row_view ?base key"
    unfolding row_view_def by (subst apply_ops_other) (assumption, rule refl)
  moreover have "row_view ?base key = row_view (map_of found) key"
    using survives_hardened[OF assms(5,6)] by (simp add: row_view_def)
  ultimately have "row_view (map_of found) key = entry_view (kw_entries w) key"
    using written_behind_log[OF assms(1,2)] assms(3) by (simp add: written_behind_def)
  moreover have "entry_of_row (ev_hash ev) (en_mtime_ns e, en_value e) = e" if "bt_get (kw_entries w) key = Some e" for e
    using core_ok_reach[OF kv_log_reach[OF assms(1)] core_ok_boot[OF assms(2)]] that
    by (simp add: core_ok_def store_ok_def entry_ok_def entry_of_row_def)
  ultimately show ?thesis by (cases "bt_get (kw_entries w) key") (simp_all add: get entry_view_def)
qed

end
