(* ===== verification/Kv_Demo.thy ===== *)
theory Kv_Demo
  imports Kv_Cas Kv_Restart Frame_Properties
begin

text \<open>
  A short run of the store that the witnesses evaluate: an empty database, one connection that opens a
  subscription of every key, receives its snapshot and puts a value, and the writer that commits it.
\<close>

subsection \<open>The environment\<close>

definition kv_demo :: "(bytes \<times> bytes) list kv_env" where
  "kv_demo = \<lparr>ev_cfg = default_kv_config, ev_compress = demo_compress, ev_decompress = demo_decompress,
     ev_hash = (\<lambda>v. word_of_nat (Suc (length v))),
     ev_commit = (\<lambda>durable ops db. Some (fold (\<lambda>(key, raw) db.
       case raw of None \<Rightarrow> AList.delete key db | Some raw \<Rightarrow> AList.update key raw db) ops db))\<rparr>"

lemma kv_demo_fields [simp]:
  "ev_cfg kv_demo = default_kv_config" "ev_compress kv_demo = demo_compress" "ev_decompress kv_demo = demo_decompress"
  "ev_hash kv_demo v = word_of_nat (Suc (length v))"
  by (simp_all add: kv_demo_def)

lemma kv_demo_ok: "lz4_ok kv_demo" "config_ok kv_demo"
  by (simp_all add: lz4_ok_def demo_contract config_ok_def default_kv_config_def SNAPSHOT_CHUNK_def MAX_DECOMPRESSED_def)

subsection \<open>Opening a subscription\<close>

definition kw0 :: "(bytes \<times> bytes) list kv_world" where
  "kw0 = store_open (ev_hash kv_demo) [] (Some []) True"

definition kw1 :: "(bytes \<times> bytes) list kv_world" where "kw1 = kv_connect kw0"
definition kw2 :: "(bytes \<times> bytes) list kv_world" where "kw2 = handle_kv_message kv_demo 5 0 (msg_kv_open 1 0 0 []) kw1"
definition kw3 :: "(bytes \<times> bytes) list kv_world" where "kw3 = open_register 0 kw2"
definition kw4 :: "(bytes \<times> bytes) list kv_world" where "kw4 = open_chunk kv_demo 0 kw3"
definition kw5 :: "(bytes \<times> bytes) list kv_world" where "kw5 = open_finish 0 kw4"

definition demo_conn :: "(u16, nat) hash_map \<Rightarrow> bytes list \<Rightarrow> open_task option \<Rightarrow> kv_conn" where
  "demo_conn m frames op = \<lparr>kc_map = m, kc_next_id = 1, kc_pending_puts = 0,
     kc_out = \<lparr>ob_up = True, ob_sent = frames\<rparr>, kc_opening = op\<rparr>"

definition demo_world :: "nat list \<Rightarrow> sub_entry \<Rightarrow> kv_conn \<Rightarrow> (bytes \<times> bytes) list kv_world" where
  "demo_world subs s k = (store_empty [])\<lparr>kw_writer := True, kw_receiver := True, kw_next_conn := 1, kw_next_sub := 1,
     kw_subs := subs, kw_heap := [(0, s)], kw_conns := [(0, k)]\<rparr>"

definition demo_sub :: sub_entry where "demo_sub = sub_new 0 0 [] 0 (16 * 1024 * 1024)"
definition demo_opened :: bytes where "demo_opened = msg_kv_opened 1 0 KV_STATUS_OK []"
definition demo_snapshot :: "u32 \<Rightarrow> bytes" where "demo_snapshot u = msg_kv_update demo_compress 0 u KV_UPDATE_SNAPSHOT_END []"

lemmas kv_eval = Let_def hm_insert_def hm_remove_def hm_get_def hm_keys_def set_conn_def send_to_def ob_send_def

lemmas demo_defs = demo_world_def demo_conn_def store_empty_def demo_sub_def sub_new_def

lemma alloc_id_free:
  assumes "kc_next_id k \<noteq> KV_ID_INVALID" "hm_get (kc_map k) (kc_next_id k) = None"
  shows "alloc_id k = (k\<lparr>kc_next_id := kc_next_id k + 1\<rparr>, Some (kc_next_id k))"
proof -
  have "alloc_id_loop (Suc n) k = (k\<lparr>kc_next_id := kc_next_id k + 1\<rparr>, Some (kc_next_id k))" for n
    using assms by (simp add: Let_def)
  from this[of 65535] show ?thesis by (simp only: alloc_id_def) simp
qed

lemma kw1_eq: "kw1 = (store_empty [])\<lparr>kw_writer := True, kw_receiver := True, kw_next_conn := 1, kw_conns := [(0, kv_conn_new)]\<rparr>"
  by (simp add: kw1_def kw0_def store_open_def store_empty_def kv_connect_def Let_def set_conn_def hm_insert_def)

lemma kw2_eq: "kw2 = demo_world [] demo_sub (demo_conn [] [demo_opened] (Some (Accepted 0)))"
proof -
  have op: "msg_kv_open n f i p ! 0 = C2S_KV_OPEN" for n f i p by (simp add: msg_kv_open_def)
  show ?thesis
    by (simp add: kw2_def kw1_eq handle_kv_message_def kv_eval open_request_def parse_kv_open_msg op sweep_closed_def
      store_empty_def kv_conn_new_def default_kv_config_def alloc_id_free KV_ID_INVALID_def demo_world_def demo_conn_def
      demo_sub_def demo_opened_def)
qed

lemma kw3_eq: "kw3 = demo_world [0] demo_sub (demo_conn [] [demo_opened] (Some (Sending 0 [(KV_UPDATE_SNAPSHOT_END, [])])))"
  by (simp add: kw3_def kw2_eq open_register_def demo_world_def demo_conn_def kv_eval store_empty_def matching_entries_def prefix_range_def)

lemma demo_snapshot_id: "write_at (demo_snapshot u) 3 (wle 4 v) = demo_snapshot v"
  by (simp add: demo_snapshot_def set_update_id)

lemma kw4_eq: "kw4 = demo_world [0] (demo_sub\<lparr>se_update_id := 1, se_unacked := [(1, 12)], se_unacked_bytes := 12\<rparr>)
    (demo_conn [] [demo_opened, demo_snapshot 1] (Some (Sending 0 [])))"
proof -
  have "length (demo_snapshot 0) = 12" by (simp add: demo_snapshot_def length_msg_kv_update demo_compress_def)
  moreover have "msg_kv_update demo_compress 0 0 KV_UPDATE_SNAPSHOT_END [] = demo_snapshot 0" by (simp add: demo_snapshot_def)
  ultimately show ?thesis
    by (simp add: kw4_def kw3_eq open_chunk_def opening_of_def demo_defs kv_eval on_sub_def sub_kv_id_def
      send_chunk_def charge_and_send_def next_update_def demo_snapshot_id set_opening_def)
qed

definition demo_live :: sub_entry where
  "demo_live = demo_sub\<lparr>se_update_id := 1, se_unacked := [(1, 12)], se_unacked_bytes := 12, se_phase := Live\<rparr>"

lemma kw5_eq: "kw5 = demo_world [0] demo_live (demo_conn [(0, 0)] [demo_opened, demo_snapshot 1] None)"
  by (simp add: kw5_def kw4_eq open_finish_def opening_of_def demo_defs kv_eval on_sub_def sub_kv_id_def
    go_live_def sub_is_closed_def demo_live_def)

subsection \<open>A put, and its commit\<close>

definition demo_put :: kv_put where
  "demo_put = \<lparr>kp_nonce = 2, kp_flags = KV_PUT_NO_CAS, kp_base = 0, kp_key = [97], kp_value = [5]\<rparr>"

lemma demo_put_ok: "put_ok kv_demo demo_put" "kp_flags demo_put AND KV_PUT_DURABLE = 0"
proof -
  have "utf8_valid [97]" by code_simp
  then show "put_ok kv_demo demo_put" "kp_flags demo_put AND KV_PUT_DURABLE = 0"
    by (simp_all add: put_ok_def demo_put_def kv_key_valid_def wire_defs KV_PUT_KNOWN_def default_kv_config_def)
qed

definition kw6 :: "(bytes \<times> bytes) list kv_world" where
  "kw6 = handle_kv_message kv_demo 9 0 (msg_kv_put demo_compress demo_put) kw5"

definition demo_entry :: store_entry where
  "demo_entry = \<lparr>en_value = [5], en_hash = 2, en_mtime_ns = 9\<rparr>"

definition demo_echo :: "u32 \<Rightarrow> bytes" where
  "demo_echo u = msg_kv_update demo_compress 0 u 0 (append_kv_record [] (KvUpsert [97] 2 1 9 (Some [5])))"

lemma demo_echo_facts: "length (demo_echo u) = 54" "write_at (demo_echo u) 3 (wle 4 v) = demo_echo v"
  by (simp_all add: demo_echo_def set_update_id length_msg_kv_update demo_compress_def append_kv_record_def kv_framed_def
    kv_record_body_def key_field_def)

lemma demo_broadcast: "broadcast_one demo_compress [97] 0 (w, kept) = (case on_sub 0 (deliver (demo_echo 0)) w of
    (w, alive) \<Rightarrow> (w, if alive then kept @ [0] else kept))"
  if "hm_get (kw_heap w) 0 = Some demo_live" "bt_get (kw_entries w) [97] = Some demo_entry"
proof -
  have k: "key_record (kw_entries w) demo_live [97] = KvUpsert [97] 2 1 9 (Some [5])"
    using that(2) by (simp add: key_record_def snapshot_record_def entry_record_def demo_entry_def inline_limit_def
      demo_live_def demo_sub_def sub_new_def)
  have p: "starts_with [97] (se_prefix demo_live)" "se_kv_id demo_live = 0" by (simp_all add: demo_live_def demo_sub_def sub_new_def)
  show ?thesis
    using that(1) broadcast_frame[where entries = "kw_entries w" and key = "[97]" and s = demo_live and compress = demo_compress]
    by (simp add: broadcast_one_def Let_def p k demo_echo_def)
qed

lemma kw6_eq: "kw6 = (demo_world [0] (demo_live\<lparr>se_update_id := 2, se_unacked := [(1, 12), (2, 54)], se_unacked_bytes := 66\<rparr>)
    (demo_conn [(0, 0)] [demo_opened, demo_snapshot 1, msg_kv_done 2 KV_STATUS_OK 2 9, demo_echo 2] None))
    \<lparr>kw_entries := [([97], demo_entry)], kw_total_bytes := 2, kw_queue := [\<lparr>wj_key = [97], wj_value = Some ([5], 9), wj_reply = None\<rparr>]\<rparr>"
proof -
  define w where "w = (demo_world [0] demo_live (demo_conn [(0, 0)] [demo_opened, demo_snapshot 1, msg_kv_done 2 KV_STATUS_OK 2 9] None))
    \<lparr>kw_entries := [([97], demo_entry)], kw_total_bytes := 2, kw_queue := [\<lparr>wj_key = [97], wj_value = Some ([5], 9), wj_reply = None\<rparr>]\<rparr>"
  have put: "kw6 = put_request kv_demo 9 0 (msg_kv_put demo_compress demo_put) kw5"
    by (simp add: kw6_def handle_kv_message_def msg_kv_put_def wire_defs)
  have "kw6 = put_locked kv_demo 9 0 2 demo_put 2 kw5"
    unfolding put using put_request_locked[OF kv_demo_ok demo_put_ok(1), of kw5 0] demo_put_ok(2)
    by (simp add: demo_put_def wire_defs)
  also have "\<dots> = broadcast demo_compress [97] w"
    by (simp add: put_locked_def kw5_eq demo_put_def wire_defs kv_eval demo_world_def demo_conn_def store_empty_def bt_get_def
      default_kv_config_def put_finish_def enqueue_def put_done_def w_def demo_entry_def bt_keys_def numeral_2_eq_2)
  also have "\<dots> = (case on_sub 0 (deliver (demo_echo 0)) w of (w, alive) \<Rightarrow> w\<lparr>kw_subs := if alive then [0] else []\<rparr>)"
    using demo_broadcast[of w "[]"]
    by (simp add: broadcast_def w_def demo_world_def hm_get_def bt_get_def split: prod.split)
  also have "\<dots> = (demo_world [0] (demo_live\<lparr>se_update_id := 2, se_unacked := [(1, 12), (2, 54)], se_unacked_bytes := 66\<rparr>)
    (demo_conn [(0, 0)] [demo_opened, demo_snapshot 1, msg_kv_done 2 KV_STATUS_OK 2 9, demo_echo 2] None))
    \<lparr>kw_entries := [([97], demo_entry)], kw_total_bytes := 2, kw_queue := [\<lparr>wj_key = [97], wj_value = Some ([5], 9), wj_reply = None\<rparr>]\<rparr>"
    by (simp add: w_def on_sub_def demo_defs kv_eval demo_live_def deliver_def charge_and_send_def demo_echo_facts next_update_def)
  finally show ?thesis .
qed

subsection \<open>The run\<close>

lemma kw0_boot: "kv_boot kv_demo AList.clearjunk kw0"
  unfolding kv_boot_def kw0_def by (intro exI[of _ "[]"] exI[of _ True]) (simp add: rows_ok_def)

lemma kw5_reach: "kv_reach kv_demo kw0 kw5"
proof -
  have "kv_reach kv_demo kw0 kw1" unfolding kw1_def by (intro kv_reach_step[OF kv_reach_refl] kv_step.connect)
  moreover have "kv_step kv_demo kw1 kw2" unfolding kw2_def
    by (rule kv_step.message) (simp_all add: kw1_eq hm_get_def opening_of_def kv_conn_new_def msg_kv_open_def)
  moreover have "kv_step kv_demo kw2 kw3" "kv_step kv_demo kw3 kw4" "kv_step kv_demo kw4 kw5"
    unfolding kw3_def kw4_def kw5_def by (rule kv_step.intros)+
  ultimately show ?thesis using kv_reach_step by blast
qed

lemma kw6_reach: "kv_reach kv_demo kw0 kw6"
proof -
  have "kv_step kv_demo kw5 kw6" unfolding kw6_def
    by (rule kv_step.message) (simp_all add: kw5_eq demo_world_def demo_conn_def hm_get_def opening_of_def msg_kv_put_def)
  then show ?thesis by (rule kv_reach_step[OF kw5_reach])
qed

lemma kw6_conn: "hm_get (kw_conns kw6) 0 = Some (demo_conn [(0, 0)] [demo_opened, demo_snapshot 1, msg_kv_done 2 KV_STATUS_OK 2 9, demo_echo 2] None)"
  "hm_get (kw_heap kw6) 0 = Some (demo_live\<lparr>se_update_id := 2, se_unacked := [(1, 12), (2, 54)], se_unacked_bytes := 66\<rparr>)"
  by (simp_all add: kw6_eq demo_world_def hm_get_def)

subsection \<open>A run with a failing commit\<close>

text \<open>
  A database that refuses every transaction that is not durable.  A put of one key is not durable and its
  transaction fails; a durable put of another key succeeds.
\<close>

definition flaky_demo :: "(bytes \<times> bytes) list kv_env" where
  "flaky_demo = kv_demo\<lparr>ev_commit := (\<lambda>durable ops db. if durable then ev_commit kv_demo durable ops db else None)\<rparr>"

lemma flaky_demo_fields [simp]:
  "ev_cfg flaky_demo = default_kv_config" "ev_compress flaky_demo = demo_compress" "ev_decompress flaky_demo = demo_decompress"
  "ev_hash flaky_demo v = word_of_nat (Suc (length v))"
  by (simp_all add: flaky_demo_def)

lemma flaky_demo_ok: "lz4_ok flaky_demo" "config_ok flaky_demo"
  using kv_demo_ok by (simp_all add: lz4_ok_def config_ok_def)

definition rw_put :: "bytes \<Rightarrow> u8 \<Rightarrow> kv_put" where
  "rw_put key flags = \<lparr>kp_nonce = 2, kp_flags = flags, kp_base = 0, kp_key = key, kp_value = [5]\<rparr>"

definition rw0 :: "(bytes \<times> bytes) list kv_world" where
  "rw0 = store_open (ev_hash flaky_demo) [] (Some []) True"

definition rw1 :: "(bytes \<times> bytes) list kv_world" where "rw1 = kv_connect rw0"
definition rw2 :: "(bytes \<times> bytes) list kv_world" where
  "rw2 = handle_kv_message flaky_demo 9 0 (msg_kv_put demo_compress (rw_put [98] KV_PUT_NO_CAS)) rw1"
definition rw3 :: "(bytes \<times> bytes) list kv_world" where "rw3 = writer_commit flaky_demo (writer_take rw2)"
definition rw4 :: "(bytes \<times> bytes) list kv_world" where "rw4 = writer_reply (writer_reply rw3)"
definition rw5 :: "(bytes \<times> bytes) list kv_world" where
  "rw5 = handle_kv_message flaky_demo 9 0 (msg_kv_put demo_compress (rw_put [97] (KV_PUT_NO_CAS OR KV_PUT_DURABLE))) rw4"
definition rw6 :: "(bytes \<times> bytes) list kv_world" where "rw6 = writer_take rw5"
definition rw7 :: "(bytes \<times> bytes) list kv_world" where "rw7 = writer_commit flaky_demo rw6"

definition demo_log :: "transaction list" where
  "demo_log = [\<lparr>tx_durable = False, tx_ops = [([98], Some (wle 8 (9 :: u64) @ [5]))], tx_ok = False\<rparr>,
     \<lparr>tx_durable = True, tx_ops = [([97], Some (wle 8 (9 :: u64) @ [5]))], tx_ok = True\<rparr>]"

lemma rw0_boot: "kv_boot flaky_demo AList.clearjunk rw0"
  unfolding kv_boot_def rw0_def by (intro exI[of _ "[]"] exI[of _ True]) (simp add: rows_ok_def)

lemma demo_survives: "survives demo_log Map.empty (map_of [([97], wle 8 (9 :: u64) @ [5])])"
  unfolding demo_log_def
  by (intro survives.rolled_back survives.kept) (simp_all add: apply_ops_def survives.lost)

lemma demo_log_hard: "hardened [97] demo_log"
  by (simp add: demo_log_def touches_def hard_def)

lemma rw1_eq: "rw1 = (store_empty [])\<lparr>kw_writer := True, kw_receiver := True, kw_next_conn := 1, kw_conns := [(0, kv_conn_new)]\<rparr>"
  by (simp add: rw1_def rw0_def kv_connect_def store_open_def store_empty_def Let_def set_conn_def hm_insert_def)


lemma rw_put_ok: "put_ok flaky_demo (rw_put [97] flags)" "put_ok flaky_demo (rw_put [98] flags)"
  if "flags AND NOT KV_PUT_KNOWN = 0" "flags AND KV_PUT_DELETE = 0"
proof -
  have "utf8_valid [97]" "utf8_valid [98]" by code_simp+
  then show "put_ok flaky_demo (rw_put [97] flags)" "put_ok flaky_demo (rw_put [98] flags)"
    using that by (simp_all add: put_ok_def rw_put_def kv_key_valid_def wire_defs default_kv_config_def)
qed

definition rw_job :: "bytes \<Rightarrow> durable_reply option \<Rightarrow> write_job" where
  "rw_job key r = \<lparr>wj_key = key, wj_value = Some ([5], 9), wj_reply = r\<rparr>"

definition rw_conn :: "nat \<Rightarrow> kv_conn" where
  "rw_conn n = kv_conn_new\<lparr>kc_pending_puts := n, kc_out := \<lparr>ob_up = True, ob_sent = [msg_kv_done 2 KV_STATUS_OK 2 9]\<rparr>\<rparr>"

definition rw_world :: "(bytes, store_entry) btree_map \<Rightarrow> nat \<Rightarrow> nat \<Rightarrow> (bytes \<times> bytes) list kv_world" where
  "rw_world entries t n = (store_empty [])\<lparr>kw_entries := entries, kw_total_bytes := t,
     kw_writer := True, kw_receiver := True, kw_next_conn := 1, kw_conns := [(0, rw_conn n)]\<rparr>"

lemma rw2_eq: "rw2 = (rw_world [([98], demo_entry)] 2 0)\<lparr>kw_queue := [rw_job [98] None]\<rparr>"
proof -
  have put: "rw2 = put_request flaky_demo 9 0 (msg_kv_put demo_compress (rw_put [98] KV_PUT_NO_CAS)) rw1"
    by (simp add: rw2_def handle_kv_message_def msg_kv_put_def wire_defs)
  have ok: "put_ok flaky_demo (rw_put [98] KV_PUT_NO_CAS)" by (rule rw_put_ok) (simp_all add: KV_PUT_KNOWN_def wire_defs)
  have "rw2 = put_locked flaky_demo 9 0 2 (rw_put [98] KV_PUT_NO_CAS) 2 rw1"
    unfolding put using put_request_locked[OF flaky_demo_ok ok, of rw1 0] by (simp add: rw_put_def wire_defs)
  then show ?thesis
    by (simp add: put_locked_def rw1_eq rw_put_def wire_defs kv_eval store_empty_def bt_get_def default_kv_config_def
      put_finish_def enqueue_def put_done_def broadcast_def demo_entry_def bt_keys_def numeral_2_eq_2 rw_world_def rw_conn_def
      rw_job_def kv_conn_new_def)
qed

lemma rw4_eq: "rw4 = rw_world [([98], demo_entry)] 2 0"
  by (simp add: rw4_def rw3_def rw2_eq writer_take_def writer_commit_def writer_reply_def rw_world_def store_empty_def
    flaky_demo_def rw_job_def Let_def)

lemma rw5_eq: "rw5 = (rw_world [([97], demo_entry), ([98], demo_entry)] 4 1)
    \<lparr>kw_queue := [rw_job [97] (Some \<lparr>dr_conn = 0, dr_nonce = 2, dr_hash = 2, dr_mtime_ns = 9\<rparr>)]\<rparr>"
proof -
  let ?f = "KV_PUT_NO_CAS OR KV_PUT_DURABLE"
  have put: "rw5 = put_request flaky_demo 9 0 (msg_kv_put demo_compress (rw_put [97] ?f)) rw4"
    by (simp add: rw5_def handle_kv_message_def msg_kv_put_def wire_defs)
  have ok: "put_ok flaky_demo (rw_put [97] ?f)" by (rule rw_put_ok) (simp_all add: KV_PUT_KNOWN_def wire_defs)
  have "rw5 = put_locked flaky_demo 9 0 2 (rw_put [97] ?f) 2 rw4"
    unfolding put using put_request_locked[OF flaky_demo_ok ok, of rw4 0]
    by (simp add: rw_put_def wire_defs rw4_eq pending_puts_def rw_world_def rw_conn_def hm_get_def kv_conn_new_def
      default_kv_config_def)
  then show ?thesis
    by (simp add: put_locked_def rw4_eq rw_put_def wire_defs kv_eval store_empty_def bt_get_def default_kv_config_def
      put_finish_def enqueue_def pending_add_def broadcast_def demo_entry_def bt_keys_def rw_world_def rw_conn_def
      rw_job_def kv_conn_new_def)
qed

lemma rw7_fields: "kw_entries rw7 = [([97], demo_entry), ([98], demo_entry)]" "kw_writer rw7" "uncommitted rw7 = []"
  by (simp_all add: rw7_def rw6_def rw5_eq writer_take_def writer_commit_def flaky_demo_def kv_demo_def uncommitted_def
    rw_world_def store_empty_def rw_job_def Let_def)


lemma demo_log_run: "kv_log flaky_demo rw0 demo_log rw7"
proof -
  note in_commit = in_commit_def rw2_eq rw4_eq rw5_eq rw_world_def store_empty_def
  have phase: "kw_phase (writer_take rw2) = Writing [rw_job [98] None]"
    "kw_phase rw6 = Writing [rw_job [97] (Some \<lparr>dr_conn = 0, dr_nonce = 2, dr_hash = 2, dr_mtime_ns = 9\<rparr>)]"
    "kw_phase rw3 = Replying False [rw_job [98] None]"
    by (simp_all add: rw6_def rw5_eq rw3_def rw2_eq writer_take_def writer_commit_def rw_world_def store_empty_def rw_job_def
      flaky_demo_def)
  have put: "kv_step flaky_demo w (handle_kv_message flaky_demo 9 0 (msg_kv_put demo_compress p) w)"
    if "kw_conns w = [(0, k)]" "kc_opening k = None" for w k p
    using that by (intro kv_step.message) (simp_all add: hm_get_def opening_of_def msg_kv_put_def)
  have "kv_log flaky_demo rw0 [] rw1"
    unfolding rw1_def by (rule kv_log.other[OF kv_log.start kv_step.connect])
      (simp add: in_commit_def rw0_def store_open_def store_empty_def)
  then have "kv_log flaky_demo rw0 [] rw2"
    unfolding rw2_def by (rule kv_log.other[OF _ put[where k = kv_conn_new]])
      (simp_all add: rw1_eq in_commit_def store_empty_def kv_conn_new_def)
  then have "kv_log flaky_demo rw0 [] (writer_take rw2)"
    by (rule kv_log.other[OF _ kv_step.writer_take]) (simp add: in_commit)
  from kv_log.commit[OF this phase(1)]
  have "kv_log flaky_demo rw0 [demo_log ! 0] rw3"
    by (simp add: rw3_def demo_log_def transaction_of_def rw_job_def job_op_def flaky_demo_def)
  then have "kv_log flaky_demo rw0 [demo_log ! 0] (writer_reply rw3)"
    by (rule kv_log.other[OF _ kv_step.writer_reply]) (simp add: in_commit_def phase(3))
  then have "kv_log flaky_demo rw0 [demo_log ! 0] rw4"
    unfolding rw4_def by (rule kv_log.other[OF _ kv_step.writer_reply])
      (simp add: in_commit_def phase(3) writer_reply_def rw_job_def)
  then have "kv_log flaky_demo rw0 [demo_log ! 0] rw5"
    unfolding rw5_def by (rule kv_log.other[OF _ put[where k = "rw_conn 0"]])
      (simp_all add: rw4_eq rw_world_def rw_conn_def in_commit_def store_empty_def kv_conn_new_def)
  then have "kv_log flaky_demo rw0 [demo_log ! 0] rw6"
    unfolding rw6_def by (rule kv_log.other[OF _ kv_step.writer_take]) (simp add: in_commit)
  from kv_log.commit[OF this phase(2)] show ?thesis
    by (simp add: rw7_def demo_log_def transaction_of_def rw_job_def job_op_def flaky_demo_def kv_demo_def)
qed


end
