(* ===== verification/Kv_Properties.thy ===== *)
theory Kv_Properties
  imports Kv_Demo
begin

text \<open>
  The properties of the key-value store: its wire format, what a put means, the budgets of every
  reachable state, what a watcher's mirror shows, what a restart finds, and the writer coming to rest.
\<close>

subsection \<open>Wire format\<close>

text \<open>A frame of any records, read from the wire.\<close>

lemma apply_kv_update_payload:
  assumes "lz4_contract compress decompress" "length p \<le> MAX_DECOMPRESSED"
  shows "apply_kv_update decompress (msg_kv_update compress kv_id update_id flags p) m =
    (m\<lparr>km_live := fold apply_kv_record (kv_records p) (km_live m),
       km_snapshot_done := (flags AND KV_UPDATE_SNAPSHOT_END \<noteq> 0) \<or> km_snapshot_done m\<rparr>, Some update_id)"
proof -
  have "rdw 4 (msg_kv_update compress kv_id update_id flags p) 3 = update_id"
    using rdw_at[of "[S2C_KV_UPDATE] @ wle 2 kv_id" 3 4 update_id "[flags] @ compress p"] by (simp add: msg_kv_update_def)
  moreover have "msg_kv_update compress kv_id update_id flags p ! 7 = flags"
    "drop 8 (msg_kv_update compress kv_id update_id flags p) = compress p"
    "msg_kv_update compress kv_id update_id flags p ! 0 = S2C_KV_UPDATE"
    by (simp_all add: msg_kv_update_def nth_append)
  ultimately show ?thesis
    using decompress_guarded_compress[OF assms] by (simp add: apply_kv_update_def length_msg_kv_update Let_def)
qed

text \<open>
  C21.  The key-value messages round trip.  Every message of either direction parses back to the
  fields it was built from.  An update arrives with its subscription, its number and its flags, and is
  applied as its records in order, with records of kinds that came later skipped and up to three stray
  bytes at the end ignored.  Keys are UTF-8 and shorter than 65536 bytes, and compressed contents at most
  \<open>MAX_DECOMPRESSED\<close> bytes.
\<close>

theorem kv_wire_round_trip:
  fixes kv_id :: u16 and update_id :: u32 and flags :: u8
  assumes "lz4_contract compress decompress" and "utf8_valid key" and "length key < 65536"
    and "length v \<le> MAX_DECOMPRESSED" and "list_all kv_frame_ok frames" and "length junk < 4"
    and "length (kv_frames_bytes frames @ junk) \<le> MAX_DECOMPRESSED"
  defines "update \<equiv> msg_kv_update compress kv_id update_id flags (kv_frames_bytes frames @ junk)"
  shows "parse_kv_open (msg_kv_open nonce flags inline_max key) = Some (nonce, flags, inline_max, key)
    \<and> parse_kv_stop (msg_kv_stop kv_id) = Some kv_id
    \<and> parse_kv_ack (msg_kv_ack kv_id update_id) = Some (kv_id, update_id)
    \<and> parse_kv_put decompress (msg_kv_put compress \<lparr>kp_nonce = nonce, kp_flags = flags, kp_base = hash, kp_key = key, kp_value = v\<rparr>)
        = Some \<lparr>kp_nonce = nonce, kp_flags = flags, kp_base = hash, kp_key = key, kp_value = v\<rparr>
    \<and> parse_kv_fetch (msg_kv_fetch nonce key) = Some (nonce, key)
    \<and> parse_kv_opened (msg_kv_opened nonce kv_id status key) = Some (nonce, kv_id, status, key)
    \<and> parse_kv_done (msg_kv_done nonce status hash mtime_ns) = Some (nonce, status, hash, mtime_ns)
    \<and> parse_kv_value decompress (msg_kv_value compress nonce status hash v) = Some (nonce, status, hash, v)
    \<and> parse_kv_closed (msg_kv_closed kv_id status) = Some (kv_id, status)
    \<and> rdw 2 update 1 = kv_id
    \<and> apply_kv_update decompress update m =
        (m\<lparr>km_live := fold apply_kv_record (List.map_filter kv_frame_record frames) (km_live m),
           km_snapshot_done := (flags AND KV_UPDATE_SNAPSHOT_END \<noteq> 0) \<or> km_snapshot_done m\<rparr>, Some update_id)"
  unfolding update_def
  using parse_kv_open_msg[OF assms(2,3)] parse_kv_put_msg[OF assms(1), of "\<lparr>kp_nonce = nonce, kp_flags = flags, kp_base = hash,
      kp_key = key, kp_value = v\<rparr>"] parse_kv_fetch_msg[OF assms(2,3)] parse_kv_opened_msg[OF assms(2,3)]
    parse_kv_value_msg[OF assms(1,4)] kv_records_frames[OF assms(5,6)] apply_kv_update_payload[OF assms(1,7)] assms(2-4)
  by (simp add: parse_kv_stop_msg parse_kv_ack_msg parse_kv_done_msg parse_kv_closed_msg update_kv_id_field[unfolded One_nat_def])

theorem kv_wire_round_trip_witness:
  "parse_kv_open (msg_kv_open 1 1 7 [97]) = Some (1, 1, 7, [97])
    \<and> apply_kv_update demo_decompress (msg_kv_update demo_compress 4 6 1
        (kv_frames_bytes [Known (KvDelete [97]), Unknown 9 [1, 2], Known (KvUpsert [97] 3 1 5 (Some [8]))] @ [0])) kv_mirror_new
      = (kv_mirror_new\<lparr>km_live := fold apply_kv_record [KvDelete [97], KvUpsert [97] 3 1 5 (Some [8])] (km_live kv_mirror_new),
          km_snapshot_done := True\<rparr>, Some 6)"
proof -
  have u: "utf8_valid [97]" by code_simp
  have f: "list_all kv_frame_ok [Known (KvDelete [97]), Unknown 9 [1, 2], Known (KvUpsert [97] 3 1 5 (Some [8]))]"
    using u by (simp add: kv_record_ok_def kv_record_body_def key_field_def wire_defs)
  have n: "length (kv_frames_bytes [Known (KvDelete [97]), Unknown 9 [1, 2], Known (KvUpsert [97] 3 1 5 (Some [8]))] @ [0])
      \<le> MAX_DECOMPRESSED"
    by (simp add: kv_frames_bytes_def kv_framed_def kv_record_body_def key_field_def MAX_DECOMPRESSED_def)
  have flag: "(1 :: u8) AND KV_UPDATE_SNAPSHOT_END \<noteq> 0" by (simp add: KV_UPDATE_SNAPSHOT_END_def)
  show ?thesis
    using kv_wire_round_trip[OF demo_contract u _ _ f _ n, of "[8]" 1 1 7 4 6 0 0 9 kv_mirror_new] flag
    by (simp add: MAX_DECOMPRESSED_def List.map_filter_def)
qed

subsection \<open>Puts\<close>

text \<open>
  C22.  A put is a compare and swap.  A well-formed put that reaches the server does to the map of keys
  to values what the abstract operation says: nothing and \<open>CONFLICT\<close> with the current hash when the base
  is not the current one, a delete, nothing and \<open>BUDGET\<close> when a new key is one too many or the bytes
  would exceed the total, the write otherwise.  A put that is not durable is answered at once with that
  status, hash and time, before any echo reaches the caller.
\<close>

theorem kv_put_is_compare_and_swap:
  assumes "core_ok ev most count w" and "lz4_ok ev" and "config_ok ev" and "put_ok ev p"
    and "hm_get (kw_conns w) c = Some k" and "ob_up (kc_out k)"
    and "kp_flags p AND KV_PUT_DURABLE = 0 \<or> kc_pending_puts k < cfg_max_inflight (ev_cfg ev)"
    and "cas_spec ev now p (abs_store (kw_entries w)) = ((status, hash, mtime_ns), m)"
  shows "abs_store (kw_entries (put_request ev now c (msg_kv_put (ev_compress ev) p) w)) = m
    \<and> (kp_flags p AND KV_PUT_DURABLE = 0 \<longrightarrow> answered c (msg_kv_done (kp_nonce p) status hash mtime_ns) w
        (put_request ev now c (msg_kv_put (ev_compress ev) p) w))"
proof -
  have "kp_flags p AND KV_PUT_DURABLE \<noteq> 0 \<Longrightarrow> pending_puts w c < cfg_max_inflight (ev_cfg ev)"
    using assms(5,7) by (simp add: pending_puts_def)
  note put = put_request_locked[OF assms(2-4) this]
  show ?thesis
    using put_locked_refines[OF assms(1,5,6) _ assms(8)] by (simp add: put)
qed

theorem kv_put_is_compare_and_swap_witness:
  "abs_store (kw_entries (put_request kv_demo 9 0 (msg_kv_put demo_compress demo_put) kw5)) [97] = Some [5]
    \<and> answered 0 (msg_kv_done 2 KV_STATUS_OK 2 9) kw5 (put_request kv_demo 9 0 (msg_kv_put demo_compress demo_put) kw5)"
proof -
  have core: "core_ok kv_demo (kw_total_bytes kw0) (length (kw_entries kw0)) kw5"
    by (rule core_ok_reach[OF kw5_reach core_ok_boot[OF kw0_boot]])
  have conn: "hm_get (kw_conns kw5) 0 = Some (demo_conn [(0, 0)] [demo_opened, demo_snapshot 1] None)"
    by (simp add: kw5_eq demo_world_def hm_get_def)
  have spec: "cas_spec kv_demo 9 demo_put (abs_store (kw_entries kw5)) = ((KV_STATUS_OK, 2, 9), (abs_store (kw_entries kw5))([97] \<mapsto> [5]))"
  proof -
    have none: "abs_store (kw_entries kw5) = (\<lambda>_. None)"
      by (rule ext) (simp add: kw5_eq demo_world_def store_empty_def abs_store_def bt_get_def)
    show ?thesis
      unfolding none by (simp add: cas_spec_def Let_def demo_put_def wire_defs default_kv_config_def weight_def)
  qed
  show ?thesis
    using kv_put_is_compare_and_swap[OF core kv_demo_ok demo_put_ok(1) conn _ _ spec] demo_put_ok(2)
    by (simp add: demo_conn_def) (simp add: demo_put_def)
qed

subsection \<open>Budgets\<close>

text \<open>
  The store stays within its budgets.  In every reachable state the byte counter is the sum over
  the entries, bytes and entries are within the configured totals (or what the database held when it was
  opened), the entries are in key order, and each is within the size limits under the hash of its value.
\<close>

lemma kv_store_budgets:
  assumes "kv_reach ev w0 w" and "kv_boot ev rows w0"
  shows "kw_total_bytes w = bytes_total (kw_entries w)
    \<and> kw_total_bytes w \<le> max (kw_total_bytes w0) (cfg_total_max (ev_cfg ev))
    \<and> length (kw_entries w) \<le> max (length (kw_entries w0)) (cfg_max_entries (ev_cfg ev)) \<and> bt_inv (kw_entries w)
    \<and> (bt_get (kw_entries w) key = Some e \<longrightarrow> en_hash e = ev_hash ev (en_value e) \<and> utf8_valid key
        \<and> length key \<le> KV_MAX_KEY \<and> length (en_value e) \<le> cfg_value_max (ev_cfg ev))"
  using core_ok_reach[OF assms(1) core_ok_boot[OF assms(2)]] by (simp add: core_ok_def store_ok_def entry_ok_def)

lemma kv_store_budgets_example: "kw_total_bytes kw6 = 2 \<and> bytes_total (kw_entries kw6) = 2 \<and> en_hash demo_entry = 2"
  using kv_store_budgets[OF kw6_reach kw0_boot, of "[97]" demo_entry]
  by (simp add: kw6_eq bt_get_def demo_entry_def)

text \<open>
  A subscription's retention window is bounded.  In every reachable state the bytes a subscription
  is charged are those of the updates its client has not acknowledged, within the budget, and these
  updates carry consecutive ids that end with the last one given out.
\<close>

lemma kv_window_bounded:
  assumes "kv_reach ev w0 w" and "kv_boot ev rows w0" and "hm_get (kw_heap w) sid = Some s"
  shows "se_unacked_bytes s = sum_list (map snd (se_unacked s)) \<and> se_unacked_bytes s \<le> cfg_unacked_max (ev_cfg ev)
    \<and> counts_down (se_update_id s) (rev (map fst (se_unacked s)))"
  using windows_reach[OF assms] by (simp add: window_ok_def unacked_total_def)

lemma kv_window_bounded_example:
  "(66 :: nat) = sum_list (map snd [(1 :: u32, 12), (2, 54)]) \<and> counts_down 2 (rev (map fst [(1 :: u32, 12 :: nat), (2, 54)]))
    \<and> se_unacked_bytes (the (hm_get (kw_heap kw6) 0)) = 66"
  using kv_window_bounded[OF kw6_reach kw0_boot kw6_conn(2)] kw6_conn(2) by simp

text \<open>
  Durable puts in flight are counted exactly.  In every reachable state a connection's counter is
  the number of its durable puts that the writer has not finished with, in its queue, its batch or its
  hands, and never above the limit.
\<close>

lemma kv_durable_puts_counted:
  assumes "kv_reach ev w0 w" and "kv_boot ev rows w0" and "hm_get (kw_conns w) c = Some k"
  shows "kc_pending_puts k = replies_of w c \<and> kc_pending_puts k \<le> cfg_max_inflight (ev_cfg ev)"
  using in_flight_reach[OF assms(1,2)] assms(3) by (auto simp: in_flight_ok_def pend_def)

lemma kv_durable_puts_counted_example: "replies_of kw6 0 = 0"
  using kv_durable_puts_counted[OF kw6_reach kw0_boot kw6_conn(1)] by (simp add: demo_conn_def)

text \<open>
  C23.  The budgets hold and the charges are exact.  In every reachable state the byte counter is the sum
  over the entries, bytes and entries are within the configured totals (or what the database held when
  it was opened), the entries are in key order, each within the size limits under the hash of its
  value; the bytes a subscription is charged are those of the updates its client has not acknowledged,
  within the budget, under consecutive ids that end with the last one given out; and a connection's
  counter of durable puts is the number of them the writer has not finished with, within the limit.
\<close>

theorem kv_budgets_hold:
  assumes "kv_reach ev w0 w" and "kv_boot ev rows w0"
  shows "kw_total_bytes w = bytes_total (kw_entries w)
    \<and> kw_total_bytes w \<le> max (kw_total_bytes w0) (cfg_total_max (ev_cfg ev))
    \<and> length (kw_entries w) \<le> max (length (kw_entries w0)) (cfg_max_entries (ev_cfg ev)) \<and> bt_inv (kw_entries w)
    \<and> (bt_get (kw_entries w) key = Some e \<longrightarrow> en_hash e = ev_hash ev (en_value e) \<and> utf8_valid key
        \<and> length key \<le> KV_MAX_KEY \<and> length (en_value e) \<le> cfg_value_max (ev_cfg ev))
    \<and> (hm_get (kw_heap w) sid = Some s \<longrightarrow> se_unacked_bytes s = sum_list (map snd (se_unacked s))
        \<and> se_unacked_bytes s \<le> cfg_unacked_max (ev_cfg ev) \<and> counts_down (se_update_id s) (rev (map fst (se_unacked s))))
    \<and> (hm_get (kw_conns w) c = Some k \<longrightarrow> kc_pending_puts k = replies_of w c
        \<and> kc_pending_puts k \<le> cfg_max_inflight (ev_cfg ev))"
  using kv_store_budgets[OF assms, of key e] kv_window_bounded[OF assms, of sid s] kv_durable_puts_counted[OF assms, of c k] by blast

theorem kv_budgets_hold_witness:
  "kw_total_bytes kw6 = 2 \<and> en_hash demo_entry = 2 \<and> se_unacked_bytes (the (hm_get (kw_heap kw6) 0)) = 66 \<and> replies_of kw6 0 = 0"
proof -
  obtain s k where s: "hm_get (kw_heap kw6) 0 = Some s" and k: "hm_get (kw_conns kw6) 0 = Some k" using kw6_conn by blast
  show ?thesis
    using kv_budgets_hold[OF kw6_reach kw0_boot, of "[97]" demo_entry 0 s 0 k] s k kw6_conn
    by (simp add: kw6_eq bt_get_def demo_entry_def demo_conn_def)
qed

subsection \<open>Watchers\<close>

text \<open>
  C24.  A watcher shows the store.  In every reachable state, whatever the interleaving of connections,
  snapshots, puts and the writer: a client whose subscription is open and not closed, and that has read
  what it was sent, holds a complete mirror that shows exactly the entries under its prefix, values over
  its inline limit left out, except for keys of durable puts that the writer has not echoed yet.
\<close>

theorem kv_watcher_shows_store:
  assumes "kv_reach ev w0 w" and "kv_boot ev rows w0" and "lz4_ok ev" and "config_ok ev"
    and "hm_get (kw_conns w) c = Some k" and "ob_up (kc_out k)" and "hm_get (kc_map k) kv_id = Some sid"
    and "hm_get (kw_heap w) sid = Some s" and "\<not> se_closed s"
  shows "\<exists>mirror. client_mirror (ev_decompress ev) kv_id (ob_sent (kc_out k)) = Some mirror \<and> km_snapshot_done mirror
    \<and> (key \<notin> owed w \<or> \<not> starts_with key (se_prefix s) \<longrightarrow> bt_get (km_live mirror) key
        = (if starts_with key (se_prefix s) then map_option (mirrored (inline_limit s)) (bt_get (kw_entries w) key) else None))"
  by (rule watcher_shows[OF watch_ok_reach[OF assms(1-4)] assms(5-9)]) (auto simp: view_of_def)

theorem kv_watcher_shows_store_witness:
  "\<exists>mirror. client_mirror demo_decompress 0 [demo_opened, demo_snapshot 1, msg_kv_done 2 KV_STATUS_OK 2 9, demo_echo 2] = Some mirror
    \<and> km_snapshot_done mirror
    \<and> bt_get (km_live mirror) [97] = Some \<lparr>ke_hash = 2, ke_size = 1, ke_mtime_ns = 9, ke_value = Some [5]\<rparr>"
proof -
  let ?s = "demo_live\<lparr>se_update_id := 2, se_unacked := [(1, 12), (2, 54)], se_unacked_bytes := 66\<rparr>"
  have up: "ob_up (kc_out (demo_conn [(0, 0)] [demo_opened, demo_snapshot 1, msg_kv_done 2 KV_STATUS_OK 2 9, demo_echo 2] None))"
    "hm_get (kc_map (demo_conn [(0, 0)] [demo_opened, demo_snapshot 1, msg_kv_done 2 KV_STATUS_OK 2 9, demo_echo 2] None)) 0 = Some 0"
    by (simp_all add: demo_conn_def hm_get_def)
  have s: "\<not> se_closed ?s" "starts_with [97] (se_prefix ?s)" "inline_limit ?s = 2 ^ 64 - 1"
    by (simp_all add: demo_live_def demo_sub_def sub_new_def inline_limit_def)
  have e: "bt_get (kw_entries kw6) [97] = Some demo_entry" "owed kw6 = {}"
    by (simp_all add: kw6_eq demo_world_def store_empty_def bt_get_def owed_def)
  show ?thesis
    using kv_watcher_shows_store[OF kw6_reach kw0_boot kv_demo_ok kw6_conn(1) up kw6_conn(2) s(1), of "[97]"] s(2,3) e
    by (simp add: demo_conn_def mirrored_def demo_entry_def)
qed

subsection \<open>Durability\<close>

text \<open>
  C25.  A restart finds what was committed.  Let the database be found, when a store is opened on it
  again, with what its documentation promises of the transactions of a run, some of which may have
  failed: each whole or not at all, in order, with none missing up to the last successful durable one
  except those that failed.  For every key without an uncommitted job whose last transaction succeeded
  and was made durable by itself or a later one, or which no transaction wrote, the new store has exactly
  the entry the running one has: the same value, hash and time.
\<close>

theorem kv_restart_recovers:
  assumes "kv_log ev w0 h w" and "kv_boot ev rows w0" and "kw_writer w"
    and "survives h (map_of (rows (kw_db w0))) (map_of found)" and "distinct (map fst found)"
    and "hardened key h" and "key \<notin> wj_key ` set (uncommitted w)"
  shows "bt_get (kw_entries (store_open (ev_hash ev) db (Some found) spawned)) key = bt_get (kw_entries w) key"
  using reopened_entry[OF assms(1-3,7,4,6,5)] by (simp add: store_open_entries)

theorem kv_restart_recovers_witness:
  "kw_entries rw7 = [([97], demo_entry), ([98], demo_entry)]
    \<and> bt_get (kw_entries (store_open (ev_hash flaky_demo) [] (Some [([97], wle 8 (9 :: u64) @ [5])]) True)) [97] = Some demo_entry"
proof -
  have "survives demo_log (map_of (AList.clearjunk (kw_db rw0))) (map_of [([97], wle 8 (9 :: u64) @ [5])])"
    using demo_survives by (simp add: rw0_def store_open_def store_empty_def)
  then show ?thesis
    using kv_restart_recovers[OF demo_log_run rw0_boot rw7_fields(2) _ _ demo_log_hard, of "[([97], wle 8 (9 :: u64) @ [5])]" "[]" True]
    by (simp add: rw7_fields bt_get_def)
qed

subsection \<open>The writer\<close>

text \<open>
  C26.  The writer comes to rest.  From every reachable state the writer thread, left to itself, is idle
  with an empty queue after at most the number of turns its work measures.  The map is unchanged by then,
  no connection has a durable put in flight, and every open watcher's mirror shows the map exactly.
\<close>

theorem kv_writer_comes_to_rest:
  assumes "kv_reach ev w0 w" and "kv_boot ev rows w0" and "lz4_ok ev" and "config_ok ev"
  shows "\<exists>n \<le> writer_left w. \<exists>w'. w' = (writer_turn ev ^^ n) w \<and> kw_phase w' = Receiving \<and> kw_queue w' = []
    \<and> kw_entries w' = kw_entries w
    \<and> (\<forall>c k. hm_get (kw_conns w') c = Some k \<longrightarrow> kc_pending_puts k = 0
        \<and> (\<forall>kv_id sid s. hm_get (kc_map k) kv_id = Some sid \<longrightarrow> hm_get (kw_heap w') sid = Some s
            \<longrightarrow> ob_up (kc_out k) \<longrightarrow> \<not> se_closed s
            \<longrightarrow> (\<exists>mirror. client_mirror (ev_decompress ev) kv_id (ob_sent (kc_out k)) = Some mirror
                  \<and> bt_get (km_live mirror) = view_of (kw_entries w') s)))"
proof -
  obtain n where n: "n \<le> writer_left w" "writer_left ((writer_turn ev ^^ n) w) = 0" using writer_rests by blast
  define w' where "w' = (writer_turn ev ^^ n) w"
  have r: "kv_reach ev w0 w'" unfolding w'_def by (rule writer_turns_reach[OF assms(1)])
  have o: "owed w' = {}" "replies w' = []" using idle_owes_nothing[OF n(2)] by (simp_all add: w'_def)
  have pend: "kc_pending_puts k = 0" if "hm_get (kw_conns w') c = Some k" for c k
    using in_flight_reach[OF r assms(2)] that o(2) by (auto simp: in_flight_ok_def pend_def replies_of_def)
  have watch: "\<exists>mirror. client_mirror (ev_decompress ev) kv_id (ob_sent (kc_out k)) = Some mirror
      \<and> bt_get (km_live mirror) = view_of (kw_entries w') s"
    if "hm_get (kw_conns w') c = Some k" "hm_get (kc_map k) kv_id = Some sid" "hm_get (kw_heap w') sid = Some s"
      "ob_up (kc_out k)" "\<not> se_closed s" for c k kv_id sid s
    by (rule watcher_shows[OF watch_ok_reach[OF r assms(2-4)] that(1,4,2,3,5)]) (auto simp: o(1))
  have rest: "kw_phase w' = Receiving" "kw_queue w' = []" "kw_entries w' = kw_entries w"
    using n(2) by (simp_all add: w'_def writer_idle writer_turns_entries)
  show ?thesis
    by (intro exI[of _ n] exI[of _ w'] conjI allI impI; (rule n w'_def rest | erule pend watch, assumption+ | erule pend))
qed

theorem kv_writer_comes_to_rest_witness:
  "\<exists>n. n \<le> 5 \<and> kw_queue ((writer_turn kv_demo ^^ n) kw6) = [] \<and> kw_phase ((writer_turn kv_demo ^^ n) kw6) = Receiving
    \<and> kw_entries ((writer_turn kv_demo ^^ n) kw6) = [([97], demo_entry)]"
proof -
  have "writer_left kw6 = 5" by (simp add: writer_left_def kw6_eq demo_world_def store_empty_def)
  moreover have "kw_entries kw6 = [([97], demo_entry)]" by (simp add: kw6_eq)
  ultimately show ?thesis using kv_writer_comes_to_rest[OF kw6_reach kw0_boot kv_demo_ok] by auto
qed

end
