(* ===== verification/Event_Wire.thy ===== *)
theory Event_Wire
  imports Channel_Wire Frame_Text
begin

text \<open>
  The event journal on the wire, \<open>crates/remote/src/events.rs\<close>: the event types with their catalog,
  the activation sets and the language they are written in, the requests and the messages with
  their parsers and builders.  \<open>[u64; 4]\<close> is a list of four words (\<open>activation_ok\<close>); the discriminant
  of an event type is a number below 48.
\<close>

subsection \<open>Constants\<close>

definition EVENTS :: u8 where [wire_defs]: "EVENTS = 0xD0"
definition EVENTS_VERSION :: u8 where [wire_defs]: "EVENTS_VERSION = 1"
definition EVENTS_CONFIG_GET :: u8 where [wire_defs]: "EVENTS_CONFIG_GET = 1"
definition EVENTS_CONFIG_SET :: u8 where [wire_defs]: "EVENTS_CONFIG_SET = 2"
definition EVENTS_DUMP :: u8 where [wire_defs]: "EVENTS_DUMP = 3"
definition EVENTS_STREAM_START :: u8 where [wire_defs]: "EVENTS_STREAM_START = 4"
definition EVENTS_STREAM_STOP :: u8 where [wire_defs]: "EVENTS_STREAM_STOP = 5"
definition EVENTS_STREAM_LIST :: u8 where [wire_defs]: "EVENTS_STREAM_LIST = 6"
definition EVENTS_CONFIG :: u8 where [wire_defs]: "EVENTS_CONFIG = 1"
definition EVENTS_RESULT :: u8 where [wire_defs]: "EVENTS_RESULT = 2"
definition EVENTS_DUMPED :: u8 where [wire_defs]: "EVENTS_DUMPED = 3"
definition EVENTS_STREAM_STARTED :: u8 where [wire_defs]: "EVENTS_STREAM_STARTED = 4"
definition EVENTS_RECORD :: u8 where [wire_defs]: "EVENTS_RECORD = 5"
definition EVENTS_STREAM_STOPPED :: u8 where [wire_defs]: "EVENTS_STREAM_STOPPED = 6"
definition EVENTS_STREAM_GAP :: u8 where [wire_defs]: "EVENTS_STREAM_GAP = 7"
definition EVENTS_STREAMS :: u8 where [wire_defs]: "EVENTS_STREAMS = 8"
definition EVENTS_TARGET_CLIENT :: u8 where [wire_defs]: "EVENTS_TARGET_CLIENT = 0"
definition EVENTS_TARGET_FILE :: u8 where [wire_defs]: "EVENTS_TARGET_FILE = 1"
definition EVENTS_CONFIG_REVISION_ANY :: u64 where [wire_defs]: "EVENTS_CONFIG_REVISION_ANY = 0xFFFFFFFFFFFFFFFF"
definition EVENTS_STREAM_STATE_RUNNING :: u8 where [wire_defs]: "EVENTS_STREAM_STATE_RUNNING = 1"
definition EVENTS_STREAM_STATE_STOPPED :: u8 where [wire_defs]: "EVENTS_STREAM_STATE_STOPPED = 2"
definition EVENTS_STREAM_STATE_FAILED :: u8 where [wire_defs]: "EVENTS_STREAM_STATE_FAILED = 3"
definition EVENTS_STREAM_HISTORY :: u8 where [wire_defs]: "EVENTS_STREAM_HISTORY = 1"
definition EVENTS_STREAM_APPEND :: u8 where [wire_defs]: "EVENTS_STREAM_APPEND = 2"
definition EVENTS_STREAM_FLAGS :: u8 where [wire_defs]: "EVENTS_STREAM_FLAGS = EVENTS_STREAM_HISTORY OR EVENTS_STREAM_APPEND"
definition ACTIVATION_WORDS :: nat where [wire_defs]: "ACTIVATION_WORDS = 4"
definition ACTIVATION_BYTES :: nat where [wire_defs]: "ACTIVATION_BYTES = 32"
definition EVENT_RECORD_HEADER_LEN :: nat where [wire_defs]: "EVENT_RECORD_HEADER_LEN = 32"
definition EVENT_DUMP_HEADER_LEN :: nat where [wire_defs]: "EVENT_DUMP_HEADER_LEN = 84"
definition EVENT_TYPE_STREAM_GAP :: u16 where [wire_defs]: "EVENT_TYPE_STREAM_GAP = 0xFFFF"
definition EVENT_DUMP_MAGIC :: bytes where [wire_defs]: "EVENT_DUMP_MAGIC = ascii ''BLITEVT1''"

subsection \<open>Event types\<close>

datatype event_type =
    EtServerStart | EtServerStop | EtTaskStart | EtTaskStop | EtClientConnect | EtClientDisconnect |
    EtClientReject | EtConfigChange | EtStreamStart | EtStreamStop | EtProtocolError | EtPtyCreate |
    EtPtyExit | EtPtyRemove | EtDeadline | EtCapacity | EtFrameRead | EtFrameWrite | EtMessageRead |
    EtMessageWrite | EtTickStart | EtTickStop | EtTickNudge | EtSessionLock | EtPtyRead | EtPtyWrite |
    EtPtyParse | EtPtySnapshot | EtPtyResize | EtPtyInput | EtCompositorEvent | EtCompositorCommand |
    EtSurfaceEncode | EtSurfaceFrame | EtAudioFrame | EtFsRequest | EtGitRequest | EtLspRequest | EtKvRequest |
    EtNetRequest | EtProcessRequest | EtExtensionRequest | EtChannelRequest | EtClientControl | EtOutboxQueue |
    EtSupervisor | EtConnectionAccept | EtError

primrec event_id :: "event_type \<Rightarrow> nat" where
  "event_id EtServerStart = 0"
| "event_id EtServerStop = 1"
| "event_id EtTaskStart = 2"
| "event_id EtTaskStop = 3"
| "event_id EtClientConnect = 4"
| "event_id EtClientDisconnect = 5"
| "event_id EtClientReject = 6"
| "event_id EtConfigChange = 7"
| "event_id EtStreamStart = 8"
| "event_id EtStreamStop = 9"
| "event_id EtProtocolError = 10"
| "event_id EtPtyCreate = 11"
| "event_id EtPtyExit = 12"
| "event_id EtPtyRemove = 13"
| "event_id EtDeadline = 14"
| "event_id EtCapacity = 15"
| "event_id EtFrameRead = 16"
| "event_id EtFrameWrite = 17"
| "event_id EtMessageRead = 18"
| "event_id EtMessageWrite = 19"
| "event_id EtTickStart = 20"
| "event_id EtTickStop = 21"
| "event_id EtTickNudge = 22"
| "event_id EtSessionLock = 23"
| "event_id EtPtyRead = 24"
| "event_id EtPtyWrite = 25"
| "event_id EtPtyParse = 26"
| "event_id EtPtySnapshot = 27"
| "event_id EtPtyResize = 28"
| "event_id EtPtyInput = 29"
| "event_id EtCompositorEvent = 30"
| "event_id EtCompositorCommand = 31"
| "event_id EtSurfaceEncode = 32"
| "event_id EtSurfaceFrame = 33"
| "event_id EtAudioFrame = 34"
| "event_id EtFsRequest = 35"
| "event_id EtGitRequest = 36"
| "event_id EtLspRequest = 37"
| "event_id EtKvRequest = 38"
| "event_id EtNetRequest = 39"
| "event_id EtProcessRequest = 40"
| "event_id EtExtensionRequest = 41"
| "event_id EtChannelRequest = 42"
| "event_id EtClientControl = 43"
| "event_id EtOutboxQueue = 44"
| "event_id EtSupervisor = 45"
| "event_id EtConnectionAccept = 46"
| "event_id EtError = 47"

definition EVENT_TYPE_CATALOG :: "(event_type \<times> bytes) list" where
  "EVENT_TYPE_CATALOG = [
     (EtServerStart, ascii ''server.start''), (EtServerStop, ascii ''server.stop''),
     (EtTaskStart, ascii ''task.start''), (EtTaskStop, ascii ''task.stop''),
     (EtClientConnect, ascii ''client.connect''), (EtClientDisconnect, ascii ''client.disconnect''),
     (EtClientReject, ascii ''client.reject''), (EtConfigChange, ascii ''config.change''),
     (EtStreamStart, ascii ''stream.start''), (EtStreamStop, ascii ''stream.stop''),
     (EtProtocolError, ascii ''protocol.error''), (EtPtyCreate, ascii ''pty.create''),
     (EtPtyExit, ascii ''pty.exit''), (EtPtyRemove, ascii ''pty.remove''),
     (EtDeadline, ascii ''pty.deadline''), (EtCapacity, ascii ''server.capacity''),
     (EtFrameRead, ascii ''frame.read''), (EtFrameWrite, ascii ''frame.write''),
     (EtMessageRead, ascii ''message.read''), (EtMessageWrite, ascii ''message.write''),
     (EtTickStart, ascii ''tick.start''), (EtTickStop, ascii ''tick.stop''),
     (EtTickNudge, ascii ''tick.nudge''), (EtSessionLock, ascii ''session.lock''),
     (EtPtyRead, ascii ''pty.read''), (EtPtyWrite, ascii ''pty.write''), (EtPtyParse, ascii ''pty.parse''),
     (EtPtySnapshot, ascii ''pty.snapshot''), (EtPtyResize, ascii ''pty.resize''),
     (EtPtyInput, ascii ''pty.input''), (EtCompositorEvent, ascii ''compositor.event''),
     (EtCompositorCommand, ascii ''compositor.command''), (EtSurfaceEncode, ascii ''surface.encode''),
     (EtSurfaceFrame, ascii ''surface.frame''), (EtAudioFrame, ascii ''audio.frame''),
     (EtFsRequest, ascii ''fs.request''), (EtGitRequest, ascii ''git.request''),
     (EtLspRequest, ascii ''lsp.request''), (EtKvRequest, ascii ''kv.request''),
     (EtNetRequest, ascii ''net.request''), (EtProcessRequest, ascii ''process.request''),
     (EtExtensionRequest, ascii ''extension.request''), (EtChannelRequest, ascii ''channel.request''),
     (EtClientControl, ascii ''client.control''), (EtOutboxQueue, ascii ''outbox.queue''),
     (EtSupervisor, ascii ''supervisor.event''), (EtConnectionAccept, ascii ''connection.accept''),
     (EtError, ascii ''server.error'')]"

definition event_name :: "event_type \<Rightarrow> bytes" where
  "event_name kind = snd (EVENT_TYPE_CATALOG ! event_id kind)"

definition event_from_name :: "bytes \<Rightarrow> event_type option" where
  "event_from_name name = map_option fst (find (\<lambda>(_, candidate). candidate = name) EVENT_TYPE_CATALOG)"

subsection \<open>Activation sets\<close>

type_synonym activation_set = "u64 list"

definition activation_ok :: "activation_set \<Rightarrow> bool" where
  "activation_ok a \<longleftrightarrow> length a = ACTIVATION_WORDS"

definition activation_default :: activation_set where
  "activation_default = replicate ACTIVATION_WORDS 0"

definition low_throughput :: activation_set where
  "low_throughput = [0xFFFF, 0, 0, 0]"

definition activation_all :: activation_set where
  "activation_all = replicate ACTIVATION_WORDS (- 1)"

definition enabled :: "activation_set \<Rightarrow> event_type \<Rightarrow> bool" where
  "enabled a kind \<longleftrightarrow> (let i = event_id kind in (a ! (i div 64)) AND push_bit (i mod 64) 1 \<noteq> 0)"

definition set_event :: "event_type \<Rightarrow> bool \<Rightarrow> activation_set \<Rightarrow> activation_set" where
  "set_event kind on a = (let i = event_id kind; bit = push_bit (i mod 64) 1; w = a ! (i div 64) in
     a[i div 64 := (if on then w OR bit else w AND NOT bit)])"

definition activation_to_bytes :: "activation_set \<Rightarrow> bytes" where
  "activation_to_bytes a = concat (map (wle 8) a)"

definition activation_from_bytes :: "bytes \<Rightarrow> activation_set option" where
  "activation_from_bytes bs = (if length bs \<noteq> ACTIVATION_BYTES then None
     else Some (map (\<lambda>i. rdw 8 bs (8 * i)) [0..<ACTIVATION_WORDS]))"

subsection \<open>The activation language\<close>

text \<open>\<open>spec.split(',').map(str::trim).filter(non-empty)\<close>.\<close>

definition spec_parts :: "bytes \<Rightarrow> bytes list" where
  "spec_parts spec = filter (\<lambda>part. part \<noteq> []) (map str_trim (split_where (\<lambda>b. b = 0x2C) spec))"

text \<open>\<open>strip_suffix(".*")\<close>, and whether a name lies in the category.\<close>

definition strip_category :: "bytes \<Rightarrow> bytes option" where
  "strip_category s = (if 2 \<le> length s \<and> drop (length s - 2) s = [0x2E, 0x2A]
     then Some (take (length s - 2) s) else None)"

definition in_category :: "bytes \<Rightarrow> bytes \<Rightarrow> bool" where
  "in_category prefix name \<longleftrightarrow> take (length prefix) name = prefix
     \<and> length prefix < length name \<and> name ! length prefix = 0x2E"

definition set_category :: "bool \<Rightarrow> bytes \<Rightarrow> activation_set \<Rightarrow> activation_set" where
  "set_category on prefix a = fold (\<lambda>(kind, name) a. if in_category prefix name then set_event kind on a else a)
     EVENT_TYPE_CATALOG a"

definition clear_default :: "activation_set \<Rightarrow> activation_set" where
  "clear_default a = fold (\<lambda>(kind, _) a. if enabled low_throughput kind then set_event kind False a else a)
     EVENT_TYPE_CATALOG a"

text \<open>One part of the specification; the error is the selector that names nothing.\<close>

definition apply_selector :: "activation_set \<Rightarrow> bytes \<Rightarrow> bytes + activation_set" where
  "apply_selector a raw =
    (let (on, selector) = (if hd raw = 0x2B then (True, tl raw) else if hd raw = 0x2D then (False, tl raw) else (True, raw))
     in if selector = ascii ''all'' then Inr (if on then activation_all else activation_default)
        else if selector = ascii ''none'' then Inr (if on then activation_default else a)
        else if selector = ascii ''default'' then Inr (if on then low_throughput else clear_default a)
        else case strip_category selector of
          Some prefix \<Rightarrow> (if list_ex (\<lambda>(_, name). in_category prefix name) EVENT_TYPE_CATALOG
            then Inr (set_category on prefix a) else Inl selector)
        | None \<Rightarrow> (case event_from_name selector of
            Some kind \<Rightarrow> Inr (set_event kind on a)
          | None \<Rightarrow> Inl selector))"

fun apply_selectors :: "activation_set \<Rightarrow> bytes list \<Rightarrow> bytes + activation_set" where
  "apply_selectors a [] = Inr a"
| "apply_selectors a (raw # raws) = and_then (apply_selector a raw) (\<lambda>a. apply_selectors a raws)"

definition parse_activation_spec :: "bytes \<Rightarrow> bytes + activation_set" where
  "parse_activation_spec spec =
    (let parts = spec_parts spec;
         edits = parts \<noteq> [] \<and> (hd (hd parts) = 0x2B \<or> hd (hd parts) = 0x2D)
     in apply_selectors (if edits then low_throughput else activation_default) parts)"

subsection \<open>Requests\<close>

datatype events_request =
    ConfigGet u16
  | ConfigSet u16 u64 u64 activation_set
  | Dump u16
  | StreamStart u16 u8 u8 bytes
  | StreamStop u16 u32
  | StreamList u16

datatype events_error = NotEvents | UnsupportedVersion | EventsTruncated | EventsTrailing | InvalidTarget
  | InvalidStreamFlags | InvalidPath | InvalidOperation

definition parse_stream_start :: "u16 \<Rightarrow> bytes \<Rightarrow> events_error + events_request" where
  "parse_stream_start nonce body =
    (if length body < 4 then Inl EventsTruncated
     else let target = body ! 0; flags = body ! 1 in
       if target > EVENTS_TARGET_FILE then Inl InvalidTarget
       else if flags AND NOT EVENTS_STREAM_FLAGS \<noteq> 0
           \<or> target = EVENTS_TARGET_CLIENT \<and> flags AND EVENTS_STREAM_APPEND \<noteq> 0 then Inl InvalidStreamFlags
       else let path_len = rd 2 body 2 in
         if length body < 4 + path_len then Inl EventsTruncated
         else if length body \<noteq> 4 + path_len then Inl EventsTrailing
         else case from_utf8 (drop 4 body) of None \<Rightarrow> Inl InvalidPath
           | Some path \<Rightarrow>
             if 0 \<in> set path \<or> target = EVENTS_TARGET_CLIENT \<and> path \<noteq> [] \<or> target = EVENTS_TARGET_FILE \<and> path = []
             then Inl InvalidPath else Inr (StreamStart nonce target flags path))"

definition parse_events_request :: "bytes \<Rightarrow> events_error + events_request" where
  "parse_events_request packet =
    (if packet = [] \<or> packet ! 0 \<noteq> EVENTS then Inl NotEvents
     else if length packet < 5 then Inl EventsTruncated
     else if packet ! 1 \<noteq> EVENTS_VERSION then Inl UnsupportedVersion
     else let op = packet ! 2; nonce = rdw 2 packet 3; body = drop 5 packet in
       if op = EVENTS_CONFIG_GET then (if body = [] then Inr (ConfigGet nonce) else Inl EventsTrailing)
       else if op = EVENTS_CONFIG_SET then
         (if length body < 16 + ACTIVATION_BYTES then Inl EventsTruncated
          else if length body \<noteq> 16 + ACTIVATION_BYTES then Inl EventsTrailing
          else Inr (ConfigSet nonce (rdw 8 body 0) (rdw 8 body 8) (the (activation_from_bytes (drop 16 body)))))
       else if op = EVENTS_DUMP then (if body = [] then Inr (Dump nonce) else Inl EventsTrailing)
       else if op = EVENTS_STREAM_START then parse_stream_start nonce body
       else if op = EVENTS_STREAM_STOP then
         (if length body < 4 then Inl EventsTruncated
          else if length body \<noteq> 4 then Inl EventsTrailing
          else Inr (StreamStop nonce (rdw 4 body 0)))
       else if op = EVENTS_STREAM_LIST then (if body = [] then Inr (StreamList nonce) else Inl EventsTrailing)
       else Inl InvalidOperation)"

text \<open>\<open>request\<close> and \<open>response\<close>, which are the same function.\<close>

definition events_envelope :: "u8 \<Rightarrow> u16 \<Rightarrow> bytes" where
  "events_envelope op nonce = [EVENTS, EVENTS_VERSION, op] @ wle 2 nonce"

definition msg_events_config_get :: "u16 \<Rightarrow> bytes" where
  "msg_events_config_get nonce = events_envelope EVENTS_CONFIG_GET nonce"

definition msg_events_config_set :: "u16 \<Rightarrow> u64 \<Rightarrow> u64 \<Rightarrow> activation_set \<Rightarrow> bytes" where
  "msg_events_config_set nonce expected_revision sz activations = events_envelope EVENTS_CONFIG_SET nonce
     @ wle 8 expected_revision @ wle 8 sz @ activation_to_bytes activations"

definition msg_events_dump :: "u16 \<Rightarrow> bytes" where
  "msg_events_dump nonce = events_envelope EVENTS_DUMP nonce"

definition msg_events_stream_start :: "u16 \<Rightarrow> u8 \<Rightarrow> u8 \<Rightarrow> bytes \<Rightarrow> bytes" where
  "msg_events_stream_start nonce target flags path = (let len = min (length path) 65535 in
     events_envelope EVENTS_STREAM_START nonce @ [target, flags] @ to_le 2 len @ take len path)"

definition msg_events_stream_stop :: "u16 \<Rightarrow> u32 \<Rightarrow> bytes" where
  "msg_events_stream_stop nonce stream_id = events_envelope EVENTS_STREAM_STOP nonce @ wle 4 stream_id"

definition msg_events_stream_list :: "u16 \<Rightarrow> bytes" where
  "msg_events_stream_list nonce = events_envelope EVENTS_STREAM_LIST nonce"

subsection \<open>Messages\<close>

record event_stream_info =
  si_stream_id :: u32
  si_state :: u8
  si_flags :: u8
  si_records :: u64
  si_bytes :: u64
  si_lost :: u64
  si_path :: bytes
  si_error :: bytes

record event_config =
  ec_revision :: u64
  ec_size :: u64
  ec_used :: u64
  ec_records :: u64
  ec_dropped :: u64
  ec_next_sequence :: u64
  ec_activations :: activation_set

datatype events_message =
    MsgConfig u16 event_config
  | MsgResult u16 u8 u32 bytes
  | MsgDump u16 bytes
  | MsgStreamStarted u16 u8 u32 bytes
  | MsgRecords u32 u16 bytes
  | MsgStreamStopped u32 u8 bytes
  | MsgStreamGap u32 u64
  | MsgStreams u16 "event_stream_info list"

definition msg_events_config :: "u16 \<Rightarrow> event_config \<Rightarrow> bytes" where
  "msg_events_config nonce c = events_envelope EVENTS_CONFIG nonce
     @ wle 8 (ec_revision c) @ wle 8 (ec_size c) @ wle 8 (ec_used c) @ wle 8 (ec_records c) @ wle 8 (ec_dropped c)
     @ wle 8 (ec_next_sequence c) @ activation_to_bytes (ec_activations c)"

definition msg_events_result :: "u16 \<Rightarrow> u8 \<Rightarrow> u32 \<Rightarrow> bytes \<Rightarrow> bytes" where
  "msg_events_result nonce status stream_id detail =
    events_envelope EVENTS_RESULT nonce @ [status] @ wle 4 stream_id @ detail"

definition msg_events_dumped :: "u16 \<Rightarrow> bytes \<Rightarrow> bytes" where
  "msg_events_dumped nonce dump = events_envelope EVENTS_DUMPED nonce @ dump"

definition msg_events_stream_started :: "u16 \<Rightarrow> u8 \<Rightarrow> u32 \<Rightarrow> bytes \<Rightarrow> bytes" where
  "msg_events_stream_started nonce status stream_id detail =
    events_envelope EVENTS_STREAM_STARTED nonce @ [status] @ wle 4 stream_id @ detail"

definition msg_events_records :: "u32 \<Rightarrow> bytes list \<Rightarrow> bytes" where
  "msg_events_records stream_id records = (let count = min (length records) 65535 in
     [EVENTS, EVENTS_VERSION, EVENTS_RECORD] @ wle 4 stream_id @ to_le 2 count @ concat (take count records))"

definition msg_events_stream_stopped :: "u32 \<Rightarrow> u8 \<Rightarrow> bytes \<Rightarrow> bytes" where
  "msg_events_stream_stopped stream_id status detail =
    [EVENTS, EVENTS_VERSION, EVENTS_STREAM_STOPPED] @ wle 4 stream_id @ [status] @ detail"

definition msg_events_stream_gap :: "u32 \<Rightarrow> u64 \<Rightarrow> bytes" where
  "msg_events_stream_gap stream_id lost =
    [EVENTS, EVENTS_VERSION, EVENTS_STREAM_GAP] @ wle 4 stream_id @ wle 8 lost"

definition stream_info_bytes :: "event_stream_info \<Rightarrow> bytes" where
  "stream_info_bytes s = (let path = clip_str 65535 (si_path s); err = clip_str 65535 (si_error s) in
     wle 4 (si_stream_id s) @ [si_state s, si_flags s AND EVENTS_STREAM_FLAGS]
     @ wle 8 (si_records s) @ wle 8 (si_bytes s) @ wle 8 (si_lost s)
     @ to_le 2 (length path) @ to_le 2 (length err) @ path @ err)"

definition msg_events_streams :: "u16 \<Rightarrow> event_stream_info list \<Rightarrow> bytes" where
  "msg_events_streams nonce streams = (let count = min (length streams) 65535 in
     events_envelope EVENTS_STREAMS nonce @ to_le 2 count @ concat (map stream_info_bytes (take count streams)))"

text \<open>The walk over the records of an \<open>EVENTS_RECORD\<close> packet: the offset behind the last of them.\<close>

fun skip_records :: "nat \<Rightarrow> bytes \<Rightarrow> nat \<Rightarrow> events_error + nat" where
  "skip_records 0 packet at = Inr at"
| "skip_records (Suc n) packet at =
    (if length packet - at < EVENT_RECORD_HEADER_LEN then Inl EventsTruncated
     else let record_len = rd 4 packet at in
       if record_len < EVENT_RECORD_HEADER_LEN \<or> length packet - at < record_len then Inl EventsTruncated
       else skip_records n packet (at + record_len))"

definition read_stream_info :: "bytes \<Rightarrow> nat \<Rightarrow> events_error + (event_stream_info \<times> nat)" where
  "read_stream_info packet at =
    (if length packet - at < 34 then Inl EventsTruncated
     else let state = packet ! (at + 4) in
       if state \<notin> {EVENTS_STREAM_STATE_RUNNING, EVENTS_STREAM_STATE_STOPPED, EVENTS_STREAM_STATE_FAILED}
       then Inl InvalidStreamFlags
       else let flags = packet ! (at + 5) in
         if flags AND NOT EVENTS_STREAM_FLAGS \<noteq> 0 then Inl InvalidStreamFlags
         else let path_len = rd 2 packet (at + 30); error_len = rd 2 packet (at + 32) in
           if length packet - (at + 34) < path_len + error_len then Inl EventsTruncated
           else case from_utf8 (slice_of packet (at + 34) path_len) of None \<Rightarrow> Inl InvalidPath
             | Some path \<Rightarrow> (case from_utf8 (slice_of packet (at + 34 + path_len) error_len) of None \<Rightarrow> Inl InvalidPath
               | Some err \<Rightarrow> Inr (\<lparr>si_stream_id = rdw 4 packet at, si_state = state, si_flags = flags,
                   si_records = rdw 8 packet (at + 6), si_bytes = rdw 8 packet (at + 14), si_lost = rdw 8 packet (at + 22),
                   si_path = path, si_error = err\<rparr>, at + 34 + path_len + error_len)))"

fun read_streams :: "nat \<Rightarrow> bytes \<Rightarrow> nat \<Rightarrow> events_error + (event_stream_info list \<times> nat)" where
  "read_streams 0 packet at = Inr ([], at)"
| "read_streams (Suc n) packet at = and_then (read_stream_info packet at) (\<lambda>(info, at).
     and_then (read_streams n packet at) (\<lambda>(infos, at). Inr (info # infos, at)))"

definition parse_config_message :: "bytes \<Rightarrow> events_error + events_message" where
  "parse_config_message packet =
    (let expected = 5 + 6 * 8 + ACTIVATION_BYTES in
     if length packet < expected then Inl EventsTruncated
     else if length packet \<noteq> expected then Inl EventsTrailing
     else Inr (MsgConfig (rdw 2 packet 3)
       \<lparr>ec_revision = rdw 8 packet 5, ec_size = rdw 8 packet 13, ec_used = rdw 8 packet 21, ec_records = rdw 8 packet 29,
        ec_dropped = rdw 8 packet 37, ec_next_sequence = rdw 8 packet 45,
        ec_activations = the (activation_from_bytes (drop 53 packet))\<rparr>))"

definition parse_status_message :: "bytes \<Rightarrow> events_error + events_message" where
  "parse_status_message packet =
    (if length packet < 10 then Inl EventsTruncated
     else case from_utf8 (drop 10 packet) of None \<Rightarrow> Inl InvalidPath
       | Some detail \<Rightarrow>
         if packet ! 2 = EVENTS_RESULT then Inr (MsgResult (rdw 2 packet 3) (packet ! 5) (rdw 4 packet 6) detail)
         else Inr (MsgStreamStarted (rdw 2 packet 3) (packet ! 5) (rdw 4 packet 6) detail))"

definition parse_records_message :: "bytes \<Rightarrow> events_error + events_message" where
  "parse_records_message packet =
    (if length packet < 9 then Inl EventsTruncated
     else let count = rdw 2 packet 7 in
       if count = 0 then Inl InvalidStreamFlags
       else and_then (skip_records (unat count) packet 9) (\<lambda>at.
         if at \<noteq> length packet then Inl EventsTrailing
         else Inr (MsgRecords (rdw 4 packet 3) count (drop 9 packet))))"

definition parse_streams_message :: "bytes \<Rightarrow> events_error + events_message" where
  "parse_streams_message packet =
    (if length packet < 7 then Inl EventsTruncated
     else and_then (read_streams (rd 2 packet 5) packet 7) (\<lambda>(streams, at).
       if at \<noteq> length packet then Inl EventsTrailing else Inr (MsgStreams (rdw 2 packet 3) streams)))"

definition parse_events_message :: "bytes \<Rightarrow> events_error + events_message" where
  "parse_events_message packet =
    (if packet = [] \<or> packet ! 0 \<noteq> EVENTS then Inl NotEvents
     else if length packet < 3 then Inl EventsTruncated
     else if packet ! 1 \<noteq> EVENTS_VERSION then Inl UnsupportedVersion
     else let kind = packet ! 2 in
       if kind = EVENTS_CONFIG then parse_config_message packet
       else if kind = EVENTS_RESULT \<or> kind = EVENTS_STREAM_STARTED then parse_status_message packet
       else if kind = EVENTS_DUMPED then
         (if length packet < 5 then Inl EventsTruncated else Inr (MsgDump (rdw 2 packet 3) (drop 5 packet)))
       else if kind = EVENTS_RECORD then parse_records_message packet
       else if kind = EVENTS_STREAM_STOPPED then
         (if length packet < 8 then Inl EventsTruncated
          else case from_utf8 (drop 8 packet) of None \<Rightarrow> Inl InvalidPath
            | Some detail \<Rightarrow> Inr (MsgStreamStopped (rdw 4 packet 3) (packet ! 7) detail))
       else if kind = EVENTS_STREAM_GAP then
         (if length packet < 15 then Inl EventsTruncated
          else if length packet \<noteq> 15 then Inl EventsTrailing
          else Inr (MsgStreamGap (rdw 4 packet 3) (rdw 8 packet 7)))
       else if kind = EVENTS_STREAMS then parse_streams_message packet
       else Inl InvalidOperation)"

end
