(* ===== verification/Event_Roundtrip.thy ===== *)
theory Event_Roundtrip
  imports Event_Wire
begin

text \<open>
  The parsers of \<open>Event_Wire\<close> accept exactly what its builders write: the envelope, activation sets,
  the requests, the records of a packet, the entries of a stream list, the messages.
\<close>

subsection \<open>The envelope and activation sets\<close>

lemma envelope_fields [simp]:
  "length (events_envelope op nonce) = 5"
  "(events_envelope op nonce @ body) ! 0 = EVENTS"
  "(events_envelope op nonce @ body) ! Suc 0 = EVENTS_VERSION"
  "(events_envelope op nonce @ body) ! 2 = op"
  "rdw 2 (events_envelope op nonce @ body) 3 = nonce"
  "drop 5 (events_envelope op nonce @ body) = body"
proof -
  have "rdw 2 ([EVENTS, EVENTS_VERSION, op] @ wle 2 nonce @ body) 3 = nonce" by (rule rdw_at) simp_all
  then show "rdw 2 (events_envelope op nonce @ body) 3 = nonce" by (simp add: events_envelope_def)
qed (simp_all add: events_envelope_def)

lemma envelope_split:
  assumes "5 \<le> length packet" "packet ! 0 = EVENTS" "packet ! 1 = EVENTS_VERSION"
  shows "packet = events_envelope (packet ! 2) (rdw 2 packet 3) @ drop 5 packet"
proof -
  have "packet = drop 0 packet" by simp
  also have "\<dots> = [packet ! 0] @ drop 1 packet" by (rule buffer_head) (use assms(1) in auto)
  also have "drop 1 packet = [packet ! 1] @ drop 2 packet" by (rule buffer_head) (use assms(1) in auto)
  also have "drop 2 packet = [packet ! 2] @ drop 3 packet" by (rule buffer_head) (use assms(1) in auto)
  also have "drop 3 packet = slice_of packet 3 2 @ drop 5 packet" by (rule buffer_split) simp
  finally show ?thesis
    using assms wle_rdw[of 2 3 packet, where 'a = 16] by (simp add: events_envelope_def)
qed

lemma activation_ok_iff: "activation_ok a \<longleftrightarrow> (\<exists>w0 w1 w2 w3. a = [w0, w1, w2, w3])"
  by (auto simp: activation_ok_def ACTIVATION_WORDS_def length_Suc_conv numeral_eq_Suc)

lemma length_activation_to_bytes: "activation_ok a \<Longrightarrow> length (activation_to_bytes a) = 32"
  by (auto simp: activation_ok_iff activation_to_bytes_def)

lemma activation_from_to:
  assumes "activation_ok a"
  shows "activation_from_bytes (activation_to_bytes a) = Some a"
proof -
  obtain w0 w1 w2 w3 where a: "a = [w0, w1, w2, w3]" using assms by (auto simp: activation_ok_iff)
  define bs where "bs = activation_to_bytes a"
  have bs: "bs = wle 8 w0 @ wle 8 w1 @ wle 8 w2 @ wle 8 w3" by (simp add: bs_def a activation_to_bytes_def)
  have "rdw 8 bs 0 = w0" unfolding bs by (rule rdw_head) simp
  moreover have "rdw 8 bs 8 = w1" unfolding bs by (rule rdw_at) simp_all
  moreover have "rdw 8 bs 16 = w2" using rdw_at[of "wle 8 w0 @ wle 8 w1" 16 8 w2] by (simp add: bs)
  moreover have "rdw 8 bs 24 = w3" using rdw_at[of "wle 8 w0 @ wle 8 w1 @ wle 8 w2" 24 8 w3 "[]"] by (simp add: bs)
  moreover have "length bs = 32" by (simp add: bs)
  ultimately have "activation_from_bytes bs = Some a"
    by (simp add: activation_from_bytes_def ACTIVATION_BYTES_def ACTIVATION_WORDS_def a upt_rec numeral_eq_Suc)
  then show ?thesis by (simp add: bs_def)
qed

lemma activation_to_from:
  assumes "length bs = 32"
  shows "activation_ok (the (activation_from_bytes bs))" "activation_to_bytes (the (activation_from_bytes bs)) = bs"
proof -
  define a :: activation_set where "a = [rdw 8 bs 0, rdw 8 bs 8, rdw 8 bs 16, rdw 8 bs 24]"
  have from_eq: "activation_from_bytes bs = Some a"
    using assms by (simp add: activation_from_bytes_def ACTIVATION_BYTES_def ACTIVATION_WORDS_def a_def upt_rec)
  have "bs = drop 0 bs" by simp
  also have "\<dots> = slice_of bs 0 8 @ drop 8 bs" by (rule buffer_split) simp
  also have "drop 8 bs = slice_of bs 8 8 @ drop 16 bs" by (rule buffer_split) simp
  also have "drop 16 bs = slice_of bs 16 8 @ drop 24 bs" by (rule buffer_split) simp
  also have "drop 24 bs = slice_of bs 24 8" using slice_rest_end[of 24 8 bs] assms by simp
  finally have "activation_to_bytes a = bs"
    using assms wle_rdw[of 8 0 bs, where 'a = 64] wle_rdw[of 8 8 bs, where 'a = 64]
      wle_rdw[of 8 16 bs, where 'a = 64] wle_rdw[of 8 24 bs, where 'a = 64]
    by (simp add: activation_to_bytes_def a_def)
  then show "activation_ok (the (activation_from_bytes bs))" "activation_to_bytes (the (activation_from_bytes bs)) = bs"
    by (simp_all add: from_eq) (simp add: a_def activation_ok_def ACTIVATION_WORDS_def)
qed

lemma activation_exact: "activation_from_bytes bs = Some a \<longleftrightarrow> activation_ok a \<and> bs = activation_to_bytes a"
proof
  assume s: "activation_from_bytes bs = Some a"
  then have "length bs = 32" by (auto simp: activation_from_bytes_def ACTIVATION_BYTES_def split: if_splits)
  with activation_to_from[OF this] s show "activation_ok a \<and> bs = activation_to_bytes a" by simp
qed (auto simp: activation_from_to)

subsection \<open>Requests\<close>

fun events_request_bytes :: "events_request \<Rightarrow> bytes" where
  "events_request_bytes (ConfigGet nonce) = msg_events_config_get nonce"
| "events_request_bytes (ConfigSet nonce revision sz a) = msg_events_config_set nonce revision sz a"
| "events_request_bytes (Dump nonce) = msg_events_dump nonce"
| "events_request_bytes (StreamStart nonce target flags path) = msg_events_stream_start nonce target flags path"
| "events_request_bytes (StreamStop nonce stream_id) = msg_events_stream_stop nonce stream_id"
| "events_request_bytes (StreamList nonce) = msg_events_stream_list nonce"

definition stream_start_ok :: "u8 \<Rightarrow> u8 \<Rightarrow> bytes \<Rightarrow> bool" where
  "stream_start_ok target flags path \<longleftrightarrow>
     (target = EVENTS_TARGET_CLIENT \<and> (flags = 0 \<or> flags = EVENTS_STREAM_HISTORY) \<and> path = []
      \<or> target = EVENTS_TARGET_FILE \<and> flags AND NOT EVENTS_STREAM_FLAGS = 0 \<and> path \<noteq> [])
     \<and> length path < 65536 \<and> utf8_valid path \<and> 0 \<notin> set path"

fun events_request_ok :: "events_request \<Rightarrow> bool" where
  "events_request_ok (ConfigSet nonce revision sz a) \<longleftrightarrow> activation_ok a"
| "events_request_ok (StreamStart nonce target flags path) \<longleftrightarrow> stream_start_ok target flags path"
| "events_request_ok _ \<longleftrightarrow> True"

lemma target_cases: "\<not> t > EVENTS_TARGET_FILE \<longleftrightarrow> t = EVENTS_TARGET_CLIENT \<or> t = EVENTS_TARGET_FILE"
proof -
  have "\<not> 1 < t \<longleftrightarrow> unat t \<le> 1" by (simp add: word_less_nat_alt not_less)
  also have "\<dots> \<longleftrightarrow> t = 0 \<or> t = 1" by (auto simp: le_Suc_eq word_unat_eq_iff)
  finally show ?thesis by (simp add: wire_defs)
qed

lemma target_differ: "EVENTS_TARGET_CLIENT \<noteq> EVENTS_TARGET_FILE"
  by (simp add: wire_defs)

lemma bit_history: "bit EVENTS_STREAM_HISTORY n \<longleftrightarrow> n = 0"
  by (simp add: EVENTS_STREAM_HISTORY_def bit_1_iff)

lemma bit_append: "bit EVENTS_STREAM_APPEND n \<longleftrightarrow> n = 1"
  using bit_exp_iff[where 'a = "8 word", of 1 n] by (auto simp: EVENTS_STREAM_APPEND_def possible_bit_def)

lemma bit_stream_flags: "bit EVENTS_STREAM_FLAGS n \<longleftrightarrow> n = 0 \<or> n = 1"
  by (simp add: EVENTS_STREAM_FLAGS_def bit_or_iff bit_history bit_append)

lemma flags_masked: "flags AND NOT EVENTS_STREAM_FLAGS = 0 \<longleftrightarrow> flags AND EVENTS_STREAM_FLAGS = flags"
proof
  assume h: "flags AND NOT EVENTS_STREAM_FLAGS = 0"
  show "flags AND EVENTS_STREAM_FLAGS = flags"
  proof (rule bit_eqI)
    fix n assume n: "possible_bit TYPE(8 word) n"
    have "\<not> bit (flags AND NOT EVENTS_STREAM_FLAGS) n" using h by simp
    then show "bit (flags AND EVENTS_STREAM_FLAGS) n \<longleftrightarrow> bit flags n"
      using n by (simp only: bit_and_iff bit_not_iff) blast
  qed
next
  assume h: "flags AND EVENTS_STREAM_FLAGS = flags"
  show "flags AND NOT EVENTS_STREAM_FLAGS = 0" by (subst h[symmetric]) (simp add: and.assoc)
qed

lemma client_flags:
  "flags AND NOT EVENTS_STREAM_FLAGS = 0 \<and> flags AND EVENTS_STREAM_APPEND = 0
    \<longleftrightarrow> flags = 0 \<or> flags = EVENTS_STREAM_HISTORY" (is "?l \<longleftrightarrow> ?r")
proof
  assume l: ?l
  have only: "bit flags n \<longleftrightarrow> n = 0 \<and> bit flags 0" for n
  proof -
    have "flags AND EVENTS_STREAM_FLAGS = flags" using l by (simp add: flags_masked)
    then have "bit flags n \<Longrightarrow> n = 0 \<or> n = 1" by (metis bit_and_iff bit_stream_flags)
    moreover have "\<not> bit (flags AND EVENTS_STREAM_APPEND) 1" using l by simp
    ultimately show ?thesis by (auto simp only: bit_and_iff bit_append)
  qed
  have "flags = (if bit flags 0 then EVENTS_STREAM_HISTORY else 0)"
  proof (rule bit_eqI)
    fix n
    show "bit flags n \<longleftrightarrow> bit (if bit flags 0 then EVENTS_STREAM_HISTORY else 0) n"
      by (subst only) (simp add: bit_history)
  qed
  then show ?r by (simp split: if_splits)
qed (auto simp: wire_defs)

lemma parse_stream_start_iff:
  "parse_stream_start nonce body = Inr r \<longleftrightarrow>
    (\<exists>target flags path. r = StreamStart nonce target flags path \<and> stream_start_ok target flags path
      \<and> body = [target, flags] @ to_le 2 (length path) @ path)" (is "?l \<longleftrightarrow> ?r")
proof
  assume l: ?l
  define path where "path = drop 4 body"
  have len: "4 \<le> length body" "length body = 4 + rd 2 body 2"
    and ok: "stream_start_ok (body ! 0) (body ! 1) path"
    and r: "r = StreamStart nonce (body ! 0) (body ! 1) path"
    using l client_flags[of "body ! 1"] target_cases[of "body ! 0"] rd_bound[of 2 body 2]
    by (auto simp: parse_stream_start_def stream_start_ok_def Let_def path_def EVENTS_TARGET_CLIENT_def EVENTS_TARGET_FILE_def
        split: if_splits option.splits)
  have "body = drop 0 body" by simp
  also have "\<dots> = [body ! 0] @ drop 1 body" by (rule buffer_head) (use len in auto)
  also have "drop 1 body = [body ! 1] @ drop 2 body" by (rule buffer_head) (use len in auto)
  also have "drop 2 body = slice_of body 2 2 @ drop 4 body" by (rule buffer_split) simp
  also have "slice_of body 2 2 = to_le 2 (length path)" using to_le_rd[of 2 2 body] len by (simp add: path_def)
  finally have "body = [body ! 0, body ! 1] @ to_le 2 (length path) @ path" by (simp add: path_def)
  with r ok show ?r by blast
next
  assume ?r
  then obtain target flags path where r: "r = StreamStart nonce target flags path"
    and ok: "stream_start_ok target flags path" and body: "body = [target, flags] @ to_le 2 (length path) @ path" by blast
  have "rd 2 body 2 = length path"
    using rd_at[of "[target, flags]" 2 2 "length path" path] ok by (simp add: body stream_start_ok_def)
  moreover have "drop 4 body = path" "length body = 4 + length path" "body ! 0 = target" "body ! 1 = flags"
    by (simp_all add: body)
  moreover have "\<not> target > EVENTS_TARGET_FILE" using ok target_cases[of target] by (auto simp: stream_start_ok_def)
  moreover have "flags AND NOT EVENTS_STREAM_FLAGS = 0" "\<not> (target = EVENTS_TARGET_CLIENT \<and> flags AND EVENTS_STREAM_APPEND \<noteq> 0)"
    "\<not> (0 \<in> set path \<or> target = EVENTS_TARGET_CLIENT \<and> path \<noteq> [] \<or> target = EVENTS_TARGET_FILE \<and> path = [])"
    using ok client_flags[of flags] target_differ by (auto simp: stream_start_ok_def)
  moreover have "utf8_valid path" using ok by (simp add: stream_start_ok_def)
  ultimately show ?l by (simp add: parse_stream_start_def r Let_def from_utf8_valid)
qed

lemma body_word: "length body = k \<Longrightarrow> LENGTH('a) = 8 * k \<Longrightarrow> wle k (rdw k body 0 :: 'a::len word) = body"
  using wle_rdw[of k 0 body, where 'a = 'a] slice_0_length[of body] by simp

lemma parse_request_envelope:
  "parse_events_request (events_envelope op nonce @ body) =
    (if op = EVENTS_CONFIG_GET then (if body = [] then Inr (ConfigGet nonce) else Inl EventsTrailing)
     else if op = EVENTS_CONFIG_SET then
       (if length body < 16 + ACTIVATION_BYTES then Inl EventsTruncated
        else if length body \<noteq> 16 + ACTIVATION_BYTES then Inl EventsTrailing
        else Inr (ConfigSet nonce (rdw 8 body 0) (rdw 8 body 8) (the (activation_from_bytes (drop 16 body)))))
     else if op = EVENTS_DUMP then (if body = [] then Inr (Dump nonce) else Inl EventsTrailing)
     else if op = EVENTS_STREAM_START then parse_stream_start nonce body
     else if op = EVENTS_STREAM_STOP then
       (if length body < 4 then Inl EventsTruncated
        else if length body \<noteq> 4 then Inl EventsTrailing
        else Inr (StreamStop nonce (rdw 4 body 0)))
     else if op = EVENTS_STREAM_LIST then (if body = [] then Inr (StreamList nonce) else Inl EventsTrailing)
     else Inl InvalidOperation)"
proof -
  have "events_envelope op nonce @ body \<noteq> []" by (simp add: events_envelope_def)
  then show ?thesis by (simp add: parse_events_request_def Let_def del: append_is_Nil_conv)
qed

lemma parse_request_at_envelope:
  "parse_events_request (events_envelope op nonce @ body) = Inr r \<longleftrightarrow>
    events_request_ok r \<and> events_envelope op nonce @ body = events_request_bytes r" (is "?l \<longleftrightarrow> ?r")
proof
  assume l: ?l
  then have ops: "op = EVENTS_CONFIG_GET \<or> op = EVENTS_CONFIG_SET \<or> op = EVENTS_DUMP \<or> op = EVENTS_STREAM_START
    \<or> op = EVENTS_STREAM_STOP \<or> op = EVENTS_STREAM_LIST"
    by (auto simp: parse_request_envelope split: if_splits)
  from ops l show ?r
  proof (elim disjE, goal_cases)
    case 2
    from 2 have len: "length body = 48" and r: "r = ConfigSet nonce (rdw 8 body 0) (rdw 8 body 8) (the (activation_from_bytes (drop 16 body)))"
      by (auto simp: parse_request_envelope wire_defs split: if_splits)
    have "body = drop 0 body" by simp
    also have "\<dots> = slice_of body 0 8 @ drop 8 body" by (rule buffer_split) simp
    also have "drop 8 body = slice_of body 8 8 @ drop 16 body" by (rule buffer_split) simp
    finally have "body = wle 8 (rdw 8 body 0 :: u64) @ wle 8 (rdw 8 body 8 :: u64) @ drop 16 body"
      using len wle_rdw[of 8 0 body, where 'a = 64] wle_rdw[of 8 8 body, where 'a = 64] by simp
    then show ?case
      using 2 activation_to_from[of "drop 16 body"] len by (simp add: r msg_events_config_set_def)
  next
    case 4
    then have "parse_stream_start nonce body = Inr r"
      by (simp add: parse_request_envelope wire_defs)
    then show ?case
      using 4 by (auto simp: parse_stream_start_iff msg_events_stream_start_def stream_start_ok_def Let_def)
  next
    case 5
    then show ?case
      using body_word[of body 4, where 'a = 32]
      by (auto simp: parse_request_envelope wire_defs msg_events_stream_stop_def split: if_splits)
  qed (auto simp: parse_request_envelope wire_defs msg_events_config_get_def msg_events_dump_def
      msg_events_stream_list_def split: if_splits)
next
  assume ?r
  then have ok: "events_request_ok r" and env: "events_envelope op nonce @ body = events_request_bytes r" by simp_all
  show ?l
  proof (cases r)
    case (ConfigSet nonce' revision sz a)
    define b where "b = wle 8 revision @ wle 8 sz @ activation_to_bytes a"
    have "rdw 8 b 0 = revision" unfolding b_def by (rule rdw_head) simp
    moreover have "rdw 8 b 8 = sz" unfolding b_def by (rule rdw_at) simp_all
    moreover have "drop 16 b = activation_to_bytes a" "length b = 48"
      using ok length_activation_to_bytes[of a] by (simp_all add: b_def ConfigSet)
    ultimately show ?thesis
      using ok unfolding env
      by (simp add: ConfigSet msg_events_config_set_def parse_request_envelope activation_from_to flip: b_def)
        (simp add: wire_defs)
  next
    case (StreamStart nonce' target flags path)
    have "parse_stream_start nonce' ([target, flags] @ to_le 2 (length path) @ path) = Inr r"
      using ok by (auto simp: parse_stream_start_iff StreamStart)
    then show ?thesis
      using ok unfolding env
      by (simp add: StreamStart msg_events_stream_start_def Let_def stream_start_ok_def parse_events_request_def)
        (simp add: wire_defs)
  next
    case (StreamStop nonce' stream_id)
    then show ?thesis
      using rdw_head[of 4 stream_id "[]"] unfolding env
      by (simp add: msg_events_stream_stop_def parse_request_envelope) (simp add: wire_defs)
  qed (unfold env, simp_all add: msg_events_config_get_def msg_events_dump_def msg_events_stream_list_def
      parse_request_envelope[where body = "[]", simplified], simp_all add: wire_defs)
qed

lemma request_bytes_envelope: "\<exists>op nonce body. events_request_bytes r = events_envelope op nonce @ body"
proof (cases r)
  case (ConfigGet nonce)
  then show ?thesis by (intro exI[where x = EVENTS_CONFIG_GET] exI[where x = nonce] exI[where x = "[]"])
    (simp add: msg_events_config_get_def)
next
  case (Dump nonce)
  then show ?thesis by (intro exI[where x = EVENTS_DUMP] exI[where x = nonce] exI[where x = "[]"])
    (simp add: msg_events_dump_def)
next
  case (StreamList nonce)
  then show ?thesis by (intro exI[where x = EVENTS_STREAM_LIST] exI[where x = nonce] exI[where x = "[]"])
    (simp add: msg_events_stream_list_def)
qed (auto simp: msg_events_config_set_def msg_events_stream_start_def msg_events_stream_stop_def Let_def)

lemma parse_events_request_iff:
  "parse_events_request packet = Inr r \<longleftrightarrow> events_request_ok r \<and> packet = events_request_bytes r" (is "?l \<longleftrightarrow> ?r")
proof
  assume l: ?l
  then have "packet = events_envelope (packet ! 2) (rdw 2 packet 3) @ drop 5 packet"
    by (intro envelope_split) (auto simp: parse_events_request_def split: if_splits)
  then show ?r using l parse_request_at_envelope by metis
next
  assume r: ?r
  then show ?l using request_bytes_envelope[of r] parse_request_at_envelope by metis
qed

subsection \<open>Records in a packet\<close>

definition record_wf :: "bytes \<Rightarrow> bool" where
  "record_wf r \<longleftrightarrow> EVENT_RECORD_HEADER_LEN \<le> length r \<and> rd 4 r 0 = length r"

text \<open>Cutting a buffer into records by their length fields.\<close>

fun cut_records :: "nat \<Rightarrow> bytes \<Rightarrow> bytes list" where
  "cut_records 0 bs = []"
| "cut_records (Suc n) bs = take (rd 4 bs 0) bs # cut_records n (drop (rd 4 bs 0) bs)"

lemma record_wf_field: "record_wf r \<Longrightarrow> rd 4 (r @ rest) 0 = length r"
  by (simp add: record_wf_def EVENT_RECORD_HEADER_LEN_def rd_append_left)

lemma length_cut_records [simp]: "length (cut_records n bs) = n"
  by (induction n bs rule: cut_records.induct) simp_all

lemma cut_records_concat: "list_all record_wf rs \<Longrightarrow> cut_records (length rs) (concat rs @ rest) = rs"
  by (induction rs) (simp_all add: record_wf_field)

lemma skip_records_iff:
  "at \<le> length packet \<Longrightarrow> skip_records n packet at = Inr at' \<longleftrightarrow>
    list_all record_wf (cut_records n (drop at packet)) \<and> at' \<le> length packet
    \<and> drop at packet = concat (cut_records n (drop at packet)) @ drop at' packet
    \<and> at' = at + length (concat (cut_records n (drop at packet)))"
proof (induction n packet at rule: skip_records.induct)
  case (1 packet at)
  then show ?case by auto
next
  case (2 n packet at)
  define len where "len = rd 4 packet at"
  define b where "b = drop at packet"
  have r: "rd 4 b 0 = len" by (simp add: b_def len_def rd_drop)
  have lb: "length b = length packet - at" by (simp add: b_def)
  have wf: "record_wf (take len b) \<longleftrightarrow> 32 \<le> len \<and> len \<le> length b"
  proof
    assume "record_wf (take len b)"
    then show "32 \<le> len \<and> len \<le> length b"
      using rd_append_left[of 0 4 "take len b" "drop len b"] r
      by (auto simp: record_wf_def EVENT_RECORD_HEADER_LEN_def min_def split: if_splits)
  next
    assume "32 \<le> len \<and> len \<le> length b"
    then show "record_wf (take len b)"
      using rd_append_left[of 0 4 "take len b" "drop len b"] r
      by (simp add: record_wf_def EVENT_RECORD_HEADER_LEN_def)
  qed
  show ?case
  proof (cases "32 \<le> len \<and> len \<le> length b")
    case True
    have fits: "at + len \<le> length packet" using True 2(2) lb by arith
    have d: "drop (at + len) packet = drop len b" by (simp add: b_def add.commute)
    have split: "b = take len b @ drop len b" by simp
    have "skip_records (Suc n) packet at = skip_records n packet (at + len)"
      using True lb by (simp add: len_def EVENT_RECORD_HEADER_LEN_def)
    moreover have "skip_records n packet (at + len) = Inr at' \<longleftrightarrow>
      list_all record_wf (cut_records n (drop len b)) \<and> at' \<le> length packet
      \<and> drop len b = concat (cut_records n (drop len b)) @ drop at' packet
      \<and> at' = at + len + length (concat (cut_records n (drop len b)))"
      using 2(1)[OF _ len_def _ fits] True lb by (simp add: d EVENT_RECORD_HEADER_LEN_def)
    moreover have "b = take len b @ concat (cut_records n (drop len b)) @ drop at' packet
      \<longleftrightarrow> drop len b = concat (cut_records n (drop len b)) @ drop at' packet"
      by (metis split same_append_eq)
    moreover have "length (take len b) = len" using True by simp
    ultimately show ?thesis using True wf by (auto simp: r simp flip: b_def)
  next
    case False
    then have "skip_records (Suc n) packet at = Inl EventsTruncated"
      using lb by (auto simp: len_def EVENT_RECORD_HEADER_LEN_def)
    then show ?thesis using False wf by (auto simp: r simp flip: b_def simp del: skip_records.simps)
  qed
qed

subsection \<open>Entries of a stream list\<close>

definition stream_info_ok :: "event_stream_info \<Rightarrow> bool" where
  "stream_info_ok s \<longleftrightarrow> si_state s \<in> {EVENTS_STREAM_STATE_RUNNING, EVENTS_STREAM_STATE_STOPPED, EVENTS_STREAM_STATE_FAILED}
     \<and> si_flags s AND NOT EVENTS_STREAM_FLAGS = 0 \<and> utf8_valid (si_path s) \<and> length (si_path s) < 65536
     \<and> utf8_valid (si_error s) \<and> length (si_error s) < 65536"

lemma stream_info_bytes_ok:
  "stream_info_ok s \<Longrightarrow> stream_info_bytes s = wle 4 (si_stream_id s) @ [si_state s, si_flags s]
     @ wle 8 (si_records s) @ wle 8 (si_bytes s) @ wle 8 (si_lost s)
     @ to_le 2 (length (si_path s)) @ to_le 2 (length (si_error s)) @ si_path s @ si_error s"
  by (simp add: stream_info_bytes_def Let_def clip_str_id stream_info_ok_def flags_masked)

lemma read_stream_info_head:
  assumes ok: "stream_info_ok s"
  shows "read_stream_info (stream_info_bytes s @ rest) 0 = Inr (s, length (stream_info_bytes s))"
proof -
  define p where "p = si_path s"
  define e where "e = si_error s"
  define b where "b = stream_info_bytes s @ rest"
  have b: "b = wle 4 (si_stream_id s) @ [si_state s, si_flags s] @ wle 8 (si_records s) @ wle 8 (si_bytes s)
      @ wle 8 (si_lost s) @ to_le 2 (length p) @ to_le 2 (length e) @ p @ e @ rest"
    by (simp add: b_def stream_info_bytes_ok[OF ok] p_def e_def)
  define h where "h = wle 4 (si_stream_id s) @ [si_state s, si_flags s] @ wle 8 (si_records s) @ wle 8 (si_bytes s) @ wle 8 (si_lost s)"
  have h: "length h = 30" "b = h @ to_le 2 (length p) @ to_le 2 (length e) @ p @ e @ rest" by (simp_all add: h_def b)
  have short: "length p < 65536" "length e < 65536" "utf8_valid p" "utf8_valid e"
    using ok by (simp_all add: stream_info_ok_def p_def e_def)
  have "rdw 4 b 0 = si_stream_id s" unfolding b by (rule rdw_head) simp
  moreover have "b ! 4 = si_state s" "b ! 5 = si_flags s" by (simp_all add: b nth_append)
  moreover have "rdw 8 b 6 = si_records s"
    using rdw_at[of "wle 4 (si_stream_id s) @ [si_state s, si_flags s]" 6 8 "si_records s"] by (simp add: b)
  moreover have "rdw 8 b 14 = si_bytes s"
    using rdw_at[of "wle 4 (si_stream_id s) @ [si_state s, si_flags s] @ wle 8 (si_records s)" 14 8 "si_bytes s"] by (simp add: b)
  moreover have "rdw 8 b 22 = si_lost s"
    using rdw_at[of "wle 4 (si_stream_id s) @ [si_state s, si_flags s] @ wle 8 (si_records s) @ wle 8 (si_bytes s)" 22 8 "si_lost s"]
    by (simp add: b)
  moreover have "rd 2 b 30 = length p" unfolding h(2) using rd_at[OF h(1)] short by simp
  moreover have "rd 2 b 32 = length e"
    using rd_at[of "h @ to_le 2 (length p)" 32 2 "length e" "p @ e @ rest"] h short by simp
  moreover have "slice_of b 34 (length p) = p"
    using slice_at[of "h @ to_le 2 (length p) @ to_le 2 (length e)" 34 "length p" p "e @ rest"] h by simp
  moreover have "slice_of b (34 + length p) (length e) = e"
    using slice_at[of "h @ to_le 2 (length p) @ to_le 2 (length e) @ p" "34 + length p" "length e" e rest] h by simp
  moreover have "length b = 34 + length p + length e + length rest" by (simp add: h(1) h(2))
  moreover have "length (stream_info_bytes s) = 34 + length p + length e"
    by (simp add: stream_info_bytes_ok[OF ok] p_def e_def)
  ultimately show ?thesis
    using ok short by (simp add: read_stream_info_def Let_def from_utf8_valid stream_info_ok_def p_def e_def flip: b_def)
qed

lemma read_stream_info_bytes:
  assumes l: "read_stream_info b 0 = Inr (s, k)"
  shows "stream_info_ok s" "k \<le> length b" "b = stream_info_bytes s @ drop k b" "k = length (stream_info_bytes s)"
proof -
  define pl where "pl = rd 2 b 30"
  define el where "el = rd 2 b 32"
  have len: "34 + pl + el \<le> length b" and k: "k = 34 + pl + el"
    and f: "si_stream_id s = rdw 4 b 0" "si_state s = b ! 4" "si_flags s = b ! 5" "si_records s = rdw 8 b 6"
      "si_bytes s = rdw 8 b 14" "si_lost s = rdw 8 b 22" "si_path s = slice_of b 34 pl" "si_error s = slice_of b (34 + pl) el"
    and st: "si_state s \<in> {EVENTS_STREAM_STATE_RUNNING, EVENTS_STREAM_STATE_STOPPED, EVENTS_STREAM_STATE_FAILED}"
    and v: "si_flags s AND NOT EVENTS_STREAM_FLAGS = 0" "utf8_valid (si_path s)" "utf8_valid (si_error s)"
    using l by (auto simp: read_stream_info_def Let_def pl_def el_def split: if_splits option.splits)
  have "pl < 65536" "el < 65536" using rd_bound[of 2 b 30] rd_bound[of 2 b 32] by (simp_all add: pl_def el_def)
  then show ok: "stream_info_ok s" using st v len by (simp add: stream_info_ok_def f(7,8))
  show "k \<le> length b" using len k by simp
  have "b = drop 0 b" by simp
  also have "\<dots> = slice_of b 0 4 @ drop 4 b" by (rule buffer_split) simp
  also have "drop 4 b = [b ! 4] @ drop 5 b" by (rule buffer_head) (use len in auto)
  also have "drop 5 b = [b ! 5] @ drop 6 b" by (rule buffer_head) (use len in auto)
  also have "drop 6 b = slice_of b 6 8 @ drop 14 b" by (rule buffer_split) simp
  also have "drop 14 b = slice_of b 14 8 @ drop 22 b" by (rule buffer_split) simp
  also have "drop 22 b = slice_of b 22 8 @ drop 30 b" by (rule buffer_split) simp
  also have "drop 30 b = slice_of b 30 2 @ drop 32 b" by (rule buffer_split) simp
  also have "drop 32 b = slice_of b 32 2 @ drop 34 b" by (rule buffer_split) simp
  also have "drop 34 b = slice_of b 34 pl @ drop (34 + pl) b" by (rule buffer_split) simp
  also have "drop (34 + pl) b = slice_of b (34 + pl) el @ drop k b" by (rule buffer_split) (simp add: k)
  finally have parts: "b = slice_of b 0 4 @ [b ! 4] @ [b ! 5] @ slice_of b 6 8 @ slice_of b 14 8 @ slice_of b 22 8
      @ slice_of b 30 2 @ slice_of b 32 2 @ slice_of b 34 pl @ slice_of b (34 + pl) el @ drop k b" by simp
  have w: "wle 4 (si_stream_id s) = slice_of b 0 4" "wle 8 (si_records s) = slice_of b 6 8"
    "wle 8 (si_bytes s) = slice_of b 14 8" "wle 8 (si_lost s) = slice_of b 22 8"
    unfolding f using len by (simp_all add: wle_rdw)
  have n: "to_le 2 (length (si_path s)) = slice_of b 30 2" "to_le 2 (length (si_error s)) = slice_of b 32 2"
    using len to_le_rd[of 30 2 b] to_le_rd[of 32 2 b] by (simp_all add: f(7,8) pl_def el_def)
  show "b = stream_info_bytes s @ drop k b"
    unfolding stream_info_bytes_ok[OF ok] w n unfolding f(2,3,7,8) using parts by simp
  show "k = length (stream_info_bytes s)" using len by (simp add: stream_info_bytes_ok[OF ok] f(7,8) k)
qed

lemma read_stream_info_shift:
  assumes "at \<le> length packet"
  shows "read_stream_info packet at = map_sum id (\<lambda>(s, k). (s, at + k)) (read_stream_info (drop at packet) 0)"
proof -
  have "drop at packet ! i = packet ! (at + i)" for i using assms by simp
  then show ?thesis
    by (simp add: read_stream_info_def Let_def rd_drop rdw_drop slice_drop add.assoc from_utf8_def)
qed

lemma read_stream_info_drop:
  assumes "at \<le> length packet"
  shows "read_stream_info packet at = Inr (s, at') \<longleftrightarrow> at \<le> at' \<and> read_stream_info (drop at packet) 0 = Inr (s, at' - at)"
  unfolding read_stream_info_shift[OF assms] by (cases "read_stream_info (drop at packet) 0") auto

lemma read_stream_info_iff:
  assumes "at \<le> length packet"
  shows "read_stream_info packet at = Inr (s, at') \<longleftrightarrow> stream_info_ok s \<and> at' \<le> length packet
    \<and> drop at packet = stream_info_bytes s @ drop at' packet \<and> at' = at + length (stream_info_bytes s)" (is "?l \<longleftrightarrow> ?r")
proof
  assume ?l
  then have le: "at \<le> at'" and rd: "read_stream_info (drop at packet) 0 = Inr (s, at' - at)"
    using read_stream_info_drop[OF assms] by simp_all
  note b = read_stream_info_bytes[OF rd]
  have "drop (at' - at) (drop at packet) = drop at' packet" using le by simp
  then show ?r using b le assms by auto
next
  assume r: ?r
  then have "read_stream_info (drop at packet) 0 = Inr (s, at' - at)"
    using read_stream_info_head[of s "drop at' packet"] by simp
  then show ?l using r read_stream_info_drop[OF assms] by simp
qed

lemma read_streams_iff:
  "at \<le> length packet \<Longrightarrow> read_streams n packet at = Inr (infos, at') \<longleftrightarrow>
    length infos = n \<and> list_all stream_info_ok infos \<and> at' \<le> length packet
    \<and> drop at packet = concat (map stream_info_bytes infos) @ drop at' packet
    \<and> at' = at + length (concat (map stream_info_bytes infos))"
proof (induction n arbitrary: "at" infos)
  case 0
  then show ?case by auto
next
  case (Suc n)
  have step: "read_streams (Suc n) packet at = Inr (infos, at') \<longleftrightarrow> (\<exists>s rest m. infos = s # rest
      \<and> read_stream_info packet at = Inr (s, m) \<and> read_streams n packet m = Inr (rest, at'))"
    by (auto simp: and_then_Inr split: prod.splits)
  have "read_stream_info packet at = Inr (s, m) \<and> read_streams n packet m = Inr (rest, at') \<longleftrightarrow>
      stream_info_ok s \<and> m = at + length (stream_info_bytes s) \<and> length rest = n \<and> list_all stream_info_ok rest
      \<and> at' \<le> length packet \<and> drop at packet = stream_info_bytes s @ concat (map stream_info_bytes rest) @ drop at' packet
      \<and> at' = m + length (concat (map stream_info_bytes rest))" (is "?l \<longleftrightarrow> ?r") for s rest m
  proof
    assume ?l
    then show ?r using read_stream_info_iff[OF Suc.prems, of s m] Suc.IH[of m rest] by auto
  next
    assume r: ?r
    then have m: "m \<le> length packet" by simp
    have "m = at + length (stream_info_bytes s)" using r by simp
    then have "drop m packet = drop (length (stream_info_bytes s)) (drop at packet)" by (simp add: add.commute)
    also have "\<dots> = drop (length (stream_info_bytes s)) (stream_info_bytes s @ concat (map stream_info_bytes rest) @ drop at' packet)"
      using r by (simp only:)
    also have "\<dots> = concat (map stream_info_bytes rest) @ drop at' packet" by simp
    finally have "drop m packet = concat (map stream_info_bytes rest) @ drop at' packet" .
    then show ?l using r m read_stream_info_iff[OF Suc.prems, of s m] Suc.IH[OF m, of rest] by simp
  qed
  then show ?case unfolding step by (cases infos) auto
qed

subsection \<open>Messages\<close>

fun events_message_bytes :: "events_message \<Rightarrow> bytes" where
  "events_message_bytes (MsgConfig nonce c) = msg_events_config nonce c"
| "events_message_bytes (MsgResult nonce status stream_id detail) = msg_events_result nonce status stream_id detail"
| "events_message_bytes (MsgDump nonce dump) = msg_events_dumped nonce dump"
| "events_message_bytes (MsgStreamStarted nonce status stream_id detail) = msg_events_stream_started nonce status stream_id detail"
| "events_message_bytes (MsgRecords stream_id count records) = msg_events_records stream_id (cut_records (unat count) records)"
| "events_message_bytes (MsgStreamStopped stream_id status detail) = msg_events_stream_stopped stream_id status detail"
| "events_message_bytes (MsgStreamGap stream_id lost) = msg_events_stream_gap stream_id lost"
| "events_message_bytes (MsgStreams nonce streams) = msg_events_streams nonce streams"

fun events_message_ok :: "events_message \<Rightarrow> bool" where
  "events_message_ok (MsgConfig nonce c) \<longleftrightarrow> activation_ok (ec_activations c)"
| "events_message_ok (MsgResult nonce status stream_id detail) \<longleftrightarrow> utf8_valid detail"
| "events_message_ok (MsgDump nonce dump) \<longleftrightarrow> True"
| "events_message_ok (MsgStreamStarted nonce status stream_id detail) \<longleftrightarrow> utf8_valid detail"
| "events_message_ok (MsgRecords stream_id count records) \<longleftrightarrow> count \<noteq> 0
     \<and> list_all record_wf (cut_records (unat count) records) \<and> concat (cut_records (unat count) records) = records"
| "events_message_ok (MsgStreamStopped stream_id status detail) \<longleftrightarrow> utf8_valid detail"
| "events_message_ok (MsgStreamGap stream_id lost) \<longleftrightarrow> True"
| "events_message_ok (MsgStreams nonce streams) \<longleftrightarrow> length streams < 65536 \<and> list_all stream_info_ok streams"

text \<open>The kind of a packet and what stands behind it.\<close>

definition kind_head :: "u8 \<Rightarrow> bytes" where
  "kind_head kind = [EVENTS, EVENTS_VERSION, kind]"

lemma kind_head_fields [simp]:
  "length (kind_head kind) = 3"
  "drop 3 (kind_head kind @ body) = body"
  "(kind_head kind @ body) ! 0 = EVENTS"
  "(kind_head kind @ body) ! Suc 0 = EVENTS_VERSION"
  "(kind_head kind @ body) ! 2 = kind"
  by (simp_all add: kind_head_def)

lemma envelope_kind_head: "events_envelope op nonce = kind_head op @ wle 2 nonce"
  by (simp add: events_envelope_def kind_head_def)

lemma kind_head_split:
  assumes "3 \<le> length packet" "packet ! 0 = EVENTS" "packet ! 1 = EVENTS_VERSION"
  shows "packet = kind_head (packet ! 2) @ drop 3 packet"
proof -
  have "packet = drop 0 packet" by simp
  also have "\<dots> = [packet ! 0] @ drop 1 packet" by (rule buffer_head) (use assms(1) in auto)
  also have "drop 1 packet = [packet ! 1] @ drop 2 packet" by (rule buffer_head) (use assms(1) in auto)
  also have "drop 2 packet = [packet ! 2] @ drop 3 packet" by (rule buffer_head) (use assms(1) in auto)
  finally show ?thesis using assms by (simp add: kind_head_def)
qed

lemma kind_head_reads:
  "3 \<le> a \<Longrightarrow> rdw k (kind_head kind @ body) a = rdw k body (a - 3)"
  "3 \<le> a \<Longrightarrow> rd k (kind_head kind @ body) a = rd k body (a - 3)"
  "3 \<le> a \<Longrightarrow> drop a (kind_head kind @ body) = drop (a - 3) body"
  "3 \<le> a \<Longrightarrow> (kind_head kind @ body) ! a = body ! (a - 3)"
  by (simp_all add: rdw_append_right rd_append_right nth_append)

text \<open>The three layouts behind the kind: status, records, one word.\<close>

lemma parse_status_message_iff:
  assumes k: "kind = EVENTS_RESULT \<or> kind = EVENTS_STREAM_STARTED"
  shows "parse_status_message (kind_head kind @ body) = Inr m \<longleftrightarrow> (\<exists>nonce status stream_id detail.
      m = (if kind = EVENTS_RESULT then MsgResult nonce status stream_id detail else MsgStreamStarted nonce status stream_id detail)
      \<and> utf8_valid detail \<and> body = wle 2 nonce @ [status] @ wle 4 stream_id @ detail)" (is "?l \<longleftrightarrow> ?r")
proof
  assume l: ?l
  then have len: "7 \<le> length body" and v: "utf8_valid (drop 7 body)"
    and m: "m = (if kind = EVENTS_RESULT then MsgResult (rdw 2 body 0) (body ! 2) (rdw 4 body 3) (drop 7 body)
      else MsgStreamStarted (rdw 2 body 0) (body ! 2) (rdw 4 body 3) (drop 7 body))"
    by (auto simp: parse_status_message_def kind_head_reads split: if_splits option.splits)
  have "body = drop 0 body" by simp
  also have "\<dots> = slice_of body 0 2 @ drop 2 body" by (rule buffer_split) simp
  also have "drop 2 body = [body ! 2] @ drop 3 body" by (rule buffer_head) (use len in auto)
  also have "drop 3 body = slice_of body 3 4 @ drop 7 body" by (rule buffer_split) simp
  finally have "body = wle 2 (rdw 2 body 0 :: u16) @ [body ! 2] @ wle 4 (rdw 4 body 3 :: u32) @ drop 7 body"
    using len wle_rdw[of 2 0 body, where 'a = 16] wle_rdw[of 4 3 body, where 'a = 32] by simp
  then show ?r using v m by (metis)
next
  assume ?r
  then obtain nonce status stream_id detail where
    m: "m = (if kind = EVENTS_RESULT then MsgResult nonce status stream_id detail else MsgStreamStarted nonce status stream_id detail)"
    and v: "utf8_valid detail" and b: "body = wle 2 nonce @ [status] @ wle 4 stream_id @ detail" by blast
  have "rdw 2 body 0 = nonce" unfolding b by (rule rdw_head) simp
  moreover have "rdw 4 body 3 = stream_id" using rdw_at[of "wle 2 nonce @ [status]" 3 4 stream_id detail] by (simp add: b)
  moreover have "body ! 2 = status" "drop 7 body = detail" "7 \<le> length body" by (simp_all add: b nth_append)
  ultimately show ?l
    using v m by (simp add: parse_status_message_def kind_head_reads from_utf8_valid)
qed

lemma parse_config_message_iff:
  "parse_config_message (kind_head kind @ body) = Inr m \<longleftrightarrow> (\<exists>nonce c. m = MsgConfig nonce c \<and> activation_ok (ec_activations c)
     \<and> body = wle 2 nonce @ wle 8 (ec_revision c) @ wle 8 (ec_size c) @ wle 8 (ec_used c) @ wle 8 (ec_records c)
        @ wle 8 (ec_dropped c) @ wle 8 (ec_next_sequence c) @ activation_to_bytes (ec_activations c))" (is "?l \<longleftrightarrow> ?r")
proof
  assume l: ?l
  define c where "c = \<lparr>ec_revision = rdw 8 body 2, ec_size = rdw 8 body 10, ec_used = rdw 8 body 18, ec_records = rdw 8 body 26,
    ec_dropped = rdw 8 body 34, ec_next_sequence = rdw 8 body 42, ec_activations = the (activation_from_bytes (drop 50 body))\<rparr>"
  have len: "length body = 82" and m: "m = MsgConfig (rdw 2 body 0) c"
    using l by (auto simp: parse_config_message_def Let_def kind_head_reads ACTIVATION_BYTES_def c_def split: if_splits)
  have act: "activation_ok (ec_activations c)" "drop 50 body = activation_to_bytes (ec_activations c)"
    using activation_to_from[of "drop 50 body"] len by (simp_all add: c_def)
  have "body = drop 0 body" by simp
  also have "\<dots> = slice_of body 0 2 @ drop 2 body" by (rule buffer_split) simp
  also have "drop 2 body = slice_of body 2 8 @ drop 10 body" by (rule buffer_split) simp
  also have "drop 10 body = slice_of body 10 8 @ drop 18 body" by (rule buffer_split) simp
  also have "drop 18 body = slice_of body 18 8 @ drop 26 body" by (rule buffer_split) simp
  also have "drop 26 body = slice_of body 26 8 @ drop 34 body" by (rule buffer_split) simp
  also have "drop 34 body = slice_of body 34 8 @ drop 42 body" by (rule buffer_split) simp
  also have "drop 42 body = slice_of body 42 8 @ drop 50 body" by (rule buffer_split) simp
  finally have "body = wle 2 (rdw 2 body 0 :: u16) @ wle 8 (ec_revision c) @ wle 8 (ec_size c) @ wle 8 (ec_used c)
      @ wle 8 (ec_records c) @ wle 8 (ec_dropped c) @ wle 8 (ec_next_sequence c) @ activation_to_bytes (ec_activations c)"
    using len wle_rdw[of 2 0 body, where 'a = 16] by (simp add: act(2)) (simp add: c_def wle_rdw)
  then show ?r using m act(1) by blast
next
  assume ?r
  then obtain nonce c where m: "m = MsgConfig nonce c" and act: "activation_ok (ec_activations c)"
    and b: "body = wle 2 nonce @ wle 8 (ec_revision c) @ wle 8 (ec_size c) @ wle 8 (ec_used c) @ wle 8 (ec_records c)
        @ wle 8 (ec_dropped c) @ wle 8 (ec_next_sequence c) @ activation_to_bytes (ec_activations c)" by blast
  have "rdw 2 body 0 = nonce" unfolding b by (rule rdw_head) simp
  moreover have "rdw 8 body 2 = ec_revision c" unfolding b by (rule rdw_at) simp_all
  moreover have "rdw 8 body 10 = ec_size c"
    using rdw_at[of "wle 2 nonce @ wle 8 (ec_revision c)" 10 8 "ec_size c"] by (simp add: b)
  moreover have "rdw 8 body 18 = ec_used c"
    using rdw_at[of "wle 2 nonce @ wle 8 (ec_revision c) @ wle 8 (ec_size c)" 18 8 "ec_used c"] by (simp add: b)
  moreover have "rdw 8 body 26 = ec_records c"
    using rdw_at[of "wle 2 nonce @ wle 8 (ec_revision c) @ wle 8 (ec_size c) @ wle 8 (ec_used c)" 26 8 "ec_records c"]
    by (simp add: b)
  moreover have "rdw 8 body 34 = ec_dropped c"
    using rdw_at[of "wle 2 nonce @ wle 8 (ec_revision c) @ wle 8 (ec_size c) @ wle 8 (ec_used c) @ wle 8 (ec_records c)"
        34 8 "ec_dropped c"] by (simp add: b)
  moreover have "rdw 8 body 42 = ec_next_sequence c"
    using rdw_at[of "wle 2 nonce @ wle 8 (ec_revision c) @ wle 8 (ec_size c) @ wle 8 (ec_used c) @ wle 8 (ec_records c)
        @ wle 8 (ec_dropped c)" 42 8 "ec_next_sequence c"] by (simp add: b)
  moreover have "drop 50 body = activation_to_bytes (ec_activations c)" "length body = 82"
    using length_activation_to_bytes[OF act] by (simp_all add: b)
  ultimately show ?l
    using act by (simp add: parse_config_message_def Let_def kind_head_reads ACTIVATION_BYTES_def m activation_from_to)
qed

lemma parse_records_message_iff:
  "parse_records_message (kind_head kind @ body) = Inr m \<longleftrightarrow> (\<exists>stream_id count records. m = MsgRecords stream_id count records
     \<and> events_message_ok m \<and> body = wle 4 stream_id @ wle 2 count @ records)" (is "?l \<longleftrightarrow> ?r")
proof
  assume l: ?l
  define packet where "packet = kind_head kind @ body"
  define count :: u16 where "count = rdw 2 body 4"
  define rs where "rs = cut_records (unat count) (drop 6 body)"
  have len: "6 \<le> length body" and c: "count \<noteq> 0"
    and skip: "skip_records (unat count) packet 9 = Inr (length packet)"
    and m: "m = MsgRecords (rdw 4 body 0) count (drop 6 body)"
    using l by (auto simp: parse_records_message_def Let_def kind_head_reads count_def packet_def and_then_Inr split: if_splits)
  have d: "drop 9 packet = drop 6 body" by (simp add: packet_def kind_head_reads)
  have "9 \<le> length packet" using len by (simp add: packet_def)
  note s = skip_records_iff[OF this, THEN iffD1, OF skip, unfolded d, folded rs_def]
  have "list_all record_wf rs" "concat rs = drop 6 body" using s by simp_all
  then have ok: "events_message_ok m" using c unfolding m events_message_ok.simps rs_def by simp
  have "body = drop 0 body" by simp
  also have "\<dots> = slice_of body 0 4 @ drop 4 body" by (rule buffer_split) simp
  also have "drop 4 body = slice_of body 4 2 @ drop 6 body" by (rule buffer_split) simp
  finally have "body = wle 4 (rdw 4 body 0 :: u32) @ wle 2 count @ drop 6 body"
    using len wle_rdw[of 4 0 body, where 'a = 32] wle_rdw[of 2 4 body, where 'a = 16] by (simp add: count_def)
  then show ?r using m ok by blast
next
  assume ?r
  then obtain stream_id count records where m: "m = MsgRecords stream_id count records" and ok: "events_message_ok m"
    and b: "body = wle 4 stream_id @ wle 2 count @ records" by blast
  define packet where "packet = kind_head kind @ body"
  have "rdw 4 body 0 = stream_id" unfolding b by (rule rdw_head) simp
  moreover have "rdw 2 body 4 = count" using rdw_at[of "wle 4 stream_id" 4 2 count records] by (simp add: b)
  moreover have dr: "drop 6 body = records" "6 \<le> length body" by (simp_all add: b)
  moreover have "skip_records (unat count) packet 9 = Inr (length packet)"
    using skip_records_iff[of 9 packet "unat count" "length packet"] ok dr
    by (simp add: m packet_def kind_head_reads) (simp add: b)
  ultimately show ?l
    using ok by (simp add: parse_records_message_def Let_def kind_head_reads m and_then_Inr flip: packet_def)
      (simp add: packet_def kind_head_reads)
qed

lemma parse_streams_message_iff:
  "parse_streams_message (kind_head kind @ body) = Inr m \<longleftrightarrow> (\<exists>nonce streams. m = MsgStreams nonce streams
     \<and> events_message_ok m \<and> body = wle 2 nonce @ to_le 2 (length streams) @ concat (map stream_info_bytes streams))" (is "?l \<longleftrightarrow> ?r")
proof
  assume l: ?l
  define packet where "packet = kind_head kind @ body"
  obtain streams where len: "4 \<le> length body" and rd: "read_streams (rd 2 body 2) packet 7 = Inr (streams, length packet)"
    and m: "m = MsgStreams (rdw 2 body 0) streams"
    using l by (auto simp: parse_streams_message_def kind_head_reads packet_def and_then_Inr split: if_splits)
  have d: "drop 7 packet = drop 4 body" by (simp add: packet_def kind_head_reads)
  have s: "length streams = rd 2 body 2" "list_all stream_info_ok streams" "drop 4 body = concat (map stream_info_bytes streams)"
    using read_streams_iff[of 7 packet "rd 2 body 2" streams "length packet"] rd len by (auto simp: d packet_def)
  have ok: "events_message_ok m" using s rd_bound[of 2 body 2] by (simp add: m)
  have "body = drop 0 body" by simp
  also have "\<dots> = slice_of body 0 2 @ drop 2 body" by (rule buffer_split) simp
  also have "drop 2 body = slice_of body 2 2 @ drop 4 body" by (rule buffer_split) simp
  finally have "body = wle 2 (rdw 2 body 0 :: u16) @ to_le 2 (length streams) @ drop 4 body"
    using len wle_rdw[of 2 0 body, where 'a = 16] to_le_rd[of 2 2 body] by (simp add: s(1))
  then show ?r using m ok s(3) by metis
next
  assume ?r
  then obtain nonce streams where m: "m = MsgStreams nonce streams" and ok: "events_message_ok m"
    and b: "body = wle 2 nonce @ to_le 2 (length streams) @ concat (map stream_info_bytes streams)" by blast
  define packet where "packet = kind_head kind @ body"
  have "rdw 2 body 0 = nonce" unfolding b by (rule rdw_head) simp
  moreover have "rd 2 body 2 = length streams"
    using rd_at[of "wle 2 nonce" 2 2 "length streams" "concat (map stream_info_bytes streams)"] ok by (simp add: b m)
  moreover have dr: "drop 4 body = concat (map stream_info_bytes streams)" "4 \<le> length body" by (simp_all add: b)
  moreover have "read_streams (length streams) packet 7 = Inr (streams, length packet)"
    using read_streams_iff[of 7 packet "length streams" streams "length packet"] ok dr
    by (simp add: m packet_def kind_head_reads) (simp add: b)
  ultimately show ?l
    by (simp add: parse_streams_message_def kind_head_reads m and_then_Inr flip: packet_def)
      (simp add: packet_def kind_head_reads)
qed

lemma parse_message_envelope:
  "parse_events_message (kind_head kind @ body) =
    (if kind = EVENTS_CONFIG then parse_config_message (kind_head kind @ body)
     else if kind = EVENTS_RESULT \<or> kind = EVENTS_STREAM_STARTED then parse_status_message (kind_head kind @ body)
     else if kind = EVENTS_DUMPED then
       (if length body < 2 then Inl EventsTruncated else Inr (MsgDump (rdw 2 body 0) (drop 2 body)))
     else if kind = EVENTS_RECORD then parse_records_message (kind_head kind @ body)
     else if kind = EVENTS_STREAM_STOPPED then
       (if length body < 5 then Inl EventsTruncated
        else case from_utf8 (drop 5 body) of None \<Rightarrow> Inl InvalidPath
          | Some detail \<Rightarrow> Inr (MsgStreamStopped (rdw 4 body 0) (body ! 4) detail))
     else if kind = EVENTS_STREAM_GAP then
       (if length body < 12 then Inl EventsTruncated
        else if length body \<noteq> 12 then Inl EventsTrailing
        else Inr (MsgStreamGap (rdw 4 body 0) (rdw 8 body 4)))
     else if kind = EVENTS_STREAMS then parse_streams_message (kind_head kind @ body)
     else Inl InvalidOperation)"
proof -
  have "kind_head kind @ body \<noteq> []" by (simp add: kind_head_def)
  then show ?thesis
    by (simp add: parse_events_message_def Let_def kind_head_reads less_diff_conv from_utf8_def del: append_is_Nil_conv)
qed

lemma kind_head_eq [simp]: "kind_head k @ a = kind_head k' @ b \<longleftrightarrow> k = k' \<and> a = b"
  by (simp add: kind_head_def)

lemma take_word_min: "min (unat (w :: u16)) 65535 = unat w"
  by (rule min.absorb1) (use unat_u16_less[of w] in linarith)

lemmas message_builders = msg_events_config_def msg_events_result_def msg_events_dumped_def msg_events_stream_started_def
  msg_events_stream_stopped_def msg_events_stream_gap_def envelope_kind_head

lemma message_bytes_parts:
  "events_message_bytes (MsgConfig nonce c) = kind_head EVENTS_CONFIG @ wle 2 nonce @ wle 8 (ec_revision c)
     @ wle 8 (ec_size c) @ wle 8 (ec_used c) @ wle 8 (ec_records c) @ wle 8 (ec_dropped c) @ wle 8 (ec_next_sequence c)
     @ activation_to_bytes (ec_activations c)"
  "events_message_bytes (MsgResult nonce status stream_id detail) = kind_head EVENTS_RESULT @ wle 2 nonce @ [status] @ wle 4 stream_id @ detail"
  "events_message_bytes (MsgDump nonce dump) = kind_head EVENTS_DUMPED @ wle 2 nonce @ dump"
  "events_message_bytes (MsgStreamStarted nonce status stream_id detail) =
     kind_head EVENTS_STREAM_STARTED @ wle 2 nonce @ [status] @ wle 4 stream_id @ detail"
  "events_message_ok (MsgRecords stream_id count records) \<Longrightarrow>
     events_message_bytes (MsgRecords stream_id count records) = kind_head EVENTS_RECORD @ wle 4 stream_id @ wle 2 count @ records"
  "events_message_bytes (MsgStreamStopped stream_id status detail) = kind_head EVENTS_STREAM_STOPPED @ wle 4 stream_id @ [status] @ detail"
  "events_message_bytes (MsgStreamGap stream_id lost) = kind_head EVENTS_STREAM_GAP @ wle 4 stream_id @ wle 8 lost"
  "events_message_ok (MsgStreams nonce streams) \<Longrightarrow> events_message_bytes (MsgStreams nonce streams) =
     kind_head EVENTS_STREAMS @ wle 2 nonce @ to_le 2 (length streams) @ concat (map stream_info_bytes streams)"
  by (simp_all add: message_builders)
    (simp_all add: msg_events_records_def msg_events_streams_def envelope_kind_head Let_def take_word_min wle_def kind_head_def)

lemma parse_message_at_envelope:
  "parse_events_message (kind_head kind @ body) = Inr m \<longleftrightarrow>
    events_message_ok m \<and> kind_head kind @ body = events_message_bytes m" (is "?l \<longleftrightarrow> ?r")
proof
  assume l: ?l
  then have kinds: "kind = EVENTS_CONFIG \<or> kind = EVENTS_RESULT \<or> kind = EVENTS_STREAM_STARTED \<or> kind = EVENTS_DUMPED
    \<or> kind = EVENTS_RECORD \<or> kind = EVENTS_STREAM_STOPPED \<or> kind = EVENTS_STREAM_GAP \<or> kind = EVENTS_STREAMS"
    by (auto simp: parse_message_envelope split: if_splits)
  note p = l[unfolded parse_message_envelope]
  from kinds show ?r
  proof (elim disjE)
    assume k: "kind = EVENTS_CONFIG"
    then have "parse_config_message (kind_head kind @ body) = Inr m" using p by simp
    then show ?r using k by (auto simp: parse_config_message_iff message_bytes_parts simp del: events_message_bytes.simps)
  next
    assume k: "kind = EVENTS_RESULT"
    then have "parse_status_message (kind_head kind @ body) = Inr m" using p by (simp add: wire_defs)
    then show ?r using k parse_status_message_iff[of kind body m]
      by (auto simp: message_bytes_parts simp del: events_message_bytes.simps)
  next
    assume k: "kind = EVENTS_STREAM_STARTED"
    then have "parse_status_message (kind_head kind @ body) = Inr m" "kind \<noteq> EVENTS_RESULT" using p by (simp_all add: wire_defs)
    then show ?r using k parse_status_message_iff[of kind body m]
      by (auto simp: message_bytes_parts simp del: events_message_bytes.simps)
  next
    assume k: "kind = EVENTS_DUMPED"
    then have len: "2 \<le> length body" and m: "m = MsgDump (rdw 2 body 0) (drop 2 body)"
      using p by (auto simp: wire_defs split: if_splits)
    have "body = slice_of body 0 2 @ drop 2 body" using buffer_split[of 2 0 2 body] by simp
    then have "body = wle 2 (rdw 2 body 0 :: u16) @ drop 2 body"
      using len wle_rdw[of 2 0 body, where 'a = 16] by simp
    then show ?r using k by (simp add: m message_bytes_parts del: events_message_bytes.simps)
  next
    assume k: "kind = EVENTS_RECORD"
    then have "parse_records_message (kind_head kind @ body) = Inr m" using p by (simp add: wire_defs)
    then obtain stream_id count records where m: "m = MsgRecords stream_id count records" "events_message_ok m"
      "body = wle 4 stream_id @ wle 2 count @ records" by (auto simp: parse_records_message_iff)
    then show ?r using k message_bytes_parts(5)[of stream_id count records] by simp
  next
    assume k: "kind = EVENTS_STREAM_STOPPED"
    then have len: "5 \<le> length body" and v: "utf8_valid (drop 5 body)"
      and m: "m = MsgStreamStopped (rdw 4 body 0) (body ! 4) (drop 5 body)"
      using p by (auto simp: wire_defs split: if_splits option.splits)
    have "body = drop 0 body" by simp
    also have "\<dots> = slice_of body 0 4 @ drop 4 body" by (rule buffer_split) simp
    also have "drop 4 body = [body ! 4] @ drop 5 body" by (rule buffer_head) (use len in auto)
    finally have "body = wle 4 (rdw 4 body 0 :: u32) @ [body ! 4] @ drop 5 body"
      using len wle_rdw[of 4 0 body, where 'a = 32] by simp
    then show ?r using k v by (simp add: m message_bytes_parts del: events_message_bytes.simps)
  next
    assume k: "kind = EVENTS_STREAM_GAP"
    then have len: "length body = 12" and m: "m = MsgStreamGap (rdw 4 body 0) (rdw 8 body 4)"
      using p by (auto simp: wire_defs split: if_splits)
    have "body = slice_of body 0 4 @ drop 4 body" using buffer_split[of 4 0 4 body] by simp
    also have "drop 4 body = slice_of body 4 8" using slice_rest_end[of 4 8 body] len by simp
    finally have "body = wle 4 (rdw 4 body 0 :: u32) @ wle 8 (rdw 8 body 4 :: u64)"
      using len wle_rdw[of 4 0 body, where 'a = 32] wle_rdw[of 8 4 body, where 'a = 64] by simp
    then show ?r using k by (simp add: m message_bytes_parts del: events_message_bytes.simps)
  next
    assume k: "kind = EVENTS_STREAMS"
    then have "parse_streams_message (kind_head kind @ body) = Inr m" using p by (simp add: wire_defs)
    then obtain nonce streams where m: "m = MsgStreams nonce streams" "events_message_ok m"
      "body = wle 2 nonce @ to_le 2 (length streams) @ concat (map stream_info_bytes streams)"
      by (auto simp: parse_streams_message_iff)
    then show ?r using k message_bytes_parts(8)[of nonce streams] by simp
  qed
next
  assume ?r
  then have ok: "events_message_ok m" and eq: "kind_head kind @ body = events_message_bytes m" by simp_all
  show ?l
  proof (cases m)
    case (MsgConfig nonce c)
    note k = eq[unfolded MsgConfig message_bytes_parts kind_head_eq]
    have "parse_config_message (kind_head kind @ body) = Inr m"
      using ok k unfolding parse_config_message_iff MsgConfig by auto
    then show ?thesis using k by (simp add: parse_message_envelope)
  next
    case (MsgResult nonce status stream_id detail)
    note k = eq[unfolded MsgResult message_bytes_parts kind_head_eq]
    have "parse_status_message (kind_head kind @ body) = Inr m"
      using ok k parse_status_message_iff[of kind body m] unfolding MsgResult by auto
    then show ?thesis using k by (simp add: parse_message_envelope) (simp add: wire_defs)
  next
    case (MsgStreamStarted nonce status stream_id detail)
    note k = eq[unfolded MsgStreamStarted message_bytes_parts kind_head_eq]
    have "kind \<noteq> EVENTS_RESULT" using k by (simp add: wire_defs)
    then have "parse_status_message (kind_head kind @ body) = Inr m"
      using ok k parse_status_message_iff[of kind body m] unfolding MsgStreamStarted by auto
    then show ?thesis using k by (simp add: parse_message_envelope) (simp add: wire_defs)
  next
    case (MsgDump nonce dump)
    note k = eq[unfolded MsgDump message_bytes_parts kind_head_eq]
    show ?thesis using k rdw_head[of 2 nonce dump] by (simp add: parse_message_envelope MsgDump) (simp add: wire_defs)
  next
    case (MsgRecords stream_id count records)
    note k = eq[unfolded MsgRecords message_bytes_parts(5)[OF ok[unfolded MsgRecords]] kind_head_eq]
    have "parse_records_message (kind_head kind @ body) = Inr m"
      using ok k unfolding parse_records_message_iff MsgRecords by blast
    then show ?thesis using k by (simp add: parse_message_envelope) (simp add: wire_defs)
  next
    case (MsgStreamStopped stream_id status detail)
    note k = eq[unfolded MsgStreamStopped message_bytes_parts kind_head_eq]
    show ?thesis using k ok rdw_head[of 4 stream_id "status # detail"]
      by (simp add: parse_message_envelope MsgStreamStopped from_utf8_valid nth_append) (simp add: wire_defs)
  next
    case (MsgStreamGap stream_id lost)
    note k = eq[unfolded MsgStreamGap message_bytes_parts kind_head_eq]
    show ?thesis using k rdw_head[of 4 stream_id "wle 8 lost"] rdw_at[of "wle 4 stream_id" 4 8 lost "[]"]
      by (simp add: parse_message_envelope MsgStreamGap) (simp add: wire_defs)
  next
    case (MsgStreams nonce streams)
    note k = eq[unfolded MsgStreams message_bytes_parts(8)[OF ok[unfolded MsgStreams]] kind_head_eq]
    have "parse_streams_message (kind_head kind @ body) = Inr m"
      using ok k unfolding parse_streams_message_iff MsgStreams by blast
    then show ?thesis using k by (simp add: parse_message_envelope) (simp add: wire_defs)
  qed
qed

lemma message_bytes_kind_head: "\<exists>kind body. events_message_bytes m = kind_head kind @ body"
proof (cases m)
  case (MsgRecords stream_id count records)
  then show ?thesis by (intro exI[where x = EVENTS_RECORD]) (simp add: msg_events_records_def Let_def kind_head_def)
next
  case (MsgStreams nonce streams)
  then show ?thesis by (intro exI[where x = EVENTS_STREAMS]) (simp add: msg_events_streams_def Let_def events_envelope_def kind_head_def)
qed (metis message_bytes_parts)+

lemma parse_events_message_iff:
  "parse_events_message packet = Inr m \<longleftrightarrow> events_message_ok m \<and> packet = events_message_bytes m" (is "?l \<longleftrightarrow> ?r")
proof
  assume l: ?l
  then have "packet = kind_head (packet ! 2) @ drop 3 packet"
    by (intro kind_head_split) (auto simp: parse_events_message_def split: if_splits)
  then show ?r using l parse_message_at_envelope by metis
next
  assume r: ?r
  then show ?l using message_bytes_kind_head[of m] parse_message_at_envelope by metis
qed

end
