(* ===== verification/Event_Ring.thy ===== *)
theory Event_Ring
  imports Event_Roundtrip "HOL-Library.Sublist"
begin

text \<open>
  The ring of the event journal, \<open>Ring\<close> in \<open>crates/server/src/events.rs\<close>: a circular byte buffer of
  length-prefixed records.  Its contract is the locale \<open>record_buffer\<close>: a buffer stands for a capacity,
  the records it holds, oldest first, and a count of the records it lost (\<open>fifo\<close>); the ring is
  interpreted as one.  Counters are \<open>u64\<close> and saturate.
\<close>

definition sat_add64 :: "nat \<Rightarrow> nat \<Rightarrow> nat" where
  "sat_add64 a b = min (2 ^ 64 - 1) (a + b)"

lemma sat_add64_less [simp]: "sat_add64 a b < 18446744073709551616"
  by (simp add: sat_add64_def)

lemma sat_add64_add: "sat_add64 (sat_add64 a b) c = sat_add64 a (b + c)"
  by (simp add: sat_add64_def min_def)

lemma sat_add64_exact: "a + b < 2 ^ 64 \<Longrightarrow> sat_add64 a b = a + b"
  by (simp add: sat_add64_def)

subsection \<open>The ring\<close>

record ring =
  rg_bytes :: bytes
  rg_head :: nat
  rg_used :: nat
  rg_records :: nat
  rg_dropped :: nat

definition ring_new :: "nat \<Rightarrow> ring" where
  "ring_new cap = \<lparr>rg_bytes = replicate cap 0, rg_head = 0, rg_used = 0, rg_records = 0, rg_dropped = 0\<rparr>"

definition ring_capacity :: "ring \<Rightarrow> nat" where
  "ring_capacity r = length (rg_bytes r)"

definition ring_bytes_at :: "ring \<Rightarrow> nat \<Rightarrow> nat \<Rightarrow> bytes" where
  "ring_bytes_at r at len = (let first = min len (ring_capacity r - at) in
     slice_of (rg_bytes r) at first @ (if first < len then slice_of (rg_bytes r) 0 (len - first) else []))"

definition ring_read_u32 :: "ring \<Rightarrow> nat \<Rightarrow> nat" where
  "ring_read_u32 r at = (let first = min 4 (ring_capacity r - at) in
     of_le (slice_of (rg_bytes r) at first @ (if first < 4 then slice_of (rg_bytes r) 0 (4 - first) else [])))"

definition ring_write_at :: "nat \<Rightarrow> bytes \<Rightarrow> ring \<Rightarrow> ring" where
  "ring_write_at at data r = (let first = min (length data) (ring_capacity r - at);
     bs = write_at (rg_bytes r) at (take first data) in
     r\<lparr>rg_bytes := (if first < length data then write_at bs 0 (drop first data) else bs)\<rparr>)"

definition oldest_len :: "ring \<Rightarrow> nat option" where
  "oldest_len r = (if rg_used r < 4 then None
     else let len = ring_read_u32 r (rg_head r) in
       if EVENT_RECORD_HEADER_LEN \<le> len \<and> len \<le> rg_used r then Some len else None)"

definition evict_oldest :: "ring \<Rightarrow> ring" where
  "evict_oldest r = (case oldest_len r of
     None \<Rightarrow> r\<lparr>rg_head := 0, rg_used := 0, rg_records := 0, rg_dropped := sat_add64 (rg_dropped r) 1\<rparr>
   | Some len \<Rightarrow> r\<lparr>rg_head := (rg_head r + len) mod ring_capacity r, rg_used := rg_used r - len,
       rg_records := rg_records r - 1, rg_dropped := sat_add64 (rg_dropped r) 1\<rparr>)"

lemma evict_shrinks: "0 < rg_used r \<Longrightarrow> rg_used (evict_oldest r) < rg_used r"
  by (auto simp: evict_oldest_def oldest_len_def Let_def EVENT_RECORD_HEADER_LEN_def split: if_splits option.splits)

text \<open>
  The loop of \<open>append_parts\<close>, entered with \<open>len\<close> at most the capacity; that part of the guard only makes
  the function total.
\<close>

function evict_until :: "nat \<Rightarrow> ring \<Rightarrow> ring" where
  "evict_until len r = (if len \<le> ring_capacity r \<and> ring_capacity r - rg_used r < len
     then evict_until len (evict_oldest r) else r)"
  by pat_completeness auto
termination
  by (relation "measure (\<lambda>(_, r). rg_used r)") (auto intro!: evict_shrinks intro: gr0I)

declare evict_until.simps [simp del]

definition append_parts :: "bytes \<Rightarrow> bytes \<Rightarrow> ring \<Rightarrow> ring \<times> bool" where
  "append_parts header payload r = (let len = length header + length payload in
     if len > ring_capacity r then (r\<lparr>rg_dropped := sat_add64 (rg_dropped r) 1\<rparr>, False)
     else let r = evict_until len r;
              tail = (rg_head r + rg_used r) mod ring_capacity r;
              r = ring_write_at tail header r;
              r = ring_write_at ((tail + length header) mod ring_capacity r) payload r
       in (r\<lparr>rg_used := rg_used r + len, rg_records := sat_add64 (rg_records r) 1\<rparr>, True))"

definition ring_append :: "bytes \<Rightarrow> ring \<Rightarrow> ring" where
  "ring_append record r = fst (append_parts record [] r)"

function record_vecs_from :: "ring \<Rightarrow> nat \<Rightarrow> nat \<Rightarrow> bytes list" where
  "record_vecs_from r at left = (if left < EVENT_RECORD_HEADER_LEN then []
     else let len = ring_read_u32 r at in
       if len < EVENT_RECORD_HEADER_LEN \<or> len > left then []
       else ring_bytes_at r at len # record_vecs_from r ((at + len) mod ring_capacity r) (left - len))"
  by pat_completeness auto
termination
  by (relation "measure (\<lambda>(_, _, left). left)") (auto simp: EVENT_RECORD_HEADER_LEN_def)

declare record_vecs_from.simps [simp del]

definition record_vecs :: "ring \<Rightarrow> bytes list" where
  "record_vecs r = record_vecs_from r (rg_head r) (rg_used r)"

definition ring_resize :: "nat \<Rightarrow> ring \<Rightarrow> ring" where
  "ring_resize cap r = (if cap = ring_capacity r then r
     else fold ring_append (record_vecs r) ((ring_new cap)\<lparr>rg_dropped := rg_dropped r\<rparr>))"

subsection \<open>What a record buffer is\<close>

record fifo =
  ff_room :: nat
  ff_held :: "bytes list"
  ff_lost :: nat

text \<open>The longest run of newest records that fits.\<close>

fun newest_fit :: "nat \<Rightarrow> bytes list \<Rightarrow> bytes list" where
  "newest_fit room [] = []"
| "newest_fit room (r # rs) = (if length (concat (r # rs)) \<le> room then r # rs else newest_fit room rs)"

definition fifo_push :: "bytes \<Rightarrow> fifo \<Rightarrow> fifo" where
  "fifo_push r q = (if length r > ff_room q then q\<lparr>ff_lost := sat_add64 (ff_lost q) 1\<rparr>
     else let kept = newest_fit (ff_room q - length r) (ff_held q) in
       q\<lparr>ff_held := kept @ [r], ff_lost := sat_add64 (ff_lost q) (length (ff_held q) - length kept)\<rparr>)"

definition fifo_resize :: "nat \<Rightarrow> fifo \<Rightarrow> fifo" where
  "fifo_resize room q = (if room = ff_room q then q
     else fold fifo_push (ff_held q) \<lparr>ff_room = room, ff_held = [], ff_lost = ff_lost q\<rparr>)"

definition fifo_ok :: "fifo \<Rightarrow> bool" where
  "fifo_ok q \<longleftrightarrow> length (concat (ff_held q)) \<le> ff_room q \<and> list_all record_wf (ff_held q) \<and> ff_lost q < 2 ^ 64"

subsection \<open>Facts about the abstract buffer\<close>

lemma newest_fit_length: "length (newest_fit room rs) \<le> length rs"
  by (induction room rs rule: newest_fit.induct) auto

lemma newest_fit_fits: "length (concat (newest_fit room rs)) \<le> room"
  by (induction room rs rule: newest_fit.induct) auto

lemma newest_fit_suffix: "suffix (newest_fit room rs) rs"
  by (induction room rs rule: newest_fit.induct) (auto intro: suffix_ConsI)

lemma newest_fit_subseq: "subseq (newest_fit room rs) rs"
  by (induction room rs rule: newest_fit.induct) (auto intro: list_emb_Cons)

lemma newest_fit_all: "length (concat rs) \<le> room \<Longrightarrow> newest_fit room rs = rs"
  by (cases rs) simp_all

lemma newest_fit_none: "\<forall>r \<in> set rs. room < length r \<Longrightarrow> newest_fit room rs = []"
  by (induction rs) auto

lemma newest_fit_twice: "m \<le> n \<Longrightarrow> newest_fit m (newest_fit n rs) = newest_fit m rs"
  by (induction n rs rule: newest_fit.induct) auto

lemma newest_fit_snoc: "length r \<le> n \<Longrightarrow> newest_fit n (rs @ [r]) = newest_fit (n - length r) rs @ [r]"
  by (induction rs) auto

lemma fifo_push_room [simp]: "ff_room (fifo_push r q) = ff_room q"
  by (simp add: fifo_push_def Let_def)

lemma fold_fifo_push_room [simp]: "ff_room (fold fifo_push rs q) = ff_room q"
  by (induction rs arbitrary: q) simp_all

lemma fifo_push_ok: "fifo_ok q \<Longrightarrow> record_wf r \<Longrightarrow> fifo_ok (fifo_push r q)"
  using newest_fit_fits[of "ff_room q - length r" "ff_held q"] newest_fit_suffix[of "ff_room q - length r" "ff_held q"]
  by (auto simp: fifo_ok_def fifo_push_def Let_def list_all_iff dest: set_mono_suffix)

text \<open>Nothing is lost uncounted.\<close>

lemma fifo_push_count:
  "length (ff_held (fifo_push r q)) + ff_lost (fifo_push r q) = length (ff_held q) + ff_lost q + 1"
  if "length (ff_held q) + ff_lost q + 1 < 2 ^ 64"
proof (cases "length r > ff_room q")
  case False
  let ?k = "newest_fit (ff_room q - length r) (ff_held q)"
  have "length ?k \<le> length (ff_held q)" by (rule newest_fit_length)
  then show ?thesis using False that by (simp add: fifo_push_def Let_def sat_add64_exact)
qed (use that in \<open>simp add: fifo_push_def sat_add64_exact\<close>)

lemma fold_fifo_push_count:
  "length (ff_held (fold fifo_push rs q)) + ff_lost (fold fifo_push rs q) = length (ff_held q) + ff_lost q + length rs"
  if "length (ff_held q) + ff_lost q + length rs < 2 ^ 64"
  using that
proof (induction rs arbitrary: q)
  case (Cons r rs)
  then have "length (ff_held (fifo_push r q)) + ff_lost (fifo_push r q) = length (ff_held q) + ff_lost q + 1"
    by (intro fifo_push_count) simp
  with Cons show ?case by simp
qed simp

lemma fifo_resize_count:
  assumes "length (ff_held q) + ff_lost q < 2 ^ 64"
  shows "length (ff_held (fifo_resize n q)) + ff_lost (fifo_resize n q) = length (ff_held q) + ff_lost q"
proof (cases "n = ff_room q")
  case False
  then show ?thesis
    using fold_fifo_push_count[of "\<lparr>ff_room = n, ff_held = [], ff_lost = ff_lost q\<rparr>" "ff_held q"] assms
    by (simp add: fifo_resize_def)
qed (simp add: fifo_resize_def)

text \<open>What is held was pushed, in that order.\<close>

lemma fifo_push_subseq:
  assumes "subseq (ff_held q) ps"
  shows "subseq (ff_held (fifo_push r q)) (ps @ [r])"
proof (cases "length r > ff_room q")
  case True
  then show ?thesis using assms by (simp add: fifo_push_def list_emb_prefix)
next
  case False
  have "subseq (newest_fit (ff_room q - length r) (ff_held q)) ps"
    using newest_fit_subseq assms by (rule subseq_order.trans)
  then show ?thesis using False by (simp add: fifo_push_def Let_def list_emb_append_mono)
qed

lemma fold_fifo_push_subseq: "subseq (ff_held q) ps \<Longrightarrow> subseq (ff_held (fold fifo_push rs q)) (ps @ rs)"
proof (induction rs arbitrary: q ps)
  case (Cons r rs)
  then show ?case using Cons.IH[OF fifo_push_subseq[OF Cons.prems, of r]] by simp
qed simp

lemma fifo_resize_subseq: "subseq (ff_held q) ps \<Longrightarrow> subseq (ff_held (fifo_resize n q)) ps"
  using fold_fifo_push_subseq[of "\<lparr>ff_room = n, ff_held = [], ff_lost = ff_lost q\<rparr>" "[]" "ff_held q"]
  by (auto simp: fifo_resize_def intro: subseq_order.trans)

text \<open>A resize keeps the newest records that fit, when each of them fits alone.\<close>

lemma fold_fifo_push_newest:
  "\<forall>r \<in> set rs. length r \<le> ff_room q \<Longrightarrow> ff_held q = newest_fit (ff_room q) ps \<Longrightarrow>
    ff_held (fold fifo_push rs q) = newest_fit (ff_room q) (ps @ rs)"
proof (induction rs arbitrary: q ps)
  case (Cons r rs)
  have "ff_held (fifo_push r q) = newest_fit (ff_room q) (ps @ [r])"
    using Cons.prems by (simp add: fifo_push_def Let_def newest_fit_snoc newest_fit_twice)
  then show ?case using Cons.IH[of "fifo_push r q" "ps @ [r]"] Cons.prems by simp
qed simp

lemma fifo_resize_newest:
  assumes "\<forall>r \<in> set (ff_held q). length r \<le> n" "length (concat (ff_held q)) \<le> ff_room q"
  shows "ff_held (fifo_resize n q) = newest_fit n (ff_held q)"
  using fold_fifo_push_newest[of "ff_held q" "\<lparr>ff_room = n, ff_held = [], ff_lost = ff_lost q\<rparr>" "[]"] assms
  by (auto simp: fifo_resize_def newest_fit_all)

text \<open>A run of operations: pushes (\<open>Inl\<close>) and resizes (\<open>Inr\<close>), and what it pushes.\<close>

fun op_ok :: "bytes + nat \<Rightarrow> bool" where
  "op_ok (Inl r) \<longleftrightarrow> record_wf r"
| "op_ok (Inr n) \<longleftrightarrow> 32 \<le> n \<and> n < 2 ^ 64"

fun fifo_op :: "bytes + nat \<Rightarrow> fifo \<Rightarrow> fifo" where
  "fifo_op (Inl r) q = fifo_push r q"
| "fifo_op (Inr n) q = fifo_resize n q"

definition pushed :: "(bytes + nat) list \<Rightarrow> bytes list" where
  "pushed ops = List.map_filter (\<lambda>op. case op of Inl r \<Rightarrow> Some r | Inr n \<Rightarrow> None) ops"

lemma pushed_simps [simp]:
  "pushed [] = []" "pushed (Inl r # ops) = r # pushed ops" "pushed (Inr n # ops) = pushed ops"
  by (simp_all add: pushed_def)

lemma fifo_ops_subseq: "subseq (ff_held q) ps \<Longrightarrow> subseq (ff_held (fold fifo_op ops q)) (ps @ pushed ops)"
proof (induction ops arbitrary: q ps)
  case (Cons op ops)
  show ?case
  proof (cases op)
    case (Inl r)
    then show ?thesis using Cons.IH[OF fifo_push_subseq[OF Cons.prems, of r]] by simp
  next
    case (Inr n)
    then show ?thesis using Cons.IH[OF fifo_resize_subseq[OF Cons.prems, of n]] by simp
  qed
qed simp

lemma fifo_ops_count:
  "length (ff_held q) + ff_lost q + length (pushed ops) < 2 ^ 64 \<Longrightarrow>
    length (ff_held (fold fifo_op ops q)) + ff_lost (fold fifo_op ops q) = length (ff_held q) + ff_lost q + length (pushed ops)"
proof (induction ops arbitrary: q)
  case (Cons op ops)
  show ?case
  proof (cases op)
    case (Inl r)
    have "length (ff_held (fifo_push r q)) + ff_lost (fifo_push r q) = length (ff_held q) + ff_lost q + 1"
      using Cons.prems Inl by (intro fifo_push_count) simp
    then show ?thesis using Cons Inl by simp
  next
    case (Inr n)
    have "length (ff_held (fifo_resize n q)) + ff_lost (fifo_resize n q) = length (ff_held q) + ff_lost q"
      using Cons.prems Inr by (intro fifo_resize_count) simp
    then show ?thesis using Cons Inr by simp
  qed
qed simp

subsection \<open>The contract\<close>

locale record_buffer =
  fixes push :: "bytes \<Rightarrow> 'b \<Rightarrow> 'b" and resize :: "nat \<Rightarrow> 'b \<Rightarrow> 'b" and abs :: "'b \<Rightarrow> fifo" and inv :: "'b \<Rightarrow> bool"
  assumes inv_push: "inv b \<Longrightarrow> record_wf r \<Longrightarrow> inv (push r b)"
    and abs_push: "inv b \<Longrightarrow> record_wf r \<Longrightarrow> abs (push r b) = fifo_push r (abs b)"
    and inv_resize: "inv b \<Longrightarrow> 32 \<le> n \<Longrightarrow> n < 2 ^ 64 \<Longrightarrow> inv (resize n b)"
    and abs_resize: "inv b \<Longrightarrow> 32 \<le> n \<Longrightarrow> n < 2 ^ 64 \<Longrightarrow> abs (resize n b) = fifo_resize n (abs b)"
    and abs_ok: "inv b \<Longrightarrow> fifo_ok (abs b)"
begin

text \<open>A run of operations: pushes (\<open>Inl\<close>) and resizes (\<open>Inr\<close>).\<close>

fun run_op :: "bytes + nat \<Rightarrow> 'b \<Rightarrow> 'b" where
  "run_op (Inl r) b = push r b"
| "run_op (Inr n) b = resize n b"

lemma run_op_ok:
  assumes "inv b" "op_ok op"
  shows "inv (run_op op b)" "abs (run_op op b) = fifo_op op (abs b)"
  using assms by (cases op; simp add: inv_push inv_resize abs_push abs_resize)+

lemma run_ops_ok:
  "inv b \<Longrightarrow> list_all op_ok ops \<Longrightarrow> inv (fold run_op ops b) \<and> abs (fold run_op ops b) = fold fifo_op ops (abs b)"
  by (induction ops arbitrary: b) (simp_all add: run_op_ok)

theorem run_ops:
  assumes "inv b" "list_all op_ok ops"
  shows "fifo_ok (abs (fold run_op ops b))"
    and "subseq (ff_held (abs (fold run_op ops b))) (ff_held (abs b) @ pushed ops)"
    and "length (ff_held (abs b)) + ff_lost (abs b) + length (pushed ops) < 2 ^ 64 \<Longrightarrow>
      length (ff_held (abs (fold run_op ops b))) + ff_lost (abs (fold run_op ops b))
        = length (ff_held (abs b)) + ff_lost (abs b) + length (pushed ops)"
proof -
  have f: "inv (fold run_op ops b)" "abs (fold run_op ops b) = fold fifo_op ops (abs b)"
    using run_ops_ok[OF assms] by simp_all
  show "fifo_ok (abs (fold run_op ops b))" by (rule abs_ok[OF f(1)])
  show "subseq (ff_held (abs (fold run_op ops b))) (ff_held (abs b) @ pushed ops)"
    unfolding f(2) by (rule fifo_ops_subseq) simp
  show "length (ff_held (abs b)) + ff_lost (abs b) + length (pushed ops) < 2 ^ 64 \<Longrightarrow>
      length (ff_held (abs (fold run_op ops b))) + ff_lost (abs (fold run_op ops b))
        = length (ff_held (abs b)) + ff_lost (abs b) + length (pushed ops)"
    unfolding f(2) by (rule fifo_ops_count)
qed

end

subsection \<open>Reading and writing around the end\<close>

text \<open>\<open>n\<close> bytes from \<open>a\<close> on, wrapping around.\<close>

definition circ :: "bytes \<Rightarrow> nat \<Rightarrow> nat \<Rightarrow> bytes" where
  "circ bs a n = map (\<lambda>i. bs ! ((a + i) mod length bs)) [0..<n]"

lemma length_circ [simp]: "length (circ bs a n) = n"
  by (simp add: circ_def)

lemma circ_0 [simp]: "circ bs a 0 = []"
  by (simp add: circ_def)

lemma nth_circ [simp]: "i < n \<Longrightarrow> circ bs a n ! i = bs ! ((a + i) mod length bs)"
  by (simp add: circ_def)

lemma mod_skip: "m \<le> i \<Longrightarrow> ((a + m) mod c + (i - m)) mod c = (a + i) mod (c::nat)"
  by (subst mod_add_left_eq) simp

lemma circ_append: "circ bs a (m + n) = circ bs a m @ circ bs ((a + m) mod length bs) n"
proof (rule nth_equalityI)
  fix i assume "i < length (circ bs a (m + n))"
  then have i: "i < m + n" by simp
  show "circ bs a (m + n) ! i = (circ bs a m @ circ bs ((a + m) mod length bs) n) ! i"
  proof (cases "i < m")
    case False
    have "((a + m) mod length bs + (i - m)) mod length bs = (a + i) mod length bs"
      using False mod_skip[of m i a] by simp
    then show ?thesis using False i by (simp add: nth_append)
  qed (use i in \<open>simp add: nth_append\<close>)
qed simp

lemma take_circ: "m \<le> n \<Longrightarrow> take m (circ bs a n) = circ bs a m"
  by (rule nth_equalityI) simp_all

lemma drop_circ: "m \<le> n \<Longrightarrow> drop m (circ bs a n) = circ bs ((a + m) mod length bs) (n - m)"
  using circ_append[of bs a m "n - m"] by simp

lemma mod_wrap: "c \<le> x \<Longrightarrow> x < 2 * c \<Longrightarrow> x mod c = x - (c::nat)"
  by (simp add: le_mod_geq)

text \<open>The two-piece read of the source is the circular one.\<close>

lemma two_piece_read:
  assumes "a < length bs" "n \<le> length bs"
  shows "slice_of bs a (min n (length bs - a)) @ (if min n (length bs - a) < n
      then slice_of bs 0 (n - min n (length bs - a)) else []) = circ bs a n" (is "?l = _")
proof (cases "n \<le> length bs - a")
  case True
  then show ?thesis using assms by (intro nth_equalityI) (simp_all add: nth_slice)
next
  case False
  let ?k = "length bs - a"
  have l: "?l = slice_of bs a ?k @ slice_of bs 0 (n - ?k)" using False by (simp add: min_def)
  show ?thesis
    unfolding l
  proof (rule nth_equalityI)
    show "length (slice_of bs a ?k @ slice_of bs 0 (n - ?k)) = length (circ bs a n)"
      using False assms by simp
  next
    fix i assume "i < length (slice_of bs a ?k @ slice_of bs 0 (n - ?k))"
    then have i: "i < n" using False assms by simp
    show "(slice_of bs a ?k @ slice_of bs 0 (n - ?k)) ! i = circ bs a n ! i"
      using i assms False by (simp add: nth_append nth_slice mod_wrap add.commute)
  qed
qed

lemma ring_bytes_at_circ:
  "at < ring_capacity r \<Longrightarrow> n \<le> ring_capacity r \<Longrightarrow> ring_bytes_at r at n = circ (rg_bytes r) at n"
  by (simp only: ring_bytes_at_def Let_def ring_capacity_def two_piece_read)

lemma ring_read_circ:
  "at < ring_capacity r \<Longrightarrow> 4 \<le> ring_capacity r \<Longrightarrow> ring_read_u32 r at = of_le (circ (rg_bytes r) at 4)"
  by (simp only: ring_read_u32_def Let_def ring_capacity_def two_piece_read)

lemma ring_capacity_write [simp]:
  assumes "at < ring_capacity r" "length data \<le> ring_capacity r"
  shows "ring_capacity (ring_write_at at data r) = ring_capacity r"
  using assms by (auto simp: ring_write_at_def ring_capacity_def Let_def min_def)

lemma ring_write_nth:
  assumes "at < ring_capacity r" "length data \<le> ring_capacity r" "i < ring_capacity r"
  shows "rg_bytes (ring_write_at at data r) ! ((at + i) mod ring_capacity r) =
    (if i < length data then data ! i else rg_bytes r ! ((at + i) mod ring_capacity r))"
proof -
  define c where "c = ring_capacity r"
  define bs where "bs = rg_bytes r"
  have len: "length bs = c" by (simp add: c_def bs_def ring_capacity_def)
  have fits: "at < c" "length data \<le> c" "i < c" using assms by (simp_all add: c_def)
  have "rg_bytes (ring_write_at at data r) ! ((at + i) mod c)
    = (if i < length data then data ! i else bs ! ((at + i) mod c))"
  proof (cases "length data \<le> c - at")
    case True
    have "rg_bytes (ring_write_at at data r) = write_at bs at data"
      using True by (simp add: ring_write_at_def Let_def bs_def flip: c_def)
    then show ?thesis
      using True fits len by (cases "at + i < c") (auto simp: nth_splice mod_wrap)
  next
    case False
    define k where "k = c - at"
    have k: "k < length data" "at + k = c" using False fits by (simp_all add: k_def)
    have w: "rg_bytes (ring_write_at at data r) = write_at (write_at bs at (take k data)) 0 (drop k data)"
      using False k by (simp add: ring_write_at_def Let_def bs_def k_def flip: c_def)
    show ?thesis
      unfolding w using k fits len
      by (cases "at + i < c") (auto simp: nth_splice mod_wrap)
  qed
  then show ?thesis by (simp add: c_def bs_def)
qed

text \<open>Writing behind a region leaves the region and extends it.\<close>

lemma circ_write:
  assumes "a < ring_capacity r" "n + length data \<le> ring_capacity r"
  shows "circ (rg_bytes (ring_write_at ((a + n) mod ring_capacity r) data r)) a (n + length data)
    = circ (rg_bytes r) a n @ data"
proof -
  define c where "c = ring_capacity r"
  define t where "t = (a + n) mod c"
  define bs where "bs = rg_bytes (ring_write_at t data r)"
  have c: "0 < c" "length data \<le> c" "length (rg_bytes r) = c" using assms
    by (simp_all only: c_def ring_capacity_def)
  then have t: "t < c" by (simp add: t_def)
  have len: "length bs = c"
    using ring_capacity_write[of t r data] c t by (simp add: bs_def ring_capacity_def flip: c_def)
  have w: "bs ! ((t + i) mod c) = (if i < length data then data ! i else rg_bytes r ! ((t + i) mod c))" if "i < c" for i
    using ring_write_nth[of t r data i] c t that by (simp add: bs_def flip: c_def)
  have "circ bs a (n + length data) = circ (rg_bytes r) a n @ data"
  proof (rule nth_equalityI)
    fix i assume "i < length (circ bs a (n + length data))"
    then have i: "i < n + length data" by simp
    show "circ bs a (n + length data) ! i = (circ (rg_bytes r) a n @ data) ! i"
    proof (cases "i < n")
      case True
      have "(t + (c - n + i)) mod c = (a + n + (c - n + i)) mod c" by (simp add: t_def mod_simps)
      also have "a + n + (c - n + i) = a + i + c" using assms(2) by (simp add: c_def)
      finally have "(a + i) mod c = (t + (c - n + i)) mod c" by simp
      moreover have "c - n + i < c" "\<not> c - n + i < length data" using True assms(2) i by (simp_all add: c_def)
      ultimately show ?thesis using True i w[of "c - n + i"] by (simp add: nth_append len c(3))
    next
      case False
      have e: "(a + i) mod c = (t + (i - n)) mod c" using False mod_skip[of n i a c] by (simp add: t_def)
      have d: "i - n < length data" "i - n < c" using False i c(2) by arith+
      have "bs ! ((a + i) mod c) = data ! (i - n)" unfolding e using w[OF d(2)] d(1) by simp
      then show ?thesis using False i by (simp add: nth_append len)
    qed
  qed simp
  then show ?thesis by (simp add: bs_def t_def c_def)
qed

subsection \<open>The ring is a record buffer\<close>

definition holds :: "ring \<Rightarrow> bytes list \<Rightarrow> bool" where
  "holds r rs \<longleftrightarrow> EVENT_RECORD_HEADER_LEN \<le> ring_capacity r \<and> rg_head r < ring_capacity r
     \<and> rg_used r = length (concat rs) \<and> rg_used r \<le> ring_capacity r \<and> list_all record_wf rs
     \<and> circ (rg_bytes r) (rg_head r) (rg_used r) = concat rs
     \<and> rg_records r = length rs \<and> rg_dropped r < 2 ^ 64 \<and> ring_capacity r < 2 ^ 64"

lemma holdsD:
  assumes "holds r rs"
  shows "32 \<le> ring_capacity r" "rg_head r < ring_capacity r" "rg_used r = length (concat rs)" "rg_used r \<le> ring_capacity r"
    "list_all record_wf rs" "circ (rg_bytes r) (rg_head r) (rg_used r) = concat rs" "rg_records r = length rs"
    "rg_dropped r < 2 ^ 64" "ring_capacity r < 2 ^ 64"
  using assms unfolding holds_def EVENT_RECORD_HEADER_LEN_def by blast+

lemma record_wf_length: "record_wf r \<Longrightarrow> 32 \<le> length r"
  by (simp add: record_wf_def EVENT_RECORD_HEADER_LEN_def)

lemma records_length: "list_all record_wf rs \<Longrightarrow> 32 * length rs \<le> length (concat rs)"
  by (induction rs) (auto dest: record_wf_length)

text \<open>The length field of the oldest record, read around the end.\<close>

lemma circ_length_field:
  assumes "a < ring_capacity r" "n \<le> ring_capacity r" "circ (rg_bytes r) a n = x @ rest" "record_wf x"
  shows "ring_read_u32 r a = length x" "ring_bytes_at r a (length x) = x"
    "circ (rg_bytes r) ((a + length x) mod ring_capacity r) (n - length x) = rest" "length x \<le> n"
proof -
  have n: "n = length x + length rest" using arg_cong[OF assms(3), of length] by simp
  then show "length x \<le> n" by simp
  have x: "circ (rg_bytes r) a (length x) = x" using take_circ[of "length x" n "rg_bytes r" a] assms(3) n by simp
  then show "ring_bytes_at r a (length x) = x" using ring_bytes_at_circ[OF assms(1)] n assms(2) by simp
  have four: "4 \<le> ring_capacity r" "4 \<le> length x" using record_wf_length[OF assms(4)] n assms(2) by simp_all
  have "circ (rg_bytes r) a 4 = slice_of x 0 4"
    using take_circ[of 4 "length x" "rg_bytes r" a] x four by (simp add: slice_of_def)
  then have "of_le (circ (rg_bytes r) a 4) = length x" using assms(4) by (simp add: record_wf_def rd_def)
  then show "ring_read_u32 r a = length x" using ring_read_circ[OF assms(1) four(1)] by simp
  show "circ (rg_bytes r) ((a + length x) mod ring_capacity r) (n - length x) = rest"
    using drop_circ[of "length x" n "rg_bytes r" a] assms(3) n by (simp add: ring_capacity_def)
qed

lemma record_vecs_from_circ:
  "list_all record_wf rs \<Longrightarrow> a < ring_capacity r \<Longrightarrow> n \<le> ring_capacity r \<Longrightarrow> circ (rg_bytes r) a n = concat rs
    \<Longrightarrow> record_vecs_from r a n = rs"
proof (induction rs arbitrary: a n)
  case Nil
  then have "n = 0" by (metis concat.simps(1) length_0_conv length_circ)
  then show ?case by (simp add: record_vecs_from.simps EVENT_RECORD_HEADER_LEN_def)
next
  case (Cons x rs)
  have x: "record_wf x" and split: "circ (rg_bytes r) a n = x @ concat rs" using Cons.prems by simp_all
  note c = circ_length_field[OF Cons.prems(2,3) split x]
  have "record_vecs_from r ((a + length x) mod ring_capacity r) (n - length x) = rs"
    using Cons.prems c by (intro Cons.IH) (simp_all add: order.strict_trans1[OF _ Cons.prems(2)])
  moreover have "\<not> n < 32" "\<not> length x < 32" using record_wf_length[OF x] c(4) by simp_all
  ultimately show ?case
    using c by (subst record_vecs_from.simps) (simp add: Let_def EVENT_RECORD_HEADER_LEN_def)
qed

lemma holds_record_vecs: "holds r rs \<Longrightarrow> record_vecs r = rs"
  unfolding record_vecs_def by (rule record_vecs_from_circ) (auto dest: holdsD)

lemma ring_capacity_update [simp]:
  "ring_capacity (r\<lparr>rg_head := h\<rparr>) = ring_capacity r" "ring_capacity (r\<lparr>rg_used := u\<rparr>) = ring_capacity r"
  "ring_capacity (r\<lparr>rg_records := k\<rparr>) = ring_capacity r" "ring_capacity (r\<lparr>rg_dropped := d\<rparr>) = ring_capacity r"
  by (simp_all add: ring_capacity_def)

lemma evict_holds:
  assumes "holds r (x # rs)"
  shows "holds (evict_oldest r) rs" "ring_capacity (evict_oldest r) = ring_capacity r"
    "rg_dropped (evict_oldest r) = sat_add64 (rg_dropped r) 1"
proof -
  note h = holdsD[OF assms]
  have x: "record_wf x" and split: "circ (rg_bytes r) (rg_head r) (rg_used r) = x @ concat rs" using h by simp_all
  note c = circ_length_field[OF h(2,4) split x]
  have "oldest_len r = Some (length x)"
    using c record_wf_length[OF x] by (simp add: oldest_len_def Let_def EVENT_RECORD_HEADER_LEN_def)
  then have e: "evict_oldest r = r\<lparr>rg_head := (rg_head r + length x) mod ring_capacity r, rg_used := rg_used r - length x,
       rg_records := rg_records r - 1, rg_dropped := sat_add64 (rg_dropped r) 1\<rparr>" by (simp add: evict_oldest_def)
  show "ring_capacity (evict_oldest r) = ring_capacity r" "rg_dropped (evict_oldest r) = sat_add64 (rg_dropped r) 1"
    by (simp_all add: e)
  have "(rg_head r + length x) mod ring_capacity r < ring_capacity r" using h(2) by simp
  then show "holds (evict_oldest r) rs"
    using h c unfolding e holds_def by (simp add: EVENT_RECORD_HEADER_LEN_def)
qed

lemma evict_until_holds:
  assumes "holds r rs" "len \<le> ring_capacity r"
  shows "holds (evict_until len r) (newest_fit (ring_capacity r - len) rs)"
    and "ring_capacity (evict_until len r) = ring_capacity r"
    and "rg_dropped (evict_until len r) = sat_add64 (rg_dropped r) (length rs - length (newest_fit (ring_capacity r - len) rs))"
proof -
  have "holds (evict_until len r) (newest_fit (ring_capacity r - len) rs) \<and> ring_capacity (evict_until len r) = ring_capacity r
    \<and> rg_dropped (evict_until len r) = sat_add64 (rg_dropped r) (length rs - length (newest_fit (ring_capacity r - len) rs))"
    using assms
  proof (induction rs arbitrary: r)
    case Nil
    then have "evict_until len r = r" using holdsD(3)[OF Nil.prems(1)] by (subst evict_until.simps) simp
    then show ?case using Nil holdsD(8)[OF Nil.prems(1)] by (simp add: sat_add64_exact)
  next
    case (Cons x rs)
    note h = holdsD[OF Cons.prems(1)]
    have used: "rg_used r = length x + length (concat rs)" using h(3) by simp
    show ?case
    proof (cases "length x + length (concat rs) \<le> ring_capacity r - len")
      case True
      then have "evict_until len r = r" using used h(4) Cons.prems(2) by (subst evict_until.simps) auto
      then show ?thesis using Cons.prems True h(8) by (simp add: sat_add64_exact)
    next
      case False
      note e = evict_holds[OF Cons.prems(1)]
      have "evict_until len r = evict_until len (evict_oldest r)"
        using False used h(4) Cons.prems(2) by (subst evict_until.simps) auto
      moreover have "length (x # rs) - length (newest_fit (ring_capacity r - len) rs)
        = 1 + (length rs - length (newest_fit (ring_capacity r - len) rs))"
        using newest_fit_length[of "ring_capacity r - len" rs] by simp
      ultimately show ?thesis
        using False Cons.IH[OF e(1)] Cons.prems(2) by (simp add: e(2,3) sat_add64_add)
    qed
  qed
  then show "holds (evict_until len r) (newest_fit (ring_capacity r - len) rs)"
    "ring_capacity (evict_until len r) = ring_capacity r"
    "rg_dropped (evict_until len r) = sat_add64 (rg_dropped r) (length rs - length (newest_fit (ring_capacity r - len) rs))"
    by blast+
qed

lemma append_parts_holds:
  assumes h: "holds r rs" and wf: "record_wf (header @ payload)"
  defines "x \<equiv> header @ payload"
  shows "ring_capacity (fst (append_parts header payload r)) = ring_capacity r"
    and "length x > ring_capacity r \<Longrightarrow> holds (fst (append_parts header payload r)) rs
      \<and> rg_dropped (fst (append_parts header payload r)) = sat_add64 (rg_dropped r) 1"
    and "length x \<le> ring_capacity r \<Longrightarrow>
      holds (fst (append_parts header payload r)) (newest_fit (ring_capacity r - length x) rs @ [x])
      \<and> rg_dropped (fst (append_parts header payload r))
        = sat_add64 (rg_dropped r) (length rs - length (newest_fit (ring_capacity r - length x) rs))"
    and "snd (append_parts header payload r) \<longleftrightarrow> length x \<le> ring_capacity r"
proof -
  let ?c = "ring_capacity r"
  have len: "length x = length header + length payload" by (simp add: x_def)
  have big: "append_parts header payload r = (r\<lparr>rg_dropped := sat_add64 (rg_dropped r) 1\<rparr>, False)" if "length x > ?c"
    using that by (simp add: append_parts_def len)
  have fits: "ring_capacity (fst (append_parts header payload r)) = ?c \<and> snd (append_parts header payload r)
      \<and> holds (fst (append_parts header payload r)) (newest_fit (?c - length x) rs @ [x])
      \<and> rg_dropped (fst (append_parts header payload r)) = sat_add64 (rg_dropped r) (length rs - length (newest_fit (?c - length x) rs))"
    if le: "length x \<le> ?c"
  proof -
    define kept where "kept = newest_fit (?c - length x) rs"
    define r1 where "r1 = evict_until (length x) r"
    have h1: "holds r1 kept" and c1: "ring_capacity r1 = ?c"
      and d1: "rg_dropped r1 = sat_add64 (rg_dropped r) (length rs - length kept)"
      using evict_until_holds[OF h le] by (simp_all add: r1_def kept_def)
    note k = holdsD[OF h1, unfolded c1]
    have used: "rg_used r1 + length x \<le> ?c"
      using newest_fit_fits[of "?c - length x" rs] le k(3) by (simp add: kept_def)
    define tail where "tail = (rg_head r1 + rg_used r1) mod ?c"
    define r2 where "r2 = ring_write_at tail header r1"
    define r3 where "r3 = ring_write_at ((tail + length header) mod ?c) payload r2"
    have pos: "0 < ?c" using k(1) by simp
    then have tc: "tail < ?c" "(tail + length header) mod ?c < ?c" by (simp_all add: tail_def)
    have c2: "ring_capacity r2 = ?c" using ring_capacity_write[of tail r1 header] tc used len by (simp add: r2_def c1)
    have c3: "ring_capacity r3 = ?c"
      using ring_capacity_write[of "(tail + length header) mod ?c" r2 payload] tc used len by (simp add: r3_def c2)
    have w2: "circ (rg_bytes r2) (rg_head r1) (rg_used r1 + length header) = concat kept @ header"
      using circ_write[of "rg_head r1" r1 "rg_used r1" header] k(2,6) used len by (simp add: r2_def tail_def c1)
    have "(rg_head r1 + (rg_used r1 + length header)) mod ?c = (tail + length header) mod ?c"
      by (simp add: tail_def mod_add_left_eq add.assoc)
    then have w3: "circ (rg_bytes r3) (rg_head r1) (rg_used r1 + length x) = concat (kept @ [x])"
      using circ_write[of "rg_head r1" r2 "rg_used r1 + length header" payload] k(2) used len w2
      by (simp add: r3_def c2 x_def add.assoc)
    have same: "rg_head r3 = rg_head r1" "rg_used r3 = rg_used r1" "rg_records r3 = rg_records r1" "rg_dropped r3 = rg_dropped r1"
      by (simp_all add: r3_def r2_def ring_write_at_def Let_def)
    have a: "append_parts header payload r = (r3\<lparr>rg_used := rg_used r3 + length x, rg_records := sat_add64 (rg_records r3) 1\<rparr>, True)"
      using le by (simp add: append_parts_def Let_def r3_def r2_def tail_def c1 len c2[unfolded r2_def tail_def] flip: r1_def[unfolded len])
    have "32 * length (kept @ [x]) \<le> ?c"
      using records_length[of "kept @ [x]"] k(3,5) wf used by (simp add: x_def)
    then have cnt: "sat_add64 (rg_records r3) 1 = length (kept @ [x])"
      using k(7,9) by (simp add: same sat_add64_exact)
    have "holds (fst (append_parts header payload r)) (kept @ [x])"
      using k used w3 wf cnt unfolding a holds_def
      by (simp add: same c3 EVENT_RECORD_HEADER_LEN_def) (simp add: x_def ring_capacity_def)
    then show ?thesis using d1 c3 by (simp add: a same kept_def)
  qed
  show "ring_capacity (fst (append_parts header payload r)) = ?c" "snd (append_parts header payload r) \<longleftrightarrow> length x \<le> ?c"
    using big fits by (cases "length x \<le> ?c"; simp)+
  show "length x > ?c \<Longrightarrow> holds (fst (append_parts header payload r)) rs
      \<and> rg_dropped (fst (append_parts header payload r)) = sat_add64 (rg_dropped r) 1"
    using big holdsD[OF h] unfolding holds_def EVENT_RECORD_HEADER_LEN_def by simp
  show "length x \<le> ?c \<Longrightarrow> holds (fst (append_parts header payload r)) (newest_fit (?c - length x) rs @ [x])
      \<and> rg_dropped (fst (append_parts header payload r)) = sat_add64 (rg_dropped r) (length rs - length (newest_fit (?c - length x) rs))"
    using fits by blast
qed

subsection \<open>The interpretation\<close>

definition ring_abs :: "ring \<Rightarrow> fifo" where
  "ring_abs r = \<lparr>ff_room = ring_capacity r, ff_held = record_vecs r, ff_lost = rg_dropped r\<rparr>"

definition ring_ok :: "ring \<Rightarrow> bool" where
  "ring_ok r \<longleftrightarrow> holds r (record_vecs r)"

lemma holds_ok: "holds r rs \<Longrightarrow> ring_ok r \<and> ring_abs r = \<lparr>ff_room = ring_capacity r, ff_held = rs, ff_lost = rg_dropped r\<rparr>"
  by (simp add: ring_ok_def ring_abs_def holds_record_vecs)

lemma append_parts_ok:
  assumes "ring_ok r" "record_wf (header @ payload)"
  shows "ring_ok (fst (append_parts header payload r))"
    and "ring_abs (fst (append_parts header payload r)) = fifo_push (header @ payload) (ring_abs r)"
    and "snd (append_parts header payload r) \<longleftrightarrow> length (header @ payload) \<le> ring_capacity r"
proof -
  note a = append_parts_holds[OF assms(1)[unfolded ring_ok_def] assms(2)]
  have "ring_ok (fst (append_parts header payload r))
    \<and> ring_abs (fst (append_parts header payload r)) = fifo_push (header @ payload) (ring_abs r)"
  proof (cases "length (header @ payload) > ring_capacity r")
    case True
    then show ?thesis using a(1) a(2)[OF True] holds_ok[of "fst (append_parts header payload r)" "record_vecs r"]
      by (simp add: ring_abs_def fifo_push_def)
  next
    case False
    then have "length (header @ payload) \<le> ring_capacity r" by simp
    then show ?thesis using a(1) a(3) holds_ok[of "fst (append_parts header payload r)"]
      by (auto simp: ring_abs_def fifo_push_def Let_def)
  qed
  then show "ring_ok (fst (append_parts header payload r))"
    "ring_abs (fst (append_parts header payload r)) = fifo_push (header @ payload) (ring_abs r)" by simp_all
  show "snd (append_parts header payload r) \<longleftrightarrow> length (header @ payload) \<le> ring_capacity r" by (rule a(4))
qed

lemma ring_append_ok:
  "ring_ok r \<Longrightarrow> record_wf x \<Longrightarrow> ring_ok (ring_append x r)"
  "ring_ok r \<Longrightarrow> record_wf x \<Longrightarrow> ring_abs (ring_append x r) = fifo_push x (ring_abs r)"
  using append_parts_ok[of r x "[]"] by (simp_all add: ring_append_def)

lemma ring_new_ok:
  assumes "32 \<le> n" "n < 2 ^ 64" "d < 2 ^ 64"
  shows "ring_ok ((ring_new n)\<lparr>rg_dropped := d\<rparr>)"
    "ring_abs ((ring_new n)\<lparr>rg_dropped := d\<rparr>) = \<lparr>ff_room = n, ff_held = [], ff_lost = d\<rparr>"
proof -
  have "holds ((ring_new n)\<lparr>rg_dropped := d\<rparr>) []"
    using assms by (simp add: holds_def ring_new_def ring_capacity_def EVENT_RECORD_HEADER_LEN_def)
  then show "ring_ok ((ring_new n)\<lparr>rg_dropped := d\<rparr>)"
    "ring_abs ((ring_new n)\<lparr>rg_dropped := d\<rparr>) = \<lparr>ff_room = n, ff_held = [], ff_lost = d\<rparr>"
    using holds_ok by (auto simp: ring_new_def ring_capacity_def)
qed

lemma fold_ring_append_ok:
  "ring_ok r \<Longrightarrow> list_all record_wf xs \<Longrightarrow>
    ring_ok (fold ring_append xs r) \<and> ring_abs (fold ring_append xs r) = fold fifo_push xs (ring_abs r)"
  by (induction xs arbitrary: r) (simp_all add: ring_append_ok)

lemma ring_abs_ok: "ring_ok r \<Longrightarrow> fifo_ok (ring_abs r)"
  by (simp add: ring_ok_def ring_abs_def fifo_ok_def holds_def)

lemma ring_resize_ok:
  assumes "ring_ok r" "32 \<le> n" "n < 2 ^ 64"
  shows "ring_ok (ring_resize n r) \<and> ring_abs (ring_resize n r) = fifo_resize n (ring_abs r)"
proof (cases "n = ring_capacity r")
  case False
  have "list_all record_wf (record_vecs r)" "rg_dropped r < 2 ^ 64"
    using assms(1) by (simp_all add: ring_ok_def holds_def)
  then show ?thesis
    using fold_ring_append_ok[OF ring_new_ok(1)[OF assms(2,3)], of "rg_dropped r" "record_vecs r"] False
      ring_new_ok(2)[OF assms(2,3), of "rg_dropped r"]
    by (simp add: ring_resize_def fifo_resize_def) (simp add: ring_abs_def)
qed (use assms in \<open>simp add: ring_resize_def fifo_resize_def ring_abs_def\<close>)

interpretation rb: record_buffer ring_append ring_resize ring_abs ring_ok
  by unfold_locales (simp_all add: ring_append_ok ring_resize_ok ring_abs_ok)

text \<open>A run of ring operations, as a run of the locale.\<close>

fun ring_op :: "bytes + nat \<Rightarrow> ring \<Rightarrow> ring" where
  "ring_op (Inl r) b = ring_append r b"
| "ring_op (Inr n) b = ring_resize n b"

lemma run_op_ring: "rb.run_op = ring_op"
proof (intro ext)
  fix op r
  show "rb.run_op op r = ring_op op r" by (cases op) simp_all
qed

end
