(* ===== verification/Event_Log.thy ===== *)
theory Event_Log
  imports Event_Ring Frame_Decode
begin

text \<open>
  The event log, \<open>EventLog\<close> in \<open>crates/server/src/events.rs\<close>: the ring behind its lock, the activation
  words, the configuration revision, and the counters for sequence numbers and stream ids.  A record
  is written in two stages, because the sequence number is taken before the lock: \<open>stamp_event\<close>
  builds the record, \<open>commit_event\<close> appends it and hands it to the live channel.  What the channel
  has of receivers is an argument, as is the clock (\<open>elapsed\<close> nanoseconds since the start).
\<close>

definition DEFAULT_RING_SIZE :: nat where [wire_defs]: "DEFAULT_RING_SIZE = 1024 * 1024"
definition MIN_RING_SIZE :: nat where [wire_defs]: "MIN_RING_SIZE = 4 * 1024"
definition MAX_RING_SIZE :: nat where "MAX_RING_SIZE = MAX_DECOMPRESSED - 4096"

subsection \<open>State\<close>

record event_log =
  el_activations :: activation_set
  el_ring :: ring
  el_revision :: u64
  el_next_sequence :: u64
  el_next_stream_id :: u32
  el_started_unix_ns :: nat

record event_stats =
  es_revision :: u64
  es_capacity :: nat
  es_used :: nat
  es_records :: nat
  es_dropped :: nat
  es_next_sequence :: u64

record startup_file =
  sf_path :: bytes
  sf_flags :: u8

datatype configure_error = InvalidSize | RevisionConflict

text \<open>
  The environment: the parsed \<open>BLIT_EVENTS_SIZE\<close>, \<open>BLIT_EVENTS\<close>, \<open>BLIT_EVENTS_FILE\<close> and whether
  \<open>_HISTORY\<close> is \<open>0\<close> and \<open>_APPEND\<close> is \<open>1\<close>.
\<close>

record events_env =
  ee_size :: "nat option"
  ee_spec :: "bytes option"
  ee_file :: "bytes option"
  ee_no_history :: bool
  ee_append :: bool

definition event_log_new :: "nat \<Rightarrow> activation_set \<Rightarrow> nat \<Rightarrow> event_log" where
  "event_log_new sz activations started_unix_ns = \<lparr>el_activations = activations, el_ring = ring_new sz, el_revision = 1,
     el_next_sequence = 0, el_next_stream_id = 1, el_started_unix_ns = min started_unix_ns (2 ^ 64 - 1)\<rparr>"

definition event_log_from_env :: "events_env \<Rightarrow> nat \<Rightarrow> event_log \<times> startup_file option" where
  "event_log_from_env env started_unix_ns =
    (let sz = (case ee_size env of Some n \<Rightarrow> if MIN_RING_SIZE \<le> n \<and> n \<le> MAX_RING_SIZE then n else DEFAULT_RING_SIZE
               | None \<Rightarrow> DEFAULT_RING_SIZE);
         activations = (case ee_spec env of None \<Rightarrow> low_throughput
           | Some spec \<Rightarrow> (case parse_activation_spec spec of Inl _ \<Rightarrow> low_throughput | Inr a \<Rightarrow> a));
         file = (case ee_file env of None \<Rightarrow> None
           | Some path \<Rightarrow> if path = [] then None
             else Some \<lparr>sf_path = path, sf_flags = (if ee_no_history env then 0 else EVENTS_STREAM_HISTORY)
               OR (if ee_append env then EVENTS_STREAM_APPEND else 0)\<rparr>)
     in (event_log_new sz activations started_unix_ns, file))"

definition log_enabled :: "event_log \<Rightarrow> event_type \<Rightarrow> bool" where
  "log_enabled log kind \<longleftrightarrow> (let i = event_id kind in (el_activations log ! (i div 64)) AND push_bit (i mod 64) 1 \<noteq> 0)"

subsection \<open>Configuration\<close>

definition stats_locked :: "event_log \<Rightarrow> u64 \<Rightarrow> event_stats" where
  "stats_locked log revision = \<lparr>es_revision = revision, es_capacity = ring_capacity (el_ring log), es_used = rg_used (el_ring log),
     es_records = rg_records (el_ring log), es_dropped = rg_dropped (el_ring log), es_next_sequence = el_next_sequence log\<rparr>"

definition configuration :: "event_log \<Rightarrow> event_stats \<times> activation_set" where
  "configuration log = (stats_locked log (el_revision log), el_activations log)"

definition configure :: "nat \<Rightarrow> activation_set \<Rightarrow> u64 option \<Rightarrow> event_log \<Rightarrow> event_log \<times> (configure_error + event_stats)" where
  "configure sz activations expected log =
    (if \<not> (MIN_RING_SIZE \<le> sz \<and> sz \<le> MAX_RING_SIZE) then (log, Inl InvalidSize)
     else let revision = el_revision log in
       if (case expected of Some e \<Rightarrow> e \<noteq> revision | None \<Rightarrow> False) then (log, Inl RevisionConflict)
       else let revision' = (if revision \<ge> EVENTS_CONFIG_REVISION_ANY - 1 then 1 else revision + 1);
                log = log\<lparr>el_ring := ring_resize sz (el_ring log), el_activations := activations, el_revision := revision'\<rparr>
         in (log, Inr (stats_locked log revision')))"

subsection \<open>Recording\<close>

definition event_header :: "event_type \<Rightarrow> u16 \<Rightarrow> u64 \<Rightarrow> nat \<Rightarrow> nat \<Rightarrow> nat \<Rightarrow> bytes" where
  "event_header kind flags sequence monotonic_ns unix_ns len =
    to_le 4 len @ to_le 2 (event_id kind) @ wle 2 flags @ wle 8 sequence @ to_le 8 monotonic_ns @ to_le 8 unix_ns"

definition stamp_event :: "nat \<Rightarrow> event_type \<Rightarrow> u16 \<Rightarrow> bytes \<Rightarrow> event_log \<Rightarrow> event_log \<times> (bytes \<times> bytes)" where
  "stamp_event elapsed kind flags payload log =
    (let sequence = el_next_sequence log;
         monotonic_ns = min elapsed (2 ^ 64 - 1);
         unix_ns = sat_add64 (el_started_unix_ns log) monotonic_ns;
         max_payload = MAX_DECOMPRESSED - EVENT_RECORD_HEADER_LEN - 9;
         payload = take max_payload payload;
         header = event_header kind flags sequence monotonic_ns unix_ns (EVENT_RECORD_HEADER_LEN + length payload)
     in (log\<lparr>el_next_sequence := sequence + 1\<rparr>, (header, payload)))"

text \<open>The second component is what the live channel is sent.\<close>

definition commit_event :: "nat \<Rightarrow> bytes \<times> bytes \<Rightarrow> event_log \<Rightarrow> event_log \<times> bytes option" where
  "commit_event receivers record log = (case record of (header, payload) \<Rightarrow>
     (log\<lparr>el_ring := fst (append_parts header payload (el_ring log))\<rparr>,
      if receivers \<noteq> 0 then Some (header @ payload) else None))"

definition record_event :: "nat \<Rightarrow> nat \<Rightarrow> event_type \<Rightarrow> u16 \<Rightarrow> bytes \<Rightarrow> event_log \<Rightarrow> event_log \<times> bytes option" where
  "record_event receivers elapsed kind flags payload log =
    (let (log, record) = stamp_event elapsed kind flags payload log in commit_event receivers record log)"

text \<open>The macro \<open>blit_event!\<close>.\<close>

definition blit_event :: "nat \<Rightarrow> nat \<Rightarrow> event_type \<Rightarrow> bytes \<Rightarrow> event_log \<Rightarrow> event_log \<times> bytes option" where
  "blit_event receivers elapsed kind payload log =
    (if log_enabled log kind then record_event receivers elapsed kind 0 payload log else (log, None))"

subsection \<open>Dumps and subscriptions\<close>

definition dump_header :: "event_log \<Rightarrow> nat \<Rightarrow> nat \<Rightarrow> bytes" where
  "dump_header log used records = EVENT_DUMP_MAGIC @ to_le 2 EVENT_DUMP_HEADER_LEN @ to_le 2 (unat EVENTS_VERSION)
     @ to_le 8 (ring_capacity (el_ring log)) @ to_le 8 used @ to_le 8 records @ to_le 8 (rg_dropped (el_ring log))
     @ wle 8 (el_next_sequence log) @ activation_to_bytes (el_activations log)"

definition dump_locked :: "event_log \<Rightarrow> bytes" where
  "dump_locked log = dump_header log (rg_used (el_ring log)) (rg_records (el_ring log)) @ concat (record_vecs (el_ring log))"

definition empty_dump_locked :: "event_log \<Rightarrow> bytes" where
  "empty_dump_locked log = dump_header log 0 0"

text \<open>What a subscription starts from; the receiver itself is the caller's.\<close>

definition snapshot :: "bool \<Rightarrow> bool \<Rightarrow> event_log \<Rightarrow> bytes option \<times> nat" where
  "snapshot history empty_header log =
    (if history then Some (dump_locked log) else if empty_header then Some (empty_dump_locked log) else None,
     if history then rg_records (el_ring log) else 0)"

text \<open>The loop passes over the id 0, which it meets at most once.\<close>

definition allocate_stream_id :: "event_log \<Rightarrow> event_log \<times> u32" where
  "allocate_stream_id log = (let i = el_next_stream_id log in
     if i \<noteq> 0 then (log\<lparr>el_next_stream_id := i + 1\<rparr>, i) else (log\<lparr>el_next_stream_id := i + 2\<rparr>, i + 1))"

definition gap_record :: "u64 \<Rightarrow> bytes" where
  "gap_record lost = to_le 4 (EVENT_RECORD_HEADER_LEN + 8) @ wle 2 EVENT_TYPE_STREAM_GAP @ to_le 2 0 @ to_le 8 0 @ to_le 8 0
     @ to_le 8 0 @ wle 8 lost"

subsection \<open>Payloads\<close>

definition payload_name :: "bytes \<Rightarrow> bytes" where
  "payload_name name = (let len = min (length name) 65535 in to_le 2 len @ take len name)"

definition payload_client :: "u64 \<Rightarrow> bytes" where
  "payload_client client_id = wle 8 client_id"

definition payload_pty_create_stage :: "u64 \<Rightarrow> u16 \<Rightarrow> u8 \<Rightarrow> u8 \<Rightarrow> u16 \<Rightarrow> bytes" where
  "payload_pty_create_stage client_id nonce stage status pty_id =
    wle 8 client_id @ wle 2 nonce @ [stage, status] @ wle 2 pty_id"

definition payload_frame :: "u64 \<Rightarrow> bytes \<Rightarrow> bytes" where
  "payload_frame client_id frame = (let len = min (length frame) (2 ^ 32 - 1) in
     wle 8 client_id @ to_le 4 len @ take len frame)"

subsection \<open>The invariant\<close>

definition log_ok :: "event_log \<Rightarrow> bool" where
  "log_ok log \<longleftrightarrow> ring_ok (el_ring log) \<and> MIN_RING_SIZE \<le> ring_capacity (el_ring log) \<and> ring_capacity (el_ring log) \<le> MAX_RING_SIZE
     \<and> activation_ok (el_activations log) \<and> el_revision log \<noteq> 0 \<and> el_revision log \<noteq> EVENTS_CONFIG_REVISION_ANY"

lemma ring_size_bounds: "MIN_RING_SIZE \<le> n \<Longrightarrow> n \<le> MAX_RING_SIZE \<Longrightarrow> 32 \<le> n \<and> n < 2 ^ 32"
  by (simp add: MIN_RING_SIZE_def MAX_RING_SIZE_def MAX_DECOMPRESSED_def)

lemma activation_consts_ok: "activation_ok low_throughput" "activation_ok activation_default" "activation_ok activation_all"
  by (simp_all add: activation_ok_def low_throughput_def activation_default_def activation_all_def ACTIVATION_WORDS_def)

lemma set_event_ok [simp]: "activation_ok (set_event kind on a) \<longleftrightarrow> activation_ok a"
  by (simp add: activation_ok_def set_event_def Let_def)

lemma fold_set_event_ok: "activation_ok a \<Longrightarrow>
    activation_ok (fold (\<lambda>(kind, name) a. if P kind name then set_event kind on a else a) cat a)"
  by (induction cat arbitrary: a) auto

lemma apply_selector_ok: "activation_ok a \<Longrightarrow> apply_selector a raw = Inr a' \<Longrightarrow> activation_ok a'"
  by (auto simp: apply_selector_def Let_def activation_consts_ok set_category_def clear_default_def
      intro: fold_set_event_ok split: if_splits option.splits)

lemma apply_selectors_ok: "activation_ok a \<Longrightarrow> apply_selectors a raws = Inr a' \<Longrightarrow> activation_ok a'"
  by (induction raws arbitrary: a) (auto simp: and_then_Inr dest: apply_selector_ok)

lemma parse_activation_spec_ok: "parse_activation_spec spec = Inr a \<Longrightarrow> activation_ok a"
  by (auto simp: parse_activation_spec_def Let_def split: if_splits
      dest: apply_selectors_ok[OF activation_consts_ok(1)] apply_selectors_ok[OF activation_consts_ok(2)])

lemma event_log_new_ok:
  assumes "MIN_RING_SIZE \<le> sz" "sz \<le> MAX_RING_SIZE" "activation_ok a"
  shows "log_ok (event_log_new sz a t)" "ring_abs (el_ring (event_log_new sz a t)) = \<lparr>ff_room = sz, ff_held = [], ff_lost = 0\<rparr>"
proof -
  have n: "ring_new sz = (ring_new sz)\<lparr>rg_dropped := 0\<rparr>" by (simp add: ring_new_def)
  have sz: "32 \<le> sz" "sz < 2 ^ 64" using ring_size_bounds[OF assms(1,2)] by simp_all
  have "ring_ok (ring_new sz)" and abs: "ring_abs (ring_new sz) = \<lparr>ff_room = sz, ff_held = [], ff_lost = 0\<rparr>"
    using ring_new_ok[OF sz, of 0] by (simp_all flip: n)
  moreover have "ring_capacity (ring_new sz) = sz" by (simp add: ring_new_def ring_capacity_def)
  ultimately show "log_ok (event_log_new sz a t)"
    using assms by (simp add: log_ok_def event_log_new_def EVENTS_CONFIG_REVISION_ANY_def)
  show "ring_abs (el_ring (event_log_new sz a t)) = \<lparr>ff_room = sz, ff_held = [], ff_lost = 0\<rparr>"
    using abs by (simp add: event_log_new_def)
qed

lemma event_log_from_env_ok: "log_ok (fst (event_log_from_env env t))"
proof -
  have "MIN_RING_SIZE \<le> DEFAULT_RING_SIZE" "DEFAULT_RING_SIZE \<le> MAX_RING_SIZE"
    by (simp_all add: MIN_RING_SIZE_def DEFAULT_RING_SIZE_def MAX_RING_SIZE_def MAX_DECOMPRESSED_def)
  then show ?thesis
    by (auto simp: event_log_from_env_def Let_def activation_consts_ok parse_activation_spec_ok
        intro!: event_log_new_ok split: option.split sum.split)
qed

lemma next_revision_ok:
  "(if r \<ge> EVENTS_CONFIG_REVISION_ANY - 1 then 1 else r + 1) \<notin> {0, EVENTS_CONFIG_REVISION_ANY}"
proof (cases "r \<ge> EVENTS_CONFIG_REVISION_ANY - 1")
  case False
  then have r: "unat r < 18446744073709551614"
    by (simp add: EVENTS_CONFIG_REVISION_ANY_def word_le_nat_alt not_le)
  then have "unat (r + 1) = unat r + 1" by (subst unat_add_lem[THEN iffD1]) simp_all
  then have u: "unat (r + 1) \<noteq> 0" "unat (r + 1) \<noteq> 18446744073709551615" using r by simp_all
  have "r + 1 \<noteq> 0" using u(1) by (metis unat_0)
  moreover have "r + 1 \<noteq> 18446744073709551615"
  proof
    assume "r + 1 = 18446744073709551615"
    then have "unat (r + 1) = 18446744073709551615" by simp
    then show False using u(2) by simp
  qed
  ultimately have "r + 1 \<noteq> 0" "r + 1 \<noteq> 18446744073709551615" by simp_all
  then show ?thesis using False by (simp add: EVENTS_CONFIG_REVISION_ANY_def)
qed (simp add: EVENTS_CONFIG_REVISION_ANY_def)

subsection \<open>What the operations do\<close>

lemma ring_resize_capacity: "ring_ok r \<Longrightarrow> 32 \<le> n \<Longrightarrow> n < 2 ^ 64 \<Longrightarrow> ring_capacity (ring_resize n r) = n"
  using arg_cong[OF rb.abs_resize[of r n], of ff_room] by (simp add: ring_abs_def fifo_resize_def split: if_splits)

lemma configure_ok: "log_ok log \<Longrightarrow> activation_ok a \<Longrightarrow> log_ok (fst (configure sz a expected log))"
  using next_revision_ok[of "el_revision log"] ring_size_bounds[of sz]
    rb.inv_resize[of "el_ring log" sz] ring_resize_capacity[of "el_ring log" sz]
  by (auto simp: configure_def Let_def log_ok_def split: if_splits)

text \<open>A record under construction: the fields that matter later.\<close>

definition record_sequence :: "bytes \<Rightarrow> u64" where
  "record_sequence r = rdw 8 r 8"

lemma length_event_header [simp]: "length (event_header kind flags sq m u len) = 32"
  by (simp add: event_header_def)

lemma event_header_record:
  assumes "len = 32 + length payload" "len < 2 ^ 32"
  shows "record_wf (event_header kind flags sq m u len @ payload)"
    and "record_sequence (event_header kind flags sq m u len @ payload) = sq"
proof -
  let ?r = "event_header kind flags sq m u len @ payload"
  have "rd 4 ?r 0 = len" using assms(2) by (simp add: event_header_def rd_head)
  then show "record_wf ?r" using assms(1) by (simp add: record_wf_def EVENT_RECORD_HEADER_LEN_def)
  have "rdw 8 ((to_le 4 len @ to_le 2 (event_id kind) @ wle 2 flags) @ wle 8 sq @ to_le 8 m @ to_le 8 u @ payload) 8 = sq"
    by (rule rdw_at) simp_all
  then show "record_sequence ?r = sq" by (simp add: record_sequence_def event_header_def)
qed

lemma stamp_event_record:
  assumes "stamp_event elapsed kind flags payload log = (log', (header, body))"
  shows "record_wf (header @ body)" "record_sequence (header @ body) = el_next_sequence log"
    "log' = log\<lparr>el_next_sequence := el_next_sequence log + 1\<rparr>"
proof -
  define body' where "body' = take (MAX_DECOMPRESSED - EVENT_RECORD_HEADER_LEN - 9) payload"
  have b: "body = body'" and l: "log' = log\<lparr>el_next_sequence := el_next_sequence log + 1\<rparr>"
    and h: "header = event_header kind flags (el_next_sequence log) (min elapsed (2 ^ 64 - 1))
      (sat_add64 (el_started_unix_ns log) (min elapsed (2 ^ 64 - 1))) (32 + length body')"
    using assms by (auto simp: stamp_event_def Let_def body'_def EVENT_RECORD_HEADER_LEN_def simp del: length_take)
  have "length body' \<le> 67108864" by (simp add: body'_def MAX_DECOMPRESSED_def)
  then show "record_wf (header @ body)" "record_sequence (header @ body) = el_next_sequence log"
    unfolding h b by (simp_all add: event_header_record)
  show "log' = log\<lparr>el_next_sequence := el_next_sequence log + 1\<rparr>" by (rule l)
qed

lemma log_ok_sequence [simp]: "log_ok (log\<lparr>el_next_sequence := sq\<rparr>) \<longleftrightarrow> log_ok log"
  by (simp add: log_ok_def)

lemma log_ok_stream_id [simp]: "log_ok (log\<lparr>el_next_stream_id := i\<rparr>) \<longleftrightarrow> log_ok log"
  by (simp add: log_ok_def)

lemma log_ok_capacity: "log_ok log \<Longrightarrow> ff_room (ring_abs (el_ring log)) = ring_capacity (el_ring log)"
  by (simp add: ring_abs_def)

lemma commit_event_ok:
  assumes "log_ok log" "record_wf (header @ payload)" "commit_event receivers (header, payload) log = (log', live)"
  shows "log_ok log'" "ring_abs (el_ring log') = fifo_push (header @ payload) (ring_abs (el_ring log))"
    "log' = log\<lparr>el_ring := el_ring log'\<rparr>"
    "live = (if receivers = 0 then None else Some (header @ payload))"
proof -
  have l: "log' = log\<lparr>el_ring := fst (append_parts header payload (el_ring log))\<rparr>"
    and live: "live = (if receivers = 0 then None else Some (header @ payload))"
    using assms(3) by (auto simp: commit_event_def)
  have ok: "ring_ok (el_ring log)" using assms(1) by (simp add: log_ok_def)
  note a = append_parts_ok[OF ok assms(2)]
  have "ring_capacity (fst (append_parts header payload (el_ring log))) = ring_capacity (el_ring log)"
    using append_parts_holds(1)[OF ok[unfolded ring_ok_def] assms(2)] .
  then show "log_ok log'" using assms(1) a(1) by (simp add: log_ok_def l)
  show "ring_abs (el_ring log') = fifo_push (header @ payload) (ring_abs (el_ring log))" using a(2) by (simp add: l)
  show "log' = log\<lparr>el_ring := el_ring log'\<rparr>" by (simp add: l)
  show "live = (if receivers = 0 then None else Some (header @ payload))" by (rule live)
qed

lemma allocate_stream_id_ok:
  assumes "allocate_stream_id log = (log', i)"
  shows "i \<noteq> 0" "log' = log\<lparr>el_next_stream_id := el_next_stream_id log'\<rparr>" "el_next_stream_id log' = i + 1"
  using assms by (auto simp: allocate_stream_id_def Let_def split: if_splits)

subsection \<open>Reading a dump\<close>

definition dump_records :: "bytes \<Rightarrow> bytes list" where
  "dump_records dump = cut_records (rd 8 dump 28) (drop 84 dump)"

lemma length_dump_header [simp]: "activation_ok (el_activations log) \<Longrightarrow> length (dump_header log used records) = 84"
  by (simp add: dump_header_def EVENT_DUMP_MAGIC_def ascii_def length_activation_to_bytes)

lemma dump_header_fields:
  assumes "ring_capacity (el_ring log) < 2 ^ 64" "used < 2 ^ 64" "records < 2 ^ 64" "rg_dropped (el_ring log) < 2 ^ 64"
    "activation_ok (el_activations log)"
  shows "take 8 (dump_header log used records @ rest) = EVENT_DUMP_MAGIC"
    "rd 2 (dump_header log used records @ rest) 8 = 84" "rd 2 (dump_header log used records @ rest) 10 = 1"
    "rd 8 (dump_header log used records @ rest) 12 = ring_capacity (el_ring log)"
    "rd 8 (dump_header log used records @ rest) 20 = used"
    "rd 8 (dump_header log used records @ rest) 28 = records"
    "rd 8 (dump_header log used records @ rest) 36 = rg_dropped (el_ring log)"
    "rdw 8 (dump_header log used records @ rest) 44 = el_next_sequence log"
    "activation_from_bytes (slice_of (dump_header log used records @ rest) 52 32) = Some (el_activations log)"
proof -
  define d where "d = dump_header log used records @ rest"
  let ?c = "ring_capacity (el_ring log)" and ?l = "rg_dropped (el_ring log)" and ?m = EVENT_DUMP_MAGIC
  have m: "length EVENT_DUMP_MAGIC = 8" by (simp add: EVENT_DUMP_MAGIC_def ascii_def)
  have d: "d = ?m @ to_le 2 84 @ to_le 2 1 @ to_le 8 ?c @ to_le 8 used @ to_le 8 records @ to_le 8 ?l
      @ wle 8 (el_next_sequence log) @ activation_to_bytes (el_activations log) @ rest"
    by (simp add: d_def dump_header_def EVENT_DUMP_HEADER_LEN_def EVENTS_VERSION_def)
  note small = assms(1-4)
  have f1: "take 8 d = ?m" unfolding d using m by simp
  have f2: "rd 2 d 8 = 84" unfolding d using rd_at[OF m] by simp
  have f3: "rd 2 d 10 = 1" using rd_at[of "?m @ to_le 2 84" 10 2 1] m by (simp add: d)
  have f4: "rd 8 d 12 = ?c" using rd_at[of "?m @ to_le 2 84 @ to_le 2 1" 12 8 ?c] m small by (simp add: d)
  have f5: "rd 8 d 20 = used" using rd_at[of "?m @ to_le 2 84 @ to_le 2 1 @ to_le 8 ?c" 20 8 used] m small by (simp add: d)
  have f6: "rd 8 d 28 = records"
    using rd_at[of "?m @ to_le 2 84 @ to_le 2 1 @ to_le 8 ?c @ to_le 8 used" 28 8 records] m small by (simp add: d)
  have f7: "rd 8 d 36 = ?l"
    using rd_at[of "?m @ to_le 2 84 @ to_le 2 1 @ to_le 8 ?c @ to_le 8 used @ to_le 8 records" 36 8 ?l] m small by (simp add: d)
  have f8: "rdw 8 d 44 = el_next_sequence log"
    using rdw_at[of "?m @ to_le 2 84 @ to_le 2 1 @ to_le 8 ?c @ to_le 8 used @ to_le 8 records @ to_le 8 ?l" 44 8
        "el_next_sequence log"] m by (simp add: d)
  define P where "P = ?m @ to_le 2 84 @ to_le 2 1 @ to_le 8 ?c @ to_le 8 used @ to_le 8 records @ to_le 8 ?l @ wle 8 (el_next_sequence log)"
  have P: "length P = 52" "d = P @ activation_to_bytes (el_activations log) @ rest" using m by (simp_all add: P_def d)
  have "slice_of d 52 32 = activation_to_bytes (el_activations log)"
    unfolding P(2) by (rule slice_at[OF P(1)]) (simp add: length_activation_to_bytes[OF assms(5)])
  then have f9: "activation_from_bytes (slice_of d 52 32) = Some (el_activations log)"
    using assms(5) by (simp add: activation_from_to)
  show "take 8 (dump_header log used records @ rest) = EVENT_DUMP_MAGIC"
    "rd 2 (dump_header log used records @ rest) 8 = 84" "rd 2 (dump_header log used records @ rest) 10 = 1"
    "rd 8 (dump_header log used records @ rest) 12 = ring_capacity (el_ring log)"
    "rd 8 (dump_header log used records @ rest) 20 = used"
    "rd 8 (dump_header log used records @ rest) 28 = records"
    "rd 8 (dump_header log used records @ rest) 36 = rg_dropped (el_ring log)"
    "rdw 8 (dump_header log used records @ rest) 44 = el_next_sequence log"
    "activation_from_bytes (slice_of (dump_header log used records @ rest) 52 32) = Some (el_activations log)"
    using f1 f2 f3 f4 f5 f6 f7 f8 f9 unfolding d_def by blast+
qed

lemma dump_exact:
  assumes "log_ok log"
  shows "dump_records (dump_locked log) = record_vecs (el_ring log)" "length (dump_locked log) = 84 + rg_used (el_ring log)"
    "rd 8 (dump_locked log) 20 = rg_used (el_ring log)" "rd 8 (dump_locked log) 28 = length (record_vecs (el_ring log))"
    "dump_records (empty_dump_locked log) = []" "length (empty_dump_locked log) = 84"
proof -
  note h = holdsD[of "el_ring log" "record_vecs (el_ring log)"]
  have ok: "holds (el_ring log) (record_vecs (el_ring log))" "activation_ok (el_activations log)"
    "ring_capacity (el_ring log) < 2 ^ 32"
    using assms ring_size_bounds[of "ring_capacity (el_ring log)"] by (simp_all add: log_ok_def ring_ok_def)
  note h = holdsD[OF ok(1)]
  have small: "ring_capacity (el_ring log) < 2 ^ 64" "rg_used (el_ring log) < 2 ^ 64" "rg_records (el_ring log) < 2 ^ 64"
    "rg_dropped (el_ring log) < 2 ^ 64"
    using h(3,4,5,7,8,9) ok(3) records_length[OF h(5)] by simp_all
  note f = dump_header_fields[OF small(1-3,4) ok(2), of "concat (record_vecs (el_ring log))"]
  show "rd 8 (dump_locked log) 20 = rg_used (el_ring log)" "rd 8 (dump_locked log) 28 = length (record_vecs (el_ring log))"
    using f(5,6) h(7) by (simp_all add: dump_locked_def)
  show "length (dump_locked log) = 84 + rg_used (el_ring log)" using h(3) ok(2) by (simp add: dump_locked_def)
  have "drop 84 (dump_locked log) = concat (record_vecs (el_ring log))" using ok(2) by (simp add: dump_locked_def)
  then show "dump_records (dump_locked log) = record_vecs (el_ring log)"
    using f(6) h(7) cut_records_concat[OF h(5), of "[]"] by (simp add: dump_records_def dump_locked_def)
  show "dump_records (empty_dump_locked log) = []" "length (empty_dump_locked log) = 84"
    using dump_header_fields(6)[OF small(1) _ _ small(4) ok(2), of 0 0 "[]"] ok(2)
    by (simp_all add: dump_records_def empty_dump_locked_def)
qed

end
