(* ===== verification/Event_Streams.thy ===== *)
theory Event_Streams
  imports Event_Log
begin

text \<open>
  The two consumers of the live channel: the task behind a client stream, in \<open>handle_events_message\<close> of
  \<open>crates/server/src/lib.rs\<close>, and the task behind a file stream, in \<open>crates/server/src/events.rs\<close>.
  The channel is tokio's \<open>broadcast\<close>; a task sees it as the list of results its \<open>recv\<close> and
  \<open>try_recv\<close> calls will return: a record, \<open>Lagged n\<close>, nothing for now, closed.  \<open>broadcast_delivers\<close> is what
  tokio documents of them.  A client stream's outbox accepts the next \<open>room\<close> frames.
\<close>

definition LIVE_BATCH_MAX_BYTES :: nat where [wire_defs]: "LIVE_BATCH_MAX_BYTES = 256 * 1024"

datatype rx_result = Got bytes | Lagged u64 | Idle | Gone

text \<open>
  The results of one receiver against the records sent since it subscribed: each is delivered once,
  in order, and a run the receiver was too slow for is replaced by its length.
\<close>

fun broadcast_delivers :: "bytes list \<Rightarrow> rx_result list \<Rightarrow> bool" where
  "broadcast_delivers sent [] \<longleftrightarrow> True"
| "broadcast_delivers sent (Got r # rs) \<longleftrightarrow> (case sent of [] \<Rightarrow> False | s # sent \<Rightarrow> s = r \<and> broadcast_delivers sent rs)"
| "broadcast_delivers sent (Lagged n # rs) \<longleftrightarrow> n \<noteq> 0 \<and> unat n \<le> length sent \<and> broadcast_delivers (drop (unat n) sent) rs"
| "broadcast_delivers sent (Idle # rs) \<longleftrightarrow> broadcast_delivers sent rs"
| "broadcast_delivers sent (Gone # rs) \<longleftrightarrow> rs = []"

subsection \<open>Client streams\<close>

text \<open>\<open>recv().await\<close>: the next result that is not \<open>Idle\<close>; \<open>None\<close> while there is none.\<close>

fun recv :: "rx_result list \<Rightarrow> (rx_result \<times> rx_result list) option" where
  "recv [] = None"
| "recv (Idle # rs) = recv rs"
| "recv (Gone # rs) = Some (Gone, Gone # rs)"
| "recv (x # rs) = Some (x, rs)"

text \<open>The inner loop: batch, record set aside, records lost, results left.\<close>

fun fill_batch :: "bytes list \<Rightarrow> nat \<Rightarrow> rx_result list \<Rightarrow> bytes list \<times> bytes option \<times> u64 \<times> rx_result list" where
  "fill_batch batch n [] = (batch, None, 0, [])"
| "fill_batch batch n (x # rs) =
    (if \<not> length batch < 65535 then (batch, None, 0, x # rs)
     else case x of
       Got r \<Rightarrow> (if n + length r \<le> LIVE_BATCH_MAX_BYTES then fill_batch (batch @ [r]) (n + length r) rs
                 else (batch, Some r, 0, rs))
     | Lagged c \<Rightarrow> (batch, None, c, rs)
     | Idle \<Rightarrow> (batch, None, 0, rs)
     | Gone \<Rightarrow> (batch, None, 0, x # rs))"

definition loop_measure :: "bytes option \<Rightarrow> rx_result list \<Rightarrow> nat" where
  "loop_measure pending rs = 2 * length rs + (if pending = None then 0 else 1)"

lemma recv_shorter: "recv rs = Some (x, rs') \<Longrightarrow> x \<noteq> Gone \<Longrightarrow> length rs' < length rs"
  by (induction rs rule: recv.induct) auto

lemma fill_batch_measure: "fill_batch batch n rs = (batch', pending, lost, rs') \<Longrightarrow> loop_measure pending rs' \<le> 2 * length rs"
  by (induction batch n rs rule: fill_batch.induct)
    (force simp: loop_measure_def split: if_splits rx_result.splits)+

text \<open>The record set aside, or the next result.\<close>

definition first_result :: "bytes option \<Rightarrow> rx_result list \<Rightarrow> (rx_result \<times> rx_result list) option" where
  "first_result pending rs = (case pending of Some r \<Rightarrow> Some (Got r, rs) | None \<Rightarrow> recv rs)"

lemma first_result_measure: "first_result pending rs = Some (x, rs') \<Longrightarrow> x \<noteq> Gone \<Longrightarrow> 2 * length rs' < loop_measure pending rs"
  by (auto simp: first_result_def loop_measure_def split: option.splits dest: recv_shorter)

lemma got_step:
  "first_result pending rs = Some (Got r, rs') \<Longrightarrow> (batch, pending', lost, rs'') = fill_batch [r] n rs'
    \<Longrightarrow> loop_measure pending' rs'' < loop_measure pending rs"
  using fill_batch_measure[OF sym] first_result_measure[of pending rs "Got r" rs'] by fastforce

lemma lagged_step: "first_result pending rs = Some (Lagged n, rs') \<Longrightarrow> loop_measure None rs' < loop_measure pending rs"
  using first_result_measure[of pending rs "Lagged n" rs'] by (simp add: loop_measure_def)

text \<open>
  The frames the task sends.  A refused frame breaks the loop, and so does the end of the channel; after
  the loop the task tries to say that the stream stopped, which an outbox that has refused a frame
  refuses too.
\<close>

definition stream_stopped :: "u32 \<Rightarrow> nat \<Rightarrow> bytes list" where
  "stream_stopped sid room = (if room = 0 then [] else [msg_events_stream_stopped sid 0 []])"

lemma stream_stopped_room [simp]:
  "stream_stopped sid 0 = []" "0 < room \<Longrightarrow> stream_stopped sid room = [msg_events_stream_stopped sid 0 []]"
  by (simp_all add: stream_stopped_def)

function client_loop :: "u32 \<Rightarrow> nat \<Rightarrow> bytes option \<Rightarrow> rx_result list \<Rightarrow> bytes list" where
  "client_loop sid room pending rs =
    (case first_result pending rs of
       None \<Rightarrow> []
     | Some (x, rs') \<Rightarrow> (case x of
         Lagged lost \<Rightarrow> (if room = 0 then stream_stopped sid room
           else msg_events_stream_gap sid lost # client_loop sid (room - 1) None rs')
       | Gone \<Rightarrow> stream_stopped sid room
       | Idle \<Rightarrow> []
       | Got r \<Rightarrow> (case fill_batch [r] (length r) rs' of (batch, pending', lost, rs'') \<Rightarrow>
           if room = 0 then stream_stopped sid room
           else msg_events_records sid batch #
             (if lost = 0 then client_loop sid (room - 1) pending' rs''
              else if room = 1 then stream_stopped sid (room - 1)
              else msg_events_stream_gap sid lost # client_loop sid (room - 2) pending' rs''))))"
  by pat_completeness auto
termination
  by (relation "measure (\<lambda>(_, _, pending, rs). loop_measure pending rs)") (auto intro: got_step lagged_step)

declare client_loop.simps [simp del]

definition client_task :: "u16 \<Rightarrow> u32 \<Rightarrow> nat \<Rightarrow> bytes option \<Rightarrow> rx_result list \<Rightarrow> bytes list" where
  "client_task nonce sid room dump rs = (case dump of
     None \<Rightarrow> client_loop sid room None rs
   | Some d \<Rightarrow> (if room = 0 then [] else msg_events_dumped nonce d # client_loop sid (room - 1) None rs))"

subsection \<open>File streams\<close>

record file_progress =
  fp_state :: u8
  fp_records :: u64
  fp_bytes :: u64
  fp_lost :: u64
  fp_error :: "bytes option"

definition progress_new :: "nat \<Rightarrow> nat \<Rightarrow> file_progress" where
  "progress_new records bs = \<lparr>fp_state = EVENTS_STREAM_STATE_RUNNING, fp_records = of_nat records, fp_bytes = of_nat bs,
     fp_lost = 0, fp_error = None\<rparr>"

definition progress_fail :: "bytes \<Rightarrow> file_progress \<Rightarrow> file_progress" where
  "progress_fail err p = p\<lparr>fp_state := EVENTS_STREAM_STATE_FAILED, fp_error := Some err\<rparr>"

definition progress_stop :: "file_progress \<Rightarrow> file_progress" where
  "progress_stop p = p\<lparr>fp_state := EVENTS_STREAM_STATE_STOPPED\<rparr>"

text \<open>
  A file opened through tokio: what has reached the file, and what was accepted and has not yet.  Opening
  a path (for appending or truncated) gives a file or an error; writing and flushing give an error or
  none, and the file after it, which a failing operation may have changed too.  Errors are their texts.
\<close>

record open_file =
  of_disk :: bytes
  of_buffer :: bytes

record file_env =
  fe_open :: "bytes \<Rightarrow> bool \<Rightarrow> bytes + open_file"
  fe_write :: "open_file \<Rightarrow> bytes \<Rightarrow> bytes option \<times> open_file"
  fe_flush :: "open_file \<Rightarrow> bytes option \<times> open_file"

record file_stream =
  ft_path :: bytes
  ft_flags :: u8
  ft_progress :: file_progress
  ft_file :: open_file
  ft_result :: "(bytes + unit) option"

definition io_error :: "string \<Rightarrow> bytes \<Rightarrow> bytes \<Rightarrow> bytes" where
  "io_error what path err = ascii what @ path @ ascii '': '' @ err"

text \<open>The error, if any, and the stream; a failing write counts nothing.\<close>

definition write_stream_bytes :: "file_env \<Rightarrow> bytes \<Rightarrow> u64 \<Rightarrow> file_stream \<Rightarrow> bytes option \<times> file_stream" where
  "write_stream_bytes fe record lost t = (case fe_write fe (ft_file t) record of
     (Some err, file) \<Rightarrow> (Some (io_error ''cannot write '' (ft_path t) err), t\<lparr>ft_file := file\<rparr>)
   | (None, file) \<Rightarrow> let p = ft_progress t in
       (None, t\<lparr>ft_file := file, ft_progress := p\<lparr>fp_records := fp_records p + 1,
         fp_bytes := fp_bytes p + of_nat (length record), fp_lost := fp_lost p + lost\<rparr>\<rparr>))"

text \<open>Writing what arrives.  With \<open>drain\<close> an empty channel ends the loop, without it the loop waits.\<close>

fun write_results :: "file_env \<Rightarrow> bool \<Rightarrow> rx_result list \<Rightarrow> file_stream \<Rightarrow> bytes option \<times> file_stream" where
  "write_results fe drain [] t = (None, t)"
| "write_results fe drain (x # rs) t = (case x of
     Idle \<Rightarrow> (if drain then (None, t) else write_results fe drain rs t)
   | Gone \<Rightarrow> (None, t)
   | Got r \<Rightarrow> (case write_stream_bytes fe r 0 t of (Some err, t) \<Rightarrow> (Some err, t) | (None, t) \<Rightarrow> write_results fe drain rs t)
   | Lagged n \<Rightarrow> (case write_stream_bytes fe (gap_record n) n t of
       (Some err, t) \<Rightarrow> (Some err, t) | (None, t) \<Rightarrow> write_results fe drain rs t))"

definition fail_stream :: "bytes \<Rightarrow> file_stream \<Rightarrow> file_stream" where
  "fail_stream err t = t\<lparr>ft_progress := progress_fail err (ft_progress t), ft_result := Some (Inl err)\<rparr>"

text \<open>The results that come in while the stream runs.\<close>

definition file_feed :: "file_env \<Rightarrow> rx_result list \<Rightarrow> file_stream \<Rightarrow> file_stream" where
  "file_feed fe live t = (if ft_result t \<noteq> None then t
     else case write_results fe False live t of (Some err, t) \<Rightarrow> fail_stream err t | (None, t) \<Rightarrow> t)"

text \<open>The stop: what is left in the channel, then the flush.\<close>

definition file_finish :: "file_env \<Rightarrow> rx_result list \<Rightarrow> file_stream \<Rightarrow> file_stream" where
  "file_finish fe left t = (if ft_result t \<noteq> None then t
     else case write_results fe True left t of
       (Some err, t) \<Rightarrow> fail_stream err t
     | (None, t) \<Rightarrow> (case fe_flush fe (ft_file t) of
         (Some err, file) \<Rightarrow> fail_stream (io_error ''cannot flush '' (ft_path t) err) (t\<lparr>ft_file := file\<rparr>)
       | (None, file) \<Rightarrow> t\<lparr>ft_file := file, ft_progress := progress_stop (ft_progress t), ft_result := Some (Inr ())\<rparr>))"

text \<open>The initial write, which is there when there is a dump.\<close>

definition write_dump :: "file_env \<Rightarrow> bytes \<Rightarrow> bytes option \<Rightarrow> open_file \<Rightarrow> bytes + open_file" where
  "write_dump fe path dump file = (case dump of None \<Rightarrow> Inr file
     | Some d \<Rightarrow> (case fe_write fe file d of
         (Some err, _) \<Rightarrow> Inl (io_error ''cannot initialize '' path err)
       | (None, file) \<Rightarrow> (case fe_flush fe file of
           (Some err, _) \<Rightarrow> Inl (io_error ''cannot flush initial data to '' path err)
         | (None, file) \<Rightarrow> Inr file)))"

definition start_file_stream :: "file_env \<Rightarrow> bytes \<Rightarrow> u8 \<Rightarrow> event_log \<Rightarrow> event_log \<times> (bytes + (u32 \<times> file_stream))" where
  "start_file_stream fe path flags log =
    (let append = flags AND EVENTS_STREAM_APPEND \<noteq> 0; history = flags AND EVENTS_STREAM_HISTORY \<noteq> 0 in
     case fe_open fe path append of
       Inl err \<Rightarrow> (log, Inl (io_error ''cannot open '' path err))
     | Inr file \<Rightarrow>
       (let (log, i) = allocate_stream_id log; (dump, history_records) = snapshot history True log;
            initial_bytes = (case dump of None \<Rightarrow> 0 | Some d \<Rightarrow> length d)
        in case write_dump fe path dump file of
             Inl err \<Rightarrow> (log, Inl err)
           | Inr file \<Rightarrow> (log, Inr (i, \<lparr>ft_path = path, ft_flags = flags,
               ft_progress = progress_new history_records initial_bytes, ft_file = file, ft_result = None\<rparr>))))"

end
