(* ===== verification/Event_Delivery.thy ===== *)
theory Event_Delivery
  imports Event_Streams
begin

text \<open>
  What the two stream tasks deliver.  A stream shows a sequence of items: records, gaps with their
  size, the end.  The frames of a client stream, decoded, show exactly the items the channel gave,
  batched within the size limit; the file of a file stream holds them as records.  Seen against the
  records that were sent (\<open>accounts_for\<close>), each one is either shown or counted in a gap.
\<close>

datatype shown = Shown bytes | Missed u64 | Ended

fun result_items :: "rx_result list \<Rightarrow> shown list" where
  "result_items [] = []"
| "result_items (Got r # rs) = Shown r # result_items rs"
| "result_items (Lagged n # rs) = Missed n # result_items rs"
| "result_items (Idle # rs) = result_items rs"
| "result_items (Gone # rs) = [Ended]"

definition pending_items :: "bytes option \<Rightarrow> rx_result list \<Rightarrow> shown list" where
  "pending_items pending rs = (case pending of Some r \<Rightarrow> [Shown r] | None \<Rightarrow> []) @ result_items rs"

text \<open>What a client reads from a frame.\<close>

definition frame_items :: "bytes \<Rightarrow> shown list" where
  "frame_items frame = (case parse_events_message frame of
     Inl _ \<Rightarrow> []
   | Inr m \<Rightarrow> (case m of
       MsgRecords _ count records \<Rightarrow> map Shown (cut_records (unat count) records)
     | MsgStreamGap _ lost \<Rightarrow> [Missed lost]
     | MsgStreamStopped _ _ _ \<Rightarrow> [Ended]
     | _ \<Rightarrow> []))"

fun result_ok :: "rx_result \<Rightarrow> bool" where
  "result_ok (Got r) \<longleftrightarrow> record_wf r"
| "result_ok (Lagged n) \<longleftrightarrow> n \<noteq> 0"
| "result_ok _ \<longleftrightarrow> True"

subsection \<open>Batches\<close>

definition gap_items :: "u64 \<Rightarrow> shown list" where
  "gap_items lost = (if lost = 0 then [] else [Missed lost])"

lemma fill_batch_items:
  "fill_batch batch n rs = (batch', pending, lost, rs') \<Longrightarrow> list_all result_ok rs \<Longrightarrow>
    map Shown batch @ result_items rs = map Shown batch' @ gap_items lost @ pending_items pending rs'
    \<and> list_all result_ok rs' \<and> (\<forall>r. pending = Some r \<longrightarrow> record_wf r)"
proof (induction batch n rs arbitrary: batch' rule: fill_batch.induct)
  case (1 batch n)
  then show ?case by (auto simp: gap_items_def pending_items_def)
next
  case (2 batch n x rs)
  show ?case
  proof (cases "length batch < 65535")
    case False
    then show ?thesis using 2 by (auto simp: gap_items_def pending_items_def)
  next
    case True
    show ?thesis
    proof (cases x)
      case (Got r)
      then show ?thesis
        using 2 True by (cases "n + length r \<le> LIVE_BATCH_MAX_BYTES") (auto simp: gap_items_def pending_items_def)
    qed (use 2 True in \<open>auto simp: gap_items_def pending_items_def\<close>)
  qed
qed

lemma fill_batch_grows:
  "fill_batch batch n rs = (batch', pending, lost, rs') \<Longrightarrow> list_all result_ok rs \<Longrightarrow> list_all record_wf batch \<Longrightarrow>
    length batch \<le> 65535 \<Longrightarrow> n = length (concat batch) \<Longrightarrow>
    prefix batch batch' \<and> list_all record_wf batch' \<and> length batch' \<le> 65535
    \<and> (batch' = batch \<or> length (concat batch') \<le> LIVE_BATCH_MAX_BYTES)"
proof (induction batch n rs arbitrary: batch' rule: fill_batch.induct)
  case (2 batch n x rs)
  show ?case
  proof (cases "length batch < 65535")
    case False
    then show ?thesis using 2 by auto
  next
    case True
    show ?thesis
    proof (cases x)
      case (Got r)
      show ?thesis
      proof (cases "n + length r \<le> LIVE_BATCH_MAX_BYTES")
        case t: True
        then have "prefix (batch @ [r]) batch' \<and> list_all record_wf batch' \<and> length batch' \<le> 65535
          \<and> (batch' = batch @ [r] \<or> length (concat batch') \<le> LIVE_BATCH_MAX_BYTES)"
          using 2 Got True by (intro "2.IH"[of r]) auto
        then show ?thesis using t 2(6) by (auto dest: append_prefixD)
      qed (use 2 Got True in auto)
    qed (use 2 True in auto)
  qed
qed auto

lemma parse_records_frame:
  assumes "batch \<noteq> []" "length batch \<le> 65535" "list_all record_wf batch"
  shows "parse_events_message (msg_events_records sid batch) = Inr (MsgRecords sid (of_nat (length batch)) (concat batch))"
proof -
  have u: "unat (of_nat (length batch) :: u16) = length batch" using assms(2) by (simp add: unat_of_nat)
  have "(of_nat (length batch) :: u16) \<noteq> 0" using u assms(1) by (metis length_0_conv unat_0)
  moreover have "cut_records (length batch) (concat batch) = batch" using cut_records_concat[OF assms(3), of "[]"] by simp
  ultimately show ?thesis using assms(3) by (simp add: parse_events_message_iff u)
qed

lemma frame_items_simps [simp]:
  "batch \<noteq> [] \<Longrightarrow> length batch \<le> 65535 \<Longrightarrow> list_all record_wf batch \<Longrightarrow>
    frame_items (msg_events_records sid batch) = map Shown batch"
  "frame_items (msg_events_stream_gap sid lost) = [Missed lost]"
  "frame_items (msg_events_stream_stopped sid status []) = [Ended]"
proof -
  show "frame_items (msg_events_records sid batch) = map Shown batch"
    if "batch \<noteq> []" "length batch \<le> 65535" "list_all record_wf batch"
    using parse_records_frame[OF that] cut_records_concat[OF that(3), of "[]"] that(2)
    by (simp add: frame_items_def unat_of_nat)
  have "parse_events_message (msg_events_stream_gap sid lost) = Inr (MsgStreamGap sid lost)"
    by (simp add: parse_events_message_iff)
  then show "frame_items (msg_events_stream_gap sid lost) = [Missed lost]" by (simp add: frame_items_def)
  have "parse_events_message (msg_events_stream_stopped sid status []) = Inr (MsgStreamStopped sid status [])"
    by (simp add: parse_events_message_iff)
  then show "frame_items (msg_events_stream_stopped sid status []) = [Ended]" by (simp add: frame_items_def)
qed

lemma recv_items:
  "recv rs = Some (x, rs') \<Longrightarrow> list_all result_ok rs \<Longrightarrow>
    result_ok x \<and> list_all result_ok rs' \<and> x \<noteq> Idle \<and> result_items rs = result_items (if x = Gone then rs' else x # rs')"
  by (induction rs rule: recv.induct) auto

lemma recv_none_items: "recv rs = None \<Longrightarrow> result_items rs = []"
  by (induction rs rule: recv.induct) auto

lemma recv_gone: "recv rs = Some (Gone, rs') \<Longrightarrow> result_items rs = [Ended]"
  by (induction rs rule: recv.induct) auto

lemma first_result_cases:
  assumes "list_all result_ok rs" "\<forall>r. pending = Some r \<longrightarrow> record_wf r"
  obtains (waiting) "first_result pending rs = None" "pending_items pending rs = []"
  | (got) r rs' where "first_result pending rs = Some (Got r, rs')" "record_wf r" "list_all result_ok rs'"
      "pending_items pending rs = Shown r # result_items rs'"
  | (lagged) n rs' where "first_result pending rs = Some (Lagged n, rs')" "n \<noteq> 0" "list_all result_ok rs'"
      "pending_items pending rs = Missed n # result_items rs'"
  | (gone) rs' where "first_result pending rs = Some (Gone, rs')" "pending_items pending rs = [Ended]"
proof (cases pending)
  case (Some r)
  then show thesis using assms by (intro got[of r rs]) (simp_all add: first_result_def pending_items_def)
next
  case None
  show thesis
  proof (cases "recv rs")
    case n: None
    then show thesis using None by (intro waiting) (simp_all add: first_result_def pending_items_def recv_none_items)
  next
    case (Some y)
    obtain x rs' where y: "y = (x, rs')" by (cases y)
    note i = recv_items[OF Some[unfolded y] assms(1)]
    have f: "first_result pending rs = Some (x, rs')" "pending_items pending rs = result_items rs"
      using None Some y by (simp_all add: first_result_def pending_items_def)
    show thesis
    proof (cases x)
      case Gone
      then show thesis using f recv_gone[of rs rs'] Some y by (intro gone[of rs']) simp_all
    next
      case (Got r)
      then show thesis using f i by (intro got[of r rs']) simp_all
    next
      case (Lagged n)
      then show thesis using f i by (intro lagged[of n rs']) simp_all
    qed (use i in simp)
  qed
qed

subsection \<open>Client streams\<close>

lemma client_loop_items:
  "list_all result_ok rs \<Longrightarrow> \<forall>r. pending = Some r \<longrightarrow> record_wf r \<Longrightarrow>
    \<exists>rest. pending_items pending rs = concat (map frame_items (client_loop sid room pending rs)) @ rest
      \<and> (length (pending_items pending rs) \<le> room \<longrightarrow> rest = [])"
proof (induction "loop_measure pending rs" arbitrary: pending rs room rule: less_induct)
  case less
  show ?case
    using less.prems
  proof (cases rule: first_result_cases)
    case waiting
    then show ?thesis by (simp add: client_loop.simps)
  next
    case (gone rs')
    then show ?thesis by (cases "room = 0") (simp_all add: client_loop.simps)
  next
    case (lagged n rs')
    show ?thesis
    proof (cases "room = 0")
      case False
      have "\<exists>rest. pending_items None rs' = concat (map frame_items (client_loop sid (room - 1) None rs')) @ rest
        \<and> (length (pending_items None rs') \<le> room - 1 \<longrightarrow> rest = [])"
        using lagged_step[OF lagged(1)] lagged(3) by (intro less.hyps) simp_all
      then show ?thesis
        using lagged False by (auto simp: client_loop.simps[of sid room pending rs] pending_items_def)
    qed (use lagged in \<open>simp add: client_loop.simps\<close>)
  next
    case (got r rs')
    obtain batch pending' lost rs'' where f: "fill_batch [r] (length r) rs' = (batch, pending', lost, rs'')"
      by (metis prod.exhaust)
    note i = fill_batch_items[OF f got(3)]
    have b: "batch \<noteq> []" "length batch \<le> 65535" "list_all record_wf batch"
      using fill_batch_grows[OF f got(3)] got(2) by auto
    have items: "pending_items pending rs = map Shown batch @ gap_items lost @ pending_items pending' rs''"
      using got(4) i by simp
    have ih: "\<exists>rest. pending_items pending' rs'' = concat (map frame_items (client_loop sid k pending' rs'')) @ rest
        \<and> (length (pending_items pending' rs'') \<le> k \<longrightarrow> rest = [])" for k
      using got_step[OF got(1) f[symmetric]] i by (intro less.hyps) simp_all
    have len: "1 \<le> length batch" using b(1) by (cases batch) simp_all
    have loop: "client_loop sid room pending rs = (if room = 0 then [] else msg_events_records sid batch #
        (if lost = 0 then client_loop sid (room - 1) pending' rs''
         else if room = 1 then [] else msg_events_stream_gap sid lost # client_loop sid (room - 2) pending' rs''))"
      using got(1) f by (simp add: client_loop.simps[of sid room pending rs])
    consider "room = 0" | "room = 1" "lost \<noteq> 0" | "0 < room" "lost = 0" | "1 < room" "lost \<noteq> 0" by force
    then show ?thesis
    proof cases
      case 1
      then have "client_loop sid room pending rs = []" using loop by simp
      then show ?thesis using items len 1 by simp
    next
      case 2
      then have "client_loop sid room pending rs = [msg_events_records sid batch]" using loop by simp
      then show ?thesis using items len b 2 by (simp add: gap_items_def)
    next
      case 3
      then show ?thesis using ih[of "room - 1"] items len b by (auto simp: loop gap_items_def)
    next
      case 4
      then show ?thesis using ih[of "room - 2"] items len b by (auto simp: loop gap_items_def)
    qed
  qed
qed

text \<open>No frame carries more than the limit, except a single record that is larger.\<close>

lemma client_loop_batches:
  "list_all result_ok rs \<Longrightarrow> \<forall>r. pending = Some r \<longrightarrow> record_wf r \<Longrightarrow> frame \<in> set (client_loop sid room pending rs) \<Longrightarrow>
    parse_events_message frame = Inr (MsgRecords i count records) \<Longrightarrow>
    i = sid \<and> (length records \<le> LIVE_BATCH_MAX_BYTES \<or> unat count = 1)"
proof (induction "loop_measure pending rs" arbitrary: pending rs room rule: less_induct)
  case less
  have gap: "parse_events_message (msg_events_stream_gap sid n) = Inr (MsgStreamGap sid n)" for n
    by (simp add: parse_events_message_iff)
  have stop: "parse_events_message (msg_events_stream_stopped sid 0 []) = Inr (MsgStreamStopped sid 0 [])"
    by (simp add: parse_events_message_iff)
  show ?case
    using less.prems(1,2)
  proof (cases rule: first_result_cases)
    case waiting
    then show ?thesis using less.prems by (simp add: client_loop.simps)
  next
    case (gone rs')
    then show ?thesis using less.prems(3,4) stop
      by (cases "room = 0") (auto simp: client_loop.simps)
  next
    case (lagged n rs')
    then have "frame \<in> set (client_loop sid (room - 1) None rs')"
      using less.prems(3,4) gap by (auto simp: client_loop.simps[of sid room pending rs] split: if_splits)
    then show ?thesis using less.hyps[OF lagged_step[OF lagged(1)] lagged(3)] less.prems(4) by simp
  next
    case (got r rs')
    obtain batch pending' lost rs'' where f: "fill_batch [r] (length r) rs' = (batch, pending', lost, rs'')"
      by (metis prod.exhaust)
    have i: "list_all result_ok rs''" "\<forall>r. pending' = Some r \<longrightarrow> record_wf r" using fill_batch_items[OF f got(3)] by simp_all
    have b: "batch \<noteq> []" "length batch \<le> 65535" "list_all record_wf batch"
      "batch = [r] \<or> length (concat batch) \<le> LIVE_BATCH_MAX_BYTES"
      using fill_batch_grows[OF f got(3)] got(2) by auto
    have rec: "parse_events_message (msg_events_records sid batch) = Inr (MsgRecords sid (of_nat (length batch)) (concat batch))"
      by (rule parse_records_frame[OF b(1-3)])
    have "frame = msg_events_records sid batch \<or> frame = msg_events_stream_gap sid lost
      \<or> (\<exists>k. frame \<in> set (client_loop sid k pending' rs''))"
      using less.prems(3) got(1) f by (auto simp: client_loop.simps[of sid room pending rs] split: if_splits)
    then show ?thesis
    proof (elim disjE exE)
      assume "frame = msg_events_records sid batch"
      then show ?thesis using rec b(4) less.prems(4) by auto
    next
      assume "frame = msg_events_stream_gap sid lost"
      then show ?thesis using gap less.prems(4) by simp
    next
      fix k assume "frame \<in> set (client_loop sid k pending' rs'')"
      then show ?thesis using less.hyps[OF got_step[OF got(1) f[symmetric]] i] less.prems(4) by simp
    qed
  qed
qed

subsection \<open>Accounting for what was sent\<close>

fun accounts_for :: "bytes list \<Rightarrow> shown list \<Rightarrow> bool" where
  "accounts_for sent [] \<longleftrightarrow> True"
| "accounts_for sent (Shown r # xs) \<longleftrightarrow> (case sent of [] \<Rightarrow> False | s # sent \<Rightarrow> s = r \<and> accounts_for sent xs)"
| "accounts_for sent (Missed n # xs) \<longleftrightarrow> n \<noteq> 0 \<and> unat n \<le> length sent \<and> accounts_for (drop (unat n) sent) xs"
| "accounts_for sent (Ended # xs) \<longleftrightarrow> xs = []"

fun shown_records :: "shown list \<Rightarrow> bytes list" where
  "shown_records [] = []"
| "shown_records (Shown r # xs) = r # shown_records xs"
| "shown_records (_ # xs) = shown_records xs"

fun missed_count :: "shown list \<Rightarrow> nat" where
  "missed_count [] = 0"
| "missed_count (Missed n # xs) = unat n + missed_count xs"
| "missed_count (_ # xs) = missed_count xs"

lemma delivers_accounts: "broadcast_delivers sent rs \<Longrightarrow> accounts_for sent (result_items rs)"
  by (induction sent rs rule: broadcast_delivers.induct) (auto split: list.splits)

lemma delivers_ok: "broadcast_delivers sent rs \<Longrightarrow> list_all record_wf sent \<Longrightarrow> list_all result_ok rs"
proof (induction sent rs rule: broadcast_delivers.induct)
  case (3 sent n rs)
  then show ?case by (simp add: list_all_iff) (meson in_set_dropD)
qed (auto split: list.splits)

lemma accounts_for_prefix: "accounts_for sent (xs @ ys) \<Longrightarrow> accounts_for sent xs"
  by (induction sent xs rule: accounts_for.induct) (auto split: list.splits)

lemma accounts_for_count:
  "accounts_for sent xs \<Longrightarrow> length (shown_records xs) + missed_count xs \<le> length sent
    \<and> subseq (shown_records xs) (take (length (shown_records xs) + missed_count xs) sent)"
proof (induction sent xs rule: accounts_for.induct)
  case (3 sent n xs)
  let ?k = "length (shown_records xs) + missed_count xs"
  have "subseq (shown_records xs) (take ?k (drop (unat n) sent))" "?k \<le> length sent - unat n" using 3 by simp_all
  moreover have "take (unat n + ?k) sent = take (unat n) sent @ take ?k (drop (unat n) sent)" by (rule take_add)
  ultimately have "subseq (shown_records xs) (take (unat n + ?k) sent)" by (simp add: list_emb_append2)
  moreover have "length (shown_records xs) + (unat n + missed_count xs) = unat n + ?k" by simp
  ultimately show ?case using 3 \<open>?k \<le> length sent - unat n\<close> by (simp only: shown_records.simps missed_count.simps) auto
qed (auto split: list.splits)

lemma accounts_for_no_gap: "accounts_for sent xs \<Longrightarrow> missed_count xs = 0 \<Longrightarrow> prefix (shown_records xs) sent"
proof (induction sent xs rule: accounts_for.induct)
  case (3 sent n xs)
  then show ?case by (simp add: unat_eq_zero)
qed (auto split: list.splits)

subsection \<open>File streams\<close>

text \<open>The items a run of results brings to the file; with \<open>drain\<close> up to the first empty one.\<close>

fun file_items :: "bool \<Rightarrow> rx_result list \<Rightarrow> shown list" where
  "file_items drain [] = []"
| "file_items drain (Got r # rs) = Shown r # file_items drain rs"
| "file_items drain (Lagged n # rs) = Missed n # file_items drain rs"
| "file_items drain (Idle # rs) = (if drain then [] else file_items drain rs)"
| "file_items drain (Gone # rs) = []"

fun item_record :: "shown \<Rightarrow> bytes" where
  "item_record (Shown r) = r"
| "item_record (Missed n) = gap_record n"
| "item_record Ended = []"

text \<open>
  What the code relies on of tokio's \<open>File\<close>, as its documentation has it.  A file just opened has nothing
  buffered.  Bytes reach the file in the order they were written; a write that succeeds has accepted all
  its bytes, one that fails may have got any of them to the file; a flush that succeeds has everything
  accepted in the file, one that fails some of it.
\<close>

definition file_bytes :: "open_file \<Rightarrow> bytes" where
  "file_bytes f = of_disk f @ of_buffer f"

definition tokio_file :: "file_env \<Rightarrow> bool" where
  "tokio_file fe \<longleftrightarrow>
    (\<forall>path a f. fe_open fe path a = Inr f \<longrightarrow> of_buffer f = []) \<and>
    (\<forall>f r f'. fe_write fe f r = (None, f') \<longrightarrow> file_bytes f' = file_bytes f @ r \<and> prefix (of_disk f) (of_disk f')) \<and>
    (\<forall>f r err f'. fe_write fe f r = (Some err, f') \<longrightarrow>
       prefix (of_disk f) (of_disk f') \<and> prefix (of_disk f') (file_bytes f @ r)) \<and>
    (\<forall>f f'. fe_flush fe f = (None, f') \<longrightarrow> of_disk f' = file_bytes f \<and> of_buffer f' = []) \<and>
    (\<forall>f err f'. fe_flush fe f = (Some err, f') \<longrightarrow> prefix (of_disk f) (of_disk f') \<and> prefix (of_disk f') (file_bytes f))"

lemma tokio_fileD:
  assumes "tokio_file fe"
  shows "fe_open fe path a = Inr f \<Longrightarrow> of_buffer f = []"
    "fe_write fe f r = (None, f') \<Longrightarrow> file_bytes f' = file_bytes f @ r"
    "fe_write fe f r = (x, f') \<Longrightarrow> prefix (of_disk f) (of_disk f')"
    "fe_write fe f r = (Some err, f') \<Longrightarrow> prefix (of_disk f') (file_bytes f @ r)"
    "fe_flush fe f = (None, f') \<Longrightarrow> of_disk f' = file_bytes f \<and> of_buffer f' = []"
    "fe_flush fe f = (x, f') \<Longrightarrow> prefix (of_disk f) (of_disk f')"
    "fe_flush fe f = (Some err, f') \<Longrightarrow> prefix (of_disk f') (file_bytes f)"
  using assms unfolding tokio_file_def by (blast, blast, metis option.exhaust, blast, blast, (cases x, force simp: file_bytes_def, blast), blast)

text \<open>The items counted, and the bytes of their records.\<close>

abbreviation item_bytes :: "shown list \<Rightarrow> bytes" where
  "item_bytes xs \<equiv> concat (map item_record xs)"

definition counted :: "shown list \<Rightarrow> file_stream \<Rightarrow> file_progress" where
  "counted xs t = (ft_progress t)\<lparr>fp_records := fp_records (ft_progress t) + of_nat (length xs),
     fp_bytes := fp_bytes (ft_progress t) + of_nat (length (item_bytes xs)),
     fp_lost := fp_lost (ft_progress t) + of_nat (missed_count xs)\<rparr>"

text \<open>\<open>t'\<close> is \<open>t\<close> after writing \<open>xs\<close>, and \<open>t'\<close> is \<open>t\<close> after writing \<open>xs\<close> and failing at \<open>x\<close>.\<close>

definition accepted :: "file_stream \<Rightarrow> shown list \<Rightarrow> file_stream \<Rightarrow> bool" where
  "accepted t xs t' \<longleftrightarrow> (\<exists>f. t' = t\<lparr>ft_file := f, ft_progress := counted xs t\<rparr>
     \<and> file_bytes f = file_bytes (ft_file t) @ item_bytes xs \<and> prefix (of_disk (ft_file t)) (of_disk f))"

definition failed_at :: "file_stream \<Rightarrow> shown list \<Rightarrow> shown \<Rightarrow> file_stream \<Rightarrow> bool" where
  "failed_at t xs x t' \<longleftrightarrow> (\<exists>f. t' = t\<lparr>ft_file := f, ft_progress := counted xs t\<rparr>
     \<and> prefix (of_disk f) (file_bytes (ft_file t) @ item_bytes (xs @ [x])) \<and> prefix (of_disk (ft_file t)) (of_disk f))"

lemma counted_Nil [simp]: "counted [] t = ft_progress t"
  by (simp add: counted_def)

lemma missed_count_append [simp]: "missed_count (xs @ ys) = missed_count xs + missed_count ys"
  by (induction xs rule: missed_count.induct) simp_all

lemma counted_append: "counted ys (t\<lparr>ft_file := f, ft_progress := counted xs t\<rparr>) = counted (xs @ ys) t"
  by (simp add: counted_def ac_simps)

lemma accepted_Nil [simp]: "accepted t [] t"
  by (auto simp: accepted_def intro!: exI[of _ "ft_file t"])

lemma accepted_trans: "accepted t xs t1 \<Longrightarrow> accepted t1 ys t2 \<Longrightarrow> accepted t (xs @ ys) t2"
proof -
  assume one: "accepted t xs t1" and two: "accepted t1 ys t2"
  obtain f where f: "t1 = t\<lparr>ft_file := f, ft_progress := counted xs t\<rparr>"
      "file_bytes f = file_bytes (ft_file t) @ item_bytes xs" "prefix (of_disk (ft_file t)) (of_disk f)"
    using one by (auto simp: accepted_def)
  obtain g where g: "t2 = t1\<lparr>ft_file := g, ft_progress := counted ys t1\<rparr>"
      "file_bytes g = file_bytes (ft_file t1) @ item_bytes ys" "prefix (of_disk (ft_file t1)) (of_disk g)"
    using two by (auto simp: accepted_def)
  have "t2 = t\<lparr>ft_file := g, ft_progress := counted (xs @ ys) t\<rparr>" unfolding g(1) unfolding f(1) counted_append by simp
  moreover have "prefix (of_disk (ft_file t)) (of_disk g)" using f(1,3) g(3) by (auto intro: prefix_order.trans)
  ultimately show ?thesis using f(1,2) g(2) unfolding accepted_def by (intro exI[of _ g]) simp
qed

lemma accepted_failed: "accepted t xs t1 \<Longrightarrow> failed_at t1 ys y t2 \<Longrightarrow> failed_at t (xs @ ys) y t2"
proof -
  assume one: "accepted t xs t1" and two: "failed_at t1 ys y t2"
  obtain f where f: "t1 = t\<lparr>ft_file := f, ft_progress := counted xs t\<rparr>"
      "file_bytes f = file_bytes (ft_file t) @ item_bytes xs" "prefix (of_disk (ft_file t)) (of_disk f)"
    using one by (auto simp: accepted_def)
  obtain g where g: "t2 = t1\<lparr>ft_file := g, ft_progress := counted ys t1\<rparr>"
      "prefix (of_disk g) (file_bytes (ft_file t1) @ item_bytes (ys @ [y]))" "prefix (of_disk (ft_file t1)) (of_disk g)"
    using two by (auto simp: failed_at_def)
  have "t2 = t\<lparr>ft_file := g, ft_progress := counted (xs @ ys) t\<rparr>" unfolding g(1) unfolding f(1) counted_append by simp
  moreover have "prefix (of_disk (ft_file t)) (of_disk g)" using f(1,3) g(3) by (auto intro: prefix_order.trans)
  ultimately show ?thesis using f(1,2) g(2) unfolding failed_at_def by (intro exI[of _ g]) simp
qed

lemma write_stream_bytes_item:
  assumes "tokio_file fe" "item_record x = r" "missed_count [x] = unat n"
  shows "write_stream_bytes fe r n t = (None, t') \<Longrightarrow> accepted t [x] t'"
    "write_stream_bytes fe r n t = (Some err, t') \<Longrightarrow> failed_at t [] x t'"
proof -
  obtain e f where w: "fe_write fe (ft_file t) r = (e, f)" by (cases "fe_write fe (ft_file t) r")
  note fileD = tokio_fileD(2-4)[OF assms(1)]
  show "accepted t [x] t'" if "write_stream_bytes fe r n t = (None, t')"
  proof -
    have "e = None" "t' = t\<lparr>ft_file := f, ft_progress := counted [x] t\<rparr>"
      using that assms(2,3) by (auto simp: write_stream_bytes_def w Let_def counted_def split: option.splits)
    then show ?thesis using fileD w assms(2) by (auto simp: accepted_def)
  qed
  show "failed_at t [] x t'" if "write_stream_bytes fe r n t = (Some err, t')"
  proof -
    have "e \<noteq> None" and t': "t' = t\<lparr>ft_file := f\<rparr>"
      using that by (auto simp: write_stream_bytes_def w Let_def split: option.splits)
    then obtain err' where "e = Some err'" by blast
    with t' show ?thesis using fileD w assms(2) by (auto simp: failed_at_def intro!: exI[of _ f])
  qed
qed

text \<open>Whether the writes succeed or fail on the way, what was accepted is a prefix of the items.\<close>

lemma write_results_items:
  assumes "tokio_file fe"
  shows "(case write_results fe drain rs t of (None, t') \<Rightarrow> accepted t (file_items drain rs) t'
    | (Some err, t') \<Rightarrow> \<exists>xs x. prefix (xs @ [x]) (file_items drain rs) \<and> failed_at t xs x t')"
proof (induction rs arbitrary: t)
  case Nil
  then show ?case by simp
next
  case (Cons z rs)
  have rest: "(case write_results fe drain rs t1 of (None, t') \<Rightarrow> accepted t (y # file_items drain rs) t'
    | (Some err, t') \<Rightarrow> \<exists>xs x. prefix (xs @ [x]) (y # file_items drain rs) \<and> failed_at t xs x t')"
    if one: "accepted t [y] t1" for y t1
  proof -
    obtain e t' where w: "write_results fe drain rs t1 = (e, t')" by (cases "write_results fe drain rs t1")
    show ?thesis
    proof (cases e)
      case None
      then show ?thesis using Cons.IH[where t = t1] w accepted_trans[OF one, of "file_items drain rs" t'] by simp
    next
      case (Some err)
      obtain xs x where "prefix (xs @ [x]) (file_items drain rs)" "failed_at t1 xs x t'"
        using Cons.IH[where t = t1] w Some by auto
      then have "prefix ((y # xs) @ [x]) (y # file_items drain rs)" "failed_at t (y # xs) x t'"
        using accepted_failed[OF one, of xs x t'] by simp_all
      then show ?thesis unfolding w Some option.case prod.case by blast
    qed
  qed
  have item: "(case (case write_stream_bytes fe r n t of (Some err, t) \<Rightarrow> (Some err, t) | (None, t) \<Rightarrow> write_results fe drain rs t)
      of (None, t') \<Rightarrow> accepted t (y # file_items drain rs) t'
    | (Some err, t') \<Rightarrow> \<exists>xs x. prefix (xs @ [x]) (y # file_items drain rs) \<and> failed_at t xs x t')"
    if "item_record y = r" "missed_count [y] = unat n" for y r n
  proof -
    obtain e t1 where w: "write_stream_bytes fe r n t = (e, t1)" by (cases "write_stream_bytes fe r n t")
    note one = write_stream_bytes_item[OF assms that, where t = t and t' = t1]
    show ?thesis
    proof (cases e)
      case None
      then show ?thesis using rest[of y t1] one(1) w by simp
    next
      case (Some err)
      then have "failed_at t [] y t1" using one(2) w by simp
      moreover have "prefix ([] @ [y]) (y # file_items drain rs)" by simp
      ultimately show ?thesis unfolding w Some option.case prod.case by blast
    qed
  qed
  show ?case
  proof (cases z)
    case (Got r)
    show ?thesis unfolding Got write_results.simps file_items.simps rx_result.case by (rule item) simp_all
  next
    case (Lagged n)
    show ?thesis unfolding Lagged write_results.simps file_items.simps rx_result.case by (rule item) simp_all
  next
    case Idle
    show ?thesis using Cons.IH[where t = t] unfolding Idle file_items.simps by (cases drain) simp_all
  next
    case Gone
    show ?thesis unfolding Gone file_items.simps by simp
  qed
qed

lemma gap_record_wf: "record_wf (gap_record n)"
proof -
  have "rd 4 (gap_record n) 0 = 40" unfolding gap_record_def EVENT_RECORD_HEADER_LEN_def by (simp add: rd_head)
  then show ?thesis by (simp add: record_wf_def gap_record_def EVENT_RECORD_HEADER_LEN_def)
qed

lemma file_items_wf: "list_all result_ok rs \<Longrightarrow> list_all (\<lambda>x. record_wf (item_record x)) (file_items drain rs)"
  by (induction drain rs rule: file_items.induct) (auto simp: gap_record_wf)

text \<open>
  A whole run: what comes in until the stop, then what is left.  \<open>xs\<close> are the items accepted; a failing run
  may have got some bytes of one more to the file.
\<close>

definition run_outcome :: "file_stream \<Rightarrow> shown list \<Rightarrow> shown list \<Rightarrow> file_stream \<Rightarrow> bool" where
  "run_outcome t items xs t' \<longleftrightarrow> prefix xs items
     \<and> fp_records (ft_progress t') = fp_records (counted xs t) \<and> fp_bytes (ft_progress t') = fp_bytes (counted xs t)
     \<and> fp_lost (ft_progress t') = fp_lost (counted xs t)
     \<and> prefix (of_disk (ft_file t)) (of_disk (ft_file t'))
     \<and> (case ft_result t' of None \<Rightarrow> False
       | Some (Inr _) \<Rightarrow> xs = items \<and> fp_state (ft_progress t') = EVENTS_STREAM_STATE_STOPPED
           \<and> of_disk (ft_file t') = file_bytes (ft_file t) @ item_bytes items \<and> of_buffer (ft_file t') = []
       | Some (Inl err) \<Rightarrow> fp_state (ft_progress t') = EVENTS_STREAM_STATE_FAILED \<and> fp_error (ft_progress t') = Some err
           \<and> prefix (of_disk (ft_file t')) (file_bytes (ft_file t) @ item_bytes (take (length xs + 1) items)))"

lemma failed_outcome:
  assumes "failed_at t xs x t1" "prefix (xs @ [x]) items"
  shows "run_outcome t items xs (fail_stream err t1)"
proof -
  obtain f where f: "t1 = t\<lparr>ft_file := f, ft_progress := counted xs t\<rparr>"
      "prefix (of_disk f) (file_bytes (ft_file t) @ item_bytes (xs @ [x]))" "prefix (of_disk (ft_file t)) (of_disk f)"
    using assms(1) by (auto simp: failed_at_def)
  have "take (length xs + 1) items = xs @ [x]" using assms(2) by (auto simp: prefix_def)
  moreover have "prefix xs items" using assms(2) by (auto simp: prefix_def)
  ultimately show ?thesis using f by (simp add: run_outcome_def fail_stream_def progress_fail_def)
qed

lemma file_run:
  fixes live left :: "rx_result list"
  assumes fe: "tokio_file fe" and t: "ft_result t = None"
  shows "\<exists>xs. run_outcome t (file_items False live @ file_items True left) xs (file_finish fe left (file_feed fe live t))"
    (is "\<exists>xs. run_outcome t ?items xs ?t'")
proof -
  obtain e1 t1 where w1: "write_results fe False live t = (e1, t1)" by (cases "write_results fe False live t")
  show ?thesis
  proof (cases e1)
    case (Some err)
    obtain xs x where xs: "prefix (xs @ [x]) (file_items False live)" "failed_at t xs x t1"
      using write_results_items[OF fe, where drain = False and rs = live and t = t] w1 Some by auto
    have "?t' = fail_stream err t1" using w1 Some t by (simp add: file_feed_def file_finish_def fail_stream_def)
    moreover have "prefix (xs @ [x]) ?items" using xs(1) by (auto simp: prefix_def)
    ultimately show ?thesis using failed_outcome[OF xs(2)] by auto
  next
    case None
    have t1: "accepted t (file_items False live) t1" using write_results_items[OF fe, where drain = False and rs = live and t = t] w1 None by simp
    then have r1: "ft_result t1 = None" using t by (auto simp: accepted_def)
    have feed: "file_feed fe live t = t1" using w1 None t by (simp add: file_feed_def)
    obtain e2 t2 where w2: "write_results fe True left t1 = (e2, t2)" by (cases "write_results fe True left t1")
    show ?thesis
    proof (cases e2)
      case (Some err)
      obtain ys y where ys: "prefix (ys @ [y]) (file_items True left)" "failed_at t1 ys y t2"
        using write_results_items[OF fe, where drain = True and rs = left and t = t1] w2 Some by auto
      have "?t' = fail_stream err t2" using w2 Some r1 by (simp add: feed file_finish_def)
      moreover have "prefix ((file_items False live @ ys) @ [y]) ?items" using ys(1) by simp
      from failed_outcome[OF accepted_failed[OF t1 ys(2)] this]
      have "run_outcome t ?items (file_items False live @ ys) (fail_stream err t2)" .
      ultimately show ?thesis by auto
    next
      case None
      have "accepted t1 (file_items True left) t2" using write_results_items[OF fe, where drain = True and rs = left and t = t1] w2 None by simp
      from accepted_trans[OF t1 this] obtain f where f: "t2 = t\<lparr>ft_file := f, ft_progress := counted ?items t\<rparr>"
          "file_bytes f = file_bytes (ft_file t) @ item_bytes ?items" "prefix (of_disk (ft_file t)) (of_disk f)"
        by (auto simp: accepted_def)
      obtain e3 g where w3: "fe_flush fe f = (e3, g)" by (cases "fe_flush fe f")
      have g: "prefix (of_disk (ft_file t)) (of_disk g)"
        using tokio_fileD(6)[OF fe w3] f(3) by (rule prefix_order.trans[rotated])
      have "run_outcome t ?items ?items ?t'"
      proof (cases e3)
        case flushed: None
        have "?t' = t2\<lparr>ft_file := g, ft_progress := progress_stop (ft_progress t2), ft_result := Some (Inr ())\<rparr>"
          using w2 None r1 w3 flushed by (simp add: feed file_finish_def f(1))
        then show ?thesis
          using tokio_fileD(5)[OF fe w3[unfolded flushed]] f g by (simp add: run_outcome_def progress_stop_def)
      next
        case (Some err)
        have "?t' = fail_stream (io_error ''cannot flush '' (ft_path t2) err) (t2\<lparr>ft_file := g\<rparr>)"
          using w2 None r1 w3 Some by (simp add: feed file_finish_def f(1))
        then show ?thesis
          using tokio_fileD(7)[OF fe w3[unfolded Some]] f g
          by (simp add: run_outcome_def fail_stream_def progress_fail_def)
      qed
      then show ?thesis by blast
    qed
  qed
qed

text \<open>The items of a file are accounted for as those of a client are.\<close>

lemma result_items_append: "Gone \<notin> set live \<Longrightarrow> result_items (live @ left) = file_items False live @ result_items left"
  by (induction live rule: result_items.induct) auto

lemma drained_prefix: "prefix (file_items True left) (result_items left)"
  by (induction left rule: result_items.induct) auto

lemma file_items_account:
  assumes "broadcast_delivers sent (live @ left)" "Gone \<notin> set live"
  shows "accounts_for sent (file_items False live @ file_items True left)"
proof -
  obtain zs where "result_items left = file_items True left @ zs" using drained_prefix[of left] by (auto simp: prefix_def)
  then have "accounts_for sent ((file_items False live @ file_items True left) @ zs)"
    using delivers_accounts[OF assms(1)] result_items_append[OF assms(2), of left] by simp
  then show ?thesis by (rule accounts_for_prefix)
qed

end
