(* ===== verification/Event_System.thy ===== *)
theory Event_System
  imports Event_Delivery "HOL-Library.Multiset"
begin

text \<open>
  The journal with everything that runs on it at once: threads between the two stages of a record,
  configuration changes, streams that come and go.  A stream's receiver is subscribed under the ring's
  lock, so it is sent what is committed afterwards; \<open>js_sent\<close> is that list.  The history \<open>jn_pushed\<close> of all committed
  records, the numbers \<open>jn_stamps\<close> and \<open>jn_configs\<close> of records stamped and configurations replaced, and in a
  stream the point \<open>js_from\<close> where it came in and the records \<open>js_held\<close> the ring held then are
  bookkeeping that no operation reads.
\<close>

subsection \<open>State and steps\<close>

record journal_sub =
  js_id :: u32
  js_dump :: "bytes option"
  js_sent :: "bytes list"
  js_from :: nat
  js_held :: "bytes list"

record journal =
  jn_log :: event_log
  jn_flight :: "(bytes \<times> bytes) list"
  jn_subs :: "journal_sub list"
  jn_pushed :: "bytes list"
  jn_stamps :: nat
  jn_configs :: nat

definition journal_new :: "event_log \<Rightarrow> journal" where
  "journal_new log = \<lparr>jn_log = log, jn_flight = [], jn_subs = [], jn_pushed = [], jn_stamps = 0, jn_configs = 0\<rparr>"

definition journal_stamp :: "nat \<Rightarrow> event_type \<Rightarrow> u16 \<Rightarrow> bytes \<Rightarrow> journal \<Rightarrow> journal" where
  "journal_stamp elapsed kind flags payload j = (case stamp_event elapsed kind flags payload (jn_log j) of
     (log, record) \<Rightarrow> j\<lparr>jn_log := log, jn_flight := jn_flight j @ [record], jn_stamps := jn_stamps j + 1\<rparr>)"

text \<open>The thread with the \<open>k\<close>-th record in flight gets the lock.\<close>

definition journal_commit :: "nat \<Rightarrow> journal \<Rightarrow> journal" where
  "journal_commit k j = (case jn_flight j ! k of (header, payload) \<Rightarrow>
     (case commit_event (length (jn_subs j)) (header, payload) (jn_log j) of (log, live) \<Rightarrow>
       j\<lparr>jn_log := log, jn_flight := take k (jn_flight j) @ drop (k + 1) (jn_flight j),
         jn_subs := (case live of None \<Rightarrow> jn_subs j | Some r \<Rightarrow> map (\<lambda>s. s\<lparr>js_sent := js_sent s @ [r]\<rparr>) (jn_subs j)),
         jn_pushed := jn_pushed j @ [header @ payload]\<rparr>))"

definition journal_configure :: "nat \<Rightarrow> activation_set \<Rightarrow> u64 option \<Rightarrow> journal \<Rightarrow> journal" where
  "journal_configure sz a expected j = (case configure sz a expected (jn_log j) of (log, result) \<Rightarrow>
     j\<lparr>jn_log := log, jn_configs := (if isl result then jn_configs j else jn_configs j + 1)\<rparr>)"

definition journal_subscribe :: "bool \<Rightarrow> journal \<Rightarrow> journal" where
  "journal_subscribe history j = (case allocate_stream_id (jn_log j) of (log, i) \<Rightarrow>
     (case snapshot history True log of (dump, _) \<Rightarrow>
       j\<lparr>jn_log := log, jn_subs := jn_subs j @ [\<lparr>js_id = i, js_dump = dump, js_sent = [], js_from = length (jn_pushed j),
          js_held = (if history then record_vecs (el_ring log) else [])\<rparr>]\<rparr>))"

definition journal_unsubscribe :: "nat \<Rightarrow> journal \<Rightarrow> journal" where
  "journal_unsubscribe k j = j\<lparr>jn_subs := take k (jn_subs j) @ drop (k + 1) (jn_subs j)\<rparr>"

inductive journal_step :: "journal \<Rightarrow> journal \<Rightarrow> bool" where
  stamp: "journal_step j (journal_stamp elapsed kind flags payload j)"
| commit: "k < length (jn_flight j) \<Longrightarrow> journal_step j (journal_commit k j)"
| configure: "activation_ok a \<Longrightarrow> journal_step j (journal_configure sz a expected j)"
| subscribe: "journal_step j (journal_subscribe history j)"
| unsubscribe: "journal_step j (journal_unsubscribe k j)"

inductive_cases journal_stepE: "journal_step j j'"

inductive journal_reach :: "journal \<Rightarrow> bool" where
  start: "journal_reach (journal_new (fst (event_log_from_env env started)))"
| step: "journal_reach j \<Longrightarrow> journal_step j j' \<Longrightarrow> journal_reach j'"

subsection \<open>The invariant\<close>

definition revision_period :: nat where
  "revision_period = 2 ^ 64 - 2"

definition flight_records :: "journal \<Rightarrow> bytes list" where
  "flight_records j = map (\<lambda>(header, payload). header @ payload) (jn_flight j)"

abbreviation journal_fifo :: "journal \<Rightarrow> fifo" where
  "journal_fifo j \<equiv> ring_abs (el_ring (jn_log j))"

definition sub_ok :: "bytes list \<Rightarrow> journal_sub \<Rightarrow> bool" where
  "sub_ok ps s \<longleftrightarrow> js_from s \<le> length ps \<and> js_sent s = drop (js_from s) ps
     \<and> subseq (js_held s) (take (js_from s) ps) \<and> js_id s \<noteq> 0
     \<and> (\<exists>d. js_dump s = Some d \<and> dump_records d = js_held s)"

definition sequences_ok :: "journal \<Rightarrow> bool" where
  "sequences_ok j \<longleftrightarrow> el_next_sequence (jn_log j) = of_nat (jn_stamps j)
     \<and> mset (map record_sequence (jn_pushed j @ flight_records j)) = mset (map of_nat [0..<jn_stamps j])"

definition journal_inv :: "journal \<Rightarrow> bool" where
  "journal_inv j \<longleftrightarrow> log_ok (jn_log j) \<and> list_all record_wf (jn_pushed j) \<and> list_all record_wf (flight_records j)
     \<and> sequences_ok j \<and> list_all (sub_ok (jn_pushed j)) (jn_subs j)
     \<and> subseq (ff_held (journal_fifo j)) (jn_pushed j)
     \<and> (length (jn_pushed j) < 2 ^ 64 \<longrightarrow> length (ff_held (journal_fifo j)) + ff_lost (journal_fifo j) = length (jn_pushed j))
     \<and> el_revision (jn_log j) = of_nat (1 + jn_configs j mod revision_period)"

lemma journal_invD:
  assumes "journal_inv j"
  shows "log_ok (jn_log j)" "list_all record_wf (jn_pushed j)" "list_all record_wf (flight_records j)" "sequences_ok j"
    "list_all (sub_ok (jn_pushed j)) (jn_subs j)" "subseq (ff_held (journal_fifo j)) (jn_pushed j)"
    "length (jn_pushed j) < 2 ^ 64 \<Longrightarrow> length (ff_held (journal_fifo j)) + ff_lost (journal_fifo j) = length (jn_pushed j)"
    "el_revision (jn_log j) = of_nat (1 + jn_configs j mod revision_period)"
  using assms unfolding journal_inv_def by blast+

subsection \<open>Every step keeps it\<close>

lemma journal_new_inv: "journal_inv (journal_new (fst (event_log_from_env env t)))"
proof -
  obtain sz a where l: "fst (event_log_from_env env t) = event_log_new sz a t"
    and sz: "MIN_RING_SIZE \<le> sz" "sz \<le> MAX_RING_SIZE" "activation_ok a"
  proof -
    have "MIN_RING_SIZE \<le> DEFAULT_RING_SIZE" "DEFAULT_RING_SIZE \<le> MAX_RING_SIZE"
      by (simp_all add: MIN_RING_SIZE_def DEFAULT_RING_SIZE_def MAX_RING_SIZE_def MAX_DECOMPRESSED_def)
    then show thesis
      by (intro that[of "case ee_size env of Some n \<Rightarrow> if MIN_RING_SIZE \<le> n \<and> n \<le> MAX_RING_SIZE then n else DEFAULT_RING_SIZE
               | None \<Rightarrow> DEFAULT_RING_SIZE" "case ee_spec env of None \<Rightarrow> low_throughput
           | Some spec \<Rightarrow> (case parse_activation_spec spec of Inl _ \<Rightarrow> low_throughput | Inr a \<Rightarrow> a)"])
        (auto simp: event_log_from_env_def Let_def activation_consts_ok parse_activation_spec_ok split: option.split sum.split)
  qed
  show ?thesis
    using event_log_new_ok[OF sz, of t] unfolding l journal_inv_def sequences_ok_def flight_records_def journal_new_def
    by (simp add: event_log_new_def revision_period_def)
qed

lemma stamp_inv:
  assumes "journal_inv j"
  shows "journal_inv (journal_stamp elapsed kind flags payload j)"
proof -
  obtain log h b where s: "stamp_event elapsed kind flags payload (jn_log j) = (log, (h, b))" by (metis prod.exhaust)
  note r = stamp_event_record[OF s]
  note i = journal_invD[OF assms]
  have seq: "sequences_ok (journal_stamp elapsed kind flags payload j)"
    using i(4) r(2,3) by (simp add: sequences_ok_def journal_stamp_def s flight_records_def)
  show ?thesis
    using i r seq unfolding journal_inv_def
    by (simp add: journal_stamp_def s) (simp add: flight_records_def)
qed

lemma sub_ok_push: "sub_ok ps s \<Longrightarrow> sub_ok (ps @ [r]) (s\<lparr>js_sent := js_sent s @ [r]\<rparr>)"
  by (auto simp: sub_ok_def)

lemma mset_take_drop: "k < length xs \<Longrightarrow> mset xs = mset (take k xs @ drop (k + 1) xs) + {#xs ! k#}"
  by (metis add_mset_add_single id_take_nth_drop mset.simps(2) mset_append union_mset_add_mset_right Suc_eq_plus1)

lemma commit_inv:
  assumes inv: "journal_inv j" and k: "k < length (jn_flight j)"
  shows "journal_inv (journal_commit k j)"
proof -
  obtain h p where hp: "jn_flight j ! k = (h, p)" by (cases "jn_flight j ! k")
  obtain log live where c: "commit_event (length (jn_subs j)) (h, p) (jn_log j) = (log, live)"
    by (cases "commit_event (length (jn_subs j)) (h, p) (jn_log j)")
  note i = journal_invD[OF inv]
  let ?j = "journal_commit k j"
  have fl: "flight_records j ! k = h @ p" "k < length (flight_records j)" using hp k by (simp_all add: flight_records_def)
  have wf: "record_wf (h @ p)" using i(3) fl by (metis list_all_length)
  note ok = commit_event_ok[OF i(1) wf c]
  have fields: "jn_log ?j = log" "jn_pushed ?j = jn_pushed j @ [h @ p]" "jn_stamps ?j = jn_stamps j" "jn_configs ?j = jn_configs j"
    "flight_records ?j = take k (flight_records j) @ drop (k + 1) (flight_records j)"
    by (simp_all add: journal_commit_def hp c flight_records_def take_map drop_map)
  have subs: "jn_subs ?j = map (\<lambda>s. s\<lparr>js_sent := js_sent s @ [h @ p]\<rparr>) (jn_subs j)"
  proof -
    have "jn_subs ?j = (case live of None \<Rightarrow> jn_subs j | Some r \<Rightarrow> map (\<lambda>s. s\<lparr>js_sent := js_sent s @ [r]\<rparr>) (jn_subs j))"
      by (simp add: journal_commit_def hp c)
    then show ?thesis using ok(4) by (simp split: if_splits)
  qed
  have rest: "el_next_sequence log = el_next_sequence (jn_log j)" "el_revision log = el_revision (jn_log j)"
    by (subst ok(3), simp)+
  have "mset (map record_sequence (flight_records j)) = mset (map record_sequence (take k (flight_records j) @ drop (k + 1) (flight_records j)))
      + {#record_sequence (h @ p)#}"
    using mset_take_drop[OF fl(2)] by (simp add: fl(1))
  then have "sequences_ok ?j" using i(4) by (simp add: sequences_ok_def fields rest)
  moreover have "list_all (sub_ok (jn_pushed ?j)) (jn_subs ?j)"
    using i(5) by (auto simp: fields subs list_all_iff intro: sub_ok_push)
  moreover have "list_all record_wf (flight_records ?j)"
    using i(3) unfolding fields by (auto simp: list_all_iff dest: in_set_takeD in_set_dropD)
  moreover have "subseq (ff_held (journal_fifo ?j)) (jn_pushed ?j)"
    unfolding fields ok(2) by (rule fifo_push_subseq[OF i(6)])
  moreover have "length (ff_held (journal_fifo ?j)) + ff_lost (journal_fifo ?j) = length (jn_pushed ?j)"
    if "length (jn_pushed ?j) < 2 ^ 64"
  proof -
    have b: "length (ff_held (journal_fifo j)) + ff_lost (journal_fifo j) = length (jn_pushed j)"
      using i(7) that by (simp add: fields)
    then show ?thesis unfolding fields ok(2) using fifo_push_count[of "journal_fifo j" "h @ p"] that by (simp add: fields)
  qed
  ultimately show ?thesis
    using i ok wf unfolding journal_inv_def by (simp add: fields rest)
qed

lemma configure_result:
  assumes "log_ok log" "configure sz a expected log = (log', result)"
  shows "(case result of
      Inl e \<Rightarrow> log' = log \<and> (e = InvalidSize \<longleftrightarrow> \<not> (MIN_RING_SIZE \<le> sz \<and> sz \<le> MAX_RING_SIZE))
        \<and> (e = RevisionConflict \<longrightarrow> (\<exists>r. expected = Some r \<and> r \<noteq> el_revision log))
    | Inr stats \<Rightarrow> MIN_RING_SIZE \<le> sz \<and> sz \<le> MAX_RING_SIZE \<and> (\<forall>r. expected = Some r \<longrightarrow> r = el_revision log)
        \<and> el_activations log' = a \<and> ring_abs (el_ring log') = fifo_resize sz (ring_abs (el_ring log))
        \<and> ring_capacity (el_ring log') = sz
        \<and> el_revision log' = (if el_revision log \<ge> EVENTS_CONFIG_REVISION_ANY - 1 then 1 else el_revision log + 1)
        \<and> el_next_sequence log' = el_next_sequence log \<and> el_next_stream_id log' = el_next_stream_id log
        \<and> stats = stats_locked log' (el_revision log'))"
  using assms ring_size_bounds[of sz] rb.abs_resize[of "el_ring log" sz] ring_resize_capacity[of "el_ring log" sz]
  by (auto simp: configure_def Let_def log_ok_def stats_locked_def split: if_splits option.splits)

lemma revision_step:
  assumes "r = (of_nat (1 + c mod revision_period) :: u64)"
  shows "(if r \<ge> EVENTS_CONFIG_REVISION_ANY - 1 then 1 else r + 1) = of_nat (1 + (c + 1) mod revision_period)"
proof -
  have lt: "c mod revision_period < revision_period" by (simp add: revision_period_def)
  have u: "unat r = 1 + c mod revision_period"
  proof -
    have "unat r = (1 + c mod revision_period) mod 2 ^ 64" unfolding assms by (simp only: unat_of_nat) simp
    moreover have "1 + c mod revision_period < 2 ^ 64" using lt by (simp add: revision_period_def)
    ultimately show ?thesis by simp
  qed
  have ge: "r \<ge> EVENTS_CONFIG_REVISION_ANY - 1 \<longleftrightarrow> c mod revision_period = revision_period - 1"
    using lt by (simp add: word_le_nat_alt u EVENTS_CONFIG_REVISION_ANY_def) (simp add: revision_period_def, arith)
  show ?thesis
  proof (cases "c mod revision_period = revision_period - 1")
    case True
    then have "(c + 1) mod revision_period = 0" by (simp add: mod_Suc revision_period_def)
    then show ?thesis using True ge by simp
  next
    case False
    then have "(c + 1) mod revision_period = 1 + c mod revision_period" using lt by (simp add: mod_Suc) 
    then show ?thesis using False ge by (simp add: assms)
  qed
qed

lemma configure_inv:
  assumes inv: "journal_inv j" and a: "activation_ok a"
  shows "journal_inv (journal_configure sz a expected j)"
proof -
  obtain log result where c: "configure sz a expected (jn_log j) = (log, result)" by (cases "configure sz a expected (jn_log j)")
  note i = journal_invD[OF inv]
  note r = configure_result[OF i(1) c]
  have ok: "log_ok log" using configure_ok[OF i(1) a, of sz expected] c by simp
  show ?thesis
  proof (cases result)
    case (Inl e)
    then have "journal_configure sz a expected j = j" using r c by (simp add: journal_configure_def)
    then show ?thesis using inv by simp
  next
    case (Inr stats)
    have f: "ring_abs (el_ring log) = fifo_resize sz (journal_fifo j)" "el_next_sequence log = el_next_sequence (jn_log j)"
      and rev: "el_revision log = (if el_revision (jn_log j) \<ge> EVENTS_CONFIG_REVISION_ANY - 1 then 1 else el_revision (jn_log j) + 1)"
      using r Inr by simp_all
    have j: "journal_configure sz a expected j = j\<lparr>jn_log := log, jn_configs := jn_configs j + 1\<rparr>"
      using c Inr by (simp add: journal_configure_def)
    have "el_revision log = of_nat (1 + (jn_configs j + 1) mod revision_period)"
      unfolding rev by (rule revision_step[OF i(8)])
    moreover have "length (ff_held (fifo_resize sz (journal_fifo j))) + ff_lost (fifo_resize sz (journal_fifo j)) = length (jn_pushed j)"
      if "length (jn_pushed j) < 2 ^ 64"
      using i(7)[OF that] fifo_resize_count[of "journal_fifo j" sz] that by simp
    ultimately show ?thesis
      using i ok fifo_resize_subseq[OF i(6), of sz] unfolding journal_inv_def j sequences_ok_def flight_records_def
      by (simp add: f)
  qed
qed

lemma subscribe_inv:
  assumes inv: "journal_inv j"
  shows "journal_inv (journal_subscribe history j)"
proof -
  obtain log n where l: "allocate_stream_id (jn_log j) = (log, n)" by (cases "allocate_stream_id (jn_log j)")
  note a = allocate_stream_id_ok[OF l]
  note i = journal_invD[OF inv]
  have same: "el_ring log = el_ring (jn_log j)" "el_revision log = el_revision (jn_log j)"
    "el_next_sequence log = el_next_sequence (jn_log j)" by (subst a(2), simp)+
  have ok: "log_ok log" by (subst a(2)) (simp add: i(1))
  define s where "s = \<lparr>js_id = n, js_dump = fst (snapshot history True log), js_sent = [], js_from = length (jn_pushed j),
     js_held = (if history then record_vecs (el_ring log) else [])\<rparr>"
  have j: "journal_subscribe history j = j\<lparr>jn_log := log, jn_subs := jn_subs j @ [s]\<rparr>"
    by (simp add: journal_subscribe_def l s_def split_def)
  have "subseq (record_vecs (el_ring log)) (jn_pushed j)" using i(6) by (simp add: same ring_abs_def)
  then have "sub_ok (jn_pushed j) s"
    using a(1) dump_exact[OF ok] by (auto simp: sub_ok_def s_def snapshot_def)
  then show ?thesis
    using i ok unfolding journal_inv_def j sequences_ok_def flight_records_def by (simp add: same)
qed

lemma unsubscribe_inv: "journal_inv j \<Longrightarrow> journal_inv (journal_unsubscribe k j)"
  by (auto simp: journal_inv_def journal_unsubscribe_def sequences_ok_def flight_records_def list_all_iff
      dest: in_set_takeD in_set_dropD)

lemma journal_step_inv: "journal_step j j' \<Longrightarrow> journal_inv j \<Longrightarrow> journal_inv j'"
  by (erule journal_stepE) (auto intro: stamp_inv commit_inv configure_inv subscribe_inv unsubscribe_inv)

lemma journal_reach_inv: "journal_reach j \<Longrightarrow> journal_inv j"
  by (induction rule: journal_reach.induct) (auto intro: journal_new_inv journal_step_inv)

end
