(* ===== verification/Event_Requests.thy ===== *)
theory Event_Requests
  imports Event_System Channel_Fabric
begin

text \<open>
  \<open>handle_events_message\<close> in \<open>crates/server/src/lib.rs\<close>: the requests of the event journal.  The server has
  the log, the registry of file streams, the number of receivers on the live channel and what was
  sent on it; a connection has its client streams, each running or finished.  A record made while
  a request is handled is stamped and committed together here; \<open>clk\<close> gives the clock at the stamp
  with a given sequence number.  What other threads do between the stages is in \<open>Event_System\<close>.
  \<open>left\<close> are the results a file stream's receiver still has when it is stopped.  The spawned tasks are
  functions of their own: \<open>dump_task\<close>, the begin and end of a client stream's task, and
  \<open>client_task\<close> for what it sends in between.
\<close>

text \<open>
  \<open>ev_log\<close> is the \<open>EventLog\<close> but for two of its fields: \<open>ev_files\<close> is its \<open>file_streams\<close>, and of the channel
  \<open>live_tx\<close> there is the number of its receivers and what was sent on it.
\<close>

definition STATUS_OTHER :: u8 where [wire_defs]: "STATUS_OTHER = 9"

record event_server =
  ev_log :: event_log
  ev_files :: "(u32, file_stream) hash_map"
  ev_receivers :: nat
  ev_live :: "bytes list"

type_synonym client_streams = "(u32, bool) hash_map"

subsection \<open>Pieces\<close>

definition events_error_text :: "events_error \<Rightarrow> bytes" where
  "events_error_text e = (case e of
     NotEvents \<Rightarrow> ascii ''not an events packet''
   | UnsupportedVersion \<Rightarrow> ascii ''unsupported events protocol version''
   | EventsTruncated \<Rightarrow> ascii ''events packet is truncated''
   | EventsTrailing \<Rightarrow> ascii ''events packet has trailing bytes''
   | InvalidTarget \<Rightarrow> ascii ''invalid events stream target''
   | InvalidStreamFlags \<Rightarrow> ascii ''invalid events stream flags''
   | InvalidPath \<Rightarrow> ascii ''invalid events stream path''
   | InvalidOperation \<Rightarrow> ascii ''invalid events operation'')"

definition configure_error_text :: "configure_error \<Rightarrow> bytes" where
  "configure_error_text e = (case e of
     InvalidSize \<Rightarrow> ascii ''ring size is outside the supported range''
   | RevisionConflict \<Rightarrow> ascii ''event configuration revision changed'')"

definition emit_event :: "(u64 \<Rightarrow> nat) \<Rightarrow> event_type \<Rightarrow> bytes \<Rightarrow> event_server \<Rightarrow> event_server" where
  "emit_event clk kind payload s =
    (case blit_event (ev_receivers s) (clk (el_next_sequence (ev_log s))) kind payload (ev_log s) of
       (log, live) \<Rightarrow> s\<lparr>ev_log := log, ev_live := (case live of None \<Rightarrow> ev_live s | Some r \<Rightarrow> ev_live s @ [r])\<rparr>)"

definition config_of_stats :: "event_stats \<Rightarrow> activation_set \<Rightarrow> event_config" where
  "config_of_stats st a = \<lparr>ec_revision = es_revision st, ec_size = of_nat (es_capacity st), ec_used = of_nat (es_used st),
     ec_records = of_nat (es_records st), ec_dropped = of_nat (es_dropped st), ec_next_sequence = es_next_sequence st,
     ec_activations = a\<rparr>"

definition events_config_message :: "event_server \<Rightarrow> u16 \<Rightarrow> bytes" where
  "events_config_message s nonce = (case configuration (ev_log s) of (st, a) \<Rightarrow> msg_events_config nonce (config_of_stats st a))"

subsection \<open>Configuration and dumps\<close>

definition config_set_request :: "(u64 \<Rightarrow> nat) \<Rightarrow> u64 \<Rightarrow> u16 \<Rightarrow> u64 \<Rightarrow> u64 \<Rightarrow> activation_set \<Rightarrow> event_server \<Rightarrow> event_server \<times> bytes list" where
  "config_set_request clk client_id nonce expected_revision sz activations s =
    (let expected = (if expected_revision \<noteq> EVENTS_CONFIG_REVISION_ANY then Some expected_revision else None);
         (log, result) = configure (unat sz) activations expected (ev_log s); s = s\<lparr>ev_log := log\<rparr>
     in case result of
          Inr st \<Rightarrow> (emit_event clk EtConfigChange (payload_client client_id @ wle 8 sz @ activation_to_bytes activations) s,
            [msg_events_config nonce (config_of_stats st activations)])
        | Inl e \<Rightarrow> (s, [msg_events_result nonce (if e = RevisionConflict then STATUS_CONFLICT else STATUS_INVALID) 0
            (configure_error_text e)]))"

definition dump_task :: "(u64 \<Rightarrow> nat) \<Rightarrow> u16 \<Rightarrow> event_server \<Rightarrow> event_server \<times> bytes list" where
  "dump_task clk nonce s =
    (let s = emit_event clk EtTaskStart (payload_name (ascii ''events.dump'')) s;
         reply = msg_events_dumped nonce (dump_locked (ev_log s))
     in (emit_event clk EtTaskStop (payload_name (ascii ''events.dump'')) s, [reply]))"

subsection \<open>Streams\<close>

text \<open>The reply, and what the stream's task starts with: its id and its dump.\<close>

definition client_stream_request :: "(u64 \<Rightarrow> nat) \<Rightarrow> u64 \<Rightarrow> u16 \<Rightarrow> u8 \<Rightarrow> event_server \<Rightarrow> client_streams
    \<Rightarrow> event_server \<times> client_streams \<times> bytes list \<times> (u32 \<times> bytes option)" where
  "client_stream_request clk client_id nonce flags s streams =
    (let streams = filter snd streams;
         history = flags AND EVENTS_STREAM_HISTORY \<noteq> 0;
         (log, i) = allocate_stream_id (ev_log s); (dump, _) = snapshot history True log;
         s = s\<lparr>ev_log := log, ev_receivers := ev_receivers s + 1\<rparr>;
         streams = hm_insert i True streams;
         s = emit_event clk EtStreamStart (payload_client client_id @ wle 4 i @ [EVENTS_TARGET_CLIENT]) s
     in (s, streams, [msg_events_stream_started nonce STATUS_OK i []], (i, dump)))"

definition client_task_begin :: "(u64 \<Rightarrow> nat) \<Rightarrow> event_server \<Rightarrow> event_server" where
  "client_task_begin clk s = emit_event clk EtTaskStart (payload_name (ascii ''events.client-stream'')) s"

text \<open>The task returns; its receiver goes with it.\<close>

definition client_task_end :: "(u64 \<Rightarrow> nat) \<Rightarrow> u32 \<Rightarrow> event_server \<Rightarrow> client_streams \<Rightarrow> event_server \<times> client_streams" where
  "client_task_end clk i s streams =
    (let s = emit_event clk EtTaskStop (payload_name (ascii ''events.client-stream'')) s
     in (s\<lparr>ev_receivers := ev_receivers s - 1\<rparr>, map (\<lambda>(k, running). (k, running \<and> k \<noteq> i)) streams))"

definition file_stream_request :: "file_env \<Rightarrow> (u64 \<Rightarrow> nat) \<Rightarrow> u64 \<Rightarrow> u16 \<Rightarrow> u8 \<Rightarrow> bytes \<Rightarrow> event_server \<Rightarrow> event_server \<times> bytes list" where
  "file_stream_request fe clk client_id nonce flags path s =
    (case start_file_stream fe path flags (ev_log s) of
       (log, Inr (i, t)) \<Rightarrow>
         (let s = s\<lparr>ev_log := log, ev_files := hm_insert i t (ev_files s), ev_receivers := ev_receivers s + 1\<rparr> in
          (emit_event clk EtStreamStart (payload_client client_id @ wle 4 i @ [EVENTS_TARGET_FILE] @ payload_name path) s,
           [msg_events_stream_started nonce STATUS_OK i []]))
     | (log, Inl err) \<Rightarrow> (s\<lparr>ev_log := log\<rparr>, [msg_events_stream_started nonce STATUS_OTHER 0 err]))"

text \<open>\<open>stop_file_stream\<close>: whether there was one, or the error its task ended with.\<close>

definition stop_file_stream :: "file_env \<Rightarrow> rx_result list \<Rightarrow> u32 \<Rightarrow> event_server \<Rightarrow> event_server \<times> (bytes + bool)" where
  "stop_file_stream fe left i s = (case hm_get (ev_files s) i of
     None \<Rightarrow> (s, Inr False)
   | Some t \<Rightarrow> (s\<lparr>ev_files := hm_remove i (ev_files s), ev_receivers := ev_receivers s - (if ft_result t = None then 1 else 0)\<rparr>,
       (case ft_result (file_finish fe left t) of Some (Inl err) \<Rightarrow> Inl err | _ \<Rightarrow> Inr True)))"

definition stream_stop_request :: "file_env \<Rightarrow> (u64 \<Rightarrow> nat) \<Rightarrow> rx_result list \<Rightarrow> u64 \<Rightarrow> u16 \<Rightarrow> u32 \<Rightarrow> event_server \<Rightarrow> client_streams
    \<Rightarrow> event_server \<times> client_streams \<times> bytes list" where
  "stream_stop_request fe clk left client_id nonce i s streams =
    (let (s, stopped_client) = (case hm_get streams i of
           None \<Rightarrow> (s, False)
         | Some running \<Rightarrow>
             (if running then emit_event clk EtTaskStop (payload_name (ascii ''events.client-stream''))
                (s\<lparr>ev_receivers := ev_receivers s - 1\<rparr>) else s, True));
         streams = hm_remove i streams;
         (s, file_result) = (if stopped_client then (s, Inr False) else stop_file_stream fe left i s);
         (stopped, status, detail) = (case file_result of
             Inr stopped_file \<Rightarrow> (if stopped_client \<or> stopped_file then (True, STATUS_OK, [])
               else (False, STATUS_NOT_FOUND, ascii ''event stream not found''))
           | Inl err \<Rightarrow> (True, STATUS_OTHER, err));
         s = (if stopped then emit_event clk EtStreamStop (payload_client client_id @ wle 4 i) s else s)
     in (s, streams, [msg_events_result nonce status i detail]))"

definition file_stream_info :: "u32 \<times> file_stream \<Rightarrow> event_stream_info" where
  "file_stream_info e = (case e of (i, t) \<Rightarrow> \<lparr>si_stream_id = i, si_state = fp_state (ft_progress t), si_flags = ft_flags t,
     si_records = fp_records (ft_progress t), si_bytes = fp_bytes (ft_progress t), si_lost = fp_lost (ft_progress t),
     si_path = ft_path t, si_error = (case fp_error (ft_progress t) of None \<Rightarrow> [] | Some err \<Rightarrow> err)\<rparr>)"

definition file_streams :: "event_server \<Rightarrow> event_stream_info list" where
  "file_streams s = map file_stream_info (sort_key fst (ev_files s))"

text \<open>A file stream's task gets results; when it fails, its receiver is gone.\<close>

definition feed_file :: "file_env \<Rightarrow> u32 \<Rightarrow> rx_result list \<Rightarrow> event_server \<Rightarrow> event_server" where
  "feed_file fe i live s = (case hm_get (ev_files s) i of
     None \<Rightarrow> s
   | Some t \<Rightarrow> (let t' = file_feed fe live t in
       s\<lparr>ev_files := hm_insert i t' (ev_files s),
         ev_receivers := ev_receivers s - (if ft_result t = None \<and> ft_result t' \<noteq> None then 1 else 0)\<rparr>))"

text \<open>All file streams at shutdown; \<open>left\<close> per stream.\<close>

definition shutdown_file_streams :: "file_env \<Rightarrow> (u32 \<Rightarrow> rx_result list) \<Rightarrow> event_server \<Rightarrow> event_server \<times> (u32 \<times> file_stream) list" where
  "shutdown_file_streams fe left s =
    (s\<lparr>ev_files := [], ev_receivers := ev_receivers s - length (filter (\<lambda>(_, t). ft_result t = None) (ev_files s))\<rparr>,
     map (\<lambda>(i, t). (i, file_finish fe (left i) t)) (ev_files s))"

text \<open>The client streams of a connection that goes away.\<close>

definition drop_client_streams :: "(u64 \<Rightarrow> nat) \<Rightarrow> u64 \<Rightarrow> client_streams \<Rightarrow> event_server \<Rightarrow> event_server" where
  "drop_client_streams clk client_id streams s = fold (\<lambda>(i, running) s.
     let s = (if running then emit_event clk EtTaskStop (payload_name (ascii ''events.client-stream''))
                (s\<lparr>ev_receivers := ev_receivers s - 1\<rparr>) else s)
     in emit_event clk EtStreamStop (payload_client client_id @ wle 4 i) s) streams s"

subsection \<open>The handler\<close>

definition handle_events_message :: "file_env \<Rightarrow> (u64 \<Rightarrow> nat) \<Rightarrow> rx_result list \<Rightarrow> u64 \<Rightarrow> bytes \<Rightarrow> event_server \<Rightarrow> client_streams
    \<Rightarrow> event_server \<times> client_streams \<times> bytes list \<times> (u32 \<times> bytes option) option" where
  "handle_events_message fe clk left client_id msg s streams = (case parse_events_request msg of
     Inl e \<Rightarrow> (emit_event clk EtProtocolError (payload_name (events_error_text e)) s, streams,
       if 5 \<le> length msg then [msg_events_result (rdw 2 msg 3) STATUS_INVALID 0 (events_error_text e)] else [], None)
   | Inr r \<Rightarrow> (case r of
       ConfigGet nonce \<Rightarrow> (s, streams, [events_config_message s nonce], None)
     | ConfigSet nonce expected sz activations \<Rightarrow>
         (case config_set_request clk client_id nonce expected sz activations s of (s, out) \<Rightarrow> (s, streams, out, None))
     | Dump nonce \<Rightarrow> (case dump_task clk nonce s of (s, out) \<Rightarrow> (s, streams, out, None))
     | StreamStart nonce target flags path \<Rightarrow>
         (if target = EVENTS_TARGET_CLIENT then
            (case client_stream_request clk client_id nonce flags s streams of (s, streams, out, task) \<Rightarrow> (s, streams, out, Some task))
          else (case file_stream_request fe clk client_id nonce flags path s of (s, out) \<Rightarrow> (s, streams, out, None)))
     | StreamStop nonce i \<Rightarrow>
         (case stream_stop_request fe clk left client_id nonce i s streams of (s, streams, out) \<Rightarrow> (s, streams, out, None))
     | StreamList nonce \<Rightarrow> (s, streams, [msg_events_streams nonce (file_streams s)], None)))"

subsection \<open>Invariants of the handler\<close>

lemma emit_event_ok:
  assumes "log_ok (ev_log s)"
  shows "log_ok (ev_log (emit_event clk kind payload s))" "el_revision (ev_log (emit_event clk kind payload s)) = el_revision (ev_log s)"
    "el_activations (ev_log (emit_event clk kind payload s)) = el_activations (ev_log s)"
    "ring_capacity (el_ring (ev_log (emit_event clk kind payload s))) = ring_capacity (el_ring (ev_log s))"
    "ev_files (emit_event clk kind payload s) = ev_files s" "ev_receivers (emit_event clk kind payload s) = ev_receivers s"
proof -
  let ?s = "emit_event clk kind payload s"
  have "log_ok (ev_log ?s) \<and> el_revision (ev_log ?s) = el_revision (ev_log s) \<and> el_activations (ev_log ?s) = el_activations (ev_log s)
    \<and> ring_capacity (el_ring (ev_log ?s)) = ring_capacity (el_ring (ev_log s)) \<and> ev_files ?s = ev_files s \<and> ev_receivers ?s = ev_receivers s"
  proof (cases "log_enabled (ev_log s) kind")
    case False
    then show ?thesis using assms by (simp add: emit_event_def blit_event_def)
  next
    case True
    obtain log h b where st: "stamp_event (clk (el_next_sequence (ev_log s))) kind 0 payload (ev_log s) = (log, (h, b))"
      by (metis prod.exhaust)
    obtain log' live where c: "commit_event (ev_receivers s) (h, b) log = (log', live)"
      by (cases "commit_event (ev_receivers s) (h, b) log")
    note r = stamp_event_record[OF st]
    have ok: "log_ok log" using assms by (simp add: r(3))
    note k = commit_event_ok[OF ok r(1) c]
    have cap: "ring_capacity (el_ring log') = ring_capacity (el_ring log)"
      using arg_cong[OF k(2), of ff_room] by (simp add: ring_abs_def)
    have s: "?s = s\<lparr>ev_log := log', ev_live := (case live of None \<Rightarrow> ev_live s | Some r \<Rightarrow> ev_live s @ [r])\<rparr>"
      using True st c by (simp add: emit_event_def blit_event_def record_event_def)
    have "el_revision log' = el_revision log" "el_activations log' = el_activations log" by (subst k(3), simp)+
    then show ?thesis using k(1) cap by (simp add: s r(3))
  qed
  then show "log_ok (ev_log ?s)" "el_revision (ev_log ?s) = el_revision (ev_log s)" "el_activations (ev_log ?s) = el_activations (ev_log s)"
    "ring_capacity (el_ring (ev_log ?s)) = ring_capacity (el_ring (ev_log s))" "ev_files ?s = ev_files s" "ev_receivers ?s = ev_receivers s"
    by blast+
qed

end
