(* ===== verification/Event_Properties.thy ===== *)
theory Event_Properties
  imports Event_Requests
begin

text \<open>
  The properties of the event journal: its codec, the ring as a bounded first-in first-out buffer, the
  accounting of every record under concurrency, the configuration as a compare and swap, and what
  the two kinds of stream deliver.
\<close>

subsection \<open>The wire\<close>

text \<open>
  C27.  The events codec is exact.  A packet decodes to a request exactly when it is the encoding of that
  request, and to a server message exactly when it is the encoding of that message; records inside
  a packet are delimited by their own lengths.
\<close>

theorem events_codec_exact:
  "(parse_events_request packet = Inr r \<longleftrightarrow> events_request_ok r \<and> packet = events_request_bytes r)
    \<and> (parse_events_message packet = Inr m \<longleftrightarrow> events_message_ok m \<and> packet = events_message_bytes m)"
  using parse_events_request_iff parse_events_message_iff by blast

subsection \<open>The ring\<close>

definition demo_record :: "u8 \<Rightarrow> bytes" where
  "demo_record b = to_le 4 33 @ replicate 28 0 @ [b]"

lemma demo_record_wf: "record_wf (demo_record b)"
proof -
  have "rd 4 (to_le 4 33 @ replicate 28 0 @ [b]) 0 = 33" by (simp only: rd_head) simp
  then show ?thesis by (simp add: record_wf_def demo_record_def EVENT_RECORD_HEADER_LEN_def)
qed

text \<open>
  C28.  The ring is a bounded first-in first-out buffer.  Whatever records are pushed and however often it
  is resized, the circular buffer holds what the abstract buffer holds: complete records, in the
  order they were pushed, within the capacity; what is held and what is counted as dropped adds up to
  what was pushed; and a resize to a capacity no pushed record exceeds keeps exactly the newest records
  that fit.
\<close>

theorem ring_is_bounded_fifo:
  assumes "32 \<le> n" and "n < 2 ^ 64" and "list_all op_ok ops" and "length (pushed ops) < 2 ^ 64"
    and "32 \<le> m" and "m < 2 ^ 64" and "\<forall>x \<in> set (pushed ops). length x \<le> m"
  defines "r \<equiv> fold ring_op ops (ring_new n)"
  shows "ring_abs r = fold fifo_op ops \<lparr>ff_room = n, ff_held = [], ff_lost = 0\<rparr>
    \<and> subseq (record_vecs r) (pushed ops) \<and> length (concat (record_vecs r)) \<le> ring_capacity r
    \<and> length (record_vecs r) + rg_dropped r = length (pushed ops)
    \<and> record_vecs (ring_resize m r) = newest_fit m (record_vecs r)"
proof -
  have n: "ring_new n = (ring_new n)\<lparr>rg_dropped := 0\<rparr>" by (simp add: ring_new_def)
  have new: "ring_ok (ring_new n)" "ring_abs (ring_new n) = \<lparr>ff_room = n, ff_held = [], ff_lost = 0\<rparr>"
    using ring_new_ok[OF assms(1,2) zero_less_power, folded n] by simp_all
  have ok: "ring_ok r" and abs: "ring_abs r = fold fifo_op ops (ring_abs (ring_new n))"
    using rb.run_ops_ok[OF new(1) assms(3)] by (simp_all add: r_def run_op_ring)
  note run = rb.run_ops[OF new(1) assms(3), unfolded run_op_ring, folded r_def]
  have sub: "subseq (record_vecs r) (pushed ops)" using run(2) new(2) by (simp add: ring_abs_def)
  have fits: "length (concat (record_vecs r)) \<le> ring_capacity r" using run(1) by (simp add: ring_abs_def fifo_ok_def)
  have "\<forall>x \<in> set (record_vecs r). length x \<le> m" using assms(7) list_emb_set[OF sub] by blast
  then have "ff_held (fifo_resize m (ring_abs r)) = newest_fit m (record_vecs r)"
    using fifo_resize_newest[of "ring_abs r" m] fits by (simp add: ring_abs_def)
  moreover have "length (record_vecs r) + rg_dropped r = length (pushed ops)"
    using run(3) new(2) assms(4) by (simp add: ring_abs_def)
  moreover have "record_vecs (ring_resize m r) = ff_held (fifo_resize m (ring_abs r))"
    using arg_cong[OF rb.abs_resize[OF ok assms(5,6)], of ff_held] by (simp add: ring_abs_def)
  ultimately show ?thesis using abs new(2) sub fits by simp
qed

theorem ring_is_bounded_fifo_witness:
  "length (record_vecs (fold ring_op [Inl (demo_record 1), Inl (demo_record 2)] (ring_new 40)))
    + rg_dropped (fold ring_op [Inl (demo_record 1), Inl (demo_record 2)] (ring_new 40)) = 2"
proof -
  have ops: "list_all op_ok [Inl (demo_record 1), Inl (demo_record 2)]" by (simp add: demo_record_wf)
  have small: "\<forall>x \<in> set (pushed [Inl (demo_record 1), Inl (demo_record 2)]). length x \<le> 64" by (simp add: demo_record_def)
  show ?thesis using ring_is_bounded_fifo[OF _ _ ops _ _ _ small, of 40] by simp
qed

subsection \<open>The journal\<close>

text \<open>
  C29.  Every record is accounted for.  In every reachable state of the journal, whatever the interleaving
  of threads that record, configuration changes and streams, and while fewer than 2^64 records have
  been stamped: the sequence counter is their number, each number below it is carried by exactly one
  record, committed or still on its way to the ring; the records held, the records counted as dropped
  and those on their way add up to the counter; and the ring holds complete records in the order they
  were committed, within its capacity.
\<close>

theorem journal_accounts_for_every_record:
  assumes "journal_reach j" and "jn_stamps j < 2 ^ 64"
  shows "unat (el_next_sequence (jn_log j)) = jn_stamps j
    \<and> distinct (map record_sequence (jn_pushed j @ flight_records j))
    \<and> set (map record_sequence (jn_pushed j @ flight_records j)) = {s. unat s < jn_stamps j}
    \<and> length (record_vecs (el_ring (jn_log j))) + rg_dropped (el_ring (jn_log j)) + length (jn_flight j) = jn_stamps j
    \<and> subseq (record_vecs (el_ring (jn_log j))) (jn_pushed j)
    \<and> length (concat (record_vecs (el_ring (jn_log j)))) \<le> ring_capacity (el_ring (jn_log j))"
proof -
  note i = journal_invD[OF journal_reach_inv[OF assms(1)]]
  let ?n = "jn_stamps j" and ?xs = "map record_sequence (jn_pushed j @ flight_records j)"
  let ?ns = "map of_nat [0..<?n] :: u64 list"
  have seq: "mset ?xs = mset ?ns" "el_next_sequence (jn_log j) = of_nat ?n"
    using i(4) unfolding sequences_ok_def by blast+
  have un: "unat (of_nat k :: u64) = k" if "k \<le> ?n" for k
    using that assms(2) by (simp add: unat_of_nat)
  have "inj_on (of_nat :: nat \<Rightarrow> u64) {0..<?n}"
    by (rule inj_onI) (metis atLeastLessThan_iff less_imp_le un)
  then have d: "distinct ?ns" by (simp add: distinct_map)
  have s: "set ?ns = {s. unat s < ?n}"
  proof (intro set_eqI iffI)
    fix s :: u64 assume "s \<in> {s. unat s < ?n}"
    then have "s = of_nat (unat s)" "unat s < ?n" by simp_all
    then show "s \<in> set ?ns" by (metis atLeastLessThan_iff imageI le0 list.set_map set_upt)
  qed (auto simp: un)
  have len: "length (jn_pushed j) + length (jn_flight j) = ?n"
    using arg_cong[OF seq(1), of size] by (simp add: flight_records_def)
  have "length (jn_pushed j) < 2 ^ 64" using len assms(2) by linarith
  note count = i(7)[OF this]
  have "fifo_ok (journal_fifo j)" using rb.abs_ok i(1) by (simp add: log_ok_def)
  then have "length (concat (record_vecs (el_ring (jn_log j)))) \<le> ring_capacity (el_ring (jn_log j))"
    by (simp add: ring_abs_def fifo_ok_def)
  moreover have "distinct ?xs" using seq(1) d by (metis mset_eq_imp_distinct_iff)
  moreover have "set ?xs = {s. unat s < ?n}" using seq(1) s by (metis mset_eq_setD)
  ultimately show ?thesis using count len i(6) seq(2) un[of ?n] by (simp add: ring_abs_def)
qed

definition demo_env :: events_env where
  "demo_env = \<lparr>ee_size = Some 4096, ee_spec = None, ee_file = None, ee_no_history = False, ee_append = False\<rparr>"

definition demo_journal0 :: journal where
  "demo_journal0 = journal_new (fst (event_log_from_env demo_env 7))"

text \<open>One stream, then one record that is stamped and committed.\<close>

definition demo_journal1 :: journal where
  "demo_journal1 = journal_stamp 5 EtError 0 [1] (journal_subscribe True demo_journal0)"

definition demo_journal2 :: journal where
  "demo_journal2 = journal_commit 0 demo_journal1"

lemma demo_journal1_fields:
  "jn_stamps demo_journal1 = 1" "length (jn_flight demo_journal1) = 1" "length (jn_subs demo_journal1) = 1" "jn_pushed demo_journal1 = []"
  "jn_configs demo_journal1 = 0"
  by (simp_all add: demo_journal1_def demo_journal0_def journal_stamp_def journal_subscribe_def journal_new_def split_def)

lemma demo_journal_reach: "journal_reach demo_journal0" "journal_reach demo_journal1" "journal_reach demo_journal2"
proof -
  show 0: "journal_reach demo_journal0" unfolding demo_journal0_def by (rule journal_reach.start)
  then show 1: "journal_reach demo_journal1" unfolding demo_journal1_def by (intro journal_reach.step[OF _ journal_step.stamp]
    journal_reach.step[OF _ journal_step.subscribe])
  have "0 < length (jn_flight demo_journal1)" by (simp add: demo_journal1_fields)
  then show "journal_reach demo_journal2" unfolding demo_journal2_def by (intro journal_reach.step[OF 1] journal_step.commit)
qed

lemma demo_journal2_fields: "jn_stamps demo_journal2 = 1" "length (jn_subs demo_journal2) = 1" "jn_flight demo_journal2 = []"
proof -
  have f: "length (jn_flight demo_journal1) = 1" "length (jn_subs demo_journal1) = 1" by (simp_all add: demo_journal1_fields)
  obtain h p where hp: "jn_flight demo_journal1 = [(h, p)]"
    using f(1) by (cases "jn_flight demo_journal1") auto
  show "jn_stamps demo_journal2 = 1" "length (jn_subs demo_journal2) = 1" "jn_flight demo_journal2 = []"
    by (simp_all add: demo_journal2_def journal_commit_def hp commit_event_def f(2) demo_journal1_fields)
qed

theorem journal_accounts_for_every_record_witness:
  "length (record_vecs (el_ring (jn_log demo_journal2))) + rg_dropped (el_ring (jn_log demo_journal2)) = 1
    \<and> unat (el_next_sequence (jn_log demo_journal2)) = 1"
  using journal_accounts_for_every_record[OF demo_journal_reach(3)] demo_journal2_fields by simp

subsection \<open>Configuration\<close>

lemma journal_step_configs: "journal_step j j' \<Longrightarrow> jn_configs j \<le> jn_configs j'"
  by (erule journal_stepE)
    (auto simp: journal_stamp_def journal_commit_def journal_configure_def journal_subscribe_def journal_unsubscribe_def split_def)

lemma journal_steps_reach:
  "rtranclp journal_step j0 j1 \<Longrightarrow> journal_reach j0 \<Longrightarrow> journal_reach j1 \<and> jn_configs j0 \<le> jn_configs j1"
  by (induction rule: rtranclp_induct) (auto intro: journal_reach.step dest: journal_step_configs)

lemma same_revision_iff:
  assumes "c0 \<le> c1" "c1 - c0 < revision_period"
  shows "(of_nat (1 + c0 mod revision_period) :: u64) = of_nat (1 + c1 mod revision_period) \<longleftrightarrow> c0 = c1"
proof
  have un: "unat (of_nat (1 + c mod revision_period) :: u64) = 1 + c mod revision_period" for c
  proof -
    have "1 + c mod revision_period < 2 ^ 64"
      using mod_less_divisor[of revision_period c] by (simp add: revision_period_def)
    then show ?thesis by (simp only: unat_of_nat) simp
  qed
  assume "(of_nat (1 + c0 mod revision_period) :: u64) = of_nat (1 + c1 mod revision_period)"
  then have "c0 mod revision_period = c1 mod revision_period" using un by (metis add_left_cancel)
  then have "revision_period dvd c1 - c0" using assms(1) by (metis mod_eq_dvd_iff_nat)
  then show "c0 = c1" using assms by (metis diff_is_0_eq dvd_imp_le le_antisym not_le zero_less_diff)
qed simp

text \<open>
  C30.  The configuration is a compare and swap.  A client reads the revision of a reachable state, and
  later, after any interleaving of less than a full period of replacements, asks for a replacement under
  that revision.  It happens exactly when no configuration was replaced in between: then size and
  activations are the requested ones, under a new revision, and the reply reports them; otherwise the
  log is as it was and the reply is a conflict.
\<close>

theorem configuration_is_compare_and_swap:
  assumes "journal_reach j0" and "rtranclp journal_step j0 j1" and "jn_configs j1 - jn_configs j0 < revision_period"
    and "activation_ok a" and "MIN_RING_SIZE \<le> unat sz" and "unat sz \<le> MAX_RING_SIZE" and "ev_log s = jn_log j1"
    and "config_set_request clk client_id nonce (el_revision (jn_log j0)) sz a s = (s', replies)"
  shows "if jn_configs j0 = jn_configs j1
    then el_activations (ev_log s') = a \<and> ring_capacity (el_ring (ev_log s')) = unat sz
      \<and> el_revision (ev_log s') \<noteq> el_revision (jn_log j0)
      \<and> (\<exists>c. map parse_events_message replies = [Inr (MsgConfig nonce c)] \<and> ec_revision c = el_revision (ev_log s')
          \<and> ec_size c = sz \<and> ec_activations c = a)
    else s' = s \<and> map parse_events_message replies
      = [Inr (MsgResult nonce STATUS_CONFLICT 0 (ascii ''event configuration revision changed''))]"
proof -
  have r1: "journal_reach j1" and le: "jn_configs j0 \<le> jn_configs j1" using journal_steps_reach[OF assms(2,1)] by simp_all
  note i0 = journal_invD[OF journal_reach_inv[OF assms(1)]] and i1 = journal_invD[OF journal_reach_inv[OF r1]]
  have ok: "log_ok (ev_log s)" using i1(1) assms(7) by simp
  have any: "el_revision (jn_log j0) \<noteq> EVENTS_CONFIG_REVISION_ANY" using i0(1) by (simp add: log_ok_def)
  have same: "el_revision (jn_log j0) = el_revision (ev_log s) \<longleftrightarrow> jn_configs j0 = jn_configs j1"
    using same_revision_iff[OF le assms(3)] i0(8) i1(8) assms(7) by simp
  obtain log result where c: "configure (unat sz) a (Some (el_revision (jn_log j0))) (ev_log s) = (log, result)"
    by (cases "configure (unat sz) a (Some (el_revision (jn_log j0))) (ev_log s)")
  note res = configure_result[OF ok c]
  have run: "config_set_request clk client_id nonce (el_revision (jn_log j0)) sz a s = (case result of
      Inr st \<Rightarrow> (emit_event clk EtConfigChange (payload_client client_id @ wle 8 sz @ activation_to_bytes a) (s\<lparr>ev_log := log\<rparr>),
        [msg_events_config nonce (config_of_stats st a)])
    | Inl e \<Rightarrow> (s\<lparr>ev_log := log\<rparr>, [msg_events_result nonce (if e = RevisionConflict then STATUS_CONFLICT else STATUS_INVALID) 0
        (configure_error_text e)]))"
    using any by (simp add: config_set_request_def c Let_def)
  show ?thesis
  proof (cases "jn_configs j0 = jn_configs j1")
    case True
    then have eq: "el_revision (jn_log j0) = el_revision (ev_log s)" using same by simp
    obtain st where st: "result = Inr st"
      using res eq assms(5,6) by (cases result; auto) (metis configure_error.exhaust)
    have f: "el_activations log = a" "ring_capacity (el_ring log) = unat sz" "st = stats_locked log (el_revision log)"
      and rev: "el_revision log = (if el_revision (ev_log s) \<ge> EVENTS_CONFIG_REVISION_ANY - 1 then 1 else el_revision (ev_log s) + 1)"
      using res st by simp_all
    have new: "el_revision log \<noteq> el_revision (ev_log s)"
      using ok unfolding rev by (auto simp: log_ok_def EVENTS_CONFIG_REVISION_ANY_def word_le_nat_alt split: if_splits)
    let ?s = "s\<lparr>ev_log := log\<rparr>"
    have "log_ok (ev_log ?s)" using configure_ok[OF ok assms(4), of "unat sz" "Some (el_revision (jn_log j0))"] c by simp
    note e = emit_event_ok[OF this, of clk EtConfigChange "payload_client client_id @ wle 8 sz @ activation_to_bytes a"]
    have s': "s' = emit_event clk EtConfigChange (payload_client client_id @ wle 8 sz @ activation_to_bytes a) ?s"
      and out: "replies = [msg_events_config nonce (config_of_stats st a)]"
      using assms(8) by (simp_all add: run st)
    have "parse_events_message (msg_events_config nonce (config_of_stats st a)) = Inr (MsgConfig nonce (config_of_stats st a))"
      using assms(4) by (simp add: parse_events_message_iff config_of_stats_def)
    moreover have "ec_revision (config_of_stats st a) = el_revision log" "ec_size (config_of_stats st a) = sz"
      "ec_activations (config_of_stats st a) = a"
      by (simp_all add: config_of_stats_def f stats_locked_def)
    ultimately show ?thesis using True e f(1,2) new eq by (simp add: s' out)
  next
    case False
    then have ne: "el_revision (jn_log j0) \<noteq> el_revision (ev_log s)" using same by simp
    obtain e where e: "result = Inl e" using res ne by (cases result) auto
    have "e = RevisionConflict" "log = ev_log s"
      using res e assms(5,6) by (auto intro: configure_error.exhaust[of e])
    moreover have "utf8_valid (ascii ''event configuration revision changed'')"
      by (intro utf8_valid_ascii) (simp add: ascii_def)
    ultimately show ?thesis
      using False assms(8) by (auto simp: run e configure_error_text_def parse_events_message_iff)
  qed
qed

definition demo_server :: event_server where
  "demo_server = \<lparr>ev_log = jn_log demo_journal2, ev_files = [], ev_receivers = 1, ev_live = []\<rparr>"

theorem configuration_is_compare_and_swap_witness:
  "ring_capacity (el_ring (ev_log (fst (config_set_request (\<lambda>_. 0) 3 9 (el_revision (jn_log demo_journal2)) 8192 low_throughput
      demo_server)))) = 8192"
proof -
  obtain s' out where r: "config_set_request (\<lambda>_. 0) 3 9 (el_revision (jn_log demo_journal2)) 8192 low_throughput demo_server = (s', out)"
    by (metis prod.exhaust)
  have n: "jn_configs demo_journal2 - jn_configs demo_journal2 < revision_period" by (simp add: revision_period_def)
  have sz: "MIN_RING_SIZE \<le> unat (8192 :: u64)" "unat (8192 :: u64) \<le> MAX_RING_SIZE"
    by (simp_all add: MIN_RING_SIZE_def MAX_RING_SIZE_def MAX_DECOMPRESSED_def)
  have l: "ev_log demo_server = jn_log demo_journal2" by (simp add: demo_server_def)
  show ?thesis
    using configuration_is_compare_and_swap[OF demo_journal_reach(3) rtranclp.rtrancl_refl n activation_consts_ok(1) sz l r] r by simp
qed

subsection \<open>Streams\<close>

text \<open>
  C31.  A client stream loses nothing silently.  Take any stream of a reachable state and whatever the
  live channel gave its receiver so far.  Its dump lists exactly the records the ring held when the
  stream came in, all committed before; what its frames show, records in order and gaps with
  their size, is what the channel gave, up to the frames the outbox no longer took; it accounts for
  every record committed since, one by one; and no frame but one of a single record exceeds the limit.
\<close>

theorem client_stream_accounts_for_every_record:
  fixes nonce :: u16 and room :: nat and rs :: "rx_result list"
  assumes "journal_reach j" and "s \<in> set (jn_subs j)" and "broadcast_delivers (js_sent s) rs"
  defines "frames \<equiv> client_task nonce (js_id s) room (js_dump s) rs"
  defines "items \<equiv> concat (map frame_items frames)"
  shows "(\<exists>d. js_dump s = Some d \<and> dump_records d = js_held s \<and> subseq (js_held s) (take (js_from s) (jn_pushed j))
        \<and> (0 < room \<longrightarrow> parse_events_message (hd frames) = Inr (MsgDump nonce d)))
    \<and> accounts_for (drop (js_from s) (jn_pushed j)) items
    \<and> prefix items (result_items rs) \<and> (length (result_items rs) < room \<longrightarrow> items = result_items rs)
    \<and> length (shown_records items) + missed_count items \<le> length (jn_pushed j) - js_from s
    \<and> (\<forall>frame \<in> set frames. \<forall>i count records. parse_events_message frame = Inr (MsgRecords i count records)
        \<longrightarrow> i = js_id s \<and> (length records \<le> LIVE_BATCH_MAX_BYTES \<or> unat count = 1))"
proof -
  note i = journal_invD[OF journal_reach_inv[OF assms(1)]]
  have sub: "sub_ok (jn_pushed j) s" using i(5) assms(2) by (simp add: list_all_iff)
  then obtain d where d: "js_dump s = Some d" "dump_records d = js_held s" and sent: "js_sent s = drop (js_from s) (jn_pushed j)"
    and held: "subseq (js_held s) (take (js_from s) (jn_pushed j))"
    by (auto simp: sub_ok_def)
  have "list_all record_wf (js_sent s)" using i(2) unfolding sent by (auto simp: list_all_iff dest: in_set_dropD)
  then have ok: "list_all result_ok rs" by (rule delivers_ok[OF assms(3)])
  have dump: "parse_events_message (msg_events_dumped nonce d) = Inr (MsgDump nonce d)" by (simp add: parse_events_message_iff)
  have fr: "frames = (if room = 0 then [] else msg_events_dumped nonce d # client_loop (js_id s) (room - 1) None rs)"
    by (simp add: frames_def client_task_def d)
  have items: "items = (if room = 0 then [] else concat (map frame_items (client_loop (js_id s) (room - 1) None rs)))"
    by (simp add: items_def fr frame_items_def dump)
  obtain rest where rest: "result_items rs = concat (map frame_items (client_loop (js_id s) (room - 1) None rs)) @ rest"
    "length (result_items rs) \<le> room - 1 \<Longrightarrow> rest = []"
    using client_loop_items[OF ok, of None "js_id s" "room - 1"] by (auto simp: pending_items_def)
  have pre: "prefix items (result_items rs)" by (simp add: items rest(1))
  have full: "items = result_items rs" if "length (result_items rs) < room" using that rest(2) by (simp add: items rest(1))
  have acc: "accounts_for (drop (js_from s) (jn_pushed j)) items"
    using delivers_accounts[OF assms(3)] pre by (auto simp: sent prefix_def intro: accounts_for_prefix)
  have cnt: "length (shown_records items) + missed_count items \<le> length (jn_pushed j) - js_from s"
    using accounts_for_count[OF acc] by simp
  have batch: "i = js_id s \<and> (length records \<le> LIVE_BATCH_MAX_BYTES \<or> unat count = 1)"
    if "frame \<in> set frames" "parse_events_message frame = Inr (MsgRecords i count records)" for frame i count records
  proof -
    have "frame \<in> set (client_loop (js_id s) (room - 1) None rs)" using that dump by (auto simp: fr split: if_splits)
    then show ?thesis using client_loop_batches[OF ok _ _ that(2), of None] by simp
  qed
  have "0 < room \<longrightarrow> parse_events_message (hd frames) = Inr (MsgDump nonce d)" by (simp add: fr dump)
  then show ?thesis using d held acc pre full cnt batch by blast
qed

lemma delivers_all: "broadcast_delivers rs (map Got rs)"
  by (induction rs) simp_all

theorem client_stream_accounts_for_every_record_witness:
  "concat (map frame_items (client_task 4 (js_id (hd (jn_subs demo_journal2))) 9 (js_dump (hd (jn_subs demo_journal2)))
      (map Got (js_sent (hd (jn_subs demo_journal2)))))) = [Shown (hd (jn_pushed demo_journal2))]
    \<and> length (jn_pushed demo_journal2) = 1"
proof -
  have s: "hd (jn_subs demo_journal2) \<in> set (jn_subs demo_journal2)"
    using demo_journal2_fields(2) by (intro hd_in_set) auto
  note i = journal_invD[OF journal_reach_inv[OF demo_journal_reach(3)]]
  obtain h p where hp: "jn_flight demo_journal1 = [(h, p)]"
    using demo_journal1_fields(2) by (cases "jn_flight demo_journal1") auto
  have pushed: "jn_pushed demo_journal2 = [h @ p]"
    by (simp add: demo_journal2_def journal_commit_def hp commit_event_def demo_journal1_fields)
  obtain s1 where s1: "jn_subs demo_journal1 = [s1]"
    using demo_journal1_fields(3) by (cases "jn_subs demo_journal1") auto
  have "js_sent s1 = []"
    using s1 by (auto simp: demo_journal1_def demo_journal0_def journal_stamp_def journal_subscribe_def journal_new_def split_def)
  then have sent: "js_sent (hd (jn_subs demo_journal2)) = [h @ p]"
    by (simp add: demo_journal2_def journal_commit_def hp commit_event_def s1)
  have "length (result_items (map Got [h @ p])) < 9" by simp
  then show ?thesis
    using client_stream_accounts_for_every_record[OF demo_journal_reach(3) s delivers_all, of 9 4]
    by (simp add: sent pushed)
qed

lemma write_dump_done:
  assumes "tokio_file fe" "fe_open fe path a = Inr f0" "write_dump fe path (Some dump) f0 = Inr f1"
  shows "f1 = \<lparr>of_disk = of_disk f0 @ dump, of_buffer = []\<rparr>"
proof -
  obtain f where w: "fe_write fe f0 dump = (None, f)" "fe_flush fe f = (None, f1)"
    using assms(3) by (auto simp: write_dump_def split: option.splits prod.splits)
  have "file_bytes f0 = of_disk f0" using tokio_fileD(1)[OF assms(1,2)] by (simp add: file_bytes_def)
  then show ?thesis using tokio_fileD(2)[OF assms(1) w(1)] tokio_fileD(5)[OF assms(1) w(2)] by (cases f1) simp
qed

text \<open>
  C32.  A file stream records everything it was given, or fails visibly.  Start a stream to a file, let
  results of the live channel come in, stop it with some left in the channel.  The items are one record
  each, a gap being a record with the number lost, and account for what was sent.  If the state ends as
  stopped, the file is what the path held, a self-describing dump, and the records of all the items.
  Otherwise the state is failed with the error; the file still has what the path held and the dump, and
  after them nothing but a prefix of the records, which ends at the latest in the one after those
  accepted.  The counters are those of the dump and the accepted items in either case.  The file is
  tokio's: it buffers, and an operation that fails may have written part.
\<close>

theorem file_stream_records_everything:
  fixes live left :: "rx_result list"
  assumes "log_ok log" and "tokio_file fe" and "start_file_stream fe path flags log = (log', Inr (i, t))"
    and "broadcast_delivers sent (live @ left)" and "Gone \<notin> set live" and "list_all record_wf sent"
  defines "t' \<equiv> file_finish fe left (file_feed fe live t)"
  defines "items \<equiv> file_items False live @ file_items True left"
  shows "\<exists>old dump xs. fe_open fe path (flags AND EVENTS_STREAM_APPEND \<noteq> 0) = Inr \<lparr>of_disk = old, of_buffer = []\<rparr> \<and> i \<noteq> 0
    \<and> dump_records dump = (if flags AND EVENTS_STREAM_HISTORY \<noteq> 0 then record_vecs (el_ring log) else [])
    \<and> cut_records (length items) (item_bytes items) = map item_record items \<and> accounts_for sent items
    \<and> prefix xs items \<and> prefix (old @ dump) (of_disk (ft_file t'))
    \<and> fp_records (ft_progress t') = of_nat (length (dump_records dump) + length xs)
    \<and> fp_bytes (ft_progress t') = of_nat (length dump + length (item_bytes xs))
    \<and> fp_lost (ft_progress t') = of_nat (missed_count xs)
    \<and> (case ft_result t' of None \<Rightarrow> False
       | Some (Inr _) \<Rightarrow> xs = items \<and> fp_state (ft_progress t') = EVENTS_STREAM_STATE_STOPPED
           \<and> ft_file t' = \<lparr>of_disk = old @ dump @ item_bytes items, of_buffer = []\<rparr>
       | Some (Inl err) \<Rightarrow> fp_state (ft_progress t') = EVENTS_STREAM_STATE_FAILED \<and> fp_error (ft_progress t') = Some err
           \<and> prefix (of_disk (ft_file t')) (old @ dump @ item_bytes (take (length xs + 1) items)))"
proof -
  let ?history = "flags AND EVENTS_STREAM_HISTORY \<noteq> 0" and ?append = "flags AND EVENTS_STREAM_APPEND \<noteq> 0"
  obtain f0 where f0: "fe_open fe path ?append = Inr f0"
    using assms(3) by (auto simp: start_file_stream_def split: sum.splits)
  have old: "f0 = \<lparr>of_disk = of_disk f0, of_buffer = []\<rparr>" using tokio_fileD(1)[OF assms(2) f0] by (cases f0) simp
  obtain log1 k where al: "allocate_stream_id log = (log1, k)" by (cases "allocate_stream_id log")
  note a = allocate_stream_id_ok[OF al]
  have ring: "el_ring log1 = el_ring log" by (subst a(2)) simp
  have ok1: "log_ok log1" by (subst a(2)) (simp add: assms(1))
  define dump where "dump = (if ?history then dump_locked log1 else empty_dump_locked log1)"
  define n where "n = (if ?history then rg_records (el_ring log1) else 0)"
  have snap: "snapshot ?history True log1 = (Some dump, n)" by (simp add: snapshot_def dump_def n_def)
  obtain f1 where w: "write_dump fe path (Some dump) f0 = Inr f1" and t: "i = k"
      "t = \<lparr>ft_path = path, ft_flags = flags, ft_progress = progress_new n (length dump), ft_file = f1, ft_result = None\<rparr>"
    using assms(3) by (auto simp: start_file_stream_def f0 al snap split: sum.splits)
  have f1: "f1 = \<lparr>of_disk = of_disk f0 @ dump, of_buffer = []\<rparr>" by (rule write_dump_done[OF assms(2) f0 w])
  note de = dump_exact[OF ok1]
  have "holds (el_ring log1) (record_vecs (el_ring log1))" using ok1 by (simp add: log_ok_def ring_ok_def)
  then have n: "n = length (dump_records dump)" using holdsD(7) de(1,5) by (simp add: n_def dump_def)
  have recs: "dump_records dump = (if ?history then record_vecs (el_ring log) else [])" using de(1,5) by (simp add: dump_def ring)
  obtain xs where xs: "run_outcome t items xs t'"
    using file_run[OF assms(2), of t live left] t(2) unfolding t'_def items_def by auto
  have "list_all result_ok (live @ left)" by (rule delivers_ok[OF assms(4,6)])
  then have "list_all (\<lambda>x. record_wf (item_record x)) items" by (simp add: items_def file_items_wf)
  then have "list_all record_wf (map item_record items)" by (simp add: list.pred_map comp_def)
  then have cut: "cut_records (length items) (item_bytes items) = map item_record items"
    using cut_records_concat[of "map item_record items" "[]"] by simp
  have acc: "accounts_for sent items" unfolding items_def by (rule file_items_account[OF assms(4,5)])
  have ft: "file_bytes (ft_file t) = of_disk f0 @ dump" "of_disk (ft_file t) = of_disk f0 @ dump"
    by (simp_all add: t(2) f1 file_bytes_def)
  have counts: "fp_records (ft_progress t') = of_nat (length (dump_records dump) + length xs)"
    "fp_bytes (ft_progress t') = of_nat (length dump + length (item_bytes xs))"
    "fp_lost (ft_progress t') = of_nat (missed_count xs)"
    using xs by (simp_all add: run_outcome_def counted_def t(2) progress_new_def n)
  have "case ft_result t' of None \<Rightarrow> False
       | Some (Inr _) \<Rightarrow> xs = items \<and> fp_state (ft_progress t') = EVENTS_STREAM_STATE_STOPPED
           \<and> ft_file t' = \<lparr>of_disk = of_disk f0 @ dump @ item_bytes items, of_buffer = []\<rparr>
       | Some (Inl err) \<Rightarrow> fp_state (ft_progress t') = EVENTS_STREAM_STATE_FAILED \<and> fp_error (ft_progress t') = Some err
           \<and> prefix (of_disk (ft_file t')) (of_disk f0 @ dump @ item_bytes (take (length xs + 1) items))"
    using xs ft by (cases "ft_file t'") (auto simp: run_outcome_def split: option.splits sum.splits)
  then show ?thesis
    using f0 old a(1) t(1) recs cut acc counts xs ft
    by (intro exI[of _ "of_disk f0"] exI[of _ dump] exI[of _ xs]) (simp add: run_outcome_def)
qed

text \<open>A file that keeps everything in its buffer until it is flushed.\<close>

definition demo_files :: file_env where
  "demo_files = \<lparr>fe_open = (\<lambda>_ _. Inr \<lparr>of_disk = [], of_buffer = []\<rparr>),
     fe_write = (\<lambda>f r. (None, f\<lparr>of_buffer := of_buffer f @ r\<rparr>)),
     fe_flush = (\<lambda>f. (None, \<lparr>of_disk = of_disk f @ of_buffer f, of_buffer = []\<rparr>))\<rparr>"

theorem file_stream_records_everything_witness:
  "\<exists>log i t dump. start_file_stream demo_files [47, 120] 0 (jn_log demo_journal0) = (log, Inr (i, t))
    \<and> fp_records (ft_progress (file_finish demo_files [Lagged 2] (file_feed demo_files [Got (demo_record 1)] t))) = 2
    \<and> of_disk (ft_file (file_finish demo_files [Lagged 2] (file_feed demo_files [Got (demo_record 1)] t)))
      = dump @ demo_record 1 @ gap_record 2"
proof -
  have ok: "log_ok (jn_log demo_journal0)" using journal_invD(1)[OF journal_reach_inv[OF demo_journal_reach(1)]] .
  have fe: "tokio_file demo_files" by (simp add: tokio_file_def demo_files_def file_bytes_def)
  obtain log i t where start: "start_file_stream demo_files [47, 120] 0 (jn_log demo_journal0) = (log, Inr (i, t))"
    by (simp add: start_file_stream_def write_dump_def demo_files_def snapshot_def split_def Let_def)
  have sent: "broadcast_delivers [demo_record 1, demo_record 2, demo_record 3] ([Got (demo_record 1)] @ [Lagged 2])"
    "Gone \<notin> set [Got (demo_record 1)]" "list_all record_wf [demo_record 1, demo_record 2, demo_record 3]"
    by (simp_all add: demo_record_wf)
  have res: "ft_result (file_finish demo_files [Lagged 2] (file_feed demo_files [Got (demo_record 1)] t)) = Some (Inr ())"
    using start by (auto simp: start_file_stream_def write_dump_def demo_files_def snapshot_def split_def Let_def file_finish_def
      file_feed_def write_stream_bytes_def progress_stop_def)
  have opened: "fe_open demo_files p a = Inr \<lparr>of_disk = [], of_buffer = []\<rparr>" for p a by (simp add: demo_files_def)
  show ?thesis
    using file_stream_records_everything[OF ok fe start sent] res start by (auto simp: item_record.simps opened)
qed

end
