(* ===== verification/Sync_Delta.thy ===== *)
theory Sync_Delta
  imports Frame_Decode
begin

text \<open>
  Content deltas of the file synchronisation: \<open>encode_delta\<close> of \<open>crates/fssync/src/lib.rs\<close>, which the
  server runs against the content a client holds, and \<open>apply_fs_delta\<close> of \<open>crates/remote/src/fs.rs\<close>,
  which the client runs.  A delta is a stream of \<open>COPY offset len\<close> and \<open>INSERT len bytes\<close> with LEB128
  numbers.
\<close>

subsection \<open>LEB128\<close>

function push_leb128 :: "u64 \<Rightarrow> bytes" where
  "push_leb128 v = (let b = ucast (v AND 0x7F) :: u8; v' = drop_bit 7 v in
     if v' = 0 then [b] else (b OR 0x80) # push_leb128 v')"
  by pat_completeness auto
termination
proof (relation "measure unat", simp)
  fix b :: u8 and v v' :: u64
  assume "v' = drop_bit 7 v" "v' \<noteq> 0"
  then have "unat v' = unat v div 128" by (simp add: drop_bit_eq_div unat_div)
  moreover from this and \<open>v' \<noteq> 0\<close> have "unat v \<noteq> 0" by (metis div_0 unsigned_eq_0_iff)
  ultimately show "(v', v) \<in> measure unat" by simp
qed

declare push_leb128.simps [simp del]

fun leb128 :: "u64 \<Rightarrow> nat \<Rightarrow> bytes \<Rightarrow> (u64 \<times> bytes) option" where
  "leb128 v shift [] = None"
| "leb128 v shift (byte # rest) =
    (if shift \<ge> 64 then None
     else let v = v OR push_bit shift (ucast (byte AND 0x7F)) in
       if byte AND 0x80 = 0 then Some (v, rest) else leb128 v (shift + 7) rest)"

subsection \<open>Encoding\<close>

fun common_prefix :: "bytes \<Rightarrow> bytes \<Rightarrow> nat" where
  "common_prefix (a # as) (b # bs) = (if a = b then Suc (common_prefix as bs) else 0)"
| "common_prefix _ _ = 0"

text \<open>The second loop counts from the back, and not into the common prefix.\<close>

definition common_suffix :: "nat \<Rightarrow> bytes \<Rightarrow> bytes \<Rightarrow> nat" where
  "common_suffix p base new = common_prefix (rev (drop p base)) (rev (drop p new))"

definition encode_delta :: "bytes \<Rightarrow> bytes \<Rightarrow> bytes" where
  "encode_delta base new =
    (let p = common_prefix base new; s = common_suffix p base new;
         middle = slice_of new p (length new - s - p)
     in (if p > 0 then [0x01] @ push_leb128 0 @ push_leb128 (of_nat p) else [])
      @ (if middle \<noteq> [] then [0x02] @ push_leb128 (of_nat (length middle)) @ middle else [])
      @ (if s > 0 then [0x01] @ push_leb128 (of_nat (length base - s)) @ push_leb128 (of_nat s) else []))"

subsection \<open>Applying\<close>

lemma leb128_shorter: "leb128 v shift bs = Some (w, rest) \<Longrightarrow> length rest < length bs"
  by (induction v shift bs rule: leb128.induct) (force simp: Let_def split: if_splits)+

function delta_loop :: "bytes \<Rightarrow> bytes \<Rightarrow> bytes \<Rightarrow> bytes option" where
  "delta_loop base out [] = Some out"
| "delta_loop base out (op # ops) =
    (if op = 0x01 then
       (case leb128 0 0 ops of None \<Rightarrow> None | Some (offset, ops1) \<Rightarrow>
         (case leb128 0 0 ops1 of None \<Rightarrow> None | Some (len, ops2) \<Rightarrow>
           if length out + unat len > MAX_DECOMPRESSED then None
           else if unat offset + unat len > length base then None
           else delta_loop base (out @ slice_of base (unat offset) (unat len)) ops2))
     else if op = 0x02 then
       (case leb128 0 0 ops of None \<Rightarrow> None | Some (len, ops1) \<Rightarrow>
         if length ops1 < unat len then None
         else if length out + unat len > MAX_DECOMPRESSED then None
         else delta_loop base (out @ take (unat len) ops1) (drop (unat len) ops1))
     else None)"
  by pat_completeness auto
termination
  by (relation "measure (\<lambda>(_, _, ops). length ops)") (auto dest!: leb128_shorter)

declare delta_loop.simps(2) [simp del]

definition apply_fs_delta :: "bytes \<Rightarrow> bytes \<Rightarrow> bytes option" where
  "apply_fs_delta base ops = delta_loop base [] ops"

subsection \<open>Reading back\<close>

lemma mask7: "(0x7F :: 'a::len word) = mask 7"
  by (simp add: mask_eq_exp_minus_1)

lemma bit_0x80: "bit (0x80 :: u8) n \<longleftrightarrow> n = 7"
proof -
  have "(0x80 :: u8) = push_bit 7 1" by simp
  then show ?thesis by (simp only: bit_push_bit_iff bit_1_iff) auto
qed

lemma leb_bytes:
  fixes v :: u64
  defines "b \<equiv> (ucast (v AND 0x7F) :: u8)"
  shows "b AND 0x80 = 0" "(b OR 0x80) AND 0x80 \<noteq> 0"
    "ucast (b AND 0x7F) = v AND 0x7F" "ucast ((b OR 0x80) AND 0x7F) = v AND 0x7F"
proof -
  have n: "bit b n \<longleftrightarrow> n < 7 \<and> bit v n" for n
    by (auto simp: b_def mask7 bit_ucast_iff bit_and_iff bit_mask_iff)
  have "\<not> bit (b AND 0x80) k" for k unfolding bit_and_iff n bit_0x80 by auto
  then show "b AND 0x80 = 0" by (intro bit_word_eqI) simp
  have "bit ((b OR 0x80) AND 0x80) 7" by (simp add: bit_and_iff bit_or_iff bit_0x80)
  then show "(b OR 0x80) AND 0x80 \<noteq> 0" by fastforce
  have m: "bit ((b OR 0x80) AND 0x7F) k \<longleftrightarrow> k < 7 \<and> bit v k" "bit (b AND 0x7F) k \<longleftrightarrow> k < 7 \<and> bit v k" for k
    unfolding mask7 bit_and_iff bit_or_iff bit_mask_iff n bit_0x80 by auto
  show "ucast (b AND 0x7F) = v AND 0x7F" "ucast ((b OR 0x80) AND 0x7F) = v AND 0x7F"
    by (rule bit_word_eqI; simp add: bit_ucast_iff m; auto simp: mask7 bit_and_iff bit_mask_iff)+
qed

lemma split_low_bits: "push_bit shift v = push_bit shift (v AND 0x7F) OR push_bit (shift + 7) (drop_bit 7 (v :: u64))"
proof -
  have "v = (v AND 0x7F) OR push_bit 7 (drop_bit 7 v)"
  proof (rule bit_word_eqI)
    fix n assume "n < LENGTH(64)"
    then show "bit v n \<longleftrightarrow> bit ((v AND 0x7F) OR push_bit 7 (drop_bit 7 v)) n"
      by (cases "n < 7") (simp_all add: mask7 bit_push_bit_iff bit_and_iff bit_or_iff bit_mask_iff bit_drop_bit_eq)
  qed
  then have "push_bit shift v = push_bit shift ((v AND 0x7F) OR push_bit 7 (drop_bit 7 v))" by simp
  then show ?thesis by (simp only: push_bit_or push_bit_push_bit)
qed

lemma leb128_last:
  "shift < 64 \<Longrightarrow> drop_bit 7 v = 0 \<Longrightarrow> leb128 acc shift (push_leb128 v @ rest) = Some (acc OR push_bit shift v, rest)"
  using leb_bytes(1,3)[of v] split_low_bits[of shift v] by (simp add: push_leb128.simps[of v] Let_def)

lemma leb128_more:
  "shift < 64 \<Longrightarrow> drop_bit 7 v \<noteq> 0 \<Longrightarrow> leb128 acc shift (push_leb128 v @ rest)
    = leb128 (acc OR push_bit shift (v AND 0x7F)) (shift + 7) (push_leb128 (drop_bit 7 v) @ rest)"
  using leb_bytes(2,4)[of v] by (simp add: push_leb128.simps[of v] Let_def)

lemma leb128_push:
  "shift < 64 \<Longrightarrow> unat v < 2 ^ (64 - shift) \<Longrightarrow>
    leb128 acc shift (push_leb128 v @ rest) = Some (acc OR push_bit shift v, rest)"
proof (induction v arbitrary: acc shift rule: push_leb128.induct)
  case (1 v)
  let ?v = "drop_bit 7 v"
  have half: "unat ?v = unat v div 2 ^ 7" by (simp add: drop_bit_eq_div unat_div)
  show ?case
  proof (cases "?v = 0")
    case True
    then show ?thesis by (rule leb128_last[OF "1.prems"(1)])
  next
    case False
    then have "\<not> unat v < 2 ^ 7" using half by (metis div_less unsigned_eq_0_iff)
    then have "(2::nat) ^ 7 < 2 ^ (64 - shift)" using "1.prems"(2) by linarith
    then have s: "7 < 64 - shift" by (rule power_less_imp_less_exp[rotated]) simp
    then have "64 - shift = (64 - (shift + 7)) + 7" by simp
    then have "(2::nat) ^ (64 - shift) = 2 ^ (64 - (shift + 7)) * 2 ^ 7" by (simp only: power_add)
    then have "unat ?v < 2 ^ (64 - (shift + 7))" using "1.prems"(2) half by (simp only: less_mult_imp_div_less)
    then have "leb128 (acc OR push_bit shift (v AND 0x7F)) (shift + 7) (push_leb128 ?v @ rest)
        = Some ((acc OR push_bit shift (v AND 0x7F)) OR push_bit (shift + 7) ?v, rest)"
      using "1.IH"[OF refl refl False, of "shift + 7"] s by simp
    then show ?thesis
      by (simp only: leb128_more[OF "1.prems"(1) False] split_low_bits[of shift v] or.assoc)
  qed
qed

lemma leb128_of_nat: "n < 2 ^ 64 \<Longrightarrow> leb128 0 0 (push_leb128 (of_nat n) @ rest) = Some (of_nat n, rest)"
  using leb128_push[of 0 "of_nat n" 0 rest] unsigned_less[of "of_nat n :: u64"] by simp

subsection \<open>A delta applied to its base\<close>

lemma common_prefix_take: "take (common_prefix as bs) as = take (common_prefix as bs) bs"
  by (induction as bs rule: common_prefix.induct) auto

lemma common_prefix_le: "common_prefix as bs \<le> length as" "common_prefix as bs \<le> length bs"
  by (induction as bs rule: common_prefix.induct) auto

lemma common_suffix_drop:
  fixes base new :: bytes
  defines "p \<equiv> common_prefix base new"
  defines "s \<equiv> common_suffix p base new"
  shows "p + s \<le> length base" "p + s \<le> length new" "drop (length base - s) base = drop (length new - s) new"
proof -
  have le: "s \<le> length (drop p base)" "s \<le> length (drop p new)"
    using common_prefix_le[of "rev (drop p base)" "rev (drop p new)"] by (simp_all add: s_def common_suffix_def)
  then show ps: "p + s \<le> length base" "p + s \<le> length new"
    using common_prefix_le[of base new] by (simp_all add: p_def)
  have "take s (rev (drop p base)) = take s (rev (drop p new))"
    unfolding s_def common_suffix_def by (rule common_prefix_take)
  then have "drop (length (drop p base) - s) (drop p base) = drop (length (drop p new) - s) (drop p new)"
    by (simp add: take_rev)
  then show "drop (length base - s) base = drop (length new - s) new" using ps by simp
qed

lemma delta_copy:
  assumes "n < 2 ^ 64" "offset < 2 ^ 64" "offset + n \<le> length base" "length out + n \<le> MAX_DECOMPRESSED"
  shows "delta_loop base out ([0x01] @ push_leb128 (of_nat offset) @ push_leb128 (of_nat n) @ ops)
    = delta_loop base (out @ slice_of base offset n) ops"
  using assms by (simp add: delta_loop.simps(2) leb128_of_nat unat_of_nat)

lemma delta_insert:
  assumes "length xs < 2 ^ 64" "length out + length xs \<le> MAX_DECOMPRESSED"
  shows "delta_loop base out ([0x02] @ push_leb128 (of_nat (length xs)) @ xs @ ops) = delta_loop base (out @ xs) ops"
  using assms by (simp add: delta_loop.simps(2) leb128_of_nat unat_of_nat)

lemma apply_encode_delta:
  assumes "length new \<le> MAX_DECOMPRESSED" "length base < 2 ^ 64"
  shows "apply_fs_delta base (encode_delta base new) = Some new"
proof -
  define p where "p = common_prefix base new"
  define s where "s = common_suffix p base new"
  define middle where "middle = slice_of new p (length new - s - p)"
  note ps = common_suffix_drop[of base new, folded p_def, folded s_def]
  have new64: "length new < 2 ^ 64" using assms(1) by (simp add: MAX_DECOMPRESSED_def)
  have mid: "length middle = length new - s - p" using ps by (simp add: middle_def)
  have "take p base = take p new" unfolding p_def by (rule common_prefix_take)
  moreover have "new = take p new @ middle @ drop (length new - s - p) (drop p new)"
    unfolding middle_def slice_of_def by (metis append_take_drop_id)
  moreover have "drop (length new - s - p) (drop p new) = drop (length new - s) new"
  proof -
    have "length new - s - p + p = length new - s" using ps(2) by linarith
    then show ?thesis by (simp only: drop_drop)
  qed
  ultimately have new: "new = take p base @ middle @ drop (length base - s) base" using ps(3) by simp
  define A where "A = (if p > 0 then [0x01] @ push_leb128 (of_nat 0) @ push_leb128 (of_nat p) else [])"
  define B where "B = (if middle \<noteq> [] then [0x02] @ push_leb128 (of_nat (length middle)) @ middle else [])"
  define C where "C = (if s > 0 then [0x01] @ push_leb128 (of_nat (length base - s)) @ push_leb128 (of_nat s) else [])"
  have "delta_loop base [] (A @ B @ C) = delta_loop base (take p base) (B @ C)"
    using delta_copy[of p 0 base "[]" "B @ C"] ps assms new64 by (simp add: A_def slice_of_def)
  also have "\<dots> = delta_loop base (take p base @ middle) C"
    using delta_insert[of middle "take p base" base C] ps assms new64 mid by (simp add: B_def)
  also have "\<dots> = Some (take p base @ middle @ drop (length base - s) base)"
  proof -
    have "length (take p base @ middle) + s \<le> MAX_DECOMPRESSED" using ps assms(1) mid by simp
    moreover have "s < 2 ^ 64" "length base - s < 2 ^ 64" "s \<le> length base" using ps assms(2) by simp_all
    ultimately show ?thesis
      using delta_copy[of s "length base - s" base "take p base @ middle" "[]"] by (auto simp: C_def slice_of_def)
  qed
  also have "\<dots> = Some new" using new by simp
  finally have "delta_loop base [] (A @ B @ C) = Some new" .
  moreover have "encode_delta base new = A @ B @ C"
    unfolding encode_delta_def Let_def A_def B_def C_def middle_def s_def p_def by (simp only: semiring_1_class.of_nat_0)
  ultimately show ?thesis by (simp only: apply_fs_delta_def)
qed

end
