(* ===== verification/Sync_Wire.thy ===== *)
theory Sync_Wire
  imports Kv_Wire Sync_Delta
begin

text \<open>
  The updates of the file synchronisation, \<open>crates/remote/src/fs.rs\<close>: the records inside an update
  with their iterator, the update message, and \<open>FsMirror\<close>, the client-side reducer.  A wire path is the
  bytes of a \<open>str\<close>, relative to the root, separated by slashes; the empty path is the root.  LZ4 is
  the pair of parameters \<open>compress\<close>, \<open>decompress\<close>.
\<close>

subsection \<open>Constants\<close>

definition S2C_FS_UPDATE :: u8 where [wire_defs]: "S2C_FS_UPDATE = 0x41"
definition FS_UPDATE_RESET :: u8 where [wire_defs]: "FS_UPDATE_RESET = 1"
definition FS_UPDATE_SYNC :: u8 where [wire_defs]: "FS_UPDATE_SYNC = 2"
definition FS_RECORD_UPSERT :: u8 where [wire_defs]: "FS_RECORD_UPSERT = 1"
definition FS_RECORD_DELETE :: u8 where [wire_defs]: "FS_RECORD_DELETE = 2"
definition FS_RECORD_MOVE :: u8 where [wire_defs]: "FS_RECORD_MOVE = 3"
definition FS_ENTRY_TYPE_MASK :: u8 where [wire_defs]: "FS_ENTRY_TYPE_MASK = 3"
definition FS_ENTRY_FILE :: u8 where [wire_defs]: "FS_ENTRY_FILE = 0"
definition FS_ENTRY_DIR :: u8 where [wire_defs]: "FS_ENTRY_DIR = 1"
definition FS_ENTRY_SYMLINK :: u8 where [wire_defs]: "FS_ENTRY_SYMLINK = 2"
definition FS_ENTRY_OTHER :: u8 where [wire_defs]: "FS_ENTRY_OTHER = 3"
definition FS_ENTRY_UNREADABLE :: u8 where [wire_defs]: "FS_ENTRY_UNREADABLE = 4"
definition FS_ENTRY_NO_CONTENT :: u8 where [wire_defs]: "FS_ENTRY_NO_CONTENT = 8"
definition FS_ENTRY_UNSTABLE :: u8 where [wire_defs]: "FS_ENTRY_UNSTABLE = 16"
definition FS_ENTRY_LINK_DIR :: u8 where [wire_defs]: "FS_ENTRY_LINK_DIR = 32"
definition FS_ENTRY_FILTERED :: u8 where [wire_defs]: "FS_ENTRY_FILTERED = 64"
definition FS_CONTENT_NONE :: u8 where [wire_defs]: "FS_CONTENT_NONE = 0"
definition FS_CONTENT_FULL :: u8 where [wire_defs]: "FS_CONTENT_FULL = 1"
definition FS_CONTENT_DELTA :: u8 where [wire_defs]: "FS_CONTENT_DELTA = 2"

subsection \<open>Records\<close>

datatype fs_content = FcNone | FcFull bytes | FcDelta bytes

datatype fs_record =
    FsUpsert bytes u8 u64 u64 u32 u128 fs_content
  | FsDelete bytes
  | FsMove bytes bytes

text \<open>A string field is cut at a character boundary when it exceeds its length prefix.\<close>

definition push_str :: "bytes \<Rightarrow> bytes" where
  "push_str s = (let b = clip_str 65535 s in to_le 2 (length b) @ b)"

definition fs_content_bytes :: "fs_content \<Rightarrow> bytes" where
  "fs_content_bytes c = (case c of
     FcNone \<Rightarrow> [FS_CONTENT_NONE]
   | FcFull data \<Rightarrow> [FS_CONTENT_FULL] @ to_le 4 (length data) @ data
   | FcDelta ops \<Rightarrow> [FS_CONTENT_DELTA] @ to_le 4 (length ops) @ ops)"

definition fs_record_body :: "fs_record \<Rightarrow> bytes" where
  "fs_record_body r = (case r of
     FsUpsert path entry_flags sz mtime_ns mode hash content \<Rightarrow>
       [FS_RECORD_UPSERT, entry_flags] @ push_str path @ wle 8 sz @ wle 8 mtime_ns @ wle 4 mode @ wle 16 hash
       @ fs_content_bytes content
   | FsDelete path \<Rightarrow> [FS_RECORD_DELETE] @ push_str path
   | FsMove src dst \<Rightarrow> [FS_RECORD_MOVE] @ push_str src @ push_str dst)"

definition append_fs_record :: "bytes \<Rightarrow> fs_record \<Rightarrow> bytes" where
  "append_fs_record buf r = buf @ to_le 4 (length (fs_record_body r)) @ fs_record_body r"

definition take_path :: "bytes \<Rightarrow> (bytes \<times> bytes) option" where
  "take_path body =
    (if length body < 2 then None
     else let len = rd 2 body 0 in
       if length body < 2 + len then None
       else case from_utf8 (slice_of body 2 len) of None \<Rightarrow> None
         | Some s \<Rightarrow> Some (s, drop (2 + len) body))"

definition take_fs_content :: "u8 \<Rightarrow> bytes \<Rightarrow> fs_content option" where
  "take_fs_content content_kind body =
    (if content_kind = FS_CONTENT_NONE then Some FcNone
     else if content_kind = FS_CONTENT_FULL \<or> content_kind = FS_CONTENT_DELTA then
       (if length body < 4 then None
        else let len = rd 4 body 0 in
          if length body < 4 + len then None
          else let data = slice_of body 4 len in
            Some (if content_kind = FS_CONTENT_FULL then FcFull data else FcDelta data))
     else None)"

definition take_fs_upsert :: "bytes \<Rightarrow> fs_record option" where
  "take_fs_upsert body =
    (if body = [] then None
     else let entry_flags = body ! 0; body = drop 1 body in
       case take_path body of None \<Rightarrow> None
       | Some (path, body) \<Rightarrow>
         if length body < 8 + 8 + 4 + 16 + 1 then None
         else map_option (FsUpsert path entry_flags (rdw 8 body 0) (rdw 8 body 8) (rdw 4 body 16) (rdw 16 body 20))
           (take_fs_content (body ! 36) (drop 37 body)))"

definition take_fs_move :: "bytes \<Rightarrow> fs_record option" where
  "take_fs_move body = (case take_path body of None \<Rightarrow> None
     | Some (src, body) \<Rightarrow> (case take_path body of None \<Rightarrow> None | Some (dst, body) \<Rightarrow> Some (FsMove src dst)))"

text \<open>\<open>FsRecordIter::next\<close>: the item and the iterator's remaining data.\<close>

function fs_next :: "bytes \<Rightarrow> fs_record option \<times> bytes" where
  "fs_next data =
    (if length data < 4 then (None, data)
     else let rec_len = rd 4 data 0 in
       if length data < 4 + rec_len \<or> rec_len = 0 then (None, data)
       else let body = slice_of data 4 rec_len; data = drop (4 + rec_len) data; kind = body ! 0; body = drop 1 body
         in if kind = FS_RECORD_UPSERT then (take_fs_upsert body, data)
            else if kind = FS_RECORD_DELETE then (map_option (\<lambda>(path, _). FsDelete path) (take_path body), data)
            else if kind = FS_RECORD_MOVE then (take_fs_move body, data)
            else fs_next data)"
  by pat_completeness auto
termination
  by (relation "measure length") auto

declare fs_next.simps [simp del]

lemma fs_next_shorter: "fs_next data = (Some r, rest) \<Longrightarrow> length rest < length data"
proof (induction "length data" arbitrary: data rule: less_induct)
  case less
  have "4 \<le> length data \<Longrightarrow> fs_next (drop (4 + rd 4 data 0) data) = (Some r, rest) \<Longrightarrow> length rest < length data"
    by (rule less_le_trans[OF less.hyps]) auto
  then show ?case
    using less.prems by (subst (asm) fs_next.simps) (auto simp: Let_def split: if_splits)
qed

function fs_records :: "bytes \<Rightarrow> fs_record list" where
  "fs_records data = (case fs_next data of (None, _) \<Rightarrow> [] | (Some r, rest) \<Rightarrow> r # fs_records rest)"
  by pat_completeness auto
termination
  by (relation "measure length") (auto dest: fs_next_shorter[OF sym])

declare fs_records.simps [simp del]

definition msg_fs_update :: "(bytes \<Rightarrow> bytes) \<Rightarrow> u16 \<Rightarrow> u32 \<Rightarrow> u8 \<Rightarrow> bytes \<Rightarrow> bytes" where
  "msg_fs_update compress sync_id update_id flags records =
    [S2C_FS_UPDATE] @ wle 2 sync_id @ wle 4 update_id @ [flags] @ compress records"

definition fs_update_records :: "(bytes \<Rightarrow> bytes option) \<Rightarrow> bytes \<Rightarrow> bytes option" where
  "fs_update_records decompress msg =
    (if length msg < 8 \<or> msg ! 0 \<noteq> S2C_FS_UPDATE then None else decompress_guarded decompress (drop 8 msg))"

subsection \<open>Subtrees of a map of paths\<close>

definition subtree_keys :: "(bytes, 'v) btree_map \<Rightarrow> bytes \<Rightarrow> bytes list" where
  "subtree_keys m root =
    (if root = [] then bt_keys m
     else (if bt_get m root \<noteq> None then [root] else []) @ map fst (prefix_range (root @ [0x2F]) m))"

definition remove_subtree :: "bytes \<Rightarrow> (bytes, 'v) btree_map \<Rightarrow> (bytes, 'v) btree_map" where
  "remove_subtree root m = fold bt_remove (subtree_keys m root) m"

definition subtree_suffix :: "bytes \<Rightarrow> bytes \<Rightarrow> bytes" where
  "subtree_suffix root key =
    (if length key > length root then drop (length root + (if root = [] then 0 else 1)) key else [])"

definition take_subtree :: "bytes \<Rightarrow> (bytes, 'v) btree_map \<Rightarrow> (bytes, 'v) btree_map \<times> (bytes \<times> 'v) list" where
  "take_subtree root m = (let keys = subtree_keys m root in
     (fold bt_remove keys m, map (\<lambda>key. (subtree_suffix root key, the (bt_get m key))) keys))"

definition join_moved :: "bytes \<Rightarrow> bytes \<Rightarrow> bytes" where
  "join_moved dst suffix = (if suffix = [] then dst else if dst = [] then suffix else dst @ [0x2F] @ suffix)"

definition move_subtree :: "bytes \<Rightarrow> bytes \<Rightarrow> (bytes, 'v) btree_map \<Rightarrow> (bytes, 'v) btree_map" where
  "move_subtree src dst m = (case take_subtree src m of (m, moved) \<Rightarrow>
     fold (\<lambda>(suffix, node). bt_insert (join_moved dst suffix) node) moved m)"

subsection \<open>The client's mirror\<close>

record fs_node =
  fn_flags :: u8
  fn_size :: u64
  fn_mtime_ns :: u64
  fn_mode :: u32
  fn_hash :: u128
  fn_content :: "bytes option"

record fs_mirror =
  fm_live :: "(bytes, fs_node) btree_map"
  fm_staging :: "(bytes, fs_node) btree_map option"

definition fs_mirror_new :: fs_mirror where
  "fs_mirror_new = \<lparr>fm_live = [], fm_staging = None\<rparr>"

definition entry_type :: "u8 \<Rightarrow> u8" where
  "entry_type entry_flags = entry_flags AND FS_ENTRY_TYPE_MASK"

text \<open>The content a node gets from an upsert that brings none.\<close>

definition kept_content :: "u8 \<Rightarrow> fs_node option \<Rightarrow> bytes option" where
  "kept_content entry_flags old =
    (if \<not> (entry_type entry_flags = FS_ENTRY_FILE \<or> entry_type entry_flags = FS_ENTRY_SYMLINK)
        \<or> entry_flags AND (FS_ENTRY_NO_CONTENT OR FS_ENTRY_UNREADABLE OR FS_ENTRY_UNSTABLE) \<noteq> 0 then None
     else case old of None \<Rightarrow> None
       | Some n \<Rightarrow> if entry_type (fn_flags n) = entry_type entry_flags then fn_content n else None)"

text \<open>The outer \<open>None\<close> is a delta that does not apply.\<close>

definition upsert_content :: "u8 \<Rightarrow> fs_content \<Rightarrow> fs_node option \<Rightarrow> bytes option option" where
  "upsert_content entry_flags content old = (case content of
     FcNone \<Rightarrow> Some (kept_content entry_flags old)
   | FcFull data \<Rightarrow> Some (Some data)
   | FcDelta ops \<Rightarrow>
       map_option Some (apply_fs_delta (case old of None \<Rightarrow> [] | Some n \<Rightarrow> (case fn_content n of None \<Rightarrow> [] | Some c \<Rightarrow> c)) ops))"

text \<open>The map after a record, and whether the update goes on.\<close>

definition apply_fs_record :: "fs_record \<Rightarrow> (bytes, fs_node) btree_map \<Rightarrow> (bytes, fs_node) btree_map \<times> bool" where
  "apply_fs_record r m = (case r of
     FsUpsert path entry_flags sz mtime_ns mode hash content \<Rightarrow>
       (case upsert_content entry_flags content (bt_get m path) of None \<Rightarrow> (m, False)
        | Some c \<Rightarrow> (bt_insert path \<lparr>fn_flags = entry_flags, fn_size = sz, fn_mtime_ns = mtime_ns, fn_mode = mode,
            fn_hash = hash, fn_content = c\<rparr> m, True))
   | FsDelete path \<Rightarrow> (remove_subtree path m, True)
   | FsMove src dst \<Rightarrow> (move_subtree src dst m, True))"

fun apply_fs_records :: "fs_record list \<Rightarrow> (bytes, fs_node) btree_map \<Rightarrow> (bytes, fs_node) btree_map \<times> bool" where
  "apply_fs_records [] m = (m, True)"
| "apply_fs_records (r # rs) m = (case apply_fs_record r m of (m, ok) \<Rightarrow> if ok then apply_fs_records rs m else (m, False))"

definition apply_fs_update :: "(bytes \<Rightarrow> bytes option) \<Rightarrow> bytes \<Rightarrow> fs_mirror \<Rightarrow> fs_mirror \<times> u32 option" where
  "apply_fs_update decompress msg fm =
    (if length msg < 8 \<or> msg ! 0 \<noteq> S2C_FS_UPDATE then (fm, None)
     else let update_id = rdw 4 msg 3; flags = msg ! 7 in
       case decompress_guarded decompress (drop 8 msg) of None \<Rightarrow> (fm, None)
       | Some records \<Rightarrow>
         let fm = (if flags AND FS_UPDATE_RESET \<noteq> 0 then fm\<lparr>fm_staging := Some []\<rparr> else fm);
             (m, ok) = apply_fs_records (fs_records records) (case fm_staging fm of Some s \<Rightarrow> s | None \<Rightarrow> fm_live fm);
             fm = (case fm_staging fm of Some _ \<Rightarrow> fm\<lparr>fm_staging := Some m\<rparr> | None \<Rightarrow> fm\<lparr>fm_live := m\<rparr>)
         in if \<not> ok then (fm, None)
            else ((if flags AND FS_UPDATE_SYNC \<noteq> 0 then
                (case fm_staging fm of Some s \<Rightarrow> fm\<lparr>fm_live := s, fm_staging := None\<rparr> | None \<Rightarrow> fm) else fm), Some update_id))"

end
