(* ===== verification/Sync_Diff.thy ===== *)
theory Sync_Diff
  imports Sync_Wire
begin

text \<open>
  The index of a synchronised tree and the difference of two indexes, in \<open>crates/fssync/src/lib.rs\<close>:
  paths and subtrees, \<open>NodeMeta\<close>, and \<open>diff\<close> with its move detection.  An index is a \<open>BTreeMap\<close> from wire
  paths; a list of \<open>&String\<close> sorted by path is the list of the paths.
\<close>

subsection \<open>Paths\<close>

definition is_under :: "bytes \<Rightarrow> bytes \<Rightarrow> bool" where
  "is_under path root \<longleftrightarrow> root = [] \<or> path = root
     \<or> length path > length root \<and> starts_with path root \<and> path ! length root = 0x2F"

text \<open>\<open>rfind('/')\<close>: everything before the last slash.\<close>

definition parent_wire :: "bytes \<Rightarrow> bytes option" where
  "parent_wire rel = (if rel = [] then None
     else if 0x2F \<in> set rel then Some (rev (drop 1 (dropWhile (\<lambda>b. b \<noteq> 0x2F) (rev rel)))) else Some [])"

definition join_wire :: "bytes \<Rightarrow> bytes \<Rightarrow> bytes" where
  "join_wire parent child = (if parent = [] then child else parent @ [0x2F] @ child)"

definition rebase_subtree_path :: "bytes \<Rightarrow> bytes \<Rightarrow> bytes \<Rightarrow> bytes" where
  "rebase_subtree_path path src dst =
    (let suffix = (if length path > length src then drop (length src + (if src \<noteq> [] then 1 else 0)) path else [])
     in if suffix = [] then dst else if dst = [] then suffix else dst @ [0x2F] @ suffix)"

definition subtree_entries :: "(bytes, 'v) btree_map \<Rightarrow> bytes \<Rightarrow> (bytes \<times> 'v) list" where
  "subtree_entries m root =
    (if root = [] then [] else (case bt_get m root of None \<Rightarrow> [] | Some v \<Rightarrow> [(root, v)]))
     @ prefix_range (if root = [] then [] else root @ [0x2F]) m"

subsection \<open>Metadata\<close>

record node_meta =
  nm_type :: u8
  nm_size :: u64
  nm_mtime_ns :: u64
  nm_mode :: u32
  nm_hash :: u128
  nm_dev_ino :: "u64 \<times> u64"
  nm_link_dir :: bool
  nm_filtered :: bool

type_synonym index = "(bytes, node_meta) btree_map"

definition enumerable_dir :: "node_meta \<Rightarrow> bool" where
  "enumerable_dir m \<longleftrightarrow> nm_type m = FS_ENTRY_DIR \<or> nm_type m = FS_ENTRY_SYMLINK \<and> nm_link_dir m"

definition same_identity :: "node_meta \<Rightarrow> node_meta \<Rightarrow> bool" where
  "same_identity m other \<longleftrightarrow> nm_type m = nm_type other \<and> nm_dev_ino m \<noteq> (0, 0) \<and> nm_dev_ino m = nm_dev_ino other"

definition content_changed :: "node_meta \<Rightarrow> node_meta \<Rightarrow> bool" where
  "content_changed m prev \<longleftrightarrow> nm_type m \<noteq> nm_type prev \<or> nm_size m \<noteq> nm_size prev
     \<or> nm_mtime_ns m \<noteq> nm_mtime_ns prev \<or> nm_dev_ino m \<noteq> nm_dev_ino prev"

definition visible_eq :: "node_meta \<Rightarrow> node_meta \<Rightarrow> bool" where
  "visible_eq m other \<longleftrightarrow> nm_type m = nm_type other \<and> nm_size m = nm_size other \<and> nm_mtime_ns m = nm_mtime_ns other
     \<and> nm_mode m = nm_mode other \<and> nm_dev_ino m = nm_dev_ino other \<and> nm_filtered m = nm_filtered other
     \<and> nm_link_dir m = nm_link_dir other"

subsection \<open>The classified paths\<close>

datatype diff_op = DUpsert bytes bool | DDelete bytes | DMove bytes bytes

text \<open>The sorted merge of \<open>diff\<close>: removed, added, and changed with whether the content did.\<close>

fun classify :: "index \<Rightarrow> index \<Rightarrow> bytes list \<times> bytes list \<times> (bytes \<times> bool) list" where
  "classify ((pk, pv) # p) ((ck, cv) # c) =
    (if pk = ck then (case classify p c of (removed, added, changed) \<Rightarrow>
       (removed, added, (if \<not> visible_eq cv pv then [(ck, content_changed cv pv)] else []) @ changed))
     else if pk < ck then (case classify p ((ck, cv) # c) of (removed, added, changed) \<Rightarrow> (pk # removed, added, changed))
     else (case classify ((pk, pv) # p) c of (removed, added, changed) \<Rightarrow> (removed, ck # added, changed)))"
| "classify ((pk, pv) # p) [] = (case classify p [] of (removed, added, changed) \<Rightarrow> (pk # removed, added, changed))"
| "classify [] ((ck, cv) # c) = (case classify [] c of (removed, added, changed) \<Rightarrow> (removed, ck # added, changed))"
| "classify [] [] = ([], [], [])"

text \<open>The probes of \<open>diff_changed\<close>, over the changed keys in order.\<close>

fun classify_keys :: "index \<Rightarrow> index \<Rightarrow> bytes list \<Rightarrow> bytes list \<times> bytes list \<times> (bytes \<times> bool) list" where
  "classify_keys prev cur [] = ([], [], [])"
| "classify_keys prev cur (key # keys) = (case classify_keys prev cur keys of (removed, added, changed) \<Rightarrow>
     (case (bt_get prev key, bt_get cur key) of
        (Some pv, Some cv) \<Rightarrow> (removed, added, (if \<not> visible_eq cv pv then [(key, content_changed cv pv)] else []) @ changed)
      | (Some _, None) \<Rightarrow> (key # removed, added, changed)
      | (None, Some _) \<Rightarrow> (removed, key # added, changed)
      | (None, None) \<Rightarrow> (removed, added, changed)))"

subsection \<open>The move join\<close>

text \<open>\<open>binary_search_by\<close> on a sorted list without duplicates, and \<open>partition_point\<close>.\<close>

definition binary_search :: "bytes list \<Rightarrow> bytes \<Rightarrow> nat option" where
  "binary_search paths p = (if p \<in> set paths then Some (length (takeWhile (\<lambda>q. q \<noteq> p) paths)) else None)"

definition partition_point :: "(bytes \<Rightarrow> bool) \<Rightarrow> bytes list \<Rightarrow> nat" where
  "partition_point P paths = length (takeWhile P paths)"

definition cover_sorted :: "bytes list \<Rightarrow> bytes \<Rightarrow> bool list \<Rightarrow> bool list" where
  "cover_sorted paths root covered =
    (let covered = (case binary_search paths root of Some i \<Rightarrow> covered[i := True] | None \<Rightarrow> covered);
         prefix = root @ [0x2F]; start = partition_point (\<lambda>p. p < prefix) paths;
         n = length (takeWhile (\<lambda>p. starts_with p prefix) (drop start paths))
     in take start covered @ replicate n True @ drop (start + n) covered)"

definition identity_map :: "index \<Rightarrow> bytes list \<Rightarrow> (u64 \<times> u64, nat) hash_map" where
  "identity_map prev removed = fold (\<lambda>i by_identity. let meta = the (bt_get prev (removed ! i)) in
     if nm_dev_ino meta \<noteq> (0, 0) then hm_insert (nm_dev_ino meta) i by_identity else by_identity) [0..<length removed] []"

type_synonym join_state = "(bytes \<times> bytes) list \<times> bool list \<times> bool list"

definition join_step :: "index \<Rightarrow> index \<Rightarrow> bytes list \<Rightarrow> bytes list \<Rightarrow> nat \<Rightarrow> join_state \<Rightarrow> join_state" where
  "join_step prev cur removed added ai st = (case st of (moves, removed_covered, added_covered) \<Rightarrow>
     if added_covered ! ai then st
     else let dst = added ! ai; cmeta = the (bt_get cur dst) in
       case hm_get (identity_map prev removed) (nm_dev_ino cmeta) of
         None \<Rightarrow> st
       | Some ri \<Rightarrow>
           if removed_covered ! ri \<or> \<not> same_identity (the (bt_get prev (removed ! ri))) cmeta then st
           else let src = removed ! ri in
             (moves @ [(src, dst)], cover_sorted removed src removed_covered, cover_sorted added dst added_covered))"

definition move_join :: "index \<Rightarrow> index \<Rightarrow> bytes list \<Rightarrow> bytes list \<Rightarrow> join_state" where
  "move_join prev cur removed added = fold (join_step prev cur removed added)
     (sort_key (\<lambda>i. length (added ! i)) [0..<length added])
     ([], replicate (length removed) False, replicate (length added) False)"

subsection \<open>The operations\<close>

lemma parent_wire_shorter: "parent_wire p = Some q \<Longrightarrow> length q < length p"
proof -
  assume "parent_wire p = Some q"
  moreover have "length (dropWhile (\<lambda>b. b \<noteq> 0x2F) (rev p)) \<le> length p" using length_dropWhile_le[of _ "rev p"] by simp
  ultimately show ?thesis by (cases p) (auto simp: parent_wire_def split: if_splits)
qed

function ancestor_deleted :: "bytes list \<Rightarrow> bytes \<Rightarrow> bool" where
  "ancestor_deleted emitted cursor = (case parent_wire cursor of None \<Rightarrow> False
     | Some parent \<Rightarrow> if parent \<in> set emitted then True else ancestor_deleted emitted parent)"
  by pat_completeness auto
termination
  by (relation "measure (length \<circ> snd)") (auto dest: parent_wire_shorter)

declare ancestor_deleted.simps [simp del]

fun delete_roots :: "bytes list \<Rightarrow> (bytes \<times> bool) list \<Rightarrow> bytes list" where
  "delete_roots emitted [] = []"
| "delete_roots emitted ((path, covered) # rest) =
    (if covered \<or> ancestor_deleted emitted path then delete_roots emitted rest
     else path # delete_roots (path # emitted) rest)"

text \<open>What a move alone leaves different.\<close>

definition move_fixups :: "index \<Rightarrow> index \<Rightarrow> bytes \<times> bytes \<Rightarrow> diff_op list" where
  "move_fixups prev cur mv = (case mv of (src, dst) \<Rightarrow>
     concat (map (\<lambda>(path, _). let new_path = rebase_subtree_path path src dst in
         if bt_get cur new_path = None then [DDelete new_path] else []) (subtree_entries prev src))
     @ concat (map (\<lambda>(path, new). case bt_get prev (rebase_subtree_path path dst src) of
           Some old \<Rightarrow> if visible_eq new old then [] else [DUpsert path (content_changed new old)]
         | None \<Rightarrow> [DUpsert path True]) (subtree_entries cur dst)))"

definition diff_classified :: "index \<Rightarrow> index \<Rightarrow> bytes list \<times> bytes list \<times> (bytes \<times> bool) list \<Rightarrow> diff_op list" where
  "diff_classified prev cur cls = (case cls of (removed, added, changed) \<Rightarrow>
     case move_join prev cur removed added of (moves, removed_covered, added_covered) \<Rightarrow>
       map (\<lambda>(src, dst). DMove src dst) moves
       @ map DDelete (delete_roots [] (zip removed removed_covered))
       @ concat (map (\<lambda>(path, covered). if covered then [] else [DUpsert path True]) (zip added added_covered))
       @ concat (map (move_fixups prev cur) moves)
       @ map (\<lambda>(path, c). DUpsert path c) changed)"

definition diff :: "index \<Rightarrow> index \<Rightarrow> diff_op list" where
  "diff prev cur = diff_classified prev cur (classify prev cur)"

definition diff_changed :: "index \<Rightarrow> index \<Rightarrow> bytes list \<Rightarrow> diff_op list" where
  "diff_changed prev cur changed_keys = diff_classified prev cur (classify_keys prev cur changed_keys)"

end
