(* ===== verification/Sync_Paths.thy ===== *)
theory Sync_Paths
  imports Sync_Diff "HOL-Library.Sublist"
begin

text \<open>
  Facts on wire paths: the order \<open>is_under\<close>, trees closed under parents, subtree ranges of an ordered
  map, and rebasing a subtree.
\<close>

subsection \<open>The subtree order\<close>

lemma is_under_iff: "root \<noteq> [] \<Longrightarrow> is_under path root \<longleftrightarrow> path = root \<or> (\<exists>s. path = root @ 0x2F # s)"
proof -
  assume r: "root \<noteq> []"
  have "length path > length root \<and> starts_with path root \<and> path ! length root = 0x2F \<longleftrightarrow> (\<exists>s. path = root @ 0x2F # s)"
  proof
    assume a: "length path > length root \<and> starts_with path root \<and> path ! length root = 0x2F"
    then obtain t where t: "path = root @ t" by (auto simp: starts_with_iff)
    then obtain b s where "t = b # s" using a by (cases t) auto
    then show "\<exists>s. path = root @ 0x2F # s" using a t by auto
  qed (auto simp: starts_with_iff)
  then show ?thesis using r by (simp add: is_under_def)
qed

lemma is_under_root [simp]: "is_under path []"
  by (simp add: is_under_def)

lemma is_under_refl [simp]: "is_under p p"
  by (simp add: is_under_def)

lemma is_under_slash: "root \<noteq> [] \<Longrightarrow> is_under path root \<longleftrightarrow> path = root \<or> starts_with path (root @ [0x2F])"
  by (auto simp: is_under_iff starts_with_iff)

lemma is_under_prefix: "is_under a b \<Longrightarrow> prefix b a"
  by (cases "b = []") (auto simp: is_under_iff prefix_def)

lemma is_under_length: "is_under a b \<Longrightarrow> length b \<le> length a"
  using prefix_length_le[OF is_under_prefix] .

lemma is_under_trans: "is_under a b \<Longrightarrow> is_under b c \<Longrightarrow> is_under a c"
  by (cases "b = []"; cases "c = []") (auto simp: is_under_iff)

lemma is_under_antisym: "is_under a b \<Longrightarrow> is_under b a \<Longrightarrow> a = b"
  using is_under_prefix prefix_order.antisym by blast

lemma is_under_comparable: "is_under k a \<Longrightarrow> is_under k b \<Longrightarrow> is_under a b \<or> is_under b a"
proof -
  assume ka: "is_under k a" and kb: "is_under k b"
  have *: "is_under y x" if h: "is_under k x" "is_under k y" "prefix x y" "x \<noteq> y" for x y
  proof (cases "x = []")
    case False
    obtain z where z: "y = x @ z" "z \<noteq> []" using h(3,4) by (auto simp: prefix_def)
    have "prefix y k" using is_under_prefix[OF h(2)] .
    then have "k \<noteq> x" using z by (auto simp: prefix_def)
    then obtain s where "k = x @ 0x2F # s" using h(1) is_under_iff[OF False] by auto
    then have "hd z = 0x2F" using \<open>prefix y k\<close> z by (auto simp: prefix_def Cons_eq_append_conv)
    then have "y = x @ 0x2F # tl z" using z by (cases z) auto
    then show ?thesis using is_under_iff[OF False] by blast
  qed simp
  have "prefix a b \<or> prefix b a" using ka kb by (meson is_under_prefix prefix_same_cases)
  then show ?thesis using *[of a b] *[of b a] ka kb by (cases "a = b") auto
qed

subsection \<open>Trees\<close>

definition closed_tree :: "bytes set \<Rightarrow> bool" where
  "closed_tree D \<longleftrightarrow> (\<forall>k \<in> D. \<forall>p. parent_wire k = Some p \<longrightarrow> p \<in> D)"

definition path_ok :: "bytes \<Rightarrow> bool" where
  "path_ok p \<longleftrightarrow> p = [] \<or> last p \<noteq> 0x2F"

text \<open>An index of a tree: sorted, with every parent, and no path ends in a slash.\<close>

definition tree_ok :: "(bytes, 'v) btree_map \<Rightarrow> bool" where
  "tree_ok m \<longleftrightarrow> bt_inv m \<and> closed_tree (dom (bt_get m)) \<and> (\<forall>k \<in> dom (bt_get m). path_ok k)"

lemma parent_wire_under:
  assumes "r \<noteq> []"
  shows "\<exists>q. parent_wire (r @ 0x2F # s) = Some q \<and> is_under q r"
proof (cases "0x2F \<in> set s")
  case False
  have "dropWhile (\<lambda>b. b \<noteq> 0x2F) (rev s @ 0x2F # rev r) = 0x2F # rev r"
    using False by (subst dropWhile_append2) auto
  then show ?thesis by (simp add: parent_wire_def)
next
  case True
  then obtain u v where uv: "s = u @ 0x2F # v" "0x2F \<notin> set v" by (metis split_list_last)
  have "dropWhile (\<lambda>b. b \<noteq> 0x2F) (rev v @ 0x2F # rev u @ 0x2F # rev r) = 0x2F # rev u @ 0x2F # rev r"
    using uv(2) by (subst dropWhile_append2) auto
  then have "parent_wire (r @ 0x2F # s) = Some (r @ 0x2F # u)" by (simp add: parent_wire_def uv(1))
  then show ?thesis using assms by (auto simp: is_under_iff)
qed

lemma closed_tree_under: "closed_tree D \<Longrightarrow> k \<in> D \<Longrightarrow> is_under k r \<Longrightarrow> r \<in> D"
proof (induction k rule: length_induct)
  case (1 k)
  show ?case
  proof (cases "k = r")
    case True
    then show ?thesis using "1.prems" by simp
  next
    case False
    have "\<exists>q. parent_wire k = Some q \<and> is_under q r"
    proof (cases "r = []")
      case True
      then show ?thesis using False by (simp add: parent_wire_def)
    next
      case r: False
      then show ?thesis using "1.prems"(3) False parent_wire_under[OF r] by (auto simp: is_under_iff)
    qed
    then obtain q where q: "parent_wire k = Some q" "is_under q r" by blast
    then have "q \<in> D" using "1.prems"(1,2) by (simp add: closed_tree_def)
    then show ?thesis using "1.IH" parent_wire_shorter[OF q(1)] q(2) "1.prems"(1) by blast
  qed
qed

subsection \<open>Subtree ranges\<close>

lemma set_subtree_entries:
  assumes "bt_inv m"
  shows "set (subtree_entries m root) = {(k, v). bt_get m k = Some v \<and> is_under k root}"
proof -
  have d: "distinct (map fst m)" using assms by (simp add: bt_inv_def strict_sorted_iff)
  then have m: "(k, v) \<in> set m \<longleftrightarrow> bt_get m k = Some v" for k v by (simp add: bt_get_def)
  show ?thesis
  proof (cases "root = []")
    case True
    then show ?thesis using assms m by (auto simp: subtree_entries_def prefix_range_filter)
  next
    case False
    then show ?thesis using assms m
      by (auto simp: subtree_entries_def prefix_range_filter is_under_slash split: option.splits)
  qed
qed

lemma subtree_keys_facts:
  assumes "bt_inv m"
  shows "set (subtree_keys m root) = {k \<in> dom (bt_get m). is_under k root}" "distinct (subtree_keys m root)"
proof -
  have d: "distinct (map fst m)" using assms by (simp add: bt_inv_def strict_sorted_iff)
  then have m: "(k, v) \<in> set m \<longleftrightarrow> bt_get m k = Some v" for k v by (simp add: bt_get_def)
  show "set (subtree_keys m root) = {k \<in> dom (bt_get m). is_under k root}"
  proof (cases "root = []")
    case True
    then show ?thesis using bt.set_keys[OF assms] by (auto simp: subtree_keys_def)
  next
    case False
    then have "set (map fst (prefix_range (root @ [0x2F]) m)) = {k \<in> dom (bt_get m). starts_with k (root @ [0x2F])}"
      using assms m by (force simp: prefix_range_filter)
    then show ?thesis using False by (auto simp: subtree_keys_def is_under_slash)
  qed
  have "\<not> starts_with root (root @ [0x2F])" by (simp add: starts_with_def)
  then show "distinct (subtree_keys m root)"
    using d bt.distinct_keys[OF assms] assms
    by (auto simp: subtree_keys_def prefix_range_filter distinct_map_filter)
qed

lemma bt_get_remove_subtree:
  assumes "bt_inv m"
  shows "bt_inv (remove_subtree root m)" "bt_get (remove_subtree root m) k = (if is_under k root then None else bt_get m k)"
  using assms subtree_keys_facts(1)[OF assms, of root]
  by (auto simp: remove_subtree_def bt.inv_delete_all bt.lookup_delete_all)

subsection \<open>Rebasing\<close>

definition shift :: "bytes \<Rightarrow> bytes \<Rightarrow> bytes \<Rightarrow> bytes" where
  "shift src dst k = dst @ drop (length src) k"

lemma shift_under: "is_under k src \<Longrightarrow> src \<noteq> [] \<Longrightarrow> dst \<noteq> [] \<Longrightarrow> is_under (shift src dst k) dst"
  by (auto simp: shift_def is_under_iff)

lemma shift_back: "is_under k src \<Longrightarrow> src \<noteq> [] \<Longrightarrow> dst \<noteq> [] \<Longrightarrow> shift dst src (shift src dst k) = k"
  by (auto simp: shift_def is_under_iff)

lemma shift_path_ok: "is_under k src \<Longrightarrow> src \<noteq> [] \<Longrightarrow> path_ok k \<Longrightarrow> path_ok dst \<Longrightarrow> path_ok (shift src dst k)"
  by (auto simp: shift_def is_under_iff path_ok_def)

lemma rebase_shift:
  "is_under k src \<Longrightarrow> src \<noteq> [] \<Longrightarrow> dst \<noteq> [] \<Longrightarrow> path_ok k \<Longrightarrow> rebase_subtree_path k src dst = shift src dst k"
  by (auto simp: rebase_subtree_path_def shift_def is_under_iff path_ok_def)

lemma join_moved_shift:
  "is_under k src \<Longrightarrow> src \<noteq> [] \<Longrightarrow> dst \<noteq> [] \<Longrightarrow> path_ok k \<Longrightarrow> join_moved dst (subtree_suffix src k) = shift src dst k"
  by (auto simp: join_moved_def subtree_suffix_def shift_def is_under_iff path_ok_def)

text \<open>A move and a delete as operations on maps.\<close>

definition mv_map :: "bytes \<Rightarrow> bytes \<Rightarrow> (bytes \<Rightarrow> 'v option) \<Rightarrow> bytes \<Rightarrow> 'v option" where
  "mv_map src dst t k = (if is_under k dst \<and> t (shift dst src k) \<noteq> None then t (shift dst src k)
     else if is_under k src then None else t k)"

definition del_map :: "bytes \<Rightarrow> (bytes \<Rightarrow> 'v option) \<Rightarrow> bytes \<Rightarrow> 'v option" where
  "del_map p t k = (if is_under k p then None else t k)"

text \<open>Taking entries out under one path and putting them back under another.\<close>

lemma moved_entries:
  assumes "distinct ks" "set ks = {k \<in> dom t. is_under k src}" "src \<noteq> []" "dst \<noteq> []"
  shows "(\<lambda>k. if is_under k src then None else t k) ++ map_of (rev (map (\<lambda>k. (shift src dst k, the (t k))) ks)) = mv_map src dst t"
proof -
  have under: "k \<in> set ks \<Longrightarrow> is_under k src \<and> t k \<noteq> None" for k using assms(2) by auto
  let ?kvs = "map (\<lambda>k. (shift src dst k, the (t k))) ks"
  have inj: "inj_on (shift src dst) (set ks)"
    by (rule inj_on_inverseI[of _ "shift dst src"]) (use under shift_back assms(3,4) in blast)
  have dist: "distinct (map fst ?kvs)" using assms(1) inj by (simp add: distinct_map comp_def)
  have kv: "map_of ?kvs k = (if is_under k dst then t (shift dst src k) else None)" for k
  proof (cases "is_under k dst \<and> t (shift dst src k) \<noteq> None")
    case True
    let ?j = "shift dst src k"
    have j: "is_under ?j src" "shift src dst ?j = k" using True shift_under shift_back assms(3,4) by blast+
    then have "?j \<in> set ks" using True assms(2) by auto
    then have "(k, the (t ?j)) \<in> set ?kvs" using j(2) by force
    then show ?thesis using True dist by (simp add: map_of_is_SomeI)
  next
    case False
    have "k \<notin> fst ` set ?kvs"
    proof
      assume "k \<in> fst ` set ?kvs"
      then obtain j where j: "j \<in> set ks" "k = shift src dst j" by auto
      then have "is_under k dst" "shift dst src k = j" using under[OF j(1)] shift_under shift_back assms(3,4) by blast+
      then show False using False under[OF j(1)] by simp
    qed
    then show ?thesis using False by (auto simp: map_of_eq_None_iff)
  qed
  have "map_of (rev ?kvs) = map_of ?kvs" using dist by (subst map_of_inject_set) (simp_all add: rev_map[symmetric])
  then show ?thesis using kv by (auto simp: mv_map_def map_add_def fun_eq_iff split: option.split)
qed

lemma bt_get_move_subtree:
  assumes "bt_inv m" "src \<noteq> []" "dst \<noteq> []" "\<forall>k \<in> dom (bt_get m). path_ok k"
  shows "bt_inv (move_subtree src dst m)" "bt_get (move_subtree src dst m) = mv_map src dst (bt_get m)"
proof -
  let ?keys = "subtree_keys m src" and ?m = "fold bt_remove (subtree_keys m src) m"
  note keys = subtree_keys_facts[OF assms(1), of src]
  have under: "k \<in> set ?keys \<Longrightarrow> is_under k src \<and> path_ok k" for k
    using keys(1) assms(4) by auto
  have inv: "bt_inv ?m" by (rule bt.inv_delete_all[OF assms(1)])
  have get: "bt_get ?m = (\<lambda>k. if is_under k src then None else bt_get m k)"
    using bt.lookup_delete_all[OF assms(1)] keys(1) by (auto simp: fun_eq_iff)
  let ?kvs = "map (\<lambda>k. (shift src dst k, the (bt_get m k))) ?keys"
  have mv: "move_subtree src dst m = fold (\<lambda>(k, v). bt_insert k v) ?kvs ?m"
  proof -
    have "fold (\<lambda>(suffix, node). bt_insert (join_moved dst suffix) node)
        (map (\<lambda>key. (subtree_suffix src key, the (bt_get m key))) ks) x
      = fold (\<lambda>(k, v). bt_insert k v) (map (\<lambda>k. (shift src dst k, the (bt_get m k))) ks) x"
      if "set ks \<subseteq> set ?keys" for ks and x :: "(bytes, 'a) btree_map"
      using that
    proof (induction ks arbitrary: x)
      case (Cons k ks)
      then show ?case using under[of k] join_moved_shift[of k src dst] assms(2,3) by simp
    qed simp
    then show ?thesis by (simp add: move_subtree_def take_subtree_def Let_def)
  qed
  show "bt_inv (move_subtree src dst m)" unfolding mv by (rule bt.inv_insert_all[OF inv])
  show "bt_get (move_subtree src dst m) = mv_map src dst (bt_get m)"
    using bt.lookup_insert_all[OF inv, of ?kvs] moved_entries[OF keys(2,1) assms(2,3)] by (simp add: mv get)
qed

end
