(* ===== verification/Sync_Join.thy ===== *)
theory Sync_Join
  imports Sync_Paths
begin

text \<open>
  The classification of the paths of two indexes and the move join: \<open>cover_sorted\<close> marks exactly a
  subtree, and the moves have sources and targets that do not cover one another from later to earlier.
\<close>

subsection \<open>Classification\<close>

lemma visible_eq_sym: "visible_eq a b \<longleftrightarrow> visible_eq b a"
  by (auto simp: visible_eq_def)

text \<open>What a classification has to say.\<close>

definition classified :: "index \<Rightarrow> index \<Rightarrow> bytes list \<times> bytes list \<times> (bytes \<times> bool) list \<Rightarrow> bool" where
  "classified prev cur cls \<longleftrightarrow> (case cls of (removed, added, changed) \<Rightarrow>
     sorted_wrt (<) removed \<and> sorted_wrt (<) added
     \<and> set removed = {k. bt_get prev k \<noteq> None \<and> bt_get cur k = None}
     \<and> set added = {k. bt_get prev k = None \<and> bt_get cur k \<noteq> None}
     \<and> set changed = {(k, c). \<exists>pv cv. bt_get prev k = Some pv \<and> bt_get cur k = Some cv \<and> \<not> visible_eq cv pv
         \<and> c = content_changed cv pv})"

lemma bt_get_Cons: "bt_get ((k, v) # m) j = (if j = k then Some v else bt_get m j)"
  by (simp add: bt_get_def)

lemma bt_get_Nil [simp]: "bt_get [] j = None"
  by (simp add: bt_get_def)

lemma bt_get_below: "bt_inv m \<Longrightarrow> \<forall>k' \<in> fst ` set m. k < k' \<Longrightarrow> bt_get m k = None"
  by (simp add: bt_get_def bt_map_of_fresh)

lemma classified_classify: "bt_inv prev \<Longrightarrow> bt_inv cur \<Longrightarrow> classified prev cur (classify prev cur)"
proof (induction prev cur rule: classify.induct)
  case (1 pk pv p ck cv c)
  obtain R A Ch where x: "classify p c = (R, A, Ch)" by (cases "classify p c")
  obtain R1 A1 Ch1 where x1: "classify p ((ck, cv) # c) = (R1, A1, Ch1)" by (cases "classify p ((ck, cv) # c)")
  obtain R2 A2 Ch2 where x2: "classify ((pk, pv) # p) c = (R2, A2, Ch2)" by (cases "classify ((pk, pv) # p) c")
  have inv: "bt_inv p" "bt_inv c" "\<forall>k' \<in> fst ` set p. pk < k'" "\<forall>k' \<in> fst ` set c. ck < k'" using "1.prems" by simp_all
  have gp: "k \<le> pk \<Longrightarrow> bt_get p k = None" for k using inv(1,3) by (intro bt_get_below) auto
  have gc: "k \<le> ck \<Longrightarrow> bt_get c k = None" for k using inv(2,4) by (intro bt_get_below) auto
  consider "pk = ck" | "pk \<noteq> ck" "pk < ck" | "pk \<noteq> ck" "\<not> pk < ck" by blast
  then show ?case
  proof cases
    case 1
    have "classified p c (R, A, Ch)" using "1.IH"(1)[OF 1 inv(1,2)] x by simp
    then show ?thesis using 1 x gp[of ck] gc[of ck]
      by (auto simp: classified_def bt_get_Cons split: if_splits)
  next
    case 2
    have ih: "classified p ((ck, cv) # c) (R1, A1, Ch1)" using "1.IH"(2)[OF 2] "1.prems" x1 by simp
    have less: "pk < k" if "k \<in> set R1" for k
    proof -
      have "bt_get p k \<noteq> None" using ih that by (auto simp: classified_def)
      then show ?thesis using gp[of k] by (meson not_le)
    qed
    moreover have "bt_get c pk = None" using gc[of pk] 2 by simp
    ultimately show ?thesis using ih 2 x1 gp[of pk]
      by (auto simp: classified_def bt_get_Cons split: if_splits)
  next
    case 3
    have ih: "classified ((pk, pv) # p) c (R2, A2, Ch2)" using "1.IH"(3)[OF 3] "1.prems" x2 by simp
    have ck: "ck < pk" using 3 by simp
    have less: "ck < k" if "k \<in> set A2" for k
    proof -
      have "bt_get c k \<noteq> None" using ih that by (auto simp: classified_def)
      then show ?thesis using gc[of k] by (meson not_le)
    qed
    moreover have "bt_get p ck = None" using gp[of ck] ck by simp
    ultimately show ?thesis using ih 3 x2 gc[of ck] ck
      by (auto simp: classified_def bt_get_Cons split: if_splits)
  qed
next
  case (2 pk pv p)
  obtain R A Ch where x: "classify p [] = (R, A, Ch)" by (cases "classify p []")
  have ih: "classified p [] (R, A, Ch)" using 2 x by simp
  have less: "pk < k" if "k \<in> set R" for k
    using ih that 2 bt_get_below[of p k] by (fastforce simp: classified_def bt_get_def dest: map_of_SomeD)
  show ?case using ih less x bt_get_below[of p pk] 2 by (auto simp: classified_def bt_get_Cons split: if_splits)
next
  case (3 ck cv c)
  obtain R A Ch where x: "classify [] c = (R, A, Ch)" by (cases "classify [] c")
  have ih: "classified [] c (R, A, Ch)" using 3 x by simp
  have less: "ck < k" if "k \<in> set A" for k
    using ih that 3 bt_get_below[of c k] by (fastforce simp: classified_def bt_get_def dest: map_of_SomeD)
  show ?case using ih less x bt_get_below[of c ck] 3 by (auto simp: classified_def bt_get_Cons split: if_splits)
qed (simp add: classified_def)

lemma classified_keys:
  assumes "sorted_wrt (<) keys" "\<And>k. \<not> rel_option visible_eq (bt_get cur k) (bt_get prev k) \<Longrightarrow> k \<in> set keys"
  shows "classified prev cur (classify_keys prev cur keys)"
proof -
  have "\<exists>R A Ch. classify_keys prev cur ks = (R, A, Ch) \<and> sorted_wrt (<) R \<and> sorted_wrt (<) A
     \<and> set R = {k \<in> set ks. bt_get prev k \<noteq> None \<and> bt_get cur k = None}
     \<and> set A = {k \<in> set ks. bt_get prev k = None \<and> bt_get cur k \<noteq> None}
     \<and> set Ch = {(k, c). k \<in> set ks \<and> (\<exists>pv cv. bt_get prev k = Some pv \<and> bt_get cur k = Some cv \<and> \<not> visible_eq cv pv
         \<and> c = content_changed cv pv)}" if "sorted_wrt (<) ks" for ks
    using that
  proof (induction ks)
    case (Cons k ks)
    then obtain R A Ch where x: "classify_keys prev cur ks = (R, A, Ch)" "sorted_wrt (<) R" "sorted_wrt (<) A"
     "set R = {k \<in> set ks. bt_get prev k \<noteq> None \<and> bt_get cur k = None}"
     "set A = {k \<in> set ks. bt_get prev k = None \<and> bt_get cur k \<noteq> None}"
     "set Ch = {(k, c). k \<in> set ks \<and> (\<exists>pv cv. bt_get prev k = Some pv \<and> bt_get cur k = Some cv \<and> \<not> visible_eq cv pv
         \<and> c = content_changed cv pv)}" by auto
    then show ?case using Cons.prems
      by (cases "bt_get prev k"; cases "bt_get cur k") auto
  qed simp
  from this[OF assms(1)] obtain R A Ch where x: "classify_keys prev cur keys = (R, A, Ch)" "sorted_wrt (<) R" "sorted_wrt (<) A"
     "set R = {k \<in> set keys. bt_get prev k \<noteq> None \<and> bt_get cur k = None}"
     "set A = {k \<in> set keys. bt_get prev k = None \<and> bt_get cur k \<noteq> None}"
     "set Ch = {(k, c). k \<in> set keys \<and> (\<exists>pv cv. bt_get prev k = Some pv \<and> bt_get cur k = Some cv \<and> \<not> visible_eq cv pv
         \<and> c = content_changed cv pv)}" by blast
  have "k \<in> set keys" if "(bt_get prev k = None) \<noteq> (bt_get cur k = None)" for k
    using assms(2)[of k] that by (cases "bt_get prev k"; cases "bt_get cur k") auto
  moreover have "k \<in> set keys" if "bt_get prev k = Some pv" "bt_get cur k = Some cv" "\<not> visible_eq cv pv" for k pv cv
    using assms(2)[of k] that by simp
  ultimately show ?thesis using x by (auto simp: classified_def)
qed

subsection \<open>Covering a subtree\<close>

lemma nth_mark: "length cs = n \<Longrightarrow> i < n \<Longrightarrow> start + m \<le> n \<Longrightarrow>
    (take start cs @ replicate m True @ drop (start + m) cs) ! i = (if start \<le> i \<and> i < start + m then True else cs ! i)"
  by (auto simp: nth_append not_less)

lemma takeWhile_less_sorted:
  assumes "sorted_wrt (<) (xs :: bytes list)" "i < length xs"
  shows "i < length (takeWhile (\<lambda>p. p < q) xs) \<longleftrightarrow> xs ! i < q"
proof
  assume "i < length (takeWhile (\<lambda>p. p < q) xs)"
  then show "xs ! i < q" using set_takeWhileD[OF nth_mem] takeWhile_nth by metis
next
  assume a: "xs ! i < q"
  show "i < length (takeWhile (\<lambda>p. p < q) xs)"
  proof (rule ccontr)
    let ?n = "length (takeWhile (\<lambda>p. p < q) xs)"
    assume "\<not> i < ?n"
    then have "?n < length xs" "\<not> xs ! ?n < q" using assms(2) nth_length_takeWhile[of "\<lambda>p. p < q" xs] by auto
    moreover have "xs ! ?n \<le> xs ! i"
      using \<open>\<not> i < ?n\<close> assms sorted_wrt_nth_less[OF assms(1)] by (cases "?n = i") (auto intro: less_imp_le)
    ultimately show False using a by auto
  qed
qed

lemma prefix_run:
  fixes q :: bytes
  assumes "sorted_wrt (<) xs" "i < length xs"
  defines "start \<equiv> partition_point (\<lambda>p. p < q) xs"
  defines "n \<equiv> length (takeWhile (\<lambda>p. starts_with p q) (drop start xs))"
  shows "start \<le> i \<and> i < start + n \<longleftrightarrow> starts_with (xs ! i) q"
proof
  assume a: "start \<le> i \<and> i < start + n"
  then have "i - start < n" by arith
  then have "takeWhile (\<lambda>p. starts_with p q) (drop start xs) ! (i - start) = xs ! i"
    using a assms(2) by (simp add: n_def takeWhile_nth)
  then show "starts_with (xs ! i) q"
    using \<open>i - start < n\<close> set_takeWhileD[OF nth_mem] unfolding n_def by metis
next
  assume a: "starts_with (xs ! i) q"
  have "\<not> xs ! i < q" using starts_with_le[OF a] by auto
  then have s: "start \<le> i" using takeWhile_less_sorted[OF assms(1,2), of q] by (metis not_less partition_point_def start_def)
  have "i < start + n"
  proof (rule ccontr)
    assume "\<not> i < start + n"
    then have m: "start + n \<le> i" by simp
    then have "n < length (drop start xs)" using assms(2) by simp
    then have "\<not> starts_with (drop start xs ! n) q" using nth_length_takeWhile[of "\<lambda>p. starts_with p q" "drop start xs"] n_def by simp
    then have no: "\<not> starts_with (xs ! (start + n)) q" using m assms(2) by simp
    have "xs ! (start + n) \<le> xs ! i"
      using m assms(2) sorted_wrt_nth_less[OF assms(1)] by (cases "start + n = i") (auto intro: less_imp_le)
    moreover have "q \<le> xs ! (start + n)"
      using takeWhile_less_sorted[OF assms(1), of "start + n" q] m assms(2) by (simp add: start_def partition_point_def not_less)
    ultimately show False using starts_with_between a no by blast
  qed
  then show "start \<le> i \<and> i < start + n" using s by simp
qed

lemma cover_sorted_facts:
  assumes "sorted_wrt (<) paths" "length covered = length paths" "root \<noteq> []"
  shows "length (cover_sorted paths root covered) = length paths"
    and "i < length paths \<Longrightarrow> cover_sorted paths root covered ! i \<longleftrightarrow> covered ! i \<or> is_under (paths ! i) root"
proof -
  define cs where "cs = (case binary_search paths root of Some i \<Rightarrow> covered[i := True] | None \<Rightarrow> covered)"
  define start where "start = partition_point (\<lambda>p. p < root @ [0x2F]) paths"
  define n where "n = length (takeWhile (\<lambda>p. starts_with p (root @ [0x2F])) (drop start paths))"
  have cov: "cover_sorted paths root covered = take start cs @ replicate n True @ drop (start + n) cs"
    by (simp add: cover_sorted_def cs_def start_def n_def Let_def)
  have len: "length cs = length paths" using assms(2) by (simp add: cs_def split: option.split)
  have "start \<le> length paths" by (simp add: start_def partition_point_def length_takeWhile_le)
  moreover have "n \<le> length (drop start paths)" unfolding n_def by (rule length_takeWhile_le)
  ultimately have sn: "start + n \<le> length paths" by simp
  then show "length (cover_sorted paths root covered) = length paths" using len by (simp add: cov)
  have cs: "cs ! i \<longleftrightarrow> covered ! i \<or> paths ! i = root" if i: "i < length paths" for i
  proof (cases "root \<in> set paths")
    case True
    let ?k = "length (takeWhile (\<lambda>q. q \<noteq> root) paths)"
    have k: "?k < length paths" "paths ! ?k = root"
    proof -
      obtain us vs where p: "paths = us @ root # vs" "root \<notin> set us" using True by (metis split_list_first)
      then have "takeWhile (\<lambda>q. q \<noteq> root) paths = us" by (auto simp: takeWhile_append)
      then show "?k < length paths" "paths ! ?k = root" using p(1) by simp_all
    qed
    have "paths ! i = root \<longleftrightarrow> i = ?k"
      using k i assms(1) by (metis nth_eq_iff_index_eq strict_sorted_iff)
    then show ?thesis using True k assms(2) i by (auto simp: cs_def binary_search_def nth_list_update)
  next
    case False
    then show ?thesis using i by (auto simp: cs_def binary_search_def)
  qed
  show "i < length paths \<Longrightarrow> cover_sorted paths root covered ! i \<longleftrightarrow> covered ! i \<or> is_under (paths ! i) root"
    using prefix_run[OF assms(1), of i "root @ [0x2F]"] nth_mark[OF len _ sn, of i] cs[of i]
    by (auto simp: cov is_under_slash[OF assms(3)] simp flip: start_def n_def)
qed

subsection \<open>The moves\<close>

lemma identity_map_index:
  "hm_get (identity_map prev removed) d = Some i \<Longrightarrow> i < length removed"
proof -
  define f where "f = (\<lambda>i by_identity. let meta = the (bt_get prev (removed ! i)) in
     if nm_dev_ino meta \<noteq> (0, 0) then hm_insert (nm_dev_ino meta) i by_identity else by_identity)"
  have step: "hm_inv (f i m) \<and> (\<forall>d j. hm_get (f i m) d = Some j \<longrightarrow> j < n)"
    if "hm_inv m" "\<forall>d j. hm_get m d = Some j \<longrightarrow> j < n" "i < n" for i n and m :: "(u64 \<times> u64, nat) hash_map"
    using that unfolding f_def Let_def by (auto simp: hm.inv_insert hm.lookup_insert simp del: split_paired_All)
  have "\<forall>i \<in> set is. i < n \<Longrightarrow> hm_inv m \<Longrightarrow> \<forall>d i. hm_get m d = Some i \<longrightarrow> i < n
    \<Longrightarrow> \<forall>d i. hm_get (fold f is m) d = Some i \<longrightarrow> i < n" for "is" n and m :: "(u64 \<times> u64, nat) hash_map"
  proof (induction "is" arbitrary: m)
    case (Cons i "is")
    have i: "i < n" "\<forall>i \<in> set is. i < n" using Cons.prems(1) by simp_all
    note s = step[OF Cons.prems(2,3) i(1)]
    have "\<forall>d j. hm_get (fold f is (f i m)) d = Some j \<longrightarrow> j < n"
      by (rule Cons.IH[OF i(2)]) (use s in blast)+
    then show ?case by (simp only: fold_simps)
  qed (simp only: fold_simps)
  from this[of "[0..<length removed]" "length removed" "[]"]
  show "hm_get (identity_map prev removed) d = Some i \<Longrightarrow> i < length removed"
    by (simp add: identity_map_def f_def[symmetric] del: split_paired_All)
qed

text \<open>The state of the join: every move goes from a removed path to an added one, and what is covered is under a move.\<close>

definition join_ok :: "index \<Rightarrow> index \<Rightarrow> bytes list \<Rightarrow> bytes list \<Rightarrow> join_state \<Rightarrow> bool" where
  "join_ok prev cur removed added st \<longleftrightarrow> (case st of (moves, rc, ac) \<Rightarrow>
     length rc = length removed \<and> length ac = length added
     \<and> (\<forall>i < length removed. rc ! i \<longleftrightarrow> (\<exists>m \<in> set moves. is_under (removed ! i) (fst m)))
     \<and> (\<forall>i < length added. ac ! i \<longleftrightarrow> (\<exists>m \<in> set moves. is_under (added ! i) (snd m)))
     \<and> (\<forall>m \<in> set moves. fst m \<in> set removed \<and> snd m \<in> set added
         \<and> same_identity (the (bt_get prev (fst m))) (the (bt_get cur (snd m))))
     \<and> sorted_wrt (\<lambda>m m'. \<not> is_under (fst m') (fst m) \<and> \<not> is_under (snd m') (snd m) \<and> length (snd m) \<le> length (snd m')) moves)"

lemma join_step_ok:
  assumes "sorted_wrt (<) removed" "sorted_wrt (<) added" "[] \<notin> set removed" "[] \<notin> set added"
    and "join_ok prev cur removed added st" "i < length added"
    and "\<forall>m \<in> set (fst st). length (snd m) \<le> length (added ! i)"
  shows "join_ok prev cur removed added (join_step prev cur removed added i st)
    \<and> (\<forall>m \<in> set (fst (join_step prev cur removed added i st)). length (snd m) \<le> length (added ! i))"
proof (cases "join_step prev cur removed added i st = st")
  case True
  then show ?thesis using assms(5,7) by simp
next
  case False
  obtain moves rc ac where st: "st = (moves, rc, ac)" by (cases st)
  obtain ri where ri: "hm_get (identity_map prev removed) (nm_dev_ino (the (bt_get cur (added ! i)))) = Some ri"
    "\<not> rc ! ri" "\<not> ac ! i" "same_identity (the (bt_get prev (removed ! ri))) (the (bt_get cur (added ! i)))"
    and new: "join_step prev cur removed added i st = (moves @ [(removed ! ri, added ! i)],
      cover_sorted removed (removed ! ri) rc, cover_sorted added (added ! i) ac)"
    using False by (auto simp: join_step_def st Let_def split: if_splits option.splits)
  have r: "ri < length removed" using identity_map_index[OF ri(1)] .
  have ne: "removed ! ri \<noteq> []" "added ! i \<noteq> []" using assms(3,4,6) r by (metis nth_mem)+
  have ok: "length rc = length removed" "length ac = length added"
    "\<And>i. i < length removed \<Longrightarrow> rc ! i \<longleftrightarrow> (\<exists>m \<in> set moves. is_under (removed ! i) (fst m))"
    "\<And>i. i < length added \<Longrightarrow> ac ! i \<longleftrightarrow> (\<exists>m \<in> set moves. is_under (added ! i) (snd m))"
    "\<And>m. m \<in> set moves \<Longrightarrow> fst m \<in> set removed \<and> snd m \<in> set added
       \<and> same_identity (the (bt_get prev (fst m))) (the (bt_get cur (snd m)))"
    "sorted_wrt (\<lambda>m m'. \<not> is_under (fst m') (fst m) \<and> \<not> is_under (snd m') (snd m) \<and> length (snd m) \<le> length (snd m')) moves"
    using assms(5) by (auto simp: join_ok_def st)
  note c1 = cover_sorted_facts[OF assms(1) ok(1) ne(1)] and c2 = cover_sorted_facts[OF assms(2) ok(2) ne(2)]
  have free: "\<not> is_under (removed ! ri) (fst m) \<and> \<not> is_under (added ! i) (snd m)" if "m \<in> set moves" for m
    using ri(2,3) ok(3)[OF r] ok(4)[OF assms(6)] that by blast
  have "join_ok prev cur removed added (join_step prev cur removed added i st)"
    unfolding new join_ok_def using c1 c2 ok(3-6) r assms(6,7) ri(4) free
    by (auto simp: sorted_wrt_append st)
  moreover have "set (fst (join_step prev cur removed added i st)) = insert (removed ! ri, added ! i) (set moves)" by (simp add: new)
  ultimately show ?thesis using assms(7) by (simp add: st)
qed

lemma move_join_ok:
  assumes "sorted_wrt (<) removed" "sorted_wrt (<) added" "[] \<notin> set removed" "[] \<notin> set added"
  shows "join_ok prev cur removed added (move_join prev cur removed added)"
proof -
  define order where "order = sort_key (\<lambda>i. length (added ! i)) [0..<length added]"
  have "join_ok prev cur removed added st \<Longrightarrow> \<forall>i \<in> set is. i < length added
    \<Longrightarrow> sorted (map (\<lambda>i. length (added ! i)) is) \<Longrightarrow> \<forall>m \<in> set (fst st). \<forall>i \<in> set is. length (snd m) \<le> length (added ! i)
    \<Longrightarrow> join_ok prev cur removed added (fold (join_step prev cur removed added) is st)" for "is" st
  proof (induction "is" arbitrary: st)
    case (Cons i "is")
    let ?st = "join_step prev cur removed added i st"
    have "join_ok prev cur removed added ?st \<and> (\<forall>m \<in> set (fst ?st). length (snd m) \<le> length (added ! i))"
      using join_step_ok[OF assms Cons.prems(1)] Cons.prems(2,4) by simp
    moreover from this have "\<forall>m \<in> set (fst ?st). \<forall>j \<in> set is. length (snd m) \<le> length (added ! j)"
      using Cons.prems(3) by fastforce
    ultimately show ?case using Cons.IH[of ?st] Cons.prems(2,3) by simp
  qed simp
  from this[of "([], replicate (length removed) False, replicate (length added) False)" order]
  show ?thesis by (simp add: move_join_def join_ok_def order_def[symmetric] sorted_sort_key) (simp add: order_def)
qed

end
