(* ===== verification/Sync_Tree.thy ===== *)
theory Sync_Tree
  imports Sync_Join
begin

text \<open>
  What the operations of a difference do to the tree a client shows, and that they turn the old tree
  into the new one when no move takes its source from under another.
\<close>

subsection \<open>Trees and operations\<close>

text \<open>Metadata as a client can see it: everything but the hash.\<close>

definition visible :: "node_meta \<Rightarrow> node_meta" where
  "visible m = m\<lparr>nm_hash := 0\<rparr>"

lemma visible_eq_iff: "visible_eq a b \<longleftrightarrow> visible a = visible b"
  by (cases a; cases b) (auto simp: visible_eq_def visible_def)

definition shown_tree :: "index \<Rightarrow> bytes \<Rightarrow> node_meta option" where
  "shown_tree idx p = map_option visible (bt_get idx p)"

fun tree_op :: "(bytes \<Rightarrow> 'v option) \<Rightarrow> diff_op \<Rightarrow> (bytes \<Rightarrow> 'v option) \<Rightarrow> bytes \<Rightarrow> 'v option" where
  "tree_op c (DUpsert p _) t = t(p := c p)"
| "tree_op c (DDelete p) t = del_map p t"
| "tree_op c (DMove src dst) t = mv_map src dst t"

definition op_moves :: "diff_op list \<Rightarrow> (bytes \<times> bytes) list" where
  "op_moves ops = List.map_filter (\<lambda>op. case op of DMove src dst \<Rightarrow> Some (src, dst) | _ \<Rightarrow> None) ops"

text \<open>No source of a move lies under the source of another.\<close>

definition moves_apart :: "(bytes \<times> bytes) list \<Rightarrow> bool" where
  "moves_apart moves \<longleftrightarrow> (\<forall>m \<in> set moves. \<forall>m' \<in> set moves. m \<noteq> m' \<longrightarrow> \<not> is_under (fst m) (fst m'))"

subsection \<open>Runs of one kind of operation\<close>

lemma fold_deletes: "fold (tree_op c) (map DDelete ps) t k = (if \<exists>p \<in> set ps. is_under k p then None else t k)"
  by (induction ps arbitrary: t) (auto simp: del_map_def)

lemma fold_upserts: "fold (tree_op c) (map (\<lambda>(p, b). DUpsert p b) ps) t k = (if k \<in> fst ` set ps then c k else t k)"
  by (induction ps arbitrary: t) auto

text \<open>The moves of a difference, from a tree \<open>P\<close> to a tree \<open>C\<close>.\<close>

definition moves_between :: "bytes set \<Rightarrow> bytes set \<Rightarrow> (bytes \<times> bytes) list \<Rightarrow> bool" where
  "moves_between P C moves \<longleftrightarrow> closed_tree P \<and> closed_tree C
     \<and> (\<forall>(src, dst) \<in> set moves. src \<in> P - C \<and> dst \<in> C - P \<and> src \<noteq> [] \<and> dst \<noteq> [])
     \<and> sorted_wrt (\<lambda>m m'. \<not> is_under (fst m') (fst m) \<and> \<not> is_under (fst m) (fst m')
         \<and> \<not> is_under (snd m') (snd m) \<and> \<not> is_under (snd m) (snd m')) moves"

definition moved_to :: "(bytes \<Rightarrow> 'v option) \<Rightarrow> (bytes \<times> bytes) list \<Rightarrow> bytes \<Rightarrow> 'v \<Rightarrow> bool" where
  "moved_to t moves k v \<longleftrightarrow> (\<exists>(src, dst) \<in> set moves. is_under k dst \<and> t (shift dst src k) = Some v)"

lemma moves_betweenD:
  assumes "moves_between P C moves" "(f, d) \<in> set moves"
  shows "f \<in> P" "f \<notin> C" "d \<in> C" "d \<notin> P" "f \<noteq> []" "d \<noteq> []" "closed_tree P" "closed_tree C"
  using assms by (auto simp: moves_between_def)

lemma source_target_apart:
  assumes "moves_between P C moves" "(f, d) \<in> set moves" "(f', d') \<in> set moves"
  shows "\<not> (is_under k f \<and> is_under k d')"
proof
  assume "is_under k f \<and> is_under k d'"
  then have "is_under f d' \<or> is_under d' f" using is_under_comparable by blast
  then show False
    using closed_tree_under[of P f d'] closed_tree_under[of C d' f] moves_betweenD[OF assms(1,2)] moves_betweenD[OF assms(1,3)]
    by blast
qed

lemma fold_moves:
  assumes "moves_between (dom t) C moves"
  shows "fold (tree_op c) (map (\<lambda>(src, dst). DMove src dst) moves) t k = Some v
    \<longleftrightarrow> moved_to t moves k v \<or> t k = Some v \<and> (\<forall>(src, dst) \<in> set moves. \<not> is_under k src)"
  using assms
proof (induction moves arbitrary: k v rule: rev_induct)
  case Nil
  then show ?case by (simp add: moved_to_def)
next
  case (snoc m moves)
  obtain f d where m: "m = (f, d)" by (cases m)
  let ?T = "fold (tree_op c) (map (\<lambda>(src, dst). DMove src dst) moves) t"
  note ms = snoc.prems
  have prev: "moves_between (dom t) C moves" using ms by (auto simp: moves_between_def sorted_wrt_append)
  note IH = snoc.IH[OF prev]
  have fd: "(f, d) \<in> set (moves @ [m])" by (simp add: m)
  note D = moves_betweenD[OF ms fd]
  have apart: "\<not> is_under f f'" "\<not> is_under f' f" "\<not> is_under d d'" "\<not> is_under d' d" if "(f', d') \<in> set moves" for f' d'
    using ms that by (force simp: moves_between_def sorted_wrt_append m)+
  let ?j = "shift d f k"
  have j: "?T ?j = t ?j" if kd: "is_under k d"
  proof -
    have jf: "is_under ?j f" using shift_under[OF kd D(6,5)] .
    have "?T ?j = Some w \<longleftrightarrow> t ?j = Some w" for w
    proof -
      have "\<not> moved_to t moves ?j w"
        using source_target_apart[OF ms fd] jf by (fastforce simp: moved_to_def)
      moreover have "\<forall>(src, dst) \<in> set moves. \<not> is_under ?j src"
        using apart(1,2) is_under_comparable[OF jf] by blast
      ultimately show ?thesis using IH[of ?j w] by simp
    qed
    then show ?thesis by (metis not_Some_eq)
  qed
  have T: "fold (tree_op c) (map (\<lambda>(src, dst). DMove src dst) (moves @ [m])) t k = mv_map f d ?T k" by (simp add: m)
  have fresh: "t k = None" if "is_under k d"
    using closed_tree_under[OF D(7) _ that] D(4) by (metis domIff)
  have old: "\<not> moved_to t moves k v" if "is_under k d \<or> is_under k f"
    using that source_target_apart[OF ms fd] apart(3,4) is_under_comparable[of k d]
    by (fastforce simp: moved_to_def)
  have snoc_moved: "moved_to t (moves @ [m]) k v \<longleftrightarrow> moved_to t moves k v \<or> is_under k d \<and> t ?j = Some v"
    by (auto simp: moved_to_def m)
  show ?case
  proof (cases "is_under k d \<and> t ?j \<noteq> None")
    case True
    then show ?thesis unfolding T using j old fresh by (auto simp: mv_map_def snoc_moved)
  next
    case False
    then have "\<not> (is_under k d \<and> t ?j = Some v)" by auto
    then have "moved_to t (moves @ [m]) k v \<longleftrightarrow> moved_to t moves k v" using snoc_moved by blast
    moreover have "mv_map f d ?T k = (if is_under k f then None else ?T k)" using False j by (auto simp: mv_map_def)
    ultimately show ?thesis unfolding T using IH[of k v] old by (auto simp: m)
  qed
qed

subsection \<open>The fix-ups of the moves\<close>

text \<open>\<open>P\<close> and \<open>C\<close> are the trees before and after, as they are shown.\<close>

lemma fixups_of_move:
  fixes prev cur :: index
  assumes "tree_ok prev" "tree_ok cur" "src \<noteq> []" "dst \<noteq> []" "path_ok src" "path_ok dst"
    and T: "\<And>k. is_under k dst \<Longrightarrow> T k = shown_tree prev (shift dst src k)"
  shows "fold (tree_op (shown_tree cur)) (move_fixups prev cur (src, dst)) T k
    = (if is_under k dst then shown_tree cur k else T k)"
proof -
  have inv: "bt_inv prev" "bt_inv cur" and closed: "closed_tree (dom (bt_get cur))"
    and ok: "\<And>k v. bt_get prev k = Some v \<Longrightarrow> path_ok k" "\<And>k v. bt_get cur k = Some v \<Longrightarrow> path_ok k"
    using assms(1,2) by (auto simp: tree_ok_def)
  let ?del = "\<lambda>(path, _ :: node_meta). let new_path = rebase_subtree_path path src dst in
      if bt_get cur new_path = None then [DDelete new_path] else []"
  let ?ups = "\<lambda>(path, new). case bt_get prev (rebase_subtree_path path dst src) of
      Some old \<Rightarrow> if visible_eq new old then [] else [DUpsert path (content_changed new old)] | None \<Rightarrow> [DUpsert path True]"
  define dels where "dels = map (\<lambda>(path, _). rebase_subtree_path path src dst)
    (filter (\<lambda>(path, _). bt_get cur (rebase_subtree_path path src dst) = None) (subtree_entries prev src))"
  define ups where "ups = concat (map (\<lambda>(path, new). case bt_get prev (rebase_subtree_path path dst src) of
      Some old \<Rightarrow> if visible_eq new old then [] else [(path, content_changed new old)] | None \<Rightarrow> [(path, True)])
    (subtree_entries cur dst))"
  have "concat (map ?del xs) = map DDelete (map (\<lambda>(path, _). rebase_subtree_path path src dst)
      (filter (\<lambda>(path, _). bt_get cur (rebase_subtree_path path src dst) = None) xs))" for xs
    by (induction xs) (auto simp: Let_def)
  moreover have "concat (map ?ups xs) = map (\<lambda>(p, b). DUpsert p b) (concat (map (\<lambda>(path, new).
      case bt_get prev (rebase_subtree_path path dst src) of
        Some old \<Rightarrow> if visible_eq new old then [] else [(path, content_changed new old)] | None \<Rightarrow> [(path, True)]) xs))" for xs
    by (induction xs) (auto split: option.split)
  ultimately have fx: "move_fixups prev cur (src, dst) = map DDelete dels @ map (\<lambda>(p, b). DUpsert p b) ups"
    by (simp add: move_fixups_def dels_def ups_def)
  have del: "q \<in> set dels \<longleftrightarrow> is_under q dst \<and> bt_get prev (shift dst src q) \<noteq> None \<and> bt_get cur q = None" for q
  proof
    assume "q \<in> set dels"
    then obtain p v where p: "bt_get prev p = Some v" "is_under p src" "q = rebase_subtree_path p src dst" "bt_get cur q = None"
      by (auto simp: dels_def set_subtree_entries[OF inv(1)])
    then have q: "q = shift src dst p" using rebase_shift[OF p(2) assms(3,4) ok(1)[OF p(1)]] by simp
    then show "is_under q dst \<and> bt_get prev (shift dst src q) \<noteq> None \<and> bt_get cur q = None"
      using p shift_under[OF p(2) assms(3,4)] shift_back[OF p(2) assms(3,4)] by simp
  next
    assume a: "is_under q dst \<and> bt_get prev (shift dst src q) \<noteq> None \<and> bt_get cur q = None"
    then obtain v where v: "bt_get prev (shift dst src q) = Some v" by blast
    have u: "is_under (shift dst src q) src" using a shift_under assms(3,4) by blast
    have "rebase_subtree_path (shift dst src q) src dst = q"
      using rebase_shift[OF u assms(3,4) ok(1)[OF v]] shift_back assms(3,4) a by metis
    then show "q \<in> set dels" using a v u by (force simp: dels_def set_subtree_entries[OF inv(1)])
  qed
  have up: "k \<in> fst ` set ups \<longleftrightarrow> is_under k dst \<and> bt_get cur k \<noteq> None
      \<and> shown_tree cur k \<noteq> shown_tree prev (shift dst src k)"
  proof -
    have "k \<in> fst ` set ups \<longleftrightarrow> (\<exists>new. bt_get cur k = Some new \<and> is_under k dst
        \<and> (case bt_get prev (rebase_subtree_path k dst src) of Some old \<Rightarrow> \<not> visible_eq new old | None \<Rightarrow> True))"
    proof -
      have "k \<in> fst ` set (concat (map (\<lambda>(path, new). case bt_get prev (rebase_subtree_path path dst src) of
            Some old \<Rightarrow> if visible_eq new old then [] else [(path, content_changed new old)] | None \<Rightarrow> [(path, True)]) xs))
          \<longleftrightarrow> (\<exists>new. (k, new) \<in> set xs
            \<and> (case bt_get prev (rebase_subtree_path k dst src) of Some old \<Rightarrow> \<not> visible_eq new old | None \<Rightarrow> True))" for xs
      proof (induction xs)
        case (Cons x xs)
        obtain p new where x: "x = (p, new)" by (cases x)
        show ?case using Cons by (cases "bt_get prev (rebase_subtree_path p dst src)") (auto simp: x image_Un)
      qed simp
      from this[of "subtree_entries cur dst"] show ?thesis
        by (simp only: ups_def set_subtree_entries[OF inv(2)]) simp
    qed
    also have "\<dots> \<longleftrightarrow> (\<exists>new. bt_get cur k = Some new \<and> is_under k dst \<and> shown_tree cur k \<noteq> shown_tree prev (shift dst src k))"
    proof (intro ex_cong1 conj_cong refl)
      fix new assume "bt_get cur k = Some new" "is_under k dst"
      then show "(case bt_get prev (rebase_subtree_path k dst src) of Some old \<Rightarrow> \<not> visible_eq new old | None \<Rightarrow> True)
        \<longleftrightarrow> shown_tree cur k \<noteq> shown_tree prev (shift dst src k)"
        using rebase_shift[of k dst src] assms(3,4) ok(2)[of k]
        by (auto simp: shown_tree_def visible_eq_iff split: option.split)
    qed
    finally show ?thesis by auto
  qed
  have kept: "\<not> (\<exists>p \<in> set dels. is_under k p)" if "bt_get cur k \<noteq> None" for k
    using that del closed_tree_under[OF closed, of k] by (metis domI domIff not_None_eq)
  have "fold (tree_op (shown_tree cur)) (move_fixups prev cur (src, dst)) T k
      = (if k \<in> fst ` set ups then shown_tree cur k else if \<exists>p \<in> set dels. is_under k p then None else T k)"
    by (simp only: fx fold_append comp_def fold_upserts fold_deletes)
  also have "\<dots> = (if is_under k dst then shown_tree cur k else T k)"
  proof (cases "is_under k dst")
    case False
    then have "\<not> (\<exists>p \<in> set dels. is_under k p)" using del is_under_trans by blast
    then show ?thesis using False up by auto
  next
    case True
    show ?thesis
    proof (cases "bt_get cur k = None")
      case False
      then show ?thesis using True up kept T[OF True] by auto
    next
      case none: True
      then have "shown_tree cur k = None" "k \<notin> fst ` set ups" using up by (auto simp: shown_tree_def)
      moreover have "T k = None" if "\<not> (\<exists>p \<in> set dels. is_under k p)"
        using that del[of k] none True T[OF True] is_under_refl by (auto simp: shown_tree_def)
      ultimately show ?thesis using True by auto
    qed
  qed
  finally show ?thesis .
qed

lemma fold_fixups:
  assumes "tree_ok prev" "tree_ok cur" "moves_between (dom (bt_get prev)) (dom (bt_get cur)) moves"
    and "\<And>src dst k. (src, dst) \<in> set moves \<Longrightarrow> is_under k dst \<Longrightarrow> T k = shown_tree prev (shift dst src k)"
  shows "fold (tree_op (shown_tree cur)) (concat (map (move_fixups prev cur) moves)) T k
    = (if \<exists>(src, dst) \<in> set moves. is_under k dst then shown_tree cur k else T k)"
  using assms(3,4)
proof (induction moves arbitrary: T)
  case (Cons m moves)
  obtain f d where m: "m = (f, d)" by (cases m)
  let ?T = "fold (tree_op (shown_tree cur)) (move_fixups prev cur (f, d)) T"
  have fd: "(f, d) \<in> set (m # moves)" by (simp add: m)
  note D = moves_betweenD[OF Cons.prems(1) fd]
  have ok: "path_ok f" "path_ok d" using assms(1,2) D by (auto simp: tree_ok_def)
  have step: "?T j = (if is_under j d then shown_tree cur j else T j)" for j
    by (rule fixups_of_move[OF assms(1,2) D(5,6) ok]) (use Cons.prems(2) fd in blast)
  have rest: "moves_between (dom (bt_get prev)) (dom (bt_get cur)) moves" using Cons.prems(1) by (auto simp: moves_between_def)
  have "?T j = shown_tree prev (shift d' f' j)" if mem: "(f', d') \<in> set moves" and j: "is_under j d'" for f' d' j
  proof -
    have "\<not> is_under d d'" "\<not> is_under d' d" using Cons.prems(1) mem by (force simp: moves_between_def m)+
    then have "\<not> is_under j d" using is_under_comparable[OF j] by blast
    then show ?thesis using step[of j] Cons.prems(2)[of f' d' j] mem j by simp
  qed
  from Cons.IH[OF rest this] show ?case using step[of k] by (auto simp: m)
qed simp

subsection \<open>Deleting what is left\<close>

lemma ancestor_deletedD: "ancestor_deleted emitted p \<Longrightarrow> \<exists>q \<in> set emitted. is_under p q"
proof (induction emitted p rule: ancestor_deleted.induct)
  case (1 emitted p)
  have up: "is_under p q" if "parent_wire p = Some q" for q
  proof (cases "q = []")
    case False
    then have p: "p \<noteq> []" "0x2F \<in> set p" "q = rev (drop 1 (dropWhile (\<lambda>b. b \<noteq> 0x2F) (rev p)))"
      using that by (auto simp: parent_wire_def split: if_splits)
    then obtain u v where uv: "p = u @ 0x2F # v" "0x2F \<notin> set v" by (metis split_list_last)
    have "dropWhile (\<lambda>b. b \<noteq> 0x2F) (rev v @ 0x2F # rev u) = 0x2F # rev u"
      using uv(2) by (subst dropWhile_append2) auto
    then have "q = u" using p(3) uv(1) by simp
    then show ?thesis using uv(1) False by (auto simp: is_under_iff)
  qed simp
  show ?case
  proof (cases "parent_wire p")
    case None
    then show ?thesis using "1.prems" by (simp add: ancestor_deleted.simps)
  next
    case (Some q)
    then show ?thesis using "1.prems" "1.IH"[OF Some] up[OF Some] is_under_trans
      by (subst (asm) ancestor_deleted.simps) (auto split: if_splits)
  qed
qed

lemma delete_roots_cover:
  "(\<exists>q \<in> set (delete_roots emitted xs) \<union> set emitted. is_under k q)
    \<longleftrightarrow> (\<exists>q \<in> {p. (p, False) \<in> set xs} \<union> set emitted. is_under k q)"
proof (induction emitted xs rule: delete_roots.induct)
  case (2 emitted path covered rest)
  show ?case
  proof (cases "covered \<or> ancestor_deleted emitted path")
    case True
    have "\<exists>q \<in> set emitted. is_under k q" if "\<not> covered" "is_under k path"
      using True ancestor_deletedD is_under_trans that by blast
    then show ?thesis using "2.IH"(1)[OF True] True by (cases covered) (auto; blast)+
  next
    case False
    then show ?thesis using "2.IH"(2)[OF False] by auto
  qed
qed simp

lemma delete_roots_subset: "set (delete_roots emitted xs) \<subseteq> {p. (p, False) \<in> set xs}"
  by (induction emitted xs rule: delete_roots.induct) auto

subsection \<open>The whole difference\<close>

lemma move_join_trivial:
  assumes "removed = [] \<or> added = []"
  shows "move_join prev cur removed added = ([], replicate (length removed) False, replicate (length added) False)"
proof (cases "added = []")
  case False
  then have "removed = []" using assms by simp
  then have "join_step prev cur removed added i st = st" for i st
    by (simp add: join_step_def identity_map_def split: prod.split)
  then have "fold (join_step prev cur removed added) is st = st" for "is" st by (induction "is") simp_all
  then show ?thesis by (simp add: move_join_def)
qed (simp add: move_join_def)

lemma join_of_trees:
  assumes "tree_ok prev" "tree_ok cur" "classified prev cur (removed, added, changed)"
  shows "join_ok prev cur removed added (move_join prev cur removed added)"
proof (cases "removed = [] \<or> added = []")
  case True
  then show ?thesis by (simp add: move_join_trivial join_ok_def)
next
  case False
  have root: "k \<in> dom (bt_get m) \<Longrightarrow> [] \<in> dom (bt_get m)" if "tree_ok m" for k and m :: index
    using closed_tree_under[of "dom (bt_get m)" k "[]"] that by (simp add: tree_ok_def)
  obtain r a where "r \<in> set removed" "a \<in> set added" using False by (meson list.set_sel(1))
  then have "bt_get prev [] \<noteq> None" "bt_get cur [] \<noteq> None"
    using root[OF assms(1), of r] root[OF assms(2), of a] assms(3) by (auto simp: classified_def)
  then have "[] \<notin> set removed" "[] \<notin> set added" using assms(3) by (auto simp: classified_def)
  then show ?thesis using assms(3) by (intro move_join_ok) (auto simp: classified_def)
qed

lemma op_moves_append [simp]: "op_moves (xs @ ys) = op_moves xs @ op_moves ys"
  by (simp add: op_moves_def map_filter_def)

lemma op_moves_simps [simp]:
  "op_moves (map (\<lambda>(src, dst). DMove src dst) moves) = moves"
  "op_moves (map DDelete ps) = []" "op_moves (map (\<lambda>(p, c). DUpsert p c) us) = []" "op_moves [] = []"
  by (induction moves) (simp_all add: op_moves_def map_filter_def filter_empty_conv split: prod.split)

lemma op_moves_none: "(\<And>op. op \<in> set ops \<Longrightarrow> \<exists>p c. op = DDelete p \<or> op = DUpsert p c) \<Longrightarrow> op_moves ops = []"
  by (fastforce simp: op_moves_def map_filter_def filter_empty_conv)

lemma op_moves_diff:
  "op_moves (diff_classified prev cur (removed, added, changed)) = fst (move_join prev cur removed added)"
proof -
  obtain moves rc ac where j: "move_join prev cur removed added = (moves, rc, ac)"
    by (cases "move_join prev cur removed added")
  have "op_moves (concat (map (move_fixups prev cur) moves)) = []"
    by (rule op_moves_none) (auto simp: move_fixups_def Let_def split: if_splits option.splits)
  moreover have "op_moves (concat (map (\<lambda>(path, covered). if covered then [] else [DUpsert path True]) (zip added ac))) = []"
    by (rule op_moves_none) (auto split: if_splits)
  ultimately show ?thesis by (simp add: diff_classified_def j)
qed

text \<open>A move goes from a path that is gone to one that is new.\<close>

lemma move_ends:
  assumes "tree_ok prev" "tree_ok cur" "classified prev cur (removed, added, changed)"
    and "(src, dst) \<in> set (fst (move_join prev cur removed added))"
  shows "src \<in> dom (bt_get prev) - dom (bt_get cur)" "dst \<in> dom (bt_get cur) - dom (bt_get prev)" "src \<noteq> []" "dst \<noteq> []"
proof -
  have root: "k \<in> dom (bt_get m) \<Longrightarrow> [] \<in> dom (bt_get m)" if "tree_ok m" for k and m :: index
    using closed_tree_under[of "dom (bt_get m)" k "[]"] that by (simp add: tree_ok_def)
  show ends: "src \<in> dom (bt_get prev) - dom (bt_get cur)" "dst \<in> dom (bt_get cur) - dom (bt_get prev)"
    using join_of_trees[OF assms(1-3)] assms(3,4) by (force simp: join_ok_def classified_def split: prod.splits)+
  show "src \<noteq> []" "dst \<noteq> []" using ends root[OF assms(1), of src] root[OF assms(2), of dst] by auto
qed

lemma moves_between_join:
  assumes "tree_ok prev" "tree_ok cur" "classified prev cur (removed, added, changed)"
    and "moves_apart (fst (move_join prev cur removed added))"
  shows "moves_between (dom (bt_get prev)) (dom (bt_get cur)) (fst (move_join prev cur removed added))"
proof -
  obtain moves rc ac where j: "move_join prev cur removed added = (moves, rc, ac)"
    by (cases "move_join prev cur removed added")
  have ok: "join_ok prev cur removed added (moves, rc, ac)" using join_of_trees[OF assms(1-3)] j by simp
  have "sorted_wrt (\<lambda>m m'. \<not> is_under (fst m') (fst m) \<and> \<not> is_under (fst m) (fst m')
         \<and> \<not> is_under (snd m') (snd m) \<and> \<not> is_under (snd m) (snd m')) moves"
  proof (rule sorted_wrt_mono_rel)
    show "sorted_wrt (\<lambda>m m'. \<not> is_under (fst m') (fst m) \<and> \<not> is_under (snd m') (snd m) \<and> length (snd m) \<le> length (snd m')) moves"
      using ok by (simp add: join_ok_def)
    fix m m' assume m: "m \<in> set moves" "m' \<in> set moves"
      and a: "\<not> is_under (fst m') (fst m) \<and> \<not> is_under (snd m') (snd m) \<and> length (snd m) \<le> length (snd m')"
    have "m \<noteq> m'" using a by auto
    then have "\<not> is_under (fst m) (fst m')" using assms(4) m j by (simp add: moves_apart_def)
    moreover have "\<not> is_under (snd m) (snd m')"
    proof
      assume u: "is_under (snd m) (snd m')"
      then have "snd m = snd m'"
        using a is_under_length[OF u] is_under_prefix[OF u] by (auto simp: prefix_def)
      then show False using a by simp
    qed
    ultimately show "\<not> is_under (fst m') (fst m) \<and> \<not> is_under (fst m) (fst m')
      \<and> \<not> is_under (snd m') (snd m) \<and> \<not> is_under (snd m) (snd m')" using a by blast
  qed
  moreover have "\<forall>(src, dst) \<in> set moves. src \<in> dom (bt_get prev) - dom (bt_get cur)
      \<and> dst \<in> dom (bt_get cur) - dom (bt_get prev) \<and> src \<noteq> [] \<and> dst \<noteq> []"
    using move_ends[OF assms(1-3)] j by fastforce
  ultimately show ?thesis using assms(1,2) by (simp add: moves_between_def tree_ok_def j)
qed

lemma sorted_wrt_either: "sorted_wrt R xs \<Longrightarrow> a \<in> set xs \<Longrightarrow> b \<in> set xs \<Longrightarrow> a = b \<or> R a b \<or> R b a"
  by (induction xs) auto

lemma zip_uncovered:
  assumes "length bs = length xs" "\<forall>i < length xs. bs ! i \<longleftrightarrow> Q (xs ! i)"
  shows "(x, False) \<in> set (zip xs bs) \<longleftrightarrow> x \<in> set xs \<and> \<not> Q x"
  using assms by (auto simp: in_set_zip in_set_conv_nth)

lemma diff_classified_correct:
  assumes "tree_ok prev" "tree_ok cur" "classified prev cur (removed, added, changed)"
    and "moves_apart (op_moves (diff_classified prev cur (removed, added, changed)))"
  shows "fold (tree_op (shown_tree cur)) (diff_classified prev cur (removed, added, changed)) (shown_tree prev) k = shown_tree cur k"
proof -
  obtain moves rc ac where j: "move_join prev cur removed added = (moves, rc, ac)"
    by (cases "move_join prev cur removed added")
  have ok: "join_ok prev cur removed added (moves, rc, ac)" using join_of_trees[OF assms(1-3)] j by simp
  have mb: "moves_between (dom (bt_get prev)) (dom (bt_get cur)) moves"
    using moves_between_join[OF assms(1-3)] assms(4) by (simp add: op_moves_diff j)
  have dom: "dom (shown_tree prev) = dom (bt_get prev)" by (auto simp: shown_tree_def)
  have closed: "closed_tree (dom (bt_get prev))" "closed_tree (dom (bt_get cur))" using assms(1,2) by (simp_all add: tree_ok_def)
  let ?f = "tree_op (shown_tree cur)"
  define T1 where "T1 = fold ?f (map (\<lambda>(src, dst). DMove src dst) moves) (shown_tree prev)"
  define dels where "dels = delete_roots [] (zip removed rc)"
  define T2 where "T2 = fold ?f (map DDelete dels) T1"
  define ups where "ups = concat (map (\<lambda>(path, covered). if covered then [] else [(path, True)]) (zip added ac))"
  define T3 where "T3 = fold ?f (map (\<lambda>(p, b). DUpsert p b) ups) T2"
  define T4 where "T4 = fold ?f (concat (map (move_fixups prev cur) moves)) T3"
  have "concat (map (\<lambda>(path, covered). if covered then [] else [DUpsert path True]) xs)
      = map (\<lambda>(p, b). DUpsert p b) (concat (map (\<lambda>(path, covered). if covered then [] else [(path, True)]) xs))" for xs
    by (induction xs) auto
  then have all: "fold ?f (diff_classified prev cur (removed, added, changed)) (shown_tree prev)
      = fold ?f (map (\<lambda>(p, b). DUpsert p b) changed) T4"
    by (simp add: diff_classified_def j T1_def T2_def T3_def T4_def dels_def ups_def)
  note R = assms(3)[unfolded classified_def, simplified]
  have uncov_r: "(p, False) \<in> set (zip removed rc) \<longleftrightarrow> p \<in> set removed \<and> \<not> (\<exists>m \<in> set moves. is_under p (fst m))" for p
    by (rule zip_uncovered) (use ok in \<open>simp_all add: join_ok_def\<close>)
  have uncov_a: "k \<in> fst ` set ups \<longleftrightarrow> k \<in> set added \<and> \<not> (\<exists>m \<in> set moves. is_under k (snd m))" for k
  proof -
    have "k \<in> fst ` set ups \<longleftrightarrow> (k, False) \<in> set (zip added ac)" by (force simp: ups_def split: if_splits)
    also have "\<dots> \<longleftrightarrow> k \<in> set added \<and> \<not> (\<exists>m \<in> set moves. is_under k (snd m))"
      by (rule zip_uncovered) (use ok in \<open>simp_all add: join_ok_def\<close>)
    finally show ?thesis .
  qed
  have T1: "T1 p = Some v \<longleftrightarrow> moved_to (shown_tree prev) moves p v
      \<or> shown_tree prev p = Some v \<and> (\<forall>(src, dst) \<in> set moves. \<not> is_under p src)" for p v
    unfolding T1_def by (rule fold_moves) (use mb dom in simp)
  have deleted: "(\<exists>q \<in> set dels. is_under p q) \<longleftrightarrow> (\<exists>q \<in> set removed. is_under p q \<and> \<not> (\<exists>m \<in> set moves. is_under q (fst m)))" for p
    using delete_roots_cover[of "[]" "zip removed rc" p] uncov_r by (auto simp: dels_def)
  have T2: "T2 p = (if \<exists>q \<in> set dels. is_under p q then None else T1 p)" for p
    unfolding T2_def by (rule fold_deletes)
  have T3: "T3 p = (if p \<in> fst ` set ups then shown_tree cur p else T2 p)" for p
    unfolding T3_def by (rule fold_upserts)
  have not_deleted: "\<not> (\<exists>q \<in> set dels. is_under p q)" if "bt_get cur p \<noteq> None" for p
    using that deleted closed_tree_under[OF closed(2), of p] R by (metis (mono_tags, lifting) domI domIff mem_Collect_eq not_None_eq)
  have at_target: "T3 p = shown_tree prev (shift dst src p)" if m: "(src, dst) \<in> set moves" and u: "is_under p dst" for src dst p
  proof -
    note D = moves_betweenD[OF mb m]
    have fresh: "shown_tree prev p = None" using closed_tree_under[OF D(7) _ u] D(4) by (cases "bt_get prev p") (auto simp: shown_tree_def)
    have "moved_to (shown_tree prev) moves p v \<longleftrightarrow> shown_tree prev (shift dst src p) = Some v" for v
    proof
      assume "moved_to (shown_tree prev) moves p v"
      then obtain f d where fd: "(f, d) \<in> set moves" "is_under p d" "shown_tree prev (shift d f p) = Some v"
        by (auto simp: moved_to_def)
      have "(f, d) = (src, dst)"
      proof (rule ccontr)
        assume "(f, d) \<noteq> (src, dst)"
        then have "\<not> is_under d dst \<and> \<not> is_under dst d"
          using mb sorted_wrt_either[OF _ fd(1) m] unfolding moves_between_def by fastforce
        then show False using is_under_comparable[OF fd(2) u] by blast
      qed
      then show "shown_tree prev (shift dst src p) = Some v" using fd(3) by simp
    qed (use m u in \<open>auto simp: moved_to_def\<close>)
    then have "T1 p = shown_tree prev (shift dst src p)" using T1[of p] fresh by (metis not_Some_eq option.distinct(1))
    moreover have "\<not> (\<exists>q \<in> set dels. is_under p q)"
    proof
      assume "\<exists>q \<in> set dels. is_under p q"
      then obtain q where q: "q \<in> set removed" "is_under p q" using deleted by blast
      have qd: "q \<in> dom (bt_get prev)" "q \<notin> dom (bt_get cur)" using q(1) R by auto
      show False using is_under_comparable[OF u q(2)] closed_tree_under[OF D(8,3), of q] closed_tree_under[OF D(7) qd(1), of dst] qd(2) D(4) by blast
    qed
    moreover have "p \<notin> fst ` set ups"
      using m u uncov_a[of p] by force
    ultimately show ?thesis by (simp add: T2 T3)
  qed
  have T4: "T4 p = (if \<exists>(src, dst) \<in> set moves. is_under p dst then shown_tree cur p else T3 p)" for p
    unfolding T4_def by (rule fold_fixups[OF assms(1,2) mb at_target])
  have untouched: "T4 k = shown_tree cur k" if k: "\<not> (\<exists>(src, dst) \<in> set moves. is_under k dst)" "k \<notin> fst ` set changed"
  proof -
    have no: "\<not> moved_to (shown_tree prev) moves k v" for v using k(1) by (auto simp: moved_to_def)
    have T4k: "T4 k = T3 k" using T4 k(1) by simp
    show ?thesis
    proof (cases "bt_get cur k")
      case None
      have "T2 k = None"
      proof (cases "bt_get prev k")
        case None
        then show ?thesis using no T1[of k] T2[of k] by (cases "T1 k") (auto simp: shown_tree_def)
      next
        case (Some v)
        then have rem: "k \<in> set removed" using R \<open>bt_get cur k = None\<close> by auto
        show ?thesis
        proof (cases "\<exists>m \<in> set moves. is_under k (fst m)")
          case True
          then have "T1 k \<noteq> Some w" for w using no T1[of k w] by fastforce
          then have "T1 k = None" by (metis not_Some_eq)
          then show ?thesis using T2[of k] by simp
        next
          case False
          then have "\<exists>q \<in> set dels. is_under k q" unfolding deleted using rem is_under_refl by blast
          then show ?thesis using T2 by simp
        qed
      qed
      moreover have "shown_tree cur k = None" using None by (simp add: shown_tree_def)
      ultimately show ?thesis using T4k T3[of k] by simp
    next
      case (Some new)
      show ?thesis
      proof (cases "bt_get prev k")
        case None
        then have "k \<in> set added" using R Some by auto
        then have "k \<in> fst ` set ups" using uncov_a[of k] k(1) by force
        then show ?thesis using T4k T3 by simp
      next
        case old: (Some old)
        have "visible_eq new old"
        proof (rule ccontr)
          assume "\<not> visible_eq new old"
          then have "(k, content_changed new old) \<in> set changed" using R Some old by simp
          then show False using k(2) by force
        qed
        then have "shown_tree cur k = shown_tree prev k" using Some old by (simp add: shown_tree_def visible_eq_iff)
        moreover have "\<forall>(src, dst) \<in> set moves. \<not> is_under k src"
          using closed_tree_under[OF closed(2), of k] Some moves_betweenD(2)[OF mb] by fast
        then have "T1 k = shown_tree prev k" using T1[of k] old by (simp add: shown_tree_def)
        moreover have "k \<notin> fst ` set ups" using uncov_a[of k] R old by auto
        ultimately show ?thesis using T4k T3 T2 not_deleted[of k] Some by simp
      qed
    qed
  qed
  have "fold ?f (map (\<lambda>(p, b). DUpsert p b) changed) T4 k = (if k \<in> fst ` set changed then shown_tree cur k else T4 k)"
    by (rule fold_upserts)
  then show ?thesis using all T4[of k] untouched by auto
qed

end
