(* ===== verification/Sync_Blob.thy ===== *)
theory Sync_Blob
  imports Kv_Wire
begin

text \<open>
  \<open>BlobStore\<close> of \<open>crates/fssync/src/lib.rs\<close>: the contents the process has sent or read, under their
  hashes, least recently used first out once they exceed the budget.  \<open>seq\<close> counts operations and is
  kept as a natural number: it does not reach the end of its 64 bits.
\<close>

subsection \<open>The store\<close>

record blob_store =
  bs_budget :: nat
  bs_total :: nat
  bs_seq :: nat
  bs_by_hash :: "(u128, bytes \<times> nat) hash_map"
  bs_by_age :: "(nat, u128) btree_map"

definition blob_store_new :: "nat \<Rightarrow> blob_store" where
  "blob_store_new budget = \<lparr>bs_budget = budget, bs_total = 0, bs_seq = 0, bs_by_hash = [], bs_by_age = []\<rparr>"

definition blob_get :: "u128 \<Rightarrow> blob_store \<Rightarrow> bytes option \<times> blob_store" where
  "blob_get hash bs = (case hm_get (bs_by_hash bs) hash of None \<Rightarrow> (None, bs)
     | Some (data, seq) \<Rightarrow> let seq' = bs_seq bs + 1 in
         (Some data, bs\<lparr>bs_seq := seq', bs_by_age := bt_insert seq' hash (bt_remove seq (bs_by_age bs)),
            bs_by_hash := hm_insert hash (data, seq') (bs_by_hash bs)\<rparr>))"

text \<open>The loop that evicts: an empty \<open>by_age\<close> would be the failed \<open>expect\<close>.\<close>

function blob_evict :: "blob_store \<Rightarrow> blob_store" where
  "blob_evict bs = (if bs_total bs \<le> bs_budget bs then bs
     else case bs_by_age bs of [] \<Rightarrow> bs
       | (seq, oldest) # rest \<Rightarrow> blob_evict (case hm_get (bs_by_hash bs) oldest of
             None \<Rightarrow> bs\<lparr>bs_by_age := rest\<rparr>
           | Some (old, _) \<Rightarrow> bs\<lparr>bs_by_age := rest, bs_by_hash := hm_remove oldest (bs_by_hash bs),
               bs_total := bs_total bs - length old\<rparr>))"
  by pat_completeness auto
termination
  by (relation "measure (\<lambda>bs. length (bs_by_age bs))") (auto split: option.split)

declare blob_evict.simps [simp del]

definition blob_put :: "u128 \<Rightarrow> bytes \<Rightarrow> blob_store \<Rightarrow> blob_store" where
  "blob_put hash data bs =
    (if length data > bs_budget bs then bs
     else if hm_get (bs_by_hash bs) hash \<noteq> None then snd (blob_get hash bs)
     else let seq = bs_seq bs + 1 in
       blob_evict (bs\<lparr>bs_seq := seq, bs_total := bs_total bs + length data, bs_by_age := bt_insert seq hash (bs_by_age bs),
         bs_by_hash := hm_insert hash (data, seq) (bs_by_hash bs)\<rparr>))"

subsection \<open>The invariant\<close>

definition blob_bytes :: "(u128, bytes \<times> nat) hash_map \<Rightarrow> nat" where
  "blob_bytes m = sum_list (map (\<lambda>(_, data, _). length data) m)"

definition blob_bytes_at :: "(u128, bytes \<times> nat) hash_map \<Rightarrow> u128 \<Rightarrow> nat" where
  "blob_bytes_at m hash = (case hm_get m hash of None \<Rightarrow> 0 | Some (data, _) \<Rightarrow> length data)"

lemma blob_bytes_insert: "blob_bytes (hm_insert hash (data, seq) m) + blob_bytes_at m hash = blob_bytes m + length data"
  by (induction m) (auto simp: blob_bytes_def blob_bytes_at_def hm_get_def hm_insert_def)

lemma blob_bytes_fresh: "hm_get m hash = None \<Longrightarrow> blob_bytes (hm_remove hash m) = blob_bytes m"
  by (induction m) (auto simp: blob_bytes_def hm_get_def hm_remove_def AList.delete_eq split: if_splits)

lemma blob_bytes_remove: "hm_inv m \<Longrightarrow> blob_bytes (hm_remove hash m) + blob_bytes_at m hash = blob_bytes m"
proof (induction m)
  case (Cons x m)
  obtain h d s where x: "x = (h, d, s)" by (cases x)
  have m: "hm_inv m" "hm_get m h = None"
    using Cons.prems by (auto simp: hm_inv_def hm_get_def x map_of_eq_None_iff)
  show ?case
    using Cons.IH[OF m(1)] m(2) blob_bytes_fresh[OF m(2)]
    by (auto simp: blob_bytes_def blob_bytes_at_def hm_get_def hm_remove_def AList.delete_eq x)
qed (simp add: blob_bytes_def blob_bytes_at_def hm_remove_def AList.delete_eq)

text \<open>Everything but the budget, which does not hold between an insertion and its evictions.\<close>

definition blob_index_ok :: "blob_store \<Rightarrow> bool" where
  "blob_index_ok bs \<longleftrightarrow> hm_inv (bs_by_hash bs) \<and> bt_inv (bs_by_age bs) \<and> bs_total bs = blob_bytes (bs_by_hash bs)
     \<and> (\<forall>seq hash. bt_get (bs_by_age bs) seq = Some hash \<longleftrightarrow> (\<exists>data. hm_get (bs_by_hash bs) hash = Some (data, seq)))
     \<and> (\<forall>seq \<in> dom (bt_get (bs_by_age bs)). seq \<le> bs_seq bs)"

definition blob_ok :: "blob_store \<Rightarrow> bool" where
  "blob_ok bs \<longleftrightarrow> blob_index_ok bs \<and> bs_total bs \<le> bs_budget bs"

definition blob_content :: "blob_store \<Rightarrow> u128 \<Rightarrow> bytes option" where
  "blob_content bs hash = map_option fst (hm_get (bs_by_hash bs) hash)"

lemma blob_get_content: "fst (blob_get hash bs) = blob_content bs hash"
  by (simp add: blob_get_def blob_content_def Let_def split: option.split)

lemma blob_ok_new: "blob_ok (blob_store_new budget)"
  by (auto simp: blob_ok_def blob_index_ok_def blob_store_new_def blob_bytes_def bt_get_def)

text \<open>\<open>A\<close> maps ages to hashes and \<open>H\<close> hashes to contents and ages.\<close>

definition age_index :: "(nat \<Rightarrow> u128 option) \<Rightarrow> (u128 \<Rightarrow> (bytes \<times> nat) option) \<Rightarrow> bool" where
  "age_index A H \<longleftrightarrow> (\<forall>seq hash. A seq = Some hash \<longleftrightarrow> (\<exists>data. H hash = Some (data, seq)))"

lemma age_index_refresh:
  assumes "age_index A H" "H hash = Some (d, seq)" "A seq' = None"
  shows "age_index ((A(seq := None))(seq' \<mapsto> hash)) (H(hash \<mapsto> (d, seq')))"
  unfolding age_index_def
proof (intro allI)
  fix s h
  have A: "A s = Some h \<longleftrightarrow> (\<exists>data. H h = Some (data, s))" "A seq = Some hash" "A seq' \<noteq> Some h"
    using assms by (auto simp: age_index_def)
  show "((A(seq := None))(seq' \<mapsto> hash)) s = Some h \<longleftrightarrow> (\<exists>data. (H(hash \<mapsto> (d, seq'))) h = Some (data, s))"
    using A assms(2) by (cases "s = seq'"; cases "h = hash"; cases "s = seq") auto
qed

lemma age_index_new:
  assumes "age_index A H" "H hash = None" "A seq' = None"
  shows "age_index (A(seq' \<mapsto> hash)) (H(hash \<mapsto> (d, seq')))"
  unfolding age_index_def
proof (intro allI)
  fix s h
  have A: "A s = Some h \<longleftrightarrow> (\<exists>data. H h = Some (data, s))" "A s \<noteq> Some hash" "A seq' \<noteq> Some h"
    using assms by (auto simp: age_index_def)
  show "(A(seq' \<mapsto> hash)) s = Some h \<longleftrightarrow> (\<exists>data. (H(hash \<mapsto> (d, seq'))) h = Some (data, s))"
    using A by (cases "s = seq'"; cases "h = hash") auto
qed

lemma age_index_drop:
  assumes "age_index A H" "A seq = Some hash"
  shows "age_index (A(seq := None)) (H(hash := None))"
  unfolding age_index_def
proof (intro allI)
  fix s h
  have A: "A s = Some h \<longleftrightarrow> (\<exists>data. H h = Some (data, s))" "\<exists>d. H hash = Some (d, seq)"
    using assms by (auto simp: age_index_def)
  show "(A(seq := None)) s = Some h \<longleftrightarrow> (\<exists>data. (H(hash := None)) h = Some (data, s))"
    using A assms(2) by (cases "s = seq"; cases "h = hash") auto
qed

lemma blob_index_iff: "blob_index_ok bs \<longleftrightarrow> hm_inv (bs_by_hash bs) \<and> bt_inv (bs_by_age bs) \<and> bs_total bs = blob_bytes (bs_by_hash bs)
   \<and> age_index (bt_get (bs_by_age bs)) (hm_get (bs_by_hash bs)) \<and> (\<forall>seq \<in> dom (bt_get (bs_by_age bs)). seq \<le> bs_seq bs)"
  by (auto simp: blob_index_ok_def age_index_def)

lemma blob_get_ok:
  assumes "blob_ok bs"
  shows "blob_ok (snd (blob_get hash bs))" "blob_content (snd (blob_get hash bs)) = blob_content bs"
    "bs_budget (snd (blob_get hash bs)) = bs_budget bs"
proof -
  note I = assms[unfolded blob_ok_def blob_index_iff]
  have "blob_ok (snd (blob_get hash bs)) \<and> blob_content (snd (blob_get hash bs)) = blob_content bs
    \<and> bs_budget (snd (blob_get hash bs)) = bs_budget bs"
  proof (cases "hm_get (bs_by_hash bs) hash")
    case None
    then show ?thesis using assms by (simp add: blob_get_def)
  next
    case (Some x)
    obtain d s where x: "x = (d, s)" by (cases x)
    have get: "hm_get (bs_by_hash bs) hash = Some (d, s)" using Some x by simp
    let ?n = "Suc (bs_seq bs)"
    have new: "bt_get (bs_by_age bs) ?n = None" using I by (meson domIff not_less_eq_eq order_refl)
    have "blob_bytes (hm_insert hash (d, ?n) (bs_by_hash bs)) = blob_bytes (bs_by_hash bs)"
      using blob_bytes_insert[of hash d ?n "bs_by_hash bs"] by (simp add: blob_bytes_at_def get)
    moreover have "age_index (bt_get (bt_insert ?n hash (bt_remove s (bs_by_age bs)))) (hm_get (hm_insert hash (d, ?n) (bs_by_hash bs)))"
      using age_index_refresh[where A = "bt_get (bs_by_age bs)" and H = "hm_get (bs_by_hash bs)", OF _ get new] I by (simp add: bt.store_laws hm.store_laws)
    moreover have "\<forall>seq \<in> dom (bt_get (bt_insert ?n hash (bt_remove s (bs_by_age bs)))). seq \<le> ?n"
      using I by (auto simp: bt.store_laws split: if_splits intro: le_SucI)
    ultimately show ?thesis
      using I get by (simp add: blob_get_def blob_ok_def blob_index_iff blob_content_def bt.store_laws hm.store_laws fun_eq_iff)
  qed
  then show "blob_ok (snd (blob_get hash bs))" "blob_content (snd (blob_get hash bs)) = blob_content bs"
    "bs_budget (snd (blob_get hash bs)) = bs_budget bs" by simp_all
qed

subsection \<open>Insertion\<close>

text \<open>Eviction keeps the youngest content, if it alone is within the budget.\<close>

lemma blob_evict_ok:
  assumes "blob_index_ok bs" "hm_get (bs_by_hash bs) hash = Some (data, bs_seq bs)" "length data \<le> bs_budget bs"
  shows "blob_ok (blob_evict bs) \<and> blob_content (blob_evict bs) hash = Some data \<and> bs_budget (blob_evict bs) = bs_budget bs
    \<and> blob_content (blob_evict bs) \<subseteq>\<^sub>m blob_content bs"
  using assms
proof (induction bs rule: blob_evict.induct)
  case (1 bs)
  note I = "1.prems"(1)[unfolded blob_index_iff]
  show ?case
  proof (cases "bs_total bs \<le> bs_budget bs")
    case True
    then show ?thesis using "1.prems" by (simp add: blob_evict.simps[of bs] blob_ok_def blob_content_def)
  next
    case False
    have age: "bt_get (bs_by_age bs) (bs_seq bs) = Some hash" using I "1.prems"(2) by (auto simp: age_index_def)
    then obtain s h rest where ages: "bs_by_age bs = (s, h) # rest" by (cases "bs_by_age bs") (auto simp: bt_get_def)
    have first: "bt_get (bs_by_age bs) s = Some h" by (simp add: ages bt_get_def)
    then obtain d where d: "hm_get (bs_by_hash bs) h = Some (d, s)" using I by (auto simp: age_index_def)
    have rest: "rest = bt_remove s (bs_by_age bs)" by (simp add: ages)
    have not_last: "h \<noteq> hash"
    proof
      assume h: "h = hash"
      then have "s = bs_seq bs" using d "1.prems"(2) by simp
      then have "\<forall>s' \<in> fst ` set rest. bs_seq bs < s'" using I by (simp add: ages)
      moreover have "dom (bt_get (bs_by_age bs)) = fst ` set ((s, h) # rest)"
        using bt.set_keys[of "bs_by_age bs"] I by (simp add: bt_keys_def ages)
      then have "\<forall>s' \<in> fst ` set rest. s' \<le> bs_seq bs" using I by simp
      ultimately have "rest = []" by (cases rest) (auto dest: leD)
      then have A: "bt_get (bs_by_age bs) s' = (if s' = s then Some hash else None)" for s' by (simp add: ages bt_get_def h)
      have "hm_get (bs_by_hash bs) h' = None" if "h' \<noteq> hash" for h'
      proof (rule ccontr)
        assume "hm_get (bs_by_hash bs) h' \<noteq> None"
        then obtain d' s' where "hm_get (bs_by_hash bs) h' = Some (d', s')" by auto
        then have "bt_get (bs_by_age bs) s' = Some h'" using I by (auto simp: age_index_def)
        then show False using A[of s'] that by (simp split: if_splits)
      qed
      then have only: "hm_get (hm_remove hash (bs_by_hash bs)) = Map.empty" using I by (auto simp: hm.store_laws fun_eq_iff)
      then have "hm_remove hash (bs_by_hash bs) = []"
        by (cases "hm_remove hash (bs_by_hash bs)") (auto simp: hm_get_def fun_eq_iff split: if_splits)
      then have "bs_total bs = length data"
        using blob_bytes_remove[of "bs_by_hash bs" hash] I "1.prems"(2) by (simp add: blob_bytes_at_def) (simp add: blob_bytes_def)
      then show False using False "1.prems"(3) by simp
    qed
    let ?bs = "bs\<lparr>bs_by_age := rest, bs_by_hash := hm_remove h (bs_by_hash bs), bs_total := bs_total bs - length d\<rparr>"
    have "blob_index_ok ?bs"
    proof -
      have "blob_bytes (hm_remove h (bs_by_hash bs)) + length d = blob_bytes (bs_by_hash bs)"
        using blob_bytes_remove[of "bs_by_hash bs" h] I d by (simp add: blob_bytes_at_def)
      moreover have "age_index (bt_get rest) (hm_get (hm_remove h (bs_by_hash bs)))"
        using age_index_drop[where A = "bt_get (bs_by_age bs)" and H = "hm_get (bs_by_hash bs)", OF _ first] I by (simp add: rest bt.store_laws hm.store_laws)
      ultimately show ?thesis using I by (auto simp: blob_index_iff rest bt.store_laws hm.store_laws)
    qed
    moreover have "hm_get (bs_by_hash ?bs) hash = Some (data, bs_seq ?bs)"
      using "1.prems"(2) not_last I by (simp add: hm.store_laws)
    ultimately have IH: "blob_ok (blob_evict ?bs) \<and> blob_content (blob_evict ?bs) hash = Some data \<and> bs_budget (blob_evict ?bs) = bs_budget ?bs
        \<and> blob_content (blob_evict ?bs) \<subseteq>\<^sub>m blob_content ?bs"
      using "1.IH"[OF False ages refl] "1.prems"(3) d by simp
    have "blob_content ?bs \<subseteq>\<^sub>m blob_content bs"
      using I by (auto simp: map_le_def blob_content_def hm.store_laws)
    then have "blob_content (blob_evict ?bs) \<subseteq>\<^sub>m blob_content bs" using IH map_le_trans by blast
    moreover have "blob_evict bs = blob_evict ?bs" using False d by (simp add: blob_evict.simps[of bs] ages)
    moreover have "bs_budget ?bs = bs_budget bs" by simp
    ultimately show ?thesis using IH by simp
  qed
qed

lemma blob_put_ok:
  assumes "blob_ok bs"
  shows "blob_ok (blob_put hash data bs)" "bs_budget (blob_put hash data bs) = bs_budget bs"
    "length data \<le> bs_budget bs \<Longrightarrow> blob_content bs hash \<in> {None, Some data} \<Longrightarrow> blob_content (blob_put hash data bs) hash = Some data"
    "blob_content (blob_put hash data bs) h = Some d \<Longrightarrow> blob_content bs h = Some d \<or> h = hash \<and> d = data"
proof -
  note I = assms[unfolded blob_ok_def blob_index_iff]
  have "blob_ok (blob_put hash data bs) \<and> bs_budget (blob_put hash data bs) = bs_budget bs
    \<and> (length data \<le> bs_budget bs \<longrightarrow> blob_content bs hash \<in> {None, Some data} \<longrightarrow> blob_content (blob_put hash data bs) hash = Some data)
    \<and> (\<forall>h d. blob_content (blob_put hash data bs) h = Some d \<longrightarrow> blob_content bs h = Some d \<or> h = hash \<and> d = data)"
  proof (cases "length data > bs_budget bs \<or> hm_get (bs_by_hash bs) hash \<noteq> None")
    case True
    then have "blob_put hash data bs = bs \<or> blob_put hash data bs = snd (blob_get hash bs) \<and> blob_content bs hash \<noteq> None"
      by (auto simp: blob_put_def blob_content_def)
    moreover have "blob_put hash data bs = bs \<Longrightarrow> length data \<le> bs_budget bs \<Longrightarrow> blob_content bs hash \<noteq> None"
      using True by (auto simp: blob_content_def)
    ultimately show ?thesis using assms blob_get_ok[OF assms, of hash] by auto
  next
    case False
    let ?n = "Suc (bs_seq bs)"
    let ?bs = "bs\<lparr>bs_seq := ?n, bs_total := bs_total bs + length data, bs_by_age := bt_insert ?n hash (bs_by_age bs),
         bs_by_hash := hm_insert hash (data, ?n) (bs_by_hash bs)\<rparr>"
    have new: "bt_get (bs_by_age bs) ?n = None" using I by (meson domIff not_less_eq_eq order_refl)
    have get: "hm_get (bs_by_hash bs) hash = None" using False by blast
    have "blob_bytes (hm_insert hash (data, ?n) (bs_by_hash bs)) = blob_bytes (bs_by_hash bs) + length data"
      using blob_bytes_insert[of hash data ?n "bs_by_hash bs"] get by (simp add: blob_bytes_at_def)
    moreover have "age_index (bt_get (bt_insert ?n hash (bs_by_age bs))) (hm_get (hm_insert hash (data, ?n) (bs_by_hash bs)))"
      using age_index_new[where A = "bt_get (bs_by_age bs)" and H = "hm_get (bs_by_hash bs)", OF _ get new] I by (simp add: bt.store_laws hm.store_laws)
    moreover have "\<forall>seq \<in> dom (bt_get (bt_insert ?n hash (bs_by_age bs))). seq \<le> ?n"
      using I by (auto simp: bt.store_laws split: if_splits intro: le_SucI)
    ultimately have idx: "blob_index_ok ?bs" using I by (simp add: blob_index_iff bt.store_laws hm.store_laws)
    have E: "blob_ok (blob_evict ?bs) \<and> blob_content (blob_evict ?bs) hash = Some data \<and> bs_budget (blob_evict ?bs) = bs_budget ?bs
        \<and> blob_content (blob_evict ?bs) \<subseteq>\<^sub>m blob_content ?bs"
      by (rule blob_evict_ok[OF idx]) (use I False in \<open>simp_all add: hm.store_laws\<close>)
    have put: "blob_put hash data bs = blob_evict ?bs" using False get by (simp add: blob_put_def)
    have "blob_content ?bs = (blob_content bs)(hash \<mapsto> data)" using I by (auto simp: blob_content_def hm.store_laws fun_eq_iff)
    then have "blob_content bs h = Some d \<or> h = hash \<and> d = data" if "blob_content (blob_evict ?bs) h = Some d" for h d
      using E that by (metis (mono_tags, lifting) domI fun_upd_apply map_le_def option.inject)
    then show ?thesis using E put by simp
  qed
  then show "blob_ok (blob_put hash data bs)" "bs_budget (blob_put hash data bs) = bs_budget bs"
    "length data \<le> bs_budget bs \<Longrightarrow> blob_content bs hash \<in> {None, Some data} \<Longrightarrow> blob_content (blob_put hash data bs) hash = Some data"
    "blob_content (blob_put hash data bs) h = Some d \<Longrightarrow> blob_content bs h = Some d \<or> h = hash \<and> d = data" by blast+
qed

end
