(* ===== verification/Sync_Engine.thy ===== *)
theory Sync_Engine
  imports Sync_Diff Sync_Blob
begin

text \<open>
  \<open>SyncEngine\<close> of \<open>crates/fssync/src/lib.rs\<close>: the thread of one sync that cuts updates for its client out
  of the reconciler's snapshots.  The disk is a parameter: what a stat and a read of a path answer, one
  after the other, with paths that do not resolve under the root.  Times are natural numbers, and within
  one turn of the event loop the clock stands still.  Requests that act on files (fetches, writes,
  uploads) are executed outside the model: of them it has what they leave behind in the engine.
\<close>

subsection \<open>State\<close>

definition FS_CLOSED_BACKEND_FAILED :: u8 where [wire_defs]: "FS_CLOSED_BACKEND_FAILED = 3"
definition RETRY_BACKOFF_CAP :: nat where "RETRY_BACKOFF_CAP = 2000000000"
definition RACY_WINDOW_NS :: nat where "RACY_WINDOW_NS = 2000000000"

record sync_options =
  so_recursive :: bool
  so_content :: bool
  so_cross_filesystem :: bool
  so_latency :: nat
  so_inline_max :: u64
  so_window_bytes :: nat
  so_batch_target :: nat
  so_max_entries :: nat

record retry_entry =
  re_failures :: nat
  re_due :: nat

datatype content_read = CrStable u128 bytes | CrUnstable | CrUnreadable

datatype disk_read = DrStable bytes node_meta | DrUnstable | DrUnreadable

text \<open>The surroundings of an engine.  The \<open>n\<close>th stat and the \<open>n\<close>th read of a path are those of one
  \<open>read_verified_meta\<close>.\<close>

record sync_env =
  sv_hash :: "bytes \<Rightarrow> u128"
  sv_resolves :: "bytes \<Rightarrow> bool"
  sv_stat :: "bytes \<Rightarrow> nat \<Rightarrow> node_meta option"
  sv_read :: "bytes \<Rightarrow> nat \<Rightarrow> bytes option"
  sv_now :: nat
  sv_wall_ns :: u64
  sv_compress :: "bytes \<Rightarrow> bytes"
  sv_outbox :: "bytes \<Rightarrow> bool"

text \<open>What building a record works on: the engine's account of the client, the process-wide blob store and the
  root's learned hashes, and the hashes sent to the reconciler.\<close>

record sync_core =
  sc_held :: "(bytes, u128) hash_map"
  sc_retry :: "(bytes, retry_entry) btree_map"
  sc_blobs :: blob_store
  sc_learned :: "(bytes, node_meta) hash_map"
  sc_taught :: "(bytes \<times> node_meta) list"

datatype root_update = RuSnapshot index "nat option" "bytes list option" "bytes list" | RuClosed u8

text \<open>What a request leaves behind: nothing, or an entry under a wire path with the hash of its bytes, the bytes
  themselves when they are worth storing, its time, and what a stat of it then answers.\<close>

datatype landing = LdNone | LdEcho bytes u128 "bytes option" u64 "node_meta option"

datatype sync_msg = SmRoot root_update | SmAck u32 | SmRequest landing bool | SmStop

datatype sync_exit = ExClientGone | ExClosed u8 | ExStopped

text \<open>Sets of paths are maps to nothing, in order like a \<open>BTreeSet\<close>.\<close>

type_synonym path_set = "(bytes, unit) btree_map"

record sync_engine =
  en_sync_id :: u16
  en_latest :: index
  en_snapshot_dirty :: bool
  en_shadow :: index
  en_pending_since :: "nat option"
  en_next_update_id :: u32
  en_highest_sent :: u32
  en_unacked :: "(u32 \<times> nat) list"
  en_unacked_bytes :: nat
  en_initial_sent :: bool
  en_core :: sync_core
  en_pending_changed :: path_set
  en_pending_recheck :: path_set
  en_full_diff :: bool
  en_inbox :: "sync_msg list"
  en_sent :: "bytes list"

text \<open>A handler goes on, ends the engine, or waits for a message that has not come.\<close>

datatype 'a outcome = Goes 'a | Ends sync_exit | Waits

fun bind_outcome :: "'a outcome \<Rightarrow> ('a \<Rightarrow> 'b outcome) \<Rightarrow> 'b outcome" where
  "bind_outcome (Goes x) f = f x"
| "bind_outcome (Ends ex) f = Ends ex"
| "bind_outcome Waits f = Waits"

definition engine_new :: "u16 \<Rightarrow> blob_store \<Rightarrow> (bytes, node_meta) hash_map \<Rightarrow> sync_msg list \<Rightarrow> sync_engine" where
  "engine_new sync_id blobs learned inbox = \<lparr>en_sync_id = sync_id, en_latest = [], en_snapshot_dirty = False, en_shadow = [],
     en_pending_since = None, en_next_update_id = 1, en_highest_sent = 0, en_unacked = [], en_unacked_bytes = 0,
     en_initial_sent = False,
     en_core = \<lparr>sc_held = [], sc_retry = [], sc_blobs = blobs, sc_learned = learned, sc_taught = []\<rparr>,
     en_pending_changed = [], en_pending_recheck = [], en_full_diff = False, en_inbox = inbox, en_sent = []\<rparr>"

subsection \<open>Verified reads\<close>

fun read_attempts :: "(nat \<Rightarrow> node_meta option) \<Rightarrow> (nat \<Rightarrow> bytes option) \<Rightarrow> nat \<Rightarrow> nat \<Rightarrow> disk_read" where
  "read_attempts stat read_at i 0 = DrUnstable"
| "read_attempts stat read_at i (Suc n) = (case stat (2 * i) of None \<Rightarrow> DrUnreadable
     | Some before \<Rightarrow> (case read_at i of None \<Rightarrow> DrUnreadable
       | Some data \<Rightarrow> (case stat (2 * i + 1) of None \<Rightarrow> DrUnreadable
         | Some after \<Rightarrow>
             if nm_dev_ino after = nm_dev_ino before \<and> nm_size after = nm_size before \<and> nm_mtime_ns after = nm_mtime_ns before
             then DrStable data after else read_attempts stat read_at (Suc i) n)))"

definition read_verified_meta :: "sync_env \<Rightarrow> bytes \<Rightarrow> disk_read" where
  "read_verified_meta sv path = read_attempts (sv_stat sv path) (sv_read sv path) 0 2"

definition racily_clean :: "sync_env \<Rightarrow> u64 \<Rightarrow> bool" where
  "racily_clean sv mtime_ns \<longleftrightarrow> unat (sv_wall_ns sv) - unat mtime_ns < RACY_WINDOW_NS"

definition teach_hash :: "bytes \<Rightarrow> node_meta \<Rightarrow> sync_core \<Rightarrow> sync_core" where
  "teach_hash path meta c =
    (let learned = (if length (sc_learned c) \<ge> 65536 then [] else sc_learned c)
     in c\<lparr>sc_learned := hm_insert path meta learned, sc_taught := sc_taught c @ [(path, meta)]\<rparr>)"

text \<open>The echo of a landed write: the client is taken to hold the bytes it wrote.\<close>

definition prime_echo_unstored :: "sync_env \<Rightarrow> bytes \<Rightarrow> u128 \<Rightarrow> u64 \<Rightarrow> node_meta option \<Rightarrow> sync_core \<Rightarrow> sync_core" where
  "prime_echo_unstored sv wire hash mtime_ns stat c =
    (let c = c\<lparr>sc_held := hm_insert wire hash (sc_held c)\<rparr>
     in if racily_clean sv mtime_ns then c
        else case stat of None \<Rightarrow> c | Some meta \<Rightarrow> teach_hash wire (meta\<lparr>nm_hash := hash\<rparr>) c)"

definition prime_echo :: "sync_env \<Rightarrow> bytes \<Rightarrow> u128 \<Rightarrow> bytes \<Rightarrow> u64 \<Rightarrow> node_meta option \<Rightarrow> sync_core \<Rightarrow> sync_core" where
  "prime_echo sv wire hash data mtime_ns stat c =
    prime_echo_unstored sv wire hash mtime_ns stat (c\<lparr>sc_blobs := blob_put hash data (sc_blobs c)\<rparr>)"

fun land :: "sync_env \<Rightarrow> landing \<Rightarrow> sync_core \<Rightarrow> sync_core" where
  "land sv LdNone c = c"
| "land sv (LdEcho wire hash (Some data) mtime_ns stat) c = prime_echo sv wire hash data mtime_ns stat c"
| "land sv (LdEcho wire hash None mtime_ns stat) c = prime_echo_unstored sv wire hash mtime_ns stat c"

definition read_disk :: "sync_env \<Rightarrow> bytes \<Rightarrow> sync_core \<Rightarrow> content_read \<times> sync_core" where
  "read_disk sv path c =
    (if \<not> sv_resolves sv path then (CrUnreadable, c)
     else case read_verified_meta sv path of
       DrStable data stat \<Rightarrow>
         let hash = sv_hash sv data; c = c\<lparr>sc_blobs := blob_put hash data (sc_blobs c)\<rparr>; stat = stat\<lparr>nm_hash := hash\<rparr>
         in (CrStable hash data, if racily_clean sv (nm_mtime_ns stat) then c else teach_hash path stat c)
     | DrUnstable \<Rightarrow> (CrUnstable, c)
     | DrUnreadable \<Rightarrow> (CrUnreadable, c))"

text \<open>Serving a content from the blob store: the lookup counts as a use.\<close>

definition read_blob :: "u128 \<Rightarrow> sync_core \<Rightarrow> bytes option \<times> sync_core" where
  "read_blob hash c = (case blob_get hash (sc_blobs c) of (found, blobs) \<Rightarrow> (found, c\<lparr>sc_blobs := blobs\<rparr>))"

definition learned_hash :: "bytes \<Rightarrow> node_meta \<Rightarrow> sync_core \<Rightarrow> u128" where
  "learned_hash path meta c = (case hm_get (sc_learned c) path of None \<Rightarrow> 0
     | Some learned \<Rightarrow> if nm_hash learned \<noteq> 0 \<and> nm_type learned = nm_type meta \<and> nm_dev_ino learned = nm_dev_ino meta
         \<and> nm_size learned = nm_size meta \<and> nm_mtime_ns learned = nm_mtime_ns meta then nm_hash learned else 0)"

definition read_content :: "sync_env \<Rightarrow> bytes \<Rightarrow> node_meta \<Rightarrow> sync_core \<Rightarrow> content_read \<times> sync_core" where
  "read_content sv path meta c =
    (let hash = (if nm_hash meta \<noteq> 0 then nm_hash meta else learned_hash path meta c)
     in if hash = 0 then read_disk sv path c
        else case read_blob hash c of
          (Some data, c) \<Rightarrow> (CrStable hash data, c)
        | (None, c) \<Rightarrow> read_disk sv path c)"

definition content_diverged :: "sync_env \<Rightarrow> sync_options \<Rightarrow> bytes \<Rightarrow> index \<Rightarrow> sync_core \<Rightarrow> bool" where
  "content_diverged sv opts path canonical c \<longleftrightarrow> so_content opts
     \<and> (case hm_get (sc_held c) path of None \<Rightarrow> False | Some held \<Rightarrow>
          (case bt_get canonical path of None \<Rightarrow> False | Some meta \<Rightarrow>
             (nm_type meta = FS_ENTRY_FILE \<or> nm_type meta = FS_ENTRY_SYMLINK) \<and> sv_resolves sv path
             \<and> (case read_verified_meta sv path of DrStable data _ \<Rightarrow> sv_hash sv data \<noteq> held | _ \<Rightarrow> False)))"

subsection \<open>One entry\<close>

definition retry_backoff :: "nat \<Rightarrow> nat \<Rightarrow> nat" where
  "retry_backoff failures latency =
    min (latency * (if failures - 1 < 32 then 2 ^ (failures - 1) else 2 ^ 32 - 1)) RETRY_BACKOFF_CAP"

definition note_retry :: "sync_env \<Rightarrow> sync_options \<Rightarrow> bytes \<Rightarrow> nat \<Rightarrow> sync_core \<Rightarrow> sync_core" where
  "note_retry sv opts path prior_failures c = (let failures = prior_failures + 1 in
     c\<lparr>sc_retry := bt_insert path \<lparr>re_failures = failures, re_due = sv_now sv + retry_backoff failures (so_latency opts)\<rparr> (sc_retry c)\<rparr>)"

definition entry_flags_of :: "node_meta \<Rightarrow> u8" where
  "entry_flags_of meta = (nm_type meta AND FS_ENTRY_TYPE_MASK)
     OR (if nm_link_dir meta then FS_ENTRY_LINK_DIR else 0) OR (if nm_filtered meta then FS_ENTRY_FILTERED else 0)"

text \<open>The content section for bytes the client does not hold: a delta when its base is still stored and it is
  clearly smaller.\<close>

definition content_section :: "bytes \<Rightarrow> bytes \<Rightarrow> sync_core \<Rightarrow> fs_content \<times> sync_core" where
  "content_section path data c = (case hm_get (sc_held c) path of None \<Rightarrow> (FcFull data, c)
     | Some base_hash \<Rightarrow> (case read_blob base_hash c of
         (None, c) \<Rightarrow> (FcFull data, c)
       | (Some base, c) \<Rightarrow> let ops = encode_delta base data in
           (if length ops * 8 < length data * 7 then FcDelta ops else FcFull data, c)))"

text \<open>The record of an upsert, if any, with the path's retry taken out.\<close>

definition upsert_record :: "sync_env \<Rightarrow> sync_options \<Rightarrow> bytes \<Rightarrow> node_meta \<Rightarrow> bool \<Rightarrow> sync_core \<Rightarrow> fs_record option \<times> sync_core" where
  "upsert_record sv opts path meta changed c =
    (let prior_failures = (case bt_get (sc_retry c) path of None \<Rightarrow> 0 | Some en \<Rightarrow> re_failures en);
         c = c\<lparr>sc_retry := bt_remove path (sc_retry c)\<rparr>;
         flags = entry_flags_of meta;
         rec = (\<lambda>flags hash content. FsUpsert path flags (nm_size meta) (nm_mtime_ns meta) (nm_mode meta) hash content);
         drop_held = (\<lambda>c. c\<lparr>sc_held := hm_remove path (sc_held c)\<rparr>)
     in if \<not> (nm_type meta = FS_ENTRY_FILE \<or> nm_type meta = FS_ENTRY_SYMLINK) then (Some (rec flags (nm_hash meta) FcNone), c)
        else if \<not> so_content opts \<or> unat (nm_size meta) > min (unat (so_inline_max opts)) MAX_DECOMPRESSED
        then (Some (rec (flags OR FS_ENTRY_NO_CONTENT) (nm_hash meta) FcNone), drop_held c)
        else if changed \<or> nm_hash meta = 0 then
          (case read_content sv path meta c of
             (CrStable hash data, c) \<Rightarrow>
               if hm_get (sc_held c) path = Some hash then (Some (rec flags hash FcNone), c)
               else (case content_section path data c of (content, c) \<Rightarrow>
                 (Some (rec flags hash content), c\<lparr>sc_held := hm_insert path hash (sc_held c)\<rparr>))
           | (CrUnstable, c) \<Rightarrow> let c = note_retry sv opts path prior_failures (drop_held c) in
               (if prior_failures > 0 then None else Some (rec (flags OR FS_ENTRY_UNSTABLE) (nm_hash meta) FcNone), c)
           | (CrUnreadable, c) \<Rightarrow> let c = note_retry sv opts path prior_failures (drop_held c) in
               (if prior_failures > 0 then None else Some (rec (flags OR FS_ENTRY_UNREADABLE) (nm_hash meta) FcNone), c))
        else (Some (rec flags (nm_hash meta) FcNone), c))"

definition append_upsert :: "sync_env \<Rightarrow> sync_options \<Rightarrow> bytes \<Rightarrow> bytes \<Rightarrow> node_meta \<Rightarrow> bool \<Rightarrow> sync_core \<Rightarrow> bytes \<times> sync_core" where
  "append_upsert sv opts buf path meta changed c = (case upsert_record sv opts path meta changed c of
     (None, c) \<Rightarrow> (buf, c) | (Some r, c) \<Rightarrow> (append_fs_record buf r, c))"

text \<open>A move takes the held hashes and the retries along.\<close>

definition rekey_move :: "bytes \<Rightarrow> bytes \<Rightarrow> sync_core \<Rightarrow> sync_core" where
  "rekey_move src dst c =
    (let moved = filter (\<lambda>(path, _). is_under path src) (sc_held c);
         held = fold (\<lambda>(path, _). hm_remove path) moved (sc_held c);
         held = fold (\<lambda>(path, hash). hm_insert (rebase_subtree_path path src dst) hash) moved held;
         retry = fold (\<lambda>path retry. case bt_get retry path of None \<Rightarrow> retry
           | Some en \<Rightarrow> bt_insert (rebase_subtree_path path src dst) en (bt_remove path retry)) (subtree_keys (sc_retry c) src) (sc_retry c)
     in c\<lparr>sc_held := held, sc_retry := retry\<rparr>)"

end
