(* ===== verification/Sync_Emit.thy ===== *)
theory Sync_Emit
  imports Sync_Engine
begin

text \<open>
  The engine's inbox, the acknowledgement window and the emission of updates.  Waiting for credit
  takes messages off the inbox; an empty inbox leaves the engine waiting.
\<close>

subsection \<open>Messages\<close>

text \<open>\<open>checked_sub\<close> on an \<open>Instant\<close>, or else the present.\<close>

definition earlier :: "nat \<Rightarrow> nat \<Rightarrow> nat \<Rightarrow> nat" where
  "earlier now t d = (if d \<le> t then t - d else now)"

definition handle_root :: "sync_env \<Rightarrow> sync_options \<Rightarrow> root_update \<Rightarrow> sync_engine \<Rightarrow> sync_engine outcome" where
  "handle_root sv opts u e = (case u of
     RuSnapshot idx settled changed recheck \<Rightarrow>
       let e = e\<lparr>en_latest := idx, en_snapshot_dirty := True,
                 en_pending_recheck := fold (\<lambda>p. bt_insert p ()) recheck (en_pending_recheck e)\<rparr>;
           e = (case changed of
               Some keys \<Rightarrow> if en_full_diff e then e
                 else e\<lparr>en_pending_changed := fold (\<lambda>p. bt_insert p ()) keys (en_pending_changed e)\<rparr>
             | None \<Rightarrow> e\<lparr>en_full_diff := True, en_pending_changed := []\<rparr>);
           due = (case settled of Some t \<Rightarrow> t | None \<Rightarrow> earlier (sv_now sv) (sv_now sv) (so_latency opts))
       in Goes (e\<lparr>en_pending_since := Some (case en_pending_since e of
            Some existing \<Rightarrow> if existing \<le> due then existing else due | None \<Rightarrow> due)\<rparr>)
   | RuClosed reason \<Rightarrow> Ends (ExClosed reason))"

fun pop_acked :: "u32 \<Rightarrow> (u32 \<times> nat) list \<Rightarrow> nat \<Rightarrow> (u32 \<times> nat) list \<times> nat" where
  "pop_acked update_id [] unacked_bytes = ([], unacked_bytes)"
| "pop_acked update_id ((i, n) # rest) unacked_bytes =
    (if update_id - i < 0x80000000 then pop_acked update_id rest (unacked_bytes - n) else ((i, n) # rest, unacked_bytes))"

definition handle_ack :: "u32 \<Rightarrow> sync_engine \<Rightarrow> sync_engine outcome" where
  "handle_ack update_id e =
    (let ahead = update_id - en_highest_sent e
     in if ahead \<noteq> 0 \<and> ahead < 0x80000000 then Ends (ExClosed FS_CLOSED_BACKEND_FAILED)
        else case pop_acked update_id (en_unacked e) (en_unacked_bytes e) of (unacked, n) \<Rightarrow>
          Goes (e\<lparr>en_unacked := unacked, en_unacked_bytes := n\<rparr>))"

definition handle_msg :: "sync_env \<Rightarrow> sync_options \<Rightarrow> sync_msg \<Rightarrow> sync_engine \<Rightarrow> sync_engine outcome" where
  "handle_msg sv opts msg e = (case msg of
     SmRoot u \<Rightarrow> handle_root sv opts u e
   | SmAck update_id \<Rightarrow> handle_ack update_id e
   | SmRequest l alive \<Rightarrow> if alive then Goes (e\<lparr>en_core := land sv l (en_core e)\<rparr>) else Ends ExClientGone
   | SmStop \<Rightarrow> Ends ExStopped)"

lemma handle_msg_inbox: "handle_msg sv opts msg e = Goes e' \<Longrightarrow> en_inbox e' = en_inbox e"
  by (auto simp: handle_msg_def handle_root_def handle_ack_def Let_def split: sync_msg.splits root_update.splits prod.splits
      option.splits if_splits)

function wait_for_credit :: "sync_env \<Rightarrow> sync_options \<Rightarrow> sync_engine \<Rightarrow> sync_engine outcome" where
  "wait_for_credit sv opts e =
    (if en_unacked_bytes e < so_window_bytes opts then Goes e
     else case en_inbox e of [] \<Rightarrow> Waits
       | msg # rest \<Rightarrow> (case handle_msg sv opts msg (e\<lparr>en_inbox := rest\<rparr>) of
           Goes e \<Rightarrow> wait_for_credit sv opts e | Ends ex \<Rightarrow> Ends ex | Waits \<Rightarrow> Waits))"
  by pat_completeness auto
termination
  by (relation "measure (\<lambda>(_, _, e). length (en_inbox e))") (auto dest: handle_msg_inbox)

declare wait_for_credit.simps [simp del]

text \<open>One update; the flag \<open>reset_pending\<close> is used up.\<close>

definition send_update :: "sync_env \<Rightarrow> sync_options \<Rightarrow> bytes \<Rightarrow> bool \<Rightarrow> bool \<Rightarrow> sync_engine \<Rightarrow> sync_engine outcome" where
  "send_update sv opts records reset_pending sync e = bind_outcome (wait_for_credit sv opts e) (\<lambda>e.
     let flags = (if reset_pending then FS_UPDATE_RESET else 0) OR (if sync then FS_UPDATE_SYNC else 0);
         update_id = en_next_update_id e;
         msg = msg_fs_update (sv_compress sv) (en_sync_id e) update_id flags records;
         e = e\<lparr>en_next_update_id := update_id + 1, en_highest_sent := update_id,
               en_unacked := en_unacked e @ [(update_id, length msg)], en_unacked_bytes := en_unacked_bytes e + length msg\<rparr>
     in if sv_outbox sv msg then Goes (e\<lparr>en_sent := en_sent e @ [msg]\<rparr>) else Ends ExClientGone)"

subsection \<open>Emission\<close>

text \<open>The record of one operation appended to the buffer.\<close>

definition emit_op :: "sync_env \<Rightarrow> sync_options \<Rightarrow> index \<Rightarrow> diff_op \<Rightarrow> bytes \<Rightarrow> sync_core \<Rightarrow> bytes \<times> sync_core" where
  "emit_op sv opts canonical op buf c = (case op of
     DDelete path \<Rightarrow> (append_fs_record buf (FsDelete path), c\<lparr>sc_held := hm_retain (\<lambda>p. \<not> is_under p path) (sc_held c)\<rparr>)
   | DMove src dst \<Rightarrow> (append_fs_record buf (FsMove src dst), c)
   | DUpsert path changed \<Rightarrow> (case bt_get canonical path of None \<Rightarrow> (buf, c)
       | Some meta \<Rightarrow> append_upsert sv opts buf path meta changed c))"

fun emit_ops :: "sync_env \<Rightarrow> sync_options \<Rightarrow> index \<Rightarrow> diff_op list \<Rightarrow> bytes \<Rightarrow> sync_engine \<Rightarrow> sync_engine outcome" where
  "emit_ops sv opts canonical [] buf e = (if buf \<noteq> [] then send_update sv opts buf False False e else Goes e)"
| "emit_ops sv opts canonical (op # ops) buf e = (case emit_op sv opts canonical op buf (en_core e) of (buf, c) \<Rightarrow>
     let e = e\<lparr>en_core := c\<rparr> in
     if length buf \<ge> so_batch_target opts
     then bind_outcome (send_update sv opts buf False False e) (emit_ops sv opts canonical ops [])
     else emit_ops sv opts canonical ops buf e)"

definition upserts_of :: "diff_op list \<Rightarrow> bytes \<Rightarrow> bool" where
  "upserts_of ops path \<longleftrightarrow> list_ex (\<lambda>op. case op of DUpsert p _ \<Rightarrow> p = path | _ \<Rightarrow> False) ops"

text \<open>The due retries, and the entries whose bytes a stat cannot vouch for.\<close>

definition forced_upserts :: "sync_env \<Rightarrow> diff_op list \<Rightarrow> sync_core \<Rightarrow> diff_op list" where
  "forced_upserts sv ops c = map (\<lambda>(path, _). DUpsert path True)
     (filter (\<lambda>(path, en). re_due en \<le> sv_now sv \<and> \<not> upserts_of ops path) (sc_retry c))"

definition racy_upserts :: "sync_env \<Rightarrow> sync_options \<Rightarrow> index \<Rightarrow> path_set \<Rightarrow> diff_op list \<Rightarrow> sync_core \<Rightarrow> diff_op list" where
  "racy_upserts sv opts canonical recheck ops c = map (\<lambda>path. DUpsert path True)
     (filter (\<lambda>path. \<not> upserts_of ops path \<and> content_diverged sv opts path canonical c) (bt_keys recheck))"

definition rekey_moves :: "diff_op list \<Rightarrow> sync_core \<Rightarrow> sync_core" where
  "rekey_moves ops c = fold (\<lambda>op c. case op of DMove src dst \<Rightarrow> rekey_move src dst c | _ \<Rightarrow> c) ops c"

fun emit_entries :: "sync_env \<Rightarrow> sync_options \<Rightarrow> index \<Rightarrow> bytes \<Rightarrow> bool \<Rightarrow> sync_engine \<Rightarrow> sync_engine outcome" where
  "emit_entries sv opts [] buf reset_pending e = send_update sv opts buf reset_pending True e"
| "emit_entries sv opts ((path, meta) # entries) buf reset_pending e =
    (case append_upsert sv opts buf path meta True (en_core e) of (buf, c) \<Rightarrow> let e = e\<lparr>en_core := c\<rparr> in
     if length buf \<ge> so_batch_target opts
     then bind_outcome (send_update sv opts buf reset_pending False e) (emit_entries sv opts entries [] False)
     else emit_entries sv opts entries buf reset_pending e)"

definition emit_initial :: "sync_env \<Rightarrow> sync_options \<Rightarrow> index \<Rightarrow> sync_engine \<Rightarrow> sync_engine outcome" where
  "emit_initial sv opts canonical e = emit_entries sv opts canonical [] True e"

text \<open>The operations of an update series: the difference, then what the engine adds to it.\<close>

definition update_series :: "sync_env \<Rightarrow> sync_options \<Rightarrow> index \<Rightarrow> bool \<Rightarrow> path_set \<Rightarrow> path_set \<Rightarrow> sync_engine \<Rightarrow> diff_op list \<times> sync_core" where
  "update_series sv opts canonical full changed recheck e =
    (let ops = (if full then diff (en_shadow e) canonical else diff_changed (en_shadow e) canonical (bt_keys changed));
         c = rekey_moves ops (en_core e);
         c = c\<lparr>sc_retry := filter (\<lambda>(path, _). bt_get canonical path \<noteq> None) (sc_retry c)\<rparr>;
         ops = ops @ forced_upserts sv ops c
     in (ops @ racy_upserts sv opts canonical recheck ops c, c))"

definition emit_updates :: "sync_env \<Rightarrow> sync_options \<Rightarrow> index \<Rightarrow> bool \<Rightarrow> bool \<Rightarrow> path_set \<Rightarrow> path_set \<Rightarrow> sync_engine \<Rightarrow> sync_engine outcome" where
  "emit_updates sv opts canonical initial full changed recheck e =
    (if initial then emit_initial sv opts canonical e
     else case update_series sv opts canonical full changed recheck e of (ops, c) \<Rightarrow>
       if ops = [] then Goes (e\<lparr>en_core := c\<rparr>) else emit_ops sv opts canonical ops [] (e\<lparr>en_core := c\<rparr>))"

definition tick :: "sync_env \<Rightarrow> sync_options \<Rightarrow> sync_engine \<Rightarrow> sync_engine outcome" where
  "tick sv opts e = (let e = e\<lparr>en_pending_since := None\<rparr> in
     if en_initial_sent e \<and> \<not> en_snapshot_dirty e \<and> sc_retry (en_core e) = [] then Goes e
     else let canonical = en_latest e; initial = \<not> en_initial_sent e; full = en_full_diff e;
              changed = en_pending_changed e; recheck = en_pending_recheck e;
              e = e\<lparr>en_snapshot_dirty := False, en_full_diff := False, en_pending_changed := [], en_pending_recheck := []\<rparr>
       in bind_outcome (emit_updates sv opts canonical initial full changed recheck e) (\<lambda>e.
         let e = e\<lparr>en_shadow := canonical, en_initial_sent := True\<rparr> in
         Goes (if en_snapshot_dirty e then e\<lparr>en_pending_since := Some (sv_now sv)\<rparr>
               else if sc_retry (en_core e) = [] then e
               else e\<lparr>en_pending_since := Some (earlier (sv_now sv) (Min ((re_due \<circ> snd) ` set (sc_retry (en_core e)))) (so_latency opts))\<rparr>)))"

text \<open>One turn of \<open>event_loop\<close>: a message or a timeout, and a tick when the snapshot has settled and there is credit.\<close>

definition engine_turn :: "sync_env \<Rightarrow> sync_options \<Rightarrow> sync_msg option \<Rightarrow> sync_engine \<Rightarrow> sync_engine outcome" where
  "engine_turn sv opts msg e =
    bind_outcome (case msg of None \<Rightarrow> Goes e | Some msg \<Rightarrow> handle_msg sv opts msg e) (\<lambda>e.
      case en_pending_since e of None \<Rightarrow> Goes e
      | Some since \<Rightarrow> if sv_now sv - since \<ge> so_latency opts \<and> en_unacked_bytes e < so_window_bytes opts
          then tick sv opts e else Goes e)"

end
