(* ===== verification/Sync_Roundtrip.thy ===== *)
theory Sync_Roundtrip
  imports Kv_Roundtrip Sync_Wire
begin

text \<open>
  Reading back the records of a file update, with records of unknown kinds skipped, and what an update
  message built from a list of records does to a mirror.
\<close>

subsection \<open>Records\<close>

lemma take_path_push_str:
  assumes "utf8_valid path" "length path < 65536"
  shows "take_path (push_str path @ rest) = Some (path, rest)"
proof -
  have "push_str path = key_field path" using assms(2) by (simp add: push_str_def key_field_def clip_str_id)
  moreover have "take_path body = take_key body" for body by (simp add: take_path_def take_key_def)
  ultimately show ?thesis using take_key_field[OF assms] by simp
qed

fun fs_record_paths :: "fs_record \<Rightarrow> bytes list" where
  "fs_record_paths (FsUpsert path _ _ _ _ _ _) = [path]"
| "fs_record_paths (FsDelete path) = [path]"
| "fs_record_paths (FsMove src dst) = [src, dst]"

definition fs_record_ok :: "fs_record \<Rightarrow> bool" where
  "fs_record_ok r \<longleftrightarrow> (\<forall>p \<in> set (fs_record_paths r). utf8_valid p \<and> length p < 65536) \<and> length (fs_record_body r) < 2 ^ 32"

lemma take_fs_content_bytes:
  assumes "length (fs_content_bytes c) < 2 ^ 32"
  shows "take_fs_content (fs_content_bytes c ! 0) (drop 1 (fs_content_bytes c)) = Some c"
proof -
  have "rd 4 (to_le 4 (length data) @ data) 0 = length data" if "length data < 4294967296" for data :: bytes
    using that by (simp add: rd_head)
  moreover have "slice_of (to_le 4 (length data) @ data) 4 (length data) = data" for data :: bytes
    using slice_at[of "to_le 4 (length data)" 4 "length data" data "[]"] by simp
  ultimately show ?thesis
    using assms by (cases c) (simp_all add: take_fs_content_def fs_content_bytes_def Let_def wire_defs)
qed

lemma take_fs_upsert_body:
  assumes "utf8_valid path" "length path < 65536" "length (fs_content_bytes c) < 2 ^ 32"
  shows "take_fs_upsert (entry_flags # push_str path @ wle 8 sz @ wle 8 mtime_ns @ wle 4 mode @ wle 16 hash @ fs_content_bytes c)
    = Some (FsUpsert path entry_flags sz mtime_ns mode hash c)"
proof -
  define tl where "tl = fs_content_bytes c"
  define b where "b = wle 8 sz @ wle 8 mtime_ns @ wle 4 mode @ wle 16 hash @ tl"
  have path: "take_path (push_str path @ b) = Some (path, b)" by (rule take_path_push_str) (use assms in auto)
  have s: "rdw 8 b 0 = sz" unfolding b_def by (rule rdw_head) simp
  have m: "rdw 8 b 8 = mtime_ns" unfolding b_def by (rule rdw_at) simp_all
  have mo: "rdw 4 b 16 = mode"
    using rdw_at[of "wle 8 sz @ wle 8 mtime_ns" 16 4 mode "wle 16 hash @ tl"] by (simp add: b_def)
  have h: "rdw 16 b 20 = hash"
    using rdw_at[of "wle 8 sz @ wle 8 mtime_ns @ wle 4 mode" 20 16 hash tl] by (simp add: b_def)
  have ne: "tl \<noteq> []" by (simp add: tl_def fs_content_bytes_def split: fs_content.split)
  have d: "b ! 36 = tl ! 0" "drop 37 b = drop 1 tl" "length b = 36 + length tl"
    unfolding b_def by (simp_all add: nth_append)
  have "take_fs_upsert (entry_flags # push_str path @ b) = Some (FsUpsert path entry_flags sz mtime_ns mode hash c)"
    using take_fs_content_bytes[OF assms(3)] ne
    by (simp add: take_fs_upsert_def path Let_def s m mo h d) (simp add: tl_def Suc_le_eq flip: length_greater_0_conv)
  then show ?thesis by (simp add: b_def tl_def)
qed

lemma take_fs_move_body:
  assumes "utf8_valid src" "length src < 65536" "utf8_valid dst" "length dst < 65536"
  shows "take_fs_move (push_str src @ push_str dst) = Some (FsMove src dst)"
  using take_path_push_str[OF assms(1,2), of "push_str dst"] take_path_push_str[OF assms(3,4), of "[]"]
  by (simp add: take_fs_move_def)

text \<open>One framed body at the front of the data.\<close>

lemma fs_next_framed_body:
  assumes "length payload + 1 < 2 ^ 32"
  shows "fs_next (kv_framed (kind # payload) @ rest) =
    (if kind = FS_RECORD_UPSERT then (take_fs_upsert payload, rest)
     else if kind = FS_RECORD_DELETE then (map_option (\<lambda>(path, _). FsDelete path) (take_path payload), rest)
     else if kind = FS_RECORD_MOVE then (take_fs_move payload, rest)
     else fs_next rest)"
proof -
  define n where "n = length (kind # payload)"
  define data where "data = to_le 4 n @ (kind # payload) @ rest"
  have n: "n < 4294967296" "n \<noteq> 0" using assms by (simp_all add: n_def)
  have r: "rd 4 data 0 = n" using n by (simp add: data_def rd_head)
  have sl: "slice_of data 4 n = kind # payload" unfolding data_def n_def by (rule slice_at) simp_all
  have dr: "drop (4 + n) data = rest" "length data = 4 + n + length rest" unfolding data_def n_def by simp_all
  have "fs_next data = (if kind = FS_RECORD_UPSERT then (take_fs_upsert payload, rest)
     else if kind = FS_RECORD_DELETE then (map_option (\<lambda>(path, _). FsDelete path) (take_path payload), rest)
     else if kind = FS_RECORD_MOVE then (take_fs_move payload, rest)
     else fs_next rest)"
    by (subst fs_next.simps) (simp add: Let_def r sl dr n(2))
  then show ?thesis by (simp add: data_def n_def kv_framed_def)
qed

lemma fs_next_record:
  assumes "fs_record_ok r"
  shows "fs_next (kv_framed (fs_record_body r) @ rest) = (Some r, rest)"
proof (cases r)
  case (FsUpsert path entry_flags sz mtime_ns mode hash c)
  have c: "length (fs_content_bytes c) < 2 ^ 32" using assms by (simp add: FsUpsert fs_record_ok_def fs_record_body_def)
  show ?thesis
    using assms take_fs_upsert_body[of path c entry_flags sz mtime_ns mode hash] c
      fs_next_framed_body[of "tl (fs_record_body r)" FS_RECORD_UPSERT rest]
    by (simp add: FsUpsert fs_record_ok_def fs_record_body_def)
next
  case (FsDelete path)
  then show ?thesis
    using assms fs_next_framed_body[of "tl (fs_record_body r)" FS_RECORD_DELETE rest] take_path_push_str[of path "[]"]
    by (simp add: FsDelete fs_record_ok_def fs_record_body_def wire_defs)
next
  case (FsMove src dst)
  then show ?thesis
    using assms fs_next_framed_body[of "tl (fs_record_body r)" FS_RECORD_MOVE rest] take_fs_move_body[of src dst]
    by (simp add: FsMove fs_record_ok_def fs_record_body_def wire_defs)
qed

subsection \<open>Record lists\<close>

datatype fs_frame = FsKnown fs_record | FsUnknown u8 bytes

fun fs_frame_body :: "fs_frame \<Rightarrow> bytes" where
  "fs_frame_body (FsKnown r) = fs_record_body r"
| "fs_frame_body (FsUnknown kind payload) = kind # payload"

fun fs_frame_ok :: "fs_frame \<Rightarrow> bool" where
  "fs_frame_ok (FsKnown r) = fs_record_ok r"
| "fs_frame_ok (FsUnknown kind payload) \<longleftrightarrow> kind \<notin> {FS_RECORD_UPSERT, FS_RECORD_DELETE, FS_RECORD_MOVE}
     \<and> length payload + 1 < 2 ^ 32"

fun fs_frame_record :: "fs_frame \<Rightarrow> fs_record option" where
  "fs_frame_record (FsKnown r) = Some r"
| "fs_frame_record (FsUnknown kind payload) = None"

definition fs_frames_bytes :: "fs_frame list \<Rightarrow> bytes" where
  "fs_frames_bytes fs = concat (map (\<lambda>f. kv_framed (fs_frame_body f)) fs)"

lemma fs_frames_bytes_simps [simp]:
  "fs_frames_bytes [] = []"
  "fs_frames_bytes (f # fs) = kv_framed (fs_frame_body f) @ fs_frames_bytes fs"
  by (simp_all add: fs_frames_bytes_def)

lemma fs_records_short: "length data < 4 \<Longrightarrow> fs_records data = []"
  by (subst fs_records.simps, subst fs_next.simps) simp

lemma fs_records_step: "fs_next data = (Some r, rest) \<Longrightarrow> fs_records data = r # fs_records rest"
  by (subst fs_records.simps) simp

lemma fs_records_skip: "fs_next data = fs_next rest \<Longrightarrow> fs_records data = fs_records rest"
  by (simp add: fs_records.simps[of data] fs_records.simps[of rest])

lemma fs_records_frames:
  "list_all fs_frame_ok fs \<Longrightarrow> length junk < 4 \<Longrightarrow>
    fs_records (fs_frames_bytes fs @ junk) = List.map_filter fs_frame_record fs"
proof (induction fs)
  case Nil
  then show ?case by (simp add: fs_records_short)
next
  case (Cons f fs)
  show ?case
  proof (cases f)
    case (FsKnown r)
    then have "fs_next (kv_framed (fs_record_body r) @ fs_frames_bytes fs @ junk) = (Some r, fs_frames_bytes fs @ junk)"
      using Cons.prems by (intro fs_next_record) simp
    then show ?thesis using Cons FsKnown by (simp add: fs_records_step)
  next
    case (FsUnknown kind payload)
    then have "fs_next (kv_framed (kind # payload) @ fs_frames_bytes fs @ junk) = fs_next (fs_frames_bytes fs @ junk)"
      using Cons.prems fs_next_framed_body[of payload kind "fs_frames_bytes fs @ junk"] by simp
    then have "fs_records (kv_framed (kind # payload) @ fs_frames_bytes fs @ junk) = fs_records (fs_frames_bytes fs @ junk)"
      by (rule fs_records_skip)
    then show ?thesis using Cons FsUnknown by simp
  qed
qed

text \<open>The buffer \<open>append_fs_record\<close> builds from a list of records.\<close>

definition fs_payload :: "fs_record list \<Rightarrow> bytes" where
  "fs_payload rs = fold (\<lambda>r buf. append_fs_record buf r) rs []"

lemma fs_payload_frames: "fs_payload rs = fs_frames_bytes (map FsKnown rs)"
proof -
  have "fold (\<lambda>r buf. append_fs_record buf r) rs buf = buf @ fs_frames_bytes (map FsKnown rs)" for buf
    by (induction rs arbitrary: buf) (simp_all add: append_fs_record_def kv_framed_def)
  then show ?thesis by (simp add: fs_payload_def)
qed

lemma fs_payload_simps [simp]: "fs_payload [] = []" "fs_payload (xs @ [r]) = append_fs_record (fs_payload xs) r"
  by (simp_all add: fs_payload_def)

lemma fs_records_payload:
  assumes "list_all fs_record_ok rs"
  shows "fs_records (fs_payload rs) = rs"
proof -
  have "list_all fs_frame_ok (map FsKnown rs)" using assms by (simp add: list.pred_map comp_def)
  moreover have "List.map_filter fs_frame_record (map FsKnown rs) = rs" by (induction rs) simp_all
  ultimately show ?thesis using fs_records_frames[of "map FsKnown rs" "[]"]
    by (simp add: fs_payload_frames)
qed

subsection \<open>The mirror\<close>

lemma fs_update_fields:
  assumes "lz4_contract compress decompress" "length records \<le> MAX_DECOMPRESSED"
    and m_def: "m = msg_fs_update compress sync_id update_id flags records"
  shows "8 \<le> length m" "m ! 0 = S2C_FS_UPDATE" "rdw 4 m 3 = update_id" "m ! 7 = flags"
    "decompress_guarded decompress (drop 8 m) = Some records"
proof -
  have m: "m = [S2C_FS_UPDATE] @ wle 2 sync_id @ wle 4 update_id @ [flags] @ compress records"
    by (simp add: m_def msg_fs_update_def)
  show "rdw 4 m 3 = update_id"
    using rdw_at[of "[S2C_FS_UPDATE] @ wle 2 sync_id" 3 4 update_id "[flags] @ compress records"] by (simp add: m)
  show "8 \<le> length m" "m ! 0 = S2C_FS_UPDATE" "m ! 7 = flags" by (simp_all add: m nth_append)
  have "drop 8 m = compress records" by (simp add: m)
  then show "decompress_guarded decompress (drop 8 m) = Some records" using decompress_guarded_compress[OF assms(1,2)] by simp
qed

text \<open>An update without flags, applied to a live mirror.\<close>

lemma apply_fs_update_plain:
  assumes "lz4_contract compress decompress" "length (fs_payload rs) \<le> MAX_DECOMPRESSED" "list_all fs_record_ok rs"
  shows "apply_fs_update decompress (msg_fs_update compress sync_id update_id 0 (fs_payload rs)) \<lparr>fm_live = m, fm_staging = None\<rparr>
    = (case apply_fs_records rs m of (m', ok) \<Rightarrow> (\<lparr>fm_live = m', fm_staging = None\<rparr>, if ok then Some update_id else None))"
  using fs_update_fields[OF assms(1,2) refl, of sync_id update_id 0] fs_records_payload[OF assms(3)]
  by (simp add: apply_fs_update_def Let_def split: prod.split)

end
