(* ===== verification/Sync_Follow.thy ===== *)
theory Sync_Follow
  imports Sync_Tree Sync_Emit Sync_Roundtrip
begin

text \<open>
  A client that applies the updates of a sync follows the engine: its mirror shows the snapshot they
  were cut from, and has the contents whose hashes the engine holds for it.
\<close>

subsection \<open>Contents and hashes\<close>

text \<open>\<open>S\<close> is the set of contents that are sent; the hash tells them apart.\<close>

definition hashed_contents :: "sync_env \<Rightarrow> bytes set \<Rightarrow> bool" where
  "hashed_contents sv S \<longleftrightarrow> inj_on (sv_hash sv) S \<and> (\<forall>d \<in> S. length d \<le> MAX_DECOMPRESSED)"

definition blobs_hashed :: "sync_env \<Rightarrow> bytes set \<Rightarrow> blob_store \<Rightarrow> bool" where
  "blobs_hashed sv S bs \<longleftrightarrow> blob_ok bs \<and> (\<forall>h d. blob_content bs h = Some d \<longrightarrow> sv_hash sv d = h \<and> d \<in> S)"

definition reads_stable :: "sync_env \<Rightarrow> bytes \<Rightarrow> bool" where
  "reads_stable sv path \<longleftrightarrow> sv_resolves sv path \<and> (\<exists>data stat. read_verified_meta sv path = DrStable data stat)"

definition reads_in :: "sync_env \<Rightarrow> bytes set \<Rightarrow> bytes \<Rightarrow> bool" where
  "reads_in sv S path \<longleftrightarrow> (\<forall>i d. sv_read sv path i = Some d \<longrightarrow> d \<in> S)"

text \<open>
  The entries whose content an update carries: files and links within the size limit, in a sync that
  wants contents. Only these are read; nothing is asked of a directory, of a file that is too large or
  of what a sync without contents shows.
\<close>

definition carries_content :: "sync_options \<Rightarrow> node_meta \<Rightarrow> bool" where
  "carries_content opts meta \<longleftrightarrow> nm_type meta \<in> {FS_ENTRY_FILE, FS_ENTRY_SYMLINK} \<and> so_content opts
     \<and> unat (nm_size meta) \<le> min (unat (so_inline_max opts)) MAX_DECOMPRESSED"

definition entry_reads :: "sync_env \<Rightarrow> sync_options \<Rightarrow> bytes set \<Rightarrow> bytes \<Rightarrow> node_meta \<Rightarrow> bool" where
  "entry_reads sv opts S path meta \<longleftrightarrow> (carries_content opts meta \<longrightarrow> reads_stable sv path \<and> reads_in sv S path)"

lemma read_attempts_from: "read_attempts stat read_at i n = DrStable data st \<Longrightarrow> \<exists>j. read_at j = Some data"
  by (induction n arbitrary: i) (auto split: option.splits if_splits)

lemma read_disk_hashed:
  assumes "reads_in sv S path" "blobs_hashed sv S (sc_blobs c)" "read_disk sv path c = (r, c')"
  shows "blobs_hashed sv S (sc_blobs c')" "sc_held c' = sc_held c" "sc_retry c' = sc_retry c"
    "r = CrStable h d \<Longrightarrow> h = sv_hash sv d \<and> d \<in> S" "reads_stable sv path \<Longrightarrow> \<exists>h d. r = CrStable h d"
proof -
  show "sc_held c' = sc_held c" "sc_retry c' = sc_retry c" "reads_stable sv path \<Longrightarrow> \<exists>h d. r = CrStable h d"
    using assms(3) by (auto simp: read_disk_def teach_hash_def reads_stable_def Let_def split: if_splits disk_read.splits)
  have S: "data \<in> S" if "read_verified_meta sv path = DrStable data st" for data st
    using that assms(1) read_attempts_from[of "sv_stat sv path" "sv_read sv path" 0 2 data st]
    by (auto simp: read_verified_meta_def reads_in_def)
  have put: "blobs_hashed sv S (blob_put (sv_hash sv data) data (sc_blobs c))" if "data \<in> S" for data
    using assms(2) that blob_put_ok(1,4)[of "sc_blobs c" "sv_hash sv data" data] by (auto simp: blobs_hashed_def)
  show "r = CrStable h d \<Longrightarrow> h = sv_hash sv d \<and> d \<in> S"
    using assms(3) S by (auto simp: read_disk_def Let_def split: if_splits disk_read.splits)
  show "blobs_hashed sv S (sc_blobs c')"
    using assms(2,3) S put by (auto simp: read_disk_def teach_hash_def Let_def split: if_splits disk_read.splits)
qed

lemma read_blob_hashed:
  assumes "blobs_hashed sv S (sc_blobs c)" "read_blob hash c = (r, c')"
  shows "blobs_hashed sv S (sc_blobs c')" "sc_held c' = sc_held c" "sc_retry c' = sc_retry c"
    "r = Some d \<Longrightarrow> hash = sv_hash sv d \<and> d \<in> S"
proof -
  have ok: "blob_ok (sc_blobs c)" using assms(1) by (simp add: blobs_hashed_def)
  have c': "c' = c\<lparr>sc_blobs := snd (blob_get hash (sc_blobs c))\<rparr>" "r = blob_content (sc_blobs c) hash"
    using assms(2) blob_get_content[of hash "sc_blobs c"] by (auto simp: read_blob_def split: prod.splits)
  show "blobs_hashed sv S (sc_blobs c')" "sc_held c' = sc_held c" "sc_retry c' = sc_retry c"
    "r = Some d \<Longrightarrow> hash = sv_hash sv d \<and> d \<in> S"
    using assms(1) blob_get_ok[OF ok, of hash] by (auto simp: c' blobs_hashed_def)
qed

lemma read_content_hashed:
  assumes "reads_in sv S path" "blobs_hashed sv S (sc_blobs c)" "read_content sv path meta c = (r, c')"
  shows "blobs_hashed sv S (sc_blobs c')" "sc_held c' = sc_held c" "sc_retry c' = sc_retry c"
    "r = CrStable h d \<Longrightarrow> h = sv_hash sv d \<and> d \<in> S" "reads_stable sv path \<Longrightarrow> \<exists>h d. r = CrStable h d"
proof -
  define hash where "hash = (if nm_hash meta \<noteq> 0 then nm_hash meta else learned_hash path meta c)"
  obtain found c1 where b: "read_blob hash c = (found, c1)" by (cases "read_blob hash c")
  note B = read_blob_hashed[OF assms(2) b]
  have rc: "read_content sv path meta c = (if hash = 0 then read_disk sv path c
      else case found of Some data \<Rightarrow> (CrStable hash data, c1) | None \<Rightarrow> read_disk sv path c1)"
    by (simp add: read_content_def hash_def[symmetric] b Let_def split: option.split)
  have "blobs_hashed sv S (sc_blobs c') \<and> sc_held c' = sc_held c \<and> sc_retry c' = sc_retry c
    \<and> (r = CrStable h d \<longrightarrow> h = sv_hash sv d \<and> d \<in> S) \<and> (reads_stable sv path \<longrightarrow> (\<exists>h d. r = CrStable h d))"
  proof (cases "hash = 0")
    case True
    then have "read_disk sv path c = (r, c')" using assms(3) rc by simp
    from read_disk_hashed[OF assms(1,2) this] show ?thesis by blast
  next
    case False
    show ?thesis
    proof (cases found)
      case None
      then have "read_disk sv path c1 = (r, c')" using assms(3) rc False by simp
      from read_disk_hashed[OF assms(1) B(1) this] show ?thesis using B(2,3) by auto
    next
      case (Some data)
      then have "r = CrStable hash data" "c' = c1" using assms(3) rc False by simp_all
      then show ?thesis using B Some by auto
    qed
  qed
  then show "blobs_hashed sv S (sc_blobs c')" "sc_held c' = sc_held c" "sc_retry c' = sc_retry c"
    "r = CrStable h d \<Longrightarrow> h = sv_hash sv d \<and> d \<in> S" "reads_stable sv path \<Longrightarrow> \<exists>h d. r = CrStable h d" by blast+
qed

subsection \<open>What the client shows\<close>

definition FS_VISIBLE_FLAGS :: u8 where "FS_VISIBLE_FLAGS = FS_ENTRY_TYPE_MASK OR FS_ENTRY_LINK_DIR OR FS_ENTRY_FILTERED"

definition node_view :: "fs_node \<Rightarrow> u8 \<times> u64 \<times> u64 \<times> u32" where
  "node_view n = (fn_flags n AND FS_VISIBLE_FLAGS, fn_size n, fn_mtime_ns n, fn_mode n)"

definition meta_view :: "node_meta \<Rightarrow> u8 \<times> u64 \<times> u64 \<times> u32" where
  "meta_view m = (entry_flags_of m, nm_size m, nm_mtime_ns m, nm_mode m)"

definition client_tree :: "(bytes, fs_node) btree_map \<Rightarrow> bytes \<Rightarrow> (u8 \<times> u64 \<times> u64 \<times> u32) option" where
  "client_tree m p = map_option node_view (bt_get m p)"

definition index_tree :: "index \<Rightarrow> bytes \<Rightarrow> (u8 \<times> u64 \<times> u64 \<times> u32) option" where
  "index_tree idx p = map_option meta_view (bt_get idx p)"

definition held_by :: "sync_env \<Rightarrow> bytes set \<Rightarrow> (bytes, u128) hash_map \<Rightarrow> (bytes \<Rightarrow> fs_node option) \<Rightarrow> bool" where
  "held_by sv S held t \<longleftrightarrow> hm_inv held \<and> (\<forall>p h. hm_get held p = Some h \<longrightarrow> (\<exists>n d. t p = Some n \<and> fn_content n = Some d
     \<and> sv_hash sv d = h \<and> d \<in> S \<and> entry_type (fn_flags n) \<in> {FS_ENTRY_FILE, FS_ENTRY_SYMLINK}))"

lemma entry_flags_of_visible: "entry_flags_of m AND FS_VISIBLE_FLAGS = entry_flags_of m"
  "entry_type (entry_flags_of m) = nm_type m AND FS_ENTRY_TYPE_MASK"
  by (simp_all add: entry_flags_of_def FS_VISIBLE_FLAGS_def entry_type_def wire_defs bit.conj_disj_distrib2 and.assoc)

lemma flags_extra:
  "(f OR FS_ENTRY_NO_CONTENT) AND FS_VISIBLE_FLAGS = f AND FS_VISIBLE_FLAGS"
  "entry_type (f OR FS_ENTRY_NO_CONTENT) = entry_type f"
  by (simp_all add: FS_VISIBLE_FLAGS_def entry_type_def wire_defs bit.conj_disj_distrib2)

lemma entry_flags_of_plain: "entry_flags_of m AND (FS_ENTRY_NO_CONTENT OR FS_ENTRY_UNREADABLE OR FS_ENTRY_UNSTABLE) = 0"
  by (simp add: entry_flags_of_def wire_defs bit.conj_disj_distrib2 and.assoc)

subsection \<open>One upsert\<close>

lemma read_content_held: "read_content sv path meta c = (r, c') \<Longrightarrow> sc_held c' = sc_held c"
  by (auto simp: read_content_def read_disk_def read_blob_def teach_hash_def Let_def split: if_splits option.splits prod.splits disk_read.splits)

lemma upsert_record_stable:
  assumes "nm_type meta \<in> {FS_ENTRY_FILE, FS_ENTRY_SYMLINK}" "so_content opts"
    and "unat (nm_size meta) \<le> min (unat (so_inline_max opts)) MAX_DECOMPRESSED"
    and read: "read_content sv path meta (c\<lparr>sc_retry := bt_remove path (sc_retry c)\<rparr>) = (CrStable hash data, c1)"
  shows "upsert_record sv opts path meta True c =
    (let r = FsUpsert path (entry_flags_of meta) (nm_size meta) (nm_mtime_ns meta) (nm_mode meta) hash
     in if hm_get (sc_held c) path = Some hash then (Some (r FcNone), c1)
        else case content_section path data c1 of (content, c2) \<Rightarrow> (Some (r content), c2\<lparr>sc_held := hm_insert path hash (sc_held c2)\<rparr>))"
proof -
  have "\<not> min (unat (so_inline_max opts)) MAX_DECOMPRESSED < unat (nm_size meta)" using assms(3) by (simp only: not_less)
  moreover have "sc_held c1 = sc_held c" using read_content_held[OF read] by simp
  ultimately show ?thesis using assms(1,2) by (auto simp: upsert_record_def Let_def read split: prod.split)
qed

lemma content_section_facts:
  assumes "blobs_hashed sv S (sc_blobs c)" "content_section path data c = (content, c')"
  shows "blobs_hashed sv S (sc_blobs c')" "sc_held c' = sc_held c" "sc_retry c' = sc_retry c"
    "content = FcFull data \<or> (\<exists>base. hm_get (sc_held c) path = Some (sv_hash sv base) \<and> base \<in> S
       \<and> content = FcDelta (encode_delta base data) \<and> length (encode_delta base data) * 8 < length data * 7)"
proof -
  have "blobs_hashed sv S (sc_blobs c') \<and> sc_held c' = sc_held c \<and> sc_retry c' = sc_retry c
    \<and> (content = FcFull data \<or> (\<exists>base. hm_get (sc_held c) path = Some (sv_hash sv base) \<and> base \<in> S
       \<and> content = FcDelta (encode_delta base data) \<and> length (encode_delta base data) * 8 < length data * 7))"
  proof (cases "hm_get (sc_held c) path")
    case None
    then show ?thesis using assms by (simp add: content_section_def)
  next
    case (Some base_hash)
    obtain found c1 where b: "read_blob base_hash c = (found, c1)" by (cases "read_blob base_hash c")
    note B = read_blob_hashed[OF assms(1) b]
    have "(content, c') = (case found of None \<Rightarrow> (FcFull data, c1) | Some base \<Rightarrow>
        (if length (encode_delta base data) * 8 < length data * 7 then FcDelta (encode_delta base data) else FcFull data, c1))"
      using assms(2) by (cases found) (auto simp: content_section_def Some b Let_def split: if_splits)
    then show ?thesis using Some B by (cases found) (auto split: if_splits)
  qed
  then show "blobs_hashed sv S (sc_blobs c')" "sc_held c' = sc_held c" "sc_retry c' = sc_retry c"
    "content = FcFull data \<or> (\<exists>base. hm_get (sc_held c) path = Some (sv_hash sv base) \<and> base \<in> S
       \<and> content = FcDelta (encode_delta base data) \<and> length (encode_delta base data) * 8 < length data * 7)" by blast+
qed

definition content_size :: "fs_content \<Rightarrow> nat" where
  "content_size c = (case c of FcNone \<Rightarrow> 0 | FcFull d \<Rightarrow> length d | FcDelta ops \<Rightarrow> length ops)"

text \<open>The outcomes of an upsert: without a content, or with one that is read as it stands.\<close>

definition upsert_outcome :: "sync_env \<Rightarrow> bytes set \<Rightarrow> bytes \<Rightarrow> node_meta \<Rightarrow> sync_core \<Rightarrow> fs_record \<Rightarrow> sync_core \<Rightarrow> bool" where
  "upsert_outcome sv S path meta c r c' \<longleftrightarrow> (\<exists>flags hash content. r = FsUpsert path flags (nm_size meta) (nm_mtime_ns meta) (nm_mode meta) hash content
     \<and> (flags = entry_flags_of meta \<and> content = FcNone \<and> sc_held c' = sc_held c
        \<or> flags = entry_flags_of meta OR FS_ENTRY_NO_CONTENT \<and> content = FcNone \<and> sc_held c' = hm_remove path (sc_held c)
        \<or> nm_type meta \<in> {FS_ENTRY_FILE, FS_ENTRY_SYMLINK} \<and> flags = entry_flags_of meta
          \<and> (\<exists>data \<in> S. hash = sv_hash sv data \<and> sc_held c' = hm_insert path hash (sc_held c)
            \<and> (content = FcFull data \<or> (\<exists>base. hm_get (sc_held c) path = Some (sv_hash sv base) \<and> base \<in> S
               \<and> content = FcDelta (encode_delta base data) \<and> length (encode_delta base data) * 8 < length data * 7)))))"

lemma upsert_record_outcome:
  assumes "entry_reads sv opts S path meta" "blobs_hashed sv S (sc_blobs c)"
    and u: "upsert_record sv opts path meta changed c = (ro, c')"
  shows "blobs_hashed sv S (sc_blobs c') \<and> (\<exists>r. ro = Some r \<and> upsert_outcome sv S path meta c r c')"
proof -
  define c0 where "c0 = c\<lparr>sc_retry := bt_remove path (sc_retry c)\<rparr>"
  have c0: "sc_held c0 = sc_held c" "sc_blobs c0 = sc_blobs c" by (simp_all add: c0_def)
  note U = u[unfolded upsert_record_def Let_def, folded c0_def]
  show ?thesis
  proof (cases "(nm_type meta = FS_ENTRY_FILE \<or> nm_type meta = FS_ENTRY_SYMLINK)
      \<and> \<not> (\<not> so_content opts \<or> unat (nm_size meta) > min (unat (so_inline_max opts)) MAX_DECOMPRESSED) \<and> (changed \<or> nm_hash meta = 0)")
    case False
    then show ?thesis using U assms(2) c0 by (auto simp: upsert_outcome_def split: if_splits)
  next
    case True
    then have st: "reads_stable sv path" "reads_in sv S path"
      using assms(1) by (auto simp: entry_reads_def carries_content_def)
    obtain r1 c1 where rc: "read_content sv path meta c0 = (r1, c1)" by (cases "read_content sv path meta c0")
    note R = read_content_hashed[OF st(2) _ rc, unfolded c0, OF assms(2)]
    obtain h d where hd: "r1 = CrStable h d" using R(5) st(1) by blast
    note D = R(4)[OF hd]
    show ?thesis
    proof (cases "hm_get (sc_held c1) path = Some h")
      case same: True
      have "ro = Some (FsUpsert path (entry_flags_of meta) (nm_size meta) (nm_mtime_ns meta) (nm_mode meta) h FcNone)" "c' = c1"
        using U True rc hd same by auto
      then show ?thesis using R(1,2) by (simp add: upsert_outcome_def)
    next
      case False
      obtain content c2 where cs: "content_section path d c1 = (content, c2)" by (cases "content_section path d c1")
      note C = content_section_facts[OF R(1) cs]
      have "ro = Some (FsUpsert path (entry_flags_of meta) (nm_size meta) (nm_mtime_ns meta) (nm_mode meta) h content)"
        "c' = c2\<lparr>sc_held := hm_insert path h (sc_held c2)\<rparr>"
        using U True rc hd False cs by auto
      then show ?thesis using C R(2) D True by (auto simp: upsert_outcome_def)
    qed
  qed
qed

text \<open>The record of an upsert applied to the mirror.\<close>

definition types_agree :: "index \<Rightarrow> (bytes, fs_node) btree_map \<Rightarrow> bool" where
  "types_agree canonical m \<longleftrightarrow> (\<forall>p n meta. bt_get m p = Some n \<longrightarrow> bt_get canonical p = Some meta
     \<longrightarrow> entry_type (fn_flags n) = nm_type meta)"

lemma upsert_simulates:
  assumes "upsert_outcome sv S path meta c r c'" "hashed_contents sv S" "held_by sv S (sc_held c) (bt_get m)" "bt_inv m"
    and type: "nm_type meta AND FS_ENTRY_TYPE_MASK = nm_type meta"
    and same: "\<And>n. bt_get m path = Some n \<Longrightarrow> entry_type (fn_flags n) = nm_type meta"
  shows "\<exists>n. apply_fs_record r m = (bt_insert path n m, True) \<and> node_view n = meta_view meta
    \<and> entry_type (fn_flags n) = nm_type meta \<and> held_by sv S (sc_held c') ((bt_get m)(path \<mapsto> n))"
proof -
  obtain flags hash content where r: "r = FsUpsert path flags (nm_size meta) (nm_mtime_ns meta) (nm_mode meta) hash content"
    and cases: "flags = entry_flags_of meta \<and> content = FcNone \<and> sc_held c' = sc_held c
        \<or> flags = entry_flags_of meta OR FS_ENTRY_NO_CONTENT \<and> content = FcNone \<and> sc_held c' = hm_remove path (sc_held c)
        \<or> nm_type meta \<in> {FS_ENTRY_FILE, FS_ENTRY_SYMLINK} \<and> flags = entry_flags_of meta
          \<and> (\<exists>data \<in> S. hash = sv_hash sv data \<and> sc_held c' = hm_insert path hash (sc_held c)
            \<and> (content = FcFull data \<or> (\<exists>base. hm_get (sc_held c) path = Some (sv_hash sv base) \<and> base \<in> S
               \<and> content = FcDelta (encode_delta base data) \<and> length (encode_delta base data) * 8 < length data * 7)))"
    using assms(1) unfolding upsert_outcome_def by blast
  have inv: "hm_inv (sc_held c)" using assms(3) by (simp add: held_by_def)
  have flags: "flags AND FS_VISIBLE_FLAGS = entry_flags_of meta" "entry_type flags = nm_type meta"
    using cases entry_flags_of_visible[of meta] flags_extra[of "entry_flags_of meta"] type by auto
  let ?node = "\<lambda>content. \<lparr>fn_flags = flags, fn_size = nm_size meta, fn_mtime_ns = nm_mtime_ns meta, fn_mode = nm_mode meta,
      fn_hash = hash, fn_content = content\<rparr>"
  have finish: ?thesis if "upsert_content flags content (bt_get m path) = Some x"
    "held_by sv S (sc_held c') ((bt_get m)(path \<mapsto> ?node x))" for x
    using that flags by (intro exI[of _ "?node x"]) (simp add: apply_fs_record_def r node_view_def meta_view_def)
  have held: "\<exists>n d. bt_get m p = Some n \<and> fn_content n = Some d \<and> sv_hash sv d = h \<and> d \<in> S
      \<and> entry_type (fn_flags n) \<in> {FS_ENTRY_FILE, FS_ENTRY_SYMLINK}" if "hm_get (sc_held c) p = Some h" for p h
    using assms(3) that by (simp add: held_by_def)
  from cases show ?thesis
  proof (elim disjE)
    assume c: "flags = entry_flags_of meta \<and> content = FcNone \<and> sc_held c' = sc_held c"
    show ?thesis
    proof (rule finish)
      show "upsert_content flags content (bt_get m path) = Some (kept_content flags (bt_get m path))"
        using c by (simp add: upsert_content_def)
      show "held_by sv S (sc_held c') ((bt_get m)(path \<mapsto> ?node (kept_content flags (bt_get m path))))"
        unfolding held_by_def
      proof (intro conjI allI impI)
        fix p h assume h: "hm_get (sc_held c') p = Some h"
        have "hm_get (sc_held c) p = Some h" using h c by simp
        from held[OF this] obtain n d where nd: "bt_get m p = Some n" "fn_content n = Some d" "sv_hash sv d = h" "d \<in> S"
          "entry_type (fn_flags n) \<in> {FS_ENTRY_FILE, FS_ENTRY_SYMLINK}" by blast
        show "\<exists>n d. ((bt_get m)(path \<mapsto> ?node (kept_content flags (bt_get m path)))) p = Some n \<and> fn_content n = Some d
          \<and> sv_hash sv d = h \<and> d \<in> S \<and> entry_type (fn_flags n) \<in> {FS_ENTRY_FILE, FS_ENTRY_SYMLINK}"
        proof (cases "p = path")
          case True
          have "kept_content flags (bt_get m path) = Some d"
            using nd True same flags(2) c entry_flags_of_plain[of meta] by (auto simp: kept_content_def)
          then show ?thesis using nd True same flags(2) by auto
        qed (use nd in auto)
      qed (use inv c in simp)
    qed
  next
    assume c: "flags = entry_flags_of meta OR FS_ENTRY_NO_CONTENT \<and> content = FcNone \<and> sc_held c' = hm_remove path (sc_held c)"
    show ?thesis
      by (rule finish[of "kept_content flags (bt_get m path)"])
        (use c held inv in \<open>auto simp: upsert_content_def held_by_def hm.store_laws\<close>)
  next
    assume c: "nm_type meta \<in> {FS_ENTRY_FILE, FS_ENTRY_SYMLINK} \<and> flags = entry_flags_of meta
          \<and> (\<exists>data \<in> S. hash = sv_hash sv data \<and> sc_held c' = hm_insert path hash (sc_held c)
            \<and> (content = FcFull data \<or> (\<exists>base. hm_get (sc_held c) path = Some (sv_hash sv base) \<and> base \<in> S
               \<and> content = FcDelta (encode_delta base data) \<and> length (encode_delta base data) * 8 < length data * 7)))"
    then obtain data where data: "data \<in> S" "hash = sv_hash sv data" "sc_held c' = hm_insert path hash (sc_held c)"
      and sec: "content = FcFull data \<or> (\<exists>base. hm_get (sc_held c) path = Some (sv_hash sv base) \<and> base \<in> S
               \<and> content = FcDelta (encode_delta base data))" by blast
    have fits: "length d \<le> MAX_DECOMPRESSED" if "d \<in> S" for d using assms(2) that by (simp add: hashed_contents_def)
    have "upsert_content flags content (bt_get m path) = Some (Some data)"
    proof (cases "content = FcFull data")
      case False
      then obtain base where b: "hm_get (sc_held c) path = Some (sv_hash sv base)" "base \<in> S" "content = FcDelta (encode_delta base data)"
        using sec by blast
      obtain n d where nd: "bt_get m path = Some n" "fn_content n = Some d" "sv_hash sv d = sv_hash sv base" "d \<in> S"
        using held[OF b(1)] by blast
      have "d = base" using nd b assms(2) by (auto simp: hashed_contents_def dest: inj_onD)
      moreover have "length base < 2 ^ 64" using fits[OF b(2)] by (simp add: MAX_DECOMPRESSED_def)
      ultimately show ?thesis
        using apply_encode_delta[OF fits[OF data(1)]] nd b(3) by (simp add: upsert_content_def)
    qed (simp add: upsert_content_def)
    then show ?thesis
      by (rule finish) (use data c held inv flags(2) in \<open>auto simp: held_by_def hm.store_laws\<close>)
  qed
qed

end
