(* ===== verification/Sync_Series.thy ===== *)
theory Sync_Series
  imports Sync_Follow
begin

text \<open>
  A whole series of operations: the records the engine makes of it, and the client that applies them.
\<close>

subsection \<open>Moves\<close>

definition follows :: "sync_env \<Rightarrow> bytes set \<Rightarrow> (bytes, fs_node) btree_map \<Rightarrow> sync_core \<Rightarrow> bool" where
  "follows sv S m c \<longleftrightarrow> bt_inv m \<and> (\<forall>k \<in> dom (bt_get m). path_ok k) \<and> held_by sv S (sc_held c) (bt_get m)
     \<and> blobs_hashed sv S (sc_blobs c)"

lemma rekey_move_held:
  assumes "hm_inv (sc_held c)" "src \<noteq> []" "dst \<noteq> []" "\<forall>k \<in> dom (hm_get (sc_held c)). path_ok k"
  shows "hm_inv (sc_held (rekey_move src dst c))"
    "hm_get (sc_held (rekey_move src dst c)) = mv_map src dst (hm_get (sc_held c))"
    "sc_blobs (rekey_move src dst c) = sc_blobs c"
proof -
  let ?h = "sc_held c" and ?moved = "filter (\<lambda>(path, _). is_under path src) (sc_held c)"
  let ?ks = "map fst ?moved"
  let ?h1 = "fold hm_remove ?ks ?h" and ?kvs = "map (\<lambda>k. (shift src dst k, the (hm_get ?h k))) ?ks"
  have get: "hm_get ?h k = Some v" if "(k, v) \<in> set ?h" for k v
    using assms(1) that by (simp add: hm_inv_def hm_get_def)
  have rm: "fold (\<lambda>(path, _). hm_remove path) xs h = fold hm_remove (map fst xs) h" for xs and h :: "(bytes, u128) hash_map"
    by (induction xs arbitrary: h) auto
  have ins: "fold (\<lambda>(path, hash). hm_insert (rebase_subtree_path path src dst) hash) xs h
      = fold (\<lambda>(k, v). hm_insert k v) (map (\<lambda>k. (shift src dst k, the (hm_get ?h k))) (map fst xs)) h"
    if "set xs \<subseteq> set ?moved" for xs and h :: "(bytes, u128) hash_map"
    using that
  proof (induction xs arbitrary: h)
    case (Cons x xs)
    obtain k v where x: "x = (k, v)" by (cases x)
    have "is_under k src" "(k, v) \<in> set ?h" using Cons.prems x by auto
    then have "rebase_subtree_path k src dst = shift src dst k" "hm_get ?h k = Some v"
      using assms(2-4) get by (auto intro!: rebase_shift)
    then show ?case using Cons by (simp add: x)
  qed simp
  have held: "sc_held (rekey_move src dst c) = fold (\<lambda>(k, v). hm_insert k v) ?kvs ?h1"
    using ins[of ?moved] by (simp add: rekey_move_def Let_def rm)
  have inv: "hm_inv ?h1" by (rule hm.inv_delete_all[OF assms(1)])
  have dom: "dom (hm_get ?h) = fst ` set ?h" using hm.set_keys[OF assms(1)] by (simp add: hm_keys_def)
  have ks: "set ?ks = {k \<in> dom (hm_get ?h). is_under k src}" by (auto simp: dom)
  have dist: "distinct ?ks" using assms(1) by (simp add: hm_inv_def distinct_map_filter)
  have h1: "hm_get ?h1 = (\<lambda>k. if is_under k src then None else hm_get ?h k)"
    using hm.lookup_delete_all[OF assms(1)] ks by (auto simp: fun_eq_iff)
  show "hm_inv (sc_held (rekey_move src dst c))" unfolding held by (rule hm.inv_insert_all[OF inv])
  show "hm_get (sc_held (rekey_move src dst c)) = mv_map src dst (hm_get ?h)"
    unfolding held hm.lookup_insert_all[OF inv] h1 by (rule moved_entries[OF dist ks assms(2,3)])
  show "sc_blobs (rekey_move src dst c) = sc_blobs c" by (simp add: rekey_move_def Let_def)
qed

lemma client_tree_mv: "bt_get m' = mv_map src dst (bt_get m) \<Longrightarrow> client_tree m' = mv_map src dst (client_tree m)"
  by (auto simp: client_tree_def[abs_def] mv_map_def fun_eq_iff)

lemma move_follows:
  assumes "follows sv S m c" "src \<noteq> []" "dst \<noteq> []" "path_ok dst" "\<And>k. is_under k dst \<Longrightarrow> bt_get m k = None"
  shows "follows sv S (move_subtree src dst m) (rekey_move src dst c)"
    "client_tree (move_subtree src dst m) = mv_map src dst (client_tree m)"
    "bt_get (move_subtree src dst m) = mv_map src dst (bt_get m)"
proof -
  have F: "bt_inv m" "\<forall>k \<in> dom (bt_get m). path_ok k" "held_by sv S (sc_held c) (bt_get m)" "blobs_hashed sv S (sc_blobs c)"
    using assms(1) by (simp_all add: follows_def)
  have hinv: "hm_inv (sc_held c)" using F(3) by (simp add: held_by_def)
  have held: "\<exists>n d. bt_get m p = Some n \<and> fn_content n = Some d \<and> sv_hash sv d = h \<and> d \<in> S
      \<and> entry_type (fn_flags n) \<in> {FS_ENTRY_FILE, FS_ENTRY_SYMLINK}" if "hm_get (sc_held c) p = Some h" for p h
    using F(3) that by (simp add: held_by_def)
  have hok: "\<forall>k \<in> dom (hm_get (sc_held c)). path_ok k" using held F(2) by blast
  note mv = bt_get_move_subtree[OF F(1) assms(2,3) F(2)]
  note rk = rekey_move_held[OF hinv assms(2,3) hok]
  show get: "bt_get (move_subtree src dst m) = mv_map src dst (bt_get m)" by (rule mv(2))
  show "client_tree (move_subtree src dst m) = mv_map src dst (client_tree m)" by (rule client_tree_mv[OF mv(2)])
  have "path_ok k" if "k \<in> dom (mv_map src dst (bt_get m))" for k
  proof (cases "is_under k dst \<and> bt_get m (shift dst src k) \<noteq> None")
    case True
    then have "shift src dst (shift dst src k) = k" "is_under (shift dst src k) src" using shift_back shift_under assms(2,3) by blast+
    then show ?thesis using shift_path_ok[of "shift dst src k" src dst] True F(2) assms(2,4) by fastforce
  next
    case False
    then show ?thesis using that F(2) by (auto simp: mv_map_def split: if_splits)
  qed
  moreover have "held_by sv S (sc_held (rekey_move src dst c)) (mv_map src dst (bt_get m))"
    unfolding held_by_def
  proof (intro conjI allI impI)
    fix p h assume "hm_get (sc_held (rekey_move src dst c)) p = Some h"
    then have h: "mv_map src dst (hm_get (sc_held c)) p = Some h" by (simp add: rk(2))
    show "\<exists>n d. mv_map src dst (bt_get m) p = Some n \<and> fn_content n = Some d \<and> sv_hash sv d = h \<and> d \<in> S
      \<and> entry_type (fn_flags n) \<in> {FS_ENTRY_FILE, FS_ENTRY_SYMLINK}"
    proof (cases "is_under p dst \<and> hm_get (sc_held c) (shift dst src p) \<noteq> None")
      case True
      then have "hm_get (sc_held c) (shift dst src p) = Some h" using h by (auto simp: mv_map_def)
      from held[OF this] show ?thesis using True by (auto simp: mv_map_def)
    next
      case False
      then have p: "hm_get (sc_held c) p = Some h" "\<not> is_under p src" using h by (auto simp: mv_map_def split: if_splits)
      then have "\<not> is_under p dst" using held[OF p(1)] assms(5)[of p] by auto
      then show ?thesis using held[OF p(1)] p(2) by (simp add: mv_map_def)
    qed
  qed (rule rk(1))
  ultimately show "follows sv S (move_subtree src dst m) (rekey_move src dst c)"
    using mv F(4) rk(3) by (simp add: follows_def)
qed

lemma apply_fs_records_append:
  "apply_fs_records (rs @ rs') m = (case apply_fs_records rs m of (m, ok) \<Rightarrow> if ok then apply_fs_records rs' m else (m, False))"
  by (induction rs arbitrary: m) (auto split: prod.split)

abbreviation "tree_moves \<equiv> map (\<lambda>(src, dst). DMove src dst)"

lemma moves_follow:
  assumes "moves_between (dom (client_tree m)) C moves" "follows sv S m c" "\<forall>k \<in> C. path_ok k"
  shows "\<exists>m'. apply_fs_records (map (\<lambda>(src, dst). FsMove src dst) moves) m = (m', True)
    \<and> follows sv S m' (fold (\<lambda>(src, dst). rekey_move src dst) moves c)
    \<and> client_tree m' = fold (tree_op t) (tree_moves moves) (client_tree m)"
  using assms(1)
proof (induction moves rule: rev_induct)
  case Nil
  then show ?case using assms(2) by simp
next
  case (snoc x moves)
  obtain f d where x: "x = (f, d)" by (cases x)
  have prev: "moves_between (dom (client_tree m)) C moves" using snoc.prems by (auto simp: moves_between_def sorted_wrt_append)
  then obtain m' where m': "apply_fs_records (map (\<lambda>(src, dst). FsMove src dst) moves) m = (m', True)"
    "follows sv S m' (fold (\<lambda>(src, dst). rekey_move src dst) moves c)"
    "client_tree m' = fold (tree_op t) (tree_moves moves) (client_tree m)" using snoc.IH by blast
  have fd: "(f, d) \<in> set (moves @ [x])" by (simp add: x)
  note D = moves_betweenD[OF snoc.prems fd]
  have "client_tree m' k = None" if k: "is_under k d" for k
  proof (rule ccontr)
    assume "client_tree m' k \<noteq> None"
    then obtain v where v: "client_tree m' k = Some v" by blast
    then have "moved_to (client_tree m) moves k v \<or> client_tree m k = Some v"
      using fold_moves[OF prev, of t k v] by (auto simp: m'(3))
    moreover have "client_tree m k = None" using closed_tree_under[OF D(7) _ k] D(4) by (metis domIff)
    moreover have "\<not> moved_to (client_tree m) moves k v"
    proof
      assume "moved_to (client_tree m) moves k v"
      then obtain f' d' where fd': "(f', d') \<in> set moves" "is_under k d'" by (auto simp: moved_to_def)
      have "\<not> is_under d d'" "\<not> is_under d' d"
        using snoc.prems fd'(1) by (force simp: moves_between_def sorted_wrt_append x)+
      then show False using is_under_comparable[OF k fd'(2)] by blast
    qed
    ultimately show False by simp
  qed
  then have fresh: "bt_get m' k = None" if "is_under k d" for k using that by (simp add: client_tree_def)
  have okd: "path_ok d" using assms(3) D(3) by blast
  note F = move_follows[OF m'(2) D(5,6) okd fresh]
  have "apply_fs_record (FsMove f d) m' = (move_subtree f d m', True)" by (simp add: apply_fs_record_def)
  then have "apply_fs_records (map (\<lambda>(src, dst). FsMove src dst) (moves @ [x])) m = (move_subtree f d m', True)"
    using m'(1) by (simp add: apply_fs_records_append x)
  then show ?case using F m'(3) by (intro exI[of _ "move_subtree f d m'"]) (simp add: x)
qed

subsection \<open>Records\<close>

definition op_record :: "sync_env \<Rightarrow> sync_options \<Rightarrow> index \<Rightarrow> diff_op \<Rightarrow> sync_core \<Rightarrow> fs_record option \<times> sync_core" where
  "op_record sv opts canonical op c = (case op of
     DDelete path \<Rightarrow> (Some (FsDelete path), c\<lparr>sc_held := hm_retain (\<lambda>p. \<not> is_under p path) (sc_held c)\<rparr>)
   | DMove src dst \<Rightarrow> (Some (FsMove src dst), c)
   | DUpsert path changed \<Rightarrow> (case bt_get canonical path of None \<Rightarrow> (None, c)
       | Some meta \<Rightarrow> upsert_record sv opts path meta changed c))"

fun op_records :: "sync_env \<Rightarrow> sync_options \<Rightarrow> index \<Rightarrow> diff_op list \<Rightarrow> sync_core \<Rightarrow> fs_record list \<times> sync_core" where
  "op_records sv opts canonical [] c = ([], c)"
| "op_records sv opts canonical (op # ops) c = (case op_record sv opts canonical op c of (ro, c) \<Rightarrow>
     case op_records sv opts canonical ops c of (rs, c) \<Rightarrow> ((case ro of None \<Rightarrow> [] | Some r \<Rightarrow> [r]) @ rs, c))"

lemma emit_op_record:
  "emit_op sv opts canonical op buf c = (case op_record sv opts canonical op c of
     (None, c) \<Rightarrow> (buf, c) | (Some r, c) \<Rightarrow> (append_fs_record buf r, c))"
  by (cases op) (simp_all add: emit_op_def op_record_def append_upsert_def split: option.split)

text \<open>An index whose entries can be sent: types of two bits, paths that do not end in a slash.\<close>

definition index_ok :: "index \<Rightarrow> bool" where
  "index_ok idx \<longleftrightarrow> tree_ok idx \<and> (\<forall>p meta. bt_get idx p = Some meta \<longrightarrow> nm_type meta AND FS_ENTRY_TYPE_MASK = nm_type meta)"

definition plain_op :: "sync_env \<Rightarrow> sync_options \<Rightarrow> bytes set \<Rightarrow> index \<Rightarrow> diff_op \<Rightarrow> bool" where
  "plain_op sv opts S canonical op \<longleftrightarrow> (case op of DDelete _ \<Rightarrow> True | DMove _ _ \<Rightarrow> False
     | DUpsert path _ \<Rightarrow> (case bt_get canonical path of None \<Rightarrow> False | Some meta \<Rightarrow> entry_reads sv opts S path meta))"

fun op_paths :: "diff_op \<Rightarrow> bytes list" where
  "op_paths (DUpsert path _) = [path]"
| "op_paths (DDelete path) = [path]"
| "op_paths (DMove src dst) = [src, dst]"

definition record_of :: "bytes set \<Rightarrow> diff_op \<Rightarrow> fs_record \<Rightarrow> bool" where
  "record_of S op r \<longleftrightarrow> fs_record_paths r = op_paths op
     \<and> (case r of FsUpsert _ _ _ _ _ _ c \<Rightarrow> c = FcNone \<or> (\<exists>d \<in> S. content_size c \<le> length d) | _ \<Rightarrow> True)"

lemma upsert_outcome_record: "upsert_outcome sv S path meta c r c' \<Longrightarrow> record_of S (DUpsert path changed) r"
proof -
  assume o: "upsert_outcome sv S path meta c r c'"
  obtain flags hash content where r: "r = FsUpsert path flags (nm_size meta) (nm_mtime_ns meta) (nm_mode meta) hash content"
    and c: "content = FcNone \<or> (\<exists>data \<in> S. content = FcFull data
      \<or> (\<exists>base. content = FcDelta (encode_delta base data) \<and> length (encode_delta base data) * 8 < length data * 7))"
    using o unfolding upsert_outcome_def by blast
  from c have "content = FcNone \<or> (\<exists>d \<in> S. content_size content \<le> length d)"
  proof (elim disjE bexE exE conjE)
    fix data base
    assume "data \<in> S" "content = FcDelta (encode_delta base data)" "length (encode_delta base data) * 8 < length data * 7"
    then show ?thesis by (intro disjI2 bexI[of _ data]) (simp_all add: content_size_def)
  qed (auto simp: content_size_def)
  then show ?thesis by (simp add: r record_of_def)
qed

lemma op_follows:
  assumes "follows sv S m c" "hashed_contents sv S" "index_ok canonical" "types_agree canonical m" "plain_op sv opts S canonical op"
    and r: "op_record sv opts canonical op c = (ro, c')"
  shows "\<exists>r m'. ro = Some r \<and> apply_fs_record r m = (m', True) \<and> follows sv S m' c' \<and> types_agree canonical m' \<and> record_of S op r
    \<and> client_tree m' = tree_op (index_tree canonical) op (client_tree m)"
proof -
  have F: "bt_inv m" "\<forall>k \<in> dom (bt_get m). path_ok k" "held_by sv S (sc_held c) (bt_get m)" "blobs_hashed sv S (sc_blobs c)"
    using assms(1) by (simp_all add: follows_def)
  show ?thesis
  proof (cases op)
    case (DDelete path)
    note rm = bt_get_remove_subtree[OF F(1), of path]
    have "held_by sv S (sc_held c') (bt_get (remove_subtree path m))"
      using F(3) r rm by (auto simp: DDelete op_record_def held_by_def hm_get_retain hm_inv_retain split: if_splits)
    moreover have "client_tree (remove_subtree path m) = del_map path (client_tree m)"
      by (auto simp: client_tree_def del_map_def rm(2) fun_eq_iff)
    moreover have "types_agree canonical (remove_subtree path m)" using assms(4) rm(2) by (auto simp: types_agree_def split: if_splits)
    moreover have "\<forall>k \<in> dom (bt_get (remove_subtree path m)). path_ok k" using F(2) rm(2) by (auto split: if_splits)
    ultimately show ?thesis
      using r rm(1) F(4) by (auto simp: DDelete op_record_def apply_fs_record_def follows_def record_of_def)
  next
    case (DMove src dst)
    then show ?thesis using assms(5) by (simp add: plain_op_def)
  next
    case (DUpsert path changed)
    then obtain meta where meta: "bt_get canonical path = Some meta" and st: "entry_reads sv opts S path meta"
      using assms(5) by (auto simp: plain_op_def split: option.splits)
    have u: "upsert_record sv opts path meta changed c = (ro, c')" using r meta by (simp add: DUpsert op_record_def)
    obtain r' where r': "ro = Some r'" "upsert_outcome sv S path meta c r' c'" "blobs_hashed sv S (sc_blobs c')"
      using upsert_record_outcome[OF st F(4) u] by blast
    have ty: "nm_type meta AND FS_ENTRY_TYPE_MASK = nm_type meta" and ok: "path_ok path"
      using assms(3) meta by (auto simp: index_ok_def tree_ok_def)
    obtain n where n: "apply_fs_record r' m = (bt_insert path n m, True)" "node_view n = meta_view meta"
      "entry_type (fn_flags n) = nm_type meta" "held_by sv S (sc_held c') ((bt_get m)(path \<mapsto> n))"
      using upsert_simulates[OF r'(2) assms(2) F(3,1) ty] assms(4) meta by (auto simp: types_agree_def)
    note ins = bt_get_insert[OF F(1), of path n]
    have "client_tree (bt_insert path n m) = (client_tree m)(path := index_tree canonical path)"
      by (auto simp: client_tree_def ins index_tree_def meta n(2) fun_eq_iff)
    moreover have "types_agree canonical (bt_insert path n m)"
      using assms(4) n(3) meta by (auto simp: types_agree_def ins)
    moreover have "follows sv S (bt_insert path n m) c'"
      using F ok n(4) r'(3) by (auto simp: follows_def bt_inv_insert ins)
    ultimately show ?thesis using r'(1) n(1) upsert_outcome_record[OF r'(2)] by (auto simp: DUpsert)
  qed
qed

lemma ops_follow:
  assumes "follows sv S m c" "hashed_contents sv S" "index_ok canonical" "types_agree canonical m" "list_all (plain_op sv opts S canonical) ops"
    and "op_records sv opts canonical ops c = (rs, c')"
  shows "list_all2 (record_of S) ops rs \<and> (\<exists>m'. apply_fs_records rs m = (m', True) \<and> follows sv S m' c'
    \<and> client_tree m' = fold (tree_op (index_tree canonical)) ops (client_tree m))"
  using assms(1,4-6)
proof (induction ops arbitrary: m c rs)
  case (Cons op ops)
  obtain ro c1 where o: "op_record sv opts canonical op c = (ro, c1)" by (cases "op_record sv opts canonical op c")
  obtain rs1 c2 where os: "op_records sv opts canonical ops c1 = (rs1, c2)" by (cases "op_records sv opts canonical ops c1")
  have p: "plain_op sv opts S canonical op" "list_all (plain_op sv opts S canonical) ops" using Cons.prems(3) by simp_all
  obtain r m1 where r: "ro = Some r" "apply_fs_record r m = (m1, True)" "follows sv S m1 c1" "types_agree canonical m1"
    "client_tree m1 = tree_op (index_tree canonical) op (client_tree m)" "record_of S op r"
    using op_follows[OF Cons.prems(1) assms(2,3) Cons.prems(2) p(1) o] by blast
  have "rs = r # rs1" "c' = c2" using Cons.prems(4) o os r(1) by simp_all
  then show ?case using Cons.IH[OF r(3,4) p(2)] os r(2,5,6) by simp
qed simp

subsection \<open>The difference\<close>

lemma tree_op_map: "tree_op (map_option f \<circ> c) op (map_option f \<circ> t) = map_option f \<circ> tree_op c op t"
  by (cases op) (auto simp: del_map_def mv_map_def fun_eq_iff)

lemma fold_tree_op_map: "fold (tree_op (map_option f \<circ> c)) ops (map_option f \<circ> t) = map_option f \<circ> fold (tree_op c) ops t"
  by (induction ops arbitrary: t) (simp_all add: tree_op_map)

lemma index_tree_shown: "index_tree idx = map_option meta_view \<circ> shown_tree idx"
proof -
  have "meta_view \<circ> visible = meta_view" by (auto simp: meta_view_def visible_def entry_flags_of_def fun_eq_iff)
  then show ?thesis by (intro ext) (simp only: index_tree_def shown_tree_def comp_apply option.map_comp)
qed

lemma diff_upserts_in:
  assumes "tree_ok prev" "tree_ok cur" "classified prev cur (removed, added, changed)"
    and "DUpsert p b \<in> set (diff_classified prev cur (removed, added, changed))"
  shows "bt_get cur p \<noteq> None"
proof -
  obtain moves rc ac where j: "move_join prev cur removed added = (moves, rc, ac)"
    by (cases "move_join prev cur removed added")
  have inv: "bt_inv cur" using assms(2) by (simp add: tree_ok_def)
  have "bt_get cur p \<noteq> None" if "DUpsert p b \<in> set (move_fixups prev cur mv)" for mv
    using that set_subtree_entries[OF inv] by (auto simp: move_fixups_def Let_def split: prod.splits if_splits option.splits)
  moreover have "bt_get cur p \<noteq> None" if "p \<in> set added \<or> (p, b') \<in> set changed" for b'
    using that assms(3) by (auto simp: classified_def)
  ultimately show ?thesis using assms(4) by (auto simp: diff_classified_def j dest: set_zip_leftD split: if_splits)
qed

subsection \<open>The series of an update\<close>

lemma op_moves_Cons: "op_moves (op # ops) = (case op of DMove src dst \<Rightarrow> [(src, dst)] | _ \<Rightarrow> []) @ op_moves ops"
  by (cases op) (simp_all add: op_moves_def map_filter_def)

lemma rekey_moves_fold: "rekey_moves ops c = fold (\<lambda>(src, dst). rekey_move src dst) (op_moves ops) c"
  by (induction ops arbitrary: c) (auto simp: rekey_moves_def op_moves_Cons op_moves_simps(4) split: diff_op.split)

lemma op_records_append:
  "op_records sv opts canonical (xs @ ys) c = (case op_records sv opts canonical xs c of (rs, c) \<Rightarrow>
     case op_records sv opts canonical ys c of (rs', c) \<Rightarrow> (rs @ rs', c))"
  by (induction xs arbitrary: c) (auto split: prod.splits)

lemma op_records_moves:
  "op_records sv opts canonical (tree_moves moves) c = (map (\<lambda>(src, dst). FsMove src dst) moves, c)"
  by (induction moves) (auto simp: op_record_def)

definition non_move :: "diff_op \<Rightarrow> bool" where
  "non_move op \<longleftrightarrow> (case op of DMove _ _ \<Rightarrow> False | _ \<Rightarrow> True)"

lemma diff_moves_first:
  "\<exists>rest. diff_classified prev cur cls = tree_moves (op_moves (diff_classified prev cur cls)) @ rest \<and> list_all non_move rest"
proof -
  obtain removed added changed where cls: "cls = (removed, added, changed)" by (cases cls)
  obtain moves rc ac where j: "move_join prev cur removed added = (moves, rc, ac)"
    by (cases "move_join prev cur removed added")
  have "list_all non_move (concat (map (move_fixups prev cur) moves))"
    by (auto simp: list_all_iff non_move_def move_fixups_def Let_def split: diff_op.splits if_splits option.splits)
  then show ?thesis
    unfolding cls op_moves_diff by (auto simp: diff_classified_def j list_all_iff non_move_def)
qed

text \<open>No entry is of another type in the new tree than what a move left at its path.\<close>

definition types_kept :: "index \<Rightarrow> index \<Rightarrow> diff_op list \<Rightarrow> bool" where
  "types_kept prev cur ops \<longleftrightarrow> list_all (\<lambda>(k, w). case fold (tree_op (shown_tree cur)) (tree_moves (op_moves ops)) (shown_tree prev) k of
     None \<Rightarrow> True | Some v \<Rightarrow> nm_type v = nm_type w) cur"

lemma types_agree_kept:
  assumes "types_kept prev cur ops" "index_ok cur"
    and "client_tree m = fold (tree_op (index_tree cur)) (tree_moves (op_moves ops)) (index_tree prev)"
  shows "types_agree cur m"
  unfolding types_agree_def
proof (intro allI impI)
  fix k n w assume n: "bt_get m k = Some n" and w: "bt_get cur k = Some w"
  let ?T = "fold (tree_op (shown_tree cur)) (tree_moves (op_moves ops)) (shown_tree prev)"
  have "Some (node_view n) = map_option meta_view (?T k)"
    using n assms(3) by (simp add: client_tree_def index_tree_shown fold_tree_op_map fun_eq_iff) (metis option.simps(9))
  then obtain v where v: "?T k = Some v" "node_view n = meta_view v" by (cases "?T k") auto
  have "(k, w) \<in> set cur" using w by (simp add: bt_get_def map_of_SomeD)
  then have "nm_type v = nm_type w" using assms(1) v(1) by (auto simp: types_kept_def list_all_iff)
  moreover have "entry_type (fn_flags n) = entry_type (fn_flags n AND FS_VISIBLE_FLAGS)"
    by (simp add: entry_type_def FS_VISIBLE_FLAGS_def wire_defs and.assoc)
  moreover have "nm_type w AND FS_ENTRY_TYPE_MASK = nm_type w" using assms(2) w by (simp add: index_ok_def)
  ultimately show "entry_type (fn_flags n) = nm_type w"
    using v(2) entry_flags_of_visible(2)[of v] by (simp add: node_view_def meta_view_def)
qed

lemma upserts_keep: "(\<And>op. op \<in> set ops \<Longrightarrow> \<exists>p b. op = DUpsert p b) \<Longrightarrow> fold (tree_op c) ops c = c"
  by (induction ops) (auto, metis fun_upd_triv tree_op.simps(1))

lemma series_follows:
  assumes "hashed_contents sv S" "index_ok (en_shadow e)" "index_ok canonical" "follows sv S m (en_core e)"
    and shows_old: "client_tree m = index_tree (en_shadow e)"
    and keys: "full \<or> bt_inv changed \<and> (\<forall>k. \<not> rel_option visible_eq (bt_get canonical k) (bt_get (en_shadow e) k) \<longrightarrow> bt_get changed k \<noteq> None)"
    and series: "update_series sv opts canonical full changed recheck e = (ops, c)"
    and "moves_apart (op_moves ops)" "types_kept (en_shadow e) canonical ops"
    and readable: "\<And>p meta. bt_get canonical p = Some meta \<Longrightarrow> entry_reads sv opts S p meta"
    and recs: "op_records sv opts canonical ops c = (rs, c')"
  shows "list_all2 (record_of S) ops rs
    \<and> (\<exists>m'. apply_fs_records rs m = (m', True) \<and> follows sv S m' c' \<and> client_tree m' = index_tree canonical)"
proof -
  let ?prev = "en_shadow e"
  have ok: "tree_ok ?prev" "tree_ok canonical" using assms(2,3) by (simp_all add: index_ok_def)
  have inv: "bt_inv ?prev" "bt_inv canonical" using ok by (simp_all add: tree_ok_def)
  define cls where "cls = (if full then classify ?prev canonical else classify_keys ?prev canonical (bt_keys changed))"
  have cls: "classified ?prev canonical cls"
  proof (cases full)
    case False
    then have k: "bt_inv changed" "\<And>k. \<not> rel_option visible_eq (bt_get canonical k) (bt_get ?prev k) \<Longrightarrow> bt_get changed k \<noteq> None"
      using keys by auto
    have "sorted_wrt (<) (bt_keys changed)" using k(1) by (simp add: bt_keys_def bt_inv_def)
    moreover have "set (bt_keys changed) = dom (bt_get changed)" by (rule bt.set_keys[OF k(1)])
    ultimately show ?thesis using False k(2) by (auto simp: cls_def intro!: classified_keys)
  qed (simp add: cls_def classified_classify[OF inv])
  obtain removed added chg where tup: "cls = (removed, added, chg)" by (cases cls)
  define D where "D = diff_classified ?prev canonical cls"
  define c0 where "c0 = (rekey_moves D (en_core e))\<lparr>sc_retry := filter (\<lambda>(path, _). bt_get canonical path \<noteq> None) (sc_retry (rekey_moves D (en_core e)))\<rparr>"
  define extra where "extra = forced_upserts sv D c0 @ racy_upserts sv opts canonical recheck (D @ forced_upserts sv D c0) c0"
  have D: "D = (if full then diff ?prev canonical else diff_changed ?prev canonical (bt_keys changed))"
    by (simp add: D_def cls_def diff_def diff_changed_def)
  have "update_series sv opts canonical full changed recheck e = (D @ extra, c0)"
    unfolding update_series_def Let_def D[symmetric] extra_def c0_def by (simp del: not_None_eq)
  then have ops: "ops = D @ extra" and c: "c = c0" using series by simp_all
  have blobs: "sc_blobs c = sc_blobs (rekey_moves D (en_core e))" "sc_held c = sc_held (rekey_moves D (en_core e))"
    by (simp_all add: c c0_def)
  have extra: "\<exists>p. op = DUpsert p True \<and> bt_get canonical p \<noteq> None" if "op \<in> set extra" for op
    using that by (auto simp: extra_def racy_upserts_def forced_upserts_def content_diverged_def c0_def split: option.splits)
  obtain rest where rest: "D = tree_moves (op_moves D) @ rest" "list_all non_move rest"
    using diff_moves_first[of ?prev canonical cls] by (auto simp: D_def)
  have mvs: "op_moves ops = op_moves D"
  proof -
    have "op_moves extra = []" by (rule op_moves_none) (use extra in blast)
    then show ?thesis by (simp add: ops)
  qed
  have mj: "op_moves D = fst (move_join ?prev canonical removed added)" by (simp add: D_def tup op_moves_diff)
  have mb: "moves_between (dom (bt_get ?prev)) (dom (bt_get canonical)) (op_moves D)"
    unfolding mj by (rule moves_between_join[OF ok cls[unfolded tup]]) (use assms(8) mvs mj in simp)
  have dom: "dom (client_tree m) = dom (bt_get ?prev)" by (auto simp: shows_old index_tree_def)
  have okc: "\<forall>k \<in> dom (bt_get canonical). path_ok k" using ok(2) by (simp add: tree_ok_def)
  obtain m1 where m1: "apply_fs_records (map (\<lambda>(src, dst). FsMove src dst) (op_moves D)) m = (m1, True)"
    "follows sv S m1 (fold (\<lambda>(src, dst). rekey_move src dst) (op_moves D) (en_core e))"
    "client_tree m1 = fold (tree_op (index_tree canonical)) (tree_moves (op_moves D)) (client_tree m)"
    using moves_follow[OF _ assms(4) okc, of "op_moves D" "index_tree canonical"] mb dom by auto
  have f1: "follows sv S m1 c" using m1(2) blobs by (simp add: follows_def rekey_moves_fold)
  have agree: "types_agree canonical m1"
    by (rule types_agree_kept[OF assms(9,3)]) (simp add: m1(3) mvs shows_old)
  obtain rs2 c2 where r2: "op_records sv opts canonical (rest @ extra) c = (rs2, c2)"
    by (cases "op_records sv opts canonical (rest @ extra) c")
  have rs: "rs = map (\<lambda>(src, dst). FsMove src dst) (op_moves D) @ rs2" "c' = c2"
  proof -
    have "ops = tree_moves (op_moves D) @ rest @ extra" using ops rest(1) by simp
    then have "op_records sv opts canonical (tree_moves (op_moves D) @ rest @ extra) c = (rs, c')" using recs by simp
    then show "rs = map (\<lambda>(src, dst). FsMove src dst) (op_moves D) @ rs2" "c' = c2"
      by (simp_all add: op_records_append[of sv opts canonical "tree_moves (op_moves D)"] op_records_moves r2)
  qed
  have plain: "list_all (plain_op sv opts S canonical) (rest @ extra)"
  proof -
    have "plain_op sv opts S canonical op" if op: "op \<in> set rest" for op
    proof (cases op)
      case (DUpsert p b)
      then have "DUpsert p b \<in> set D" using op by (subst rest(1)) simp
      then have "bt_get canonical p \<noteq> None" using diff_upserts_in[OF ok cls[unfolded tup]] by (simp add: D_def tup)
      then show ?thesis using readable by (auto simp: plain_op_def DUpsert)
    qed (use rest(2) op in \<open>auto simp: plain_op_def list_all_iff non_move_def\<close>)
    moreover have "plain_op sv opts S canonical op" if "op \<in> set extra" for op
      using extra[OF that] readable by (auto simp: plain_op_def)
    ultimately show ?thesis by (auto simp: list_all_iff)
  qed
  obtain m' where m': "apply_fs_records rs2 m1 = (m', True)" "follows sv S m' c2"
    "client_tree m' = fold (tree_op (index_tree canonical)) (rest @ extra) (client_tree m1)" "list_all2 (record_of S) (rest @ extra) rs2"
    using ops_follow[OF f1 assms(1,3) agree plain r2] by blast
  have "client_tree m' = fold (tree_op (index_tree canonical)) extra (fold (tree_op (index_tree canonical)) D (index_tree ?prev))"
  proof -
    let ?f = "tree_op (index_tree canonical)"
    have "fold ?f D t = fold ?f rest (fold ?f (tree_moves (op_moves D)) t)" for t
      using arg_cong[OF rest(1), of "\<lambda>ops. fold ?f ops t"] by simp
    then show ?thesis by (simp add: m'(3) m1(3) shows_old)
  qed
  also have "fold (tree_op (index_tree canonical)) D (index_tree ?prev) = map_option meta_view \<circ> fold (tree_op (shown_tree canonical)) D (shown_tree ?prev)"
    by (simp only: index_tree_shown fold_tree_op_map)
  also have "fold (tree_op (shown_tree canonical)) D (shown_tree ?prev) = shown_tree canonical"
    unfolding D_def tup
    by (rule ext, rule diff_classified_correct[OF ok cls[unfolded tup]]) (use assms(8) mvs in \<open>simp add: D_def tup\<close>)
  also have "map_option meta_view \<circ> shown_tree canonical = index_tree canonical" by (simp only: index_tree_shown)
  also have "fold (tree_op (index_tree canonical)) extra (index_tree canonical) = index_tree canonical"
    by (rule upserts_keep) (use extra in blast)
  finally have shown: "client_tree m' = index_tree canonical" .
  have "list_all2 (record_of S) (tree_moves (op_moves D)) (map (\<lambda>(src, dst). FsMove src dst) (op_moves D))"
    by (auto simp: list_all2_conv_all_nth record_of_def split: prod.split)
  then have "list_all2 (record_of S) (tree_moves (op_moves D) @ rest @ extra) rs"
    unfolding rs(1) by (rule list_all2_appendI) (rule m'(4))
  moreover have "tree_moves (op_moves D) @ rest @ extra = D @ extra"
    by (simp only: append_assoc[symmetric] rest(1)[symmetric])
  ultimately have "list_all2 (record_of S) ops rs" by (simp only: ops)
  then show ?thesis using m1(1) m'(1,2) rs shown by (simp add: apply_fs_records_append)
qed

end
