(* ===== verification/Sync_Batches.thy ===== *)
theory Sync_Batches
  imports Sync_Series
begin

text \<open>
  From the records of a series to the messages: batches, the window, and the mirror that applies the
  messages one after the other.
\<close>

subsection \<open>Waiting and sending\<close>

definition same_client :: "sync_engine \<Rightarrow> sync_engine \<Rightarrow> bool" where
  "same_client e e' \<longleftrightarrow> en_core e' = en_core e \<and> en_sync_id e' = en_sync_id e \<and> en_sent e' = en_sent e
     \<and> en_shadow e' = en_shadow e \<and> en_initial_sent e' = en_initial_sent e"

lemma same_client_trans: "same_client e e1 \<Longrightarrow> same_client e1 e2 \<Longrightarrow> same_client e e2"
  by (simp add: same_client_def)

text \<open>An inbox without requests that leave something behind.\<close>

definition quiet_msg :: "sync_msg \<Rightarrow> bool" where
  "quiet_msg msg \<longleftrightarrow> (case msg of SmRequest l _ \<Rightarrow> l = LdNone | _ \<Rightarrow> True)"

definition quiet :: "sync_engine \<Rightarrow> bool" where
  "quiet e \<longleftrightarrow> list_all quiet_msg (en_inbox e)"

lemma handle_msg_client: "handle_msg sv opts msg e = Goes e' \<Longrightarrow> quiet_msg msg \<Longrightarrow> same_client e e'"
  by (auto simp: same_client_def quiet_msg_def handle_msg_def handle_root_def handle_ack_def Let_def
      split: sync_msg.splits root_update.splits prod.splits option.splits if_splits)

lemma wait_for_credit_step:
  assumes "wait_for_credit sv opts e = Goes e'" "\<not> en_unacked_bytes e < so_window_bytes opts"
  obtains msg rest e1 where "en_inbox e = msg # rest" "handle_msg sv opts msg (e\<lparr>en_inbox := rest\<rparr>) = Goes e1"
    "wait_for_credit sv opts e1 = Goes e'"
  using assms by (subst (asm) wait_for_credit.simps) (auto split: list.splits outcome.splits)

lemma wait_for_credit_credit: "wait_for_credit sv opts e = Goes e' \<Longrightarrow> en_unacked_bytes e' < so_window_bytes opts"
proof (induction sv opts e rule: wait_for_credit.induct)
  case (1 sv opts e)
  show ?case
  proof (cases "en_unacked_bytes e < so_window_bytes opts")
    case True
    then show ?thesis using "1.prems" by (simp add: wait_for_credit.simps[of sv opts e])
  next
    case False
    then show ?thesis using wait_for_credit_step[OF "1.prems" False] "1.IH"[OF False] by blast
  qed
qed

lemma wait_for_credit_goes: "wait_for_credit sv opts e = Goes e' \<Longrightarrow> quiet e \<Longrightarrow> same_client e e' \<and> quiet e'"
proof (induction sv opts e rule: wait_for_credit.induct)
  case (1 sv opts e)
  show ?case
  proof (cases "en_unacked_bytes e < so_window_bytes opts")
    case True
    then show ?thesis using "1.prems" by (simp add: wait_for_credit.simps[of sv opts e] same_client_def)
  next
    case False
    then obtain msg rest e1 where m: "en_inbox e = msg # rest" "handle_msg sv opts msg (e\<lparr>en_inbox := rest\<rparr>) = Goes e1"
      "wait_for_credit sv opts e1 = Goes e'" using wait_for_credit_step[OF "1.prems"(1)] by blast
    have q: "quiet_msg msg" "quiet e1" using "1.prems"(2) handle_msg_inbox[OF m(2)] by (simp_all add: quiet_def m(1))
    have "same_client (e\<lparr>en_inbox := rest\<rparr>) e1" by (rule handle_msg_client[OF m(2) q(1)])
    then have "same_client e e1" by (simp add: same_client_def)
    then show ?thesis using "1.IH"[OF False m(1,2,3) q(2)] same_client_trans by blast
  qed
qed

definition update_flags :: "bool \<Rightarrow> bool \<Rightarrow> u8" where
  "update_flags reset sync = (if reset then FS_UPDATE_RESET else 0) OR (if sync then FS_UPDATE_SYNC else 0)"

lemma send_update_goes:
  assumes "send_update sv opts records reset sync e = Goes e'" "quiet e"
  shows "\<exists>update_id. en_sent e' = en_sent e @ [msg_fs_update (sv_compress sv) (en_sync_id e) update_id (update_flags reset sync) records]"
    "en_core e' = en_core e" "en_sync_id e' = en_sync_id e" "en_shadow e' = en_shadow e" "quiet e'"
proof -
  obtain e1 where w: "wait_for_credit sv opts e = Goes e1"
    using assms by (cases "wait_for_credit sv opts e") (auto simp: send_update_def)
  have "same_client e e1" "quiet e1" using wait_for_credit_goes[OF w assms(2)] by simp_all
  then show "\<exists>update_id. en_sent e' = en_sent e @ [msg_fs_update (sv_compress sv) (en_sync_id e) update_id (update_flags reset sync) records]"
    "en_core e' = en_core e" "en_sync_id e' = en_sync_id e" "en_shadow e' = en_shadow e" "quiet e'"
    using assms(1) by (auto simp: send_update_def w same_client_def quiet_def Let_def update_flags_def split: if_splits)
qed

subsection \<open>The mirror\<close>

fun apply_updates :: "(bytes \<Rightarrow> bytes option) \<Rightarrow> bytes list \<Rightarrow> fs_mirror \<Rightarrow> fs_mirror option" where
  "apply_updates decompress [] fm = Some fm"
| "apply_updates decompress (msg # msgs) fm = (case apply_fs_update decompress msg fm of
     (fm, Some _) \<Rightarrow> apply_updates decompress msgs fm | (fm, None) \<Rightarrow> None)"

lemma apply_updates_append:
  "apply_updates decompress (xs @ ys) fm = (case apply_updates decompress xs fm of None \<Rightarrow> None | Some fm \<Rightarrow> apply_updates decompress ys fm)"
  by (induction xs arbitrary: fm) (auto split: prod.split option.split)

text \<open>The map an update works on, and the mirror after it.\<close>

definition working_map :: "bool \<Rightarrow> fs_mirror \<Rightarrow> (bytes, fs_node) btree_map" where
  "working_map reset fm = (if reset then [] else case fm_staging fm of Some s \<Rightarrow> s | None \<Rightarrow> fm_live fm)"

definition mirror_after :: "bool \<Rightarrow> bool \<Rightarrow> fs_mirror \<Rightarrow> (bytes, fs_node) btree_map \<Rightarrow> fs_mirror" where
  "mirror_after reset sync fm m =
    (if reset \<or> fm_staging fm \<noteq> None then (if sync then \<lparr>fm_live = m, fm_staging = None\<rparr> else \<lparr>fm_live = fm_live fm, fm_staging = Some m\<rparr>)
     else \<lparr>fm_live = m, fm_staging = None\<rparr>)"

lemma update_flags_bits:
  "update_flags reset sync AND FS_UPDATE_RESET \<noteq> 0 \<longleftrightarrow> reset" "update_flags reset sync AND FS_UPDATE_SYNC \<noteq> 0 \<longleftrightarrow> sync"
  by (auto simp: update_flags_def wire_defs)

lemma apply_update_sent:
  assumes "lz4_contract compress decompress" "length (fs_payload rs) \<le> MAX_DECOMPRESSED" "list_all fs_record_ok rs"
    and "apply_fs_records rs (working_map reset fm) = (m, True)"
  shows "apply_fs_update decompress (msg_fs_update compress sync_id update_id (update_flags reset sync) (fs_payload rs)) fm
    = (mirror_after reset sync fm m, Some update_id)"
  using fs_update_fields[OF assms(1,2) refl, of sync_id update_id "update_flags reset sync"] fs_records_payload[OF assms(3)] assms(4)
  by (cases fm; cases "fm_staging fm") (auto simp: apply_fs_update_def Let_def update_flags_bits working_map_def mirror_after_def)

subsection \<open>Batches of a plain series\<close>

definition records_fit :: "nat \<Rightarrow> fs_record list \<Rightarrow> bool" where
  "records_fit room rs \<longleftrightarrow> list_all (\<lambda>r. fs_record_ok r \<and> length (fs_record_body r) + 4 \<le> room) rs"

lemma length_fs_payload_snoc: "length (fs_payload (rs @ [r])) = length (fs_payload rs) + 4 + length (fs_record_body r)"
  by (simp add: append_fs_record_def)

lemma emit_ops_sends:
  assumes "lz4_contract (sv_compress sv) decompress" "so_batch_target opts + room \<le> MAX_DECOMPRESSED"
    and "emit_ops sv opts canonical ops (fs_payload rs0) e = Goes e'"
    and "op_records sv opts canonical ops (en_core e) = (rs, c')"
    and "records_fit room (rs0 @ rs)" "length (fs_payload rs0) \<le> so_batch_target opts"
    and "apply_fs_records (rs0 @ rs) m = (m', True)" "quiet e"
  shows "\<exists>msgs. en_sent e' = en_sent e @ msgs
      \<and> apply_updates decompress msgs \<lparr>fm_live = m, fm_staging = None\<rparr> = Some \<lparr>fm_live = m', fm_staging = None\<rparr>
    \<and> en_core e' = c' \<and> en_sync_id e' = en_sync_id e"
  using assms(3-8)
proof (induction ops arbitrary: rs0 e rs m)
  case Nil
  have rs: "rs = []" "c' = en_core e" using Nil.prems(2) by simp_all
  show ?case
  proof (cases "fs_payload rs0 = []")
    case True
    then have "length (fs_payload rs0) = 0" by simp
    then have "rs0 = []" by (cases rs0 rule: rev_cases) (simp_all add: length_fs_payload_snoc del: fs_payload_simps)
    then show ?thesis using Nil.prems True rs by (intro exI[of _ "[]"]) simp
  next
    case False
    then have s: "send_update sv opts (fs_payload rs0) False False e = Goes e'" using Nil.prems(1) by simp
    note S = send_update_goes[OF s Nil.prems(6)]
    have ok: "length (fs_payload rs0) \<le> MAX_DECOMPRESSED" "list_all fs_record_ok rs0"
      using Nil.prems(3,4) assms(2) rs by (auto simp: records_fit_def list_all_iff)
    have "apply_fs_records rs0 (working_map False \<lparr>fm_live = m, fm_staging = None\<rparr>) = (m', True)"
      using Nil.prems(5) rs by (simp add: working_map_def)
    note A = apply_update_sent[OF assms(1) ok this]
    obtain i where "en_sent e' = en_sent e @ [msg_fs_update (sv_compress sv) (en_sync_id e) i (update_flags False False) (fs_payload rs0)]"
      using S(1) by blast
    then show ?thesis using S(2,3) rs A by (simp add: mirror_after_def)
  qed
next
  case (Cons op ops)
  obtain ro c1 where o: "op_record sv opts canonical op (en_core e) = (ro, c1)" by (cases "op_record sv opts canonical op (en_core e)")
  obtain rs1 c2 where os: "op_records sv opts canonical ops c1 = (rs1, c2)" by (cases "op_records sv opts canonical ops c1")
  define new where "new = (case ro of None \<Rightarrow> [] | Some r \<Rightarrow> [r])"
  have rs: "rs = new @ rs1" "c' = c2" using Cons.prems(2) o os by (simp_all add: new_def)
  let ?e = "e\<lparr>en_core := c1\<rparr>"
  have quiet: "quiet ?e" using Cons.prems(6) by (simp add: quiet_def)
  have buf: "emit_op sv opts canonical op (fs_payload rs0) (en_core e) = (fs_payload (rs0 @ new), c1)"
    by (simp add: emit_op_record o new_def split: option.split)
  have fit: "records_fit room (rs0 @ new)" "records_fit room rs1" using Cons.prems(3) rs by (simp_all add: records_fit_def)
  show ?case
  proof (cases "length (fs_payload (rs0 @ new)) \<ge> so_batch_target opts")
    case False
    then have "emit_ops sv opts canonical ops (fs_payload (rs0 @ new)) ?e = Goes e'" using Cons.prems(1) buf by simp
    from Cons.IH[OF this] show ?thesis using os rs Cons.prems(3,5) False quiet by (simp add: fit)
  next
    case True
    then obtain e1 where s: "send_update sv opts (fs_payload (rs0 @ new)) False False ?e = Goes e1"
      and rest: "emit_ops sv opts canonical ops [] e1 = Goes e'"
      using Cons.prems(1) buf by (cases "send_update sv opts (fs_payload (rs0 @ new)) False False ?e") auto
    note S = send_update_goes[OF s quiet]
    obtain i where i: "en_sent e1 = en_sent e @ [msg_fs_update (sv_compress sv) (en_sync_id e) i (update_flags False False) (fs_payload (rs0 @ new))]"
      using S(1) by auto
    have len: "length (fs_payload (rs0 @ new)) \<le> so_batch_target opts + room"
      using Cons.prems(4) fit(1) by (cases ro) (auto simp: new_def records_fit_def append_fs_record_def)
    obtain m1 where m1: "apply_fs_records (rs0 @ new) m = (m1, True)" "apply_fs_records rs1 m1 = (m', True)"
      using Cons.prems(5) by (simp add: rs apply_fs_records_append[of "rs0 @ new", simplified] split: prod.splits if_splits)
    have A: "apply_fs_update decompress (msg_fs_update (sv_compress sv) (en_sync_id e) i (update_flags False False) (fs_payload (rs0 @ new)))
        \<lparr>fm_live = m, fm_staging = None\<rparr> = (\<lparr>fm_live = m1, fm_staging = None\<rparr>, Some i)"
      using apply_update_sent[OF assms(1), of "rs0 @ new" False "\<lparr>fm_live = m, fm_staging = None\<rparr>" m1 "en_sync_id e" i False]
        len assms(2) fit(1) m1(1) by (simp add: records_fit_def list_all_iff working_map_def mirror_after_def)
    have "op_records sv opts canonical ops (en_core e1) = (rs1, c')" using os S(2) rs(2) by simp
    from Cons.IH[of "[]" e1, OF _ this] rest fit(2) m1(2) S(5)
    obtain msgs where "en_sent e' = en_sent e1 @ msgs"
      "apply_updates decompress msgs \<lparr>fm_live = m1, fm_staging = None\<rparr> = Some \<lparr>fm_live = m', fm_staging = None\<rparr>"
      "en_core e' = c'" "en_sync_id e' = en_sync_id e1" by auto
    then show ?thesis using i A S(3) rs by auto
  qed
qed

subsection \<open>Batches of the initial series\<close>

lemma emit_entries_sends:
  assumes "lz4_contract (sv_compress sv) decompress" "so_batch_target opts + room \<le> MAX_DECOMPRESSED"
    and "\<And>p meta. (p, meta) \<in> set entries \<Longrightarrow> bt_get canonical p = Some meta"
    and "emit_entries sv opts entries (fs_payload rs0) reset e = Goes e'"
    and "op_records sv opts canonical (map (\<lambda>(p, _). DUpsert p True) entries) (en_core e) = (rs, c')"
    and "records_fit room (rs0 @ rs)" "length (fs_payload rs0) \<le> so_batch_target opts"
    and "apply_fs_records (rs0 @ rs) (working_map reset fm) = (m', True)" "reset \<or> fm_staging fm \<noteq> None" "quiet e"
  shows "\<exists>msgs. en_sent e' = en_sent e @ msgs \<and> apply_updates decompress msgs fm = Some \<lparr>fm_live = m', fm_staging = None\<rparr>
    \<and> en_core e' = c'"
  using assms(3-10)
proof (induction entries arbitrary: rs0 e rs fm reset)
  case Nil
  have rs: "rs = []" "c' = en_core e" using Nil.prems(3) by simp_all
  have s: "send_update sv opts (fs_payload rs0) reset True e = Goes e'" using Nil.prems(2) by simp
  note S = send_update_goes[OF s Nil.prems(8)]
  have ok: "length (fs_payload rs0) \<le> MAX_DECOMPRESSED" "list_all fs_record_ok rs0"
    using Nil.prems(4,5) assms(2) rs by (auto simp: records_fit_def list_all_iff)
  note A = apply_update_sent[OF assms(1) ok, of reset fm m']
  obtain i where "en_sent e' = en_sent e @ [msg_fs_update (sv_compress sv) (en_sync_id e) i (update_flags reset True) (fs_payload rs0)]"
    using S(1) by blast
  then show ?case using S(2) rs A Nil.prems(6,7) by (auto simp: mirror_after_def)
next
  case (Cons x entries)
  obtain path meta where x: "x = (path, meta)" by (cases x)
  have get: "bt_get canonical path = Some meta" using Cons.prems(1) x by simp
  obtain ro c1 where o: "upsert_record sv opts path meta True (en_core e) = (ro, c1)"
    by (cases "upsert_record sv opts path meta True (en_core e)")
  obtain rs1 c2 where os: "op_records sv opts canonical (map (\<lambda>(p, _). DUpsert p True) entries) c1 = (rs1, c2)"
    by (cases "op_records sv opts canonical (map (\<lambda>(p, _). DUpsert p True) entries) c1")
  define new where "new = (case ro of None \<Rightarrow> [] | Some r \<Rightarrow> [r])"
  have rs: "rs = new @ rs1" "c' = c2" using Cons.prems(3) o os get by (simp_all add: x op_record_def new_def)
  let ?e = "e\<lparr>en_core := c1\<rparr>"
  have quiet: "quiet ?e" using Cons.prems(8) by (simp add: quiet_def)
  have buf: "append_upsert sv opts (fs_payload rs0) path meta True (en_core e) = (fs_payload (rs0 @ new), c1)"
    by (simp add: append_upsert_def o new_def split: option.split)
  have fit: "records_fit room (rs0 @ new)" "records_fit room rs1" using Cons.prems(4) rs by (simp_all add: records_fit_def)
  show ?case
  proof (cases "length (fs_payload (rs0 @ new)) \<ge> so_batch_target opts")
    case False
    then have "emit_entries sv opts entries (fs_payload (rs0 @ new)) reset ?e = Goes e'" using Cons.prems(2) buf by (simp add: x)
    from Cons.IH[OF _ this] show ?thesis using os rs Cons.prems(1,4,6,7) False quiet by (simp add: fit)
  next
    case True
    then obtain e1 where s: "send_update sv opts (fs_payload (rs0 @ new)) reset False ?e = Goes e1"
      and rest: "emit_entries sv opts entries [] False e1 = Goes e'"
      using Cons.prems(2) buf by (cases "send_update sv opts (fs_payload (rs0 @ new)) reset False ?e") (auto simp: x)
    note S = send_update_goes[OF s quiet]
    obtain i where i: "en_sent e1 = en_sent e @ [msg_fs_update (sv_compress sv) (en_sync_id e) i (update_flags reset False) (fs_payload (rs0 @ new))]"
      using S(1) by auto
    have len: "length (fs_payload (rs0 @ new)) \<le> so_batch_target opts + room"
      using Cons.prems(5) fit(1) by (cases ro) (auto simp: new_def records_fit_def append_fs_record_def)
    obtain m1 where m1: "apply_fs_records (rs0 @ new) (working_map reset fm) = (m1, True)" "apply_fs_records rs1 m1 = (m', True)"
      using Cons.prems(6) by (simp add: rs apply_fs_records_append[of "rs0 @ new", simplified] split: prod.splits if_splits)
    let ?fm = "\<lparr>fm_live = fm_live fm, fm_staging = Some m1\<rparr>"
    have A: "apply_fs_update decompress (msg_fs_update (sv_compress sv) (en_sync_id e) i (update_flags reset False) (fs_payload (rs0 @ new))) fm
        = (?fm, Some i)"
      using apply_update_sent[OF assms(1), of "rs0 @ new" reset fm m1 "en_sync_id e" i False]
        len assms(2) fit(1) m1(1) Cons.prems(7) by (auto simp: records_fit_def list_all_iff mirror_after_def)
    have "op_records sv opts canonical (map (\<lambda>(p, _). DUpsert p True) entries) (en_core e1) = (rs1, c')" using os S(2) rs(2) by simp
    from Cons.IH[of "[]" False e1, OF _ _ this, of ?fm] rest fit(2) m1(2) Cons.prems(1) S(5)
    obtain msgs where "en_sent e' = en_sent e1 @ msgs"
      "apply_updates decompress msgs ?fm = Some \<lparr>fm_live = m', fm_staging = None\<rparr>" "en_core e' = c'"
      by (auto simp: working_map_def)
    then show ?thesis using i A rs by auto
  qed
qed

subsection \<open>A tick\<close>

definition wire_path :: "bytes \<Rightarrow> bool" where
  "wire_path p \<longleftrightarrow> utf8_valid p \<and> length p < 65536"

text \<open>An update holds at most a batch and one record: paths, the fixed fields and a content.\<close>

definition sync_ready :: "sync_env \<Rightarrow> sync_options \<Rightarrow> bytes set \<Rightarrow> (bytes \<Rightarrow> bytes option) \<Rightarrow> bool" where
  "sync_ready sv opts S decompress \<longleftrightarrow> lz4_contract (sv_compress sv) decompress \<and> hashed_contents sv S
     \<and> so_batch_target opts + 131100 \<le> MAX_DECOMPRESSED \<and> (\<forall>d \<in> S. so_batch_target opts + length d + 131100 \<le> MAX_DECOMPRESSED)"

definition snapshot_ok :: "sync_env \<Rightarrow> sync_options \<Rightarrow> bytes set \<Rightarrow> index \<Rightarrow> bool" where
  "snapshot_ok sv opts S idx \<longleftrightarrow> index_ok idx
     \<and> (\<forall>p meta. bt_get idx p = Some meta \<longrightarrow> wire_path p \<and> entry_reads sv opts S p meta)"

definition client_current :: "sync_env \<Rightarrow> bytes set \<Rightarrow> sync_engine \<Rightarrow> fs_mirror \<Rightarrow> bool" where
  "client_current sv S e fm \<longleftrightarrow> (if en_initial_sent e
     then \<exists>m. fm = \<lparr>fm_live = m, fm_staging = None\<rparr> \<and> follows sv S m (en_core e) \<and> client_tree m = index_tree (en_shadow e)
       \<and> index_ok (en_shadow e)
     else sc_held (en_core e) = [] \<and> blobs_hashed sv S (sc_blobs (en_core e)))"

definition changes_known :: "sync_engine \<Rightarrow> bool" where
  "changes_known e \<longleftrightarrow> en_full_diff e \<or> bt_inv (en_pending_changed e)
     \<and> (\<forall>k. \<not> rel_option visible_eq (bt_get (en_latest e) k) (bt_get (en_shadow e) k) \<longrightarrow> bt_get (en_pending_changed e) k \<noteq> None)"

definition tick_ops :: "sync_env \<Rightarrow> sync_options \<Rightarrow> sync_engine \<Rightarrow> diff_op list" where
  "tick_ops sv opts e = fst (update_series sv opts (en_latest e) (en_full_diff e) (en_pending_changed e) (en_pending_recheck e) e)"

definition series_ok :: "index \<Rightarrow> index \<Rightarrow> diff_op list \<Rightarrow> bool" where
  "series_ok prev cur ops \<longleftrightarrow> moves_apart (op_moves ops) \<and> types_kept prev cur ops
     \<and> list_all (\<lambda>op. list_all wire_path (op_paths op)) ops"

lemma records_fit_series:
  assumes "list_all2 (record_of S) ops rs" "list_all (\<lambda>op. list_all wire_path (op_paths op)) ops"
    and "\<And>d. d \<in> S \<Longrightarrow> length d + 131100 \<le> room" "131100 \<le> room" "room \<le> MAX_DECOMPRESSED"
  shows "records_fit room rs"
  unfolding records_fit_def list_all_iff
proof
  fix r assume "r \<in> set rs"
  then obtain i where i: "i < length rs" "r = rs ! i" by (auto simp: in_set_conv_nth)
  then have "record_of S (ops ! i) r" "ops ! i \<in> set ops" using assms(1) by (auto simp: list_all2_conv_all_nth)
  then have r: "\<forall>p \<in> set (fs_record_paths r). wire_path p"
    "case r of FsUpsert _ _ _ _ _ _ c \<Rightarrow> c = FcNone \<or> (\<exists>d \<in> S. content_size c \<le> length d) | _ \<Rightarrow> True"
    using assms(2) by (auto simp: record_of_def list_all_iff)
  have str: "length (push_str p) \<le> 65537" for p using clip_str_length[of 65535 p] by (simp add: push_str_def Let_def)
  have "length (fs_record_body r) + 4 \<le> room"
  proof (cases r)
    case (FsUpsert p f sz t mo h c)
    have "length (fs_content_bytes c) \<le> 5 + content_size c" by (cases c) (simp_all add: fs_content_bytes_def content_size_def)
    moreover have "content_size c + 131100 \<le> room"
      using r(2) assms(3,4) by (fastforce simp: FsUpsert content_size_def)
    ultimately show ?thesis using str[of p] by (simp add: FsUpsert fs_record_body_def)
  next
    case (FsDelete p)
    then show ?thesis using str[of p] assms(4) by (simp add: fs_record_body_def)
  next
    case (FsMove src dst)
    then show ?thesis using str[of src] str[of dst] assms(4) by (simp add: fs_record_body_def)
  qed
  then show "fs_record_ok r \<and> length (fs_record_body r) + 4 \<le> room"
    using r(1) assms(5) by (auto simp: fs_record_ok_def wire_path_def MAX_DECOMPRESSED_def)
qed

lemma emit_updates_plain:
  assumes "sync_ready sv opts S decompress" "snapshot_ok sv opts S (en_latest e)" "index_ok (en_shadow e)"
    and "follows sv S m (en_core e)" "client_tree m = index_tree (en_shadow e)" "changes_known e"
    and ok: "series_ok (en_shadow e) (en_latest e) (tick_ops sv opts e)"
    and e0: "en_shadow e0 = en_shadow e" "en_core e0 = en_core e" "en_sent e0 = en_sent e" "quiet e0"
    and em: "emit_updates sv opts (en_latest e) False (en_full_diff e) (en_pending_changed e) (en_pending_recheck e) e0 = Goes e'"
  shows "\<exists>msgs m'. en_sent e' = en_sent e @ msgs
    \<and> apply_updates decompress msgs \<lparr>fm_live = m, fm_staging = None\<rparr> = Some \<lparr>fm_live = m', fm_staging = None\<rparr>
    \<and> follows sv S m' (en_core e') \<and> client_tree m' = index_tree (en_latest e)"
proof -
  let ?canonical = "en_latest e"
  have R: "lz4_contract (sv_compress sv) decompress" "hashed_contents sv S"
    "so_batch_target opts + 131100 \<le> MAX_DECOMPRESSED" "\<And>d. d \<in> S \<Longrightarrow> so_batch_target opts + length d + 131100 \<le> MAX_DECOMPRESSED"
    using assms(1) by (auto simp: sync_ready_def)
  have C: "index_ok ?canonical" "\<And>p meta. bt_get ?canonical p = Some meta \<Longrightarrow> entry_reads sv opts S p meta"
    using assms(2) by (auto simp: snapshot_ok_def)
  define ops where "ops = tick_ops sv opts e"
  obtain c where series: "update_series sv opts ?canonical (en_full_diff e) (en_pending_changed e) (en_pending_recheck e) e = (ops, c)"
    by (cases "update_series sv opts ?canonical (en_full_diff e) (en_pending_changed e) (en_pending_recheck e) e") (simp add: ops_def tick_ops_def)
  then have series0: "update_series sv opts ?canonical (en_full_diff e) (en_pending_changed e) (en_pending_recheck e) e0 = (ops, c)"
    unfolding update_series_def by (simp only: e0)
  obtain rs c' where recs: "op_records sv opts ?canonical ops c = (rs, c')" by (cases "op_records sv opts ?canonical ops c")
  have ok': "moves_apart (op_moves ops)" "types_kept (en_shadow e) ?canonical ops" "list_all (\<lambda>op. list_all wire_path (op_paths op)) ops"
    using ok by (simp_all add: series_ok_def ops_def)
  note F = series_follows[OF R(2) assms(3) C(1) assms(4,5) _ series ok'(1,2) C(2) recs]
  have kn: "en_full_diff e \<or> bt_inv (en_pending_changed e) \<and> (\<forall>k. \<not> rel_option visible_eq (bt_get ?canonical k) (bt_get (en_shadow e) k)
      \<longrightarrow> bt_get (en_pending_changed e) k \<noteq> None)" using assms(6) by (simp add: changes_known_def)
  obtain m' where m': "list_all2 (record_of S) ops rs" "apply_fs_records rs m = (m', True)" "follows sv S m' c'"
    "client_tree m' = index_tree ?canonical" using F[OF kn] by blast
  let ?room = "MAX_DECOMPRESSED - so_batch_target opts"
  have room: "131100 \<le> ?room" "?room \<le> MAX_DECOMPRESSED" "so_batch_target opts + ?room \<le> MAX_DECOMPRESSED" using R(3) by simp_all
  have fits: "records_fit ?room rs"
    by (rule records_fit_series[OF m'(1) ok'(3) _ room(1,2)]) (use R(4) in force)
  show ?thesis
  proof (cases "ops = []")
    case True
    then have "e' = e0\<lparr>en_core := c\<rparr>" "rs = []" "c' = c" using em series0 recs by (simp_all add: emit_updates_def)
    then show ?thesis using m' e0 by (intro exI[of _ "[]"] exI[of _ m']) simp
  next
    case False
    then have em: "emit_ops sv opts ?canonical ops (fs_payload []) (e0\<lparr>en_core := c\<rparr>) = Goes e'"
      using em series0 by (simp add: emit_updates_def)
    show ?thesis
      using emit_ops_sends[OF R(1) room(3) em, of rs c' m m'] recs fits m'(2,3,4) e0(3,4) by (auto simp: quiet_def)
  qed
qed

lemma initial_tree:
  assumes "bt_inv idx"
  shows "fold (tree_op (index_tree idx)) (map (\<lambda>(p, _). DUpsert p True) idx) (client_tree []) = index_tree idx"
proof -
  have "map (\<lambda>(p, _). DUpsert p True) idx = map (\<lambda>(p, b). DUpsert p b) (map (\<lambda>(p, _). (p, True)) idx)" by (simp add: split_def)
  then have "fold (tree_op (index_tree idx)) (map (\<lambda>(p, _). DUpsert p True) idx) (client_tree []) k
      = (if k \<in> fst ` set idx then index_tree idx k else None)" for k
    by (simp only: fold_upserts) (force simp: client_tree_def)
  moreover have "index_tree idx k = None" if "k \<notin> fst ` set idx" for k
    using that by (simp add: index_tree_def bt_get_def map_of_eq_None_iff)
  ultimately show ?thesis by (intro ext) metis
qed

lemma emit_updates_initial:
  assumes "sync_ready sv opts S decompress" "snapshot_ok sv opts S (en_latest e)"
    and "sc_held (en_core e0) = []" "blobs_hashed sv S (sc_blobs (en_core e0))" "en_sent e0 = en_sent e" "quiet e0"
    and em: "emit_updates sv opts (en_latest e) True full changed recheck e0 = Goes e'"
  shows "\<exists>msgs m'. en_sent e' = en_sent e @ msgs \<and> apply_updates decompress msgs fm = Some \<lparr>fm_live = m', fm_staging = None\<rparr>
    \<and> follows sv S m' (en_core e') \<and> client_tree m' = index_tree (en_latest e)"
proof -
  let ?canonical = "en_latest e" and ?ops = "map (\<lambda>(p, _). DUpsert p True) (en_latest e)"
  have R: "lz4_contract (sv_compress sv) decompress" "hashed_contents sv S"
    "so_batch_target opts + 131100 \<le> MAX_DECOMPRESSED" "\<And>d. d \<in> S \<Longrightarrow> so_batch_target opts + length d + 131100 \<le> MAX_DECOMPRESSED"
    using assms(1) by (auto simp: sync_ready_def)
  have C: "index_ok ?canonical" using assms(2) by (simp add: snapshot_ok_def)
  have inv: "bt_inv ?canonical" using C by (simp add: index_ok_def tree_ok_def)
  have get: "bt_get ?canonical p = Some meta" if "(p, meta) \<in> set ?canonical" for p meta
    using inv that by (simp add: bt_get_def bt_inv_def strict_sorted_iff)
  have readable: "wire_path p \<and> entry_reads sv opts S p meta" if "(p, meta) \<in> set ?canonical" for p meta
    using assms(2) get[OF that] by (auto simp: snapshot_ok_def)
  obtain rs c' where recs: "op_records sv opts ?canonical ?ops (en_core e0) = (rs, c')"
    by (cases "op_records sv opts ?canonical ?ops (en_core e0)")
  have f0: "follows sv S [] (en_core e0)" using assms(3,4) by (auto simp: follows_def held_by_def)
  have plain: "list_all (plain_op sv opts S ?canonical) ?ops" using get readable by (auto simp: list_all_iff plain_op_def)
  have "types_agree ?canonical []" by (simp add: types_agree_def)
  from ops_follow[OF f0 R(2) C this plain recs] obtain m' where m': "list_all2 (record_of S) ?ops rs" "apply_fs_records rs [] = (m', True)"
    "follows sv S m' c'" "client_tree m' = index_tree ?canonical" unfolding initial_tree[OF inv] by blast
  let ?room = "MAX_DECOMPRESSED - so_batch_target opts"
  have room: "131100 \<le> ?room" "?room \<le> MAX_DECOMPRESSED" "so_batch_target opts + ?room \<le> MAX_DECOMPRESSED" using R(3) by simp_all
  have "list_all (\<lambda>op. list_all wire_path (op_paths op)) ?ops" using readable by (auto simp: list_all_iff)
  from records_fit_series[OF m'(1) this _ room(1,2)] have fits: "records_fit ?room rs" using R(4) by force
  have em: "emit_entries sv opts ?canonical (fs_payload []) True e0 = Goes e'"
    using em by (simp add: emit_updates_def emit_initial_def)
  show ?thesis
    using emit_entries_sends[OF R(1) room(3) get em, of rs c' fm m'] recs fits m'(2,3,4) assms(5,6) by (auto simp: working_map_def)
qed

lemma tick_current:
  assumes "sync_ready sv opts S decompress" "snapshot_ok sv opts S (en_latest e)" "client_current sv S e fm"
    and "en_initial_sent e \<Longrightarrow> changes_known e \<and> series_ok (en_shadow e) (en_latest e) (tick_ops sv opts e)"
    and tick: "tick sv opts e = Goes e'" and quiet: "quiet e"
  shows "\<exists>msgs fm'. en_sent e' = en_sent e @ msgs \<and> apply_updates decompress msgs fm = Some fm' \<and> client_current sv S e' fm'
    \<and> (en_snapshot_dirty e \<longrightarrow> en_shadow e' = en_latest e \<and> en_initial_sent e')"
proof (cases "en_initial_sent e \<and> \<not> en_snapshot_dirty e \<and> sc_retry (en_core e) = []")
  case True
  then have "e' = e\<lparr>en_pending_since := None\<rparr>" using tick by (simp add: tick_def)
  then show ?thesis using assms(3) True by (intro exI[of _ "[]"] exI[of _ fm]) (simp add: client_current_def)
next
  case False
  let ?e0 = "e\<lparr>en_pending_since := None, en_snapshot_dirty := False, en_full_diff := False, en_pending_changed := [],
      en_pending_recheck := []\<rparr>"
  obtain e1 where e1: "emit_updates sv opts (en_latest e) (\<not> en_initial_sent e) (en_full_diff e) (en_pending_changed e)
      (en_pending_recheck e) ?e0 = Goes e1"
    and e': "en_core e' = en_core e1" "en_sent e' = en_sent e1" "en_shadow e' = en_latest e" "en_initial_sent e'"
    using tick False
    by (cases "emit_updates sv opts (en_latest e) (\<not> en_initial_sent e) (en_full_diff e) (en_pending_changed e)
      (en_pending_recheck e) ?e0") (auto simp: tick_def Let_def split: if_splits)
  have q: "quiet ?e0" using quiet by (simp add: quiet_def)
  have ix: "index_ok (en_latest e)" using assms(2) by (simp add: snapshot_ok_def)
  show ?thesis
  proof (cases "en_initial_sent e")
    case init: True
    then obtain m where m: "fm = \<lparr>fm_live = m, fm_staging = None\<rparr>" "follows sv S m (en_core e)"
      "client_tree m = index_tree (en_shadow e)" "index_ok (en_shadow e)" using assms(3) by (auto simp: client_current_def)
    have "\<exists>msgs m'. en_sent e1 = en_sent e @ msgs
      \<and> apply_updates decompress msgs \<lparr>fm_live = m, fm_staging = None\<rparr> = Some \<lparr>fm_live = m', fm_staging = None\<rparr>
      \<and> follows sv S m' (en_core e1) \<and> client_tree m' = index_tree (en_latest e)"
      by (rule emit_updates_plain[OF assms(1,2) m(4,2,3), of ?e0]) (use assms(4) init e1 q in simp_all)
    then show ?thesis using m(1) e' ix by (auto simp: client_current_def)
  next
    case init: False
    have c: "sc_held (en_core e) = []" "blobs_hashed sv S (sc_blobs (en_core e))" using assms(3) init by (simp_all add: client_current_def)
    have "\<exists>msgs m'. en_sent e1 = en_sent e @ msgs \<and> apply_updates decompress msgs fm = Some \<lparr>fm_live = m', fm_staging = None\<rparr>
      \<and> follows sv S m' (en_core e1) \<and> client_tree m' = index_tree (en_latest e)"
      by (rule emit_updates_initial[OF assms(1,2), of ?e0]) (use c init e1 q in simp_all)
    then show ?thesis using e' ix by (auto simp: client_current_def)
  qed
qed

end
