(* ===== verification/Sync_Window.thy ===== *)
theory Sync_Window
  imports Sync_Batches
begin

text \<open>
  The acknowledgement window: what is in flight is accounted for exactly and, the newest message aside,
  within the window; acknowledging an update acknowledges the ones before it.
\<close>

subsection \<open>Updates in flight\<close>

fun consecutive :: "u32 \<Rightarrow> (u32 \<times> nat) list \<Rightarrow> bool" where
  "consecutive i [] \<longleftrightarrow> True"
| "consecutive i ((j, n) # rest) \<longleftrightarrow> j = i \<and> consecutive (i + 1) rest"

definition window_ok :: "sync_options \<Rightarrow> sync_engine \<Rightarrow> bool" where
  "window_ok opts e \<longleftrightarrow> en_unacked_bytes e = sum_list (map snd (en_unacked e))
     \<and> (en_unacked e \<noteq> [] \<longrightarrow> sum_list (map snd (butlast (en_unacked e))) < so_window_bytes opts)
     \<and> consecutive (en_next_update_id e - of_nat (length (en_unacked e))) (en_unacked e)
     \<and> en_highest_sent e = en_next_update_id e - 1"

lemma consecutive_snoc: "consecutive i (xs @ [(j, n)]) \<longleftrightarrow> consecutive i xs \<and> j = i + of_nat (length xs)"
  by (induction i xs rule: consecutive.induct) (auto simp: ac_simps)

lemma consecutive_drop: "consecutive i xs \<Longrightarrow> k \<le> length xs \<Longrightarrow> consecutive (i + of_nat k) (drop k xs)"
proof (induction i xs arbitrary: k rule: consecutive.induct)
  case (2 i j n rest)
  show ?case
  proof (cases k)
    case (Suc k')
    then show ?thesis using "2.IH"[of k'] "2.prems" by (simp add: ac_simps)
  qed (use "2.prems" in simp)
qed simp

lemma pop_acked_eq:
  "pop_acked i xs n = (dropWhile (\<lambda>(j, _). i - j < 0x80000000) xs, n - sum_list (map snd (takeWhile (\<lambda>(j, _). i - j < 0x80000000) xs)))"
  by (induction i xs n rule: pop_acked.induct) auto

lemma acked_prefix:
  assumes "consecutive i xs" "k \<le> length xs" "length xs \<le> 2 ^ 31"
  shows "dropWhile (\<lambda>(j, _). (i + of_nat k - 1) - j < 0x80000000) xs = drop k xs"
  using assms
proof (induction i xs arbitrary: k rule: consecutive.induct)
  case (2 i j n rest)
  show ?case
  proof (cases k)
    case 0
    have "\<not> (- 1 :: u32) < 0x80000000" by (simp add: word_less_nat_alt unsigned_minus_1_eq_mask mask_eq_exp_minus_1)
    then show ?thesis using 0 "2.prems"(1) by simp
  next
    case (Suc k')
    have "(of_nat k' :: u32) < 0x80000000"
      using Suc "2.prems"(2,3) by (simp add: word_less_nat_alt unat_of_nat)
    then show ?thesis using Suc "2.IH"[of k'] "2.prems" by (simp add: ac_simps)
  qed
qed simp

lemma sum_list_butlast_drop: "drop k xs \<noteq> [] \<Longrightarrow> sum_list (butlast (drop k xs)) \<le> sum_list (butlast (xs :: nat list))"
  by (induction xs arbitrary: k) (auto simp: drop_Cons split: nat.splits, fastforce intro: trans_le_add2)

lemma window_drop:
  assumes "window_ok opts e" "k \<le> length (en_unacked e)"
  shows "window_ok opts (e\<lparr>en_unacked := drop k (en_unacked e),
    en_unacked_bytes := en_unacked_bytes e - sum_list (map snd (take k (en_unacked e)))\<rparr>)"
proof -
  let ?xs = "en_unacked e"
  have "sum_list (map snd (take k ?xs)) + sum_list (map snd (drop k ?xs)) = sum_list (map snd ?xs)"
    by (simp flip: sum_list_append map_append)
  moreover have "drop k ?xs \<noteq> [] \<longrightarrow> sum_list (map snd (butlast (drop k ?xs))) \<le> sum_list (map snd (butlast ?xs))"
    using sum_list_butlast_drop[of k "map snd ?xs"] by (simp add: drop_map map_butlast)
  moreover have "consecutive (en_next_update_id e - of_nat (length ?xs) + of_nat k) (drop k ?xs)"
    by (rule consecutive_drop) (use assms in \<open>simp_all add: window_ok_def\<close>)
  moreover have "en_next_update_id e - of_nat (length ?xs) + of_nat k = en_next_update_id e - of_nat (length ?xs - k)"
    using assms(2) by (simp add: of_nat_diff)
  ultimately show ?thesis using assms(1) by (auto simp: window_ok_def)
qed

subsection \<open>Preservation\<close>

lemma handle_ack_window:
  assumes "window_ok opts e" "handle_ack update_id e = Goes e'"
  shows "window_ok opts e'"
proof -
  let ?P = "\<lambda>(j, _). update_id - j < 0x80000000" and ?xs = "en_unacked e"
  obtain k where k: "dropWhile ?P ?xs = drop k ?xs" "takeWhile ?P ?xs = take k ?xs" "k \<le> length ?xs"
    using dropWhile_eq_drop[of ?P ?xs] takeWhile_eq_take[of ?P ?xs] length_takeWhile_le[of ?P ?xs] by blast
  have "e' = e\<lparr>en_unacked := drop k ?xs, en_unacked_bytes := en_unacked_bytes e - sum_list (map snd (take k ?xs))\<rparr>"
    using assms(2) by (simp add: handle_ack_def pop_acked_eq k(1,2) Let_def split: if_splits)
  then show ?thesis using window_drop[OF assms(1) k(3)] by simp
qed

definition same_window :: "sync_engine \<Rightarrow> sync_engine \<Rightarrow> bool" where
  "same_window e e' \<longleftrightarrow> en_unacked e' = en_unacked e \<and> en_unacked_bytes e' = en_unacked_bytes e
     \<and> en_next_update_id e' = en_next_update_id e \<and> en_highest_sent e' = en_highest_sent e"

lemma same_window_ok: "same_window e e' \<Longrightarrow> window_ok opts e \<Longrightarrow> window_ok opts e'"
  by (simp add: same_window_def window_ok_def)

lemma handle_msg_window:
  assumes "window_ok opts e" "handle_msg sv opts msg e = Goes e'"
  shows "window_ok opts e'"
proof (cases msg)
  case (SmRoot u)
  then have "same_window e e'"
    using assms(2) by (auto simp: handle_msg_def handle_root_def same_window_def Let_def split: root_update.splits option.splits if_splits)
  then show ?thesis using same_window_ok assms(1) by blast
next
  case (SmRequest l alive)
  then have "same_window e e'" using assms(2) by (auto simp: handle_msg_def same_window_def split: if_splits)
  then show ?thesis using same_window_ok assms(1) by blast
qed (use assms handle_ack_window in \<open>auto simp: handle_msg_def split: if_splits\<close>)

lemma wait_for_credit_window:
  "window_ok opts e \<Longrightarrow> wait_for_credit sv opts e = Goes e' \<Longrightarrow> window_ok opts e'"
proof (induction sv opts e rule: wait_for_credit.induct)
  case (1 sv opts e)
  show ?case
  proof (cases "en_unacked_bytes e < so_window_bytes opts")
    case True
    then show ?thesis using "1.prems" by (simp add: wait_for_credit.simps[of sv opts e])
  next
    case False
    then obtain msg rest e1 where m: "en_inbox e = msg # rest" "handle_msg sv opts msg (e\<lparr>en_inbox := rest\<rparr>) = Goes e1"
      "wait_for_credit sv opts e1 = Goes e'"
      using "1.prems"(2) by (subst (asm) wait_for_credit.simps) (auto split: list.splits outcome.splits)
    have "window_ok opts (e\<lparr>en_inbox := rest\<rparr>)" using "1.prems"(1) by (rule same_window_ok[rotated]) (simp add: same_window_def)
    then show ?thesis using "1.IH"[OF False m(1,2)] handle_msg_window[OF _ m(2)] m(3) by blast
  qed
qed

lemma send_update_window:
  assumes "window_ok opts e" "send_update sv opts records reset sync e = Goes e'"
  shows "window_ok opts e'"
proof -
  obtain e1 where w: "wait_for_credit sv opts e = Goes e1"
    using assms(2) by (cases "wait_for_credit sv opts e") (auto simp: send_update_def)
  have W: "window_ok opts e1" "en_unacked_bytes e1 < so_window_bytes opts"
    using wait_for_credit_window[OF assms(1) w] wait_for_credit_credit[OF w] by auto
  then show ?thesis
    using assms(2) by (auto simp: send_update_def w Let_def window_ok_def consecutive_snoc split: if_splits)
qed

lemma emit_ops_window: "window_ok opts e \<Longrightarrow> emit_ops sv opts canonical ops buf e = Goes e' \<Longrightarrow> window_ok opts e'"
proof (induction ops arbitrary: buf e)
  case Nil
  then show ?case using send_update_window by (auto split: if_splits)
next
  case (Cons op ops)
  obtain buf' c where o: "emit_op sv opts canonical op buf (en_core e) = (buf', c)" by (cases "emit_op sv opts canonical op buf (en_core e)")
  have w: "window_ok opts (e\<lparr>en_core := c\<rparr>)" using Cons.prems(1) by (rule same_window_ok[rotated]) (simp add: same_window_def)
  show ?case
    using Cons.prems(2) Cons.IH w send_update_window[OF w, of sv buf' False False]
    by (cases "send_update sv opts buf' False False (e\<lparr>en_core := c\<rparr>)") (auto simp: o Let_def split: if_splits)
qed

lemma emit_entries_window: "window_ok opts e \<Longrightarrow> emit_entries sv opts entries buf reset e = Goes e' \<Longrightarrow> window_ok opts e'"
proof (induction entries arbitrary: buf reset e)
  case Nil
  then show ?case using send_update_window by auto
next
  case (Cons x entries)
  obtain path meta where x: "x = (path, meta)" by (cases x)
  obtain buf' c where o: "append_upsert sv opts buf path meta True (en_core e) = (buf', c)"
    by (cases "append_upsert sv opts buf path meta True (en_core e)")
  have w: "window_ok opts (e\<lparr>en_core := c\<rparr>)" using Cons.prems(1) by (rule same_window_ok[rotated]) (simp add: same_window_def)
  show ?case
    using Cons.prems(2) Cons.IH w send_update_window[OF w, of sv buf' reset False]
    by (cases "send_update sv opts buf' reset False (e\<lparr>en_core := c\<rparr>)") (auto simp: o x Let_def split: if_splits)
qed

lemma emit_updates_window:
  assumes "window_ok opts e" "emit_updates sv opts canonical initial full changed recheck e = Goes e'"
  shows "window_ok opts e'"
proof (cases initial)
  case True
  then show ?thesis using assms emit_entries_window by (auto simp: emit_updates_def emit_initial_def)
next
  case False
  obtain ops c where s: "update_series sv opts canonical full changed recheck e = (ops, c)"
    by (cases "update_series sv opts canonical full changed recheck e")
  have "window_ok opts (e\<lparr>en_core := c\<rparr>)" using assms(1) by (rule same_window_ok[rotated]) (simp add: same_window_def)
  then show ?thesis using assms(2) False emit_ops_window by (auto simp: emit_updates_def s split: if_splits)
qed

lemma tick_window:
  assumes "window_ok opts e" "tick sv opts e = Goes e'"
  shows "window_ok opts e'"
proof (cases "en_initial_sent e \<and> \<not> en_snapshot_dirty e \<and> sc_retry (en_core e) = []")
  case True
  then have "same_window e e'" using assms(2) by (auto simp: tick_def same_window_def)
  then show ?thesis using same_window_ok assms(1) by blast
next
  case False
  let ?e0 = "e\<lparr>en_pending_since := None, en_snapshot_dirty := False, en_full_diff := False, en_pending_changed := [],
      en_pending_recheck := []\<rparr>"
  obtain e1 where e1: "emit_updates sv opts (en_latest e) (\<not> en_initial_sent e) (en_full_diff e) (en_pending_changed e)
      (en_pending_recheck e) ?e0 = Goes e1" and e': "same_window e1 e'"
    using assms(2) False
    by (cases "emit_updates sv opts (en_latest e) (\<not> en_initial_sent e) (en_full_diff e) (en_pending_changed e)
      (en_pending_recheck e) ?e0") (auto simp: tick_def Let_def same_window_def split: if_splits)
  have "window_ok opts ?e0" using assms(1) by (rule same_window_ok[rotated]) (simp add: same_window_def)
  then show ?thesis using emit_updates_window[OF _ e1] same_window_ok[OF e'] by blast
qed

lemma engine_turn_window:
  assumes "window_ok opts e" "engine_turn sv opts msg e = Goes e'"
  shows "window_ok opts e'"
proof -
  obtain e1 where e1: "(case msg of None \<Rightarrow> Goes e | Some msg \<Rightarrow> handle_msg sv opts msg e) = Goes e1"
    using assms(2) by (cases "case msg of None \<Rightarrow> Goes e | Some msg \<Rightarrow> handle_msg sv opts msg e") (auto simp: engine_turn_def)
  have "window_ok opts e1" using e1 assms(1) handle_msg_window by (auto split: option.splits)
  then show ?thesis using assms(2) tick_window by (auto simp: engine_turn_def e1 split: option.splits if_splits)
qed

subsection \<open>Reachable engines\<close>

text \<open>An engine's life: turns under whatever the disk and the clock show, messages arriving, and other engines using
  the stores they share.\<close>

inductive sync_reach :: "sync_options \<Rightarrow> sync_engine \<Rightarrow> bool" for opts where
  start: "sync_reach opts (engine_new sync_id blobs learned inbox)"
| turn: "sync_reach opts e \<Longrightarrow> engine_turn sv opts msg e = Goes e' \<Longrightarrow> sync_reach opts e'"
| arrive: "sync_reach opts e \<Longrightarrow> sync_reach opts (e\<lparr>en_inbox := en_inbox e @ msgs\<rparr>)"
| shared: "sync_reach opts e \<Longrightarrow> sync_reach opts (e\<lparr>en_core := (en_core e)\<lparr>sc_blobs := blobs, sc_learned := learned\<rparr>\<rparr>)"

lemma sync_reach_window: "sync_reach opts e \<Longrightarrow> window_ok opts e"
proof (induction rule: sync_reach.induct)
  case (turn e sv msg e')
  then show ?case using engine_turn_window by blast
qed (auto simp: engine_new_def window_ok_def)

lemma ack_exact:
  assumes "window_ok opts e" "j \<le> length (en_unacked e)" "length (en_unacked e) < 2 ^ 31"
  shows "\<exists>e'. handle_ack (en_highest_sent e - of_nat j) e = Goes e'
    \<and> en_unacked e' = drop (length (en_unacked e) - j) (en_unacked e)"
proof -
  let ?xs = "en_unacked e" and ?n = "length (en_unacked e)"
  have c: "consecutive (en_next_update_id e - of_nat ?n) ?xs" using assms(1) by (simp add: window_ok_def)
  have "en_next_update_id e - of_nat ?n + of_nat (?n - j) - 1 = en_highest_sent e - of_nat j"
    using assms(1,2) by (simp add: window_ok_def of_nat_diff)
  then have "dropWhile (\<lambda>(i, _). (en_highest_sent e - of_nat j) - i < 0x80000000) ?xs = drop (?n - j) ?xs"
    using acked_prefix[OF c, of "?n - j"] assms(3) by simp
  moreover have "\<not> (- of_nat j \<noteq> (0 :: u32) \<and> - of_nat j < (0x80000000 :: u32))"
  proof -
    have j: "unat (of_nat j :: u32) = j" "j < 2 ^ 31" using assms(2,3) by (simp_all add: unat_of_nat)
    show ?thesis
    proof
      assume a: "- of_nat j \<noteq> (0 :: u32) \<and> - of_nat j < (0x80000000 :: u32)"
      then have "unat (- of_nat j :: u32) < 2 ^ 31" by (simp add: word_less_nat_alt)
      then have "unat (- of_nat j + of_nat j :: u32) = unat (- of_nat j :: u32) + j"
        using j by (subst unat_word_ariths(1)) simp
      then have "unat (- of_nat j :: u32) = 0" by simp
      then show False using a by (simp add: unsigned_eq_0_iff)
    qed
  qed
  ultimately show ?thesis by (simp add: handle_ack_def pop_acked_eq Let_def)
qed

end
