(* ===== verification/Sync_Demo.thy ===== *)
theory Sync_Demo
  imports Sync_Window Frame_Properties
begin

text \<open>Small trees and engines the properties of file synchronisation are shown on.\<close>

subsection \<open>Trees\<close>

lemma tree_ok_code: "tree_ok m \<longleftrightarrow> bt_inv m \<and> list_all (\<lambda>(k, _). (case parent_wire k of None \<Rightarrow> True | Some p \<Rightarrow> bt_get m p \<noteq> None) \<and> path_ok k) m"
proof (cases "bt_inv m")
  case True
  have dom: "fst ` set m = dom (bt_get m)" using bt.set_keys[OF True] by (simp add: bt_keys_def)
  have "list_all (\<lambda>(k, _). (case parent_wire k of None \<Rightarrow> True | Some p \<Rightarrow> bt_get m p \<noteq> None) \<and> path_ok k) m
      \<longleftrightarrow> (\<forall>k \<in> fst ` set m. (case parent_wire k of None \<Rightarrow> True | Some p \<Rightarrow> p \<in> dom (bt_get m)) \<and> path_ok k)"
    by (auto simp: list_all_iff split_def domIff split: option.split)
  also have "\<dots> \<longleftrightarrow> closed_tree (dom (bt_get m)) \<and> (\<forall>k \<in> dom (bt_get m). path_ok k)"
    unfolding dom closed_tree_def by (auto split: option.splits)
  finally show ?thesis using True by (simp add: tree_ok_def)
qed (simp add: tree_ok_def)

definition demo_meta :: "u8 \<Rightarrow> u64 \<Rightarrow> u64 \<Rightarrow> node_meta" where
  "demo_meta t ino sz = \<lparr>nm_type = t, nm_size = sz, nm_mtime_ns = 5, nm_mode = 7, nm_hash = 0, nm_dev_ino = (1, ino),
     nm_link_dir = False, nm_filtered = False\<rparr>"

text \<open>A directory renamed with a changed and a new file in it, and a file removed.\<close>

definition tree_before :: index where
  "tree_before = [([], demo_meta 1 1 0), ([97], demo_meta 1 2 0), ([97, 47, 102], demo_meta 0 3 4), ([98], demo_meta 0 4 1)]"

definition tree_after :: index where
  "tree_after = [([], demo_meta 1 1 0), ([99], demo_meta 1 2 0), ([99, 47, 102], demo_meta 0 3 9), ([99, 47, 103], demo_meta 0 5 2)]"

text \<open>A directory renamed into the place another one had below it.\<close>

definition nested_before :: index where
  "nested_before = [([], demo_meta 1 1 0), ([97], demo_meta 1 2 0), ([97, 47, 100], demo_meta 1 3 0), ([97, 47, 100, 47, 101], demo_meta 0 4 6)]"

definition nested_after :: index where
  "nested_after = [([], demo_meta 1 1 0), ([120, 120], demo_meta 1 2 0), ([120, 120, 47, 100], demo_meta 1 9 0),
     ([120, 120, 47, 100, 47, 101], demo_meta 0 4 6), ([121], demo_meta 1 3 0)]"

lemma trees_ok: "tree_ok tree_before" "tree_ok tree_after" "tree_ok nested_before" "tree_ok nested_after"
  unfolding tree_ok_code by code_simp+

lemma tree_difference:
  "diff tree_before tree_after = [DMove [97] [99], DDelete [98], DUpsert [99, 47, 102] True, DUpsert [99, 47, 103] True]"
  by code_simp

subsection \<open>An engine and its client\<close>

definition demo_old :: bytes where "demo_old = [1, 2, 3, 4]"
definition demo_new :: bytes where "demo_new = [1, 2, 3, 4, 5, 6, 7, 8, 9]"

text \<open>A disk on which reading a directory fails, as it does.\<close>

definition demo_sync_env :: sync_env where
  "demo_sync_env = \<lparr>sv_hash = (\<lambda>d. of_nat (length d)), sv_resolves = (\<lambda>_. True), sv_stat = (\<lambda>_ _. Some (demo_meta 0 3 9)),
     sv_read = (\<lambda>path _. if path \<in> {[], [99]} then None else Some demo_new), sv_now = 100, sv_wall_ns = 0, sv_compress = demo_compress, sv_outbox = (\<lambda>_. True)\<rparr>"

definition demo_sync_opts :: sync_options where
  "demo_sync_opts = \<lparr>so_recursive = True, so_content = True, so_cross_filesystem = False, so_latency = 20, so_inline_max = 1000,
     so_window_bytes = 4096, so_batch_target = 1000000, so_max_entries = 1000\<rparr>"

definition demo_engine :: sync_engine where
  "demo_engine = (engine_new 1 (blob_put 4 demo_old (blob_store_new 1000)) [] [])\<lparr>en_shadow := tree_before, en_latest := tree_after,
     en_snapshot_dirty := True, en_initial_sent := True, en_full_diff := True,
     en_core := \<lparr>sc_held = [([97, 47, 102], 4)], sc_retry = [], sc_blobs = blob_put 4 demo_old (blob_store_new 1000),
       sc_learned = [], sc_taught = []\<rparr>\<rparr>"

definition demo_node :: "u8 \<Rightarrow> u64 \<Rightarrow> bytes option \<Rightarrow> fs_node" where
  "demo_node t sz content = \<lparr>fn_flags = t, fn_size = sz, fn_mtime_ns = 5, fn_mode = 7, fn_hash = 0, fn_content = content\<rparr>"

definition demo_mirror :: "(bytes, fs_node) btree_map" where
  "demo_mirror = [([], demo_node 1 0 None), ([97], demo_node 1 0 None), ([97, 47, 102], demo_node 0 4 (Some demo_old)), ([98], demo_node 0 1 None)]"

text \<open>A disk with one file of the largest size a payload may have.\<close>

definition limit_env :: sync_env where
  "limit_env = demo_sync_env\<lparr>sv_stat := (\<lambda>_ _. Some (demo_meta 0 3 67108864)), sv_read := (\<lambda>_ _. Some (replicate MAX_DECOMPRESSED 0))\<rparr>"

lemma blob_put_fits:
  assumes "blob_content bs hash = None" "bs_total bs + length d \<le> bs_budget bs"
  shows "blob_content (blob_put hash d bs) = (blob_content bs)(hash \<mapsto> d)" "bs_total (blob_put hash d bs) = bs_total bs + length d"
    "bs_budget (blob_put hash d bs) = bs_budget bs"
proof -
  let ?bs = "bs\<lparr>bs_seq := bs_seq bs + 1, bs_total := bs_total bs + length d, bs_by_age := bt_insert (bs_seq bs + 1) hash (bs_by_age bs),
      bs_by_hash := hm_insert hash (d, bs_seq bs + 1) (bs_by_hash bs)\<rparr>"
  have "blob_evict ?bs = ?bs" using assms(2) by (subst blob_evict.simps) simp
  then have "blob_put hash d bs = ?bs" using assms by (simp add: blob_put_def blob_content_def Let_def)
  then show "blob_content (blob_put hash d bs) = (blob_content bs)(hash \<mapsto> d)" "bs_total (blob_put hash d bs) = bs_total bs + length d"
    "bs_budget (blob_put hash d bs) = bs_budget bs"
    by (simp_all add: blob_content_def hm_get_def hm_insert_def update_conv' fun_eq_iff)
qed

lemma blob_put_again:
  assumes "blob_content bs hash \<noteq> None"
  shows "blob_content (blob_put hash d bs) = blob_content bs" "bs_total (blob_put hash d bs) = bs_total bs"
    "bs_budget (blob_put hash d bs) = bs_budget bs"
  using assms by (auto simp: blob_put_def blob_get_def blob_content_def Let_def hm_get_def hm_insert_def update_conv' fun_eq_iff
      split: option.split)

text \<open>Bytes a client writes, and a disk that shows given bytes.\<close>

definition demo_written :: bytes where "demo_written = replicate 16 7"

definition reading :: "bytes \<Rightarrow> sync_env" where "reading d = demo_sync_env\<lparr>sv_read := (\<lambda>_ _. Some d)\<rparr>"

lemma demo_written_delta:
  "length (encode_delta demo_written (demo_written @ [9])) * 8 < length (demo_written @ [9]) * 7"
  "apply_fs_delta demo_old (encode_delta demo_written (demo_written @ [9])) = None"
proof -
  have d: "encode_delta demo_written (demo_written @ [9]) = [1, 0, 16, 2, 1, 9]"
  proof -
    have len: "length demo_written = 16" by (simp add: demo_written_def)
    have p: "common_prefix demo_written (demo_written @ [9]) = 16" by (simp add: demo_written_def numeral_eq_Suc)
    have s: "common_suffix 16 demo_written (demo_written @ [9]) = 0" by (simp add: common_suffix_def len)
    have m: "slice_of (demo_written @ [9]) 16 (length (demo_written @ [9]) - 16) = [9]" by (simp add: slice_of_def len)
    have "push_leb128 0 = [0]" "push_leb128 1 = [1]" "push_leb128 16 = [16]" by (subst push_leb128.simps, simp)+
    then show ?thesis by (simp add: encode_delta_def p s m Let_def del: length_append)
  qed
  show "length (encode_delta demo_written (demo_written @ [9])) * 8 < length (demo_written @ [9]) * 7"
    unfolding d by (simp add: demo_written_def)
  show "apply_fs_delta demo_old (encode_delta demo_written (demo_written @ [9])) = None"
    unfolding d by (simp add: apply_fs_delta_def delta_loop.simps demo_old_def Let_def MAX_DECOMPRESSED_def)
qed

lemma demo_sync_ready: "sync_ready demo_sync_env demo_sync_opts {demo_old, demo_new} demo_decompress"
proof -
  have "hashed_contents demo_sync_env {demo_old, demo_new}"
    by (simp add: hashed_contents_def demo_sync_env_def demo_old_def demo_new_def MAX_DECOMPRESSED_def)
  then show ?thesis
    using demo_contract by (simp add: sync_ready_def demo_sync_opts_def demo_sync_env_def demo_old_def demo_new_def MAX_DECOMPRESSED_def)
qed

lemma demo_reads: "p \<notin> {[], [99]} \<Longrightarrow> reads_stable demo_sync_env p"
  by (simp add: reads_stable_def read_verified_meta_def demo_sync_env_def numeral_2_eq_2)

lemma demo_directories: "\<not> reads_stable demo_sync_env []" "\<not> reads_stable demo_sync_env [99]"
  by (simp_all add: reads_stable_def read_verified_meta_def demo_sync_env_def numeral_2_eq_2)

lemma demo_readable:
  assumes "bt_get tree_after p = Some meta"
  shows "entry_reads demo_sync_env demo_sync_opts {demo_old, demo_new} p meta"
proof (cases "p \<in> {[], [99]}")
  case True
  then have "nm_type meta = 1" using assms by (auto simp: bt_get_def tree_after_def demo_meta_def)
  then show ?thesis by (simp add: entry_reads_def carries_content_def wire_defs)
next
  case False
  then have "reads_in demo_sync_env {demo_old, demo_new} p" by (simp add: reads_in_def demo_sync_env_def)
  then show ?thesis using demo_reads[OF False] by (simp add: entry_reads_def)
qed

lemma demo_snapshot_ok: "snapshot_ok demo_sync_env demo_sync_opts {demo_old, demo_new} tree_after"
proof -
  have "\<forall>k \<in> dom (bt_get tree_after). wire_path k"
  proof -
    have "\<forall>k \<in> fst ` set tree_after. wire_path k"
      unfolding wire_path_def by (simp add: tree_after_def) code_simp
    moreover have "dom (bt_get tree_after) = fst ` set tree_after"
      using bt.set_keys[of tree_after] trees_ok(2) by (simp add: bt_keys_def tree_ok_def)
    ultimately show ?thesis by simp
  qed
  moreover have "index_ok tree_after"
  proof -
    have "nm_type meta AND FS_ENTRY_TYPE_MASK = nm_type meta" if "bt_get tree_after p = Some meta" for p meta
      using that by (auto simp: bt_get_def tree_after_def demo_meta_def wire_defs split: if_splits)
    then show ?thesis using trees_ok(2) by (simp add: index_ok_def)
  qed
  ultimately show ?thesis using demo_readable by (auto simp: snapshot_ok_def)
qed

lemma demo_current: "client_current demo_sync_env {demo_old, demo_new} demo_engine \<lparr>fm_live = demo_mirror, fm_staging = None\<rparr>"
proof -
  have tree: "client_tree demo_mirror = index_tree tree_before"
    by (rule ext) (simp add: client_tree_def index_tree_def bt_get_def demo_mirror_def tree_before_def node_view_def meta_view_def
        demo_node_def demo_meta_def entry_flags_of_def FS_VISIBLE_FLAGS_def wire_defs)
  have ix: "index_ok tree_before"
  proof -
    have "nm_type meta AND FS_ENTRY_TYPE_MASK = nm_type meta" if "bt_get tree_before p = Some meta" for p meta
      using that by (auto simp: bt_get_def tree_before_def demo_meta_def wire_defs split: if_splits)
    then show ?thesis using trees_ok(1) by (simp add: index_ok_def)
  qed
  have blobs: "blobs_hashed demo_sync_env {demo_old, demo_new} (blob_put 4 demo_old (blob_store_new 1000))"
  proof -
    note ok = blob_ok_new[of 1000]
    have none: "blob_content (blob_store_new 1000) h \<noteq> Some d" for h d by (simp add: blob_content_def blob_store_new_def)
    have "sv_hash demo_sync_env d = h \<and> d \<in> {demo_old, demo_new}" if "blob_content (blob_put 4 demo_old (blob_store_new 1000)) h = Some d" for h d
    proof -
      have "h = 4 \<and> d = demo_old" using blob_put_ok(4)[OF ok that] none[of h d] by argo
      then show ?thesis by (simp add: demo_sync_env_def demo_old_def)
    qed
    then show ?thesis using blob_put_ok(1)[OF ok, of 4 demo_old] by (simp add: blobs_hashed_def)
  qed
  have held: "held_by demo_sync_env {demo_old, demo_new} [([97, 47, 102], 4)] (bt_get demo_mirror)"
    by (simp add: held_by_def hm_inv_def hm_get_def bt_get_def demo_mirror_def demo_node_def demo_sync_env_def demo_old_def entry_type_def wire_defs)
  have "bt_inv demo_mirror \<and> (\<forall>k \<in> dom (bt_get demo_mirror). path_ok k)"
  proof -
    have "dom (bt_get demo_mirror) = dom (bt_get tree_before)"
      using tree by (auto simp: client_tree_def index_tree_def fun_eq_iff dom_def) (metis map_option_eq_Some not_None_eq option.map_disc_iff)+
    moreover have "bt_inv demo_mirror" by (simp add: demo_mirror_def)
    ultimately show ?thesis using trees_ok(1) by (simp add: tree_ok_def)
  qed
  then show ?thesis
    using tree ix blobs held by (simp add: client_current_def demo_engine_def follows_def)
qed

subsection \<open>A tick in one message\<close>

lemma rekey_move_no_retry: "sc_retry c = [] \<Longrightarrow> sc_retry (rekey_move src dst c) = []"
  by (simp add: rekey_move_def subtree_keys_def bt_keys_def bt_get_def prefix_range_def Let_def)

lemma rekey_moves_no_retry: "sc_retry c = [] \<Longrightarrow> sc_retry (rekey_moves ops c) = []"
  by (induction ops arbitrary: c) (auto simp: rekey_moves_def rekey_move_no_retry split: diff_op.split)

lemma emit_ops_one_batch:
  assumes "op_records sv opts canonical ops (en_core e) = (rs, c')" "length (fs_payload (rs0 @ rs)) < so_batch_target opts"
  shows "emit_ops sv opts canonical ops (fs_payload rs0) e
    = (if fs_payload (rs0 @ rs) \<noteq> [] then send_update sv opts (fs_payload (rs0 @ rs)) False False (e\<lparr>en_core := c'\<rparr>)
       else Goes (e\<lparr>en_core := c'\<rparr>))"
  using assms
proof (induction ops arbitrary: rs0 e rs)
  case (Cons op ops)
  obtain ro c1 where o: "op_record sv opts canonical op (en_core e) = (ro, c1)" by (cases "op_record sv opts canonical op (en_core e)")
  obtain rs1 c2 where os: "op_records sv opts canonical ops c1 = (rs1, c2)" by (cases "op_records sv opts canonical ops c1")
  define new where "new = (case ro of None \<Rightarrow> [] | Some r \<Rightarrow> [r])"
  have rs: "rs = new @ rs1" "c' = c2" using Cons.prems(1) o os by (simp_all add: new_def)
  have buf: "emit_op sv opts canonical op (fs_payload rs0) (en_core e) = (fs_payload (rs0 @ new), c1)"
    by (simp add: emit_op_record o new_def split: option.split)
  have "length (fs_payload (rs0 @ new)) < so_batch_target opts"
    using Cons.prems(2) by (simp add: rs fs_payload_frames fs_frames_bytes_def)
  then show ?case
    using Cons.IH[of "e\<lparr>en_core := c1\<rparr>" rs1 "rs0 @ new"] os Cons.prems(2) by (simp add: buf rs)
next
  case Nil
  then have rs: "rs = []" "c' = en_core e" by simp_all
  show ?case unfolding rs by simp
qed

lemma fs_payload_bound: "records_fit room rs \<Longrightarrow> length (fs_payload rs) \<le> length rs * room"
  by (induction rs) (auto simp: fs_payload_frames records_fit_def kv_framed_def)

lemma demo_update_series:
  "update_series demo_sync_env demo_sync_opts tree_after True [] [] demo_engine
    = (diff tree_before tree_after, rekey_moves (diff tree_before tree_after) (en_core demo_engine))"
proof -
  let ?c = "rekey_moves (diff tree_before tree_after) (en_core demo_engine)"
  have "en_shadow demo_engine = tree_before" "sc_retry ?c = []"
    by (auto intro!: rekey_moves_no_retry simp: demo_engine_def)
  then show ?thesis
    unfolding update_series_def by (simp add: Let_def forced_upserts_def racy_upserts_def bt_keys_def)
qed

lemma demo_tick_ops: "tick_ops demo_sync_env demo_sync_opts demo_engine = diff tree_before tree_after"
  using demo_update_series by (simp add: tick_ops_def demo_engine_def engine_new_def)

lemma demo_series_ok: "series_ok tree_before tree_after (diff tree_before tree_after)"
  unfolding series_ok_def
proof (intro conjI)
  show "moves_apart (op_moves (diff tree_before tree_after))" by (simp add: tree_difference op_moves_Cons moves_apart_def)
  have "op_moves (diff tree_before tree_after) = [([97], [99])]" by (simp add: tree_difference op_moves_Cons)
  then show "types_kept tree_before tree_after (diff tree_before tree_after)"
    unfolding types_kept_def by (simp add: tree_after_def mv_map_def is_under_def starts_with_def shift_def shown_tree_def bt_get_def
        tree_before_def demo_meta_def visible_def)
  show "list_all (\<lambda>op. list_all wire_path (op_paths op)) (diff tree_before tree_after)"
    unfolding tree_difference wire_path_def by simp code_simp
qed

lemma demo_quiet: "quiet demo_engine"
  by (simp add: quiet_def demo_engine_def engine_new_def)

lemma demo_known: "changes_known demo_engine"
  by (simp add: changes_known_def demo_engine_def)

lemma demo_tick_goes: "\<exists>e'. tick demo_sync_env demo_sync_opts demo_engine = Goes e'"
proof -
  let ?S = "{demo_old, demo_new}" and ?ops = "diff tree_before tree_after"
  let ?c = "rekey_moves ?ops (en_core demo_engine)"
  have e: "en_shadow demo_engine = tree_before" "en_latest demo_engine = tree_after" "en_full_diff demo_engine"
    "en_pending_changed demo_engine = []" "en_pending_recheck demo_engine = []" "en_initial_sent demo_engine" "en_snapshot_dirty demo_engine"
    by (simp_all add: demo_engine_def engine_new_def)
  obtain rs c' where recs: "op_records demo_sync_env demo_sync_opts tree_after ?ops ?c = (rs, c')"
    by (cases "op_records demo_sync_env demo_sync_opts tree_after ?ops ?c")
  have cur: "follows demo_sync_env ?S demo_mirror (en_core demo_engine)" "client_tree demo_mirror = index_tree tree_before" "index_ok tree_before"
    using demo_current e by (auto simp: client_current_def)
  have rec: "list_all2 (record_of ?S) ?ops rs"
    using series_follows[of demo_sync_env ?S demo_engine tree_after demo_mirror True "[]" demo_sync_opts "[]" ?ops ?c rs c']
      demo_sync_ready cur demo_snapshot_ok demo_update_series demo_series_ok demo_readable recs e
    by (simp add: sync_ready_def snapshot_ok_def series_ok_def)
  moreover have "list_all (\<lambda>op. list_all wire_path (op_paths op)) ?ops" using demo_series_ok by (simp add: series_ok_def)
  ultimately have fit: "records_fit 131200 rs"
    by (rule records_fit_series) (auto simp: demo_old_def demo_new_def MAX_DECOMPRESSED_def)
  have n: "length rs = 4" using list_all2_lengthD[OF rec] by (simp add: tree_difference)
  have len: "length (fs_payload ([] @ rs)) < so_batch_target demo_sync_opts"
    using fs_payload_bound[OF fit] n by (simp add: demo_sync_opts_def)
  let ?e0 = "demo_engine\<lparr>en_pending_since := None, en_snapshot_dirty := False, en_full_diff := False, en_pending_changed := [],
      en_pending_recheck := []\<rparr>"
  have "update_series demo_sync_env demo_sync_opts tree_after True [] [] ?e0 = (?ops, ?c)"
    using demo_update_series unfolding update_series_def by simp
  moreover have "?ops \<noteq> []" by (simp add: tree_difference)
  ultimately have "emit_updates demo_sync_env demo_sync_opts tree_after False True [] [] ?e0
      = emit_ops demo_sync_env demo_sync_opts tree_after ?ops (fs_payload []) (?e0\<lparr>en_core := ?c\<rparr>)"
    by (simp add: emit_updates_def)
  also have "\<exists>e'. emit_ops demo_sync_env demo_sync_opts tree_after ?ops (fs_payload []) (?e0\<lparr>en_core := ?c\<rparr>) = Goes e'"
  proof -
    have "\<exists>e'. send_update demo_sync_env demo_sync_opts buf False False (?e0\<lparr>en_core := c\<rparr>) = Goes e'" for buf c
      by (simp add: send_update_def wait_for_credit.simps demo_engine_def engine_new_def demo_sync_opts_def demo_sync_env_def Let_def)
    then show ?thesis
      using emit_ops_one_batch[of demo_sync_env demo_sync_opts tree_after ?ops "?e0\<lparr>en_core := ?c\<rparr>" rs c' "[]"] recs len by simp
  qed
  finally show ?thesis using e by (auto simp: tick_def Let_def)
qed

end
