(* ===== verification/Sync_Nested.thy ===== *)
theory Sync_Nested
  imports Sync_Tree
begin

text \<open>
  What happens to an entry that two moves claim: the difference orders moves by their targets, so the
  move of an inner directory runs before the move of the one around it.
\<close>

text \<open>A difference, of the whole trees or of the keys said to have changed, is that of a classification.\<close>

lemma difference_classified:
  assumes "tree_ok prev" "tree_ok cur"
    and "ops = diff prev cur \<or> sorted_wrt (<) keys \<and> ops = diff_changed prev cur keys
      \<and> (\<forall>k. \<not> rel_option visible_eq (bt_get cur k) (bt_get prev k) \<longrightarrow> k \<in> set keys)"
  obtains cls where "ops = diff_classified prev cur cls" "classified prev cur cls"
proof (cases "ops = diff prev cur")
  case True
  then show ?thesis
    using assms(1,2) classified_classify[of prev cur] that[of "classify prev cur"] by (simp add: diff_def tree_ok_def)
next
  case False
  then show ?thesis using assms(3) classified_keys[of keys cur prev] that[of "classify_keys prev cur keys"]
    by (simp add: diff_changed_def)
qed

lemma difference_move_ends:
  assumes "tree_ok prev" "tree_ok cur" "ops = diff_classified prev cur cls" "classified prev cur cls"
    and "(src, dst) \<in> set (op_moves ops)"
  shows "src \<noteq> []" "dst \<noteq> []"
proof -
  obtain removed added changed where cls: "cls = (removed, added, changed)" by (cases cls)
  show "src \<noteq> []" "dst \<noteq> []"
    using move_ends(3,4)[OF assms(1,2) assms(4)[unfolded cls], of src dst] assms(3,5) by (simp_all add: cls op_moves_diff)
qed

subsection \<open>A path nothing is put at\<close>

definition puts_at :: "bytes \<Rightarrow> diff_op \<Rightarrow> bool" where
  "puts_at k op \<longleftrightarrow> (case op of DUpsert p _ \<Rightarrow> p = k | DDelete _ \<Rightarrow> False | DMove _ dst \<Rightarrow> is_under k dst)"

lemma stays_empty:
  assumes "t k = None" "\<forall>op \<in> set ops. \<not> puts_at k op"
  shows "fold (tree_op c) ops t k = None"
  using assms
proof (induction ops arbitrary: t)
  case (Cons op ops)
  have "tree_op c op t k = None"
    using Cons.prems by (cases op) (auto simp: puts_at_def del_map_def mv_map_def)
  then show ?case using Cons.IH Cons.prems(2) by simp
qed simp

text \<open>The moves of a difference, in their order: no later one goes above or below the target of an earlier one.\<close>

lemma join_targets_apart:
  assumes "join_ok prev cur removed added (moves, rc, ac)" "(s, d) \<in> set moves" "(s', d') \<in> set moves" "(s, d) \<noteq> (s', d')"
  shows "\<not> is_under d d'"
proof
  assume u: "is_under d d'"
  have s: "sorted_wrt (\<lambda>m m'. \<not> is_under (fst m') (fst m) \<and> \<not> is_under (snd m') (snd m) \<and> length (snd m) \<le> length (snd m')) moves"
    using assms(1) by (simp add: join_ok_def)
  from sorted_wrt_either[OF s assms(2,3)] assms(4) u
  have "\<not> is_under d' d" "length d \<le> length d'" by auto
  moreover have "d = d'" using u calculation(2) is_under_length[OF u] is_under_prefix[OF u] by (auto simp: prefix_def)
  ultimately show False by simp
qed

lemma join_order:
  assumes "join_ok prev cur removed added (moves, rc, ac)" "(a, b) \<in> set moves" "(c, d) \<in> set moves" "is_under a c" "a \<noteq> c"
  obtains ms1 ms2 ms3 where "moves = ms1 @ (a, b) # ms2 @ (c, d) # ms3"
proof -
  have s: "sorted_wrt (\<lambda>m m'. \<not> is_under (fst m') (fst m)) moves"
    using assms(1) by (auto simp: join_ok_def elim: sorted_wrt_mono_rel[rotated])
  obtain xs ys where x: "moves = xs @ (a, b) # ys" using assms(2) by (meson split_list)
  have "(c, d) \<notin> set xs"
  proof
    assume "(c, d) \<in> set xs"
    then have "\<not> is_under a c" using s by (auto simp: x sorted_wrt_append)
    then show False using assms(4) by simp
  qed
  then have "(c, d) \<in> set ys" using assms(3,5) by (auto simp: x)
  then obtain ms2 ms3 where "ys = ms2 @ (c, d) # ms3" by (meson split_list)
  then show thesis using that[of xs ms2 ms3] x by simp
qed

subsection \<open>The entry between two moves\<close>

lemma nested_moves_drop:
  assumes t: "tree_ok prev" "tree_ok cur" and cls: "classified prev cur (removed, added, changed)"
    and mv: "(a, b) \<in> set (op_moves (diff_classified prev cur (removed, added, changed)))"
      "(c, d) \<in> set (op_moves (diff_classified prev cur (removed, added, changed)))"
    and nest: "is_under a c" "a \<noteq> c" "is_under p a"
    and pv: "bt_get prev p = Some pv" and cv: "bt_get cur (shift c d p) = Some cv" and same: "visible_eq cv pv"
  shows "fold (tree_op (shown_tree cur)) (diff_classified prev cur (removed, added, changed)) (shown_tree prev) (shift c d p) = None"
proof -
  obtain moves rc ac where j: "move_join prev cur removed added = (moves, rc, ac)" by (cases "move_join prev cur removed added")
  have ok: "join_ok prev cur removed added (moves, rc, ac)" using join_of_trees[OF t cls] j by simp
  have mem: "(a, b) \<in> set moves" "(c, d) \<in> set moves" using mv by (simp_all add: op_moves_diff j)
  have ends: "src \<in> dom (bt_get prev)" "src \<notin> dom (bt_get cur)" "dst \<in> dom (bt_get cur)" "dst \<notin> dom (bt_get prev)"
    "src \<noteq> []" "dst \<noteq> []" if "(src, dst) \<in> set moves" for src dst
    using move_ends[OF t cls, of src dst] that j by auto
  have closed: "closed_tree (dom (bt_get prev))" "closed_tree (dom (bt_get cur))" using t by (simp_all add: tree_ok_def)
  define q where "q = shift c d p"
  let ?f = "tree_op (shown_tree cur)"
  have pc: "is_under p c" using is_under_trans nest(1,3) by blast
  have qd: "is_under q d" and home: "shift d c q = p"
    unfolding q_def using shift_under[OF pc] shift_back[OF pc] ends[OF mem(2)] by auto
  have p_no: "\<not> is_under p dst" if "(src, dst) \<in> set moves" for src dst
    using closed_tree_under[OF closed(1), of p dst] ends(4)[OF that] pv by blast
  have q_no: "\<not> is_under q dst" if m: "(src, dst) \<in> set moves" "(src, dst) \<noteq> (c, d)" for src dst
    using is_under_comparable[OF qd] join_targets_apart[OF ok m(1) mem(2) m(2)] join_targets_apart[OF ok mem(2) m(1)] m(2) by metis
  have fresh: "shown_tree prev q = None"
    using closed_tree_under[OF closed(1) _ qd] ends(4)[OF mem(2)] by (cases "bt_get prev q") (auto simp: shown_tree_def)
  obtain ms1 ms2 ms3 where ms: "moves = ms1 @ (a, b) # ms2 @ (c, d) # ms3" by (rule join_order[OF ok mem nest(1,2)])
  have dist: "distinct moves" using ok unfolding join_ok_def by (auto simp: distinct_conv_nth sorted_wrt_iff_nth_less nat_neq_iff) (metis is_under_refl)+
  define mvs where "mvs = (\<lambda>ms. map (\<lambda>(src, dst). DMove src dst) ms)"
  define T1 where "T1 = fold ?f (mvs ms1) (shown_tree prev)"
  define T2 where "T2 = fold ?f (mvs ms2) (mv_map a b T1)"
  have quiet: "\<forall>op \<in> set (mvs ms). \<not> puts_at q op" if "set ms \<subseteq> set moves - {(c, d)}" for ms
    using that q_no by (fastforce simp: mvs_def puts_at_def)
  have quiet_p: "\<forall>op \<in> set (mvs ms). \<not> puts_at p op" if "set ms \<subseteq> set moves" for ms
    using that p_no by (fastforce simp: mvs_def puts_at_def)
  have "T1 q = None" unfolding T1_def using dist by (intro stays_empty[where k = q] fresh quiet) (auto simp: ms)
  then have "mv_map a b T1 q = None" using q_no[OF mem(1)] nest(2) by (simp add: mv_map_def)
  then have T2q: "T2 q = None" unfolding T2_def using dist by (intro stays_empty[where k = q] quiet) (auto simp: ms)
  have "mv_map a b T1 p = None" using p_no[OF mem(1)] nest(3) by (simp add: mv_map_def)
  then have "T2 p = None" unfolding T2_def by (intro stays_empty[where k = p] quiet_p) (auto simp: ms)
  then have "mv_map c d T2 q = None" using T2q by (simp add: mv_map_def home)
  then have moved: "fold ?f (mvs ms3) (mv_map c d T2) q = None"
    using dist by (intro stays_empty[where k = q] quiet) (auto simp: ms)
  have T: "fold ?f (mvs moves) (shown_tree prev) q = None"
    using moved by (simp add: ms mvs_def T1_def T2_def)
  define rest where "rest = map DDelete (delete_roots [] (zip removed rc))
     @ concat (map (\<lambda>(path, covered). if covered then [] else [DUpsert path True]) (zip added ac))
     @ concat (map (move_fixups prev cur) moves) @ map (\<lambda>(path, c). DUpsert path c) changed"
  have ops: "diff_classified prev cur (removed, added, changed) = mvs moves @ rest"
    by (simp add: diff_classified_def j mvs_def rest_def)
  have uncov: "(k, False) \<in> set (zip added ac) \<longleftrightarrow> k \<in> set added \<and> \<not> (\<exists>m \<in> set moves. is_under k (snd m))" for k
    by (rule zip_uncovered) (use ok in \<open>simp_all add: join_ok_def\<close>)
  have okq: "path_ok q" "bt_get cur q = Some cv" using t(2) cv by (auto simp: tree_ok_def q_def)
  have "\<not> puts_at q op" if fx: "op \<in> set (move_fixups prev cur (s, e))" "(s, e) \<in> set moves" for op s e
  proof
    assume at: "puts_at q op"
    have inv: "bt_inv cur" using t(2) by (simp add: tree_ok_def)
    obtain f where op: "op = DUpsert q f" using at fx(1) by (auto simp: move_fixups_def puts_at_def Let_def split: if_splits option.splits)
    have f: "is_under q e" "\<not> (\<exists>v. bt_get prev (rebase_subtree_path q e s) = Some v \<and> visible_eq cv v)"
      using fx(1) okq(2) by (auto simp: op move_fixups_def set_subtree_entries[OF inv] Let_def split: if_splits option.splits)
    then have "(s, e) = (c, d)" using q_no[OF fx(2)] by blast
    moreover have "rebase_subtree_path q d c = p" using rebase_shift[OF qd _ _ okq(1)] ends[OF mem(2)] home by simp
    ultimately show False using f(2) pv same by simp
  qed
  then have "\<forall>op \<in> set (concat (map (move_fixups prev cur) moves)). \<not> puts_at q op" by fastforce
  moreover have "(q, b) \<notin> set changed" for b using cls fresh by (auto simp: classified_def shown_tree_def)
  moreover have "(q, False) \<notin> set (zip added ac)" using uncov[of q] mem(2) qd by force
  ultimately have "\<forall>op \<in> set rest. \<not> puts_at q op"
    by (auto simp: rest_def puts_at_def split: if_splits)
  then show ?thesis unfolding ops q_def[symmetric] using stays_empty[of "fold ?f (mvs moves) (shown_tree prev)" q rest] T by simp
qed

end
