(* ===== verification/Sync_Properties.thy ===== *)
theory Sync_Properties
  imports Sync_Demo Sync_Nested
begin

text \<open>
  The properties of file synchronisation: the difference of two snapshots, the wire, the client that
  follows its engine, the window, and the cases in which a client is left behind.
\<close>

subsection \<open>The difference\<close>

text \<open>
  C33.  The operations of a difference, whether of a full walk or of the keys said to have changed, turn the
  old tree into the new one, in everything a client can see, provided no move takes its source from
  under the source of another.
\<close>

theorem difference_transforms_tree:
  assumes "tree_ok prev" and "tree_ok cur"
    and "ops = diff prev cur \<or> sorted_wrt (<) keys \<and> ops = diff_changed prev cur keys
      \<and> (\<forall>k. \<not> rel_option visible_eq (bt_get cur k) (bt_get prev k) \<longrightarrow> k \<in> set keys)"
    and "moves_apart (op_moves ops)"
  shows "fold (tree_op (shown_tree cur)) ops (shown_tree prev) = shown_tree cur"
proof -
  obtain cls where "ops = diff_classified prev cur cls" "classified prev cur cls" by (rule difference_classified[OF assms(1-3)])
  moreover obtain removed added chg where "cls = (removed, added, chg)" by (cases cls)
  ultimately show ?thesis
    using diff_classified_correct[OF assms(1,2), of removed added chg] assms(4) by (intro ext) simp
qed

theorem difference_transforms_tree_witness:
  "fold (tree_op (shown_tree tree_after)) (diff tree_before tree_after) (shown_tree tree_before) = shown_tree tree_after
    \<and> op_moves (diff tree_before tree_after) = [([97], [99])]"
proof -
  have "op_moves (diff tree_before tree_after) = [([97], [99])]" by (simp add: tree_difference op_moves_Cons)
  then show ?thesis
    using difference_transforms_tree[OF trees_ok(1,2), of "diff tree_before tree_after" "[]"] by (simp add: moves_apart_def)
qed

text \<open>
  C34.  With nested move sources the difference loses entries.  When a difference moves a directory \<open>c\<close> and,
  by a move of its own, an entry \<open>a\<close> below it, then whatever was under \<open>a\<close> and looks the same at the place it
  would have in \<open>c\<close>'s new home is in the new tree but not in what the operations make of the old one: the inner
  move runs first and carries it away, and the fix-up of the outer move compares with the old snapshot, finds
  it unchanged and sends nothing.
\<close>

theorem nested_moves_lose_entry:
  assumes "tree_ok prev" and "tree_ok cur"
    and "ops = diff prev cur \<or> sorted_wrt (<) keys \<and> ops = diff_changed prev cur keys
      \<and> (\<forall>k. \<not> rel_option visible_eq (bt_get cur k) (bt_get prev k) \<longrightarrow> k \<in> set keys)"
    and "(a, b) \<in> set (op_moves ops)" and "(c, d) \<in> set (op_moves ops)" and "is_under a c" and "a \<noteq> c" and "is_under p a"
    and "bt_get prev p = Some old" and "bt_get cur (rebase_subtree_path p c d) = Some new" and "visible_eq new old"
  shows "shown_tree cur (rebase_subtree_path p c d) = shown_tree prev p \<and> shown_tree prev p \<noteq> None
    \<and> fold (tree_op (shown_tree cur)) ops (shown_tree prev) (rebase_subtree_path p c d) = None"
proof -
  obtain cls where ops: "ops = diff_classified prev cur cls" "classified prev cur cls" by (rule difference_classified[OF assms(1-3)])
  obtain removed added chg where cls: "cls = (removed, added, chg)" by (cases cls)
  have "path_ok p" using assms(1,9) by (auto simp: tree_ok_def)
  then have q: "rebase_subtree_path p c d = shift c d p"
    using difference_move_ends[OF assms(1,2) ops assms(5)] is_under_trans[OF assms(8,6)] by (intro rebase_shift) auto
  show ?thesis
    using nested_moves_drop[OF assms(1,2) ops(2)[unfolded cls] _ _ assms(6-9) _ assms(11), of b d] assms(4,5,9-11)
    by (simp add: q ops(1) cls shown_tree_def visible_eq_iff)
qed

theorem nested_moves_lose_entry_witness:
  "op_moves (diff nested_before nested_after) = [([97, 47, 100], [121]), ([97], [120, 120])]
    \<and> shown_tree nested_after [120, 120, 47, 100, 47, 101] \<noteq> None
    \<and> fold (tree_op (shown_tree nested_after)) (diff nested_before nested_after) (shown_tree nested_before)
        [120, 120, 47, 100, 47, 101] = None"
proof -
  have moves: "op_moves (diff nested_before nested_after) = [([97, 47, 100], [121]), ([97], [120, 120])]"
  proof -
    have "diff nested_before nested_after
      = [DMove [97, 47, 100] [121], DMove [97] [120, 120], DDelete [121, 47, 101], DUpsert [120, 120, 47, 100] True]"
      by code_simp
    then show ?thesis by (simp add: op_moves_Cons)
  qed
  have "rebase_subtree_path [97, 47, 100, 47, 101] [97] [120, 120] = [120, 120, 47, 100, 47, 101]"
    "is_under [97, 47, 100] [97]" "is_under [97, 47, 100, 47, 101] [97, 47, 100]"
    "bt_get nested_before [97, 47, 100, 47, 101] = Some (demo_meta 0 4 6)"
    "bt_get nested_after [120, 120, 47, 100, 47, 101] = Some (demo_meta 0 4 6)"
    "visible_eq (demo_meta 0 4 6) (demo_meta 0 4 6)"
    by (simp_all add: rebase_subtree_path_def is_under_def starts_with_def bt_get_def nested_before_def nested_after_def visible_eq_def)
  then show ?thesis
    using nested_moves_lose_entry[OF trees_ok(3,4), of "diff nested_before nested_after" "[]" "[97, 47, 100]" "[121]"
      "[97]" "[120, 120]" "[97, 47, 100, 47, 101]" "demo_meta 0 4 6" "demo_meta 0 4 6"] moves by simp
qed

subsection \<open>The wire\<close>

text \<open>
  C35.  Updates read back: the records of an update are read in order, records of unknown kinds skipped and
  up to three stray bytes at the end ignored; the message carries its id, flags and records; and a
  delta between two contents, applied to the first, gives the second.
\<close>

theorem file_update_round_trip:
  assumes "lz4_contract compress decompress" and "list_all fs_frame_ok frames" and "length junk < 4"
    and "length (fs_frames_bytes frames @ junk) \<le> MAX_DECOMPRESSED"
    and "length content \<le> MAX_DECOMPRESSED" and "length base < 2 ^ 64"
  shows "map_option fs_records (fs_update_records decompress
      (msg_fs_update compress sync_id update_id flags (fs_frames_bytes frames @ junk))) = Some (List.map_filter fs_frame_record frames)
    \<and> apply_fs_delta base (encode_delta base content) = Some content"
  using fs_update_fields[OF assms(1,4) refl, of sync_id update_id flags] fs_records_frames[OF assms(2,3)]
    apply_encode_delta[OF assms(5,6)] by (simp add: fs_update_records_def)

theorem file_update_round_trip_witness:
  "map_option fs_records (fs_update_records demo_decompress (msg_fs_update demo_compress 1 2 3
      (fs_frames_bytes [FsKnown (FsMove [97] [98]), FsUnknown 9 [1, 2], FsKnown (FsUpsert [98] 0 1 5 7 3 (FcFull [8]))] @ [0])))
    = Some [FsMove [97] [98], FsUpsert [98] 0 1 5 7 3 (FcFull [8])]
    \<and> apply_fs_delta [1, 2, 3] (encode_delta [1, 2, 3] [1, 9, 3]) = Some [1, 9, 3]"
proof -
  let ?frames = "[FsKnown (FsMove [97] [98]), FsUnknown 9 [1, 2], FsKnown (FsUpsert [98] 0 1 5 7 3 (FcFull [8]))]"
  have u: "utf8_valid [97]" "utf8_valid [98]" by code_simp+
  have f: "list_all fs_frame_ok ?frames"
    using u by (simp add: fs_record_ok_def fs_record_body_def push_str_def clip_str_def fs_content_bytes_def wire_defs)
  have len: "length (fs_frames_bytes ?frames @ [0]) \<le> MAX_DECOMPRESSED"
    by (simp add: kv_framed_def fs_record_body_def push_str_def clip_str_def fs_content_bytes_def MAX_DECOMPRESSED_def)
  show ?thesis
    using file_update_round_trip[OF demo_contract f _ len, of "[1, 9, 3]" "[1, 2, 3]" 1 2 3]
    by (simp add: MAX_DECOMPRESSED_def List.map_filter_def)
qed

subsection \<open>The client\<close>

text \<open>
  C36.  A client follows its engine.  If a client that has applied everything sent so far shows the engine's
  shadow and has the contents whose hashes the engine holds for it, then after a tick the messages the tick
  sent, however they were batched and whatever the engine did while it waited for credit, are all accepted,
  and the client shows the new shadow and has the contents held; a tick with a new snapshot makes that snapshot
  the shadow.  The first tick resets the client whatever it showed before.  This holds where the files and links
  whose content is sent (those within the size limit of a sync that wants contents; directories and larger
  files are never read) read back the same while the tick looks at them, their contents leave a batch below the
  largest payload and are told apart by the hash, paths are valid and below 64 KiB, no move takes its source from
  under another's, no entry changes its type in place, and no write of the client's own lands meanwhile.
\<close>

theorem client_follows_engine:
  assumes "sync_ready sv opts S decompress" and "snapshot_ok sv opts S (en_latest e)" and "client_current sv S e fm"
    and "en_initial_sent e \<longrightarrow> changes_known e \<and> series_ok (en_shadow e) (en_latest e) (tick_ops sv opts e)"
    and "tick sv opts e = Goes e'" and "quiet e"
  shows "\<exists>msgs fm'. en_sent e' = en_sent e @ msgs \<and> apply_updates decompress msgs fm = Some fm' \<and> client_current sv S e' fm'
    \<and> (en_snapshot_dirty e \<longrightarrow> en_shadow e' = en_latest e \<and> en_initial_sent e')"
  by (rule tick_current[OF assms(1-3) _ assms(5,6)]) (use assms(4) in blast)

theorem client_follows_engine_witness:
  "\<not> reads_stable demo_sync_env [] \<and> \<not> reads_stable demo_sync_env [99] \<and> (\<exists>e' m'. tick demo_sync_env demo_sync_opts demo_engine = Goes e'
    \<and> apply_updates demo_decompress (en_sent e') \<lparr>fm_live = demo_mirror, fm_staging = None\<rparr> = Some \<lparr>fm_live = m', fm_staging = None\<rparr>
    \<and> client_tree m' = index_tree tree_after)"
proof -
  obtain e' where e': "tick demo_sync_env demo_sync_opts demo_engine = Goes e'" using demo_tick_goes by blast
  have e: "en_shadow demo_engine = tree_before" "en_latest demo_engine = tree_after" by (simp_all add: demo_engine_def)
  have snap: "snapshot_ok demo_sync_env demo_sync_opts {demo_old, demo_new} (en_latest demo_engine)" using demo_snapshot_ok by (simp add: demo_engine_def)
  obtain msgs fm' where "en_sent e' = en_sent demo_engine @ msgs"
    "apply_updates demo_decompress msgs \<lparr>fm_live = demo_mirror, fm_staging = None\<rparr> = Some fm'"
    "client_current demo_sync_env {demo_old, demo_new} e' fm'" "en_shadow e' = tree_after" "en_initial_sent e'"
    using client_follows_engine[OF demo_sync_ready snap demo_current _ e' demo_quiet] demo_known demo_series_ok
    by (auto simp: e demo_tick_ops) (auto simp: demo_engine_def engine_new_def)
  then show ?thesis using e' demo_directories by (auto simp: client_current_def demo_engine_def engine_new_def)
qed

subsection \<open>The window\<close>

text \<open>
  C37.  Whatever arrives and whatever the disk shows, the bytes in flight are exactly those of the
  unacknowledged updates and, without the newest of them, below the window; acknowledging the \<open>j\<close>th
  newest update leaves exactly the \<open>j\<close> newer ones in flight, ids wrapping around included; and
  acknowledging an update not yet sent ends the sync.
\<close>

theorem update_window_holds:
  assumes "sync_reach opts e"
  shows "en_unacked_bytes e = sum_list (map snd (en_unacked e))
    \<and> (en_unacked e \<noteq> [] \<longrightarrow> sum_list (map snd (butlast (en_unacked e))) < so_window_bytes opts)
    \<and> (length (en_unacked e) < 2 ^ 31 \<longrightarrow> (\<forall>j \<le> length (en_unacked e). \<exists>e'. handle_ack (en_highest_sent e - of_nat j) e = Goes e'
        \<and> en_unacked e' = drop (length (en_unacked e) - j) (en_unacked e)
        \<and> en_unacked_bytes e' = sum_list (map snd (en_unacked e'))))
    \<and> (\<forall>j. 0 < j \<and> j < 2 ^ 31 \<longrightarrow> handle_ack (en_highest_sent e + of_nat j) e = Ends (ExClosed FS_CLOSED_BACKEND_FAILED))"
proof (intro conjI allI impI)
  have w: "window_ok opts e" by (rule sync_reach_window[OF assms])
  show "en_unacked_bytes e = sum_list (map snd (en_unacked e))"
    "en_unacked e \<noteq> [] \<Longrightarrow> sum_list (map snd (butlast (en_unacked e))) < so_window_bytes opts"
    using w by (simp_all add: window_ok_def)
  show "\<exists>e'. handle_ack (en_highest_sent e - of_nat j) e = Goes e'
        \<and> en_unacked e' = drop (length (en_unacked e) - j) (en_unacked e) \<and> en_unacked_bytes e' = sum_list (map snd (en_unacked e'))"
    if h: "length (en_unacked e) < 2 ^ 31" "j \<le> length (en_unacked e)" for j
  proof -
    obtain e' where e': "handle_ack (en_highest_sent e - of_nat j) e = Goes e'" "en_unacked e' = drop (length (en_unacked e) - j) (en_unacked e)"
      using ack_exact[OF w h(2,1)] by blast
    have "window_ok opts e'" by (rule handle_ack_window[OF w e'(1)])
    then show ?thesis using e' by (simp add: window_ok_def)
  qed
  show "handle_ack (en_highest_sent e + of_nat j) e = Ends (ExClosed FS_CLOSED_BACKEND_FAILED)" if "0 < j \<and> j < 2 ^ 31" for j
  proof -
    have "unat (of_nat j :: u32) = j" using that by (simp add: unat_of_nat)
    then have "of_nat j \<noteq> (0 :: u32) \<and> of_nat j < (0x80000000 :: u32)" using that by (auto simp: word_less_nat_alt unsigned_eq_0_iff)
    then show ?thesis by (simp add: handle_ack_def Let_def)
  qed
qed

theorem update_window_holds_witness:
  "\<exists>e e'. sync_reach demo_sync_opts e \<and> en_unacked e = [(1, 12)] \<and> en_unacked_bytes e = 12
    \<and> handle_ack (en_highest_sent e) e = Goes e' \<and> en_unacked e' = []"
proof -
  let ?e = "engine_new 1 (blob_store_new 1000) [] []"
  obtain e where t: "engine_turn demo_sync_env demo_sync_opts (Some (SmRoot (RuSnapshot [] None None []))) ?e = Goes e"
    and u: "en_unacked e = [(1, 12)]"
    by (simp add: engine_turn_def handle_msg_def handle_root_def tick_def emit_updates_def emit_initial_def send_update_def
        wait_for_credit.simps engine_new_def demo_sync_opts_def demo_sync_env_def Let_def earlier_def msg_fs_update_def demo_compress_def)
  have r: "sync_reach demo_sync_opts e" by (rule sync_reach.turn[OF sync_reach.start t])
  note W = update_window_holds[OF r, unfolded u]
  have "\<forall>j \<le> Suc 0. \<exists>e'. handle_ack (en_highest_sent e - of_nat j) e = Goes e' \<and> en_unacked e' = drop (Suc 0 - j) [(1, 12)]"
    using W by auto
  then have "\<exists>e'. handle_ack (en_highest_sent e - of_nat 0) e = Goes e' \<and> en_unacked e' = drop (Suc 0 - 0) [(1, 12)]" by blast
  then show ?thesis using W r u by auto
qed

subsection \<open>Clients left behind\<close>

text \<open>
  C38.  A client loses the content of a file that comes back.  The engine remembers what the client holds
  under a path when the file there becomes a directory or another kind of entry; the client drops the
  content.  When a file with the old bytes returns, the engine takes the client to hold them and sends
  metadata only: the client then shows a file with the right hash, no content and no flag saying so.
\<close>

theorem type_change_loses_content:
  assumes "hm_get (sc_held c) path = Some hash" and "bt_inv m"
    and "nm_type other \<in> {FS_ENTRY_DIR, FS_ENTRY_OTHER}" and "nm_type meta \<in> {FS_ENTRY_FILE, FS_ENTRY_SYMLINK}"
    and "upsert_record sv opts path other changed c = (Some r1, c1)"
    and "so_content opts" and "unat (nm_size meta) \<le> min (unat (so_inline_max opts)) MAX_DECOMPRESSED"
    and "fst (read_content sv' path meta (c1\<lparr>sc_retry := bt_remove path (sc_retry c1)\<rparr>)) = CrStable hash data"
    and "upsert_record sv' opts path meta True c1 = (Some r2, c2)"
  shows "\<exists>m' n. apply_fs_records [r1, r2] m = (m', True) \<and> bt_get m' path = Some n \<and> fn_content n = None \<and> fn_hash n = hash
    \<and> entry_type (fn_flags n) = nm_type meta
    \<and> fn_flags n AND (FS_ENTRY_NO_CONTENT OR FS_ENTRY_UNREADABLE OR FS_ENTRY_UNSTABLE) = 0"
proof -
  have r1: "r1 = FsUpsert path (entry_flags_of other) (nm_size other) (nm_mtime_ns other) (nm_mode other) (nm_hash other) FcNone"
    and c1: "sc_held c1 = sc_held c"
    using assms(3,5) by (auto simp: upsert_record_def Let_def wire_defs)
  obtain c3 where read: "read_content sv' path meta (c1\<lparr>sc_retry := bt_remove path (sc_retry c1)\<rparr>) = (CrStable hash data, c3)"
    using assms(8) by (cases "read_content sv' path meta (c1\<lparr>sc_retry := bt_remove path (sc_retry c1)\<rparr>)") simp
  have r2: "r2 = FsUpsert path (entry_flags_of meta) (nm_size meta) (nm_mtime_ns meta) (nm_mode meta) hash FcNone"
    using assms(1,9) c1 by (simp add: upsert_record_stable[OF assms(4,6,7) read])
  have other: "entry_type (entry_flags_of other) = nm_type other"
    using assms(3) entry_flags_of_visible(2)[of other] by (auto simp: wire_defs)
  have meta: "entry_type (entry_flags_of meta) = nm_type meta"
    using assms(4) entry_flags_of_visible(2)[of meta] by (auto simp: wire_defs)
  have "nm_type other \<noteq> nm_type meta" "nm_type other \<notin> {FS_ENTRY_FILE, FS_ENTRY_SYMLINK}" using assms(3,4) by (auto simp: wire_defs)
  then show ?thesis
    using other meta assms(2) entry_flags_of_plain[of meta]
    by (simp add: r1 r2 apply_fs_record_def upsert_content_def kept_content_def bt_get_insert bt_inv_insert)
qed

theorem type_change_loses_content_witness:
  "\<exists>r1 c1 r2 c2 m' n. upsert_record demo_sync_env demo_sync_opts [97] (demo_meta 1 2 0) True
      \<lparr>sc_held = [([97], 9)], sc_retry = [], sc_blobs = blob_store_new 0, sc_learned = [], sc_taught = []\<rparr> = (Some r1, c1)
    \<and> upsert_record demo_sync_env demo_sync_opts [97] (demo_meta 0 3 9) True c1 = (Some r2, c2)
    \<and> apply_fs_records [r1, r2] [([97], demo_node 0 9 (Some demo_new))] = (m', True) \<and> bt_get m' [97] = Some n
    \<and> fn_content n = None \<and> fn_hash n = 9"
proof -
  let ?c = "\<lparr>sc_held = [([97], 9)], sc_retry = [], sc_blobs = blob_store_new 0, sc_learned = [], sc_taught = []\<rparr>"
  obtain r1 c1 where u1: "upsert_record demo_sync_env demo_sync_opts [97] (demo_meta 1 2 0) True ?c = (Some r1, c1)" and c1: "c1 = ?c"
    by (simp add: upsert_record_def Let_def demo_meta_def wire_defs)
  have read: "fst (read_content demo_sync_env [97] (demo_meta 0 3 9) (c1\<lparr>sc_retry := bt_remove [97] (sc_retry c1)\<rparr>)) = CrStable 9 demo_new"
    by (simp add: c1 read_content_def learned_hash_def hm_get_def demo_meta_def read_disk_def read_verified_meta_def demo_sync_env_def
        numeral_2_eq_2 Let_def) (simp add: demo_new_def)
  obtain r2 c2 where u2: "upsert_record demo_sync_env demo_sync_opts [97] (demo_meta 0 3 9) True c1 = (Some r2, c2)"
    by (cases "upsert_record demo_sync_env demo_sync_opts [97] (demo_meta 0 3 9) True c1",
        cases "fst (upsert_record demo_sync_env demo_sync_opts [97] (demo_meta 0 3 9) True c1)")
      (use read in \<open>auto simp: upsert_record_def Let_def split: if_splits prod.splits\<close>)
  show ?thesis
    using type_change_loses_content[OF _ _ _ _ u1 _ _ read u2, of "[([97], demo_node 0 9 (Some demo_new))]"] u1 u2
    by (fastforce simp: hm_get_def demo_meta_def wire_defs demo_sync_opts_def MAX_DECOMPRESSED_def)
qed

text \<open>
  C39.  A client's own write spoils its mirror.  When a write of the client lands, the engine takes the client
  to hold the bytes written; but the mirror of the client changes by updates only, and the update that echoes the
  write has metadata and no content.  So the mirror shows the hash of the new bytes over the old ones.  The next
  content comes as a delta against the bytes written, applied to the old ones: where it does not apply, the client
  refuses the update, and where it does, the mirror has bytes that were never in the file.
\<close>

theorem own_write_spoils_mirror:
  assumes "bt_inv m" and "bt_get m path = Some n" and "fn_content n = Some old" and "entry_type (fn_flags n) = nm_type meta"
    and types: "nm_type meta \<in> {FS_ENTRY_FILE, FS_ENTRY_SYMLINK}" "nm_type meta' \<in> {FS_ENTRY_FILE, FS_ENTRY_SYMLINK}" and "so_content opts"
    and sizes: "unat (nm_size meta) \<le> min (unat (so_inline_max opts)) MAX_DECOMPRESSED"
      "unat (nm_size meta') \<le> min (unat (so_inline_max opts)) MAX_DECOMPRESSED"
    and "handle_msg sv0 opts (SmRequest (LdEcho path hash (Some new) mtime_ns stat) True) e = Goes e1"
    and "fst (read_content sv path meta ((en_core e1)\<lparr>sc_retry := bt_remove path (sc_retry (en_core e1))\<rparr>)) = CrStable hash new"
    and "upsert_record sv opts path meta True (en_core e1) = (Some r1, c1)"
    and "read_content sv' path meta' (c1\<lparr>sc_retry := bt_remove path (sc_retry c1)\<rparr>) = (CrStable hash' data, c2)" and "hash' \<noteq> hash"
    and "blob_content (sc_blobs c2) hash = Some new" and "length (encode_delta new data) * 8 < length data * 7"
    and "upsert_record sv' opts path meta' True c1 = (Some r2, c3)"
  shows "\<exists>m1 n1. apply_fs_records [r1] m = (m1, True) \<and> bt_get m1 path = Some n1 \<and> fn_hash n1 = hash \<and> fn_content n1 = Some old
    \<and> fn_flags n1 AND (FS_ENTRY_NO_CONTENT OR FS_ENTRY_UNREADABLE OR FS_ENTRY_UNSTABLE) = 0
    \<and> (case apply_fs_delta old (encode_delta new data) of
          None \<Rightarrow> apply_fs_record r2 m1 = (m1, False)
        | Some wrong \<Rightarrow> \<exists>m2 n2. apply_fs_record r2 m1 = (m2, True) \<and> bt_get m2 path = Some n2 \<and> fn_content n2 = Some wrong \<and> fn_hash n2 = hash')"
proof -
  have held: "hm_get (sc_held (en_core e1)) path = Some hash"
    using assms(10) by (auto simp: handle_msg_def prime_echo_def prime_echo_unstored_def teach_hash_def Let_def hm_get_def hm_insert_def update_conv'
        split: option.splits if_splits)
  obtain c where read: "read_content sv path meta ((en_core e1)\<lparr>sc_retry := bt_remove path (sc_retry (en_core e1))\<rparr>) = (CrStable hash new, c)"
    using assms(11) by (cases "read_content sv path meta ((en_core e1)\<lparr>sc_retry := bt_remove path (sc_retry (en_core e1))\<rparr>)") simp
  have r1: "r1 = FsUpsert path (entry_flags_of meta) (nm_size meta) (nm_mtime_ns meta) (nm_mode meta) hash FcNone" and "c1 = c"
    using assms(12) held by (simp_all add: upsert_record_stable[OF types(1) assms(7) sizes(1) read])
  then have held1: "hm_get (sc_held c1) path = Some hash" "sc_held c2 = sc_held c1"
    using read_content_held[OF read] read_content_held[OF assms(13)] held by simp_all
  obtain blobs where "blob_get hash (sc_blobs c2) = (Some new, blobs)"
    using assms(15) blob_get_content[of hash "sc_blobs c2"] by (cases "blob_get hash (sc_blobs c2)") simp
  then have r2: "r2 = FsUpsert path (entry_flags_of meta') (nm_size meta') (nm_mtime_ns meta') (nm_mode meta') hash' (FcDelta (encode_delta new data))"
    using assms(14,16,17) held1
    by (auto simp: upsert_record_stable[OF types(2) assms(7) sizes(2) assms(13)] content_section_def read_blob_def Let_def split: if_splits)
  have flags: "entry_type (entry_flags_of meta) = nm_type meta"
    using types(1) entry_flags_of_visible(2)[of meta] by (auto simp: wire_defs)
  show ?thesis
    using assms(1-4) types(1) flags entry_flags_of_plain[of meta]
    by (auto simp: r1 r2 apply_fs_record_def upsert_content_def kept_content_def bt_get_insert bt_inv_insert split: option.split)
qed

theorem own_write_spoils_mirror_witness:
  "\<exists>e1 r1 c1 r2 c3 m1 n1. handle_msg demo_sync_env demo_sync_opts (SmRequest (LdEcho [97] 16 (Some demo_written) 5 None) True)
      (engine_new 1 (blob_store_new 1000) [] []) = Goes e1
    \<and> upsert_record (reading demo_written) demo_sync_opts [97] (demo_meta 0 3 16) True (en_core e1) = (Some r1, c1)
    \<and> upsert_record (reading (demo_written @ [9])) demo_sync_opts [97] (demo_meta 0 3 17) True c1 = (Some r2, c3)
    \<and> apply_fs_records [r1] [([97], demo_node 0 4 (Some demo_old))] = (m1, True) \<and> bt_get m1 [97] = Some n1
    \<and> fn_hash n1 = 16 \<and> fn_content n1 = Some demo_old \<and> apply_fs_record r2 m1 = (m1, False)"
proof -
  let ?m = "[([97] :: bytes, demo_node 0 4 (Some demo_old))]"
  let ?b = "blob_put 16 demo_written (blob_store_new 1000)"
  let ?c = "\<lparr>sc_held = [([97], 16)], sc_retry = [], sc_blobs = ?b, sc_learned = [], sc_taught = []\<rparr>"
  obtain e1 where e1: "handle_msg demo_sync_env demo_sync_opts (SmRequest (LdEcho [97] 16 (Some demo_written) 5 None) True)
      (engine_new 1 (blob_store_new 1000) [] []) = Goes e1" "en_core e1 = ?c"
    by (simp add: handle_msg_def prime_echo_def prime_echo_unstored_def engine_new_def hm_insert_def Let_def)
  let ?c1 = "?c\<lparr>sc_blobs := blob_put 16 demo_written ?b\<rparr>"
  let ?c2 = "?c1\<lparr>sc_blobs := blob_put 17 (demo_written @ [9]) (sc_blobs ?c1)\<rparr>"
  have read: "read_content (reading d) [97] (demo_meta 0 3 n) c
      = (CrStable (of_nat (length d)) d, c\<lparr>sc_blobs := blob_put (of_nat (length d)) d (sc_blobs c)\<rparr>)"
    if "sc_learned c = []" for d n c
    using that by (simp add: read_content_def learned_hash_def demo_meta_def read_disk_def read_verified_meta_def reading_def
        demo_sync_env_def numeral_2_eq_2 Let_def racily_clean_def RACY_WINDOW_NS_def)
  have len: "length demo_written = 16" by (simp add: demo_written_def)
  have r1: "read_content (reading demo_written) [97] (demo_meta 0 3 16) (?c\<lparr>sc_retry := bt_remove [97] (sc_retry ?c)\<rparr>)
      = (CrStable 16 demo_written, ?c1)"
    and r2: "read_content (reading (demo_written @ [9])) [97] (demo_meta 0 3 17) (?c1\<lparr>sc_retry := bt_remove [97] (sc_retry ?c1)\<rparr>)
      = (CrStable 17 (demo_written @ [9]), ?c2)"
    using read[of ?c demo_written 16] read[of ?c1 "demo_written @ [9]" 17] by (simp_all add: len)
  obtain u1 where u1: "upsert_record (reading demo_written) demo_sync_opts [97] (demo_meta 0 3 16) True ?c = (Some u1, ?c1)"
    using upsert_record_stable[of "demo_meta 0 3 16" demo_sync_opts, OF _ _ _ r1]
    by (simp add: demo_meta_def wire_defs demo_sync_opts_def MAX_DECOMPRESSED_def hm_get_def Let_def)
  obtain u2 c3 where u2: "upsert_record (reading (demo_written @ [9])) demo_sync_opts [97] (demo_meta 0 3 17) True ?c1 = (Some u2, c3)"
    using upsert_record_stable[of "demo_meta 0 3 17" demo_sync_opts, OF _ _ _ r2]
    by (simp add: demo_meta_def wire_defs demo_sync_opts_def MAX_DECOMPRESSED_def hm_get_def Let_def split: prod.splits)
  have blob: "blob_content (sc_blobs ?c2) 16 = Some demo_written"
  proof -
    have new: "blob_content (blob_store_new 1000) = Map.empty" "bs_total (blob_store_new 1000) = 0" "bs_budget (blob_store_new 1000) = 1000"
      by (simp_all add: blob_content_def blob_store_new_def fun_eq_iff)
    note b = blob_put_fits[of "blob_store_new 1000" 16 demo_written, unfolded new]
    note b1 = blob_put_again[of ?b 16 demo_written]
    show ?thesis
      using b b1 blob_put_fits(1)[of "blob_put 16 demo_written ?b" 17 "demo_written @ [9]"] by (simp add: len)
  qed
  have env: "so_content demo_sync_opts" "unat (nm_size (demo_meta 0 3 16)) \<le> min (unat (so_inline_max demo_sync_opts)) MAX_DECOMPRESSED"
    "unat (nm_size (demo_meta 0 3 17)) \<le> min (unat (so_inline_max demo_sync_opts)) MAX_DECOMPRESSED"
    "nm_type (demo_meta 0 3 n) \<in> {FS_ENTRY_FILE, FS_ENTRY_SYMLINK}" "nm_type (demo_meta 0 3 n) = 0" for n
    by (simp_all add: demo_meta_def wire_defs demo_sync_opts_def MAX_DECOMPRESSED_def)
  have m: "bt_inv ?m" "bt_get ?m [97] = Some (demo_node 0 4 (Some demo_old))" "fn_content (demo_node 0 4 (Some demo_old)) = Some demo_old"
    "entry_type (fn_flags (demo_node 0 4 (Some demo_old))) = nm_type (demo_meta 0 3 16)"
    by (simp_all add: bt_inv_def bt_get_def demo_node_def entry_type_def env)
  have fst_r1: "fst (read_content (reading demo_written) [97] (demo_meta 0 3 16)
      ((en_core e1)\<lparr>sc_retry := bt_remove [97] (sc_retry (en_core e1))\<rparr>)) = CrStable 16 demo_written" using r1 by (simp add: e1(2))
  have u1': "upsert_record (reading demo_written) demo_sync_opts [97] (demo_meta 0 3 16) True (en_core e1) = (Some u1, ?c1)"
    using u1 by (simp only: e1(2))
  have "(17 :: u128) \<noteq> 16" by simp
  note W = own_write_spoils_mirror[OF m env(4,4,1,2,3) e1(1) fst_r1 u1' r2 this blob demo_written_delta(1) u2]
  show ?thesis using W e1(1) u1' u2 unfolding demo_written_delta(2) option.simps by blast
qed

text \<open>
  C40.  A file at the inline limit stalls its sync.  The engine sends the content of any file up to the limit of
  a decompressed payload, but the payload also carries the record around the content; with a content
  within 48 bytes of the limit the client refuses the update, its mirror unchanged and nothing acknowledged.
  The compressor says the size of what it compressed in its first four bytes.
\<close>

theorem file_at_limit_refused:
  assumes "\<And>p. length p < 2 ^ 32 \<Longrightarrow> rd 4 (sv_compress sv p) 0 = length p"
    and "nm_type meta \<in> {FS_ENTRY_FILE, FS_ENTRY_SYMLINK}" and "so_content opts"
    and "unat (nm_size meta) \<le> min (unat (so_inline_max opts)) MAX_DECOMPRESSED"
    and "hm_get (sc_held c) path = None"
    and "fst (read_content sv path meta (c\<lparr>sc_retry := bt_remove path (sc_retry c)\<rparr>)) = CrStable hash data"
    and "length data = unat (nm_size meta)" and "MAX_DECOMPRESSED < unat (nm_size meta) + 49"
    and "upsert_record sv opts path meta True c = (Some r, c')"
  shows "(\<exists>flags sz mtime_ns mode. r = FsUpsert path flags sz mtime_ns mode hash (FcFull data))
    \<and> apply_fs_update decompress (msg_fs_update (sv_compress sv) sync_id update_id flags (fs_payload [r])) fm = (fm, None)"
proof -
  obtain c1 where read: "read_content sv path meta (c\<lparr>sc_retry := bt_remove path (sc_retry c)\<rparr>) = (CrStable hash data, c1)"
    using assms(6) by (cases "read_content sv path meta (c\<lparr>sc_retry := bt_remove path (sc_retry c)\<rparr>)") simp
  have "sc_held c1 = sc_held c" using read_content_held[OF read] by simp
  then have r: "r = FsUpsert path (entry_flags_of meta) (nm_size meta) (nm_mtime_ns meta) (nm_mode meta) hash (FcFull data)"
    using assms(5,9) by (simp add: upsert_record_stable[OF assms(2-4) read] content_section_def)
  have str: "2 \<le> length (push_str path)" "length (push_str path) \<le> 65537"
    using clip_str_length[of 65535 path] by (simp_all add: push_str_def Let_def)
  have len: "length (fs_payload [r]) = length (push_str path) + 47 + length data"
    by (simp add: r fs_payload_frames kv_framed_def fs_record_body_def fs_content_bytes_def)
  have "length data \<le> MAX_DECOMPRESSED" using assms(4,7) by simp
  then have "length (fs_payload [r]) < 2 ^ 32" using len str by (simp add: MAX_DECOMPRESSED_def)
  then have "rd 4 (sv_compress sv (fs_payload [r])) 0 > MAX_DECOMPRESSED" using assms(1,7,8) len str by simp
  moreover have "drop 8 (msg_fs_update (sv_compress sv) sync_id update_id flags (fs_payload [r])) = sv_compress sv (fs_payload [r])"
    by (simp add: msg_fs_update_def)
  ultimately have "decompress_guarded decompress (drop 8 (msg_fs_update (sv_compress sv) sync_id update_id flags (fs_payload [r]))) = None"
    by (simp add: decompress_guarded_def)
  then show ?thesis using r by (simp add: apply_fs_update_def Let_def)
qed

theorem file_at_limit_refused_witness:
  "\<exists>r c'. upsert_record limit_env (demo_sync_opts\<lparr>so_inline_max := 67108864\<rparr>) [97] (demo_meta 0 3 67108864) True
      \<lparr>sc_held = [], sc_retry = [], sc_blobs = blob_store_new 0, sc_learned = [], sc_taught = []\<rparr> = (Some r, c')
    \<and> apply_fs_update demo_decompress (msg_fs_update demo_compress 1 2 0 (fs_payload [r])) fs_mirror_new = (fs_mirror_new, None)"
proof -
  let ?c = "\<lparr>sc_held = [], sc_retry = [], sc_blobs = blob_store_new 0, sc_learned = [], sc_taught = []\<rparr>"
  let ?opts = "demo_sync_opts\<lparr>so_inline_max := 67108864\<rparr>" and ?meta = "demo_meta 0 3 67108864"
  define data where "data = replicate MAX_DECOMPRESSED (0 :: u8)"
  have len: "length data = 67108864" by (simp add: data_def MAX_DECOMPRESSED_def)
  have env: "sv_resolves limit_env p" "sv_stat limit_env p i = Some ?meta" "sv_read limit_env p i = Some data"
    "sv_compress limit_env = demo_compress" for p i
    by (simp_all add: limit_env_def demo_sync_env_def data_def)
  have size: "rd 4 (sv_compress limit_env p) 0 = length p" if "length p < 2 ^ 32" for p
    using that by (simp add: env demo_compress_def rd_head)
  have "read_verified_meta limit_env [97] = DrStable data ?meta"
    by (simp add: read_verified_meta_def env numeral_2_eq_2)
  then obtain c1 where "read_disk limit_env [97] ?c = (CrStable (sv_hash limit_env data) data, c1)"
    by (simp add: read_disk_def env Let_def)
  then have read: "read_content limit_env [97] ?meta (?c\<lparr>sc_retry := bt_remove [97] (sc_retry ?c)\<rparr>)
      = (CrStable (sv_hash limit_env data) data, c1)"
    by (simp add: read_content_def learned_hash_def hm_get_def demo_meta_def)
  then obtain r c' where u: "upsert_record limit_env ?opts [97] ?meta True ?c = (Some r, c')"
    by (cases "fst (upsert_record limit_env ?opts [97] ?meta True ?c)", cases "upsert_record limit_env ?opts [97] ?meta True ?c")
      (auto simp: upsert_record_def Let_def split: if_splits prod.splits)
  show ?thesis
    using file_at_limit_refused[OF size _ _ _ _ _ _ _ u, of "sv_hash limit_env data" data demo_decompress 1 2 0 fs_mirror_new] u read len
    by (simp add: demo_meta_def wire_defs demo_sync_opts_def hm_get_def env MAX_DECOMPRESSED_def)
qed

end
