(* ===== verification/Spec2Isabelle.thy ===== *)
theory Spec2Isabelle
  imports Text_Properties Channel_Properties Kv_Properties Event_Properties Sync_Properties
begin

text \<open>
  Verification of blit, a terminal multiplexer whose server keeps terminals, a channel switchboard,
  a key-value store and an event journal for its clients and synchronises directories to them, and whose
  clients hold mirrors of all this.

  \<^bold>\<open>The program and the parts modelled.\<close>  A server process (\<open>crates/server\<close>) owns the
  terminals.  Every terminal is a grid of 12-byte cells with overflow strings, hyperlinks, a title
  and modes (\<open>FrameState\<close>); the server sends each client the difference between the frame it sent
  last and the frame it has now, and the client folds these messages into its own copy
  (\<open>TerminalState\<close>), all in \<open>crates/remote/src/lib.rs\<close>.  Beside the terminals the server switches
  native channels between connections (\<open>crates/server/src/channel.rs\<close>, wire format
  \<open>crates/remote/src/channel.rs\<close>), keeps a key-value store its clients watch (\<open>kv.rs\<close> in both crates) and
  journals what happens in it (\<open>events.rs\<close> in both crates).  For a directory a client watches, an engine
  (\<open>crates/fssync/src/lib.rs\<close>) cuts updates out of the snapshots a reconciler publishes and paces them against
  the client's acknowledgements; the client applies them to its \<open>FsMirror\<close> (\<open>crates/remote/src/fs.rs\<close>).

  \<^bold>\<open>Theories and code.\<close>
  Shared: \<open>Blit_Prelude\<close> (machine integers, slices, little-endian fields), \<open>Utf8\<close> (the byte view of
  \<open>str\<close>), \<open>Keyed_Store\<close> (the locales \<open>keyed_store\<close> and \<open>ordered_store\<close>: the contract of \<open>HashMap\<close> and
  \<open>BTreeMap\<close>, with the two interpretations \<open>hm\<close> and \<open>bt\<close>).

  Terminal frames (\<open>crates/remote/src/lib.rs\<close>): \<open>Frame_State\<close> is the record \<open>FrameState\<close> and its
  cell and link tables; \<open>Frame_Decode\<close> is \<open>TerminalState::feed_compressed\<close> with \<open>apply_payload\<close> and
  the sections it reads; \<open>Frame_Encode\<close> is \<open>build_update_msg\<close> with its operation planner;
  \<open>Frame_Cells\<close>, \<open>Frame_Inv\<close>, \<open>Frame_Ops\<close>, \<open>Frame_Sections\<close>, \<open>Frame_Links\<close> and \<open>Frame_Sync\<close> hold
  what the two sides share, from the cell codec to the statement that a message built from a frame
  makes its reader show that frame; \<open>Frame_Text\<close>, \<open>Frame_Text_Facts\<close> and \<open>Frame_Wrap\<close> are the
  drawing operations (\<open>write_text\<close>, \<open>encode_cell\<close>, the \<open>Dom\<close> that replays them, \<open>wrap_text_lines\<close>) and the
  text readers, \<open>Frame_Paint\<close> what each node of a \<open>Dom\<close> leaves in the grid, cell by cell.  \<open>Frame_Properties\<close> and \<open>Text_Properties\<close> state the results.

  Channels: \<open>Channel_Wire\<close> holds the packets and their parsers, \<open>Channel_Roundtrip\<close> the
  characterisation of each parser by the builder's image; \<open>Channel_Fabric\<close> is \<open>ChannelFabric\<close>, whose
  record mirrors the struct and whose operations are named after its methods; \<open>Channel_Inv\<close>,
  \<open>Channel_Budget\<close>, \<open>Channel_Lifecycle\<close>, \<open>Channel_Deliveries\<close>, \<open>Channel_Config\<close> and
  \<open>Channel_Effects\<close> hold its invariants and the effect of every request, \<open>Channel_System\<close> the step
  relation in which packets arrive, queued deliveries are written and endpoints leave in any order,
  and \<open>Channel_Properties\<close> the results.

  Key-value store: \<open>Kv_Wire\<close> is \<open>crates/remote/src/kv.rs\<close>, the messages, the records of an update and
  the client's \<open>KvMirror\<close>; \<open>Kv_Roundtrip\<close> its parsers on its builders.  \<open>Kv_Store\<close> is
  \<open>crates/server/src/kv.rs\<close>: \<open>Store\<close> with its map, the subscriptions (\<open>SubEntry\<close>) in a heap the registry
  of each connection (\<open>KvSubs\<close>) points into, the queue and the writer thread with its program counter,
  and \<open>handle_kv_message\<close>, whose \<open>OPEN\<close> is cut where it gives up the lock.  \<open>Kv_System\<close> is the step
  relation in which connections, snapshots in progress and the writer take turns; \<open>Kv_Budget\<close>,
  \<open>Kv_Durable\<close> and \<open>Kv_Windows\<close> its budgets and the database behind it; \<open>Kv_Mirror\<close>, \<open>Kv_Snapshot\<close>,
  \<open>Kv_Watch\<close>, \<open>Kv_Open\<close>, \<open>Kv_Sync\<close>, \<open>Kv_Stages\<close>, \<open>Kv_Steps\<close> and \<open>Kv_Converge\<close> what a watcher sees, from
  one frame to every reachable state; \<open>Kv_Writer\<close> the writer coming to rest; \<open>Kv_Cas\<close> the meaning of a
  put; \<open>Kv_Restart\<close> the transactions of a run and what a database keeps of them; \<open>Kv_Demo\<close> a run for the witnesses and \<open>Kv_Properties\<close> the results.

  Event journal: \<open>Event_Wire\<close> is \<open>crates/remote/src/events.rs\<close>, the event types, the activation
  language and the messages; \<open>Event_Roundtrip\<close> its codec.  \<open>Event_Ring\<close> is \<open>Ring\<close> of
  \<open>crates/server/src/events.rs\<close>, a circular buffer (record \<open>ring\<close>), with its abstraction \<open>fifo\<close>, the locale
  \<open>record_buffer\<close> that states what the log relies on, and its interpretation \<open>rb\<close>; \<open>Event_Log\<close> is \<open>EventLog\<close>:
  recording (in two stages, since the sequence number is taken before the lock), configuration,
  dumps; \<open>Event_Streams\<close> the tasks behind client streams (\<open>client_loop\<close>) and file streams, as functions of
  what the live channel returns to them; \<open>Event_Requests\<close> is \<open>handle_events_message\<close> of
  \<open>crates/server/src/lib.rs\<close> with what happens to streams when a connection goes away.  \<open>Event_System\<close> is the
  step relation in which threads stamp and commit records while the configuration changes and
  streams come and go; \<open>Event_Delivery\<close> what the frames and files of a stream show; \<open>Event_Properties\<close> the
  results.

  File synchronisation: \<open>Sync_Delta\<close> is \<open>encode_delta\<close> and \<open>apply_fs_delta\<close>; \<open>Sync_Wire\<close> the records of an update
  and \<open>FsMirror\<close>; \<open>Sync_Roundtrip\<close> the reader on what the writer wrote.  \<open>Sync_Diff\<close> is the index (\<open>NodeMeta\<close>), the
  path functions and \<open>diff\<close>, \<open>diff_changed\<close> and \<open>diff_classified\<close>; \<open>Str_Order\<close>, \<open>Sync_Paths\<close>, \<open>Sync_Join\<close> and
  \<open>Sync_Tree\<close> prove what its operations do to a tree, from prefixes in a sorted list to the join of moves, and
  \<open>Sync_Nested\<close> what becomes of an entry two nested moves claim.
  \<open>Sync_Blob\<close> is \<open>BlobStore\<close> with its accounting; \<open>Sync_Engine\<close> the state of \<open>SyncEngine\<close>, verified reads, the record of
  one entry, retries and the echo of a landed write; \<open>Sync_Emit\<close> its inbox, \<open>emit_updates\<close>, \<open>send_update\<close>, \<open>tick\<close> and a
  turn of \<open>event_loop\<close>.  \<open>Sync_Follow\<close>, \<open>Sync_Series\<close> and \<open>Sync_Batches\<close> simulate one record, a series and the messages
  of a tick on the mirror; \<open>Sync_Window\<close> is the window in every reachable state (\<open>sync_reach\<close>), \<open>Sync_Demo\<close> a small
  tree, engine and client for the witnesses, and \<open>Sync_Properties\<close> the results.

  \<^bold>\<open>What the lemmas show.\<close>
  \<open>Frame_Properties\<close>: the frame invariant is kept by every message, malformed ones included; the
  encoder's message makes the client show the server's frame, over whole sequences of frames; what is
  never sent; bounds of copies and patches.  \<open>Text_Properties\<close>: what each kind of node draws and that nothing
  else of the frame changes, written cells and text read back, wrapping neither loses text nor overruns by
  its own count.  \<open>Channel_Properties\<close>: the codecs are exact; connection,
  window and listener budgets hold in every reachable state and are released; the tables stay
  symmetric; ids are not reused before their last packet is written; watchers are sent exactly the lists
  that are news to them; and what each request does.
  \<open>Kv_Properties\<close>: messages and records round trip; a put is a compare and swap on a map under a
  budget; byte, entry, window and in-flight budgets hold in every reachable state; an open watcher's
  mirror shows the map but for keys whose echo the writer owes, and all of it once the writer has come
  to rest, which it does; a store reopened on what the database kept has every entry a durable transaction
  wrote, though others may have failed or been lost.
  \<open>Event_Properties\<close>: the codec is exact; the ring refines a bounded first-in first-out buffer under any
  pushes and resizes; in every interleaving each sequence number is carried by exactly one record and
  held, dropped and pending records add up; a configuration request is a compare and swap against
  the whole history since its revision was read (up to the period of the revision counter); client
  and file streams account for every record one by one, as shown or as counted in a gap.
  \<open>Sync_Properties\<close>: the operations of a difference turn the old tree into the new one unless moves are
  nested; updates and deltas round trip; a client that shows the engine's shadow shows the next one after a
  tick; the bytes in flight are exact and within the window; and four cases in which the client is left
  behind: nested moves, a type changed and changed back, the client's own write, a file at the size limit.

  \<^bold>\<open>Parameters and bounds.\<close> Code outside the repository is an argument of the definitions. LZ4
  (\<open>compress\<close>, \<open>decompress\<close>) is used only through \<open>lz4_contract\<close>: decompressing
  what was compressed gives it back, with the length in the first four bytes. The display width of a character and the
  admission callback of an outbox (\<open>reserve\<close>) are arbitrary functions. The store takes BLAKE3 and the
  time as arbitrary values and the database as a commit function, used through \<open>survives\<close>: what is found
  after a reopening holds each transaction whole or not at all and in order, and none is missing up to the last
  successful durable one except those that failed. Its outbox is the list of frames it accepted and whether its
  connection is up. The journal takes the clock as a function, the file system as a record of functions
  (\<open>file_env\<close>, used through \<open>tokio_file\<close>: an accepted write is buffered after what was
  written before and reaches the file with a flush at the latest, and one that fails may have written part) and
  tokio's \<open>broadcast\<close> channel as the list of results a receiver gets, which
  \<open>broadcast_delivers\<close> relates to what was sent: each record once, in order, a run that was missed
  replaced by its length. The surroundings of a sync engine are a record of functions (\<open>sync_env\<close>): what
  the \<open>n\<close>th stat and read of a path answer, the hash, used through \<open>hashed_contents\<close> (it
  tells the contents apart that are sent), and the time, which stands still within a turn. Of the disk a tick needs
  only that the entries whose content it carries (\<open>carries_content\<close>) read back the same; directories are
  never read. Reservation guards, which the code counts with \<open>Arc\<close>, carry explicit reference counts.
  Every loop of the code is a total function: the byte cursors decrease \<open>length batch - off\<close>, the id
  search of the fabric runs over the whole 31-bit space once, \<open>client_loop\<close> decreases twice the results
  left plus the record set aside, \<open>evict_until\<close> the bytes in use, \<open>wait_for_credit\<close> the
  messages in the inbox (an empty one makes the engine wait), and no definition takes fuel;
  \<open>alloc_id_loop\<close> and \<open>read_attempts\<close> count the rounds of the code's own \<open>for\<close>.

  \<^bold>\<open>Not modelled.\<close>  The rest of the workspace is I/O, encoders, rendering and processes around
  these data structures: sessions, scheduling and ptys (\<open>server/src/lib.rs\<close>, \<open>process.rs\<close>), video and
  audio encoding, the Wayland compositor, the terminal emulator driver (whose parser is a foreign
  crate), the browser viewer, the command line client, git, language servers,
  gateways and transports, fonts, the guest library, and the wire formats of those services.  Of file
  synchronisation the reconciler, the scanning and watching of directories, the ignore rules and the execution of
  fetches, writes and uploads are left out: they are calls into the operating system, and a request is
  in the model what it leaves in the engine (\<open>landing\<close>).  Of the journal, failures of
  spawned tasks (panics) are left out, and a size is taken to fit the host's 64-bit \<open>usize\<close>.  The locks of the code are not modelled as
  such: an operation that runs under one is a single step.
\<close>

end
